(* ===== verification/Prelude.thy ===== *)
theory Prelude
  imports Main "HOL-Library.Word" "HOL-Library.Char_ord"
begin

text \<open>
  Shared vocabulary of the development.

  \<^item> \<open>fault\<close>: what a C execution can run into that is not a value: a null or
    out-of-bounds access, a read of an uninitialised variable, a division by zero, a call of
    \<open>abort\<close>, a second \<open>free\<close>, an access to freed memory,
    a \<open>memcpy\<close> between overlapping regions, a write to a constant object, or a loop that has used up the model's fuel.
  \<^item> \<open>'a res\<close>: a C computation that either faults (\<open>Inl\<close>) or returns (\<open>Inr\<close>);
    \<open>rbind\<close> sequences two of them and \<open>rfold\<close> is a \<open>for\<close> loop over a list.
  \<^item> C strings: a string value is a \<open>char list\<close> without the terminator; a pointer that may be
    \<open>NULL\<close> is a \<open>string option\<close>. Where the code walks a buffer with a pointer, the buffer
    is a \<open>char list\<close> with the terminator in it, the pointer is the suffix still to be read and
    \<open>deref\<close> faults on the empty suffix, so that reading past the end is visible.
  \<^item> the parts of the C library the code calls: decimal printing and reading of integers.
\<close>

unbundle bit_operations_syntax

named_theorems res_simps \<open>rewriting of fault-or-value computations\<close>
named_theorems store_simps \<open>loads after allocations and updates of the node store\<close>

subsection \<open>Faults and results\<close>

datatype fault =
    NullDeref
  | OutOfBounds
  | UninitRead
  | DivByZero
  | BadFree
  | UseAfterFree
  | Overlap
  | ConstWrite
  | Aborted
  | OutOfFuel

type_synonym 'a res = "fault + 'a"

definition rbind :: "'a res \<Rightarrow> ('a \<Rightarrow> 'b res) \<Rightarrow> 'b res" where
  "rbind m f = (case m of Inl e \<Rightarrow> Inl e | Inr x \<Rightarrow> f x)"

primrec rfold :: "('s \<Rightarrow> 'a \<Rightarrow> 's res) \<Rightarrow> 's \<Rightarrow> 'a list \<Rightarrow> 's res" where
  "rfold f s [] = Inr s"
| "rfold f s (x # xs) = rbind (f s x) (\<lambda>s'. rfold f s' xs)"

lemma rbind_Inl [simp]: "rbind (Inl e) f = Inl e"
  by (simp add: rbind_def)

lemma rbind_Inr [simp]: "rbind (Inr x) f = f x"
  by (simp add: rbind_def)

lemma rbind_eq_Inr: "rbind m f = Inr y \<longleftrightarrow> (\<exists>x. m = Inr x \<and> f x = Inr y)"
  by (cases m) auto

lemma rbind_eq_Inl: "rbind m f = Inl e \<longleftrightarrow> m = Inl e \<or> (\<exists>x. m = Inr x \<and> f x = Inl e)"
  by (cases m) auto

lemma rbind_InrE [elim!]:
  assumes "rbind m f = Inr y"
  obtains x where "m = Inr x" "f x = Inr y"
  using assms by (auto simp: rbind_eq_Inr)

lemma rbind_assoc: "rbind (rbind m f) g = rbind m (\<lambda>x. rbind (f x) g)"
  by (cases m) auto

lemma rbind_if [res_simps]: "rbind (if b then m else n) f = (if b then rbind m f else rbind n f)"
  by simp

lemma rbind_cong [fundef_cong]:
  "m = m' \<Longrightarrow> (\<And>x. m' = Inr x \<Longrightarrow> f x = f' x) \<Longrightarrow> rbind m f = rbind m' f'"
  by (cases m') auto

lemma rfold_append: "rfold f s (xs @ ys) = rbind (rfold f s xs) (\<lambda>s'. rfold f s' ys)"
  by (induction xs arbitrary: s) (auto simp: rbind_assoc)

text \<open>A loop whose body always returns and keeps an invariant returns and keeps it.\<close>

lemma rfold_invariant:
  assumes "\<And>s x. x \<in> set xs \<Longrightarrow> I s \<Longrightarrow> \<exists>s'. f s x = Inr s' \<and> I s'" and "I s"
  shows "\<exists>s'. rfold f s xs = Inr s' \<and> I s'"
  using assms
proof (induction xs arbitrary: s)
  case Nil
  then show ?case by simp
next
  case (Cons x xs)
  from Cons.prems obtain s1 where s1: "f s x = Inr s1" "I s1"
    by fastforce
  have "\<exists>s'. rfold f s1 xs = Inr s' \<and> I s'"
    by (rule Cons.IH) (use Cons.prems s1 in auto)
  with s1 show ?case by simp
qed

text \<open>\<open>ends m\<close>: the computation does not run out of fuel (it may fault otherwise).\<close>

definition ends :: "'a res \<Rightarrow> bool" where
  "ends m \<longleftrightarrow> m \<noteq> Inl OutOfFuel"

lemma ends_simps [simp]: "ends (Inr x)" "ends (Inl e) \<longleftrightarrow> e \<noteq> OutOfFuel"
  by (simp_all add: ends_def)

lemma ends_rbind [intro]: "ends m \<Longrightarrow> (\<And>x. m = Inr x \<Longrightarrow> ends (f x)) \<Longrightarrow> ends (rbind m f)"
  by (cases m) auto

subsection \<open>C strings\<close>

type_synonym cptr = "string option"

abbreviation NUL :: char where
  "NUL \<equiv> CHR 0x00"

fun the_str :: "cptr \<Rightarrow> string res" where
  "the_str None = Inl NullDeref"
| "the_str (Some s) = Inr s"

fun deref :: "char list \<Rightarrow> char res" where
  "deref [] = Inl OutOfBounds"
| "deref (c # cs) = Inr c"

definition cstr :: "string \<Rightarrow> char list" where
  "cstr s = s @ [NUL]"

definition nul_free :: "string \<Rightarrow> bool" where
  "nul_free s \<longleftrightarrow> NUL \<notin> set s"

lemma nul_free_simps [simp]:
  "nul_free []" "nul_free (c # s) \<longleftrightarrow> c \<noteq> NUL \<and> nul_free s"
  "nul_free (s @ t) \<longleftrightarrow> nul_free s \<and> nul_free t"
  by (auto simp: nul_free_def)

abbreviation is_digit :: "char \<Rightarrow> bool" where
  "is_digit c \<equiv> CHR ''0'' \<le> c \<and> c \<le> CHR ''9''"

definition digit_val :: "char \<Rightarrow> int" where
  "digit_val c = of_char c - 48"

subsection \<open>Decimal integers of the C library\<close>

definition digit_char :: "nat \<Rightarrow> char" where
  "digit_char d = char_of (48 + d)"

fun show_nat :: "nat \<Rightarrow> string" where
  "show_nat n = (if n < 10 then [digit_char n] else show_nat (n div 10) @ [digit_char (n mod 10)])"

declare show_nat.simps [simp del]

text \<open>\<open>sprintf ("%d")\<close> and \<open>itoa (n, buf, 10)\<close>.\<close>

definition show_int :: "int \<Rightarrow> string" where
  "show_int i = (if i < 0 then CHR ''-'' # show_nat (nat (- i)) else show_nat (nat i))"

primrec read_digits :: "int \<Rightarrow> string \<Rightarrow> int" where
  "read_digits n [] = n"
| "read_digits n (c # cs) = (if is_digit c then read_digits (n * 10 + digit_val c) cs else n)"

abbreviation is_space :: "char \<Rightarrow> bool" where
  "is_space c \<equiv> c = CHR '' '' \<or> (CHR 0x09 \<le> c \<and> c \<le> CHR 0x0D)"

text \<open>\<open>atoi\<close>: leading white space, one optional sign, then digits up to the first other byte.\<close>

definition atoi :: "string \<Rightarrow> int" where
  "atoi s = (case dropWhile is_space s of
       [] \<Rightarrow> 0
     | c # cs \<Rightarrow>
         if c = CHR ''-'' then - read_digits 0 cs
         else if c = CHR ''+'' then read_digits 0 cs
         else read_digits 0 (c # cs))"

lemma digit_char_props:
  assumes "d < 10"
  shows "is_digit (digit_char d)" "digit_val (digit_char d) = int d"
    "digit_char d \<noteq> NUL" "\<not> is_space (digit_char d)"
    "digit_char d \<noteq> CHR ''-''" "digit_char d \<noteq> CHR ''+''"
    "of_char (digit_char d) = (48 + d :: nat)"
proof -
  have all: "\<forall>d\<in>set [0..<10]. is_digit (digit_char d) \<and> digit_val (digit_char d) = int d \<and>
      digit_char d \<noteq> NUL \<and> \<not> is_space (digit_char d) \<and> digit_char d \<noteq> CHR ''-'' \<and>
      digit_char d \<noteq> CHR ''+'' \<and> of_char (digit_char d) = (48 + d :: nat)"
    by code_simp
  from assms have "d \<in> set [0..<10]" by simp
  with all show "is_digit (digit_char d)" "digit_val (digit_char d) = int d"
    "digit_char d \<noteq> NUL" "\<not> is_space (digit_char d)"
    "digit_char d \<noteq> CHR ''-''" "digit_char d \<noteq> CHR ''+''"
    "of_char (digit_char d) = (48 + d :: nat)"
    by blast+
qed

subsection \<open>Decimal texts\<close>

lemma show_nat_digits: "c \<in> set (show_nat n) \<Longrightarrow> \<exists>d<10. c = digit_char d"
proof (induction n rule: show_nat.induct)
  case (1 n)
  then show ?case
    by (subst (asm) (2) show_nat.simps) (auto split: if_splits intro: exI [of _ "n mod 10"])
qed

lemma show_nat_not_Nil [simp]: "show_nat n \<noteq> []"
  by (subst show_nat.simps) simp

lemma show_nat_nul_free [simp]: "nul_free (show_nat n)"
  unfolding nul_free_def by (metis show_nat_digits digit_char_props(3))

lemma show_nat_all_digits: "\<forall>c\<in>set (show_nat n). is_digit c"
  using show_nat_digits digit_char_props(1) by blast

lemma read_digits_snoc:
  "\<forall>c\<in>set cs. is_digit c \<Longrightarrow> is_digit d \<Longrightarrow> read_digits n (cs @ [d]) = read_digits n cs * 10 + digit_val d"
  by (induction cs arbitrary: n) auto

lemma read_show_nat: "read_digits 0 (show_nat n) = int n"
proof (induction n rule: show_nat.induct)
  case (1 n)
  show ?case
  proof (cases "n < 10")
    case True
    then show ?thesis using digit_char_props(1,2) [OF True] by (simp add: show_nat.simps [of n])
  next
    case False
    have m: "n mod 10 < 10" by simp
    have "read_digits 0 (show_nat n) = read_digits 0 (show_nat (n div 10)) * 10 + digit_val (digit_char (n mod 10))"
      by (subst show_nat.simps)
        (use False in \<open>simp add: read_digits_snoc [OF show_nat_all_digits digit_char_props(1) [OF m]]\<close>)
    with 1 [OF False] digit_char_props(2) [OF m] have "read_digits 0 (show_nat n) = int (n div 10) * 10 + int (n mod 10)"
      by simp
    also have "\<dots> = int (n div 10 * 10 + n mod 10)" by (simp only: of_nat_add of_nat_mult of_nat_numeral)
    finally show ?thesis by (simp only: div_mult_mod_eq)
  qed
qed

lemma atoi_show_nat: "atoi (show_nat n) = int n"
proof -
  obtain c cs where c: "show_nat n = c # cs" by (cases "show_nat n") auto
  then obtain d where d: "d < 10" "c = digit_char d" using show_nat_digits [of c n] by auto
  have "dropWhile is_space (c # cs) = c # cs" using digit_char_props(4) [OF d(1)] d(2) by (simp only: dropWhile.simps if_False)
  then show ?thesis
    using digit_char_props(5,6) [OF d(1)] read_show_nat [of n] by (simp only: atoi_def c d(2) list.case if_False)
qed

lemma show_nat_length: "n < 10 ^ Suc k \<Longrightarrow> length (show_nat n) \<le> Suc k"
proof (induction k arbitrary: n)
  case 0
  then show ?case by (simp add: show_nat.simps [of n])
next
  case (Suc k)
  show ?case
  proof (cases "n < 10")
    case True
    then show ?thesis by (simp add: show_nat.simps [of n])
  next
    case False
    have "n div 10 < 10 ^ Suc k" using Suc.prems by (simp add: less_mult_imp_div_less)
    from Suc.IH [OF this] False show ?thesis by (subst show_nat.simps) simp
  qed
qed

end
