(* ===== verification/Interfaces.thy ===== *)
theory Interfaces
  imports Prelude
begin

text \<open>
  The contracts between components, as locales. \<open>string_map\<close> is what the command interpreter and
  the dump reader rely on in the key-value store: a state that stands for a finite map from strings
  to strings, an insertion and a lookup with a default. Its lemmas are proved once from the two
  laws; the key-value store interprets it on the model of \<open>keyvalue.c\<close>. \<open>fifo\<close> is the contract of a queue; the model of
  \<open>lock_free_queue.c\<close> interprets it.
\<close>

subsection \<open>Maps from strings to strings\<close>

locale string_map =
  fixes models :: "'s \<Rightarrow> (string \<Rightarrow> string option) \<Rightarrow> bool"
    and put :: "'s \<Rightarrow> string \<Rightarrow> string \<Rightarrow> 's res"
    and get :: "'s \<Rightarrow> string \<Rightarrow> ('s \<times> string) res"
    and dflt :: string
  assumes put_law: "models s m \<Longrightarrow> \<exists>s'. put s k v = Inr s' \<and> models s' (m(k \<mapsto> v))"
    and get_law: "models s m \<Longrightarrow>
      \<exists>s'. get s k = Inr (s', case m k of Some v \<Rightarrow> v | None \<Rightarrow> dflt) \<and> models s' m"
begin

lemma get_put:
  assumes "models s m"
  shows "\<exists>s1 s2. put s k v = Inr s1 \<and> get s1 k = Inr (s2, v) \<and> models s2 (m(k \<mapsto> v))"
proof -
  from put_law [OF assms] obtain s1 where s1: "put s k v = Inr s1" "models s1 (m(k \<mapsto> v))" by blast
  from get_law [OF s1(2), of k] obtain s2 where "get s1 k = Inr (s2, v)" "models s2 (m(k \<mapsto> v))" by auto
  with s1 show ?thesis by blast
qed

lemma get_put_other:
  assumes "models s m" "k' \<noteq> k"
  shows "\<exists>s1 s2. put s k v = Inr s1 \<and>
    get s1 k' = Inr (s2, case m k' of Some w \<Rightarrow> w | None \<Rightarrow> dflt) \<and> models s2 (m(k \<mapsto> v))"
proof -
  from put_law [OF assms(1)] obtain s1 where s1: "put s k v = Inr s1" "models s1 (m(k \<mapsto> v))" by blast
  from get_law [OF s1(2), of k'] assms(2) show ?thesis using s1 by auto
qed

text \<open>A sequence of insertions, later ones overwriting earlier ones.\<close>

lemma put_all:
  assumes "models s m"
  shows "\<exists>s'. rfold (\<lambda>s (k, v). put s k v) s kvs = Inr s' \<and> models s' (m ++ map_of (rev kvs))"
  using assms
proof (induction kvs arbitrary: s m)
  case Nil
  then show ?case by simp
next
  case (Cons kv kvs)
  obtain k v where kv: "kv = (k, v)" by (cases kv)
  from put_law [OF Cons.prems, of k v] obtain s1 where
    s1: "put s k v = Inr s1" "models s1 (m(k \<mapsto> v))" by blast
  have "m ++ map_of (rev (kv # kvs)) = m(k \<mapsto> v) ++ map_of (rev kvs)"
    by (auto simp: kv map_add_def fun_eq_iff split: option.split)
  with Cons.IH [OF s1(2)] s1(1) kv show ?case by (simp only: rfold.simps prod.case rbind_Inr)
qed

text \<open>Read, change the text read, write it back: the shape of the commands that extend a value.\<close>

lemma get_then_put:
  assumes "models s m"
  shows "\<exists>s'. rbind (get s k) (\<lambda>(s1, w). put s1 k (f w)) = Inr s' \<and>
    models s' (m(k \<mapsto> f (case m k of Some v \<Rightarrow> v | None \<Rightarrow> dflt)))"
proof -
  from get_law [OF assms, of k] obtain s1 where
    "get s k = Inr (s1, case m k of Some v \<Rightarrow> v | None \<Rightarrow> dflt)" "models s1 m" by blast
  with put_law [OF this(2)] show ?thesis by simp
qed

end

subsection \<open>First-in first-out queues\<close>

text \<open>
  \<open>fifo\<close> is what the users of a queue rely on: a state that stands for a list, insertion at its
  end, removal at its front and a special answer when it is empty.
\<close>

text \<open>\<open>n\<close> removals in a row and what each of them gave.\<close>

primrec drain :: "('s \<Rightarrow> ('s \<times> 'a option) res) \<Rightarrow> nat \<Rightarrow> 's \<Rightarrow> ('s \<times> 'a option list) res" where
  "drain deq 0 s = Inr (s, [])"
| "drain deq (Suc n) s = rbind (deq s) (\<lambda>(s1, x). rbind (drain deq n s1) (\<lambda>(s2, xs). Inr (s2, x # xs)))"

locale fifo =
  fixes holds :: "'s \<Rightarrow> 'a list \<Rightarrow> bool"
    and enq :: "'s \<Rightarrow> 'a \<Rightarrow> 's res"
    and deq :: "'s \<Rightarrow> ('s \<times> 'a option) res"
  assumes enq_law: "holds s xs \<Longrightarrow> \<exists>s'. enq s x = Inr s' \<and> holds s' (xs @ [x])"
    and deq_law: "holds s xs \<Longrightarrow> \<exists>s'. deq s = Inr (s', if xs = [] then None else Some (hd xs)) \<and> holds s' (tl xs)"
begin

lemma enq_all: "holds s xs \<Longrightarrow> \<exists>s'. rfold enq s ys = Inr s' \<and> holds s' (xs @ ys)"
proof (induction ys arbitrary: s xs)
  case Nil
  then show ?case by simp
next
  case (Cons y ys)
  from enq_law [OF Cons.prems, of y] obtain s1 where s1: "enq s y = Inr s1" "holds s1 (xs @ [y])" by blast
  from Cons.IH [OF s1(2)] s1(1) show ?case by simp
qed

lemma drain_all: "holds s xs \<Longrightarrow> \<exists>s'. drain deq (length xs) s = Inr (s', map Some xs) \<and> holds s' []"
proof (induction xs arbitrary: s)
  case Nil
  then show ?case by auto
next
  case (Cons x xs)
  from deq_law [OF Cons.prems] obtain s1 where s1: "deq s = Inr (s1, Some x)" "holds s1 xs" by auto
  from Cons.IH [OF s1(2)] s1(1) show ?case by auto
qed

text \<open>What goes in comes out, in the same order.\<close>

lemma in_order:
  assumes "holds s []"
  shows "\<exists>s1 s2. rfold enq s ys = Inr s1 \<and> drain deq (length ys) s1 = Inr (s2, map Some ys) \<and> holds s2 []"
proof -
  from enq_all [OF assms, of ys] obtain s1 where s1: "rfold enq s ys = Inr s1" "holds s1 ys" by auto
  from drain_all [OF s1(2)] s1(1) show ?thesis by blast
qed

end


subsection \<open>Bounded sequences\<close>

text \<open>
  \<open>bounded_seq\<close> is what the users of an array container rely on: a state that stands for a list,
  insertion at its end that either happens or is refused and changes nothing, removal at the end,
  and access by index.
\<close>

text \<open>Storing values until one is refused; the result is how many were stored.\<close>

primrec push_all :: "('c \<Rightarrow> 'a \<Rightarrow> (bool \<times> 'c) res) \<Rightarrow> 'c \<Rightarrow> 'a list \<Rightarrow> (nat \<times> 'c) res" where
  "push_all push c [] = Inr (0, c)"
| "push_all push c (x # xs) = rbind (push c x) (\<lambda>(ok, c1).
     if ok then rbind (push_all push c1 xs) (\<lambda>(n, c2). Inr (Suc n, c2)) else Inr (0, c1))"

primrec read_all :: "('c \<Rightarrow> nat \<Rightarrow> 'a res) \<Rightarrow> 'c \<Rightarrow> nat list \<Rightarrow> 'a list res" where
  "read_all at c [] = Inr []"
| "read_all at c (i # is) = rbind (at c i) (\<lambda>x. rbind (read_all at c is) (\<lambda>xs. Inr (x # xs)))"

locale bounded_seq =
  fixes holds :: "'c \<Rightarrow> 'a list \<Rightarrow> bool"
    and push :: "'c \<Rightarrow> 'a \<Rightarrow> (bool \<times> 'c) res"
    and pop :: "'c \<Rightarrow> 'c res"
    and at :: "'c \<Rightarrow> nat \<Rightarrow> 'a res"
  assumes push_law: "holds c xs \<Longrightarrow>
      \<exists>ok c'. push c x = Inr (ok, c') \<and> holds c' (if ok then xs @ [x] else xs)"
    and pop_law: "holds c (xs @ [x]) \<Longrightarrow> \<exists>c'. pop c = Inr c' \<and> holds c' xs"
    and at_law: "holds c xs \<Longrightarrow> i < length xs \<Longrightarrow> at c i = Inr (xs ! i)"
begin

lemma push_prefix:
  assumes "holds c xs"
  shows "\<exists>n c'. push_all push c ys = Inr (n, c') \<and> n \<le> length ys \<and> holds c' (xs @ take n ys)"
  using assms
proof (induction ys arbitrary: c xs)
  case Nil
  then show ?case by auto
next
  case (Cons y ys)
  from push_law [OF Cons.prems, of y] obtain ok c1 where
    p: "push c y = Inr (ok, c1)" "holds c1 (if ok then xs @ [y] else xs)" by blast
  show ?case
  proof (cases ok)
    case True
    with p obtain n c2 where "push_all push c1 ys = Inr (n, c2)" "n \<le> length ys"
        "holds c2 ((xs @ [y]) @ take n ys)"
      using Cons.IH [of c1 "xs @ [y]"] by auto
    with p True show ?thesis by (intro exI [of _ "Suc n"] exI [of _ c2]) simp
  next
    case False
    with p show ?thesis by (intro exI [of _ 0] exI [of _ c1]) simp
  qed
qed

lemma read_indices:
  assumes "holds c xs" "\<forall>i \<in> set is. i < length xs"
  shows "read_all at c is = Inr (map ((!) xs) is)"
  using assms(2) by (induction "is") (simp_all add: at_law [OF assms(1)])

lemma read_back: "holds c xs \<Longrightarrow> read_all at c [0..<length xs] = Inr xs"
  by (simp add: read_indices map_nth)

text \<open>What is stored comes back, as far as it fits.\<close>

lemma store_and_read:
  assumes "holds c []"
  shows "\<exists>n c'. push_all push c ys = Inr (n, c') \<and> n \<le> length ys \<and>
    read_all at c' [0..<n] = Inr (take n ys)"
proof -
  from push_prefix [OF assms, of ys] obtain n c' where
    n: "push_all push c ys = Inr (n, c')" "n \<le> length ys" "holds c' (take n ys)" by auto
  moreover have "length (take n ys) = n" using n(2) by simp
  ultimately show ?thesis using read_back [OF n(3)] by (simp only:) auto
qed

lemma push_pop:
  assumes "holds c xs" "push c x = Inr (True, c')"
  shows "\<exists>c2. pop c' = Inr c2 \<and> holds c2 xs"
proof -
  have "holds c' (xs @ [x])" using push_law [OF assms(1), of x] assms(2) by auto
  then show ?thesis by (rule pop_law)
qed

end

end
