(* ===== verification/Node_Store.thy ===== *)
theory Node_Store
  imports Prelude
begin

text \<open>
  The memory that holds \<open>struct __key_value_node\<close> (\<open>keyvalue.h\<close>), which is also the type
  \<open>Trie\<close> of \<open>trie_tree.h\<close>. Memory is a list of blocks: every call
  \<open>sub_allocate(n * sizeof(struct __key_value_node))\<close> followed by \<open>memset(.., 0, ..)\<close> makes a
  new block of \<open>n\<close> zeroed nodes (no code path frees a node). A node pointer is \<open>NULL\<close>
  (\<open>None\<close>) or a block number and an index into it; a load or a store outside the block faults.
  The strings a node points to are values: what the code does with the bytes of a string buffer is
  modelled in the theory of string buffers. \<open>leaked\<close> counts the nodes obtained from
  \<open>malloc\<close> that no pointer reaches afterwards.
\<close>

datatype address = Addr (blk: nat) (idx: nat)

type_synonym ptr = "address option"

record knode =
  nd_next :: ptr
  nd_child :: ptr
  nd_lock :: int
  nd_size :: int
  nd_key :: cptr
  nd_value :: cptr

definition zero_node :: knode where
  "zero_node = \<lparr>nd_next = None, nd_child = None, nd_lock = 0, nd_size = 0, nd_key = None, nd_value = None\<rparr>"

record nstate =
  cells :: "address \<Rightarrow> knode"
  lens :: "nat list"
  leaked :: nat

definition empty_store :: nstate where
  "empty_store = \<lparr>cells = (\<lambda>_. zero_node), lens = [], leaked = 0\<rparr>"

definition valid :: "nstate \<Rightarrow> address \<Rightarrow> bool" where
  "valid s a \<longleftrightarrow> blk a < length (lens s) \<and> idx a < lens s ! blk a"

fun load :: "nstate \<Rightarrow> ptr \<Rightarrow> knode res" where
  "load s None = Inl NullDeref"
| "load s (Some a) = (if valid s a then Inr (cells s a) else Inl OutOfBounds)"

definition poke :: "nstate \<Rightarrow> address \<Rightarrow> (knode \<Rightarrow> knode) \<Rightarrow> nstate" where
  "poke s a f = s\<lparr>cells := (cells s)(a := f (cells s a))\<rparr>"

fun modify :: "nstate \<Rightarrow> ptr \<Rightarrow> (knode \<Rightarrow> knode) \<Rightarrow> nstate res" where
  "modify s None f = Inl NullDeref"
| "modify s (Some a) f = (if valid s a then Inr (poke s a f) else Inl OutOfBounds)"

text \<open>\<open>sub_allocate(n * sizeof(node))\<close> and \<open>memset(p, 0, n * sizeof(node))\<close>.\<close>

definition alloc_nodes :: "nstate \<Rightarrow> nat \<Rightarrow> nstate \<times> ptr" where
  "alloc_nodes s n =
     (let b = length (lens s) in
      (s\<lparr>cells := (\<lambda>a. if blk a = b then zero_node else cells s a), lens := lens s @ [n]\<rparr>,
       Some (Addr b 0)))"

definition leak_node :: "nstate \<Rightarrow> nstate" where
  "leak_node s = s\<lparr>leaked := Suc (leaked s)\<rparr>"

text \<open>\<open>&p[i]\<close>\<close>

fun ptr_add :: "ptr \<Rightarrow> nat \<Rightarrow> ptr" where
  "ptr_add None i = None"
| "ptr_add (Some a) i = Some (Addr (blk a) (idx a + i))"

definition node_count :: "nstate \<Rightarrow> nat" where
  "node_count s = sum_list (lens s)"

subsection \<open>Loads, updates and allocations\<close>

lemma valid_poke [simp]: "valid (poke s a f) b \<longleftrightarrow> valid s b"
  by (simp add: valid_def poke_def)

lemma cells_poke: "cells (poke s a f) b = (if b = a then f (cells s a) else cells s b)"
  by (simp add: poke_def)

lemma cells_poke_same [simp]: "cells (poke s a f) a = f (cells s a)"
  by (simp add: poke_def)

lemma cells_poke_other [simp]: "b \<noteq> a \<Longrightarrow> cells (poke s a f) b = cells s b"
  by (simp add: poke_def)

lemma lens_poke [simp]: "lens (poke s a f) = lens s"
  by (simp add: poke_def)

lemma leaked_poke [simp]: "leaked (poke s a f) = leaked s"
  by (simp add: poke_def)

lemma poke_poke [simp]: "poke (poke s a f) a g = poke s a (\<lambda>n. g (f n))"
  by (simp add: poke_def)

lemma load_valid: "valid s a \<Longrightarrow> load s (Some a) = Inr (cells s a)"
  by simp

lemma alloc_nodes_props:
  assumes "alloc_nodes s n = (s', p)"
  shows "p = Some (Addr (length (lens s)) 0)" "lens s' = lens s @ [n]" "leaked s' = leaked s"
    "\<And>a. valid s a \<Longrightarrow> valid s' a" "\<And>a. valid s a \<Longrightarrow> cells s' a = cells s a"
    "\<And>i. i < n \<Longrightarrow> valid s' (Addr (length (lens s)) i)"
    "\<And>i. cells s' (Addr (length (lens s)) i) = zero_node"
  using assms by (auto simp: alloc_nodes_def Let_def valid_def nth_append)

lemma alloc_fresh: "\<not> valid s (Addr (length (lens s)) i)"
  by (simp add: valid_def)

lemma leak_node_simps [simp]:
  "cells (leak_node s) = cells s" "lens (leak_node s) = lens s"
  "valid (leak_node s) = valid s" "leaked (leak_node s) = Suc (leaked s)"
  "load (leak_node s) = load s"
proof -
  show c: "cells (leak_node s) = cells s" and l: "lens (leak_node s) = lens s"
    and "leaked (leak_node s) = Suc (leaked s)"
    by (auto simp: leak_node_def)
  then show v: "valid (leak_node s) = valid s" by (auto simp: valid_def)
  show "load (leak_node s) = load s"
  proof
    fix p show "load (leak_node s) p = load s p" by (cases p) (auto simp: c v)
  qed
qed

subsection \<open>Chains of nodes\<close>

text \<open>
  \<open>linked s p as\<close>: following \<open>next\<close> from \<open>p\<close> visits exactly the valid nodes
  \<open>as\<close> and ends in \<open>NULL\<close>.
\<close>

primrec linked :: "nstate \<Rightarrow> ptr \<Rightarrow> address list \<Rightarrow> bool" where
  "linked s p [] \<longleftrightarrow> p = None"
| "linked s p (a # as) \<longleftrightarrow> p = Some a \<and> valid s a \<and> linked s (nd_next (cells s a)) as"

lemma linked_valid: "linked s p as \<Longrightarrow> a \<in> set as \<Longrightarrow> valid s a"
  by (induction as arbitrary: p) auto

lemma linked_unique: "linked s p as \<Longrightarrow> linked s p bs \<Longrightarrow> as = bs"
  by (induction as arbitrary: p bs) (case_tac bs, auto)+

lemma linked_frame:
  assumes "linked s p as" and "\<And>a. a \<in> set as \<Longrightarrow> valid s' a"
    and "\<And>a. a \<in> set as \<Longrightarrow> nd_next (cells s' a) = nd_next (cells s a)"
  shows "linked s' p as"
  using assms by (induction as arbitrary: p) auto

lemma linked_None [simp]: "linked s None as \<longleftrightarrow> as = []"
  by (cases as) auto

lemma linked_append:
  "linked s p (as @ b # bs) \<Longrightarrow> linked s (Some b) (b # bs)"
  by (induction as arbitrary: p) auto

lemma linked_next_last:
  "linked s p as \<Longrightarrow> as \<noteq> [] \<Longrightarrow> nd_next (cells s (last as)) = None"
  by (induction as arbitrary: p) auto

lemma linked_next_butlast:
  assumes "linked s p as" "a \<in> set (butlast as)"
  shows "nd_next (cells s a) \<noteq> None"
  using assms
proof (induction as arbitrary: p)
  case Nil
  then show ?case by simp
next
  case (Cons b as)
  then show ?case
    by (cases as) (auto split: if_splits)
qed

text \<open>A chain visits no node twice.\<close>

lemma linked_distinct: "linked s p as \<Longrightarrow> distinct as"
proof (induction as arbitrary: p)
  case Nil
  then show ?case by simp
next
  case (Cons a as)
  have "a \<notin> set as"
  proof
    assume "a \<in> set as"
    then obtain us vs where as: "as = us @ a # vs" by (auto simp: in_set_conv_decomp)
    from Cons.prems have "linked s (nd_next (cells s a)) (us @ a # vs)"
      using as by simp
    then have "linked s (Some a) (a # vs)" by (rule linked_append)
    then have "a # vs = a # as"
      using Cons.prems linked_unique by fastforce
    with as show False by simp
  qed
  with Cons show ?case by auto
qed

text \<open>A new node hung behind the last node of a chain extends the chain.\<close>

lemma linked_extend:
  assumes "linked s p as" "as \<noteq> []" "valid s' b" "b \<notin> set as"
    and "\<And>a. a \<in> set as \<Longrightarrow> valid s' a"
    and "\<And>a. a \<in> set (butlast as) \<Longrightarrow> nd_next (cells s' a) = nd_next (cells s a)"
    and "nd_next (cells s' (last as)) = Some b" "nd_next (cells s' b) = None"
  shows "linked s' p (as @ [b])"
  using assms
proof (induction as arbitrary: p)
  case Nil
  then show ?case by simp
next
  case (Cons a as)
  show ?case
  proof (cases "as = []")
    case True
    with Cons.prems show ?thesis by auto
  next
    case False
    from Cons.prems(1) have l: "linked s (nd_next (cells s a)) as" by simp
    have "linked s' (nd_next (cells s a)) (as @ [b])"
      by (rule Cons.IH [OF l False]) (use Cons.prems False in auto)
    with Cons.prems False show ?thesis by auto
  qed
qed

text \<open>The addresses of a chain are among the nodes of memory, so a chain is no longer than memory.\<close>

lemma valid_finite_card:
  "finite {a. valid s a}" "card {a. valid s a} = node_count s"
proof -
  let ?S = "SIGMA b:{..<length (lens s)}. {..<lens s ! b}"
  have eq: "{a. valid s a} = (\<lambda>(b, i). Addr b i) ` ?S"
  proof (intro equalityI subsetI)
    fix a assume "a \<in> {a. valid s a}"
    then show "a \<in> (\<lambda>(b, i). Addr b i) ` ?S"
      by (cases a) (auto simp: valid_def image_iff)
  qed (auto simp: valid_def)
  have inj: "inj_on (\<lambda>(b, i). Addr b i) ?S" by (auto simp: inj_on_def)
  show "finite {a. valid s a}" by (simp add: eq)
  have "card {a. valid s a} = (\<Sum>b<length (lens s). lens s ! b)"
    by (simp add: eq card_image [OF inj])
  also have "\<dots> = node_count s"
    by (simp add: node_count_def sum_list_sum_nth atLeast0LessThan)
  finally show "card {a. valid s a} = node_count s" .
qed

lemma linked_length: "linked s p as \<Longrightarrow> length as \<le> node_count s"
proof -
  assume l: "linked s p as"
  have "length as = card (set as)"
    using linked_distinct [OF l] by (simp add: distinct_card)
  also have "\<dots> \<le> card {a. valid s a}"
    using linked_valid [OF l] by (intro card_mono valid_finite_card) auto
  finally show ?thesis by (simp add: valid_finite_card)
qed

end
