(* ===== verification/Key_Value.thy ===== *)
theory Key_Value
  imports Node_Store Interfaces
begin

text \<open>
  The key-value store of \<open>keyvalue.c\<close>: a table of 2048 nodes indexed by \<open>hash\<close>, each the
  head of a chain linked by \<open>next\<close> that ends in an empty node. The first part translates
  \<open>hash\<close>, \<open>__key_value_init\<close>, \<open>__key_value_insert\<close>, \<open>__key_value_get_node\<close>,
  \<open>__key_value_get\<close> and \<open>get_from_pool\<close>; the second gives the shape of the table as an
  invariant, the finite map it stores, and proves that the operations implement that map.
\<close>

subsection \<open>Definitions\<close>

abbreviation KEY_VALUE_SIZE :: nat where
  "KEY_VALUE_SIZE \<equiv> 2048"

definition NO_VALUE :: string where
  "NO_VALUE = ''k_v_no_value_saved''"

primrec hash_loop :: "32 word \<Rightarrow> string \<Rightarrow> 32 word" where
  "hash_loop h [] = h"
| "hash_loop h (c # cs) = hash_loop (31 * h + of_char c) cs"

definition hash :: "string \<Rightarrow> 32 word" where
  "hash str = hash_loop 0 str mod 2048"

text \<open>\<open>__key_value_init\<close>\<close>

definition kv_init :: "nstate \<Rightarrow> (nstate \<times> ptr) res" where
  "kv_init s =
     (let (s1, k_v) = alloc_nodes s KEY_VALUE_SIZE
      in rbind (modify s1 k_v (\<lambda>n. n\<lparr>nd_size := int KEY_VALUE_SIZE\<rparr>)) (\<lambda>s2. Inr (s2, k_v)))"

text \<open>
  \<open>__key_value_insert\<close>: the walk stops at the node of the key or at the last node of the chain;
  the last node gets a new empty successor; then key and value are written under the lock flag.
\<close>

fun insert_walk :: "nat \<Rightarrow> nstate \<Rightarrow> ptr \<Rightarrow> string \<Rightarrow> ptr res" where
  "insert_walk 0 s iter key = Inl OutOfFuel"
| "insert_walk (Suc n) s iter key =
     (if iter = None then Inr iter
      else rbind (load s iter) (\<lambda>nd.
        if nd_next nd = None then Inr iter
        else rbind (the_str (nd_key nd)) (\<lambda>k.
          if k = key then Inr iter else insert_walk n s (nd_next nd) key)))"

definition insert_link :: "nstate \<Rightarrow> ptr \<Rightarrow> nstate res" where
  "insert_link s iter =
     rbind (load s iter) (\<lambda>nd.
       if nd_key nd = None \<or> nd_next nd = None then
         let (s1, newnode) = alloc_nodes s 1 in modify s1 iter (\<lambda>n. n\<lparr>nd_next := newnode\<rparr>)
       else Inr s)"

definition insert_write :: "nstate \<Rightarrow> ptr \<Rightarrow> string \<Rightarrow> string \<Rightarrow> nstate res" where
  "insert_write s iter key value =
     rbind (load s iter) (\<lambda>nd.
       if nd_lock nd = 0 then
         rbind (modify s iter (\<lambda>n. n\<lparr>nd_lock := 1\<rparr>)) (\<lambda>s1.
         rbind (modify s1 iter (\<lambda>n. n\<lparr>nd_value := Some value\<rparr>)) (\<lambda>s2.
         rbind (modify s2 iter (\<lambda>n. n\<lparr>nd_key := Some key\<rparr>)) (\<lambda>s3.
         modify s3 iter (\<lambda>n. n\<lparr>nd_lock := 0\<rparr>))))
       else Inr s)"

definition kv_insert :: "nstate \<Rightarrow> ptr \<Rightarrow> cptr \<Rightarrow> cptr \<Rightarrow> (nstate \<times> ptr) res" where
  "kv_insert s key_value key value =
     rbind (the_str key) (\<lambda>k.
     rbind (the_str value) (\<lambda>v.
     rbind (insert_walk (Suc (node_count s)) s (ptr_add key_value (unat (hash k))) k) (\<lambda>iter.
     rbind (insert_link s iter) (\<lambda>s1.
     rbind (insert_write s1 iter k v) (\<lambda>s2.
     Inr (s2, iter))))))"

text \<open>The loop of \<open>__key_value_get_node\<close> and \<open>__key_value_get\<close> over the chain.\<close>

fun get_walk :: "nat \<Rightarrow> nstate \<Rightarrow> ptr \<Rightarrow> string \<Rightarrow> ptr res" where
  "get_walk 0 s iter key = Inl OutOfFuel"
| "get_walk (Suc n) s iter key =
     (if iter = None then Inr None
      else rbind (load s iter) (\<lambda>nd.
        if nd_next nd = None then Inr None
        else if nd_key nd = Some key then Inr iter
        else get_walk n s (nd_next nd) key))"

text \<open>\<open>__key_value_get_node\<close>: the node obtained from \<open>malloc\<close> for \<open>_temp_k_v\<close> is never freed.\<close>

definition kv_get_node :: "nstate \<Rightarrow> ptr \<Rightarrow> cptr \<Rightarrow> (nstate \<times> ptr) res" where
  "kv_get_node s key_value key =
     rbind (the_str key) (\<lambda>k.
       let slot = ptr_add key_value (unat (hash k)); s1 = leak_node s in
       rbind (load s1 slot) (\<lambda>nd.
         if nd_key nd = Some k then Inr (s1, slot)
         else rbind (get_walk (Suc (node_count s1)) s1 (nd_next nd) k) (\<lambda>iter. Inr (s1, iter))))"

definition kv_get :: "nstate \<Rightarrow> ptr \<Rightarrow> cptr \<Rightarrow> (nstate \<times> cptr) res" where
  "kv_get s key_value key =
     rbind (the_str key) (\<lambda>k.
       let slot = ptr_add key_value (unat (hash k)); s1 = leak_node s in
       rbind (load s1 slot) (\<lambda>nd.
         if nd_key nd = Some k then Inr (s1, nd_value nd)
         else rbind (get_walk (Suc (node_count s1)) s1 (nd_next nd) k) (\<lambda>iter.
           if iter = None then Inr (s1, Some NO_VALUE)
           else rbind (load s1 iter) (\<lambda>nd. Inr (s1, nd_value nd)))))"

text \<open>\<open>struct _k_v_pool\<close> and \<open>get_from_pool\<close>; the global \<open>k_v_pool\<close> may be \<open>NULL\<close>.\<close>

record kv_pool =
  pool_pt :: ptr
  pool_k_v :: ptr
  pool_deep :: int
  water_deep :: int

definition get_from_pool :: "kv_pool option \<Rightarrow> nat \<Rightarrow> (kv_pool \<times> ptr) res" where
  "get_from_pool k_v_pool sz =
     (case k_v_pool of
        None \<Rightarrow> Inl NullDeref
      | Some pool \<Rightarrow>
          if int sz \<le> pool_deep pool - water_deep pool then
            Inr (pool\<lparr>pool_pt := ptr_add (pool_pt pool) sz,
                      water_deep := water_deep pool + int sz\<rparr>, pool_pt pool)
          else Inl Aborted)"

subsection \<open>The table as a finite map\<close>

definition slot_addr :: "address \<Rightarrow> nat \<Rightarrow> address" where
  "slot_addr base h = Addr (blk base) (idx base + h)"

text \<open>
  A bucket: the chain of slot \<open>h\<close> has keyed nodes, every key with this hash and no key twice,
  and then one node without a key; no node is locked.
\<close>

definition bucket_ok :: "nstate \<Rightarrow> address \<Rightarrow> nat \<Rightarrow> address list \<Rightarrow> bool" where
  "bucket_ok s base h xs \<longleftrightarrow>
     linked s (Some (slot_addr base h)) xs \<and>
     (\<forall>a\<in>set (butlast xs). \<exists>k v. nd_key (cells s a) = Some k \<and> nd_value (cells s a) = Some v \<and>
        unat (hash k) = h) \<and>
     distinct (map (\<lambda>a. nd_key (cells s a)) (butlast xs)) \<and>
     nd_key (cells s (last xs)) = None \<and>
     (\<forall>a\<in>set xs. nd_lock (cells s a) = 0)"

definition kv_rep :: "nstate \<Rightarrow> address \<Rightarrow> (nat \<Rightarrow> address list) \<Rightarrow> bool" where
  "kv_rep s base bs \<longleftrightarrow>
     (\<forall>h<KEY_VALUE_SIZE. bucket_ok s base h (bs h)) \<and>
     (\<forall>h<KEY_VALUE_SIZE. \<forall>h'<KEY_VALUE_SIZE. h \<noteq> h' \<longrightarrow> set (bs h) \<inter> set (bs h') = {})"

definition entry :: "nstate \<Rightarrow> address \<Rightarrow> string \<times> string" where
  "entry s a = (the (nd_key (cells s a)), the (nd_value (cells s a)))"

definition kv_abs :: "nstate \<Rightarrow> (nat \<Rightarrow> address list) \<Rightarrow> string \<Rightarrow> string option" where
  "kv_abs s bs k = map_of (map (entry s) (butlast (bs (unat (hash k))))) k"

text \<open>The node that holds a key, if any.\<close>

definition node_of :: "nstate \<Rightarrow> (nat \<Rightarrow> address list) \<Rightarrow> string \<Rightarrow> address option" where
  "node_of s bs k = find (\<lambda>a. nd_key (cells s a) = Some k) (butlast (bs (unat (hash k))))"

definition kv_models :: "nstate \<Rightarrow> ptr \<Rightarrow> (string \<Rightarrow> string option) \<Rightarrow> bool" where
  "kv_models s kv m \<longleftrightarrow> (\<exists>base bs. kv = Some base \<and> kv_rep s base bs \<and> m = kv_abs s bs)"

subsection \<open>Walking a chain\<close>

lemma hash_bound [simp]: "unat (hash k) < KEY_VALUE_SIZE"
  by (simp add: hash_def unat_mod)

lemma get_walk_linked:
  assumes "linked s p xs" "length xs < n"
  shows "get_walk n s p k = Inr (find (\<lambda>a. nd_key (cells s a) = Some k) (butlast xs))"
  using assms
proof (induction n arbitrary: p xs)
  case 0
  then show ?case by simp
next
  case (Suc n)
  show ?case
  proof (cases xs)
    case Nil
    with Suc.prems show ?thesis by simp
  next
    case (Cons a as)
    with Suc.prems have p: "p = Some a" "valid s a" and l: "linked s (nd_next (cells s a)) as"
      and n: "length as < n" by auto
    show ?thesis
    proof (cases "as = []")
      case True
      with l Cons p show ?thesis by simp
    next
      case False
      then obtain q where "nd_next (cells s a) = Some q" using l by (cases as) auto
      with False Cons p Suc.IH [OF l n] show ?thesis by simp
    qed
  qed
qed

lemma insert_walk_linked:
  assumes "linked s p xs" "xs \<noteq> []" "length xs \<le> n"
    and "\<forall>a\<in>set (butlast xs). nd_key (cells s a) \<noteq> None"
  shows "insert_walk n s p k =
    Inr (Some (case find (\<lambda>a. nd_key (cells s a) = Some k) (butlast xs) of
                 Some a \<Rightarrow> a | None \<Rightarrow> last xs))"
  using assms
proof (induction n arbitrary: p xs)
  case 0
  then show ?case by simp
next
  case (Suc n)
  then obtain a as where xs: "xs = a # as" by (cases xs) auto
  with Suc.prems have p: "p = Some a" "valid s a" and l: "linked s (nd_next (cells s a)) as"
    and n: "length as \<le> n" by auto
  show ?case
  proof (cases "as = []")
    case True
    with l xs p show ?thesis by simp
  next
    case False
    then obtain q where nn: "nd_next (cells s a) = Some q" using l by (cases as) auto
    from Suc.prems(4) xs False obtain ka where ka: "nd_key (cells s a) = Some ka" by auto
    have "insert_walk n s (nd_next (cells s a)) k =
        Inr (Some (case find (\<lambda>a. nd_key (cells s a) = Some k) (butlast as) of
                 Some a \<Rightarrow> a | None \<Rightarrow> last as))"
      by (rule Suc.IH [OF l False n]) (use Suc.prems(4) xs False in auto)
    with nn ka False xs p show ?thesis by (simp split: option.split)
  qed
qed

lemma find_SomeD: "find P xs = Some x \<Longrightarrow> x \<in> set xs \<and> P x"
  by (induction xs) (auto split: if_splits)

lemma map_of_find:
  "map_of (map f xs) k = map_option (\<lambda>a. snd (f a)) (find (\<lambda>a. fst (f a) = k) xs)"
  by (induction xs) (auto simp: prod.case_eq_if split_beta)

lemma find_cong_set: "(\<And>x. x \<in> set xs \<Longrightarrow> P x = Q x) \<Longrightarrow> find P xs = find Q xs"
  by (induction xs) auto

lemma bucket_nonempty: "bucket_ok s base h xs \<Longrightarrow> xs \<noteq> []"
  by (auto simp: bucket_ok_def)

lemma bucket_linked: "bucket_ok s base h xs \<Longrightarrow> linked s (Some (slot_addr base h)) xs"
  and bucket_lock: "bucket_ok s base h xs \<Longrightarrow> a \<in> set xs \<Longrightarrow> nd_lock (cells s a) = 0"
  and bucket_last_key: "bucket_ok s base h xs \<Longrightarrow> nd_key (cells s (last xs)) = None"
  and bucket_valid: "bucket_ok s base h xs \<Longrightarrow> a \<in> set xs \<Longrightarrow> valid s a"
  by (auto simp: bucket_ok_def intro: linked_valid)

lemma bucket_last_next: "bucket_ok s base h xs \<Longrightarrow> nd_next (cells s (last xs)) = None"
  by (rule linked_next_last [OF bucket_linked bucket_nonempty])

lemmas bucket_facts = bucket_linked bucket_lock bucket_last_key bucket_valid bucket_last_next

lemma bucket_key:
  "bucket_ok s base h xs \<Longrightarrow> a \<in> set (butlast xs) \<Longrightarrow> \<exists>k. nd_key (cells s a) = Some k"
  by (auto simp: bucket_ok_def)

text \<open>The map is what the node of the key holds.\<close>

lemma kv_abs_node_of:
  assumes "kv_rep s base bs"
  shows "kv_abs s bs k = map_option (\<lambda>a. the (nd_value (cells s a))) (node_of s bs k)"
proof -
  let ?xs = "bs (unat (hash k))"
  have b: "bucket_ok s base (unat (hash k)) ?xs"
    using assms by (simp add: kv_rep_def)
  have "find (\<lambda>a. fst (entry s a) = k) (butlast ?xs) =
      find (\<lambda>a. nd_key (cells s a) = Some k) (butlast ?xs)"
    by (rule find_cong_set) (use bucket_key [OF b] in \<open>auto simp: entry_def\<close>)
  then show ?thesis
    by (simp add: kv_abs_def node_of_def map_of_find entry_def)
qed

subsection \<open>Lookup\<close>

lemma kv_get_node_correct:
  assumes "kv_rep s base bs"
  shows "kv_get_node s (Some base) (Some k) = Inr (leak_node s, node_of s bs k)"
proof -
  let ?h = "unat (hash k)"
  let ?P = "\<lambda>a. nd_key (cells s a) = Some k"
  have b: "bucket_ok s base ?h (bs ?h)"
    using assms by (simp add: kv_rep_def)
  then have l: "linked s (Some (slot_addr base ?h)) (bs ?h)"
    by (simp add: bucket_ok_def)
  obtain as where xs: "bs ?h = slot_addr base ?h # as"
    using l bucket_nonempty [OF b] by (cases "bs ?h") auto
  from l xs have v: "valid s (slot_addr base ?h)"
    and l': "linked s (nd_next (cells s (slot_addr base ?h))) as" by auto
  have l'': "linked (leak_node s) (nd_next (cells s (slot_addr base ?h))) as"
    by (rule linked_frame [OF l']) (use linked_valid [OF l'] in auto)
  have n: "length as < Suc (node_count (leak_node s))"
    using linked_length [OF l''] by simp
  have w: "get_walk (Suc (node_count (leak_node s))) (leak_node s)
      (nd_next (cells s (slot_addr base ?h))) k = Inr (find ?P (butlast as))"
    using get_walk_linked [OF l'' n] by simp
  have load: "load (leak_node s) (ptr_add (Some base) ?h) = Inr (cells s (slot_addr base ?h))"
    using v by (simp add: slot_addr_def)
  have no: "node_of s bs k = (if ?P (slot_addr base ?h) then Some (slot_addr base ?h) else find ?P (butlast as))"
  proof (cases "as = []")
    case True
    then have "nd_key (cells s (slot_addr base ?h)) = None"
      using b xs by (simp add: bucket_ok_def)
    with True xs show ?thesis by (simp add: node_of_def)
  next
    case False
    with xs show ?thesis by (simp add: node_of_def)
  qed
  have p: "ptr_add (Some base) ?h = Some (slot_addr base ?h)"
    by (simp add: slot_addr_def)
  show ?thesis
    unfolding kv_get_node_def Let_def the_str.simps rbind_Inr load w no unfolding p by simp
qed

lemma node_of_SomeD:
  assumes "node_of s bs k = Some a"
  shows "a \<in> set (butlast (bs (unat (hash k))))" "a \<in> set (bs (unat (hash k)))"
    "nd_key (cells s a) = Some k"
  using assms find_SomeD [of _ "butlast (bs (unat (hash k)))" a]
  by (auto simp: node_of_def dest: in_set_butlastD)

lemma kv_get_correct:
  assumes "kv_rep s base bs"
  shows "kv_get s (Some base) (Some k) =
    Inr (leak_node s, Some (case kv_abs s bs k of Some v \<Rightarrow> v | None \<Rightarrow> NO_VALUE))"
proof -
  let ?h = "unat (hash k)"
  let ?nd = "cells s (slot_addr base ?h)"
  have b: "bucket_ok s base ?h (bs ?h)"
    using assms by (simp add: kv_rep_def)
  have p: "ptr_add (Some base) ?h = Some (slot_addr base ?h)"
    by (simp add: slot_addr_def)
  have value_of: "\<exists>v. nd_value (cells s a) = Some v" if "node_of s bs k = Some a" for a
    using node_of_SomeD(1) [OF that] b unfolding bucket_ok_def by auto
  have node_valid: "valid s a" if "node_of s bs k = Some a" for a
    using node_of_SomeD(2) [OF that] b linked_valid unfolding bucket_ok_def by blast
  have slot_valid: "valid s (slot_addr base ?h)"
    using b bucket_nonempty [OF b] by (cases "bs ?h") (auto simp: bucket_ok_def)
  note node = kv_get_node_correct [OF assms, of k]
  show ?thesis
  proof (cases "nd_key ?nd = Some k")
    case True
    with node slot_valid have "node_of s bs k = Some (slot_addr base ?h)"
      unfolding kv_get_node_def Let_def the_str.simps rbind_Inr p by simp
    with True slot_valid value_of show ?thesis
      unfolding kv_get_def Let_def the_str.simps rbind_Inr p by (auto simp: kv_abs_node_of [OF assms])
  next
    case False
    with node slot_valid
    have w: "get_walk (Suc (node_count (leak_node s))) (leak_node s) (nd_next ?nd) k = Inr (node_of s bs k)"
      unfolding kv_get_node_def Let_def the_str.simps rbind_Inr p
      by (auto simp: rbind_eq_Inr simp del: get_walk.simps)
    show ?thesis
    proof (cases "node_of s bs k")
      case None
      with False slot_valid w show ?thesis
        unfolding kv_get_def Let_def the_str.simps rbind_Inr p
        by (simp add: kv_abs_node_of [OF assms] del: get_walk.simps)
    next
      case (Some a)
      with False slot_valid w node_valid value_of show ?thesis
        unfolding kv_get_def Let_def the_str.simps rbind_Inr p
        by (auto simp: kv_abs_node_of [OF assms] simp del: get_walk.simps)
    qed
  qed
qed

subsection \<open>Insertion\<close>

lemma bucket_frame:
  assumes b: "bucket_ok s base h xs"
    and same: "\<And>a. a \<in> set xs \<Longrightarrow> valid s' a \<and> cells s' a = cells s a"
  shows "bucket_ok s' base h xs"
proof -
  have l: "linked s' (Some (slot_addr base h)) xs"
    by (rule linked_frame [of s]) (use b same in \<open>auto simp: bucket_ok_def\<close>)
  have but: "cells s' a = cells s a" if "a \<in> set (butlast xs)" for a
    using same in_set_butlastD [OF that] by auto
  have m: "map (\<lambda>a. nd_key (cells s' a)) (butlast xs) = map (\<lambda>a. nd_key (cells s a)) (butlast xs)"
    by (rule map_cong [OF refl]) (simp add: but)
  have "cells s' (last xs) = cells s (last xs)"
    using same bucket_nonempty [OF b] by auto
  with b l same but show ?thesis
    unfolding bucket_ok_def m by simp
qed

lemma insert_write_ok:
  assumes "valid s a" "nd_lock (cells s a) = 0"
  shows "insert_write s (Some a) k v =
    Inr (poke s a (\<lambda>n. n\<lparr>nd_value := Some v, nd_key := Some k, nd_lock := 0\<rparr>))"
  using assms by (simp add: insert_write_def)

lemma insert_walk_bucket:
  assumes "kv_rep s base bs"
  shows "insert_walk (Suc (node_count s)) s (ptr_add (Some base) (unat (hash k))) k =
    Inr (Some (case node_of s bs k of Some a \<Rightarrow> a | None \<Rightarrow> last (bs (unat (hash k)))))"
proof -
  let ?xs = "bs (unat (hash k))"
  have b: "bucket_ok s base (unat (hash k)) ?xs"
    using assms by (simp add: kv_rep_def)
  then have l: "linked s (Some (slot_addr base (unat (hash k)))) ?xs"
    by (simp add: bucket_ok_def)
  have p: "ptr_add (Some base) (unat (hash k)) = Some (slot_addr base (unat (hash k)))"
    by (simp add: slot_addr_def)
  have n: "length ?xs \<le> Suc (node_count s)"
    using linked_length [OF l] by simp
  have key: "\<forall>a\<in>set (butlast ?xs). nd_key (cells s a) \<noteq> None"
    using bucket_key [OF b] by auto
  show ?thesis
    unfolding p node_of_def by (rule insert_walk_linked [OF l bucket_nonempty [OF b] n key])
qed

text \<open>Writing an existing key changes its node's value and nothing else.\<close>

lemma kv_insert_existing:
  assumes rep: "kv_rep s base bs" and no: "node_of s bs k = Some a"
  shows "kv_insert s (Some base) (Some k) (Some v) =
    Inr (poke s a (\<lambda>n. n\<lparr>nd_value := Some v\<rparr>), Some a)"
proof -
  let ?xs = "bs (unat (hash k))"
  have b: "bucket_ok s base (unat (hash k)) ?xs"
    using rep by (simp add: kv_rep_def)
  have a: "a \<in> set (butlast ?xs)" "a \<in> set ?xs" "nd_key (cells s a) = Some k"
    using node_of_SomeD [OF no] by auto
  have valid: "valid s a" and lock: "nd_lock (cells s a) = 0"
    using b a(2) linked_valid unfolding bucket_ok_def by blast+
  obtain q where nx: "nd_next (cells s a) = Some q"
    using b a(1) linked_next_butlast unfolding bucket_ok_def by fastforce
  have link: "insert_link s (Some a) = Inr s"
    using valid a(3) nx by (simp add: insert_link_def)
  have same: "(cells s a)\<lparr>nd_value := Some v, nd_key := Some k, nd_lock := 0\<rparr> = (cells s a)\<lparr>nd_value := Some v\<rparr>"
    using a(3) lock by (cases "cells s a") simp
  show ?thesis
    unfolding kv_insert_def the_str.simps rbind_Inr insert_walk_bucket [OF rep] no
    using insert_write_ok [OF valid lock, of k v] same link by (simp add: poke_def)
qed

text \<open>Writing a new key fills the empty last node of its chain and hangs a new empty node behind it.\<close>

lemma kv_insert_new:
  assumes rep: "kv_rep s base bs" and no: "node_of s bs k = None"
    and alloc: "alloc_nodes s 1 = (s1, Some b)"
    and l: "l = last (bs (unat (hash k)))"
  shows "kv_insert s (Some base) (Some k) (Some v) =
    Inr (poke s1 l (\<lambda>n. n\<lparr>nd_next := Some b, nd_value := Some v, nd_key := Some k\<rparr>), Some l)"
proof -
  let ?xs = "bs (unat (hash k))"
  have bk: "bucket_ok s base (unat (hash k)) ?xs"
    using rep by (simp add: kv_rep_def)
  have l_in: "l \<in> set ?xs"
    using l bucket_nonempty [OF bk] by simp
  then have valid: "valid s l" and lock: "nd_lock (cells s l) = 0"
    using bk linked_valid unfolding bucket_ok_def by blast+
  have nx: "nd_next (cells s l) = None"
    using l bucket_last_next [OF bk] by simp
  note al = alloc_nodes_props [OF alloc]
  have link: "insert_link s (Some l) = Inr (poke s1 l (\<lambda>n. n\<lparr>nd_next := Some b\<rparr>))"
    using valid nx alloc al(4) [OF valid] by (simp add: insert_link_def)
  let ?s2 = "poke s1 l (\<lambda>n. n\<lparr>nd_next := Some b\<rparr>)"
  have wr: "insert_write ?s2 (Some l) k v =
      Inr (poke ?s2 l (\<lambda>n. n\<lparr>nd_value := Some v, nd_key := Some k, nd_lock := 0\<rparr>))"
    by (rule insert_write_ok) (use al(4,5) [OF valid] lock in auto)
  have same: "(cells s1 l)\<lparr>nd_next := Some b, nd_value := Some v, nd_key := Some k, nd_lock := 0\<rparr> =
      (cells s1 l)\<lparr>nd_next := Some b, nd_value := Some v, nd_key := Some k\<rparr>"
    using lock al(5) [OF valid] by (cases "cells s1 l") simp
  show ?thesis
    unfolding kv_insert_def the_str.simps rbind_Inr insert_walk_bucket [OF rep] no
    using l link wr same by (simp add: poke_def)
qed

text \<open>The invariant and the map after each kind of insertion.\<close>

lemma kv_rep_bucket: "kv_rep s base bs \<Longrightarrow> bucket_ok s base (unat (hash k)) (bs (unat (hash k)))"
  by (simp add: kv_rep_def)

lemma poke_value_rep:
  assumes rep: "kv_rep s base bs"
  shows "kv_rep (poke s a (\<lambda>n. n\<lparr>nd_value := Some v\<rparr>)) base bs"
proof -
  let ?s = "poke s a (\<lambda>n. n\<lparr>nd_value := Some v\<rparr>)"
  have c: "nd_next (cells ?s x) = nd_next (cells s x)" "nd_key (cells ?s x) = nd_key (cells s x)"
    "nd_lock (cells ?s x) = nd_lock (cells s x)"
    "(\<exists>w. nd_value (cells s x) = Some w) \<Longrightarrow> \<exists>w. nd_value (cells ?s x) = Some w" for x
    by (auto simp: cells_poke)
  have "bucket_ok ?s base h (bs h)" if "h < KEY_VALUE_SIZE" for h
  proof -
    have b: "bucket_ok s base h (bs h)" using rep that by (simp add: kv_rep_def)
    have l: "linked ?s (Some (slot_addr base h)) (bs h)"
      by (rule linked_frame [OF bucket_linked [OF b]]) (use bucket_valid [OF b] c in auto)
    have vals: "\<exists>k w. nd_key (cells ?s x) = Some k \<and> nd_value (cells ?s x) = Some w \<and> unat (hash k) = h"
      if "x \<in> set (butlast (bs h))" for x
    proof -
      from b that obtain k w where "nd_key (cells s x) = Some k" "nd_value (cells s x) = Some w"
        "unat (hash k) = h"
        unfolding bucket_ok_def by blast
      with c(2) [of x] c(4) [of x] show ?thesis by auto
    qed
    show ?thesis
      using b l vals unfolding bucket_ok_def c by blast
  qed
  with rep show ?thesis by (simp add: kv_rep_def)
qed

lemma poke_value_node_of: "node_of (poke s a (\<lambda>n. n\<lparr>nd_value := Some v\<rparr>)) bs k = node_of s bs k"
  unfolding node_of_def by (rule find_cong_set) (simp add: cells_poke)

lemma node_of_inj: "node_of s bs k = Some a \<Longrightarrow> node_of s bs k' = Some a \<Longrightarrow> k' = k"
  using node_of_SomeD(3) [of s bs k a] node_of_SomeD(3) [of s bs k' a] by simp

lemma insert_existing_abs:
  assumes rep: "kv_rep s base bs" and no: "node_of s bs k = Some a"
  shows "kv_abs (poke s a (\<lambda>n. n\<lparr>nd_value := Some v\<rparr>)) bs = (kv_abs s bs)(k \<mapsto> v)"
proof
  fix k'
  let ?s = "poke s a (\<lambda>n. n\<lparr>nd_value := Some v\<rparr>)"
  have r: "kv_rep ?s base bs" by (rule poke_value_rep [OF rep])
  show "kv_abs ?s bs k' = ((kv_abs s bs)(k \<mapsto> v)) k'"
    using no node_of_inj [of s bs k a k']
    by (cases "node_of s bs k'")
      (auto simp: kv_abs_node_of [OF r] kv_abs_node_of [OF rep] poke_value_node_of cells_poke)
qed

text \<open>
  A new key: \<open>l\<close> is the last node of the chain of the key's slot \<open>h\<close>, \<open>b\<close> the new empty
  node. \<open>key_added\<close> says what the insertion changed: \<open>l\<close> and \<open>b\<close>, nothing else.
\<close>

definition key_added :: "nstate \<Rightarrow> nstate \<Rightarrow> address \<Rightarrow> (nat \<Rightarrow> address list) \<Rightarrow> nat \<Rightarrow> address \<Rightarrow>
    address \<Rightarrow> string \<Rightarrow> string \<Rightarrow> bool" where
  "key_added s s2 base bs h l b k v \<longleftrightarrow>
     kv_rep s base bs \<and> h = unat (hash k) \<and> l = last (bs h) \<and> node_of s bs k = None \<and>
     (\<forall>a. valid s a \<longrightarrow> valid s2 a) \<and> (\<forall>a. valid s a \<longrightarrow> a \<noteq> l \<longrightarrow> cells s2 a = cells s a) \<and>
     cells s2 l = (cells s l)\<lparr>nd_next := Some b, nd_value := Some v, nd_key := Some k\<rparr> \<and>
     \<not> valid s b \<and> valid s2 b \<and> cells s2 b = zero_node"

lemma kv_insert_added:
  assumes rep: "kv_rep s base bs" and no: "node_of s bs k = None"
    and alloc: "alloc_nodes s 1 = (s1, Some b)" and h: "h = unat (hash k)" and l: "l = last (bs h)"
  shows "key_added s (poke s1 l (\<lambda>n. n\<lparr>nd_next := Some b, nd_value := Some v, nd_key := Some k\<rparr>))
    base bs h l b k v"
proof -
  note al = alloc_nodes_props [OF alloc]
  have b: "b = Addr (length (lens s)) 0" using al(1) by simp
  have bf: "\<not> valid s b" "valid s1 b" "cells s1 b = zero_node"
    using al(6) [of 0] al(7) [of 0] by (auto simp: b alloc_fresh)
  have bk: "bucket_ok s base h (bs h)" using rep h by (simp add: kv_rep_def)
  have lv: "valid s l" using l bucket_valid [OF bk] bucket_nonempty [OF bk] by simp
  then have "b \<noteq> l" using bf by auto
  with rep no h l bf lv al(4,5) show ?thesis by (simp add: key_added_def)
qed

lemma key_added_chain:
  assumes ka: "key_added s s2 base bs h l b k v"
  shows "bs h = butlast (bs h) @ [l]" "l \<in> set (bs h)" "valid s l" "h < KEY_VALUE_SIZE"
    "l \<notin> set (butlast (bs h))"
    "\<And>h'. h' < KEY_VALUE_SIZE \<Longrightarrow> b \<notin> set (bs h')"
    "\<And>a. a \<in> set (butlast (bs h)) \<Longrightarrow> valid s2 a \<and> cells s2 a = cells s a"
    "\<And>h' a. h' < KEY_VALUE_SIZE \<Longrightarrow> h' \<noteq> h \<Longrightarrow> a \<in> set (bs h') \<Longrightarrow> valid s2 a \<and> cells s2 a = cells s a"
proof -
  show h: "h < KEY_VALUE_SIZE" using ka by (simp add: key_added_def)
  have bk: "bucket_ok s base h' (bs h')" if "h' < KEY_VALUE_SIZE" for h'
    using ka that by (simp add: key_added_def kv_rep_def)
  note ne = bucket_nonempty [OF bk [OF h]]
  show split: "bs h = butlast (bs h) @ [l]" using ka ne by (simp add: key_added_def)
  show l_in: "l \<in> set (bs h)" using ka ne by (simp add: key_added_def)
  show lv: "valid s l" by (rule bucket_valid [OF bk [OF h] l_in])
  have "distinct (butlast (bs h) @ [l])"
    using linked_distinct [OF bucket_linked [OF bk [OF h]]] split by simp
  then show l_notin: "l \<notin> set (butlast (bs h))" by simp
  show "b \<notin> set (bs h')" if "h' < KEY_VALUE_SIZE" for h'
    using ka bucket_valid [OF bk [OF that]] by (auto simp: key_added_def)
  have keep: "valid s2 a \<and> cells s2 a = cells s a" if "valid s a" "a \<noteq> l" for a
    using ka that by (simp add: key_added_def)
  show "valid s2 a \<and> cells s2 a = cells s a" if a: "a \<in> set (butlast (bs h))" for a
  proof (rule keep)
    show "valid s a" by (rule bucket_valid [OF bk [OF h] in_set_butlastD [OF a]])
    show "a \<noteq> l" using a l_notin by auto
  qed
  show "valid s2 a \<and> cells s2 a = cells s a"
    if h': "h' < KEY_VALUE_SIZE" "h' \<noteq> h" and a: "a \<in> set (bs h')" for h' a
  proof (rule keep)
    show "valid s a" by (rule bucket_valid [OF bk [OF h'(1)] a])
    have "set (bs h') \<inter> set (bs h) = {}"
      using ka h' h by (simp add: key_added_def kv_rep_def)
    with a l_in show "a \<noteq> l" by auto
  qed
qed

lemma key_added_bucket:
  assumes ka: "key_added s s2 base bs h l b k v"
  shows "bucket_ok s2 base h (bs h @ [b])"
proof -
  note ch = key_added_chain [OF ka]
  have bk: "bucket_ok s base h (bs h)" using ka by (simp add: key_added_def kv_rep_def)
  have cl: "cells s2 l = (cells s l)\<lparr>nd_next := Some b, nd_value := Some v, nd_key := Some k\<rparr>"
    and cb: "cells s2 b = zero_node" "valid s2 b" and l: "l = last (bs h)" and hk: "h = unat (hash k)"
    and mono: "\<And>a. valid s a \<Longrightarrow> valid s2 a" and no: "node_of s bs k = None"
    using ka by (auto simp: key_added_def)
  have mem: "a = l \<or> a \<in> set (butlast (bs h))" if "a \<in> set (bs h)" for a
    using that ch(1) by (metis Un_iff empty_iff insert_iff list.set set_append)
  have linked: "linked s2 (Some (slot_addr base h)) (bs h @ [b])"
  proof (rule linked_extend [OF bucket_linked [OF bk] bucket_nonempty [OF bk] cb(2) ch(6) [OF ch(4)]])
    show "valid s2 a" if "a \<in> set (bs h)" for a by (rule mono [OF bucket_valid [OF bk that]])
    show "nd_next (cells s2 (last (bs h))) = Some b" using cl l by simp
    show "nd_next (cells s2 b) = None" using cb by (simp add: zero_node_def)
    show "nd_next (cells s2 a) = nd_next (cells s a)" if "a \<in> set (butlast (bs h))" for a
      using ch(7) [OF that] by simp
  qed
  have keyed: "\<exists>k' v'. nd_key (cells s2 a) = Some k' \<and> nd_value (cells s2 a) = Some v' \<and> unat (hash k') = h"
    if "a \<in> set (bs h)" for a
    using mem [OF that] cl hk bk ch(7) by (auto simp: bucket_ok_def)
  have keys: "map (\<lambda>a. nd_key (cells s2 a)) (bs h) = map (\<lambda>a. nd_key (cells s a)) (butlast (bs h)) @ [Some k]"
  proof -
    have "map (\<lambda>a. nd_key (cells s2 a)) (butlast (bs h)) = map (\<lambda>a. nd_key (cells s a)) (butlast (bs h))"
      by (rule map_cong [OF refl]) (simp add: ch(7))
    then show ?thesis by (subst ch(1)) (simp add: cl)
  qed
  have "Some k \<notin> set (map (\<lambda>a. nd_key (cells s a)) (butlast (bs h)))"
    using no hk by (auto simp: node_of_def find_None_iff)
  then have dist: "distinct (map (\<lambda>a. nd_key (cells s2 a)) (bs h))"
    unfolding keys using bk by (simp only: bucket_ok_def distinct_append) simp
  have lock: "nd_lock (cells s2 a) = 0" if "a \<in> set (bs h @ [b])" for a
    using that mem [of a] cb cl ch(2) ch(7) [of a] bucket_lock [OF bk, of a]
    by (auto simp: zero_node_def)
  show ?thesis
    unfolding bucket_ok_def
    using linked keyed dist lock cb by (simp only: butlast_snoc last_snoc) (simp add: zero_node_def)
qed

lemma key_added_rep:
  assumes ka: "key_added s s2 base bs h l b k v"
  shows "kv_rep s2 base (bs(h := bs h @ [b]))"
proof -
  note ch = key_added_chain [OF ka]
  have rep: "kv_rep s base bs" using ka by (simp add: key_added_def)
  have old: "bucket_ok s2 base h' (bs h')" if h': "h' < KEY_VALUE_SIZE" "h' \<noteq> h" for h'
    by (rule bucket_frame [of s]) (use rep h' ch(8) [OF h'] in \<open>auto simp: kv_rep_def\<close>)
  have disj: "set ((bs(h := bs h @ [b])) i) \<inter> set ((bs(h := bs h @ [b])) j) = {}"
    if ij: "i < KEY_VALUE_SIZE" "j < KEY_VALUE_SIZE" "i \<noteq> j" for i j
  proof -
    have "set (bs i) \<inter> set (bs j) = {}" using rep ij by (simp add: kv_rep_def)
    then show ?thesis using ch(6) [OF ij(1)] ch(6) [OF ij(2)] ij(3) by auto
  qed
  show ?thesis
    using key_added_bucket [OF ka] old disj by (simp add: kv_rep_def)
qed

lemma find_snoc:
  "find P (xs @ [y]) = (case find P xs of Some x \<Rightarrow> Some x | None \<Rightarrow> if P y then Some y else None)"
  by (induction xs) auto

lemma key_added_node_of:
  assumes ka: "key_added s s2 base bs h l b k v"
  shows "node_of s2 (bs(h := bs h @ [b])) k' = (if k' = k then Some l else node_of s bs k')"
proof (cases "unat (hash k') = h")
  case True
  note ch = key_added_chain [OF ka]
  have key: "nd_key (cells s2 l) = Some k" and no: "node_of s bs k = None" "h = unat (hash k)"
    using ka by (auto simp: key_added_def)
  have f: "find (\<lambda>a. nd_key (cells s2 a) = Some k') (butlast (bs h)) =
      find (\<lambda>a. nd_key (cells s a) = Some k') (butlast (bs h))"
    by (rule find_cong_set) (simp add: ch(7))
  have "node_of s2 (bs(h := bs h @ [b])) k' = find (\<lambda>a. nd_key (cells s2 a) = Some k') (butlast (bs h) @ [l])"
    using True ch(1) by (simp add: node_of_def)
  also have "\<dots> = (case node_of s bs k' of Some a \<Rightarrow> Some a | None \<Rightarrow> if k' = k then Some l else None)"
    unfolding find_snoc f using key by (simp add: node_of_def True cong: option.case_cong)
  finally show ?thesis
    using no by (cases "node_of s bs k'") auto
next
  case False
  note ch = key_added_chain [OF ka]
  have "k' \<noteq> k" using False ka by (auto simp: key_added_def)
  moreover have "node_of s2 (bs(h := bs h @ [b])) k' = node_of s bs k'"
    unfolding node_of_def fun_upd_other [OF False]
    by (rule find_cong_set) (use ch(8) [OF hash_bound False in_set_butlastD] in auto)
  ultimately show ?thesis by simp
qed

lemma key_added_abs:
  assumes ka: "key_added s s2 base bs h l b k v"
  shows "kv_abs s2 (bs(h := bs h @ [b])) = (kv_abs s bs)(k \<mapsto> v)"
proof
  fix k'
  have rep: "kv_rep s base bs" and val: "nd_value (cells s2 l) = Some v"
    and lk: "nd_key (cells s l) = None"
    using ka bucket_last_key [OF kv_rep_bucket] by (auto simp: key_added_def)
  have same: "cells s2 a = cells s a" if a: "node_of s bs k' = Some a" for a
  proof -
    have "a \<noteq> l" using node_of_SomeD(3) [OF a] lk by auto
    moreover have "valid s a"
      by (rule bucket_valid [OF kv_rep_bucket [OF rep] node_of_SomeD(2) [OF a]])
    ultimately show ?thesis using ka by (simp add: key_added_def)
  qed
  show "kv_abs s2 (bs(h := bs h @ [b])) k' = ((kv_abs s bs)(k \<mapsto> v)) k'"
    using same val
    by (cases "node_of s bs k'") (auto simp: kv_abs_node_of [OF key_added_rep [OF ka]] kv_abs_node_of [OF rep]
        key_added_node_of [OF ka])
qed

text \<open>
  Insertion, in full: it returns, keeps the table's invariant, stores the value under the key and
  nothing else, and hands back the key's node. A new key costs one new node; writing an existing
  key allocates none.
\<close>

lemma kv_insert_rep:
  assumes rep: "kv_rep s base bs"
  obtains s' bs' a where "kv_insert s (Some base) (Some k) (Some v) = Inr (s', Some a)"
    "kv_rep s' base bs'" "kv_abs s' bs' = (kv_abs s bs)(k \<mapsto> v)" "node_of s' bs' k = Some a"
    "lens s' = (if kv_abs s bs k = None then lens s @ [1] else lens s)" "leaked s' = leaked s"
proof (cases "node_of s bs k")
  case (Some a)
  show ?thesis
  proof (rule that [OF kv_insert_existing [OF rep Some] poke_value_rep [OF rep]
        insert_existing_abs [OF rep Some]])
    show "node_of (poke s a (\<lambda>n. n\<lparr>nd_value := Some v\<rparr>)) bs k = Some a"
      by (simp add: poke_value_node_of Some)
    show "lens (poke s a (\<lambda>n. n\<lparr>nd_value := Some v\<rparr>)) = (if kv_abs s bs k = None then lens s @ [1] else lens s)"
      by (simp add: kv_abs_node_of [OF rep] Some)
  qed simp
next
  case None
  obtain s1 b where al: "alloc_nodes s 1 = (s1, Some b)"
    by (simp add: alloc_nodes_def Let_def)
  note ka = kv_insert_added [OF rep None al refl refl]
  show ?thesis
  proof (rule that [OF kv_insert_new [OF rep None al refl] key_added_rep [OF ka] key_added_abs [OF ka]])
    show "lens (poke s1 (last (bs (unat (hash k))))
        (\<lambda>n. n\<lparr>nd_next := Some b, nd_value := Some v, nd_key := Some k\<rparr>)) =
      (if kv_abs s bs k = None then lens s @ [1] else lens s)"
      by (simp add: kv_abs_node_of [OF rep] None alloc_nodes_props(2) [OF al])
  qed (simp_all add: key_added_node_of [OF ka] alloc_nodes_props(3) [OF al])
qed

subsection \<open>The fresh table\<close>

lemma kv_init_correct:
  obtains s' base where "kv_init s = Inr (s', Some base)" "kv_rep s' base (\<lambda>h. [slot_addr base h])"
    "kv_abs s' (\<lambda>h. [slot_addr base h]) = Map.empty"
proof -
  obtain s1 base where al: "alloc_nodes s KEY_VALUE_SIZE = (s1, Some base)"
    by (simp add: alloc_nodes_def Let_def)
  note a = alloc_nodes_props [OF al]
  let ?s = "poke s1 base (\<lambda>n. n\<lparr>nd_size := int KEY_VALUE_SIZE\<rparr>)"
  have base: "base = Addr (length (lens s)) 0" using a(1) by simp
  have valid: "valid s1 (slot_addr base h)" if "h < KEY_VALUE_SIZE" for h
    using a(6) [OF that] by (simp add: base slot_addr_def)
  have cell: "cells s1 (slot_addr base h) = zero_node" for h
    using a(7) by (simp add: base slot_addr_def)
  have "base = slot_addr base 0" by (simp add: base slot_addr_def)
  then have b: "valid s1 base" using valid [of 0] by simp
  have init: "kv_init s = Inr (?s, Some base)"
    using b by (simp add: kv_init_def al)
  have nd: "nd_next (cells ?s (slot_addr base h)) = None" "nd_key (cells ?s (slot_addr base h)) = None"
    "nd_lock (cells ?s (slot_addr base h)) = 0" for h
    using cell [of h] by (auto simp: cells_poke zero_node_def)
  have rep: "kv_rep ?s base (\<lambda>h. [slot_addr base h])"
    using nd valid by (auto simp: kv_rep_def bucket_ok_def slot_addr_def)
  have abs: "kv_abs ?s (\<lambda>h. [slot_addr base h]) = Map.empty"
    by (auto simp: kv_abs_def)
  show ?thesis by (rule that [OF init rep abs])
qed

subsection \<open>The store implements the map interface\<close>

definition kv_put :: "ptr \<Rightarrow> nstate \<Rightarrow> string \<Rightarrow> string \<Rightarrow> nstate res" where
  "kv_put kv s k v = rbind (kv_insert s kv (Some k) (Some v)) (\<lambda>(s', _). Inr s')"

definition kv_read :: "ptr \<Rightarrow> nstate \<Rightarrow> string \<Rightarrow> (nstate \<times> string) res" where
  "kv_read kv s k = rbind (kv_get s kv (Some k)) (\<lambda>(s', v). rbind (the_str v) (\<lambda>w. Inr (s', w)))"

lemma leak_node_rep: "kv_rep (leak_node s) base bs \<longleftrightarrow> kv_rep s base bs"
proof -
  have l: "linked (leak_node s) p xs \<longleftrightarrow> linked s p xs" for p xs
    by (induction xs arbitrary: p) auto
  show ?thesis by (simp add: kv_rep_def bucket_ok_def l)
qed

lemma leak_node_abs: "kv_abs (leak_node s) bs = kv_abs s bs"
proof -
  have "entry (leak_node s) = entry s" by (rule ext) (simp add: entry_def)
  then show ?thesis by (intro ext) (simp add: kv_abs_def)
qed

interpretation kv_map: string_map "\<lambda>s m. kv_models s kv m" "kv_put kv" "kv_read kv" NO_VALUE
  for kv
proof (unfold_locales, goal_cases)
  case (1 s m k v)
  then obtain base bs where kv: "kv = Some base" and rep: "kv_rep s base bs" and m: "m = kv_abs s bs"
    by (auto simp: kv_models_def)
  from kv_insert_rep [OF rep, of k v] obtain s' bs' a where
    "kv_insert s (Some base) (Some k) (Some v) = Inr (s', Some a)" "kv_rep s' base bs'"
    "kv_abs s' bs' = (kv_abs s bs)(k \<mapsto> v)" by metis
  then show ?case
    unfolding kv_put_def kv_models_def kv m by auto
next
  case (2 s m k)
  then obtain base bs where kv: "kv = Some base" and rep: "kv_rep s base bs" and m: "m = kv_abs s bs"
    by (auto simp: kv_models_def)
  have "kv_rep (leak_node s) base bs" using rep by (simp add: leak_node_rep)
  moreover have "kv_abs (leak_node s) bs = kv_abs s bs" by (rule leak_node_abs)
  ultimately show ?case
    unfolding kv_read_def kv m kv_get_correct [OF rep] kv_models_def by auto
qed

lemma kv_models_init:
  obtains s p where "kv_init s0 = Inr (s, p)" "kv_models s p Map.empty"
proof -
  obtain s base where init: "kv_init s0 = Inr (s, Some base)"
    and rep: "kv_rep s base (\<lambda>h. [slot_addr base h])"
    and abs: "kv_abs s (\<lambda>h. [slot_addr base h]) = Map.empty" by (rule kv_init_correct)
  have "kv_models s (Some base) Map.empty"
    using rep abs [symmetric] unfolding kv_models_def by blast
  with init show thesis by (rule that)
qed

subsection \<open>Properties\<close>



text \<open>
  C2: \<open>__key_value_get\<close> looks a key up: on a well-formed table it returns, it gives the value
  the table's map holds for the key or the text of \<open>NO_VALUE\<close> when there is none, and it
  leaves the table as it was, except that one node more has leaked.
\<close>

theorem kv_get_refines_lookup:
  assumes "kv_models s kv m"
  shows "\<exists>s'. kv_get s kv (Some k) = Inr (s', Some (case m k of Some v \<Rightarrow> v | None \<Rightarrow> NO_VALUE)) \<and>
    kv_models s' kv m \<and> cells s' = cells s \<and> lens s' = lens s \<and> leaked s' = Suc (leaked s)"
proof -
  from assms obtain base bs where kv: "kv = Some base" and rep: "kv_rep s base bs" and m: "m = kv_abs s bs"
    by (auto simp: kv_models_def)
  have "kv_models (leak_node s) kv m"
    using kv rep m by (auto simp: kv_models_def leak_node_rep leak_node_abs)
  with kv_get_correct [OF rep, of k] kv m show ?thesis by simp
qed

theorem kv_get_refines_lookup_witness:
  "\<exists>s p s'. kv_init empty_store = Inr (s, p) \<and> kv_get s p (Some ''x'') = Inr (s', Some NO_VALUE) \<and>
    leaked s' = Suc (leaked s)"
proof -
  obtain s p where "kv_init empty_store = Inr (s, p)" "kv_models s p Map.empty"
    by (rule kv_models_init)
  with kv_get_refines_lookup [OF this(2), of "''x''"] show ?thesis by auto
qed

text \<open>
  writing a key that is already present allocates no node (the \<open>TOFIX\<close> remark at the top of
  \<open>__key_value_insert\<close> says that it still does), and writing a new key allocates exactly one.
\<close>

lemma kv_insert_allocates:
  assumes "kv_models s kv m" and "kv_insert s kv (Some k) (Some v) = Inr (s', p)"
  shows "lens s' = (if m k = None then lens s @ [1] else lens s)"
proof -
  from assms(1) obtain base bs where kv: "kv = Some base" and rep: "kv_rep s base bs" and m: "m = kv_abs s bs"
    by (auto simp: kv_models_def)
  from kv_insert_rep [OF rep, of k v] assms(2) kv m show ?thesis by (metis Inr_inject Pair_inject)
qed

lemma kv_insert_allocates_witness:
  "\<exists>s p s1 q s2 q'. kv_init empty_store = Inr (s, p) \<and>
    kv_insert s p (Some ''k'') (Some ''1'') = Inr (s1, q) \<and> lens s1 = lens s @ [1] \<and>
    kv_insert s1 p (Some ''k'') (Some ''2'') = Inr (s2, q') \<and> lens s2 = lens s1"
proof -
  obtain s p where s: "kv_init empty_store = Inr (s, p)" "kv_models s p Map.empty"
    by (rule kv_models_init)
  obtain s1 where s1: "kv_put p s ''k'' ''1'' = Inr s1" "kv_models s1 p [''k'' \<mapsto> ''1'']"
    using kv_map.put_law [OF s(2)] by blast
  obtain s2 where s2: "kv_put p s1 ''k'' ''2'' = Inr s2" using kv_map.put_law [OF s1(2)] by blast
  from s1(1) obtain q where q: "kv_insert s p (Some ''k'') (Some ''1'') = Inr (s1, q)"
    by (auto simp: kv_put_def)
  from s2 obtain q' where q': "kv_insert s1 p (Some ''k'') (Some ''2'') = Inr (s2, q')"
    by (auto simp: kv_put_def)
  show ?thesis
    using s(1) q q' kv_insert_allocates [OF s(2) q] kv_insert_allocates [OF s1(2) q'] by auto
qed

end
