(* ===== verification/Allocate.thy ===== *)
theory Allocate
  imports Prelude
begin

text \<open>
  The two-level allocator of \<open>allocate.c\<close> and \<open>allocate.h\<close>, for a 32-bit target: addresses and
  \<open>size_t\<close> are \<open>32 word\<close>. Requests above 128 bytes go to \<open>malloc\<close>, which is retried for
  ever; smaller ones are rounded up to a multiple of 8 and served from one of 16 free lists, which
  are refilled 20 objects at a time from a memory pool.

  \<open>malloc\<close> and \<open>realloc\<close> belong to the C library: they are the parameters \<open>mal\<close> and
  \<open>rea\<close>, functions of the number of calls made so far and of the live blocks, returning 0 when
  they fail. The state holds what \<open>allocate.c\<close> keeps (free lists, pool bounds, \<open>heap_size\<close>),
  the memory words through which free blocks are linked, and the C library's live blocks.
\<close>

subsection \<open>Definitions\<close>

type_synonym word32 = "32 word"
type_synonym block = "word32 \<times> word32"
type_synonym malloc_fn = "nat \<Rightarrow> block list \<Rightarrow> word32 \<Rightarrow> word32"
type_synonym realloc_fn = "nat \<Rightarrow> block list \<Rightarrow> word32 \<Rightarrow> word32 \<Rightarrow> word32"

abbreviation ALIGN :: word32 where "ALIGN \<equiv> 8"
abbreviation MAX_BYTES :: word32 where "MAX_BYTES \<equiv> 128"
abbreviation NFREELISTS :: nat where "NFREELISTS \<equiv> 16"

definition ROUND_UP :: "word32 \<Rightarrow> word32" where
  "ROUND_UP bytes = (bytes + ALIGN - 1) AND NOT (ALIGN - 1)"

definition FREELIST_INDEX :: "word32 \<Rightarrow> word32" where
  "FREELIST_INDEX bytes = (bytes + ALIGN - 1) div ALIGN - 1"

record astate =
  links :: "word32 \<Rightarrow> word32"
  free_list :: "word32 list"
  start_free :: word32
  end_free :: word32
  heap_size :: word32
  mcalls :: nat
  live :: "block list"

definition alloc_init :: astate where
  "alloc_init = \<lparr>links = (\<lambda>_. 0), free_list = replicate NFREELISTS 0, start_free = 0, end_free = 0,
     heap_size = 0, mcalls = 0, live = []\<rparr>"

text \<open>One call of \<open>malloc\<close>.\<close>

definition c_malloc :: "malloc_fn \<Rightarrow> astate \<Rightarrow> word32 \<Rightarrow> astate \<times> word32" where
  "c_malloc mal st n =
     (let r = mal (mcalls st) (live st) n
      in (st\<lparr>mcalls := Suc (mcalls st), live := (if r = 0 then live st else (r, n) # live st)\<rparr>, r))"

definition c_realloc :: "realloc_fn \<Rightarrow> astate \<Rightarrow> word32 \<Rightarrow> word32 \<Rightarrow> astate \<times> word32" where
  "c_realloc rea st p n =
     (let r = rea (mcalls st) (live st) p n
      in (st\<lparr>mcalls := Suc (mcalls st),
             live := (if r = 0 then live st else (r, n) # filter (\<lambda>b. fst b \<noteq> p) (live st))\<rparr>, r))"

definition c_free :: "astate \<Rightarrow> word32 \<Rightarrow> astate res" where
  "c_free st p =
     (if p = 0 then Inr st
      else if p \<in> fst ` set (live st) then Inr (st\<lparr>live := filter (\<lambda>b. fst b \<noteq> p) (live st)\<rparr>)
      else Inl BadFree)"

text \<open>The \<open>for (;;)\<close> loops of \<open>oom_malloc\<close> and \<open>oom_realloc\<close>, cut off after \<open>k\<close> rounds.\<close>

primrec oom_malloc :: "malloc_fn \<Rightarrow> nat \<Rightarrow> astate \<Rightarrow> word32 \<Rightarrow> (astate \<times> word32) res" where
  "oom_malloc mal 0 st n = Inl OutOfFuel"
| "oom_malloc mal (Suc k) st n =
     (let (st1, result) = c_malloc mal st n
      in if result \<noteq> 0 then Inr (st1, result) else oom_malloc mal k st1 n)"

primrec oom_realloc :: "realloc_fn \<Rightarrow> nat \<Rightarrow> astate \<Rightarrow> word32 \<Rightarrow> word32 \<Rightarrow> (astate \<times> word32) res" where
  "oom_realloc rea 0 st p n = Inl OutOfFuel"
| "oom_realloc rea (Suc k) st p n =
     (let (st1, result) = c_realloc rea st p n
      in if result \<noteq> 0 then Inr (st1, result) else oom_realloc rea k st1 p n)"

definition allocate :: "malloc_fn \<Rightarrow> nat \<Rightarrow> astate \<Rightarrow> word32 \<Rightarrow> (astate \<times> word32) res" where
  "allocate mal k st n =
     (let (st1, result) = c_malloc mal st n
      in if result = 0 then oom_malloc mal k st1 n else Inr (st1, result))"

definition deallocate :: "astate \<Rightarrow> word32 \<Rightarrow> word32 \<Rightarrow> astate res" where
  "deallocate st p n = c_free st p"

definition reallocate :: "realloc_fn \<Rightarrow> nat \<Rightarrow> astate \<Rightarrow> word32 \<Rightarrow> word32 \<Rightarrow> word32 \<Rightarrow>
    (astate \<times> word32) res" where
  "reallocate rea k st p old_sz new_sz =
     (let (st1, result) = c_realloc rea st p new_sz
      in if result = 0 then oom_realloc rea k st1 p new_sz else Inr (st1, result))"

text \<open>Reading and writing an entry of the array \<open>free_list\<close>.\<close>

definition get_list :: "astate \<Rightarrow> word32 \<Rightarrow> word32 res" where
  "get_list st i = (if unat i < length (free_list st) then Inr (free_list st ! unat i) else Inl OutOfBounds)"

definition set_list :: "astate \<Rightarrow> word32 \<Rightarrow> word32 \<Rightarrow> astate res" where
  "set_list st i p =
     (if unat i < length (free_list st) then Inr (st\<lparr>free_list := (free_list st)[unat i := p]\<rparr>)
      else Inl OutOfBounds)"

text \<open>Pushing a block on the list of its size, and popping the first block of a list.\<close>

definition push_block :: "astate \<Rightarrow> word32 \<Rightarrow> word32 \<Rightarrow> astate res" where
  "push_block st q n =
     rbind (get_list st (FREELIST_INDEX n)) (\<lambda>hd.
     set_list (st\<lparr>links := (links st)(q := hd)\<rparr>) (FREELIST_INDEX n) q)"

definition pop_block :: "astate \<Rightarrow> word32 \<Rightarrow> word32 \<Rightarrow> astate res" where
  "pop_block st p n = set_list st (FREELIST_INDEX n) (links st p)"

text \<open>
  The search of \<open>chunk_alloc\<close> for a free block when \<open>malloc\<close> fails: sizes \<open>i\<close> from the
  requested one in steps of 8 while \<open>i < 128\<close> (\<open>f\<close> bounds the number of rounds).
\<close>

fun oom_search :: "nat \<Rightarrow> astate \<Rightarrow> word32 \<Rightarrow> (word32 \<times> word32) option res" where
  "oom_search 0 st i = Inl OutOfFuel"
| "oom_search (Suc f) st i =
     (if i < MAX_BYTES then
        rbind (get_list st (FREELIST_INDEX i)) (\<lambda>p.
          if p \<noteq> 0 then Inr (Some (p, i)) else oom_search f st (i + ALIGN))
      else Inr None)"

text \<open>
  \<open>chunk_alloc\<close>: the result is the new state, the address of the objects and their number
  \<open>*nobjs\<close>. \<open>f\<close> bounds the depth of the recursion, \<open>k\<close> the retries of \<open>allocate\<close>.
\<close>

fun chunk_alloc :: "malloc_fn \<Rightarrow> nat \<Rightarrow> nat \<Rightarrow> astate \<Rightarrow> word32 \<Rightarrow> nat \<Rightarrow> (astate \<times> word32 \<times> nat) res" where
  "chunk_alloc mal k 0 st sz nobjs = Inl OutOfFuel"
| "chunk_alloc mal k (Suc f) st sz nobjs =
     (let total_bytes = sz * of_nat nobjs;
          bytes_left = end_free st - start_free st
      in if bytes_left \<ge> total_bytes then
           Inr (st\<lparr>start_free := start_free st + total_bytes\<rparr>, start_free st, nobjs)
         else if bytes_left \<ge> sz then
           (if sz = 0 then Inl DivByZero
            else let nobjs' = unat (bytes_left div sz); total' = sz * of_nat nobjs'
                 in Inr (st\<lparr>start_free := start_free st + total'\<rparr>, start_free st, nobjs'))
         else
           (let bytes_to_get = 2 * total_bytes + ROUND_UP (drop_bit 4 (heap_size st))
            in rbind (if bytes_left > 0 then push_block st (start_free st) bytes_left else Inr st) (\<lambda>st1.
               let (st2, p) = c_malloc mal st1 bytes_to_get; st3 = st2\<lparr>start_free := p\<rparr>
               in if p = 0 then
                    rbind (oom_search 17 st3 sz) (\<lambda>found.
                      case found of
                        Some (q, i) \<Rightarrow>
                          rbind (pop_block st3 q i) (\<lambda>st4.
                          chunk_alloc mal k f (st4\<lparr>start_free := q, end_free := q + i\<rparr>) sz nobjs)
                      | None \<Rightarrow>
                          rbind (allocate mal k (st3\<lparr>end_free := 0\<rparr>) bytes_to_get) (\<lambda>(st4, r).
                          chunk_alloc mal k f
                            (st4\<lparr>start_free := r, heap_size := heap_size st4 + bytes_to_get,
                                 end_free := r + bytes_to_get\<rparr>) sz nobjs))
                  else
                    chunk_alloc mal k f
                      (st3\<lparr>heap_size := heap_size st3 + bytes_to_get,
                           end_free := p + bytes_to_get\<rparr>) sz nobjs)))"

text \<open>The loop of \<open>refill\<close> that links objects 1 to \<open>nobjs - 1\<close>; \<open>d\<close> is \<open>nobjs - 1 - i\<close>.\<close>

primrec refill_loop :: "nat \<Rightarrow> word32 \<Rightarrow> (word32 \<Rightarrow> word32) \<Rightarrow> word32 \<Rightarrow> (word32 \<Rightarrow> word32)" where
  "refill_loop 0 n lk next_obj = lk(next_obj := 0)"
| "refill_loop (Suc d) n lk next_obj = refill_loop d n (lk(next_obj := next_obj + n)) (next_obj + n)"

definition refill :: "malloc_fn \<Rightarrow> nat \<Rightarrow> astate \<Rightarrow> word32 \<Rightarrow> (astate \<times> word32) res" where
  "refill mal k st n =
     rbind (chunk_alloc mal k 2 st n 20) (\<lambda>(st1, chunk, nobjs).
       if nobjs = 1 then Inr (st1, chunk)
       else rbind (set_list st1 (FREELIST_INDEX n) (chunk + n)) (\<lambda>st2.
         Inr (st2\<lparr>links := refill_loop (nobjs - 2) n (links st2) (chunk + n)\<rparr>, chunk)))"

definition sub_allocate :: "malloc_fn \<Rightarrow> nat \<Rightarrow> astate \<Rightarrow> word32 \<Rightarrow> (astate \<times> word32) res" where
  "sub_allocate mal k st n =
     (if n > MAX_BYTES then allocate mal k st n
      else rbind (get_list st (FREELIST_INDEX n)) (\<lambda>result.
        if result = 0 then refill mal k st (ROUND_UP n)
        else rbind (pop_block st result n) (\<lambda>st1. Inr (st1, result))))"

text \<open>
  \<open>sub_deallocate\<close>: the local \<open>q\<close> is the null pointer and never set to \<open>p\<close>, and the store
  \<open>q->free_list_link = ...\<close> goes through it.
\<close>

definition store_link :: "astate \<Rightarrow> word32 \<Rightarrow> word32 \<Rightarrow> astate res" where
  "store_link st q v = (if q = 0 then Inl NullDeref else Inr (st\<lparr>links := (links st)(q := v)\<rparr>))"

definition sub_deallocate :: "astate \<Rightarrow> word32 \<Rightarrow> word32 \<Rightarrow> astate res" where
  "sub_deallocate st p n =
     (let q = 0 in
      if n > MAX_BYTES then deallocate st p n
      else rbind (get_list st (FREELIST_INDEX n)) (\<lambda>hd.
           rbind (store_link st q hd) (\<lambda>st1.
           set_list st1 (FREELIST_INDEX n) q)))"

subsection \<open>Sizes and list numbers\<close>

lemma unat_lt32: "unat (w :: word32) < 2 ^ 32"
  using unsigned_less [of w] by simp

lemma and_not_mask_minus: "(x::'a::len word) AND NOT (mask n) = x - take_bit n x"
proof -
  have "x AND NOT (mask n) = push_bit n (drop_bit n x)"
    by (rule bit_word_eqI) (auto simp: bit_simps)
  moreover have "push_bit n (drop_bit n x) = x - take_bit n x"
    using bits_ident [of n x] by (metis add_diff_cancel_right')
  ultimately show ?thesis by simp
qed

lemma unat_round8: "unat ((x::32 word) AND NOT 7) = 8 * (unat x div 8)"
proof -
  have "(7::32 word) = mask 3" by (simp add: mask_eq_exp_minus_1)
  then have "x AND NOT 7 = x - take_bit 3 x" by (simp only: and_not_mask_minus)
  moreover have t: "unat (take_bit 3 x) = unat x mod 8" by (simp add: take_bit_eq_mod unat_mod)
  moreover have "take_bit 3 x \<le> x" by (simp add: word_le_nat_alt t)
  ultimately have "unat (x AND NOT 7) = unat x - unat x mod 8" by (simp add: unat_sub)
  also have "\<dots> = 8 * (unat x div 8)" by (simp add: minus_mod_eq_mult_div)
  finally show ?thesis .
qed

lemma unat_ROUND_UP:
  assumes "unat n \<le> 2 ^ 32 - 8"
  shows "unat (ROUND_UP n) = 8 * ((unat n + 7) div 8)"
proof -
  have "unat (n + 7) = unat n + 7"
    using assms by (subst unat_add_lem [THEN iffD1]) auto
  moreover have "ROUND_UP n = (n + 7) AND NOT 7" by (simp add: ROUND_UP_def add.commute)
  ultimately show ?thesis by (simp only: unat_round8)
qed

lemma unat_FREELIST_INDEX:
  assumes "0 < n" "unat n \<le> 2 ^ 32 - 8"
  shows "unat (FREELIST_INDEX n) = (unat n + 7) div 8 - 1"
proof -
  have a: "unat (n + 7) = unat n + 7"
    using assms by (subst unat_add_lem [THEN iffD1]) auto
  have n: "0 < unat n" using assms(1) by (simp add: word_less_nat_alt)
  have d: "unat ((n + 7) div 8) = (unat n + 7) div 8"
    by (simp add: unat_div a)
  have "(1::32 word) \<le> (n + 7) div 8" using n by (simp add: word_le_nat_alt d)
  then have "unat ((n + 7) div 8 - 1) = (unat n + 7) div 8 - 1"
    by (simp add: unat_sub d)
  moreover have "FREELIST_INDEX n = (n + 7) div 8 - 1" by (simp add: FREELIST_INDEX_def add.commute)
  ultimately show ?thesis by (simp only:)
qed
text \<open>The size of the blocks on free list \<open>i\<close>.\<close>

definition slot_size :: "nat \<Rightarrow> word32" where
  "slot_size i = of_nat (8 * Suc i)"

lemma unat_slot_size [simp]: "i < NFREELISTS \<Longrightarrow> unat (slot_size i) = 8 * Suc i"
  by (rule of_nat_inverse [of "8 * Suc i"]) (simp_all add: slot_size_def)

lemma FREELIST_INDEX_slot_size [simp]: "i < NFREELISTS \<Longrightarrow> unat (FREELIST_INDEX (slot_size i)) = i"
  by (subst unat_FREELIST_INDEX) (auto simp: word_less_nat_alt)

lemma slot_size_pos: "i < NFREELISTS \<Longrightarrow> 0 < slot_size i"
  by (simp add: word_less_nat_alt)

text \<open>A small request is served from the list whose block size is the request rounded up.\<close>

lemma small_request:
  assumes "0 < n" "n \<le> MAX_BYTES"
  shows "unat (FREELIST_INDEX n) < NFREELISTS" "ROUND_UP n = slot_size (unat (FREELIST_INDEX n))" "n \<le> ROUND_UP n"
proof -
  have n: "0 < unat n" "unat n \<le> 128"
    using assms by (auto simp: word_less_nat_alt word_le_nat_alt)
  have i: "unat (FREELIST_INDEX n) = (unat n + 7) div 8 - 1"
    by (rule unat_FREELIST_INDEX) (use assms n in auto)
  then show lt: "unat (FREELIST_INDEX n) < NFREELISTS" using n by auto
  have u: "unat (ROUND_UP n) = 8 * ((unat n + 7) div 8)"
    by (rule unat_ROUND_UP) (use n in auto)
  have "1 \<le> (unat n + 7) div 8" using n by auto
  then have "unat (ROUND_UP n) = unat (slot_size (unat (FREELIST_INDEX n)))"
    using u i lt by simp
  then show "ROUND_UP n = slot_size (unat (FREELIST_INDEX n))" by (rule word_unat_eq_iff [THEN iffD2])
  show "n \<le> ROUND_UP n" using n by (simp add: word_le_nat_alt u)
qed

subsection \<open>Memory regions\<close>

text \<open>
  The bytes of a block, and how many blocks of a list hold a given byte: a family of blocks is
  disjoint when no byte is held twice.
\<close>

fun span :: "block \<Rightarrow> nat set" where
  "span (a, n) = {unat a..<unat a + unat n}"

definition cover :: "block list \<Rightarrow> nat \<Rightarrow> nat" where
  "cover bs x = length (filter (\<lambda>b. x \<in> span b) bs)"

definition covered :: "block list \<Rightarrow> nat \<Rightarrow> bool" where
  "covered bs x \<longleftrightarrow> (\<exists>b\<in>set bs. x \<in> span b)"

lemma cover_simps [simp]:
  "cover [] x = 0" "cover (b # bs) x = (if x \<in> span b then 1 else 0) + cover bs x"
  "cover (bs @ cs) x = cover bs x + cover cs x"
  by (auto simp: cover_def)

lemma cover_pos_iff: "0 < cover bs x \<longleftrightarrow> covered bs x"
  by (induction bs) (auto simp: covered_def)

lemma cover_mem: "b \<in> set bs \<Longrightarrow> x \<in> span b \<Longrightarrow> 1 \<le> cover bs x"
  by (induction bs) auto

text \<open>A block is the two blocks it is split into.\<close>

lemma unat_add_lt: "unat (a::word32) + unat b < 2 ^ 32 \<Longrightarrow> unat (a + b) = unat a + unat b"
  by (subst unat_add_lem [THEN iffD1]) auto

lemma cover_split:
  assumes "unat a + (unat n + unat m) < 2 ^ 32"
  shows "cover [(a, n + m)] x = cover [(a, n), (a + n, m)] x"
proof -
  have "unat (n + m) = unat n + unat m" "unat (a + n) = unat a + unat n"
    using assms by (auto intro: unat_add_lt)
  then show ?thesis by auto
qed

definition list_blocks :: "nat \<Rightarrow> word32 list \<Rightarrow> block list" where
  "list_blocks i as = map (\<lambda>a. (a, slot_size i)) as"

lemma list_blocks_simps [simp]:
  "list_blocks i [] = []" "list_blocks i (a # as) = (a, slot_size i) # list_blocks i as"
  by (auto simp: list_blocks_def)

definition free_cover :: "(nat \<Rightarrow> word32 list) \<Rightarrow> nat \<Rightarrow> nat" where
  "free_cover fl x = (\<Sum>i<NFREELISTS. cover (list_blocks i (fl i)) x)"

lemma free_cover_upd:
  assumes "i < NFREELISTS"
  shows "free_cover (fl(i := as)) x + cover (list_blocks i (fl i)) x =
    free_cover fl x + cover (list_blocks i as) x"
proof -
  let ?f = "\<lambda>fl j. cover (list_blocks j (fl j)) x"
  have fin: "finite {..<NFREELISTS}" "i \<in> {..<NFREELISTS}" using assms by auto
  have "sum (?f (fl(i := as))) ({..<NFREELISTS} - {i}) = sum (?f fl) ({..<NFREELISTS} - {i})"
    by (rule sum.cong) auto
  then show ?thesis
    unfolding free_cover_def sum.remove [OF fin, of "?f (fl(i := as))"] sum.remove [OF fin, of "?f fl"]
    by simp
qed

lemma free_cover_mem:
  assumes "i < NFREELISTS" "a \<in> set (fl i)"
  shows "1 \<le> free_cover fl (unat a)"
proof -
  have "(a, slot_size i) \<in> set (list_blocks i (fl i))" "unat a \<in> span (a, slot_size i)"
    using assms by (auto simp: list_blocks_def)
  then have "1 \<le> cover (list_blocks i (fl i)) (unat a)" by (rule cover_mem)
  also have "\<dots> \<le> free_cover fl (unat a)"
    unfolding free_cover_def by (rule member_le_sum) (use assms in auto)
  finally show ?thesis .
qed

subsection \<open>The allocator's invariant\<close>

primrec lchain :: "(word32 \<Rightarrow> word32) \<Rightarrow> word32 \<Rightarrow> word32 list \<Rightarrow> bool" where
  "lchain lk p [] \<longleftrightarrow> p = 0"
| "lchain lk p (a # as) \<longleftrightarrow> p = a \<and> a \<noteq> 0 \<and> lchain lk (lk a) as"

lemma lchain_frame: "lchain lk p as \<Longrightarrow> (\<And>a. a \<in> set as \<Longrightarrow> lk' a = lk a) \<Longrightarrow> lchain lk' p as"
  by (induction as arbitrary: p) auto

text \<open>
  \<open>core st fl P H\<close>: free list \<open>i\<close> links the blocks \<open>fl i\<close>; no byte belongs to two of: a free
  block, a block of \<open>P\<close> (the pool and blocks in transit), a block of \<open>H\<close> (handed out); and
  all of them lie in live blocks of \<open>malloc\<close>. In \<open>alloc_inv\<close> the pool is
  \<open>[start_free, end_free)\<close>, of a size that is a multiple of 8.
\<close>

definition core :: "astate \<Rightarrow> (nat \<Rightarrow> word32 list) \<Rightarrow> block list \<Rightarrow> block list \<Rightarrow> bool" where
  "core st fl P H \<longleftrightarrow>
     length (free_list st) = NFREELISTS \<and>
     (\<forall>i<NFREELISTS. lchain (links st) (free_list st ! i) (fl i)) \<and>
     (\<forall>i<NFREELISTS. \<forall>a\<in>set (fl i). 8 dvd unat a \<and> unat a + 8 * Suc i < 2 ^ 32) \<and>
     (\<forall>x. cover P x + free_cover fl x + cover H x \<le> 1) \<and>
     (\<forall>x. 0 < cover P x + free_cover fl x + cover H x \<longrightarrow> covered (live st) x) \<and>
     (\<forall>b\<in>set (live st). fst b \<noteq> 0)"

definition alloc_inv :: "astate \<Rightarrow> (nat \<Rightarrow> word32 list) \<Rightarrow> block list \<Rightarrow> bool" where
  "alloc_inv st fl H \<longleftrightarrow>
     core st fl [(start_free st, end_free st - start_free st)] H \<and> start_free st \<le> end_free st \<and>
     8 dvd unat (start_free st) \<and> 8 dvd unat (end_free st - start_free st)"

text \<open>What the C library documents of \<open>malloc\<close>: a block it returns is aligned, does not reach the end
  of the address space, and shares no byte with a live block.\<close>

definition malloc_ok :: "malloc_fn \<Rightarrow> bool" where
  "malloc_ok mal \<longleftrightarrow> (\<forall>c L n. mal c L n \<noteq> 0 \<longrightarrow>
     8 dvd unat (mal c L n) \<and> unat (mal c L n) + unat n < 2 ^ 32 \<and>
     (\<forall>x\<in>span (mal c L n, n). \<not> covered L x))"

lemma core_cong:
  assumes "core st fl P H" "links st' = links st" "free_list st' = free_list st" "live st' = live st"
  shows "core st' fl P H"
  using assms by (simp add: core_def)

lemma core_disjoint: "core st fl P H \<Longrightarrow> cover P x + free_cover fl x + cover H x \<le> 1"
  and core_covered: "core st fl P H \<Longrightarrow> 0 < cover P x + free_cover fl x + cover H x \<Longrightarrow> covered (live st) x"
  by (simp_all only: core_def)

lemma core_live: "core st fl P H \<Longrightarrow> b \<in> set (live st) \<Longrightarrow> fst b \<noteq> 0"
  by (drule core_def [THEN iffD1], elim conjE, erule (1) bspec)

text \<open>Blocks may be split, joined, moved between \<open>P\<close> and \<open>H\<close>, and dropped.\<close>

lemma core_cover:
  assumes c: "core st fl P H" and le: "\<And>x. cover P' x + cover H' x \<le> cover P x + cover H x"
  shows "core st fl P' H'"
proof -
  have m: "cover P' x + free_cover fl x + cover H' x \<le> cover P x + free_cover fl x + cover H x" for x
    using le [of x] by simp
  have "cover P' x + free_cover fl x + cover H' x \<le> 1" for x
    by (rule order_trans [OF m core_disjoint [OF c]])
  moreover have "covered (live st) x" if "0 < cover P' x + free_cover fl x + cover H' x" for x
    by (rule core_covered [OF c order_less_le_trans [OF that m]])
  ultimately show ?thesis using c by (simp add: core_def)
qed

lemma core_nonzero:
  assumes c: "core st fl P H" and pos: "0 < cover P x + free_cover fl x + cover H x"
  shows "x \<noteq> 0"
proof -
  from core_covered [OF c pos] obtain b where b: "b \<in> set (live st)" "x \<in> span b" "fst b \<noteq> 0"
    using core_live [OF c] unfolding covered_def by blast
  then have "0 < unat (fst b)" by (simp add: unat_gt_0)
  with b(2) show ?thesis by (cases b) auto
qed

text \<open>A block in transit is on no free list.\<close>

lemma core_not_free:
  assumes c: "core st fl ((q, n) # P) H" and n: "0 < n" and i: "i < NFREELISTS"
  shows "q \<notin> set (fl i)" and "q \<noteq> 0"
proof -
  have q: "unat q \<in> span (q, n)" using n by (simp add: word_less_nat_alt)
  have le: "cover ((q, n) # P) (unat q) + free_cover fl (unat q) + cover H (unat q) \<le> 1"
    by (rule core_disjoint [OF c])
  show "q \<notin> set (fl i)"
  proof
    assume "q \<in> set (fl i)"
    from free_cover_mem [of i q fl, OF i this] q le show False by simp
  qed
  show "q \<noteq> 0" using core_nonzero [OF c, of "unat q"] q by auto
qed

lemma core_push:
  assumes c: "core st fl ((q, slot_size i) # P) H" and i: "i < NFREELISTS"
    and q: "8 dvd unat q" "unat q + 8 * Suc i < 2 ^ 32"
  obtains st' where "push_block st q (slot_size i) = Inr st'" "core st' (fl(i := q # fl i)) P H"
    "start_free st' = start_free st" "end_free st' = end_free st" "heap_size st' = heap_size st"
    "mcalls st' = mcalls st" "live st' = live st"
proof -
  let ?st = "st\<lparr>links := (links st)(q := free_list st ! i), free_list := (free_list st)[i := q]\<rparr>"
  have len: "length (free_list st) = NFREELISTS" using c by (simp add: core_def)
  have push: "push_block st q (slot_size i) = Inr ?st"
    using i len by (simp add: push_block_def get_list_def set_list_def)
  note nf = core_not_free [OF c slot_size_pos [OF i]]
  have chains: "lchain (links ?st) (free_list ?st ! j) ((fl(i := q # fl i)) j)" if j: "j < NFREELISTS" for j
  proof -
    have "lchain (links st) (free_list st ! j) (fl j)" using c j by (simp add: core_def)
    then have l: "lchain ((links st)(q := free_list st ! i)) (free_list st ! j) (fl j)"
      by (rule lchain_frame) (use nf(1) [OF j] in auto)
    show ?thesis
    proof (cases "j = i")
      case True
      with l nf(2) [OF i] len i show ?thesis by simp
    next
      case False
      with l show ?thesis by simp
    qed
  qed
  have cov: "cover P x + free_cover (fl(i := q # fl i)) x + cover H x =
      cover ((q, slot_size i) # P) x + free_cover fl x + cover H x" for x
    using free_cover_upd [OF i, of fl "q # fl i" x] by simp
  have "core ?st (fl(i := q # fl i)) P H"
    unfolding core_def cov using c chains len q by (auto simp: core_def)
  then show thesis using that [OF push] by simp
qed

lemma core_pop:
  assumes c: "core st fl P H" and i: "i < NFREELISTS" and fl: "free_list st ! i \<noteq> 0"
    and n: "unat (FREELIST_INDEX n) = i"
  obtains st' where "pop_block st (free_list st ! i) n = Inr st'"
    "core st' (fl(i := tl (fl i))) ((free_list st ! i, slot_size i) # P) H"
    "8 dvd unat (free_list st ! i)" "unat (free_list st ! i) + 8 * Suc i < 2 ^ 32"
    "start_free st' = start_free st" "end_free st' = end_free st" "heap_size st' = heap_size st"
    "mcalls st' = mcalls st" "live st' = live st"
proof -
  let ?p = "free_list st ! i"
  let ?st = "st\<lparr>free_list := (free_list st)[i := links st ?p]\<rparr>"
  have len: "length (free_list st) = NFREELISTS"
    and ch: "\<And>j. j < NFREELISTS \<Longrightarrow> lchain (links st) (free_list st ! j) (fl j)"
    and al: "\<And>j a. j < NFREELISTS \<Longrightarrow> a \<in> set (fl j) \<Longrightarrow> 8 dvd unat a \<and> unat a + 8 * Suc j < 2 ^ 32"
    using c by (auto simp: core_def)
  from ch [OF i] fl obtain as where as: "fl i = ?p # as" "lchain (links st) (links st ?p) as"
    by (cases "fl i") auto
  have pop: "pop_block st ?p n = Inr ?st"
    using i len n by (simp add: pop_block_def set_list_def)
  have chains: "lchain (links ?st) (free_list ?st ! j) ((fl(i := as)) j)" if "j < NFREELISTS" for j
    using ch [OF that] as(2) len i by (cases "j = i") auto
  have cov: "cover ((?p, slot_size i) # P) x + free_cover (fl(i := as)) x + cover H x =
      cover P x + free_cover fl x + cover H x" for x
    using free_cover_upd [OF i, of fl as x] as(1) by simp
  have al': "8 dvd unat a \<and> unat a + 8 * Suc j < 2 ^ 32" if "j < NFREELISTS" "a \<in> set ((fl(i := as)) j)" for j a
    using al [OF that(1)] that(2) as(1) by (cases "j = i") auto
  have "core ?st (fl(i := as)) ((?p, slot_size i) # P) H"
    unfolding core_def cov using c chains len al' by (auto simp: core_def)
  moreover have "tl (fl i) = as" using as(1) by simp
  ultimately show thesis using that [OF pop] al [OF i, of ?p] as(1) by simp
qed

lemma core_malloc:
  assumes c: "core st fl P H" and ok: "malloc_ok mal" and m: "c_malloc mal st n = (st', r)"
  shows "core st' fl P H" "r \<noteq> 0 \<Longrightarrow> core st' fl ((r, n) # P) H"
    "r \<noteq> 0 \<Longrightarrow> 8 dvd unat r \<and> unat r + unat n < 2 ^ 32"
    "free_list st' = free_list st" "start_free st' = start_free st" "end_free st' = end_free st"
    "heap_size st' = heap_size st" "mcalls st' = Suc (mcalls st)" "links st' = links st"
proof -
  have st': "st' = st\<lparr>mcalls := Suc (mcalls st), live := (if r = 0 then live st else (r, n) # live st)\<rparr>"
    and r: "r = mal (mcalls st) (live st) n"
    using m by (auto simp: c_malloc_def Let_def)
  show "r \<noteq> 0 \<Longrightarrow> 8 dvd unat r \<and> unat r + unat n < 2 ^ 32"
    using ok r by (auto simp: malloc_ok_def)
  show "free_list st' = free_list st" "start_free st' = start_free st" "end_free st' = end_free st"
    "heap_size st' = heap_size st" "mcalls st' = Suc (mcalls st)" "links st' = links st"
    by (auto simp: st')
  have mono: "covered (live st) x \<Longrightarrow> covered (live st') x" for x
    by (auto simp: st' covered_def)
  then show "core st' fl P H"
    using c unfolding core_def by (auto simp: st')
  show "core st' fl ((r, n) # P) H" if nz: "r \<noteq> 0"
  proof -
    have fresh: "cover P x + free_cover fl x + cover H x = 0" if x: "x \<in> span (r, n)" for x
    proof (rule ccontr)
      assume "cover P x + free_cover fl x + cover H x \<noteq> 0"
      then have "covered (live st) x" by (intro core_covered [OF c]) simp
      with x ok nz r show False unfolding malloc_ok_def by blast
    qed
    have le: "cover ((r, n) # P) x + free_cover fl x + cover H x \<le> 1" for x
      using fresh [of x] core_disjoint [OF c, of x] by (cases "x \<in> span (r, n)") auto
    have cov: "covered (live st') x" if "0 < cover ((r, n) # P) x + free_cover fl x + cover H x" for x
    proof (cases "x \<in> span (r, n)")
      case True
      with nz show ?thesis by (auto simp: st' covered_def)
    next
      case False
      with that show ?thesis using core_covered [OF c, of x] mono by auto
    qed
    show ?thesis
      unfolding core_def using c le cov nz by (simp only: core_def) (auto simp: st')
  qed
qed

subsection \<open>The pool\<close>

lemma alloc_init_inv: "alloc_inv alloc_init (\<lambda>_. []) []"
  by (auto simp: alloc_inv_def core_def alloc_init_def free_cover_def)

lemma unat_mult_of_nat:
  assumes "unat (w::word32) * n < 2 ^ 32"
  shows "unat (w * of_nat n) = unat w * n"
proof (cases "unat w = 0")
  case True
  then have "w = 0" by (simp add: unat_eq_0)
  then show ?thesis by simp
next
  case False
  then have "n \<le> unat w * n" by simp
  with assms have "n < 2 ^ 32" by (rule order_le_less_trans [rotated])
  then have n: "unat (of_nat n :: word32) = n" by (simp add: unat_of_nat)
  show ?thesis
    using assms by (simp add: unat_word_ariths n)
qed

text \<open>
  When the pool holds at least one object, \<open>chunk_alloc\<close> takes between one and \<open>nobjs\<close>
  objects from its front, without recursion.
\<close>

lemma chunk_take:
  assumes inv: "alloc_inv st fl H" and i: "i < NFREELISTS" and n: "1 \<le> nobjs" "nobjs \<le> 20"
    and left: "slot_size i \<le> end_free st - start_free st"
  obtains st' n' where "chunk_alloc mal k (Suc f) st (slot_size i) nobjs = Inr (st', start_free st, n')"
    "1 \<le> n'" "n' \<le> nobjs" "alloc_inv st' fl ((start_free st, slot_size i * of_nat n') # H)"
    "unat (start_free st) + unat (slot_size i) * n' < 2 ^ 32"
proof -
  let ?s = "start_free st" and ?e = "end_free st" and ?z = "slot_size i"
  let ?left = "unat (?e - ?s)"
  have c: "core st fl [(?s, ?e - ?s)] H" and se: "?s \<le> ?e" and al: "8 dvd unat ?s" "8 dvd ?left"
    using inv by (auto simp: alloc_inv_def)
  have zl: "unat ?z \<le> ?left" using left by (simp add: word_le_nat_alt)
  have e: "?left = unat ?e - unat ?s" using se by (simp add: unat_sub)
  have se': "unat ?s \<le> unat ?e" using se by (simp add: word_le_nat_alt)
  have "unat ?z * nobjs \<le> 128 * 20" by (rule mult_le_mono) (use i n in auto)
  then have tot: "unat (?z * of_nat nobjs) = unat ?z * nobjs"
    by (intro unat_mult_of_nat) simp
  have zp: "0 < unat ?z" "?z \<noteq> 0" using i slot_size_pos [OF i] by auto
  define n' where "n' = (if unat ?z * nobjs \<le> ?left then nobjs else ?left div unat ?z)"
  have n': "1 \<le> n'" "n' \<le> nobjs" "unat ?z * n' \<le> ?left"
    unfolding n'_def using n zl zp(1) by (auto simp: div_greater_zero_iff Suc_le_eq less_mult_imp_div_less less_imp_le mult.commute)
  have un: "unat (?z * of_nat n') = unat ?z * n'"
    by (rule unat_mult_of_nat) (use n' e unat_lt32 [of ?e] in auto)
  let ?st = "st\<lparr>start_free := ?s + ?z * of_nat n'\<rparr>"
  have run: "chunk_alloc mal k (Suc f) st ?z nobjs = Inr (?st, ?s, n')"
    using left zp(2) by (auto simp: Let_def word_le_nat_alt tot n'_def unat_div)
  have s': "unat (?s + ?z * of_nat n') = unat ?s + unat ?z * n'"
    by (subst unat_add_lt) (use un n'(3) e se' unat_lt32 [of ?e] in auto)
  have lt: "unat ?s + unat ?z * n' < 2 ^ 32"
    using n'(3) e se' unat_lt32 [of ?e] by simp
  have rest: "?e - (?s + ?z * of_nat n') + ?z * of_nat n' = ?e - ?s" by simp
  have le: "?s + ?z * of_nat n' \<le> ?e"
    using s' n'(3) e se' by (simp add: word_le_nat_alt)
  have ur: "unat (?e - (?s + ?z * of_nat n')) = ?left - unat ?z * n'"
    using le s' e by (simp add: unat_sub)
  have cov: "cover [(?s, ?e - ?s)] x =
      cover [(?s, ?z * of_nat n'), (?s + ?z * of_nat n', ?e - (?s + ?z * of_nat n'))] x" for x
    using cover_split [of ?s "?z * of_nat n'" "?e - (?s + ?z * of_nat n')" x] ur un n'(3) e se'
      unat_lt32 [of ?e] by simp
  have "core st fl [(?s + ?z * of_nat n', ?e - (?s + ?z * of_nat n'))] ((?s, ?z * of_nat n') # H)"
    by (rule core_cover [OF c], unfold cov) (simp del: span.simps)
  then have "core ?st fl [(?s + ?z * of_nat n', ?e - (?s + ?z * of_nat n'))] ((?s, ?z * of_nat n') # H)"
    by (rule core_cong) simp_all
  then have "alloc_inv ?st fl ((?s, ?z * of_nat n') # H)"
    using le al s' ur i n'(3) by (simp add: alloc_inv_def dvd_diff_nat)
  with run n' lt show thesis by (intro that)
qed

text \<open>The amount asked of \<open>malloc\<close>: a multiple of 8, at least the objects wanted.\<close>

lemma bytes_to_get:
  fixes h :: word32
  assumes i: "i < NFREELISTS" and n: "1 \<le> nobjs" "nobjs \<le> 20"
  defines "g \<equiv> 2 * (slot_size i * of_nat nobjs) + ROUND_UP (drop_bit 4 h)"
  shows "8 dvd unat g" "slot_size i \<le> g"
proof -
  have b: "unat (slot_size i) * nobjs \<le> 128 * 20" by (rule mult_le_mono) (use i n in auto)
  have t: "unat (slot_size i * of_nat nobjs) = unat (slot_size i) * nobjs"
    by (rule unat_mult_of_nat) (use b in simp)
  have t2: "unat (2 * (slot_size i * of_nat nobjs)) = 2 * (unat (slot_size i) * nobjs)"
    using unat_mult_of_nat [of "slot_size i * of_nat nobjs" 2] b t by (simp add: mult.commute)
  have "unat (drop_bit 4 h) = unat h div 2 ^ 4" unfolding unat_drop_bit_eq by (rule drop_bit_eq_div)
  then have h: "unat (drop_bit 4 h) < 2 ^ 28" using unat_lt32 [of h] by simp
  have r: "unat (ROUND_UP (drop_bit 4 h)) = 8 * ((unat (drop_bit 4 h) + 7) div 8)"
    by (rule unat_ROUND_UP) (use h in simp)
  have "8 * ((unat (drop_bit 4 h) + 7) div 8) \<le> unat (drop_bit 4 h) + 7" by simp
  then have g: "unat g = 2 * (unat (slot_size i) * nobjs) + unat (ROUND_UP (drop_bit 4 h))"
    unfolding g_def by (subst unat_add_lt) (use t2 b r h in auto)
  have "8 dvd unat (slot_size i)" using i by simp
  then show "8 dvd unat g" unfolding g r by (intro dvd_add dvd_mult dvd_mult2) simp_all
  have "unat (slot_size i) \<le> unat (slot_size i) * nobjs" using n(1) by (cases nobjs) simp_all
  then show "slot_size i \<le> g" unfolding word_le_nat_alt g by linarith
qed

text \<open>A remainder of the pool smaller than an object goes to the free list of its size.\<close>

lemma push_remainder:
  assumes inv: "alloc_inv st fl H" and i: "i < NFREELISTS"
    and left: "\<not> slot_size i \<le> end_free st - start_free st"
  obtains st1 fl1 where
    "(if end_free st - start_free st > 0 then push_block st (start_free st) (end_free st - start_free st)
      else Inr st) = Inr st1"
    "core st1 fl1 [] H" "heap_size st1 = heap_size st" "live st1 = live st" "mcalls st1 = mcalls st"
proof (cases "end_free st - start_free st > 0")
  case True
  let ?left = "end_free st - start_free st"
  have c: "core st fl [(start_free st, ?left)] H" and se: "start_free st \<le> end_free st"
    and al: "8 dvd unat (start_free st)" "8 dvd unat ?left"
    using inv by (auto simp: alloc_inv_def)
  from al(2) obtain m where m: "unat ?left = 8 * m" by (elim dvdE)
  have mb: "0 < m" "m \<le> i" using True left m i by (auto simp: word_less_nat_alt word_le_nat_alt)
  then obtain j where j: "m = Suc j" "j < NFREELISTS" using i by (cases m) auto
  have left_eq: "?left = slot_size j"
    by (rule word_unat_eq_iff [THEN iffD2]) (use m j in simp)
  have "unat ?left = unat (end_free st) - unat (start_free st)" using se by (simp add: unat_sub)
  then have nw: "unat (start_free st) + 8 * Suc j < 2 ^ 32"
    using m j unat_lt32 [of "end_free st"] se by (simp add: word_le_nat_alt)
  from c [unfolded left_eq] show thesis
  proof (rule core_push [OF _ j(2) al(1) nw])
    fix st1 assume "push_block st (start_free st) (slot_size j) = Inr st1"
      "core st1 (fl(j := start_free st # fl j)) [] H" "heap_size st1 = heap_size st"
      "live st1 = live st" "mcalls st1 = mcalls st"
    then show thesis using True that by (auto simp: left_eq)
  qed
next
  case False
  have "core st fl [(start_free st, end_free st - start_free st)] H"
    using inv by (simp add: alloc_inv_def)
  then have "core st fl [] H" by (rule core_cover) simp
  then show thesis using that False by simp
qed

text \<open>A block joined to an empty pool: the state from which \<open>chunk_alloc\<close> starts again.\<close>

lemma new_pool:
  assumes c: "core st fl [(p, n)] H" and p: "8 dvd unat p" "unat p + unat n < 2 ^ 32" and n: "8 dvd unat n"
    and st': "links st' = links st" "free_list st' = free_list st" "live st' = live st"
      "start_free st' = p" "end_free st' = p + n"
  shows "alloc_inv st' fl H"
proof -
  have "unat (p + n) = unat p + unat n" by (rule unat_add_lt [OF p(2)])
  then have "p \<le> p + n" by (simp add: word_le_nat_alt)
  moreover have "core st' fl [(p, n)] H" by (rule core_cong [OF c]) (simp_all add: st')
  ultimately show ?thesis using p n st' by (simp add: alloc_inv_def)
qed

lemma oom_search_found:
  "oom_search f st (slot_size i) = Inr (Some (q, z)) \<Longrightarrow> i < NFREELISTS \<Longrightarrow>
    \<exists>j. i \<le> j \<and> j < NFREELISTS \<and> z = slot_size j \<and> q = free_list st ! j \<and> q \<noteq> 0"
proof (induction f arbitrary: i)
  case 0
  then show ?case by simp
next
  case (Suc f)
  from Suc.prems(1) obtain p where lt: "slot_size i < MAX_BYTES"
    and p: "get_list st (FREELIST_INDEX (slot_size i)) = Inr p"
    and rest: "(if p \<noteq> 0 then Inr (Some (p, slot_size i)) else oom_search f st (slot_size i + ALIGN)) = Inr (Some (q, z))"
    by (auto split: if_splits)
  from p Suc.prems(2) have pi: "p = free_list st ! i"
    by (auto simp: get_list_def split: if_splits)
  show ?case
  proof (cases "p \<noteq> 0")
    case True
    with rest pi Suc.prems(2) show ?thesis by (intro exI [of _ i]) auto
  next
    case False
    have "i < 15" using lt Suc.prems(2) by (auto simp: word_less_nat_alt)
    moreover have "slot_size i + ALIGN = slot_size (Suc i)" by (simp add: slot_size_def)
    ultimately show ?thesis using Suc.IH [of "Suc i"] rest False by fastforce
  qed
qed

lemma oom_malloc_core:
  assumes "core st fl P H" "malloc_ok mal" "oom_malloc mal k st n = Inr (st', r)"
  shows "core st' fl ((r, n) # P) H \<and> r \<noteq> 0 \<and> 8 dvd unat r \<and> unat r + unat n < 2 ^ 32 \<and>
    start_free st' = start_free st \<and> end_free st' = end_free st \<and> heap_size st' = heap_size st"
  using assms
proof (induction k arbitrary: st)
  case 0
  then show ?case by simp
next
  case (Suc k)
  obtain st1 r1 where m: "c_malloc mal st n = (st1, r1)" by (cases "c_malloc mal st n")
  note cm = core_malloc [OF Suc.prems(1,2) m]
  show ?case
  proof (cases "r1 = 0")
    case True
    with Suc.prems(3) m have "oom_malloc mal k st1 n = Inr (st', r)" by simp
    with Suc.IH [OF cm(1) Suc.prems(2)] cm show ?thesis by simp
  next
    case False
    with Suc.prems(3) m have "st1 = st'" "r1 = r" by auto
    with cm False show ?thesis by simp
  qed
qed

lemma allocate_core:
  assumes "core st fl P H" "malloc_ok mal" "allocate mal k st n = Inr (st', r)"
  shows "core st' fl ((r, n) # P) H" "r \<noteq> 0" "8 dvd unat r" "unat r + unat n < 2 ^ 32"
    "start_free st' = start_free st" "end_free st' = end_free st" "heap_size st' = heap_size st"
proof -
  obtain st1 r1 where m: "c_malloc mal st n = (st1, r1)" by (cases "c_malloc mal st n")
  note cm = core_malloc [OF assms(1,2) m]
  have "core st' fl ((r, n) # P) H \<and> r \<noteq> 0 \<and> 8 dvd unat r \<and> unat r + unat n < 2 ^ 32 \<and>
    start_free st' = start_free st \<and> end_free st' = end_free st \<and> heap_size st' = heap_size st"
  proof (cases "r1 = 0")
    case True
    with assms(3) m have "oom_malloc mal k st1 n = Inr (st', r)" by (simp add: allocate_def)
    from oom_malloc_core [OF cm(1) assms(2) this] cm show ?thesis by simp
  next
    case False
    with assms(3) m have "st1 = st'" "r1 = r" by (auto simp: allocate_def)
    with cm False show ?thesis by simp
  qed
  then show "core st' fl ((r, n) # P) H" "r \<noteq> 0" "8 dvd unat r" "unat r + unat n < 2 ^ 32"
    "start_free st' = start_free st" "end_free st' = end_free st" "heap_size st' = heap_size st"
    by auto
qed

text \<open>
  \<open>chunk_post i nobjs H res\<close>: what a call of \<open>chunk_alloc\<close> promises of its result: between
  one and \<open>nobjs\<close> objects at the address returned, owned by nobody else.
\<close>

definition chunk_post :: "nat \<Rightarrow> nat \<Rightarrow> block list \<Rightarrow> astate \<times> word32 \<times> nat \<Rightarrow> bool" where
  "chunk_post i nobjs H res \<longleftrightarrow>
     (case res of (st', r, n') \<Rightarrow> 1 \<le> n' \<and> n' \<le> nobjs \<and> 8 dvd unat r \<and>
        unat r + unat (slot_size i) * n' < 2 ^ 32 \<and>
        (\<exists>fl'. alloc_inv st' fl' ((r, slot_size i * of_nat n') # H)))"

lemma chunk_take_post:
  assumes inv: "alloc_inv st fl H" and i: "i < NFREELISTS" and n: "1 \<le> nobjs" "nobjs \<le> 20"
    and left: "slot_size i \<le> end_free st - start_free st"
  shows "\<exists>res. chunk_alloc mal k (Suc f) st (slot_size i) nobjs = Inr res \<and> chunk_post i nobjs H res"
proof -
  have al: "8 dvd unat (start_free st)" using inv by (simp add: alloc_inv_def)
  obtain st' n' where "chunk_alloc mal k (Suc f) st (slot_size i) nobjs = Inr (st', start_free st, n')"
    "1 \<le> n'" "n' \<le> nobjs" "alloc_inv st' fl ((start_free st, slot_size i * of_nat n') # H)"
    "unat (start_free st) + unat (slot_size i) * n' < 2 ^ 32"
    by (rule chunk_take [OF inv i n left])
  with al show ?thesis unfolding chunk_post_def by auto
qed

text \<open>After the pool has been replaced, the recursive call is served from it.\<close>

lemma chunk_again:
  assumes c: "core st fl [(p, z)] H" and p: "8 dvd unat p" "unat p + unat z < 2 ^ 32"
    and z: "8 dvd unat z" "slot_size i \<le> z" and i: "i < NFREELISTS" and n: "1 \<le> nobjs" "nobjs \<le> 20"
    and st': "links st' = links st" "free_list st' = free_list st" "live st' = live st"
      "start_free st' = p" "end_free st' = p + z"
  shows "\<exists>res. chunk_alloc mal k (Suc f) st' (slot_size i) nobjs = Inr res \<and> chunk_post i nobjs H res"
proof (rule chunk_take_post [OF _ i n])
  show "alloc_inv st' fl H" by (rule new_pool [OF c p z(1) st'])
  show "slot_size i \<le> end_free st' - start_free st'" using st' z by simp
qed

lemma pool_too_small:
  assumes i: "i < NFREELISTS" and n: "1 \<le> nobjs" "nobjs \<le> 20" and "\<not> slot_size i \<le> left"
  shows "\<not> slot_size i * of_nat nobjs \<le> left"
proof
  assume "slot_size i * of_nat nobjs \<le> left"
  moreover have "unat (slot_size i) * nobjs \<le> 128 * 20" by (rule mult_le_mono) (use i n in auto)
  then have "unat (slot_size i * of_nat nobjs) = unat (slot_size i) * nobjs"
    by (intro unat_mult_of_nat) simp
  moreover have "unat (slot_size i) \<le> unat (slot_size i) * nobjs" using n(1) by (cases nobjs) simp_all
  ultimately show False using assms(4) unfolding word_le_nat_alt by linarith
qed

text \<open>The branch of \<open>chunk_alloc\<close> in which the pool is too small, as one equation.\<close>

lemma chunk_alloc_slow:
  assumes "\<not> sz * of_nat nobjs \<le> end_free st - start_free st" "\<not> sz \<le> end_free st - start_free st"
    and "(if end_free st - start_free st > 0 then push_block st (start_free st) (end_free st - start_free st)
      else Inr st) = Inr st1"
    and "g = 2 * (sz * of_nat nobjs) + ROUND_UP (drop_bit 4 (heap_size st))" and "c_malloc mal st1 g = (st2, p)"
  shows "chunk_alloc mal k (Suc f) st sz nobjs =
    (if p = 0 then
       rbind (oom_search 17 (st2\<lparr>start_free := p\<rparr>) sz) (\<lambda>found.
         case found of
           Some (q, z) \<Rightarrow> rbind (pop_block (st2\<lparr>start_free := p\<rparr>) q z) (\<lambda>st4.
             chunk_alloc mal k f (st4\<lparr>start_free := q, end_free := q + z\<rparr>) sz nobjs)
         | None \<Rightarrow> rbind (allocate mal k (st2\<lparr>start_free := p, end_free := 0\<rparr>) g) (\<lambda>(st4, r).
             chunk_alloc mal k f
               (st4\<lparr>start_free := r, heap_size := heap_size st4 + g, end_free := r + g\<rparr>) sz nobjs))
     else chunk_alloc mal k f
       (st2\<lparr>start_free := p, heap_size := heap_size st2 + g, end_free := p + g\<rparr>) sz nobjs)"
  unfolding chunk_alloc.simps(2) Let_def assms(3) rbind_Inr assms(4) [symmetric] assms(5)
  using assms(1,2) by (cases "p = 0") simp_all

text \<open>
  \<open>chunk_alloc\<close> meets its promise from every state of the invariant, and a recursion of depth 2
  is enough: when the pool is too small it is replaced, by a new block, by a free block of at least
  the object's size or, after retries, by a new block again.
\<close>

lemma chunk_alloc_spec:
  assumes inv: "alloc_inv st fl H" and ok: "malloc_ok mal" and i: "i < NFREELISTS"
    and n: "1 \<le> nobjs" "nobjs \<le> 20"
    and run: "chunk_alloc mal k 2 st (slot_size i) nobjs = Inr res"
  shows "chunk_post i nobjs H res"
proof (cases "slot_size i \<le> end_free st - start_free st")
  case True
  from chunk_take_post [OF inv i n True, of mal k 1] run show ?thesis
    by (simp only: numeral_2_eq_2 One_nat_def) auto
next
  case False
  let ?left = "end_free st - start_free st"
  define g where "g = 2 * (slot_size i * of_nat nobjs) + ROUND_UP (drop_bit 4 (heap_size st))"
  note g = bytes_to_get [OF i n, of "heap_size st", folded g_def]
  obtain st1 fl1 where push: "(if ?left > 0 then push_block st (start_free st) ?left else Inr st) = Inr st1"
    and c1: "core st1 fl1 [] H" and hs: "heap_size st1 = heap_size st"
    by (rule push_remainder [OF inv i False])
  obtain st2 p where m: "c_malloc mal st1 g = (st2, p)" by (cases "c_malloc mal st1 g")
  note cm = core_malloc [OF c1 ok m]
  have small: "\<not> slot_size i * of_nat nobjs \<le> ?left" by (rule pool_too_small [OF i n False])
  let ?again = "\<lambda>s. chunk_alloc mal k (Suc 0) s (slot_size i) nobjs"
  note run' = run [unfolded numeral_2_eq_2 chunk_alloc_slow [OF small False push g_def m]]
  show ?thesis
  proof (cases "p = 0")
    case False
    have "core st2 fl1 [(p, g)] H" "8 dvd unat p" "unat p + unat g < 2 ^ 32"
      using cm(2,3) False by auto
    from chunk_again [OF this g i n, of "st2\<lparr>start_free := p, heap_size := heap_size st2 + g, end_free := p + g\<rparr>" mal k 0]
    show ?thesis using run' False by auto
  next
    case True
    let ?st3 = "st2\<lparr>start_free := p\<rparr>"
    have c3: "core ?st3 fl1 [] H" by (rule core_cong [OF cm(1)]) simp_all
    from run' True obtain found where found: "oom_search 17 ?st3 (slot_size i) = Inr found"
      and rest: "(case found of Some (q, z) \<Rightarrow> rbind (pop_block ?st3 q z) (\<lambda>st4.
            ?again (st4\<lparr>start_free := q, end_free := q + z\<rparr>))
        | None \<Rightarrow> rbind (allocate mal k (?st3\<lparr>end_free := 0\<rparr>) g) (\<lambda>(st4, r).
            ?again (st4\<lparr>start_free := r, heap_size := heap_size st4 + g, end_free := r + g\<rparr>))) = Inr res"
      by (auto simp del: chunk_alloc.simps oom_search.simps)
    show ?thesis
    proof (cases found)
      case (Some qz)
      obtain q z where qz: "qz = (q, z)" by (cases qz)
      from oom_search_found [OF found [unfolded Some qz] i] obtain j where
        j: "i \<le> j" "j < NFREELISTS" "z = slot_size j" "q = free_list ?st3 ! j" "q \<noteq> 0" by blast
      from core_pop [OF c3 j(2), of z] j obtain st4 where
        pop: "pop_block ?st3 q z = Inr st4" and c4: "core st4 (fl1(j := tl (fl1 j))) [(q, z)] H"
        and al: "8 dvd unat q" "unat q + 8 * Suc j < 2 ^ 32"
        by (metis FREELIST_INDEX_slot_size)
      have "unat z = 8 * Suc j" "slot_size i \<le> z" using j i by (auto simp: word_le_nat_alt)
      with al(2) have "unat q + unat z < 2 ^ 32" "8 dvd unat z" "slot_size i \<le> z" by auto
      from chunk_again [OF c4 al(1) this i n, of "st4\<lparr>start_free := q, end_free := q + z\<rparr>" mal k 0]
      show ?thesis using rest Some qz pop by auto
    next
      case None
      from rest None obtain st4 r where a: "allocate mal k (?st3\<lparr>end_free := 0\<rparr>) g = Inr (st4, r)"
        and ag: "?again (st4\<lparr>start_free := r, heap_size := heap_size st4 + g, end_free := r + g\<rparr>) = Inr res"
        by (auto simp del: chunk_alloc.simps)
      have "core (?st3\<lparr>end_free := 0\<rparr>) fl1 [] H" by (rule core_cong [OF c3]) simp_all
      note al = allocate_core [OF this ok a]
      from chunk_again [OF al(1,3,4) g i n, of "st4\<lparr>start_free := r, heap_size := heap_size st4 + g, end_free := r + g\<rparr>" mal k 0]
      show ?thesis using ag by auto
    qed
  qed
qed

subsection \<open>Refilling a free list\<close>

text \<open>The objects \<open>p, p + n, ..., p + d * n\<close>.\<close>

primrec run_of :: "nat \<Rightarrow> word32 \<Rightarrow> word32 \<Rightarrow> word32 list" where
  "run_of 0 n p = [p]"
| "run_of (Suc d) n p = p # run_of d n (p + n)"

lemma run_of_bounds:
  assumes "unat p + unat n * Suc d < 2 ^ 32" "a \<in> set (run_of d n p)"
  shows "unat p \<le> unat a \<and> unat a + unat n \<le> unat p + unat n * Suc d"
  using assms
proof (induction d arbitrary: p)
  case 0
  then show ?case by simp
next
  case (Suc d)
  have u: "unat (p + n) = unat p + unat n" by (rule unat_add_lt) (use Suc.prems(1) in simp)
  from Suc.prems(2) consider "a = p" | "a \<in> set (run_of d n (p + n))" by auto
  then show ?case
  proof cases
    case 1
    then show ?thesis by simp
  next
    case 2
    with Suc.IH [of "p + n"] Suc.prems(1) u show ?thesis by simp
  qed
qed

lemma run_of_dvd:
  assumes "unat p + unat n * Suc d < 2 ^ 32" "a \<in> set (run_of d n p)" "8 dvd unat p" "8 dvd unat n"
  shows "8 dvd unat a"
  using assms
proof (induction d arbitrary: p)
  case 0
  then show ?case by simp
next
  case (Suc d)
  have u: "unat (p + n) = unat p + unat n" by (rule unat_add_lt) (use Suc.prems(1) in simp)
  then have d: "8 dvd unat (p + n)" using Suc.prems(3,4) by simp
  from Suc.prems(2) consider "a = p" | "a \<in> set (run_of d n (p + n))" by auto
  then show ?case
  proof cases
    case 1
    with Suc.prems(3) show ?thesis by simp
  next
    case 2
    with Suc.IH [of "p + n"] Suc.prems(1,4) u d show ?thesis by simp
  qed
qed

lemma refill_loop_frame: "a \<notin> set (run_of d n p) \<Longrightarrow> refill_loop d n lk p a = lk a"
  by (induction d arbitrary: lk p) auto

lemma refill_loop_chain:
  assumes "unat p + unat n * Suc d < 2 ^ 32" "0 < unat n" "p \<noteq> 0"
  shows "lchain (refill_loop d n lk p) p (run_of d n p)"
  using assms
proof (induction d arbitrary: lk p)
  case 0
  then show ?case by simp
next
  case (Suc d)
  have u: "unat (p + n) = unat p + unat n" by (rule unat_add_lt) (use Suc.prems(1) in simp)
  then have nz: "p + n \<noteq> 0" using Suc.prems(2) by (metis add_is_0 neq0_conv unat_0)
  have b: "unat (p + n) + unat n * Suc d < 2 ^ 32" using Suc.prems(1) u by simp
  have "p \<notin> set (run_of d n (p + n))"
    using run_of_bounds [OF b, of p] u Suc.prems(2) by auto
  then have "refill_loop d n (lk(p := p + n)) (p + n) p = p + n"
    by (simp add: refill_loop_frame)
  with Suc.IH [OF b Suc.prems(2) nz, of "lk(p := p + n)"] Suc.prems(3) show ?case
    by (simp del: fun_upd_apply)
qed

lemma cover_run:
  assumes "unat p + unat (slot_size i) * Suc d < 2 ^ 32"
  shows "cover (list_blocks i (run_of d (slot_size i) p)) x = cover [(p, slot_size i * of_nat (Suc d))] x"
  using assms
proof (induction d arbitrary: p)
  case 0
  then show ?case by simp
next
  case (Suc d)
  let ?z = "slot_size i"
  have u: "unat (p + ?z) = unat p + unat ?z" by (rule unat_add_lt) (use Suc.prems in simp)
  have m: "unat (?z * of_nat (Suc d)) = unat ?z * Suc d"
    by (rule unat_mult_of_nat) (use Suc.prems in simp)
  have IH: "cover (list_blocks i (run_of d ?z (p + ?z))) x = cover [(p + ?z, ?z * of_nat (Suc d))] x"
    by (rule Suc.IH) (use Suc.prems u in simp)
  have "?z * of_nat (Suc (Suc d)) = ?z + ?z * of_nat (Suc d)" by (simp add: algebra_simps)
  moreover have "cover [(p, ?z + ?z * of_nat (Suc d))] x = cover [(p, ?z), (p + ?z, ?z * of_nat (Suc d))] x"
    by (rule cover_split) (use Suc.prems in \<open>simp add: m del: of_nat_Suc\<close>)
  ultimately show ?case using IH by (simp only: run_of.simps list_blocks_simps cover_simps)
qed

text \<open>
  The list of size \<open>i\<close> is replaced by the objects behind the first one of a chunk; what the list
  held before is forgotten (in \<open>sub_allocate\<close> it was empty).
\<close>

lemma core_refill:
  assumes c: "core st fl P ((r, slot_size i * of_nat (Suc (Suc d))) # H)" and i: "i < NFREELISTS"
    and al: "8 dvd unat r" and nw: "unat r + unat (slot_size i) * Suc (Suc d) < 2 ^ 32"
  defines "z \<equiv> slot_size i"
  shows "core (st\<lparr>free_list := (free_list st)[i := r + z], links := refill_loop d z (links st) (r + z)\<rparr>)
    (fl(i := run_of d z (r + z))) P ((r, z) # H)"
proof -
  let ?st = "st\<lparr>free_list := (free_list st)[i := r + z], links := refill_loop d z (links st) (r + z)\<rparr>"
  have zp: "0 < unat z" and uz: "unat z = 8 * Suc i" using i by (auto simp: z_def)
  have u: "unat (r + z) = unat r + unat z" by (rule unat_add_lt) (use nw in \<open>simp add: z_def\<close>)
  have b: "unat (r + z) + unat z * Suc d < 2 ^ 32" using nw u by (simp add: z_def)
  have m: "unat (z * of_nat (Suc d)) = unat z * Suc d"
    by (rule unat_mult_of_nat) (use nw in \<open>simp add: z_def\<close>)
  have split: "cover [(r, z * of_nat (Suc (Suc d)))] x =
      (if x \<in> span (r, z) then 1 else 0) + cover (list_blocks i (run_of d z (r + z))) x" for x
  proof -
    have "z * of_nat (Suc (Suc d)) = z + z * of_nat (Suc d)" by (simp add: algebra_simps)
    moreover have "cover [(r, z + z * of_nat (Suc d))] x = cover [(r, z), (r + z, z * of_nat (Suc d))] x"
      by (rule cover_split) (use b u in \<open>simp add: m del: of_nat_Suc\<close>)
    ultimately show ?thesis
      using cover_run [of "r + z" i d x] b by (simp add: z_def del: of_nat_Suc span.simps)
  qed
  have c': "core st fl ((r, z * of_nat (Suc (Suc d))) # P) H"
    by (rule core_cover [OF c]) (simp add: z_def del: of_nat_Suc span.simps)
  have notin: "a \<notin> set (fl j)" if a: "a \<in> set (run_of d z (r + z))" and j: "j < NFREELISTS" for a j
  proof
    assume fj: "a \<in> set (fl j)"
    have "(a, slot_size i) \<in> set (list_blocks i (run_of d z (r + z)))" "unat a \<in> span (a, slot_size i)"
      using a i by (auto simp: list_blocks_def)
    then have "1 \<le> cover [(r, z * of_nat (Suc (Suc d)))] (unat a)"
      unfolding split using cover_mem by (metis add.commute trans_le_add1)
    with core_disjoint [OF c', of "unat a"] free_cover_mem [of j a fl, OF j fj] show False by simp
  qed
  have len: "length (free_list st) = NFREELISTS" using c by (simp add: core_def)
  have rz: "r + z \<noteq> 0" using u zp by (metis add_is_0 neq0_conv unat_0)
  have chains: "lchain (links ?st) (free_list ?st ! j) ((fl(i := run_of d z (r + z))) j)" if j: "j < NFREELISTS" for j
  proof (cases "j = i")
    case True
    with refill_loop_chain [OF b zp rz] len i show ?thesis by simp
  next
    case False
    have "lchain (links st) (free_list st ! j) (fl j)" using c j by (simp add: core_def)
    then have "lchain (refill_loop d z (links st) (r + z)) (free_list st ! j) (fl j)"
      by (rule lchain_frame) (use notin [OF _ j] refill_loop_frame in blast)
    with False show ?thesis by simp
  qed
  have al': "8 dvd unat a \<and> unat a + 8 * Suc j < 2 ^ 32"
    if "j < NFREELISTS" "a \<in> set ((fl(i := run_of d z (r + z))) j)" for j a
  proof (cases "j = i")
    case True
    with that have a: "a \<in> set (run_of d z (r + z))" by simp
    have "8 dvd unat a" by (rule run_of_dvd [OF b a]) (use al u uz in simp_all)
    with run_of_bounds [OF b a] b uz True show ?thesis by simp
  next
    case False
    with that c show ?thesis by (simp add: core_def)
  qed
  have le: "cover P x + free_cover (fl(i := run_of d z (r + z))) x + cover ((r, z) # H) x \<le>
      cover ((r, z * of_nat (Suc (Suc d))) # P) x + free_cover fl x + cover H x" for x
    using free_cover_upd [OF i, of fl "run_of d z (r + z)" x] split [of x]
    by (simp del: of_nat_Suc span.simps)
  have "cover P x + free_cover (fl(i := run_of d z (r + z))) x + cover ((r, z) # H) x \<le> 1" for x
    by (rule order_trans [OF le core_disjoint [OF c']])
  moreover have "covered (live st) x"
    if "0 < cover P x + free_cover (fl(i := run_of d z (r + z))) x + cover ((r, z) # H) x" for x
    by (rule core_covered [OF c' order_less_le_trans [OF that le]])
  ultimately show ?thesis
    unfolding core_def using chains al' len core_live [OF c] by simp
qed


text \<open>\<open>refill\<close> hands out the first object of the chunk and links the others.\<close>

lemma refill_after:
  assumes post: "chunk_post i 20 H (st1, chunk, nobjs)" and i: "i < NFREELISTS"
  shows "\<exists>st' fl'. (if nobjs = 1 then Inr (st1, chunk)
       else rbind (set_list st1 (FREELIST_INDEX (slot_size i)) (chunk + slot_size i)) (\<lambda>st2.
         Inr (st2\<lparr>links := refill_loop (nobjs - 2) (slot_size i) (links st2) (chunk + slot_size i)\<rparr>, chunk))) =
      Inr (st', chunk) \<and> alloc_inv st' fl' ((chunk, slot_size i) # H)"
proof -
  from post obtain fl1 where n: "1 \<le> nobjs" and al: "8 dvd unat chunk"
    and nw: "unat chunk + unat (slot_size i) * nobjs < 2 ^ 32"
    and inv: "alloc_inv st1 fl1 ((chunk, slot_size i * of_nat nobjs) # H)"
    by (auto simp: chunk_post_def)
  show ?thesis
  proof (cases "nobjs = 1")
    case True
    with inv show ?thesis by auto
  next
    case False
    with n obtain d where d: "nobjs = Suc (Suc d)" by (metis One_nat_def not0_implies_Suc not_one_le_zero)
    let ?z = "slot_size i"
    let ?P = "[(start_free st1, end_free st1 - start_free st1)]"
    let ?st = "st1\<lparr>free_list := (free_list st1)[i := chunk + ?z], links := refill_loop d ?z (links st1) (chunk + ?z)\<rparr>"
    have c: "core st1 fl1 ?P ((chunk, ?z * of_nat (Suc (Suc d))) # H)" using inv d by (simp add: alloc_inv_def)
    have "core ?st (fl1(i := run_of d ?z (chunk + ?z))) ?P ((chunk, ?z) # H)"
      by (rule core_refill [OF c i al nw [unfolded d]])
    then have "alloc_inv ?st (fl1(i := run_of d ?z (chunk + ?z))) ((chunk, ?z) # H)"
      using inv by (simp add: alloc_inv_def)
    moreover have "length (free_list st1) = NFREELISTS" using c by (simp add: core_def)
    ultimately show ?thesis using d i by (auto simp: set_list_def)
  qed
qed

subsection \<open>Requests return\<close>

text \<open>
  \<open>grants mal k B st\<close>: from the state's calls on, \<open>malloc\<close> serves a request of at most
  \<open>B\<close> bytes at least once in \<open>k\<close> consecutive calls. Then the retries end.
\<close>

definition grants :: "malloc_fn \<Rightarrow> nat \<Rightarrow> word32 \<Rightarrow> astate \<Rightarrow> bool" where
  "grants mal k B st \<longleftrightarrow> (\<forall>g\<le>B. \<forall>c\<ge>mcalls st. \<exists>j<k. mal (c + j) (live st) g \<noteq> 0)"

lemma grants_frame:
  "grants mal k B st \<Longrightarrow> live st' = live st \<Longrightarrow> mcalls st \<le> mcalls st' \<Longrightarrow> grants mal k B st'"
  by (auto simp: grants_def)

lemma oom_malloc_returns:
  assumes "\<exists>j<k. mal (mcalls st + j) (live st) n \<noteq> 0"
  shows "\<exists>res. oom_malloc mal k st n = Inr res"
  using assms
proof (induction k arbitrary: st)
  case 0
  then show ?case by simp
next
  case (Suc k)
  from Suc.prems obtain j where j: "j < Suc k" "mal (mcalls st + j) (live st) n \<noteq> 0" by blast
  obtain st1 r1 where m: "c_malloc mal st n = (st1, r1)" by (cases "c_malloc mal st n")
  show ?case
  proof (cases "r1 = 0")
    case True
    then have r0: "mal (mcalls st) (live st) n = 0" and st1: "mcalls st1 = Suc (mcalls st)" "live st1 = live st"
      using m by (auto simp: c_malloc_def Let_def)
    with j have "j \<noteq> 0" by (metis add_0_right)
    then obtain i where "j = Suc i" by (cases j) auto
    with j st1 have "\<exists>i<k. mal (mcalls st1 + i) (live st1) n \<noteq> 0" by auto
    from Suc.IH [OF this] m True show ?thesis by simp
  next
    case False
    with m show ?thesis by simp
  qed
qed

lemma allocate_returns:
  assumes "grants mal k B st" "n \<le> B"
  shows "\<exists>res. allocate mal k st n = Inr res"
proof -
  obtain st1 r1 where m: "c_malloc mal st n = (st1, r1)" by (cases "c_malloc mal st n")
  show ?thesis
  proof (cases "r1 = 0")
    case True
    with m have "live st1 = live st" "mcalls st1 = Suc (mcalls st)" by (auto simp: c_malloc_def Let_def)
    then have "grants mal k B st1" by (intro grants_frame [OF assms(1)]) simp_all
    with assms(2) have "\<exists>j<k. mal (mcalls st1 + j) (live st1) n \<noteq> 0" unfolding grants_def by blast
    from oom_malloc_returns [of k mal st1 n, OF this] m True show ?thesis by (simp add: allocate_def)
  next
    case False
    with m show ?thesis by (simp add: allocate_def)
  qed
qed

lemma oom_search_returns:
  "length (free_list st) = NFREELISTS \<Longrightarrow> i < NFREELISTS \<Longrightarrow> 17 \<le> f + i \<Longrightarrow>
    \<exists>res. oom_search f st (slot_size i) = Inr res"
proof (induction f arbitrary: i)
  case 0
  then show ?case by simp
next
  case (Suc f)
  show ?case
  proof (cases "slot_size i < MAX_BYTES")
    case True
    then have i: "Suc i < NFREELISTS" using Suc.prems(2) by (auto simp: word_less_nat_alt)
    have "slot_size i + ALIGN = slot_size (Suc i)" by (simp add: slot_size_def)
    then show ?thesis using Suc.IH [OF Suc.prems(1) i] Suc.prems True by (simp add: get_list_def)
  next
    case False
    then show ?thesis by simp
  qed
qed

lemma chunk_alloc_returns:
  assumes inv: "alloc_inv st fl H" and ok: "malloc_ok mal" and i: "i < NFREELISTS"
    and n: "1 \<le> nobjs" "nobjs \<le> 20"
    and gr: "grants mal k (2 * (slot_size i * of_nat nobjs) + ROUND_UP (drop_bit 4 (heap_size st))) st"
  shows "\<exists>res. chunk_alloc mal k 2 st (slot_size i) nobjs = Inr res"
proof (cases "slot_size i \<le> end_free st - start_free st")
  case True
  from chunk_take_post [OF inv i n True, of mal k 1] show ?thesis
    by (simp only: numeral_2_eq_2 One_nat_def) auto
next
  case False
  let ?left = "end_free st - start_free st"
  define g where "g = 2 * (slot_size i * of_nat nobjs) + ROUND_UP (drop_bit 4 (heap_size st))"
  note g = bytes_to_get [OF i n, of "heap_size st", folded g_def]
  obtain st1 fl1 where push: "(if ?left > 0 then push_block st (start_free st) ?left else Inr st) = Inr st1"
    and c1: "core st1 fl1 [] H" and hs: "heap_size st1 = heap_size st"
    and lv: "live st1 = live st" "mcalls st1 = mcalls st"
    by (rule push_remainder [OF inv i False])
  obtain st2 p where m: "c_malloc mal st1 g = (st2, p)" by (cases "c_malloc mal st1 g")
  note cm = core_malloc [OF c1 ok m]
  have small: "\<not> slot_size i * of_nat nobjs \<le> ?left" by (rule pool_too_small [OF i n False])
  let ?again = "\<lambda>s. chunk_alloc mal k (Suc 0) s (slot_size i) nobjs"
  note eq = chunk_alloc_slow [OF small False push g_def m, of k "Suc 0"]
  show ?thesis
  proof (cases "p = 0")
    case False
    have "core st2 fl1 [(p, g)] H" "8 dvd unat p" "unat p + unat g < 2 ^ 32"
      using cm(2,3) False by auto
    from chunk_again [OF this g i n, of "st2\<lparr>start_free := p, heap_size := heap_size st2 + g, end_free := p + g\<rparr>" mal k 0]
    show ?thesis unfolding numeral_2_eq_2 eq using False by (auto simp del: chunk_alloc.simps)
  next
    case True
    let ?st3 = "st2\<lparr>start_free := p\<rparr>"
    have c3: "core ?st3 fl1 [] H" by (rule core_cong [OF cm(1)]) simp_all
    then have "length (free_list ?st3) = NFREELISTS" by (simp add: core_def)
    from oom_search_returns [OF this i, of 17] obtain found where
      found: "oom_search 17 ?st3 (slot_size i) = Inr found" by auto
    show ?thesis
    proof (cases found)
      case (Some qz)
      obtain q z where qz: "qz = (q, z)" by (cases qz)
      from oom_search_found [OF found [unfolded Some qz] i] obtain j where
        j: "i \<le> j" "j < NFREELISTS" "z = slot_size j" "q = free_list ?st3 ! j" "q \<noteq> 0" by blast
      from core_pop [OF c3 j(2), of z] j obtain st4 where
        pop: "pop_block ?st3 q z = Inr st4" and c4: "core st4 (fl1(j := tl (fl1 j))) [(q, z)] H"
        and al: "8 dvd unat q" "unat q + 8 * Suc j < 2 ^ 32"
        by (metis FREELIST_INDEX_slot_size)
      have "unat z = 8 * Suc j" "slot_size i \<le> z" using j i by (auto simp: word_le_nat_alt)
      with al(2) have "unat q + unat z < 2 ^ 32" "8 dvd unat z" "slot_size i \<le> z" by auto
      from chunk_again [OF c4 al(1) this i n, of "st4\<lparr>start_free := q, end_free := q + z\<rparr>" mal k 0]
      show ?thesis unfolding numeral_2_eq_2 eq using True found Some qz pop
        by (auto simp del: chunk_alloc.simps oom_search.simps)
    next
      case None
      have cO: "core (?st3\<lparr>end_free := 0\<rparr>) fl1 [] H" by (rule core_cong [OF c3]) simp_all
      have "live st2 = live st1" "mcalls st1 \<le> mcalls st2" using m True by (auto simp: c_malloc_def Let_def)
      then have "grants mal k g (?st3\<lparr>end_free := 0\<rparr>)"
        by (intro grants_frame [OF gr [folded g_def]]) (simp_all add: lv)
      from allocate_returns [OF this order_refl] obtain st4 r where
        a: "allocate mal k (?st3\<lparr>end_free := 0\<rparr>) g = Inr (st4, r)" by auto
      note al = allocate_core [OF cO ok a]
      from chunk_again [OF al(1,3,4) g i n, of "st4\<lparr>start_free := r, heap_size := heap_size st4 + g, end_free := r + g\<rparr>" mal k 0]
      show ?thesis unfolding numeral_2_eq_2 eq using True found None a
        by (auto simp del: chunk_alloc.simps oom_search.simps)
    qed
  qed
qed
subsection \<open>The small-block allocator\<close>

text \<open>
  The most that a request of \<open>n\<close> bytes makes the allocator ask of \<open>malloc\<close> at once: the
  request itself above 128 bytes, otherwise two batches of 20 objects and a sixteenth of the heap.
\<close>

definition most_asked :: "astate \<Rightarrow> word32 \<Rightarrow> word32" where
  "most_asked st n = (if n > MAX_BYTES then n
     else 2 * (ROUND_UP n * 20) + ROUND_UP (drop_bit 4 (heap_size st)))"

lemma sub_allocate_keeps:
  assumes inv: "alloc_inv st fl H" and ok: "malloc_ok mal" and n: "0 < n"
    and run: "sub_allocate mal k st n = Inr (st', r)"
  shows "r \<noteq> 0 \<and> 8 dvd unat r \<and> (\<exists>fl' m. n \<le> m \<and> alloc_inv st' fl' ((r, m) # H))"
proof (cases "n > MAX_BYTES")
  case True
  let ?P = "[(start_free st, end_free st - start_free st)]"
  have c: "core st fl ?P H" using inv by (simp add: alloc_inv_def)
  have a: "allocate mal k st n = Inr (st', r)" using run True by (simp add: sub_allocate_def)
  note al = allocate_core [OF c ok a]
  have "core st' fl ?P ((r, n) # H)" by (rule core_cover [OF al(1)]) simp
  then have "alloc_inv st' fl ((r, n) # H)" using inv al by (simp add: alloc_inv_def)
  with al show ?thesis by blast
next
  case False
  then have "n \<le> MAX_BYTES" by simp
  note sr = small_request [OF n this]
  define i where "i = unat (FREELIST_INDEX n)"
  have i: "i < NFREELISTS" "ROUND_UP n = slot_size i" "n \<le> slot_size i" using sr by (simp_all add: i_def)
  have c: "core st fl [(start_free st, end_free st - start_free st)] H" using inv by (simp add: alloc_inv_def)
  then have len: "length (free_list st) = NFREELISTS" by (simp add: core_def)
  show ?thesis
  proof (cases "free_list st ! i = 0")
    case True
    with run False len i have "refill mal k st (slot_size i) = Inr (st', r)"
      by (simp add: sub_allocate_def get_list_def i_def)
    then obtain st1 chunk nobjs where ch: "chunk_alloc mal k 2 st (slot_size i) 20 = Inr (st1, chunk, nobjs)"
      and rest: "(if nobjs = 1 then Inr (st1, chunk)
         else rbind (set_list st1 (FREELIST_INDEX (slot_size i)) (chunk + slot_size i)) (\<lambda>st2.
           Inr (st2\<lparr>links := refill_loop (nobjs - 2) (slot_size i) (links st2) (chunk + slot_size i)\<rparr>, chunk))) =
         Inr (st', r)"
      unfolding refill_def by (elim rbind_InrE) (auto split: prod.splits)
    have post: "chunk_post i 20 H (st1, chunk, nobjs)" by (rule chunk_alloc_spec [OF inv ok i(1) _ _ ch]) simp_all
    then have al: "8 dvd unat chunk" by (simp add: chunk_post_def)
    from refill_after [OF post i(1)] rest obtain fl' where inv': "alloc_inv st' fl' ((chunk, slot_size i) # H)"
      and "r = chunk" by auto
    moreover have "chunk \<noteq> 0"
    proof -
      have "core st' fl' ((chunk, slot_size i) # [(start_free st', end_free st' - start_free st')]) H"
        by (rule core_cover [of st' fl' "[(start_free st', end_free st' - start_free st')]" "(chunk, slot_size i) # H"])
          (use inv' in \<open>simp_all add: alloc_inv_def\<close>)
      from core_not_free(2) [OF this slot_size_pos [OF i(1)] i(1)] show ?thesis .
    qed
    ultimately show ?thesis using al i(3) by blast
  next
    case nz: False
    let ?P = "[(start_free st, end_free st - start_free st)]"
    from core_pop [OF c i(1), of n] nz obtain st4 where pop: "pop_block st (free_list st ! i) n = Inr st4"
      and c4: "core st4 (fl(i := tl (fl i))) ((free_list st ! i, slot_size i) # ?P) H"
      and al: "8 dvd unat (free_list st ! i)" "start_free st4 = start_free st" "end_free st4 = end_free st"
      unfolding i_def by blast
    have "st' = st4" "r = free_list st ! i"
      using run False len i nz pop by (simp_all add: sub_allocate_def get_list_def i_def)
    moreover have "core st4 (fl(i := tl (fl i))) ?P ((free_list st ! i, slot_size i) # H)"
      by (rule core_cover [OF c4]) simp
    then have "alloc_inv st4 (fl(i := tl (fl i))) ((free_list st ! i, slot_size i) # H)"
      using inv al by (simp add: alloc_inv_def)
    ultimately show ?thesis using al i(3) nz
      by (intro conjI exI [of _ "fl(i := tl (fl i))"] exI [of _ "slot_size i"]) simp_all
  qed
qed

lemma sub_allocate_runs:
  assumes inv: "alloc_inv st fl H" and ok: "malloc_ok mal" and n: "0 < n"
    and gr: "grants mal k (most_asked st n) st"
  shows "\<exists>st' r. sub_allocate mal k st n = Inr (st', r)"
proof (cases "n > MAX_BYTES")
  case True
  with allocate_returns [OF gr, of n] show ?thesis by (auto simp: sub_allocate_def most_asked_def)
next
  case False
  then have "n \<le> MAX_BYTES" by simp
  note sr = small_request [OF n this]
  define i where "i = unat (FREELIST_INDEX n)"
  have i: "i < NFREELISTS" "ROUND_UP n = slot_size i" using sr by (simp_all add: i_def)
  have c: "core st fl [(start_free st, end_free st - start_free st)] H" using inv by (simp add: alloc_inv_def)
  then have len: "length (free_list st) = NFREELISTS" by (simp add: core_def)
  show ?thesis
  proof (cases "free_list st ! i = 0")
    case True
    have "\<exists>res. chunk_alloc mal k 2 st (slot_size i) 20 = Inr res"
      by (rule chunk_alloc_returns [OF inv ok i(1)]) (use gr False i in \<open>simp_all add: most_asked_def\<close>)
    then obtain st1 chunk nobjs where ch: "chunk_alloc mal k 2 st (slot_size i) 20 = Inr (st1, chunk, nobjs)"
      by auto
    have "chunk_post i 20 H (st1, chunk, nobjs)" by (rule chunk_alloc_spec [OF inv ok i(1) _ _ ch]) simp_all
    from refill_after [OF this i(1)] obtain st' where "refill mal k st (slot_size i) = Inr (st', chunk)"
      unfolding refill_def ch by auto
    with False True len i show ?thesis by (auto simp: sub_allocate_def get_list_def i_def)
  next
    case nz: False
    from core_pop [OF c i(1), of n] nz obtain st4 where "pop_block st (free_list st ! i) n = Inr st4"
      unfolding i_def by blast
    with False nz len i show ?thesis by (auto simp: sub_allocate_def get_list_def i_def)
  qed
qed
subsection \<open>Programs that use the allocator\<close>

text \<open>
  A program and the allocator: a state is the allocator's together with the blocks handed out, and
  a step is a request or a store by the program into a block it holds. The store hits the word that
  the allocator would use as a link if the block were free.
\<close>

inductive astep :: "malloc_fn \<Rightarrow> nat \<Rightarrow> astate \<times> block list \<Rightarrow> astate \<times> block list \<Rightarrow> bool"
  for mal k where
  request: "0 < n \<Longrightarrow> sub_allocate mal k st n = Inr (st', r) \<Longrightarrow> astep mal k (st, H) (st', (r, n) # H)"
| store: "b \<in> set H \<Longrightarrow> unat a \<in> span b \<Longrightarrow> astep mal k (st, H) (st\<lparr>links := (links st)(a := v)\<rparr>, H)"

inductive_cases astepE: "astep mal k s s'"

inductive areach :: "malloc_fn \<Rightarrow> nat \<Rightarrow> astate \<times> block list \<Rightarrow> bool" for mal k where
  start: "areach mal k (alloc_init, [])"
| step: "areach mal k s \<Longrightarrow> astep mal k s s' \<Longrightarrow> areach mal k s'"

lemma alloc_inv_shrink:
  assumes "alloc_inv st fl ((r, m) # H)" "n \<le> m"
  shows "alloc_inv st fl ((r, n) # H)"
proof -
  let ?P = "[(start_free st, end_free st - start_free st)]"
  have c: "core st fl ?P ((r, m) # H)" using assms(1) by (simp add: alloc_inv_def)
  have "core st fl ?P ((r, n) # H)"
    by (rule core_cover [OF c]) (use assms(2) in \<open>auto simp: word_le_nat_alt\<close>)
  with assms(1) show ?thesis by (simp add: alloc_inv_def)
qed

lemma alloc_inv_store:
  assumes inv: "alloc_inv st fl H" and b: "b \<in> set H" "unat a \<in> span b"
  shows "alloc_inv (st\<lparr>links := (links st)(a := v)\<rparr>) fl H"
proof -
  let ?P = "[(start_free st, end_free st - start_free st)]"
  let ?st = "st\<lparr>links := (links st)(a := v)\<rparr>"
  have c: "core st fl ?P H" using inv by (simp add: alloc_inv_def)
  have notin: "a \<notin> set (fl i)" if "i < NFREELISTS" for i
  proof
    assume "a \<in> set (fl i)"
    from free_cover_mem [of i a fl, OF that this] cover_mem [OF b] core_disjoint [OF c, of "unat a"] show False by simp
  qed
  have "lchain (links ?st) (free_list ?st ! i) (fl i)" if i: "i < NFREELISTS" for i
  proof -
    have "lchain (links st) (free_list st ! i) (fl i)" using c i by (simp add: core_def)
    then have "lchain ((links st)(a := v)) (free_list st ! i) (fl i)"
      by (rule lchain_frame) (use notin [OF i] in auto)
    then show ?thesis by simp
  qed
  with c have "core ?st fl ?P H" by (simp add: core_def)
  with inv show ?thesis by (simp add: alloc_inv_def)
qed

lemma areach_inv:
  assumes "areach mal k s" "malloc_ok mal"
  shows "\<exists>fl. alloc_inv (fst s) fl (snd s)"
  using assms
proof (induction rule: areach.induct)
  case start
  show ?case using alloc_init_inv by auto
next
  case (step s s')
  from step.IH [OF step.prems] obtain fl where inv: "alloc_inv (fst s) fl (snd s)" by blast
  from step.hyps(2) show ?case
  proof cases
    case (request n st st' r H)
    from inv request have "alloc_inv st fl H" by simp
    from sub_allocate_keeps [OF this step.prems request(3,4)] obtain fl' m
      where "n \<le> m" "alloc_inv st' fl' ((r, m) # H)" by blast
    from alloc_inv_shrink [OF this(2,1)] request show ?thesis by auto
  next
    case (store b H a st v)
    with inv alloc_inv_store [of st fl H b a v] show ?thesis by auto
  qed
qed

text \<open>\<open>malloc\<close> as a pointer that moves up, failing at the end of the address space.\<close>

definition top_of :: "block list \<Rightarrow> nat" where
  "top_of L = foldr (\<lambda>(a, n) t. max (unat a + unat n) t) L 0"

definition bump_malloc :: malloc_fn where
  "bump_malloc c L n =
     (let t = 8 * (top_of L div 8 + 1) in if t + unat n < 2 ^ 32 then of_nat t else 0)"

lemma top_of_bound: "(a, n) \<in> set L \<Longrightarrow> unat a + unat n \<le> top_of L"
  by (induction L) (auto simp: top_of_def le_max_iff_disj)

lemma bump_malloc_ok: "malloc_ok bump_malloc"
proof -
  have "8 dvd unat (bump_malloc c L n) \<and> unat (bump_malloc c L n) + unat n < 2 ^ 32 \<and>
      (\<forall>x\<in>span (bump_malloc c L n, n). \<not> covered L x)" if nz: "bump_malloc c L n \<noteq> 0" for c L n
  proof -
    define t where "t = 8 * (top_of L div 8 + 1)"
    have lt: "t + unat n < 2 ^ 32" and eq: "bump_malloc c L n = of_nat t"
      using nz by (auto simp: bump_malloc_def Let_def t_def split: if_splits)
    have u: "unat (bump_malloc c L n) = t" unfolding eq by (rule of_nat_inverse [OF refl]) (use lt in simp)
    have "top_of L < t" unfolding t_def by presburger
    then have "\<not> covered L x" if "t \<le> x" for x
      using top_of_bound [of _ _ L] that by (fastforce simp: covered_def)
    with u lt show ?thesis by (auto simp: t_def)
  qed
  then show ?thesis unfolding malloc_ok_def by blast
qed

subsection \<open>Properties\<close>

text \<open>
  C4: A request of \<open>n > 0\<close> bytes to \<open>sub_allocate\<close>, from any state of the invariant and with a
  \<open>malloc\<close> that serves one of \<open>k\<close> consecutive calls, returns (no fault, no endless retry): the
  block is not null, 8-aligned, at least \<open>n\<close> bytes long and shares no byte with the blocks handed
  out before, the free blocks or the pool, and the free lists are well formed again.
\<close>

theorem sub_allocate_correct:
  assumes "alloc_inv st fl H" "malloc_ok mal" "0 < n" "grants mal k (most_asked st n) st"
  shows "\<exists>st' r fl' m. sub_allocate mal k st n = Inr (st', r) \<and> r \<noteq> 0 \<and> 8 dvd unat r \<and>
    n \<le> m \<and> alloc_inv st' fl' ((r, m) # H)"
proof -
  from sub_allocate_runs [OF assms] obtain st' r where "sub_allocate mal k st n = Inr (st', r)" by blast
  with sub_allocate_keeps [OF assms(1-3) this] show ?thesis by blast
qed

lemma bump_malloc_init:
  assumes "unat B < 2 ^ 31"
  shows "grants bump_malloc 1 B alloc_init"
proof -
  have "bump_malloc c [] g \<noteq> 0" if "g \<le> B" for g c
    using assms that by (simp add: bump_malloc_def top_of_def Let_def word_le_nat_alt)
  then show ?thesis by (simp add: grants_def alloc_init_def)
qed

theorem sub_allocate_correct_witness:
  "\<exists>st' r fl' m. sub_allocate bump_malloc 1 alloc_init 20 = Inr (st', r) \<and> r \<noteq> 0 \<and> 8 dvd unat r \<and>
    20 \<le> m \<and> alloc_inv st' fl' ((r, m) # [])"
proof -
  have "unat (most_asked alloc_init 20) < 2 ^ 31" by (simp add: most_asked_def alloc_init_def ROUND_UP_def)
  from sub_allocate_correct [OF alloc_init_inv bump_malloc_ok _ bump_malloc_init [OF this]]
  show ?thesis by simp
qed

text \<open>
  C5: Whatever sequence of requests and of stores into its blocks a program makes, two blocks it was
  handed never overlap: no byte of memory belongs to more than one of them, and every such byte
  lies in a block \<open>malloc\<close> returned.
\<close>

theorem handed_out_disjoint:
  assumes "areach mal k (st, H)" "malloc_ok mal"
  shows "(\<forall>x. cover H x \<le> 1) \<and> Collect (covered H) \<subseteq> Collect (covered (live st))"
proof -
  from areach_inv [OF assms] obtain fl where inv: "alloc_inv st fl H" by auto
  then have c: "core st fl [(start_free st, end_free st - start_free st)] H" by (simp add: alloc_inv_def)
  have "cover H x \<le> 1" for x using core_disjoint [OF c, of x] by linarith
  moreover have "covered (live st) x" if "covered H x" for x
    using core_covered [OF c, of x] that by (simp add: cover_pos_iff [symmetric])
  ultimately show ?thesis by blast
qed

text \<open>Two requests from the start: the first fills the list of 24-byte blocks, the second is served from it.\<close>

definition demo_pool :: astate where
  "demo_pool = alloc_init\<lparr>start_free := 488, end_free := 968, heap_size := 960, mcalls := 1, live := [(8, 960)]\<rparr>"

definition demo_list :: astate where
  "demo_list = demo_pool\<lparr>free_list := (replicate NFREELISTS 0)[2 := 32],
     links := refill_loop (Suc 17) 24 (\<lambda>_. 0) 32\<rparr>"

lemma demo_chunk: "chunk_alloc bump_malloc 1 (Suc 1) alloc_init 24 20 = Inr (demo_pool, 8, 20)"
  by (subst chunk_alloc_slow [where ?st1.0 = alloc_init and g = 960 and p = 8 and
        ?st2.0 = "alloc_init\<lparr>mcalls := 1, live := [(8, 960)]\<rparr>"])
    (simp_all add: alloc_init_def c_malloc_def bump_malloc_def top_of_def Let_def ROUND_UP_def demo_pool_def)

lemma demo_first: "sub_allocate bump_malloc 1 alloc_init 20 = Inr (demo_list, 8)"
proof -
  have "refill bump_malloc 1 alloc_init 24 = Inr (demo_list, 8)"
    unfolding refill_def numeral_2_eq_2 One_nat_def [symmetric] demo_chunk rbind_Inr prod.case
    by (simp add: set_list_def FREELIST_INDEX_def demo_pool_def demo_list_def alloc_init_def del: refill_loop.simps)
  moreover have "get_list alloc_init (FREELIST_INDEX 20) = Inr 0"
    by (simp add: get_list_def FREELIST_INDEX_def alloc_init_def)
  moreover have "ROUND_UP 20 = 24" by (simp add: ROUND_UP_def)
  ultimately show ?thesis by (simp add: sub_allocate_def del: One_nat_def)
qed

lemma demo_second:
  "sub_allocate bump_malloc 1 demo_list 17 = Inr (demo_list\<lparr>free_list := (replicate NFREELISTS 0)[2 := 56]\<rparr>, 32)"
proof -
  have n: "32 \<notin> set (run_of 17 24 56)" using run_of_bounds [of 56 24 17 32] by auto
  have eq: "(18::nat) = Suc 17" by simp
  have "refill_loop 18 24 lk 32 32 = 56" for lk
    unfolding eq refill_loop.simps(2) by (simp add: refill_loop_frame [OF n])
  then have "links demo_list 32 = 56" by (simp add: demo_list_def del: refill_loop.simps)
  then show ?thesis
    by (simp add: sub_allocate_def get_list_def FREELIST_INDEX_def pop_block_def set_list_def)
      (simp add: demo_list_def demo_pool_def)
qed

theorem handed_out_disjoint_witness:
  "(\<forall>x. cover [(32, 17), (8, 20)] x \<le> 1) \<and> Collect (covered [(32, 17), (8, 20)]) \<subseteq>
    Collect (covered (live (demo_list\<lparr>free_list := (replicate NFREELISTS 0)[2 := 56]\<rparr>)))"
proof -
  have "areach bump_malloc 1 (demo_list, [(8, 20)])"
    by (rule areach.step [OF areach.start astep.request [OF _ demo_first]]) simp
  then have "areach bump_malloc 1 (demo_list\<lparr>free_list := (replicate NFREELISTS 0)[2 := 56]\<rparr>, [(32, 17), (8, 20)])"
    by (rule areach.step) (rule astep.request [OF _ demo_second], simp)
  from handed_out_disjoint [OF this bump_malloc_ok] show ?thesis .
qed

text \<open>
  \<open>sub_deallocate\<close> never gives a small block back: its local \<open>q\<close> stays null, so for every
  size from 1 to 128 it stores through the null pointer, whatever the block and the free lists.
\<close>

lemma sub_deallocate_faults:
  assumes "0 < n" "n \<le> MAX_BYTES" "length (free_list st) = NFREELISTS"
  shows "sub_deallocate st p n = Inl NullDeref"
proof -
  have "\<not> MAX_BYTES < n" using assms(2) by simp
  with small_request(1) [OF assms(1,2)] assms(3) show ?thesis
    by (simp add: sub_deallocate_def get_list_def store_link_def)
qed

lemma sub_deallocate_faults_witness: "sub_deallocate alloc_init 8 24 = Inl NullDeref"
  by (rule sub_deallocate_faults) (simp_all add: alloc_init_def)

text \<open>
  A request of 0 bytes is not caught: \<open>FREELIST_INDEX (0)\<close> wraps around and the read of
  \<open>free_list\<close> is out of bounds.
\<close>

theorem sub_allocate_zero:
  assumes "length (free_list st) = NFREELISTS"
  shows "sub_allocate mal k st 0 = Inl OutOfBounds"
proof -
  have "unat (FREELIST_INDEX 0) = 2 ^ 32 - 1" by (simp add: FREELIST_INDEX_def unsigned_minus_1_eq_mask mask_eq_exp_minus_1)
  with assms show ?thesis by (simp add: sub_allocate_def get_list_def)
qed

theorem sub_allocate_zero_witness: "sub_allocate bump_malloc 1 alloc_init 0 = Inl OutOfBounds"
  by (rule sub_allocate_zero) (simp add: alloc_init_def)

text \<open>
  C40: When \<open>malloc\<close> fails, \<open>chunk_alloc\<close> looks for a free block that is large enough, but its
  loop stops before 128: with an exhausted pool and an empty list of 120-byte blocks, a request of
  120 bytes retries for ever (it is out of fuel for every number of retries), however many free
  blocks the list of 128-byte blocks holds.
\<close>

theorem largest_list_ignored:
  assumes "length (free_list st) = NFREELISTS" "free_list st ! 14 = 0" "start_free st = end_free st"
  shows "sub_allocate (\<lambda>_ _ _. 0) k st 120 = Inl OutOfFuel"
proof -
  have never: "oom_malloc (\<lambda>_ _ _. 0) k s n = Inl OutOfFuel" for k s n
    by (induction k arbitrary: s) (simp_all add: c_malloc_def Let_def)
  then have alc: "allocate (\<lambda>_ _ _. 0) k s n = Inl OutOfFuel" for s n
    by (simp add: allocate_def c_malloc_def Let_def)
  have search: "oom_search 17 s 120 = Inr None" if "free_list s = free_list st" for s
  proof -
    have "oom_search (Suc (Suc f)) s 120 = Inr None" for f
      using that assms(1,2) by (simp add: get_list_def FREELIST_INDEX_def)
    from this [of 15] show ?thesis by (simp del: oom_search.simps)
  qed
  have "chunk_alloc (\<lambda>_ _ _. 0) k (Suc 1) st 120 20 = Inl OutOfFuel"
    by (subst chunk_alloc_slow [where ?st1.0 = st and p = 0 and
          ?st2.0 = "st\<lparr>mcalls := Suc (mcalls st), live := live st\<rparr>", OF _ _ _ refl])
      (simp_all add: assms(3) c_malloc_def Let_def search alc del: chunk_alloc.simps oom_search.simps)
  moreover have "get_list st (FREELIST_INDEX 120) = Inr 0" "ROUND_UP 120 = 120"
    using assms by (simp_all add: get_list_def FREELIST_INDEX_def ROUND_UP_def)
  moreover have "\<not> MAX_BYTES < 120" by simp
  moreover have "(2::nat) = Suc 1" by simp
  ultimately show ?thesis
    by (simp only: sub_allocate_def refill_def rbind_Inr rbind_Inl if_False if_True refl)
qed

theorem largest_list_ignored_witness:
  "sub_allocate (\<lambda>_ _ _. 0) 1000 (alloc_init\<lparr>free_list := (replicate NFREELISTS 0)[15 := 4096]\<rparr>) 120 = Inl OutOfFuel"
  by (rule largest_list_ignored) (simp_all add: alloc_init_def)

end
