(* ===== verification/Cstlib.thy ===== *)
theory Cstlib
  imports Prelude
begin

text \<open>
  The character macros and the in-place lower-casing of \<open>cstlib.h\<close> and \<open>cstlib.c\<close>.
  \<open>LOWER\<close> sets bit 5 of a byte (\<open>c | 0x20\<close>), whether it is a letter or not; \<open>L\<close> applies it to every byte of
  a buffer up to the terminator. The lemmas say what \<open>L\<close> leaves in the buffer and when the result
  is a given lower-case keyword.
\<close>

subsection \<open>Definitions\<close>

fun LOWER :: "char \<Rightarrow> char" where
  "LOWER (Char b0 b1 b2 b3 b4 b5 b6 b7) = Char b0 b1 b2 b3 b4 True b6 b7"

definition IS_ALPHA :: "char \<Rightarrow> bool" where
  "IS_ALPHA c \<longleftrightarrow> (CHR ''a'' \<le> c \<and> c \<le> CHR ''z'') \<or> (CHR ''A'' \<le> c \<and> c \<le> CHR ''Z'')"

text \<open>
  The loop of \<open>L\<close>: the argument is the buffer from \<open>s + i\<close> on, the result the same bytes after
  the loop. \<open>L\<close> starts by dereferencing its argument, so a null pointer faults.
\<close>

fun L_loop :: "char list \<Rightarrow> char list res" where
  "L_loop [] = Inl OutOfBounds"
| "L_loop (c # cs) =
     (if c = NUL then Inr (c # cs) else rbind (L_loop cs) (\<lambda>cs'. Inr (LOWER c # cs')))"

fun L :: "char list option \<Rightarrow> char list res" where
  "L None = Inl NullDeref"
| "L (Some buf) = L_loop buf"

subsection \<open>Bytes\<close>

lemma LOWER_not_NUL [simp]: "LOWER c \<noteq> NUL"
  by (cases c) simp

lemma LOWER_idem [simp]: "LOWER (LOWER c) = LOWER c"
  by (cases c) simp

text \<open>The lower-case letters, and the upper-case letter of one.\<close>

definition is_lower :: "char \<Rightarrow> bool" where
  "is_lower c \<longleftrightarrow> CHR ''a'' \<le> c \<and> c \<le> CHR ''z''"

fun upper_of :: "char \<Rightarrow> char" where
  "upper_of (Char b0 b1 b2 b3 b4 b5 b6 b7) = Char b0 b1 b2 b3 b4 False b6 b7"

lemma LOWER_letter:
  assumes "is_lower d"
  shows "LOWER c = d \<longleftrightarrow> c = d \<or> c = upper_of d"
proof -
  obtain b0 b1 b2 b3 b4 b5 b6 b7 where d: "d = Char b0 b1 b2 b3 b4 b5 b6 b7" by (cases d)
  have b5 using assms unfolding d is_lower_def less_eq_char_def
    by (cases b7; cases b6; cases b5; cases b4; cases b3; cases b2; cases b1; cases b0) simp_all
  with d show ?thesis by (cases c) auto
qed

subsection \<open>What \<open>L\<close> does to a string\<close>

lemma L_loop_cstr: "nul_free s \<Longrightarrow> L_loop (cstr s @ junk) = Inr (cstr (map LOWER s) @ junk)"
  by (induction s) (auto simp: cstr_def)

lemma L_cstr: "nul_free s \<Longrightarrow> L (Some (cstr s @ junk)) = Inr (cstr (map LOWER s) @ junk)"
  by (simp add: L_loop_cstr)

text \<open>A keyword of lower-case letters is recognised exactly in its upper- and lower-case spellings.\<close>

definition spells :: "string \<Rightarrow> string \<Rightarrow> bool" where
  "spells w kw \<longleftrightarrow> list_all2 (\<lambda>c d. c = d \<or> c = upper_of d) w kw"

lemma map_LOWER_keyword:
  assumes "list_all is_lower kw"
  shows "map LOWER w = kw \<longleftrightarrow> spells w kw"
  using assms unfolding spells_def
proof (induction kw arbitrary: w)
  case Nil
  then show ?case by simp
next
  case (Cons d kw)
  then show ?case by (cases w) (auto simp: LOWER_letter)
qed

end
