(* ===== verification/String_Buffers.thy ===== *)
theory String_Buffers
  imports Allocate
begin

text \<open>
  The heap buffers into which the program copies its strings, byte by byte. Everywhere else in the
  development a string is a value; here the copies themselves are modelled, because the code
  requests \<open>strlen (s)\<close> bytes for a string that needs one more for its terminator. A buffer is the
  list of its bytes, its length the number of bytes the block has; a store past the end faults.
\<close>

subsection \<open>Definitions\<close>

text \<open>Bytes of a block of \<open>malloc\<close>, and of a block of \<open>sub_allocate\<close> (which rounds up).\<close>

definition sub_bytes :: "nat \<Rightarrow> nat" where
  "sub_bytes n = (if n > 128 then n else unat (ROUND_UP (of_nat n)))"

definition put_byte :: "char list \<Rightarrow> nat \<Rightarrow> char \<Rightarrow> char list res" where
  "put_byte buf i c = (if i < length buf then Inr (buf[i := c]) else Inl OutOfBounds)"

text \<open>\<open>memset (buf, 0, n)\<close>; \<open>strcpy\<close> of a terminated source to offset \<open>i\<close> of a buffer.\<close>

primrec memset0 :: "char list \<Rightarrow> nat \<Rightarrow> char list res" where
  "memset0 buf 0 = Inr buf"
| "memset0 buf (Suc n) = rbind (memset0 buf n) (\<lambda>b. put_byte b n NUL)"

fun strcpy_at :: "char list \<Rightarrow> nat \<Rightarrow> char list \<Rightarrow> char list res" where
  "strcpy_at buf i [] = Inl OutOfBounds"
| "strcpy_at buf i (c # cs) =
     rbind (put_byte buf i c) (\<lambda>b. if c = NUL then Inr b else strcpy_at b (Suc i) cs)"

text \<open>\<open>m_ALLOC\<close>: a zeroed block (\<open>fill\<close> is what the allocator left in the bytes).\<close>

definition m_ALLOC :: "char \<Rightarrow> nat \<Rightarrow> char list res" where
  "m_ALLOC fill n = (if n = 0 then Inl OutOfBounds else memset0 (replicate (sub_bytes n) fill) n)"

definition malloc_and_copy :: "char \<Rightarrow> string \<Rightarrow> char list res" where
  "malloc_and_copy fill source = rbind (m_ALLOC fill (length source)) (\<lambda>newstr. strcpy_at newstr 0 (cstr source))"

text \<open>
  The copies made by \<open>__key_value_insert\<close> (with \<open>memset\<close>) and by \<open>create_child_trie\<close> (without):
  a block of \<open>malloc (strlen (s))\<close>, then \<open>strcpy\<close>.
\<close>

definition insert_copy :: "char \<Rightarrow> string \<Rightarrow> char list res" where
  "insert_copy fill s = rbind (memset0 (replicate (length s) fill) (length s)) (\<lambda>b. strcpy_at b 0 (cstr s))"

definition trie_copy :: "char \<Rightarrow> string \<Rightarrow> char list res" where
  "trie_copy fill s = strcpy_at (replicate (length s) fill) 0 (cstr s)"

text \<open>\<open>cJSON_strdup\<close>: one byte more than the length.\<close>

definition json_strdup :: "char \<Rightarrow> string \<Rightarrow> char list res" where
  "json_strdup fill s = strcpy_at (replicate (Suc (length s)) fill) 0 (cstr s)"

subsection \<open>Copying\<close>

lemma memset0_fits: "n \<le> length buf \<Longrightarrow> memset0 buf n = Inr (replicate n NUL @ drop n buf)"
proof (induction n)
  case 0
  then show ?case by simp
next
  case (Suc n)
  have "(replicate n NUL @ drop n buf)[n := NUL] = replicate (Suc n) NUL @ drop (Suc n) buf"
    using Suc.prems
    by (metis Cons_nth_drop_Suc Suc_le_eq append.assoc append_Cons append_Nil length_replicate
        list_update_length replicate_Suc replicate_append_same)
  with Suc show ?case by (simp add: put_byte_def)
qed

lemma memset0_length: "memset0 buf n = Inr b \<Longrightarrow> length b = length buf"
  by (induction n arbitrary: b) (auto simp: put_byte_def split: if_splits)

text \<open>\<open>strcpy\<close> writes the string and its terminator, and faults exactly when they do not fit.\<close>

lemma strcpy_at_spec:
  "nul_free s \<Longrightarrow> strcpy_at buf i (cstr s) =
    (if i + length s < length buf then Inr (take i buf @ cstr s @ drop (i + length s + 1) buf) else Inl OutOfBounds)"
proof (induction s arbitrary: buf i)
  case Nil
  then show ?case by (auto simp: cstr_def put_byte_def upd_conv_take_nth_drop)
next
  case (Cons c s)
  show ?case
  proof (cases "i < length buf")
    case True
    have "take (Suc i) (buf[i := c]) = take i buf @ [c]"
      using True by (simp add: take_Suc_conv_app_nth)
    with Cons True show ?thesis by (auto simp: cstr_def put_byte_def)
  next
    case False
    then show ?thesis by (simp add: cstr_def put_byte_def)
  qed
qed

lemma sub_bytes_small: "n \<le> 128 \<Longrightarrow> sub_bytes n = 8 * ((n + 7) div 8)"
proof -
  assume n: "n \<le> 128"
  then have "unat (of_nat n :: 32 word) = n" by (intro of_nat_inverse [OF refl]) simp
  with n show ?thesis by (simp add: sub_bytes_def unat_ROUND_UP)
qed

lemma sub_bytes_ge: "n \<le> sub_bytes n"
proof (cases "n \<le> 128")
  case True
  have "n \<le> 8 * ((n + 7) div 8)" by presburger
  with True show ?thesis by (simp only: sub_bytes_small)
next
  case False
  then show ?thesis by (simp add: sub_bytes_def)
qed

lemma sub_bytes_room: "n < sub_bytes n \<longleftrightarrow> n < 128 \<and> n mod 8 \<noteq> 0"
proof (cases "n \<le> 128")
  case True
  then have "n < 8 * ((n + 7) div 8) \<longleftrightarrow> n < 128 \<and> n mod 8 \<noteq> 0" by presburger
  with True show ?thesis by (simp only: sub_bytes_small)
next
  case False
  then show ?thesis by (auto simp: sub_bytes_def)
qed

subsection \<open>Properties\<close>

text \<open>
  \<open>malloc_and_copy\<close> yields the terminated copy of its argument exactly when the argument has
  fewer than 128 bytes and a length that is not a multiple of 8; for every other string (the empty
  one, a length that is a multiple of 8, more than 128 bytes) it accesses memory out of bounds.
\<close>

lemma malloc_and_copy_fits:
  assumes "nul_free s"
  shows "malloc_and_copy fill s =
    (if length s < 128 \<and> length s mod 8 \<noteq> 0
     then Inr (cstr s @ replicate (sub_bytes (length s) - length s - 1) fill) else Inl OutOfBounds)"
proof (cases "s = []")
  case True
  then show ?thesis by (simp add: malloc_and_copy_def m_ALLOC_def)
next
  case False
  have "m_ALLOC fill (length s) = Inr (replicate (length s) NUL @ replicate (sub_bytes (length s) - length s) fill)"
    using False sub_bytes_ge [of "length s"] by (simp add: m_ALLOC_def memset0_fits)
  then show ?thesis
    using assms sub_bytes_ge [of "length s"] sub_bytes_room [of "length s"]
    by (auto simp: malloc_and_copy_def strcpy_at_spec)
qed

lemma malloc_and_copy_fits_witness:
  "malloc_and_copy NUL ''World'' = Inr (cstr ''World'' @ replicate 2 NUL) \<and>
   malloc_and_copy NUL ''k_v_no_value_saved......'' = Inl OutOfBounds"
  using malloc_and_copy_fits [of "''World''" NUL] malloc_and_copy_fits [of "''k_v_no_value_saved......''" NUL]
  by (simp add: sub_bytes_small)

text \<open>
  The copies of keys and values in \<open>__key_value_insert\<close> and \<open>create_child_trie\<close> never fit:
  for every string the terminator is stored one byte past the block. The copy of \<open>cJSON_strdup\<close>,
  which asks for one byte more, always fits.
\<close>

theorem copies_without_terminator:
  assumes "nul_free s"
  shows "insert_copy fill s = Inl OutOfBounds \<and> trie_copy fill s = Inl OutOfBounds \<and>
    json_strdup fill s = Inr (cstr s)"
  using assms by (simp add: insert_copy_def trie_copy_def json_strdup_def memset0_fits strcpy_at_spec)

theorem copies_without_terminator_witness:
  "insert_copy NUL ''Hello'' = Inl OutOfBounds \<and> trie_copy NUL ''Hello'' = Inl OutOfBounds \<and>
    json_strdup NUL ''Hello'' = Inr (cstr ''Hello'')"
  by (rule copies_without_terminator) simp

end
