(* ===== verification/Lock_Free_Queue.thy ===== *)
theory Lock_Free_Queue
  imports Interfaces
begin

text \<open>
  The queue of \<open>lock_free_queue.c\<close>: a chain of nodes from \<open>front\<close> to \<open>tail\<close> in an explicit
  store. Run by one thread, the operations form a first-in first-out queue (the locale \<open>fifo\<close> is
  interpreted on them); \<open>tail\<close> keeps pointing at the last node removed when the queue runs empty,
  and the next insertion hangs on it. \<open>CAS\<close> is an ordinary function, a comparison followed by a
  store; the second part of the theory interleaves several threads inside \<open>out_queue\<close>, once with
  the two halves of \<open>CAS\<close> as separate steps, as the code has it, and once as one atomic step.
\<close>

subsection \<open>Definitions\<close>

record 'v file_node =
  file_pos :: int
  fvalue :: 'v
  fnext :: "nat option"

record 'v qstate =
  fcells :: "nat \<Rightarrow> 'v file_node"
  fcount :: nat
  qfront :: "nat option"
  qtail :: "nat option"

fun fload :: "'v qstate \<Rightarrow> nat option \<Rightarrow> 'v file_node res" where
  "fload q None = Inl NullDeref"
| "fload q (Some a) = (if a < fcount q then Inr (fcells q a) else Inl OutOfBounds)"

text \<open>\<open>CAS\<close> on a register holding \<open>reg\<close>: the value it holds afterwards, and the result.\<close>

definition CAS :: "'p \<Rightarrow> 'p \<Rightarrow> 'p \<Rightarrow> 'p \<times> bool" where
  "CAS reg oldval newval = (if reg = oldval then (newval, True) else (reg, False))"

text \<open>
  \<open>new_lock_free_queue\<close>: the block has the size of a pointer, 4 bytes; the fields \<open>front\<close> and
  \<open>tail\<close> are the words at offsets 0 and 4 of it.
\<close>

definition store_word :: "nat \<Rightarrow> nat \<Rightarrow> unit res" where
  "store_word block_size offset = (if offset + 4 \<le> block_size then Inr () else Inl OutOfBounds)"

definition new_lock_free_queue :: "'v qstate \<Rightarrow> 'v qstate res" where
  "new_lock_free_queue q =
     rbind (store_word 4 4) (\<lambda>_. rbind (store_word 4 0) (\<lambda>_. Inr (q\<lparr>qfront := None, qtail := None\<rparr>)))"

definition init_queue :: "'v qstate \<Rightarrow> nat \<Rightarrow> 'v qstate" where
  "init_queue q new_node = q\<lparr>qfront := Some new_node, qtail := Some new_node\<rparr>"

definition new_file_node :: "'v qstate \<Rightarrow> int \<Rightarrow> 'v \<Rightarrow> 'v qstate \<times> nat" where
  "new_file_node q filepos v =
     (q\<lparr>fcells := (fcells q)(fcount q := \<lparr>file_pos = filepos, fvalue = v, fnext = None\<rparr>),
        fcount := Suc (fcount q)\<rparr>, fcount q)"

fun set_next :: "'v qstate \<Rightarrow> nat \<Rightarrow> nat option \<Rightarrow> 'v qstate" where
  "set_next q a n = q\<lparr>fcells := (fcells q)(a := (fcells q a)\<lparr>fnext := n\<rparr>)\<rparr>"

definition queue_is_empty :: "'v qstate \<Rightarrow> bool" where
  "queue_is_empty q \<longleftrightarrow> qfront q = None"

text \<open>The inner loop of \<open>en_queue\<close>, to the node without successor (\<open>f\<close> bounds the rounds).\<close>

fun last_node :: "nat \<Rightarrow> 'v qstate \<Rightarrow> nat \<Rightarrow> nat res" where
  "last_node 0 q p = Inl OutOfFuel"
| "last_node (Suc f) q p =
     rbind (fload q (Some p)) (\<lambda>nd. case fnext nd of None \<Rightarrow> Inr p | Some p' \<Rightarrow> last_node f q p')"

text \<open>The \<open>do ... while\<close> loop around it, with the \<open>CAS\<close> on \<open>p->next\<close>.\<close>

fun append_node :: "nat \<Rightarrow> nat \<Rightarrow> 'v qstate \<Rightarrow> nat \<Rightarrow> nat \<Rightarrow> 'v qstate res" where
  "append_node w 0 q p new_node = Inl OutOfFuel"
| "append_node w (Suc f) q p new_node =
     rbind (last_node w q p) (\<lambda>p'.
     rbind (fload q (Some p')) (\<lambda>nd.
       let (n, ok) = CAS (fnext nd) None (Some new_node); q' = set_next q p' n
       in if ok then Inr q' else append_node w f q' p' new_node))"

definition en_queue :: "'v qstate \<Rightarrow> int \<Rightarrow> 'v \<Rightarrow> 'v qstate res" where
  "en_queue q filepos v =
     (let (q1, new_node) = new_file_node q filepos v
      in case qtail q1 of
           None \<Rightarrow> Inr (init_queue q1 new_node)
         | Some oldp \<Rightarrow>
             rbind (append_node (fcount q1) 1 q1 oldp new_node) (\<lambda>q2.
               let q3 = q2\<lparr>qtail := fst (CAS (qtail q2) (Some oldp) (Some new_node))\<rparr>
               in Inr (if queue_is_empty q3 then q3\<lparr>qfront := qtail q3\<rparr> else q3)))"

fun out_queue :: "nat \<Rightarrow> 'v qstate \<Rightarrow> ('v qstate \<times> nat option) res" where
  "out_queue 0 q = Inl OutOfFuel"
| "out_queue (Suc f) q =
     (case qfront q of
        None \<Rightarrow> Inr (q, None)
      | Some p \<Rightarrow>
          rbind (fload q (Some p)) (\<lambda>nd.
            let (fr, ok) = CAS (qfront q) (Some p) (fnext nd); q' = q\<lparr>qfront := fr\<rparr>
            in if ok then Inr (q', Some p) else out_queue f q'))"

text \<open>\<open>trace_queue\<close>: the position and value on each line it prints, front and tail first.\<close>

fun trace_loop :: "nat \<Rightarrow> 'v qstate \<Rightarrow> nat option \<Rightarrow> (int \<times> 'v) list res" where
  "trace_loop 0 q p = Inl OutOfFuel"
| "trace_loop (Suc f) q p =
     rbind (fload q p) (\<lambda>nd.
       case fnext nd of
         None \<Rightarrow> Inr [(file_pos nd, fvalue nd)]
       | Some p' \<Rightarrow> rbind (trace_loop f q (Some p')) (\<lambda>ls. Inr ((file_pos nd, fvalue nd) # ls)))"

definition trace_queue :: "'v qstate \<Rightarrow> (int \<times> 'v) list res" where
  "trace_queue q =
     rbind (fload q (qfront q)) (\<lambda>f.
     rbind (fload q (qtail q)) (\<lambda>t.
     rbind (trace_loop (fcount q) q (qfront q)) (\<lambda>ls.
       Inr ((file_pos f, fvalue f) # (file_pos t, fvalue t) # ls))))"

subsection \<open>The queue as a list\<close>

primrec qchain :: "'v qstate \<Rightarrow> nat option \<Rightarrow> nat list \<Rightarrow> bool" where
  "qchain q p [] \<longleftrightarrow> p = None"
| "qchain q p (a # as) \<longleftrightarrow> p = Some a \<and> a < fcount q \<and> qchain q (fnext (fcells q a)) as"

definition elem :: "'v qstate \<Rightarrow> nat \<Rightarrow> int \<times> 'v" where
  "elem q a = (file_pos (fcells q a), fvalue (fcells q a))"

definition queue_rep :: "'v qstate \<Rightarrow> nat list \<Rightarrow> bool" where
  "queue_rep q as \<longleftrightarrow> qchain q (qfront q) as \<and>
     (as \<noteq> [] \<longrightarrow> qtail q = Some (last as)) \<and>
     (\<forall>t. qtail q = Some t \<longrightarrow> t < fcount q \<and> fnext (fcells q t) = None)"

definition queue_holds :: "'v qstate \<Rightarrow> (int \<times> 'v) list \<Rightarrow> bool" where
  "queue_holds q xs \<longleftrightarrow> (\<exists>as. queue_rep q as \<and> xs = map (elem q) as)"

definition empty_queue :: "(nat \<Rightarrow> 'v file_node) \<Rightarrow> 'v qstate" where
  "empty_queue cs = \<lparr>fcells = cs, fcount = 0, qfront = None, qtail = None\<rparr>"

lemma empty_queue_holds: "queue_holds (empty_queue cs) []"
  by (simp add: queue_holds_def queue_rep_def empty_queue_def)

lemma qchain_valid: "qchain q p as \<Longrightarrow> a \<in> set as \<Longrightarrow> a < fcount q"
  by (induction as arbitrary: p) auto

text \<open>A chain is unchanged when no node of it is, and longer stores keep it.\<close>

lemma qchain_frame:
  "qchain q p as \<Longrightarrow> fcount q \<le> fcount q' \<Longrightarrow> (\<And>a. a \<in> set as \<Longrightarrow> fnext (fcells q' a) = fnext (fcells q a)) \<Longrightarrow>
    qchain q' p as"
  by (induction as arbitrary: p) auto

lemma qchain_inner:
  assumes "qchain q p (as @ [t])" "a \<in> set as"
  shows "fnext (fcells q a) \<noteq> None"
  using assms
proof (induction as arbitrary: p)
  case Nil
  then show ?case by simp
next
  case (Cons b as)
  then show ?case by (cases as) auto
qed

text \<open>Hanging a new node on the last one extends the chain by it.\<close>

lemma qchain_append:
  assumes "qchain q p (as @ [t])" "new < fcount q" "fnext (fcells q new) = None" "new \<notin> set (as @ [t])"
    and "t \<notin> set as"
  shows "qchain (set_next q t (Some new)) p (as @ [t, new])"
  using assms
proof (induction as arbitrary: p)
  case Nil
  then show ?case by auto
next
  case (Cons b as)
  then show ?case by auto
qed

lemma append_node_last:
  assumes "t < fcount q" "fnext (fcells q t) = None"
  shows "append_node (Suc w) 1 q t new = Inr (set_next q t (Some new))"
  using assms by (simp add: CAS_def)

lemma en_queue_rep:
  assumes rep: "queue_rep q as"
  obtains q' where "en_queue q filepos v = Inr q'" "queue_rep q' (as @ [fcount q])"
    "map (elem q') (as @ [fcount q]) = map (elem q) as @ [(filepos, v)]"
proof (cases "qtail q")
  case None
  with rep have as: "as = []" by (auto simp: queue_rep_def)
  from None that show thesis
    by (auto simp: as en_queue_def new_file_node_def init_queue_def queue_rep_def elem_def)
next
  case (Some t)
  define n where "n = fcount q"
  define q1 where "q1 = fst (new_file_node q filepos v)"
  define q2 where "q2 = set_next q1 t (Some n)"
  have t: "t < n" "fnext (fcells q t) = None" using rep Some by (auto simp: queue_rep_def n_def)
  have q1: "fcount q1 = Suc n" "qfront q1 = qfront q" "qtail q1 = Some t"
    "fcells q1 n = \<lparr>file_pos = filepos, fvalue = v, fnext = None\<rparr>" "\<And>a. a < n \<Longrightarrow> fcells q1 a = fcells q a"
    using Some by (auto simp: q1_def new_file_node_def n_def)
  have ap: "append_node (fcount q1) 1 q1 t n = Inr q2"
    unfolding q1(1) q2_def by (rule append_node_last) (use t q1 in auto)
  have ch: "qchain q (qfront q) as" using rep by (simp add: queue_rep_def)
  have valid: "a < n" if "a \<in> set as" for a using qchain_valid [OF ch that] by (simp add: n_def)
  have ch1: "qchain q1 (qfront q) as" by (rule qchain_frame [OF ch]) (use q1 valid n_def in auto)
  have pr: "new_file_node q filepos v = (q1, n)" by (simp add: q1_def n_def new_file_node_def)
  have q2: "qtail q2 = Some t" "qfront q2 = qfront q" using q1 by (simp_all add: q2_def)
  have en: "en_queue q filepos v = Inr (if qfront q = None then q2\<lparr>qtail := Some n, qfront := Some n\<rparr>
      else q2\<lparr>qtail := Some n\<rparr>)"
    unfolding en_queue_def pr Let_def prod.case q1(3) option.case ap rbind_Inr
    by (simp add: CAS_def queue_is_empty_def q2)
  show thesis
  proof (cases "as = []")
    case True
    let ?q3 = "q2\<lparr>qtail := Some n, qfront := Some n\<rparr>"
    have "qfront q = None" using ch True by simp
    with en have "en_queue q filepos v = Inr ?q3" by simp
    then show thesis
      by (rule that) (use q1 t True in \<open>auto simp: queue_rep_def q2_def elem_def n_def\<close>)
  next
    case False
    then obtain bs where as: "as = bs @ [t]"
      using rep Some by (metis append_butlast_last_id option.inject queue_rep_def)
    let ?q3 = "q2\<lparr>qtail := Some n\<rparr>"
    have fr: "qfront q \<noteq> None" using ch False by (cases as) auto
    with en have en': "en_queue q filepos v = Inr ?q3" by simp
    have "fnext (fcells q1 t) = None" using t q1(5) by simp
    then have tb: "t \<notin> set bs" using qchain_inner [of q1 "qfront q" bs t t] ch1 as by auto
    have "qchain q2 (qfront q) (bs @ [t, n])"
      unfolding q2_def by (rule qchain_append) (use ch1 as q1 tb valid in auto)
    then have "qchain ?q3 (qfront q) (bs @ [t, n])"
      by (rule qchain_frame) simp_all
    then have "queue_rep ?q3 (as @ [n])" using q1 t as by (auto simp: queue_rep_def q2_def)
    moreover have "map (elem ?q3) (as @ [n]) = map (elem q) as @ [(filepos, v)]"
      using valid q1 by (auto simp: elem_def q2_def)
    ultimately show thesis using en' that by (simp add: n_def)
  qed
qed

lemma out_queue_rep:
  assumes rep: "queue_rep q as"
  shows "\<exists>q'. out_queue (Suc f) q = Inr (q', if as = [] then None else Some (hd as)) \<and>
    queue_rep q' (tl as) \<and> fcells q' = fcells q \<and> fcount q' = fcount q"
proof (cases as)
  case Nil
  with rep show ?thesis by (auto simp: queue_rep_def)
next
  case (Cons a bs)
  let ?q = "q\<lparr>qfront := fnext (fcells q a)\<rparr>"
  have a: "qfront q = Some a" "a < fcount q" "qchain q (fnext (fcells q a)) bs"
    using rep Cons by (auto simp: queue_rep_def)
  have "qchain ?q (fnext (fcells q a)) bs" by (rule qchain_frame [OF a(3)]) simp_all
  with rep Cons have "queue_rep ?q bs" by (auto simp: queue_rep_def)
  with a Cons show ?thesis by (auto simp: CAS_def)
qed

text \<open>Dequeuing an element: \<open>out_queue\<close> followed by the client's reads of the node.\<close>

definition take_elem :: "'v qstate \<Rightarrow> ('v qstate \<times> (int \<times> 'v) option) res" where
  "take_elem q = rbind (out_queue 1 q) (\<lambda>(q', p).
     case p of None \<Rightarrow> Inr (q', None)
     | Some a \<Rightarrow> rbind (fload q' (Some a)) (\<lambda>nd. Inr (q', Some (file_pos nd, fvalue nd))))"

definition put_elem :: "'v qstate \<Rightarrow> int \<times> 'v \<Rightarrow> 'v qstate res" where
  "put_elem q x = en_queue q (fst x) (snd x)"

interpretation lfq: fifo queue_holds put_elem take_elem
proof (unfold_locales, goal_cases)
  case (1 q xs x)
  then obtain as where rep: "queue_rep q as" and xs: "xs = map (elem q) as" by (auto simp: queue_holds_def)
  obtain q' where "en_queue q (fst x) (snd x) = Inr q'" "queue_rep q' (as @ [fcount q])"
    "map (elem q') (as @ [fcount q]) = map (elem q) as @ [(fst x, snd x)]" by (rule en_queue_rep [OF rep])
  with xs show ?case unfolding put_elem_def queue_holds_def prod.collapse by metis
next
  case (2 q xs)
  then obtain as where rep: "queue_rep q as" and xs: "xs = map (elem q) as" by (auto simp: queue_holds_def)
  from out_queue_rep [OF rep, of 0] obtain q' where
    q': "out_queue 1 q = Inr (q', if as = [] then None else Some (hd as))" "queue_rep q' (tl as)"
    "fcells q' = fcells q" "fcount q' = fcount q" by auto
  have e: "elem q' = elem q" using q'(3) by (simp add: elem_def fun_eq_iff)
  have "queue_holds q' (tl xs)" using q'(2) e xs by (auto simp: queue_holds_def map_tl)
  moreover have "take_elem q = Inr (q', if xs = [] then None else Some (hd xs))"
  proof (cases as)
    case Nil
    with q' xs show ?thesis by (simp add: take_elem_def)
  next
    case (Cons a bs)
    with rep have "a < fcount q" by (auto simp: queue_rep_def)
    with q' xs Cons show ?thesis by (simp add: take_elem_def elem_def)
  qed
  ultimately show ?case by blast
qed

subsection \<open>Several threads inside \<open>out_queue\<close>\<close>

text \<open>
  Where a thread is in \<open>out_queue\<close>: at the top of the loop; with \<open>p\<close> loaded from \<open>front\<close>; with
  \<open>p->next\<close> loaded as well; past the comparison of \<open>CAS\<close> but before its store; returned.
\<close>

datatype dq_pc =
    Ready
  | Loaded nat
  | Armed nat "nat option"
  | Checked nat "nat option"
  | Returned "nat option"

text \<open>
  One step of a thread. With \<open>atomic\<close> the comparison and the store of \<open>CAS\<close> are one step,
  otherwise two, as in the function \<open>CAS\<close> of the code.
\<close>

fun dq_step :: "bool \<Rightarrow> 'v qstate \<Rightarrow> dq_pc \<Rightarrow> ('v qstate \<times> dq_pc) res" where
  "dq_step atomic q Ready =
     Inr (q, case qfront q of None \<Rightarrow> Returned None | Some p \<Rightarrow> Loaded p)"
| "dq_step atomic q (Loaded p) = rbind (fload q (Some p)) (\<lambda>nd. Inr (q, Armed p (fnext nd)))"
| "dq_step atomic q (Armed p n) =
     (if qfront q = Some p
      then (if atomic then Inr (q\<lparr>qfront := n\<rparr>, Returned (Some p)) else Inr (q, Checked p n))
      else Inr (q, Ready))"
| "dq_step atomic q (Checked p n) = Inr (q\<lparr>qfront := n\<rparr>, Returned (Some p))"
| "dq_step atomic q (Returned r) = Inr (q, Returned r)"

text \<open>The states that any number of threads reach from a queue, in any interleaving.\<close>

inductive dequeuers :: "bool \<Rightarrow> 'v qstate \<Rightarrow> 'v qstate \<times> (nat \<Rightarrow> dq_pc) \<Rightarrow> bool" for atomic q0 where
  none_started: "dequeuers atomic q0 (q0, \<lambda>_. Ready)"
| one_moves: "dequeuers atomic q0 (q, ts) \<Longrightarrow> dq_step atomic q (ts i) = Inr (q', pc) \<Longrightarrow>
    dequeuers atomic q0 (q', ts(i := pc))"

fun schedule :: "bool \<Rightarrow> nat list \<Rightarrow> 'v qstate \<times> (nat \<Rightarrow> dq_pc) \<Rightarrow> ('v qstate \<times> (nat \<Rightarrow> dq_pc)) res" where
  "schedule atomic [] s = Inr s"
| "schedule atomic (i # is) (q, ts) =
     rbind (dq_step atomic q (ts i)) (\<lambda>(q', pc). schedule atomic is (q', ts(i := pc)))"

lemma schedule_reach:
  "schedule atomic is (q, ts) = Inr s \<Longrightarrow> dequeuers atomic q0 (q, ts) \<Longrightarrow> dequeuers atomic q0 s"
proof (induction "is" arbitrary: q ts)
  case Nil
  then show ?case by simp
next
  case (Cons i "is")
  from Cons.prems(1) obtain q' pc where st: "dq_step atomic q (ts i) = Inr (q', pc)"
    and rest: "schedule atomic is (q', ts(i := pc)) = Inr s" by (auto split: prod.splits)
  show ?case by (rule Cons.IH [OF rest one_moves [OF Cons.prems(2) st]])
qed

lemma qchain_unique: "qchain q p as \<Longrightarrow> qchain q p bs \<Longrightarrow> as = bs"
proof (induction as arbitrary: p bs)
  case Nil
  then show ?case by (cases bs) auto
next
  case (Cons a as)
  then show ?case by (cases bs) auto
qed

lemma qchain_suffix: "qchain q p (xs @ a # ys) \<Longrightarrow> qchain q (Some a) (a # ys)"
  by (induction xs arbitrary: p) auto

lemma qchain_distinct: "qchain q p as \<Longrightarrow> distinct as"
proof (induction as arbitrary: p)
  case Nil
  then show ?case by simp
next
  case (Cons a as)
  have "a \<notin> set as"
  proof
    assume "a \<in> set as"
    then obtain xs ys where as: "as = xs @ a # ys" by (meson split_list)
    have "qchain q (Some a) (a # ys)" using Cons.prems as qchain_suffix [of q p "a # xs" a ys] by simp
    moreover have "qchain q (Some a) (a # as)" using Cons.prems by simp
    ultimately have "a # ys = a # as" by (rule qchain_unique)
    with as show False by simp
  qed
  with Cons show ?case by auto
qed

text \<open>
  With an atomic \<open>CAS\<close>: the nodes still chained and the nodes returned are disjoint, and every
  thread that has read a successor has the right one.
\<close>

definition taken :: "(nat \<Rightarrow> dq_pc) \<Rightarrow> nat set" where
  "taken ts = {p. \<exists>i. ts i = Returned (Some p)}"

definition dq_inv :: "'v qstate \<times> (nat \<Rightarrow> dq_pc) \<Rightarrow> bool" where
  "dq_inv s \<longleftrightarrow> (case s of (q, ts) \<Rightarrow>
     (\<exists>as. qchain q (qfront q) as \<and> set as \<inter> taken ts = {}) \<and>
     (\<forall>i p. ts i = Loaded p \<longrightarrow> p < fcount q) \<and>
     (\<forall>i p n. ts i = Armed p n \<longrightarrow> n = fnext (fcells q p)) \<and>
     (\<forall>i p n. ts i \<noteq> Checked p n) \<and>
     (\<forall>i j p. ts i = Returned (Some p) \<longrightarrow> ts j = Returned (Some p) \<longrightarrow> i = j))"

lemma taken_upd: "taken (ts(i := pc)) \<subseteq> taken ts \<union> {p. pc = Returned (Some p)}"
  by (auto simp: taken_def split: if_splits)

lemma dq_inv_step:
  assumes inv: "dq_inv (q, ts)" and st: "dq_step True q (ts i) = Inr (q', pc)"
  shows "dq_inv (q', ts(i := pc))"
proof -
  from inv obtain as where ch: "qchain q (qfront q) as" and dis: "set as \<inter> taken ts = {}"
    and ld: "\<And>i p. ts i = Loaded p \<Longrightarrow> p < fcount q" and ar: "\<And>i p n. ts i = Armed p n \<Longrightarrow> n = fnext (fcells q p)"
    and nc: "\<And>i p n. ts i \<noteq> Checked p n"
    and un: "\<And>i j p. ts i = Returned (Some p) \<Longrightarrow> ts j = Returned (Some p) \<Longrightarrow> i = j"
    by (auto simp: dq_inv_def)
  show ?thesis
  proof (cases "\<exists>p n. ts i = Armed p n \<and> qfront q = Some p")
    case True
    then obtain p n where p: "ts i = Armed p n" "qfront q = Some p" by blast
    with st have q': "q' = q\<lparr>qfront := n\<rparr>" "pc = Returned (Some p)" by auto
    from ch p obtain bs where as: "as = p # bs" by (cases as) auto
    have "qchain q n bs" using ch as p ar by auto
    then have "qchain q' (qfront q') bs" using q' by (auto intro: qchain_frame)
    moreover have "p \<notin> set bs" using qchain_distinct [OF ch] as by simp
    then have "set bs \<inter> taken (ts(i := pc)) = {}"
      using dis as taken_upd [of ts i pc] q' by auto
    moreover have "ts j \<noteq> Returned (Some p)" for j
      using dis as by (auto simp: taken_def)
    ultimately show ?thesis
      unfolding dq_inv_def prod.case using ld ar nc un q' by (auto split: if_splits)
  next
    case False
    have same: "q' = q" and pc: "\<And>p. pc = Returned (Some p) \<Longrightarrow> ts i = pc"
      "\<And>p. pc = Loaded p \<Longrightarrow> p < fcount q" "\<And>p n. pc = Armed p n \<Longrightarrow> n = fnext (fcells q p)"
      "\<And>p n. pc \<noteq> Checked p n"
      using st False nc [of i] ch by (cases "ts i"; cases as; auto split: if_splits option.splits)+
    have "taken (ts(i := pc)) \<subseteq> taken ts"
      using pc(1) by (auto simp: taken_def split: if_splits)
    with dis have "set as \<inter> taken (ts(i := pc)) = {}" by blast
    then show ?thesis
      unfolding dq_inv_def prod.case same using ch ld ar nc un pc by (auto split: if_splits)
  qed
qed

subsection \<open>Properties\<close>

text \<open>
  C7: Run by one thread, the queue is first-in first-out: the elements inserted into an empty queue
  by \<open>en_queue\<close>, any number of them, come out of \<open>out_queue\<close> in the same order, no call faults or
  runs for ever, and the queue is empty again.
\<close>

theorem queue_fifo:
  assumes "queue_holds q []"
  shows "\<exists>q1 q2. rfold put_elem q xs = Inr q1 \<and> drain take_elem (length xs) q1 = Inr (q2, map Some xs) \<and>
    queue_holds q2 []"
  by (rule lfq.in_order [OF assms])

theorem queue_fifo_witness:
  "\<exists>q1 q2. rfold put_elem (empty_queue (\<lambda>_. \<lparr>file_pos = 0, fvalue = '''', fnext = None\<rparr>)) [(1, ''a''), (2, ''b'')] = Inr q1 \<and>
    drain take_elem 2 q1 = Inr (q2, [Some (1, ''a''), Some (2, ''b'')]) \<and> queue_holds q2 []"
  using queue_fifo [OF empty_queue_holds, of "\<lambda>_. \<lparr>file_pos = 0, fvalue = '''', fnext = None\<rparr>" "[(1, ''a''), (2, ''b'')]"]
  by (simp add: numeral_2_eq_2)

definition two_nodes :: "string qstate" where
  "two_nodes = \<lparr>fcells = (\<lambda>a. if a = 0 then \<lparr>file_pos = 1, fvalue = ''a'', fnext = Some 1\<rparr>
       else \<lparr>file_pos = 2, fvalue = ''b'', fnext = None\<rparr>),
     fcount = 2, qfront = Some 0, qtail = Some 1\<rparr>"

text \<open>
  C37: The comparison and the store of \<open>CAS\<close> are two steps, so two threads in \<open>out_queue\<close> can both
  be handed the first node of a queue: both load it, both pass the comparison, both store.
\<close>

theorem cas_race_duplicates:
  "\<exists>q ts. dequeuers False two_nodes (q, ts) \<and> ts 0 = Returned (Some 0) \<and> ts 1 = Returned (Some 0)"
proof -
  have "\<exists>q ts. schedule False [0, 0, 0, 1, 1, 1, 0, 1] (two_nodes, \<lambda>_. Ready) = Inr (q, ts) \<and>
      ts 0 = Returned (Some 0) \<and> ts 1 = Returned (Some 0)"
    by (simp add: two_nodes_def)
  with schedule_reach [OF _ none_started] show ?thesis by blast
qed



text \<open>
  \<open>new_lock_free_queue\<close> allocates the size of a pointer instead of the size of the structure, so
  clearing the field \<open>tail\<close> always stores past the end of the block.
\<close>

theorem new_queue_overruns: "new_lock_free_queue q = Inl OutOfBounds"
  by (simp add: new_lock_free_queue_def store_word_def)

end
