(* ===== verification/CJson.thy ===== *)
theory CJson
  imports Prelude
begin

text \<open>
  The JSON library of \<open>cJSON.c\<close>: the items, the parser, the printer and the constructors and
  accessors, as functions on trees. An item is its own fields (\<open>jhead\<close>) and the chain of its
  children. Every function takes the state \<open>jstate\<close> through: the number of calls of
  \<open>cJSON_malloc\<close> made so far, the number of blocks it has given out and not got back, and the error
  pointer \<open>ep\<close>. Whether a call of \<open>cJSON_malloc\<close> succeeds is decided by the parameter \<open>al\<close>, from
  the number of the call and the size asked for; the arithmetic of \<open>double\<close> and the formats
  \<open>%.0f\<close>, \<open>%e\<close> and \<open>%f\<close> of \<open>sprintf\<close> are the fields of the parameter \<open>ops\<close>.

  Texts are read through pointers: the rest of the buffer from the pointer on, terminator included.
  A text that is written is checked against the size of the block it is written to.
\<close>

subsection \<open>Items and state\<close>

record 'd fops =
  f_of_int :: "int \<Rightarrow> 'd"
  f_add :: "'d \<Rightarrow> 'd \<Rightarrow> 'd"
  f_sub :: "'d \<Rightarrow> 'd \<Rightarrow> 'd"
  f_mul :: "'d \<Rightarrow> 'd \<Rightarrow> 'd"
  f_pow :: "'d \<Rightarrow> 'd \<Rightarrow> 'd"
  f_abs :: "'d \<Rightarrow> 'd"
  f_floor :: "'d \<Rightarrow> 'd"
  f_le :: "'d \<Rightarrow> 'd \<Rightarrow> bool"
  f_less :: "'d \<Rightarrow> 'd \<Rightarrow> bool"
  f_trunc :: "'d \<Rightarrow> int"
  f_epsilon :: 'd
  f_micro :: 'd
  f_giga :: 'd
  f_show0 :: "'d \<Rightarrow> string"
  f_showe :: "'d \<Rightarrow> string"
  f_showf :: "'d \<Rightarrow> string"

abbreviation cJSON_False :: int where "cJSON_False \<equiv> 0"
abbreviation cJSON_True :: int where "cJSON_True \<equiv> 1"
abbreviation cJSON_NULL :: int where "cJSON_NULL \<equiv> 2"
abbreviation cJSON_Number :: int where "cJSON_Number \<equiv> 3"
abbreviation cJSON_String :: int where "cJSON_String \<equiv> 4"
abbreviation cJSON_Array :: int where "cJSON_Array \<equiv> 5"
abbreviation cJSON_Object :: int where "cJSON_Object \<equiv> 6"
abbreviation cJSON_IsReference :: int where "cJSON_IsReference \<equiv> 256"

record 'd jhead =
  jtype :: int
  valuestring :: cptr
  valueint :: int
  valuedouble :: 'd
  jstring :: cptr

datatype 'd cjson = Item (head_of: "'d jhead") (kids: "'d cjson list")

record jstate =
  jcalls :: nat
  jlive :: int
  ep :: "char list option"

type_synonym jalloc = "nat \<Rightarrow> nat \<Rightarrow> bool"

definition upd_head :: "('d jhead \<Rightarrow> 'd jhead) \<Rightarrow> 'd cjson \<Rightarrow> 'd cjson" where
  "upd_head f it = Item (f (head_of it)) (kids it)"

definition set_kids :: "'d cjson \<Rightarrow> 'd cjson list \<Rightarrow> 'd cjson" where
  "set_kids it ks = Item (head_of it) ks"

definition jmalloc :: "jalloc \<Rightarrow> jstate \<Rightarrow> nat \<Rightarrow> jstate \<times> bool" where
  "jmalloc al st sz =
     (let ok = al (jcalls st) sz
      in (st\<lparr>jcalls := Suc (jcalls st), jlive := jlive st + (if ok then 1 else 0)\<rparr>, ok))"

definition jfree :: "jstate \<Rightarrow> jstate" where
  "jfree st = st\<lparr>jlive := jlive st - 1\<rparr>"

definition jfree_opt :: "jstate \<Rightarrow> 'a option \<Rightarrow> jstate" where
  "jfree_opt st p = (if p = None then st else jfree st)"

definition zero_item :: "'d fops \<Rightarrow> 'd cjson" where
  "zero_item ops = Item \<lparr>jtype = 0, valuestring = None, valueint = 0, valuedouble = f_of_int ops 0, jstring = None\<rparr> []"

text \<open>\<open>cJSON_New_Item\<close>: an item is 40 bytes long on the 32-bit target.\<close>

definition new_item :: "'d fops \<Rightarrow> jalloc \<Rightarrow> jstate \<Rightarrow> jstate \<times> 'd cjson option" where
  "new_item ops al st =
     (let (st1, ok) = jmalloc al st 40 in (st1, if ok then Some (zero_item ops) else None))"

text \<open>\<open>cJSON_strdup\<close> of a string that is not null.\<close>

definition json_dup :: "jalloc \<Rightarrow> jstate \<Rightarrow> string \<Rightarrow> jstate \<times> cptr" where
  "json_dup al st s = (let (st1, ok) = jmalloc al st (length s + 1) in (st1, if ok then Some s else None))"

text \<open>\<open>fill cap text\<close>: a text of these bytes written to a block of \<open>cap\<close> bytes.\<close>

definition fill :: "nat \<Rightarrow> string \<Rightarrow> string res" where
  "fill cap bytes = (if length bytes \<le> cap then Inr bytes else Inl OutOfBounds)"

definition is_reference :: "int \<Rightarrow> bool" where
  "is_reference t \<longleftrightarrow> bit t 8"

text \<open>\<open>cJSON_Delete\<close> of a chain of items: how the number of blocks in use changes.\<close>

fun json_delete :: "jstate \<Rightarrow> 'd cjson list \<Rightarrow> jstate" where
  "json_delete st [] = st"
| "json_delete st (Item h ks # cs) =
     (let st1 = (if \<not> is_reference (jtype h) \<and> ks \<noteq> [] then json_delete st ks else st);
          st2 = (if \<not> is_reference (jtype h) then jfree_opt st1 (valuestring h) else st1);
          st3 = jfree_opt st2 (jstring h)
      in json_delete (jfree st3) cs)"

subsection \<open>Reading texts\<close>

primrec skip_list :: "char list \<Rightarrow> char list res" where
  "skip_list [] = Inl OutOfBounds"
| "skip_list (c # cs) = (if c \<noteq> NUL \<and> c \<le> CHR '' '' then skip_list cs else Inr (c # cs))"

fun skip :: "char list option \<Rightarrow> char list option res" where
  "skip None = Inr None"
| "skip (Some s) = rbind (skip_list s) (\<lambda>s'. Inr (Some s'))"

text \<open>\<open>!strncmp (s, kw, n)\<close> for a keyword \<open>kw\<close> of length \<open>n\<close>.\<close>

fun starts_with :: "string \<Rightarrow> char list \<Rightarrow> bool res" where
  "starts_with [] s = Inr True"
| "starts_with (k # ks) [] = Inl OutOfBounds"
| "starts_with (k # ks) (c # cs) = (if k = c then starts_with ks cs else Inr False)"

subsection \<open>Numbers\<close>

text \<open>The digit loops: value accumulated so far (and power of ten) and rest of the text.\<close>

primrec mant_loop :: "'d fops \<Rightarrow> 'd \<Rightarrow> char list \<Rightarrow> ('d \<times> char list) res" where
  "mant_loop ops n [] = Inl OutOfBounds"
| "mant_loop ops n (c # cs) =
     (if is_digit c then mant_loop ops (f_add ops (f_mul ops n (f_of_int ops 10)) (f_of_int ops (digit_val c))) cs
      else Inr (n, c # cs))"

primrec frac_loop :: "'d fops \<Rightarrow> 'd \<Rightarrow> 'd \<Rightarrow> char list \<Rightarrow> ('d \<times> 'd \<times> char list) res" where
  "frac_loop ops n scale [] = Inl OutOfBounds"
| "frac_loop ops n scale (c # cs) =
     (if is_digit c
      then frac_loop ops (f_add ops (f_mul ops n (f_of_int ops 10)) (f_of_int ops (digit_val c)))
             (f_sub ops scale (f_of_int ops 1)) cs
      else Inr (n, scale, c # cs))"

text \<open>The exponent is an \<open>int\<close>, which wraps around.\<close>

definition wrap32 :: "int \<Rightarrow> int" where
  "wrap32 i = (i + 2 ^ 31) mod 2 ^ 32 - 2 ^ 31"

primrec exp_loop :: "int \<Rightarrow> char list \<Rightarrow> (int \<times> char list) res" where
  "exp_loop e [] = Inl OutOfBounds"
| "exp_loop e (c # cs) =
     (if is_digit c then exp_loop (wrap32 (wrap32 (e * 10) + digit_val c)) cs else Inr (e, c # cs))"

definition parse_exponent :: "char list \<Rightarrow> (int \<times> int \<times> char list) res" where
  "parse_exponent s =
     rbind (deref s) (\<lambda>c.
       if c = CHR ''e'' \<or> c = CHR ''E'' then
         rbind (deref (tl s)) (\<lambda>d.
           let (sgn, s1) = (if d = CHR ''+'' then (1, tl (tl s)) else if d = CHR ''-'' then (-1, tl (tl s)) else (1, tl s))
           in rbind (exp_loop 0 s1) (\<lambda>(e, s2). Inr (e, sgn, s2)))
       else Inr (0, 1, s))"

text \<open>
  \<open>parse_number\<close> in its four parts: the sign and one leading zero, the integer part (unless it
  starts with a zero), the fraction and the exponent; from a pointer that is not null.
\<close>

definition number_start :: "'d fops \<Rightarrow> char list \<Rightarrow> ('d \<times> char list) res" where
  "number_start ops s =
     rbind (deref s) (\<lambda>c0.
     let (sgn, s1) = (if c0 = CHR ''-'' then (f_of_int ops (-1), tl s) else (f_of_int ops 1, s)) in
     rbind (deref s1) (\<lambda>c1. Inr (sgn, if c1 = CHR ''0'' then tl s1 else s1)))"

definition int_part :: "'d fops \<Rightarrow> char list \<Rightarrow> ('d \<times> char list) res" where
  "int_part ops s =
     rbind (deref s) (\<lambda>c.
       if CHR ''1'' \<le> c \<and> c \<le> CHR ''9'' then mant_loop ops (f_of_int ops 0) s else Inr (f_of_int ops 0, s))"

definition frac_part :: "'d fops \<Rightarrow> 'd \<Rightarrow> char list \<Rightarrow> ('d \<times> 'd \<times> char list) res" where
  "frac_part ops n s =
     rbind (deref s) (\<lambda>c.
       if c = CHR ''.'' then
         rbind (deref (tl s)) (\<lambda>d.
           if is_digit d then frac_loop ops n (f_of_int ops 0) (tl s) else Inr (n, f_of_int ops 0, s))
       else Inr (n, f_of_int ops 0, s))"

definition parse_number :: "'d fops \<Rightarrow> 'd cjson \<Rightarrow> char list \<Rightarrow> ('d cjson \<times> char list) res" where
  "parse_number ops item num =
     rbind (number_start ops num) (\<lambda>(sgn, s1).
     rbind (int_part ops s1) (\<lambda>(n, s2).
     rbind (frac_part ops n s2) (\<lambda>(n', scale, s3).
     rbind (parse_exponent s3) (\<lambda>(subscale, signsubscale, s4).
     let v = f_mul ops (f_mul ops sgn n')
               (f_pow ops (f_of_int ops 10) (f_add ops scale (f_of_int ops (wrap32 (subscale * signsubscale)))))
     in Inr (upd_head (\<lambda>h. h\<lparr>valuedouble := v, valueint := f_trunc ops v, jtype := cJSON_Number\<rparr>) item, s4)))))"

text \<open>\<open>print_number\<close>: \<open>NULL\<close> when the block is refused.\<close>

definition print_number :: "'d fops \<Rightarrow> jalloc \<Rightarrow> jstate \<Rightarrow> 'd jhead \<Rightarrow> (jstate \<times> cptr) res" where
  "print_number ops al st h =
     (let d = valuedouble h; i = valueint h
      in if f_le ops (f_abs ops (f_sub ops (f_of_int ops i) d)) (f_epsilon ops) \<and>
            f_le ops d (f_of_int ops (2 ^ 31 - 1)) \<and> f_le ops (f_of_int ops (- (2 ^ 31))) d then
           (let (st1, ok) = jmalloc al st 21
            in if ok then rbind (fill 21 (cstr (show_int i))) (\<lambda>_. Inr (st1, Some (show_int i))) else Inr (st1, None))
         else
           (let (st1, ok) = jmalloc al st 64;
                txt = (if f_le ops (f_abs ops (f_sub ops (f_floor ops d) d)) (f_epsilon ops) then f_show0 ops d
                       else if f_less ops (f_abs ops d) (f_micro ops) \<or> f_less ops (f_giga ops) (f_abs ops d)
                       then f_showe ops d else f_showf ops d)
            in if ok then rbind (fill 64 (cstr txt)) (\<lambda>_. Inr (st1, Some txt)) else Inr (st1, None)))"

subsection \<open>Strings\<close>

text \<open>The first pass of \<open>parse_string\<close>: how many bytes the unescaped string may need.\<close>

fun str_len :: "nat \<Rightarrow> char list \<Rightarrow> nat res" where
  "str_len n [] = Inl OutOfBounds"
| "str_len n (c # cs) =
     (if c = CHR 0x22 \<or> c = NUL then Inr n
      else if c = CHR 0x5C then str_len (Suc n) (tl cs) else str_len (Suc n) cs)"

definition is_hex :: "char \<Rightarrow> bool" where
  "is_hex c \<longleftrightarrow> is_digit c \<or> (CHR ''a'' \<le> c \<and> c \<le> CHR ''f'') \<or> (CHR ''A'' \<le> c \<and> c \<le> CHR ''F'')"

definition hex_val :: "char \<Rightarrow> nat" where
  "hex_val c = (if is_digit c then of_char c - 48 else if CHR ''a'' \<le> c then of_char c - 87 else of_char c - 55)"

definition hex_num :: "string \<Rightarrow> nat" where
  "hex_num = foldl (\<lambda>n c. n * 16 + hex_val c) 0"

text \<open>
  \<open>sscanf (s, "%4x", &uc)\<close>: white space, then at most four characters: a sign, a prefix \<open>0x\<close>,
  hexadecimal digits. Without a digit nothing is stored (\<open>None\<close>).
\<close>

definition scan_hex4 :: "char list \<Rightarrow> nat option" where
  "scan_hex4 s =
     (let s0 = dropWhile is_space s;
          (neg, s1, w1) = (case s0 of c # cs \<Rightarrow>
               if c = CHR ''-'' then (True, cs, 3) else if c = CHR ''+'' then (False, cs, 3) else (False, s0, 4)
             | [] \<Rightarrow> (False, s0, 4 :: nat));
          (s2, w2) = (case s1 of c # d # ds \<Rightarrow>
               if c = CHR ''0'' \<and> (d = CHR ''x'' \<or> d = CHR ''X'') then (ds, w1 - 2) else (s1, w1)
             | _ \<Rightarrow> (s1, w1));
          ds = takeWhile is_hex (take w2 s2)
      in if ds = [] then None
         else Some (if neg then (2 ^ 32 - hex_num ds) mod 2 ^ 32 else hex_num ds))"

text \<open>
  The bytes that the fall-through \<open>switch (len)\<close> stores for a code point, and \<open>uc\<close> after its
  shifts.
\<close>

definition utf8_len :: "nat \<Rightarrow> nat" where
  "utf8_len uc = (if uc < 0x80 then 1 else if uc < 0x800 then 2 else if uc < 0x10000 then 3 else 4)"

definition first_byte_mark :: "nat \<Rightarrow> nat" where
  "first_byte_mark len = [0x00, 0x00, 0xC0, 0xE0, 0xF0, 0xF8, 0xFC] ! len"

primrec utf8_tail :: "nat \<Rightarrow> nat \<Rightarrow> nat \<times> char list" where
  "utf8_tail 0 uc = (uc, [])"
| "utf8_tail (Suc k) uc =
     (let (uc', bs) = utf8_tail k (drop_bit 6 uc) in (uc', bs @ [char_of ((uc OR 0x80) AND 0xBF)]))"

definition utf8_encode :: "nat \<Rightarrow> nat \<times> char list" where
  "utf8_encode uc =
     (let len = utf8_len uc; (uc', bs) = utf8_tail (len - 1) uc
      in (uc', char_of (uc' OR first_byte_mark len) # bs))"

text \<open>
  One escape, from the character after the backslash on (\<open>p\<close>): the bytes stored, the pointer
  before the final \<open>ptr++\<close>, and the variables \<open>uc\<close> and \<open>uc2\<close>, which \<open>sscanf\<close> may leave
  as they were (\<open>None\<close>: never assigned).
\<close>

fun the_var :: "nat option \<Rightarrow> nat res" where
  "the_var None = Inl UninitRead"
| "the_var (Some n) = Inr n"

definition scan_into :: "nat option \<Rightarrow> char list \<Rightarrow> nat option" where
  "scan_into old s = (case scan_hex4 s of None \<Rightarrow> old | Some n \<Rightarrow> Some n)"

definition low_surrogate :: "nat \<Rightarrow> bool" where
  "low_surrogate uc \<longleftrightarrow> 0xDC00 \<le> uc \<and> uc \<le> 0xDFFF"

definition high_surrogate :: "nat \<Rightarrow> bool" where
  "high_surrogate uc \<longleftrightarrow> 0xD800 \<le> uc \<and> uc \<le> 0xDBFF"

definition unescape_u :: "nat option \<Rightarrow> nat option \<Rightarrow> char list \<Rightarrow>
    (string \<times> char list \<times> nat option \<times> nat option) res" where
  "unescape_u uc0 uc20 p =
     (let ucv = scan_into uc0 (tl p); q = drop 4 p in
      rbind (the_var ucv) (\<lambda>uc.
        if low_surrogate uc \<or> uc = 0 then Inr ([], q, Some uc, uc20)
        else if high_surrogate uc then
          rbind (deref (drop 1 q)) (\<lambda>c1.
          rbind (if c1 \<noteq> CHR 0x5C then Inr True else rbind (deref (drop 2 q)) (\<lambda>c2. Inr (c2 \<noteq> CHR ''u''))) (\<lambda>missing.
            if missing then Inr ([], q, Some uc, uc20)
            else let uc2v = scan_into uc20 (drop 3 q); r = drop 6 q in
              rbind (the_var uc2v) (\<lambda>uc2.
                if \<not> low_surrogate uc2 then Inr ([], r, Some uc, Some uc2)
                else let cp = 0x10000 OR (push_bit 10 (uc AND 0x3FF)) OR (uc2 AND 0x3FF);
                         (uc', bs) = utf8_encode cp
                     in Inr (bs, r, Some uc', Some uc2))))
        else let (uc', bs) = utf8_encode uc in Inr (bs, q, Some uc', uc20)))"

definition unescape_one :: "nat option \<Rightarrow> nat option \<Rightarrow> char list \<Rightarrow>
    (string \<times> char list \<times> nat option \<times> nat option) res" where
  "unescape_one uc uc2 p =
     rbind (deref p) (\<lambda>c.
       if c = CHR ''b'' then Inr ([CHR 0x08], p, uc, uc2)
       else if c = CHR ''f'' then Inr ([CHR 0x0C], p, uc, uc2)
       else if c = CHR ''n'' then Inr ([CHR 0x0A], p, uc, uc2)
       else if c = CHR ''r'' then Inr ([CHR 0x0D], p, uc, uc2)
       else if c = CHR ''t'' then Inr ([CHR 0x09], p, uc, uc2)
       else if c = CHR ''u'' then unescape_u uc uc2 p
       else Inr ([c], p, uc, uc2))"

text \<open>The second pass: the bytes stored and the pointer at the end; \<open>n\<close> bounds the rounds.\<close>

fun unescape :: "nat \<Rightarrow> nat option \<Rightarrow> nat option \<Rightarrow> char list \<Rightarrow> (string \<times> char list) res" where
  "unescape 0 uc uc2 p = Inl OutOfFuel"
| "unescape (Suc n) uc uc2 p =
     rbind (deref p) (\<lambda>c.
       if c = CHR 0x22 \<or> c = NUL then Inr ([], p)
       else if c \<noteq> CHR 0x5C then rbind (unescape n uc uc2 (tl p)) (\<lambda>(out, r). Inr (c # out, r))
       else rbind (unescape_one uc uc2 (tl p)) (\<lambda>(bs, q, uc', uc2').
              rbind (unescape n uc' uc2' (tl q)) (\<lambda>(out, r). Inr (bs @ out, r))))"

definition to_nul :: "char list \<Rightarrow> string" where
  "to_nul bytes = takeWhile (\<lambda>c. c \<noteq> NUL) bytes"

definition parse_string :: "jalloc \<Rightarrow> jstate \<Rightarrow> 'd cjson \<Rightarrow> char list \<Rightarrow>
    (jstate \<times> 'd cjson \<times> char list option) res" where
  "parse_string al st item str =
     rbind (deref str) (\<lambda>c0.
       if c0 \<noteq> CHR 0x22 then Inr (st\<lparr>ep := Some str\<rparr>, item, None)
       else rbind (str_len 0 (tl str)) (\<lambda>len.
         let (st1, ok) = jmalloc al st (len + 1)
         in if \<not> ok then Inr (st1, item, None)
            else rbind (unescape (length str) None None (tl str)) (\<lambda>(out, p).
                 rbind (fill (len + 1) (cstr out)) (\<lambda>_.
                 rbind (deref p) (\<lambda>c.
                   Inr (st1, upd_head (\<lambda>h. h\<lparr>valuestring := Some (to_nul out), jtype := cJSON_String\<rparr>) item,
                        Some (if c = CHR 0x22 then tl p else p)))))))"

text \<open>\<open>print_string_ptr\<close>: the size computed by its first loop and the text written by its second.\<close>

definition escaped_special :: "char \<Rightarrow> bool" where
  "escaped_special c \<longleftrightarrow> c \<in> set [CHR 0x22, CHR 0x5C, CHR 0x08, CHR 0x0C, CHR 0x0A, CHR 0x0D, CHR 0x09]"

primrec print_len :: "string \<Rightarrow> nat" where
  "print_len [] = 0"
| "print_len (c # cs) = (1 + (if escaped_special c then 1 else if c < CHR '' '' then 5 else 0)) + print_len cs"

definition hex_digit :: "nat \<Rightarrow> char" where
  "hex_digit d = char_of (if d < 10 then 48 + d else 87 + d)"

definition escape_char :: "char \<Rightarrow> string" where
  "escape_char c =
     (if c > CHR 0x1F \<and> c \<noteq> CHR 0x22 \<and> c \<noteq> CHR 0x5C then [c]
      else CHR 0x5C #
        (if c = CHR 0x5C then [CHR 0x5C] else if c = CHR 0x22 then [CHR 0x22]
         else if c = CHR 0x08 then ''b'' else if c = CHR 0x0C then ''f'' else if c = CHR 0x0A then ''n''
         else if c = CHR 0x0D then ''r'' else if c = CHR 0x09 then ''t''
         else [CHR ''u'', CHR ''0'', CHR ''0'', hex_digit (of_char c div 16), hex_digit (of_char c mod 16)]))"

definition quoted :: "string \<Rightarrow> string" where
  "quoted s = CHR 0x22 # concat (map escape_char s) @ [CHR 0x22]"

definition print_string_ptr :: "jalloc \<Rightarrow> jstate \<Rightarrow> cptr \<Rightarrow> (jstate \<times> cptr) res" where
  "print_string_ptr al st str =
     (case str of
        None \<Rightarrow> Inr (json_dup al st '''')
      | Some s \<Rightarrow>
          let (st1, ok) = jmalloc al st (print_len s + 3)
          in if ok then rbind (fill (print_len s + 3) (cstr (quoted s))) (\<lambda>_. Inr (st1, Some (quoted s)))
             else Inr (st1, None))"

subsection \<open>The parser\<close>

type_synonym 'd jparser = "jstate \<Rightarrow> 'd cjson \<Rightarrow> char list option \<Rightarrow> (jstate \<times> 'd cjson \<times> char list option) res"

text \<open>
  The loop of \<open>parse_array\<close> over the items after the first (\<open>ks\<close> are the children so far), and
  \<open>parse_array\<close>; \<open>pv\<close> is \<open>parse_value\<close>.
\<close>

fun array_loop :: "'d fops \<Rightarrow> jalloc \<Rightarrow> 'd jparser \<Rightarrow> nat \<Rightarrow> jstate \<Rightarrow> 'd cjson list \<Rightarrow> char list \<Rightarrow>
    (jstate \<times> 'd cjson list \<times> char list option) res" where
  "array_loop ops al pv 0 st ks v = Inl OutOfFuel"
| "array_loop ops al pv (Suc n) st ks v =
     rbind (deref v) (\<lambda>c.
       if c = CHR '','' then
         (case new_item ops al st of
            (st1, None) \<Rightarrow> Inr (st1, ks, None)
          | (st1, Some new) \<Rightarrow>
              rbind (skip (Some (tl v))) (\<lambda>v1.
              rbind (pv st1 new v1) (\<lambda>(st2, child, v2).
              rbind (skip v2) (\<lambda>v3.
                case v3 of None \<Rightarrow> Inr (st2, ks @ [child], None)
                | Some v4 \<Rightarrow> array_loop ops al pv n st2 (ks @ [child]) v4))))
       else if c = CHR '']'' then Inr (st, ks, Some (tl v))
       else Inr (st\<lparr>ep := Some v\<rparr>, ks, None))"

definition parse_array :: "'d fops \<Rightarrow> jalloc \<Rightarrow> 'd jparser \<Rightarrow> jstate \<Rightarrow> 'd cjson \<Rightarrow> char list \<Rightarrow>
    (jstate \<times> 'd cjson \<times> char list option) res" where
  "parse_array ops al pv st item v =
     rbind (deref v) (\<lambda>c0.
       if c0 \<noteq> CHR ''['' then Inr (st\<lparr>ep := Some v\<rparr>, item, None)
       else let it1 = upd_head (\<lambda>h. h\<lparr>jtype := cJSON_Array\<rparr>) item in
         rbind (skip_list (tl v)) (\<lambda>v1.
         rbind (deref v1) (\<lambda>c1.
           if c1 = CHR '']'' then Inr (st, it1, Some (tl v1))
           else case new_item ops al st of
             (st1, None) \<Rightarrow> Inr (st1, set_kids it1 [], None)
           | (st1, Some new) \<Rightarrow>
               rbind (skip (Some v1)) (\<lambda>v2.
               rbind (pv st1 new v2) (\<lambda>(st2, child, v3).
               rbind (skip v3) (\<lambda>v4.
                 case v4 of None \<Rightarrow> Inr (st2, set_kids it1 [child], None)
                 | Some v5 \<Rightarrow>
                     rbind (array_loop ops al pv (length v) st2 [child] v5) (\<lambda>(st3, ks, v6).
                       Inr (st3, set_kids it1 ks, v6))))))))"

text \<open>One member of an object: name, colon, value. \<open>NULL\<close> when any of them is missing.\<close>

definition parse_member :: "'d fops \<Rightarrow> jalloc \<Rightarrow> 'd jparser \<Rightarrow> jstate \<Rightarrow> 'd cjson \<Rightarrow> char list \<Rightarrow>
    (jstate \<times> 'd cjson \<times> char list option) res" where
  "parse_member ops al pv st new v =
     rbind (skip_list v) (\<lambda>v1.
     rbind (parse_string al st new v1) (\<lambda>(st1, child, v2).
     rbind (skip v2) (\<lambda>v3.
       case v3 of None \<Rightarrow> Inr (st1, child, None)
       | Some v4 \<Rightarrow>
           let child1 = upd_head (\<lambda>h. h\<lparr>jstring := valuestring h, valuestring := None\<rparr>) child in
           rbind (deref v4) (\<lambda>c.
             if c \<noteq> CHR '':'' then Inr (st1\<lparr>ep := Some v4\<rparr>, child1, None)
             else rbind (skip (Some (tl v4))) (\<lambda>v5.
                  rbind (pv st1 child1 v5) (\<lambda>(st2, child2, v6).
                  rbind (skip v6) (\<lambda>v7. Inr (st2, child2, v7))))))))"

fun object_loop :: "'d fops \<Rightarrow> jalloc \<Rightarrow> 'd jparser \<Rightarrow> nat \<Rightarrow> jstate \<Rightarrow> 'd cjson list \<Rightarrow> char list \<Rightarrow>
    (jstate \<times> 'd cjson list \<times> char list option) res" where
  "object_loop ops al pv 0 st ks v = Inl OutOfFuel"
| "object_loop ops al pv (Suc n) st ks v =
     rbind (deref v) (\<lambda>c.
       if c = CHR '','' then
         (case new_item ops al st of
            (st1, None) \<Rightarrow> Inr (st1, ks, None)
          | (st1, Some new) \<Rightarrow>
              rbind (parse_member ops al pv st1 new (tl v)) (\<lambda>(st2, child, v1).
                case v1 of None \<Rightarrow> Inr (st2, ks @ [child], None)
                | Some v2 \<Rightarrow> object_loop ops al pv n st2 (ks @ [child]) v2))
       else if c = CHR ''}'' then Inr (st, ks, Some (tl v))
       else Inr (st\<lparr>ep := Some v\<rparr>, ks, None))"

definition parse_object :: "'d fops \<Rightarrow> jalloc \<Rightarrow> 'd jparser \<Rightarrow> jstate \<Rightarrow> 'd cjson \<Rightarrow> char list \<Rightarrow>
    (jstate \<times> 'd cjson \<times> char list option) res" where
  "parse_object ops al pv st item v =
     rbind (deref v) (\<lambda>c0.
       if c0 \<noteq> CHR ''{'' then Inr (st\<lparr>ep := Some v\<rparr>, item, None)
       else let it1 = upd_head (\<lambda>h. h\<lparr>jtype := cJSON_Object\<rparr>) item in
         rbind (skip_list (tl v)) (\<lambda>v1.
         rbind (deref v1) (\<lambda>c1.
           if c1 = CHR ''}'' then Inr (st, it1, Some (tl v1))
           else case new_item ops al st of
             (st1, None) \<Rightarrow> Inr (st1, set_kids it1 [], None)
           | (st1, Some new) \<Rightarrow>
               rbind (parse_member ops al pv st1 new v1) (\<lambda>(st2, child, v2).
                 case v2 of None \<Rightarrow> Inr (st2, set_kids it1 [child], None)
                 | Some v3 \<Rightarrow>
                     rbind (object_loop ops al pv (length v) st2 [child] v3) (\<lambda>(st3, ks, v4).
                       Inr (st3, set_kids it1 ks, v4))))))"

text \<open>
  The three literals with which \<open>parse_value\<close> starts, then \<open>parse_value\<close>; \<open>f\<close> bounds the depth
  of the recursion.
\<close>

definition parse_literal :: "'d cjson \<Rightarrow> char list \<Rightarrow> ('d cjson \<times> char list) option res" where
  "parse_literal item s =
     rbind (starts_with ''null'' s) (\<lambda>b1.
     if b1 then Inr (Some (upd_head (\<lambda>h. h\<lparr>jtype := cJSON_NULL\<rparr>) item, drop 4 s)) else
     rbind (starts_with ''false'' s) (\<lambda>b2.
     if b2 then Inr (Some (upd_head (\<lambda>h. h\<lparr>jtype := cJSON_False\<rparr>) item, drop 5 s)) else
     rbind (starts_with ''true'' s) (\<lambda>b3.
     if b3 then Inr (Some (upd_head (\<lambda>h. h\<lparr>jtype := cJSON_True, valueint := 1\<rparr>) item, drop 4 s)) else Inr None)))"

primrec parse_value :: "'d fops \<Rightarrow> jalloc \<Rightarrow> nat \<Rightarrow> 'd jparser" where
  "parse_value ops al 0 = (\<lambda>st item v. Inl OutOfFuel)"
| "parse_value ops al (Suc f) = (\<lambda>st item v.
     case v of
       None \<Rightarrow> Inr (st, item, None)
     | Some s \<Rightarrow>
         rbind (parse_literal item s) (\<lambda>lit.
           case lit of
             Some (it1, r) \<Rightarrow> Inr (st, it1, Some r)
           | None \<Rightarrow>
               rbind (deref s) (\<lambda>c.
               if c = CHR 0x22 then parse_string al st item s
               else if c = CHR ''-'' \<or> is_digit c then
                 rbind (parse_number ops item s) (\<lambda>(it1, r). Inr (st, it1, Some r))
               else if c = CHR ''['' then parse_array ops al (parse_value ops al f) st item s
               else if c = CHR ''{'' then parse_object ops al (parse_value ops al f) st item s
               else Inr (st\<lparr>ep := Some s\<rparr>, item, None))))"

definition cJSON_Parse :: "'d fops \<Rightarrow> jalloc \<Rightarrow> nat \<Rightarrow> jstate \<Rightarrow> char list \<Rightarrow> (jstate \<times> 'd cjson option) res" where
  "cJSON_Parse ops al f st v =
     (case new_item ops al st of
        (st1, None) \<Rightarrow> Inr (st1\<lparr>ep := None\<rparr>, None)
      | (st1, Some c) \<Rightarrow>
          rbind (skip (Some v)) (\<lambda>v1.
          rbind (parse_value ops al f (st1\<lparr>ep := None\<rparr>) c v1) (\<lambda>(st2, it, r).
            if r = None then Inr (json_delete st2 [it], None) else Inr (st2, Some it))))"

subsection \<open>The printer\<close>

type_synonym 'd jprinter = "jstate \<Rightarrow> nat \<Rightarrow> 'd cjson \<Rightarrow> (jstate \<times> cptr) res"

definition jfree_all :: "jstate \<Rightarrow> cptr list \<Rightarrow> jstate" where
  "jfree_all st ps = foldl jfree_opt st ps"

text \<open>
  The loop of \<open>print_array\<close> over the children: the entries, the size of the output and \<open>fail\<close>;
  it stops at the first child that cannot be printed. \<open>pv\<close> is \<open>print_value\<close>.
\<close>

fun array_entries :: "'d jprinter \<Rightarrow> bool \<Rightarrow> nat \<Rightarrow> jstate \<Rightarrow> nat \<Rightarrow> 'd cjson list \<Rightarrow>
    (jstate \<times> cptr list \<times> nat \<times> bool) res" where
  "array_entries pv fmt depth st len [] = Inr (st, [], len, False)"
| "array_entries pv fmt depth st len (c # cs) =
     rbind (pv st (depth + 1) c) (\<lambda>(st1, ret).
       case ret of
         None \<Rightarrow> Inr (st1, [None], len, True)
       | Some r \<Rightarrow>
           rbind (array_entries pv fmt depth st1 (len + length r + 2 + (if fmt then 1 else 0)) cs)
             (\<lambda>(st2, es, len', failed). Inr (st2, Some r # es, len', failed)))"

fun join_entries :: "bool \<Rightarrow> string list \<Rightarrow> string" where
  "join_entries fmt [] = []"
| "join_entries fmt [e] = e"
| "join_entries fmt (e # es) = e @ CHR '','' # (if fmt then '' '' else []) @ join_entries fmt es"

definition print_array :: "jalloc \<Rightarrow> 'd jprinter \<Rightarrow> bool \<Rightarrow> jstate \<Rightarrow> nat \<Rightarrow> 'd cjson list \<Rightarrow> (jstate \<times> cptr) res" where
  "print_array al pv fmt st depth cs =
     (let (st1, ok) = jmalloc al st (length cs * 4)
      in if \<not> ok then Inr (st1, None)
         else rbind (array_entries pv fmt depth st1 5 cs) (\<lambda>(st2, es, len, failed).
           let (st3, ok3) = (if failed then (st2, False) else jmalloc al st2 len)
           in if \<not> ok3 then Inr (jfree (jfree_all st3 es), None)
              else let txt = CHR ''['' # join_entries fmt (map the es) @ '']''
                   in rbind (fill len (cstr txt)) (\<lambda>_. Inr (jfree (jfree_all st3 es), Some txt))))"

text \<open>The loop of \<open>print_object\<close>: names and entries; it goes on after a failure.\<close>

fun object_entries :: "jalloc \<Rightarrow> 'd jprinter \<Rightarrow> bool \<Rightarrow> nat \<Rightarrow> jstate \<Rightarrow> nat \<Rightarrow> bool \<Rightarrow> 'd cjson list \<Rightarrow>
    (jstate \<times> (cptr \<times> cptr) list \<times> nat \<times> bool) res" where
  "object_entries al pv fmt depth st len failed [] = Inr (st, [], len, failed)"
| "object_entries al pv fmt depth st len failed (c # cs) =
     rbind (print_string_ptr al st (jstring (head_of c))) (\<lambda>(st1, str).
     rbind (pv st1 depth c) (\<lambda>(st2, ret).
       let (len', failed') = (case (str, ret) of
             (Some n, Some r) \<Rightarrow> (len + length r + length n + 2 + (if fmt then 2 + depth else 0), failed)
           | _ \<Rightarrow> (len, True))
       in rbind (object_entries al pv fmt depth st2 len' failed' cs) (\<lambda>(st3, es, len'', failed'').
            Inr (st3, (str, ret) # es, len'', failed''))))"

fun join_members :: "bool \<Rightarrow> nat \<Rightarrow> (string \<times> string) list \<Rightarrow> string" where
  "join_members fmt depth [] = []"
| "join_members fmt depth ((n, e) # es) =
     (if fmt then replicate depth (CHR 0x09) else []) @ n @ CHR '':'' # (if fmt then [CHR 0x09] else []) @ e @
     (if es \<noteq> [] then '','' else []) @ (if fmt then [CHR 0x0A] else []) @ join_members fmt depth es"

definition print_object :: "jalloc \<Rightarrow> 'd jprinter \<Rightarrow> bool \<Rightarrow> jstate \<Rightarrow> nat \<Rightarrow> 'd cjson list \<Rightarrow> (jstate \<times> cptr) res" where
  "print_object al pv fmt st depth0 cs =
     (let (st1, ok1) = jmalloc al st (length cs * 4)
      in if \<not> ok1 then Inr (st1, None)
         else let (st2, ok2) = jmalloc al st1 (length cs * 4)
         in if \<not> ok2 then Inr (jfree st2, None)
            else let depth = depth0 + 1 in
              rbind (object_entries al pv fmt depth st2 (7 + (if fmt then depth else 0)) False cs)
                (\<lambda>(st3, es, len, failed).
                  let (st4, ok4) = (if failed then (st3, False) else jmalloc al st3 len);
                      st5 = jfree (jfree (foldl (\<lambda>s (n, e). jfree_opt (jfree_opt s n) e) st4 es))
                  in if \<not> ok4 then Inr (st5, None)
                     else let txt = CHR ''{'' # (if fmt then [CHR 0x0A] else []) @
                                join_members fmt depth (map (\<lambda>(n, e). (the n, the e)) es) @
                                (if fmt then replicate (depth - 1) (CHR 0x09) else []) @ ''}''
                          in rbind (fill len (cstr txt)) (\<lambda>_. Inr (st5, Some txt))))"

text \<open>\<open>print_value\<close>; \<open>f\<close> bounds the depth of the recursion.\<close>

primrec print_value :: "'d fops \<Rightarrow> jalloc \<Rightarrow> bool \<Rightarrow> nat \<Rightarrow> 'd jprinter" where
  "print_value ops al fmt 0 = (\<lambda>st depth item. Inl OutOfFuel)"
| "print_value ops al fmt (Suc f) = (\<lambda>st depth item.
     let h = head_of item; t = take_bit 8 (jtype h) in
     if t = cJSON_NULL then Inr (json_dup al st ''null'')
     else if t = cJSON_False then Inr (json_dup al st ''false'')
     else if t = cJSON_True then Inr (json_dup al st ''true'')
     else if t = cJSON_Number then print_number ops al st h
     else if t = cJSON_String then print_string_ptr al st (valuestring h)
     else if t = cJSON_Array then print_array al (print_value ops al fmt f) fmt st depth (kids item)
     else if t = cJSON_Object then print_object al (print_value ops al fmt f) fmt st depth (kids item)
     else Inr (st, None))"

definition cJSON_Print :: "'d fops \<Rightarrow> jalloc \<Rightarrow> nat \<Rightarrow> jstate \<Rightarrow> 'd cjson option \<Rightarrow> (jstate \<times> cptr) res" where
  "cJSON_Print ops al f st item =
     (case item of None \<Rightarrow> Inr (st, None) | Some it \<Rightarrow> print_value ops al True f st 0 it)"

definition cJSON_PrintUnformatted :: "'d fops \<Rightarrow> jalloc \<Rightarrow> nat \<Rightarrow> jstate \<Rightarrow> 'd cjson option \<Rightarrow> (jstate \<times> cptr) res" where
  "cJSON_PrintUnformatted ops al f st item =
     (case item of None \<Rightarrow> Inr (st, None) | Some it \<Rightarrow> print_value ops al False f st 0 it)"

subsection \<open>Constructors and accessors\<close>

definition create_of_type :: "'d fops \<Rightarrow> jalloc \<Rightarrow> jstate \<Rightarrow> int \<Rightarrow> jstate \<times> 'd cjson option" where
  "create_of_type ops al st t =
     (let (st1, c) = new_item ops al st in (st1, map_option (upd_head (\<lambda>h. h\<lparr>jtype := t\<rparr>)) c))"

definition cJSON_CreateBool :: "'d fops \<Rightarrow> jalloc \<Rightarrow> jstate \<Rightarrow> int \<Rightarrow> jstate \<times> 'd cjson option" where
  "cJSON_CreateBool ops al st b = create_of_type ops al st (if b \<noteq> 0 then cJSON_True else cJSON_False)"

definition cJSON_CreateNumber :: "'d fops \<Rightarrow> jalloc \<Rightarrow> jstate \<Rightarrow> 'd \<Rightarrow> jstate \<times> 'd cjson option" where
  "cJSON_CreateNumber ops al st num =
     (let (st1, c) = new_item ops al st
      in (st1, map_option (upd_head (\<lambda>h. h\<lparr>jtype := cJSON_Number, valuedouble := num, valueint := f_trunc ops num\<rparr>)) c))"

text \<open>The string is dereferenced by \<open>cJSON_strdup\<close> only when the item was allocated.\<close>

definition cJSON_CreateString :: "'d fops \<Rightarrow> jalloc \<Rightarrow> jstate \<Rightarrow> cptr \<Rightarrow> (jstate \<times> 'd cjson option) res" where
  "cJSON_CreateString ops al st s =
     (case new_item ops al st of
        (st1, None) \<Rightarrow> Inr (st1, None)
      | (st1, Some c) \<Rightarrow> rbind (the_str s) (\<lambda>str.
          let (st2, d) = json_dup al st1 str
          in Inr (st2, Some (upd_head (\<lambda>h. h\<lparr>jtype := cJSON_String, valuestring := d\<rparr>) c))))"

definition cJSON_CreateArray :: "'d fops \<Rightarrow> jalloc \<Rightarrow> jstate \<Rightarrow> jstate \<times> 'd cjson option" where
  "cJSON_CreateArray ops al st = create_of_type ops al st cJSON_Array"

text \<open>The comparison of names: \<open>tolower\<close> in the C locale; a null name equals only a null name.\<close>

definition to_lower :: "char \<Rightarrow> char" where
  "to_lower c = (if CHR ''A'' \<le> c \<and> c \<le> CHR ''Z'' then char_of (of_char c + (32 :: nat)) else c)"

fun strcasecmp_loop :: "string \<Rightarrow> string \<Rightarrow> int" where
  "strcasecmp_loop [] [] = 0"
| "strcasecmp_loop [] (d # ds) = - of_char (to_lower d)"
| "strcasecmp_loop (c # cs) [] = of_char (to_lower c)"
| "strcasecmp_loop (c # cs) (d # ds) =
     (if to_lower c = to_lower d then strcasecmp_loop cs ds else of_char (to_lower c) - of_char (to_lower d))"

fun cJSON_strcasecmp :: "cptr \<Rightarrow> cptr \<Rightarrow> int" where
  "cJSON_strcasecmp None s2 = (if s2 = None then 0 else 1)"
| "cJSON_strcasecmp (Some s1) None = 1"
| "cJSON_strcasecmp (Some s1) (Some s2) = strcasecmp_loop s1 s2"

definition cJSON_GetArraySize :: "'d cjson \<Rightarrow> nat" where
  "cJSON_GetArraySize array = length (kids array)"

primrec nth_kid :: "'d cjson list \<Rightarrow> int \<Rightarrow> 'd cjson option" where
  "nth_kid [] item = None"
| "nth_kid (c # cs) item = (if item > 0 then nth_kid cs (item - 1) else Some c)"

definition cJSON_GetArrayItem :: "'d cjson \<Rightarrow> int \<Rightarrow> 'd cjson option" where
  "cJSON_GetArrayItem array item = nth_kid (kids array) item"

primrec find_kid :: "'d cjson list \<Rightarrow> cptr \<Rightarrow> 'd cjson option" where
  "find_kid [] name = None"
| "find_kid (c # cs) name = (if cJSON_strcasecmp (jstring (head_of c)) name \<noteq> 0 then find_kid cs name else Some c)"

definition cJSON_GetObjectItem :: "'d cjson \<Rightarrow> cptr \<Rightarrow> 'd cjson option" where
  "cJSON_GetObjectItem object name = find_kid (kids object) name"

fun cJSON_AddItemToArray :: "'d cjson \<Rightarrow> 'd cjson option \<Rightarrow> 'd cjson" where
  "cJSON_AddItemToArray array None = array"
| "cJSON_AddItemToArray array (Some item) = set_kids array (kids array @ [item])"

fun cJSON_AddItemToObject :: "jalloc \<Rightarrow> jstate \<Rightarrow> 'd cjson \<Rightarrow> string \<Rightarrow> 'd cjson option \<Rightarrow> jstate \<times> 'd cjson" where
  "cJSON_AddItemToObject al st object name None = (st, object)"
| "cJSON_AddItemToObject al st object name (Some item) =
     (let st1 = jfree_opt st (jstring (head_of item));
          (st2, d) = json_dup al st1 name
      in (st2, cJSON_AddItemToArray object (Some (upd_head (\<lambda>h. h\<lparr>jstring := d\<rparr>) item))))"

text \<open>
  The loop shared by \<open>cJSON_CreateIntArray\<close>, \<open>cJSON_CreateFloatArray\<close> and
  \<open>cJSON_CreateDoubleArray\<close>: \<open>ks\<close> are the children linked so far; linking the second item and
  later ones goes through the previous pointer and the new one, without a check.
\<close>

primrec create_loop :: "(jstate \<Rightarrow> 'a \<Rightarrow> (jstate \<times> 'd cjson option) res) \<Rightarrow> jstate \<Rightarrow> bool \<Rightarrow> 'd cjson option list \<Rightarrow>
    'a list \<Rightarrow> (jstate \<times> 'd cjson option list) res" where
  "create_loop mk st first ks [] = Inr (st, ks)"
| "create_loop mk st first ks (x # xs) =
     rbind (mk st x) (\<lambda>(st1, n).
       if first then create_loop mk st1 False [n] xs
       else if n = None \<or> (ks \<noteq> [] \<and> last ks = None) then Inl NullDeref
       else create_loop mk st1 False (ks @ [n]) xs)"

definition create_array_of :: "'d fops \<Rightarrow> jalloc \<Rightarrow> (jstate \<Rightarrow> 'a \<Rightarrow> (jstate \<times> 'd cjson option) res) \<Rightarrow> jstate \<Rightarrow> 'a list \<Rightarrow>
    (jstate \<times> 'd cjson option) res" where
  "create_array_of ops al mk st xs =
     (case cJSON_CreateArray ops al st of
        (st1, None) \<Rightarrow> Inr (st1, None)
      | (st1, Some a) \<Rightarrow> rbind (create_loop mk st1 True [] xs) (\<lambda>(st2, ks).
          Inr (st2, Some (set_kids a (List.map_filter (\<lambda>k. k) ks)))))"

definition cJSON_CreateIntArray :: "'d fops \<Rightarrow> jalloc \<Rightarrow> jstate \<Rightarrow> int list \<Rightarrow> (jstate \<times> 'd cjson option) res" where
  "cJSON_CreateIntArray ops al =
     create_array_of ops al (\<lambda>st i. Inr (cJSON_CreateNumber ops al st (f_of_int ops i)))"

definition cJSON_CreateDoubleArray :: "'d fops \<Rightarrow> jalloc \<Rightarrow> jstate \<Rightarrow> 'd list \<Rightarrow> (jstate \<times> 'd cjson option) res" where
  "cJSON_CreateDoubleArray ops al = create_array_of ops al (\<lambda>st d. Inr (cJSON_CreateNumber ops al st d))"

definition cJSON_CreateStringArray :: "'d fops \<Rightarrow> jalloc \<Rightarrow> jstate \<Rightarrow> cptr list \<Rightarrow> (jstate \<times> 'd cjson option) res" where
  "cJSON_CreateStringArray ops al = create_array_of ops al (cJSON_CreateString ops al)"

end
