(* ===== verification/CJson_Rational.thy ===== *)
theory CJson_Rational
  imports CJson Complex_Main
begin

text \<open>
  An instance of the arithmetic parameter of \<open>CJson\<close>, used where a theorem is applied to concrete
  items: exact rationals, with six digits after the decimal point for \<open>%f\<close> and \<open>%e\<close>; and a few
  items over it.
\<close>

definition show_fixed :: "rat \<Rightarrow> string" where
  "show_fixed d =
     (let n = \<lfloor>\<bar>d\<bar> * 10 ^ 6 + 1 / 2\<rfloor>; frac = show_nat (nat (n mod 10 ^ 6))
      in (if d < 0 then ''-'' else []) @ show_nat (nat (n div 10 ^ 6)) @ CHR ''.'' # replicate (6 - length frac) (CHR ''0'') @ frac)"

definition rat_ops :: "rat fops" where
  "rat_ops = \<lparr>f_of_int = of_int, f_add = (+), f_sub = (-), f_mul = (*), f_pow = (\<lambda>b e. power_int b \<lfloor>e\<rfloor>),
     f_abs = abs, f_floor = (\<lambda>d. of_int \<lfloor>d\<rfloor>), f_le = (\<le>), f_less = (<), f_trunc = (\<lambda>d. if d < 0 then - \<lfloor>- d\<rfloor> else \<lfloor>d\<rfloor>),
     f_epsilon = 1 / 2 ^ 52, f_micro = 1 / 10 ^ 6, f_giga = 10 ^ 9,
     f_show0 = (\<lambda>d. show_int \<lfloor>d + 1 / 2\<rfloor>), f_showe = show_fixed, f_showf = show_fixed\<rparr>"

definition number_head :: "rat \<Rightarrow> rat jhead" where
  "number_head d = \<lparr>jtype = cJSON_Number, valuestring = None, valueint = f_trunc rat_ops d, valuedouble = d, jstring = None\<rparr>"

definition string_head :: "string \<Rightarrow> cptr \<Rightarrow> rat jhead" where
  "string_head s n = \<lparr>jtype = cJSON_String, valuestring = Some s, valueint = 0, valuedouble = 0, jstring = n\<rparr>"

definition type_head :: "int \<Rightarrow> cptr \<Rightarrow> rat jhead" where
  "type_head t n = \<lparr>jtype = t, valuestring = None, valueint = 0, valuedouble = 0, jstring = n\<rparr>"

definition no_state :: jstate where
  "no_state = \<lparr>jcalls = 0, jlive = 0, ep = None\<rparr>"

text \<open>The item of the text \<open>{"a": [null, "x"]}\<close>.\<close>

definition demo_item :: "rat cjson" where
  "demo_item = Item (type_head cJSON_Object None)
     [Item (type_head cJSON_Array (Some ''a'')) [Item (type_head cJSON_NULL None) [], Item (string_head ''x'' None) []]]"

end
