(* ===== verification/CJson_Printer.thy ===== *)
theory CJson_Printer
  imports CJson_Rational
begin

text \<open>
  The printer of \<open>cJSON.c\<close>. \<open>text_of\<close> is the text of an item as a plain recursive function; the
  lemmas show that \<open>print_value\<close> returns that text or \<open>NULL\<close>, that the sizes computed for its
  buffers are always large enough, and that it gives back every block it allocates except the one
  it returns, whichever calls of \<open>cJSON_malloc\<close> fail. The fuel needed is the height of the item.
\<close>

subsection \<open>The text of an item\<close>

definition number_text :: "'d fops \<Rightarrow> 'd jhead \<Rightarrow> string" where
  "number_text ops h =
     (let d = valuedouble h; i = valueint h
      in if f_le ops (f_abs ops (f_sub ops (f_of_int ops i) d)) (f_epsilon ops) \<and>
            f_le ops d (f_of_int ops (2 ^ 31 - 1)) \<and> f_le ops (f_of_int ops (- (2 ^ 31))) d then show_int i
         else if f_le ops (f_abs ops (f_sub ops (f_floor ops d) d)) (f_epsilon ops) then f_show0 ops d
         else if f_less ops (f_abs ops d) (f_micro ops) \<or> f_less ops (f_giga ops) (f_abs ops d)
         then f_showe ops d else f_showf ops d)"

fun string_text :: "cptr \<Rightarrow> string" where
  "string_text None = []"
| "string_text (Some s) = quoted s"

fun text_of :: "'d fops \<Rightarrow> bool \<Rightarrow> nat \<Rightarrow> 'd cjson \<Rightarrow> string" where
  "text_of ops fmt depth (Item h ks) =
     (let t = take_bit 8 (jtype h) in
      if t = cJSON_NULL then ''null'' else if t = cJSON_False then ''false'' else if t = cJSON_True then ''true''
      else if t = cJSON_Number then number_text ops h
      else if t = cJSON_String then string_text (valuestring h)
      else if t = cJSON_Array then CHR ''['' # join_entries fmt (map (text_of ops fmt (depth + 1)) ks) @ '']''
      else CHR ''{'' # (if fmt then [CHR 0x0A] else []) @
        join_members fmt (depth + 1) (map (\<lambda>k. (string_text (jstring (head_of k)), text_of ops fmt (depth + 1) k)) ks) @
        (if fmt then replicate depth (CHR 0x09) else []) @ ''}'')"

declare text_of.simps [simp del]

fun height :: "'d cjson \<Rightarrow> nat" where
  "height (Item h ks) = Suc (fold max (map height ks) 0)"

fun all_heads :: "('d jhead \<Rightarrow> bool) \<Rightarrow> 'd cjson \<Rightarrow> bool" where
  "all_heads P (Item h ks) \<longleftrightarrow> P h \<and> list_all (all_heads P) ks"

text \<open>
  The number of an item is printed in fewer than 64 bytes and its integer has 32 bits; and its type
  is one of the seven of the header, up to the reference flag.
\<close>

definition number_fits :: "'d fops \<Rightarrow> 'd jhead \<Rightarrow> bool" where
  "number_fits ops h \<longleftrightarrow> - (2 ^ 31) \<le> valueint h \<and> valueint h < 2 ^ 31 \<and> length (number_text ops h) < 64"

definition printable :: "'d fops \<Rightarrow> 'd jhead \<Rightarrow> bool" where
  "printable ops h \<longleftrightarrow> number_fits ops h \<and> take_bit 8 (jtype h) \<in> {0..6}"

lemma fold_max_le: "fold max (xs :: nat list) a \<le> n \<longleftrightarrow> a \<le> n \<and> (\<forall>x\<in>set xs. x \<le> n)"
  by (induction xs arbitrary: a) auto

lemma height_kid: "height (Item h ks) \<le> Suc f \<Longrightarrow> k \<in> set ks \<Longrightarrow> height k \<le> f"
  by (simp add: fold_max_le)

subsection \<open>Sizes\<close>

lemma show_int_length: "- (2 ^ 31) \<le> i \<Longrightarrow> i < 2 ^ 31 \<Longrightarrow> length (show_int i) \<le> 11"
proof -
  assume i: "- (2 ^ 31) \<le> i" "i < 2 ^ 31"
  have "length (show_nat (nat (- i))) \<le> Suc 9" "length (show_nat (nat i)) \<le> Suc 9"
    by (rule show_nat_length, use i in simp)+
  then show ?thesis by (simp add: show_int_def)
qed

lemma escape_char_length: "length (escape_char c) \<le> 1 + (if escaped_special c then 1 else if c < CHR '' '' then 5 else 0)"
proof (cases "c > CHR 0x1F")
  case True
  then show ?thesis by (auto simp: escape_char_def escaped_special_def)
next
  case False
  then have "of_char c \<le> (31 :: nat)" by (simp add: less_char_def)
  then have "c < CHR '' ''" by (simp add: less_char_def)
  with False show ?thesis by (auto simp: escape_char_def escaped_special_def)
qed

text \<open>The first loop of \<open>print_string_ptr\<close> counts at least what the second one writes.\<close>

lemma quoted_fits: "length (cstr (quoted s)) \<le> print_len s + 3"
proof -
  have "length (concat (map escape_char s)) \<le> print_len s"
  proof (induction s)
    case (Cons c s)
    with escape_char_length [of c] show ?case by simp
  qed simp
  then show ?thesis by (simp add: quoted_def cstr_def)
qed

lemma join_entries_length:
  "es \<noteq> [] \<Longrightarrow> length (join_entries fmt es) + 1 + (if fmt then 1 else 0) = (\<Sum>e\<leftarrow>es. length e + 1 + (if fmt then 1 else 0))"
  by (induction fmt es rule: join_entries.induct) auto

lemma join_members_length:
  "length (join_members fmt d es) + (if es = [] then 0 else 1) =
     (\<Sum>(n, e)\<leftarrow>es. length e + length n + 2 + (if fmt then 2 + d else 0))"
  by (induction fmt d es rule: join_members.induct) auto

subsection \<open>Memory\<close>

lemma jmalloc_live: "jmalloc al st n = (st', ok) \<Longrightarrow> jlive st' = jlive st + (if ok then 1 else 0) \<and> ep st' = ep st"
  by (auto simp: jmalloc_def Let_def)

definition held :: "cptr list \<Rightarrow> int" where
  "held ps = int (length (filter (\<lambda>p. p \<noteq> None) ps))"

lemma held_simps [simp]: "held [] = 0" "held (None # ps) = held ps" "held (Some x # ps) = 1 + held ps"
  by (simp_all add: held_def)

lemma jfree_opt_live [simp]:
  "jlive (jfree_opt st p) = jlive st - (if p = None then 0 else 1)" "ep (jfree_opt st p) = ep st"
  by (simp_all add: jfree_opt_def jfree_def)

lemma jfree_live [simp]: "jlive (jfree st) = jlive st - 1" "ep (jfree st) = ep st"
  by (simp_all add: jfree_def)

lemma jfree_all_live [simp]: "jlive (jfree_all st ps) = jlive st - held ps" "ep (jfree_all st ps) = ep st"
proof -
  have "jlive (jfree_all st ps) = jlive st - held ps \<and> ep (jfree_all st ps) = ep st"
    unfolding jfree_all_def
  proof (induction ps arbitrary: st)
    case Nil
    then show ?case by simp
  next
    case (Cons p ps)
    then show ?case by (cases p) simp_all
  qed
  then show "jlive (jfree_all st ps) = jlive st - held ps" "ep (jfree_all st ps) = ep st" by auto
qed

text \<open>What a call that returns a new string, or \<open>NULL\<close> when some allocation fails, does to the state.\<close>

definition willing :: "jalloc \<Rightarrow> bool" where
  "willing al \<longleftrightarrow> (\<forall>n sz. al n sz)"

definition gives :: "jalloc \<Rightarrow> jstate \<Rightarrow> string \<Rightarrow> (jstate \<times> cptr) res \<Rightarrow> bool" where
  "gives al st txt r \<longleftrightarrow> (\<exists>st' p. r = Inr (st', p) \<and> (p = None \<and> \<not> willing al \<or> p = Some txt) \<and>
     jlive st' = jlive st + (if p = None then 0 else 1) \<and> ep st' = ep st)"

lemma willing_ok: "jmalloc al st n = (st', ok) \<Longrightarrow> ok \<or> \<not> willing al"
  by (auto simp: jmalloc_def willing_def Let_def)

lemma gives_dup: "gives al st s (Inr (json_dup al st s))"
  by (auto simp: willing_def gives_def json_dup_def jmalloc_def Let_def)

lemma gives_string: "gives al st (string_text p) (print_string_ptr al st p)"
proof (cases p)
  case None
  then show ?thesis using gives_dup [of al st "[]"] by (simp add: print_string_ptr_def)
next
  case (Some s)
  then show ?thesis
    using quoted_fits [of s] by (auto simp: willing_def print_string_ptr_def gives_def jmalloc_def Let_def fill_def)
qed

lemma gives_number: "number_fits ops h \<Longrightarrow> gives al st (number_text ops h) (print_number ops al st h)"
  using show_int_length [of "valueint h"]
  by (auto simp: willing_def print_number_def number_text_def number_fits_def gives_def jmalloc_def Let_def fill_def cstr_def)

subsection \<open>Arrays and objects\<close>

lemma array_entries_gives:
  assumes "\<And>c st. c \<in> set cs \<Longrightarrow> gives al st (T c) (pv st (depth + 1) c)"
  shows "\<exists>st' es len' failed. array_entries pv fmt depth st len cs = Inr (st', es, len', failed) \<and>
    jlive st' = jlive st + held es \<and> ep st' = ep st \<and>
    (failed \<longrightarrow> \<not> willing al) \<and> (\<not> failed \<longrightarrow> es = map (\<lambda>c. Some (T c)) cs \<and>
      len' = len + (\<Sum>e\<leftarrow>map T cs. length e + 2 + (if fmt then 1 else 0)))"
  using assms
proof (induction cs arbitrary: st len)
  case Nil
  then show ?case by auto
next
  case (Cons c cs)
  have "gives al st (T c) (pv st (depth + 1) c)" by (rule Cons.prems) simp
  then obtain st1 p where p: "pv st (depth + 1) c = Inr (st1, p)" "p = None \<and> \<not> willing al \<or> p = Some (T c)"
    "jlive st1 = jlive st + (if p = None then 0 else 1)" "ep st1 = ep st" by (auto simp: gives_def)
  show ?case
  proof (cases p)
    case None
    with p show ?thesis by (intro exI [of _ st1] exI [of _ "[None]"] exI [of _ len] exI [of _ True]) simp
  next
    case (Some r)
    let ?len = "len + length r + 2 + (if fmt then 1 else 0)"
    have "\<exists>st' es len' failed. array_entries pv fmt depth st1 ?len cs = Inr (st', es, len', failed) \<and>
      jlive st' = jlive st1 + held es \<and> ep st' = ep st1 \<and> (failed \<longrightarrow> \<not> willing al) \<and>
      (\<not> failed \<longrightarrow> es = map (\<lambda>c. Some (T c)) cs \<and>
        len' = ?len + (\<Sum>e\<leftarrow>map T cs. length e + 2 + (if fmt then 1 else 0)))"
      by (rule Cons.IH) (rule Cons.prems, simp)
    with p Some show ?thesis by auto
  qed
qed

lemma join_entries_bound:
  "length (join_entries fmt es) \<le> (\<Sum>e\<leftarrow>es. length e + 2 + (if fmt then 1 else 0))"
proof (cases "es = []")
  case False
  have "(\<Sum>e\<leftarrow>es. length e + 1 + (if fmt then 1 else 0)) \<le> (\<Sum>e\<leftarrow>es. length e + 2 + (if fmt then 1 else 0))"
    by (rule sum_list_mono) simp
  with join_entries_length [OF False, of fmt] show ?thesis by linarith
qed simp

lemma print_array_gives:
  assumes "\<And>c st. c \<in> set cs \<Longrightarrow> gives al st (T c) (pv st (depth + 1) c)"
  shows "gives al st (CHR ''['' # join_entries fmt (map T cs) @ '']'') (print_array al pv fmt st depth cs)"
proof -
  obtain st1 ok where m: "jmalloc al st (length cs * 4) = (st1, ok)" by (cases "jmalloc al st (length cs * 4)")
  note m' = jmalloc_live [OF m]
  from array_entries_gives [where cs = cs and T = T and pv = pv and depth = depth and st = st1 and fmt = fmt and len = 5, OF assms]
  obtain st2 es len failed where
    e: "array_entries pv fmt depth st1 5 cs = Inr (st2, es, len, failed)" "jlive st2 = jlive st1 + held es" "ep st2 = ep st1" "failed \<Longrightarrow> \<not> willing al"
    "\<not> failed \<Longrightarrow> es = map (\<lambda>c. Some (T c)) cs" 
    "\<not> failed \<Longrightarrow> len = 5 + (\<Sum>e\<leftarrow>map T cs. length e + 2 + (if fmt then 1 else 0))" by blast
  show ?thesis
  proof (cases "ok \<and> \<not> failed")
    case False
    with m m' e willing_ok [OF m] show ?thesis by (auto simp: print_array_def gives_def)
  next
    case True
    obtain st3 ok3 where m3: "jmalloc al st2 len = (st3, ok3)" by (cases "jmalloc al st2 len")
    have th: "map the es = map T cs" using e(5) True by simp
    have "length (cstr (CHR ''['' # join_entries fmt (map T cs) @ '']'')) \<le> len"
      using join_entries_bound [of fmt "map T cs"] e(6) True by (simp add: cstr_def)
    then have run: "print_array al pv fmt st depth cs = Inr (jfree (jfree_all st3 es),
        if ok3 then Some (CHR ''['' # join_entries fmt (map T cs) @ '']'') else None)"
      by (simp add: print_array_def m e(1) True m3 th fill_def)
    show ?thesis
      unfolding gives_def run by (rule exI, rule exI, intro conjI, rule refl) (use m' e(2,3) True jmalloc_live [OF m3] willing_ok [OF m3] in auto)
  qed
qed

lemma object_entries_gives:
  assumes "\<And>c st. c \<in> set cs \<Longrightarrow> gives al st (T c) (pv st depth c)"
  shows "\<exists>st' es len' failed'. object_entries al pv fmt depth st len failed cs = Inr (st', es, len', failed') \<and>
    jlive st' = jlive st + held (map fst es) + held (map snd es) \<and> ep st' = ep st \<and>
    (failed' \<longrightarrow> failed \<or> \<not> willing al) \<and> (\<not> failed' \<longrightarrow> \<not> failed \<and> es = map (\<lambda>c. (Some (string_text (jstring (head_of c))), Some (T c))) cs \<and>
      len' = len + (\<Sum>c\<leftarrow>cs. length (T c) + length (string_text (jstring (head_of c))) + 2 + (if fmt then 2 + depth else 0)))"
  using assms
proof (induction cs arbitrary: st len failed)
  case Nil
  then show ?case by simp
next
  case (Cons c cs)
  let ?n = "string_text (jstring (head_of c))"
  obtain st1 str where s1: "print_string_ptr al st (jstring (head_of c)) = Inr (st1, str)" "str = None \<and> \<not> willing al \<or> str = Some ?n"
    "jlive st1 = jlive st + (if str = None then 0 else 1)" "ep st1 = ep st"
    using gives_string [of al st "jstring (head_of c)"] by (auto simp: gives_def)
  have "gives al st1 (T c) (pv st1 depth c)" by (rule Cons.prems) simp
  then obtain st2 ret where s2: "pv st1 depth c = Inr (st2, ret)" "ret = None \<and> \<not> willing al \<or> ret = Some (T c)"
    "jlive st2 = jlive st1 + (if ret = None then 0 else 1)" "ep st2 = ep st1" by (auto simp: gives_def)
  define step where "step = (case (str, ret) of
             (Some n, Some r) \<Rightarrow> (len + length r + length n + 2 + (if fmt then 2 + depth else 0), failed)
           | _ \<Rightarrow> (len, True))"
  obtain len1 failed1 where l1: "step = (len1, failed1)" by (cases step)
  have "\<exists>st' es len' failed'. object_entries al pv fmt depth st2 len1 failed1 cs = Inr (st', es, len', failed') \<and>
    jlive st' = jlive st2 + held (map fst es) + held (map snd es) \<and> ep st' = ep st2 \<and>
    (failed' \<longrightarrow> failed1 \<or> \<not> willing al) \<and> (\<not> failed' \<longrightarrow> \<not> failed1 \<and> es = map (\<lambda>c. (Some (string_text (jstring (head_of c))), Some (T c))) cs \<and>
      len' = len1 + (\<Sum>c\<leftarrow>cs. length (T c) + length (string_text (jstring (head_of c))) + 2 + (if fmt then 2 + depth else 0)))"
    by (rule Cons.IH) (simp add: Cons.prems)
  then obtain st3 es len2 failed2 where s3: "object_entries al pv fmt depth st2 len1 failed1 cs = Inr (st3, es, len2, failed2)"
    "jlive st3 = jlive st2 + held (map fst es) + held (map snd es)" "ep st3 = ep st2"
    "failed2 \<Longrightarrow> failed1 \<or> \<not> willing al"
    "\<not> failed2 \<Longrightarrow> \<not> failed1 \<and> es = map (\<lambda>c. (Some (string_text (jstring (head_of c))), Some (T c))) cs \<and>
      len2 = len1 + (\<Sum>c\<leftarrow>cs. length (T c) + length (string_text (jstring (head_of c))) + 2 + (if fmt then 2 + depth else 0))"
    by blast
  have run: "object_entries al pv fmt depth st len failed (c # cs) = Inr (st3, (str, ret) # es, len2, failed2)"
    using l1 s3(1) unfolding step_def by (simp add: s1(1) s2(1))
  have lv: "jlive st3 = jlive st + held (map fst ((str, ret) # es)) + held (map snd ((str, ret) # es))"
    using s1 s2 s3(2) by (cases str; cases ret) simp_all
  have "\<not> failed \<and> str = Some ?n \<and> ret = Some (T c) \<and>
      len1 = len + length (T c) + length ?n + 2 + (if fmt then 2 + depth else 0)" if "\<not> failed1"
    using that l1 s1(2) s2(2) unfolding step_def by (cases str; cases ret) auto
  moreover have "failed \<or> \<not> willing al" if "failed1"
    using that l1 s1(2) s2(2) unfolding step_def by (cases str; cases ret) auto
  ultimately show ?case using run lv s1 s2 s3 by auto
qed

lemma join_members_bound:
  "length (join_members fmt d es) \<le> (\<Sum>(n, e)\<leftarrow>es. length e + length n + 2 + (if fmt then 2 + d else 0))"
  using join_members_length [of fmt d es] by linarith

lemma free_pairs_live [simp]:
  "jlive (foldl (\<lambda>s (n, e). jfree_opt (jfree_opt s n) e) st es) = jlive st - held (map fst es) - held (map snd es)"
  "ep (foldl (\<lambda>s (n, e). jfree_opt (jfree_opt s n) e) st es) = ep st"
proof -
  have "jlive (foldl (\<lambda>s (n, e). jfree_opt (jfree_opt s n) e) st es) = jlive st - held (map fst es) - held (map snd es) \<and>
      ep (foldl (\<lambda>s (n, e). jfree_opt (jfree_opt s n) e) st es) = ep st"
  proof (induction es arbitrary: st)
    case Nil
    then show ?case by simp
  next
    case (Cons x es)
    obtain n e where x: "x = (n, e)" by (cases x)
    show ?case by (cases n; cases e) (simp_all add: x Cons)
  qed
  then show "jlive (foldl (\<lambda>s (n, e). jfree_opt (jfree_opt s n) e) st es) = jlive st - held (map fst es) - held (map snd es)"
    "ep (foldl (\<lambda>s (n, e). jfree_opt (jfree_opt s n) e) st es) = ep st" by auto
qed

lemma print_object_gives:
  assumes "\<And>c st. c \<in> set cs \<Longrightarrow> gives al st (T c) (pv st (depth + 1) c)"
  shows "gives al st (CHR ''{'' # (if fmt then [CHR 0x0A] else []) @
      join_members fmt (depth + 1) (map (\<lambda>c. (string_text (jstring (head_of c)), T c)) cs) @
      (if fmt then replicate depth (CHR 0x09) else []) @ ''}'') (print_object al pv fmt st depth cs)"
proof -
  let ?d = "depth + 1"
  let ?ms = "map (\<lambda>c. (string_text (jstring (head_of c)), T c)) cs"
  let ?txt = "CHR ''{'' # (if fmt then [CHR 0x0A] else []) @ join_members fmt ?d ?ms @
      (if fmt then replicate depth (CHR 0x09) else []) @ ''}''"
  obtain st1 ok1 where m1: "jmalloc al st (length cs * 4) = (st1, ok1)" by (cases "jmalloc al st (length cs * 4)")
  obtain st2 ok2 where m2: "jmalloc al st1 (length cs * 4) = (st2, ok2)" by (cases "jmalloc al st1 (length cs * 4)")
  note m' = jmalloc_live [OF m1] jmalloc_live [OF m2]
  let ?len0 = "7 + (if fmt then ?d else 0)"
  from object_entries_gives [where cs = cs and T = T and pv = pv and depth = ?d and st = st2 and fmt = fmt and
      len = ?len0 and failed = False and al = al, OF assms]
  obtain st3 es len failed where
    e: "object_entries al pv fmt ?d st2 ?len0 False cs = Inr (st3, es, len, failed)"
    "jlive st3 = jlive st2 + held (map fst es) + held (map snd es)" "ep st3 = ep st2" "failed \<Longrightarrow> \<not> willing al"
    "\<not> failed \<Longrightarrow> es = map (\<lambda>c. (Some (string_text (jstring (head_of c))), Some (T c))) cs"
    "\<not> failed \<Longrightarrow> len = ?len0 + (\<Sum>c\<leftarrow>cs. length (T c) + length (string_text (jstring (head_of c))) + 2 + (if fmt then 2 + ?d else 0))"
    by blast
  show ?thesis
  proof (cases "ok1 \<and> ok2")
    case False
    with m1 m2 m' willing_ok [OF m1] willing_ok [OF m2] show ?thesis by (auto simp: print_object_def gives_def)
  next
    case ok: True
    obtain st4 ok4 where m4: "(if failed then (st3, False) else jmalloc al st3 len) = (st4, ok4)"
      by (cases "if failed then (st3, False) else jmalloc al st3 len")
    have live4: "jlive st4 = jlive st3 + (if ok4 then 1 else 0)" "ep st4 = ep st3" "ok4 \<or> \<not> willing al"
      using m4 jmalloc_live [of al st3 len st4 ok4] willing_ok [of al st3 len st4 ok4] e(4)
      by (auto split: if_splits)
    let ?st5 = "jfree (jfree (foldl (\<lambda>s (n, e). jfree_opt (jfree_opt s n) e) st4 es))"
    have run: "print_object al pv fmt st depth cs = Inr (?st5, if ok4 then Some ?txt else None)"
    proof -
      have open1: "print_object al pv fmt st depth cs =
          (if \<not> ok4 then Inr (?st5, None)
           else let txt = CHR ''{'' # (if fmt then [CHR 0x0A] else []) @
                    join_members fmt ?d (map (\<lambda>(n, e). (the n, the e)) es) @
                    (if fmt then replicate (?d - 1) (CHR 0x09) else []) @ ''}''
                in rbind (fill len (cstr txt)) (\<lambda>_. Inr (?st5, Some txt)))"
        unfolding print_object_def m1 Let_def prod.case m2 e(1) rbind_Inr m4 using ok by simp
      show ?thesis
      proof (cases ok4)
        case False
        then show ?thesis unfolding open1 by simp
      next
        case True
        with m4 have nf: "\<not> failed" by (cases failed) auto
        have ms: "map (\<lambda>(n, e). (the n, the e)) es = ?ms" using e(5) [OF nf] by simp
        have "length (cstr ?txt) \<le> len"
          using join_members_bound [of fmt ?d ?ms] e(6) [OF nf] by (cases fmt) (simp_all add: cstr_def comp_def)
        then have "fill len (cstr ?txt) = Inr (cstr ?txt)" unfolding fill_def by (rule if_P)
        moreover have "?d - 1 = depth" by simp
        ultimately show ?thesis using True unfolding open1 ms Let_def by (simp only: not_not if_True if_False rbind_Inr not_True_eq_False)
      qed
    qed
    show ?thesis
      unfolding gives_def run by (rule exI, rule exI, intro conjI, rule refl) (use m' e(2,3) ok live4 in auto)
  qed
qed

text \<open>Every item of small enough height is printed to its text or to \<open>NULL\<close>.\<close>

lemma print_value_gives:
  "all_heads (printable ops) it \<Longrightarrow> height it \<le> f \<Longrightarrow>
    gives al st (text_of ops fmt depth it) (print_value ops al fmt f st depth it)"
proof (induction f arbitrary: st depth it)
  case 0
  then show ?case by (cases it) simp
next
  case (Suc f)
  obtain h ks where it: "it = Item h ks" by (cases it)
  have kid: "gives al st (text_of ops fmt (depth + 1) c) (print_value ops al fmt f st (depth + 1) c)"
    if "c \<in> set ks" for c st
    by (rule Suc.IH) (use Suc.prems that it height_kid in \<open>auto simp: list_all_iff\<close>)
  note arr = print_array_gives [where pv = "print_value ops al fmt f" and al = al and st = st and fmt = fmt and depth = depth, OF kid]
  note obj = print_object_gives [where pv = "print_value ops al fmt f" and al = al and st = st and fmt = fmt and depth = depth, OF kid]
  have num: "number_fits ops h" and tr: "take_bit 8 (jtype h) \<in> {0..6}"
    using Suc.prems(1) it by (auto simp: printable_def)
  have ty: "take_bit 8 (jtype h) \<in> {cJSON_NULL, cJSON_False, cJSON_True, cJSON_Number, cJSON_String, cJSON_Array, cJSON_Object}"
  proof -
    have six: "t \<in> {cJSON_NULL, cJSON_False, cJSON_True, cJSON_Number, cJSON_String, cJSON_Array, cJSON_Object}"
      if "t \<in> {0..6}" for t :: int
      using that by simp presburger
    show ?thesis by (rule six [OF tr])
  qed
  show ?case
    unfolding it print_value.simps text_of.simps Let_def cjson.sel
    using ty arr obj gives_dup [of al st] gives_string [of al st "valuestring h"] gives_number [OF num, of al st] by auto
qed

subsection \<open>Properties\<close>

lemma demo_item_printable: "all_heads (printable rat_ops) demo_item"
  by (simp add: demo_item_def printable_def number_fits_def number_text_def type_head_def string_head_def rat_ops_def
      show_int_def show_nat.simps take_bit_eq_mod)

text \<open>
  C8: \<open>cJSON_Print\<close> and \<open>cJSON_PrintUnformatted\<close> return, on every item whose types are known and
  whose numbers fit their buffer, the text of the item, or \<open>NULL\<close> if a call of \<open>cJSON_malloc\<close>
  fails: no buffer is overrun, and whichever calls fail exactly the returned string stays allocated.
\<close>

theorem print_correct:
  assumes "all_heads (printable ops) it" "height it \<le> f"
  shows "gives al st (text_of ops True 0 it) (cJSON_Print ops al f st (Some it)) \<and>
    gives al st (text_of ops False 0 it) (cJSON_PrintUnformatted ops al f st (Some it))"
  using print_value_gives [OF assms] by (simp add: cJSON_Print_def cJSON_PrintUnformatted_def)

theorem print_correct_witness:
  "gives (\<lambda>n sz. n \<noteq> 3) no_state (text_of rat_ops True 0 demo_item)
     (cJSON_Print rat_ops (\<lambda>n sz. n \<noteq> 3) 3 no_state (Some demo_item)) \<and>
   gives (\<lambda>n sz. n \<noteq> 3) no_state (text_of rat_ops False 0 demo_item)
     (cJSON_PrintUnformatted rat_ops (\<lambda>n sz. n \<noteq> 3) 3 no_state (Some demo_item))"
  by (rule print_correct [OF demo_item_printable]) (simp add: demo_item_def)

lemma show_nat_length_ge: "10 ^ k \<le> n \<Longrightarrow> Suc k \<le> length (show_nat n)"
proof (induction k arbitrary: n)
  case 0
  then show ?case by (simp add: show_nat.simps [of n])
next
  case (Suc k)
  then have "10 \<le> n" "10 ^ k \<le> n div 10" by (auto simp: less_eq_div_iff_mult_less_eq elim: order_trans [rotated])
  with Suc.IH [of "n div 10"] show ?case by (simp add: show_nat.simps [of n])
qed

text \<open>
  A number outside the range of \<open>int\<close> that \<open>%.0f\<close> writes with 64 digits or more overruns the
  64-byte buffer of \<open>print_number\<close>.
\<close>

lemma print_number_overruns:
  assumes "\<not> f_le ops (valuedouble h) (f_of_int ops (2 ^ 31 - 1))" "al (jcalls st) 64"
    "f_le ops (f_abs ops (f_sub ops (f_floor ops (valuedouble h)) (valuedouble h))) (f_epsilon ops)"
    "64 \<le> length (f_show0 ops (valuedouble h))"
  shows "print_number ops al st h = Inl OutOfBounds"
  using assms by (simp add: print_number_def jmalloc_def Let_def fill_def cstr_def)

lemma print_number_overruns_witness:
  "print_number rat_ops (\<lambda>n sz. True) no_state (number_head (10 ^ 70)) = Inl OutOfBounds"
proof (rule print_number_overruns)
  have fl: "\<lfloor>10 ^ 70 + 1 / 2 :: rat\<rfloor> = 10 ^ 70" by (simp add: floor_eq_iff)
  have "64 \<le> length (show_nat (10 ^ 70))"
    by (rule order_trans [OF _ show_nat_length_ge [of 70]]) simp_all
  then show "64 \<le> length (f_show0 rat_ops (valuedouble (number_head (10 ^ 70))))"
    using fl by (simp add: rat_ops_def number_head_def show_int_def)
qed (simp_all add: rat_ops_def number_head_def)

end
