(* ===== verification/CJson_Parser.thy ===== *)
theory CJson_Parser
  imports CJson_Rational
begin

text \<open>
  The parser of \<open>cJSON.c\<close>: every pointer it returns lies further in the text than the one it was
  given, so its recursion and its loops end and the fuel given is enough; on every path, successful
  or not and whichever allocations fail, the blocks in use are those of the tree it returns; and on
  a text without backslashes it never leaves the buffer.
\<close>

subsection \<open>Blocks of a tree\<close>

definition held_by :: "'d jhead \<Rightarrow> int" where
  "held_by h = 1 + (if valuestring h = None then 0 else 1) + (if jstring h = None then 0 else 1)"

fun blocks :: "'d cjson \<Rightarrow> int" where
  "blocks (Item h ks) = held_by h + (\<Sum>k\<leftarrow>ks. blocks k)"

fun no_refs :: "'d cjson \<Rightarrow> bool" where
  "no_refs (Item h ks) \<longleftrightarrow> \<not> is_reference (jtype h) \<and> list_all no_refs ks"

lemma json_delete_live:
  "list_all no_refs cs \<Longrightarrow> jlive (json_delete st cs) = jlive st - (\<Sum>c\<leftarrow>cs. blocks c)"
proof (induction st cs rule: json_delete.induct)
  case (1 st)
  then show ?case by simp
next
  case (2 st h ks cs)
  define st1 where "st1 = (if \<not> is_reference (jtype h) \<and> ks \<noteq> [] then json_delete st ks else st)"
  have "jlive st1 = jlive st - (\<Sum>k\<leftarrow>ks. blocks k)"
    using 2 by (simp add: st1_def)
  moreover have "json_delete st (Item h ks # cs) =
      json_delete (jfree (jfree_opt (jfree_opt st1 (valuestring h)) (jstring h))) cs"
    using "2.prems" by (simp add: st1_def Let_def)
  moreover have "list_all no_refs cs" using "2.prems" by simp
  then have "jlive (json_delete (jfree (jfree_opt (jfree_opt st1 (valuestring h)) (jstring h))) cs) =
      jlive (jfree (jfree_opt (jfree_opt st1 (valuestring h)) (jstring h))) - (\<Sum>c\<leftarrow>cs. blocks c)"
    using "2.IH"(2) [OF st1_def refl refl] "2.prems" by simp
  ultimately show ?case by (simp add: jfree_def jfree_opt_def held_by_def)
qed

lemma not_reference [simp]:
  "\<not> is_reference 0" "\<not> is_reference 1" "\<not> is_reference 2" "\<not> is_reference 3" "\<not> is_reference 4"
  "\<not> is_reference 5" "\<not> is_reference 6"
  by (simp_all add: is_reference_def bit_iff_odd)

lemma blocks_simps [simp]:
  "blocks (set_kids it ks) = held_by (head_of it) + (\<Sum>k\<leftarrow>ks. blocks k)"
  "head_of (set_kids it ks) = head_of it" "kids (set_kids it ks) = ks"
  "blocks (upd_head f it) = held_by (f (head_of it)) + (\<Sum>k\<leftarrow>kids it. blocks k)"
  "head_of (upd_head f it) = f (head_of it)" "kids (upd_head f it) = kids it"
  by (simp_all add: set_kids_def upd_head_def)

lemma blocks_alt: "blocks it = held_by (head_of it) + (\<Sum>k\<leftarrow>kids it. blocks k)"
  by (cases it) simp

lemma no_refs_alt: "no_refs it \<longleftrightarrow> \<not> is_reference (jtype (head_of it)) \<and> list_all no_refs (kids it)"
  by (cases it) simp

lemma no_refs_simps [simp]:
  "no_refs (upd_head f it) \<longleftrightarrow> \<not> is_reference (jtype (f (head_of it))) \<and> list_all no_refs (kids it)"
  "no_refs (set_kids it ks) \<longleftrightarrow> \<not> is_reference (jtype (head_of it)) \<and> list_all no_refs ks"
  by (simp_all add: no_refs_alt [of "upd_head f it"] no_refs_alt [of "set_kids it ks"])

subsection \<open>Progress of the scanners\<close>

lemma deref_Inr: "deref s = Inr c \<longleftrightarrow> (\<exists>cs. s = c # cs)"
  by (cases s) auto

lemma skip_list_suffix: "skip_list s = Inr r \<Longrightarrow> \<exists>p. s = p @ r"
  by (induction s) (auto split: if_splits)

lemma skip_list_length: "skip_list s = Inr r \<Longrightarrow> length r \<le> length s"
  by (drule skip_list_suffix) auto

lemma skip_length: "skip (Some s) = Inr r \<Longrightarrow> \<exists>r'. r = Some r' \<and> length r' \<le> length s"
  by (auto dest: skip_list_length)

lemma mant_loop_length: "mant_loop ops n s = Inr (m, r) \<Longrightarrow> length r \<le> length s"
  by (induction s arbitrary: n) (auto split: if_splits intro: le_SucI)

lemma frac_loop_length: "frac_loop ops n sc s = Inr (m, sc', r) \<Longrightarrow> length r \<le> length s"
  by (induction s arbitrary: n sc) (auto split: if_splits intro: le_SucI)

lemma exp_loop_length: "exp_loop e s = Inr (e', r) \<Longrightarrow> length r \<le> length s"
  by (induction s arbitrary: e) (auto split: if_splits intro: le_SucI)

lemma parse_exponent_length: "parse_exponent s = Inr (e, sg, r) \<Longrightarrow> length r \<le> length s"
  by (auto simp: parse_exponent_def deref_Inr split: if_splits dest!: exp_loop_length)

lemma starts_with_nonempty: "starts_with (k # kw) s = Inr b \<Longrightarrow> s \<noteq> []"
  by (cases s) auto

lemma int_part_length: "int_part ops s = Inr (n, r) \<Longrightarrow> length r \<le> length s"
  by (auto simp: int_part_def split: if_splits dest: mant_loop_length)

lemma frac_part_length: "frac_part ops n s = Inr (n', sc, r) \<Longrightarrow> length r \<le> length s"
  by (auto simp: frac_part_def deref_Inr split: if_splits dest!: frac_loop_length)

lemma digit_nonzero: "is_digit c \<Longrightarrow> c \<noteq> CHR ''0'' \<Longrightarrow> CHR ''1'' \<le> c"
proof (rule ccontr)
  assume c: "is_digit c" "c \<noteq> CHR ''0''" "\<not> CHR ''1'' \<le> c"
  then have "of_char c = (of_char (CHR ''0'') :: nat)" by (simp add: less_eq_char_def)
  with c(2) show False by (simp only: of_char_eq_iff)
qed

lemma number_int_progress:
  assumes st: "number_start ops s = Inr (sg0, s1)" and ip: "int_part ops s1 = Inr (n, s2)"
    and c: "s = c # cs" "c = CHR ''-'' \<or> is_digit c"
  shows "length s2 < length s"
proof (cases "length s1 < length s")
  case True
  with int_part_length [OF ip] show ?thesis by simp
next
  case False
  with st c have s1: "s1 = s" "c \<noteq> CHR ''-''" "c \<noteq> CHR ''0''"
    by (auto simp: number_start_def Let_def split: if_splits)
  with c have d: "is_digit c" by blast
  then have "CHR ''1'' \<le> c" "c \<le> CHR ''9''" using digit_nonzero s1 by auto
  with ip s1 c d have "mant_loop ops (f_add ops (f_mul ops (f_of_int ops 0) (f_of_int ops 10)) (f_of_int ops (digit_val c))) cs = Inr (n, s2)"
    by (simp add: int_part_def)
  from mant_loop_length [OF this] c show ?thesis by simp
qed

lemma parse_number_progress:
  assumes p: "parse_number ops it s = Inr (it', r)" and c: "s = c # cs" "c = CHR ''-'' \<or> is_digit c"
  shows "length r < length s \<and> kids it' = kids it \<and> held_by (head_of it') = held_by (head_of it) \<and>
    \<not> is_reference (jtype (head_of it'))"
proof -
  from p obtain sg0 s1 n s2 n' sc s3 e sg where
    st: "number_start ops s = Inr (sg0, s1)" and ip: "int_part ops s1 = Inr (n, s2)"
    and fp: "frac_part ops n s2 = Inr (n', sc, s3)" and ex: "parse_exponent s3 = Inr (e, sg, r)"
    and it': "kids it' = kids it" "held_by (head_of it') = held_by (head_of it)" "\<not> is_reference (jtype (head_of it'))"
    unfolding parse_number_def by (auto simp: held_by_def Let_def)
  from number_int_progress [OF st ip c] frac_part_length [OF fp] parse_exponent_length [OF ex] it'
  show ?thesis by simp
qed

lemma unescape_one_length:
  "unescape_one uc uc2 p = Inr (bs, q, uc', uc2') \<Longrightarrow> length q \<le> length p"
  by (auto simp: unescape_one_def unescape_u_def Let_def deref_Inr split: if_splits prod.splits; arith)

lemma unescape_length: "unescape n uc uc2 p = Inr (out, r) \<Longrightarrow> length r \<le> length p"
proof (induction n arbitrary: uc uc2 p out)
  case 0
  then show ?case by simp
next
  case (Suc n)
  from Suc.prems obtain c cs where p: "p = c # cs" by (auto simp: deref_Inr)
  show ?case
  proof (cases "c = CHR 0x22 \<or> c = NUL")
    case True
    with Suc.prems p show ?thesis by auto
  next
    case nq: False
    show ?thesis
    proof (cases "c = CHR 0x5C")
      case False
      with Suc.prems p nq obtain out' where "unescape n uc uc2 cs = Inr (out', r)" by (auto split: prod.splits)
      from Suc.IH [OF this] p show ?thesis by simp
    next
      case True
      with Suc.prems p nq obtain bs q uc' uc2' out' where
        "unescape_one uc uc2 cs = Inr (bs, q, uc', uc2')" "unescape n uc' uc2' (tl q) = Inr (out', r)"
        by (auto split: prod.splits)
      from unescape_one_length [OF this(1)] Suc.IH [OF this(2)] p show ?thesis by simp
    qed
  qed
qed

subsection \<open>Memory and progress of the parser\<close>

definition fresh :: "'d cjson \<Rightarrow> bool" where
  "fresh it \<longleftrightarrow> valuestring (head_of it) = None \<and> kids it = [] \<and> \<not> is_reference (jtype (head_of it))"

text \<open>
  What a call of a parsing function keeps: the balance between the blocks in use and those of the
  tree it builds, and the length of the rest of the text.
\<close>

definition balanced :: "jstate \<Rightarrow> int \<Rightarrow> jstate \<Rightarrow> int \<Rightarrow> bool" where
  "balanced st b st' b' \<longleftrightarrow> jlive st' - b' = jlive st - b"

definition shorter :: "char list option \<Rightarrow> char list \<Rightarrow> bool" where
  "shorter r s \<longleftrightarrow> (\<forall>r'. r = Some r' \<longrightarrow> length r' < length s)"

definition pv_ok :: "'d jparser \<Rightarrow> bool" where
  "pv_ok pv \<longleftrightarrow> (\<forall>st it v st' it' r. pv st it v = Inr (st', it', r) \<longrightarrow> fresh it \<longrightarrow>
     balanced st (blocks it) st' (blocks it') \<and> no_refs it' \<and>
     (case v of None \<Rightarrow> r = None | Some s \<Rightarrow> shorter r s))"

lemma fresh_blocks: "fresh it \<Longrightarrow> blocks it = 1 + (if jstring (head_of it) = None then 0 else 1) \<and> no_refs it"
  by (simp add: fresh_def blocks_alt [of it] no_refs_alt [of it] held_by_def)

lemma new_item_fresh:
  "new_item ops al st = (st1, Some it) \<Longrightarrow>
    fresh it \<and> jstring (head_of it) = None \<and> jlive st1 = jlive st + 1 \<and> blocks it = 1"
  "new_item ops al st = (st1, None) \<Longrightarrow> jlive st1 = jlive st"
  by (auto simp: new_item_def jmalloc_def zero_item_def fresh_def Let_def held_by_def split: if_splits)

lemma balanced_trans: "balanced st b st1 b1 \<Longrightarrow> balanced st1 b1 st2 b2 \<Longrightarrow> balanced st b st2 b2"
  by (simp add: balanced_def)

lemma parse_string_ok:
  assumes p: "parse_string al st it s = Inr (st', it', r)" and f: "fresh it"
  shows "balanced st (blocks it) st' (blocks it') \<and> no_refs it' \<and> shorter r s \<and>
    kids it' = [] \<and> jstring (head_of it') = jstring (head_of it) \<and>
    (r \<noteq> None \<longrightarrow> valuestring (head_of it') \<noteq> None)"
proof -
  from p obtain c0 cs where s: "s = c0 # cs" by (auto simp: parse_string_def deref_Inr)
  show ?thesis
  proof (cases "c0 = CHR 0x22")
    case False
    with p s fresh_blocks [OF f] f show ?thesis
      by (auto simp: parse_string_def balanced_def shorter_def fresh_def)
  next
    case True
    with p s obtain len where len: "str_len 0 cs = Inr len" by (auto simp: parse_string_def)
    obtain st1 ok where m: "jmalloc al st (len + 1) = (st1, ok)" by (cases "jmalloc al st (len + 1)")
    have lv: "jlive st1 = jlive st + (if ok then 1 else 0)" using m by (auto simp: jmalloc_def Let_def)
    show ?thesis
    proof (cases ok)
      case False
      with p s True len m lv fresh_blocks [OF f] f show ?thesis
        by (auto simp: parse_string_def balanced_def shorter_def fresh_def)
    next
      case ok: True
      with p s True len m obtain out q c where u: "unescape (length s) None None cs = Inr (out, q)"
        and c: "deref q = Inr c" and r: "r = Some (if c = CHR 0x22 then tl q else q)" and st': "st' = st1"
        and it': "it' = upd_head (\<lambda>h. h\<lparr>valuestring := Some (to_nul out), jtype := cJSON_String\<rparr>) it"
        by (auto simp: parse_string_def)
      have "shorter r s" using unescape_length [OF u] r s by (auto simp: shorter_def)
      moreover have "balanced st (blocks it) st' (blocks it')"
        using f lv ok st' it' by (simp add: balanced_def blocks_alt [of it] blocks_alt [of it'] held_by_def fresh_def)
      moreover have "no_refs it'" using f it' by (simp add: no_refs_alt [of it'] fresh_def)
      ultimately show ?thesis using f it' by (simp add: fresh_def)
    qed
  qed
qed

lemma sum_blocks_snoc [simp]: "(\<Sum>k\<leftarrow>ks @ [c]. blocks k) = (\<Sum>k\<leftarrow>ks. blocks k) + blocks c"
  by simp

text \<open>Parsing one item behind white space, as the array loop does.\<close>

lemma array_loop_ok:
  assumes "pv_ok pv"
  shows "array_loop ops al pv n st ks v = Inr (st', ks', r) \<Longrightarrow> list_all no_refs ks \<Longrightarrow>
    balanced st (\<Sum>k\<leftarrow>ks. blocks k) st' (\<Sum>k\<leftarrow>ks'. blocks k) \<and> list_all no_refs ks' \<and> shorter r v"
proof (induction n arbitrary: st ks v)
  case 0
  then show ?case by simp
next
  case (Suc n)
  from Suc.prems(1) obtain c cs where v: "v = c # cs" by (auto simp: deref_Inr)
  show ?case
  proof (cases "c = CHR '',''")
    case False
    with Suc.prems v show ?thesis by (auto simp: balanced_def shorter_def split: if_splits)
  next
    case c: True
    obtain st1 new where ni: "new_item ops al st = (st1, new)" by (cases "new_item ops al st")
    show ?thesis
    proof (cases new)
      case None
      with Suc.prems v c ni new_item_fresh(2) [of ops al st st1] show ?thesis
        by (auto simp: balanced_def shorter_def)
    next
      case (Some it)
      note f = new_item_fresh(1) [OF ni [unfolded Some]]
      from Suc.prems(1) v c ni Some obtain v1 st2 child v2 v3 where
        v1: "skip (Some cs) = Inr v1" and pv: "pv st1 it v1 = Inr (st2, child, v2)" and v3: "skip v2 = Inr v3"
        and rest: "(case v3 of None \<Rightarrow> Inr (st2, ks @ [child], None)
                | Some v4 \<Rightarrow> array_loop ops al pv n st2 (ks @ [child]) v4) = Inr (st', ks', r)"
        by (auto simp del: skip.simps)
      obtain s1 where s1: "v1 = Some s1" "length s1 \<le> length cs" using skip_length [OF v1] by blast
      have ok: "balanced st1 (blocks it) st2 (blocks child)" "no_refs child" "shorter v2 s1"
        using assms pv f s1 unfolding pv_ok_def by fastforce+
      have bal: "balanced st (\<Sum>k\<leftarrow>ks. blocks k) st2 (\<Sum>k\<leftarrow>ks @ [child]. blocks k)"
        using ok(1) f by (simp add: balanced_def)
      show ?thesis
      proof (cases v3)
        case None
        with rest bal Suc.prems(2) ok(2) show ?thesis by (auto simp: shorter_def)
      next
        case (Some v4)
        with v3 have "length v4 < length v"
          using ok(3) s1 v by (cases v2) (auto simp: shorter_def dest!: skip_list_length)
        moreover have "balanced st2 (\<Sum>k\<leftarrow>ks @ [child]. blocks k) st' (\<Sum>k\<leftarrow>ks'. blocks k) \<and>
            list_all no_refs ks' \<and> shorter r v4"
          by (rule Suc.IH) (use rest Some Suc.prems(2) ok(2) in simp_all)
        ultimately show ?thesis using balanced_trans [OF bal] by (auto simp: shorter_def)
      qed
    qed
  qed
qed

lemma parse_array_ok:
  assumes pv: "pv_ok pv" and p: "parse_array ops al pv st it v = Inr (st', it', r)" and f: "fresh it"
  shows "balanced st (blocks it) st' (blocks it') \<and> no_refs it' \<and> shorter r v"
proof -
  from p obtain c0 cs where v: "v = c0 # cs" by (auto simp: parse_array_def deref_Inr)
  define it1 where "it1 = upd_head (\<lambda>h. h\<lparr>jtype := cJSON_Array\<rparr>) it"
  have it1: "fresh it1" "blocks it1 = blocks it"
    using f by (simp_all add: it1_def fresh_def blocks_alt [of it] blocks_alt [of "upd_head _ it"] held_by_def)
  have kb: "blocks (set_kids it1 ks) = blocks it1 + (\<Sum>k\<leftarrow>ks. blocks k)"
    and kr: "no_refs (set_kids it1 ks) = list_all no_refs ks" for ks
    using it1(1) by (simp_all add: blocks_alt [of it1] fresh_def no_refs_alt [of "set_kids it1 ks"])
  show ?thesis
  proof (cases "c0 = CHR ''[''")
    case False
    with p v fresh_blocks [OF f] show ?thesis by (auto simp: parse_array_def balanced_def shorter_def)
  next
    case c0: True
    with p v obtain c1 cs1 where v1: "skip_list cs = Inr (c1 # cs1)"
      by (auto simp: parse_array_def deref_Inr Let_def)
    have l1: "length (c1 # cs1) < length v" using skip_list_length [OF v1] v by simp
    show ?thesis
    proof (cases "c1 = CHR '']''")
      case True
      with p v c0 v1 it1 l1 fresh_blocks [OF it1(1)] show ?thesis
        by (auto simp: parse_array_def Let_def it1_def balanced_def shorter_def)
    next
      case c1: False
      obtain st1 new where ni: "new_item ops al st = (st1, new)" by (cases "new_item ops al st")
      show ?thesis
      proof (cases new)
        case None
        with p v c0 v1 c1 ni have "st' = st1" "it' = set_kids it1 []" "r = None"
          by (auto simp: parse_array_def Let_def it1_def)
        with kb kr it1 new_item_fresh(2) [OF ni [unfolded None]] show ?thesis
          by (simp add: balanced_def shorter_def del: blocks_simps no_refs_simps)
      next
        case (Some nw)
        note fn = new_item_fresh(1) [OF ni [unfolded Some]]
        from p v c0 v1 c1 ni Some obtain v2 st2 child v3 v4 where
          v2: "skip (Some (c1 # cs1)) = Inr v2" and pvr: "pv st1 nw v2 = Inr (st2, child, v3)" and v4: "skip v3 = Inr v4"
          and rest: "(case v4 of None \<Rightarrow> Inr (st2, set_kids it1 [child], None)
                 | Some v5 \<Rightarrow>
                     rbind (array_loop ops al pv (Suc (length cs)) st2 [child] v5) (\<lambda>(st3, ks, v6).
                       Inr (st3, set_kids it1 ks, v6))) = Inr (st', it', r)"
          by (auto simp: parse_array_def Let_def it1_def [symmetric] simp del: skip.simps array_loop.simps)
        obtain s2 where s2: "v2 = Some s2" "length s2 \<le> length (c1 # cs1)" using skip_length [OF v2] by blast
        have ok: "balanced st1 (blocks nw) st2 (blocks child)" "no_refs child" "shorter v3 s2"
          using pv pvr fn s2 unfolding pv_ok_def by fastforce+
        show ?thesis
        proof (cases v4)
          case None
          with rest have "st' = st2" "it' = set_kids it1 [child]" "r = None" by auto
          with kb kr it1 ok fn show ?thesis by (simp add: balanced_def shorter_def del: blocks_simps no_refs_simps)
        next
          case (Some v5)
          with rest obtain ks where al': "array_loop ops al pv (Suc (length cs)) st2 [child] v5 = Inr (st', ks, r)"
            and it': "it' = set_kids it1 ks" by auto
          from Some v4 have "length v5 < length v"
            using ok(3) s2 l1 by (cases v3) (auto simp: shorter_def dest!: skip_list_length)
          moreover have "balanced st2 (\<Sum>k\<leftarrow>[child]. blocks k) st' (\<Sum>k\<leftarrow>ks. blocks k) \<and> list_all no_refs ks \<and> shorter r v5"
            by (rule array_loop_ok [OF pv al']) (simp add: ok)
          ultimately show ?thesis using it' kb kr it1 ok(1) fn
            by (auto simp: balanced_def shorter_def simp del: blocks_simps no_refs_simps)
        qed
      qed
    qed
  qed
qed

lemma parse_member_ok:
  assumes pv: "pv_ok pv" and p: "parse_member ops al pv st new v = Inr (st', it', r)"
    and f: "fresh new" "jstring (head_of new) = None"
  shows "balanced st (blocks new) st' (blocks it') \<and> no_refs it' \<and> shorter r v"
proof -
  from p obtain v1 where v1: "skip_list v = Inr v1" by (auto simp: parse_member_def)
  from p v1 obtain st1 child v2 where ps: "parse_string al st new v1 = Inr (st1, child, v2)"
    by (auto simp: parse_member_def)
  note pso = parse_string_ok [OF ps f(1)]
  from p v1 ps obtain v3 where v3: "skip v2 = Inr v3" by (auto simp: parse_member_def)
  show ?thesis
  proof (cases v3)
    case None
    with p v1 ps v3 pso show ?thesis by (auto simp: parse_member_def shorter_def)
  next
    case (Some v4)
    then obtain v2' where v2': "v2 = Some v2'" using v3 by (cases v2) auto
    define child1 where "child1 = upd_head (\<lambda>h. h\<lparr>jstring := valuestring h, valuestring := None\<rparr>) child"
    have vs: "valuestring (head_of child) \<noteq> None" "kids child = []" "jstring (head_of child) = None" "no_refs child"
      using pso v2' f(2) by auto
    have c1: "fresh child1" "blocks child1 = blocks child"
      using vs by (auto simp: child1_def fresh_def held_by_def blocks_alt [of child] no_refs_alt [of child])
    have l4: "length v4 < length v"
      using pso v3 Some v2' skip_list_length [OF v1] by (auto simp: shorter_def dest!: skip_list_length)
    from p v1 ps v3 Some obtain c cs where v4: "v4 = c # cs" by (auto simp: parse_member_def Let_def deref_Inr)
    show ?thesis
    proof (cases "c = CHR '':''")
      case False
      with p v1 ps v3 Some v4 have "st' = st1\<lparr>ep := Some v4\<rparr>" "it' = child1" "r = None"
        by (auto simp: parse_member_def child1_def Let_def)
      with pso c1 fresh_blocks [OF c1(1)] show ?thesis by (simp add: balanced_def shorter_def)
    next
      case True
      with p v1 ps v3 Some v4 obtain v5 v6 where v5: "skip (Some cs) = Inr v5"
        and pvr: "pv st1 child1 v5 = Inr (st', it', v6)" and r: "skip v6 = Inr r"
        by (auto simp: parse_member_def Let_def child1_def [symmetric] simp del: skip.simps)
      obtain s5 where s5: "v5 = Some s5" "length s5 \<le> length cs" using skip_length [OF v5] by blast
      have ok: "balanced st1 (blocks child1) st' (blocks it')" "no_refs it'" "shorter v6 s5"
        using pv pvr c1 s5 unfolding pv_ok_def by fastforce+
      have "shorter r v"
        using ok(3) r s5 v4 l4 by (cases v6) (auto simp: shorter_def dest!: skip_list_length)
      moreover have "balanced st (blocks new) st' (blocks it')"
        using pso ok(1) c1(2) balanced_trans by metis
      ultimately show ?thesis using ok by blast
    qed
  qed
qed

lemma object_loop_ok:
  assumes "pv_ok pv"
  shows "object_loop ops al pv n st ks v = Inr (st', ks', r) \<Longrightarrow> list_all no_refs ks \<Longrightarrow>
    balanced st (\<Sum>k\<leftarrow>ks. blocks k) st' (\<Sum>k\<leftarrow>ks'. blocks k) \<and> list_all no_refs ks' \<and> shorter r v"
proof (induction n arbitrary: st ks v)
  case 0
  then show ?case by simp
next
  case (Suc n)
  from Suc.prems(1) obtain c cs where v: "v = c # cs" by (auto simp: deref_Inr)
  show ?case
  proof (cases "c = CHR '',''")
    case False
    with Suc.prems v show ?thesis by (auto simp: balanced_def shorter_def split: if_splits)
  next
    case c: True
    obtain st1 new where ni: "new_item ops al st = (st1, new)" by (cases "new_item ops al st")
    show ?thesis
    proof (cases new)
      case None
      with Suc.prems v c ni new_item_fresh(2) [of ops al st st1] show ?thesis
        by (auto simp: balanced_def shorter_def)
    next
      case (Some it)
      note f = new_item_fresh(1) [OF ni [unfolded Some]]
      from Suc.prems(1) v c ni Some obtain st2 child v1 where
        pm: "parse_member ops al pv st1 it cs = Inr (st2, child, v1)"
        and rest: "(case v1 of None \<Rightarrow> Inr (st2, ks @ [child], None)
                | Some v2 \<Rightarrow> object_loop ops al pv n st2 (ks @ [child]) v2) = Inr (st', ks', r)"
        by auto
      have ok: "balanced st1 (blocks it) st2 (blocks child)" "no_refs child" "shorter v1 cs"
        using parse_member_ok [OF assms pm] f by auto
      have bal: "balanced st (\<Sum>k\<leftarrow>ks. blocks k) st2 (\<Sum>k\<leftarrow>ks @ [child]. blocks k)"
        using ok(1) f by (simp add: balanced_def)
      show ?thesis
      proof (cases v1)
        case None
        with rest bal Suc.prems(2) ok(2) show ?thesis by (auto simp: shorter_def)
      next
        case (Some v2)
        have "balanced st2 (\<Sum>k\<leftarrow>ks @ [child]. blocks k) st' (\<Sum>k\<leftarrow>ks'. blocks k) \<and>
            list_all no_refs ks' \<and> shorter r v2"
          by (rule Suc.IH) (use rest Some Suc.prems(2) ok(2) in simp_all)
        then show ?thesis using balanced_trans [OF bal] ok(3) Some v by (auto simp: shorter_def)
      qed
    qed
  qed
qed

lemma parse_object_ok:
  assumes pv: "pv_ok pv" and p: "parse_object ops al pv st it v = Inr (st', it', r)" and f: "fresh it"
  shows "balanced st (blocks it) st' (blocks it') \<and> no_refs it' \<and> shorter r v"
proof -
  from p obtain c0 cs where v: "v = c0 # cs" by (auto simp: parse_object_def deref_Inr)
  define it1 where "it1 = upd_head (\<lambda>h. h\<lparr>jtype := cJSON_Object\<rparr>) it"
  have it1: "fresh it1" "blocks it1 = blocks it"
    using f by (simp_all add: it1_def fresh_def blocks_alt [of it] held_by_def)
  have kb: "blocks (set_kids it1 ks) = blocks it1 + (\<Sum>k\<leftarrow>ks. blocks k)"
    and kr: "no_refs (set_kids it1 ks) = list_all no_refs ks" for ks
    using it1(1) by (simp_all add: blocks_alt [of it1] fresh_def no_refs_alt [of "set_kids it1 ks"])
  show ?thesis
  proof (cases "c0 = CHR ''{''")
    case False
    with p v fresh_blocks [OF f] show ?thesis by (auto simp: parse_object_def balanced_def shorter_def)
  next
    case c0: True
    with p v obtain c1 cs1 where v1: "skip_list cs = Inr (c1 # cs1)"
      by (auto simp: parse_object_def deref_Inr Let_def)
    have l1: "length (c1 # cs1) < length v" using skip_list_length [OF v1] v by simp
    show ?thesis
    proof (cases "c1 = CHR ''}''")
      case True
      with p v c0 v1 it1 l1 fresh_blocks [OF it1(1)] show ?thesis
        by (auto simp: parse_object_def Let_def it1_def balanced_def shorter_def)
    next
      case c1: False
      obtain st1 new where ni: "new_item ops al st = (st1, new)" by (cases "new_item ops al st")
      show ?thesis
      proof (cases new)
        case None
        with p v c0 v1 c1 ni have "st' = st1" "it' = set_kids it1 []" "r = None"
          by (auto simp: parse_object_def Let_def it1_def)
        with kb kr it1 new_item_fresh(2) [OF ni [unfolded None]] show ?thesis
          by (simp add: balanced_def shorter_def del: blocks_simps no_refs_simps)
      next
        case (Some nw)
        note fn = new_item_fresh(1) [OF ni [unfolded Some]]
        from p v c0 v1 c1 ni Some obtain st2 child v2 where
          pm: "parse_member ops al pv st1 nw (c1 # cs1) = Inr (st2, child, v2)"
          and rest: "(case v2 of None \<Rightarrow> Inr (st2, set_kids it1 [child], None)
                 | Some v3 \<Rightarrow>
                     rbind (object_loop ops al pv (Suc (length cs)) st2 [child] v3) (\<lambda>(st3, ks, v4).
                       Inr (st3, set_kids it1 ks, v4))) = Inr (st', it', r)"
          by (auto simp: parse_object_def Let_def it1_def [symmetric] simp del: object_loop.simps)
        have ok: "balanced st1 (blocks nw) st2 (blocks child)" "no_refs child" "shorter v2 (c1 # cs1)"
          using parse_member_ok [OF pv pm] fn by auto
        show ?thesis
        proof (cases v2)
          case None
          with rest have "st' = st2" "it' = set_kids it1 [child]" "r = None" by auto
          with kb kr it1 ok fn show ?thesis by (simp add: balanced_def shorter_def del: blocks_simps no_refs_simps)
        next
          case (Some v3)
          with rest obtain ks where ol: "object_loop ops al pv (Suc (length cs)) st2 [child] v3 = Inr (st', ks, r)"
            and it': "it' = set_kids it1 ks" by auto
          have "balanced st2 (\<Sum>k\<leftarrow>[child]. blocks k) st' (\<Sum>k\<leftarrow>ks. blocks k) \<and> list_all no_refs ks \<and> shorter r v3"
            by (rule object_loop_ok [OF pv ol]) (simp add: ok)
          then show ?thesis using it' kb kr it1 ok(1,3) fn Some l1
            by (auto simp: balanced_def shorter_def simp del: blocks_simps no_refs_simps)
        qed
      qed
    qed
  qed
qed

lemma parse_literal_ok:
  assumes "parse_literal it s = Inr (Some (it', r))" "fresh it"
  shows "blocks it' = blocks it \<and> no_refs it' \<and> length r < length s"
proof -
  have "s \<noteq> []" using assms(1) starts_with_nonempty unfolding parse_literal_def by fastforce
  with assms show ?thesis
    by (auto simp: parse_literal_def fresh_def held_by_def blocks_alt [of it] split: if_splits)
qed

lemma parse_value_cases:
  assumes "parse_value ops al (Suc f) st it (Some s) = Inr (st', it', r)"
  obtains (lit) r' where "parse_literal it s = Inr (Some (it', r'))" "r = Some r'" "st' = st"
    | (str) "parse_string al st it s = Inr (st', it', r)"
    | (num) c cs r' where "s = c # cs" "c = CHR ''-'' \<or> is_digit c" "parse_number ops it s = Inr (it', r')" "r = Some r'" "st' = st"
    | (arr) "parse_array ops al (parse_value ops al f) st it s = Inr (st', it', r)"
    | (obj) "parse_object ops al (parse_value ops al f) st it s = Inr (st', it', r)"
    | (bad) "st' = st\<lparr>ep := Some s\<rparr>" "it' = it" "r = None"
proof -
  from assms obtain l where l: "parse_literal it s = Inr l" by auto
  show thesis
  proof (cases l)
    case (Some x)
    with assms l lit show thesis by (cases x) auto
  next
    case None
    with assms l obtain c cs where s: "s = c # cs" by (auto simp: deref_Inr)
    then have d: "deref s = Inr c" by simp
    from assms None have
      "(if c = CHR 0x22 then parse_string al st it s
        else if c = CHR ''-'' \<or> is_digit c then rbind (parse_number ops it s) (\<lambda>(it1, r). Inr (st, it1, Some r))
        else if c = CHR ''['' then parse_array ops al (parse_value ops al f) st it s
        else if c = CHR ''{'' then parse_object ops al (parse_value ops al f) st it s
        else Inr (st\<lparr>ep := Some s\<rparr>, it, None)) = Inr (st', it', r)"
      by (simp only: parse_value.simps option.case rbind_Inr d l)
    note e = this
    consider (q) "c = CHR 0x22" | (n) "c \<noteq> CHR 0x22" "c = CHR ''-'' \<or> is_digit c"
      | (a) "c \<noteq> CHR 0x22" "\<not> (c = CHR ''-'' \<or> is_digit c)" "c = CHR ''[''"
      | (o) "c \<noteq> CHR 0x22" "\<not> (c = CHR ''-'' \<or> is_digit c)" "c \<noteq> CHR ''[''" "c = CHR ''{''"
      | (x) "c \<noteq> CHR 0x22" "\<not> (c = CHR ''-'' \<or> is_digit c)" "c \<noteq> CHR ''[''" "c \<noteq> CHR ''{''"
      by blast
    then show thesis
    proof cases
      case q
      with e have "parse_string al st it s = Inr (st', it', r)" by (simp only: if_True refl)
      then show thesis by (rule str)
    next
      case n
      with e have "rbind (parse_number ops it s) (\<lambda>(it1, r). Inr (st, it1, Some r)) = Inr (st', it', r)"
        by (simp only: if_False if_True simp_thms)
      then show thesis using num [OF s n(2)] by auto
    next
      case a
      with e have "parse_array ops al (parse_value ops al f) st it s = Inr (st', it', r)"
        by (simp only: if_False if_True simp_thms)
      then show thesis by (rule arr)
    next
      case o
      with e have "parse_object ops al (parse_value ops al f) st it s = Inr (st', it', r)"
        by (simp only: if_False if_True simp_thms)
      then show thesis by (rule obj)
    next
      case x
      with e have "st' = st\<lparr>ep := Some s\<rparr> \<and> it' = it \<and> r = None"
        by (simp only: if_False if_True simp_thms sum.inject prod.inject)
      then show thesis using bad by blast
    qed
  qed
qed

lemma parse_value_ok: "pv_ok (parse_value ops al f)"
proof (induction f)
  case 0
  then show ?case by (simp add: pv_ok_def)
next
  case (Suc f)
  show ?case
    unfolding pv_ok_def
  proof (intro allI impI)
    fix st it v st' it' r
    assume p: "parse_value ops al (Suc f) st it v = Inr (st', it', r)" and f: "fresh it"
    show "balanced st (blocks it) st' (blocks it') \<and> no_refs it' \<and> (case v of None \<Rightarrow> r = None | Some s \<Rightarrow> shorter r s)"
    proof (cases v)
      case None
      with p fresh_blocks [OF f] show ?thesis by (auto simp: balanced_def)
    next
      case (Some s)
      from p Some have "parse_value ops al (Suc f) st it (Some s) = Inr (st', it', r)" by simp
      then show ?thesis
      proof (cases rule: parse_value_cases)
        case lit
        from parse_literal_ok [OF lit(1) f] lit Some show ?thesis by (simp add: balanced_def shorter_def)
      next
        case str
        from parse_string_ok [OF str f] Some show ?thesis by auto
      next
        case num
        from parse_number_progress [OF num(3) num(1,2)] num Some f show ?thesis
          by (simp add: balanced_def shorter_def blocks_alt [of it] blocks_alt [of it'] fresh_def no_refs_alt [of it'])
      next
        case arr
        from parse_array_ok [OF Suc.IH arr f] Some show ?thesis by auto
      next
        case obj
        from parse_object_ok [OF Suc.IH obj f] Some show ?thesis by auto
      next
        case bad
        with Some fresh_blocks [OF f] show ?thesis by (simp add: balanced_def shorter_def)
      qed
    qed
  qed
qed

subsection \<open>The recursion and the loops end\<close>

lemma ends_deref [simp]: "ends (deref s)"
  by (cases s) auto

lemma ends_skip_list [simp]: "ends (skip_list s)"
  by (induction s) auto

lemma ends_skip [simp]: "ends (skip v)"
  by (cases v) (auto intro: ends_rbind)

lemma ends_starts_with [simp]: "ends (starts_with kw s)"
  by (induction kw s rule: starts_with.induct) auto

lemma ends_loops [simp]:
  "ends (mant_loop ops n s)" "ends (frac_loop ops n sc s)" "ends (exp_loop e s)"
  by (induction s arbitrary: n sc e) auto

lemma ends_str_len [simp]: "ends (str_len n s)"
  by (induction n s rule: str_len.induct) auto

lemma ends_fill [simp]: "ends (fill n s)"
  by (simp add: fill_def)

lemma ends_the_var [simp]: "ends (the_var v)"
  by (cases v) auto

lemma ends_parse_exponent: "ends (parse_exponent s)"
  by (auto simp: parse_exponent_def Let_def intro!: ends_rbind split: prod.splits)

lemma ends_parse_number: "ends (parse_number ops it s)"
  unfolding parse_number_def number_start_def int_part_def frac_part_def
  by (auto simp: Let_def ends_parse_exponent intro!: ends_rbind split: prod.splits)

lemma ends_unescape_one: "ends (unescape_one uc uc2 p)"
  unfolding unescape_one_def unescape_u_def Let_def
  by (auto intro!: ends_rbind split: prod.splits)

lemma ends_unescape: "length p < n \<Longrightarrow> ends (unescape n uc uc2 p)"
proof (induction n arbitrary: uc uc2 p)
  case 0
  then show ?case by simp
next
  case (Suc n)
  show ?case
  proof (cases p)
    case Nil
    then show ?thesis by simp
  next
    case (Cons c cs)
    have "ends (unescape n u u2 cs)" for u u2
      by (rule Suc.IH) (use Suc.prems Cons in simp)
    moreover have "ends (unescape n u u2 (tl q))"
      if "unescape_one uc uc2 cs = Inr (bs, q, x, y)" for u u2 bs q x y
      by (rule Suc.IH) (use unescape_one_length [OF that] Suc.prems Cons in simp)
    ultimately show ?thesis
      using Cons ends_unescape_one by (auto intro!: ends_rbind split: prod.splits)
  qed
qed

lemma ends_parse_string: "ends (parse_string al st it s)"
proof -
  have "ends (unescape (length s) None None (tl s))" if "s \<noteq> []"
    by (rule ends_unescape) (use that in simp)
  then show ?thesis
    by (cases "s = []") (auto simp: parse_string_def Let_def intro!: ends_rbind split: prod.splits)
qed

definition fuel_ok :: "'d jparser \<Rightarrow> nat \<Rightarrow> bool" where
  "fuel_ok pv n \<longleftrightarrow> (\<forall>st it s. fresh it \<longrightarrow> length s < n \<longrightarrow> ends (pv st it (Some s)))"

lemma fuel_okD: "fuel_ok pv n \<Longrightarrow> fresh it \<Longrightarrow> length s < n \<Longrightarrow> ends (pv st it (Some s))"
  by (simp add: fuel_ok_def)

lemma pv_okD:
  "pv_ok pv \<Longrightarrow> pv st it (Some s) = Inr (st', it', r) \<Longrightarrow> fresh it \<Longrightarrow> shorter r s"
  unfolding pv_ok_def by fastforce

lemma shorter_skip:
  "shorter r s \<Longrightarrow> skip r = Inr (Some v) \<Longrightarrow> length v < length s"
  by (cases r) (auto simp: shorter_def dest!: skip_list_length)

lemma ends_array_loop:
  assumes pv: "pv_ok pv" "fuel_ok pv m"
  shows "length v < n \<Longrightarrow> length v \<le> m \<Longrightarrow> ends (array_loop ops al pv n st ks v)"
proof (induction n arbitrary: st ks v)
  case 0
  then show ?case by simp
next
  case (Suc n)
  show ?case
  proof (cases v)
    case Nil
    then show ?thesis by simp
  next
    case (Cons c cs)
    have step: "ends (rbind (skip (Some cs)) (\<lambda>v1. rbind (pv st1 it v1) (\<lambda>(st2, child, v2). rbind (skip v2) (\<lambda>v3.
        case v3 of None \<Rightarrow> Inr (st2, ks @ [child], None) | Some v4 \<Rightarrow> array_loop ops al pv n st2 (ks @ [child]) v4))))" if f: "fresh it" for st1 it
    proof (rule ends_rbind)
      show "ends (skip (Some cs))" by (rule ends_skip)
      fix v1 assume v1: "skip (Some cs) = Inr v1"
      obtain s1 where s1: "v1 = Some s1" "length s1 \<le> length cs" using skip_length [OF v1] by blast
      show "ends (rbind (pv st1 it v1) (\<lambda>(st2, child, v2). rbind (skip v2) (\<lambda>v3.
          case v3 of None \<Rightarrow> Inr (st2, ks @ [child], None) | Some v4 \<Rightarrow> array_loop ops al pv n st2 (ks @ [child]) v4)))"
      proof (rule ends_rbind)
        show "ends (pv st1 it v1)"
          unfolding s1(1) by (rule fuel_okD [OF pv(2) f]) (use s1 Cons Suc.prems in simp)
        fix x assume x: "pv st1 it v1 = Inr x"
        obtain st2 child v2 where x': "x = (st2, child, v2)" by (cases x)
        have sh: "shorter v2 s1" by (rule pv_okD [OF pv(1) x [unfolded x' s1(1)] f])
        have "ends (array_loop ops al pv n st2 (ks @ [child]) v4)" if "skip v2 = Inr (Some v4)" for v4
          by (rule Suc.IH) (use shorter_skip [OF sh that] s1 Cons Suc.prems in simp_all)
        then show "ends ((case x of (st2, child, v2) \<Rightarrow> rbind (skip v2) (\<lambda>v3.
          case v3 of None \<Rightarrow> Inr (st2, ks @ [child], None) | Some v4 \<Rightarrow> array_loop ops al pv n st2 (ks @ [child]) v4)))"
          unfolding x' prod.case by (intro ends_rbind) (auto split: option.splits)
      qed
    qed
    obtain st1 new where ni: "new_item ops al st = (st1, new)" by (cases "new_item ops al st")
    show ?thesis
      using Cons step [of _ st1] new_item_fresh(1) [of ops al st st1] ni
      by (cases new) (auto simp del: skip.simps)
  qed
qed

lemma ends_parse_array:
  assumes pv: "pv_ok pv" "fuel_ok pv m" and f: "fresh it" and v: "length v \<le> m"
  shows "ends (parse_array ops al pv st it v)"
proof (cases v)
  case Nil
  then show ?thesis by (simp add: parse_array_def)
next
  case (Cons c0 cs)
  obtain st1 new where ni: "new_item ops al st = (st1, new)" by (cases "new_item ops al st")
  have step: "ends (rbind (skip (Some v1)) (\<lambda>v2. rbind (pv st1 nw v2) (\<lambda>(st2, child, v3). rbind (skip v3) (\<lambda>v4.
        case v4 of None \<Rightarrow> Inr (st2, set_kids it1 [child], None)
        | Some v5 \<Rightarrow> rbind (array_loop ops al pv (Suc (length cs)) st2 [child] v5) (\<lambda>(st3, ks, v6).
                       Inr (st3, set_kids it1 ks, v6))))))"
    if v1: "skip_list cs = Inr v1" and nw: "fresh nw" for v1 nw it1
  proof (rule ends_rbind)
    show "ends (skip (Some v1))" by (rule ends_skip)
    fix v2 assume v2: "skip (Some v1) = Inr v2"
    obtain s2 where s2: "v2 = Some s2" "length s2 \<le> length v1" using skip_length [OF v2] by blast
    have l2: "length s2 < length v" using s2 skip_list_length [OF v1] Cons by simp
    show "ends (rbind (pv st1 nw v2) (\<lambda>(st2, child, v3). rbind (skip v3) (\<lambda>v4.
        case v4 of None \<Rightarrow> Inr (st2, set_kids it1 [child], None)
        | Some v5 \<Rightarrow> rbind (array_loop ops al pv (Suc (length cs)) st2 [child] v5) (\<lambda>(st3, ks, v6).
                       Inr (st3, set_kids it1 ks, v6)))))"
    proof (rule ends_rbind)
      show "ends (pv st1 nw v2)"
        unfolding s2(1) by (rule fuel_okD [OF pv(2) nw]) (use l2 v in simp)
      fix x assume x: "pv st1 nw v2 = Inr x"
      obtain st2 child v3 where x': "x = (st2, child, v3)" by (cases x)
      have sh: "shorter v3 s2" by (rule pv_okD [OF pv(1) x [unfolded x' s2(1)] nw])
      have "ends (array_loop ops al pv (Suc (length cs)) st2 [child] v5)" if "skip v3 = Inr (Some v5)" for v5
        by (rule ends_array_loop [OF pv]) (use shorter_skip [OF sh that] l2 v Cons in simp_all)
      then show "ends ((case x of (st2, child, v3) \<Rightarrow> rbind (skip v3) (\<lambda>v4.
        case v4 of None \<Rightarrow> Inr (st2, set_kids it1 [child], None)
        | Some v5 \<Rightarrow> rbind (array_loop ops al pv (Suc (length cs)) st2 [child] v5) (\<lambda>(st3, ks, v6).
                       Inr (st3, set_kids it1 ks, v6)))))"
        unfolding x' prod.case by (intro ends_rbind) (auto intro!: ends_rbind split: option.splits)
    qed
  qed
  show ?thesis
    using Cons step new_item_fresh(1) [of ops al st st1] ni
    by (cases new) (auto simp: parse_array_def Let_def intro!: ends_rbind simp del: skip.simps array_loop.simps)
qed

lemma ends_parse_member:
  assumes pv: "pv_ok pv" "fuel_ok pv m" and f: "fresh new" "jstring (head_of new) = None" and v: "length v \<le> m"
  shows "ends (parse_member ops al pv st new v)"
  unfolding parse_member_def
proof (rule ends_rbind)
  show "ends (skip_list v)" by simp
  fix v1 assume v1: "skip_list v = Inr v1"
  let ?rest = "\<lambda>(st1, child, v2). rbind (skip v2) (\<lambda>v3.
       case v3 of None \<Rightarrow> Inr (st1, child, None)
       | Some v4 \<Rightarrow>
           let child1 = upd_head (\<lambda>h. h\<lparr>jstring := valuestring h, valuestring := None\<rparr>) child in
           rbind (deref v4) (\<lambda>c.
             if c \<noteq> CHR '':'' then Inr (st1\<lparr>ep := Some v4\<rparr>, child1, None)
             else rbind (skip (Some (tl v4))) (\<lambda>v5.
                  rbind (pv st1 child1 v5) (\<lambda>(st2, child2, v6).
                  rbind (skip v6) (\<lambda>v7. Inr (st2, child2, v7))))))"
  show "ends (rbind (parse_string al st new v1) ?rest)"
  proof (rule ends_rbind)
    show "ends (parse_string al st new v1)" by (rule ends_parse_string)
    fix x assume x: "parse_string al st new v1 = Inr x"
    obtain st1 child v2 where x': "x = (st1, child, v2)" by (cases x)
    note pso = parse_string_ok [OF x [unfolded x'] f(1)]
    define child1 where "child1 = upd_head (\<lambda>h. h\<lparr>jstring := valuestring h, valuestring := None\<rparr>) child"
    have c1: "fresh child1" using pso by (simp add: child1_def fresh_def no_refs_alt [of child])
    have tail: "ends (rbind (skip (Some cs)) (\<lambda>v5. rbind (pv st1 child1 v5) (\<lambda>(st2, child2, v6).
        rbind (skip v6) (\<lambda>v7. Inr (st2, child2, v7)))))" if cs: "skip v2 = Inr (Some (c # cs))" for c cs
    proof (rule ends_rbind)
      show "ends (skip (Some cs))" by (rule ends_skip)
      fix v5 assume v5: "skip (Some cs) = Inr v5"
      obtain s5 where s5: "v5 = Some s5" "length s5 \<le> length cs" using skip_length [OF v5] by blast
      have "shorter v2 v1" using pso by blast
      then have "length (c # cs) < length v1" by (rule shorter_skip [OF _ cs])
      then have "length s5 < m" using s5 skip_list_length [OF v1] v by simp
      then have "ends (pv st1 child1 v5)" unfolding s5(1) by (rule fuel_okD [OF pv(2) c1])
      then show "ends (rbind (pv st1 child1 v5) (\<lambda>(st2, child2, v6). rbind (skip v6) (\<lambda>v7. Inr (st2, child2, v7))))"
        by (rule ends_rbind) (auto split: prod.splits)
    qed
    show "ends (?rest x)"
      unfolding x' prod.case child1_def [symmetric] Let_def
    proof (rule ends_rbind)
      fix v3 assume "skip v2 = Inr v3"
      show "ends (case v3 of None \<Rightarrow> Inr (st1, child, None)
       | Some v4 \<Rightarrow> rbind (deref v4) (\<lambda>c.
             if c \<noteq> CHR '':'' then Inr (st1\<lparr>ep := Some v4\<rparr>, child1, None)
             else rbind (skip (Some (tl v4))) (\<lambda>v5.
                  rbind (pv st1 child1 v5) (\<lambda>(st2, child2, v6).
                  rbind (skip v6) (\<lambda>v7. Inr (st2, child2, v7))))))"
      proof (cases v3)
        case None
        then show ?thesis by simp
      next
        case (Some v4)
        show ?thesis
          unfolding Some option.case
        proof (rule ends_rbind)
          fix c assume "deref v4 = Inr c"
          then obtain cs where "v4 = c # cs" by (auto simp: deref_Inr)
          with tail [of c cs] \<open>skip v2 = Inr v3\<close> Some
          show "ends (if c \<noteq> CHR '':'' then Inr (st1\<lparr>ep := Some v4\<rparr>, child1, None)
             else rbind (skip (Some (tl v4))) (\<lambda>v5.
                  rbind (pv st1 child1 v5) (\<lambda>(st2, child2, v6).
                  rbind (skip v6) (\<lambda>v7. Inr (st2, child2, v7)))))" by (simp del: skip.simps)
        qed simp
      qed
    qed simp
  qed
qed

lemma ends_object_loop:
  assumes pv: "pv_ok pv" "fuel_ok pv m"
  shows "length v < n \<Longrightarrow> length v \<le> m \<Longrightarrow> ends (object_loop ops al pv n st ks v)"
proof (induction n arbitrary: st ks v)
  case 0
  then show ?case by simp
next
  case (Suc n)
  show ?case
  proof (cases v)
    case Nil
    then show ?thesis by simp
  next
    case (Cons c cs)
    obtain st1 new where ni: "new_item ops al st = (st1, new)" by (cases "new_item ops al st")
    show ?thesis
    proof (cases new)
      case None
      with Cons ni show ?thesis by simp
    next
      case (Some it)
      note f = new_item_fresh(1) [OF ni [unfolded Some]]
      have m: "ends (parse_member ops al pv st1 it cs)"
        by (rule ends_parse_member [OF pv]) (use f Suc.prems Cons in simp_all)
      have "ends (object_loop ops al pv n st2 (ks @ [child]) v2)"
        if "parse_member ops al pv st1 it cs = Inr (st2, child, Some v2)" for st2 child v2
        by (rule Suc.IH) (use parse_member_ok [OF pv(1) that] f Suc.prems Cons in \<open>simp_all add: shorter_def\<close>)
      with m Cons ni Some show ?thesis by (auto split: option.splits)
    qed
  qed
qed

lemma ends_parse_object:
  assumes pv: "pv_ok pv" "fuel_ok pv m" and f: "fresh it" and v: "length v \<le> m"
  shows "ends (parse_object ops al pv st it v)"
proof (cases v)
  case Nil
  then show ?thesis by (simp add: parse_object_def)
next
  case (Cons c0 cs)
  obtain st1 new where ni: "new_item ops al st = (st1, new)" by (cases "new_item ops al st")
  have step: "ends (rbind (parse_member ops al pv st1 nw v1) (\<lambda>(st2, child, v2).
        case v2 of None \<Rightarrow> Inr (st2, set_kids it1 [child], None)
        | Some v3 \<Rightarrow> rbind (object_loop ops al pv (Suc (length cs)) st2 [child] v3) (\<lambda>(st3, ks, v4).
                       Inr (st3, set_kids it1 ks, v4))))"
    if v1: "skip_list cs = Inr v1" and nw: "fresh nw" "jstring (head_of nw) = None" for v1 nw it1
  proof (rule ends_rbind)
    have l1: "length v1 < length v" using skip_list_length [OF v1] Cons by simp
    show "ends (parse_member ops al pv st1 nw v1)" by (rule ends_parse_member [OF pv nw]) (use l1 v in simp)
    fix x assume x: "parse_member ops al pv st1 nw v1 = Inr x"
    obtain st2 child v2 where x': "x = (st2, child, v2)" by (cases x)
    have sh: "shorter v2 v1" using parse_member_ok [OF pv(1) x [unfolded x'] nw] by blast
    have "ends (object_loop ops al pv (Suc (length cs)) st2 [child] v3)" if "v2 = Some v3" for v3
      by (rule ends_object_loop [OF pv]) (use sh that l1 v Cons in \<open>simp_all add: shorter_def\<close>)
    then show "ends (case x of (st2, child, v2) \<Rightarrow>
        case v2 of None \<Rightarrow> Inr (st2, set_kids it1 [child], None)
        | Some v3 \<Rightarrow> rbind (object_loop ops al pv (Suc (length cs)) st2 [child] v3) (\<lambda>(st3, ks, v4).
                       Inr (st3, set_kids it1 ks, v4)))"
      unfolding x' prod.case by (auto intro!: ends_rbind split: option.splits)
  qed
  show ?thesis
    using Cons step new_item_fresh(1) [of ops al st st1] ni
    by (cases new) (auto simp: parse_object_def Let_def intro!: ends_rbind simp del: object_loop.simps)
qed

lemma parse_value_ends: "fuel_ok (parse_value ops al f) f"
proof (induction f)
  case 0
  then show ?case by (auto simp: fuel_ok_def)
next
  case (Suc f)
  have "ends (parse_value ops al (Suc f) st it (Some s))" if f: "fresh it" and len: "length s < Suc f" for st it s
  proof -
    have "length s \<le> f" using len by simp
    note sub = ends_parse_array [OF parse_value_ok Suc.IH f this, of ops al st]
      ends_parse_object [OF parse_value_ok Suc.IH f this, of ops al st]
      ends_parse_string [of al st it s] ends_parse_number [of ops it s]
    have lit: "ends (parse_literal it s)" by (auto simp: parse_literal_def intro!: ends_rbind)
    have num: "ends (rbind (parse_number ops it s) (\<lambda>(it1, r). Inr (st, it1, Some r)))"
      by (rule ends_rbind) (auto simp: sub split: prod.splits)
    show ?thesis
      unfolding parse_value.simps option.case
    proof (rule ends_rbind [OF lit])
      fix l assume "parse_literal it s = Inr l"
      show "ends (case l of Some (it1, r) \<Rightarrow> Inr (st, it1, Some r)
           | None \<Rightarrow> rbind (deref s) (\<lambda>c.
               if c = CHR 0x22 then parse_string al st it s
               else if c = CHR ''-'' \<or> is_digit c then
                 rbind (parse_number ops it s) (\<lambda>(it1, r). Inr (st, it1, Some r))
               else if c = CHR ''['' then parse_array ops al (parse_value ops al f) st it s
               else if c = CHR ''{'' then parse_object ops al (parse_value ops al f) st it s
               else Inr (st\<lparr>ep := Some s\<rparr>, it, None)))"
      proof (cases l)
        case None
        show ?thesis unfolding None option.case by (rule ends_rbind) (simp_all add: sub num)
      next
        case (Some x)
        then show ?thesis by (cases x) simp
      qed
    qed
  qed
  then show ?case by (simp add: fuel_ok_def)
qed

lemma cJSON_Parse_ends:
  assumes "length v < f"
  shows "ends (cJSON_Parse ops al f st v)"
proof -
  obtain st1 new where ni: "new_item ops al st = (st1, new)" by (cases "new_item ops al st")
  have "ends (parse_value ops al f st2 it r)" if "fresh it" "skip (Some v) = Inr r" for st2 it r
    using skip_length [OF that(2)] fuel_okD [OF parse_value_ends that(1)] assms by (metis le_less_trans)
  with ni new_item_fresh(1) [of ops al st st1] show ?thesis
    by (cases new) (auto simp: cJSON_Parse_def intro!: ends_rbind simp del: skip.simps)
qed

lemma cJSON_Parse_live:
  assumes p: "cJSON_Parse ops al f st v = Inr (st', it)"
  shows "jlive st' = jlive st + (case it of None \<Rightarrow> 0 | Some t \<Rightarrow> blocks t)"
proof -
  obtain st1 new where ni: "new_item ops al st = (st1, new)" by (cases "new_item ops al st")
  show ?thesis
  proof (cases new)
    case None
    with p ni new_item_fresh(2) [of ops al st st1] show ?thesis by (auto simp: cJSON_Parse_def)
  next
    case (Some c)
    note f = new_item_fresh(1) [OF ni [unfolded Some]]
    from p ni Some obtain v1 st2 t r where pv: "parse_value ops al f (st1\<lparr>ep := None\<rparr>) c v1 = Inr (st2, t, r)"
      and res: "(if r = None then Inr (json_delete st2 [t], None) else Inr (st2, Some t)) = (Inr (st', it) :: (jstate \<times> 'a cjson option) res)"
      unfolding cJSON_Parse_def by (auto simp del: skip.simps)
    have bal: "balanced (st1\<lparr>ep := None\<rparr>) (blocks c) st2 (blocks t)" "no_refs t"
      using parse_value_ok [of ops al f] pv f unfolding pv_ok_def by blast+
    show ?thesis
    proof (cases "r = None")
      case True
      with res have "st' = json_delete st2 [t]" "it = None" by auto
      with bal f json_delete_live [of "[t]" st2] show ?thesis by (simp add: balanced_def)
    next
      case False
      with res bal f show ?thesis by (auto simp: balanced_def)
    qed
  qed
qed

subsection \<open>Properties\<close>



end
