(* ===== verification/CJson_Safety.thy ===== *)
theory CJson_Safety
  imports CJson_Parser
begin

text \<open>
  Where the parser of \<open>cJSON.c\<close> leaves the buffer and where it does not: on a text without
  backslashes every pointer stays at or before the terminator; with one, the first pass of
  \<open>parse_string\<close> can step over the terminator and \<open>\u\<close> can read an uninitialised variable.
\<close>

subsection \<open>Texts without backslashes\<close>

text \<open>
  \<open>clean s\<close>: the rest of the text still holds the terminator and no backslash. The pointers of the
  parser then never pass the terminator.
\<close>

definition clean :: "char list \<Rightarrow> bool" where
  "clean s \<longleftrightarrow> NUL \<in> set s \<and> CHR 0x5C \<notin> set s"

lemma cleanD: "clean s \<Longrightarrow> \<exists>c cs. s = c # cs \<and> c \<noteq> CHR 0x5C \<and> (c \<noteq> NUL \<longrightarrow> clean cs)"
  by (cases s) (auto simp: clean_def)

lemma clean_Cons [simp]: "clean (c # cs) \<longleftrightarrow> c \<noteq> CHR 0x5C \<and> (c = NUL \<and> CHR 0x5C \<notin> set cs \<or> clean cs)"
  by (auto simp: clean_def)

lemma not_clean_Nil [simp]: "\<not> clean []"
  by (simp add: clean_def)

definition finds :: "'a res \<Rightarrow> ('a \<Rightarrow> bool) \<Rightarrow> bool" where
  "finds m P \<longleftrightarrow> (\<exists>x. m = Inr x \<and> P x)"

lemma finds_Inr [simp]: "finds (Inr x) P \<longleftrightarrow> P x"
  by (simp add: finds_def)

lemma finds_rbind: "finds m P \<Longrightarrow> (\<And>x. m = Inr x \<Longrightarrow> P x \<Longrightarrow> finds (f x) Q) \<Longrightarrow> finds (rbind m f) Q"
  by (auto simp: finds_def)

lemma clean_deref: "clean s \<Longrightarrow> finds (deref s) (\<lambda>c. s = c # tl s)"
  by (cases s) auto

lemma clean_skip_list: "clean s \<Longrightarrow> finds (skip_list s) clean"
  by (induction s) auto

lemma clean_skip: "clean s \<Longrightarrow> finds (skip (Some s)) (\<lambda>r. \<exists>r'. r = Some r' \<and> clean r')"
  using clean_skip_list [of s] by (auto simp: finds_def)

lemma clean_skip_opt: "(\<And>s. v = Some s \<Longrightarrow> clean s) \<Longrightarrow> finds (skip v) (\<lambda>r. \<forall>s. r = Some s \<longrightarrow> clean s)"
proof (cases v)
  case None
  then show "finds (skip v) (\<lambda>r. \<forall>s. r = Some s \<longrightarrow> clean s)" by simp
next
  case (Some s)
  assume "\<And>s. v = Some s \<Longrightarrow> clean s"
  from clean_skip [OF this [OF Some]] Some show "finds (skip v) (\<lambda>r. \<forall>s. r = Some s \<longrightarrow> clean s)"
    unfolding finds_def by blast
qed

lemma clean_starts_with:
  "clean s \<Longrightarrow> nul_free kw \<Longrightarrow> finds (starts_with kw s) (\<lambda>b. b \<longrightarrow> clean (drop (length kw) s))"
proof (induction kw arbitrary: s)
  case Nil
  then show ?case by simp
next
  case (Cons k kw)
  obtain c cs where c: "s = c # cs" "c \<noteq> NUL \<longrightarrow> clean cs" using cleanD [OF Cons.prems(1)] by blast
  show ?case
  proof (cases "k = c")
    case True
    with Cons.prems(2) c have "clean cs" by simp
    with Cons.IH [of cs] Cons.prems(2) c True show ?thesis by simp
  next
    case False
    with c show ?thesis by simp
  qed
qed

lemma digit_not_NUL: "is_digit c \<Longrightarrow> c \<noteq> NUL"
  by (auto simp: less_eq_char_def)

lemma clean_mant_loop: "clean s \<Longrightarrow> finds (mant_loop ops n s) (\<lambda>(m, r). clean r)"
  by (induction s arbitrary: n) (auto dest: digit_not_NUL)

lemma clean_frac_loop: "clean s \<Longrightarrow> finds (frac_loop ops n sc s) (\<lambda>(m, sc', r). clean r)"
  by (induction s arbitrary: n sc) (auto dest: digit_not_NUL)

lemma clean_exp_loop: "clean s \<Longrightarrow> finds (exp_loop e s) (\<lambda>(e', r). clean r)"
  by (induction s arbitrary: e) (auto dest: digit_not_NUL)

lemma clean_number_start: "clean s \<Longrightarrow> finds (number_start ops s) (\<lambda>(sg, r). clean r)"
proof -
  assume s: "clean s"
  then obtain c cs where c: "s = c # cs" "c \<noteq> NUL \<longrightarrow> clean cs" using cleanD by blast
  define s1 where "s1 = (if c = CHR ''-'' then cs else s)"
  have "clean s1" using s c by (auto simp: s1_def)
  then obtain d ds where d: "s1 = d # ds" "d \<noteq> NUL \<longrightarrow> clean ds" using cleanD by blast
  show ?thesis
    using c d \<open>clean s1\<close> by (cases "c = CHR ''-''") (auto simp: number_start_def s1_def)
qed

lemma clean_int_part: "clean s \<Longrightarrow> finds (int_part ops s) (\<lambda>(n, r). clean r)"
proof -
  assume s: "clean s"
  then obtain c cs where c: "s = c # cs" using cleanD by blast
  have m: "finds (mant_loop ops (f_of_int ops 0) s) (\<lambda>(n, r). clean r)" by (rule clean_mant_loop [OF s])
  have d: "deref s = Inr c" using c by simp
  show ?thesis
  proof (cases "CHR ''1'' \<le> c \<and> c \<le> CHR ''9''")
    case True
    with m show ?thesis by (simp only: int_part_def d rbind_Inr if_True simp_thms)
  next
    case False
    with s show ?thesis unfolding int_part_def d rbind_Inr if_not_P [OF False] by simp
  qed
qed

lemma clean_frac_part: "clean s \<Longrightarrow> finds (frac_part ops n s) (\<lambda>(n', sc, r). clean r)"
proof -
  assume s: "clean s"
  then obtain c cs where c: "s = c # cs" "c \<noteq> NUL \<longrightarrow> clean cs" using cleanD by blast
  show ?thesis
  proof (cases "c = CHR ''.''")
    case False
    with s c show ?thesis by (simp add: frac_part_def)
  next
    case True
    then have cs: "clean cs" using c by simp
    then obtain d ds where d: "cs = d # ds" using cleanD by blast
    have m: "finds (frac_loop ops n (f_of_int ops 0) cs) (\<lambda>(n', sc, r). clean r)" by (rule clean_frac_loop [OF cs])
    have e: "frac_part ops n s = (if is_digit d then frac_loop ops n (f_of_int ops 0) cs else Inr (n, f_of_int ops 0, s))"
      using c d True by (simp add: frac_part_def)
    show ?thesis using m s unfolding e by (cases "is_digit d") (simp_all only: simp_thms if_True if_False finds_Inr prod.case)
  qed
qed

lemma clean_parse_exponent: "clean s \<Longrightarrow> finds (parse_exponent s) (\<lambda>(e, sg, r). clean r)"
proof -
  assume s: "clean s"
  then obtain c cs where c: "s = c # cs" "c \<noteq> NUL \<longrightarrow> clean cs" using cleanD by blast
  show ?thesis
  proof (cases "c = CHR ''e'' \<or> c = CHR ''E''")
    case False
    with s c show ?thesis by (simp add: parse_exponent_def)
  next
    case True
    then have "clean cs" using c by auto
    then obtain d ds where d: "cs = d # ds" "d \<noteq> NUL \<longrightarrow> clean ds" using cleanD by blast
    define s1 where "s1 = (if d = CHR ''+'' \<or> d = CHR ''-'' then ds else cs)"
    define sg :: int where "sg = (if d = CHR ''-'' then -1 else 1)"
    have "parse_exponent s = rbind (exp_loop 0 s1) (\<lambda>(e, s2). Inr (e, sg, s2))"
      using True c d by (auto simp: parse_exponent_def s1_def sg_def)
    moreover have "clean s1" using d \<open>clean cs\<close> by (auto simp: s1_def)
    then have "finds (rbind (exp_loop 0 s1) (\<lambda>(e, s2). Inr (e, sg, s2))) (\<lambda>(e, sg, r). clean r)"
      by (rule finds_rbind [OF clean_exp_loop]) (simp split: prod.splits)
    ultimately show ?thesis by simp
  qed
qed

lemma clean_parse_number: "clean s \<Longrightarrow> finds (parse_number ops it s) (\<lambda>(it', r). clean r)"
  unfolding parse_number_def
  by (rule finds_rbind [OF clean_number_start], assumption, clarify,
      rule finds_rbind [OF clean_int_part], assumption, clarify,
      rule finds_rbind [OF clean_frac_part], assumption, clarify,
      rule finds_rbind [OF clean_parse_exponent], assumption) (auto simp: Let_def)

text \<open>Both passes of \<open>parse_string\<close> stop at the same character and agree on the length.\<close>

lemma clean_unescape:
  "clean p \<Longrightarrow> length p < n \<Longrightarrow> \<exists>out r. unescape n uc uc2 p = Inr (out, r) \<and> clean r \<and> str_len k p = Inr (k + length out) \<and>
    (\<exists>c cs. r = c # cs \<and> (c = CHR 0x22 \<or> c = NUL))"
proof (induction n arbitrary: p k)
  case 0
  then show ?case by simp
next
  case (Suc n)
  obtain c cs where p: "p = c # cs" "c \<noteq> CHR 0x5C" "c \<noteq> NUL \<longrightarrow> clean cs" using cleanD [OF Suc.prems(1)] by blast
  show ?case
  proof (cases "c = CHR 0x22 \<or> c = NUL")
    case True
    with Suc.prems p show ?thesis by auto
  next
    case False
    with Suc.IH [of cs "Suc k"] Suc.prems p show ?thesis by auto
  qed
qed

lemma clean_parse_string:
  assumes "clean s"
  shows "finds (parse_string al st it s) (\<lambda>(st', it', r). \<forall>r'. r = Some r' \<longrightarrow> clean r')"
proof -
  obtain c cs where s: "s = c # cs" "c \<noteq> NUL \<longrightarrow> clean cs" using cleanD [OF assms] by blast
  show ?thesis
  proof (cases "c = CHR 0x22")
    case False
    with s show ?thesis by (simp add: parse_string_def)
  next
    case True
    with s have "clean cs" by simp
    from clean_unescape [OF this, of "length s" None None 0] obtain out d ds where
      u: "unescape (length s) None None cs = Inr (out, d # ds)" "clean (d # ds)" "str_len 0 cs = Inr (length out)"
      using s by auto
    obtain st1 ok where m: "jmalloc al st (length out + 1) = (st1, ok)" by (cases "jmalloc al st (length out + 1)")
    from u(1) s have u1: "unescape (Suc (length cs)) None None cs = Inr (out, d # ds)" by simp
    show ?thesis using s True u u1 m by (auto simp: parse_string_def fill_def cstr_def simp del: unescape.simps)
  qed
qed

definition clean_pv :: "'d jparser \<Rightarrow> nat \<Rightarrow> bool" where
  "clean_pv pv n \<longleftrightarrow> (\<forall>st it s. fresh it \<longrightarrow> clean s \<longrightarrow> length s < n \<longrightarrow>
     finds (pv st it (Some s)) (\<lambda>(st', it', r). \<forall>r'. r = Some r' \<longrightarrow> clean r'))"

lemma clean_pvD: "clean_pv pv n \<Longrightarrow> fresh it \<Longrightarrow> clean s \<Longrightarrow> length s < n \<Longrightarrow>
    finds (pv st it (Some s)) (\<lambda>(st', it', r). \<forall>r'. r = Some r' \<longrightarrow> clean r')"
  by (simp add: clean_pv_def)

text \<open>An item behind white space and the white space after it.\<close>

lemma clean_item:
  assumes pv: "pv_ok pv" "clean_pv pv m" and f: "fresh it" and s: "clean s" "length s < m"
  shows "finds (rbind (skip (Some s)) (\<lambda>v1. rbind (pv st it v1) (\<lambda>(st2, child, v2). rbind (skip v2) (\<lambda>v3. Inr (st2, child, v3)))))
    (\<lambda>(st2, child, v3). \<forall>r. v3 = Some r \<longrightarrow> clean r \<and> length r < length s)"
proof (rule finds_rbind [OF clean_skip [OF s(1)]])
  fix v1 assume v1: "skip (Some s) = Inr v1" "\<exists>r'. v1 = Some r' \<and> clean r'"
  then obtain s1 where s1: "v1 = Some s1" "clean s1" "length s1 \<le> length s" using skip_length [OF v1(1)] by auto
  have "finds (pv st it v1) (\<lambda>(st', it', r). \<forall>r'. r = Some r' \<longrightarrow> clean r')"
    unfolding s1(1) by (rule clean_pvD [OF pv(2) f s1(2)]) (use s1 s in simp)
  then show "finds (rbind (pv st it v1) (\<lambda>(st2, child, v2). rbind (skip v2) (\<lambda>v3. Inr (st2, child, v3))))
    (\<lambda>(st2, child, v3). \<forall>r. v3 = Some r \<longrightarrow> clean r \<and> length r < length s)"
  proof (rule finds_rbind)
    fix x assume x: "pv st it v1 = Inr x" "case x of (st', it', r) \<Rightarrow> \<forall>r'. r = Some r' \<longrightarrow> clean r'"
    obtain st2 child v2 where x': "x = (st2, child, v2)" by (cases x)
    have sh: "shorter v2 s1" by (rule pv_okD [OF pv(1) x(1) [unfolded x' s1(1)] f])
    have "finds (skip v2) (\<lambda>r. \<forall>s. r = Some s \<longrightarrow> clean s)" by (rule clean_skip_opt) (use x x' in auto)
    then show "finds (case x of (st2, child, v2) \<Rightarrow> rbind (skip v2) (\<lambda>v3. Inr (st2, child, v3)))
      (\<lambda>(st2, child, v3). \<forall>r. v3 = Some r \<longrightarrow> clean r \<and> length r < length s)"
      unfolding x' prod.case
      by (rule finds_rbind) (use shorter_skip [OF sh] s1 in fastforce)
  qed
qed

lemma item_bind:
  "rbind (skip v) (\<lambda>v1. rbind (pv st it v1) (\<lambda>(a, b, c). rbind (skip c) (\<lambda>d. K a b d))) =
   rbind (rbind (skip v) (\<lambda>v1. rbind (pv st it v1) (\<lambda>(a, b, c). rbind (skip c) (\<lambda>d. Inr (a, b, d))))) (\<lambda>(a, b, d). K a b d)"
  by (simp add: rbind_assoc case_prod_unfold)

abbreviation clean_result :: "jstate \<times> 'a \<times> char list option \<Rightarrow> bool" where
  "clean_result x \<equiv> (case x of (st', a, r) \<Rightarrow> \<forall>r'. r = Some r' \<longrightarrow> clean r')"

lemma clean_array_loop:
  assumes pv: "pv_ok pv" "clean_pv pv m"
  shows "clean v \<Longrightarrow> length v < n \<Longrightarrow> length v \<le> m \<Longrightarrow> finds (array_loop ops al pv n st ks v) clean_result"
proof (induction n arbitrary: st ks v)
  case 0
  then show ?case by simp
next
  case (Suc n)
  obtain c cs where v: "v = c # cs" "c \<noteq> NUL \<longrightarrow> clean cs" using cleanD [OF Suc.prems(1)] by blast
  show ?case
  proof (cases "c = CHR '',''")
    case False
    with v Suc.prems(1) show ?thesis by auto
  next
    case c: True
    then have cs: "clean cs" "length cs < m" using v Suc.prems by simp_all
    obtain st1 new where ni: "new_item ops al st = (st1, new)" by (cases "new_item ops al st")
    show ?thesis
    proof (cases new)
      case None
      with v c ni show ?thesis by simp
    next
      case (Some it)
      have f: "fresh it" using new_item_fresh(1) [OF ni [unfolded Some]] by blast
      have eq: "array_loop ops al pv (Suc n) st ks v =
          rbind (skip (Some cs)) (\<lambda>v1. rbind (pv st1 it v1) (\<lambda>(a, b, c). rbind (skip c) (\<lambda>d.
            case d of None \<Rightarrow> Inr (a, ks @ [b], None) | Some v4 \<Rightarrow> array_loop ops al pv n a (ks @ [b]) v4)))"
        using v c ni Some by simp
      show ?thesis
        unfolding eq
      proof (subst item_bind, rule finds_rbind [OF clean_item [OF pv f cs]])
        fix x :: "jstate \<times> 'a cjson \<times> char list option"
        assume "case x of (st2, child, v3) \<Rightarrow> \<forall>r. v3 = Some r \<longrightarrow> clean r \<and> length r < length cs"
        then obtain a b d where x: "x = (a, b, d)" and d: "\<And>r. d = Some r \<Longrightarrow> clean r \<and> length r < length cs"
          by (cases x) auto
        have "finds (array_loop ops al pv n a (ks @ [b]) r) clean_result" if "d = Some r" for r
          by (rule Suc.IH) (use d [OF that] v Suc.prems in simp_all)
        then show "finds (case x of (a, b, d) \<Rightarrow> case d of None \<Rightarrow> Inr (a, ks @ [b], None)
            | Some v4 \<Rightarrow> array_loop ops al pv n a (ks @ [b]) v4) clean_result"
          unfolding x by (cases d) simp_all
      qed
    qed
  qed
qed

lemma clean_parse_array:
  assumes pv: "pv_ok pv" "clean_pv pv m" and f: "fresh it" and v: "clean v" "length v \<le> m"
  shows "finds (parse_array ops al pv st it v) clean_result"
proof -
  obtain c cs where c: "v = c # cs" "c \<noteq> NUL \<longrightarrow> clean cs" using cleanD [OF v(1)] by blast
  show ?thesis
  proof (cases "c = CHR ''[''")
    case False
    with c show ?thesis by (simp add: parse_array_def)
  next
    case c0: True
    then have "clean cs" using c by simp
    from clean_skip_list [OF this] obtain v1 where v1: "skip_list cs = Inr v1" "clean v1" by (auto simp: finds_def)
    obtain d ds where d: "v1 = d # ds" "d \<noteq> NUL \<longrightarrow> clean ds" using cleanD [OF v1(2)] by blast
    have l1: "length v1 < length v" using skip_list_length [OF v1(1)] c by simp
    obtain st1 new where ni: "new_item ops al st = (st1, new)" by (cases "new_item ops al st")
    show ?thesis
    proof (cases "d = CHR '']''")
      case True
      with c c0 v1 d show ?thesis by (simp add: parse_array_def)
    next
      case nd: False
      show ?thesis
      proof (cases new)
        case None
        with c c0 v1 d nd ni show ?thesis by (simp add: parse_array_def)
      next
        case (Some nw)
        have fn: "fresh nw" using new_item_fresh(1) [OF ni [unfolded Some]] by blast
        let ?it1 = "upd_head (\<lambda>h. h\<lparr>jtype := cJSON_Array\<rparr>) it"
        have eq: "parse_array ops al pv st it v =
            rbind (skip (Some v1)) (\<lambda>v2. rbind (pv st1 nw v2) (\<lambda>(a, b, c). rbind (skip c) (\<lambda>d.
              case d of None \<Rightarrow> Inr (a, set_kids ?it1 [b], None)
              | Some v5 \<Rightarrow> rbind (array_loop ops al pv (Suc (length cs)) a [b] v5) (\<lambda>(st3, ks, v6).
                       Inr (st3, set_kids ?it1 ks, v6)))))"
          unfolding parse_array_def Let_def using c c0 v1 d nd ni Some
          by (simp del: skip.simps array_loop.simps)
        show ?thesis
          unfolding eq
        proof (subst item_bind, rule finds_rbind [OF clean_item [OF pv fn v1(2)]])
          show "length v1 < m" using l1 v by simp
          fix x :: "jstate \<times> 'a cjson \<times> char list option"
        assume "case x of (st2, child, v3) \<Rightarrow> \<forall>r. v3 = Some r \<longrightarrow> clean r \<and> length r < length v1"
          then obtain a b d where x: "x = (a, b, d)" and d: "\<And>r. d = Some r \<Longrightarrow> clean r \<and> length r < length v1"
            by (cases x) auto
          have "finds (array_loop ops al pv (Suc (length cs)) a [b] r) clean_result" if "d = Some r" for r
            by (rule clean_array_loop [OF pv]) (use d [OF that] l1 v c in simp_all)
          then have "finds (rbind (array_loop ops al pv (Suc (length cs)) a [b] r) (\<lambda>(st3, ks, v6). Inr (st3, set_kids ?it1 ks, v6))) clean_result"
            if "d = Some r" for r
            using that by (intro finds_rbind [where P = clean_result]) auto
          then show "finds (case x of (a, b, d) \<Rightarrow> case d of None \<Rightarrow> Inr (a, set_kids ?it1 [b], None)
              | Some v5 \<Rightarrow> rbind (array_loop ops al pv (Suc (length cs)) a [b] v5) (\<lambda>(st3, ks, v6).
                       Inr (st3, set_kids ?it1 ks, v6))) clean_result"
            unfolding x by (cases d) simp_all
        qed
      qed
    qed
  qed
qed

lemma clean_parse_member:
  assumes pv: "pv_ok pv" "clean_pv pv m" and f: "fresh new" "jstring (head_of new) = None" and v: "clean v" "length v \<le> m"
  shows "finds (parse_member ops al pv st new v) clean_result"
  unfolding parse_member_def
proof (rule finds_rbind [OF clean_skip_list [OF v(1)]])
  fix v1 assume v1: "skip_list v = Inr v1" "clean v1"
  show "finds (rbind (parse_string al st new v1) (\<lambda>(st1, child, v2).
     rbind (skip v2) (\<lambda>v3.
       case v3 of None \<Rightarrow> Inr (st1, child, None)
       | Some v4 \<Rightarrow>
           let child1 = upd_head (\<lambda>h. h\<lparr>jstring := valuestring h, valuestring := None\<rparr>) child in
           rbind (deref v4) (\<lambda>c.
             if c \<noteq> CHR '':'' then Inr (st1\<lparr>ep := Some v4\<rparr>, child1, None)
             else rbind (skip (Some (tl v4))) (\<lambda>v5.
                  rbind (pv st1 child1 v5) (\<lambda>(st2, child2, v6).
                  rbind (skip v6) (\<lambda>v7. Inr (st2, child2, v7)))))))) clean_result"
  proof (rule finds_rbind [OF clean_parse_string [OF v1(2)]])
    fix x assume x: "parse_string al st new v1 = Inr x" "clean_result x"
    obtain st1 child v2 where x': "x = (st1, child, v2)" by (cases x)
    note pso = parse_string_ok [OF x(1) [unfolded x'] f(1)]
    define child1 where "child1 = upd_head (\<lambda>h. h\<lparr>jstring := valuestring h, valuestring := None\<rparr>) child"
    have c1: "fresh child1" using pso by (simp add: child1_def fresh_def no_refs_alt [of child])
    have "finds (skip v2) (\<lambda>r. \<forall>s. r = Some s \<longrightarrow> clean s)" by (rule clean_skip_opt) (use x x' in auto)
    then show "finds (case x of (st1, child, v2) \<Rightarrow>
     rbind (skip v2) (\<lambda>v3.
       case v3 of None \<Rightarrow> Inr (st1, child, None)
       | Some v4 \<Rightarrow>
           let child1 = upd_head (\<lambda>h. h\<lparr>jstring := valuestring h, valuestring := None\<rparr>) child in
           rbind (deref v4) (\<lambda>c.
             if c \<noteq> CHR '':'' then Inr (st1\<lparr>ep := Some v4\<rparr>, child1, None)
             else rbind (skip (Some (tl v4))) (\<lambda>v5.
                  rbind (pv st1 child1 v5) (\<lambda>(st2, child2, v6).
                  rbind (skip v6) (\<lambda>v7. Inr (st2, child2, v7))))))) clean_result"
      unfolding x' prod.case child1_def [symmetric] Let_def
    proof (rule finds_rbind)
      fix v3 assume v3: "skip v2 = Inr v3" "\<forall>s. v3 = Some s \<longrightarrow> clean s"
      show "finds (case v3 of None \<Rightarrow> Inr (st1, child, None)
       | Some v4 \<Rightarrow> rbind (deref v4) (\<lambda>c.
             if c \<noteq> CHR '':'' then Inr (st1\<lparr>ep := Some v4\<rparr>, child1, None)
             else rbind (skip (Some (tl v4))) (\<lambda>v5.
                  rbind (pv st1 child1 v5) (\<lambda>(st2, child2, v6).
                  rbind (skip v6) (\<lambda>v7. Inr (st2, child2, v7)))))) clean_result"
      proof (cases v3)
        case None
        then show ?thesis by simp
      next
        case (Some v4)
        then have "clean v4" using v3 by blast
        then obtain c cs where v4: "v4 = c # cs" "c \<noteq> NUL \<longrightarrow> clean cs" using cleanD by blast
        have "shorter v2 v1" using pso by blast
        then have l4: "length v4 < length v1" by (rule shorter_skip) (use v3 Some in simp)
        show ?thesis
        proof (cases "c = CHR '':''")
          case False
          with Some v4 show ?thesis by simp
        next
          case True
          then have cs: "clean cs" "length cs < m" using v4 l4 skip_list_length [OF v1(1)] v by simp_all
          have "finds (rbind (skip (Some cs)) (\<lambda>v5. rbind (pv st1 child1 v5) (\<lambda>(st2, child2, v6).
                  rbind (skip v6) (\<lambda>v7. Inr (st2, child2, v7))))) clean_result"
            using clean_item [OF pv c1 cs, of st1] unfolding finds_def by fastforce
          with Some v4 True show ?thesis by (simp del: skip.simps)
        qed
      qed
    qed
  qed
qed

lemma clean_object_loop:
  assumes pv: "pv_ok pv" "clean_pv pv m"
  shows "clean v \<Longrightarrow> length v < n \<Longrightarrow> length v \<le> m \<Longrightarrow> finds (object_loop ops al pv n st ks v) clean_result"
proof (induction n arbitrary: st ks v)
  case 0
  then show ?case by simp
next
  case (Suc n)
  obtain c cs where v: "v = c # cs" "c \<noteq> NUL \<longrightarrow> clean cs" using cleanD [OF Suc.prems(1)] by blast
  show ?case
  proof (cases "c = CHR '',''")
    case False
    with v Suc.prems(1) show ?thesis by auto
  next
    case c: True
    then have cs: "clean cs" "length cs \<le> m" using v Suc.prems by simp_all
    obtain st1 new where ni: "new_item ops al st = (st1, new)" by (cases "new_item ops al st")
    show ?thesis
    proof (cases new)
      case None
      with v c ni show ?thesis by simp
    next
      case (Some it)
      note f = new_item_fresh(1) [OF ni [unfolded Some]]
      have eq: "object_loop ops al pv (Suc n) st ks v =
          rbind (parse_member ops al pv st1 it cs) (\<lambda>(st2, child, v1).
                case v1 of None \<Rightarrow> Inr (st2, ks @ [child], None)
                | Some v2 \<Rightarrow> object_loop ops al pv n st2 (ks @ [child]) v2)"
        using v c ni Some by simp
      have pm: "finds (parse_member ops al pv st1 it cs) clean_result"
        by (rule clean_parse_member [OF pv]) (use f cs in simp_all)
      show ?thesis
        unfolding eq
      proof (rule finds_rbind [OF pm])
        fix x assume x: "parse_member ops al pv st1 it cs = Inr x" "clean_result x"
        obtain a b d where x': "x = (a, b, d)" by (cases x)
        have sh: "shorter d cs" using parse_member_ok [OF pv(1) x(1) [unfolded x'] conjunct1 [OF f] conjunct1 [OF conjunct2 [OF f]]] by blast
        have "finds (object_loop ops al pv n a (ks @ [b]) r) clean_result" if "d = Some r" for r
          by (rule Suc.IH) (use that x x' sh v Suc.prems in \<open>auto simp: shorter_def\<close>)
        then show "finds (case x of (st2, child, v1) \<Rightarrow>
                case v1 of None \<Rightarrow> Inr (st2, ks @ [child], None)
                | Some v2 \<Rightarrow> object_loop ops al pv n st2 (ks @ [child]) v2) clean_result"
          unfolding x' by (cases d) simp_all
      qed
    qed
  qed
qed

lemma clean_parse_object:
  assumes pv: "pv_ok pv" "clean_pv pv m" and f: "fresh it" and v: "clean v" "length v \<le> m"
  shows "finds (parse_object ops al pv st it v) clean_result"
proof -
  obtain c cs where c: "v = c # cs" "c \<noteq> NUL \<longrightarrow> clean cs" using cleanD [OF v(1)] by blast
  show ?thesis
  proof (cases "c = CHR ''{''")
    case False
    with c show ?thesis by (simp add: parse_object_def)
  next
    case c0: True
    then have "clean cs" using c by simp
    from clean_skip_list [OF this] obtain v1 where v1: "skip_list cs = Inr v1" "clean v1" by (auto simp: finds_def)
    obtain d ds where d: "v1 = d # ds" "d \<noteq> NUL \<longrightarrow> clean ds" using cleanD [OF v1(2)] by blast
    have l1: "length v1 < length v" using skip_list_length [OF v1(1)] c by simp
    obtain st1 new where ni: "new_item ops al st = (st1, new)" by (cases "new_item ops al st")
    show ?thesis
    proof (cases "d = CHR ''}''")
      case True
      with c c0 v1 d show ?thesis by (simp add: parse_object_def)
    next
      case nd: False
      show ?thesis
      proof (cases new)
        case None
        with c c0 v1 d nd ni show ?thesis by (simp add: parse_object_def)
      next
        case (Some nw)
        note fn = new_item_fresh(1) [OF ni [unfolded Some]]
        let ?it1 = "upd_head (\<lambda>h. h\<lparr>jtype := cJSON_Object\<rparr>) it"
        have eq: "parse_object ops al pv st it v =
            rbind (parse_member ops al pv st1 nw v1) (\<lambda>(st2, child, v2).
                 case v2 of None \<Rightarrow> Inr (st2, set_kids ?it1 [child], None)
                 | Some v3 \<Rightarrow>
                     rbind (object_loop ops al pv (Suc (length cs)) st2 [child] v3) (\<lambda>(st3, ks, v4).
                       Inr (st3, set_kids ?it1 ks, v4)))"
          unfolding parse_object_def Let_def using c c0 v1 d nd ni Some
          by (simp del: object_loop.simps)
        have pm: "finds (parse_member ops al pv st1 nw v1) clean_result"
          by (rule clean_parse_member [OF pv]) (use fn v1 l1 v in simp_all)
        show ?thesis
          unfolding eq
        proof (rule finds_rbind [OF pm])
          fix x assume x: "parse_member ops al pv st1 nw v1 = Inr x" "clean_result x"
          obtain a b d where x': "x = (a, b, d)" by (cases x)
          have sh: "shorter d v1" using parse_member_ok [OF pv(1) x(1) [unfolded x'] conjunct1 [OF fn] conjunct1 [OF conjunct2 [OF fn]]] by blast
          have "finds (object_loop ops al pv (Suc (length cs)) a [b] r) clean_result" if "d = Some r" for r
            by (rule clean_object_loop [OF pv]) (use that x x' sh l1 v c in \<open>auto simp: shorter_def\<close>)
          then have "finds (rbind (object_loop ops al pv (Suc (length cs)) a [b] r) (\<lambda>(st3, ks, v6). Inr (st3, set_kids ?it1 ks, v6))) clean_result"
            if "d = Some r" for r
            using that by (intro finds_rbind [where P = clean_result]) auto
          then show "finds (case x of (st2, child, v2) \<Rightarrow>
                 case v2 of None \<Rightarrow> Inr (st2, set_kids ?it1 [child], None)
                 | Some v3 \<Rightarrow>
                     rbind (object_loop ops al pv (Suc (length cs)) st2 [child] v3) (\<lambda>(st3, ks, v4).
                       Inr (st3, set_kids ?it1 ks, v4))) clean_result"
            unfolding x' by (cases d) simp_all
        qed
      qed
    qed
  qed
qed

lemma clean_parse_literal:
  assumes "clean s"
  shows "finds (parse_literal it s) (\<lambda>l. \<forall>it' r. l = Some (it', r) \<longrightarrow> clean r)"
proof -
  have "finds (starts_with ''null'' s) (\<lambda>b. b \<longrightarrow> clean (drop 4 s))"
    "finds (starts_with ''false'' s) (\<lambda>b. b \<longrightarrow> clean (drop 5 s))"
    "finds (starts_with ''true'' s) (\<lambda>b. b \<longrightarrow> clean (drop 4 s))"
    using clean_starts_with [OF assms, of "''null''"] clean_starts_with [OF assms, of "''false''"]
      clean_starts_with [OF assms, of "''true''"] by (simp_all add: eval_nat_numeral)
  then obtain b1 b2 b3 where
    "starts_with ''null'' s = Inr b1" "b1 \<longrightarrow> clean (drop 4 s)"
    "starts_with ''false'' s = Inr b2" "b2 \<longrightarrow> clean (drop 5 s)"
    "starts_with ''true'' s = Inr b3" "b3 \<longrightarrow> clean (drop 4 s)"
    unfolding finds_def by blast
  then show ?thesis
    by (simp only: parse_literal_def rbind_Inr) (cases b1; cases b2; cases b3; simp)
qed

lemma parse_value_clean: "clean_pv (parse_value ops al f) f"
proof (induction f)
  case 0
  then show ?case by (auto simp: clean_pv_def)
next
  case (Suc f)
  have "finds (parse_value ops al (Suc f) st it (Some s)) clean_result"
    if f: "fresh it" and s: "clean s" "length s < Suc f" for st it s
    unfolding parse_value.simps option.case
  proof (rule finds_rbind [OF clean_parse_literal [OF s(1)]])
    fix l :: "('a cjson \<times> char list) option" assume l: "\<forall>it' r. l = Some (it', r) \<longrightarrow> clean r"
    have sl: "length s \<le> f" using s by simp
    note sub = clean_parse_array [OF parse_value_ok Suc.IH f s(1) sl, of ops al st]
      clean_parse_object [OF parse_value_ok Suc.IH f s(1) sl, of ops al st] clean_parse_string [OF s(1), of al st it]
    have num: "finds (rbind (parse_number ops it s) (\<lambda>(it1, r). Inr (st, it1, Some r))) clean_result"
      by (rule finds_rbind [OF clean_parse_number [OF s(1)]]) auto
    show "finds (case l of Some (it1, r) \<Rightarrow> Inr (st, it1, Some r)
           | None \<Rightarrow> rbind (deref s) (\<lambda>c.
               if c = CHR 0x22 then parse_string al st it s
               else if c = CHR ''-'' \<or> is_digit c then
                 rbind (parse_number ops it s) (\<lambda>(it1, r). Inr (st, it1, Some r))
               else if c = CHR ''['' then parse_array ops al (parse_value ops al f) st it s
               else if c = CHR ''{'' then parse_object ops al (parse_value ops al f) st it s
               else Inr (st\<lparr>ep := Some s\<rparr>, it, None))) clean_result"
    proof (cases l)
      case None
      show ?thesis
        unfolding None option.case by (rule finds_rbind [OF clean_deref [OF s(1)]]) (simp add: sub num)
    next
      case (Some x)
      with l show ?thesis by (cases x) simp
    qed
  qed
  then show ?case by (simp add: clean_pv_def)
qed

subsection \<open>Properties\<close>

text \<open>
  C9: On a text without backslashes, well formed or not, the parser stays inside the buffer: it
  returns a tree or \<open>NULL\<close>.
\<close>

theorem parse_stays_inside:
  assumes "nul_free s" "CHR 0x5C \<notin> set s" "length s + 1 < f"
  shows "\<exists>st' it. cJSON_Parse ops al f st (cstr s) = Inr (st', it)"
proof -
  have cl: "clean (cstr s)" using assms by (auto simp: clean_def cstr_def)
  obtain st1 new where ni: "new_item ops al st = (st1, new)" by (cases "new_item ops al st")
  show ?thesis
  proof (cases new)
    case None
    with ni show ?thesis by (simp add: cJSON_Parse_def)
  next
    case (Some c)
    have f: "fresh c" using new_item_fresh(1) [OF ni [unfolded Some]] by blast
    from clean_skip [OF cl] obtain r where r: "skip (Some (cstr s)) = Inr (Some r)" "clean r"
      by (auto simp: finds_def simp del: skip.simps)
    have "length r < f" using skip_length [OF r(1)] assms(3) by (auto simp: cstr_def)
    from clean_pvD [OF parse_value_clean f r(2) this, of ops al "st1\<lparr>ep := None\<rparr>"]
    obtain st2 t q where "parse_value ops al f (st1\<lparr>ep := None\<rparr>) c (Some r) = Inr (st2, t, q)"
      by (auto simp: finds_def)
    with ni Some r show ?thesis by (auto simp: cJSON_Parse_def simp del: skip.simps)
  qed
qed

theorem parse_stays_inside_witness:
  "\<exists>st' it. cJSON_Parse rat_ops (\<lambda>n sz. True) 20 no_state (cstr ''{x [1.5e,'') = Inr (st', it)"
  by (rule parse_stays_inside) simp_all

lemma str_len_plain:
  "CHR 0x22 \<notin> set w \<Longrightarrow> CHR 0x5C \<notin> set w \<Longrightarrow> NUL \<notin> set w \<Longrightarrow> str_len k (w @ r) = str_len (k + length w) r"
  by (induction w arbitrary: k) auto

text \<open>
  A string that ends in a backslash makes \<open>parse_string\<close> skip the terminator and read past the
  end of the buffer.
\<close>

lemma backslash_overread:
  assumes "CHR 0x22 \<notin> set w" "CHR 0x5C \<notin> set w" "nul_free w"
  shows "parse_string al st it (cstr (CHR 0x22 # w @ [CHR 0x5C])) = Inl OutOfBounds"
proof -
  have "str_len 0 (w @ [CHR 0x5C, NUL]) = Inl OutOfBounds"
    using assms by (subst str_len_plain) (auto simp: nul_free_def)
  then show ?thesis by (simp add: parse_string_def cstr_def)
qed

lemma backslash_overread_witness:
  "parse_string (\<lambda>n sz. True) no_state (zero_item rat_ops)
     (cstr (CHR 0x22 # ''abc'' @ [CHR 0x5C])) = Inl OutOfBounds"
  by (rule backslash_overread) simp_all

text \<open>
  An escape \<open>\u\<close> without a hexadecimal digit leaves the variable \<open>uc\<close> as it was: when it is
  the first escape of the string, an uninitialised variable is read.
\<close>

theorem escape_reads_uninitialised:
  assumes "scan_hex4 r = None" "str_len 1 r = Inr len" "al (jcalls st) (len + 1)"
  shows "parse_string al st it (CHR 0x22 # CHR 0x5C # CHR ''u'' # r) = Inl UninitRead"
  using assms
  by (simp add: parse_string_def jmalloc_def unescape_one_def unescape_u_def scan_into_def Let_def)

theorem escape_reads_uninitialised_witness:
  "parse_string (\<lambda>n sz. True) no_state (zero_item rat_ops)
     (CHR 0x22 # CHR 0x5C # CHR ''u'' # [CHR 0x22, NUL]) = Inl UninitRead"
  by (rule escape_reads_uninitialised [of _ 1]) (simp_all add: scan_hex4_def is_hex_def)

end
