(* ===== verification/Dump_Recover.thy ===== *)
theory Dump_Recover
  imports Key_Value String_Buffers
begin

text \<open>
  \<open>__dump\<close>, \<open>_dump_proc\<close> and \<open>__recover\<close> of \<open>keyvalue.c\<close>: the table written to the text
  file \<open>dict.lib\<close> and read back. A record is the four bytes at the literal \<open>"1"\<close>, the length of
  the key as a decimal in four bytes, the key, the length of the value in four bytes, the value.

  The file is a list of bytes, opened in text mode as on Windows: a line feed is written as a carriage
  return and a line feed, on reading this pair is one line feed again and the byte \<open>0x1A\<close> ends the
  file. A block of \<open>malloc\<close> is the list of the bytes that can be accessed there, whatever they hold:
  \<open>mem c n\<close> is the block that the \<open>c\<close>-th call gives for \<open>n\<close> bytes. Its length is a parameter
  because the code stores one byte behind the blocks it asks for: with blocks of exactly \<open>n\<close> bytes
  the model faults there, and with blocks rounded up by the heap it goes on. \<open>after\<close> are the bytes that follow the
  literal \<open>"1"\<close> and its terminator in memory, which the code writes to the file as well.
\<close>

subsection \<open>Writing\<close>

type_synonym heap_blocks = "nat \<Rightarrow> nat \<Rightarrow> string"

definition fwrite_from :: "string \<Rightarrow> nat \<Rightarrow> string res" where
  "fwrite_from buf n = (if n \<le> length buf then Inr (take n buf) else Inl OutOfBounds)"

text \<open>\<open>__dump\<close>: \<open>num\<close> is the block of four bytes, which is never freed.\<close>

definition dump_record :: "string \<Rightarrow> string \<Rightarrow> string \<Rightarrow> string \<Rightarrow> string res" where
  "dump_record after num key value =
     rbind (fwrite_from (''1'' @ NUL # after) 4) (\<lambda>w1.
     rbind (strcpy_at num 0 (cstr (show_nat (length key)))) (\<lambda>num1.
     rbind (fwrite_from num1 4) (\<lambda>w2.
     rbind (strcpy_at num1 0 (cstr (show_nat (length value)))) (\<lambda>num2.
     rbind (fwrite_from num2 4) (\<lambda>w3.
     Inr (w1 @ w2 @ key @ w3 @ value))))))"

text \<open>\<open>_dump_proc\<close>: the chain behind a slot, a slot, and the whole table.\<close>

fun dump_chain :: "string \<Rightarrow> heap_blocks \<Rightarrow> nat \<Rightarrow> nstate \<Rightarrow> ptr \<Rightarrow> nat \<times> string \<Rightarrow> (nat \<times> string) res" where
  "dump_chain after mem 0 s temp st = Inl OutOfFuel"
| "dump_chain after mem (Suc n) s temp (count, out) =
     rbind (load s temp) (\<lambda>nd.
       case (nd_key nd, nd_value nd) of
         (Some key, Some val) \<Rightarrow>
           rbind (dump_record after (mem count 4) key val) (\<lambda>bytes.
           dump_chain after mem n s (nd_next nd) (Suc count, out @ bytes))
       | _ \<Rightarrow> Inr (count, out))"

fun dump_slot :: "string \<Rightarrow> heap_blocks \<Rightarrow> nstate \<Rightarrow> ptr \<Rightarrow> nat \<times> string \<Rightarrow> nat \<Rightarrow> (nat \<times> string) res" where
  "dump_slot after mem s k_v (count, out) i =
     rbind (load s (ptr_add k_v i)) (\<lambda>nd.
       case (nd_key nd, nd_value nd) of
         (Some key, Some val) \<Rightarrow>
           rbind (dump_record after (mem count 4) key val) (\<lambda>bytes.
           dump_chain after mem (Suc (node_count s)) s (nd_next nd) (Suc count, out @ bytes))
       | _ \<Rightarrow> Inr (count, out))"

fun text_write :: "string \<Rightarrow> string" where
  "text_write [] = []"
| "text_write (c # cs) = (if c = CHR 0x0A then CHR 0x0D # CHR 0x0A # text_write cs else c # text_write cs)"

text \<open>
  The new content of \<open>dict.lib\<close>; \<open>opened\<close> says whether \<open>fopen\<close> could create it, which
  the code does not check before the calls of \<open>fwrite\<close> and \<open>fclose\<close>.
\<close>

definition dump_proc :: "bool \<Rightarrow> string \<Rightarrow> heap_blocks \<Rightarrow> nstate \<Rightarrow> ptr \<Rightarrow> string res" where
  "dump_proc opened after mem s k_v =
     (if opened then
        rbind (rfold (dump_slot after mem s k_v) (0, []) (if k_v = None then [] else [0..<KEY_VALUE_SIZE]))
          (\<lambda>(count, out). Inr (text_write out))
      else Inl NullDeref)"

subsection \<open>Reading\<close>

fun text_read :: "string \<Rightarrow> string" where
  "text_read [] = []"
| "text_read (c # cs) =
     (if c = CHR 0x1A then []
      else if c = CHR 0x0D \<and> cs \<noteq> [] \<and> hd cs = CHR 0x0A then CHR 0x0A # text_read (tl cs)
      else c # text_read cs)"

text \<open>\<open>fread (buf, n, 1, fp)\<close>: up to \<open>n\<close> bytes of the rest of the file.\<close>

definition fread_into :: "string \<Rightarrow> nat \<Rightarrow> string \<Rightarrow> (string \<times> string) res" where
  "fread_into buf n rest =
     (let got = take n rest
      in if length got \<le> length buf then Inr (got @ drop (length got) buf, drop n rest) else Inl OutOfBounds)"

definition block_cstr :: "string \<Rightarrow> string res" where
  "block_cstr buf = (if NUL \<in> set buf then Inr (takeWhile (\<lambda>c. c \<noteq> NUL) buf) else Inl OutOfBounds)"

text \<open>\<open>fread (buf, num, 1, fp)\<close> and \<open>buf[num] = 0\<close>, for a pointer that may not be assigned yet.\<close>

definition read_counted :: "string option \<Rightarrow> int \<Rightarrow> string \<Rightarrow> (string \<times> string) res" where
  "read_counted p num rest =
     (case p of
        None \<Rightarrow> Inl UninitRead
      | Some buf \<Rightarrow>
          if num < 0 then Inl OutOfBounds
          else rbind (fread_into buf (nat num) rest) (\<lambda>(buf1, rest1).
               rbind (put_byte buf1 (nat num) NUL) (\<lambda>buf2. Inr (buf2, rest1))))"

text \<open>The local variables of \<open>__recover\<close>, with the rest of the file and the table.\<close>

record rstate =
  r_store :: nstate
  r_rest :: string
  r_calls :: nat
  r_readbuf :: string
  r_keybuf :: "string option"
  r_valuebuf :: "string option"

definition recover_key :: "heap_blocks \<Rightarrow> rstate \<Rightarrow> rstate res" where
  "recover_key mem r =
     rbind (fread_into (r_readbuf r) 4 (r_rest r)) (\<lambda>(rb, rest1).
     rbind (block_cstr rb) (\<lambda>t.
     let num = atoi t in
     rbind (if num > 0 then rbind (memset0 rb (nat num)) (\<lambda>rb1. Inr (rb1, Some (mem (r_calls r) (nat num)), Suc (r_calls r)))
            else Inr (rb, r_keybuf r, r_calls r)) (\<lambda>(rb1, kb, c).
     rbind (read_counted kb num rest1) (\<lambda>(kb1, rest2).
     Inr (r\<lparr>r_rest := rest2, r_calls := c, r_readbuf := rb1, r_keybuf := Some kb1\<rparr>)))))"

definition recover_value :: "heap_blocks \<Rightarrow> rstate \<Rightarrow> rstate res" where
  "recover_value mem r =
     rbind (fread_into (r_readbuf r) 4 (r_rest r)) (\<lambda>(rb, rest1).
     rbind (block_cstr rb) (\<lambda>t.
     let num = atoi t in
     rbind (if num > 0 then rbind (memset0 (mem (r_calls r) (nat num)) (nat num)) (\<lambda>vb. Inr (Some vb, Suc (r_calls r)))
            else Inr (r_valuebuf r, r_calls r)) (\<lambda>(vb, c).
     rbind (read_counted vb num rest1) (\<lambda>(vb1, rest2).
     Inr (r\<lparr>r_rest := rest2, r_calls := c, r_readbuf := rb, r_valuebuf := Some vb1\<rparr>)))))"

definition recover_insert :: "ptr \<Rightarrow> rstate \<Rightarrow> rstate res" where
  "recover_insert k_v r =
     (case (r_keybuf r, r_valuebuf r) of
        (Some kb, Some vb) \<Rightarrow>
          rbind (block_cstr kb) (\<lambda>key. rbind (block_cstr vb) (\<lambda>val.
          rbind (kv_insert (r_store r) k_v (Some key) (Some val)) (\<lambda>(s, _). Inr (r\<lparr>r_store := s\<rparr>))))
      | _ \<Rightarrow> Inl UninitRead)"

text \<open>\<open>strcmp (readbuf, "1") == 0\<close>\<close>

definition is_one :: "string \<Rightarrow> bool" where
  "is_one buf \<longleftrightarrow> take 2 buf = ''1'' @ [NUL]"

fun recover_loop :: "heap_blocks \<Rightarrow> ptr \<Rightarrow> nat \<Rightarrow> rstate \<Rightarrow> rstate res" where
  "recover_loop mem k_v 0 r = Inl OutOfFuel"
| "recover_loop mem k_v (Suc n) r =
     rbind (memset0 (r_readbuf r) 4) (\<lambda>rb0.
     rbind (fread_into rb0 4 (r_rest r)) (\<lambda>(rb, rest).
       if \<not> is_one rb then Inr (r\<lparr>r_readbuf := rb, r_rest := rest\<rparr>)
       else rbind (recover_key mem (r\<lparr>r_readbuf := rb, r_rest := rest\<rparr>)) (\<lambda>r1.
            rbind (recover_value mem r1) (\<lambda>r2.
            rbind (recover_insert k_v r2) (\<lambda>r3.
            recover_loop mem k_v n r3)))))"

text \<open>\<open>__recover\<close>, from the content of \<open>dict.lib\<close> (\<open>None\<close> when it cannot be opened).\<close>

definition recover :: "heap_blocks \<Rightarrow> string option \<Rightarrow> nstate \<Rightarrow> ptr \<Rightarrow> nstate res" where
  "recover mem file s k_v =
     rbind (memset0 (mem 0 4) 4) (\<lambda>rb.
       case file of
         None \<Rightarrow> Inr s
       | Some bytes \<Rightarrow>
           let rest = text_read bytes in
           rbind (recover_loop mem k_v (Suc (length rest))
             \<lparr>r_store = s, r_rest = rest, r_calls = 1, r_readbuf = rb, r_keybuf = None, r_valuebuf = None\<rparr>)
             (\<lambda>r. Inr (r_store r)))"

subsection \<open>Text mode\<close>

lemma hd_text_write: "text_write cs \<noteq> [] \<Longrightarrow> hd (text_write cs) \<noteq> CHR 0x0A"
  by (cases cs) auto

lemma text_read_write: "CHR 0x1A \<notin> set s \<Longrightarrow> text_read (text_write s) = s"
  by (induction s) (auto dest: hd_text_write)

subsection \<open>Records\<close>

definition size_field :: "string \<Rightarrow> nat \<Rightarrow> bool" where
  "size_field p n \<longleftrightarrow> length p = 4 \<and> (\<exists>t. p = cstr (show_nat n) @ t)"

definition is_record :: "string \<Rightarrow> string \<times> string \<Rightarrow> bool" where
  "is_record b e \<longleftrightarrow> (\<exists>p1 p2 p3. b = p1 @ p2 @ fst e @ p3 @ snd e \<and> length p1 = 4 \<and> is_one p1 \<and>
     size_field p2 (length (fst e)) \<and> size_field p3 (length (snd e)))"

fun records :: "string \<Rightarrow> (string \<times> string) list \<Rightarrow> bool" where
  "records b [] \<longleftrightarrow> b = []"
| "records b (e # es) \<longleftrightarrow> (\<exists>b1 b2. b = b1 @ b2 \<and> is_record b1 e \<and> records b2 es)"

lemma records_append: "records b es \<Longrightarrow> records b' es' \<Longrightarrow> records (b @ b') (es @ es')"
proof (induction es arbitrary: b)
  case Nil
  then show ?case by simp
next
  case (Cons e es)
  then obtain b1 b2 where b: "b = b1 @ b2" "is_record b1 e" "records b2 es" by auto
  have "b @ b' = b1 @ (b2 @ b')" using b(1) by simp
  with b(2) Cons.IH [OF b(3) Cons.prems(2)] show ?case unfolding append_Cons records.simps by blast
qed

lemma itoa_field:
  assumes "4 \<le> length num" "n < 1000"
  shows "\<exists>num1. strcpy_at num 0 (cstr (show_nat n)) = Inr num1 \<and> length num1 = length num \<and>
    set num1 \<subseteq> set (cstr (show_nat n)) \<union> set num \<and> size_field (take 4 num1) n"
proof -
  have l: "length (show_nat n) \<le> 3" using show_nat_length [of n 2] assms(2) by simp
  let ?num1 = "cstr (show_nat n) @ drop (Suc (length (show_nat n))) num"
  have "strcpy_at num 0 (cstr (show_nat n)) = Inr ?num1"
    using l assms(1) by (simp add: strcpy_at_spec)
  moreover have "size_field (take 4 ?num1) n"
    using l assms(1) by (cases "4 - length (show_nat n)") (auto simp: size_field_def cstr_def)
  ultimately show ?thesis using l assms(1) by (auto simp: cstr_def dest: in_set_dropD)
qed

text \<open>What an entry must satisfy to survive: no \<open>NUL\<close>, no end-of-file mark, lengths below 1000.\<close>

definition storable :: "string \<times> string \<Rightarrow> bool" where
  "storable e \<longleftrightarrow> fst e \<noteq> [] \<and> snd e \<noteq> [] \<and> nul_free (fst e) \<and> nul_free (snd e) \<and>
     CHR 0x1A \<notin> set (fst e) \<union> set (snd e) \<and> length (fst e) < 1000 \<and> length (snd e) < 1000"

lemma digit_text_no_eof: "CHR 0x1A \<notin> set (cstr (show_nat n))"
proof
  assume "CHR 0x1A \<in> set (cstr (show_nat n))"
  then obtain d where d: "d < 10" "CHR 0x1A = digit_char d"
    using show_nat_digits [of "CHR 0x1A" n] by (auto simp: cstr_def)
  from digit_char_props(7) [OF d(1)] have "of_char (CHR 0x1A) = (48 + d :: nat)" by (simp only: d(2))
  then show False by simp
qed

lemma dump_record_ok:
  assumes "2 \<le> length after" "4 \<le> length num" "storable (k, v)" "CHR 0x1A \<notin> set after \<union> set num"
  shows "\<exists>b. dump_record after num k v = Inr b \<and> is_record b (k, v) \<and> CHR 0x1A \<notin> set b"
proof -
  have k: "length k < 1000" and v: "length v < 1000" and e: "CHR 0x1A \<notin> set k \<union> set v"
    using assms(3) by (auto simp: storable_def)
  obtain num1 where n1: "strcpy_at num 0 (cstr (show_nat (length k))) = Inr num1" "length num1 = length num"
    "set num1 \<subseteq> set (cstr (show_nat (length k))) \<union> set num" "size_field (take 4 num1) (length k)"
    using itoa_field [OF assms(2) k] by blast
  have l1: "4 \<le> length num1" using assms(2) n1(2) by simp
  obtain num2 where n2: "strcpy_at num1 0 (cstr (show_nat (length v))) = Inr num2" "length num2 = length num1"
    "set num2 \<subseteq> set (cstr (show_nat (length v))) \<union> set num1" "size_field (take 4 num2) (length v)"
    using itoa_field [OF l1 v] by blast
  let ?w = "take 4 (''1'' @ NUL # after)"
  let ?b = "?w @ take 4 num1 @ k @ take 4 num2 @ v"
  have w: "length ?w = 4" "is_one ?w" using assms(1) by (simp_all add: is_one_def eval_nat_numeral)
  have d: "dump_record after num k v = Inr ?b"
    using assms(1) l1 n1(1) n2(1) n2(2) by (simp add: dump_record_def fwrite_from_def)
  have r: "is_record ?b (k, v)"
    unfolding is_record_def fst_conv snd_conv using w n1(4) n2(4) by blast
  have "CHR 0x1A \<notin> set num1" using n1(3) digit_text_no_eof assms(4) by blast
  moreover then have "CHR 0x1A \<notin> set num2" using n2(3) digit_text_no_eof by blast
  moreover have "CHR 0x1A \<notin> set ?w" using assms(4) by (auto dest: in_set_takeD)
  ultimately have "CHR 0x1A \<notin> set ?b" using e by (auto dest: in_set_takeD)
  with d r show ?thesis by blast
qed

subsection \<open>The dump writes the records of the table\<close>

definition dump_env :: "string \<Rightarrow> heap_blocks \<Rightarrow> bool" where
  "dump_env after mem \<longleftrightarrow> 2 \<le> length after \<and> CHR 0x1A \<notin> set after \<and>
     (\<forall>c. 4 \<le> length (mem c 4) \<and> CHR 0x1A \<notin> set (mem c 4))"

lemma dump_record_env:
  assumes "dump_env after mem" "storable (k, v)"
  obtains b where "dump_record after (mem c 4) k v = Inr b" "is_record b (k, v)" "CHR 0x1A \<notin> set b"
  using dump_record_ok [OF _ _ assms(2), of after "mem c 4"] assms(1) unfolding dump_env_def by blast

lemma dump_chain_ok:
  assumes env: "dump_env after mem"
  shows "linked s p xs \<Longrightarrow> xs \<noteq> [] \<Longrightarrow> length xs \<le> n \<Longrightarrow> nd_key (cells s (last xs)) = None \<Longrightarrow>
    \<forall>a\<in>set (butlast xs). nd_key (cells s a) \<noteq> None \<and> nd_value (cells s a) \<noteq> None \<and> storable (entry s a) \<Longrightarrow>
    \<exists>c b. dump_chain after mem n s p (count, out) = Inr (c, out @ b) \<and>
      records b (map (entry s) (butlast xs)) \<and> CHR 0x1A \<notin> set b"
proof (induction n arbitrary: p xs count out)
  case 0
  then show ?case by simp
next
  case (Suc n)
  then obtain a as where xs: "xs = a # as" by (cases xs) auto
  with Suc.prems have p: "p = Some a" "valid s a" and l: "linked s (nd_next (cells s a)) as" by auto
  show ?case
  proof (cases "as = []")
    case True
    with Suc.prems(4) xs p show ?thesis by simp
  next
    case False
    with Suc.prems(5) xs obtain k v where kv: "nd_key (cells s a) = Some k" "nd_value (cells s a) = Some v"
      "storable (k, v)" by (auto simp: entry_def)
    obtain b1 where b1: "dump_record after (mem count 4) k v = Inr b1" "is_record b1 (k, v)" "CHR 0x1A \<notin> set b1"
      by (rule dump_record_env [OF env kv(3)])
    have "\<exists>c b. dump_chain after mem n s (nd_next (cells s a)) (Suc count, out @ b1) = Inr (c, (out @ b1) @ b) \<and>
      records b (map (entry s) (butlast as)) \<and> CHR 0x1A \<notin> set b"
      by (rule Suc.IH [OF l False]) (use Suc.prems xs False in auto)
    then obtain c b where b: "dump_chain after mem n s (nd_next (cells s a)) (Suc count, out @ b1) = Inr (c, (out @ b1) @ b)"
      "records b (map (entry s) (butlast as))" "CHR 0x1A \<notin> set b" by blast
    have "dump_chain after mem (Suc n) s p (count, out) = Inr (c, out @ (b1 @ b))"
      using p kv b1(1) b(1) by simp
    moreover have "records (b1 @ b) (map (entry s) (butlast xs))"
      using xs False kv b1(2) b(2) by (auto simp: entry_def)
    ultimately show ?thesis using b1(3) b(3) by (metis Un_iff set_append)
  qed
qed

lemma dump_slot_ok:
  assumes env: "dump_env after mem" and bk: "bucket_ok s base h xs"
    and st: "\<forall>a\<in>set (butlast xs). storable (entry s a)"
  shows "\<exists>c b. dump_slot after mem s (Some base) (count, out) h = Inr (c, out @ b) \<and>
    records b (map (entry s) (butlast xs)) \<and> CHR 0x1A \<notin> set b"
proof -
  let ?a = "slot_addr base h"
  obtain as where xs: "xs = ?a # as"
    using bucket_linked [OF bk] bucket_nonempty [OF bk] by (cases xs) auto
  have p: "ptr_add (Some base) h = Some ?a" by (simp add: slot_addr_def)
  have v: "valid s ?a" and l: "linked s (nd_next (cells s ?a)) as" using bucket_linked [OF bk] xs by auto
  have all: "\<forall>a\<in>set (butlast xs). nd_key (cells s a) \<noteq> None \<and> nd_value (cells s a) \<noteq> None \<and> storable (entry s a)"
    using bk st by (auto simp: bucket_ok_def)
  show ?thesis
  proof (cases "as = []")
    case True
    with bucket_last_key [OF bk] xs p v show ?thesis by simp
  next
    case False
    with all xs obtain k w where kv: "nd_key (cells s ?a) = Some k" "nd_value (cells s ?a) = Some w" "storable (k, w)"
      by (auto simp: entry_def)
    obtain b1 where b1: "dump_record after (mem count 4) k w = Inr b1" "is_record b1 (k, w)" "CHR 0x1A \<notin> set b1"
      by (rule dump_record_env [OF env kv(3)])
    have "\<exists>c b. dump_chain after mem (Suc (node_count s)) s (nd_next (cells s ?a)) (Suc count, out @ b1) = Inr (c, (out @ b1) @ b) \<and>
      records b (map (entry s) (butlast as)) \<and> CHR 0x1A \<notin> set b"
      by (rule dump_chain_ok [OF env l False])
        (use linked_length [OF l] bucket_last_key [OF bk] all xs False in auto)
    then obtain c b where b: "dump_chain after mem (Suc (node_count s)) s (nd_next (cells s ?a)) (Suc count, out @ b1) = Inr (c, (out @ b1) @ b)"
      "records b (map (entry s) (butlast as))" "CHR 0x1A \<notin> set b" by blast
    have "dump_slot after mem s (Some base) (count, out) h = Inr (c, out @ (b1 @ b))"
      unfolding dump_slot.simps p using v kv b1(1) b(1) by simp
    moreover have "records (b1 @ b) (map (entry s) (butlast xs))"
      using xs False kv b1(2) b(2) by (auto simp: entry_def)
    ultimately show ?thesis using b1(3) b(3) by (metis Un_iff set_append)
  qed
qed

definition all_entries :: "nstate \<Rightarrow> (nat \<Rightarrow> address list) \<Rightarrow> nat list \<Rightarrow> (string \<times> string) list" where
  "all_entries s bs hs = concat (map (\<lambda>h. map (entry s) (butlast (bs h))) hs)"

lemma dump_slots_ok:
  assumes env: "dump_env after mem" and rep: "kv_rep s base bs"
  shows "set hs \<subseteq> {..<KEY_VALUE_SIZE} \<Longrightarrow> \<forall>e\<in>set (all_entries s bs hs). storable e \<Longrightarrow>
    \<exists>c b. rfold (dump_slot after mem s (Some base)) (count, out) hs = Inr (c, out @ b) \<and>
      records b (all_entries s bs hs) \<and> CHR 0x1A \<notin> set b"
proof (induction hs arbitrary: count out)
  case Nil
  then show ?case by (simp add: all_entries_def)
next
  case (Cons h hs)
  have "bucket_ok s base h (bs h)" using rep Cons.prems(1) by (simp add: kv_rep_def)
  then obtain c b where b: "dump_slot after mem s (Some base) (count, out) h = Inr (c, out @ b)"
    "records b (map (entry s) (butlast (bs h)))" "CHR 0x1A \<notin> set b"
    using dump_slot_ok [OF env, of s base h "bs h" count out] Cons.prems(2) by (auto simp: all_entries_def)
  obtain c' b' where b': "rfold (dump_slot after mem s (Some base)) (c, out @ b) hs = Inr (c', (out @ b) @ b')"
    "records b' (all_entries s bs hs)" "CHR 0x1A \<notin> set b'"
    using Cons.IH [of c "out @ b"] Cons.prems by (auto simp: all_entries_def)
  have "rfold (dump_slot after mem s (Some base)) (count, out) (h # hs) = Inr (c', out @ (b @ b'))"
    using b(1) b'(1) by (simp del: dump_slot.simps)
  moreover have "records (b @ b') (all_entries s bs (h # hs))"
    using records_append [OF b(2) b'(2)] by (simp add: all_entries_def)
  ultimately show ?case using b(3) b'(3) by (metis Un_iff set_append)
qed

lemma all_entries_map:
  assumes rep: "kv_rep s base bs"
  shows "map_of (all_entries s bs [0..<KEY_VALUE_SIZE]) = kv_abs s bs"
proof
  fix k
  let ?h = "unat (hash k)"
  have keys: "unat (hash k') = h" if "(k', v) \<in> set (map (entry s) (butlast (bs h)))" "h < KEY_VALUE_SIZE" for k' v h
    using that rep by (fastforce simp: kv_rep_def bucket_ok_def entry_def)
  have gen: "map_of (all_entries s bs hs) k = (if ?h \<in> set hs then kv_abs s bs k else None)"
    if "set hs \<subseteq> {..<KEY_VALUE_SIZE}" for hs
    using that
  proof (induction hs)
    case Nil
    then show ?case by (simp add: all_entries_def)
  next
    case (Cons h hs)
    have e: "all_entries s bs (h # hs) = map (entry s) (butlast (bs h)) @ all_entries s bs hs"
      by (simp add: all_entries_def)
    have other: "map_of (map (entry s) (butlast (bs h))) k = None" if "?h \<noteq> h"
      using keys [of k _ h] that Cons.prems by (metis insert_subset lessThan_iff list.simps(15) map_of_SomeD not_None_eq)
    from Cons show ?case
      unfolding e map_of_append
      by (cases "?h = h") (auto simp: kv_abs_def other map_add_def split: option.split)
  qed
  show "map_of (all_entries s bs [0..<KEY_VALUE_SIZE]) k = kv_abs s bs k"
    using gen [of "[0..<KEY_VALUE_SIZE]"] hash_bound [of k] by (simp add: atLeast0LessThan)
qed

lemma entry_abs:
  assumes rep: "kv_rep s base bs" and a: "a \<in> set (butlast (bs h))" "h < KEY_VALUE_SIZE"
  shows "kv_abs s bs (fst (entry s a)) = Some (snd (entry s a))"
proof -
  have bk: "bucket_ok s base h (bs h)" using rep a(2) by (simp add: kv_rep_def)
  have h: "unat (hash (fst (entry s a))) = h" using bk a(1) by (auto simp: bucket_ok_def entry_def)
  have "map (\<lambda>a. nd_key (cells s a)) (butlast (bs h)) = map (Some \<circ> (fst \<circ> entry s)) (butlast (bs h))"
    using bucket_key [OF bk] by (auto simp: entry_def)
  then have "distinct (map (Some \<circ> (fst \<circ> entry s)) (butlast (bs h)))"
    using bk by (metis bucket_ok_def)
  then have "distinct (map fst (map (entry s) (butlast (bs h))))"
    by (simp add: distinct_map inj_on_def)
  then have "map_of (map (entry s) (butlast (bs h))) (fst (entry s a)) = Some (snd (entry s a))"
    by (rule map_of_is_SomeI) (use a(1) in \<open>auto simp: image_iff\<close>)
  then show ?thesis by (simp add: kv_abs_def h)
qed

lemma all_entries_distinct:
  assumes rep: "kv_rep s base bs"
  shows "distinct (map fst (all_entries s bs [0..<KEY_VALUE_SIZE]))"
proof -
  have bk: "bucket_ok s base h (bs h)" if "h < KEY_VALUE_SIZE" for h using rep that by (simp add: kv_rep_def)
  have one: "distinct (map fst (map (entry s) (butlast (bs h))))" if h: "h < KEY_VALUE_SIZE" for h
  proof -
    have "map (\<lambda>a. nd_key (cells s a)) (butlast (bs h)) = map (Some \<circ> (fst \<circ> entry s)) (butlast (bs h))"
      using bucket_key [OF bk [OF h]] by (auto simp: entry_def)
    then have "distinct (map (Some \<circ> (fst \<circ> entry s)) (butlast (bs h)))"
      using bk [OF h] by (metis bucket_ok_def)
    then show ?thesis by (simp add: distinct_map inj_on_def)
  qed
  have hk: "unat (hash (fst e)) = h" if "e \<in> set (map (entry s) (butlast (bs h)))" "h < KEY_VALUE_SIZE" for e h
    using bk [OF that(2)] that(1) by (fastforce simp: bucket_ok_def entry_def)
  have gen: "distinct (map fst (all_entries s bs hs))" if "distinct hs" "set hs \<subseteq> {..<KEY_VALUE_SIZE}" for hs
    using that
  proof (induction hs)
    case Nil
    then show ?case by (simp add: all_entries_def)
  next
    case (Cons h hs)
    have e: "all_entries s bs (h # hs) = map (entry s) (butlast (bs h)) @ all_entries s bs hs"
      by (simp add: all_entries_def)
    have rest: "unat (hash (fst e)) \<in> set hs" if "e \<in> set (all_entries s bs hs)" for e
    proof -
      from that obtain h' where h': "h' \<in> set hs" "e \<in> set (map (entry s) (butlast (bs h')))"
        by (auto simp: all_entries_def)
      have "h' < KEY_VALUE_SIZE" using Cons.prems(2) h'(1) by auto
      from hk [OF h'(2) this] h'(1) show ?thesis by (simp only:)
    qed
    have "fst e1 \<noteq> fst e2" if e12: "e1 \<in> set (map (entry s) (butlast (bs h)))" "e2 \<in> set (all_entries s bs hs)" for e1 e2
    proof
      assume eq: "fst e1 = fst e2"
      have "h < KEY_VALUE_SIZE" using Cons.prems(2) by auto
      from hk [OF e12(1) this] rest [OF e12(2)] eq Cons.prems(1) show False by simp
    qed
    then have "fst ` set (map (entry s) (butlast (bs h))) \<inter> fst ` set (all_entries s bs hs) = {}" by blast
    moreover have "distinct (map fst (all_entries s bs hs))" by (rule Cons.IH) (use Cons.prems in auto)
    ultimately show ?case
      using one [of h] Cons.prems unfolding e by (simp only: map_append distinct_append set_map) simp
  qed
  show ?thesis by (rule gen) auto
qed

lemma dump_proc_ok:
  assumes env: "dump_env after mem" and mod: "kv_models s kv m"
    and st: "\<And>k v. m k = Some v \<Longrightarrow> storable (k, v)"
  obtains b es where "dump_proc True after mem s kv = Inr (text_write b)" "records b es" "CHR 0x1A \<notin> set b"
    "map_of es = m" "distinct (map fst es)" "\<forall>e\<in>set es. storable e"
proof -
  from mod obtain base bs where kv: "kv = Some base" and rep: "kv_rep s base bs" and m: "m = kv_abs s bs"
    by (auto simp: kv_models_def)
  let ?es = "all_entries s bs [0..<KEY_VALUE_SIZE]"
  have sto: "\<forall>e\<in>set ?es. storable e"
  proof
    fix e assume "e \<in> set ?es"
    then obtain h a where ha: "h < KEY_VALUE_SIZE" "a \<in> set (butlast (bs h))" "e = entry s a"
      by (auto simp: all_entries_def)
    from entry_abs [OF rep ha(2,1)] st m ha(3) show "storable e" by (metis prod.collapse)
  qed
  have "\<exists>c b. rfold (dump_slot after mem s (Some base)) (0, []) [0..<KEY_VALUE_SIZE] = Inr (c, [] @ b) \<and>
      records b ?es \<and> CHR 0x1A \<notin> set b"
    by (rule dump_slots_ok [OF env rep _ sto]) auto
  then obtain c b where "rfold (dump_slot after mem s (Some base)) (0, []) [0..<KEY_VALUE_SIZE] = Inr (c, b)"
    "records b ?es" "CHR 0x1A \<notin> set b" by auto
  with that all_entries_map [OF rep] all_entries_distinct [OF rep] sto show thesis by (auto simp: dump_proc_def kv m)
qed

subsection \<open>Reading records back\<close>

lemma memset0_4: "4 \<le> length buf \<Longrightarrow> memset0 buf 4 = Inr (replicate 4 NUL @ drop 4 buf)"
  by (rule memset0_fits)

lemma fread_into_exact: "length p = n \<Longrightarrow> n \<le> length buf \<Longrightarrow> fread_into buf n (p @ rest) = Inr (p @ drop n buf, rest)"
  by (simp add: fread_into_def)

lemma takeWhile_cstr: "nul_free t \<Longrightarrow> takeWhile (\<lambda>c. c \<noteq> NUL) (cstr t @ junk) = t"
  by (induction t) (auto simp: cstr_def)

lemma block_cstr_prefix: "nul_free t \<Longrightarrow> block_cstr (cstr t @ junk) = Inr t"
  by (simp only: block_cstr_def takeWhile_cstr) (simp add: cstr_def)

lemma size_field_read:
  assumes "size_field p n" "4 \<le> length buf"
  obtains rb where "fread_into buf 4 (p @ rest) = Inr (rb, rest)" "block_cstr rb = Inr (show_nat n)" "length rb = length buf"
proof -
  from assms(1) obtain t where p: "length p = 4" "p = cstr (show_nat n) @ t" by (auto simp: size_field_def)
  have "block_cstr (p @ drop 4 buf) = Inr (show_nat n)"
    unfolding p(2) append_assoc by (rule block_cstr_prefix) simp
  with that fread_into_exact [OF p(1) assms(2)] p(1) assms(2) show thesis by simp
qed

lemma read_counted_ok:
  assumes "length d < length buf"
  shows "read_counted (Some buf) (int (length d)) (d @ rest) = Inr (cstr d @ drop (Suc (length d)) buf, rest)"
proof -
  have "(d @ drop (length d) buf)[length d := NUL] = d @ NUL # drop (Suc (length d)) buf"
    using assms by (metis Cons_nth_drop_Suc list_update_length)
  with assms show ?thesis by (simp add: read_counted_def fread_into_def put_byte_def cstr_def)
qed

text \<open>
  Enough room for the code to read an entry back: the block of four bytes takes the \<open>memset\<close> over
  the length of the key, and the blocks for key and value have a byte more than was asked for.
\<close>

definition room_for :: "heap_blocks \<Rightarrow> string \<times> string \<Rightarrow> bool" where
  "room_for mem e \<longleftrightarrow> (\<forall>c. 4 \<le> length (mem c 4) \<and> length (fst e) \<le> length (mem c 4) \<and>
     length (fst e) < length (mem c (length (fst e))) \<and> length (snd e) < length (mem c (length (snd e))))"

lemma recover_key_ok:
  assumes st: "storable e" and rm: "room_for mem e" and p: "size_field p (length (fst e))"
    and rb: "length (r_readbuf r) = length (mem 0 4)" and room4: "\<And>c. length (mem c 4) = length (mem 0 4)"
    and rest: "r_rest r = p @ fst e @ rest"
  obtains r' where "recover_key mem r = Inr r'" "r_rest r' = rest" "r_store r' = r_store r"
    "length (r_readbuf r') = length (mem 0 4)" "\<exists>kb. r_keybuf r' = Some kb \<and> block_cstr kb = Inr (fst e)"
proof -
  let ?n = "length (fst e)"
  have n0: "0 < int ?n" using st by (auto simp: storable_def)
  have l4: "4 \<le> length (r_readbuf r)" using rm rb by (simp add: room_for_def)
  obtain rb1 where rb1: "fread_into (r_readbuf r) 4 (p @ fst e @ rest) = Inr (rb1, fst e @ rest)"
    "block_cstr rb1 = Inr (show_nat ?n)" "length rb1 = length (r_readbuf r)"
    by (rule size_field_read [OF p l4])
  have "?n \<le> length rb1" using rm rb rb1(3) by (simp add: room_for_def)
  then have ms: "memset0 rb1 ?n = Inr (replicate ?n NUL @ drop ?n rb1)" by (rule memset0_fits)
  let ?kb = "mem (r_calls r) ?n"
  have "?n < length ?kb" using rm by (simp add: room_for_def)
  then have rc: "read_counted (Some ?kb) (int ?n) (fst e @ rest) = Inr (cstr (fst e) @ drop (Suc ?n) ?kb, rest)"
    by (simp add: read_counted_ok)
  have bc: "block_cstr (cstr (fst e) @ drop (Suc ?n) ?kb) = Inr (fst e)"
    by (rule block_cstr_prefix) (use st in \<open>simp add: storable_def\<close>)
  have eq: "recover_key mem r = Inr (r\<lparr>r_rest := rest, r_calls := Suc (r_calls r), r_readbuf := replicate ?n NUL @ drop ?n rb1,
      r_keybuf := Some (cstr (fst e) @ drop (Suc ?n) ?kb)\<rparr>)"
    using n0 by (simp add: recover_key_def rest rb1(1,2) atoi_show_nat ms rc Let_def)
  show thesis
    by (rule that [OF eq]) (use bc rb1(3) rb \<open>?n \<le> length rb1\<close> in auto)
qed

lemma recover_value_ok:
  assumes st: "storable e" and rm: "room_for mem e" and p: "size_field p (length (snd e))"
    and rb: "length (r_readbuf r) = length (mem 0 4)"
    and rest: "r_rest r = p @ snd e @ rest"
  obtains r' where "recover_value mem r = Inr r'" "r_rest r' = rest" "r_store r' = r_store r" "r_keybuf r' = r_keybuf r"
    "length (r_readbuf r') = length (mem 0 4)" "\<exists>vb. r_valuebuf r' = Some vb \<and> block_cstr vb = Inr (snd e)"
proof -
  let ?n = "length (snd e)"
  have n0: "0 < int ?n" using st by (auto simp: storable_def)
  have l4: "4 \<le> length (r_readbuf r)" using rm rb by (simp add: room_for_def)
  obtain rb1 where rb1: "fread_into (r_readbuf r) 4 (p @ snd e @ rest) = Inr (rb1, snd e @ rest)"
    "block_cstr rb1 = Inr (show_nat ?n)" "length rb1 = length (r_readbuf r)"
    by (rule size_field_read [OF p l4])
  let ?vb = "mem (r_calls r) ?n"
  have lv: "?n < length ?vb" using rm by (simp add: room_for_def)
  then have ms: "memset0 ?vb ?n = Inr (replicate ?n NUL @ drop ?n ?vb)" by (intro memset0_fits) simp
  let ?vb1 = "replicate ?n NUL @ drop ?n ?vb"
  have rc: "read_counted (Some ?vb1) (int ?n) (snd e @ rest) = Inr (cstr (snd e) @ drop (Suc ?n) ?vb1, rest)"
    using lv by (subst read_counted_ok) auto
  have bc: "block_cstr (cstr (snd e) @ drop (Suc ?n) ?vb1) = Inr (snd e)"
    by (rule block_cstr_prefix) (use st in \<open>simp add: storable_def\<close>)
  have eq: "recover_value mem r = Inr (r\<lparr>r_rest := rest, r_calls := Suc (r_calls r), r_readbuf := rb1,
      r_valuebuf := Some (cstr (snd e) @ drop (Suc ?n) ?vb1)\<rparr>)"
    using n0 by (simp add: recover_value_def rest rb1(1,2) atoi_show_nat ms rc Let_def del: drop_append)
  show thesis
    by (rule that [OF eq]) (use bc rb1(3) rb in auto)
qed

definition equal_blocks :: "heap_blocks \<Rightarrow> bool" where
  "equal_blocks mem \<longleftrightarrow> (\<forall>c. length (mem c 4) = length (mem 0 4) \<and> 4 \<le> length (mem 0 4))"

lemma recover_loop_records:
  assumes eqb: "equal_blocks mem"
  shows "records b es \<Longrightarrow> \<forall>e\<in>set es. storable e \<and> room_for mem e \<Longrightarrow> r_rest r = b \<Longrightarrow>
    length (r_readbuf r) = length (mem 0 4) \<Longrightarrow> kv_models (r_store r) kv m \<Longrightarrow> length es < n \<Longrightarrow>
    \<exists>r'. recover_loop mem kv n r = Inr r' \<and> kv_models (r_store r') kv (m ++ map_of (rev es))"
proof (induction es arbitrary: b r m n)
  case Nil
  then obtain n' where n: "n = Suc n'" by (cases n) auto
  have l: "4 \<le> length (r_readbuf r)" using Nil.prems eqb by (simp add: equal_blocks_def)
  have no: "\<not> is_one (replicate 4 NUL @ drop 4 (r_readbuf r))" by (simp add: is_one_def eval_nat_numeral)
  have "recover_loop mem kv n r = Inr (r\<lparr>r_readbuf := replicate 4 NUL @ drop 4 (r_readbuf r), r_rest := []\<rparr>)"
    unfolding n recover_loop.simps memset0_4 [OF l] rbind_Inr
    using Nil.prems no by (simp add: fread_into_def)
  with Nil.prems show ?case by simp
next
  case (Cons e es)
  then obtain n' where n: "n = Suc n'" by (cases n) auto
  from Cons.prems(1) obtain b1 b2 where b: "b = b1 @ b2" "is_record b1 e" "records b2 es" by auto
  from b(2) obtain p1 p2 p3 where p: "b1 = p1 @ p2 @ fst e @ p3 @ snd e" "length p1 = 4" "is_one p1"
    "size_field p2 (length (fst e))" "size_field p3 (length (snd e))" unfolding is_record_def by blast
  have l: "4 \<le> length (r_readbuf r)" using Cons.prems(4) eqb by (simp add: equal_blocks_def)
  have st: "storable e" and rm: "room_for mem e" using Cons.prems(2) by auto
  let ?rb = "p1 @ drop 4 (r_readbuf r)"
  let ?r0 = "r\<lparr>r_readbuf := ?rb, r_rest := p2 @ fst e @ (p3 @ snd e @ b2)\<rparr>"
  have fr: "fread_into (replicate 4 NUL @ drop 4 (r_readbuf r)) 4 (r_rest r) =
      Inr (?rb, p2 @ fst e @ (p3 @ snd e @ b2))"
    using p l Cons.prems(3) b(1) by (simp add: fread_into_def)
  have one: "is_one ?rb" using p(2,3) by (simp add: is_one_def)
  obtain r1 where r1: "recover_key mem ?r0 = Inr r1" "r_rest r1 = p3 @ snd e @ b2" "r_store r1 = r_store r"
    "length (r_readbuf r1) = length (mem 0 4)" "\<exists>kb. r_keybuf r1 = Some kb \<and> block_cstr kb = Inr (fst e)"
    by (rule recover_key_ok [OF st rm p(4), of ?r0 "p3 @ snd e @ b2"])
      (use eqb Cons.prems(4) l p(2) in \<open>auto simp: equal_blocks_def\<close>)
  obtain r2 where r2: "recover_value mem r1 = Inr r2" "r_rest r2 = b2" "r_store r2 = r_store r1" "r_keybuf r2 = r_keybuf r1"
    "length (r_readbuf r2) = length (mem 0 4)" "\<exists>vb. r_valuebuf r2 = Some vb \<and> block_cstr vb = Inr (snd e)"
    by (rule recover_value_ok [OF st rm p(5) r1(4,2)])
  have "kv_models (r_store r2) kv m" using Cons.prems(5) r1(3) r2(3) by simp
  from kv_map.put_law [OF this, of "fst e" "snd e"] obtain s3 q where
    s3: "kv_insert (r_store r2) kv (Some (fst e)) (Some (snd e)) = Inr (s3, q)" "kv_models s3 kv (m(fst e \<mapsto> snd e))"
    by (auto simp: kv_put_def)
  let ?r3 = "r2\<lparr>r_store := s3\<rparr>"
  have ins: "recover_insert kv r2 = Inr ?r3"
    using r1(5) r2(4,6) s3(1) by (auto simp: recover_insert_def)
  have "\<exists>r'. recover_loop mem kv n' ?r3 = Inr r' \<and> kv_models (r_store r') kv (m(fst e \<mapsto> snd e) ++ map_of (rev es))"
    by (rule Cons.IH [OF b(3), where m = "m(fst e \<mapsto> snd e)"]) (use Cons.prems(2,6) r2(2,5) s3(2) n in \<open>simp_all del: fun_upd_apply\<close>)
  moreover have "m(fst e \<mapsto> snd e) ++ map_of (rev es) = m ++ map_of (rev (e # es))"
    by (cases e) (auto simp: map_add_def fun_eq_iff split: option.split)
  moreover have "recover_loop mem kv n r = recover_loop mem kv n' ?r3"
    unfolding n recover_loop.simps memset0_4 [OF l] rbind_Inr fr prod.case
    using one r1(1) r2(1) ins by simp
  ultimately show ?case by (simp only:)
qed

lemma records_length: "records b es \<Longrightarrow> length es \<le> length b"
  by (induction es arbitrary: b) (fastforce simp: is_record_def)+

lemma recover_dump:
  assumes env: "dump_env after mem" and mod: "kv_models s kv m" and mod': "kv_models s' kv' m'"
    and st: "\<And>k v. m k = Some v \<Longrightarrow> storable (k, v)" and rm: "\<And>k v. m k = Some v \<Longrightarrow> room_for mem' (k, v)"
    and eqb: "equal_blocks mem'"
  shows "\<exists>file s2. dump_proc True after mem s kv = Inr file \<and> recover mem' (Some file) s' kv' = Inr s2 \<and>
    kv_models s2 kv' (m' ++ m)"
proof -
  obtain b es where d: "dump_proc True after mem s kv = Inr (text_write b)" "records b es" "CHR 0x1A \<notin> set b"
    "map_of es = m" "distinct (map fst es)" "\<forall>e\<in>set es. storable e"
    by (rule dump_proc_ok [OF env mod st])
  have es: "\<forall>e\<in>set es. storable e \<and> room_for mem' e"
  proof
    fix e assume e: "e \<in> set es"
    then have "m (fst e) = Some (snd e)" using d(4,5) by (metis map_of_is_SomeI prod.collapse)
    from rm [OF this] d(6) e show "storable e \<and> room_for mem' e" by simp
  qed
  have l4: "4 \<le> length (mem' 0 4)" using eqb by (simp add: equal_blocks_def)
  let ?r = "\<lparr>r_store = s', r_rest = b, r_calls = 1, r_readbuf = replicate 4 NUL @ drop 4 (mem' 0 4), r_keybuf = None, r_valuebuf = None\<rparr>"
  have "\<exists>r'. recover_loop mem' kv' (Suc (length b)) ?r = Inr r' \<and> kv_models (r_store r') kv' (m' ++ map_of (rev es))"
    by (rule recover_loop_records [OF eqb d(2) es]) (use l4 mod' records_length [OF d(2)] in simp_all)
  moreover have "map_of (rev es) = m" using d(4,5) map_of_inject_set [of "rev es" es] by (simp add: rev_map [symmetric])
  ultimately obtain r' where "recover_loop mem' kv' (Suc (length b)) ?r = Inr r'" "kv_models (r_store r') kv' (m' ++ m)"
    by auto
  then have "recover mem' (Some (text_write b)) s' kv' = Inr (r_store r')"
    by (simp add: recover_def memset0_4 [OF l4] text_read_write [OF d(3)] del: recover_loop.simps)
  with d(1) \<open>kv_models (r_store r') kv' (m' ++ m)\<close> show ?thesis by blast
qed

subsection \<open>Any file\<close>

lemma read_counted_rest: "read_counted p n rest = Inr (b, rest') \<Longrightarrow> length rest' \<le> length rest"
  by (auto simp: read_counted_def fread_into_def Let_def split: option.splits if_splits)

lemma ends_fread [simp]: "ends (fread_into buf n rest)"
  by (simp add: fread_into_def ends_def Let_def)

lemma ends_put_byte [simp]: "ends (put_byte buf n c)"
  by (simp add: put_byte_def ends_def)

lemma ends_memset0 [simp]: "ends (memset0 buf n)"
  by (induction n) auto

lemma ends_block_cstr [simp]: "ends (block_cstr buf)"
  by (simp add: block_cstr_def ends_def)

lemma ends_read_counted [simp]: "ends (read_counted p n rest)"
  by (auto simp: read_counted_def intro!: ends_rbind split: option.split)

lemma recover_key_ends: "ends (recover_key mem r)"
  unfolding recover_key_def Let_def by (auto intro!: ends_rbind)

lemma recover_value_ends: "ends (recover_value mem r)"
  unfolding recover_value_def Let_def by (auto intro!: ends_rbind)

lemma fread_into_Inr: "fread_into buf n rest = Inr (b, rest') \<Longrightarrow> rest' = drop n rest \<and> b = take n rest @ drop (length (take n rest)) buf"
  by (auto simp: fread_into_def Let_def split: if_splits)

lemma recover_key_rest:
  "recover_key mem r = Inr r' \<Longrightarrow> length (r_rest r') \<le> length (r_rest r) \<and> r_store r' = r_store r"
  by (auto simp: recover_key_def Let_def fread_into_def split: prod.splits if_splits dest!: read_counted_rest)

lemma recover_value_rest:
  "recover_value mem r = Inr r' \<Longrightarrow> length (r_rest r') \<le> length (r_rest r) \<and> r_store r' = r_store r"
  by (auto simp: recover_value_def Let_def fread_into_def split: prod.splits if_splits dest!: read_counted_rest)

definition keeps_table :: "ptr \<Rightarrow> rstate res \<Rightarrow> bool" where
  "keeps_table kv x \<longleftrightarrow> (case x of Inl e \<Rightarrow> e \<noteq> OutOfFuel | Inr r \<Rightarrow> \<exists>m. kv_models (r_store r) kv m)"

lemma recover_insert_keeps:
  assumes "kv_models (r_store r) kv m"
  shows "ends (recover_insert kv r)"
    "recover_insert kv r = Inr r' \<Longrightarrow> r_rest r' = r_rest r \<and> (\<exists>m'. kv_models (r_store r') kv m')"
proof -
  have ins: "\<exists>s' q. kv_insert (r_store r) kv (Some k) (Some v) = Inr (s', q) \<and> kv_models s' kv (m(k \<mapsto> v))" for k v
    using kv_map.put_law [OF assms, of k v] by (auto simp: kv_put_def)
  show "ends (recover_insert kv r)"
  proof -
    have "ends (kv_insert (r_store r) kv (Some k) (Some v))" for k v
      using ins [of k v] by auto
    then show ?thesis unfolding recover_insert_def by (auto intro!: ends_rbind split: option.split)
  qed
  show "r_rest r' = r_rest r \<and> (\<exists>m'. kv_models (r_store r') kv m')" if r': "recover_insert kv r = Inr r'"
  proof -
    from r' obtain k v s q where "kv_insert (r_store r) kv (Some k) (Some v) = Inr (s, q)" "r' = r\<lparr>r_store := s\<rparr>"
      unfolding recover_insert_def by (auto split: option.splits)
    with ins [of k v] show ?thesis by auto
  qed
qed

lemma memset0_needs: "memset0 buf n = Inr b \<Longrightarrow> n \<le> length buf"
  by (induction n arbitrary: b) (auto simp: put_byte_def dest: memset0_length split: if_splits)

lemma memset0_not_one: "memset0 buf 4 = Inr b \<Longrightarrow> \<not> is_one b"
  using memset0_needs [of buf 4 b] memset0_fits [of 4 buf] by (auto simp: is_one_def eval_nat_numeral)

lemma recover_loop_keeps:
  "kv_models (r_store r) kv m \<Longrightarrow> length (r_rest r) < n \<Longrightarrow> keeps_table kv (recover_loop mem kv n r)"
proof (induction n arbitrary: r m)
  case 0
  then show ?case by simp
next
  case (Suc n)
  show ?case
  proof (cases "memset0 (r_readbuf r) 4")
    case (Inl e)
    then show ?thesis using ends_memset0 [of "r_readbuf r" 4] by (simp add: keeps_table_def ends_def)
  next
    case (Inr rb0)
    show ?thesis
    proof (cases "fread_into rb0 4 (r_rest r)")
      case (Inl e)
      then show ?thesis using Inr ends_fread [of rb0 4 "r_rest r"] by (simp add: keeps_table_def ends_def)
    next
      case (Inr x)
      obtain rb rest where x: "x = (rb, rest)" by (cases x)
      let ?r = "r\<lparr>r_readbuf := rb, r_rest := rest\<rparr>"
      show ?thesis
      proof (cases "is_one rb")
        case False
        with \<open>memset0 _ 4 = _\<close> Inr x Suc.prems show ?thesis by (auto simp: keeps_table_def)
      next
        case True
        have sh: "length rest < length (r_rest r)"
        proof (rule ccontr)
          assume "\<not> ?thesis"
          moreover have fr: "rest = drop 4 (r_rest r)" "rb = take 4 (r_rest r) @ drop (length (take 4 (r_rest r))) rb0"
            using fread_into_Inr [of rb0 4 "r_rest r" rb rest] Inr x by auto
          ultimately have "r_rest r = []" by (cases "r_rest r") auto
          with fr have "rb = rb0" by simp
          with True memset0_not_one [OF \<open>memset0 _ 4 = Inr rb0\<close>] show False by simp
        qed
        have eq: "recover_loop mem kv (Suc n) r =
            rbind (recover_key mem ?r) (\<lambda>r1. rbind (recover_value mem r1) (\<lambda>r2.
            rbind (recover_insert kv r2) (\<lambda>r3. recover_loop mem kv n r3)))"
          using \<open>memset0 _ 4 = Inr rb0\<close> Inr x True by simp
        have st: "recover_loop mem kv n r3 = y \<Longrightarrow> keeps_table kv y"
          if k: "recover_key mem ?r = Inr r1" "recover_value mem r1 = Inr r2" "recover_insert kv r2 = Inr r3" for r1 r2 r3 y
        proof -
          have mo: "kv_models (r_store r2) kv m"
            using recover_key_rest [OF k(1)] recover_value_rest [OF k(2)] Suc.prems(1) by simp
          obtain m' where m': "kv_models (r_store r3) kv m'" "r_rest r3 = r_rest r2"
            using recover_insert_keeps(2) [OF mo k(3)] by blast
          have "length (r_rest r3) < n"
            using recover_key_rest [OF k(1)] recover_value_rest [OF k(2)] m'(2) sh Suc.prems(2) by simp
          from Suc.IH [OF m'(1) this] show "recover_loop mem kv n r3 = y \<Longrightarrow> keeps_table kv y" by simp
        qed
        have fl: "e \<noteq> OutOfFuel" if "recover_insert kv r2 = Inl e" "recover_key mem ?r = Inr r1" "recover_value mem r1 = Inr r2" for e r1 r2
        proof -
          have "kv_models (r_store r2) kv m"
            using recover_key_rest [OF that(2)] recover_value_rest [OF that(3)] Suc.prems(1) by simp
          from recover_insert_keeps(1) [OF this] that(1) show ?thesis by simp
        qed
        show ?thesis
        proof (cases "recover_key mem ?r")
          case (Inl e)
          then show ?thesis using recover_key_ends [of mem ?r] unfolding eq by (simp add: keeps_table_def)
        next
          case r1: (Inr r1)
          show ?thesis
          proof (cases "recover_value mem r1")
            case (Inl e)
            then show ?thesis using recover_value_ends [of mem r1] unfolding eq r1 by (simp add: keeps_table_def)
          next
            case r2: (Inr r2)
            show ?thesis
            proof (cases "recover_insert kv r2")
              case (Inl e)
              then show ?thesis using fl [OF Inl r1 r2] unfolding eq r1 by (simp add: keeps_table_def r2)
            next
              case r3: (Inr r3)
              show ?thesis unfolding eq r1 rbind_Inr r2 r3 by (rule st [OF r1 r2 r3 refl])
            qed
          qed
        qed
      qed
    qed
  qed
qed

subsection \<open>Properties\<close>

lemma upd_SomeD: "[a \<mapsto> b] k = Some v \<Longrightarrow> k = a \<and> v = b"
  by (simp split: if_splits)

text \<open>Blocks of a heap that hands out multiples of 8 bytes, always at least one more than asked for.\<close>

definition heap8 :: heap_blocks where
  "heap8 c n = replicate (8 * (n div 8 + 1)) (CHR 0xCD)"

lemma heap8_facts:
  "dump_env [NUL, NUL] heap8" "equal_blocks heap8"
  "length k \<le> 8 \<Longrightarrow> room_for heap8 (k, v)"
proof -
  have l: "n < length (heap8 c n)" for c n
  proof -
    have "n < 8 * (n div 8 + 1)" by presburger
    then show ?thesis by (simp only: heap8_def length_replicate)
  qed
  show "dump_env [NUL, NUL] heap8" by (simp add: dump_env_def heap8_def)
  show "equal_blocks heap8" by (simp add: equal_blocks_def heap8_def)
  show "length k \<le> 8 \<Longrightarrow> room_for heap8 (k, v)"
    using l by (simp add: room_for_def) (simp add: heap8_def)
qed



lemma recover_keeps:
  assumes "kv_models s kv m"
  shows "(case recover mem dict s kv of Inl e \<Rightarrow> e \<noteq> OutOfFuel | Inr s' \<Rightarrow> \<exists>m'. kv_models s' kv m')"
proof (cases "memset0 (mem 0 4) 4")
  case (Inl e)
  then show ?thesis using ends_memset0 [of "mem 0 4" 4] by (simp add: recover_def)
next
  case (Inr rb)
  show ?thesis
  proof (cases dict)
    case None
    with Inr assms show ?thesis by (auto simp: recover_def)
  next
    case (Some bytes)
    let ?r = "\<lparr>r_store = s, r_rest = text_read bytes, r_calls = 1, r_readbuf = rb, r_keybuf = None, r_valuebuf = None\<rparr>"
    have "keeps_table kv (recover_loop mem kv (Suc (length (text_read bytes))) ?r)"
      by (rule recover_loop_keeps [where m = m]) (use assms in simp_all)
    then show ?thesis
      using Inr Some by (cases "recover_loop mem kv (Suc (length (text_read bytes))) ?r")
        (auto simp: recover_def keeps_table_def simp del: recover_loop.simps)
  qed
qed

text \<open>
  C29: Whatever bytes \<open>dict.lib\<close> holds, \<open>__recover\<close> comes to an end (the loop \<open>while (1)\<close> reads at
  least one byte in every round but the last), and if it does not fault the table it leaves is
  well formed.
\<close>

theorem recover_any_file:
  assumes "kv_models s kv m"
  shows "(case recover mem dict s kv of Inl e \<Rightarrow> e \<noteq> OutOfFuel | Inr s' \<Rightarrow> \<exists>m'. kv_models s' kv m')"
  by (rule recover_keeps [OF assms])

theorem recover_any_file_witness:
  "\<exists>s p. kv_init empty_store = Inr (s, p) \<and>
    (case recover heap8 (Some (''1'' @ [NUL, NUL, NUL] @ ''-7'')) s p of Inl e \<Rightarrow> e \<noteq> OutOfFuel | Inr s' \<Rightarrow> \<exists>m'. kv_models s' p m')"
proof -
  obtain s p where s: "kv_init empty_store = Inr (s, p)" "kv_models s p Map.empty"
    by (rule kv_models_init)
  with recover_any_file [OF s(2)] show ?thesis by blast
qed

lemma memset0_overrun: "length buf < n \<Longrightarrow> memset0 buf n = Inl OutOfBounds"
proof (induction n)
  case 0
  then show ?case by simp
next
  case (Suc n)
  show ?case
  proof (cases "length buf < n")
    case True
    with Suc.IH show ?thesis by simp
  next
    case False
    with Suc.prems have "n = length buf" by simp
    then show ?thesis by (simp add: memset0_fits put_byte_def)
  qed
qed

lemma recover_key_exact:
  assumes ex: "\<And>c n. length (mem c n) = n" and k: "k \<noteq> []" and p: "size_field p (length k)"
    and rb: "length (r_readbuf r) = 4" and rest: "r_rest r = p @ k @ rest"
  shows "recover_key mem r = Inl OutOfBounds"
proof -
  let ?n = "length k"
  obtain rb1 where rb1: "fread_into (r_readbuf r) 4 (p @ k @ rest) = Inr (rb1, k @ rest)"
    "block_cstr rb1 = Inr (show_nat ?n)" "length rb1 = length (r_readbuf r)"
    using size_field_read [OF p, of "r_readbuf r" "k @ rest"] rb by auto
  have rc: "read_counted (Some (mem c ?n)) (int ?n) (k @ rest) = Inl OutOfBounds" for c
    by (simp add: read_counted_def fread_into_def put_byte_def ex)
  have n0: "0 < int ?n" using k by simp
  show ?thesis
  proof (cases "?n \<le> 4")
    case True
    then have "memset0 rb1 ?n = Inr (replicate ?n NUL @ drop ?n rb1)" using rb1(3) rb by (intro memset0_fits) simp
    then show ?thesis using n0 by (simp add: recover_key_def rest rb1(1,2) atoi_show_nat rc Let_def)
  next
    case False
    then have "memset0 rb1 ?n = Inl OutOfBounds" using rb1(3) rb by (intro memset0_overrun) simp
    then show ?thesis using n0 by (simp add: recover_key_def rest rb1(1,2) atoi_show_nat Let_def)
  qed
qed

text \<open>
  With blocks of exactly the size asked for, \<open>__recover\<close> runs out of bounds on every dump that
  is not empty: \<open>keybuf[num]\<close> lies behind a block of \<open>num\<close> bytes, and for keys longer than 4
  bytes the \<open>memset\<close> over \<open>readbuf\<close>, meant for \<open>keybuf\<close>, overruns that block before.
\<close>

lemma recover_overruns:
  assumes "dump_env after mem" "kv_models s kv m" "\<And>k v. m k = Some v \<Longrightarrow> storable (k, v)"
    and "m \<noteq> Map.empty" "\<And>c n. length (mem' c n) = n"
  shows "\<exists>file. dump_proc True after mem s kv = Inr file \<and> recover mem' (Some file) s' kv' = Inl OutOfBounds"
proof -
  obtain b es where d: "dump_proc True after mem s kv = Inr (text_write b)" "records b es" "CHR 0x1A \<notin> set b"
    "map_of es = m" "distinct (map fst es)" "\<forall>e\<in>set es. storable e"
    by (rule dump_proc_ok [OF assms(1-3)])
  from d(4) assms(4) obtain e es' where es: "es = e # es'" by (cases es) auto
  with d(2) obtain b1 b2 where b12: "b = b1 @ b2" "is_record b1 e" by auto
  from b12(2) obtain p1 p2 p3 where p: "b1 = p1 @ p2 @ fst e @ p3 @ snd e" "length p1 = 4" "is_one p1"
    "size_field p2 (length (fst e))" unfolding is_record_def by blast
  note b = b12(1) p
  have m4: "memset0 buf 4 = Inr (replicate 4 NUL)" if "length buf = 4" for buf
    using that by (simp add: memset0_fits)
  let ?r = "\<lparr>r_store = s', r_rest = b, r_calls = 1, r_readbuf = replicate 4 NUL, r_keybuf = None, r_valuebuf = None\<rparr>"
  have fr: "fread_into (replicate 4 NUL) 4 b = Inr (p1, p2 @ fst e @ (p3 @ snd e @ b2))"
    unfolding b(1,2) append_assoc by (rule trans [OF fread_into_exact [OF b(3)]]) simp_all
  have k: "recover_key mem' (?r\<lparr>r_readbuf := p1, r_rest := p2 @ fst e @ (p3 @ snd e @ b2)\<rparr>) = Inl OutOfBounds"
    by (rule recover_key_exact [OF assms(5) _ b(5)]) (use d(6) es b(3) in \<open>auto simp: storable_def\<close>)
  have "recover_loop mem' kv' (Suc (length b)) ?r = Inl OutOfBounds"
    unfolding recover_loop.simps using m4 fr k b(4) by simp
  then have "recover mem' (Some (text_write b)) s' kv' = Inl OutOfBounds"
    by (simp add: recover_def m4 assms(5) text_read_write [OF d(3)] del: recover_loop.simps)
  with d(1) show ?thesis by blast
qed

lemma recover_overruns_witness:
  "\<exists>s p s1 file. kv_init empty_store = Inr (s, p) \<and> kv_put p s ''k'' ''v'' = Inr s1 \<and>
    dump_proc True [NUL, NUL] heap8 s1 p = Inr file \<and>
    recover (\<lambda>c n. replicate n NUL) (Some file) s p = Inl OutOfBounds"
proof -
  obtain s p where s: "kv_init empty_store = Inr (s, p)" "kv_models s p Map.empty"
    by (rule kv_models_init)
  obtain s1 where s1: "kv_put p s ''k'' ''v'' = Inr s1" "kv_models s1 p [''k'' \<mapsto> ''v'']"
    using kv_map.put_law [OF s(2)] by blast
  have "\<exists>d. dump_proc True [NUL, NUL] heap8 s1 p = Inr d \<and> recover (\<lambda>c n. replicate n NUL) (Some d) s p = Inl OutOfBounds"
  proof (rule recover_overruns [OF heap8_facts(1) s1(2)])
    fix k v assume "[''k'' \<mapsto> ''v''] k = Some v"
    from upd_SomeD [OF this] show "storable (k, v)" by (simp add: storable_def)
  qed simp_all
  with s(1) s1(1) show ?thesis by blast
qed

end
