(* ===== verification/Command.thy ===== *)
theory Command
  imports Dump_Recover Cstlib CJson_Printer CJson_Parser
begin

text \<open>
  \<open>command_parser\<close> of \<open>keyvalue.c\<close>: the text commands over the key-value store and the JSON
  library. The state holds the node store, the global \<open>key_value\<close>, the state of the JSON library, the
  content of \<open>dict.lib\<close> and the dump threads that have been started and have not run yet. A command
  that is given as \<open>NULL\<close> makes \<open>strtok\<close> continue from its saved pointer, which is null or points into
  a line that has been freed; it faults here.
\<close>

subsection \<open>Definitions\<close>

record 'd env =
  fl_ops :: "'d fops"
  json_alloc :: jalloc
  heap :: heap_blocks
  lit_tail :: string
  can_create :: bool

record cstate =
  kv_store :: nstate
  kv_table :: ptr
  json_state :: jstate
  dict_lib :: "string option"
  dump_threads :: "ptr list"

text \<open>\<open>strtok (s, " ")\<close>: the token and the text after it.\<close>

definition strtok :: "string \<Rightarrow> cptr \<times> string" where
  "strtok s =
     (let t = dropWhile (\<lambda>c. c = CHR '' '') s
      in if t = [] then (None, [])
         else (Some (takeWhile (\<lambda>c. c \<noteq> CHR '' '') t), drop 1 (dropWhile (\<lambda>c. c \<noteq> CHR '' '') t)))"

text \<open>The string behind the pointer that \<open>malloc_and_copy\<close> returns.\<close>

definition copy_of :: "cptr \<Rightarrow> string res" where
  "copy_of p = rbind (the_str p) (\<lambda>s. rbind (malloc_and_copy NUL s) (\<lambda>b. Inr (to_nul b)))"

definition cmd_read :: "'d env \<Rightarrow> cstate \<Rightarrow> string \<Rightarrow> (cstate \<times> cptr) res" where
  "cmd_read env st rest =
     (let (tmp, _) = strtok rest in
      rbind (kv_get (kv_store st) (kv_table st) tmp) (\<lambda>(s1, v).
      rbind (copy_of v) (\<lambda>result. Inr (st\<lparr>kv_store := s1\<rparr>, Some result))))"

definition cmd_write :: "'d env \<Rightarrow> cstate \<Rightarrow> string \<Rightarrow> (cstate \<times> cptr) res" where
  "cmd_write env st rest =
     (let (key, r1) = strtok rest; (val, _) = strtok r1 in
      if val = None then Inr (st, Some ''-'')
      else rbind (kv_insert (kv_store st) (kv_table st) key val) (\<lambda>(s1, _). Inr (st\<lparr>kv_store := s1\<rparr>, Some ''+'')))"

definition cmd_add :: "'d env \<Rightarrow> cstate \<Rightarrow> string \<Rightarrow> (cstate \<times> cptr) res" where
  "cmd_add env st rest =
     (let (key, r1) = strtok rest; (val, _) = strtok r1 in
      rbind (kv_get (kv_store st) (kv_table st) key) (\<lambda>(s1, old).
      rbind (copy_of old) (\<lambda>result.
      rbind (the_str val) (\<lambda>v.
      rbind (fill (length (heap env 0 (length result + length v))) (cstr (result @ v))) (\<lambda>_.
      rbind (kv_insert s1 (kv_table st) key (Some (result @ v))) (\<lambda>(s2, _).
      Inr (st\<lparr>kv_store := s2\<rparr>, Some ''+'')))))))"

text \<open>\<open>cJSON_AddItemToArray\<close> reads the child of its first argument before anything else.\<close>

fun add_to_array :: "'d cjson option \<Rightarrow> 'd cjson option \<Rightarrow> 'd cjson option res" where
  "add_to_array None item = Inl NullDeref"
| "add_to_array (Some array) item = Inr (Some (cJSON_AddItemToArray array item))"

text \<open>\<open>cJSON_Parse\<close> and \<open>cJSON_Print\<close> with fuel for the depth of the text and of the tree.\<close>

definition parse_text :: "'d env \<Rightarrow> jstate \<Rightarrow> string \<Rightarrow> (jstate \<times> 'd cjson option) res" where
  "parse_text env j s = cJSON_Parse (fl_ops env) (json_alloc env) (length s + 2) j (cstr s)"

definition print_text :: "'d env \<Rightarrow> jstate \<Rightarrow> 'd cjson option \<Rightarrow> (jstate \<times> cptr) res" where
  "print_text env j it =
     cJSON_Print (fl_ops env) (json_alloc env) (case it of None \<Rightarrow> 1 | Some t \<Rightarrow> height t) j it"

text \<open>What is no JSON text becomes an array of one string.\<close>

definition wrap_text :: "'d env \<Rightarrow> jstate \<Rightarrow> string \<Rightarrow> 'd cjson option \<Rightarrow> (jstate \<times> 'd cjson option) res" where
  "wrap_text env j1 result parsed =
     (case parsed of
        Some json \<Rightarrow> Inr (j1, Some json)
      | None \<Rightarrow>
          let (j2, arr) = cJSON_CreateArray (fl_ops env) (json_alloc env) j1 in
          rbind (cJSON_CreateString (fl_ops env) (json_alloc env) j2 (Some result)) (\<lambda>(j3, item).
          rbind (add_to_array arr item) (\<lambda>json. Inr (j3, json))))"

definition cmd_jsonadd :: "'d env \<Rightarrow> cstate \<Rightarrow> string \<Rightarrow> (cstate \<times> cptr) res" where
  "cmd_jsonadd env st rest =
     (let (key, r1) = strtok rest; (val, _) = strtok r1 in
      rbind (kv_get (kv_store st) (kv_table st) key) (\<lambda>(s1, old).
      rbind (copy_of old) (\<lambda>result.
      rbind (parse_text env (json_state st) result) (\<lambda>(j1, parsed).
      rbind (wrap_text env j1 result parsed) (\<lambda>(j4, json).
      rbind (cJSON_CreateString (fl_ops env) (json_alloc env) j4 val) (\<lambda>(j5, item).
      rbind (add_to_array json item) (\<lambda>json1.
      rbind (print_text env j5 json1) (\<lambda>(j6, out).
      rbind (kv_insert s1 (kv_table st) key out) (\<lambda>(s2, _).
      Inr (st\<lparr>kv_store := s2, json_state := j6\<rparr>, Some ''+''))))))))))"

definition cmd_jsonread :: "'d env \<Rightarrow> cstate \<Rightarrow> string \<Rightarrow> (cstate \<times> cptr) res" where
  "cmd_jsonread env st rest =
     (let (tmp, _) = strtok rest in
      rbind (kv_get (kv_store st) (kv_table st) tmp) (\<lambda>(s1, v).
      rbind (copy_of v) (\<lambda>result.
      rbind (parse_text env (json_state st) result) (\<lambda>(j1, parsed).
      rbind (case parsed of
               Some json \<Rightarrow> Inr (j1, Some json)
             | None \<Rightarrow> cJSON_CreateString (fl_ops env) (json_alloc env) j1 (Some result)) (\<lambda>(j2, json).
      rbind (print_text env j2 json) (\<lambda>(j3, out).
      Inr (st\<lparr>kv_store := s1, json_state := j3\<rparr>, out)))))))"

text \<open>\<open>__key_value_dump\<close> starts a thread; \<open>run_dump\<close> is the thread, run to its end.\<close>

definition key_value_dump :: "cstate \<Rightarrow> cstate" where
  "key_value_dump st = st\<lparr>dump_threads := dump_threads st @ [kv_table st]\<rparr>"

definition run_dump :: "'d env \<Rightarrow> cstate \<Rightarrow> cstate res" where
  "run_dump env st =
     (case dump_threads st of
        [] \<Rightarrow> Inr st
      | k_v # ts \<Rightarrow>
          rbind (dump_proc (can_create env) (lit_tail env) (heap env) (kv_store st) k_v) (\<lambda>bytes.
          Inr (st\<lparr>dict_lib := Some bytes, dump_threads := ts\<rparr>)))"

definition cmd_recvr :: "'d env \<Rightarrow> cstate \<Rightarrow> (cstate \<times> cptr) res" where
  "cmd_recvr env st =
     rbind (recover (heap env) (dict_lib st) (kv_store st) (kv_table st)) (\<lambda>s.
     Inr (st\<lparr>kv_store := s\<rparr>, Some ''+''))"

text \<open>
  \<open>command_parser\<close>: the first token is lower-cased in place; doing it again before each comparison
  changes nothing.
\<close>

definition command_parser :: "'d env \<Rightarrow> cstate \<Rightarrow> cptr \<Rightarrow> (cstate \<times> cptr) res" where
  "command_parser env st command =
     rbind (the_str command) (\<lambda>cmd.
     let (word, rest) = strtok cmd in
     rbind (L (map_option cstr word)) (\<lambda>buf.
     let w = to_nul buf in
       if w = ''read'' then cmd_read env st rest
       else if w = ''write'' then cmd_write env st rest
       else if w = ''add'' then cmd_add env st rest
       else if w = ''jsonadd'' then cmd_jsonadd env st rest
       else if w = ''jsonread'' then cmd_jsonread env st rest
       else if w = ''dump'' then Inr (key_value_dump st, Some ''+'')
       else if w = ''recvr'' then cmd_recvr env st
       else Inr (st, Some ''-'')))"

subsection \<open>Tokens\<close>

text \<open>The pieces of a text between blanks.\<close>

fun split_blank :: "string \<Rightarrow> string list" where
  "split_blank [] = [[]]"
| "split_blank (c # cs) =
     (if c = CHR '' '' then [] # split_blank cs
      else case split_blank cs of [] \<Rightarrow> [[c]] | t # ts \<Rightarrow> (c # t) # ts)"

definition tokens :: "string \<Rightarrow> string list" where
  "tokens s = filter (\<lambda>t. t \<noteq> []) (split_blank s)"

lemma split_blank_Cons: "split_blank s = takeWhile (\<lambda>c. c \<noteq> CHR '' '') s #
    (case dropWhile (\<lambda>c. c \<noteq> CHR '' '') s of [] \<Rightarrow> [] | _ # r \<Rightarrow> split_blank r)"
  by (induction s) auto

lemma tokens_blank [simp]: "tokens (CHR '' '' # s) = tokens s"
  by (simp add: tokens_def)

lemma tokens_Nil [simp]: "tokens [] = []"
  by (simp add: tokens_def)

lemma tokens_dropWhile: "tokens (dropWhile (\<lambda>c. c = CHR '' '') s) = tokens s"
  by (induction s) auto

lemma tokens_Cons:
  assumes "c \<noteq> CHR '' ''"
  shows "tokens (c # cs) = takeWhile (\<lambda>c. c \<noteq> CHR '' '') (c # cs) # tokens (drop 1 (dropWhile (\<lambda>c. c \<noteq> CHR '' '') (c # cs)))"
proof -
  let ?r = "dropWhile (\<lambda>c. c \<noteq> CHR '' '') (c # cs)"
  have "split_blank (c # cs) = takeWhile (\<lambda>c. c \<noteq> CHR '' '') (c # cs) # (case ?r of [] \<Rightarrow> [] | _ # r \<Rightarrow> split_blank r)"
    by (rule split_blank_Cons)
  moreover have "takeWhile (\<lambda>c. c \<noteq> CHR '' '') (c # cs) \<noteq> []" using assms by simp
  ultimately have "tokens (c # cs) = takeWhile (\<lambda>c. c \<noteq> CHR '' '') (c # cs) # filter (\<lambda>t. t \<noteq> []) (case ?r of [] \<Rightarrow> [] | _ # r \<Rightarrow> split_blank r)"
    by (simp only: tokens_def filter.simps if_True not_False_eq_True)
  moreover have "filter (\<lambda>t. t \<noteq> []) (case ?r of [] \<Rightarrow> [] | _ # r \<Rightarrow> split_blank r) = tokens (drop 1 ?r)"
    by (cases ?r) (simp_all add: tokens_def)
  ultimately show ?thesis by simp
qed

lemma strtok_None: "fst (strtok s) = None \<longleftrightarrow> tokens s = []"
  and strtok_Some: "tokens s = t # ts \<Longrightarrow> \<exists>r. strtok s = (Some t, r) \<and> tokens r = ts"
proof -
  let ?d = "dropWhile (\<lambda>c. c = CHR '' '') s"
  have "fst (strtok s) = None \<longleftrightarrow> ?d = []" by (simp add: strtok_def Let_def)
  moreover have "tokens s = [] \<longleftrightarrow> ?d = []"
  proof (cases ?d)
    case Nil
    then have "tokens s = []" using tokens_dropWhile [of s] by (simp only: tokens_Nil)
    with Nil show ?thesis by simp
  next
    case (Cons c cs)
    then have "c \<noteq> CHR '' ''" by (metis (full_types) dropWhile_eq_Cons_conv)
    then have "tokens (c # cs) \<noteq> []" by (simp only: tokens_Cons list.distinct not_False_eq_True)
    then have "tokens s \<noteq> []" using Cons tokens_dropWhile [of s] by (simp only: not_False_eq_True)
    with Cons show ?thesis by (simp only: list.distinct)
  qed
  ultimately show "fst (strtok s) = None \<longleftrightarrow> tokens s = []" by simp
  show "\<exists>r. strtok s = (Some t, r) \<and> tokens r = ts" if t: "tokens s = t # ts"
  proof (cases ?d)
    case Nil
    then have "tokens s = []" using tokens_dropWhile [of s] by (simp only: tokens_Nil)
    with t show ?thesis by simp
  next
    case (Cons c cs)
    then have "c \<noteq> CHR '' ''" by (metis (full_types) dropWhile_eq_Cons_conv)
    with Cons t tokens_dropWhile [of s] tokens_Cons [of c cs] show ?thesis by (simp add: strtok_def)
  qed
qed

lemma strtok_Nil: "tokens s = [] \<Longrightarrow> strtok s = (None, [])"
  using strtok_None [of s] by (simp add: strtok_def Let_def split: if_splits)

lemma set_tokens: "t \<in> set (tokens s) \<Longrightarrow> set t \<subseteq> set s"
proof (induction s arbitrary: t)
  case Nil
  then show ?case by (simp add: tokens_def)
next
  case (Cons c cs)
  have "set u \<subseteq> set cs" if "u \<in> set (split_blank cs)" for u
    using Cons.IH [of u] that by (cases "u = []") (auto simp: tokens_def)
  then show ?case
    using Cons.prems by (force simp: tokens_def split: if_splits list.splits)
qed

subsection \<open>Requests and their meaning on the map\<close>

datatype request = Read string | Write string string | Add string string | Refused

text \<open>
  The string commands a text stands for; \<open>None\<close>: another command, or one with too few
  arguments that the code does not refuse.
\<close>

fun request_of :: "string list \<Rightarrow> request option" where
  "request_of [] = None"
| "request_of (w # ts) =
     (if spells w ''read'' then (case ts of k # _ \<Rightarrow> Some (Read k) | _ \<Rightarrow> None)
      else if spells w ''write'' then (case ts of k # v # _ \<Rightarrow> Some (Write k v) | _ \<Rightarrow> Some Refused)
      else if spells w ''add'' then (case ts of k # v # _ \<Rightarrow> Some (Add k v) | _ \<Rightarrow> None)
      else if spells w ''jsonadd'' \<or> spells w ''jsonread'' \<or> spells w ''dump'' \<or> spells w ''recvr'' then None
      else Some Refused)"

definition lookup_default :: "(string \<Rightarrow> string option) \<Rightarrow> string \<Rightarrow> string" where
  "lookup_default m k = (case m k of Some v \<Rightarrow> v | None \<Rightarrow> NO_VALUE)"

fun answer :: "(string \<Rightarrow> string option) \<Rightarrow> request \<Rightarrow> (string \<Rightarrow> string option) \<times> string" where
  "answer m (Read k) = (m, lookup_default m k)"
| "answer m (Write k v) = (m(k \<mapsto> v), ''+'')"
| "answer m (Add k v) = (m(k \<mapsto> lookup_default m k @ v), ''+'')"
| "answer m Refused = (m, ''-'')"

text \<open>The buffers the code allocates are large enough for the values of the request.\<close>

definition copyable :: "string \<Rightarrow> bool" where
  "copyable s \<longleftrightarrow> nul_free s \<and> length s < 128 \<and> length s mod 8 \<noteq> 0"

fun fits :: "'d env \<Rightarrow> (string \<Rightarrow> string option) \<Rightarrow> request \<Rightarrow> bool" where
  "fits env m (Read k) \<longleftrightarrow> copyable (lookup_default m k)"
| "fits env m (Add k v) \<longleftrightarrow> copyable (lookup_default m k) \<and>
     length (lookup_default m k @ v) < length (heap env 0 (length (lookup_default m k @ v)))"
| "fits env m r \<longleftrightarrow> True"

lemma to_nul_cstr: "nul_free s \<Longrightarrow> to_nul (cstr s @ junk) = s"
  unfolding to_nul_def by (rule takeWhile_cstr)

lemma to_nul_cstr0 [simp]: "nul_free s \<Longrightarrow> to_nul (cstr s) = s"
  using to_nul_cstr [of s "[]"] by simp

lemma copy_of_copyable: "copyable s \<Longrightarrow> copy_of (Some s) = Inr s"
  by (simp add: copy_of_def copyable_def malloc_and_copy_fits to_nul_cstr)

lemma copy_of_not: "nul_free s \<Longrightarrow> \<not> copyable s \<Longrightarrow> copy_of (Some s) = Inl OutOfBounds"
  by (simp add: copy_of_def copyable_def malloc_and_copy_fits)

lemma NO_VALUE_copyable [simp]: "copyable NO_VALUE"
  by (simp add: copyable_def NO_VALUE_def)

text \<open>What \<open>command_parser\<close> does with the first token.\<close>

definition run_word :: "'d env \<Rightarrow> cstate \<Rightarrow> string \<Rightarrow> string \<Rightarrow> (cstate \<times> cptr) res" where
  "run_word env st w rest =
     (if spells w ''read'' then cmd_read env st rest
      else if spells w ''write'' then cmd_write env st rest
      else if spells w ''add'' then cmd_add env st rest
      else if spells w ''jsonadd'' then cmd_jsonadd env st rest
      else if spells w ''jsonread'' then cmd_jsonread env st rest
      else if spells w ''dump'' then Inr (key_value_dump st, Some ''+'')
      else if spells w ''recvr'' then cmd_recvr env st
      else Inr (st, Some ''-''))"

lemma keywords_lower:
  "list_all is_lower ''read''" "list_all is_lower ''write''" "list_all is_lower ''add''" "list_all is_lower ''jsonadd''"
  "list_all is_lower ''jsonread''" "list_all is_lower ''dump''" "list_all is_lower ''recvr''"
  by (simp_all add: is_lower_def)

lemma map_LOWER_nul_free: "nul_free (map LOWER w)"
  by (induction w) auto

lemma command_parser_word:
  assumes "nul_free cmd" "tokens cmd = w # ts"
  obtains rest where "tokens rest = ts" "command_parser env st (Some cmd) = run_word env st w rest"
proof -
  obtain rest where r: "strtok cmd = (Some w, rest)" "tokens rest = ts" using strtok_Some [OF assms(2)] by blast
  have "set w \<subseteq> set cmd" by (rule set_tokens) (simp add: assms(2))
  then have "nul_free w" using assms(1) by (auto simp: nul_free_def)
  then have l: "L (Some (cstr w)) = Inr (cstr (map LOWER w))" using L_cstr [of w "[]"] by simp
  have n: "to_nul (cstr (map LOWER w)) = map LOWER w" by (simp add: map_LOWER_nul_free)
  have "command_parser env st (Some cmd) = run_word env st w rest"
    by (simp only: command_parser_def the_str.simps rbind_Inr r(1) prod.case option.map l n run_word_def Let_def
        keywords_lower [THEN map_LOWER_keyword])
  with r(2) that show thesis by blast
qed

lemma strtok_tokens: "strtok s = (case tokens s of [] \<Rightarrow> (None, []) | t # ts \<Rightarrow> (Some t, snd (strtok s)))"
  and snd_strtok: "tokens (snd (strtok s)) = tl (tokens s)"
proof -
  show "strtok s = (case tokens s of [] \<Rightarrow> (None, []) | t # ts \<Rightarrow> (Some t, snd (strtok s)))"
    using strtok_Nil [of s] strtok_Some [of s] by (cases "tokens s") fastforce+
  show "tokens (snd (strtok s)) = tl (tokens s)"
    using strtok_Nil [of s] strtok_Some [of s] by (cases "tokens s") fastforce+
qed

text \<open>The tokens of the arguments, and lookup and insertion in the form the commands use them.\<close>

lemma kv_get_command:
  assumes "kv_models s kv m"
  obtains s' where "kv_get s kv (Some k) = Inr (s', Some (lookup_default m k))" "kv_models s' kv m"
  using kv_map.get_law [OF assms, of k] that
  by (auto simp: kv_read_def lookup_default_def rbind_eq_Inr elim!: the_str.elims split: option.splits)

lemma kv_insert_command:
  assumes "kv_models s kv m"
  obtains s' q where "kv_insert s kv (Some k) (Some v) = Inr (s', q)" "kv_models s' kv (m(k \<mapsto> v))"
  using kv_map.put_law [OF assms, of k v] that by (auto simp: kv_put_def)

abbreviation table_models :: "cstate \<Rightarrow> (string \<Rightarrow> string option) \<Rightarrow> bool" where
  "table_models st m \<equiv> kv_models (kv_store st) (kv_table st) m"

definition replies :: "cstate \<Rightarrow> (cstate \<times> cptr) res \<Rightarrow> (string \<Rightarrow> string option) \<times> string \<Rightarrow> bool" where
  "replies st x a \<longleftrightarrow> (\<exists>st'. x = Inr (st', Some (snd a)) \<and> table_models st' (fst a) \<and>
     kv_table st' = kv_table st \<and> dict_lib st' = dict_lib st \<and> dump_threads st' = dump_threads st)"

lemma cmd_read_replies:
  assumes "table_models st m" "tokens rest = k # ts" "copyable (lookup_default m k)"
  shows "replies st (cmd_read env st rest) (answer m (Read k))"
proof -
  obtain s' where s': "kv_get (kv_store st) (kv_table st) (Some k) = Inr (s', Some (lookup_default m k))"
    "kv_models s' (kv_table st) m" by (rule kv_get_command [OF assms(1)])
  obtain r where "strtok rest = (Some k, r)" using strtok_Some [OF assms(2)] by blast
  with s' show ?thesis by (simp add: replies_def cmd_read_def copy_of_copyable [OF assms(3)])
qed

lemma two_tokens:
  assumes "tokens rest = k # v # ts"
  obtains r r' where "strtok rest = (Some k, r)" "strtok r = (Some v, r')"
  using strtok_Some [OF assms] strtok_Some that by blast

lemma one_token:
  assumes "tokens rest = [k]"
  obtains r where "strtok rest = (Some k, r)" "strtok r = (None, [])"
  using strtok_Some [OF assms] strtok_Nil that by blast

lemma cmd_write_replies:
  assumes "table_models st m"
  shows "tokens rest = k # v # ts \<Longrightarrow> replies st (cmd_write env st rest) (answer m (Write k v))"
    "length (tokens rest) < 2 \<Longrightarrow> replies st (cmd_write env st rest) (answer m Refused)"
proof -
  show "replies st (cmd_write env st rest) (answer m (Write k v))" if t: "tokens rest = k # v # ts"
  proof -
    obtain r r' where r: "strtok rest = (Some k, r)" "strtok r = (Some v, r')" by (rule two_tokens [OF t])
    obtain s' q where "kv_insert (kv_store st) (kv_table st) (Some k) (Some v) = Inr (s', q)"
      "kv_models s' (kv_table st) (m(k \<mapsto> v))" by (rule kv_insert_command [OF assms])
    then show ?thesis by (simp add: replies_def cmd_write_def r del: fun_upd_apply)
  qed
  show "replies st (cmd_write env st rest) (answer m Refused)" if t: "length (tokens rest) < 2"
  proof -
    obtain k r where r: "strtok rest = (k, r)" "tokens r = []"
      using t snd_strtok [of rest] by (cases "strtok rest"; cases "tokens rest") auto
    then show ?thesis using assms strtok_Nil [of r] by (simp add: replies_def cmd_write_def)
  qed
qed

lemma cmd_add_replies:
  assumes "table_models st m" "tokens rest = k # v # ts" "fits env m (Add k v)"
  shows "replies st (cmd_add env st rest) (answer m (Add k v))"
proof -
  let ?old = "lookup_default m k"
  obtain r r' where r: "strtok rest = (Some k, r)" "strtok r = (Some v, r')" by (rule two_tokens [OF assms(2)])
  obtain s1 where s1: "kv_get (kv_store st) (kv_table st) (Some k) = Inr (s1, Some ?old)"
    "kv_models s1 (kv_table st) m" by (rule kv_get_command [OF assms(1)])
  obtain s2 q where s2: "kv_insert s1 (kv_table st) (Some k) (Some (?old @ v)) = Inr (s2, q)"
    "kv_models s2 (kv_table st) (m(k \<mapsto> ?old @ v))" by (rule kv_insert_command [OF s1(2)])
  have c: "copy_of (Some ?old) = Inr ?old" using assms(3) by (simp add: copy_of_copyable)
  have f: "fill (length (heap env 0 (length ?old + length v))) (cstr (?old @ v)) = Inr (cstr (?old @ v))"
    using assms(3) by (simp add: fill_def cstr_def)
  have "cmd_add env st rest = Inr (st\<lparr>kv_store := s2\<rparr>, Some ''+'')"
    by (simp add: cmd_add_def r s1(1) c f s2(1))
  with s2(2) show ?thesis by (simp add: replies_def del: fun_upd_apply)
qed

lemma command_replies:
  assumes "table_models st m" "nul_free cmd" "request_of (tokens cmd) = Some r" "fits env m r"
  shows "replies st (command_parser env st (Some cmd)) (answer m r)"
proof -
  from assms(3) obtain w ts where t: "tokens cmd = w # ts" by (cases "tokens cmd") auto
  obtain rest where rest: "tokens rest = ts" "command_parser env st (Some cmd) = run_word env st w rest"
    by (rule command_parser_word [OF assms(2) t])
  have req: "request_of (w # ts) = Some r" using assms(3) t by simp
  consider (rd) "spells w ''read''" | (wr) "\<not> spells w ''read''" "spells w ''write''"
    | (ad) "\<not> spells w ''read''" "\<not> spells w ''write''" "spells w ''add''"
    | (other) "\<not> spells w ''read''" "\<not> spells w ''write''" "\<not> spells w ''add''" by blast
  then show ?thesis
  proof cases
    case rd
    with req obtain k ts' where "ts = k # ts'" "r = Read k" by (auto split: list.splits)
    with rd rest assms(1,4) show ?thesis
      by (simp add: run_word_def cmd_read_replies del: answer.simps)
  next
    case wr
    show ?thesis
    proof (cases "length ts < 2")
      case True
      with wr req have "r = Refused" by (auto split: list.splits)
      with wr rest True cmd_write_replies(2) [OF assms(1), of rest] show ?thesis
        by (simp add: run_word_def del: answer.simps)
    next
      case False
      then obtain k v ts' where ts: "ts = k # v # ts'" by (cases ts; cases "tl ts") auto
      with wr req have "r = Write k v" by auto
      with wr rest ts cmd_write_replies(1) [OF assms(1), of rest k v ts' env] show ?thesis
        by (simp add: run_word_def del: answer.simps)
    qed
  next
    case ad
    with req obtain k v ts' where ts: "ts = k # v # ts'" "r = Add k v" by (auto split: list.splits)
    with ad rest assms(1,4) show ?thesis
      using cmd_add_replies [of st m rest k v ts' env] by (simp add: run_word_def del: answer.simps fits.simps)
  next
    case other
    with req have "r = Refused" "\<not> spells w ''jsonadd''" "\<not> spells w ''jsonread''" "\<not> spells w ''dump''" "\<not> spells w ''recvr''"
      by (auto split: if_splits)
    with other rest assms(1) show ?thesis by (simp add: run_word_def replies_def)
  qed
qed

text \<open>Words of different lengths are different keywords.\<close>

lemma spells_length: "spells w kw \<Longrightarrow> length w = length kw"
  by (auto simp: spells_def dest: list_all2_lengthD)

lemma run_jsonadd: "spells w ''jsonadd'' \<Longrightarrow> run_word env st w rest = cmd_jsonadd env st rest"
  and run_jsonread: "spells w ''jsonread'' \<Longrightarrow> run_word env st w rest = cmd_jsonread env st rest"
  and run_add: "spells w ''add'' \<Longrightarrow> run_word env st w rest = cmd_add env st rest"
  and run_read: "spells w ''read'' \<Longrightarrow> run_word env st w rest = cmd_read env st rest"
  by (auto simp: run_word_def dest!: spells_length)

subsection \<open>The JSON commands\<close>

definition string_item :: "'d fops \<Rightarrow> string \<Rightarrow> 'd cjson" where
  "string_item ops s = upd_head (\<lambda>h. h\<lparr>jtype := cJSON_String, valuestring := Some s\<rparr>) (zero_item ops)"

definition array_item :: "'d fops \<Rightarrow> 'd cjson list \<Rightarrow> 'd cjson" where
  "array_item ops ks = set_kids (upd_head (\<lambda>h. h\<lparr>jtype := cJSON_Array\<rparr>) (zero_item ops)) ks"

text \<open>The tree that \<open>jsonadd\<close> prints: the parsed one, or an array of the old text, with the new string behind its children.\<close>

definition json_with :: "'d fops \<Rightarrow> 'd cjson option \<Rightarrow> string \<Rightarrow> string \<Rightarrow> 'd cjson" where
  "json_with ops parsed old v =
     (case parsed of
        Some t \<Rightarrow> set_kids t (kids t @ [string_item ops v])
      | None \<Rightarrow> array_item ops [string_item ops old, string_item ops v])"

text \<open>All calls of \<open>cJSON_malloc\<close> succeed.\<close>

definition generous :: "'d env \<Rightarrow> bool" where
  "generous env \<longleftrightarrow> (\<forall>n sz. json_alloc env n sz)"

lemma create_string_generous:
  assumes "generous env"
  obtains j' where "cJSON_CreateString (fl_ops env) (json_alloc env) j (Some s) = Inr (j', Some (string_item (fl_ops env) s))"
  using assms that
  by (auto simp: generous_def cJSON_CreateString_def new_item_def jmalloc_def json_dup_def Let_def string_item_def)

lemma create_array_generous:
  assumes "generous env"
  obtains j' where "cJSON_CreateArray (fl_ops env) (json_alloc env) j = (j', Some (array_item (fl_ops env) []))"
  using assms that
  by (auto simp: generous_def cJSON_CreateArray_def create_of_type_def new_item_def jmalloc_def Let_def array_item_def
      set_kids_def upd_head_def zero_item_def)

lemma print_text_generous:
  assumes "generous env" "all_heads (printable (fl_ops env)) t"
  obtains j' where "print_text env j (Some t) = Inr (j', Some (text_of (fl_ops env) True 0 t))"
proof -
  have "gives (json_alloc env) j (text_of (fl_ops env) True 0 t) (print_text env j (Some t))"
    using print_value_gives [OF assms(2) order_refl] by (simp add: print_text_def cJSON_Print_def)
  moreover have "willing (json_alloc env)" using assms(1) by (simp add: generous_def willing_def)
  ultimately show thesis using that by (auto simp: gives_def)
qed

lemma wrap_text_generous:
  assumes "generous env"
  obtains j' where "wrap_text env j old parsed =
    Inr (j', Some (case parsed of Some t \<Rightarrow> t | None \<Rightarrow> array_item (fl_ops env) [string_item (fl_ops env) old]))"
proof (cases parsed)
  case None
  obtain j2 where j2: "cJSON_CreateArray (fl_ops env) (json_alloc env) j = (j2, Some (array_item (fl_ops env) []))"
    by (rule create_array_generous [OF assms])
  obtain j3 where j3: "cJSON_CreateString (fl_ops env) (json_alloc env) j2 (Some old) = Inr (j3, Some (string_item (fl_ops env) old))"
    by (rule create_string_generous [OF assms])
  show thesis by (rule that [of j3]) (simp add: wrap_text_def None j2 j3 array_item_def set_kids_def)
next
  case (Some t)
  show thesis by (rule that [of j]) (simp add: wrap_text_def Some)
qed

text \<open>The number zero, which unused fields hold, is printable.\<close>

definition zero_printable :: "'d fops \<Rightarrow> bool" where
  "zero_printable ops \<longleftrightarrow> number_fits ops (head_of (zero_item ops))"

lemma number_fits_cong:
  "valueint h = valueint h' \<Longrightarrow> valuedouble h = valuedouble h' \<Longrightarrow> number_fits ops h = number_fits ops h'"
  by (simp add: number_fits_def number_text_def)

lemma string_item_printable [simp]: "zero_printable ops \<Longrightarrow> all_heads (printable ops) (string_item ops s)"
  by (auto simp: string_item_def upd_head_def zero_item_def printable_def zero_printable_def take_bit_eq_mod
      elim!: number_fits_cong [THEN iffD1, rotated 2])

lemma json_with_printable:
  assumes "zero_printable ops" "\<And>t. parsed = Some t \<Longrightarrow> all_heads (printable ops) t"
  shows "all_heads (printable ops) (json_with ops parsed old v)"
proof (cases parsed)
  case None
  have "all_heads (printable ops) (array_item ops [string_item ops old, string_item ops v])"
    using string_item_printable [OF assms(1), of old] string_item_printable [OF assms(1), of v] assms(1)
    by (auto simp: array_item_def set_kids_def upd_head_def zero_item_def printable_def zero_printable_def take_bit_eq_mod
      elim!: number_fits_cong [THEN iffD1, rotated 2])
  then show ?thesis by (simp add: json_with_def None)
next
  case (Some t)
  then show ?thesis
    using assms(2) [OF Some] string_item_printable [OF assms(1), of v] by (cases t) (simp add: json_with_def set_kids_def)
qed

lemma cmd_jsonadd_stores:
  assumes "table_models st m" "tokens rest = k # v # ts" "copyable (lookup_default m k)" "generous env"
    and "parse_text env (json_state st) (lookup_default m k) = Inr (j1, parsed)"
    and "zero_printable (fl_ops env)" "\<And>t. parsed = Some t \<Longrightarrow> all_heads (printable (fl_ops env)) t"
  shows "\<exists>st'. cmd_jsonadd env st rest = Inr (st', Some ''+'') \<and>
    table_models st' (m(k \<mapsto> text_of (fl_ops env) True 0 (json_with (fl_ops env) parsed (lookup_default m k) v)))"
proof -
  let ?old = "lookup_default m k" and ?ops = "fl_ops env" and ?al = "json_alloc env"
  let ?t = "json_with ?ops parsed ?old v"
  obtain r r' where r: "strtok rest = (Some k, r)" "strtok r = (Some v, r')" by (rule two_tokens [OF assms(2)])
  obtain s1 where s1: "kv_get (kv_store st) (kv_table st) (Some k) = Inr (s1, Some ?old)"
    "kv_models s1 (kv_table st) m" by (rule kv_get_command [OF assms(1)])
  have c: "copy_of (Some ?old) = Inr ?old" by (rule copy_of_copyable [OF assms(3)])
  obtain j4 where j4: "wrap_text env j1 ?old parsed =
      Inr (j4, Some (case parsed of Some t \<Rightarrow> t | None \<Rightarrow> array_item ?ops [string_item ?ops ?old]))"
    by (rule wrap_text_generous [OF assms(4)])
  obtain j5 where j5: "cJSON_CreateString ?ops ?al j4 (Some v) = Inr (j5, Some (string_item ?ops v))"
    by (rule create_string_generous [OF assms(4)])
  have app: "cJSON_AddItemToArray (case parsed of Some t \<Rightarrow> t | None \<Rightarrow> array_item ?ops [string_item ?ops ?old])
      (Some (string_item ?ops v)) = ?t"
    by (cases parsed) (simp_all add: json_with_def array_item_def set_kids_def)
  obtain j6 where j6: "print_text env j5 (Some ?t) = Inr (j6, Some (text_of ?ops True 0 ?t))"
    by (rule print_text_generous [OF assms(4) json_with_printable [OF assms(6,7)]])
  obtain s2 q where s2: "kv_insert s1 (kv_table st) (Some k) (Some (text_of ?ops True 0 ?t)) = Inr (s2, q)"
    "kv_models s2 (kv_table st) (m(k \<mapsto> text_of ?ops True 0 ?t))" by (rule kv_insert_command [OF s1(2)])
  have "cmd_jsonadd env st rest = Inr (st\<lparr>kv_store := s2, json_state := j6\<rparr>, Some ''+'')"
    by (simp add: cmd_jsonadd_def r s1(1) c assms(5) j4 j5 app j6 s2(1) del: cJSON_AddItemToArray.simps)
  with s2(2) show ?thesis by (simp del: fun_upd_apply)
qed

lemma kids_irrelevant: "take_bit 8 (jtype h) \<notin> {cJSON_Array, cJSON_Object} \<Longrightarrow> take_bit 8 (jtype h) \<in> {0..6} \<Longrightarrow>
    text_of ops fmt d (Item h ks) = text_of ops fmt d (Item h ks')"
proof -
  assume a: "take_bit 8 (jtype h) \<notin> {cJSON_Array, cJSON_Object}" "take_bit 8 (jtype h) \<in> {0..6}"
  have "t = 0 \<or> t = 1 \<or> t = 2 \<or> t = 3 \<or> t = 4" if "t \<notin> {5, 6}" "t \<in> {0..6}" for t :: int
    using that by simp presburger
  from this [OF a] show ?thesis by (auto simp: text_of.simps)
qed

text \<open>The text of \<open>NO_VALUE\<close> is no JSON.\<close>

lemma parse_NO_VALUE:
  assumes "generous env"
  obtains j' where "parse_text env j NO_VALUE = Inr (j', None)"
proof -
  have sk: "skip (Some (cstr NO_VALUE)) = Inr (Some (cstr NO_VALUE))"
    by (simp add: NO_VALUE_def cstr_def less_eq_char_def)
  have pv: "parse_value (fl_ops env) (json_alloc env) (Suc f) st it (Some (cstr NO_VALUE)) =
      Inr (st\<lparr>ep := Some (cstr NO_VALUE)\<rparr>, it, None)" for f st it
    by (simp add: NO_VALUE_def cstr_def parse_literal_def less_eq_char_def)
  obtain j1 c where n: "new_item (fl_ops env) (json_alloc env) j = (j1, Some c)"
    using assms by (auto simp: generous_def new_item_def jmalloc_def Let_def)
  have "parse_text env j NO_VALUE = Inr (json_delete (j1\<lparr>ep := Some (cstr NO_VALUE)\<rparr>) [c], None)"
    unfolding parse_text_def cJSON_Parse_def n prod.case option.case sk rbind_Inr add_2_eq_Suc' pv by simp
  with that show thesis by blast
qed

lemma cmd_jsonread_missing:
  assumes "table_models st m" "tokens rest = k # ts" "m k = None" "generous env" "zero_printable (fl_ops env)"
  shows "\<exists>st'. cmd_jsonread env st rest = Inr (st', Some (quoted NO_VALUE)) \<and> table_models st' m"
proof -
  have old: "lookup_default m k = NO_VALUE" using assms(3) by (simp add: lookup_default_def)
  obtain r where r: "strtok rest = (Some k, r)" using strtok_Some [OF assms(2)] by blast
  obtain s1 where s1: "kv_get (kv_store st) (kv_table st) (Some k) = Inr (s1, Some NO_VALUE)"
    "kv_models s1 (kv_table st) m" using kv_get_command [OF assms(1), of k] old by metis
  obtain j1 where j1: "parse_text env (json_state st) NO_VALUE = Inr (j1, None)" by (rule parse_NO_VALUE [OF assms(4)])
  obtain j2 where j2: "cJSON_CreateString (fl_ops env) (json_alloc env) j1 (Some NO_VALUE) = Inr (j2, Some (string_item (fl_ops env) NO_VALUE))"
    by (rule create_string_generous [OF assms(4)])
  obtain j3 where j3: "print_text env j2 (Some (string_item (fl_ops env) NO_VALUE)) =
      Inr (j3, Some (text_of (fl_ops env) True 0 (string_item (fl_ops env) NO_VALUE)))"
    by (rule print_text_generous [OF assms(4) string_item_printable [OF assms(5)]])
  have t: "text_of (fl_ops env) True 0 (string_item (fl_ops env) NO_VALUE) = quoted NO_VALUE"
    by (simp add: string_item_def upd_head_def zero_item_def text_of.simps take_bit_eq_mod)
  have "cmd_jsonread env st rest = Inr (st\<lparr>kv_store := s1, json_state := j3\<rparr>, Some (quoted NO_VALUE))"
    by (simp add: cmd_jsonread_def r s1(1) copy_of_copyable j1 j2 j3 t)
  with s1(2) show ?thesis by simp
qed

subsection \<open>Properties\<close>

text \<open>The environment of the witnesses.\<close>

definition demo_env :: "rat env" where
  "demo_env = \<lparr>fl_ops = rat_ops, json_alloc = (\<lambda>n sz. True), heap = heap8, lit_tail = [NUL, NUL], can_create = True\<rparr>"

lemma demo_env_facts: "generous demo_env" "fl_ops demo_env = rat_ops" "zero_printable rat_ops" "heap demo_env = heap8"
  by (simp_all add: demo_env_def generous_def zero_printable_def number_fits_def number_text_def zero_item_def rat_ops_def
      show_int_def show_nat.simps)

text \<open>States for them: an empty table and a table with one entry.\<close>

lemma empty_state:
  obtains st where "kv_init empty_store = Inr (kv_store st, kv_table st)" "table_models st Map.empty"
    "json_state st = no_state" "dump_threads st = []"
proof -
  obtain s p where s: "kv_init empty_store = Inr (s, p)" "kv_models s p Map.empty" by (rule kv_models_init)
  show thesis
    by (rule that [of "\<lparr>kv_store = s, kv_table = p, json_state = no_state, dict_lib = None, dump_threads = []\<rparr>"])
      (use s in simp_all)
qed

lemma entry_state:
  obtains st where "table_models st [k \<mapsto> v]" "json_state st = no_state" "dump_threads st = []"
proof -
  obtain s p where s: "kv_init empty_store = Inr (s, p)" "kv_models s p Map.empty" by (rule kv_models_init)
  from kv_map.put_law [OF s(2), of k v] obtain s1 where "kv_models s1 p [k \<mapsto> v]" by blast
  then show thesis
    by (intro that [of "\<lparr>kv_store = s1, kv_table = p, json_state = no_state, dict_lib = None, dump_threads = []\<rparr>"]) simp_all
qed





text \<open>
  C34: When the stored text is a JSON value that is neither array nor object (a number, a string, a
  literal), \<open>jsonadd\<close> replies \<open>+\<close> and loses the value it should add: what is stored is the print of the old
  value.
\<close>

theorem jsonadd_loses_value:
  assumes "table_models st m" "nul_free cmd" "tokens cmd = w # k # v # ts" "spells w ''jsonadd''"
    and "copyable (lookup_default m k)" "generous env" "zero_printable (fl_ops env)"
    and "parse_text env (json_state st) (lookup_default m k) = Inr (j1, Some t)"
    and "all_heads (printable (fl_ops env)) t" "take_bit 8 (jtype (head_of t)) \<notin> {cJSON_Array, cJSON_Object}"
  shows "\<exists>st'. command_parser env st (Some cmd) = Inr (st', Some ''+'') \<and>
    table_models st' (m(k \<mapsto> text_of (fl_ops env) True 0 t))"
proof -
  obtain rest where rest: "tokens rest = k # v # ts" "command_parser env st (Some cmd) = run_word env st w rest"
    by (rule command_parser_word [OF assms(2,3)])
  note run = run_jsonadd [OF assms(4), of env st rest]
  have tx: "text_of (fl_ops env) True 0 (json_with (fl_ops env) (Some t) (lookup_default m k) v) = text_of (fl_ops env) True 0 t"
    using assms(9,10) by (cases t) (auto simp: json_with_def set_kids_def printable_def intro!: kids_irrelevant)
  have pr: "\<And>t'. Some t = Some t' \<Longrightarrow> all_heads (printable (fl_ops env)) t'" using assms(9) by simp
  show ?thesis
    using cmd_jsonadd_stores [OF assms(1) rest(1) assms(5,6,8,7) pr] rest(2) run by (simp add: tx del: fun_upd_apply)
qed

lemma parse_five: "parse_text demo_env no_state ''5'' = Inr (\<lparr>jcalls = 1, jlive = 1, ep = None\<rparr>, Some (Item (number_head 5) []))"
  by (simp add: parse_text_def cJSON_Parse_def new_item_def jmalloc_def no_state_def demo_env_def cstr_def zero_item_def
      parse_literal_def parse_number_def number_start_def int_part_def frac_part_def parse_exponent_def rat_ops_def
      eval_nat_numeral less_eq_char_def digit_val_def upd_head_def number_head_def wrap32_def)

theorem jsonadd_loses_value_witness:
  "\<exists>st st'. table_models st [''k'' \<mapsto> ''5''] \<and> command_parser demo_env st (Some ''jsonadd k x'') = Inr (st', Some ''+'') \<and>
    table_models st' [''k'' \<mapsto> ''5'']"
proof -
  obtain st where st: "table_models st [''k'' \<mapsto> ''5'']" "json_state st = no_state" by (rule entry_state)
  have l: "lookup_default [''k'' \<mapsto> ''5''] ''k'' = ''5''" by (simp add: lookup_default_def)
  have c5: "char_of (53 :: nat) = CHR ''5''" by code_simp
  have five: "text_of rat_ops True 0 (Item (number_head 5) []) = ''5''" "jtype (number_head 5) = cJSON_Number" "printable rat_ops (number_head 5)"
    by (simp_all add: text_of.simps number_text_def number_head_def rat_ops_def show_int_def show_nat.simps digit_char_def
        printable_def number_fits_def take_bit_eq_mod c5)
  have "\<exists>st'. command_parser demo_env st (Some ''jsonadd k x'') = Inr (st', Some ''+'') \<and>
      table_models st' ([''k'' \<mapsto> ''5''](''k'' \<mapsto> text_of (fl_ops demo_env) True 0 (Item (number_head 5) [])))"
    by (rule jsonadd_loses_value [OF st(1), where w = "''jsonadd''" and v = "''x''" and ts = "[]"])
      (simp_all add: tokens_def spells_def l demo_env_facts parse_five st(2) copyable_def five take_bit_eq_mod)
  then show ?thesis using st(1) by (auto simp: five demo_env_facts)
qed

text \<open>
  \<open>jsonread\<close> of a key without a value answers the quoted text of \<open>NO_VALUE\<close>; the comment at the head
  of \<open>keyvalue.c\<close> promises \<open>[]\<close>.
\<close>

lemma jsonread_missing_key:
  assumes "table_models st m" "nul_free cmd" "tokens cmd = w # k # ts" "spells w ''jsonread''"
    and "m k = None" "generous env" "zero_printable (fl_ops env)"
  shows "\<exists>st'. command_parser env st (Some cmd) = Inr (st', Some (quoted NO_VALUE)) \<and> quoted NO_VALUE \<noteq> ''[]''"
proof -
  obtain rest where rest: "tokens rest = k # ts" "command_parser env st (Some cmd) = run_word env st w rest"
    by (rule command_parser_word [OF assms(2,3)])
  have "quoted NO_VALUE \<noteq> ''[]''" by (simp add: quoted_def)
  moreover have "command_parser env st (Some cmd) = cmd_jsonread env st rest"
    unfolding rest(2) by (rule run_jsonread [OF assms(4)])
  ultimately show ?thesis using cmd_jsonread_missing [OF assms(1) rest(1) assms(5-7)] by auto
qed

lemma jsonread_missing_key_witness:
  "\<exists>st st'. command_parser demo_env st (Some ''jsonread k'') = Inr (st', Some (quoted NO_VALUE)) \<and> quoted NO_VALUE \<noteq> ''[]''"
proof -
  obtain st where st: "table_models st Map.empty" by (rule empty_state)
  have "\<exists>st'. command_parser demo_env st (Some ''jsonread k'') = Inr (st', Some (quoted NO_VALUE)) \<and> quoted NO_VALUE \<noteq> ''[]''"
    by (rule jsonread_missing_key [OF st, where w = "''jsonread''" and k = "''k''" and ts = "[]"])
      (simp_all add: tokens_def spells_def demo_env_facts)
  then show ?thesis by blast
qed

definition incomplete :: "string list \<Rightarrow> bool" where
  "incomplete ts \<longleftrightarrow> ts = [] \<or>
     length ts = 1 \<and> (spells (hd ts) ''read'' \<or> spells (hd ts) ''add'' \<or> spells (hd ts) ''jsonadd'' \<or> spells (hd ts) ''jsonread'')"

lemma cmd_without_key:
  assumes "tokens rest = []"
  shows "cmd_read env st rest = Inl NullDeref" "cmd_add env st rest = Inl NullDeref"
    "cmd_jsonadd env st rest = Inl NullDeref" "cmd_jsonread env st rest = Inl NullDeref"
  by (simp_all add: strtok_Nil [OF assms] strtok_Nil cmd_read_def cmd_add_def cmd_jsonadd_def cmd_jsonread_def kv_get_def)

text \<open>
  C38: Commands with missing arguments crash the server: a line of blanks only and the keywords
  \<open>read\<close>, \<open>add\<close>, \<open>jsonadd\<close> and \<open>jsonread\<close> without a key dereference a null pointer.
\<close>

theorem incomplete_commands_crash:
  assumes "nul_free cmd" "incomplete (tokens cmd)"
  shows "command_parser env st (Some cmd) = Inl NullDeref"
proof (cases "tokens cmd")
  case Nil
  then show ?thesis by (simp add: command_parser_def strtok_Nil)
next
  case (Cons w ts)
  with assms(2) have ts: "ts = []" by (simp add: incomplete_def)
  obtain rest where rest: "tokens rest = []" "command_parser env st (Some cmd) = run_word env st w rest"
    using command_parser_word [OF assms(1) Cons] ts by metis
  from assms(2) Cons consider "spells w ''read''" | "spells w ''add''" | "spells w ''jsonadd''" | "spells w ''jsonread''"
    by (auto simp: incomplete_def)
  then show ?thesis
    unfolding rest(2) by cases (simp_all add: run_read run_add run_jsonadd run_jsonread cmd_without_key [OF rest(1)])
qed

theorem incomplete_commands_crash_witness:
  "\<forall>st. command_parser demo_env st (Some ''  '') = Inl NullDeref \<and> command_parser demo_env st (Some ''Read '') = Inl NullDeref"
proof
  fix st
  show "command_parser demo_env st (Some ''  '') = Inl NullDeref \<and> command_parser demo_env st (Some ''Read '') = Inl NullDeref"
    using incomplete_commands_crash [of "''  ''" demo_env st] incomplete_commands_crash [of "''Read ''" demo_env st]
    by (simp add: incomplete_def tokens_def spells_def)
qed

text \<open>
  C39: \<open>add\<close> allocates one byte too few for the concatenated value: with blocks of exactly the size asked for
  every \<open>add\<close> whose old value can be copied overruns its buffer, and an \<open>add\<close> without a value dereferences a
  null pointer.
\<close>

theorem add_overruns:
  assumes "table_models st m" "nul_free cmd" "tokens cmd = w # k # ts" "spells w ''add''"
    and "copyable (lookup_default m k)" "\<And>n. length (heap env 0 n) = n"
  shows "command_parser env st (Some cmd) = Inl (if ts = [] then NullDeref else OutOfBounds)"
proof -
  obtain rest where rest: "tokens rest = k # ts" "command_parser env st (Some cmd) = run_word env st w rest"
    by (rule command_parser_word [OF assms(2,3)])
  let ?old = "lookup_default m k"
  obtain s1 where s1: "kv_get (kv_store st) (kv_table st) (Some k) = Inr (s1, Some ?old)"
    by (rule kv_get_command [OF assms(1)])
  note c = copy_of_copyable [OF assms(5)]
  have f: "fill (length (heap env 0 n)) (cstr s) = Inl OutOfBounds" if "n = length s" for n s
    using assms(6) that by (simp add: fill_def cstr_def)
  show ?thesis
  proof (cases ts)
    case Nil
    with rest(1) obtain r where "strtok rest = (Some k, r)" "strtok r = (None, [])" using one_token by metis
    with Nil show ?thesis unfolding rest(2) by (simp add: run_add [OF assms(4)] cmd_add_def s1 c)
  next
    case (Cons v ts')
    with rest(1) obtain r r' where "strtok rest = (Some k, r)" "strtok r = (Some v, r')" using two_tokens by metis
    with Cons f [of "length ?old + length v" "?old @ v"] show ?thesis
      unfolding rest(2) by (simp add: run_add [OF assms(4)] cmd_add_def s1 c)
  qed
qed

theorem add_overruns_witness:
  "\<exists>st. command_parser (demo_env\<lparr>heap := \<lambda>c n. replicate n NUL\<rparr>) st (Some ''add k v'') = Inl OutOfBounds"
proof -
  obtain st where st: "table_models st [''k'' \<mapsto> ''1'']" by (rule entry_state)
  have "command_parser (demo_env\<lparr>heap := \<lambda>c n. replicate n NUL\<rparr>) st (Some ''add k v'') =
      Inl (if [''v''] = [] then NullDeref else OutOfBounds)"
    by (rule add_overruns [OF st, where w = "''add''" and k = "''k''"])
      (simp_all add: tokens_def spells_def lookup_default_def copyable_def)
  then show ?thesis by auto
qed

end
