(* ===== verification/Trie_Tree.thy ===== *)
theory Trie_Tree
  imports Key_Value Cstlib
begin

text \<open>
  The trie of \<open>trie-tree.c\<close>. The root is a table of the key-value store; the children of a node are an
  array with as many nodes as keys, placed by a hash modulo the size of the array, which only the
  first node of the array records reliably. Prints are left out, but the loads that the printing functions
  make are kept, because they can leave an array. An array index is the \<open>unsigned\<close> of the
  code; the loops get fuel from the size they count up to.
\<close>

subsection \<open>Hashing and arrays of children\<close>

definition arg_hash :: "cptr \<Rightarrow> int \<Rightarrow> nat res" where
  "arg_hash str sz =
     rbind (the_str str) (\<lambda>s.
       if of_int sz = (0 :: 32 word) then Inl DivByZero else Inr (unat (hash_loop 0 s mod of_int sz)))"

definition create_root_trie :: "nstate \<Rightarrow> (nstate \<times> ptr) res" where
  "create_root_trie s = kv_init s"

definition root_insert :: "nstate \<Rightarrow> ptr \<Rightarrow> cptr \<Rightarrow> cptr \<Rightarrow> (nstate \<times> ptr) res" where
  "root_insert s trie key val = kv_insert s trie key val"

definition create_child_trie :: "nstate \<Rightarrow> cptr \<Rightarrow> cptr \<Rightarrow> (nstate \<times> ptr) res" where
  "create_child_trie s key val =
     (let (s1, new_trie) = alloc_nodes s 1 in
      rbind (the_str key) (\<lambda>k.
      rbind (modify s1 new_trie (\<lambda>n. n\<lparr>nd_key := Some k\<rparr>)) (\<lambda>s2.
      rbind (the_str val) (\<lambda>v.
      rbind (modify s2 new_trie (\<lambda>n. n\<lparr>nd_value := Some v\<rparr>)) (\<lambda>s3.
      rbind (modify s3 new_trie (\<lambda>n. n\<lparr>nd_size := 1\<rparr>)) (\<lambda>s4. Inr (s4, new_trie)))))))"

text \<open>\<open>trie_cpy (Src, Rec)\<close> copies into its first argument.\<close>

definition trie_cpy :: "nstate \<Rightarrow> ptr \<Rightarrow> ptr \<Rightarrow> nstate res" where
  "trie_cpy s src_node rec_node =
     rbind (load s rec_node) (\<lambda>r.
     rbind (the_str (nd_key r)) (\<lambda>k.
     rbind (the_str (nd_value r)) (\<lambda>v.
     modify s src_node (\<lambda>n. n\<lparr>nd_key := Some k, nd_value := Some v, nd_child := nd_child r, nd_size := nd_size r\<rparr>))))"

text \<open>
  The probing loop of \<open>trie_add_child\<close>: it looks at a slot before it compares the index with the
  size of the array.
\<close>

fun probe :: "nat \<Rightarrow> nstate \<Rightarrow> ptr \<Rightarrow> nat \<Rightarrow> nat \<Rightarrow> nat res" where
  "probe 0 s new_trie new_size hashed = Inl OutOfFuel"
| "probe (Suc n) s new_trie new_size hashed =
     rbind (load s (ptr_add new_trie hashed)) (\<lambda>nd.
       if nd_key nd \<noteq> None then probe n s new_trie new_size (if hashed \<ge> new_size then 0 else hashed + 1)
       else Inr hashed)"

definition place :: "nat \<Rightarrow> ptr \<Rightarrow> nstate \<Rightarrow> ptr \<Rightarrow> nstate res" where
  "place new_size new_trie s node =
     rbind (load s node) (\<lambda>nd.
     rbind (arg_hash (nd_key nd) (int new_size)) (\<lambda>h.
     rbind (probe (new_size + 2) s new_trie new_size h) (\<lambda>hashed.
     trie_cpy s (ptr_add new_trie hashed) node)))"

text \<open>
  \<open>trie_add_child\<close>, from the pointer \<open>*parent\<close> to the pointer that is stored there; the returned address
  of the local variable \<open>new_trie\<close> is used nowhere. The new child is hashed by the parameter \<open>key\<close>, which is
  its key.
\<close>

definition trie_add_child :: "nstate \<Rightarrow> ptr \<Rightarrow> cptr \<Rightarrow> cptr \<Rightarrow> (nstate \<times> ptr) res" where
  "trie_add_child s elder_trie key val =
     rbind (load s elder_trie) (\<lambda>e.
     let elder_size = nat (nd_size e); new_size = elder_size + 1; (s1, new_trie) = alloc_nodes s new_size in
     rbind (create_child_trie s1 key val) (\<lambda>(s2, new_child).
     rbind (rfold (place new_size new_trie) s2 (map (ptr_add elder_trie) [0..<elder_size])) (\<lambda>s3.
     rbind (place new_size new_trie s3 new_child) (\<lambda>s4.
     rbind (modify s4 new_trie (\<lambda>n. n\<lparr>nd_size := int new_size\<rparr>)) (\<lambda>s5. Inr (s5, new_trie))))))"

text \<open>\<open>trie_search\<close>: the struct is copied before the key is compared.\<close>

fun search_loop :: "nat \<Rightarrow> nstate \<Rightarrow> ptr \<Rightarrow> nat \<Rightarrow> string \<Rightarrow> nat \<Rightarrow> nat \<Rightarrow> knode \<Rightarrow> cptr res" where
  "search_loop 0 s trie sz key hashed cnt iter = Inl OutOfFuel"
| "search_loop (Suc n) s trie sz key hashed cnt iter =
     rbind (the_str (nd_key iter)) (\<lambda>k.
       if k = key then Inr (nd_value iter)
       else let hashed' = (if hashed > sz then 0 else hashed) + 1; cnt' = cnt + 1 in
         rbind (load s (ptr_add trie hashed')) (\<lambda>iter'.
           if cnt' \<ge> sz then Inr (Some NO_VALUE) else search_loop n s trie sz key hashed' cnt' iter'))"

definition trie_search :: "nstate \<Rightarrow> ptr \<Rightarrow> cptr \<Rightarrow> cptr res" where
  "trie_search s trie key =
     rbind (load s trie) (\<lambda>t.
     rbind (arg_hash key (nd_size t)) (\<lambda>hashed.
     rbind (load s (ptr_add trie hashed)) (\<lambda>iter.
     rbind (the_str key) (\<lambda>k.
     search_loop (nat (nd_size t) + 1) s trie (nat (nd_size t)) k hashed 0 iter))))"

definition get_root_trie_by_key :: "nstate \<Rightarrow> ptr \<Rightarrow> cptr \<Rightarrow> (nstate \<times> ptr) res" where
  "get_root_trie_by_key s trie key = kv_get_node s trie key"

fun child_loop :: "nat \<Rightarrow> nstate \<Rightarrow> ptr \<Rightarrow> int \<Rightarrow> string \<Rightarrow> nat \<Rightarrow> int \<Rightarrow> ptr res" where
  "child_loop 0 s trie sz key hashed cnt = Inl OutOfFuel"
| "child_loop (Suc n) s trie sz key hashed cnt =
     rbind (load s (ptr_add trie hashed)) (\<lambda>iter.
       if nd_key iter = None \<or> nd_key iter = Some key then Inr (ptr_add trie hashed)
       else if cnt + 1 > sz then Inr None
       else child_loop n s trie sz key (if int (hashed + 1) \<ge> sz then 0 else hashed + 1) (cnt + 1))"

definition get_child_trie_by_key :: "nstate \<Rightarrow> ptr \<Rightarrow> cptr \<Rightarrow> ptr res" where
  "get_child_trie_by_key s trie key =
     (if trie = None then Inr None
      else rbind (load s trie) (\<lambda>t.
        if nd_size t = 0 then Inr None
        else rbind (arg_hash key (nd_size t)) (\<lambda>hashed.
             rbind (the_str key) (\<lambda>k.
             child_loop (nat (nd_size t) + 2) s trie (nd_size t) k hashed 0))))"

definition trie_insert :: "nstate \<Rightarrow> ptr \<Rightarrow> ptr \<Rightarrow> (nstate \<times> ptr) res" where
  "trie_insert s parent child =
     rbind (load s parent) (\<lambda>p.
       if nd_child p = None then
         rbind (modify s parent (\<lambda>n. n\<lparr>nd_child := child\<rparr>)) (\<lambda>s1.
         if nd_size p = 0 then
           rbind (load s1 child) (\<lambda>c.
           rbind (modify s1 parent (\<lambda>n. n\<lparr>nd_size := nd_size c\<rparr>)) (\<lambda>s2. Inr (s2, parent)))
         else Inr (s1, parent))
       else Inr (s, parent))"

subsection \<open>Printing: the loads only\<close>

definition trie_empty :: "nstate \<Rightarrow> ptr \<Rightarrow> bool res" where
  "trie_empty s trie = (if trie = None then Inr True else rbind (load s trie) (\<lambda>t. Inr (nd_key t = None)))"

fun trie_print :: "nat \<Rightarrow> nstate \<Rightarrow> ptr \<Rightarrow> unit res" where
  "trie_print 0 s trie = Inl OutOfFuel"
| "trie_print (Suc f) s trie =
     rbind (trie_empty s trie) (\<lambda>e.
       if e then Inr ()
       else rbind (load s trie) (\<lambda>t.
         rfold (\<lambda>_ i. rbind (load s (ptr_add trie i)) (\<lambda>nd.
             if nd_child nd \<noteq> None then trie_print f s (nd_child nd) else Inr ()))
           () [0..<nat (nd_size t)]))"

definition trie_print_ln :: "nstate \<Rightarrow> ptr \<Rightarrow> unit res" where
  "trie_print_ln s trie =
     rbind (load s trie) (\<lambda>t. rfold (\<lambda>_ i. rbind (load s (ptr_add trie i)) (\<lambda>_. Inr ())) () [0..<nat (nd_size t)])"

subsection \<open>Words\<close>

text \<open>
  \<open>get_next_word\<close>: one letter, or two bytes (a character of the GBK encoding); the second byte may be
  the terminator, which ends the text that \<open>sprintf\<close> wrote.
\<close>

definition get_next_word :: "string \<Rightarrow> nat \<Rightarrow> cptr \<times> nat" where
  "get_next_word word pos =
     (if pos \<ge> length word then (None, pos)
      else if IS_ALPHA (word ! pos) then (Some [word ! pos], pos + 1)
      else (Some (word ! pos # (if pos + 1 < length word then [word ! (pos + 1)] else [])), pos + 2))"

subsection \<open>Lookup and storage of words\<close>

text \<open>
  The loop of \<open>trie_get\<close>. \<open>CharList_push_back\<close> and the prints only concern the list of words that is
  printed when the lookup fails.
\<close>

fun get_loop :: "nat \<Rightarrow> nstate \<Rightarrow> ptr \<Rightarrow> string \<Rightarrow> nat \<Rightarrow> cptr \<Rightarrow> (nstate \<times> cptr) res" where
  "get_loop 0 s child_trie word pos word_to_get = Inl OutOfFuel"
| "get_loop (Suc n) s child_trie word pos word_to_get =
     (if word_to_get = None then Inl UninitRead
      else let (next_word, pos') = get_next_word word pos in
        rbind (get_child_trie_by_key s child_trie next_word) (\<lambda>c.
          if c = None then Inr (s, Some NO_VALUE)
          else rbind (load s c) (\<lambda>nd.
               rbind (the_str (nd_value nd)) (\<lambda>_. get_loop n s (nd_child nd) word pos' next_word))))"

text \<open>
  \<open>trie_get\<close>. Running off the end of the function returns an indeterminate value, which is the
  fault of \<open>get_loop\<close> for a null word; for an empty \<open>word\<close> the function ends that way.
\<close>

definition trie_get :: "nstate \<Rightarrow> ptr \<Rightarrow> string \<Rightarrow> (nstate \<times> cptr) res" where
  "trie_get s trie word =
     (let (word_to_get, pos) = get_next_word word 0 in
      if word_to_get = None then Inl UninitRead
      else rbind (get_root_trie_by_key s trie word_to_get) (\<lambda>(s1, root_trie).
        if root_trie = None then Inr (s1, Some NO_VALUE)
        else rbind (load s1 root_trie) (\<lambda>r. get_loop (length word + 2) s1 (nd_child r) word pos word_to_get)))"

text \<open>One round of the loop of \<open>trie_save\<close>: the child for the next word.\<close>

definition save_step :: "nstate \<Rightarrow> ptr \<Rightarrow> string \<Rightarrow> (nstate \<times> ptr) res" where
  "save_step s child_trie w =
     rbind (trie_print_ln s child_trie) (\<lambda>_.
     rbind (load s child_trie) (\<lambda>c.
       if nd_child c = None then
         rbind (create_child_trie s (Some w) (Some ''0'')) (\<lambda>(s1, new_trie).
         rbind (trie_insert s1 child_trie new_trie) (\<lambda>(s2, p).
         rbind (load s2 p) (\<lambda>n. Inr (s2, nd_child n))))
       else rbind (get_child_trie_by_key s (nd_child c) (Some w)) (\<lambda>found.
         if found = None then
           rbind (trie_add_child s (nd_child c) (Some w) (Some ''0'')) (\<lambda>(s1, new_trie).
           rbind (modify s1 child_trie (\<lambda>n. n\<lparr>nd_child := new_trie\<rparr>)) (\<lambda>s2.
           rbind (get_child_trie_by_key s2 new_trie (Some w)) (\<lambda>d.
           rbind (load s2 d) (\<lambda>_. Inr (s2, d)))))
         else Inr (s, found))))"

fun save_loop :: "nat \<Rightarrow> nstate \<Rightarrow> ptr \<Rightarrow> ptr \<Rightarrow> string \<Rightarrow> nat \<Rightarrow> cptr \<Rightarrow> (nstate \<times> ptr) res" where
  "save_loop 0 s cur_trie child_trie word pos word_to_send = Inl OutOfFuel"
| "save_loop (Suc n) s cur_trie child_trie word pos word_to_send =
     (case word_to_send of
        None \<Rightarrow> Inr (s, child_trie)
      | Some w \<Rightarrow>
          rbind (save_step s child_trie w) (\<lambda>(s1, c).
          let (next_word, pos') = get_next_word word pos in
          rbind (trie_print (Suc (node_count s1)) s1 cur_trie) (\<lambda>_.
          save_loop n s1 cur_trie c word pos' next_word)))"

text \<open>\<open>trie_save\<close>; its result is 0 (\<open>Some 0\<close>) or, at the end of the function, indeterminate (\<open>None\<close>).\<close>

definition trie_save :: "nstate \<Rightarrow> ptr \<Rightarrow> string \<Rightarrow> cptr \<Rightarrow> (nstate \<times> int option) res" where
  "trie_save s trie word val =
     rbind (load s trie) (\<lambda>t.
       if nd_size t = 0 then Inr (s, Some 0)
       else let (word_to_send, pos) = get_next_word word 0 in
         if word_to_send = None then Inr (s, None)
         else rbind (get_root_trie_by_key s trie word_to_send) (\<lambda>(s1, found).
           rbind (if found = None then root_insert s1 trie word_to_send (Some ''0'') else Inr (s1, found)) (\<lambda>(s2, root_trie).
           let (next_word, pos') = get_next_word word pos in
           rbind (save_loop (length word + 2) s2 root_trie root_trie word pos' next_word) (\<lambda>(s3, child_trie).
           rbind (modify s3 child_trie (\<lambda>n. n\<lparr>nd_value := val\<rparr>)) (\<lambda>s4. Inr (s4, None))))))"

subsection \<open>Placing the children of a node in a new array\<close>

definition slot_of :: "string \<Rightarrow> nat \<Rightarrow> nat" where
  "slot_of k n = unat (hash_loop 0 k mod of_nat n)"

lemma slot_of_less:
  assumes "0 < n" "n < 2 ^ 32"
  shows "slot_of k n < n" "arg_hash (Some k) (int n) = Inr (slot_of k n)"
proof -
  have u: "unat (of_nat n :: 32 word) = n" by (rule of_nat_inverse [OF refl]) (use assms in simp)
  then show "slot_of k n < n" using assms by (simp add: slot_of_def unat_mod)
  show "arg_hash (Some k) (int n) = Inr (slot_of k n)"
    using u assms by (auto simp: arg_hash_def slot_of_def)
qed

text \<open>The fields that \<open>trie_cpy\<close> copies.\<close>

definition copied :: "knode \<Rightarrow> knode \<Rightarrow> bool" where
  "copied n r \<longleftrightarrow> nd_key n = nd_key r \<and> nd_value n = nd_value r \<and> nd_child n = nd_child r \<and> nd_size n = nd_size r"

definition source :: "nstate \<Rightarrow> nat \<Rightarrow> address \<Rightarrow> bool" where
  "source s b x \<longleftrightarrow> valid s x \<and> blk x \<noteq> b \<and> nd_key (cells s x) \<noteq> None \<and> nd_value (cells s x) \<noteq> None"

definition slot_at :: "nstate \<Rightarrow> nat \<Rightarrow> address \<Rightarrow> nat" where
  "slot_at s n x = slot_of (the (nd_key (cells s x))) n"

text \<open>
  The new array, block \<open>b\<close> of \<open>n\<close> nodes, after the nodes \<open>xs\<close> of the state \<open>s0\<close> have been placed in it.
\<close>

definition holds_nodes :: "nstate \<Rightarrow> nat \<Rightarrow> nat \<Rightarrow> address list \<Rightarrow> nstate \<Rightarrow> bool" where
  "holds_nodes s0 b n xs s \<longleftrightarrow> lens s = lens s0 \<and> (\<forall>a. blk a \<noteq> b \<longrightarrow> cells s a = cells s0 a) \<and>
     (\<forall>x\<in>set xs. copied (cells s (Addr b (slot_at s0 n x))) (cells s0 x)) \<and>
     (\<forall>h<n. h \<notin> slot_at s0 n ` set xs \<longrightarrow> nd_key (cells s (Addr b h)) = None)"

lemma holds_nodes_valid: "holds_nodes s0 b n xs s \<Longrightarrow> valid s = valid s0"
  by (rule ext) (simp add: holds_nodes_def valid_def)

lemma place_free:
  assumes "holds_nodes s0 b n xs s" "source s0 b x" "0 < n" "n < 2 ^ 32"
    and "slot_at s0 n x \<notin> slot_at s0 n ` set xs" "\<And>h. h < n \<Longrightarrow> valid s0 (Addr b h)"
  shows "\<exists>s'. place n (Some (Addr b 0)) s (Some x) = Inr s' \<and> holds_nodes s0 b n (xs @ [x]) s'"
proof -
  let ?h = "slot_at s0 n x" and ?r = "cells s0 x"
  obtain k v where kv: "nd_key ?r = Some k" "nd_value ?r = Some v" using assms(2) by (auto simp: source_def)
  have h: "?h < n" "arg_hash (nd_key ?r) (int n) = Inr ?h"
    using slot_of_less [OF assms(3,4), of k] kv by (simp_all add: slot_at_def)
  have free: "nd_key (cells s (Addr b ?h)) = None" using assms(1,5) h(1) by (simp add: holds_nodes_def)
  have vs: "valid s (Addr b ?h)" "valid s x"
    using assms(2,6) h(1) holds_nodes_valid [OF assms(1)] by (auto simp: source_def)
  have cx: "cells s x = ?r" using assms(1,2) by (simp add: holds_nodes_def source_def)
  have pr: "probe (n + 2) s (Some (Addr b 0)) n ?h = Inr ?h"
    using vs free by (simp add: numeral_2_eq_2)
  let ?s' = "poke s (Addr b ?h) (\<lambda>m. m\<lparr>nd_key := Some k, nd_value := Some v, nd_child := nd_child ?r, nd_size := nd_size ?r\<rparr>)"
  have "place n (Some (Addr b 0)) s (Some x) = Inr ?s'"
    unfolding place_def using vs cx kv h(2) pr by (simp add: trie_cpy_def del: probe.simps)
  moreover have "holds_nodes s0 b n (xs @ [x]) ?s'"
    unfolding holds_nodes_def
  proof (intro conjI allI ballI impI)
    show "lens ?s' = lens s0" using assms(1) by (simp add: holds_nodes_def)
    show "cells ?s' a = cells s0 a" if "blk a \<noteq> b" for a
      using that assms(1) by (cases a) (auto simp: holds_nodes_def cells_poke)
    show "copied (cells ?s' (Addr b (slot_at s0 n y))) (cells s0 y)" if "y \<in> set (xs @ [x])" for y
    proof (cases "slot_at s0 n y = ?h")
      case True
      with that assms(5) have "y = x" by (metis UnE image_eqI set_append set_ConsD empty_iff empty_set insertE list.set(2))
      then show ?thesis using kv by (simp add: copied_def)
    next
      case False
      with that assms(1) show ?thesis by (auto simp: holds_nodes_def)
    qed
    show "nd_key (cells ?s' (Addr b j)) = None" if "j < n" "j \<notin> slot_at s0 n ` set (xs @ [x])" for j
      using that assms(1) by (auto simp: holds_nodes_def)
  qed
  ultimately show ?thesis by blast
qed

lemma place_all:
  assumes "0 < n" "n < 2 ^ 32" "\<And>h. h < n \<Longrightarrow> valid s0 (Addr b h)"
  shows "holds_nodes s0 b n xs s \<Longrightarrow> \<forall>y\<in>set ys. source s0 b y \<Longrightarrow> distinct (map (slot_at s0 n) (xs @ ys)) \<Longrightarrow>
    \<exists>s'. rfold (place n (Some (Addr b 0))) s (map Some ys) = Inr s' \<and> holds_nodes s0 b n (xs @ ys) s'"
proof (induction ys arbitrary: xs s)
  case Nil
  then show ?case by simp
next
  case (Cons y ys)
  have "slot_at s0 n y \<notin> slot_at s0 n ` set xs" using Cons.prems(3) by auto
  then obtain s1 where s1: "place n (Some (Addr b 0)) s (Some y) = Inr s1" "holds_nodes s0 b n (xs @ [y]) s1"
    using place_free [OF Cons.prems(1) _ assms(1,2) _ assms(3), of y] Cons.prems(2) by auto
  have "\<exists>s'. rfold (place n (Some (Addr b 0))) s1 (map Some ys) = Inr s' \<and> holds_nodes s0 b n ((xs @ [y]) @ ys) s'"
    by (rule Cons.IH [OF s1(2)]) (use Cons.prems in auto)
  with s1(1) show ?case by simp
qed

definition at :: "address \<Rightarrow> nat \<Rightarrow> address" where
  "at a i = Addr (blk a) (idx a + i)"

definition child_array :: "nstate \<Rightarrow> address \<Rightarrow> nat \<Rightarrow> bool" where
  "child_array s a n \<longleftrightarrow> 0 < n \<and> nd_size (cells s a) = int n \<and>
     (\<forall>i<n. valid s (at a i) \<and> nd_key (cells s (at a i)) \<noteq> None \<and> nd_value (cells s (at a i)) \<noteq> None)"

definition keys_of :: "nstate \<Rightarrow> address \<Rightarrow> nat \<Rightarrow> string list" where
  "keys_of s a n = map (\<lambda>i. the (nd_key (cells s (at a i)))) [0..<n]"

lemma create_child_ok:
  assumes "create_child_trie s (Some k) (Some v) = r"
  obtains s' where "r = Inr (s', Some (Addr (length (lens s)) 0))" "lens s' = lens s @ [1]"
    "\<And>a. valid s a \<Longrightarrow> cells s' a = cells s a" "\<And>a. blk a < length (lens s) \<Longrightarrow> cells s' a = cells s a"
    "nd_key (cells s' (Addr (length (lens s)) 0)) = Some k" "nd_value (cells s' (Addr (length (lens s)) 0)) = Some v"
    "nd_child (cells s' (Addr (length (lens s)) 0)) = None" "nd_size (cells s' (Addr (length (lens s)) 0)) = 1"
proof -
  obtain s1 p where al: "alloc_nodes s 1 = (s1, p)" by (cases "alloc_nodes s 1")
  note pr = alloc_nodes_props [OF al]
  let ?a = "Addr (length (lens s)) 0"
  have v: "valid s1 ?a" by (rule pr(6)) simp
  let ?s' = "poke s1 ?a (\<lambda>n. n\<lparr>nd_key := Some k, nd_value := Some v, nd_size := 1\<rparr>)"
  have "r = Inr (?s', Some ?a)"
    unfolding assms [symmetric] create_child_trie_def al prod.case Let_def pr(1) using v by simp
  moreover have "cells s1 a = cells s a" if "blk a < length (lens s)" for a
    using al that by (auto simp: alloc_nodes_def Let_def)
  moreover have "blk a < length (lens s) \<Longrightarrow> a \<noteq> ?a" "valid s a \<Longrightarrow> a \<noteq> ?a" for a by (auto simp: valid_def)
  ultimately show thesis
    by (intro that [of ?s']) (simp_all add: pr(2,5,7) zero_node_def)
qed

lemma child_found:
  assumes "nd_size (cells s (Addr b 0)) = int n" "0 < n" "n < 2 ^ 32" "valid s (Addr b 0)"
    "valid s (Addr b (slot_of k n))" "nd_key (cells s (Addr b (slot_of k n))) = Some k"
  shows "get_child_trie_by_key s (Some (Addr b 0)) (Some k) = Inr (Some (Addr b (slot_of k n)))"
  using assms slot_of_less(2) [OF assms(2,3), of k] by (simp add: get_child_trie_by_key_def)

lemma copied_resized:
  "copied (cells s q) r \<Longrightarrow> nd_key (cells (poke s a (\<lambda>m. m\<lparr>nd_size := z\<rparr>)) q) = nd_key r \<and>
    nd_value (cells (poke s a (\<lambda>m. m\<lparr>nd_size := z\<rparr>)) q) = nd_value r \<and>
    nd_child (cells (poke s a (\<lambda>m. m\<lparr>nd_size := z\<rparr>)) q) = nd_child r"
  by (auto simp: cells_poke copied_def)

lemma add_child_ok:
  assumes ca: "child_array s a n" and n: "n + 1 < 2 ^ 32"
    and dist: "distinct (map (\<lambda>k. slot_of k (n + 1)) (keys_of s a n @ [key]))"
  obtains s' b where "trie_add_child s (Some a) (Some key) (Some val) = Inr (s', Some (Addr b 0))"
    "b = length (lens s)" "lens s' = lens s @ [n + 1, 1]" "\<And>x. valid s x \<Longrightarrow> cells s' x = cells s x"
    "nd_size (cells s' (Addr b 0)) = int (n + 1)"
    "\<And>i. i < n \<Longrightarrow> let q = cells s' (Addr b (slot_of (keys_of s a n ! i) (n + 1))); r = cells s (at a i) in
        nd_key q = nd_key r \<and> nd_value q = nd_value r \<and> nd_child q = nd_child r"
    "let q = cells s' (Addr b (slot_of key (n + 1))) in nd_key q = Some key \<and> nd_value q = Some val \<and> nd_child q = None"
proof -
  let ?N = "n + 1" and ?b = "length (lens s)"
  obtain s1 p where al: "alloc_nodes s ?N = (s1, p)" by (cases "alloc_nodes s ?N")
  note pr = alloc_nodes_props [OF al]
  obtain s0 where s0: "create_child_trie s1 (Some key) (Some val) = Inr (s0, Some (Addr (length (lens s1)) 0))"
    "lens s0 = lens s1 @ [1]" "\<And>a. valid s1 a \<Longrightarrow> cells s0 a = cells s1 a" "\<And>a. blk a < length (lens s1) \<Longrightarrow> cells s0 a = cells s1 a"
    "nd_key (cells s0 (Addr (length (lens s1)) 0)) = Some key" "nd_value (cells s0 (Addr (length (lens s1)) 0)) = Some val"
    "nd_child (cells s0 (Addr (length (lens s1)) 0)) = None"
    by (rule create_child_ok [OF refl]) blast
  let ?x = "Addr (length (lens s1)) 0"
  let ?es = "map (at a) [0..<n]"
  have same: "cells s0 x = cells s x" if "valid s x" for x
    using that pr(4,5) s0(3) by simp
  have vN: "valid s0 (Addr ?b h)" if "h < ?N" for h using that s0(2) pr(2) by (simp add: valid_def nth_append)
  have srcs: "\<forall>y\<in>set (?es @ [?x]). source s0 ?b y"
  proof
    fix y assume "y \<in> set (?es @ [?x])"
    then consider i where "i < n" "y = at a i" | "y = ?x" by auto
    then show "source s0 ?b y"
    proof cases
      case 1
      with ca have v: "valid s y" "nd_key (cells s y) \<noteq> None" "nd_value (cells s y) \<noteq> None" by (auto simp: child_array_def)
      then have "blk y \<noteq> ?b" "valid s0 y" using s0(2) pr(2) by (auto simp: valid_def nth_append)
      with v same [OF v(1)] show ?thesis by (simp add: source_def)
    next
      case 2
      with s0(2,5,6) pr(2) show ?thesis by (simp add: source_def valid_def nth_append)
    qed
  qed
  have sl: "map (slot_at s0 ?N) (?es @ [?x]) = map (\<lambda>k. slot_of k ?N) (keys_of s a n @ [key])"
    using ca same s0(5) by (auto simp: slot_at_def keys_of_def child_array_def)
  have start: "holds_nodes s0 ?b ?N [] s0"
    using s0(4) pr(2,7) by (simp add: holds_nodes_def zero_node_def)
  have "\<exists>s'. rfold (place ?N (Some (Addr ?b 0))) s0 (map Some (?es @ [?x])) = Inr s' \<and> holds_nodes s0 ?b ?N ([] @ (?es @ [?x])) s'"
    by (rule place_all [OF _ n vN start srcs]) (use dist sl in simp_all)
  then obtain s4 where s4: "rfold (place ?N (Some (Addr ?b 0))) s0 (map Some ?es @ [Some ?x]) = Inr s4"
    "holds_nodes s0 ?b ?N (?es @ [?x]) s4" by auto
  then obtain s3 where s3: "rfold (place ?N (Some (Addr ?b 0))) s0 (map Some ?es) = Inr s3"
    "place ?N (Some (Addr ?b 0)) s3 (Some ?x) = Inr s4"
    by (auto simp: rfold_append rbind_eq_Inr)
  have v4: "valid s4 (Addr ?b 0)" using vN [of 0] holds_nodes_valid [OF s4(2)] by simp
  let ?s5 = "poke s4 (Addr ?b 0) (\<lambda>m. m\<lparr>nd_size := int ?N\<rparr>)"
  have va: "valid s a" "nd_size (cells s a) = int n"
    using ca by (auto simp: child_array_def at_def dest: spec [of _ 0])
  have ptrs: "map (ptr_add (Some a)) [0..<n] = map Some ?es" by (simp add: at_def)
  have run: "trie_add_child s (Some a) (Some key) (Some val) = Inr (?s5, Some (Addr ?b 0))"
    unfolding trie_add_child_def using va al pr(1) s0(1) s3 v4
    by (simp add: ptrs)
  show thesis
  proof (rule that [OF run refl])
    show "lens ?s5 = lens s @ [n + 1, 1]" using s4(2) s0(2) pr(2) by (simp add: holds_nodes_def)
    show "cells ?s5 x = cells s x" if "valid s x" for x
    proof -
      have "blk x \<noteq> ?b" using that by (auto simp: valid_def)
      then have "cells s4 x = cells s0 x" "x \<noteq> Addr ?b 0" using s4(2) by (auto simp: holds_nodes_def)
      then show ?thesis using same [OF that] by simp
    qed
    show "nd_size (cells ?s5 (Addr ?b 0)) = int (n + 1)" by simp
    have cp: "copied (cells s4 (Addr ?b (slot_at s0 ?N y))) (cells s0 y)" if "y \<in> set (?es @ [?x])" for y
      using s4(2) that by (simp only: holds_nodes_def)
    show "let q = cells ?s5 (Addr ?b (slot_of (keys_of s a n ! i) (n + 1))); r = cells s (at a i) in
        nd_key q = nd_key r \<and> nd_value q = nd_value r \<and> nd_child q = nd_child r" if i: "i < n" for i
    proof -
      have v: "valid s (at a i)" using ca i by (simp add: child_array_def)
      have "slot_at s0 ?N (at a i) = slot_of (keys_of s a n ! i) ?N"
        using i same [OF v] by (simp add: slot_at_def keys_of_def)
      with cp [of "at a i"] i same [OF v] have "copied (cells s4 (Addr ?b (slot_of (keys_of s a n ! i) ?N))) (cells s (at a i))"
        by simp
      from copied_resized [OF this] show ?thesis unfolding Let_def .
    qed
    have "slot_at s0 ?N ?x = slot_of key ?N" using s0(5) by (simp add: slot_at_def)
    with cp [of ?x] have "copied (cells s4 (Addr ?b (slot_of key ?N))) (cells s0 ?x)" by simp
    from copied_resized [OF this] s0(5-7) show "let q = cells ?s5 (Addr ?b (slot_of key (n + 1))) in nd_key q = Some key \<and> nd_value q = Some val \<and> nd_child q = None"
      unfolding Let_def by simp
  qed
qed

subsection \<open>Properties\<close>

text \<open>The array at \<open>p\<close> has a child for the key \<open>k\<close> with this value and this child array.\<close>

definition has_child :: "nstate \<Rightarrow> ptr \<Rightarrow> string \<Rightarrow> cptr \<Rightarrow> ptr \<Rightarrow> bool" where
  "has_child s p k v c \<longleftrightarrow> (\<exists>q. get_child_trie_by_key s p (Some k) = Inr (Some q) \<and>
     nd_key (cells s q) = Some k \<and> nd_value (cells s q) = v \<and> nd_child (cells s q) = c)"

lemma one_child:
  obtains s a where "create_child_trie empty_store (Some k) (Some v) = Inr (s, Some a)" "child_array s a 1"
    "keys_of s a 1 = [k]" "nd_value (cells s (at a 0)) = Some v" "nd_child (cells s (at a 0)) = None"
proof -
  obtain s' where s': "create_child_trie empty_store (Some k) (Some v) = Inr (s', Some (Addr 0 0))" "lens s' = [1]"
    "nd_key (cells s' (Addr 0 0)) = Some k" "nd_value (cells s' (Addr 0 0)) = Some v"
    "nd_child (cells s' (Addr 0 0)) = None" "nd_size (cells s' (Addr 0 0)) = 1"
    by (rule create_child_ok [OF refl, of empty_store k v]) (auto simp: empty_store_def)
  show thesis
    by (rule that [OF s'(1)]) (use s' in \<open>auto simp: child_array_def keys_of_def at_def valid_def\<close>)
qed

text \<open>
  C12: \<open>trie_add_child\<close> builds a larger array of children when the hashes of the old keys and the new
  one are distinct modulo the new size: no node of the old memory changes, the new key is found in the new array with its value
  and without children, and every old key is found there with its old value and its old children.
\<close>

theorem trie_add_child_correct:
  assumes "child_array s a n" "n + 1 < 2 ^ 32" "distinct (map (\<lambda>k. slot_of k (n + 1)) (keys_of s a n @ [key]))"
  shows "\<exists>s' new. trie_add_child s (Some a) (Some key) (Some val) = Inr (s', new) \<and>
    (\<forall>x. valid s x \<longrightarrow> cells s' x = cells s x) \<and> has_child s' new key (Some val) None \<and>
    (\<forall>i<n. has_child s' new (keys_of s a n ! i) (nd_value (cells s (at a i))) (nd_child (cells s (at a i))))"
proof -
  obtain s' b where s': "trie_add_child s (Some a) (Some key) (Some val) = Inr (s', Some (Addr b 0))"
    "b = length (lens s)" "lens s' = lens s @ [n + 1, 1]" "\<And>x. valid s x \<Longrightarrow> cells s' x = cells s x"
    "nd_size (cells s' (Addr b 0)) = int (n + 1)"
    "\<And>i. i < n \<Longrightarrow> let q = cells s' (Addr b (slot_of (keys_of s a n ! i) (n + 1))); r = cells s (at a i) in
        nd_key q = nd_key r \<and> nd_value q = nd_value r \<and> nd_child q = nd_child r"
    "let q = cells s' (Addr b (slot_of key (n + 1))) in nd_key q = Some key \<and> nd_value q = Some val \<and> nd_child q = None"
    by (rule add_child_ok [OF assms, of val]) blast
  have v: "valid s' (Addr b h)" if "h < n + 1" for h using that s'(2,3) by (simp add: valid_def nth_append)
  have found: "get_child_trie_by_key s' (Some (Addr b 0)) (Some k) = Inr (Some (Addr b (slot_of k (n + 1))))"
    if "nd_key (cells s' (Addr b (slot_of k (n + 1)))) = Some k" for k
    by (rule child_found [OF s'(5) _ assms(2) v v that]) (use slot_of_less(1) [OF _ assms(2)] in simp_all)
  have "has_child s' (Some (Addr b 0)) key (Some val) None"
    using found [of key] s'(7) by (auto simp: has_child_def Let_def)
  moreover have "has_child s' (Some (Addr b 0)) (keys_of s a n ! i) (nd_value (cells s (at a i))) (nd_child (cells s (at a i)))"
    if i: "i < n" for i
  proof -
    have "nd_key (cells s (at a i)) = Some (keys_of s a n ! i)"
      using assms(1) i by (auto simp: child_array_def keys_of_def)
    with s'(6) [OF i] found [of "keys_of s a n ! i"] show ?thesis by (auto simp: has_child_def Let_def)
  qed
  ultimately show ?thesis using s'(1,4) by blast
qed

lemma slot_letters:
  "slot_of ''a'' 2 = 1" "slot_of ''b'' 2 = 0" "slot_of ''c'' 2 = 1"
  by (simp_all add: slot_of_def)

theorem trie_add_child_correct_witness:
  "\<exists>s a s' new. create_child_trie empty_store (Some ''a'') (Some ''0'') = Inr (s, Some a) \<and>
    trie_add_child s (Some a) (Some ''b'') (Some ''1'') = Inr (s', new) \<and> has_child s' new ''b'' (Some ''1'') None \<and>
    has_child s' new ''a'' (Some ''0'') None"
proof -
  obtain s a where s: "create_child_trie empty_store (Some ''a'') (Some ''0'') = Inr (s, Some a)" "child_array s a 1"
    "keys_of s a 1 = [''a'']" "nd_value (cells s (at a 0)) = Some ''0''" "nd_child (cells s (at a 0)) = None" by (rule one_child)
  have d: "distinct (map (\<lambda>k. slot_of k (1 + 1)) (keys_of s a 1 @ [''b'']))"
    by (simp add: s(3) slot_letters numeral_2_eq_2 [symmetric] del: One_nat_def)
  from trie_add_child_correct [OF s(2) _ d, of "''1''"] obtain s' new where
    t: "trie_add_child s (Some a) (Some ''b'') (Some ''1'') = Inr (s', new)" "has_child s' new ''b'' (Some ''1'') None"
    "\<And>i. i < 1 \<Longrightarrow> has_child s' new (keys_of s a 1 ! i) (nd_value (cells s (at a i))) (nd_child (cells s (at a i)))"
    by auto
  from t(3) [of 0] have "has_child s' new ''a'' (Some ''0'') None" by (simp only: s(3-5) nth_Cons_0)
  with s(1) t(1,2) show ?thesis by blast
qed

text \<open>
  The probing loop of \<open>trie_add_child\<close> compares its index with the size only after it has used it:
  when a node has one child and both keys hash to the last slot of the array of two, the code reads
  behind the new array.
\<close>

lemma trie_add_child_collision:
  assumes "child_array s a 1" "slot_of (keys_of s a 1 ! 0) 2 = 1" "slot_of key 2 = 1"
  shows "trie_add_child s (Some a) (Some key) (Some val) = Inl OutOfBounds"
proof -
  obtain s1 p where al: "alloc_nodes s 2 = (s1, p)" by (cases "alloc_nodes s 2")
  note pr = alloc_nodes_props [OF al]
  let ?b = "length (lens s)"
  obtain s0 where s0: "create_child_trie s1 (Some key) (Some val) = Inr (s0, Some (Addr (length (lens s1)) 0))"
    "lens s0 = lens s1 @ [1]" "\<And>a. valid s1 a \<Longrightarrow> cells s0 a = cells s1 a" "\<And>a. blk a < length (lens s1) \<Longrightarrow> cells s0 a = cells s1 a"
    "nd_key (cells s0 (Addr (length (lens s1)) 0)) = Some key" "nd_value (cells s0 (Addr (length (lens s1)) 0)) = Some val"
    by (rule create_child_ok [OF refl]) blast
  let ?x = "Addr (length (lens s1)) 0"
  have a0: "at a 0 = a" by (simp add: at_def)
  have va: "valid s a" "nd_size (cells s a) = 1" using assms(1) by (auto simp: child_array_def a0)
  obtain k v where kv: "nd_key (cells s a) = Some k" "nd_value (cells s a) = Some v"
    using assms(1) by (auto simp: child_array_def a0)
  have "valid s1 a" by (rule pr(4) [OF va(1)])
  then have same: "cells s0 a = cells s a" "valid s0 a"
    using pr(5) [OF va(1)] s0(2) s0(3) [of a] by (auto simp: valid_def nth_append)
  have sk: "slot_at s0 2 a = 1" using assms(2) same kv by (simp add: slot_at_def keys_of_def a0)
  have start: "holds_nodes s0 ?b 2 [] s0"
    using s0(4) pr(2,7) by (simp add: holds_nodes_def zero_node_def)
  have vN: "valid s0 (Addr ?b h)" if "h < 2" for h using that s0(2) pr(2) by (simp add: valid_def nth_append)
  have src: "source s0 ?b a" using same kv va(1) by (auto simp: source_def valid_def)
  obtain s3 where s3: "place 2 (Some (Addr ?b 0)) s0 (Some a) = Inr s3" "holds_nodes s0 ?b 2 [a] s3"
    using place_free [OF start src _ _ _ vN] by auto
  have k3: "nd_key (cells s3 (Addr ?b 1)) = Some k"
    using s3(2) sk kv(1) same(1) by (simp add: holds_nodes_def copied_def)
  have v3: "valid s3 (Addr ?b 1)" "\<not> valid s3 (Addr ?b 2)" "valid s3 ?x"
    using holds_nodes_valid [OF s3(2)] vN [of 1] s0(2) pr(2) by (auto simp: valid_def nth_append)
  have cx: "nd_key (cells s3 ?x) = Some key"
    using s3(2) s0(5) pr(2) by (simp add: holds_nodes_def)
  have ah: "arg_hash (Some key) 2 = Inr (slot_of key 2)" using slot_of_less(2) [of 2 key] by simp
  have "probe 4 s3 (Some (Addr ?b 0)) 2 1 = Inl OutOfBounds"
    using v3(1,2) k3 by (simp add: eval_nat_numeral)
  then have pl: "place 2 (Some (Addr ?b 0)) s3 (Some ?x) = Inl OutOfBounds"
    using v3(3) cx ah assms(3) by (simp add: place_def)
  have one: "[0..<1] = [0 :: nat]" by simp
  have "trie_add_child s (Some a) (Some key) (Some val) =
      rbind (create_child_trie s1 (Some key) (Some val)) (\<lambda>(s2, new_child).
      rbind (rfold (place 2 (Some (Addr ?b 0))) s2 [Some a]) (\<lambda>s3.
      rbind (place 2 (Some (Addr ?b 0)) s3 new_child) (\<lambda>s4.
      rbind (modify s4 (Some (Addr ?b 0)) (\<lambda>n. n\<lparr>nd_size := 2\<rparr>)) (\<lambda>s5. Inr (s5, Some (Addr ?b 0))))))"
    unfolding trie_add_child_def using va al pr(1) by (cases a) (simp add: numeral_2_eq_2)
  also have "\<dots> = Inl OutOfBounds" using s0(1) s3(1) pl by simp
  finally show ?thesis .
qed

lemma trie_add_child_collision_witness:
  "\<exists>s a. create_child_trie empty_store (Some ''a'') (Some ''0'') = Inr (s, Some a) \<and>
    trie_add_child s (Some a) (Some ''c'') (Some ''0'') = Inl OutOfBounds"
proof -
  obtain s a where s: "create_child_trie empty_store (Some ''a'') (Some ''0'') = Inr (s, Some a)" "child_array s a 1"
    "keys_of s a 1 = [''a'']" by (rule one_child)
  have "slot_of (keys_of s a 1 ! 0) 2 = 1" by (simp only: s(3) nth_Cons_0 slot_letters)
  from trie_add_child_collision [OF s(2) this slot_letters(3)] s(1) show ?thesis by blast
qed

lemma get_loop_no_value: "get_loop n s c word pos w = Inr (s', v) \<Longrightarrow> s' = s \<and> v = Some NO_VALUE"
  by (induction n arbitrary: c pos w) (auto simp: Let_def split: if_splits prod.splits)

lemma node_of_value:
  assumes "kv_rep s base bs" "node_of s bs k = Some a"
  shows "valid s a" "kv_models (poke s a (\<lambda>n. n\<lparr>nd_value := Some v\<rparr>)) (Some base) ((kv_abs s bs)(k \<mapsto> v))"
proof -
  from node_of_SomeD(2) [OF assms(2)] kv_rep_bucket [OF assms(1), of k] show "valid s a" by (auto dest: bucket_valid)
  show "kv_models (poke s a (\<lambda>n. n\<lparr>nd_value := Some v\<rparr>)) (Some base) ((kv_abs s bs)(k \<mapsto> v))"
    using poke_value_rep [OF assms(1), of a v] insert_existing_abs [OF assms, of v] unfolding kv_models_def by metis
qed

lemma trie_save_single:
  assumes "kv_models s trie m" "load s trie = Inr t" "nd_size t \<noteq> 0"
    and "get_next_word word 0 = (Some w, pos)" "get_next_word word pos = (None, pos')"
  shows "\<exists>s'. trie_save s trie word (Some v) = Inr (s', None) \<and> kv_models s' trie (m(w \<mapsto> v))"
proof -
  from assms(1) obtain base bs where kv: "trie = Some base" and rep: "kv_rep s base bs" and m: "m = kv_abs s bs"
    by (auto simp: kv_models_def)
  let ?s1 = "leak_node s"
  have rep1: "kv_rep ?s1 base bs" and abs1: "kv_abs ?s1 bs = m" using rep m by (simp_all add: leak_node_rep leak_node_abs)
  have get: "get_root_trie_by_key s trie (Some w) = Inr (?s1, node_of s bs w)"
    using kv_get_node_correct [OF rep] kv by (simp add: get_root_trie_by_key_def)
  have eqn: "node_of ?s1 bs w = node_of s bs w" by (simp add: node_of_def)
  have tail: "trie_save s trie word (Some v) = rbind
      (if node_of s bs w = None then root_insert ?s1 trie (Some w) (Some ''0'') else Inr (?s1, node_of s bs w)) (\<lambda>(s2, root_trie).
      rbind (modify s2 root_trie (\<lambda>n. n\<lparr>nd_value := Some v\<rparr>)) (\<lambda>s4. Inr (s4, None)))"
    unfolding trie_save_def using assms(2-5) get by (simp add: Let_def)
  show ?thesis
  proof (cases "node_of s bs w")
    case None
    obtain s2 bs2 a where s2: "kv_insert ?s1 (Some base) (Some w) (Some ''0'') = Inr (s2, Some a)" "kv_rep s2 base bs2"
      "kv_abs s2 bs2 = (kv_abs ?s1 bs)(w \<mapsto> ''0'')" "node_of s2 bs2 w = Some a"
      by (rule kv_insert_rep [OF rep1])
    note nv = node_of_value(1) [OF s2(2,4)] node_of_value(2) [OF s2(2,4), of v]
    have "trie_save s trie word (Some v) = Inr (poke s2 a (\<lambda>n. n\<lparr>nd_value := Some v\<rparr>), None)"
      unfolding tail using None s2(1) kv nv(1) by (simp add: root_insert_def)
    moreover have "(kv_abs s2 bs2)(w \<mapsto> v) = m(w \<mapsto> v)" using s2(3) abs1 by simp
    ultimately show ?thesis using nv(2) kv by auto
  next
    case (Some a)
    with eqn have "node_of ?s1 bs w = Some a" by simp
    note nv = node_of_value(1) [OF rep1 this] node_of_value(2) [OF rep1 this, of v]
    have "trie_save s trie word (Some v) = Inr (poke ?s1 a (\<lambda>n. n\<lparr>nd_value := Some v\<rparr>), None)"
      unfolding tail using Some nv(1) by simp
    with nv(2) kv abs1 show ?thesis by auto
  qed
qed

text \<open>
  C30: \<open>trie_save\<close> of a word of a single letter or character stores the value: on a table that stands for the
  map \<open>m\<close> it leaves a table that stands for \<open>m\<close> with the word bound to the value. But \<open>trie_get\<close> never
  returns a stored value: afterwards, as for every word in every state, the only value it can return is
  \<open>NO_VALUE\<close>.
\<close>

theorem trie_save_not_retrieved:
  assumes "kv_models s trie m" "load s trie = Inr t" "nd_size t \<noteq> 0"
    and "get_next_word word 0 = (Some w, pos)" "get_next_word word pos = (None, pos')"
  shows "\<exists>s'. trie_save s trie word (Some v) = Inr (s', None) \<and> kv_models s' trie (m(w \<mapsto> v)) \<and>
    (\<forall>any s'' x. trie_get s' trie any = Inr (s'', x) \<longrightarrow> x = Some NO_VALUE)"
proof -
  have "x = Some NO_VALUE" if "trie_get s' trie any = Inr (s'', x)" for s' any s'' x
    using that by (auto simp: trie_get_def Let_def simp del: get_loop.simps split: prod.splits if_splits dest: get_loop_no_value)
  with trie_save_single [OF assms, of v] show ?thesis by blast
qed

theorem trie_save_not_retrieved_witness:
  "\<exists>s p s'. create_root_trie empty_store = Inr (s, p) \<and> trie_save s p ''a'' (Some ''7'') = Inr (s', None) \<and>
    kv_models s' p [''a'' \<mapsto> ''7'']"
proof -
  obtain s p where s: "kv_init empty_store = Inr (s, p)" "kv_models s p Map.empty" by (rule kv_models_init)
  obtain s1 p1 where al: "alloc_nodes empty_store KEY_VALUE_SIZE = (s1, p1)" by (cases "alloc_nodes empty_store KEY_VALUE_SIZE")
  have v: "valid s1 (Addr 0 0)" using alloc_nodes_props(6) [OF al, of 0] by (simp add: empty_store_def)
  have p1: "p1 = Some (Addr 0 0)" using alloc_nodes_props(1) [OF al] by (simp add: empty_store_def)
  have "s = poke s1 (Addr 0 0) (\<lambda>n. n\<lparr>nd_size := int KEY_VALUE_SIZE\<rparr>)" "p = Some (Addr 0 0)"
    using s(1) al v p1 by (auto simp: kv_init_def)
  then have l: "load s p = Inr (cells s (Addr 0 0))" "nd_size (cells s (Addr 0 0)) \<noteq> 0" using v by simp_all
  have w: "get_next_word ''a'' 0 = (Some ''a'', 1)" "get_next_word ''a'' 1 = (None, 1)"
    by (simp_all add: get_next_word_def IS_ALPHA_def)
  from trie_save_not_retrieved [OF s(2) l w, of "''7''"] s(1) show ?thesis unfolding create_root_trie_def by blast
qed

end
