(* ===== verification/Tcp_Server.thy ===== *)
theory Tcp_Server
  imports Command
begin

text \<open>
  The server of \<open>key_value_tcp.c\<close>. libevent is not part of the source: its event loop is the step
  relation \<open>serves\<close> (any order of accepted connections, received bytes, connection events and dump
  threads), and the two buffer operations the code uses are the parameter \<open>evb\<close>: \<open>readln\<close> takes a line
  off an input buffer, \<open>None\<close> when there is no complete line, and \<open>add\<close> is the output buffer after the
  calls that reserve, add and commit the reply. A connection is its two buffers.
\<close>

subsection \<open>Definitions\<close>

record evbuf =
  readln :: "string \<Rightarrow> string option \<times> string"
  evb_add :: "string \<Rightarrow> string \<Rightarrow> string"

record conn =
  in_buf :: string
  out_buf :: string

record server =
  commands :: cstate
  conns :: "nat \<Rightarrow> conn option"
  loop_exit :: bool

text \<open>\<open>echo_read_cb\<close>: one line per call, whatever the input buffer holds; the reply is not freed.\<close>

definition echo_read_cb :: "'d env \<Rightarrow> evbuf \<Rightarrow> cstate \<Rightarrow> conn \<Rightarrow> (cstate \<times> conn) res" where
  "echo_read_cb env evb st bev =
     (let (line, rest) = readln evb (in_buf bev) in
      rbind (command_parser env st line) (\<lambda>(st1, retval).
      rbind (the_str retval) (\<lambda>r. Inr (st1, bev\<lparr>in_buf := rest, out_buf := evb_add evb (out_buf bev) r\<rparr>))))"

abbreviation BEV_EVENT_EOF :: int where "BEV_EVENT_EOF \<equiv> 0x10"
abbreviation BEV_EVENT_ERROR :: int where "BEV_EVENT_ERROR \<equiv> 0x20"

definition echo_event_cb :: "server \<Rightarrow> nat \<Rightarrow> int \<Rightarrow> server" where
  "echo_event_cb sv c events =
     (if events AND (BEV_EVENT_EOF OR BEV_EVENT_ERROR) \<noteq> 0 then sv\<lparr>conns := (conns sv)(c := None)\<rparr> else sv)"

definition accept_conn_cb :: "server \<Rightarrow> nat \<Rightarrow> server" where
  "accept_conn_cb sv fd = sv\<lparr>conns := (conns sv)(fd \<mapsto> \<lparr>in_buf = [], out_buf = []\<rparr>)\<rparr>"

definition accept_error_cb :: "server \<Rightarrow> server" where
  "accept_error_cb sv = sv\<lparr>loop_exit := True\<rparr>"

text \<open>Received bytes: the input buffer grows and the read callback runs.\<close>

definition receive :: "'d env \<Rightarrow> evbuf \<Rightarrow> server \<Rightarrow> nat \<Rightarrow> string \<Rightarrow> server res" where
  "receive env evb sv c bytes =
     (case conns sv c of
        None \<Rightarrow> Inr sv
      | Some bev \<Rightarrow>
          rbind (echo_read_cb env evb (commands sv) (bev\<lparr>in_buf := in_buf bev @ bytes\<rparr>)) (\<lambda>(st, bev').
          Inr (sv\<lparr>commands := st, conns := (conns sv)(c \<mapsto> bev')\<rparr>)))"

text \<open>\<open>htons\<close> on the little-endian target, the address the server listens on, and \<open>tcp_start_up\<close>.\<close>

definition htons :: "16 word \<Rightarrow> 16 word" where
  "htons w = push_bit 8 w OR drop_bit 8 w"

record sockaddr_in =
  sin_family :: "16 word"
  sin_port :: "16 word"
  s_addr :: "32 word"

definition listen_address :: sockaddr_in where
  "listen_address = \<lparr>sin_family = 2, sin_port = htons 22222, s_addr = 0\<rparr>"

datatype startup = Failed int | Dispatching sockaddr_in server

definition tcp_start_up :: "bool \<Rightarrow> (sockaddr_in \<Rightarrow> bool) \<Rightarrow> cstate \<Rightarrow> startup" where
  "tcp_start_up base_ok bind_ok st =
     (if \<not> base_ok then Failed 1
      else if \<not> bind_ok listen_address then Failed 1
      else Dispatching listen_address \<lparr>commands = st, conns = (\<lambda>_. None), loop_exit = False\<rparr>)"

text \<open>
  The event loop after \<open>tcp_start_up\<close>: the states the process can be in; \<open>None\<close> is a crash. A dump thread
  is the only one beside the loop; it runs in one step.
\<close>

inductive serves :: "'d env \<Rightarrow> evbuf \<Rightarrow> server \<Rightarrow> server option \<Rightarrow> bool" for env evb sv0 where
  start: "serves env evb sv0 (Some sv0)"
| accepted: "serves env evb sv0 (Some sv) \<Longrightarrow> \<not> loop_exit sv \<Longrightarrow> conns sv c = None \<Longrightarrow>
    serves env evb sv0 (Some (accept_conn_cb sv c))"
| accept_failed: "serves env evb sv0 (Some sv) \<Longrightarrow> serves env evb sv0 (Some (accept_error_cb sv))"
| event: "serves env evb sv0 (Some sv) \<Longrightarrow> \<not> loop_exit sv \<Longrightarrow> serves env evb sv0 (Some (echo_event_cb sv c events))"
| received: "serves env evb sv0 (Some sv) \<Longrightarrow> \<not> loop_exit sv \<Longrightarrow> bytes \<noteq> [] \<Longrightarrow>
    receive env evb sv c bytes = Inr sv' \<Longrightarrow> serves env evb sv0 (Some sv')"
| crashed: "serves env evb sv0 (Some sv) \<Longrightarrow> \<not> loop_exit sv \<Longrightarrow> bytes \<noteq> [] \<Longrightarrow>
    receive env evb sv c bytes = Inl e \<Longrightarrow> serves env evb sv0 None"
| dumped: "serves env evb sv0 (Some sv) \<Longrightarrow> run_dump env (commands sv) = Inr st \<Longrightarrow>
    serves env evb sv0 (Some (sv\<lparr>commands := st\<rparr>))"
| dump_crashed: "serves env evb sv0 (Some sv) \<Longrightarrow> run_dump env (commands sv) = Inl e \<Longrightarrow> serves env evb sv0 None"

inductive_cases crash_cases: "serves env evb sv0 None"

subsection \<open>Every command keeps the table\<close>

lemma kv_get_keeps:
  assumes "kv_models s kv m" "kv_get s kv k = Inr (s', v)"
  shows "kv_models s' kv m"
proof -
  from assms(2) obtain k' where "k = Some k'" by (cases k) (auto simp: kv_get_def)
  with kv_get_command [OF assms(1), of k'] assms(2) show ?thesis by auto
qed

lemma kv_insert_keeps:
  assumes "kv_models s kv m" "kv_insert s kv k v = Inr (s', p)"
  shows "\<exists>m'. kv_models s' kv m'"
proof -
  from assms(2) obtain k' v' where "k = Some k'" "v = Some v'"
    by (cases k; cases v) (auto simp: kv_insert_def)
  with kv_insert_command [OF assms(1), of k' v'] assms(2) show ?thesis by auto
qed

definition keeps :: "cstate \<Rightarrow> (cstate \<times> cptr) res \<Rightarrow> bool" where
  "keeps st x \<longleftrightarrow> (\<forall>st' r. x = Inr (st', r) \<longrightarrow> kv_table st' = kv_table st \<and> (\<exists>m'. table_models st' m'))"

lemma keepsI: "(\<And>st' r. x = Inr (st', r) \<Longrightarrow> kv_table st' = kv_table st \<and> (\<exists>m'. table_models st' m')) \<Longrightarrow> keeps st x"
  unfolding keeps_def by blast

lemma command_keeps:
  assumes "table_models st m"
  shows "keeps st (cmd_read env st rest)" "keeps st (cmd_write env st rest)" "keeps st (cmd_add env st rest)"
    "keeps st (cmd_jsonadd env st rest)" "keeps st (cmd_jsonread env st rest)" "keeps st (cmd_recvr env st)"
proof -
  have get: "kv_models s1 (kv_table st) m" if "kv_get (kv_store st) (kv_table st) k = Inr (s1, v)" for k s1 v
    by (rule kv_get_keeps [OF assms that])
  show "keeps st (cmd_read env st rest)"
  proof (rule keepsI)
    fix st' r assume "cmd_read env st rest = Inr (st', r)"
    then obtain k s1 v where "kv_get (kv_store st) (kv_table st) k = Inr (s1, v)" "st' = st\<lparr>kv_store := s1\<rparr>"
      by (auto simp: cmd_read_def split: prod.splits)
    with get [OF this(1)] show "kv_table st' = kv_table st \<and> (\<exists>m'. table_models st' m')" by auto
  qed
  show "keeps st (cmd_write env st rest)"
  proof (rule keepsI)
    fix st' r assume run: "cmd_write env st rest = Inr (st', r)"
    obtain k r1 v r2 where t: "strtok rest = (k, r1)" "strtok r1 = (v, r2)" by (cases "strtok rest"; cases "strtok (snd (strtok rest))") auto
    show "kv_table st' = kv_table st \<and> (\<exists>m'. table_models st' m')"
    proof (cases v)
      case None
      with run t assms show ?thesis by (auto simp: cmd_write_def)
    next
      case (Some w)
      with run t obtain s1 p where "kv_insert (kv_store st) (kv_table st) k v = Inr (s1, p)" "st' = st\<lparr>kv_store := s1\<rparr>"
        by (auto simp: cmd_write_def)
      with kv_insert_keeps [OF assms this(1)] show ?thesis by simp
    qed
  qed
  show "keeps st (cmd_add env st rest)"
  proof (rule keepsI)
    fix st' r assume "cmd_add env st rest = Inr (st', r)"
    then obtain k s1 v v' s2 p where "kv_get (kv_store st) (kv_table st) k = Inr (s1, v)"
      "kv_insert s1 (kv_table st) k v' = Inr (s2, p)" "st' = st\<lparr>kv_store := s2\<rparr>"
      by (auto simp: cmd_add_def split: prod.splits)
    with kv_insert_keeps [OF get [OF this(1)]] show "kv_table st' = kv_table st \<and> (\<exists>m'. table_models st' m')" by auto
  qed
  show "keeps st (cmd_jsonadd env st rest)"
  proof (rule keepsI)
    fix st' r assume "cmd_jsonadd env st rest = Inr (st', r)"
    then obtain k s1 v v' s2 p j where "kv_get (kv_store st) (kv_table st) k = Inr (s1, v)"
      "kv_insert s1 (kv_table st) k v' = Inr (s2, p)" "st' = st\<lparr>kv_store := s2, json_state := j\<rparr>"
      by (auto simp: cmd_jsonadd_def split: prod.splits)
    with kv_insert_keeps [OF get [OF this(1)]] show "kv_table st' = kv_table st \<and> (\<exists>m'. table_models st' m')" by auto
  qed
  show "keeps st (cmd_jsonread env st rest)"
  proof (rule keepsI)
    fix st' r assume "cmd_jsonread env st rest = Inr (st', r)"
    then obtain k s1 v j where "kv_get (kv_store st) (kv_table st) k = Inr (s1, v)" "st' = st\<lparr>kv_store := s1, json_state := j\<rparr>"
      by (auto simp: cmd_jsonread_def split: prod.splits)
    with get [OF this(1)] show "kv_table st' = kv_table st \<and> (\<exists>m'. table_models st' m')" by auto
  qed
  show "keeps st (cmd_recvr env st)"
  proof (rule keepsI)
    fix st' r assume "cmd_recvr env st = Inr (st', r)"
    then obtain s where s: "recover (heap env) (dict_lib st) (kv_store st) (kv_table st) = Inr s" "st' = st\<lparr>kv_store := s\<rparr>"
      by (auto simp: cmd_recvr_def)
    from recover_keeps [OF assms, of "heap env" "dict_lib st"] s show "kv_table st' = kv_table st \<and> (\<exists>m'. table_models st' m')" by simp
  qed
qed

lemma command_parser_keeps:
  assumes "table_models st m"
  shows "keeps st (command_parser env st command)"
proof (rule keepsI)
  fix st' r assume run: "command_parser env st command = Inr (st', r)"
  have id: "keeps st (Inr (st, x))" "keeps st (Inr (key_value_dump st, x))" for x
    using assms by (auto simp: keeps_def key_value_dump_def)
  from run obtain cmd buf where c: "command = Some cmd" "L (map_option cstr (fst (strtok cmd))) = Inr buf"
    "(let w = to_nul buf; rest = snd (strtok cmd) in
       if w = ''read'' then cmd_read env st rest
       else if w = ''write'' then cmd_write env st rest
       else if w = ''add'' then cmd_add env st rest
       else if w = ''jsonadd'' then cmd_jsonadd env st rest
       else if w = ''jsonread'' then cmd_jsonread env st rest
       else if w = ''dump'' then Inr (key_value_dump st, Some ''+'')
       else if w = ''recvr'' then cmd_recvr env st
       else Inr (st, Some ''-'')) = Inr (st', r)"
    by (cases command) (auto simp: command_parser_def Let_def split_beta simp del: L.simps)
  have "keeps st (Inr (st', r))"
    unfolding c(3) [symmetric] Let_def by (simp add: command_keeps [OF assms] id)
  then show "kv_table st' = kv_table st \<and> (\<exists>m'. table_models st' m')" unfolding keeps_def by blast
qed

subsection \<open>Properties\<close>

lemma receive_keeps:
  assumes "table_models (commands sv) m" "receive env evb sv c bytes = Inr sv'"
  shows "kv_table (commands sv') = kv_table (commands sv) \<and> (\<exists>m'. table_models (commands sv') m')"
proof (cases "conns sv c")
  case None
  with assms show ?thesis by (auto simp: receive_def)
next
  case (Some bev)
  with assms(2) obtain line r st where "command_parser env (commands sv) line = Inr (st, r)" "commands sv' = st"
    by (auto simp: receive_def echo_read_cb_def split: prod.splits)
  with command_parser_keeps [OF assms(1), of env line] show ?thesis by (auto simp: keeps_def)
qed

lemma serves_keeps:
  assumes "serves env evb sv0 so" "table_models (commands sv0) m0"
  shows "so = Some sv \<Longrightarrow> kv_table (commands sv) = kv_table (commands sv0) \<and> (\<exists>m. table_models (commands sv) m)"
  using assms
proof (induction so arbitrary: sv rule: serves.induct)
  case (received sv1 bytes c sv')
  then obtain m where "table_models (commands sv1) m" "kv_table (commands sv1) = kv_table (commands sv0)" by auto
  with receive_keeps [OF this(1) received.hyps(4)] received.prems show ?case by auto
next
  case (dumped sv1 st)
  from dumped.hyps(2) have "kv_store st = kv_store (commands sv1)" "kv_table st = kv_table (commands sv1)"
    by (auto simp: run_dump_def split: list.splits)
  with dumped.IH [OF refl dumped.prems(2)] dumped.prems(1) show ?case by auto
qed (auto simp: accept_conn_cb_def accept_error_cb_def echo_event_cb_def)

text \<open>
  What the code relies on in \<open>evbuffer_readln\<close> with \<open>EVBUFFER_EOL_CRLF\<close>: a line that is complete is
  returned without its end, and no line is returned from a buffer without a line feed. \<open>crlf_lines\<close> is an
  instance.
\<close>

definition line_reader :: "evbuf \<Rightarrow> bool" where
  "line_reader evb \<longleftrightarrow>
     (\<forall>s. CHR 0x0A \<notin> set s \<longrightarrow> readln evb s = (None, s)) \<and>
     (\<forall>l rest. CHR 0x0A \<notin> set l \<and> CHR 0x0D \<notin> set l \<longrightarrow> readln evb (l @ CHR 0x0D # CHR 0x0A # rest) = (Some l, rest))"

definition crlf_lines :: evbuf where
  "crlf_lines = \<lparr>readln = (\<lambda>s. if CHR 0x0A \<in> set s
       then let l = takeWhile (\<lambda>c. c \<noteq> CHR 0x0A) s
            in (Some (if l \<noteq> [] \<and> last l = CHR 0x0D then butlast l else l), tl (dropWhile (\<lambda>c. c \<noteq> CHR 0x0A) s))
       else (None, s)), evb_add = (\<lambda>out r. out @ r)\<rparr>"

lemma crlf_lines_reader: "line_reader crlf_lines"
proof -
  have "takeWhile (\<lambda>c. c \<noteq> CHR 0x0A) (l @ CHR 0x0D # CHR 0x0A # rest) = l @ [CHR 0x0D]"
    "dropWhile (\<lambda>c. c \<noteq> CHR 0x0A) (l @ CHR 0x0D # CHR 0x0A # rest) = CHR 0x0A # rest"
    if "CHR 0x0A \<notin> set l" for l rest
    using that by (induction l) auto
  then show ?thesis by (simp add: line_reader_def crlf_lines_def)
qed

text \<open>
  A complete line gets its reply and nothing more: the first line of the input is taken off, the reply of
  \<open>command_parser\<close> is added to the output, and further lines that are already there stay
  in the buffer until more bytes arrive.
\<close>

lemma one_line_per_call:
  assumes "line_reader evb" "conns sv c = Some bev" "in_buf bev @ bytes = l @ CHR 0x0D # CHR 0x0A # rest"
    and "CHR 0x0A \<notin> set l \<and> CHR 0x0D \<notin> set l" "command_parser env (commands sv) (Some l) = Inr (st, Some r)"
  shows "receive env evb sv c bytes =
    Inr (sv\<lparr>commands := st, conns := (conns sv)(c \<mapsto> bev\<lparr>in_buf := rest, out_buf := evb_add evb (out_buf bev) r\<rparr>)\<rparr>)"
  using assms by (simp add: receive_def echo_read_cb_def line_reader_def)

lemma started:
  assumes "tcp_start_up base_ok bind_ok st = Dispatching a sv"
  shows "commands sv = st" "conns sv = (\<lambda>_. None)" "\<not> loop_exit sv"
  using assms by (auto simp: tcp_start_up_def split: if_splits)

lemma demo_server:
  obtains sv :: server where "table_models (commands sv) Map.empty" "conns sv = (\<lambda>_. None)" "\<not> loop_exit sv"
proof -
  obtain st where st: "table_models st Map.empty" by (rule empty_state)
  obtain sv where "tcp_start_up True (\<lambda>_. True) st = Dispatching listen_address sv" by (simp add: tcp_start_up_def)
  from started [OF this] st that [of sv] show thesis by simp
qed

text \<open>
  C13: Whatever connections are made, whatever bytes arrive on them and in whichever order, and whenever
  the dump threads run: in every state the server reaches before it crashes, the table is well formed and stands for a finite map.
\<close>

theorem server_invariant:
  assumes "serves env evb sv0 (Some sv)" "table_models (commands sv0) m0"
  shows "\<exists>m. table_models (commands sv) m"
  using serves_keeps [OF assms refl] by blast

theorem server_invariant_witness:
  "\<exists>sv sv' m. serves demo_env crlf_lines sv (Some sv') \<and> conns sv' 7 = Some \<lparr>in_buf = [], out_buf = ''+''\<rparr> \<and>
    table_models (commands sv') m"
proof -
  obtain sv :: server where sv: "table_models (commands sv) Map.empty" "conns sv = (\<lambda>_. None)" "\<not> loop_exit sv" by (rule demo_server)
  let ?sv1 = "accept_conn_cb sv 7"
  have s1: "serves demo_env crlf_lines sv (Some ?sv1)" by (rule serves.accepted [OF serves.start sv(3)]) (simp add: sv(2))
  have "request_of (tokens ''write k v'') = Some (Write ''k'' ''v'')" by (simp add: tokens_def spells_def)
  from command_replies [OF sv(1) _ this, of demo_env] obtain st where
    st: "command_parser demo_env (commands sv) (Some ''write k v'') = Inr (st, Some ''+'')" by (auto simp: replies_def)
  have "receive demo_env crlf_lines ?sv1 7 (''write k v'' @ [CHR 0x0D, CHR 0x0A]) =
      Inr (?sv1\<lparr>commands := st, conns := (conns ?sv1)(7 \<mapsto> \<lparr>in_buf = [], out_buf = []\<rparr>\<lparr>in_buf := [], out_buf := evb_add crlf_lines [] ''+''\<rparr>)\<rparr>)"
    using one_line_per_call [OF crlf_lines_reader, of ?sv1 7 "\<lparr>in_buf = [], out_buf = []\<rparr>" "''write k v'' @ [CHR 0x0D, CHR 0x0A]" "''write k v''" "[]" demo_env st "''+''"] st
    by (simp add: accept_conn_cb_def)
  from serves.received [OF s1 _ _ this] sv(3) obtain sv' where sv': "serves demo_env crlf_lines sv (Some sv')"
    "conns sv' 7 = Some \<lparr>in_buf = [], out_buf = ''+''\<rparr>" by (auto simp: accept_conn_cb_def crlf_lines_def)
  with server_invariant [OF sv'(1) sv(1)] show ?thesis by blast
qed

text \<open>
  Bytes without a line feed crash the server: the read callback passes the \<open>NULL\<close> that
  \<open>evbuffer_readln\<close> returns to \<open>command_parser\<close>.
\<close>

lemma partial_line_crashes:
  assumes "line_reader evb" "serves env evb sv0 (Some sv)" "\<not> loop_exit sv" "conns sv c = Some bev"
    and "bytes \<noteq> []" "CHR 0x0A \<notin> set (in_buf bev @ bytes)"
  shows "receive env evb sv c bytes = Inl NullDeref \<and> serves env evb sv0 None"
proof -
  have "receive env evb sv c bytes = Inl NullDeref"
    using assms(1,4,6) by (simp add: receive_def echo_read_cb_def line_reader_def command_parser_def)
  with serves.crashed [OF assms(2,3,5)] show ?thesis by blast
qed

lemma partial_line_crashes_witness:
  "\<exists>sv. receive demo_env crlf_lines (accept_conn_cb sv 7) 7 ''read'' = Inl NullDeref \<and> serves demo_env crlf_lines sv None"
proof -
  obtain sv :: server where sv: "table_models (commands sv) Map.empty" "conns sv = (\<lambda>_. None)" "\<not> loop_exit sv" by (rule demo_server)
  let ?sv1 = "accept_conn_cb sv 7"
  have s1: "serves demo_env crlf_lines sv (Some ?sv1)" by (rule serves.accepted [OF serves.start sv(3)]) (simp add: sv(2))
  have "receive demo_env crlf_lines ?sv1 7 ''read'' = Inl NullDeref \<and> serves demo_env crlf_lines sv None"
    by (rule partial_line_crashes [OF crlf_lines_reader s1, of 7 "\<lparr>in_buf = [], out_buf = []\<rparr>"])
      (use sv(3) in \<open>simp_all add: accept_conn_cb_def\<close>)
  then show ?thesis by blast
qed

end
