(* ===== verification/Test_Driver.thy ===== *)
theory Test_Driver
  imports Trie_Tree
begin

text \<open>
  \<open>Test.c\<close>: the program's own \<open>main\<close>, which stores three words in a trie and looks one of them up, the
  test of the key-value store and the random strings. The words are literals of bytes in the GBK
  encoding. \<open>rand\<close> is a parameter: \<open>rnd i\<close> is the result of its \<open>i\<close>-th call after seeding.
\<close>

definition gbk_software :: string where
  "gbk_software = [CHR 0xC8, CHR 0xED, CHR 0xBC, CHR 0xFE]"

definition gbk_engineering :: string where
  "gbk_engineering = [CHR 0xB9, CHR 0xA4, CHR 0xB3, CHR 0xCC]"

definition gbk_development :: string where
  "gbk_development = [CHR 0xBF, CHR 0xAA, CHR 0xB7, CHR 0xA2]"

text \<open>\<open>main\<close> up to \<open>getchar\<close>, from an empty memory: the memory after each of the stores and the result of the lookup.\<close>

definition main_saves :: "(nstate \<times> ptr) res" where
  "main_saves =
     rbind (create_root_trie empty_store) (\<lambda>(s0, root).
     rbind (trie_save s0 root gbk_software (Some ''0.03'')) (\<lambda>(s1, _).
     rbind (trie_save s1 root (gbk_software @ gbk_engineering) (Some ''0.025'')) (\<lambda>(s2, _).
     Inr (s2, root))))"

definition main_prog :: "(nstate \<times> cptr) res" where
  "main_prog =
     rbind main_saves (\<lambda>(s2, root).
     rbind (trie_save s2 root (gbk_software @ gbk_development) (Some ''no data'')) (\<lambda>(s3, _).
     trie_get s3 root (gbk_software @ gbk_engineering)))"

definition key_value_test :: "(nstate \<times> cptr) res" where
  "key_value_test =
     rbind (kv_init empty_store) (\<lambda>(s0, kv).
     rbind (kv_insert s0 kv (Some ''Hello'') (Some ''World'')) (\<lambda>(s1, _).
     kv_get s1 kv (Some ''Hello'')))"

text \<open>\<open>rand_str\<close>; \<open>ok\<close> says whether \<open>malloc\<close> succeeds. The result of \<open>rand\<close> is not negative.\<close>

definition rand_str :: "bool \<Rightarrow> (nat \<Rightarrow> nat) \<Rightarrow> nat \<Rightarrow> cptr" where
  "rand_str ok rnd in_len = (if \<not> ok then None else Some (map (\<lambda>i. char_of (rnd i mod 94 + 32)) [0..<in_len]))"

subsection \<open>What the tests do\<close>

definition fault_of :: "'a res \<Rightarrow> fault option" where
  "fault_of m = (case m of Inl e \<Rightarrow> Some e | Inr x \<Rightarrow> None)"

lemma key_value_test_result: "\<exists>s. key_value_test = Inr (s, Some ''World'')"
proof -
  obtain s p where s: "kv_init empty_store = Inr (s, p)" "kv_models s p Map.empty" by (rule kv_models_init)
  from kv_map.get_put [OF s(2), of "''Hello''" "''World''"] obtain s1 s2 where
    "kv_put p s ''Hello'' ''World'' = Inr s1" "kv_read p s1 ''Hello'' = Inr (s2, ''World'')" by blast
  then show ?thesis
    using s(1) by (auto simp: key_value_test_def kv_put_def kv_read_def rbind_eq_Inr elim!: the_str.elims)
qed

lemma rand_str_printable:
  assumes "rand_str True rnd n = Some w"
  shows "length w = n" "\<forall>c\<in>set w. CHR '' '' \<le> c \<and> c \<le> CHR 0x7D"
proof -
  have "\<forall>d\<in>set [0..<94]. CHR '' '' \<le> char_of (d + 32 :: nat) \<and> char_of (d + 32 :: nat) \<le> CHR 0x7D"
    by code_simp
  then have "CHR '' '' \<le> char_of (i mod 94 + 32 :: nat) \<and> char_of (i mod 94 + 32 :: nat) \<le> CHR 0x7D" for i :: nat
    by simp
  with assms show "length w = n" "\<forall>c\<in>set w. CHR '' '' \<le> c \<and> c \<le> CHR 0x7D"
    by (auto simp: rand_str_def)
qed

subsection \<open>Property\<close>


end
