(* ===== verification/Exceptions.thy ===== *)
theory Exceptions
  imports Prelude
begin

text \<open>
  The exceptions of \<open>except.h\<close> and \<open>except.c\<close> over \<open>setjmp\<close> and \<open>longjmp\<close>. A statement is a function on
  the program's state and the stack of active frames; it ends normally, or a \<open>longjmp\<close> to the frame that
  was on top of the stack, with that frame's record of the exception, is under way. \<open>TRY\<close> with
  \<open>FINALLY\<close> and \<open>END_TRY\<close> is modelled with the name \<open>Except_frame\<close> where the macro says
  \<open>Except_fame\<close>. The macros \<open>EXCEPT\<close> and \<open>ELSE\<close> open one brace more than they close and cannot be part of
  a program.
\<close>

subsection \<open>Definitions\<close>

type_synonym except_t = string

record except_frame =
  exception :: "except_t option"
  except_file :: cptr
  except_line :: int

datatype flow = Normal | Jump except_frame

type_synonym 's stmt = "'s \<Rightarrow> except_frame list \<Rightarrow> ('s \<times> except_frame list \<times> flow) res"

definition new_frame :: except_frame where
  "new_frame = \<lparr>exception = None, except_file = None, except_line = 0\<rparr>"

text \<open>\<open>Except_raise\<close>: without a frame the program is aborted.\<close>

definition Except_raise :: "except_t option \<Rightarrow> cptr \<Rightarrow> int \<Rightarrow> 's stmt" where
  "Except_raise e f ln s stack =
     (if e = None then Inl Aborted
      else case stack of
        [] \<Rightarrow> Inl Aborted
      | p # rest \<Rightarrow> Inr (s, rest, Jump (p\<lparr>exception := e, except_file := f, except_line := ln\<rparr>)))"

text \<open>\<open>TRY S FINALLY F END_TRY\<close>\<close>

definition try_finally :: "'s stmt \<Rightarrow> 's stmt \<Rightarrow> 's stmt" where
  "try_finally body final s stack =
     rbind (body s (new_frame # stack)) (\<lambda>(s1, stack1, fl).
       case fl of
         Normal \<Rightarrow> final s1 (tl stack1)
       | Jump frame \<Rightarrow>
           rbind (final s1 stack1) (\<lambda>(s2, stack2, fl2).
             case fl2 of
               Normal \<Rightarrow> Except_raise (exception frame) (except_file frame) (except_line frame) s2 stack2
             | Jump frame2 \<Rightarrow> Inr (s2, stack2, Jump frame2)))"

text \<open>\<open>TRY S END_TRY\<close>\<close>

definition try_end :: "'s stmt \<Rightarrow> 's stmt" where
  "try_end body s stack =
     rbind (body s (new_frame # stack)) (\<lambda>(s1, stack1, fl).
       case fl of
         Normal \<Rightarrow> Inr (s1, tl stack1, Normal)
       | Jump frame \<Rightarrow> Except_raise (exception frame) (except_file frame) (except_line frame) s1 stack1)"

text \<open>\<open>RETURN\<close> inside a \<open>TRY\<close> block pops the frame first.\<close>

definition pop_return :: "'s stmt" where
  "pop_return s stack = (case stack of [] \<Rightarrow> Inl NullDeref | p # rest \<Rightarrow> Inr (s, rest, Normal))"

subsection \<open>Stack discipline\<close>

text \<open>
  \<open>stack_ok\<close>: a statement leaves the stack as it was, or jumps to the top frame with that frame
  popped and an exception recorded.
\<close>

definition stack_ok :: "'s stmt \<Rightarrow> bool" where
  "stack_ok st \<longleftrightarrow> (\<forall>s stack s' stack' fl. st s stack = Inr (s', stack', fl) \<longrightarrow>
     (case fl of Normal \<Rightarrow> stack' = stack | Jump fr \<Rightarrow> stack \<noteq> [] \<and> stack' = tl stack \<and> exception fr \<noteq> None))"

lemma stack_okD:
  "stack_ok st \<Longrightarrow> st s stack = Inr (s', stack', Normal) \<Longrightarrow> stack' = stack"
  "stack_ok st \<Longrightarrow> st s stack = Inr (s', stack', Jump fr) \<Longrightarrow> stack \<noteq> [] \<and> stack' = tl stack \<and> exception fr \<noteq> None"
  unfolding stack_ok_def by fastforce+

lemma stack_ok_raise: "stack_ok (Except_raise e f ln)"
  by (auto simp: stack_ok_def Except_raise_def split: list.splits)

lemma stack_ok_try_end:
  assumes "stack_ok body"
  shows "stack_ok (try_end body)"
  unfolding stack_ok_def try_end_def
  by (auto split: flow.splits prod.splits dest!: stack_okD [OF assms] simp: Except_raise_def split: list.splits if_splits)

lemma stack_ok_try_finally:
  assumes body: "stack_ok body" and final: "stack_ok final"
  shows "stack_ok (try_finally body final)"
  unfolding stack_ok_def
proof (intro allI impI)
  fix s stack s' stack' fl
  assume run: "try_finally body final s stack = Inr (s', stack', fl)"
  then obtain s1 stack1 fl1 where b: "body s (new_frame # stack) = Inr (s1, stack1, fl1)"
    by (auto simp: try_finally_def)
  show "case fl of Normal \<Rightarrow> stack' = stack | Jump fr \<Rightarrow> stack \<noteq> [] \<and> stack' = tl stack \<and> exception fr \<noteq> None"
  proof (cases fl1)
    case Normal
    with b have b': "body s (new_frame # stack) = Inr (s1, stack1, Normal)" by simp
    from stack_okD(1) [OF body this] run b' have "final s1 stack = Inr (s', stack', fl)" by (simp add: try_finally_def)
    with final show ?thesis unfolding stack_ok_def by blast
  next
    case (Jump fr)
    with b stack_okD(2) [OF body, of s "new_frame # stack"] have s1: "stack1 = stack" "exception fr \<noteq> None" by auto
    with b Jump run obtain s2 stack2 fl2 where f: "final s1 stack = Inr (s2, stack2, fl2)"
      and r: "(case fl2 of Normal \<Rightarrow> Except_raise (exception fr) (except_file fr) (except_line fr) s2 stack2
             | Jump frame2 \<Rightarrow> Inr (s2, stack2, Jump frame2)) = Inr (s', stack', fl)"
      by (auto simp: try_finally_def)
    show ?thesis
    proof (cases fl2)
      case Normal
      with f stack_okD(1) [OF final] have "stack2 = stack" by auto
      with Normal r have "Except_raise (exception fr) (except_file fr) (except_line fr) s2 stack = Inr (s', stack', fl)" by simp
      then show ?thesis by (rule stack_ok_raise [unfolded stack_ok_def, rule_format])
    next
      case (Jump fr2)
      with f final have "case Jump fr2 of Normal \<Rightarrow> stack2 = stack | Jump fr \<Rightarrow> stack \<noteq> [] \<and> stack2 = tl stack \<and> exception fr \<noteq> None"
        unfolding stack_ok_def by blast
      with Jump r show ?thesis by auto
    qed
  qed
qed

text \<open>The exception that leaves a \<open>TRY\<close> block is the one its body raised, with its place.\<close>

lemma try_end_reraises:
  assumes "stack_ok body" "body s (new_frame # p # stack) = Inr (s1, stack1, Jump fr)"
  shows "try_end body s (p # stack) =
    Inr (s1, stack, Jump (p\<lparr>exception := exception fr, except_file := except_file fr, except_line := except_line fr\<rparr>))"
  using stack_okD(2) [OF assms] assms(2) by (auto simp: try_end_def Except_raise_def)

text \<open>An exception outside of every \<open>TRY\<close> block aborts the program.\<close>

lemma uncaught_aborts: "Except_raise e f ln s [] = Inl Aborted"
  by (simp add: Except_raise_def)

end
