(* ===== verification/File_Service.thy ===== *)
theory File_Service
  imports Lock_Free_Queue
begin

text \<open>
  \<open>file_service_thread.h\<close> and \<open>file_service_thread.c\<close>: the structures of a file service with a queue for
  writes and one for reads, and functions that are stubs. \<open>read\<close> and \<open>write\<close> are declared
  and never defined.
\<close>

record 'q file_service =
  write_queen :: 'q
  read_queen :: 'q

record file_struct =
  next_pos :: int
  fs_key :: "string"
  fs_value :: "string"

text \<open>The arrays of \<open>struct _file_struct\<close> hold 20 bytes each, terminator included.\<close>

definition file_struct_ok :: "file_struct \<Rightarrow> bool" where
  "file_struct_ok f \<longleftrightarrow> length (fs_key f) < 20 \<and> length (fs_value f) < 20"

definition init_file_service :: int where "init_file_service = 1"

definition restruct_key_value :: int where "restruct_key_value = 1"

definition service_proc :: "'s \<Rightarrow> 's" where "service_proc s = s"

end
