(* ===== verification/Cstl_List.thy ===== *)
theory Cstl_List
  imports Prelude
begin

text \<open>
  The doubly linked list of \<open>cstl/list.h\<close> (\<open>CSTL_LIST_IMPLEMENT (Name, Type)\<close>, which
  \<open>trie-tree.c\<close> instantiates as \<open>CharList\<close>), for an arbitrary element type.

  A list is a circle of nodes through a sentinel, the list's own address.  The heap keeps the three
  fields of every node in a function of the address, and which addresses are allocated; the
  fields of a node just allocated are whatever the functions hold there, so nothing is assumed of
  uninitialised memory.  Every access checks its address: \<open>NULL\<close> is 0 and faults, an address
  that is not allocated (any more) faults as a use after free.  Addresses are not reused.
  \<open>room\<close> is the number of calls of \<open>malloc\<close> that will still succeed.
  The assertions and magic numbers of the source expand to nothing (\<open>cstl/common.h\<close>).

  \<open>dlist h s ps\<close> is the abstraction: the list with sentinel \<open>s\<close> consists of the nodes
  \<open>ps\<close> in this order, linked in both directions.
\<close>

subsection \<open>The heap\<close>

record 'a lheap =
  nxt :: "nat \<Rightarrow> nat"
  prv :: "nat \<Rightarrow> nat"
  dat :: "nat \<Rightarrow> 'a"
  live :: "nat \<Rightarrow> bool"
  brk :: nat
  room :: nat

definition acc :: "'a lheap \<Rightarrow> nat \<Rightarrow> 'b \<Rightarrow> 'b res" where
  "acc h a r = (if live h a then Inr r else Inl (if a = 0 then NullDeref else UseAfterFree))"

definition rd_next :: "'a lheap \<Rightarrow> nat \<Rightarrow> nat res" where
  "rd_next h a = acc h a (nxt h a)"

definition rd_prev :: "'a lheap \<Rightarrow> nat \<Rightarrow> nat res" where
  "rd_prev h a = acc h a (prv h a)"

definition rd_data :: "'a lheap \<Rightarrow> nat \<Rightarrow> 'a res" where
  "rd_data h a = acc h a (dat h a)"

definition wr_next :: "'a lheap \<Rightarrow> nat \<Rightarrow> nat \<Rightarrow> 'a lheap res" where
  "wr_next h a b = acc h a (h\<lparr>nxt := (nxt h)(a := b)\<rparr>)"

definition wr_prev :: "'a lheap \<Rightarrow> nat \<Rightarrow> nat \<Rightarrow> 'a lheap res" where
  "wr_prev h a b = acc h a (h\<lparr>prv := (prv h)(a := b)\<rparr>)"

definition wr_data :: "'a lheap \<Rightarrow> nat \<Rightarrow> 'a \<Rightarrow> 'a lheap res" where
  "wr_data h a x = acc h a (h\<lparr>dat := (dat h)(a := x)\<rparr>)"

text \<open>A variable of the caller's stack frame (always there), \<open>malloc\<close> and \<open>free\<close>.\<close>

definition local_node :: "'a lheap \<Rightarrow> nat \<times> 'a lheap" where
  "local_node h = (brk h, h\<lparr>live := (live h)(brk h := True), brk := brk h + 1\<rparr>)"

definition malloc_node :: "'a lheap \<Rightarrow> nat \<times> 'a lheap" where
  "malloc_node h = (if room h = 0 then (0, h) else
     (brk h, h\<lparr>live := (live h)(brk h := True), brk := brk h + 1, room := room h - 1\<rparr>))"

definition drop_node :: "'a lheap \<Rightarrow> nat \<Rightarrow> 'a lheap" where
  "drop_node h a = h\<lparr>live := (live h)(a := False)\<rparr>"

definition free_node :: "'a lheap \<Rightarrow> nat \<Rightarrow> 'a lheap res" where
  "free_node h a = (if a = 0 then Inr h else if live h a then Inr (drop_node h a) else Inl BadFree)"

subsection \<open>Creating, inserting, erasing\<close>

definition list_new :: "'a lheap \<Rightarrow> (nat \<times> 'a lheap) res" where
  "list_new h = (let (self, h1) = malloc_node h in
     if self = 0 then Inr (0, h1) else
     rbind (wr_next h1 self self) (\<lambda>h2.
     rbind (wr_prev h2 self self) (\<lambda>h3. Inr (self, h3))))"

definition list_insert_ref :: "'a lheap \<Rightarrow> nat \<Rightarrow> nat \<Rightarrow> 'a \<Rightarrow> (nat \<times> 'a lheap) res" where
  "list_insert_ref h self pos x = (let (node, h1) = malloc_node h in
     if node = 0 then Inr (0, h1) else
     rbind (wr_data h1 node x) (\<lambda>h2.
     rbind (wr_next h2 node pos) (\<lambda>h3.
     rbind (rd_prev h3 pos) (\<lambda>pp.
     rbind (wr_prev h3 node pp) (\<lambda>h4.
     rbind (wr_prev h4 pos node) (\<lambda>h5.
     rbind (rd_prev h5 node) (\<lambda>np.
     rbind (wr_next h5 np node) (\<lambda>h6. Inr (node, h6)))))))))"

definition list_insert :: "'a lheap \<Rightarrow> nat \<Rightarrow> nat \<Rightarrow> 'a \<Rightarrow> (nat \<times> 'a lheap) res" where
  "list_insert h self pos x = list_insert_ref h self pos x"

definition list_push_back_ref :: "'a lheap \<Rightarrow> nat \<Rightarrow> 'a \<Rightarrow> (bool \<times> 'a lheap) res" where
  "list_push_back_ref h self x =
     rbind (list_insert_ref h self self x) (\<lambda>(n, h1). Inr (n \<noteq> 0, h1))"

definition list_push_front_ref :: "'a lheap \<Rightarrow> nat \<Rightarrow> 'a \<Rightarrow> (bool \<times> 'a lheap) res" where
  "list_push_front_ref h self x = rbind (rd_next h self) (\<lambda>b.
     rbind (list_insert_ref h self b x) (\<lambda>(n, h1). Inr (n \<noteq> 0, h1)))"

definition list_push_back :: "'a lheap \<Rightarrow> nat \<Rightarrow> 'a \<Rightarrow> (bool \<times> 'a lheap) res" where
  "list_push_back h self x =
     rbind (list_insert_ref h self self x) (\<lambda>(n, h1). Inr (n \<noteq> 0, h1))"

definition list_push_front :: "'a lheap \<Rightarrow> nat \<Rightarrow> 'a \<Rightarrow> (bool \<times> 'a lheap) res" where
  "list_push_front h self x = rbind (rd_next h self) (\<lambda>b.
     rbind (list_insert_ref h self b x) (\<lambda>(n, h1). Inr (n \<noteq> 0, h1)))"

definition list_erase :: "'a lheap \<Rightarrow> nat \<Rightarrow> nat \<Rightarrow> (nat \<times> 'a lheap) res" where
  "list_erase h self pos =
     rbind (rd_next h pos) (\<lambda>node.
     rbind (rd_prev h pos) (\<lambda>pp.
     rbind (rd_next h pos) (\<lambda>pn.
     rbind (wr_next h pp pn) (\<lambda>h1.
     rbind (rd_next h1 pos) (\<lambda>pn1.
     rbind (rd_prev h1 pos) (\<lambda>pp1.
     rbind (wr_prev h1 pn1 pp1) (\<lambda>h2.
     rbind (free_node h2 pos) (\<lambda>h3. Inr (node, h3)))))))))"

definition list_pop_front :: "'a lheap \<Rightarrow> nat \<Rightarrow> 'a lheap res" where
  "list_pop_front h self = rbind (rd_next h self) (\<lambda>b.
     rbind (list_erase h self b) (\<lambda>(_, h1). Inr h1))"

definition list_pop_back :: "'a lheap \<Rightarrow> nat \<Rightarrow> 'a lheap res" where
  "list_pop_back h self = rbind (rd_prev h self) (\<lambda>b.
     rbind (list_erase h self b) (\<lambda>(_, h1). Inr h1))"

text \<open>\<open>while (pos != last) pos = erase (self, pos)\<close>; the fuel is the number of addresses
  ever allocated.\<close>

fun erase_loop :: "nat \<Rightarrow> 'a lheap \<Rightarrow> nat \<Rightarrow> nat \<Rightarrow> nat \<Rightarrow> (nat \<times> 'a lheap) res" where
  "erase_loop 0 h self pos last' = (if pos = last' then Inr (pos, h) else Inl OutOfFuel)"
| "erase_loop (Suc n) h self pos last' = (if pos = last' then Inr (pos, h) else
     rbind (list_erase h self pos) (\<lambda>(p, h1). erase_loop n h1 self p last'))"

definition list_erase_range :: "'a lheap \<Rightarrow> nat \<Rightarrow> nat \<Rightarrow> nat \<Rightarrow> (nat \<times> 'a lheap) res" where
  "list_erase_range h self first last' = erase_loop (brk h) h self first last'"

definition list_clear :: "'a lheap \<Rightarrow> nat \<Rightarrow> 'a lheap res" where
  "list_clear h self = rbind (rd_next h self) (\<lambda>b.
     rbind (list_erase_range h self b self) (\<lambda>(_, h1). Inr h1))"

definition list_delete :: "'a lheap \<Rightarrow> nat \<Rightarrow> 'a lheap res" where
  "list_delete h self = (if self = 0 then Inr h else
     rbind (list_clear h self) (\<lambda>h1. free_node h1 self))"

subsection \<open>Observers and iterators\<close>

definition list_empty :: "'a lheap \<Rightarrow> nat \<Rightarrow> bool res" where
  "list_empty h self = rbind (rd_next h self) (\<lambda>b. Inr (b = self))"

fun size_loop :: "nat \<Rightarrow> 'a lheap \<Rightarrow> nat \<Rightarrow> nat \<Rightarrow> nat \<Rightarrow> nat res" where
  "size_loop 0 h self pos count = (if pos = self then Inr count else Inl OutOfFuel)"
| "size_loop (Suc n) h self pos count = (if pos = self then Inr count else
     rbind (rd_next h pos) (\<lambda>p. size_loop n h self p (count + 1)))"

definition list_size :: "'a lheap \<Rightarrow> nat \<Rightarrow> nat res" where
  "list_size h self = rbind (rd_next h self) (\<lambda>b. size_loop (brk h) h self b 0)"

text \<open>\<open>&pos->data\<close> is taken without an access; the model returns the address of the node
  whose data field it is.\<close>

definition list_data :: "nat \<Rightarrow> nat" where
  "list_data pos = pos"

definition list_front :: "'a lheap \<Rightarrow> nat \<Rightarrow> nat res" where
  "list_front h self = rd_next h self"

definition list_back :: "'a lheap \<Rightarrow> nat \<Rightarrow> nat res" where
  "list_back h self = rd_prev h self"

definition list_begin :: "'a lheap \<Rightarrow> nat \<Rightarrow> nat res" where
  "list_begin h self = rd_next h self"

definition list_end :: "nat \<Rightarrow> nat" where
  "list_end self = self"

definition list_rbegin :: "'a lheap \<Rightarrow> nat \<Rightarrow> nat res" where
  "list_rbegin h self = rd_prev h self"

definition list_rend :: "nat \<Rightarrow> nat" where
  "list_rend self = self"

definition list_next :: "'a lheap \<Rightarrow> nat \<Rightarrow> nat res" where
  "list_next h pos = rd_next h pos"

definition list_prev :: "'a lheap \<Rightarrow> nat \<Rightarrow> nat res" where
  "list_prev h pos = rd_prev h pos"


subsection \<open>Whole-list operations\<close>

text \<open>\<open>x.next = &x; x.prev = &x\<close> for a list that is a local variable.\<close>

definition local_list :: "'a lheap \<Rightarrow> (nat \<times> 'a lheap) res" where
  "local_list h = (let (x, h1) = local_node h in
     rbind (wr_next h1 x x) (\<lambda>h2.
     rbind (wr_prev h2 x x) (\<lambda>h3. Inr (x, h3))))"

definition list_splice :: "'a lheap \<Rightarrow> nat \<Rightarrow> nat \<Rightarrow> nat \<Rightarrow> nat \<Rightarrow> nat \<Rightarrow> 'a lheap res" where
  "list_splice h self pos x first last' = (if first = last' \<or> pos = last' then Inr h else
     rbind (rd_prev h pos) (\<lambda>pp.
     rbind (wr_next h pp first) (\<lambda>h1.
     rbind (rd_prev h1 first) (\<lambda>tmp.
     rbind (rd_prev h1 pos) (\<lambda>pp1.
     rbind (wr_prev h1 first pp1) (\<lambda>h2.
     rbind (wr_next h2 tmp last') (\<lambda>h3.
     rbind (rd_prev h3 last') (\<lambda>lp.
     rbind (wr_prev h3 pos lp) (\<lambda>h4.
     rbind (rd_prev h4 last') (\<lambda>lp1.
     rbind (wr_next h4 lp1 pos) (\<lambda>h5. wr_prev h5 last' tmp)))))))))))"

text \<open>The common loop of the bulk insertions: append each value to the local list \<open>x\<close>; on a
  failed allocation clear it and give up.\<close>

fun fill_loop :: "'a lheap \<Rightarrow> nat \<Rightarrow> 'a list \<Rightarrow> (bool \<times> 'a lheap) res" where
  "fill_loop h x [] = Inr (True, h)"
| "fill_loop h x (d # ds) = rbind (list_insert_ref h x x d) (\<lambda>(n, h1).
     if n = 0 then rbind (list_clear h1 x) (\<lambda>h2. Inr (False, h2))
     else fill_loop h1 x ds)"

definition list_insert_values :: "'a lheap \<Rightarrow> nat \<Rightarrow> nat \<Rightarrow> 'a list \<Rightarrow> (bool \<times> 'a lheap) res" where
  "list_insert_values h self pos ds = rbind (local_list h) (\<lambda>(x, h1).
     rbind (fill_loop h1 x ds) (\<lambda>(ok, h2).
       if \<not> ok then Inr (False, drop_node h2 x) else
       rbind (rd_next h2 x) (\<lambda>b.
       rbind (list_splice h2 self pos x b x) (\<lambda>h3. Inr (True, drop_node h3 x)))))"

definition list_insert_n_ref :: "'a lheap \<Rightarrow> nat \<Rightarrow> nat \<Rightarrow> nat \<Rightarrow> 'a \<Rightarrow> (bool \<times> 'a lheap) res" where
  "list_insert_n_ref h self pos n x = list_insert_values h self pos (replicate n x)"

definition list_insert_n :: "'a lheap \<Rightarrow> nat \<Rightarrow> nat \<Rightarrow> nat \<Rightarrow> 'a \<Rightarrow> (bool \<times> 'a lheap) res" where
  "list_insert_n h self pos n x = list_insert_n_ref h self pos n x"

text \<open>\<open>data\<close> points to an array of which the first \<open>n\<close> elements are read.\<close>

definition list_insert_array :: "'a lheap \<Rightarrow> nat \<Rightarrow> nat \<Rightarrow> 'a list \<Rightarrow> nat \<Rightarrow> (bool \<times> 'a lheap) res" where
  "list_insert_array h self pos data n = (if length data < n then Inl OutOfBounds
     else list_insert_values h self pos (take n data))"

text \<open>\<open>insert_range\<close> reads each node of \<open>[first, last)\<close> just before it appends the copy.\<close>

fun range_loop :: "nat \<Rightarrow> 'a lheap \<Rightarrow> nat \<Rightarrow> nat \<Rightarrow> nat \<Rightarrow> (bool \<times> 'a lheap) res" where
  "range_loop 0 h x i last' = (if i = last' then Inr (True, h) else Inl OutOfFuel)"
| "range_loop (Suc n) h x i last' = (if i = last' then Inr (True, h) else
     rbind (rd_data h i) (\<lambda>d.
     rbind (list_insert_ref h x x d) (\<lambda>(node, h1).
       if node = 0 then rbind (list_clear h1 x) (\<lambda>h2. Inr (False, h2))
       else rbind (rd_next h1 i) (\<lambda>i'. range_loop n h1 x i' last'))))"

definition list_insert_range ::
  "'a lheap \<Rightarrow> nat \<Rightarrow> nat \<Rightarrow> nat \<Rightarrow> nat \<Rightarrow> (bool \<times> 'a lheap) res" where
  "list_insert_range h self pos first last' = rbind (local_list h) (\<lambda>(x, h1).
     rbind (range_loop (brk h) h1 x first last') (\<lambda>(ok, h2).
       if \<not> ok then Inr (False, drop_node h2 x) else
       rbind (rd_next h2 x) (\<lambda>b.
       rbind (list_splice h2 self pos x b x) (\<lambda>h3. Inr (True, drop_node h3 x)))))"

fun pop_loop :: "nat \<Rightarrow> 'a lheap \<Rightarrow> nat \<Rightarrow> 'a lheap res" where
  "pop_loop 0 h self = Inr h"
| "pop_loop (Suc n) h self = rbind (rd_prev h self) (\<lambda>b.
     rbind (list_erase h self b) (\<lambda>(_, h1). pop_loop n h1 self))"

definition list_resize :: "'a lheap \<Rightarrow> nat \<Rightarrow> nat \<Rightarrow> 'a \<Rightarrow> (bool \<times> 'a lheap) res" where
  "list_resize h self n d = rbind (list_size h self) (\<lambda>size.
     if size \<ge> n then rbind (pop_loop (size - n) h self) (\<lambda>h1. Inr (True, h1))
     else rbind (local_list h) (\<lambda>(x, h1).
       rbind (fill_loop h1 x (replicate (n - size) d)) (\<lambda>(ok, h2).
         if \<not> ok then Inr (False, drop_node h2 x) else
         rbind (rd_next h2 x) (\<lambda>b.
         rbind (list_splice h2 self self x b x) (\<lambda>h3. Inr (True, drop_node h3 x))))))"

definition list_swap :: "'a lheap \<Rightarrow> nat \<Rightarrow> nat \<Rightarrow> 'a lheap res" where
  "list_swap h self x =
     rbind (rd_next h self) (\<lambda>sn. rbind (wr_prev h sn x) (\<lambda>h1.
     rbind (rd_prev h1 self) (\<lambda>sp. rbind (wr_next h1 sp x) (\<lambda>h2.
     rbind (rd_next h2 x) (\<lambda>xn. rbind (wr_prev h2 xn self) (\<lambda>h3.
     rbind (rd_prev h3 x) (\<lambda>xp. rbind (wr_next h3 xp self) (\<lambda>h4.
     rbind (rd_next h4 self) (\<lambda>tmp_next.
     rbind (rd_prev h4 self) (\<lambda>tmp_prev.
     rbind (rd_next h4 x) (\<lambda>xn1. rbind (wr_next h4 self xn1) (\<lambda>h5.
     rbind (rd_prev h5 x) (\<lambda>xp1. rbind (wr_prev h5 self xp1) (\<lambda>h6.
     rbind (wr_next h6 x tmp_next) (\<lambda>h7. wr_prev h7 x tmp_prev)))))))))))))))"

subsection \<open>Merging, sorting, reversing\<close>

text \<open>\<open>cmp\<close> (the source's \<open>comp\<close>) is the caller's comparison function.  In \<open>merge_loop\<close>, \<open>head\<close> is the local
  node of \<open>merge_list\<close> and \<open>p\<close> the last node appended.\<close>

fun merge_loop :: "('a \<Rightarrow> 'a \<Rightarrow> int) \<Rightarrow> nat \<Rightarrow> 'a lheap \<Rightarrow> nat \<Rightarrow> nat \<Rightarrow> nat \<Rightarrow> nat \<Rightarrow>
    (nat \<times> nat \<times> nat \<times> 'a lheap) res" where
  "merge_loop cmp 0 h head p x y =
     (if x \<noteq> head \<and> y \<noteq> head then Inl OutOfFuel else Inr (p, x, y, h))"
| "merge_loop cmp (Suc n) h head p x y = (if x \<noteq> head \<and> y \<noteq> head then
       rbind (rd_data h x) (\<lambda>dx. rbind (rd_data h y) (\<lambda>dy.
       if cmp dx dy \<le> 0 then
         rbind (wr_next h p x) (\<lambda>h1. rbind (wr_prev h1 x p) (\<lambda>h2.
         rbind (rd_next h2 x) (\<lambda>x'. merge_loop cmp n h2 head x x' y)))
       else
         rbind (wr_next h p y) (\<lambda>h1. rbind (wr_prev h1 y p) (\<lambda>h2.
         rbind (rd_next h2 y) (\<lambda>y'. merge_loop cmp n h2 head y x y')))))
     else Inr (p, x, y, h))"

definition list_merge_list ::
  "('a \<Rightarrow> 'a \<Rightarrow> int) \<Rightarrow> 'a lheap \<Rightarrow> nat \<Rightarrow> nat \<Rightarrow> (nat \<times> 'a lheap) res" where
  "list_merge_list cmp h0 x0 y0 =
     rbind (rd_prev h0 x0) (\<lambda>xlast. rbind (rd_prev h0 y0) (\<lambda>ylast.
     let (head, h) = local_node h0 in
     rbind (rd_prev h x0) (\<lambda>xp. rbind (wr_next h xp head) (\<lambda>h1.
     rbind (rd_prev h1 y0) (\<lambda>yp. rbind (wr_next h1 yp head) (\<lambda>h2.
     rbind (merge_loop cmp (brk h) h2 head head x0 y0) (\<lambda>(p, x, y, h3).
     rbind (if x = head then
         rbind (wr_next h3 p y) (\<lambda>h4. rbind (wr_prev h4 y p) (\<lambda>h5.
         rbind (rd_next h5 head) (\<lambda>hn. rbind (wr_next h5 ylast hn) (\<lambda>h6.
         rbind (rd_next h6 head) (\<lambda>hn1. wr_prev h6 hn1 ylast)))))
       else
         rbind (wr_next h3 p x) (\<lambda>h4. rbind (wr_prev h4 x p) (\<lambda>h5.
         rbind (rd_next h5 head) (\<lambda>hn. rbind (wr_next h5 xlast hn) (\<lambda>h6.
         rbind (rd_next h6 head) (\<lambda>hn1. wr_prev h6 hn1 xlast))))))
       (\<lambda>h7. rbind (rd_next h7 head) (\<lambda>r. Inr (r, drop_node h7 head))))))))))"

text \<open>The \<open>do ... while\<close> of \<open>merge_sort\<close> that walks \<open>x\<close> by one and \<open>y\<close> by two nodes.\<close>

fun split_loop :: "nat \<Rightarrow> 'a lheap \<Rightarrow> nat \<Rightarrow> nat \<Rightarrow> nat \<Rightarrow> nat res" where
  "split_loop 0 h first x y = Inl OutOfFuel"
| "split_loop (Suc n) h first x y =
     rbind (rd_next h x) (\<lambda>x1. rbind (rd_next h y) (\<lambda>y1.
     rbind (if y1 \<noteq> first then rd_next h y1 else Inr y1) (\<lambda>y2.
     if y2 \<noteq> first then split_loop n h first x1 y2 else Inr x1)))"

fun list_merge_sort :: "('a \<Rightarrow> 'a \<Rightarrow> int) \<Rightarrow> nat \<Rightarrow> 'a lheap \<Rightarrow> nat \<Rightarrow> (nat \<times> 'a lheap) res" where
  "list_merge_sort cmp 0 h first = Inl OutOfFuel"
| "list_merge_sort cmp (Suc n) h first = rbind (rd_next h first) (\<lambda>fn.
     if fn = first then Inr (first, h) else
     rbind (split_loop (brk h) h first first first) (\<lambda>x.
     rbind (rd_prev h x) (\<lambda>tmp.
     rbind (rd_prev h x) (\<lambda>xp. rbind (wr_next h xp first) (\<lambda>h1.
     rbind (rd_prev h1 first) (\<lambda>fp. rbind (wr_prev h1 x fp) (\<lambda>h2.
     rbind (rd_prev h2 x) (\<lambda>xp1. rbind (wr_next h2 xp1 x) (\<lambda>h3.
     rbind (wr_prev h3 first tmp) (\<lambda>h4.
     rbind (list_merge_sort cmp n h4 first) (\<lambda>(a, h5).
     rbind (list_merge_sort cmp n h5 x) (\<lambda>(b, h6).
     list_merge_list cmp h6 a b))))))))))))"

definition list_sort :: "('a \<Rightarrow> 'a \<Rightarrow> int) \<Rightarrow> 'a lheap \<Rightarrow> nat \<Rightarrow> 'a lheap res" where
  "list_sort cmp h self = rbind (list_empty h self) (\<lambda>e. if e then Inr h else
     rbind (rd_next h self) (\<lambda>first. rbind (rd_prev h self) (\<lambda>last'.
     rbind (wr_prev h first last') (\<lambda>h1. rbind (wr_next h1 last' first) (\<lambda>h2.
     rbind (list_merge_sort cmp (brk h) h2 first) (\<lambda>(first1, h3).
     rbind (rd_prev h3 first1) (\<lambda>last1.
     rbind (wr_next h3 self first1) (\<lambda>h4. rbind (wr_prev h4 first1 self) (\<lambda>h5.
     rbind (wr_next h5 last1 self) (\<lambda>h6. wr_prev h6 self last1))))))))))"

definition list_merge :: "('a \<Rightarrow> 'a \<Rightarrow> int) \<Rightarrow> 'a lheap \<Rightarrow> nat \<Rightarrow> nat \<Rightarrow> 'a lheap res" where
  "list_merge cmp h self x = (if self = x then Inr h else
     rbind (list_empty h x) (\<lambda>ex. if ex then Inr h else
     rbind (list_empty h self) (\<lambda>es. if es then
       rbind (rd_next h x) (\<lambda>b. list_splice h self self x b x)
     else
       rbind (rd_next h self) (\<lambda>first1. rbind (rd_prev h self) (\<lambda>last1.
       rbind (wr_prev h first1 last1) (\<lambda>h1. rbind (wr_next h1 last1 first1) (\<lambda>h2.
       rbind (rd_next h2 x) (\<lambda>first2. rbind (rd_prev h2 x) (\<lambda>last2.
       rbind (wr_prev h2 first2 last2) (\<lambda>h3. rbind (wr_next h3 last2 first2) (\<lambda>h4.
       rbind (list_merge_list cmp h4 first1 first2) (\<lambda>(first, h5).
       rbind (rd_prev h5 first) (\<lambda>last'.
       rbind (wr_next h5 self first) (\<lambda>h6. rbind (wr_prev h6 first self) (\<lambda>h7.
       rbind (wr_next h7 last' self) (\<lambda>h8. rbind (wr_prev h8 self last') (\<lambda>h9.
       rbind (wr_next h9 x x) (\<lambda>h10. wr_prev h10 x x))))))))))))))))))"

fun reverse_loop :: "nat \<Rightarrow> 'a lheap \<Rightarrow> nat \<Rightarrow> nat \<Rightarrow> 'a lheap res" where
  "reverse_loop 0 h self p = Inl OutOfFuel"
| "reverse_loop (Suc n) h self p =
     rbind (rd_next h p) (\<lambda>tmp. rbind (rd_prev h p) (\<lambda>pp.
     rbind (wr_next h p pp) (\<lambda>h1. rbind (wr_prev h1 p tmp) (\<lambda>h2.
     if tmp \<noteq> self then reverse_loop n h2 self tmp else Inr h2))))"

definition list_reverse :: "'a lheap \<Rightarrow> nat \<Rightarrow> 'a lheap res" where
  "list_reverse h self = reverse_loop (brk h) h self self"

end
