(* ===== verification/Cstl_List_Correct.thy ===== *)
theory Cstl_List_Correct
  imports Cstl_List "HOL-Library.Multiset"
begin

text \<open>
  Correctness of \<open>cstl/list.h\<close>: every operation of \<open>Cstl_List\<close> refines the operation on the
  list of node addresses that \<open>dlist\<close> abstracts to, keeps the heap's invariant \<open>heap_ok\<close> and
  leaves everything outside the lists it works on alone (\<open>same_outside\<close>).
\<close>

subsection \<open>The abstraction\<close>

fun chain :: "(nat \<Rightarrow> nat) \<Rightarrow> (nat \<Rightarrow> nat) \<Rightarrow> nat list \<Rightarrow> bool" where
  "chain n p [] = True"
| "chain n p [a] = True"
| "chain n p (a # b # xs) = (n a = b \<and> p b = a \<and> chain n p (b # xs))"

definition dlist :: "'a lheap \<Rightarrow> nat \<Rightarrow> nat list \<Rightarrow> bool" where
  "dlist h s ps \<longleftrightarrow> distinct (s # ps) \<and> (\<forall>a \<in> set (s # ps). live h a) \<and>
     chain (nxt h) (prv h) (s # ps @ [s])"

definition heap_ok :: "'a lheap \<Rightarrow> bool" where
  "heap_ok h \<longleftrightarrow> 0 < brk h \<and> (\<forall>a. live h a \<longrightarrow> 0 < a \<and> a < brk h)"

definition same_outside :: "nat set \<Rightarrow> 'a lheap \<Rightarrow> 'a lheap \<Rightarrow> bool" where
  "same_outside S h h' \<longleftrightarrow> (\<forall>a. a \<notin> S \<longrightarrow>
     nxt h' a = nxt h a \<and> prv h' a = prv h a \<and> dat h' a = dat h a \<and> live h' a = live h a)"

lemmas mem_simps = rd_next_def rd_prev_def rd_data_def wr_next_def wr_prev_def wr_data_def acc_def

lemma chain_append: "xs \<noteq> [] \<Longrightarrow> ys \<noteq> [] \<Longrightarrow> chain n p (xs @ ys) \<longleftrightarrow>
    chain n p xs \<and> chain n p ys \<and> n (last xs) = hd ys \<and> p (hd ys) = last xs"
proof (induction xs rule: induct_list012)
  case (2 x)
  then show ?case by (cases ys) auto
qed auto

lemma chain_cong:
  assumes "\<And>a. a \<in> set (butlast xs) \<Longrightarrow> n' a = n a" "\<And>a. a \<in> set (tl xs) \<Longrightarrow> p' a = p a"
  shows "chain n' p' xs = chain n p xs"
  using assms by (induction xs rule: induct_list012) auto

lemma hd_snoc: "hd (xs @ [s]) \<in> insert s (set xs)"
  by (cases xs) auto

lemma last_cons: "last (s # xs) \<in> insert s (set xs)"
  by (induction xs rule: rev_induct) auto

lemma last_notin_butlast: "distinct xs \<Longrightarrow> xs \<noteq> [] \<Longrightarrow> last xs \<notin> set (butlast xs)"
  by (induction xs rule: rev_induct) auto

lemma hd_notin_tl: "distinct xs \<Longrightarrow> xs \<noteq> [] \<Longrightarrow> hd xs \<notin> set (tl xs)"
  by (cases xs) auto

lemma set_butlast_D: "a \<in> set (butlast xs) \<Longrightarrow> a \<in> set xs"
  by (rule in_set_butlastD)

lemma set_tl_D: "a \<in> set (tl xs) \<Longrightarrow> a \<in> set xs"
  by (cases xs) auto

text \<open>A segment of a circle survives updates of its last \<open>next\<close> and its first \<open>prev\<close>.\<close>

lemma chain_seg:
  assumes "chain n p xs" "distinct xs"
    "\<And>z. z \<in> set xs \<Longrightarrow> z \<noteq> last xs \<Longrightarrow> n' z = n z"
    "\<And>z. z \<in> set xs \<Longrightarrow> z \<noteq> hd xs \<Longrightarrow> p' z = p z"
  shows "chain n' p' xs"
proof (cases "xs = []")
  case False
  have "chain n' p' xs = chain n p xs"
  proof (rule chain_cong)
    fix z assume z: "z \<in> set (butlast xs)"
    then have "z \<noteq> last xs" using last_notin_butlast [OF assms(2) False] by auto
    with set_butlast_D [OF z] show "n' z = n z" by (rule assms(3))
  next
    fix z assume z: "z \<in> set (tl xs)"
    then have "z \<noteq> hd xs" using hd_notin_tl [OF assms(2) False] by auto
    with set_tl_D [OF z] show "p' z = p z" by (rule assms(4))
  qed
  with assms(1) show ?thesis by simp
qed simp

lemma chain_left:
  assumes "chain n p (s # xs)" "distinct (s # xs)" "l = last (s # xs)"
    "\<And>z. z \<in> insert s (set xs) \<Longrightarrow> z \<noteq> l \<Longrightarrow> n' z = n z" "\<And>z. z \<in> set xs \<Longrightarrow> p' z = p z"
  shows "chain n' p' (s # xs)"
  by (rule chain_seg [OF assms(1,2)]) (use assms(3-5) in auto)

lemma chain_right:
  assumes "chain n p (ys @ [s])" "distinct (s # ys)" "f = hd (ys @ [s])"
    "\<And>z. z \<in> set ys \<Longrightarrow> n' z = n z" "\<And>z. z \<in> insert s (set ys) \<Longrightarrow> z \<noteq> f \<Longrightarrow> p' z = p z"
  shows "chain n' p' (ys @ [s])"
  by (rule chain_seg [OF assms(1)]) (use assms(2-5) in auto)

lemma dlist_split: "dlist h s (xs @ ys) \<longleftrightarrow> distinct (s # xs @ ys) \<and>
    (\<forall>a \<in> set (s # xs @ ys). live h a) \<and>
    chain (nxt h) (prv h) (s # xs) \<and> chain (nxt h) (prv h) (ys @ [s]) \<and>
    nxt h (last (s # xs)) = hd (ys @ [s]) \<and> prv h (hd (ys @ [s])) = last (s # xs)"
  unfolding dlist_def using chain_append [of "s # xs" "ys @ [s]" "nxt h" "prv h"] by auto

lemma same_outside_refl [simp]: "same_outside S h h"
  by (simp add: same_outside_def)

lemma same_outside_trans:
  "same_outside S h h1 \<Longrightarrow> same_outside T h1 h2 \<Longrightarrow> S \<subseteq> U \<Longrightarrow> T \<subseteq> U \<Longrightarrow> same_outside U h h2"
  by (simp add: same_outside_def subset_iff) metis

lemma same_outside_mono: "same_outside S h h' \<Longrightarrow> S \<subseteq> T \<Longrightarrow> same_outside T h h'"
  by (auto simp: same_outside_def)

lemma dlist_frame:
  assumes "dlist h t qs" "same_outside S h h'" "set (t # qs) \<inter> S = {}"
  shows "dlist h' t qs"
proof -
  have out: "nxt h' a = nxt h a" "prv h' a = prv h a" "live h' a = live h a"
    if "a \<in> set (t # qs)" for a
    using that assms(2,3) by (auto simp: same_outside_def)
  have "chain (nxt h') (prv h') (t # qs @ [t]) = chain (nxt h) (prv h) (t # qs @ [t])"
  proof (rule chain_cong)
    fix a assume "a \<in> set (butlast (t # qs @ [t]))"
    then have "a \<in> set (t # qs)" by (simp add: butlast_append split: if_splits)
    then show "nxt h' a = nxt h a" by (rule out)
  next
    fix a assume "a \<in> set (tl (t # qs @ [t]))"
    then have "a \<in> set (t # qs)" by auto
    then show "prv h' a = prv h a" by (rule out)
  qed
  with assms(1) out show ?thesis by (auto simp: dlist_def)
qed

lemma dlist_length:
  assumes "heap_ok h" "dlist h s ps"
  shows "length ps < brk h"
proof -
  have "set ps \<subseteq> {1..<brk h}" using assms by (auto simp: dlist_def heap_ok_def)
  then have "card (set ps) \<le> card {1..<brk h}" by (rule card_mono [rotated]) simp
  with assms show ?thesis
    by (auto simp: dlist_def heap_ok_def distinct_card)
qed

subsection \<open>Creating and inserting\<close>

lemma list_new_correct:
  assumes "heap_ok h" "0 < room h"
  shows "\<exists>h'. list_new h = Inr (brk h, h') \<and> dlist h' (brk h) [] \<and> heap_ok h' \<and>
    same_outside {brk h} h h' \<and> brk h' = brk h + 1 \<and> room h' = room h - 1"
  using assms
  by (auto simp: list_new_def malloc_node_def mem_simps dlist_def heap_ok_def same_outside_def
      less_SucI)

lemma local_list_correct:
  assumes "heap_ok h"
  shows "\<exists>h'. local_list h = Inr (brk h, h') \<and> dlist h' (brk h) [] \<and> heap_ok h' \<and>
    same_outside {brk h} h h' \<and> brk h' = brk h + 1 \<and> room h' = room h \<and> dat h' = dat h"
  using assms
  by (auto simp: local_list_def local_node_def mem_simps dlist_def heap_ok_def same_outside_def
      less_SucI)

lemma list_insert_ref_fails: "room h = 0 \<Longrightarrow> list_insert_ref h s pos x = Inr (0, h)"
  by (simp add: list_insert_ref_def malloc_node_def)

lemma list_insert_ref_correct:
  assumes ok: "heap_ok h" and l: "dlist h s (xs @ ys)" and pos: "pos = hd (ys @ [s])"
    and room: "0 < room h"
  shows "\<exists>h'. list_insert_ref h s' pos x = Inr (brk h, h') \<and> dlist h' s (xs @ brk h # ys) \<and>
    heap_ok h' \<and> dat h' = (dat h)(brk h := x) \<and> brk h' = brk h + 1 \<and> room h' = room h - 1 \<and>
    live h' = (live h)(brk h := True) \<and> same_outside ({brk h} \<union> set (s # xs @ ys)) h h'"
proof -
  let ?a = "last (s # xs)" and ?n = "brk h"
  have d: "distinct (s # xs @ ys)" and lv: "\<And>a. a \<in> set (s # xs @ ys) \<Longrightarrow> live h a"
    and c1: "chain (nxt h) (prv h) (s # xs)" and c2: "chain (nxt h) (prv h) (ys @ [s])"
    and pp: "prv h pos = ?a"
    using l pos unfolding dlist_split by auto
  have a: "?a \<in> set (s # xs)" using last_cons [of s xs] by simp
  have b: "pos \<in> insert s (set ys)" using hd_snoc [of ys s] pos by simp
  have new: "?n \<notin> set (s # xs @ ys)" "\<not> live h ?n" "?n \<noteq> 0"
    using ok lv by (auto simp: heap_ok_def)
  have lva: "live h ?a" "live h pos" using lv a b by auto
  have ne: "?a \<noteq> ?n" "pos \<noteq> ?n" using lva new by auto
  define h' where "h' = h\<lparr>live := (live h)(?n := True), brk := ?n + 1, room := room h - 1,
     dat := (dat h)(?n := x), nxt := (nxt h)(?n := pos, ?a := ?n), prv := (prv h)(?n := ?a, pos := ?n)\<rparr>"
  have run: "list_insert_ref h s' pos x = Inr (?n, h')"
    using room new lva ne pp
    by (simp add: list_insert_ref_def malloc_node_def mem_simps h'_def)
  have s1: "chain (nxt h') (prv h') (s # xs)"
    by (rule chain_left [OF c1 _ refl]) (use d new b in \<open>auto simp: h'_def\<close>)
  have s2: "chain (nxt h') (prv h') (ys @ [s])"
    by (rule chain_right [OF c2 _ pos]) (use d new a in \<open>auto simp: h'_def\<close>)
  have "chain (nxt h') (prv h') ((s # xs) @ [?n] @ ys @ [s])"
    using s1 s2 ne pos by (simp add: chain_append [of "s # xs"] chain_append [of "[?n]"] h'_def
        del: append_Cons append_Nil)
  then have "dlist h' s (xs @ ?n # ys)"
    using d lv new by (auto simp: dlist_def h'_def)
  moreover have "heap_ok h'" using ok by (auto simp: heap_ok_def h'_def less_SucI)
  moreover have "same_outside ({?n} \<union> set (s # xs @ ys)) h h'"
    using a b unfolding same_outside_def h'_def by auto
  ultimately show ?thesis using run by (auto simp: h'_def)
qed

lemma list_push_back_ref_correct:
  assumes "heap_ok h" "dlist h s ps" "0 < room h"
  shows "\<exists>h'. list_push_back_ref h s x = Inr (True, h') \<and> dlist h' s (ps @ [brk h]) \<and>
    heap_ok h' \<and> dat h' = (dat h)(brk h := x) \<and> brk h' = brk h + 1 \<and> room h' = room h - 1 \<and>
    same_outside ({brk h} \<union> set (s # ps)) h h'"
  using list_insert_ref_correct [of h s ps "[]" s s x] assms
  by (auto simp: list_push_back_ref_def heap_ok_def)

lemma list_push_front_ref_correct:
  assumes "heap_ok h" "dlist h s ps" "0 < room h"
  shows "\<exists>h'. list_push_front_ref h s x = Inr (True, h') \<and> dlist h' s (brk h # ps) \<and>
    heap_ok h' \<and> dat h' = (dat h)(brk h := x) \<and> brk h' = brk h + 1 \<and> room h' = room h - 1 \<and>
    same_outside ({brk h} \<union> set (s # ps)) h h'"
proof -
  have b: "rd_next h s = Inr (hd (ps @ [s]))"
    using assms dlist_split [of h s "[]" ps] by (simp add: mem_simps)
  with list_insert_ref_correct [of h s "[]" ps "hd (ps @ [s])" s x] assms show ?thesis
    by (auto simp: list_push_front_ref_def heap_ok_def)
qed

subsection \<open>Erasing\<close>

lemma list_erase_correct:
  assumes ok: "heap_ok h" and l: "dlist h s (xs @ a # ys)"
  shows "\<exists>h'. list_erase h s' a = Inr (hd (ys @ [s]), h') \<and> dlist h' s (xs @ ys) \<and> heap_ok h' \<and>
    dat h' = dat h \<and> brk h' = brk h \<and> room h' = room h \<and> live h' = (live h)(a := False) \<and>
    same_outside (set (s # xs @ a # ys)) h h'"
proof -
  let ?l = "last (s # xs)" and ?r = "hd (ys @ [s])"
  have d: "distinct (s # xs @ a # ys)" and lv: "\<And>z. z \<in> set (s # xs @ a # ys) \<Longrightarrow> live h z"
    and c1: "chain (nxt h) (prv h) (s # xs)" and "chain (nxt h) (prv h) ((a # ys) @ [s])"
    and pa: "prv h a = ?l" "nxt h ?l = a"
    using l unfolding dlist_split by auto
  then have c2: "chain (nxt h) (prv h) (ys @ [s])" and na: "nxt h a = ?r" "prv h ?r = a"
    using chain_append [of "[a]" "ys @ [s]" "nxt h" "prv h"] by auto
  have el: "?l \<in> set (s # xs)" and er: "?r \<in> insert s (set ys)"
    using last_cons [of s xs] hd_snoc [of ys s] by auto
  have ne: "?l \<noteq> a" "?r \<noteq> a" using el er d by auto
  have lvs: "live h a" "live h ?l" "live h ?r" "a \<noteq> 0"
    using lv el er ok by (auto simp: heap_ok_def)
  define h' where "h' = h\<lparr>live := (live h)(a := False), nxt := (nxt h)(?l := ?r),
     prv := (prv h)(?r := ?l)\<rparr>"
  have run: "list_erase h s' a = Inr (?r, h')"
    using lvs ne pa na by (simp add: list_erase_def free_node_def drop_node_def mem_simps h'_def)
  have s1: "chain (nxt h') (prv h') (s # xs)"
    by (rule chain_left [OF c1 _ refl]) (use d er in \<open>auto simp: h'_def\<close>)
  have s2: "chain (nxt h') (prv h') (ys @ [s])"
    by (rule chain_right [OF c2 _ refl]) (use d el in \<open>auto simp: h'_def\<close>)
  have "dlist h' s (xs @ ys)"
    unfolding dlist_split using d lv s1 s2 by (auto simp: h'_def)
  moreover have "heap_ok h'" using ok by (auto simp: heap_ok_def h'_def)
  moreover have "same_outside (set (s # xs @ a # ys)) h h'"
    using el er unfolding same_outside_def h'_def by auto
  ultimately show ?thesis using run by (auto simp: h'_def)
qed

lemma list_pop_front_correct:
  assumes "heap_ok h" "dlist h s (a # ps)"
  shows "\<exists>h'. list_pop_front h s = Inr h' \<and> dlist h' s ps \<and> heap_ok h' \<and> dat h' = dat h \<and>
    brk h' = brk h \<and> room h' = room h \<and> \<not> live h' a \<and> same_outside (set (s # a # ps)) h h'"
proof -
  have "rd_next h s = Inr a" using assms(2) by (simp add: dlist_def mem_simps)
  with list_erase_correct [of h s "[]" a ps s] assms show ?thesis
    by (auto simp: list_pop_front_def)
qed

lemma list_pop_back_correct:
  assumes "heap_ok h" "dlist h s (ps @ [a])"
  shows "\<exists>h'. list_pop_back h s = Inr h' \<and> dlist h' s ps \<and> heap_ok h' \<and> dat h' = dat h \<and>
    brk h' = brk h \<and> room h' = room h \<and> \<not> live h' a \<and> same_outside (set (s # ps @ [a])) h h'"
proof -
  have "rd_prev h s = Inr a"
    using assms(2) dlist_split [of h s "ps @ [a]" "[]"] by (simp add: mem_simps)
  with list_erase_correct [of h s ps a "[]" s] assms show ?thesis
    by (auto simp: list_pop_back_def)
qed

lemma erase_loop_correct:
  assumes "heap_ok h" "dlist h s (xs @ fs @ ys)" "length fs \<le> n"
  shows "\<exists>h'. erase_loop n h s' (hd (fs @ ys @ [s])) (hd (ys @ [s])) = Inr (hd (ys @ [s]), h') \<and>
    dlist h' s (xs @ ys) \<and> heap_ok h' \<and> dat h' = dat h \<and> brk h' = brk h \<and> room h' = room h \<and>
    (\<forall>a \<in> set fs. \<not> live h' a) \<and> same_outside (set (s # xs @ fs @ ys)) h h'"
  using assms
proof (induction n arbitrary: h fs)
  case 0
  then show ?case by simp
next
  case (Suc n)
  show ?case
  proof (cases fs)
    case Nil
    with Suc.prems show ?thesis by simp
  next
    case (Cons a as)
    have d: "distinct (s # xs @ a # as @ ys)" using Suc.prems(2) Cons by (auto simp: dlist_def)
    have ne: "a \<noteq> hd (ys @ [s])" using hd_snoc [of ys s] d by auto
    obtain h1 where h1: "list_erase h s' a = Inr (hd ((as @ ys) @ [s]), h1)"
        "dlist h1 s (xs @ as @ ys)" "heap_ok h1" "dat h1 = dat h" "brk h1 = brk h" "room h1 = room h"
        "live h1 = (live h)(a := False)" "same_outside (set (s # xs @ a # as @ ys)) h h1"
      using list_erase_correct [of h s xs a "as @ ys" s'] Suc.prems Cons by auto
    obtain h2 where h2: "erase_loop n h1 s' (hd (as @ ys @ [s])) (hd (ys @ [s])) = Inr (hd (ys @ [s]), h2)"
        "dlist h2 s (xs @ ys)" "heap_ok h2" "dat h2 = dat h1" "brk h2 = brk h1" "room h2 = room h1"
        "\<forall>a \<in> set as. \<not> live h2 a" "same_outside (set (s # xs @ as @ ys)) h1 h2"
      using Suc.IH [OF h1(3) h1(2)] Suc.prems(3) Cons by auto
    have dead: "\<not> live h2 a"
    proof -
      have "a \<notin> set (s # xs @ as @ ys)" using d by auto
      with h2(8) h1(7) show ?thesis by (simp add: same_outside_def)
    qed
    have "same_outside (set (s # xs @ fs @ ys)) h h2"
      by (rule same_outside_trans [OF h1(8) h2(8)]) (use Cons in auto)
    with h1 h2 ne Cons dead show ?thesis by simp
  qed
qed

lemma list_erase_range_correct:
  assumes "heap_ok h" "dlist h s (xs @ fs @ ys)"
  shows "\<exists>h'. list_erase_range h s' (hd (fs @ ys @ [s])) (hd (ys @ [s])) = Inr (hd (ys @ [s]), h') \<and>
    dlist h' s (xs @ ys) \<and> heap_ok h' \<and> dat h' = dat h \<and> brk h' = brk h \<and> room h' = room h \<and>
    (\<forall>a \<in> set fs. \<not> live h' a) \<and> same_outside (set (s # xs @ fs @ ys)) h h'"
  unfolding list_erase_range_def
  by (rule erase_loop_correct [OF assms]) (use dlist_length [OF assms] in simp)

lemma list_clear_correct:
  assumes "heap_ok h" "dlist h s ps"
  shows "\<exists>h'. list_clear h s = Inr h' \<and> dlist h' s [] \<and> heap_ok h' \<and> dat h' = dat h \<and>
    brk h' = brk h \<and> room h' = room h \<and> (\<forall>a \<in> set ps. \<not> live h' a) \<and>
    same_outside (set (s # ps)) h h'"
proof -
  have "rd_next h s = Inr (hd (ps @ [s]))"
    using assms dlist_split [of h s "[]" ps] by (simp add: mem_simps)
  with list_erase_range_correct [of h s "[]" ps "[]" s] assms show ?thesis
    by (auto simp: list_clear_def)
qed

lemma list_delete_correct:
  assumes "heap_ok h" "dlist h s ps"
  shows "\<exists>h'. list_delete h s = Inr h' \<and> heap_ok h' \<and> (\<forall>a \<in> set (s # ps). \<not> live h' a) \<and>
    same_outside (set (s # ps)) h h'"
proof -
  obtain h1 where h1: "list_clear h s = Inr h1" "dlist h1 s []" "heap_ok h1"
      "\<forall>a \<in> set ps. \<not> live h1 a" "same_outside (set (s # ps)) h h1"
    using list_clear_correct [OF assms] by blast
  from h1(2,3) have s: "live h1 s" "s \<noteq> 0" by (auto simp: dlist_def heap_ok_def)
  have "heap_ok (drop_node h1 s)" using h1(3) by (auto simp: heap_ok_def drop_node_def)
  moreover have "same_outside (set (s # ps)) h (drop_node h1 s)"
    using h1(5) by (auto simp: same_outside_def drop_node_def)
  ultimately show ?thesis using h1 s
    by (auto simp: list_delete_def free_node_def drop_node_def)
qed

subsection \<open>Observers\<close>

lemma list_empty_correct: "dlist h s ps \<Longrightarrow> list_empty h s = Inr (ps = [])"
  by (cases ps) (auto simp: list_empty_def dlist_def mem_simps)

lemma size_loop_correct:
  assumes "dlist h s (xs @ ys)" "length ys \<le> n"
  shows "size_loop n h s (hd (ys @ [s])) c = Inr (c + length ys)"
  using assms
proof (induction n arbitrary: xs ys c)
  case 0
  then show ?case by simp
next
  case (Suc n)
  show ?case
  proof (cases ys)
    case Nil
    then show ?thesis by simp
  next
    case (Cons a as)
    have l: "dlist h s ((xs @ [a]) @ as)" using Suc.prems(1) Cons by simp
    then have "rd_next h a = Inr (hd (as @ [s]))" "a \<noteq> s"
      unfolding dlist_split by (auto simp: mem_simps)
    with Suc.IH [OF l] Suc.prems(2) Cons show ?thesis by simp
  qed
qed

lemma list_size_correct:
  assumes "heap_ok h" "dlist h s ps"
  shows "list_size h s = Inr (length ps)"
proof -
  have "rd_next h s = Inr (hd (ps @ [s]))"
    using assms dlist_split [of h s "[]" ps] by (simp add: mem_simps)
  with size_loop_correct [of h s "[]" ps "brk h" 0] dlist_length [OF assms] assms(2) show ?thesis
    by (simp add: list_size_def)
qed

text \<open>Iterators walk the nodes in order, in both directions.\<close>

lemma list_iterators:
  assumes "dlist h s (xs @ ys)"
  shows "list_next h (last (s # xs)) = Inr (hd (ys @ [s]))"
    and "list_prev h (hd (ys @ [s])) = Inr (last (s # xs))"
proof -
  have "live h (last (s # xs))" "live h (hd (ys @ [s]))"
    using assms last_cons [of s xs] hd_snoc [of ys s] unfolding dlist_split by auto
  with assms show "list_next h (last (s # xs)) = Inr (hd (ys @ [s]))"
    "list_prev h (hd (ys @ [s])) = Inr (last (s # xs))"
    unfolding dlist_split list_next_def list_prev_def by (auto simp: mem_simps)
qed

lemma list_ends:
  assumes "dlist h s ps"
  shows "list_begin h s = Inr (hd (ps @ [s]))" "list_rbegin h s = Inr (last (s # ps))"
    "list_front h s = Inr (hd (ps @ [s]))" "list_back h s = Inr (last (s # ps))"
  using list_iterators [of h s "[]" ps] list_iterators [of h s ps "[]"] assms
  by (simp_all add: list_begin_def list_rbegin_def list_front_def list_back_def list_next_def
      list_prev_def)


subsection \<open>Splicing\<close>

lemma list_splice_correct:
  assumes ok: "heap_ok h" and l: "dlist h s (xs @ ys)" and m: "dlist h x (us @ fs @ vs)"
    and dis: "set (s # xs @ ys) \<inter> set (x # us @ fs @ vs) = {}"
  shows "\<exists>h'. list_splice h s' (hd (ys @ [s])) x' (hd (fs @ vs @ [x])) (hd (vs @ [x])) = Inr h' \<and>
    dlist h' s (xs @ fs @ ys) \<and> dlist h' x (us @ vs) \<and> heap_ok h' \<and> dat h' = dat h \<and>
    brk h' = brk h \<and> room h' = room h \<and> live h' = live h \<and>
    same_outside (set (s # xs @ ys) \<union> set (x # us @ fs @ vs)) h h'"
proof (cases "fs = []")
  case True
  with assms show ?thesis by (simp add: list_splice_def)
next
  case False
  define pos pp tmp where pos: "pos = hd (ys @ [s])" and pp: "pp = last (s # xs)"
    and tmp: "tmp = last (x # us)"
  define e f g where e: "e = hd (vs @ [x])" and f: "f = hd fs" and g: "g = last fs"
  have d: "distinct (s # xs @ ys)" "distinct (x # us @ fs @ vs)"
    and lv: "\<And>z. z \<in> set (s # xs @ ys) \<Longrightarrow> live h z" "\<And>z. z \<in> set (x # us @ fs @ vs) \<Longrightarrow> live h z"
    and c: "chain (nxt h) (prv h) (s # xs)" "chain (nxt h) (prv h) (ys @ [s])"
      "chain (nxt h) (prv h) (x # us)" "chain (nxt h) (prv h) (fs @ vs @ [x])"
    and p1: "prv h pos = pp" and p2: "prv h f = tmp"
    using l m False unfolding dlist_split pos pp tmp f by (auto simp: hd_append)
  from c(4) False have c4: "chain (nxt h) (prv h) fs" "chain (nxt h) (prv h) (vs @ [x])"
    and p3: "prv h e = g"
    unfolding e g by (auto simp: chain_append)
  have mem: "pp \<in> set (s # xs)" "pos \<in> insert s (set ys)" "tmp \<in> set (x # us)"
      "e \<in> insert x (set vs)" "f \<in> set fs" "g \<in> set fs"
    using last_cons [of s xs] last_cons [of x us] hd_snoc [of ys s] hd_snoc [of vs x] False
    unfolding pos pp tmp e f g by simp_all
  have mem2: "pp \<in> set (s # xs @ ys)" "pos \<in> set (s # xs @ ys)" "tmp \<in> set (x # us @ fs @ vs)"
      "e \<in> set (x # us @ fs @ vs)" "f \<in> set (x # us @ fs @ vs)" "g \<in> set (x # us @ fs @ vs)"
    using mem by (simp_all, blast+)
  have lvs: "live h pp" "live h pos" "live h tmp" "live h e" "live h f" "live h g"
    using lv mem2 by blast+
  have x1: "z \<noteq> tmp" "z \<noteq> e" "z \<noteq> f" "z \<noteq> g" if "z \<in> insert s (set xs \<union> set ys)" for z
  proof -
    have "z \<in> set (s # xs @ ys)" using that by simp
    then show "z \<noteq> tmp" "z \<noteq> e" "z \<noteq> f" "z \<noteq> g" using mem2 dis by blast+
  qed
  have x2: "z \<noteq> pp" "z \<noteq> pos" if "z \<in> insert x (set us \<union> set fs \<union> set vs)" for z
  proof -
    have "z \<in> set (x # us @ fs @ vs)" using that by auto
    then show "z \<noteq> pp" "z \<noteq> pos" using mem2 dis by blast+
  qed
  have y1: "z \<noteq> pp" if "z \<in> set ys" for z using that mem(1) d(1) by auto
  have y2: "z \<noteq> pos" if "z \<in> set xs" for z using that mem(2) d(1) by auto
  have y3: "z \<noteq> tmp" if "z \<in> set fs \<union> set vs" for z using that mem(3) d(2) by auto
  have y4: "z \<noteq> e" if "z \<in> set us \<union> set fs" for z using that mem(4) d(2) by auto
  have y5: "z \<noteq> f" "z \<noteq> g" if "z \<in> insert x (set us \<union> set vs)" for z
    using that mem(5,6) d(2) by auto
  have ne: "f \<noteq> e" "pos \<noteq> e" "pos \<noteq> f" "f \<noteq> pos" "e \<noteq> pos" "e \<noteq> f"
    using x1(2,3) [of pos] mem(2) y4 [of f] mem(5) by auto
  have hf: "hd (fs @ vs @ [x]) = f" using False by (simp add: f)
  define h' where "h' = h\<lparr>nxt := (nxt h)(pp := f, tmp := e, g := pos),
      prv := (prv h)(f := pp, pos := g, e := tmp)\<rparr>"
  have run: "list_splice h s' pos x' f e = Inr h'"
    using ne lvs p1 p2 p3 by (simp add: list_splice_def mem_simps h'_def)
  have upd: "(\<And>z. z \<in> set zs \<Longrightarrow> z \<noteq> last zs \<Longrightarrow> z \<notin> {pp, tmp, g}) \<Longrightarrow>
      (\<And>z. z \<in> set zs \<Longrightarrow> z \<noteq> hd zs \<Longrightarrow> z \<notin> {f, pos, e}) \<Longrightarrow> distinct zs \<Longrightarrow>
      chain (nxt h) (prv h) zs \<Longrightarrow> chain (nxt h') (prv h') zs" for zs
    by (erule chain_seg) (simp_all add: h'_def)
  have s1: "chain (nxt h') (prv h') (s # xs)"
  proof (rule upd)
    fix z assume "z \<in> set (s # xs)" "z \<noteq> last (s # xs)"
    then show "z \<notin> {pp, tmp, g}" using x1(1,4) [of z] pp by auto
  next
    fix z assume "z \<in> set (s # xs)" "z \<noteq> hd (s # xs)"
    then show "z \<notin> {f, pos, e}" using x1(2,3) [of z] y2 [of z] by auto
  qed (use d c in auto)
  have s2: "chain (nxt h') (prv h') (ys @ [s])"
  proof (rule upd)
    fix z assume "z \<in> set (ys @ [s])" "z \<noteq> last (ys @ [s])"
    then show "z \<notin> {pp, tmp, g}" using x1(1,4) [of z] y1 [of z] by auto
  next
    fix z assume "z \<in> set (ys @ [s])" "z \<noteq> hd (ys @ [s])"
    then show "z \<notin> {f, pos, e}" using x1(2,3) [of z] pos by auto
  qed (use d c in auto)
  have s3: "chain (nxt h') (prv h') (x # us)"
  proof (rule upd)
    fix z assume "z \<in> set (x # us)" "z \<noteq> last (x # us)"
    then show "z \<notin> {pp, tmp, g}" using x2(1) [of z] y5(2) [of z] tmp by auto
  next
    fix z assume "z \<in> set (x # us)" "z \<noteq> hd (x # us)"
    then show "z \<notin> {f, pos, e}" using x2(2) [of z] y5(1) [of z] y4 [of z] by auto
  qed (use d c in auto)
  have s4: "chain (nxt h') (prv h') (vs @ [x])"
  proof (rule upd)
    fix z assume "z \<in> set (vs @ [x])" "z \<noteq> last (vs @ [x])"
    then show "z \<notin> {pp, tmp, g}" using x2(1) [of z] y5(2) [of z] y3 [of z] by auto
  next
    fix z assume "z \<in> set (vs @ [x])" "z \<noteq> hd (vs @ [x])"
    then show "z \<notin> {f, pos, e}" using x2(2) [of z] y5(1) [of z] e by auto
  qed (use d c4 in auto)
  have s5: "chain (nxt h') (prv h') fs"
  proof (rule upd)
    fix z assume "z \<in> set fs" "z \<noteq> last fs"
    then show "z \<notin> {pp, tmp, g}" using x2(1) [of z] y3 [of z] g by auto
  next
    fix z assume "z \<in> set fs" "z \<noteq> hd fs"
    then show "z \<notin> {f, pos, e}" using x2(2) [of z] y4 [of z] f by auto
  qed (use d c4 in auto)
  have ne2: "pp \<noteq> tmp" "pp \<noteq> g" "tmp \<noteq> g" 
    using x1(1,4) [of pp] mem(1) y5(2) [of tmp] mem(3) by auto
  have j: "nxt h' pp = f" "prv h' f = pp" "nxt h' g = pos" "prv h' pos = g"
      "nxt h' tmp = e" "prv h' e = tmp"
    using ne ne2 by (auto simp: h'_def)
  have "chain (nxt h') (prv h') (fs @ ys @ [s])"
    using s2 s5 j False by (simp add: chain_append f g pos)
  then have "dlist h' s (xs @ fs @ ys)"
    unfolding dlist_split using d dis lv s1 j False by (auto simp: h'_def pp pos f)
  moreover have "dlist h' x (us @ vs)"
    unfolding dlist_split using d lv s3 s4 j by (auto simp: h'_def tmp e)
  moreover have "heap_ok h'" using ok by (simp add: heap_ok_def h'_def)
  moreover have "same_outside (set (s # xs @ ys) \<union> set (x # us @ fs @ vs)) h h'"
    unfolding same_outside_def
  proof (intro allI impI)
    fix z assume "z \<notin> set (s # xs @ ys) \<union> set (x # us @ fs @ vs)"
    then have "z \<notin> {pp, pos, tmp, e, f, g}" using mem2 by blast
    then show "nxt h' z = nxt h z \<and> prv h' z = prv h z \<and> dat h' z = dat h z \<and> live h' z = live h z"
      by (simp add: h'_def)
  qed
  ultimately show ?thesis using run hf by (auto simp: h'_def pos e)
qed


text \<open>Splicing within one list exchanges two neighbouring segments; the code can be asked for it
  from either side.\<close>

lemma list_splice_self_correct:
  assumes ok: "heap_ok h" and l: "dlist h s (xs @ us @ vs @ ys)" and ne: "us \<noteq> []" "vs \<noteq> []"
  shows "\<exists>h'. list_splice h s' (hd (ys @ [s])) x' (hd us) (hd vs) = Inr h' \<and>
    list_splice h s' (hd us) x' (hd vs) (hd (ys @ [s])) = Inr h' \<and>
    dlist h' s (xs @ vs @ us @ ys) \<and> heap_ok h' \<and> dat h' = dat h \<and> brk h' = brk h \<and>
    room h' = room h \<and> live h' = live h \<and> same_outside (set (s # xs @ us @ vs @ ys)) h h'"
proof -
  define p q where p: "p = last (s # xs)" and q: "q = hd (ys @ [s])"
  define u u' v v' where u: "u = hd us" and u': "u' = last us" and v: "v = hd vs" and v': "v' = last vs"
  have d: "distinct (s # xs @ us @ vs @ ys)"
    and lv: "\<And>z. z \<in> set (s # xs @ us @ vs @ ys) \<Longrightarrow> live h z"
    and c1: "chain (nxt h) (prv h) (s # xs)" and "chain (nxt h) (prv h) (us @ vs @ ys @ [s])"
    and pu: "prv h u = p"
    using l ne unfolding dlist_split p u by (auto simp: hd_append)
  then have c: "chain (nxt h) (prv h) us" "chain (nxt h) (prv h) vs" "chain (nxt h) (prv h) (ys @ [s])"
    and pv: "prv h v = u'" and pq: "prv h q = v'"
    using ne unfolding q u' v v' by (auto simp: chain_append)
  have mem: "p \<in> set (s # xs)" "q \<in> insert s (set ys)" "u \<in> set us" "u' \<in> set us"
      "v \<in> set vs" "v' \<in> set vs"
    using last_cons [of s xs] hd_snoc [of ys s] ne unfolding p q u u' v v' by simp_all
  then have lvs: "live h p" "live h q" "live h u" "live h u'" "live h v"
      "live h v'"
    using lv by auto
  have n: "u \<noteq> v" "v \<noteq> u" "q \<noteq> u" "u \<noteq> q" "q \<noteq> v" "v \<noteq> q"
      "p \<noteq> u'" "p \<noteq> v'" "u' \<noteq> v'" "v' \<noteq> u'" "u' \<noteq> p"
      "v' \<noteq> p"
    using mem d by auto
  define h' where "h' = h\<lparr>nxt := (nxt h)(p := v, u' := q, v' := u),
      prv := (prv h)(u := v', v := p, q := u')\<rparr>"
  have run: "list_splice h s' q x' u v = Inr h'"
      "list_splice h s' u x' v q = Inr h'"
    using n lvs pu pv pq by (auto simp: list_splice_def mem_simps h'_def fun_upd_twist)
  have s1: "chain (nxt h') (prv h') (s # xs)"
    by (rule chain_left [OF c1 _ p]) (use d mem in \<open>auto simp: h'_def\<close>)
  have s2: "chain (nxt h') (prv h') us"
    by (rule chain_seg [OF c(1)]) (use d mem in \<open>auto simp: h'_def u u'\<close>)
  have s3: "chain (nxt h') (prv h') vs"
    by (rule chain_seg [OF c(2)]) (use d mem in \<open>auto simp: h'_def v v'\<close>)
  have s4: "chain (nxt h') (prv h') (ys @ [s])"
    by (rule chain_right [OF c(3) _ q]) (use d mem in \<open>auto simp: h'_def\<close>)
  have j: "nxt h' p = v" "prv h' v = p" "nxt h' u' = q" "prv h' q = u'"
      "nxt h' v' = u" "prv h' u = v'"
    using n by (auto simp: h'_def)
  have "chain (nxt h') (prv h') (vs @ us @ ys @ [s])"
    using s2 s3 s4 j ne by (simp add: chain_append q u u' v v')
  then have "dlist h' s (xs @ vs @ us @ ys)"
    unfolding dlist_split using d lv s1 j ne by (auto simp: h'_def p v)
  moreover have "heap_ok h'" using ok by (simp add: heap_ok_def h'_def)
  moreover have "same_outside (set (s # xs @ us @ vs @ ys)) h h'"
    using mem unfolding same_outside_def h'_def by auto
  ultimately show ?thesis using run by (auto simp: h'_def q u v)
qed

subsection \<open>Bulk insertion\<close>

lemma fill_loop_correct:
  assumes "heap_ok h" "dlist h x ps" "length ds \<le> room h"
  shows "\<exists>h'. fill_loop h x ds = Inr (True, h') \<and> dlist h' x (ps @ [brk h..<brk h + length ds]) \<and>
    heap_ok h' \<and> map (dat h') [brk h..<brk h + length ds] = ds \<and> brk h' = brk h + length ds \<and>
    room h' = room h - length ds \<and> same_outside (set (x # ps) \<union> {brk h..}) h h' \<and>
    (\<forall>a < brk h. dat h' a = dat h a)"
  using assms
proof (induction ds arbitrary: h ps)
  case Nil
  then show ?case by simp
next
  case (Cons d ds)
  obtain h1 where h1: "list_insert_ref h x x d = Inr (brk h, h1)" "dlist h1 x (ps @ [brk h])"
      "heap_ok h1" "dat h1 = (dat h)(brk h := d)" "brk h1 = brk h + 1" "room h1 = room h - 1"
      "same_outside ({brk h} \<union> set (x # ps)) h h1"
    using list_insert_ref_correct [of h x ps "[]" x x d] Cons.prems by auto
  have le: "length ds \<le> room h1" using Cons.prems(3) h1(6) by simp
  obtain h2 where h2': "fill_loop h1 x ds = Inr (True, h2)"
      "dlist h2 x ((ps @ [brk h]) @ [brk h1..<brk h1 + length ds])" "heap_ok h2"
      "map (dat h2) [brk h1..<brk h1 + length ds] = ds" "brk h2 = brk h1 + length ds"
      "room h2 = room h1 - length ds" "same_outside (set (x # ps @ [brk h]) \<union> {brk h1..}) h1 h2"
      "\<forall>a < brk h1. dat h2 a = dat h1 a"
    using Cons.IH [OF h1(3) h1(2) le] by blast
  note h2 = h2' [unfolded h1(5) h1(6)]
  have rng: "[brk h..<Suc (brk h + length ds)] = brk h # [Suc (brk h)..<Suc (brk h + length ds)]"
    by (simp add: upt_conv_Cons del: upt_Suc)
  have "same_outside (set (x # ps) \<union> {brk h..}) h h2"
    by (rule same_outside_trans [OF h1(7) h2(7)]) auto
  moreover have "brk h \<noteq> 0" using Cons.prems(1) by (simp add: heap_ok_def)
  moreover have "dat h2 (brk h) = d" using h2(8) h1(4) by simp
  ultimately show ?case using h1 h2 by (simp add: rng del: upt_Suc)
qed

text \<open>When an allocation fails on the way, the local list is cleared: everything that was
  allocated for it is freed again.\<close>

lemma fill_loop_fails:
  assumes "heap_ok h" "dlist h x ps" "room h < length ds"
  shows "\<exists>h'. fill_loop h x ds = Inr (False, h') \<and> dlist h' x [] \<and> heap_ok h' \<and> room h' = 0 \<and>
    same_outside (set (x # ps) \<union> {brk h..}) h h' \<and> (\<forall>a < brk h. dat h' a = dat h a) \<and>
    (\<forall>a \<in> set ps. \<not> live h' a) \<and> (\<forall>a \<ge> brk h. \<not> live h' a) \<and> brk h' = brk h + room h"
  using assms
proof (induction ds arbitrary: h ps)
  case Nil
  then show ?case by simp
next
  case (Cons d ds)
  show ?case
  proof (cases "room h = 0")
    case True
    obtain h1 where h1: "list_clear h x = Inr h1" "dlist h1 x []" "heap_ok h1" "dat h1 = dat h"
        "brk h1 = brk h" "room h1 = room h" "\<forall>a \<in> set ps. \<not> live h1 a"
        "same_outside (set (x # ps)) h h1"
      using list_clear_correct [OF Cons.prems(1,2)] by blast
    have "same_outside (set (x # ps) \<union> {brk h..}) h h1"
      by (rule same_outside_mono [OF h1(8)]) auto
    moreover have "\<forall>a \<ge> brk h. \<not> live h1 a" using h1(3,5) by (auto simp: heap_ok_def)
    ultimately show ?thesis using True h1 by (simp add: list_insert_ref_fails)
  next
    case False
    obtain h1 where h1: "list_insert_ref h x x d = Inr (brk h, h1)" "dlist h1 x (ps @ [brk h])"
        "heap_ok h1" "dat h1 = (dat h)(brk h := d)" "brk h1 = brk h + 1" "room h1 = room h - 1"
        "same_outside ({brk h} \<union> set (x # ps)) h h1"
      using list_insert_ref_correct [of h x ps "[]" x x d] Cons.prems False by auto
    have le: "room h1 < length ds" using Cons.prems(3) False h1(6) by simp
    obtain h2 where h2': "fill_loop h1 x ds = Inr (False, h2)" "dlist h2 x []" "heap_ok h2"
        "room h2 = 0" "same_outside (set (x # ps @ [brk h]) \<union> {brk h1..}) h1 h2"
        "\<forall>a < brk h1. dat h2 a = dat h1 a" "\<forall>a \<in> set (ps @ [brk h]). \<not> live h2 a"
        "\<forall>a \<ge> brk h1. \<not> live h2 a" "brk h2 = brk h1 + room h1"
      using Cons.IH [OF h1(3) h1(2) le] by blast
    note h2 = h2' [unfolded h1(5) h1(6)]
    have "same_outside (set (x # ps) \<union> {brk h..}) h h2"
      by (rule same_outside_trans [OF h1(7) h2(5)]) auto
    moreover have "brk h \<noteq> 0" using Cons.prems(1) by (simp add: heap_ok_def)
    moreover have "\<forall>a \<ge> brk h. \<not> live h2 a"
      using h2(7,8) by (metis Suc_eq_plus1 Suc_leI in_set_conv_decomp le_less)
    ultimately show ?thesis using h1 h2 False by simp
  qed
qed


lemma drop_node_correct:
  assumes "dlist h s ps" "x \<notin> set (s # ps)" "heap_ok h"
  shows "dlist (drop_node h x) s ps" "heap_ok (drop_node h x)" "same_outside {x} h (drop_node h x)"
  using assms by (auto simp: dlist_def heap_ok_def drop_node_def same_outside_def)

text \<open>The common end of the bulk insertions: the local list \<open>x\<close> is spliced in and goes away.\<close>

lemma splice_local_correct:
  assumes "heap_ok h" "dlist h s (xs @ ys)" "dlist h x ns" "set (s # xs @ ys) \<inter> set (x # ns) = {}"
    "pos = hd (ys @ [s])"
  shows "\<exists>h'. rbind (rd_next h x) (\<lambda>b. rbind (list_splice h s' pos x b x)
      (\<lambda>h3. Inr (True, drop_node h3 x))) = Inr (True, h') \<and>
    dlist h' s (xs @ ns @ ys) \<and> heap_ok h' \<and> dat h' = dat h \<and> brk h' = brk h \<and> room h' = room h \<and>
    \<not> live h' x \<and> same_outside (set (s # xs @ ys) \<union> set (x # ns)) h h'"
proof -
  have b: "rd_next h x = Inr (hd (ns @ [x]))"
    using assms(3) dlist_split [of h x "[]" ns] by (simp add: mem_simps)
  obtain h1 where h1: "list_splice h s' pos x (hd (ns @ [x])) x = Inr h1"
      "dlist h1 s (xs @ ns @ ys)" "heap_ok h1" "dat h1 = dat h" "brk h1 = brk h" "room h1 = room h"
      "same_outside (set (s # xs @ ys) \<union> set (x # ns)) h h1"
    using list_splice_correct [of h s xs ys x "[]" ns "[]" s' x] assms by auto
  have x: "x \<notin> set (s # xs @ ns @ ys)" using assms(3,4) by (auto simp: dlist_def)
  note d = drop_node_correct [OF h1(2) x h1(3)]
  have "same_outside (set (s # xs @ ys) \<union> set (x # ns)) h (drop_node h1 x)"
    by (rule same_outside_trans [OF h1(7) d(3)]) auto
  with h1 b d show ?thesis by (auto simp: drop_node_def)
qed

lemma list_insert_values_correct:
  assumes "heap_ok h" "dlist h s (xs @ ys)" "pos = hd (ys @ [s])" "length ds \<le> room h"
  shows "\<exists>h'. list_insert_values h s' pos ds = Inr (True, h') \<and>
    dlist h' s (xs @ [brk h + 1..<brk h + 1 + length ds] @ ys) \<and> heap_ok h' \<and>
    map (dat h') [brk h + 1..<brk h + 1 + length ds] = ds \<and> (\<forall>a < brk h. dat h' a = dat h a) \<and>
    room h' = room h - length ds \<and> same_outside (set (s # xs @ ys) \<union> {brk h..}) h h'"
proof -
  let ?ns = "[brk h + 1..<brk h + 1 + length ds]"
  obtain h1 where h1: "local_list h = Inr (brk h, h1)" "dlist h1 (brk h) []" "heap_ok h1"
      "same_outside {brk h} h h1" "brk h1 = brk h + 1" "room h1 = room h" "dat h1 = dat h"
    using local_list_correct [OF assms(1)] by blast
  have le: "length ds \<le> room h1" using assms(4) h1(6) by simp
  obtain h2 where h2': "fill_loop h1 (brk h) ds = Inr (True, h2)"
      "dlist h2 (brk h) ([] @ [brk h1..<brk h1 + length ds])" "heap_ok h2"
      "map (dat h2) [brk h1..<brk h1 + length ds] = ds" "brk h2 = brk h1 + length ds"
      "room h2 = room h1 - length ds" "same_outside (set [brk h] \<union> {brk h1..}) h1 h2"
      "\<forall>a < brk h1. dat h2 a = dat h1 a"
    using fill_loop_correct [OF h1(3) h1(2) le] by blast
  note h2 = h2' [unfolded h1(5) h1(6) append_Nil]
  have lt: "a < brk h" if "a \<in> set (s # xs @ ys)" for a
    using that assms(1,2) unfolding dlist_def heap_ok_def by blast
  have so: "same_outside {brk h..} h h2"
    by (rule same_outside_trans [OF h1(4) h2(7)]) auto
  have dis: "set (s # xs @ ys) \<inter> {brk h..} = {}" using lt by fastforce
  have l2: "dlist h2 s (xs @ ys)" by (rule dlist_frame [OF assms(2) so dis])
  have dj: "set (s # xs @ ys) \<inter> set (brk h # ?ns) = {}" using dis by fastforce
  obtain h' where h': "rbind (rd_next h2 (brk h)) (\<lambda>b. rbind (list_splice h2 s' pos (brk h) b (brk h))
      (\<lambda>h3. Inr (True, drop_node h3 (brk h)))) = Inr (True, h')"
      "dlist h' s (xs @ ?ns @ ys)" "heap_ok h'" "dat h' = dat h2" "room h' = room h2"
      "same_outside (set (s # xs @ ys) \<union> set (brk h # ?ns)) h2 h'"
    using splice_local_correct [OF h2(3) l2 h2(2) dj assms(3), of s']
    by (elim exE conjE) (rule that)
  have "same_outside (set (s # xs @ ys) \<union> {brk h..}) h h'"
    by (rule same_outside_trans [OF so h'(6)]) auto
  moreover have "list_insert_values h s' pos ds = Inr (True, h')"
    using h1(1) h2(1) h'(1) by (simp add: list_insert_values_def)
  ultimately show ?thesis using h' h2 h1(7) by auto
qed

text \<open>A bulk insertion that runs out of memory leaves the list as it was and leaks nothing.\<close>

lemma list_insert_values_fails:
  assumes "heap_ok h" "dlist h s (xs @ ys)" "room h < length ds"
  shows "\<exists>h'. list_insert_values h s' pos ds = Inr (False, h') \<and> dlist h' s (xs @ ys) \<and>
    heap_ok h' \<and> same_outside {brk h..} h h' \<and> live h' = live h"
proof -
  obtain h1 where h1: "local_list h = Inr (brk h, h1)" "dlist h1 (brk h) []" "heap_ok h1"
      "same_outside {brk h} h h1" "brk h1 = brk h + 1" "room h1 = room h"
    using local_list_correct [OF assms(1)] by blast
  have le: "room h1 < length ds" using assms(3) h1(6) by simp
  obtain h2 where h2: "fill_loop h1 (brk h) ds = Inr (False, h2)" "dlist h2 (brk h) []" "heap_ok h2"
      "same_outside (set [brk h] \<union> {brk h1..}) h1 h2" "\<forall>a \<ge> brk h1. \<not> live h2 a"
    using fill_loop_fails [OF h1(3) h1(2) le] by blast
  have lt: "a < brk h" if "a \<in> set (s # xs @ ys)" for a
    using that assms(1,2) unfolding dlist_def heap_ok_def by blast
  have so: "same_outside {brk h..} h h2"
    by (rule same_outside_trans [OF h1(4) h2(4)]) (use h1(5) in auto)
  have dis: "set (s # xs @ ys) \<inter> {brk h..} = {}" using lt by fastforce
  have l2: "dlist h2 s (xs @ ys)" by (rule dlist_frame [OF assms(2) so dis])
  have x: "brk h \<notin> set (s # xs @ ys)" using lt by blast
  note d = drop_node_correct [OF l2 x h2(3)]
  have so': "same_outside {brk h..} h (drop_node h2 (brk h))"
    by (rule same_outside_trans [OF so d(3)]) auto
  have "live (drop_node h2 (brk h)) a = live h a" for a
  proof (cases "a < brk h")
    case True
    with so' show ?thesis by (simp add: same_outside_def)
  next
    case False
    then have "\<not> live h a" using assms(1) by (auto simp: heap_ok_def)
    moreover have "a = brk h \<or> brk h1 \<le> a" using False h1(5) by auto
    ultimately show ?thesis using h2(5) by (auto simp: drop_node_def)
  qed
  then show ?thesis using h1(1) h2(1) d so' by (auto simp: list_insert_values_def)
qed

lemma list_insert_array_correct:
  assumes "heap_ok h" "dlist h s (xs @ ys)" "pos = hd (ys @ [s])" "n \<le> length data"
  shows "\<exists>h' ns. list_insert_array h s' pos data n = Inr (n \<le> room h, h') \<and>
    dlist h' s (xs @ ns @ ys) \<and> heap_ok h' \<and>
    map (dat h') ns = (if n \<le> room h then take n data else []) \<and> (\<forall>a < brk h. dat h' a = dat h a) \<and>
    same_outside (set (s # xs @ ys) \<union> {brk h..}) h h'"
proof (cases "n \<le> room h")
  case True
  with list_insert_values_correct [of h s xs ys pos "take n data" s'] assms show ?thesis
    by (auto simp: list_insert_array_def simp del: upt_Suc)
next
  case False
  then obtain h' where h': "list_insert_values h s' pos (take n data) = Inr (False, h')"
      "dlist h' s (xs @ ys)" "heap_ok h'" "same_outside {brk h..} h h'"
    using list_insert_values_fails [OF assms(1,2), of "take n data" s' pos] assms(4) by auto
  have "same_outside (set (s # xs @ ys) \<union> {brk h..}) h h'"
    by (rule same_outside_mono [OF h'(4)]) auto
  moreover have "\<forall>a < brk h. dat h' a = dat h a" using h'(4) by (auto simp: same_outside_def)
  ultimately show ?thesis using h' False assms(4)
    by (auto simp: list_insert_array_def intro!: exI [of _ "[]"])
qed


lemma range_loop_fill:
  assumes "heap_ok h" "dlist h t (us @ fs @ vs)" "dlist h x ps"
    "set (t # us @ fs @ vs) \<inter> set (x # ps) = {}" "length fs \<le> n"
  shows "range_loop n h x (hd (fs @ vs @ [t])) (hd (vs @ [t])) = fill_loop h x (map (dat h) fs)"
  using assms
proof (induction fs arbitrary: n h us ps)
  case Nil
  then show ?case by (cases n) auto
next
  case (Cons f fs)
  then obtain m where m: "n = Suc m" "length fs \<le> m" by (cases n) auto
  have l: "dlist h t ((us @ [f]) @ (fs @ vs))" using Cons.prems(2) by simp
  then have f: "live h f" "nxt h f = hd (fs @ vs @ [t])" unfolding dlist_split by auto
  have d: "distinct (t # us @ f # fs @ vs)" using Cons.prems(2) by (simp add: dlist_def)
  have ne: "f \<noteq> hd (vs @ [t])" using hd_snoc [of vs t] d by auto
  show ?case
  proof (cases "room h = 0")
    case True
    with m f ne show ?thesis by (simp add: list_insert_ref_fails mem_simps)
  next
    case False
    obtain h1 where h1: "list_insert_ref h x x (dat h f) = Inr (brk h, h1)"
        "dlist h1 x (ps @ [brk h])" "heap_ok h1" "dat h1 = (dat h)(brk h := dat h f)"
        "same_outside ({brk h} \<union> set (x # ps)) h h1"
      using list_insert_ref_correct [of h x ps "[]" x x "dat h f"] Cons.prems False by auto
    have lt: "a < brk h" if "a \<in> set (t # us @ f # fs @ vs)" for a
      using that Cons.prems(1,2) unfolding dlist_def heap_ok_def by auto
    have dis: "set (t # us @ f # fs @ vs) \<inter> ({brk h} \<union> set (x # ps)) = {}"
      using Cons.prems(4) lt by auto
    have "dlist h1 t (us @ f # fs @ vs)"
      by (rule dlist_frame [OF _ h1(5) dis]) (use Cons.prems(2) in simp)
    then have l1: "dlist h1 t ((us @ [f]) @ fs @ vs)" by simp
    have "set (t # (us @ [f]) @ fs @ vs) \<inter> set (x # ps @ [brk h]) = {}" using dis by auto
    note IH = Cons.IH [OF h1(3) l1 h1(2) this m(2)]
    have nf: "rd_next h1 f = Inr (hd (fs @ vs @ [t]))"
      using l1 unfolding dlist_split by (simp add: mem_simps)
    have mp: "map (dat h1) fs = map (dat h) fs" using h1(4) lt by auto
    have "brk h \<noteq> 0" using Cons.prems(1) by (simp add: heap_ok_def)
    then show ?thesis using m f ne h1(1) IH [unfolded mp] nf by (simp add: rd_data_def acc_def)
  qed
qed

lemma list_insert_range_values:
  assumes "heap_ok h" "dlist h t (us @ fs @ vs)"
  shows "list_insert_range h s' pos (hd (fs @ vs @ [t])) (hd (vs @ [t])) =
    list_insert_values h s' pos (map (dat h) fs)"
proof -
  obtain h1 where h1: "local_list h = Inr (brk h, h1)" "dlist h1 (brk h) []" "heap_ok h1"
      "same_outside {brk h} h h1" "dat h1 = dat h"
    using local_list_correct [OF assms(1)] by blast
  have "brk h \<notin> set (t # us @ fs @ vs)"
    using assms unfolding dlist_def heap_ok_def by blast
  then have dis: "set (t # us @ fs @ vs) \<inter> {brk h} = {}" by blast
  have l: "dlist h1 t (us @ fs @ vs)" by (rule dlist_frame [OF assms(2) h1(4) dis])
  have "length fs \<le> brk h" using dlist_length [OF assms] by simp
  from range_loop_fill [OF h1(3) l h1(2) _ this] dis h1(1,5) show ?thesis
    by (simp add: list_insert_range_def list_insert_values_def)
qed

lemma pop_loop_correct:
  assumes "heap_ok h" "dlist h s (ps @ fs)"
  shows "\<exists>h'. pop_loop (length fs) h s = Inr h' \<and> dlist h' s ps \<and> heap_ok h' \<and> dat h' = dat h \<and>
    same_outside (set (s # ps @ fs)) h h'"
  using assms
proof (induction fs arbitrary: h rule: rev_induct)
  case Nil
  then show ?case by auto
next
  case (snoc f fs)
  have p: "rd_prev h s = Inr f"
    using snoc.prems(2) dlist_split [of h s "ps @ fs @ [f]" "[]"] by (simp add: mem_simps)
  obtain h1 where h1: "list_erase h s f = Inr (s, h1)" "dlist h1 s (ps @ fs)" "heap_ok h1"
      "dat h1 = dat h" "same_outside (set (s # (ps @ fs) @ [f])) h h1"
    using list_erase_correct [of h s "ps @ fs" f "[]" s] snoc.prems by auto
  obtain h2 where h2: "pop_loop (length fs) h1 s = Inr h2" "dlist h2 s ps" "heap_ok h2"
      "dat h2 = dat h1" "same_outside (set (s # ps @ fs)) h1 h2"
    using snoc.IH [OF h1(3,2)] by blast
  have "same_outside (set (s # ps @ fs @ [f])) h h2"
    by (rule same_outside_trans [OF h1(5) h2(5)]) auto
  with p h1 h2 show ?case by simp
qed

lemma list_resize_values:
  assumes "heap_ok h" "dlist h s ps" "length ps < n"
  shows "list_resize h s n d = list_insert_values h s s (replicate (n - length ps) d)"
  using assms(3) by (simp add: list_resize_def list_insert_values_def list_size_correct [OF assms(1,2)])

text \<open>\<open>resize\<close> truncates or pads with copies; when memory runs out it changes nothing.\<close>

lemma list_resize_correct:
  assumes "heap_ok h" "dlist h s ps"
  shows "\<exists>h' qs. list_resize h s n d = Inr (n - length ps \<le> room h, h') \<and> heap_ok h' \<and>
    dlist h' s qs \<and> (\<forall>a < brk h. dat h' a = dat h a) \<and>
    map (dat h') qs = (if n - length ps \<le> room h
      then map (dat h) (take n ps) @ replicate (n - length ps) d else map (dat h) ps) \<and>
    same_outside (set (s # ps) \<union> {brk h..}) h h'"
proof (cases "length ps < n")
  case False
  then have le: "n \<le> length ps" by simp
  obtain h' where h': "pop_loop (length (drop n ps)) h s = Inr h'" "dlist h' s (take n ps)" "heap_ok h'"
      "dat h' = dat h" "same_outside (set (s # take n ps @ drop n ps)) h h'"
    using pop_loop_correct [of h s "take n ps" "drop n ps"] assms by auto
  have "same_outside (set (s # ps) \<union> {brk h..}) h h'"
    by (rule same_outside_mono [OF h'(5)]) auto
  with h' le show ?thesis
    by (auto simp: list_resize_def list_size_correct [OF assms] intro!: exI [of _ "take n ps"])
next
  case True
  let ?ds = "replicate (n - length ps) d"
  have lt: "a < brk h" if "a \<in> set ps" for a
    using that assms unfolding dlist_def heap_ok_def by auto
  show ?thesis
  proof (cases "n - length ps \<le> room h")
    case room: True
    let ?ns = "[brk h + 1..<brk h + 1 + length ?ds]"
    obtain h' where h': "list_insert_values h s s ?ds = Inr (True, h')"
        "dlist h' s (ps @ ?ns @ [])" "heap_ok h'" "map (dat h') ?ns = ?ds"
        "\<forall>a < brk h. dat h' a = dat h a" "same_outside (set (s # ps @ []) \<union> {brk h..}) h h'"
      using list_insert_values_correct [of h s ps "[]" s ?ds s] assms room by auto
    have "map (dat h') (ps @ ?ns) = map (dat h) ps @ ?ds" using h'(4,5) lt by auto
    with h' room True show ?thesis
      by (auto simp: list_resize_values [OF assms True] simp del: upt_Suc intro!: exI [of _ "ps @ ?ns"])
  next
    case room: False
    obtain h' where h': "list_insert_values h s s ?ds = Inr (False, h')" "dlist h' s (ps @ [])"
        "heap_ok h'" "same_outside {brk h..} h h'"
      using list_insert_values_fails [of h s ps "[]" ?ds s s] assms room by auto
    have so: "same_outside (set (s # ps) \<union> {brk h..}) h h'"
      by (rule same_outside_mono [OF h'(4)]) auto
    have "\<forall>a < brk h. dat h' a = dat h a" using h'(4) by (auto simp: same_outside_def)
    with so h' room True lt show ?thesis
      by (auto simp: list_resize_values [OF assms True] intro!: exI [of _ ps])
  qed
qed

subsection \<open>Swapping and reversing\<close>

lemma dlist_circle: "ps \<noteq> [] \<Longrightarrow> dlist h s ps \<longleftrightarrow> distinct (s # ps) \<and>
    (\<forall>a \<in> set (s # ps). live h a) \<and> chain (nxt h) (prv h) ps \<and> nxt h s = hd ps \<and>
    prv h (hd ps) = s \<and> nxt h (last ps) = s \<and> prv h s = last ps"
  unfolding dlist_def using chain_append [of "[s]" "ps @ [s]" "nxt h" "prv h"]
    chain_append [of ps "[s]" "nxt h" "prv h"] by auto

lemma list_swap_correct:
  assumes ok: "heap_ok h" and l: "dlist h s ps" "dlist h x qs" and ne: "ps \<noteq> []" "qs \<noteq> []"
    and dis: "set (s # ps) \<inter> set (x # qs) = {}"
  shows "\<exists>h'. list_swap h s x = Inr h' \<and> dlist h' s qs \<and> dlist h' x ps \<and> heap_ok h' \<and>
    dat h' = dat h \<and> live h' = live h \<and> same_outside (set (s # ps) \<union> set (x # qs)) h h'"
proof -
  define a b c d where abcd: "a = hd ps" "b = last ps" "c = hd qs" "d = last qs"
  note L = l [unfolded dlist_circle [OF ne(1)] dlist_circle [OF ne(2)], folded abcd]
  have mem: "a \<in> set ps" "b \<in> set ps" "c \<in> set qs" "d \<in> set qs" using ne abcd by auto
  have D: "distinct (s # ps)" "distinct (x # qs)" and lvs: "\<forall>z \<in> set (s # ps). live h z"
      "\<forall>z \<in> set (x # qs). live h z"
    using L by blast+
  have lv: "live h s" "live h x" "live h a" "live h b" "live h c" "live h d"
    using lvs mem by auto
  have n: "s \<noteq> x" "s \<noteq> a" "s \<noteq> b" "s \<noteq> c" "s \<noteq> d" "x \<noteq> a" "x \<noteq> b" "x \<noteq> c" "x \<noteq> d" "a \<noteq> c" "b \<noteq> d"
    using D mem dis by auto
  define h' where "h' = h\<lparr>prv := (prv h)(a := x, c := s, s := d, x := b),
     nxt := (nxt h)(b := x, d := s, s := c, x := a)\<rparr>"
  have run: "list_swap h s x = Inr h'"
    using lv n n [symmetric] L by (simp add: list_swap_def mem_simps h'_def)
  have c1: "chain (nxt h') (prv h') ps"
    by (rule chain_seg [of "nxt h" "prv h"]) (use L(1) D mem dis abcd in \<open>auto simp: h'_def\<close>)
  have c2: "chain (nxt h') (prv h') qs"
    by (rule chain_seg [of "nxt h" "prv h"]) (use L mem dis abcd in \<open>auto simp: h'_def\<close>)
  have D2: "distinct (s # qs)" "distinct (x # ps)" using D dis by auto
  have "dlist h' s qs" "dlist h' x ps"
    unfolding dlist_circle [OF ne(1)] dlist_circle [OF ne(2)] abcd [symmetric]
    using c1 c2 D2 lvs n n [symmetric] by (simp_all add: h'_def)
  moreover have "heap_ok h'" using ok by (simp add: heap_ok_def h'_def)
  moreover have "same_outside (set (s # ps) \<union> set (x # qs)) h h'"
    unfolding same_outside_def
  proof (intro allI impI)
    fix z assume "z \<notin> set (s # ps) \<union> set (x # qs)"
    then have "z \<notin> {s, x, a, b, c, d}" using mem by auto
    then show "nxt h' z = nxt h z \<and> prv h' z = prv h z \<and> dat h' z = dat h z \<and> live h' z = live h z"
      by (simp add: h'_def)
  qed
  ultimately show ?thesis using run by (auto simp: h'_def)
qed

text \<open>If either list is empty the four exchanges at the neighbours overwrite the sentinel they
  start from: afterwards each sentinel's \<open>next\<close> is the other sentinel, and the elements of the
  other list are no longer reachable from either.\<close>

lemma list_swap_empty:
  assumes l: "dlist h s ps" "dlist h x qs" and e: "ps = [] \<or> qs = []"
    and dis: "set (s # ps) \<inter> set (x # qs) = {}"
  shows "\<exists>h'. list_swap h s x = Inr h' \<and> nxt h' s = x \<and> nxt h' x = s"
proof (cases "ps = []")
  case True
  with l dis show ?thesis
    by (cases qs) (auto simp: list_swap_def mem_simps dlist_def)
next
  case False
  with e have q: "qs = []" by simp
  define a b where ab: "a = hd ps" "b = last ps"
  note L = l(1) [unfolded dlist_circle [OF False], folded ab]
  have mem: "a \<in> set ps" "b \<in> set ps" using False ab by auto
  have "live h s" "live h x" "live h a" "live h b" "s \<noteq> x" "a \<noteq> x" "b \<noteq> x" "a \<noteq> s" "b \<noteq> s"
      "nxt h x = x" "prv h x = x"
    using L mem dis l(2) q by (auto simp: dlist_def)
  with L show ?thesis by (simp add: list_swap_def mem_simps)
qed

lemma chain_rev: "chain n p xs \<Longrightarrow> chain p n (rev xs)"
proof (induction xs rule: induct_list012)
  case (3 a b xs)
  then have "chain p n (rev (b # xs))" by simp
  with 3 show ?case by (simp add: chain_append [of "rev xs @ [b]" "[a]"] del: append_assoc)
qed auto

fun npath :: "(nat \<Rightarrow> nat) \<Rightarrow> nat list \<Rightarrow> nat \<Rightarrow> bool" where
  "npath n [] t = True"
| "npath n (a # as) t = (n a = hd (as @ [t]) \<and> npath n as t)"

lemma chain_npath: "chain n p (xs @ [t]) \<Longrightarrow> npath n xs t"
  by (induction xs rule: induct_list012) auto

lemma npath_upd: "a \<notin> set as \<Longrightarrow> npath (n(a := b)) as t = npath n as t"
  by (induction as) auto

lemma reverse_loop_correct:
  assumes "npath (nxt h) (p # ps) s" "distinct (p # ps)" "\<forall>a \<in> set (p # ps). live h a"
    "s \<notin> set ps" "length ps < n"
  shows "\<exists>h'. reverse_loop n h s p = Inr h' \<and> dat h' = dat h \<and> live h' = live h \<and> brk h' = brk h \<and>
    room h' = room h \<and>
    (\<forall>a. nxt h' a = (if a \<in> set (p # ps) then prv h a else nxt h a) \<and>
         prv h' a = (if a \<in> set (p # ps) then nxt h a else prv h a))"
  using assms
proof (induction ps arbitrary: h p n)
  case Nil
  then obtain m where "n = Suc m" by (cases n) auto
  with Nil show ?case by (auto simp: mem_simps)
next
  case (Cons q ps)
  obtain m where m: "n = Suc m" "length ps < m" using Cons.prems(5) by (cases n) auto
  define h1 where "h1 = h\<lparr>nxt := (nxt h)(p := prv h p), prv := (prv h)(p := q)\<rparr>"
  have pre: "npath (nxt h1) (q # ps) s"
    using Cons.prems(1,2) npath_upd [of p ps] by (simp add: h1_def)
  have pre2: "distinct (q # ps)" "\<forall>a \<in> set (q # ps). live h1 a" "s \<notin> set ps"
    using Cons.prems by (auto simp: h1_def)
  obtain h' where h': "reverse_loop m h1 s q = Inr h'" "dat h' = dat h1" "live h' = live h1"
      "brk h' = brk h1" "room h' = room h1"
      "\<forall>a. nxt h' a = (if a \<in> set (q # ps) then prv h1 a else nxt h1 a) \<and>
         prv h' a = (if a \<in> set (q # ps) then nxt h1 a else prv h1 a)"
    using Cons.IH [OF pre pre2 m(2)] by blast
  have run: "reverse_loop n h s p = reverse_loop m h1 s q"
    using m Cons.prems by (auto simp: mem_simps h1_def)
  show ?case
    by (rule exI [of _ h']) (use run h' Cons.prems in \<open>auto simp: h1_def\<close>)
qed

lemma list_reverse_correct:
  assumes ok: "heap_ok h" and l: "dlist h s ps"
  shows "\<exists>h'. list_reverse h s = Inr h' \<and> dlist h' s (rev ps) \<and> heap_ok h' \<and> dat h' = dat h \<and>
    live h' = live h \<and> same_outside (set (s # ps)) h h'"
proof -
  have c: "chain (nxt h) (prv h) (s # ps @ [s])" and d: "distinct (s # ps)"
    and lv: "\<forall>a \<in> set (s # ps). live h a"
    using l by (auto simp: dlist_def)
  have "npath (nxt h) (s # ps) s" by (rule chain_npath) (use c in simp)
  then obtain h' where h': "list_reverse h s = Inr h'" "dat h' = dat h" "live h' = live h"
      "brk h' = brk h" "\<And>a. nxt h' a = (if a \<in> set (s # ps) then prv h a else nxt h a)"
      "\<And>a. prv h' a = (if a \<in> set (s # ps) then nxt h a else prv h a)"
    using reverse_loop_correct [of h s ps s "brk h"] d lv dlist_length [OF ok l]
    by (auto simp: list_reverse_def)
  have "chain (prv h) (nxt h) (rev (s # ps @ [s]))" by (rule chain_rev [OF c])
  also have "chain (prv h) (nxt h) (rev (s # ps @ [s])) = chain (nxt h') (prv h') (rev (s # ps @ [s]))"
    by (rule chain_cong) (auto simp: h' butlast_append dest: in_set_butlastD)
  finally have "dlist h' s (rev ps)" using d lv h'(3) by (auto simp: dlist_def)
  moreover have "heap_ok h'" using ok h'(3,4) by (simp add: heap_ok_def)
  moreover have "same_outside (set (s # ps)) h h'" using h' by (auto simp: same_outside_def)
  ultimately show ?thesis using h' by auto
qed

end
