(* ===== verification/Stable_Merge.thy ===== *)
theory Stable_Merge
  imports Prelude "HOL-Library.Multiset"
begin

text \<open>
  Stable merging and merge sort on lists, the recursions that \<open>cstl/list.h\<close> and
  \<open>cstl/algorithm.h\<close> carry out in place: sorting, and stable, for every total preorder \<open>le\<close>.
\<close>

subsection \<open>The recursion\<close>

fun amerge :: "('b \<Rightarrow> 'b \<Rightarrow> bool) \<Rightarrow> 'b list \<Rightarrow> 'b list \<Rightarrow> 'b list" where
  "amerge le (x # xs) (y # ys) =
     (if le x y then x # amerge le xs (y # ys) else y # amerge le (x # xs) ys)"
| "amerge le xs [] = xs"
| "amerge le [] ys = ys"

lemma amerge_Nil1 [simp]: "amerge le [] ys = ys"
  by (cases ys) auto

lemma mset_amerge: "mset (amerge le xs ys) = mset xs + mset ys"
  by (induction le xs ys rule: amerge.induct) auto

lemma set_amerge: "set (amerge le xs ys) = set xs \<union> set ys"
  using arg_cong [OF mset_amerge, of set_mset] by simp

lemma length_amerge: "length (amerge le xs ys) = length xs + length ys"
  using arg_cong [OF mset_amerge, of size] by simp

function amsort :: "('b \<Rightarrow> 'b \<Rightarrow> bool) \<Rightarrow> 'b list \<Rightarrow> 'b list" where
  "amsort le xs = (if length xs \<le> 1 then xs else
     amerge le (amsort le (take ((length xs + 1) div 2) xs)) (amsort le (drop ((length xs + 1) div 2) xs)))"
  by pat_completeness auto
termination by (relation "measure (\<lambda>(le, xs). length xs)") auto

declare amsort.simps [simp del]

lemma mset_amsort: "mset (amsort le xs) = mset xs"
proof (induction le xs rule: amsort.induct)
  case (1 le xs)
  let ?k = "(length xs + 1) div 2"
  show ?case
  proof (cases "length xs \<le> 1")
    case False
    then have "mset (amsort le xs) = mset (take ?k xs) + mset (drop ?k xs)"
      using 1 by (subst amsort.simps) (simp add: mset_amerge)
    also have "\<dots> = mset xs" by (metis append_take_drop_id mset_append)
    finally show ?thesis .
  qed (simp add: amsort.simps)
qed

lemma set_amsort: "set (amsort le xs) = set xs"
  using arg_cong [OF mset_amsort, of set_mset] by simp

lemma distinct_amsort: "distinct (amsort le xs) = distinct xs"
  by (rule mset_eq_imp_distinct_iff) (rule mset_amsort)

lemma amsort_Nil_iff: "amsort le xs = [] \<longleftrightarrow> xs = []"
  using set_amsort [of le xs] by (metis set_empty)

lemma amerge_sorted:
  assumes "\<And>a b. le a b \<or> le b a" "\<And>a b c. le a b \<Longrightarrow> le b c \<Longrightarrow> le a c"
    and "sorted_wrt le xs" "sorted_wrt le ys"
  shows "sorted_wrt le (amerge le xs ys)"
  using assms
proof (induction le xs ys rule: amerge.induct)
  case (1 le x xs y ys)
  note tot = "1.prems"(1) and tr = "1.prems"(2)
  show ?case
  proof (cases "le x y")
    case True
    have "sorted_wrt le (amerge le xs (y # ys))" using "1.IH"(1) [OF True] "1.prems" by auto
    moreover have "\<forall>c. le y c \<longrightarrow> le x c" using tr True by blast
    then have "\<forall>z \<in> set (amerge le xs (y # ys)). le x z"
      using "1.prems"(3,4) True by (auto simp: set_amerge)
    ultimately show ?thesis using True by simp
  next
    case False
    then have yx: "le y x" using tot by blast
    have "sorted_wrt le (amerge le (x # xs) ys)" using "1.IH"(2) [OF False] "1.prems" by auto
    moreover have "\<forall>c. le x c \<longrightarrow> le y c" using tr yx by blast
    then have "\<forall>z \<in> set (amerge le (x # xs) ys). le y z"
      using "1.prems"(3,4) yx by (auto simp: set_amerge)
    ultimately show ?thesis using False by simp
  qed
qed auto

lemma amsort_sorted:
  assumes "\<And>a b. le a b \<or> le b a" "\<And>a b c. le a b \<Longrightarrow> le b c \<Longrightarrow> le a c"
  shows "sorted_wrt le (amsort le xs)"
  using assms
proof (induction le xs rule: amsort.induct)
  case (1 le xs)
  show ?case
  proof (cases "length xs \<le> 1")
    case True
    then show ?thesis by (cases xs) (auto simp: amsort.simps)
  next
    case False
    have s: "sorted_wrt le (amsort le (take ((length xs + 1) div 2) xs))"
        "sorted_wrt le (amsort le (drop ((length xs + 1) div 2) xs))"
      using 1 False by blast+
    show ?thesis
      using amerge_sorted [OF 1(3,4) s] False by (simp add: amsort.simps [of le xs])
  qed
qed

text \<open>Stability: elements that compare equal keep their order.\<close>

lemma filter_amerge:
  assumes tr: "\<And>a b c. le a b \<Longrightarrow> le b c \<Longrightarrow> le a c" and P: "\<And>a b. P a \<Longrightarrow> P b \<Longrightarrow> le a b"
    and "sorted_wrt le xs"
  shows "filter P (amerge le xs ys) = filter P xs @ filter P ys"
  using assms
proof (induction le xs ys rule: amerge.induct)
  case (1 le x xs y ys)
  show ?case
  proof (cases "le x y")
    case True
    with 1 show ?thesis by simp
  next
    case False
    have no: "\<not> P y \<or> (\<forall>z \<in> set (x # xs). \<not> P z)"
    proof (rule ccontr)
      assume "\<not> ?thesis"
      then obtain z where z: "P y" "z \<in> set (x # xs)" "P z" by blast
      then have "z = x \<or> le x z" using "1.prems"(3) by auto
      with z 1(4) [of z y] 1(3) [of x z y] False show False by blast
    qed
    have "filter P (amerge le (x # xs) ys) = filter P (x # xs) @ filter P ys"
      using "1.IH"(2) [OF False] "1.prems" by auto
    with no False show ?thesis by (auto simp: filter_empty_conv)
  qed
qed auto


lemma filter_amsort:
  assumes "\<And>a b. le a b \<or> le b a" "\<And>a b c. le a b \<Longrightarrow> le b c \<Longrightarrow> le a c"
    and "\<And>a b. P a \<Longrightarrow> P b \<Longrightarrow> le a b"
  shows "filter P (amsort le xs) = filter P xs"
  using assms
proof (induction le xs rule: amsort.induct)
  case (1 le xs)
  let ?k = "(length xs + 1) div 2"
  show ?case
  proof (cases "length xs \<le> 1")
    case False
    have s: "sorted_wrt le (amsort le (take ?k xs))"
      by (rule amsort_sorted) (use "1.prems" in auto)
    have "filter P (amsort le xs) = filter P (amsort le (take ?k xs)) @ filter P (amsort le (drop ?k xs))"
      using filter_amerge [OF "1.prems"(2,3) s] False by (simp add: amsort.simps [of le xs])
    also have "\<dots> = filter P (take ?k xs) @ filter P (drop ?k xs)"
      using "1.IH" [OF False] "1.prems" by auto
    also have "\<dots> = filter P xs" by (metis append_take_drop_id filter_append)
    finally show ?thesis by simp
  qed (simp add: amsort.simps)
qed

end
