(* ===== verification/Cstl_List_Sort.thy ===== *)
theory Cstl_List_Sort
  imports Cstl_List_Correct Stable_Merge
begin

text \<open>
  The merge sort of \<open>cstl/list.h\<close>: \<open>amerge\<close> and \<open>amsort\<close> are the recursion on lists of node
  addresses that \<open>merge_list\<close> and \<open>merge_sort\<close> perform by relinking (equivalence), and are
  stable and sorting for every comparison that is a total preorder.
  Inside the sort a list is a \<open>circle\<close> of nodes without a sentinel.
\<close>

subsection \<open>Circles of nodes\<close>

definition circle :: "'a lheap \<Rightarrow> nat list \<Rightarrow> bool" where
  "circle h xs \<longleftrightarrow> xs \<noteq> [] \<and> distinct xs \<and> (\<forall>a \<in> set xs. live h a) \<and>
     chain (nxt h) (prv h) xs \<and> nxt h (last xs) = hd xs \<and> prv h (hd xs) = last xs"

lemma circle_frame:
  assumes "circle h xs" "same_outside S h h'" "set xs \<inter> S = {}"
  shows "circle h' xs"
proof -
  have out: "nxt h' a = nxt h a" "prv h' a = prv h a" "live h' a = live h a" if "a \<in> set xs" for a
    using that assms(2,3) by (auto simp: same_outside_def)
  have "chain (nxt h') (prv h') xs = chain (nxt h) (prv h) xs"
    by (rule chain_cong) (auto simp: out dest: set_butlast_D set_tl_D)
  with assms(1) out show ?thesis by (auto simp: circle_def)
qed

lemma circle_length: "heap_ok h \<Longrightarrow> circle h xs \<Longrightarrow> length xs < brk h"
proof -
  assume h: "heap_ok h" "circle h xs"
  then have "set xs \<subseteq> {1..<brk h}" by (auto simp: circle_def heap_ok_def)
  then have "card (set xs) \<le> card {1..<brk h}" by (rule card_mono [rotated]) simp
  with h show ?thesis by (auto simp: circle_def heap_ok_def distinct_card)
qed

subsection \<open>\<open>merge_list\<close>\<close>

text \<open>What is left of an input of the merge: a segment that ends in the local node.\<close>

definition tail_to :: "'a lheap \<Rightarrow> nat list \<Rightarrow> nat \<Rightarrow> bool" where
  "tail_to h xs t \<longleftrightarrow> chain (nxt h) (prv h) xs \<and> (xs \<noteq> [] \<longrightarrow> nxt h (last xs) = t)"

lemma tail_to_Cons: "tail_to h (x # xs) t \<Longrightarrow> nxt h x = hd (xs @ [t]) \<and> tail_to h xs t"
  by (cases xs) (auto simp: tail_to_def)

lemma tail_to_frame:
  assumes "tail_to h xs t" "\<And>a. a \<in> set xs \<Longrightarrow> nxt h' a = nxt h a"
    "\<And>a. a \<in> set xs \<Longrightarrow> a \<noteq> hd xs \<Longrightarrow> prv h' a = prv h a" "distinct xs"
  shows "tail_to h' xs t"
proof -
  have "chain (nxt h') (prv h') xs"
    by (rule chain_seg [of "nxt h" "prv h"]) (use assms in \<open>auto simp: tail_to_def\<close>)
  with assms show ?thesis by (auto simp: tail_to_def)
qed

definition relink :: "'a lheap \<Rightarrow> nat \<Rightarrow> nat \<Rightarrow> 'a lheap" where
  "relink h p x = h\<lparr>nxt := (nxt h)(p := x), prv := (prv h)(x := p)\<rparr>"

lemma relink_simps [simp]: "dat (relink h p x) = dat h" "live (relink h p x) = live h"
    "brk (relink h p x) = brk h" "room (relink h p x) = room h"
  by (simp_all add: relink_def)

lemma merge_step_run:
  assumes "live h p" "live h x" "p \<noteq> x" "tail_to h (x # xs) t"
  shows "rbind (wr_next h p x) (\<lambda>h1. rbind (wr_prev h1 x p) (\<lambda>h2. rbind (rd_next h2 x) (f h2))) =
    f (relink h p x) (hd (xs @ [t]))"
  using assms tail_to_Cons [OF assms(4)] by (simp add: mem_simps relink_def)

lemma merge_step_keeps:
  assumes c: "chain (nxt h) (prv h) (hd0 # ms)" and p: "p = last (hd0 # ms)"
    and t: "tail_to h (x # xs) hd0" "tail_to h ys hd0"
    and d: "distinct (hd0 # ms @ x # xs @ ys)"
  shows "chain (nxt (relink h p x)) (prv (relink h p x)) (hd0 # ms @ [x])"
    and "tail_to (relink h p x) xs hd0" and "tail_to (relink h p x) ys hd0"
    and "same_outside (set (hd0 # ms @ [x])) h (relink h p x)"
proof -
  have pm: "p \<in> set (hd0 # ms)" using last_cons [of hd0 ms] p by simp
  have px: "p \<noteq> x" using pm d by auto
  have txs: "tail_to h xs hd0" using tail_to_Cons [OF t(1)] by auto
  have "chain (nxt (relink h p x)) (prv (relink h p x)) (hd0 # ms)"
    by (rule chain_left [OF c _ p]) (use d in \<open>auto simp: relink_def\<close>)
  then have "chain (nxt (relink h p x)) (prv (relink h p x)) ((hd0 # ms) @ [x])"
    using p px by (subst chain_append) (auto simp: relink_def)
  then show "chain (nxt (relink h p x)) (prv (relink h p x)) (hd0 # ms @ [x])" by simp
  show "tail_to (relink h p x) xs hd0"
    by (rule tail_to_frame [OF txs]) (use d pm in \<open>auto simp: relink_def\<close>)
  show "tail_to (relink h p x) ys hd0"
    by (rule tail_to_frame [OF t(2)]) (use d pm in \<open>auto simp: relink_def\<close>)
  show "same_outside (set (hd0 # ms @ [x])) h (relink h p x)"
    using pm by (auto simp: same_outside_def relink_def)
qed

text \<open>The loop: \<open>ms\<close> has been merged behind the local node \<open>hd0\<close>, \<open>xs\<close> and \<open>ys\<close> are left;
  it stops when one of them is used up, with \<open>vs\<close> and \<open>ws\<close> left over.\<close>

definition merged :: "(nat \<Rightarrow> nat \<Rightarrow> bool) \<Rightarrow> 'a lheap \<Rightarrow> nat \<Rightarrow> nat list \<Rightarrow> nat list \<Rightarrow> nat list \<Rightarrow>
    (nat \<times> nat \<times> nat \<times> 'a lheap) res \<Rightarrow> bool" where
  "merged le h hd0 ms xs ys r \<longleftrightarrow> (\<exists>h' us vs ws.
    r = Inr (last (hd0 # ms @ us), hd (vs @ [hd0]), hd (ws @ [hd0]), h') \<and>
    us @ vs @ ws = amerge le xs ys \<and>
    (vs = [] \<and> ws \<noteq> [] \<and> ys \<noteq> [] \<and> last ws = last ys \<or> ws = [] \<and> vs \<noteq> [] \<and> xs \<noteq> [] \<and> last vs = last xs) \<and>
    chain (nxt h') (prv h') (hd0 # ms @ us) \<and> tail_to h' vs hd0 \<and> tail_to h' ws hd0 \<and>
    dat h' = dat h \<and> live h' = live h \<and> brk h' = brk h \<and> room h' = room h \<and>
    same_outside (set (hd0 # ms @ xs @ ys)) h h')"

lemma merged_step:
  assumes m: "merged le h1 hd0 (ms @ [z]) xs' ys' r"
    and h1: "dat h1 = dat h" "live h1 = live h" "brk h1 = brk h" "room h1 = room h"
      "same_outside (set (hd0 # ms @ [z])) h h1"
    and am: "amerge le xs ys = z # amerge le xs' ys'" and st: "mset xs + mset ys = {#z#} + mset xs' + mset ys'"
    and la: "xs' \<noteq> [] \<Longrightarrow> xs \<noteq> [] \<and> last xs' = last xs"
      "ys' \<noteq> [] \<Longrightarrow> ys \<noteq> [] \<and> last ys' = last ys"
  shows "merged le h hd0 ms xs ys r"
proof -
  obtain h' us vs ws where r: "r = Inr (last (hd0 # (ms @ [z]) @ us), hd (vs @ [hd0]), hd (ws @ [hd0]), h')"
      and e: "us @ vs @ ws = amerge le xs' ys'"
      and q: "vs = [] \<and> ws \<noteq> [] \<and> ys' \<noteq> [] \<and> last ws = last ys' \<or> ws = [] \<and> vs \<noteq> [] \<and> xs' \<noteq> [] \<and> last vs = last xs'"
      and c: "chain (nxt h') (prv h') (hd0 # (ms @ [z]) @ us)" "tail_to h' vs hd0" "tail_to h' ws hd0"
      and k: "dat h' = dat h1" "live h' = live h1" "brk h' = brk h1" "room h' = room h1"
      and so: "same_outside (set (hd0 # (ms @ [z]) @ xs' @ ys')) h1 h'"
    using m unfolding merged_def by blast
  have sets: "set xs \<union> set ys = insert z (set xs' \<union> set ys')"
    using arg_cong [OF st, of set_mset] by simp
  have "same_outside (set (hd0 # ms @ xs @ ys)) h h'"
    by (rule same_outside_trans [OF h1(5) so]) (use sets in auto)
  moreover have "vs = [] \<and> ws \<noteq> [] \<and> ys \<noteq> [] \<and> last ws = last ys \<or> ws = [] \<and> vs \<noteq> [] \<and> xs \<noteq> [] \<and> last vs = last xs"
    using q la by auto
  ultimately show ?thesis unfolding merged_def using r e c k h1 am
    by (intro exI [of _ h'] exI [of _ "z # us"] exI [of _ vs] exI [of _ ws]) simp
qed

lemma merge_loop_correct:
  assumes "chain (nxt h) (prv h) (hd0 # ms)" "tail_to h xs hd0" "tail_to h ys hd0"
    "distinct (hd0 # ms @ xs @ ys)" "\<forall>a \<in> set (hd0 # ms @ xs @ ys). live h a"
    "xs \<noteq> [] \<or> ys \<noteq> []" "length xs + length ys \<le> n"
    "le = (\<lambda>a b. cmp (dat h a) (dat h b) \<le> 0)" "p = last (hd0 # ms)"
  shows "merged le h hd0 ms xs ys (merge_loop cmp n h hd0 p (hd (xs @ [hd0])) (hd (ys @ [hd0])))"
  using assms
proof (induction n arbitrary: h ms xs ys p)
  case 0
  then show ?case by auto
next
  case (Suc n)
  show ?case
  proof (cases "xs \<noteq> [] \<and> ys \<noteq> []")
    case False
    have stop: "hd (xs @ [hd0]) = hd0 \<or> hd (ys @ [hd0]) = hd0" using False by auto
    have am: "[] @ xs @ ys = amerge le xs ys" using False by (cases xs; cases ys) auto
    have "merge_loop cmp (Suc n) h hd0 p (hd (xs @ [hd0])) (hd (ys @ [hd0])) =
        Inr (last (hd0 # ms @ []), hd (xs @ [hd0]), hd (ys @ [hd0]), h)"
      using stop Suc.prems(9) by auto
    with am Suc.prems False show ?thesis unfolding merged_def
      by (intro exI [of _ h] exI [of _ "[]"] exI [of _ xs] exI [of _ ys]) auto
  next
    case True
    then obtain x xs' y ys' where xy: "xs = x # xs'" "ys = y # ys'" by (meson list.exhaust)
    have d: "distinct (hd0 # ms @ x # xs' @ y # ys')" using Suc.prems(4) xy by simp
    then have d': "distinct (hd0 # ms @ y # ys' @ x # xs')" by auto
    have lv: "live h hd0" "\<forall>a \<in> set ms. live h a" "live h x" "live h y" "\<forall>a \<in> set xs'. live h a"
        "\<forall>a \<in> set ys'. live h a"
      using Suc.prems(5) xy by auto
    have go: "x \<noteq> hd0" "y \<noteq> hd0" using d by auto
    have "p \<in> set (hd0 # ms)" using last_cons [of hd0 ms] Suc.prems(9) by simp
    then have p: "live h p" "p \<noteq> x" "p \<noteq> y" using lv d by auto
    have rd: "rd_data h x = Inr (dat h x)" "rd_data h y = Inr (dat h y)"
      using lv by (auto simp: mem_simps)
    note t = Suc.prems(2,3) [unfolded xy]
    show ?thesis
    proof (cases "le x y")
      case le: True
      note k = merge_step_keeps [OF Suc.prems(1,9) t(1) t(2) d]
      have "merged le (relink h p x) hd0 (ms @ [x]) xs' (y # ys')
          (merge_loop cmp n (relink h p x) hd0 x (hd (xs' @ [hd0])) (hd ((y # ys') @ [hd0])))"
        by (rule Suc.IH [OF _ k(2) k(3)]) (use k(1) d lv Suc.prems(7,8) xy in auto)
      then have "merged le h hd0 ms xs ys
          (merge_loop cmp n (relink h p x) hd0 x (hd (xs' @ [hd0])) (hd ((y # ys') @ [hd0])))"
        by (rule merged_step [OF _ _ _ _ _ k(4)]) (use le xy in auto)
      moreover have "merge_loop cmp (Suc n) h hd0 p x y =
          merge_loop cmp n (relink h p x) hd0 x (hd (xs' @ [hd0])) y"
        using go rd le Suc.prems(8) merge_step_run [OF p(1) lv(3) p(2) t(1)] by simp
      ultimately show ?thesis using xy by simp
    next
      case le: False
      note k = merge_step_keeps [OF Suc.prems(1,9) t(2) t(1) d']
      have "merged le (relink h p y) hd0 (ms @ [y]) (x # xs') ys'
          (merge_loop cmp n (relink h p y) hd0 y (hd ((x # xs') @ [hd0])) (hd (ys' @ [hd0])))"
        by (rule Suc.IH [OF _ k(3) k(2)]) (use k(1) d lv Suc.prems(7,8) xy in auto)
      then have "merged le h hd0 ms xs ys
          (merge_loop cmp n (relink h p y) hd0 y (hd ((x # xs') @ [hd0])) (hd (ys' @ [hd0])))"
        by (rule merged_step [OF _ _ _ _ _ k(4)]) (use le xy in auto)
      moreover have "merge_loop cmp (Suc n) h hd0 p x y =
          merge_loop cmp n (relink h p y) hd0 y x (hd (ys' @ [hd0]))"
        using go rd le Suc.prems(8) merge_step_run [OF p(1) lv(4) p(3) t(2)] by simp
      ultimately show ?thesis using xy by simp
    qed
  qed
qed

text \<open>Closing the circle after the loop.\<close>

lemma merge_close:
  assumes c: "chain (nxt h) (prv h) (hd0 # us)" and t: "tail_to h vs hd0" and ne: "vs \<noteq> []"
    and d: "distinct (hd0 # us @ vs)" and lv: "\<forall>a \<in> set (hd0 # us @ vs). live h a"
    and p: "p = last (hd0 # us)" and y: "y = hd vs" and l: "l = last vs"
  shows "\<exists>h'. rbind (wr_next h p y) (\<lambda>h4. rbind (wr_prev h4 y p) (\<lambda>h5.
         rbind (rd_next h5 hd0) (\<lambda>hn. rbind (wr_next h5 l hn) (\<lambda>h6.
         rbind (rd_next h6 hd0) (\<lambda>hn1. wr_prev h6 hn1 l))))) = Inr h' \<and>
     circle h' (us @ vs) \<and> nxt h' hd0 = hd (us @ vs) \<and> dat h' = dat h \<and> live h' = live h \<and>
     brk h' = brk h \<and> room h' = room h \<and> same_outside (set (hd0 # us @ vs)) h h'"
proof -
  let ?z = "hd (us @ vs)"
  have mem: "p \<in> insert hd0 (set us)" "y \<in> set vs" "l \<in> set vs" "?z \<in> set us \<union> set vs"
    using last_cons [of hd0 us] p y l ne by (auto simp: hd_append)
  have lvs: "live h p" "live h y" "live h l" "live h ?z" "live h hd0" using lv mem by auto
  have n: "l \<noteq> hd0" "l \<noteq> p" "y \<noteq> hd0" "?z \<noteq> hd0" using mem d by auto
  have z: "((nxt h)(p := y)) hd0 = ?z"
    using c p y d by (cases us) auto
  define h' where "h' = h\<lparr>nxt := (nxt h)(p := y, l := ?z), prv := (prv h)(y := p, ?z := l)\<rparr>"
  have run: "rbind (wr_next h p y) (\<lambda>h4. rbind (wr_prev h4 y p) (\<lambda>h5.
         rbind (rd_next h5 hd0) (\<lambda>hn. rbind (wr_next h5 l hn) (\<lambda>h6.
         rbind (rd_next h6 hd0) (\<lambda>hn1. wr_prev h6 hn1 l))))) = Inr h'"
    using lvs n z by (auto simp: mem_simps h'_def split: if_splits)
  have zu: "us \<noteq> [] \<Longrightarrow> hd us \<notin> set vs" using d hd_in_set [of us] by (auto simp: disjoint_iff)
  have v: "chain (nxt h') (prv h') vs"
    by (rule chain_seg [of "nxt h" "prv h"])
      (use t d mem y l zu in \<open>auto simp: h'_def tail_to_def hd_append split: if_splits\<close>)
  have "chain (nxt h') (prv h') us \<and> (us \<noteq> [] \<longrightarrow> nxt h' (last us) = y \<and> prv h' y = last us)"
  proof (cases "us = []")
    case False
    then have "chain (nxt h) (prv h) us" using c chain_append [of "[hd0]" us] by simp
    then have "chain (nxt h') (prv h') us"
      by (rule chain_seg) (use False d mem p in \<open>auto simp: h'_def\<close>)
    moreover have "last us \<noteq> l" "y \<noteq> hd us" using False d mem by (auto dest: last_in_set hd_in_set)
    ultimately show ?thesis using False p by (auto simp: h'_def)
  qed simp
  with v ne y have "chain (nxt h') (prv h') (us @ vs)"
    by (cases "us = []") (auto simp: chain_append)
  moreover have "nxt h' (last (us @ vs)) = ?z" "prv h' ?z = last (us @ vs)"
    using ne l by (auto simp: h'_def)
  ultimately have "circle h' (us @ vs)" using ne d lv by (auto simp: circle_def h'_def)
  moreover have "nxt h' hd0 = ?z" using z n by (auto simp: h'_def)
  moreover have "same_outside (set (hd0 # us @ vs)) h h'"
    using mem by (auto simp: same_outside_def h'_def)
  ultimately show ?thesis using run by (auto simp: h'_def)
qed


lemma circle_cut:
  assumes "circle h xs" "t \<notin> set xs"
  shows "tail_to (h\<lparr>nxt := (nxt h)(last xs := t)\<rparr>) xs t"
proof -
  have "chain ((nxt h)(last xs := t)) (prv h) xs"
    by (rule chain_seg [of "nxt h" "prv h"]) (use assms in \<open>auto simp: circle_def\<close>)
  then show ?thesis by (simp add: tail_to_def)
qed

lemma list_merge_list_correct:
  assumes ok: "heap_ok h" and c: "circle h xs" "circle h ys" and dis: "set xs \<inter> set ys = {}"
  shows "\<exists>h'. list_merge_list cmp h (hd xs) (hd ys) =
      Inr (hd (amerge (\<lambda>a b. cmp (dat h a) (dat h b) \<le> 0) xs ys), h') \<and>
    circle h' (amerge (\<lambda>a b. cmp (dat h a) (dat h b) \<le> 0) xs ys) \<and> heap_ok h' \<and> dat h' = dat h \<and>
    live h' = live h \<and> room h' = room h \<and> brk h \<le> brk h' \<and>
    same_outside (set xs \<union> set ys \<union> {brk h..}) h h'"
proof -
  let ?t = "brk h" and ?le = "\<lambda>a b. cmp (dat h a) (dat h b) \<le> 0"
  define lx ly where lx: "lx = last xs" and ly: "ly = last ys"
  have mem: "hd xs \<in> set xs" "hd ys \<in> set ys" "lx \<in> set xs" "ly \<in> set ys" and ne: "xs \<noteq> []" "ys \<noteq> []"
    using c lx ly by (auto simp: circle_def)
  have lv: "\<forall>a \<in> set xs. live h a" "\<forall>a \<in> set ys. live h a"
    and pv: "prv h (hd xs) = lx" "prv h (hd ys) = ly" and dd: "distinct xs" "distinct ys"
    using c lx ly by (auto simp: circle_def)
  have t: "?t \<notin> set xs" "?t \<notin> set ys" "\<not> live h ?t" using ok lv by (auto simp: heap_ok_def)
  define h1 where "h1 = h\<lparr>live := (live h)(?t := True), brk := ?t + 1\<rparr>"
  define h2 where "h2 = h1\<lparr>nxt := (nxt h)(lx := ?t, ly := ?t)\<rparr>"
  have tx: "tail_to h2 xs ?t"
    by (rule tail_to_frame [OF circle_cut [OF c(1) t(1)]])
      (use mem dis dd lx in \<open>auto simp: h2_def h1_def\<close>)
  have ty: "tail_to h2 ys ?t"
    by (rule tail_to_frame [OF circle_cut [OF c(2) t(2)]])
      (use mem dis dd ly in \<open>auto simp: h2_def h1_def\<close>)
  have ch: "chain (nxt h2) (prv h2) (?t # [])" by simp
  have d: "distinct (?t # [] @ xs @ ys)" using dd dis t by auto
  have lv2: "\<forall>a \<in> set (?t # [] @ xs @ ys). live h2 a" using lv by (auto simp: h2_def h1_def)
  have "card (set (xs @ ys)) \<le> card {0..<brk h}"
    by (rule card_mono) (use lv ok in \<open>auto simp: heap_ok_def\<close>)
  then have len: "length xs + length ys \<le> brk h1"
    using d distinct_card [of "xs @ ys"] by (simp add: h1_def)
  have le: "?le = (\<lambda>a b. cmp (dat h2 a) (dat h2 b) \<le> 0)" by (simp add: h2_def h1_def)
  have "merged ?le h2 ?t [] xs ys (merge_loop cmp (brk h1) h2 ?t ?t (hd (xs @ [?t])) (hd (ys @ [?t])))"
    by (rule merge_loop_correct [OF ch tx ty d lv2 _ len le]) (use ne in auto)
  then obtain h3 us vs ws where m: "merge_loop cmp (brk h1) h2 ?t ?t (hd xs) (hd ys) =
        Inr (last (?t # us), hd (vs @ [?t]), hd (ws @ [?t]), h3)"
      and e: "us @ vs @ ws = amerge ?le xs ys"
      and q: "vs = [] \<and> ws \<noteq> [] \<and> ys \<noteq> [] \<and> last ws = ly \<or> ws = [] \<and> vs \<noteq> [] \<and> xs \<noteq> [] \<and> last vs = lx"
      and k: "chain (nxt h3) (prv h3) (?t # us)" "tail_to h3 vs ?t" "tail_to h3 ws ?t"
        "dat h3 = dat h2" "live h3 = live h2" "brk h3 = brk h2" "room h3 = room h2"
        "same_outside (set (?t # [] @ xs @ ys)) h2 h3"
    unfolding merged_def lx ly using ne by auto
  have zs: "mset (us @ vs @ ws) = mset (xs @ ys)" using e by (simp add: mset_amerge)
  then have dz: "distinct (?t # us @ vs @ ws)" and sz: "set (us @ vs @ ws) = set xs \<union> set ys"
    using d mset_eq_imp_distinct_iff [OF zs] mset_eq_setD [OF zs] by auto
  have lz: "\<forall>a \<in> set (?t # us @ vs @ ws). live h3 a" using lv2 k(5) sz by auto
  let ?close = "\<lambda>l y. rbind (wr_next h3 (last (?t # us)) y) (\<lambda>h4. rbind (wr_prev h4 y (last (?t # us))) (\<lambda>h5.
         rbind (rd_next h5 ?t) (\<lambda>hn. rbind (wr_next h5 l hn) (\<lambda>h6.
         rbind (rd_next h6 ?t) (\<lambda>hn1. wr_prev h6 hn1 l)))))"
  obtain rs l where rs: "rs \<noteq> []" "us @ rs = us @ vs @ ws" "tail_to h3 rs ?t" "l = last rs"
      and br: "(if hd (vs @ [?t]) = ?t then ?close ly (hd (ws @ [?t])) else ?close lx (hd (vs @ [?t]))) =
        ?close l (hd rs)"
  proof (cases "vs = []")
    case True
    with q k that [of ws ly] show ?thesis by auto
  next
    case False
    then have "hd vs \<in> set vs" by simp
    then have "hd vs \<noteq> ?t" using dz by auto
    with False q k that [of vs lx] show ?thesis by auto
  qed
  have d2: "distinct (?t # us @ rs)" and l2: "\<forall>a \<in> set (?t # us @ rs). live h3 a"
    using dz lz rs(2) by simp_all
  obtain h4 where h4: "?close l (hd rs) = Inr h4" "circle h4 (us @ rs)" "nxt h4 ?t = hd (us @ rs)"
      "dat h4 = dat h3" "live h4 = live h3" "brk h4 = brk h3" "room h4 = room h3"
      "same_outside (set (?t # us @ rs)) h3 h4"
    using merge_close [OF k(1) rs(3,1) d2 l2 refl refl rs(4)] by (elim exE conjE) (rule that)
  have run: "list_merge_list cmp h (hd xs) (hd ys) = Inr (hd (us @ rs), drop_node h4 ?t)"
  proof -
    have lvs: "live h (hd xs)" "live h (hd ys)" "live h lx" "live h ly" using lv mem by auto
    have lt: "live h4 ?t" using h4(5) k(5) by (simp add: h2_def h1_def)
    have f: "rd_prev h (hd xs) = Inr lx" "rd_prev h (hd ys) = Inr ly" "local_node h = (?t, h1)"
        "rd_prev h1 (hd xs) = Inr lx" "wr_next h1 lx ?t = Inr (h1\<lparr>nxt := (nxt h1)(lx := ?t)\<rparr>)"
        "rd_prev (h1\<lparr>nxt := (nxt h1)(lx := ?t)\<rparr>) (hd ys) = Inr ly"
        "wr_next (h1\<lparr>nxt := (nxt h1)(lx := ?t)\<rparr>) ly ?t = Inr h2" "rd_next h4 ?t = Inr (hd (us @ rs))"
      using lvs lt pv h4(3) by (simp_all add: mem_simps local_node_def h1_def h2_def)
    show ?thesis
      by (simp only: list_merge_list_def f rbind_Inr prod.case Let_def m br h4(1))
  qed
  have e': "us @ rs = amerge ?le xs ys" using rs(2) e by simp
  have tz: "?t \<notin> set (us @ rs)" using d2 by simp
  have "circle (drop_node h4 ?t) (us @ rs)"
    using h4(2) tz by (auto simp: circle_def drop_node_def)
  moreover have "live (drop_node h4 ?t) = live h"
    using h4(5) k(5) t(3) by (simp add: drop_node_def h2_def h1_def fun_eq_iff)
  moreover from this have "heap_ok (drop_node h4 ?t)"
    using ok h4(6) k(6) by (auto simp: heap_ok_def drop_node_def h2_def h1_def less_SucI)
  moreover have "same_outside (set xs \<union> set ys \<union> {brk h..}) h (drop_node h4 ?t)"
  proof -
    have a: "same_outside {brk h} h h1" by (simp add: same_outside_def h1_def)
    have b: "same_outside (set xs \<union> set ys) h1 h2" using mem by (auto simp: same_outside_def h1_def h2_def)
    have c: "same_outside {?t} h4 (drop_node h4 ?t)" by (simp add: same_outside_def drop_node_def)
    let ?U = "set xs \<union> set ys \<union> {brk h..}"
    have sub: "set (?t # us @ rs) \<subseteq> ?U" "set (?t # [] @ xs @ ys) \<subseteq> ?U" using sz rs(2) by auto
    have "same_outside ?U h h2" by (rule same_outside_trans [OF a b]) auto
    then have "same_outside ?U h h3" by (rule same_outside_trans [OF _ k(8)]) (use sub in auto)
    then have "same_outside ?U h h4" by (rule same_outside_trans [OF _ h4(8)]) (use sub in auto)
    then show ?thesis by (rule same_outside_trans [OF _ c]) auto
  qed
  moreover have "dat (drop_node h4 ?t) = dat h" "room (drop_node h4 ?t) = room h"
      "brk h \<le> brk (drop_node h4 ?t)"
    using h4 k by (simp_all add: drop_node_def h2_def h1_def)
  ultimately show ?thesis using run e' by auto
qed


subsection \<open>\<open>merge_sort\<close>\<close>

lemma chain_nth: "chain n p xs \<Longrightarrow> Suc i < length xs \<Longrightarrow> n (xs ! i) = xs ! Suc i"
proof (induction xs arbitrary: i rule: induct_list012)
  case (3 a b xs)
  then show ?case by (cases i) auto
qed auto

lemma circle_next:
  assumes "circle h xs" "i < length xs"
  shows "rd_next h (xs ! i) = Inr ((xs @ [hd xs]) ! Suc i)"
proof -
  have "nxt h (xs ! i) = (xs @ [hd xs]) ! Suc i"
  proof (cases "Suc i < length xs")
    case True
    with assms chain_nth [of "nxt h" "prv h" xs i] show ?thesis by (simp add: circle_def nth_append)
  next
    case False
    with assms(2) have "length xs = Suc i" by simp
    with assms show ?thesis by (auto simp: circle_def nth_append last_conv_nth)
  qed
  with assms show ?thesis by (simp add: circle_def mem_simps)
qed

lemma circle_first:
  assumes "circle h xs" "i \<le> length xs"
  shows "(xs @ [hd xs]) ! i = hd xs \<longleftrightarrow> i = 0 \<or> i = length xs"
  using assms by (auto simp: circle_def nth_append hd_conv_nth nth_eq_iff_index_eq)

text \<open>The two pointers: when \<open>y\<close> is back at the first node, \<open>x\<close> is in the middle.\<close>

lemma split_loop_correct:
  assumes c: "circle h xs" and i: "2 * i < length xs" and n: "length xs \<le> i + n"
  shows "split_loop n h (hd xs) (xs ! i) (xs ! (2 * i)) = Inr ((xs @ [hd xs]) ! ((length xs + 1) div 2))"
  using i n
proof (induction n arbitrary: i)
  case 0
  then show ?case by simp
next
  case (Suc n)
  let ?ys = "xs @ [hd xs]"
  have x1: "rd_next h (xs ! i) = Inr (?ys ! Suc i)" by (rule circle_next [OF c]) (use Suc.prems in simp)
  have y1: "rd_next h (xs ! (2 * i)) = Inr (?ys ! Suc (2 * i))"
    by (rule circle_next [OF c]) (use Suc.prems in simp)
  consider "Suc (2 * i) = length xs" | "Suc (Suc (2 * i)) = length xs" | "Suc (Suc (2 * i)) < length xs"
    using Suc.prems(1) by linarith
  then show ?case
  proof cases
    case 1
    then have "?ys ! Suc (2 * i) = hd xs" by (simp add: nth_append)
    moreover have "(length xs + 1) div 2 = Suc i" using 1 by simp
    ultimately show ?thesis using x1 y1 by simp
  next
    case 2
    then have a: "?ys ! Suc (2 * i) \<noteq> hd xs" using circle_first [OF c, of "Suc (2 * i)"] by simp
    have "?ys ! Suc (2 * i) = xs ! Suc (2 * i)" using 2 by (simp add: nth_append)
    moreover have "rd_next h (xs ! Suc (2 * i)) = Inr (?ys ! length xs)"
      using circle_next [OF c, of "Suc (2 * i)"] 2 by simp
    moreover have "(length xs + 1) div 2 = Suc i" using 2 by simp
    ultimately show ?thesis using x1 y1 a by simp
  next
    case 3
    then have a: "?ys ! Suc (2 * i) \<noteq> hd xs" "?ys ! Suc (Suc (2 * i)) \<noteq> hd xs"
      using circle_first [OF c, of "Suc (2 * i)"] circle_first [OF c, of "Suc (Suc (2 * i))"] by simp_all
    have e: "?ys ! Suc (2 * i) = xs ! Suc (2 * i)" "?ys ! Suc (Suc (2 * i)) = xs ! (2 * Suc i)"
      "?ys ! Suc i = xs ! Suc i"
      using 3 by (simp_all add: nth_append)
    have y2: "rd_next h (xs ! Suc (2 * i)) = Inr (?ys ! Suc (Suc (2 * i)))"
      using circle_next [OF c, of "Suc (2 * i)"] 3 by simp
    have "split_loop n h (hd xs) (xs ! Suc i) (xs ! (2 * Suc i)) = Inr (?ys ! ((length xs + 1) div 2))"
      by (rule Suc.IH) (use 3 Suc.prems in auto)
    then show ?thesis using x1 y1 y2 a e by simp
  qed
qed

text \<open>Cutting a circle in two.\<close>

lemma circle_split:
  assumes c: "circle h (us @ vs)" and ne: "us \<noteq> []" "vs \<noteq> []"
  defines "h' \<equiv> h\<lparr>nxt := (nxt h)(last us := hd us, last vs := hd vs),
    prv := (prv h)(hd vs := last vs, hd us := last us)\<rparr>"
  shows "circle h' us" "circle h' vs" "same_outside (set (us @ vs)) h h'"
proof -
  have d: "distinct (us @ vs)" and c1: "chain (nxt h) (prv h) us" and c2: "chain (nxt h) (prv h) vs"
    using c ne by (auto simp: circle_def chain_append)
  have mem: "hd us \<in> set us" "last us \<in> set us" "hd vs \<in> set vs" "last vs \<in> set vs" using ne by auto
  have n: "hd us \<noteq> hd vs" "last us \<noteq> last vs" "hd vs \<noteq> hd us" "last vs \<noteq> last us"
    using mem d by (auto simp: disjoint_iff)
  have "chain (nxt h') (prv h') us"
    by (rule chain_seg [OF c1]) (use d mem in \<open>auto simp: h'_def\<close>)
  then show "circle h' us" using c ne n by (auto simp: circle_def h'_def)
  have "chain (nxt h') (prv h') vs"
    by (rule chain_seg [OF c2]) (use d mem in \<open>auto simp: h'_def\<close>)
  then show "circle h' vs" using c ne n by (auto simp: circle_def h'_def)
  show "same_outside (set (us @ vs)) h h'" using mem by (auto simp: same_outside_def h'_def)
qed

lemma list_merge_sort_correct:
  assumes "heap_ok h" "circle h xs" "length xs \<le> n"
  shows "\<exists>h'. list_merge_sort cmp n h (hd xs) =
      Inr (hd (amsort (\<lambda>a b. cmp (dat h a) (dat h b) \<le> 0) xs), h') \<and>
    circle h' (amsort (\<lambda>a b. cmp (dat h a) (dat h b) \<le> 0) xs) \<and> heap_ok h' \<and> dat h' = dat h \<and>
    live h' = live h \<and> room h' = room h \<and> brk h \<le> brk h' \<and> same_outside (set xs \<union> {brk h..}) h h'"
  using assms
proof (induction n arbitrary: h xs)
  case 0
  then show ?case by (simp add: circle_def)
next
  case (Suc n)
  let ?le = "\<lambda>a b. cmp (dat h a) (dat h b) \<le> 0" and ?k = "(length xs + 1) div 2"
  note c = Suc.prems(2)
  then have ne: "xs \<noteq> []" by (simp add: circle_def)
  have n1: "rd_next h (hd xs) = Inr ((xs @ [hd xs]) ! 1)"
    using circle_next [OF c, of 0] ne by (simp add: hd_conv_nth)
  show ?case
  proof (cases "length xs = 1")
    case True
    then have "list_merge_sort cmp (Suc n) h (hd xs) = Inr (hd xs, h)" using n1 by (simp add: nth_append)
    with True c Suc.prems(1) show ?thesis by (simp add: amsort.simps)
  next
    case False
    with ne have l2: "2 \<le> length xs" by (cases xs) (auto simp: Suc_le_eq)
    define us vs where us: "us = take ?k xs" and vs: "vs = drop ?k xs"
    have uv: "us @ vs = xs" and kl: "?k < length xs" "0 < ?k" using l2 by (auto simp: us vs)
    have nuv: "us \<noteq> []" "vs \<noteq> []" using kl ne by (auto simp: us vs)
    have lens: "length us \<le> n" "length vs \<le> n" using l2 kl Suc.prems(3) by (auto simp: us vs)
    have hds: "hd us = hd xs" "hd vs = xs ! ?k" "last vs = last xs"
      using nuv uv kl by (auto simp: vs hd_drop_conv_nth) (metis hd_append2 uv)
    have x: "split_loop (brk h) h (hd xs) (hd xs) (hd xs) = Inr (hd vs)"
      using split_loop_correct [OF c, of 0 "brk h"] circle_length [OF Suc.prems(1) c] ne hds kl
      by (simp add: hd_conv_nth nth_append)
    define h4 where "h4 = h\<lparr>nxt := (nxt h)(last us := hd us, last vs := hd vs),
      prv := (prv h)(hd vs := last vs, hd us := last us)\<rparr>"
    note cs = circle_split [OF c [folded uv] nuv, folded h4_def]
    have fl: "h4 = h\<lparr>nxt := (nxt h)(last us := hd us, last vs := hd vs),
        prv := (prv h)(hd vs := last vs, hd us := last us)\<rparr>" by (rule h4_def)
    have pre: "rd_prev h (hd vs) = Inr (last us)"
        "wr_next h (last us) (hd us) = Inr (h\<lparr>nxt := (nxt h)(last us := hd us)\<rparr>)"
        "rd_prev (h\<lparr>nxt := (nxt h)(last us := hd us)\<rparr>) (hd us) = Inr (last vs)"
        "wr_prev (h\<lparr>nxt := (nxt h)(last us := hd us)\<rparr>) (hd vs) (last vs) =
          Inr (h\<lparr>nxt := (nxt h)(last us := hd us), prv := (prv h)(hd vs := last vs)\<rparr>)"
        "rd_prev (h\<lparr>nxt := (nxt h)(last us := hd us), prv := (prv h)(hd vs := last vs)\<rparr>) (hd vs) =
          Inr (last vs)"
        "wr_next (h\<lparr>nxt := (nxt h)(last us := hd us), prv := (prv h)(hd vs := last vs)\<rparr>) (last vs) (hd vs) =
          Inr (h\<lparr>nxt := (nxt h)(last us := hd us, last vs := hd vs), prv := (prv h)(hd vs := last vs)\<rparr>)"
        "wr_prev (h\<lparr>nxt := (nxt h)(last us := hd us, last vs := hd vs), prv := (prv h)(hd vs := last vs)\<rparr>)
          (hd us) (last us) = Inr h4"
    proof -
      have "circle h (us @ vs)" using c uv by simp
      then have "prv h (hd vs) = last us" "prv h (hd us) = last vs" "\<forall>a \<in> set (us @ vs). live h a"
        using nuv by (auto simp: circle_def chain_append)
      moreover have "hd us \<in> set (us @ vs)" "hd vs \<in> set (us @ vs)" "last us \<in> set (us @ vs)"
        "last vs \<in> set (us @ vs)" using nuv by auto
      moreover have "hd us \<noteq> hd vs" using Suc.prems(2) hds kl circle_first [OF c, of ?k]
        by (auto simp: nth_append)
      ultimately show "rd_prev h (hd vs) = Inr (last us)"
        "wr_next h (last us) (hd us) = Inr (h\<lparr>nxt := (nxt h)(last us := hd us)\<rparr>)"
        "rd_prev (h\<lparr>nxt := (nxt h)(last us := hd us)\<rparr>) (hd us) = Inr (last vs)"
        "wr_prev (h\<lparr>nxt := (nxt h)(last us := hd us)\<rparr>) (hd vs) (last vs) =
          Inr (h\<lparr>nxt := (nxt h)(last us := hd us), prv := (prv h)(hd vs := last vs)\<rparr>)"
        "rd_prev (h\<lparr>nxt := (nxt h)(last us := hd us), prv := (prv h)(hd vs := last vs)\<rparr>) (hd vs) =
          Inr (last vs)"
        "wr_next (h\<lparr>nxt := (nxt h)(last us := hd us), prv := (prv h)(hd vs := last vs)\<rparr>) (last vs) (hd vs) =
          Inr (h\<lparr>nxt := (nxt h)(last us := hd us, last vs := hd vs), prv := (prv h)(hd vs := last vs)\<rparr>)"
        "wr_prev (h\<lparr>nxt := (nxt h)(last us := hd us, last vs := hd vs), prv := (prv h)(hd vs := last vs)\<rparr>)
          (hd us) (last us) = Inr h4"
        by (simp_all add: mem_simps h4_def)
    qed
    have ok4: "heap_ok h4" using Suc.prems(1) by (simp add: heap_ok_def h4_def)
    have eq4: "dat h4 = dat h" "live h4 = live h" "room h4 = room h" "brk h4 = brk h"
      by (simp_all add: h4_def)
    obtain h5 where h5: "list_merge_sort cmp n h4 (hd us) = Inr (hd (amsort ?le us), h5)"
        "circle h5 (amsort ?le us)" "heap_ok h5" "dat h5 = dat h" "live h5 = live h4" "room h5 = room h4"
        "brk h4 \<le> brk h5" "same_outside (set us \<union> {brk h4..}) h4 h5"
      using Suc.IH [OF ok4 cs(1) lens(1), unfolded eq4(1)] by (elim exE conjE) (rule that)
    have lt: "a < brk h" if "a \<in> set xs" for a
      using that Suc.prems(1,2) by (auto simp: circle_def heap_ok_def)
    have dxs: "distinct (us @ vs)" using c uv by (simp add: circle_def)
    have cv5: "circle h5 vs"
      by (rule circle_frame [OF cs(2) h5(8)]) (use dxs lt uv eq4 in \<open>fastforce simp: disjoint_iff\<close>)
    obtain h6 where h6: "list_merge_sort cmp n h5 (hd vs) = Inr (hd (amsort ?le vs), h6)"
        "circle h6 (amsort ?le vs)" "heap_ok h6" "dat h6 = dat h" "live h6 = live h5" "room h6 = room h5"
        "brk h5 \<le> brk h6" "same_outside (set vs \<union> {brk h5..}) h5 h6"
      using Suc.IH [OF h5(3) cv5 lens(2), unfolded h5(4)] by (elim exE conjE) (rule that)
    have sub: "set (amsort ?le us) = set us" "set (amsort ?le vs) = set vs" by (rule set_amsort)+
    have bh: "brk h \<le> brk h5" "brk h \<le> brk h6" using h5(7) h6(7) eq4(4) by auto
    have cu6: "circle h6 (amsort ?le us)"
      by (rule circle_frame [OF h5(2) h6(8)])
        (use dxs lt uv bh sub in \<open>fastforce simp: disjoint_iff\<close>)
    have dis: "set (amsort ?le us) \<inter> set (amsort ?le vs) = {}" using sub dxs by auto
    obtain h7 where h7: "list_merge_list cmp h6 (hd (amsort ?le us)) (hd (amsort ?le vs)) =
          Inr (hd (amerge ?le (amsort ?le us) (amsort ?le vs)), h7)"
        "circle h7 (amerge ?le (amsort ?le us) (amsort ?le vs))" "heap_ok h7" "dat h7 = dat h"
        "live h7 = live h6" "room h7 = room h6" "brk h6 \<le> brk h7"
        "same_outside (set (amsort ?le us) \<union> set (amsort ?le vs) \<union> {brk h6..}) h6 h7"
      using list_merge_list_correct [OF h6(3) cu6 h6(2) dis, of cmp, unfolded h6(4)]
      by (elim exE conjE) (rule that)
    have am: "amsort ?le xs = amerge ?le (amsort ?le us) (amsort ?le vs)"
      using l2 by (simp add: amsort.simps [of ?le xs] us vs)
    have fn: "(xs @ [hd xs]) ! 1 \<noteq> hd xs" using circle_first [OF c, of 1] l2 by simp
    have "list_merge_sort cmp (Suc n) h (hd xs) = Inr (hd (amsort ?le xs), h7)"
      using n1 fn x
      by (simp only: list_merge_sort.simps rbind_Inr if_False pre hds(1) [symmetric] h5(1) h6(1) h7(1)
          prod.case am)
    moreover have "same_outside (set xs \<union> {brk h..}) h h7"
    proof -
      have "same_outside (set xs \<union> {brk h..}) h h5"
        by (rule same_outside_trans [OF cs(3) h5(8)]) (use uv eq4 in auto)
      then have "same_outside (set xs \<union> {brk h..}) h h6"
        by (rule same_outside_trans [OF _ h6(8)]) (use uv bh in auto)
      then show ?thesis
        by (rule same_outside_trans [OF _ h7(8)]) (use uv bh sub in auto)
    qed
    moreover have "live h7 = live h" "room h7 = room h" "dat h7 = dat h" "brk h \<le> brk h7"
      using h5 h6 h7 eq4 by simp_all
    ultimately show ?thesis using h7(2,3) am by simp
  qed
qed

text \<open>Giving a list its sentinel back.\<close>

lemma circle_to_dlist:
  assumes "circle h zs" "s \<notin> set zs" "live h s"
  defines "h' \<equiv> h\<lparr>nxt := (nxt h)(s := hd zs, last zs := s), prv := (prv h)(hd zs := s, s := last zs)\<rparr>"
  shows "dlist h' s zs" "same_outside (set (s # zs)) h h'"
    "rbind (rd_prev h (hd zs)) (\<lambda>last1. rbind (wr_next h s (hd zs)) (\<lambda>h4.
      rbind (wr_prev h4 (hd zs) s) (\<lambda>h5. rbind (wr_next h5 last1 s) (\<lambda>h6. wr_prev h6 s last1)))) = Inr h'"
proof -
  have ne: "zs \<noteq> []" and d: "distinct zs" and c: "chain (nxt h) (prv h) zs"
    and lv: "\<forall>a \<in> set zs. live h a" and p: "prv h (hd zs) = last zs"
    using assms(1) by (auto simp: circle_def)
  have mem: "hd zs \<in> set zs" "last zs \<in> set zs" using ne by auto
  have n: "s \<noteq> hd zs" "s \<noteq> last zs" using mem assms(2) by auto
  have "chain (nxt h') (prv h') zs"
    by (rule chain_seg [OF c d]) (use assms(2) in \<open>auto simp: h'_def\<close>)
  then show "dlist h' s zs" unfolding dlist_circle [OF ne]
    using n n [symmetric] d lv assms(2,3) by (simp add: h'_def)
  show "same_outside (set (s # zs)) h h'" using mem by (auto simp: same_outside_def h'_def)
  have "live h (hd zs)" "live h (last zs)" using mem lv by auto
  then show "rbind (rd_prev h (hd zs)) (\<lambda>last1. rbind (wr_next h s (hd zs)) (\<lambda>h4.
      rbind (wr_prev h4 (hd zs) s) (\<lambda>h5. rbind (wr_next h5 last1 s) (\<lambda>h6. wr_prev h6 s last1)))) = Inr h'"
    using assms(3) p by (simp add: mem_simps h'_def)
qed

text \<open>Taking the sentinel out, the first step of \<open>sort\<close> and \<open>merge\<close>.\<close>

lemma dlist_to_circle:
  assumes "dlist h s ps" "ps \<noteq> []"
  defines "h' \<equiv> h\<lparr>prv := (prv h)(hd ps := last ps), nxt := (nxt h)(last ps := hd ps)\<rparr>"
  shows "circle h' ps" "same_outside (set ps) h h'"
    "rd_next h s = Inr (hd ps)" "rd_prev h s = Inr (last ps)"
    "rbind (wr_prev h (hd ps) (last ps)) (\<lambda>h1. rbind (wr_next h1 (last ps) (hd ps)) f) = f h'"
proof -
  note D = assms(1) [unfolded dlist_circle [OF assms(2)]]
  have mem: "hd ps \<in> set ps" "last ps \<in> set ps" using assms(2) by auto
  have "chain (nxt h') (prv h') ps"
    by (rule chain_seg [of "nxt h" "prv h"]) (use D in \<open>auto simp: h'_def\<close>)
  then show "circle h' ps" using D assms(2) by (simp add: circle_def h'_def)
  show "same_outside (set ps) h h'" using mem by (auto simp: same_outside_def h'_def)
  have "live h (hd ps)" "live h (last ps)" using mem D by auto
  then show "rd_next h s = Inr (hd ps)" "rd_prev h s = Inr (last ps)"
    "rbind (wr_prev h (hd ps) (last ps)) (\<lambda>h1. rbind (wr_next h1 (last ps) (hd ps)) f) = f h'"
    using D by (simp_all add: mem_simps h'_def)
qed

lemma list_sort_amsort:
  assumes ok: "heap_ok h" and l: "dlist h s ps"
  shows "\<exists>h'. list_sort cmp h s = Inr h' \<and>
    dlist h' s (amsort (\<lambda>a b. cmp (dat h a) (dat h b) \<le> 0) ps) \<and> heap_ok h' \<and> dat h' = dat h \<and>
    live h' = live h \<and> room h' = room h \<and> same_outside (set (s # ps) \<union> {brk h..}) h h'"
proof (cases "ps = []")
  case True
  with list_empty_correct [OF l] ok l show ?thesis by (simp add: list_sort_def amsort.simps)
next
  case False
  let ?le = "\<lambda>a b. cmp (dat h a) (dat h b) \<le> 0"
  define h2 where "h2 = h\<lparr>prv := (prv h)(hd ps := last ps), nxt := (nxt h)(last ps := hd ps)\<rparr>"
  note c = dlist_to_circle [OF l False, folded h2_def]
  have ok2: "heap_ok h2" and eq2: "dat h2 = dat h" "live h2 = live h" "room h2 = room h" "brk h2 = brk h"
    using ok by (simp_all add: h2_def heap_ok_def)
  have le: "length ps \<le> brk h2" using circle_length [OF ok2 c(1)] by simp
  obtain h3 where h3: "list_merge_sort cmp (brk h2) h2 (hd ps) = Inr (hd (amsort ?le ps), h3)"
      "circle h3 (amsort ?le ps)" "heap_ok h3" "dat h3 = dat h" "live h3 = live h2" "room h3 = room h2"
      "same_outside (set ps \<union> {brk h2..}) h2 h3"
    using list_merge_sort_correct [OF ok2 c(1) le, of cmp, unfolded eq2(1)]
    by (elim exE conjE) (rule that)
  let ?zs = "amsort ?le ps"
  have s: "s \<notin> set ?zs" "live h3 s" using l h3(5) eq2 by (auto simp: dlist_def set_amsort)
  define h4 where "h4 = h3\<lparr>nxt := (nxt h3)(s := hd ?zs, last ?zs := s),
      prv := (prv h3)(hd ?zs := s, s := last ?zs)\<rparr>"
  note d = circle_to_dlist [OF h3(2) s, folded h4_def]
  have "list_sort cmp h s = Inr h4"
    using False h3(1) d(3) by (simp add: list_sort_def list_empty_correct [OF l] c(3,4,5) eq2(4))
  moreover have "heap_ok h4" using h3(3) by (simp add: heap_ok_def h4_def)
  moreover have "same_outside (set (s # ps) \<union> {brk h..}) h h4"
  proof -
    have "same_outside (set (s # ps) \<union> {brk h..}) h h3"
      by (rule same_outside_trans [OF c(2) h3(7)]) (use eq2 in auto)
    then show ?thesis
      by (rule same_outside_trans [OF _ d(2)]) (auto simp: set_amsort)
  qed
  ultimately show ?thesis using d(1) h3(4-6) eq2 by (simp add: h4_def)
qed


text \<open>\<open>merge\<close> moves every node of \<open>x\<close> into \<open>self\<close>; \<open>x\<close> is empty afterwards.\<close>

lemma list_merge_amerge:
  assumes ok: "heap_ok h" and l: "dlist h s ps" "dlist h x qs"
    and dis: "set (s # ps) \<inter> set (x # qs) = {}"
  shows "\<exists>h'. list_merge cmp h s x = Inr h' \<and>
    dlist h' s (amerge (\<lambda>a b. cmp (dat h a) (dat h b) \<le> 0) ps qs) \<and> dlist h' x [] \<and> heap_ok h' \<and>
    dat h' = dat h \<and> live h' = live h \<and> room h' = room h"
proof -
  let ?le = "\<lambda>a b. cmp (dat h a) (dat h b) \<le> 0"
  have sx: "s \<noteq> x" using dis by auto
  consider "qs = []" | "qs \<noteq> []" "ps = []" | "qs \<noteq> []" "ps \<noteq> []" by blast
  then show ?thesis
  proof cases
    case 1
    with sx l ok show ?thesis by (cases ps) (simp_all add: list_merge_def list_empty_correct [OF l(2)])
  next
    case 2
    have b: "rd_next h x = Inr (hd (qs @ [x]))"
      using l(2) dlist_split [of h x "[]" qs] by (simp add: mem_simps)
    obtain h' where h': "list_splice h s s x (hd (qs @ [x])) x = Inr h'" "dlist h' s qs" "dlist h' x []"
        "heap_ok h'" "dat h' = dat h" "live h' = live h" "room h' = room h"
      using list_splice_correct [of h s "[]" "[]" x "[]" qs "[]" s x] ok l dis 2 by auto
    with 2 sx b show ?thesis
      by (simp add: list_merge_def list_empty_correct [OF l(1)] list_empty_correct [OF l(2)])
  next
    case 3
    define h2 where "h2 = h\<lparr>prv := (prv h)(hd ps := last ps), nxt := (nxt h)(last ps := hd ps)\<rparr>"
    note c = dlist_to_circle [OF l(1) 3(2), folded h2_def]
    have eq2: "dat h2 = dat h" "live h2 = live h" "room h2 = room h" "brk h2 = brk h"
      by (simp_all add: h2_def)
    have l2: "dlist h2 x qs" by (rule dlist_frame [OF l(2) c(2)]) (use dis in auto)
    define h4 where "h4 = h2\<lparr>prv := (prv h2)(hd qs := last qs), nxt := (nxt h2)(last qs := hd qs)\<rparr>"
    note e = dlist_to_circle [OF l2 3(1), folded h4_def]
    have eq4: "dat h4 = dat h" "live h4 = live h" "room h4 = room h" "brk h4 = brk h"
      using eq2 by (simp_all add: h4_def)
    have ok4: "heap_ok h4" using ok by (simp add: heap_ok_def eq4)
    have c4: "circle h4 ps" by (rule circle_frame [OF c(1) e(2)]) (use dis in auto)
    have d4: "set ps \<inter> set qs = {}" using dis by auto
    let ?zs = "amerge ?le ps qs"
    obtain h5 where h5: "list_merge_list cmp h4 (hd ps) (hd qs) = Inr (hd ?zs, h5)" "circle h5 ?zs"
        "heap_ok h5" "dat h5 = dat h" "live h5 = live h4" "room h5 = room h4"
      using list_merge_list_correct [OF ok4 c4 e(1) d4, of cmp, unfolded eq4(1)]
      by (elim exE conjE) (rule that)
    have s: "s \<notin> set ?zs" "live h5 s" and x: "x \<notin> set (s # ?zs)" "live h5 x"
      using l dis sx h5(5) eq4 by (auto simp: dlist_def set_amerge)
    define h9 where "h9 = h5\<lparr>nxt := (nxt h5)(s := hd ?zs, last ?zs := s),
        prv := (prv h5)(hd ?zs := s, s := last ?zs)\<rparr>"
    note d = circle_to_dlist [OF h5(2) s, folded h9_def]
    define h11 where "h11 = h9\<lparr>nxt := (nxt h9)(x := x), prv := (prv h9)(x := x)\<rparr>"
    have "same_outside {x} h9 h11" by (simp add: same_outside_def h11_def)
    from dlist_frame [OF d(1) this] x(1) have res: "dlist h11 s ?zs" by simp
    have res2: "dlist h11 x []" using x(2) by (simp add: dlist_def h11_def h9_def)
    have "rbind (wr_next h9 x x) (\<lambda>h10. wr_prev h10 x x) = Inr h11"
      using x(2) by (simp add: mem_simps h11_def h9_def)
    moreover have k: "rbind (rd_prev h5 (hd ?zs)) (\<lambda>last1. rbind (wr_next h5 s (hd ?zs)) (\<lambda>h4.
        rbind (wr_prev h4 (hd ?zs) s) (\<lambda>h5. rbind (wr_next h5 last1 s) (\<lambda>h6.
        rbind (wr_prev h6 s last1) g)))) = g h9" for g :: "'a lheap \<Rightarrow> 'a lheap res"
      using arg_cong [OF d(3), of "\<lambda>m. rbind m g"] by (simp add: rbind_assoc)
    ultimately have "list_merge cmp h s x = Inr h11"
      using sx 3 h5(1)
      by (simp add: list_merge_def list_empty_correct [OF l(1)] list_empty_correct [OF l(2)] c(3,4,5)
          e(3,4,5))
    moreover have "heap_ok h11" using h5(3) by (simp add: heap_ok_def h11_def h9_def)
    ultimately show ?thesis using res res2 h5(4-6) eq4 by (simp add: h11_def h9_def)
  qed
qed

end
