(* ===== verification/Char_List.thy ===== *)
theory Char_List
  imports Cstl_List_Sort
begin

text \<open>
  The list of words of \<open>trie-tree.c\<close> (\<open>CSTL_LIST_IMPLEMENT (CharList, char *)\<close>): printing and
  concatenating it, and what \<open>cstl/list.h\<close> promises its users, stated over the values in the
  list (\<open>map (dat h) ps\<close>).
\<close>

subsection \<open>\<open>CharList_printf\<close> and \<open>CharList_out\<close>\<close>

fun print_loop :: "nat \<Rightarrow> cptr lheap \<Rightarrow> nat \<Rightarrow> nat \<Rightarrow> string \<Rightarrow> string res" where
  "print_loop 0 h list pos printed = (if pos = list_end list then Inr printed else Inl OutOfFuel)"
| "print_loop (Suc n) h list pos printed = (if pos = list_end list then Inr printed else
     rbind (rd_data h (list_data pos)) (\<lambda>d.
     rbind (the_str d) (\<lambda>s.
     rbind (list_next h pos) (\<lambda>p.
       print_loop n h list p (printed @ ''print->'' @ s @ [CHR 0x0A])))))"

definition charlist_printf :: "cptr lheap \<Rightarrow> nat \<Rightarrow> string res" where
  "charlist_printf h list = rbind (list_begin h list) (\<lambda>b. print_loop (brk h) h list b [])"

text \<open>\<open>CharList_out\<close> concatenates with \<open>sprintf (word, "%s%s", word, ...)\<close> into a block it has
  not written to: the buffer is \<open>None\<close> while its content is indeterminate.  There is no
  \<open>return\<close>: the function has no result.  \<open>ok\<close> is whether its \<open>malloc\<close> succeeds.\<close>

fun cat_loop :: "nat \<Rightarrow> cptr lheap \<Rightarrow> nat \<Rightarrow> nat \<Rightarrow> bool \<Rightarrow> string option \<Rightarrow> unit res" where
  "cat_loop 0 h list pos ok word = (if pos = list_end list then Inr () else Inl OutOfFuel)"
| "cat_loop (Suc n) h list pos ok word = (if pos = list_end list then Inr () else
     rbind (rd_data h (list_data pos)) (\<lambda>d.
     if \<not> ok then Inl NullDeref else
     case word of None \<Rightarrow> Inl UninitRead
     | Some w \<Rightarrow> rbind (the_str d) (\<lambda>s.
         rbind (list_next h pos) (\<lambda>p. cat_loop n h list p ok (Some (w @ s))))))"

definition charlist_out :: "cptr lheap \<Rightarrow> nat \<Rightarrow> bool \<Rightarrow> unit res" where
  "charlist_out h list ok = rbind (list_size h list) (\<lambda>size.
     rbind (list_begin h list) (\<lambda>b. cat_loop (brk h) h list b ok None))"

definition printed_line :: "string \<Rightarrow> string" where
  "printed_line s = ''print->'' @ s @ [CHR 0x0A]"

lemma print_loop_correct:
  assumes "dlist h t (xs @ ys)" "map (dat h) ys = map Some ws" "length ys \<le> n"
  shows "print_loop n h t (hd (ys @ [t])) pr = Inr (pr @ concat (map printed_line ws))"
  using assms
proof (induction n arbitrary: xs ys ws pr)
  case 0
  then show ?case by (simp add: list_end_def)
next
  case (Suc n)
  show ?case
  proof (cases ys)
    case Nil
    with Suc.prems show ?thesis by (simp add: list_end_def)
  next
    case (Cons a as)
    then obtain w ws' where w: "ws = w # ws'" "dat h a = Some w" "map (dat h) as = map Some ws'"
      using Suc.prems(2) by (cases ws) auto
    have l: "dlist h t ((xs @ [a]) @ as)" using Suc.prems(1) Cons by simp
    then have n: "list_next h a = Inr (hd (as @ [t]))" "a \<noteq> t" "live h a"
      using list_iterators(1) [OF l] by (auto simp: dlist_def)
    from Suc.IH [OF l w(3)] Suc.prems(3) Cons w n show ?thesis
      by (simp add: list_end_def list_data_def rd_data_def acc_def printed_line_def)
  qed
qed

lemma charlist_printf_correct:
  assumes "heap_ok h" "dlist h t ps" "map (dat h) ps = map Some ws"
  shows "charlist_printf h t = Inr (concat (map printed_line ws))"
  using print_loop_correct [of h t "[]" ps ws "brk h" "[]"] dlist_length [OF assms(1,2)] assms
  by (simp add: charlist_printf_def list_ends [OF assms(2)])

text \<open>Concatenating a list that is not empty never works: the first \<open>sprintf\<close> reads the
  uninitialised block.\<close>

lemma charlist_out_fails:
  assumes "heap_ok h" "dlist h t (a # ps)"
  shows "charlist_out h t ok = Inl (if ok then UninitRead else NullDeref)"
proof -
  obtain m where m: "brk h = Suc m" using assms(1) by (cases "brk h") (auto simp: heap_ok_def)
  have "a \<noteq> t" "live h a" using assms(2) by (auto simp: dlist_def)
  then show ?thesis
    using list_size_correct [OF assms] list_ends [OF assms(2)] m
    by (simp add: charlist_out_def list_end_def list_data_def rd_data_def acc_def)
qed

subsection \<open>What the list promises\<close>

text \<open>A small heap with a list of three numbers, for the examples: the sentinel is 1.\<close>

definition three :: "int \<Rightarrow> int \<Rightarrow> int \<Rightarrow> nat \<Rightarrow> int lheap" where
  "three a b c r = \<lparr>nxt = (\<lambda>x. if x < 4 then x + 1 else 1), prv = (\<lambda>x. if x = 1 then 4 else x - 1),
     dat = (\<lambda>x. if x = 2 then a else if x = 3 then b else c), live = (\<lambda>x. 1 \<le> x \<and> x \<le> 4),
     brk = 5, room = r\<rparr>"

lemma three_ok: "heap_ok (three a b c r)" "dlist (three a b c r) 1 [2, 3, 4]"
  by (auto simp: three_def heap_ok_def dlist_def)

text \<open>
  C14: \<open>sort\<close> of \<open>cstl/list.h\<close> always returns; it reorders the nodes of the list, without
  touching their data or any other memory, so that the values are ascending for the caller's
  comparison (any total preorder), and it is stable: the nodes that compare equal to any given value
  keep their order.
\<close>

theorem list_sort_correct:
  assumes "heap_ok h" "dlist h s ps"
    and "\<forall>a b. cmp a b \<le> 0 \<or> cmp b a \<le> (0 :: int)"
    and "\<forall>a b c. cmp a b \<le> 0 \<longrightarrow> cmp b c \<le> 0 \<longrightarrow> cmp a c \<le> 0"
  shows "\<exists>h' qs. list_sort cmp h s = Inr h' \<and> dlist h' s qs \<and> mset qs = mset ps \<and> dat h' = dat h \<and>
    live h' = live h \<and> sorted_wrt (\<lambda>a b. cmp a b \<le> 0) (map (dat h') qs) \<and>
    (\<forall>v. filter (\<lambda>a. cmp (dat h a) v \<le> 0 \<and> cmp v (dat h a) \<le> 0) qs =
         filter (\<lambda>a. cmp (dat h a) v \<le> 0 \<and> cmp v (dat h a) \<le> 0) ps) \<and>
    same_outside (set (s # ps) \<union> {brk h..}) h h'"
proof -
  let ?le = "\<lambda>a b. cmp (dat h a) (dat h b) \<le> 0"
  have tot: "?le a b \<or> ?le b a" and tr: "?le a b \<Longrightarrow> ?le b c \<Longrightarrow> ?le a c" for a b c
    using assms(3,4) by blast+
  have "sorted_wrt ?le (amsort ?le ps)" by (rule amsort_sorted [of ?le]) (use tot tr in blast)+
  then have "sorted_wrt (\<lambda>a b. cmp a b \<le> 0) (map (dat h) (amsort ?le ps))"
    by (simp add: sorted_wrt_map)
  moreover have "filter (\<lambda>a. cmp (dat h a) v \<le> 0 \<and> cmp v (dat h a) \<le> 0) (amsort ?le ps) =
      filter (\<lambda>a. cmp (dat h a) v \<le> 0 \<and> cmp v (dat h a) \<le> 0) ps" for v
    by (rule filter_amsort [of ?le]) (use assms(3,4) in blast)+
  moreover obtain h' where "list_sort cmp h s = Inr h'" "dlist h' s (amsort ?le ps)" "dat h' = dat h"
      "live h' = live h" "same_outside (set (s # ps) \<union> {brk h..}) h h'"
    using list_sort_amsort [OF assms(1,2), of cmp] by (elim exE conjE) (rule that)
  ultimately show ?thesis
    using mset_amsort [of ?le ps] by (intro exI [of _ h'] exI [of _ "amsort ?le ps"]) simp
qed

theorem list_sort_correct_witness:
  "\<exists>h' qs. list_sort (\<lambda>a b. a - b) (three 7 5 6 0) 1 = Inr h' \<and> dlist h' 1 qs \<and>
    mset qs = mset [2, 3, 4] \<and> sorted_wrt (\<lambda>a b. a - b \<le> 0) (map (dat h') qs)"
proof -
  have tot: "\<forall>a b :: int. a - b \<le> 0 \<or> b - a \<le> 0"
    and tr: "\<forall>a b c :: int. a - b \<le> 0 \<longrightarrow> b - c \<le> 0 \<longrightarrow> a - c \<le> 0"
    by auto
  show ?thesis
    using list_sort_correct [of _ _ _ "\<lambda>a b. a - b", OF three_ok [of 7 5 6 0] tot tr]
    by (elim exE conjE) (intro exI conjI, assumption+)
qed

text \<open>
  C15: Inserting the first \<open>n\<close> elements of an array (and so \<open>insert_n\<close>, \<open>insert_range\<close> and a
  growing \<open>resize\<close>, which share the code) before any position of a list is all or nothing:
  with enough memory the list has the copies at that place, and otherwise the operation answers
  0, the list is what it was, and nothing that was allocated on the way is left.
\<close>

theorem list_insert_all_or_nothing:
  assumes "heap_ok h" "dlist h s (xs @ ys)" "pos = hd (ys @ [s])" "n \<le> length data"
  shows "\<exists>h' ns. list_insert_array h s pos data n = Inr (n \<le> room h, h') \<and>
    dlist h' s (xs @ ns @ ys) \<and> heap_ok h' \<and>
    map (dat h') (xs @ ns @ ys) =
      map (dat h) xs @ (if n \<le> room h then take n data else []) @ map (dat h) ys \<and>
    (n \<le> room h \<or> ns = [] \<and> live h' = live h) \<and>
    same_outside (set (s # xs @ ys) \<union> {brk h..}) h h'"
proof -
  have lt: "\<forall>a \<in> set (xs @ ys). \<not> brk h \<le> a"
    using assms(1,2) unfolding dlist_def heap_ok_def by (auto simp: not_le)
  show ?thesis
  proof (cases "n \<le> room h")
    case True
    with list_insert_array_correct [OF assms, of s] lt show ?thesis
      by (fastforce simp: not_le)
  next
    case False
    with list_insert_values_fails [OF assms(1,2), of "take n data" s pos] assms(4)
    obtain h' where h': "list_insert_values h s pos (take n data) = Inr (False, h')"
        "dlist h' s (xs @ ys)" "heap_ok h'" "same_outside {brk h..} h h'" "live h' = live h"
      by auto
    have "same_outside (set (s # xs @ ys) \<union> {brk h..}) h h'"
      by (rule same_outside_mono [OF h'(4)]) auto
    moreover have "map (dat h') (xs @ ys) = map (dat h) (xs @ ys)"
      using h'(4) lt by (auto simp: same_outside_def)
    ultimately show ?thesis using h' False assms(4)
      by (intro exI [of _ h'] exI [of _ "[]"]) (auto simp: list_insert_array_def)
  qed
qed

theorem list_insert_all_or_nothing_witness:
  "\<exists>h' ns. list_insert_array (three 7 5 6 1) 1 3 [8, 9] 2 = Inr (False, h') \<and>
    dlist h' 1 ([2] @ ns @ [3, 4]) \<and> live h' = live (three 7 5 6 1)"
proof -
  have r: "(2 \<le> room (three 7 5 6 1)) = False" by (simp add: three_def)
  have "dlist (three 7 5 6 1) 1 ([2] @ [3, 4])" using three_ok(2) [of 7 5 6 1] by simp
  from list_insert_all_or_nothing [OF three_ok(1) this, of 3 2 "[8, 9]", unfolded r] show ?thesis
    by (auto intro!: exI [of _ "[]"])
qed

text \<open>
  C36: \<open>swap\<close> exchanges two lists only when neither of them is empty. If one is, it destroys
  both: whatever their elements were, afterwards the successor of each list's sentinel is the other
  sentinel, so that each list seems to hold one element, the other list's head.
\<close>

theorem list_swap_with_empty_list:
  assumes "dlist h s ps" "dlist h x qs" "set (s # ps) \<inter> set (x # qs) = {}" "heap_ok h"
    "ps = [] \<or> qs = []"
  shows "\<exists>h'. list_swap h s x = Inr h' \<and> list_begin h' s = Inr x \<and> list_begin h' x = Inr s \<and>
    list_size h' s = Inr 1 \<and> list_size h' x = Inr 1"
proof -
  obtain h' where h': "list_swap h s x = Inr h'" "nxt h' s = x" "nxt h' x = s"
    using list_swap_empty [OF assms(1,2,5,3)] by blast
  have fr: "live h' = live h" "brk h' = brk h"
    using h'(1) by (auto simp: list_swap_def rbind_eq_Inr mem_simps split: if_splits)
  have b: "s < brk h" "x < brk h" "live h s" "live h x" "s \<noteq> x" "0 < s" "0 < x"
    using assms by (auto simp: dlist_def heap_ok_def)
  then obtain m where "brk h = Suc (Suc m)" by (cases "brk h"; cases "brk h - 1") auto
  with h' fr b show ?thesis
    by (auto simp: list_begin_def list_size_def mem_simps)
qed

text \<open>Two lists, the second one empty.\<close>

definition three_and_none :: "int lheap" where
  "three_and_none = (three 7 5 6 0)\<lparr>nxt := (\<lambda>x. if x = 5 then 5 else if x < 4 then x + 1 else 1),
     prv := (\<lambda>x. if x = 5 then 5 else if x = 1 then 4 else x - 1),
     live := (\<lambda>x. 1 \<le> x \<and> x \<le> 5), brk := 6\<rparr>"

theorem list_swap_with_empty_list_witness:
  "\<exists>h'. list_swap three_and_none 1 5 = Inr h' \<and> list_size h' 1 = Inr 1 \<and> list_size h' 5 = Inr 1"
proof -
  have "dlist three_and_none 1 [2, 3, 4]" "dlist three_and_none 5 []" "heap_ok three_and_none"
    by (auto simp: three_and_none_def three_def dlist_def heap_ok_def)
  with list_swap_with_empty_list [of three_and_none 1 "[2, 3, 4]" 5 "[]"] show ?thesis by auto
qed

end
