(* ===== verification/Cstl_Block.thy ===== *)
theory Cstl_Block
  imports Prelude
begin

text \<open>
  What the array containers of \<open>cstl/\<close> (vector, string, ring) are built from: \<open>size_t\<close>
  arithmetic, blocks of cells, and \<open>memcpy\<close>, \<open>memmove\<close> and \<open>realloc\<close> on them.

  \<open>size_t\<close> is 64 bits wide; it is kept as a \<open>nat\<close> with the wrap-around written out
  (\<open>sz\<close>, \<open>sz_sub\<close>).  A block is a list of cells, \<open>None\<close> where nothing has been stored yet;
  \<open>NULL\<close> is the block without cells.  An access outside the block faults, and so does a
  \<open>memcpy\<close> between overlapping regions.
\<close>

subsection \<open>\<open>size_t\<close>\<close>

definition sz :: "nat \<Rightarrow> nat" where
  "sz n = n mod 2 ^ 64"

definition NPOS :: nat where
  "NPOS = 2 ^ 64 - 1"

definition sz_sub :: "nat \<Rightarrow> nat \<Rightarrow> nat" where
  "sz_sub a b = (if b \<le> a then a - b else 2 ^ 64 - (b - a))"

lemma sz_id: "n \<le> NPOS \<Longrightarrow> sz n = n"
  by (simp add: sz_def NPOS_def)

lemma sz_le: "sz n \<le> NPOS"
proof -
  have "n mod (2 ^ 64) < (2 :: nat) ^ 64" by simp
  then show ?thesis unfolding sz_def NPOS_def by linarith
qed

lemma sz_sub_le [simp]: "b \<le> a \<Longrightarrow> sz_sub a b = a - b"
  by (simp add: sz_sub_def)

subsection \<open>Blocks of cells\<close>

type_synonym 'a cells = "'a option list"

definition cell_get :: "'a cells \<Rightarrow> nat \<Rightarrow> 'a res" where
  "cell_get b i = (if i < length b then (case b ! i of None \<Rightarrow> Inl UninitRead | Some x \<Rightarrow> Inr x)
     else Inl OutOfBounds)"

definition cell_set :: "'a cells \<Rightarrow> nat \<Rightarrow> 'a \<Rightarrow> 'a cells res" where
  "cell_set b i x = (if i < length b then Inr (b[i := Some x]) else Inl OutOfBounds)"

text \<open>\<open>put_cells b d cs\<close> stores the cells \<open>cs\<close> at index \<open>d\<close>.\<close>

definition put_cells :: "'a cells \<Rightarrow> nat \<Rightarrow> 'a cells \<Rightarrow> 'a cells" where
  "put_cells b d cs = take d b @ cs @ drop (d + length cs) b"

definition mem_move :: "'a cells \<Rightarrow> nat \<Rightarrow> nat \<Rightarrow> nat \<Rightarrow> 'a cells res" where
  "mem_move b d s n = (if s + n \<le> length b \<and> d + n \<le> length b
     then Inr (put_cells b d (take n (drop s b))) else Inl OutOfBounds)"

definition mem_copy :: "'a cells \<Rightarrow> nat \<Rightarrow> nat \<Rightarrow> nat \<Rightarrow> 'a cells res" where
  "mem_copy b d s n = (if 0 < n \<and> d < s + n \<and> s < d + n then Inl Overlap else mem_move b d s n)"

text \<open>\<open>memcpy\<close> from another block.\<close>

definition mem_copy_from :: "'a cells \<Rightarrow> nat \<Rightarrow> 'a cells \<Rightarrow> nat \<Rightarrow> nat \<Rightarrow> 'a cells res" where
  "mem_copy_from b d c s n = (if s + n \<le> length c \<and> d + n \<le> length b
     then Inr (put_cells b d (take n (drop s c))) else Inl OutOfBounds)"

text \<open>\<open>realloc\<close> to \<open>n\<close> elements of \<open>ts\<close> bytes; \<open>mem\<close> says which sizes can be had.  There is
  no object of 2^64 - 1 bytes.\<close>

definition mem_realloc :: "(nat \<Rightarrow> bool) \<Rightarrow> nat \<Rightarrow> nat \<Rightarrow> 'a cells \<Rightarrow> 'a cells option" where
  "mem_realloc mem ts n b =
     (if sz (ts * n) < NPOS \<and> mem (sz (ts * n)) then Some (take n b @ replicate (n - length b) None) else None)"

lemma cell_get_Some: "i < length b \<Longrightarrow> b ! i = Some x \<Longrightarrow> cell_get b i = Inr x"
  by (simp add: cell_get_def)

lemma length_put_cells: "d + length cs \<le> length b \<Longrightarrow> length (put_cells b d cs) = length b"
  by (simp add: put_cells_def)

lemma nth_put_cells: "i < length b \<Longrightarrow> d + length cs \<le> length b \<Longrightarrow>
    put_cells b d cs ! i = (if i < d then b ! i else if i < d + length cs then cs ! (i - d) else b ! i)"
  by (auto simp: put_cells_def nth_append min_def)

lemma put_cells_append: "d + length cs + length ds \<le> length b \<Longrightarrow>
    put_cells (put_cells b d cs) (d + length cs) ds = put_cells b d (cs @ ds)"
  by (simp add: put_cells_def ac_simps)

lemma put_cells_Nil [simp]: "put_cells b d [] = b"
  by (simp add: put_cells_def)

lemma put_cells_snoc: "d + length cs < length b \<Longrightarrow>
    (put_cells b d cs)[d + length cs := x] = put_cells b d (cs @ [x])"
  by (rule nth_equalityI) (auto simp: put_cells_def nth_list_update nth_append min_def)

text \<open>A loop that stores the values \<open>f 0\<close>, \<open>f 1\<close>, ... at consecutive indices.\<close>

lemma fill_cells:
  assumes "\<And>i. i < n \<Longrightarrow> g (put_cells b d (map (\<lambda>j. Some (f j)) [0..<i])) i = Inr (f i)"
    and "d + n \<le> length b" "d + n \<le> NPOS"
  shows "rfold (\<lambda>c i. rbind (g c i) (cell_set c (sz (d + i)))) b [0..<n] =
    Inr (put_cells b d (map (\<lambda>j. Some (f j)) [0..<n]))"
  using assms
proof (induction n)
  case 0
  then show ?case by simp
next
  case (Suc n)
  have IH: "rfold (\<lambda>c i. rbind (g c i) (cell_set c (sz (d + i)))) b [0..<n] =
      Inr (put_cells b d (map (\<lambda>j. Some (f j)) [0..<n]))"
    using Suc by simp
  have l: "length (put_cells b d (map (\<lambda>j. Some (f j)) [0..<n])) = length b"
    by (rule length_put_cells) (use Suc.prems(2) in simp)
  have s: "cell_set (put_cells b d (map (\<lambda>j. Some (f j)) [0..<n])) (sz (d + n)) (f n) =
      Inr (put_cells b d (map (\<lambda>j. Some (f j)) [0..<Suc n]))"
    using Suc.prems(2,3) l put_cells_snoc [of d "map (\<lambda>j. Some (f j)) [0..<n]" b "Some (f n)"]
    by (simp add: cell_set_def sz_id)
  show ?case
    using IH s Suc.prems(1) [of n] by (simp add: rfold_append)
qed

end
