(* ===== verification/Cstl_Vector.thy ===== *)
theory Cstl_Vector
  imports Cstl_Block Interfaces
begin

text \<open>
  The vector of \<open>cstl/vector.h\<close> (\<open>CSTL_VECTOR_IMPLEMENT (Name, Type)\<close>): size, capacity and a
  block of cells.  \<open>ts\<close> is \<open>sizeof (Type)\<close> and \<open>mem\<close> tells which sizes \<open>malloc\<close> and
  \<open>realloc\<close> can serve.

  The operations that take a pointer to a value can be given a pointer into the vector's own
  block (\<open>Own i\<close>).  A \<open>realloc\<close> makes such a pointer dangling; reading it faults then.

  \<open>vec_holds v xs\<close> is the abstraction to the list of the elements, with the invariant of the
  three fields.
\<close>

subsection \<open>State and allocation\<close>

record 'a vec =
  vsize :: nat
  vcap :: nat
  vbuf :: "'a cells"

datatype 'a src = Value 'a | Own nat

definition vec_new :: "(nat \<Rightarrow> bool) \<Rightarrow> 'a vec option" where
  "vec_new mem = (if mem 24 then Some \<lparr>vsize = 0, vcap = 0, vbuf = []\<rparr> else None)"

definition vec_reserve :: "(nat \<Rightarrow> bool) \<Rightarrow> nat \<Rightarrow> 'a vec \<Rightarrow> nat \<Rightarrow> bool \<times> 'a vec" where
  "vec_reserve mem ts v n = (if n \<le> vcap v then (True, v)
     else if n > NPOS div ts then (False, v)
     else case mem_realloc mem ts n (vbuf v) of
       None \<Rightarrow> (False, v)
     | Some b \<Rightarrow> (True, v\<lparr>vbuf := b, vcap := n\<rparr>))"

definition vec_new_reserve :: "(nat \<Rightarrow> bool) \<Rightarrow> nat \<Rightarrow> nat \<Rightarrow> 'a vec option" where
  "vec_new_reserve mem ts n = (case vec_new mem of None \<Rightarrow> None
     | Some v \<Rightarrow> (case vec_reserve mem ts v n of (ok, v1) \<Rightarrow> if ok then Some v1 else None))"

definition vec_expand :: "(nat \<Rightarrow> bool) \<Rightarrow> nat \<Rightarrow> 'a vec \<Rightarrow> nat \<Rightarrow> bool \<times> 'a vec" where
  "vec_expand mem ts v need = (if need \<le> vcap v then (True, v)
     else vec_reserve mem ts v (if need > sz (vcap v * 2) then need else sz (vcap v * 2)))"

definition vec_shrink :: "(nat \<Rightarrow> bool) \<Rightarrow> nat \<Rightarrow> 'a vec \<Rightarrow> nat \<Rightarrow> 'a vec" where
  "vec_shrink mem ts v n0 = (if n0 \<ge> vcap v then v else
     let n = (if n0 < vsize v then vsize v else n0); v1 = v\<lparr>vcap := n\<rparr> in
     if n = 0 then v1\<lparr>vbuf := []\<rparr> else
     case mem_realloc mem ts n (vbuf v1) of None \<Rightarrow> v1 | Some b \<Rightarrow> v1\<lparr>vbuf := b\<rparr>)"

subsection \<open>Elements\<close>

text \<open>Reading through a pointer; \<open>moved\<close> is whether the block was reallocated since.\<close>

definition src_read :: "bool \<Rightarrow> 'a cells \<Rightarrow> 'a src \<Rightarrow> 'a res" where
  "src_read moved b p = (case p of Value x \<Rightarrow> Inr x
     | Own i \<Rightarrow> if moved then Inl UseAfterFree else cell_get b i)"

definition vec_push_back_ref :: "(nat \<Rightarrow> bool) \<Rightarrow> nat \<Rightarrow> 'a vec \<Rightarrow> 'a src \<Rightarrow> (bool \<times> 'a vec) res" where
  "vec_push_back_ref mem ts v p = (case vec_expand mem ts v (sz (vsize v + 1)) of (ok, v1) \<Rightarrow>
     if \<not> ok then Inr (False, v1) else
     rbind (src_read (vcap v1 \<noteq> vcap v) (vbuf v1) p) (\<lambda>x.
     rbind (cell_set (vbuf v1) (vsize v1) x) (\<lambda>b.
       Inr (True, v1\<lparr>vbuf := b, vsize := sz (vsize v1 + 1)\<rparr>))))"

definition vec_push_back :: "(nat \<Rightarrow> bool) \<Rightarrow> nat \<Rightarrow> 'a vec \<Rightarrow> 'a \<Rightarrow> (bool \<times> 'a vec) res" where
  "vec_push_back mem ts v x = vec_push_back_ref mem ts v (Value x)"

definition vec_pop_back :: "'a vec \<Rightarrow> 'a vec" where
  "vec_pop_back v = v\<lparr>vsize := sz_sub (vsize v) 1\<rparr>"

definition vec_size :: "'a vec \<Rightarrow> nat" where
  "vec_size v = vsize v"

definition vec_capacity :: "'a vec \<Rightarrow> nat" where
  "vec_capacity v = vcap v"

definition vec_empty :: "'a vec \<Rightarrow> bool" where
  "vec_empty v \<longleftrightarrow> vsize v = 0"

definition vec_clear :: "'a vec \<Rightarrow> 'a vec" where
  "vec_clear v = v\<lparr>vsize := 0\<rparr>"

text \<open>\<open>at\<close>, \<open>front\<close> and \<open>back\<close> return a pointer; the model gives the value it points to.\<close>

definition vec_at :: "'a vec \<Rightarrow> nat \<Rightarrow> 'a res" where
  "vec_at v idx = cell_get (vbuf v) idx"

definition vec_front :: "'a vec \<Rightarrow> 'a res" where
  "vec_front v = cell_get (vbuf v) 0"

definition vec_back :: "'a vec \<Rightarrow> 'a res" where
  "vec_back v = cell_get (vbuf v) (sz_sub (vsize v) 1)"

subsection \<open>Moving, inserting, erasing\<close>

definition vec_move_backward :: "'a vec \<Rightarrow> nat \<Rightarrow> nat \<Rightarrow> nat \<Rightarrow> 'a vec res" where
  "vec_move_backward v first last' n =
     rbind (mem_move (vbuf v) (sz (first + n)) first (sz_sub last' first)) (\<lambda>b. Inr (v\<lparr>vbuf := b\<rparr>))"

definition vec_move_forward :: "'a vec \<Rightarrow> nat \<Rightarrow> nat \<Rightarrow> nat \<Rightarrow> 'a vec res" where
  "vec_move_forward v first last' n =
     rbind (mem_move (vbuf v) (sz_sub first n) first (sz_sub last' first)) (\<lambda>b. Inr (v\<lparr>vbuf := b\<rparr>))"

definition vec_insert_n_no_data :: "(nat \<Rightarrow> bool) \<Rightarrow> nat \<Rightarrow> 'a vec \<Rightarrow> nat \<Rightarrow> nat \<Rightarrow> (bool \<times> 'a vec) res" where
  "vec_insert_n_no_data mem ts v idx n = (case vec_expand mem ts v (sz (vsize v + n)) of (ok, v1) \<Rightarrow>
     if \<not> ok then Inr (False, v1) else
     rbind (vec_move_backward v1 idx (vsize v1) n) (\<lambda>v2.
       Inr (True, v2\<lparr>vsize := sz (vsize v2 + n)\<rparr>)))"

definition vec_insert_n_ref ::
  "(nat \<Rightarrow> bool) \<Rightarrow> nat \<Rightarrow> 'a vec \<Rightarrow> nat \<Rightarrow> nat \<Rightarrow> 'a src \<Rightarrow> (bool \<times> 'a vec) res" where
  "vec_insert_n_ref mem ts v idx n p = rbind (vec_insert_n_no_data mem ts v idx n) (\<lambda>(ok, v1).
     if \<not> ok then Inr (False, v1) else
     rbind (rfold (\<lambda>b i. rbind (src_read (vcap v1 \<noteq> vcap v) b p) (cell_set b (sz (idx + i))))
       (vbuf v1) [0..<n]) (\<lambda>b. Inr (True, v1\<lparr>vbuf := b\<rparr>)))"

definition vec_insert_n :: "(nat \<Rightarrow> bool) \<Rightarrow> nat \<Rightarrow> 'a vec \<Rightarrow> nat \<Rightarrow> nat \<Rightarrow> 'a \<Rightarrow> (bool \<times> 'a vec) res" where
  "vec_insert_n mem ts v idx n x = vec_insert_n_ref mem ts v idx n (Value x)"

definition vec_insert_ref :: "(nat \<Rightarrow> bool) \<Rightarrow> nat \<Rightarrow> 'a vec \<Rightarrow> nat \<Rightarrow> 'a src \<Rightarrow> (bool \<times> 'a vec) res" where
  "vec_insert_ref mem ts v idx p = vec_insert_n_ref mem ts v idx 1 p"

definition vec_insert :: "(nat \<Rightarrow> bool) \<Rightarrow> nat \<Rightarrow> 'a vec \<Rightarrow> nat \<Rightarrow> 'a \<Rightarrow> (bool \<times> 'a vec) res" where
  "vec_insert mem ts v idx x = vec_insert_n_ref mem ts v idx 1 (Value x)"

text \<open>\<open>data\<close> is an array outside the vector.\<close>

definition vec_insert_array ::
  "(nat \<Rightarrow> bool) \<Rightarrow> nat \<Rightarrow> 'a vec \<Rightarrow> nat \<Rightarrow> 'a cells \<Rightarrow> nat \<Rightarrow> (bool \<times> 'a vec) res" where
  "vec_insert_array mem ts v idx data n = rbind (vec_insert_n_no_data mem ts v idx n) (\<lambda>(ok, v1).
     if \<not> ok then Inr (False, v1) else
     rbind (mem_copy_from (vbuf v1) idx data 0 n) (\<lambda>b. Inr (True, v1\<lparr>vbuf := b\<rparr>)))"

text \<open>\<open>insert_range\<close> of another vector \<open>x\<close> and, the branch \<open>self == x\<close>, of the vector itself.\<close>

definition vec_insert_range_other ::
  "(nat \<Rightarrow> bool) \<Rightarrow> nat \<Rightarrow> 'a vec \<Rightarrow> nat \<Rightarrow> 'a vec \<Rightarrow> nat \<Rightarrow> nat \<Rightarrow> (bool \<times> 'a vec) res" where
  "vec_insert_range_other mem ts v idx x xidx n = rbind (vec_insert_n_no_data mem ts v idx n) (\<lambda>(ok, v1).
     if \<not> ok then Inr (False, v1) else
     rbind (mem_copy_from (vbuf v1) idx (vbuf x) xidx n) (\<lambda>b. Inr (True, v1\<lparr>vbuf := b\<rparr>)))"

definition vec_insert_range_self ::
  "(nat \<Rightarrow> bool) \<Rightarrow> nat \<Rightarrow> 'a vec \<Rightarrow> nat \<Rightarrow> nat \<Rightarrow> nat \<Rightarrow> (bool \<times> 'a vec) res" where
  "vec_insert_range_self mem ts v idx xidx n = rbind (vec_insert_n_no_data mem ts v idx n) (\<lambda>(ok, v1).
     if \<not> ok then Inr (False, v1) else
     rbind (if idx \<le> xidx then mem_copy (vbuf v1) idx (sz (xidx + n)) n
       else if xidx < idx \<and> idx < sz (xidx + n) then
         rbind (mem_copy (vbuf v1) idx xidx (idx - xidx)) (\<lambda>b.
           mem_copy b (sz (idx + (idx - xidx))) (sz (idx + n)) (sz_sub n (idx - xidx)))
       else mem_copy (vbuf v1) idx xidx n)
     (\<lambda>b. Inr (True, v1\<lparr>vbuf := b\<rparr>)))"

definition vec_erase :: "'a vec \<Rightarrow> nat \<Rightarrow> nat \<Rightarrow> 'a vec res" where
  "vec_erase v idx n = rbind (vec_move_forward v (sz (idx + n)) (vsize v) n) (\<lambda>v1.
     Inr (v1\<lparr>vsize := sz_sub (vsize v1) n\<rparr>))"

definition vec_resize :: "(nat \<Rightarrow> bool) \<Rightarrow> nat \<Rightarrow> 'a vec \<Rightarrow> nat \<Rightarrow> 'a \<Rightarrow> (bool \<times> 'a vec) res" where
  "vec_resize mem ts v n x = (let old = vsize v in
     if old \<ge> n then Inr (True, v\<lparr>vsize := n\<rparr>) else
     rbind (vec_insert_n_no_data mem ts v old (n - old)) (\<lambda>(ok, v1).
       if \<not> ok then Inr (False, v1) else
       rbind (rfold (\<lambda>b i. cell_set b i x) (vbuf v1) [old..<n]) (\<lambda>b. Inr (True, v1\<lparr>vbuf := b\<rparr>))))"

text \<open>\<open>swap\<close> of two different vectors.\<close>

definition vec_swap :: "'a vec \<Rightarrow> 'a vec \<Rightarrow> 'a vec \<times> 'a vec" where
  "vec_swap self x = (let tmp_size = vsize self; tmp_capacity = vcap self; tmp_buf = vbuf self;
     self1 = self\<lparr>vsize := vsize x, vcap := vcap x, vbuf := vbuf x\<rparr>;
     x1 = x\<lparr>vsize := tmp_size, vcap := tmp_capacity, vbuf := tmp_buf\<rparr> in (self1, x1))"


subsection \<open>The abstraction\<close>

definition vec_holds :: "'a vec \<Rightarrow> 'a list \<Rightarrow> bool" where
  "vec_holds v xs \<longleftrightarrow> vcap v \<le> length (vbuf v) \<and> vcap v < NPOS \<and> vsize v = length xs \<and>
     length xs \<le> vcap v \<and> (\<forall>i < length xs. vbuf v ! i = Some (xs ! i))"

text \<open>A vector in which \<open>n\<close> cells have been made free at \<open>idx\<close>: the elements behind the gap
  have moved, and its cells still hold what was there.\<close>

definition vec_gap :: "'a vec \<Rightarrow> 'a list \<Rightarrow> nat \<Rightarrow> nat \<Rightarrow> bool" where
  "vec_gap v xs idx n \<longleftrightarrow> vcap v \<le> length (vbuf v) \<and> vcap v < NPOS \<and>
     vsize v = length xs + n \<and> length xs + n \<le> vcap v \<and> idx \<le> length xs \<and>
     (\<forall>i < length xs. i < idx + n \<longrightarrow> vbuf v ! i = Some (xs ! i)) \<and>
     (\<forall>i < length xs. idx \<le> i \<longrightarrow> vbuf v ! (i + n) = Some (xs ! i))"

lemma vec_holds_NPOS: "vec_holds v xs \<Longrightarrow> length xs < NPOS"
  by (auto simp: vec_holds_def)

text \<open>A request that is granted is for less than 2^64 - 1 elements.\<close>

lemma granted_lt:
  assumes "\<not> n > NPOS div ts" "sz (ts * n) < NPOS" "0 < n"
  shows "n < NPOS"
proof -
  have ts: "0 < ts" using assms(1,3) by (cases ts) auto
  have "n * ts \<le> NPOS" using assms(1) ts by (simp add: not_less less_eq_div_iff_mult_less_eq)
  then have "ts * n < NPOS" using assms(2) by (simp add: sz_id mult.commute)
  moreover have "n \<le> ts * n" using ts by (cases ts) auto
  ultimately show ?thesis by linarith
qed

lemma vec_new_correct: "vec_new mem = Some v \<Longrightarrow> vec_holds v []"
  by (auto simp: vec_new_def vec_holds_def NPOS_def split: if_splits)

lemma vec_reserve_correct:
  assumes "vec_holds v xs"
  obtains ok v' where "vec_reserve mem ts v n = (ok, v')" "vec_holds v' xs" "ok \<longrightarrow> n \<le> vcap v'"
    "\<not> ok \<longrightarrow> v' = v"
proof -
  obtain ok v' where r: "vec_reserve mem ts v n = (ok, v')" by fastforce
  have "vec_holds v' xs \<and> (ok \<longrightarrow> n \<le> vcap v') \<and>
      (\<not> ok \<longrightarrow> v' = v)"
    using assms r granted_lt [of ts n]
    by (auto simp: vec_reserve_def mem_realloc_def vec_holds_def nth_append split: if_splits)
  with r that show ?thesis by blast
qed

lemma vec_expand_correct:
  assumes "vec_holds v xs"
  obtains ok v' where "vec_expand mem ts v n = (ok, v')" "vec_holds v' xs" "ok \<longrightarrow> n \<le> vcap v'"
    "\<not> ok \<longrightarrow> v' = v"
proof (cases "n \<le> vcap v")
  case True
  with assms that show ?thesis by (simp add: vec_expand_def)
next
  case False
  let ?m = "if n > sz (vcap v * 2) then n else sz (vcap v * 2)"
  obtain ok v' where r: "vec_reserve mem ts v ?m = (ok, v')" "vec_holds v' xs"
      "ok \<longrightarrow> ?m \<le> vcap v'" "\<not> ok \<longrightarrow> v' = v"
    by (rule vec_reserve_correct [OF assms, where mem = mem and n = ?m])
  have "ok \<longrightarrow> n \<le> vcap v'" using r(3) by (auto split: if_splits)
  with r False that show ?thesis by (simp add: vec_expand_def)
qed

lemma vec_expand_room: "n \<le> vcap v \<Longrightarrow> vec_expand mem ts v n = (True, v)"
  by (simp add: vec_expand_def)

text \<open>With all the memory it asks for, and room in \<open>size_t\<close>, growing does not fail.\<close>

lemma vec_expand_succeeds:
  assumes "\<And>m. mem m" "0 < ts" "ts * n < NPOS" "ts * (vcap v * 2) < NPOS"
  shows "fst (vec_expand mem ts v n)"
proof -
  have "vcap v * 2 \<le> ts * (vcap v * 2)" using assms(2) by (cases ts) auto
  then have sz2: "sz (vcap v * 2) = vcap v * 2" using assms(4) sz_id [of "vcap v * 2"] by linarith
  let ?m = "if n > sz (vcap v * 2) then n else sz (vcap v * 2)"
  have m: "ts * ?m < NPOS" using assms(3,4) sz2 by simp
  then have "\<not> NPOS div ts < ?m" "sz (ts * ?m) < NPOS"
    using assms(2) by (auto simp: not_less less_eq_div_iff_mult_less_eq sz_id mult.commute)
  then show ?thesis using assms(1) by (simp add: vec_expand_def vec_reserve_def mem_realloc_def)
qed

subsection \<open>Opening and filling a gap\<close>

lemma vec_insert_n_no_data_correct:
  assumes h: "vec_holds v xs" and idx: "idx \<le> length xs" and le: "length xs + n \<le> NPOS"
  obtains ok v' where "vec_insert_n_no_data mem ts v idx n = Inr (ok, v')"
    "ok \<longrightarrow> vec_gap v' xs idx n" "\<not> ok \<longrightarrow> v' = v" "length xs + n \<le> vcap v \<longrightarrow> ok \<and> vcap v' = vcap v"
proof -
  obtain ok v1 where e: "vec_expand mem ts v (length xs + n) = (ok, v1)" "vec_holds v1 xs"
      "ok \<longrightarrow> length xs + n \<le> vcap v1" "\<not> ok \<longrightarrow> v1 = v"
    by (rule vec_expand_correct [OF h, where mem = mem and n = "length xs + n"])
  have s: "sz (vsize v + n) = length xs + n" "vsize v = length xs" "vsize v1 = length xs"
    using h e(2) le by (simp_all add: vec_holds_def sz_id)
  show ?thesis
  proof (cases ok)
    case False
    then have "vec_insert_n_no_data mem ts v idx n = Inr (False, v1)"
      using e(1) s(1) by (simp add: vec_insert_n_no_data_def)
    moreover have "\<not> length xs + n \<le> vcap v" using vec_expand_room [of "length xs + n" v mem ts] e(1) False by auto
    ultimately show ?thesis using e(4) False by (intro that) auto
  next
    case True
    let ?b = "put_cells (vbuf v1) (idx + n) (take (length xs - idx) (drop idx (vbuf v1)))"
    let ?v2 = "v1\<lparr>vbuf := ?b, vsize := length xs + n\<rparr>"
    have len: "length xs + n \<le> length (vbuf v1)" using e(2) e(3) True by (simp add: vec_holds_def)
    have "vec_insert_n_no_data mem ts v idx n = Inr (True, ?v2)"
      using e(1) s True idx le len
      by (simp add: vec_insert_n_no_data_def vec_move_backward_def mem_move_def sz_id)
    moreover have "vec_gap ?v2 xs idx n"
      using e(2) e(3) True idx len
      by (auto simp: vec_gap_def vec_holds_def put_cells_def nth_append min_def)
    moreover have "length xs + n \<le> vcap v \<Longrightarrow> vcap ?v2 = vcap v"
      using vec_expand_room [of "length xs + n" v mem ts] e(1) by simp
    ultimately show ?thesis by (intro that) auto
  qed
qed

lemma vec_fill_gap:
  assumes "vec_gap v xs idx n" "length ys = n"
  shows "vec_holds (v\<lparr>vbuf := put_cells (vbuf v) idx (map Some ys)\<rparr>) (take idx xs @ ys @ drop idx xs)"
proof -
  let ?b = "put_cells (vbuf v) idx (map Some ys)" and ?zs = "take idx xs @ ys @ drop idx xs"
  have g: "vcap v \<le> length (vbuf v)" "length xs + n \<le> vcap v" "idx \<le> length xs"
    using assms(1) by (auto simp: vec_gap_def)
  have "?b ! i = Some (?zs ! i)" if i: "i < length xs + n" for i
  proof -
    consider "i < idx" | "idx \<le> i" "i < idx + n" | "idx + n \<le> i" by linarith
    then show ?thesis
    proof cases
      case 3
      then have "vbuf v ! (i - n + n) = Some (xs ! (i - n))"
        using assms(1) i unfolding vec_gap_def by (metis add_leD1 diff_less_mono le_add_diff_inverse2
            less_diff_conv2 nat_add_left_cancel_le add.commute le_diff_conv2)
      with 3 i g assms(2) show ?thesis by (auto simp: put_cells_def nth_append min_def)
    qed (use assms g i in \<open>auto simp: put_cells_def nth_append min_def vec_gap_def\<close>)
  qed
  then show ?thesis
    using assms g length_put_cells [of idx "map Some ys" "vbuf v"] by (auto simp: vec_holds_def vec_gap_def)
qed


text \<open>The cells of a gap vector that hold elements.\<close>

lemma vec_gap_cells:
  assumes "vec_gap v xs idx n"
  shows "i < length xs \<Longrightarrow> i < idx + n \<Longrightarrow> vbuf v ! i = Some (xs ! i)"
    and "j < length xs + n \<Longrightarrow> idx + n \<le> j \<Longrightarrow> vbuf v ! j = Some (xs ! (j - n))"
    and "length xs + n \<le> length (vbuf v)" "idx \<le> length xs"
proof -
  show "i < length xs \<Longrightarrow> i < idx + n \<Longrightarrow> vbuf v ! i = Some (xs ! i)" "length xs + n \<le> length (vbuf v)"
    "idx \<le> length xs"
    using assms by (auto simp: vec_gap_def)
  assume j: "j < length xs + n" "idx + n \<le> j"
  then have "j - n < length xs" "idx \<le> j - n" by linarith+
  then have "vbuf v ! (j - n + n) = Some (xs ! (j - n))"
    using assms unfolding vec_gap_def by blast
  with j show "vbuf v ! j = Some (xs ! (j - n))" by simp
qed

subsection \<open>Operations\<close>

lemma vec_items:
  assumes "vec_holds v xs"
  shows "vec_size v = length xs" "vec_empty v = (xs = [])" "i < length xs \<Longrightarrow> vec_at v i = Inr (xs ! i)"
    "xs \<noteq> [] \<Longrightarrow> vec_front v = Inr (hd xs)" "xs \<noteq> [] \<Longrightarrow> vec_back v = Inr (last xs)"
    "length xs \<le> vec_capacity v" "vec_holds (vec_clear v) []"
proof -
  show "vec_size v = length xs" "vec_empty v = (xs = [])" "length xs \<le> vec_capacity v"
    "vec_holds (vec_clear v) []"
    using assms by (auto simp: vec_size_def vec_empty_def vec_capacity_def vec_clear_def vec_holds_def)
  have at: "vec_at v i = Inr (xs ! i)" if "i < length xs" for i
    using assms that by (auto simp: vec_at_def vec_holds_def cell_get_def)
  then show "i < length xs \<Longrightarrow> vec_at v i = Inr (xs ! i)" .
  show "xs \<noteq> [] \<Longrightarrow> vec_front v = Inr (hd xs)"
    using at [of 0] by (simp add: vec_at_def vec_front_def hd_conv_nth)
  show "xs \<noteq> [] \<Longrightarrow> vec_back v = Inr (last xs)"
    using at [of "length xs - 1"] assms
    by (cases xs) (auto simp: vec_at_def vec_back_def last_conv_nth vec_holds_def)
qed

lemma vec_pop_back_correct: "vec_holds v (xs @ [x]) \<Longrightarrow> vec_holds (vec_pop_back v) xs"
  by (auto simp: vec_holds_def vec_pop_back_def nth_append split: if_splits)

lemma vec_store_end:
  assumes "vec_holds v xs" "length xs < vcap v"
  shows "\<exists>b. cell_set (vbuf v) (vsize v) x = Inr b \<and>
    vec_holds (v\<lparr>vbuf := b, vsize := sz (vsize v + 1)\<rparr>) (xs @ [x])"
  using assms by (auto simp: cell_set_def vec_holds_def sz_id nth_append nth_list_update less_Suc_eq)

lemma vec_push_back_correct:
  assumes "vec_holds v xs"
  shows "\<exists>ok v'. vec_push_back mem ts v x = Inr (ok, v') \<and> vec_holds v' (if ok then xs @ [x] else xs) \<and>
    (length xs < vcap v \<longrightarrow> ok)"
proof -
  obtain ok v1 where e: "vec_expand mem ts v (length xs + 1) = (ok, v1)" "vec_holds v1 xs"
      "ok \<longrightarrow> length xs + 1 \<le> vcap v1" "\<not> ok \<longrightarrow> v1 = v"
    by (rule vec_expand_correct [OF assms, where mem = mem and n = "length xs + 1"])
  have s: "sz (vsize v + 1) = length xs + 1" using assms by (simp add: vec_holds_def sz_id)
  have ok: "length xs < vcap v \<longrightarrow> ok" using vec_expand_room [of "length xs + 1" v mem ts] e(1) by auto
  show ?thesis
  proof (cases ok)
    case False
    with e s ok show ?thesis by (auto simp: vec_push_back_def vec_push_back_ref_def)
  next
    case True
    with e(3) have "length xs < vcap v1" by simp
    from vec_store_end [OF e(2) this, of x] obtain b where
      "cell_set (vbuf v1) (vsize v1) x = Inr b"
      "vec_holds (v1\<lparr>vbuf := b, vsize := sz (vsize v1 + 1)\<rparr>) (xs @ [x])" by blast
    with e(1) s True show ?thesis
      by (intro exI [of _ True]) (simp add: vec_push_back_def vec_push_back_ref_def src_read_def)
  qed
qed

text \<open>Pushing an element of the vector itself by reference works only while no reallocation is
  needed; afterwards the reference is dangling.\<close>

lemma vec_push_back_own:
  assumes "vec_holds v xs" "i < length xs"
  shows "length xs < vcap v \<Longrightarrow> \<exists>v'. vec_push_back_ref mem ts v (Own i) = Inr (True, v') \<and>
      vec_holds v' (xs @ [xs ! i])"
    and "length xs = vcap v \<Longrightarrow> fst (vec_expand mem ts v (length xs + 1)) \<Longrightarrow>
      vec_push_back_ref mem ts v (Own i) = Inl UseAfterFree"
proof -
  have s: "sz (vsize v + 1) = length xs + 1" "sz (Suc (vsize v)) = Suc (length xs)"
    using assms by (simp_all add: vec_holds_def sz_id)
  show "\<exists>v'. vec_push_back_ref mem ts v (Own i) = Inr (True, v') \<and> vec_holds v' (xs @ [xs ! i])"
    if room: "length xs < vcap v"
  proof -
    have "vec_at v i = Inr (xs ! i)" by (rule vec_items(3) [OF assms(1,2)])
    then have r: "src_read False (vbuf v) (Own i) = Inr (xs ! i)" by (simp add: src_read_def vec_at_def)
    from vec_store_end [OF assms(1) room, of "xs ! i"] obtain b where
      "cell_set (vbuf v) (vsize v) (xs ! i) = Inr b"
      "vec_holds (v\<lparr>vbuf := b, vsize := sz (vsize v + 1)\<rparr>) (xs @ [xs ! i])" by blast
    with r room vec_expand_room [of "length xs + 1" v mem ts] show ?thesis
      by (simp add: vec_push_back_ref_def s)
  qed
  show "vec_push_back_ref mem ts v (Own i) = Inl UseAfterFree"
    if full: "length xs = vcap v" and okk: "fst (vec_expand mem ts v (length xs + 1))"
  proof -
    obtain ok v1 where e: "vec_expand mem ts v (length xs + 1) = (ok, v1)"
        "ok \<longrightarrow> length xs + 1 \<le> vcap v1"
      by (rule vec_expand_correct [OF assms(1), where mem = mem and n = "length xs + 1"])
    with okk full s show ?thesis by (auto simp: vec_push_back_ref_def src_read_def)
  qed
qed

text \<open>The common end of the insertions.\<close>

lemma vec_insert_via_gap:
  assumes h: "vec_holds v xs" and idx: "idx \<le> length xs" and le: "length xs + length ys \<le> NPOS"
    and fill: "\<And>v1. vec_gap v1 xs idx (length ys) \<Longrightarrow>
      f v1 = Inr (put_cells (vbuf v1) idx (map Some ys))"
  shows "\<exists>ok v'. rbind (vec_insert_n_no_data mem ts v idx (length ys)) (\<lambda>(ok, v1).
      if \<not> ok then Inr (False, v1) else rbind (f v1) (\<lambda>b. Inr (True, v1\<lparr>vbuf := b\<rparr>))) = Inr (ok, v') \<and>
    vec_holds v' (if ok then take idx xs @ ys @ drop idx xs else xs) \<and>
    (length xs + length ys \<le> vcap v \<longrightarrow> ok)"
proof -
  obtain ok v1 where g: "vec_insert_n_no_data mem ts v idx (length ys) = Inr (ok, v1)"
      "ok \<longrightarrow> vec_gap v1 xs idx (length ys)" "\<not> ok \<longrightarrow> v1 = v"
      "length xs + length ys \<le> vcap v \<longrightarrow> ok \<and> vcap v1 = vcap v"
    by (rule vec_insert_n_no_data_correct [OF h idx le])
  show ?thesis
  proof (cases ok)
    case True
    with g vec_fill_gap [of v1 xs idx "length ys" ys] fill [of v1] show ?thesis by auto
  qed (use g h in auto)
qed

lemma vec_insert_array_correct:
  assumes "vec_holds v xs" "idx \<le> length xs" "length xs + n \<le> NPOS" "n \<le> length ys"
  shows "\<exists>ok v'. vec_insert_array mem ts v idx (map Some ys) n = Inr (ok, v') \<and>
    vec_holds v' (if ok then take idx xs @ take n ys @ drop idx xs else xs) \<and>
    (length xs + n \<le> vcap v \<longrightarrow> ok)"
proof -
  have n: "length (take n ys) = n" using assms(4) by simp
  have "mem_copy_from (vbuf v1) idx (map Some ys) 0 n = Inr (put_cells (vbuf v1) idx (map Some (take n ys)))"
    if "vec_gap v1 xs idx n" for v1
    using vec_gap_cells(3,4) [OF that] assms(4) by (simp add: mem_copy_from_def take_map)
  from vec_insert_via_gap [OF assms(1,2), of "take n ys" "\<lambda>v1. mem_copy_from (vbuf v1) idx (map Some ys) 0 n" mem,
      unfolded n, OF assms(3) this]
  show ?thesis by (simp add: vec_insert_array_def)
qed

lemma vec_insert_n_value_correct:
  assumes "vec_holds v xs" "idx \<le> length xs" "length xs + n \<le> NPOS"
  shows "\<exists>ok v'. vec_insert_n mem ts v idx n x = Inr (ok, v') \<and>
    vec_holds v' (if ok then take idx xs @ replicate n x @ drop idx xs else xs) \<and>
    (length xs + n \<le> vcap v \<longrightarrow> ok)"
proof -
  let ?f = "\<lambda>v1. rfold (\<lambda>b i. rbind (src_read (vcap v1 \<noteq> vcap v) b (Value x)) (cell_set b (sz (idx + i))))
       (vbuf v1) [0..<n]"
  have fill: "?f v1 = Inr (put_cells (vbuf v1) idx (map Some (replicate n x)))"
    if g: "vec_gap v1 xs idx n" for v1
    using fill_cells [where n = n and b = "vbuf v1" and d = idx and f = "\<lambda>i. x"
        and g = "\<lambda>c i. src_read (vcap v1 \<noteq> vcap v) c (Value x)"]
      vec_gap_cells(3,4) [OF g] assms(2,3)
    by (simp add: src_read_def map_replicate_const)
  from vec_insert_via_gap [OF assms(1,2), of "replicate n x" ?f mem, unfolded length_replicate, OF assms(3) fill]
  show ?thesis by (simp add: vec_insert_n_def vec_insert_n_ref_def)
qed

lemma vec_insert_correct:
  assumes "vec_holds v xs" "idx \<le> length xs"
  shows "\<exists>ok v'. vec_insert mem ts v idx x = Inr (ok, v') \<and>
    vec_holds v' (if ok then take idx xs @ x # drop idx xs else xs) \<and> (length xs < vcap v \<longrightarrow> ok)"
proof -
  have one: "replicate 1 x @ ys = x # ys" for ys by simp
  have "length xs + 1 \<le> NPOS" using vec_holds_NPOS [OF assms(1)] by simp
  from vec_insert_n_value_correct [OF assms(1,2) this, where mem = mem and x = x, unfolded one]
  obtain ok v' where "vec_insert_n mem ts v idx 1 x = Inr (ok, v')"
    "vec_holds v' (if ok then take idx xs @ x # drop idx xs else xs)" "length xs + 1 \<le> vcap v \<longrightarrow> ok"
    by blast
  then show ?thesis
    by (intro exI [of _ ok] exI [of _ v']) (simp add: vec_insert_def vec_insert_n_def)
qed

text \<open>Inserting an element of the vector itself by reference: when nothing is reallocated, the
  cell it refers to is read after the elements behind \<open>idx\<close> have moved, so that the copy is the
  right one only if the element is in front of \<open>idx + n\<close>; otherwise an element \<open>n\<close> places
  before it is inserted.\<close>

lemma vec_insert_n_own:
  assumes "vec_holds v xs" "idx \<le> length xs" "length xs + n \<le> vcap v" "k < length xs"
  shows "\<exists>v'. vec_insert_n_ref mem ts v idx n (Own k) = Inr (True, v') \<and>
    vec_holds v' (take idx xs @ replicate n (xs ! (if k < idx + n then k else k - n)) @ drop idx xs)"
proof -
  let ?x = "xs ! (if k < idx + n then k else k - n)"
  have le: "length xs + n \<le> NPOS" using assms(1,3) by (simp add: vec_holds_def)
  obtain ok v1 where g: "vec_insert_n_no_data mem ts v idx n = Inr (ok, v1)"
      "ok \<longrightarrow> vec_gap v1 xs idx n" "\<not> ok \<longrightarrow> v1 = v"
      "length xs + n \<le> vcap v \<longrightarrow> ok \<and> vcap v1 = vcap v"
    by (rule vec_insert_n_no_data_correct [OF assms(1,2) le])
  then have gap: "vec_gap v1 xs idx n" and cap: "vcap v1 = vcap v" and ok using assms(3) by auto
  note cells = vec_gap_cells [OF gap]
  have "vbuf v1 ! k = Some ?x" using cells(1) [of k] cells(2) [of k] assms(4) by auto
  then have "src_read False (put_cells (vbuf v1) idx (map (\<lambda>j. Some ?x) [0..<i])) (Own k) = Inr ?x"
    if "i < n" for i
    using that cells(3,4) assms(4)
    by (auto simp: src_read_def cell_get_def put_cells_def nth_append min_def)
  then have "rfold (\<lambda>b i. rbind (src_read False b (Own k)) (cell_set b (sz (idx + i)))) (vbuf v1) [0..<n] =
      Inr (put_cells (vbuf v1) idx (map Some (replicate n ?x)))"
    using fill_cells [where n = n and b = "vbuf v1" and d = idx and f = "\<lambda>i. ?x"
        and g = "\<lambda>c i. src_read False c (Own k)"] cells(3,4) le
    by (simp add: map_replicate_const)
  with g(1) \<open>ok\<close> cap vec_fill_gap [OF gap, of "replicate n ?x"] show ?thesis
    by (simp add: vec_insert_n_ref_def)
qed

lemma vec_insert_range_other_correct:
  assumes "vec_holds v xs" "vec_holds x ys" "idx \<le> length xs" "length xs + n \<le> NPOS"
    "xidx + n \<le> length ys"
  shows "\<exists>ok v'. vec_insert_range_other mem ts v idx x xidx n = Inr (ok, v') \<and>
    vec_holds v' (if ok then take idx xs @ take n (drop xidx ys) @ drop idx xs else xs) \<and>
    (length xs + n \<le> vcap v \<longrightarrow> ok)"
proof -
  have n: "length (take n (drop xidx ys)) = n" using assms(5) by simp
  have t: "take n (drop xidx (vbuf x)) = map Some (take n (drop xidx ys))"
    by (rule nth_equalityI) (use assms(2,5) in \<open>auto simp: vec_holds_def\<close>)
  have "mem_copy_from (vbuf v1) idx (vbuf x) xidx n =
      Inr (put_cells (vbuf v1) idx (map Some (take n (drop xidx ys))))"
    if "vec_gap v1 xs idx n" for v1
    using vec_gap_cells(3,4) [OF that] assms(2,5) t by (auto simp: mem_copy_from_def vec_holds_def)
  from vec_insert_via_gap [OF assms(1,3), of "take n (drop xidx ys)" "\<lambda>v1. mem_copy_from (vbuf v1) idx (vbuf x) xidx n" mem,
      unfolded n, OF assms(4) this]
  show ?thesis by (simp add: vec_insert_range_other_def)
qed

text \<open>The three cases of inserting a range of the vector into itself.\<close>

lemma vec_self_copy:
  assumes g: "vec_gap v xs idx n" and x: "xidx + n \<le> length xs" and le: "length xs + n \<le> NPOS"
  shows "(if idx \<le> xidx then mem_copy (vbuf v) idx (sz (xidx + n)) n
       else if xidx < idx \<and> idx < sz (xidx + n) then
         rbind (mem_copy (vbuf v) idx xidx (idx - xidx)) (\<lambda>b.
           mem_copy b (sz (idx + (idx - xidx))) (sz (idx + n)) (sz_sub n (idx - xidx)))
       else mem_copy (vbuf v) idx xidx n) = Inr (put_cells (vbuf v) idx (map Some (take n (drop xidx xs))))"
proof -
  note c = vec_gap_cells [OF g]
  have s1: "sz (xidx + n) = xidx + n" using x le by (simp add: sz_id)
  consider "idx \<le> xidx" | "xidx < idx" "idx < xidx + n" | "xidx + n \<le> idx" "xidx < idx" by linarith
  then show ?thesis
  proof cases
    case 1
    have "take n (drop (xidx + n) (vbuf v)) = map Some (take n (drop xidx xs))"
      by (rule nth_equalityI) (use c x 1 in auto)
    with 1 c x s1 show ?thesis by (simp add: mem_copy_def mem_move_def)
  next
    case 2
    let ?k = "idx - xidx"
    have t1: "take ?k (drop xidx (vbuf v)) = map Some (take ?k (drop xidx xs))"
      by (rule nth_equalityI) (use c x 2 in auto)
    let ?b = "put_cells (vbuf v) idx (map Some (take ?k (drop xidx xs)))"
    have f: "mem_copy (vbuf v) idx xidx ?k = Inr ?b"
      using 2 c x t1 by (simp add: mem_copy_def mem_move_def)
    have lb: "length ?b = length (vbuf v)" by (rule length_put_cells) (use 2 c x in simp)
    have t2: "take (n - ?k) (drop (idx + n) ?b) = map Some (take (n - ?k) (drop idx xs))"
    proof (rule nth_equalityI)
      show "length (take (n - ?k) (drop (idx + n) ?b)) = length (map Some (take (n - ?k) (drop idx xs)))"
        using lb c x 2 by simp
      fix i assume "i < length (take (n - ?k) (drop (idx + n) ?b))"
      then have i: "i < n - ?k" "idx + n + i < length (vbuf v)" using lb by auto
      have lt: "idx + n + i < length xs + n" "\<not> idx + n + i < idx + ?k" using i(1) x 2 by linarith+
      have "?b ! (idx + n + i) = vbuf v ! (idx + n + i)"
        using i lt(2) 2 c x by (subst nth_put_cells) auto
      also have "\<dots> = Some (xs ! (idx + i))" using c(2) [OF lt(1)] by simp
      finally show "take (n - ?k) (drop (idx + n) ?b) ! i = map Some (take (n - ?k) (drop idx xs)) ! i"
        using i lt(1) lb by (simp add: add.assoc)
    qed
    have s2: "sz (idx + ?k) = idx + ?k" "sz (idx + n) = idx + n" "sz_sub n ?k = n - ?k"
      using 2 x le c(4) by (simp_all add: sz_id)
    have "mem_copy ?b (idx + ?k) (idx + n) (n - ?k) =
        Inr (put_cells ?b (idx + ?k) (map Some (take (n - ?k) (drop idx xs))))"
      using 2 c x t2 lb by (simp add: mem_copy_def mem_move_def)
    also have "put_cells ?b (idx + ?k) (map Some (take (n - ?k) (drop idx xs))) =
        put_cells (vbuf v) idx (map Some (take ?k (drop xidx xs)) @ map Some (take (n - ?k) (drop idx xs)))"
      using 2 c x put_cells_append [of idx "map Some (take ?k (drop xidx xs))"] by simp
    also have "map Some (take ?k (drop xidx xs)) @ map Some (take (n - ?k) (drop idx xs)) =
        map Some (take n (drop xidx xs))"
    proof -
      have "take n (drop xidx xs) = take (?k + (n - ?k)) (drop xidx xs)" using 2 by simp
      also have "\<dots> = take ?k (drop xidx xs) @ take (n - ?k) (drop idx xs)"
        using 2 by (simp only: take_add drop_drop) simp
      finally show ?thesis by simp
    qed
    finally show ?thesis using 2 f s1 s2 by simp
  next
    case 3
    have "take n (drop xidx (vbuf v)) = map Some (take n (drop xidx xs))"
      by (rule nth_equalityI) (use c x 3 in auto)
    with 3 c x s1 show ?thesis by (simp add: mem_copy_def mem_move_def)
  qed
qed

lemma vec_insert_range_self_holds:
  assumes "vec_holds v xs" "idx \<le> length xs" "length xs + n \<le> NPOS" "xidx + n \<le> length xs"
  shows "\<exists>ok v'. vec_insert_range_self mem ts v idx xidx n = Inr (ok, v') \<and>
    vec_holds v' (if ok then take idx xs @ take n (drop xidx xs) @ drop idx xs else xs) \<and>
    (length xs + n \<le> vcap v \<longrightarrow> ok)"
proof -
  have n: "length (take n (drop xidx xs)) = n" using assms(4) by simp
  show ?thesis
    using vec_insert_via_gap [OF assms(1,2), of "take n (drop xidx xs)", unfolded n, OF assms(3)
      vec_self_copy [OF _ assms(4,3)]]
    by (simp add: vec_insert_range_self_def)
qed

lemma vec_erase_correct:
  assumes "vec_holds v xs" "idx + n \<le> length xs"
  shows "\<exists>v'. vec_erase v idx n = Inr v' \<and> vec_holds v' (take idx xs @ drop (idx + n) xs)"
proof -
  have le: "length xs \<le> NPOS" using vec_holds_NPOS [OF assms(1)] by simp
  have s: "sz (idx + n) = idx + n" "vsize v = length xs" "length xs \<le> length (vbuf v)"
    using assms le by (auto simp: vec_holds_def sz_id)
  let ?b = "put_cells (vbuf v) idx (take (length xs - (idx + n)) (drop (idx + n) (vbuf v)))"
  have "vec_erase v idx n = Inr (v\<lparr>vbuf := ?b, vsize := length xs - n\<rparr>)"
    using s assms(2) by (simp add: vec_erase_def vec_move_forward_def mem_move_def)
  moreover have "vec_holds (v\<lparr>vbuf := ?b, vsize := length xs - n\<rparr>) (take idx xs @ drop (idx + n) xs)"
    using assms s by (auto simp: vec_holds_def put_cells_def nth_append min_def)
  ultimately show ?thesis by blast
qed

lemma vec_resize_correct:
  assumes "vec_holds v xs" "n \<le> NPOS"
  shows "\<exists>ok v'. vec_resize mem ts v n x = Inr (ok, v') \<and>
    vec_holds v' (if ok then take n xs @ replicate (n - length xs) x else xs) \<and>
    (n \<le> vcap v \<longrightarrow> ok)"
proof (cases "n \<le> length xs")
  case True
  have "vec_holds (v\<lparr>vsize := n\<rparr>) (take n xs)" using assms True by (auto simp: vec_holds_def)
  with True assms(1) show ?thesis
    by (intro exI [of _ True]) (simp add: vec_resize_def vec_holds_def)
next
  case False
  let ?f = "\<lambda>v1. rfold (\<lambda>b i. cell_set b i x) (vbuf v1) [length xs..<n]"
  have fill: "?f v1 = Inr (put_cells (vbuf v1) (length xs) (map Some (replicate (n - length xs) x)))"
    if g: "vec_gap v1 xs (length xs) (n - length xs)" for v1
  proof -
    have up: "[length xs..<n] = map ((+) (length xs)) [0..<n - length xs]"
      by (rule nth_equalityI) simp_all
    have rm: "rfold (\<lambda>b i. cell_set b i x) b (map ((+) (length xs)) is) =
        rfold (\<lambda>b i. rbind (Inr x) (cell_set b (sz (length xs + i)))) b is"
      if "\<forall>i \<in> set is. length xs + i \<le> NPOS" for b "is"
      using that by (induction "is" arbitrary: b) (auto simp: sz_id intro!: rbind_cong)
    have "\<forall>i \<in> set [0..<n - length xs]. length xs + i \<le> NPOS" using assms(2) by auto
    from rm [OF this, of "vbuf v1"]
      fill_cells [where n = "n - length xs" and b = "vbuf v1" and d = "length xs" and f = "\<lambda>i. x"
        and g = "\<lambda>c i. Inr x"] vec_gap_cells(3,4) [OF g] assms(2) False
    show ?thesis by (simp add: up map_replicate_const)
  qed
  have le: "length xs + (n - length xs) \<le> NPOS" using False assms(2) by simp
  have e: "take (length xs) xs @ replicate (n - length xs) x @ drop (length xs) xs = xs @ replicate (n - length xs) x"
      "length xs + (n - length xs) = n"
    using False by simp_all
  note ins = vec_insert_via_gap [OF assms(1) order_refl, of "replicate (n - length xs) x" ?f mem,
      unfolded length_replicate, OF le fill, unfolded e]
  have "\<not> vsize v \<ge> n" "vsize v = length xs" using assms(1) False by (auto simp: vec_holds_def)
  then have "vec_resize mem ts v n x = rbind (vec_insert_n_no_data mem ts v (length xs) (n - length xs)) (\<lambda>(ok, v1).
      if \<not> ok then Inr (False, v1) else rbind (?f v1) (\<lambda>b. Inr (True, v1\<lparr>vbuf := b\<rparr>)))"
    by (simp add: vec_resize_def Let_def)
  moreover have "take n xs @ replicate (n - length xs) x = xs @ replicate (n - length xs) x"
    using False by simp
  ultimately show ?thesis using ins by (simp only:)
qed

lemma vec_shrink_correct:
  assumes "vec_holds v xs"
  shows "vec_holds (vec_shrink mem ts v n) xs"
    and "n < vcap v \<Longrightarrow> vcap (vec_shrink mem ts v n) = max n (length xs)"
  using assms by (auto simp: vec_shrink_def mem_realloc_def vec_holds_def Let_def nth_append max_def
      split: if_splits option.splits)

lemma vec_swap_correct: "vec_swap v w = (w, v)"
  by (simp add: vec_swap_def)

text \<open>The size computations are not protected against wrap-around: asked to insert 2^64 - 1 elements
  the code finds that it has room, and moves memory far outside the block.\<close>

lemma vec_insert_wraps:
  assumes "vec_holds v xs" "xs \<noteq> []" "length (vbuf v) < NPOS"
  shows "vec_insert_n mem ts v 0 NPOS x = Inl OutOfBounds"
proof -
  have l: "length xs \<le> length (vbuf v)" "0 < length xs" "vsize v = length xs"
    using assms by (auto simp: vec_holds_def)
  then obtain m where m: "length xs = Suc m" by (cases xs) auto
  have "sz (vsize v + NPOS) = m"
  proof -
    have "vsize v + NPOS = m + 2 ^ 64" using l m by (simp add: NPOS_def)
    then show ?thesis using l m assms(3) by (simp add: sz_def NPOS_def)
  qed
  moreover have "m \<le> vcap v" using assms(1) m by (simp add: vec_holds_def)
  ultimately show ?thesis
    using assms(3) l by (simp add: vec_insert_n_def vec_insert_n_ref_def vec_insert_n_no_data_def
        vec_expand_room vec_move_backward_def mem_move_def sz_id)
qed


subsection \<open>The vector as a bounded sequence\<close>

interpretation vec_seq: bounded_seq vec_holds "vec_push_back mem ts" "\<lambda>v. Inr (vec_pop_back v)" vec_at
  for mem ts
proof
  fix c :: "'b vec" and xs x
  assume "vec_holds c xs"
  from vec_push_back_correct [OF this]
  show "\<exists>ok c'. vec_push_back mem ts c x = Inr (ok, c') \<and> vec_holds c' (if ok then xs @ [x] else xs)"
    by blast
qed (auto intro: vec_pop_back_correct vec_items(3))

text \<open>
  C31: Whatever a program appends to a new vector, and whichever reallocations fail, the elements
  that were accepted are a prefix of the ones offered, and they are read back at their indices.
\<close>

theorem vec_store_and_read:
  assumes "vec_new mem0 = Some v"
  shows "\<exists>n v'. push_all (vec_push_back mem ts) v ys = Inr (n, v') \<and> n \<le> length ys \<and>
    read_all vec_at v' [0..<n] = Inr (take n ys)"
  by (rule vec_seq.store_and_read [OF vec_new_correct [OF assms]])

theorem vec_store_and_read_witness:
  "\<exists>n v'. push_all (vec_push_back (\<lambda>b. b < 9) 4) \<lparr>vsize = 0, vcap = 0, vbuf = []\<rparr> ''abc'' = Inr (n, v') \<and>
    n \<le> length ''abc'' \<and> read_all vec_at v' [0..<n] = Inr (take n ''abc'')"
  by (rule vec_store_and_read [of "\<lambda>b. True"]) (simp add: vec_new_def)

text \<open>
  C16: Inserting a range of a vector into the vector itself, which the code does in place with
  one or two overlapping-aware copies after the elements have moved, is the same on every branch
  as saving the range first and inserting the saved copy; it never copies between overlapping
  regions.
\<close>

theorem vec_insert_range_self_equiv:
  assumes "vec_holds v xs" "idx \<le> length xs" "length xs + n \<le> NPOS" "xidx + n \<le> length xs"
  shows "vec_insert_range_self mem ts v idx xidx n =
    vec_insert_array mem ts v idx (map Some (take n (drop xidx xs))) n"
proof -
  obtain ok v1 where g: "vec_insert_n_no_data mem ts v idx n = Inr (ok, v1)"
      "ok \<longrightarrow> vec_gap v1 xs idx n" "\<not> ok \<longrightarrow> v1 = v"
      "length xs + n \<le> vcap v \<longrightarrow> ok \<and> vcap v1 = vcap v"
    by (rule vec_insert_n_no_data_correct [OF assms(1-3)])
  show ?thesis
  proof (cases ok)
    case True
    then have gap: "vec_gap v1 xs idx n" using g(2) by blast
    from vec_gap_cells(3,4) [OF gap] assms(4)
    have "mem_copy_from (vbuf v1) idx (map Some (take n (drop xidx xs))) 0 n =
        Inr (put_cells (vbuf v1) idx (map Some (take n (drop xidx xs))))"
      by (simp add: mem_copy_from_def)
    with g(1) True vec_self_copy [OF gap assms(4,3)] show ?thesis
      by (simp only: vec_insert_range_self_def vec_insert_array_def rbind_Inr prod.case not_True_eq_False
          if_False)
  qed (use g in \<open>simp add: vec_insert_range_self_def vec_insert_array_def\<close>)
qed

theorem vec_insert_range_self_equiv_witness:
  "vec_insert_range_self (\<lambda>b. True) 1 \<lparr>vsize = 3, vcap = 3, vbuf = map Some ''abc''\<rparr> 1 0 2 =
    vec_insert_array (\<lambda>b. True) 1 \<lparr>vsize = 3, vcap = 3, vbuf = map Some ''abc''\<rparr> 1 (map Some ''ab'') 2"
proof -
  have "vec_holds \<lparr>vsize = 3, vcap = 3, vbuf = map Some ''abc''\<rparr> ''abc''"
    by (auto simp: vec_holds_def NPOS_def less_Suc_eq)
  from vec_insert_range_self_equiv [OF this, of 1 2 0] show ?thesis by (simp add: NPOS_def)
qed

text \<open>
  Inserting a copy of the vector's own element \<open>k\<close> through a reference to it, in front of it
  and with room left, inserts another element instead as soon as \<open>n\<close> places behind the insertion
  point are passed: the code reads the referenced cell only after the elements have moved.
\<close>

lemma vec_insert_own_reference:
  assumes "vec_holds v xs" "idx + n \<le> k" "k < length xs" "length xs + n \<le> vcap v"
  shows "\<exists>v'. vec_insert_n_ref mem ts v idx n (Own k) = Inr (True, v') \<and>
    vec_holds v' (take idx xs @ replicate n (xs ! (k - n)) @ drop idx xs)"
proof -
  have "idx \<le> length xs" "\<not> k < idx + n" using assms(2,3) by linarith+
  with vec_insert_n_own [OF assms(1) this(1) assms(4,3), of mem ts] show ?thesis by simp
qed

lemma vec_insert_own_reference_witness:
  "\<exists>v'. vec_insert_n_ref (\<lambda>b. True) 1 \<lparr>vsize = 3, vcap = 4, vbuf = map Some ''abc'' @ [None]\<rparr> 0 1 (Own 2) =
      Inr (True, v') \<and> vec_holds v' ''babc''"
proof -
  have "vec_holds \<lparr>vsize = 3, vcap = 4, vbuf = map Some ''abc'' @ [None]\<rparr> ''abc''"
    by (auto simp: vec_holds_def NPOS_def nth_append less_Suc_eq numeral_3_eq_3)
  from vec_insert_own_reference [OF this, of 0 1 2 "\<lambda>b. True" 1] show ?thesis by simp
qed

end
