(* ===== verification/Cstl_Ring.thy ===== *)
theory Cstl_Ring
  imports Cstl_Block Interfaces
begin

text \<open>
  The ring buffer of \<open>cstl/ring.h\<close> (\<open>CSTL_RING_IMPLEMENT (Name, Type)\<close>): a block of
  \<open>max_size\<close> cells, a power of two, in which the elements occupy \<open>size\<close> cells from \<open>begin\<close> on,
  wrapping around at the end of the block.

  The proofs look at the block from an arbitrary cell on (\<open>view\<close>): relative to it the loops of
  \<open>move_backward\<close> and \<open>move_forward\<close> are moves within a list that does not wrap around.
\<close>

subsection \<open>State and index arithmetic\<close>

record 'a ring =
  rg_begin :: nat
  rg_end :: nat
  rg_max :: nat
  rg_size :: nat
  rg_buf :: "'a cells"

definition ring_advance :: "'a ring \<Rightarrow> nat \<Rightarrow> nat \<Rightarrow> nat" where
  "ring_advance r idx n = sz (idx + n) AND sz_sub (rg_max r) 1"

definition ring_retreat :: "'a ring \<Rightarrow> nat \<Rightarrow> nat \<Rightarrow> nat" where
  "ring_retreat r idx n = sz_sub (sz (rg_max r + idx)) n AND sz_sub (rg_max r) 1"

definition ring_next_idx :: "'a ring \<Rightarrow> nat \<Rightarrow> nat" where
  "ring_next_idx r idx = ring_advance r idx 1"

definition ring_prev_idx :: "'a ring \<Rightarrow> nat \<Rightarrow> nat" where
  "ring_prev_idx r idx = ring_retreat r idx 1"

definition ring_distance :: "'a ring \<Rightarrow> nat \<Rightarrow> nat \<Rightarrow> nat" where
  "ring_distance r first last' = (if first \<le> last' then last' - first
     else sz (sz_sub (rg_max r) first + last'))"

definition ring_init :: "'a cells \<Rightarrow> nat \<Rightarrow> 'a ring" where
  "ring_init buf n = \<lparr>rg_begin = 0, rg_end = 0, rg_max = n, rg_size = 0, rg_buf = buf\<rparr>"

text \<open>\<open>mem\<close> tells which sizes \<open>malloc\<close> can serve; the product \<open>sizeof (Type) * n\<close> may wrap.\<close>

definition ring_new :: "(nat \<Rightarrow> bool) \<Rightarrow> nat \<Rightarrow> nat \<Rightarrow> 'a ring option" where
  "ring_new mem ts n = (if \<not> mem 40 then None
     else if \<not> mem (sz (ts * n)) then None
     else Some (ring_init (replicate (sz (ts * n) div ts) None) n))"

subsection \<open>Moving cells\<close>

definition ring_copy_cell :: "'a ring \<Rightarrow> nat \<Rightarrow> nat \<Rightarrow> 'a ring res" where
  "ring_copy_cell r d s = (if d < length (rg_buf r) \<and> s < length (rg_buf r)
     then Inr (r\<lparr>rg_buf := (rg_buf r)[d := rg_buf r ! s]\<rparr>) else Inl OutOfBounds)"

fun backward_loop :: "nat \<Rightarrow> 'a ring \<Rightarrow> nat \<Rightarrow> nat \<Rightarrow> nat \<Rightarrow> 'a ring res" where
  "backward_loop 0 r i j n = (if i = j then Inr r else Inl OutOfFuel)"
| "backward_loop (Suc fuel) r i j n = (if i = j then Inr r else
     rbind (ring_copy_cell r (ring_advance r i n) i) (\<lambda>r1.
       backward_loop fuel r1 (ring_prev_idx r1 i) j n))"

definition ring_move_backward :: "'a ring \<Rightarrow> nat \<Rightarrow> nat \<Rightarrow> nat \<Rightarrow> 'a ring res" where
  "ring_move_backward r first last' n =
     backward_loop (rg_max r) r (ring_prev_idx r last') (ring_prev_idx r first) n"

fun forward_loop :: "nat \<Rightarrow> 'a ring \<Rightarrow> nat \<Rightarrow> nat \<Rightarrow> nat \<Rightarrow> 'a ring res" where
  "forward_loop 0 r i last' n = (if i = last' then Inr r else Inl OutOfFuel)"
| "forward_loop (Suc fuel) r i last' n = (if i = last' then Inr r else
     rbind (ring_copy_cell r (ring_retreat r i n) i) (\<lambda>r1.
       forward_loop fuel r1 (ring_next_idx r1 i) last' n))"

definition ring_move_forward :: "'a ring \<Rightarrow> nat \<Rightarrow> nat \<Rightarrow> nat \<Rightarrow> 'a ring res" where
  "ring_move_forward r first last' n = forward_loop (rg_max r) r first last' n"

subsection \<open>Operations\<close>

definition ring_size :: "'a ring \<Rightarrow> nat" where
  "ring_size r = rg_size r"

definition ring_max_size :: "'a ring \<Rightarrow> nat" where
  "ring_max_size r = rg_max r"

definition ring_empty :: "'a ring \<Rightarrow> bool" where
  "ring_empty r \<longleftrightarrow> rg_size r = 0"

definition ring_full :: "'a ring \<Rightarrow> bool" where
  "ring_full r \<longleftrightarrow> rg_size r = rg_max r"

definition ring_clear :: "'a ring \<Rightarrow> 'a ring" where
  "ring_clear r = r\<lparr>rg_size := 0, rg_end := rg_begin r\<rparr>"

definition ring_at :: "'a ring \<Rightarrow> nat \<Rightarrow> 'a res" where
  "ring_at r idx = cell_get (rg_buf r) (ring_advance r (rg_begin r) idx)"

definition ring_front :: "'a ring \<Rightarrow> 'a res" where
  "ring_front r = cell_get (rg_buf r) (rg_begin r)"

definition ring_back :: "'a ring \<Rightarrow> 'a res" where
  "ring_back r = cell_get (rg_buf r) (ring_prev_idx r (rg_end r))"

text \<open>The value that \<open>data\<close> points to is read before anything is stored, so that the model
  takes the value.\<close>

definition ring_push_back_ref :: "'a ring \<Rightarrow> 'a \<Rightarrow> (bool \<times> 'a ring) res" where
  "ring_push_back_ref r x = (if ring_full r then Inr (False, r) else
     rbind (cell_set (rg_buf r) (rg_end r) x) (\<lambda>b.
       Inr (True, r\<lparr>rg_buf := b, rg_end := ring_next_idx r (rg_end r), rg_size := sz (rg_size r + 1)\<rparr>)))"

definition ring_push_front_ref :: "'a ring \<Rightarrow> 'a \<Rightarrow> (bool \<times> 'a ring) res" where
  "ring_push_front_ref r x = (if ring_full r then Inr (False, r) else
     let r1 = r\<lparr>rg_begin := ring_prev_idx r (rg_begin r)\<rparr> in
     rbind (cell_set (rg_buf r1) (rg_begin r1) x) (\<lambda>b.
       Inr (True, r1\<lparr>rg_buf := b, rg_size := sz (rg_size r1 + 1)\<rparr>)))"

definition ring_push_back :: "'a ring \<Rightarrow> 'a \<Rightarrow> (bool \<times> 'a ring) res" where
  "ring_push_back r x = ring_push_back_ref r x"

definition ring_push_front :: "'a ring \<Rightarrow> 'a \<Rightarrow> (bool \<times> 'a ring) res" where
  "ring_push_front r x = ring_push_front_ref r x"

definition ring_pop_front :: "'a ring \<Rightarrow> 'a ring" where
  "ring_pop_front r = r\<lparr>rg_begin := ring_next_idx r (rg_begin r), rg_size := sz_sub (rg_size r) 1\<rparr>"

definition ring_pop_back :: "'a ring \<Rightarrow> 'a ring" where
  "ring_pop_back r = r\<lparr>rg_end := ring_prev_idx r (rg_end r), rg_size := sz_sub (rg_size r) 1\<rparr>"

definition ring_erase :: "'a ring \<Rightarrow> nat \<Rightarrow> nat \<Rightarrow> 'a ring res" where
  "ring_erase r idx n = (let pos1 = ring_advance r (rg_begin r) idx; pos2 = ring_advance r pos1 n in
     rbind (if ring_distance r (rg_begin r) pos1 \<ge> ring_distance r pos2 (rg_end r) then
         rbind (ring_move_forward r pos2 (rg_end r) n) (\<lambda>r1.
           Inr (r1\<lparr>rg_end := ring_retreat r1 (rg_end r1) n\<rparr>))
       else
         rbind (ring_move_backward r (rg_begin r) pos1 n) (\<lambda>r1.
           Inr (r1\<lparr>rg_begin := ring_advance r1 (rg_begin r1) n\<rparr>)))
     (\<lambda>r2. Inr (r2\<lparr>rg_size := sz_sub (rg_size r2) n\<rparr>)))"

text \<open>The loop that stores the inserted elements.\<close>

fun store_loop :: "'a ring \<Rightarrow> nat \<Rightarrow> 'a list \<Rightarrow> 'a ring res" where
  "store_loop r i [] = Inr r"
| "store_loop r i (x # xs) = rbind (cell_set (rg_buf r) i x) (\<lambda>b.
     store_loop (r\<lparr>rg_buf := b\<rparr>) (ring_next_idx r i) xs)"

definition ring_insert_array :: "'a ring \<Rightarrow> nat \<Rightarrow> 'a list \<Rightarrow> nat \<Rightarrow> (bool \<times> 'a ring) res" where
  "ring_insert_array r idx data n = (if sz (rg_size r + n) > rg_max r then Inr (False, r) else
     let pos = ring_advance r (rg_begin r) idx in
     rbind (if rg_size r div 2 < idx then
         rbind (ring_move_backward r pos (rg_end r) n) (\<lambda>r1.
           Inr (pos, r1\<lparr>rg_end := ring_advance r1 (rg_end r1) n\<rparr>))
       else
         rbind (ring_move_forward r (rg_begin r) pos n) (\<lambda>r1.
           Inr (ring_retreat r1 pos n, r1\<lparr>rg_begin := ring_retreat r1 (rg_begin r1) n\<rparr>)))
     (\<lambda>(pos, r2). if length data < n then Inl OutOfBounds else
       rbind (store_loop r2 pos (take n data)) (\<lambda>r3.
         Inr (True, r3\<lparr>rg_size := sz (rg_size r3 + n)\<rparr>))))"

definition ring_insert :: "'a ring \<Rightarrow> nat \<Rightarrow> 'a \<Rightarrow> (bool \<times> 'a ring) res" where
  "ring_insert r idx x = ring_insert_array r idx [x] 1"

fun push_loop :: "nat \<Rightarrow> 'a ring \<Rightarrow> 'a \<Rightarrow> 'a ring res" where
  "push_loop 0 r x = Inr r"
| "push_loop (Suc n) r x = rbind (ring_push_back r x) (\<lambda>(_, r1). push_loop n r1 x)"

definition ring_resize :: "'a ring \<Rightarrow> nat \<Rightarrow> 'a \<Rightarrow> (bool \<times> 'a ring) res" where
  "ring_resize r n x = (let old = rg_size r in
     if old \<ge> n then Inr (True, r\<lparr>rg_end := ring_retreat r (rg_end r) (old - n), rg_size := n\<rparr>)
     else if rg_max r < n then Inr (False, r)
     else rbind (push_loop (n - old) r x) (\<lambda>r1. Inr (True, r1\<lparr>rg_size := n\<rparr>)))"

definition ring_swap :: "'a ring \<Rightarrow> 'a ring \<Rightarrow> 'a ring \<times> 'a ring" where
  "ring_swap self x = (let tmp_begin = rg_begin self; tmp_end = rg_end self; tmp_max = rg_max self;
     tmp_size = rg_size self; tmp_buf = rg_buf self;
     self1 = self\<lparr>rg_begin := rg_begin x, rg_end := rg_end x, rg_max := rg_max x, rg_size := rg_size x,
       rg_buf := rg_buf x\<rparr>;
     x1 = x\<lparr>rg_begin := tmp_begin, rg_end := tmp_end, rg_max := tmp_max, rg_size := tmp_size,
       rg_buf := tmp_buf\<rparr> in (self1, x1))"

subsection \<open>The invariant and the abstraction\<close>

text \<open>The block as it is met from cell \<open>base\<close> on.\<close>

definition ring_view :: "nat \<Rightarrow> 'a ring \<Rightarrow> 'a cells" where
  "ring_view base r = map (\<lambda>q. rg_buf r ! ((base + q) mod rg_max r)) [0..<rg_max r]"

definition ring_ok :: "'a ring \<Rightarrow> bool" where
  "ring_ok r \<longleftrightarrow> (\<exists>k < 63. rg_max r = 2 ^ k) \<and> rg_max r \<le> length (rg_buf r) \<and> rg_begin r < rg_max r \<and>
     rg_size r \<le> rg_max r \<and> rg_end r = (rg_begin r + rg_size r) mod rg_max r"

definition ring_holds :: "'a ring \<Rightarrow> 'a list \<Rightarrow> bool" where
  "ring_holds r xs \<longleftrightarrow> ring_ok r \<and> rg_size r = length xs \<and>
     take (length xs) (ring_view (rg_begin r) r) = map Some xs"

subsection \<open>Index arithmetic\<close>

lemma and_pow2: "(x :: nat) AND (2 ^ k - Suc 0) = x mod 2 ^ k"
  by (simp add: take_bit_eq_mod [symmetric] take_bit_eq_mask mask_eq_exp_minus_1)

lemma sz_mod_pow2: "k < 63 \<Longrightarrow> sz n mod 2 ^ k = n mod 2 ^ k"
  unfolding sz_def by (rule mod_mod_cancel) (simp add: le_imp_power_dvd del: power_numeral)

lemma pow2_small: "k < 63 \<Longrightarrow> (2 :: nat) ^ k \<le> 2 ^ 62"
  by (intro power_increasing) auto

text \<open>The ring's parameters: a power of two, and a block that is large enough.\<close>

definition ring_geo :: "'a ring \<Rightarrow> bool" where
  "ring_geo r \<longleftrightarrow> (\<exists>k < 63. rg_max r = 2 ^ k) \<and> rg_max r \<le> length (rg_buf r)"

lemma ring_geo_pos: "ring_geo r \<Longrightarrow> 0 < rg_max r"
  by (auto simp: ring_geo_def)

lemma ring_geo_max: "ring_geo r \<Longrightarrow> rg_max r \<le> 2 ^ 62"
  using pow2_small by (auto simp: ring_geo_def)

lemma ring_ok_geo: "ring_ok r \<Longrightarrow> ring_geo r"
  by (auto simp: ring_geo_def ring_ok_def)

lemma advance_mod: "ring_geo r \<Longrightarrow> ring_advance r i n = (i + n) mod rg_max r"
  by (auto simp: ring_geo_def ring_advance_def and_pow2 sz_mod_pow2)

lemma retreat_mod:
  assumes "ring_geo r" "i < rg_max r" "n \<le> rg_max r"
  shows "ring_retreat r i n = (rg_max r + i - n) mod rg_max r"
proof -
  from assms(1) obtain k where k: "k < 63" "rg_max r = 2 ^ k" by (auto simp: ring_geo_def)
  have "sz (rg_max r + i) = rg_max r + i"
    using assms ring_geo_max [OF assms(1)] by (intro sz_id) (simp add: NPOS_def)
  then show ?thesis using assms k by (simp add: ring_retreat_def and_pow2)
qed

lemma advance_slot: "ring_geo r \<Longrightarrow> ring_advance r (x mod rg_max r) n = (x + n) mod rg_max r"
  by (simp add: advance_mod mod_simps)

lemma retreat_slot:
  assumes "ring_geo r" "n \<le> rg_max r"
  shows "ring_retreat r (x mod rg_max r) n = (rg_max r + x - n) mod rg_max r"
proof -
  have "rg_max r + x mod rg_max r - n = (rg_max r - n) + x mod rg_max r"
    "rg_max r + x - n = (rg_max r - n) + x" using assms(2) by auto
  moreover have "(rg_max r - n + x mod rg_max r) mod rg_max r = (rg_max r - n + x) mod rg_max r"
    by (simp add: mod_add_right_eq)
  ultimately show ?thesis
    using assms ring_geo_pos [OF assms(1)] by (simp add: retreat_mod)
qed

lemma slot_inj: "p < m \<Longrightarrow> q < m \<Longrightarrow> (base + p) mod m = (base + q) mod m \<Longrightarrow> p = (q :: nat)"
proof (induction p q rule: linorder_wlog)
  case (le p q)
  then have "m dvd (base + q) - (base + p)" by (subst mod_eq_dvd_iff_nat [symmetric]) auto
  then show ?case using le by (auto dest: dvd_imp_le)
qed simp

subsection \<open>The block as it is met from a cell on\<close>

lemma length_ring_view [simp]: "length (ring_view base r) = rg_max r"
  by (simp add: ring_view_def)

lemma nth_ring_view: "q < rg_max r \<Longrightarrow> ring_view base r ! q = rg_buf r ! ((base + q) mod rg_max r)"
  by (simp add: ring_view_def)

lemma ring_view_mod: "ring_view (base mod rg_max r) r = ring_view base r"
  by (simp add: ring_view_def mod_add_left_eq)

lemma ring_view_cong: "rg_buf r = rg_buf r' \<Longrightarrow> rg_max r = rg_max r' \<Longrightarrow> ring_view base r = ring_view base r'"
  by (simp add: ring_view_def)

lemma ring_view_update:
  assumes "ring_geo r" "q < rg_max r"
  shows "ring_view base (r\<lparr>rg_buf := (rg_buf r)[(base + q) mod rg_max r := x]\<rparr>) = (ring_view base r)[q := x]"
proof (rule nth_equalityI)
  fix i assume "i < length (ring_view base (r\<lparr>rg_buf := (rg_buf r)[(base + q) mod rg_max r := x]\<rparr>))"
  then have i: "i < rg_max r" by simp
  have "(base + q) mod rg_max r < length (rg_buf r)"
    using assms by (auto simp: ring_geo_def intro: less_le_trans [OF mod_less_divisor])
  then show "ring_view base (r\<lparr>rg_buf := (rg_buf r)[(base + q) mod rg_max r := x]\<rparr>) ! i =
      (ring_view base r)[q := x] ! i"
    using i assms(2) slot_inj [OF assms(2) i, of base] by (auto simp: nth_ring_view nth_list_update)
qed simp

lemma ring_view_rotate:
  assumes "n \<le> rg_max r"
  shows "ring_view (base + n) r = drop n (ring_view base r) @ take n (ring_view base r)"
proof (rule nth_equalityI)
  fix i assume "i < length (ring_view (base + n) r)"
  then have i: "i < rg_max r" by simp
  have "(base + n + i) mod rg_max r = (base + (n + i - rg_max r)) mod rg_max r" if "rg_max r \<le> n + i"
    using that le_mod_geq [of "rg_max r" "base + n + i"] by (simp add: add.assoc)
  with i assms show "ring_view (base + n) r ! i = (drop n (ring_view base r) @ take n (ring_view base r)) ! i"
    by (auto simp: nth_append nth_ring_view not_less ac_simps)
qed (use assms in simp)

lemma ring_idx_update [simp]: "ring_advance (r\<lparr>rg_buf := b\<rparr>) i n = ring_advance r i n"
    "ring_retreat (r\<lparr>rg_buf := b\<rparr>) i n = ring_retreat r i n"
  by (simp_all add: ring_advance_def ring_retreat_def)

lemma ring_geo_update [simp]: "length b = length (rg_buf r) \<Longrightarrow> ring_geo (r\<lparr>rg_buf := b\<rparr>) = ring_geo r"
  by (simp add: ring_geo_def)

lemma copy_cell_view:
  assumes "ring_geo r" "d < rg_max r" "s < rg_max r"
  shows "\<exists>b. ring_copy_cell r ((base + d) mod rg_max r) ((base + s) mod rg_max r) = Inr (r\<lparr>rg_buf := b\<rparr>) \<and>
    length b = length (rg_buf r) \<and>
    ring_view base (r\<lparr>rg_buf := b\<rparr>) = (ring_view base r)[d := ring_view base r ! s]"
proof -
  have "x mod rg_max r < length (rg_buf r)" for x
    using assms by (auto simp: ring_geo_def intro: less_le_trans [OF mod_less_divisor])
  then show ?thesis
    using ring_view_update [OF assms(1,2)] assms(3)
    by (intro exI [of _ "(rg_buf r)[(base + d) mod rg_max r := rg_buf r ! ((base + s) mod rg_max r)]"])
       (simp add: ring_copy_cell_def nth_ring_view)
qed

subsection \<open>The two moves\<close>

lemma put_cells_first:
  assumes "d + length cs < length V"
  shows "put_cells (V[d := c]) (Suc d) cs = put_cells V d (c # cs)"
proof (rule nth_equalityI)
  fix i assume "i < length (put_cells (V[d := c]) (Suc d) cs)"
  then have i: "i < length V" using assms by (simp add: length_put_cells)
  have "(c # cs) ! (i - d) = cs ! (i - Suc d)" if "d < i"
    using that by (metis Suc_diff_Suc nth_Cons_Suc)
  with i assms show "put_cells (V[d := c]) (Suc d) cs ! i = put_cells V d (c # cs) ! i"
    by (cases "i = d") (auto simp: nth_put_cells)
qed (use assms in \<open>simp add: length_put_cells\<close>)

lemma put_cells_last:
  assumes "d + length cs < length V"
  shows "put_cells (V[d + length cs := c]) d cs = put_cells V d (cs @ [c])"
  using assms by (intro nth_equalityI) (auto simp: length_put_cells nth_put_cells nth_list_update nth_append)

lemma backward_loop_view:
  assumes "ring_geo r" "c < rg_max r" "lo + c + n \<le> rg_max r" "c \<le> fuel"
  shows "\<exists>b. backward_loop fuel r ((base + (rg_max r - 1) + (lo + c)) mod rg_max r)
      ((base + (rg_max r - 1) + lo) mod rg_max r) n = Inr (r\<lparr>rg_buf := b\<rparr>) \<and> length b = length (rg_buf r) \<and>
    ring_view base (r\<lparr>rg_buf := b\<rparr>) = put_cells (ring_view base r) (lo + n) (take c (drop lo (ring_view base r)))"
  using assms
proof (induction c arbitrary: r fuel)
  case 0
  then show ?case by (cases fuel) (auto intro!: exI [of _ "rg_buf r"])
next
  case (Suc c)
  obtain f where f: "fuel = Suc f" using Suc.prems(4) by (cases fuel) auto
  let ?m = "rg_max r" and ?V = "ring_view base r"
  have ne: "(base + (?m - 1) + (lo + Suc c)) mod ?m \<noteq> (base + (?m - 1) + lo) mod ?m"
    using slot_inj [of 0 ?m "Suc c" "base + (?m - 1) + lo"] Suc.prems(2) by (auto simp: add.assoc)
  have i: "(base + (?m - 1) + (lo + Suc c)) mod ?m = (base + (lo + c)) mod ?m"
  proof -
    have "base + (?m - 1) + (lo + Suc c) = base + (lo + c) + ?m" using Suc.prems(2) by simp
    then show ?thesis by (simp only: mod_add_self2)
  qed
  have nxt: "(?m + (base + (lo + c)) - 1) mod ?m = (base + (?m - 1) + (lo + c)) mod ?m"
    using Suc.prems(2) by (simp add: ac_simps)
  obtain b1 where b1: "ring_copy_cell r ((base + (lo + c + n)) mod ?m) ((base + (lo + c)) mod ?m) =
      Inr (r\<lparr>rg_buf := b1\<rparr>)" "length b1 = length (rg_buf r)"
      "ring_view base (r\<lparr>rg_buf := b1\<rparr>) = ?V[lo + c + n := ?V ! (lo + c)]"
    using copy_cell_view [OF Suc.prems(1), of "lo + c + n" "lo + c" base] Suc.prems(2,3) by auto
  obtain b where b: "backward_loop f (r\<lparr>rg_buf := b1\<rparr>) ((base + (?m - 1) + (lo + c)) mod ?m)
      ((base + (?m - 1) + lo) mod ?m) n = Inr (r\<lparr>rg_buf := b\<rparr>)" "length b = length b1"
      "ring_view base (r\<lparr>rg_buf := b\<rparr>) = put_cells (ring_view base (r\<lparr>rg_buf := b1\<rparr>)) (lo + n)
        (take c (drop lo (ring_view base (r\<lparr>rg_buf := b1\<rparr>))))"
    using Suc.IH [of "r\<lparr>rg_buf := b1\<rparr>" f] Suc.prems f b1(2) by auto
  have t: "take c (drop lo (?V[lo + c + n := ?V ! (lo + c)])) = take c (drop lo ?V)"
    by (simp add: take_update_cancel drop_update_swap)
  have "put_cells (?V[lo + c + n := ?V ! (lo + c)]) (lo + n) (take c (drop lo ?V)) =
      put_cells ?V (lo + n) (take (Suc c) (drop lo ?V))"
    using put_cells_last [of "lo + n" "take c (drop lo ?V)" ?V "?V ! (lo + c)"] Suc.prems(3)
    by (simp add: take_Suc_conv_app_nth ac_simps)
  with b b1 t show ?case
    using ne i nxt Suc.prems(1) ring_geo_pos [OF Suc.prems(1)]
    by (intro exI [of _ b]) (simp add: f advance_slot ring_prev_idx_def retreat_slot add.assoc)
qed

lemma forward_loop_view:
  assumes "ring_geo r" "c < rg_max r" "lo + c \<le> rg_max r" "n \<le> lo" "c \<le> fuel"
  shows "\<exists>b. forward_loop fuel r ((base + lo) mod rg_max r) ((base + (lo + c)) mod rg_max r) n =
      Inr (r\<lparr>rg_buf := b\<rparr>) \<and> length b = length (rg_buf r) \<and>
    ring_view base (r\<lparr>rg_buf := b\<rparr>) = put_cells (ring_view base r) (lo - n) (take c (drop lo (ring_view base r)))"
  using assms
proof (induction c arbitrary: r fuel lo)
  case 0
  then show ?case by (cases fuel) (auto intro!: exI [of _ "rg_buf r"])
next
  case (Suc c)
  obtain f where f: "fuel = Suc f" using Suc.prems(5) by (cases fuel) auto
  let ?m = "rg_max r" and ?V = "ring_view base r"
  have ne: "(base + lo) mod ?m \<noteq> (base + (lo + Suc c)) mod ?m"
    using slot_inj [of 0 ?m "Suc c" "base + lo"] Suc.prems(2) by (auto simp: add.assoc)
  have lt: "lo - n < ?m" "lo < ?m" using Suc.prems(3) by auto
  have dst: "(?m + (base + lo) - n) mod ?m = (base + (lo - n)) mod ?m"
  proof -
    have "?m + (base + lo) - n = base + (lo - n) + ?m" using Suc.prems(4) by simp
    then show ?thesis by simp
  qed
  obtain b1 where b1: "ring_copy_cell r ((base + (lo - n)) mod ?m) ((base + lo) mod ?m) =
      Inr (r\<lparr>rg_buf := b1\<rparr>)" "length b1 = length (rg_buf r)"
      "ring_view base (r\<lparr>rg_buf := b1\<rparr>) = ?V[lo - n := ?V ! lo]"
    using copy_cell_view [OF Suc.prems(1), of "lo - n" lo base] lt by (auto elim: exE)
  obtain b where b: "forward_loop f (r\<lparr>rg_buf := b1\<rparr>) ((base + Suc lo) mod ?m)
      ((base + (Suc lo + c)) mod ?m) n = Inr (r\<lparr>rg_buf := b\<rparr>)" "length b = length b1"
      "ring_view base (r\<lparr>rg_buf := b\<rparr>) = put_cells (ring_view base (r\<lparr>rg_buf := b1\<rparr>)) (Suc lo - n)
        (take c (drop (Suc lo) (ring_view base (r\<lparr>rg_buf := b1\<rparr>))))"
    using Suc.IH [of "r\<lparr>rg_buf := b1\<rparr>" "Suc lo" f] Suc.prems f b1(2) by auto
  have t: "take c (drop (Suc lo) (?V[lo - n := ?V ! lo])) = take c (drop (Suc lo) ?V)"
    by (simp add: drop_update_cancel)
  have "put_cells (?V[lo - n := ?V ! lo]) (Suc lo - n) (take c (drop (Suc lo) ?V)) =
      put_cells ?V (lo - n) (take (Suc c) (drop lo ?V))"
    using put_cells_first [of "lo - n" "take c (drop (Suc lo) ?V)" ?V "?V ! lo"] Suc.prems(3,4)
    by (simp add: Suc_diff_le Cons_nth_drop_Suc [symmetric])
  with b b1 t show ?case
    using ne dst Suc.prems(1,3,4)
    by (intro exI [of _ b]) (simp add: f retreat_slot ring_next_idx_def advance_slot)
qed

text \<open>The two operations, with offsets counted from \<open>base\<close>; a move by 0 cells may also be a move of
  the whole block, for which the loops do nothing at all.\<close>

lemma loop_stops: "backward_loop f r i i n = Inr r" "forward_loop f r i i n = Inr r"
  by (cases f; simp)+

lemma move_backward_view:
  assumes "ring_geo r" "lo + c + n \<le> rg_max r" "c < rg_max r \<or> n = 0"
  shows "\<exists>b. ring_move_backward r ((base + lo) mod rg_max r) ((base + (lo + c)) mod rg_max r) n =
      Inr (r\<lparr>rg_buf := b\<rparr>) \<and> length b = length (rg_buf r) \<and>
    ring_view base (r\<lparr>rg_buf := b\<rparr>) = put_cells (ring_view base r) (lo + n) (take c (drop lo (ring_view base r)))"
proof -
  have m: "0 < rg_max r" by (rule ring_geo_pos [OF assms(1)])
  have prev: "ring_prev_idx r ((base + q) mod rg_max r) = (base + (rg_max r - 1) + q) mod rg_max r" for q
    using assms(1) m by (simp add: ring_prev_idx_def retreat_slot ac_simps)
  show ?thesis
  proof (cases "c < rg_max r")
    case True
    show ?thesis
      unfolding ring_move_backward_def prev
      by (rule backward_loop_view) (use assms True in auto)
  next
    case False
    with assms have "n = 0" "lo = 0" and c: "c = rg_max r" by auto
    then show ?thesis unfolding ring_move_backward_def prev
      by (intro exI [of _ "rg_buf r"]) (simp add: put_cells_def loop_stops add.assoc [symmetric] del: One_nat_def)
  qed
qed

lemma move_forward_view:
  assumes "ring_geo r" "lo + c \<le> rg_max r" "n \<le> lo" "c < rg_max r \<or> n = 0"
  shows "\<exists>b. ring_move_forward r ((base + lo) mod rg_max r) ((base + (lo + c)) mod rg_max r) n =
      Inr (r\<lparr>rg_buf := b\<rparr>) \<and> length b = length (rg_buf r) \<and>
    ring_view base (r\<lparr>rg_buf := b\<rparr>) = put_cells (ring_view base r) (lo - n) (take c (drop lo (ring_view base r)))"
proof (cases "c < rg_max r")
  case True
  show ?thesis
    unfolding ring_move_forward_def by (rule forward_loop_view) (use assms True in auto)
next
  case False
  have m: "0 < rg_max r" by (rule ring_geo_pos [OF assms(1)])
  with False assms have "n = 0" "lo = 0" "c = rg_max r" by auto
  then show ?thesis unfolding ring_move_forward_def
    by (intro exI [of _ "rg_buf r"]) (simp add: put_cells_def loop_stops)
qed

lemma store_loop_view:
  assumes "ring_geo r" "q + length xs \<le> rg_max r"
  shows "\<exists>b. store_loop r ((base + q) mod rg_max r) xs = Inr (r\<lparr>rg_buf := b\<rparr>) \<and> length b = length (rg_buf r) \<and>
    ring_view base (r\<lparr>rg_buf := b\<rparr>) = put_cells (ring_view base r) q (map Some xs)"
  using assms
proof (induction xs arbitrary: r q)
  case Nil
  then show ?case by (auto intro!: exI [of _ "rg_buf r"])
next
  case (Cons x xs)
  let ?b1 = "(rg_buf r)[(base + q) mod rg_max r := Some x]"
  have "(base + q) mod rg_max r < length (rg_buf r)"
    using Cons.prems by (auto simp: ring_geo_def intro: less_le_trans [OF mod_less_divisor])
  moreover have "(base + Suc q) mod rg_max r = ring_next_idx r ((base + q) mod rg_max r)"
    using Cons.prems(1) by (simp add: ring_next_idx_def advance_slot)
  moreover obtain b where "store_loop (r\<lparr>rg_buf := ?b1\<rparr>) ((base + Suc q) mod rg_max r) xs = Inr (r\<lparr>rg_buf := b\<rparr>)"
      "length b = length (rg_buf r)"
      "ring_view base (r\<lparr>rg_buf := b\<rparr>) = put_cells (ring_view base (r\<lparr>rg_buf := ?b1\<rparr>)) (Suc q) (map Some xs)"
    using Cons.IH [of "r\<lparr>rg_buf := ?b1\<rparr>" "Suc q"] Cons.prems by auto
  moreover have "put_cells ((ring_view base r)[q := Some x]) (Suc q) (map Some xs) =
      put_cells (ring_view base r) q (map Some (x # xs))"
    using put_cells_first [of q "map Some xs" "ring_view base r" "Some x"] Cons.prems(2) by simp
  ultimately show ?case
    using Cons.prems(2) ring_view_update [OF Cons.prems(1), of q base "Some x"]
    by (intro exI [of _ b]) (simp add: cell_set_def)
qed

subsection \<open>Adding and removing at the ends\<close>

lemma ring_holds_length: "ring_holds r xs \<Longrightarrow> rg_size r = length xs \<and> length xs \<le> rg_max r"
  by (auto simp: ring_holds_def ring_ok_def)

lemma ring_init_holds:
  "k < 63 \<Longrightarrow> n = 2 ^ k \<Longrightarrow> n \<le> length buf \<Longrightarrow> ring_holds (ring_init buf n) []"
  by (auto simp: ring_holds_def ring_ok_def ring_init_def)

lemma ring_clear_holds: "ring_holds r xs \<Longrightarrow> ring_holds (ring_clear r) []"
  by (auto simp: ring_holds_def ring_ok_def ring_clear_def)

text \<open>The invariant is restored by any update that names the new first cell and the new size, and
  puts the elements where they are then looked for.\<close>

lemma ring_holdsI:
  assumes "ring_geo r" "rg_begin r = base mod rg_max r" "rg_size r = length xs" "length xs \<le> rg_max r"
    "rg_end r = (base + length xs) mod rg_max r"
    "take (length xs) (ring_view base r) = map Some xs"
  shows "ring_holds r xs"
  using assms ring_geo_pos [OF assms(1)]
  by (auto simp: ring_holds_def ring_ok_def ring_geo_def ring_view_mod mod_add_left_eq)

lemma ring_holds_nth:
  assumes "ring_holds r xs" "i < length xs"
  shows "rg_buf r ! ((rg_begin r + i) mod rg_max r) = Some (xs ! i)"
proof -
  have i: "i < rg_max r" using assms ring_holds_length by fastforce
  have "take (length xs) (ring_view (rg_begin r) r) ! i = map Some xs ! i"
    using assms(1) by (simp add: ring_holds_def)
  then show ?thesis using assms(2) i by (simp add: nth_ring_view)
qed

lemma ring_slot_bound: "ring_geo r \<Longrightarrow> x mod rg_max r < length (rg_buf r)"
  by (auto simp: ring_geo_def intro: less_le_trans [OF mod_less_divisor])

lemma ring_at_holds:
  assumes "ring_holds r xs" "i < length xs"
  shows "ring_at r i = Inr (xs ! i)"
proof -
  have g: "ring_geo r" using assms(1) by (auto simp: ring_holds_def ring_ok_geo)
  show ?thesis
    using g ring_slot_bound [OF g] ring_holds_nth [OF assms]
    by (simp add: ring_at_def advance_mod cell_get_Some)
qed

lemma ring_front_holds:
  assumes "ring_holds r xs" "xs \<noteq> []"
  shows "ring_front r = Inr (hd xs)"
  using ring_at_holds [OF assms(1), of 0] assms
  by (auto simp: ring_front_def ring_at_def ring_holds_def ring_ok_geo advance_mod ring_ok_def hd_conv_nth)

lemma ring_back_holds:
  assumes "ring_holds r xs" "xs \<noteq> []"
  shows "ring_back r = Inr (last xs)"
proof -
  have g: "ring_geo r" and e: "rg_end r = (rg_begin r + length xs) mod rg_max r"
    using assms(1) by (auto simp: ring_holds_def ring_ok_geo ring_ok_def)
  have "rg_max r + (rg_begin r + length xs) - 1 = rg_begin r + (length xs - 1) + rg_max r"
    using assms(2) by (cases xs) auto
  then have "ring_prev_idx r (rg_end r) = ring_advance r (rg_begin r) (length xs - 1)"
    using g e ring_geo_pos [OF g]
    by (simp only: ring_prev_idx_def retreat_slot advance_mod mod_add_self2 Suc_leI One_nat_def)
  then show ?thesis
    using ring_at_holds [OF assms(1), of "length xs - 1"] assms(2)
    by (simp add: ring_back_def ring_at_def last_conv_nth)
qed

lemma ring_push_back_holds:
  assumes "ring_holds r xs"
  shows "\<exists>r'. ring_push_back r x = Inr (length xs < rg_max r, r') \<and> rg_max r' = rg_max r \<and>
    ring_holds r' (if length xs < rg_max r then xs @ [x] else xs)"
proof (cases "length xs < rg_max r")
  case True
  have g: "ring_geo r" and h: "rg_begin r < rg_max r" "rg_size r = length xs"
      "rg_end r = (rg_begin r + length xs) mod rg_max r" "take (length xs) (ring_view (rg_begin r) r) = map Some xs"
    using assms by (auto simp: ring_holds_def ring_ok_geo ring_ok_def)
  let ?r' = "r\<lparr>rg_buf := (rg_buf r)[rg_end r := Some x], rg_end := ring_next_idx r (rg_end r), rg_size := sz (rg_size r + 1)\<rparr>"
  have v: "ring_view (rg_begin r) ?r' = (ring_view (rg_begin r) r)[length xs := Some x]"
    using ring_view_update [OF g True, of "rg_begin r" "Some x"] h(3) by (simp add: ring_view_def)
  have s: "sz (length xs + 1) = length xs + 1"
    using True ring_geo_max [OF g] by (intro sz_id) (simp add: NPOS_def)
  have "ring_holds ?r' (xs @ [x])"
  proof (rule ring_holdsI [of _ "rg_begin r"])
    show "ring_geo ?r'" using g by (simp add: ring_geo_def)
    show "take (length (xs @ [x])) (ring_view (rg_begin r) ?r') = map Some (xs @ [x])"
      unfolding v using True h(4) by (simp add: take_Suc_conv_app_nth)
  qed (use g h s True in \<open>simp_all add: ring_next_idx_def advance_slot\<close>)
  then show ?thesis
    using True h ring_slot_bound [OF g]
    by (simp add: ring_push_back_def ring_push_back_ref_def ring_full_def cell_set_def)
next
  case False
  then have "rg_size r = rg_max r" using ring_holds_length [OF assms] by simp
  with False assms show ?thesis by (simp add: ring_push_back_def ring_push_back_ref_def ring_full_def)
qed

lemma ring_pop_back_holds:
  assumes "ring_holds r (xs @ [x])"
  shows "ring_holds (ring_pop_back r) xs"
proof (rule ring_holdsI [of _ "rg_begin r"])
  have g: "ring_geo r" and h: "rg_begin r < rg_max r" "rg_size r = Suc (length xs)"
      "rg_end r = (rg_begin r + Suc (length xs)) mod rg_max r" "Suc (length xs) \<le> rg_max r"
    using assms by (auto simp: ring_holds_def ring_ok_geo ring_ok_def)
  show "ring_geo (ring_pop_back r)" using g by (simp add: ring_geo_def ring_pop_back_def)
  show "rg_end (ring_pop_back r) = (rg_begin r + length xs) mod rg_max (ring_pop_back r)"
    using g h by (simp add: ring_pop_back_def ring_prev_idx_def retreat_slot ring_geo_pos)
  have "take (length xs) (take (length (xs @ [x])) (ring_view (rg_begin r) r)) = take (length xs) (map Some (xs @ [x]))"
    using assms by (simp add: ring_holds_def)
  then show "take (length xs) (ring_view (rg_begin r) (ring_pop_back r)) = map Some xs"
    using ring_view_cong [of "ring_pop_back r" r] by (simp add: ring_pop_back_def min_def)
qed (use assms in \<open>auto simp: ring_holds_def ring_ok_def ring_pop_back_def\<close>)


lemma ring_holdsE:
  assumes "ring_holds r xs"
  shows "ring_geo r" "rg_begin r < rg_max r" "rg_size r = length xs" "length xs \<le> rg_max r"
    "rg_end r = (rg_begin r + length xs) mod rg_max r" "take (length xs) (ring_view (rg_begin r) r) = map Some xs"
  using assms by (auto simp: ring_holds_def ring_ok_geo ring_ok_def)

lemma ring_push_front_holds:
  assumes "ring_holds r xs"
  shows "\<exists>r'. ring_push_front r x = Inr (length xs < rg_max r, r') \<and> rg_max r' = rg_max r \<and>
    ring_holds r' (if length xs < rg_max r then x # xs else xs)"
proof (cases "length xs < rg_max r")
  case True
  note h = ring_holdsE [OF assms]
  let ?base = "rg_begin r + (rg_max r - 1)"
  let ?p = "?base mod rg_max r"
  have p: "ring_prev_idx r (rg_begin r) = ?p"
    using h True by (simp add: ring_prev_idx_def retreat_mod ac_simps)
  have rot: "ring_view ?base r = drop (rg_max r - 1) (ring_view (rg_begin r) r) @ take (rg_max r - 1) (ring_view (rg_begin r) r)"
    by (rule ring_view_rotate) simp
  have l: "length (drop (rg_max r - 1) (ring_view (rg_begin r) r)) = 1" using True by simp
  let ?r' = "r\<lparr>rg_begin := ?p, rg_buf := (rg_buf r)[?p := Some x], rg_size := sz (rg_size r + 1)\<rparr>"
  have v: "ring_view ?base ?r' = (ring_view ?base r)[0 := Some x]"
    using ring_view_update [OF h(1), of 0 ?base "Some x"] True by (simp add: ring_view_def)
  have s: "sz (length xs + 1) = length xs + 1"
    using True ring_geo_max [OF h(1)] by (intro sz_id) (simp add: NPOS_def)
  have "ring_holds ?r' (x # xs)"
  proof (rule ring_holdsI [of _ ?base])
    show "ring_geo ?r'" using h(1) by (simp add: ring_geo_def)
    have "?base + length (x # xs) = rg_begin r + length xs + rg_max r" using True by simp
    then have e: "(?base + length (x # xs)) mod rg_max r = (rg_begin r + length xs) mod rg_max r"
      by (simp only: mod_add_self2)
    have "rg_end ?r' = rg_end r" "rg_max ?r' = rg_max r" by simp_all
    then show "rg_end ?r' = (?base + length (x # xs)) mod rg_max ?r'" by (simp only: h(5) e)
    obtain c where c: "drop (rg_max r - 1) (ring_view (rg_begin r) r) = [c]"
      using l by (metis One_nat_def length_0_conv length_Suc_conv)
    have "take (length xs) (take (rg_max r - 1) (ring_view (rg_begin r) r)) = map Some xs"
      using True h(6) by (simp add: min_absorb1)
    then show "take (length (x # xs)) (ring_view ?base ?r') = map Some (x # xs)"
      unfolding v rot c by simp
  qed (use h s True in simp_all)
  then show ?thesis
    using True h p ring_slot_bound [OF h(1)]
    by (simp add: ring_push_front_def ring_push_front_ref_def ring_full_def cell_set_def)
next
  case False
  then have "rg_size r = rg_max r" using ring_holds_length [OF assms] by simp
  with False assms show ?thesis by (simp add: ring_push_front_def ring_push_front_ref_def ring_full_def)
qed

lemma ring_pop_front_holds:
  assumes "ring_holds r (x # xs)"
  shows "ring_holds (ring_pop_front r) xs"
proof (rule ring_holdsI [of _ "rg_begin r + 1"])
  note h = ring_holdsE [OF assms]
  show "ring_geo (ring_pop_front r)" using h(1) by (simp add: ring_geo_def ring_pop_front_def)
  have m: "1 \<le> rg_max r" "Suc (length xs) \<le> rg_max r" using h(4) by auto
  have d: "take (length xs) (drop 1 (take (Suc (length xs)) (ring_view (rg_begin r) r))) = map Some xs"
    using h(6) by simp
  have v: "ring_view (rg_begin r + 1) (ring_pop_front r) = ring_view (rg_begin r + 1) r"
    by (simp add: ring_view_def ring_pop_front_def)
  show "take (length xs) (ring_view (rg_begin r + 1) (ring_pop_front r)) = map Some xs"
    unfolding v ring_view_rotate [OF m(1)] using d m by (simp add: take_drop min_def)
qed (use ring_holdsE [OF assms] in \<open>simp_all add: ring_pop_front_def ring_next_idx_def advance_mod\<close>)

subsection \<open>Removing and inserting in the middle\<close>

lemma take_put_cells: "d + length cs = k \<Longrightarrow> d \<le> length V \<Longrightarrow> take k (put_cells V d cs) = take d V @ cs"
  by (auto simp: put_cells_def)

lemma ring_distance_slot:
  assumes "a < rg_max r" "n < rg_max r" "ring_geo r"
  shows "ring_distance r a ((a + n) mod rg_max r) = n"
proof -
  have "sz (rg_max r - a + (a + n - rg_max r)) = rg_max r - a + (a + n - rg_max r)"
    using assms ring_geo_max [OF assms(3)] by (intro sz_id) (simp add: NPOS_def)
  then show ?thesis
    using assms le_mod_geq [of "rg_max r" "a + n"]
    by (cases "a + n < rg_max r") (simp_all add: ring_distance_def not_less)
qed

text \<open>Whatever the distances are, both halves of \<open>erase\<close> leave the same list.\<close>

lemma ring_erase_holds:
  assumes "ring_holds r xs" "idx + n \<le> length xs"
  shows "\<exists>r'. ring_erase r idx n = Inr r' \<and> ring_holds r' (take idx xs @ drop (idx + n) xs) \<and> rg_max r' = rg_max r"
proof -
  note h = ring_holdsE [OF assms(1)]
  let ?m = "rg_max r" and ?b = "rg_begin r" and ?V = "ring_view (rg_begin r) r" and ?s = "length xs"
  have m: "idx + n \<le> ?m" using assms(2) h(4) by simp
  have lenV: "length ?V = ?m" by simp
  have pos1: "ring_advance r ?b idx = (?b + idx) mod ?m" using h(1) by (simp add: advance_mod)
  have pos2: "ring_advance r ((?b + idx) mod ?m) n = (?b + (idx + n)) mod ?m"
    using h(1) by (simp add: advance_slot add.assoc)
  have bb: "(?b + 0) mod ?m = ?b" using h(2) by simp
  have cut: "map Some (take idx xs) = take idx ?V" "map Some (drop (idx + n) xs) = take (?s - (idx + n)) (drop (idx + n) ?V)"
    unfolding take_map [symmetric] drop_map [symmetric] h(6) [symmetric]
    using assms(2) by (simp_all add: take_drop min_def)
  obtain k where k: "?s = idx + n + k" using assms(2) le_Suc_ex by blast
  have size: "sz_sub (rg_size r) n = ?s - n" using h(3) assms(2) by simp
  have len: "length (take idx xs @ drop (idx + n) xs) = ?s - n" using assms(2) by simp
  show ?thesis
  proof (cases "ring_distance r ?b ((?b + idx) mod ?m) \<ge> ring_distance r ((?b + (idx + n)) mod ?m) (rg_end r)")
    case True
    obtain b where b: "ring_move_forward r ((?b + (idx + n)) mod ?m) (rg_end r) n = Inr (r\<lparr>rg_buf := b\<rparr>)"
        "length b = length (rg_buf r)"
        "ring_view ?b (r\<lparr>rg_buf := b\<rparr>) = put_cells ?V idx (take (?s - (idx + n)) (drop (idx + n) ?V))"
      using move_forward_view [OF h(1), of "idx + n" "?s - (idx + n)" n ?b] assms(2) h(4) h(5) by fastforce
    let ?r' = "r\<lparr>rg_buf := b, rg_end := ring_retreat r (rg_end r) n, rg_size := ?s - n\<rparr>"
    have "ring_holds ?r' (take idx xs @ drop (idx + n) xs)"
    proof (rule ring_holdsI [of _ ?b])
      show "ring_geo ?r'" using h(1) b(2) by (simp add: ring_geo_def)
      have "?m + (?b + ?s) - n = ?b + (?s - n) + ?m" using assms(2) by simp
      then show "rg_end ?r' = (?b + length (take idx xs @ drop (idx + n) xs)) mod rg_max ?r'"
        using h(1,5) m unfolding len by (simp add: retreat_slot mod_add_self2 del: add_diff_assoc add_diff_assoc2)
      have "ring_view ?b ?r' = put_cells ?V idx (take (?s - (idx + n)) (drop (idx + n) ?V))"
        using b(3) by (simp add: ring_view_def)
      then show "take (length (take idx xs @ drop (idx + n) xs)) (ring_view ?b ?r') = map Some (take idx xs @ drop (idx + n) xs)"
        unfolding len map_append cut using take_put_cells [of idx _ "?s - n" ?V] assms(2) h(4) m by simp
    qed (use h assms(2) in auto)
    then show ?thesis using True b h(3) assms(2) by (simp add: ring_erase_def pos1 pos2 Let_def)
  next
    case False
    obtain b where b: "ring_move_backward r ?b ((?b + idx) mod ?m) n = Inr (r\<lparr>rg_buf := b\<rparr>)"
        "length b = length (rg_buf r)" "ring_view ?b (r\<lparr>rg_buf := b\<rparr>) = put_cells ?V n (take idx ?V)"
      using move_backward_view [OF h(1), of 0 idx n ?b] m bb by fastforce
    let ?r' = "r\<lparr>rg_buf := b, rg_begin := ring_advance r ?b n, rg_size := ?s - n\<rparr>"
    have "ring_holds ?r' (take idx xs @ drop (idx + n) xs)"
    proof (rule ring_holdsI [of _ "?b + n"])
      show "ring_geo ?r'" using h(1) b(2) by (simp add: ring_geo_def)
      have "ring_view ?b ?r' = put_cells ?V n (take idx ?V)" using b(3) by (simp add: ring_view_def)
      then have "ring_view (?b + n) ?r' = drop n (put_cells ?V n (take idx ?V)) @ take n (put_cells ?V n (take idx ?V))"
        using ring_view_rotate [of n ?r' ?b] m by simp
      then show "take (length (take idx xs @ drop (idx + n) xs)) (ring_view (?b + n) ?r') = map Some (take idx xs @ drop (idx + n) xs)"
        unfolding len map_append cut put_cells_def using h(4) m by (simp add: k min_def ac_simps)
    qed (use h assms(2) in \<open>auto simp: advance_mod\<close>)
    then show ?thesis using False b h(3) assms(2) by (simp add: ring_erase_def pos1 pos2 Let_def)
  qed
qed


lemma ring_insert_full:
  assumes "ring_holds r xs" "rg_max r < length xs + n" "n \<le> 2 ^ 62"
  shows "ring_insert_array r idx data n = Inr (False, r)"
proof -
  note h = ring_holdsE [OF assms(1)]
  have "sz (length xs + n) = length xs + n"
    using h(4) ring_geo_max [OF h(1)] assms(3) by (intro sz_id) (simp add: NPOS_def)
  with assms(2) h(3) show ?thesis by (simp add: ring_insert_array_def)
qed

text \<open>Whichever half is moved, \<open>insert_array\<close> leaves the same list.\<close>

lemma ring_insert_array_holds:
  assumes "ring_holds r xs" "idx \<le> length xs" "length xs + length data \<le> rg_max r"
  shows "\<exists>r'. ring_insert_array r idx data (length data) = Inr (True, r') \<and>
    ring_holds r' (take idx xs @ data @ drop idx xs) \<and> rg_max r' = rg_max r"
proof -
  note h = ring_holdsE [OF assms(1)]
  let ?m = "rg_max r" and ?b = "rg_begin r" and ?V = "ring_view (rg_begin r) r" and ?n = "length data"
  obtain k where k: "length xs = idx + k" using assms(2) le_Suc_ex by blast
  have s: "sz (length xs + ?n) = length xs + ?n"
    using assms(3) ring_geo_max [OF h(1)] by (intro sz_id) (simp add: NPOS_def)
  have pos: "ring_advance r ?b idx = (?b + idx) mod ?m" using h(1) by (simp add: advance_mod)
  have cut: "map Some (take idx xs) = take idx ?V" "map Some (drop idx xs) = take k (drop idx ?V)"
    unfolding take_map [symmetric] drop_map [symmetric] h(6) [symmetric]
    by (simp_all add: k take_drop min_def add.commute)
  have fits: "idx + k + ?n \<le> ?m" using assms(3) k by simp
  have len: "length (take idx xs @ data @ drop idx xs) = idx + (?n + k)" using k by simp
  have start: "ring_insert_array r idx data ?n =
      rbind (if length xs div 2 < idx then
         rbind (ring_move_backward r ((?b + idx) mod ?m) (rg_end r) ?n) (\<lambda>r1.
           Inr ((?b + idx) mod ?m, r1\<lparr>rg_end := ring_advance r1 (rg_end r1) ?n\<rparr>))
       else
         rbind (ring_move_forward r ?b ((?b + idx) mod ?m) ?n) (\<lambda>r1.
           Inr (ring_retreat r1 ((?b + idx) mod ?m) ?n, r1\<lparr>rg_begin := ring_retreat r1 (rg_begin r1) ?n\<rparr>)))
     (\<lambda>(pos, r2). rbind (store_loop r2 pos data) (\<lambda>r3. Inr (True, r3\<lparr>rg_size := sz (rg_size r3 + ?n)\<rparr>)))"
    using assms(3) h(3) s by (simp add: ring_insert_array_def Let_def pos)
  show ?thesis
  proof (cases "length xs div 2 < idx")
    case True
    then have lt: "k < ?m" using fits k by linarith
    have e: "(?b + (idx + k)) mod ?m = rg_end r" using h(5) k by simp
    obtain b where b: "ring_move_backward r ((?b + idx) mod ?m) (rg_end r) ?n = Inr (r\<lparr>rg_buf := b\<rparr>)"
        "length b = length (rg_buf r)"
        "ring_view ?b (r\<lparr>rg_buf := b\<rparr>) = put_cells ?V (idx + ?n) (take k (drop idx ?V))"
      using move_backward_view [OF h(1), of idx k ?n ?b] fits lt e by auto
    let ?r1 = "r\<lparr>rg_buf := b, rg_end := ring_advance r (rg_end r) ?n\<rparr>"
    have g1: "ring_geo ?r1" using h(1) b(2) by (simp add: ring_geo_def)
    have v1: "ring_view ?b ?r1 = put_cells ?V (idx + ?n) (take k (drop idx ?V))"
      using b(3) by (simp add: ring_view_def)
    obtain c where c: "store_loop ?r1 ((?b + idx) mod ?m) data = Inr (?r1\<lparr>rg_buf := c\<rparr>)" "length c = length b"
        "ring_view ?b (?r1\<lparr>rg_buf := c\<rparr>) = put_cells (ring_view ?b ?r1) idx (map Some data)"
      using store_loop_view [OF g1, of idx data ?b] fits by auto
    let ?r' = "?r1\<lparr>rg_buf := c, rg_size := length xs + ?n\<rparr>"
    have "ring_holds ?r' (take idx xs @ data @ drop idx xs)"
    proof (rule ring_holdsI [of _ ?b])
      show "ring_geo ?r'" using h(1) b(2) c(2) by (simp add: ring_geo_def)
      show "rg_end ?r' = (?b + length (take idx xs @ data @ drop idx xs)) mod rg_max ?r'"
        using h(1,5) unfolding len by (simp add: advance_slot k ac_simps)
      have "ring_view ?b ?r' = put_cells (put_cells ?V (idx + ?n) (take k (drop idx ?V))) idx (map Some data)"
        using c(3) v1 by (simp add: ring_view_def)
      then show "take (length (take idx xs @ data @ drop idx xs)) (ring_view ?b ?r') =
          map Some (take idx xs @ data @ drop idx xs)"
        unfolding len map_append cut put_cells_def using fits by (simp add: min_absorb1 min_absorb2)
    qed (use h k fits in auto)
    then show ?thesis using True b c h(3) s unfolding start by simp
  next
    case False
    let ?base = "?b + (?m - ?n)"
    have lt: "idx < ?m" using False ring_geo_pos [OF h(1)] h(4) k by linarith
    have e: "(?base + ?n) mod ?m = ?b" "(?base + (?n + idx)) mod ?m = (?b + idx) mod ?m"
    proof -
      have "?base + ?n = ?b + ?m" "?base + (?n + idx) = ?b + idx + ?m" using fits by simp_all
      then show "(?base + ?n) mod ?m = ?b" "(?base + (?n + idx)) mod ?m = (?b + idx) mod ?m"
        using h(2) by (simp_all only: mod_add_self2 mod_less)
    qed
    let ?W = "ring_view ?base r"
    have vw: "?V = drop ?n ?W @ take ?n ?W"
      using ring_view_rotate [of ?n r ?base] ring_view_mod [of "?base + ?n" r] e(1) fits by simp
    obtain b where b: "ring_move_forward r ?b ((?b + idx) mod ?m) ?n = Inr (r\<lparr>rg_buf := b\<rparr>)"
        "length b = length (rg_buf r)"
        "ring_view ?base (r\<lparr>rg_buf := b\<rparr>) = put_cells ?W 0 (take idx (drop ?n ?W))"
      using move_forward_view [OF h(1), of ?n idx ?n ?base] fits lt e by auto
    have rb: "ring_retreat r ?b ?n = ?base mod ?m"
      using retreat_mod [OF h(1,2), of ?n] fits by (simp add: ac_simps)
    have rp: "ring_retreat r ((?b + idx) mod ?m) ?n = (?base + idx) mod ?m"
      using retreat_slot [OF h(1), of ?n "?b + idx"] fits by (simp add: ac_simps)
    let ?r1 = "r\<lparr>rg_buf := b, rg_begin := ?base mod ?m\<rparr>"
    have g1: "ring_geo ?r1" using h(1) b(2) by (simp add: ring_geo_def)
    have v1: "ring_view ?base ?r1 = put_cells ?W 0 (take idx (drop ?n ?W))"
      using b(3) by (simp add: ring_view_def)
    obtain c where c: "store_loop ?r1 ((?base + idx) mod ?m) data = Inr (?r1\<lparr>rg_buf := c\<rparr>)" "length c = length b"
        "ring_view ?base (?r1\<lparr>rg_buf := c\<rparr>) = put_cells (ring_view ?base ?r1) idx (map Some data)"
      using store_loop_view [OF g1, of idx data ?base] fits by auto
    let ?r' = "?r1\<lparr>rg_buf := c, rg_size := length xs + ?n\<rparr>"
    have "ring_holds ?r' (take idx xs @ data @ drop idx xs)"
    proof (rule ring_holdsI [of _ ?base])
      show "ring_geo ?r'" using h(1) b(2) c(2) by (simp add: ring_geo_def)
      have l: "?base + (idx + (?n + k)) = ?b + length xs + ?m" using fits k by simp
      have "rg_end ?r' = (?b + length xs) mod ?m" using h(5) by simp
      then show "rg_end ?r' = (?base + length (take idx xs @ data @ drop idx xs)) mod rg_max ?r'"
        unfolding len l by simp
      have "ring_view ?base ?r' = put_cells (put_cells ?W 0 (take idx (drop ?n ?W))) idx (map Some data)"
        using c(3) v1 by (simp add: ring_view_def)
      then show "take (length (take idx xs @ data @ drop idx xs)) (ring_view ?base ?r') =
          map Some (take idx xs @ data @ drop idx xs)"
        unfolding len map_append cut put_cells_def vw using fits
        by (simp add: min_absorb1 min_absorb2 add.commute [of idx "length data"])
    qed (use h k fits in auto)
    then show ?thesis using False b c h(3) s unfolding start by (simp add: rb rp)
  qed
qed


lemma ring_insert_holds:
  assumes "ring_holds r xs" "idx \<le> length xs"
  shows "\<exists>r'. ring_insert r idx x = Inr (length xs < rg_max r, r') \<and>
    ring_holds r' (if length xs < rg_max r then take idx xs @ x # drop idx xs else xs)"
proof (cases "length xs < rg_max r")
  case True
  then show ?thesis
    using ring_insert_array_holds [OF assms, of "[x]"] unfolding ring_insert_def by auto
next
  case False
  then show ?thesis
    using ring_insert_full [OF assms(1), of 1] assms(1) by (simp add: ring_insert_def)
qed

subsection \<open>Changing the size\<close>

lemma push_loop_holds:
  assumes "ring_holds r xs" "length xs + n \<le> rg_max r"
  shows "\<exists>r'. push_loop n r x = Inr r' \<and> ring_holds r' (xs @ replicate n x) \<and> rg_max r' = rg_max r"
  using assms
proof (induction n arbitrary: r xs)
  case 0
  then show ?case by simp
next
  case (Suc n)
  obtain r1 where r1: "ring_push_back r x = Inr (True, r1)" "rg_max r1 = rg_max r" "ring_holds r1 (xs @ [x])"
    using ring_push_back_holds [OF Suc.prems(1), of x] Suc.prems(2) by auto
  with Suc.IH [of r1 "xs @ [x]"] Suc.prems(2) obtain r2 where
    "push_loop n r1 x = Inr r2" "ring_holds r2 ((xs @ [x]) @ replicate n x)" "rg_max r2 = rg_max r"
    by auto
  with r1(1) show ?case by (intro exI [of _ r2]) (simp add: replicate_app_Cons_same)
qed

lemma ring_shrink_holds:
  assumes "ring_holds r xs" "n \<le> length xs"
  shows "ring_holds (r\<lparr>rg_end := ring_retreat r (rg_end r) (length xs - n), rg_size := n\<rparr>) (take n xs)"
proof (rule ring_holdsI [of _ "rg_begin r"])
  note h = ring_holdsE [OF assms(1)]
  let ?r' = "r\<lparr>rg_end := ring_retreat r (rg_end r) (length xs - n), rg_size := n\<rparr>"
  show "ring_geo ?r'" using h(1) by (simp add: ring_geo_def)
  have "rg_max r + (rg_begin r + length xs) - (length xs - n) = rg_begin r + n + rg_max r"
    using assms(2) by simp
  then have "(rg_max r + (rg_begin r + length xs) - (length xs - n)) mod rg_max r = (rg_begin r + n) mod rg_max r"
    by (simp only: mod_add_self2)
  then show "rg_end ?r' = (rg_begin r + length (take n xs)) mod rg_max ?r'"
    using h(1,4,5) assms(2) retreat_slot [OF h(1), of "length xs - n" "rg_begin r + length xs"]
    by (simp del: add_diff_assoc add_diff_assoc2)
  have "take n (take (length xs) (ring_view (rg_begin r) r)) = take n (map Some xs)" by (simp only: h(6))
  then show "take (length (take n xs)) (ring_view (rg_begin r) ?r') = map Some (take n xs)"
    using assms(2) ring_view_cong [of ?r' r] by (simp add: take_map min_def)
qed (use ring_holdsE [OF assms(1)] assms(2) in simp_all)

lemma ring_resize_holds:
  assumes "ring_holds r xs"
  shows "\<exists>r'. ring_resize r n x = Inr (n \<le> rg_max r, r') \<and>
    ring_holds r' (if rg_max r < n then xs else take n xs @ replicate (n - length xs) x)"
proof -
  note h = ring_holdsE [OF assms]
  consider "n \<le> length xs" | "length xs < n" "rg_max r < n" | "length xs < n" "n \<le> rg_max r" by linarith
  then show ?thesis
  proof cases
    case 1
    then show ?thesis using ring_shrink_holds [OF assms 1] h(3,4) by (simp add: ring_resize_def)
  next
    case 2
    then show ?thesis using assms h(3) by (simp add: ring_resize_def)
  next
    case 3
    obtain r1 where r1: "push_loop (n - length xs) r x = Inr r1" "ring_holds r1 (xs @ replicate (n - length xs) x)"
      using push_loop_holds [OF assms, of "n - length xs" x] 3 by auto
    have "rg_size r1 = n" using ring_holdsE(3) [OF r1(2)] 3 by simp
    then have "r1\<lparr>rg_size := n\<rparr> = r1" by simp
    with r1 3 h(3) show ?thesis by (simp add: ring_resize_def)
  qed
qed

lemma ring_swap_exchanges: "ring_swap self x = (x, self)"
  by (simp add: ring_swap_def Let_def)

subsection \<open>The contracts\<close>

interpretation ring_seq: bounded_seq ring_holds ring_push_back "\<lambda>r. Inr (ring_pop_back r)" ring_at
proof unfold_locales
  fix r :: "'a ring" and xs x
  assume "ring_holds r xs"
  from ring_push_back_holds [OF this, of x]
  show "\<exists>ok r'. ring_push_back r x = Inr (ok, r') \<and> ring_holds r' (if ok then xs @ [x] else xs)" by blast
qed (auto intro: ring_pop_back_holds ring_at_holds)


text \<open>C25: The two ways in which \<open>insert_array\<close> makes room (moving the elements after the position
  backwards or those before it forwards) and the two ways in which \<open>erase\<close> closes the gap are
  indistinguishable: wherever the elements lie in the block, also across its end, an insertion of
  \<open>data\<close> at \<open>idx\<close> leaves exactly the list with \<open>data\<close> inserted there, if there is room, and changes
  nothing otherwise; erasing the inserted range afterwards gives the old list back.\<close>

theorem ring_insert_erase:
  assumes "ring_holds r xs" "idx \<le> length xs" "length data \<le> 2 ^ 62"
  shows "if length xs + length data \<le> rg_max r
    then \<exists>r1 r2. ring_insert_array r idx data (length data) = Inr (True, r1) \<and>
      ring_holds r1 (take idx xs @ data @ drop idx xs) \<and>
      ring_erase r1 idx (length data) = Inr r2 \<and> ring_holds r2 xs
    else ring_insert_array r idx data (length data) = Inr (False, r)"
proof (cases "length xs + length data \<le> rg_max r")
  case True
  obtain r1 where r1: "ring_insert_array r idx data (length data) = Inr (True, r1)"
      "ring_holds r1 (take idx xs @ data @ drop idx xs)"
    using ring_insert_array_holds [OF assms(1,2) True] by blast
  from ring_erase_holds [OF this(2), of idx "length data"] assms(2) obtain r2 where
    "ring_erase r1 idx (length data) = Inr r2" "ring_holds r2 xs" by auto
  with r1 True show ?thesis by auto
next
  case False
  with ring_insert_full [OF assms(1), of "length data"] assms(3) show ?thesis by simp
qed

text \<open>A ring of four cells whose two elements lie across the end of the block.\<close>

lemma ring_across_the_end:
  "ring_holds \<lparr>rg_begin = 3, rg_end = 1, rg_max = 4, rg_size = 2, rg_buf = [Some 2, None, None, Some (1 :: nat)]\<rparr> [1, 2]"
  unfolding ring_holds_def ring_ok_def
  by (intro conjI exI [of _ 2]; simp add: ring_view_def upt_rec)

lemma ring_insert_erase_witness:
  "\<exists>r1 r2. ring_insert_array \<lparr>rg_begin = 3, rg_end = 1, rg_max = 4, rg_size = 2,
        rg_buf = [Some 2, None, None, Some (1 :: nat)]\<rparr> 1 [7] 1 = Inr (True, r1) \<and>
    ring_holds r1 [1, 7, 2] \<and> ring_erase r1 1 1 = Inr r2 \<and> ring_holds r2 [1, 2]"
  using ring_insert_erase [OF ring_across_the_end, of 1 "[7]"] by simp

end
