(* ===== verification/Cstl_String.thy ===== *)
theory Cstl_String
  imports Cstl_Vector "HOL-Library.Word"
begin

text \<open>
  The string of \<open>cstl/string.h\<close> (\<open>CSTL_STRING_IMPLEMENT (Name, Type)\<close>) for \<open>Type\<close> = \<open>char\<close>: a
  vector of characters that ends with \<open>'\0'\<close>.  The structure has the fields of the vector and the
  code casts one into the other, so that the state is a \<open>vec\<close>; \<open>sizeof (char)\<close> is 1.

  A text argument is a pointer, either to memory outside the string (\<open>Ext\<close>, the cells from
  there on) or into the string's own block (\<open>Self\<close>, an offset).  A function that returns \<open>self\<close> or
  \<open>NULL\<close> returns a truth value here.

  \<open>str_holds v s\<close> is the abstraction: \<open>v\<close> is a string whose characters are \<open>s\<close>.
\<close>

subsection \<open>Characters and pointers\<close>

type_synonym ch = "8 word"
type_synonym cstr = "ch vec"

datatype text_ptr = Ext "ch cells" | Self nat

definition ptr_cells :: "cstr \<Rightarrow> text_ptr \<Rightarrow> ch cells" where
  "ptr_cells v p = (case p of Ext c \<Rightarrow> c | Self k \<Rightarrow> drop k (vbuf v))"

definition text_ptr_add :: "text_ptr \<Rightarrow> nat \<Rightarrow> text_ptr" where
  "text_ptr_add p n = (case p of Ext c \<Rightarrow> Ext (drop n c) | Self k \<Rightarrow> Self (k + n))"

text \<open>\<open>memcpy\<close> from a pointer; \<open>moved\<close> is whether the string's block was reallocated since the
  pointer was made.\<close>

definition ptr_copy :: "bool \<Rightarrow> ch cells \<Rightarrow> nat \<Rightarrow> text_ptr \<Rightarrow> nat \<Rightarrow> ch cells res" where
  "ptr_copy moved b d p n = (case p of Ext c \<Rightarrow> mem_copy_from b d c 0 n
     | Self k \<Rightarrow> if moved then Inl UseAfterFree else mem_copy b d k n)"

fun memcmp_loop :: "ch cells \<Rightarrow> ch cells \<Rightarrow> nat \<Rightarrow> nat \<Rightarrow> int res" where
  "memcmp_loop x y i 0 = Inr 0"
| "memcmp_loop x y i (Suc n) = rbind (cell_get x i) (\<lambda>a. rbind (cell_get y i) (\<lambda>b.
     if a \<noteq> b then Inr (sint a - sint b) else memcmp_loop x y (Suc i) n))"

definition mymemcmp :: "ch cells \<Rightarrow> ch cells \<Rightarrow> nat \<Rightarrow> int res" where
  "mymemcmp x y n = memcmp_loop x y 0 n"

fun strlen_loop :: "ch cells \<Rightarrow> nat \<Rightarrow> nat res" where
  "strlen_loop [] i = Inl OutOfBounds"
| "strlen_loop (c # cs) i = (case c of None \<Rightarrow> Inl UninitRead
     | Some x \<Rightarrow> if x \<noteq> 0 then strlen_loop cs (sz (i + 1)) else Inr i)"

definition mystrlen :: "ch cells \<Rightarrow> nat res" where
  "mystrlen c = strlen_loop c 0"

text \<open>The length of a text argument: \<open>NPOS\<close> stands for ``up to the terminator''.\<close>

definition text_len :: "cstr \<Rightarrow> text_ptr \<Rightarrow> nat \<Rightarrow> nat res" where
  "text_len v p n = (if n = NPOS then mystrlen (ptr_cells v p) else Inr n)"

subsection \<open>Size and capacity\<close>

definition DEFAULT_CAPACITY :: nat where
  "DEFAULT_CAPACITY = 31"

definition str_expand :: "(nat \<Rightarrow> bool) \<Rightarrow> cstr \<Rightarrow> nat \<Rightarrow> bool \<times> cstr" where
  "str_expand mem v n = vec_expand mem 1 v (sz (n + 1))"

definition str_new_reserve :: "(nat \<Rightarrow> bool) \<Rightarrow> nat \<Rightarrow> cstr option res" where
  "str_new_reserve mem n = (case vec_new_reserve mem 1 (sz (n + 1)) of None \<Rightarrow> Inr None
     | Some v \<Rightarrow> rbind (vec_push_back mem 1 v 0) (\<lambda>(_, v1). Inr (Some v1)))"

definition str_new :: "(nat \<Rightarrow> bool) \<Rightarrow> cstr option res" where
  "str_new mem = str_new_reserve mem DEFAULT_CAPACITY"

definition str_clear :: "(nat \<Rightarrow> bool) \<Rightarrow> cstr \<Rightarrow> cstr res" where
  "str_clear mem v = rbind (vec_push_back mem 1 (vec_clear v) 0) (\<lambda>(_, v1). Inr v1)"

definition str_size :: "cstr \<Rightarrow> nat" where
  "str_size v = sz_sub (vsize v) 1"

definition str_length :: "cstr \<Rightarrow> nat" where
  "str_length v = sz_sub (vsize v) 1"

definition str_capacity :: "cstr \<Rightarrow> nat" where
  "str_capacity v = sz_sub (vcap v) 1"

definition str_reserve :: "(nat \<Rightarrow> bool) \<Rightarrow> cstr \<Rightarrow> nat \<Rightarrow> bool \<times> cstr" where
  "str_reserve mem v n = vec_reserve mem 1 v (sz (n + 1))"

definition str_shrink :: "(nat \<Rightarrow> bool) \<Rightarrow> cstr \<Rightarrow> nat \<Rightarrow> cstr" where
  "str_shrink mem v n = vec_shrink mem 1 v (sz (n + 1))"

definition str_empty :: "cstr \<Rightarrow> bool" where
  "str_empty v \<longleftrightarrow> vsize v = 1"

text \<open>\<open>c_str\<close> and \<open>data\<close> return the address of the first character, here the cells from there on.\<close>

definition str_c_str :: "cstr \<Rightarrow> ch cells" where
  "str_c_str v = vbuf v"

definition str_data :: "cstr \<Rightarrow> ch cells" where
  "str_data v = vbuf v"

definition str_at :: "cstr \<Rightarrow> nat \<Rightarrow> ch res" where
  "str_at v idx = cell_get (vbuf v) idx"

definition str_compare :: "cstr \<Rightarrow> cstr \<Rightarrow> int res" where
  "str_compare self x = (let len = str_size self; xlen = str_size x in
     rbind (mymemcmp (str_c_str self) (str_c_str x) (if len > xlen then xlen else len)) (\<lambda>ret.
       Inr (if ret \<noteq> 0 then ret else if len = xlen then 0 else if len > xlen then 1 else -1)))"

subsection \<open>Removing characters\<close>

definition str_erase :: "cstr \<Rightarrow> nat \<Rightarrow> nat \<Rightarrow> cstr res" where
  "str_erase v idx len0 = (let size' = str_size v;
     len = (if len0 > sz_sub size' idx then sz_sub size' idx else len0) in vec_erase v idx len)"

definition str_pop_back :: "cstr \<Rightarrow> cstr res" where
  "str_pop_back v = vec_erase v (sz_sub (str_size v) 1) 1"

definition str_resize :: "(nat \<Rightarrow> bool) \<Rightarrow> cstr \<Rightarrow> nat \<Rightarrow> ch \<Rightarrow> (bool \<times> cstr) res" where
  "str_resize mem v n c = (let num = sz_sub (vsize v) 1 in
     rbind (vec_resize mem 1 v (sz (n + 1)) c) (\<lambda>(ok, v1). if \<not> ok then Inr (False, v1) else
     rbind (if num < vsize v1 then cell_set (vbuf v1) num c else Inr (vbuf v1)) (\<lambda>b.
     rbind (cell_set b (sz_sub (vsize v1) 1) 0) (\<lambda>b1. Inr (True, v1\<lparr>vbuf := b1\<rparr>)))))"

definition str_swap :: "cstr \<Rightarrow> cstr \<Rightarrow> cstr \<times> cstr" where
  "str_swap self x = vec_swap self x"

subsection \<open>Inserting\<close>

definition str_insert_n_no_data :: "(nat \<Rightarrow> bool) \<Rightarrow> cstr \<Rightarrow> nat \<Rightarrow> nat \<Rightarrow> (bool \<times> cstr) res" where
  "str_insert_n_no_data mem v idx n = vec_insert_n_no_data mem 1 v idx n"

text \<open>The offset of a pointer that the code takes to be inside the string.\<close>

definition own_offset :: "cstr \<Rightarrow> text_ptr \<Rightarrow> nat option" where
  "own_offset v p = (case p of Ext c \<Rightarrow> None | Self k \<Rightarrow> if k < str_size v then Some k else None)"

definition str_insert_len ::
  "(nat \<Rightarrow> bool) \<Rightarrow> cstr \<Rightarrow> nat \<Rightarrow> text_ptr \<Rightarrow> nat \<Rightarrow> (bool \<times> cstr) res" where
  "str_insert_len mem v idx p n0 = (let size' = str_size v in rbind (text_len v p n0) (\<lambda>n.
     case own_offset v p of
       Some k \<Rightarrow>
         if str_capacity v < sz (size' + n) then
           if \<not> mem n then Inr (False, v) else
           rbind (mem_copy_from (replicate n None) 0 (ptr_cells v p) 0 n) (\<lambda>tmp.
           rbind (str_insert_n_no_data mem v idx n) (\<lambda>(ok, v1). if \<not> ok then Inr (False, v1) else
           rbind (mem_copy_from (vbuf v1) idx tmp 0 n) (\<lambda>b. Inr (True, v1\<lparr>vbuf := b\<rparr>))))
         else
           rbind (str_insert_n_no_data mem v idx n) (\<lambda>(_, v1).
           rbind (if idx \<le> k then mem_copy (vbuf v1) idx (sz (k + n)) n
             else if k < idx \<and> idx < sz (k + n) then
               rbind (mem_copy (vbuf v1) idx k (idx - k)) (\<lambda>b.
                 mem_copy b (sz (idx + (idx - k))) (sz (idx + n)) (sz_sub n (idx - k)))
             else mem_copy (vbuf v1) idx k n) (\<lambda>b. Inr (True, v1\<lparr>vbuf := b\<rparr>)))
     | None \<Rightarrow>
         rbind (str_insert_n_no_data mem v idx n) (\<lambda>(ok, v1). if \<not> ok then Inr (False, v1) else
         rbind (ptr_copy (vcap v1 \<noteq> vcap v) (vbuf v1) idx p n) (\<lambda>b. Inr (True, v1\<lparr>vbuf := b\<rparr>)))))"

definition str_insert :: "(nat \<Rightarrow> bool) \<Rightarrow> cstr \<Rightarrow> nat \<Rightarrow> text_ptr \<Rightarrow> (bool \<times> cstr) res" where
  "str_insert mem v idx p = str_insert_len mem v idx p NPOS"

text \<open>The loop \<open>for (i = 0; i < n; i++) self->buf[idx + i] = c;\<close>.\<close>

definition fill_chars :: "ch cells \<Rightarrow> nat \<Rightarrow> nat \<Rightarrow> ch \<Rightarrow> ch cells res" where
  "fill_chars b idx n c = rfold (\<lambda>b i. cell_set b (sz (idx + i)) c) b [0..<n]"

definition str_insert_c :: "(nat \<Rightarrow> bool) \<Rightarrow> cstr \<Rightarrow> nat \<Rightarrow> nat \<Rightarrow> ch \<Rightarrow> (bool \<times> cstr) res" where
  "str_insert_c mem v idx n c = rbind (str_insert_n_no_data mem v idx n) (\<lambda>(ok, v1).
     if \<not> ok then Inr (False, v1) else
     rbind (fill_chars (vbuf v1) idx n c) (\<lambda>b. Inr (True, v1\<lparr>vbuf := b\<rparr>)))"

definition str_append_len :: "(nat \<Rightarrow> bool) \<Rightarrow> cstr \<Rightarrow> text_ptr \<Rightarrow> nat \<Rightarrow> (bool \<times> cstr) res" where
  "str_append_len mem v p n0 = rbind (text_len v p n0) (\<lambda>n. str_insert_len mem v (str_size v) p n)"

definition str_append :: "(nat \<Rightarrow> bool) \<Rightarrow> cstr \<Rightarrow> text_ptr \<Rightarrow> (bool \<times> cstr) res" where
  "str_append mem v p = str_append_len mem v p NPOS"

definition str_append_c :: "(nat \<Rightarrow> bool) \<Rightarrow> cstr \<Rightarrow> nat \<Rightarrow> ch \<Rightarrow> (bool \<times> cstr) res" where
  "str_append_c mem v n c = str_insert_c mem v (str_size v) n c"

definition str_push_back :: "(nat \<Rightarrow> bool) \<Rightarrow> cstr \<Rightarrow> ch \<Rightarrow> (bool \<times> cstr) res" where
  "str_push_back mem v c = str_insert_c mem v (str_size v) 1 c"

subsection \<open>Assigning\<close>

text \<open>The vector's \<open>insert_array\<close> for a text that may lie in the string's own block.\<close>

definition text_insert_array ::
  "(nat \<Rightarrow> bool) \<Rightarrow> bool \<Rightarrow> cstr \<Rightarrow> nat \<Rightarrow> text_ptr \<Rightarrow> nat \<Rightarrow> (bool \<times> cstr) res" where
  "text_insert_array mem moved v idx p n = rbind (vec_insert_n_no_data mem 1 v idx n) (\<lambda>(ok, v1).
     if \<not> ok then Inr (False, v1) else
     rbind (ptr_copy (moved \<or> vcap v1 \<noteq> vcap v) (vbuf v1) idx p n) (\<lambda>b. Inr (True, v1\<lparr>vbuf := b\<rparr>)))"

definition str_assign_len :: "(nat \<Rightarrow> bool) \<Rightarrow> cstr \<Rightarrow> text_ptr \<Rightarrow> nat \<Rightarrow> (bool \<times> cstr) res" where
  "str_assign_len mem v p n0 = rbind (text_len v p n0) (\<lambda>n.
     case vec_expand mem 1 v (sz (n + 1)) of (ok, v1) \<Rightarrow> if \<not> ok then Inr (False, v1) else
     rbind (text_insert_array mem (vcap v1 \<noteq> vcap v) (vec_clear v1) 0 p n) (\<lambda>(_, v2).
     rbind (vec_push_back mem 1 v2 0) (\<lambda>(_, v3). Inr (True, v3))))"

definition str_assign :: "(nat \<Rightarrow> bool) \<Rightarrow> cstr \<Rightarrow> text_ptr \<Rightarrow> (bool \<times> cstr) res" where
  "str_assign mem v p = str_assign_len mem v p NPOS"

definition str_assign_c :: "(nat \<Rightarrow> bool) \<Rightarrow> cstr \<Rightarrow> nat \<Rightarrow> ch \<Rightarrow> (bool \<times> cstr) res" where
  "str_assign_c mem v n c = (case str_expand mem v n of (ok, v1) \<Rightarrow> if \<not> ok then Inr (False, v1) else
     rbind (str_clear mem v1) (\<lambda>v2. str_insert_c mem v2 0 n c))"

definition str_new_assign_len :: "(nat \<Rightarrow> bool) \<Rightarrow> ch cells \<Rightarrow> nat \<Rightarrow> cstr option res" where
  "str_new_assign_len mem chars n0 = rbind (if n0 = NPOS then mystrlen chars else Inr n0) (\<lambda>n.
     rbind (str_new_reserve mem n) (\<lambda>r. case r of None \<Rightarrow> Inr None
     | Some v \<Rightarrow> rbind (str_assign_len mem v (Ext chars) n) (\<lambda>(ok, v1). Inr (if ok then Some v1 else None))))"

definition str_new_assign :: "(nat \<Rightarrow> bool) \<Rightarrow> ch cells \<Rightarrow> cstr option res" where
  "str_new_assign mem chars = str_new_assign_len mem chars NPOS"

definition str_new_assign_c :: "(nat \<Rightarrow> bool) \<Rightarrow> nat \<Rightarrow> ch \<Rightarrow> cstr option res" where
  "str_new_assign_c mem n c = rbind (str_new_reserve mem n) (\<lambda>r. case r of None \<Rightarrow> Inr None
     | Some v \<Rightarrow> rbind (str_assign_c mem v n c) (\<lambda>(ok, v1). Inr (if ok then Some v1 else None)))"

subsection \<open>Replacing\<close>

text \<open>Cutting the rest of a replaced range off.\<close>

definition erase_rest :: "cstr \<Rightarrow> nat \<Rightarrow> nat \<Rightarrow> nat \<Rightarrow> (bool \<times> cstr) res" where
  "erase_rest v idx n len = (if n \<noteq> len
     then rbind (str_erase v (sz (idx + n)) (len - n)) (\<lambda>v1. Inr (True, v1)) else Inr (True, v))"

definition str_replace_len ::
  "(nat \<Rightarrow> bool) \<Rightarrow> cstr \<Rightarrow> nat \<Rightarrow> nat \<Rightarrow> text_ptr \<Rightarrow> nat \<Rightarrow> (bool \<times> cstr) res" where
  "str_replace_len mem v idx len0 p n0 = (let size' = str_size v;
     len = (if len0 > sz_sub size' idx then sz_sub size' idx else len0) in
     rbind (text_len v p n0) (\<lambda>n. case own_offset v p of
       Some k \<Rightarrow>
         if n \<le> len then
           rbind (mem_move (vbuf v) idx k n) (\<lambda>b. erase_rest (v\<lparr>vbuf := b\<rparr>) idx n len)
         else if str_capacity v < sz (size' + (n - len)) then
           if \<not> mem n then Inr (False, v) else
           rbind (mem_copy_from (replicate n None) 0 (ptr_cells v p) 0 n) (\<lambda>tmp.
           case str_expand mem v (sz (size' + (n - len))) of (ok, v1) \<Rightarrow> if \<not> ok then Inr (False, v1) else
           rbind (mem_copy_from (vbuf v1) idx tmp 0 len) (\<lambda>b.
           rbind (str_insert_len mem (v1\<lparr>vbuf := b\<rparr>) (sz (idx + len)) (Ext (drop len tmp)) (n - len)) (\<lambda>(_, v2).
             Inr (True, v2))))
         else if idx \<le> k then
           rbind (mem_move (vbuf v) idx k len) (\<lambda>b.
           rbind (str_insert_len mem (v\<lparr>vbuf := b\<rparr>) (sz (idx + len)) (Self (k + len)) (n - len)) (\<lambda>(_, v1).
             Inr (True, v1)))
         else
           rbind (str_insert_len mem v (sz (idx + len)) (Self (k + len)) (n - len)) (\<lambda>(_, v1).
           rbind (mem_move (vbuf v1) idx k len) (\<lambda>b. Inr (True, v1\<lparr>vbuf := b\<rparr>)))
     | None \<Rightarrow>
         if n \<le> len then
           rbind (ptr_copy False (vbuf v) idx p n) (\<lambda>b. erase_rest (v\<lparr>vbuf := b\<rparr>) idx n len)
         else
           case str_expand mem v (sz (str_size v + (n - len))) of (ok, v1) \<Rightarrow> if \<not> ok then Inr (False, v1) else
           rbind (ptr_copy (vcap v1 \<noteq> vcap v) (vbuf v1) idx p len) (\<lambda>b.
           rbind (str_insert_len mem (v1\<lparr>vbuf := b\<rparr>) (sz (idx + len)) (text_ptr_add p len) (n - len)) (\<lambda>(_, v2).
             Inr (True, v2)))))"

definition str_replace :: "(nat \<Rightarrow> bool) \<Rightarrow> cstr \<Rightarrow> nat \<Rightarrow> nat \<Rightarrow> text_ptr \<Rightarrow> (bool \<times> cstr) res" where
  "str_replace mem v idx len p = str_replace_len mem v idx len p NPOS"

definition str_replace_c ::
  "(nat \<Rightarrow> bool) \<Rightarrow> cstr \<Rightarrow> nat \<Rightarrow> nat \<Rightarrow> nat \<Rightarrow> ch \<Rightarrow> (bool \<times> cstr) res" where
  "str_replace_c mem v idx len0 n c = (let size' = str_size v;
     len = (if len0 > sz_sub size' idx then sz_sub size' idx else len0) in
     if n \<le> len then
       rbind (fill_chars (vbuf v) idx n c) (\<lambda>b. erase_rest (v\<lparr>vbuf := b\<rparr>) idx n len)
     else
       rbind (str_insert_n_no_data mem v idx (n - len)) (\<lambda>(ok, v1). if \<not> ok then Inr (False, v1) else
       rbind (fill_chars (vbuf v1) idx n c) (\<lambda>b. Inr (True, v1\<lparr>vbuf := b\<rparr>))))"

subsection \<open>The abstraction\<close>

definition str_holds :: "cstr \<Rightarrow> ch list \<Rightarrow> bool" where
  "str_holds v s \<longleftrightarrow> vec_holds v (s @ [0])"

text \<open>The characters a text argument denotes.\<close>

definition text_at :: "ch list \<Rightarrow> text_ptr \<Rightarrow> ch list \<Rightarrow> bool" where
  "text_at s p cs \<longleftrightarrow> (case p of Ext c \<Rightarrow> take (length cs) c = map Some cs
     | Self k \<Rightarrow> k < length s \<and> k + length cs \<le> length s \<and> cs = take (length cs) (drop k s))"

lemma str_holdsE:
  assumes "str_holds v s"
  shows "vec_holds v (s @ [0])" "vsize v = Suc (length s)" "str_size v = length s"
    "length s < vcap v" "str_capacity v = vcap v - 1" "Suc (length s) < NPOS" "vcap v < NPOS"
    "Suc (length s) \<le> length (vbuf v)"
  using assms by (auto simp: str_holds_def vec_holds_def str_size_def str_capacity_def)

lemma str_cells:
  assumes "str_holds v s"
  shows "take (Suc (length s)) (vbuf v) = map Some (s @ [0])"
  by (rule nth_equalityI)
     (use assms in \<open>auto simp: str_holds_def vec_holds_def simp del: map_append\<close>)

lemma str_cells_range:
  assumes "str_holds v s" "k + n \<le> length s"
  shows "take n (drop k (vbuf v)) = map Some (take n (drop k s))"
proof -
  have "take n (drop k (take (Suc (length s)) (vbuf v))) = take n (drop k (vbuf v))"
    using assms(2) by (simp add: drop_take min_def)
  then have "take n (drop k (vbuf v)) = map Some (take n (drop k (s @ [0])))"
    unfolding str_cells [OF assms(1)] by (simp add: take_map drop_map del: map_append)
  then show ?thesis using assms(2) by (cases n) auto
qed

lemma strlen_loop_text:
  "0 \<notin> set s \<Longrightarrow> i + length s \<le> NPOS \<Longrightarrow> strlen_loop (map Some s @ Some 0 # rest) i = Inr (i + length s)"
  by (induction s arbitrary: i) (auto simp: sz_id)

lemma mystrlen_text: "0 \<notin> set s \<Longrightarrow> length s \<le> NPOS \<Longrightarrow> mystrlen (map Some s @ Some 0 # rest) = Inr (length s)"
  by (simp add: mystrlen_def strlen_loop_text)

text \<open>Storing characters over others.\<close>

lemma vec_overwrite:
  assumes "vec_holds v xs" "d + length ys \<le> length xs"
  shows "vec_holds (v\<lparr>vbuf := put_cells (vbuf v) d (map Some ys)\<rparr>) (take d xs @ ys @ drop (d + length ys) xs)"
  using assms by (auto simp: vec_holds_def length_put_cells nth_put_cells nth_append min_def)

lemma str_overwrite:
  assumes "str_holds v s" "d + length ys \<le> length s"
  shows "str_holds (v\<lparr>vbuf := put_cells (vbuf v) d (map Some ys)\<rparr>) (take d s @ ys @ drop (d + length ys) s)"
  using vec_overwrite [of v "s @ [0]" d ys] assms by (simp add: str_holds_def)

lemma str_length_bound: "str_holds v s \<Longrightarrow> n \<le> length s \<Longrightarrow> n \<le> length (vbuf v)"
  by (auto simp: str_holds_def vec_holds_def)

lemma fill_chars_put:
  assumes "idx + n \<le> length b" "idx + n \<le> NPOS"
  shows "fill_chars b idx n c = Inr (put_cells b idx (map Some (replicate n c)))"
  using fill_cells [where n = n and b = b and d = idx and f = "\<lambda>i. c" and g = "\<lambda>b i. Inr c"] assms
  by (simp add: fill_chars_def map_replicate_const)

subsection \<open>Size, comparison, erasing\<close>

lemma str_queries:
  assumes "str_holds v s"
  shows "str_size v = length s" "str_length v = length s" "str_empty v = (s = [])"
    "i < length s \<Longrightarrow> str_at v i = Inr (s ! i)" "length s \<le> str_capacity v"
    "0 \<notin> set s \<Longrightarrow> mystrlen (str_c_str v) = Inr (length s)"
proof -
  note h = str_holdsE [OF assms]
  show "str_size v = length s" "str_length v = length s" "str_empty v = (s = [])" "length s \<le> str_capacity v"
    using h by (auto simp: str_length_def str_empty_def)
  show "str_at v i = Inr (s ! i)" if "i < length s"
    using assms that by (auto simp: str_at_def str_holds_def vec_holds_def cell_get_def nth_append)
  have "vbuf v = take (Suc (length s)) (vbuf v) @ drop (Suc (length s)) (vbuf v)" by simp
  then have "vbuf v = map Some s @ Some 0 # drop (Suc (length s)) (vbuf v)"
    unfolding str_cells [OF assms] by simp
  then show "mystrlen (str_c_str v) = Inr (length s)" if "0 \<notin> set s"
    using mystrlen_text [OF that] h(6) unfolding str_c_str_def by (metis Suc_leD less_imp_le)
qed

lemma str_clear_correct:
  assumes "str_holds v s"
  shows "\<exists>v'. str_clear mem v = Inr v' \<and> str_holds v' [] \<and> vcap v' = vcap v"
proof -
  have "vec_holds (vec_clear v) []" "0 < vcap v"
    using str_holdsE [OF assms] vec_items(7) [OF str_holdsE(1) [OF assms]] by auto
  with vec_store_end [of "vec_clear v" "[]" 0] show ?thesis
    by (auto simp: str_clear_def vec_push_back_def vec_push_back_ref_def vec_expand_room sz_id NPOS_def
        src_read_def str_holds_def vec_clear_def)
qed

lemma str_new_reserve_correct:
  assumes "n < NPOS"
  shows "\<exists>r. str_new_reserve mem n = Inr r \<and> (case r of None \<Rightarrow> True | Some v \<Rightarrow> str_holds v [] \<and> n < vcap v)"
proof (cases "vec_new_reserve mem 1 (n + 1) :: cstr option")
  case None
  then show ?thesis using assms by (intro exI [of _ None]) (simp add: str_new_reserve_def sz_id)
next
  case (Some v)
  then obtain v0 where v0: "vec_new mem = Some v0" "vec_reserve mem 1 v0 (n + 1) = (True, v)"
    by (auto simp: vec_new_reserve_def split: option.splits prod.splits if_splits)
  obtain ok v1 where "vec_reserve mem 1 v0 (n + 1) = (ok, v1)" "vec_holds v1 []" "ok \<longrightarrow> n + 1 \<le> vcap v1"
    by (rule vec_reserve_correct [OF vec_new_correct [OF v0(1)], where mem = mem and ts = 1 and n = "n + 1"])
  with v0(2) have v: "vec_holds v []" "n < vcap v" by auto
  with vec_store_end [of v "[]" 0] Some assms show ?thesis
    by (auto simp: str_new_reserve_def sz_id vec_push_back_def vec_push_back_ref_def vec_expand_room NPOS_def
        src_read_def str_holds_def vec_holds_def)
qed

lemma str_erase_correct:
  assumes "str_holds v s" "idx \<le> length s"
  shows "\<exists>v'. str_erase v idx len = Inr v' \<and> str_holds v' (take idx s @ drop (idx + len) s)"
proof -
  let ?n = "min len (length s - idx)"
  have "(if len > sz_sub (str_size v) idx then sz_sub (str_size v) idx else len) = ?n"
    using assms by (simp add: str_holdsE min_def)
  moreover have "drop (idx + ?n) (s @ [0]) = drop (idx + len) s @ [0]"
    using assms(2) by (auto simp: min_def)
  ultimately show ?thesis
    using vec_erase_correct [of v "s @ [0]" idx ?n] assms by (auto simp: str_erase_def Let_def str_holds_def)
qed

lemma str_pop_back_correct:
  assumes "str_holds v (s @ [c])"
  shows "\<exists>v'. str_pop_back v = Inr v' \<and> str_holds v' s"
  using vec_erase_correct [of v "(s @ [c]) @ [0]" "length s" 1] assms
  by (auto simp: str_pop_back_def str_holdsE(3) [OF assms] str_holds_def)

lemma erase_rest_correct:
  assumes "str_holds v (take idx s @ cs @ drop (idx + length cs) s)" "length cs \<le> len" "idx + len \<le> length s"
  shows "\<exists>v'. erase_rest v idx (length cs) len = Inr (True, v') \<and> str_holds v' (take idx s @ cs @ drop (idx + len) s)"
proof (cases "length cs = len")
  case True
  with assms show ?thesis by (auto simp: erase_rest_def)
next
  case False
  have s: "sz (idx + length cs) = idx + length cs"
    using assms str_holdsE(6) [OF assms(1)] by (intro sz_id) simp
  have "drop (idx + length cs + (len - length cs)) (take idx s @ cs @ drop (idx + length cs) s) = drop (idx + len) s"
    using assms(2,3) by (simp add: add.commute)
  with str_erase_correct [OF assms(1), of "idx + length cs" "len - length cs"] False s assms(2,3)
  show ?thesis by (auto simp: erase_rest_def)
qed


subsection \<open>Inserting\<close>

lemma str_insert_via_gap:
  assumes "str_holds v s" "idx \<le> length s" "length s + length cs < NPOS"
    and "\<And>v1. vec_gap v1 (s @ [0]) idx (length cs) \<Longrightarrow> f v1 = Inr (put_cells (vbuf v1) idx (map Some cs))"
  shows "\<exists>ok v'. rbind (str_insert_n_no_data mem v idx (length cs)) (\<lambda>(ok, v1).
      if \<not> ok then Inr (False, v1) else rbind (f v1) (\<lambda>b. Inr (True, v1\<lparr>vbuf := b\<rparr>))) = Inr (ok, v') \<and>
    str_holds v' (if ok then take idx s @ cs @ drop idx s else s) \<and> (length s + length cs < vcap v \<longrightarrow> ok)"
proof -
  have le: "length (s @ [0]) + length cs \<le> NPOS" "idx \<le> length (s @ [0])" using assms(2,3) by auto
  obtain ok v1 where g: "vec_insert_n_no_data mem 1 v idx (length cs) = Inr (ok, v1)"
      "ok \<longrightarrow> vec_gap v1 (s @ [0]) idx (length cs)" "\<not> ok \<longrightarrow> v1 = v"
      "length (s @ [0]) + length cs \<le> vcap v \<longrightarrow> ok \<and> vcap v1 = vcap v"
    by (rule vec_insert_n_no_data_correct [OF str_holdsE(1) [OF assms(1)] le(2,1)])
  show ?thesis
  proof (cases ok)
    case True
    with g vec_fill_gap [of v1 "s @ [0]" idx "length cs" cs] assms(2) assms(4) [of v1] show ?thesis
      by (auto simp: str_insert_n_no_data_def str_holds_def)
  qed (use g assms(1) in \<open>auto simp: str_insert_n_no_data_def\<close>)
qed

text \<open>The copies that the code makes of a text: all of it, or the part from \<open>off\<close> on.\<close>

lemma copy_text_ext:
  assumes "take (length cs) c = map Some cs" "d + n \<le> length b" "n \<le> length cs"
  shows "mem_copy_from b d c 0 n = Inr (put_cells b d (map Some (take n cs)))"
proof -
  have "length cs \<le> length c" using assms(1) by (metis length_map length_take min.cobounded1 min_def)
  moreover have "take n c = map Some (take n cs)"
    using assms(1,3) by (metis min.absorb1 take_map take_take)
  ultimately show ?thesis using assms(2,3) by (simp add: mem_copy_from_def)
qed

lemma copy_text_tmp:
  assumes "str_holds v s" "k + n \<le> length s"
  shows "mem_copy_from (replicate n None) 0 (ptr_cells v (Self k)) 0 n = Inr (map Some (take n (drop k s)))"
  using str_cells_range [OF assms] str_holdsE(8) [OF assms(1)] assms(2)
  by (simp add: mem_copy_from_def ptr_cells_def put_cells_def)

lemma str_insert_len_correct:
  assumes h: "str_holds v s" and idx: "idx \<le> length s" and len: "text_len v p n0 = Inr (length cs)"
    and at: "text_at s p cs" and fits: "length s + length cs < NPOS"
  shows "\<exists>ok v'. str_insert_len mem v idx p n0 = Inr (ok, v') \<and>
    str_holds v' (if ok then take idx s @ cs @ drop idx s else s) \<and> (length s + length cs < vcap v \<longrightarrow> ok)"
proof (cases p)
  case (Ext c)
  have "ptr_copy (vcap v1 \<noteq> vcap v) (vbuf v1) idx p (length cs) = Inr (put_cells (vbuf v1) idx (map Some cs))"
    if "vec_gap v1 (s @ [0]) idx (length cs)" for v1
    using copy_text_ext [of cs c idx "length cs" "vbuf v1"] vec_gap_cells(3) [OF that] idx at Ext
    by (simp add: ptr_copy_def text_at_def)
  note via = str_insert_via_gap [OF h idx fits this, where mem = mem]
  have "own_offset v p = None" using Ext by (simp add: own_offset_def)
  with via show ?thesis by (simp only: str_insert_len_def len rbind_Inr Let_def option.case)
next
  case (Self k)
  then have k: "k < length s" "k + length cs \<le> length s" "cs = take (length cs) (drop k s)"
    using at by (auto simp: text_at_def)
  have own: "own_offset v p = Some k" using Self k h by (simp add: own_offset_def str_holdsE)
  have s1: "sz (length s + length cs) = length s + length cs" using fits by (simp add: sz_id)
  show ?thesis
  proof (cases "vcap v \<le> length s + length cs")
    case True
    then have c: "str_capacity v < length s + length cs" using str_holdsE(4,5) [OF h] by linarith
    have fill: "mem_copy_from (vbuf v1) idx (map Some cs) 0 (length cs) = Inr (put_cells (vbuf v1) idx (map Some cs))"
      if "vec_gap v1 (s @ [0]) idx (length cs)" for v1
      using copy_text_ext [of cs "map Some cs" idx "length cs" "vbuf v1"] vec_gap_cells(3) [OF that] idx by simp
    have body: "\<exists>ok v'. rbind (str_insert_n_no_data mem v idx (length cs)) (\<lambda>(ok, v1). if \<not> ok then Inr (False, v1)
        else rbind (mem_copy_from (vbuf v1) idx (map Some cs) 0 (length cs)) (\<lambda>b. Inr (True, v1\<lparr>vbuf := b\<rparr>))) = Inr (ok, v') \<and>
      str_holds v' (if ok then take idx s @ cs @ drop idx s else s) \<and> (length s + length cs < vcap v \<longrightarrow> ok)"
      by (rule str_insert_via_gap [OF h idx fits]) (rule fill)
    have tmp: "mem_copy_from (replicate (length cs) None) 0 (ptr_cells v p) 0 (length cs) = Inr (map Some cs)"
      using copy_text_tmp [OF h k(2)] k(3) Self by simp
    show ?thesis
    proof (cases "mem (length cs)")
      case True
      with body c tmp show ?thesis
        using \<open>vcap v \<le> length s + length cs\<close> by (simp add: str_insert_len_def len own s1 str_holdsE(3) [OF h])
    next
      case False
      with c h \<open>vcap v \<le> length s + length cs\<close> show ?thesis
        by (intro exI [of _ False]) (simp add: str_insert_len_def len own s1 str_holdsE(3) [OF h])
    qed
  next
    case False
    then have c: "\<not> str_capacity v < length s + length cs" using str_holdsE(4,5) [OF h] by linarith
    have le: "length (s @ [0]) + length cs \<le> NPOS" "idx \<le> length (s @ [0])" "k + length cs \<le> length (s @ [0])"
      using idx fits k by auto
    obtain ok v1 where g: "vec_insert_n_no_data mem 1 v idx (length cs) = Inr (ok, v1)"
        "ok \<longrightarrow> vec_gap v1 (s @ [0]) idx (length cs)"
        "length (s @ [0]) + length cs \<le> vcap v \<longrightarrow> ok \<and> vcap v1 = vcap v"
      by (rule vec_insert_n_no_data_correct [OF str_holdsE(1) [OF h] le(2,1)])
    then have gap: "vec_gap v1 (s @ [0]) idx (length cs)" using False by auto
    have t: "take (length cs) (drop k (s @ [0])) = cs" using k by simp
    note copy = vec_self_copy [OF gap le(3,1), unfolded t]
    have "str_holds (v1\<lparr>vbuf := put_cells (vbuf v1) idx (map Some cs)\<rparr>) (take idx s @ cs @ drop idx s)"
      using vec_fill_gap [OF gap, of cs] idx by (simp add: str_holds_def)
    with copy c g(1) show ?thesis
      by (intro exI [of _ True] exI [of _ "v1\<lparr>vbuf := put_cells (vbuf v1) idx (map Some cs)\<rparr>"])
         (simp add: str_insert_len_def len own s1 str_holdsE(3) [OF h] str_insert_n_no_data_def)
  qed
qed

lemma str_insert_c_correct:
  assumes "str_holds v s" "idx \<le> length s" "length s + n < NPOS"
  shows "\<exists>ok v'. str_insert_c mem v idx n c = Inr (ok, v') \<and>
    str_holds v' (if ok then take idx s @ replicate n c @ drop idx s else s) \<and> (length s + n < vcap v \<longrightarrow> ok)"
proof -
  have fill: "fill_chars (vbuf v1) idx n c = Inr (put_cells (vbuf v1) idx (map Some (replicate n c)))"
    if "vec_gap v1 (s @ [0]) idx (length (replicate n c))" for v1
    using vec_gap_cells(3) [OF that] assms by (intro fill_chars_put) auto
  have len: "length s + length (replicate n c) < NPOS" using assms(3) by simp
  from str_insert_via_gap [OF assms(1,2) len fill, where mem = mem]
  show ?thesis by (simp add: str_insert_c_def)
qed

lemma str_append_len_correct:
  assumes "str_holds v s" "text_len v p n0 = Inr (length cs)" "text_at s p cs" "length s + length cs < NPOS"
  shows "\<exists>ok v'. str_append_len mem v p n0 = Inr (ok, v') \<and> str_holds v' (if ok then s @ cs else s) \<and>
    (length s + length cs < vcap v \<longrightarrow> ok)"
proof -
  have "text_len v p (length cs) = Inr (length cs)" using assms(4) by (simp add: text_len_def)
  from str_insert_len_correct [OF assms(1) order_refl this assms(3,4), where mem = mem]
  show ?thesis by (simp add: str_append_len_def assms(2) str_holdsE(3) [OF assms(1)] cong: if_cong)
qed

lemma str_push_back_correct:
  assumes "str_holds v s" "Suc (length s) < NPOS"
  shows "\<exists>ok v'. str_push_back mem v c = Inr (ok, v') \<and> str_holds v' (if ok then s @ [c] else s) \<and>
    (Suc (length s) < vcap v \<longrightarrow> ok)"
  using str_insert_c_correct [OF assms(1) order_refl, where mem = mem and n = 1 and c = c] assms(2)
  by (simp add: str_push_back_def str_holdsE(3) [OF assms(1)] cong: if_cong)


subsection \<open>Assigning and changing the size\<close>

lemma str_expand_correct:
  assumes "str_holds v s" "n < NPOS"
  obtains ok v' where "str_expand mem v n = (ok, v')" "str_holds v' s" "ok \<longrightarrow> n < vcap v'" "\<not> ok \<longrightarrow> v' = v"
proof -
  obtain ok v' where "vec_expand mem 1 v (n + 1) = (ok, v')" "vec_holds v' (s @ [0])" "ok \<longrightarrow> n + 1 \<le> vcap v'"
      "\<not> ok \<longrightarrow> v' = v"
    by (rule vec_expand_correct [OF str_holdsE(1) [OF assms(1)], where mem = mem and ts = 1 and n = "n + 1"])
  with assms(2) show ?thesis by (intro that [of ok v']) (auto simp: str_expand_def sz_id str_holds_def)
qed

lemma str_assign_len_ext:
  assumes "str_holds v s" "text_len v (Ext c) n0 = Inr (length cs)" "take (length cs) c = map Some cs"
    "length cs < NPOS"
  shows "\<exists>ok v'. str_assign_len mem v (Ext c) n0 = Inr (ok, v') \<and> str_holds v' (if ok then cs else s) \<and>
    (length cs < vcap v \<longrightarrow> ok)"
proof -
  obtain ok v1 where e: "vec_expand mem 1 v (length cs + 1) = (ok, v1)" "vec_holds v1 (s @ [0])"
      "ok \<longrightarrow> length cs + 1 \<le> vcap v1" "\<not> ok \<longrightarrow> v1 = v"
    by (rule vec_expand_correct [OF str_holdsE(1) [OF assms(1)], where mem = mem and ts = 1 and n = "length cs + 1"])
  have ok: "length cs < vcap v \<longrightarrow> ok" using vec_expand_room [of "length cs + 1" v mem 1] e(1) by auto
  have s1: "sz (length cs + 1) = length cs + 1" using assms(4) by (simp add: sz_id)
  show ?thesis
  proof (cases ok)
    case False
    with e s1 ok assms(1,2) show ?thesis
      by (intro exI [of _ False] exI [of _ v]) (simp add: str_assign_len_def)
  next
    case True
    have c: "vec_holds (vec_clear v1) []" "vcap (vec_clear v1) = vcap v1"
      using vec_items(7) [OF e(2)] by (auto simp: vec_clear_def)
    have le: "length [] + length cs \<le> NPOS" using assms(4) by simp
    obtain ok2 v2 where g: "vec_insert_n_no_data mem 1 (vec_clear v1) 0 (length cs) = Inr (ok2, v2)"
        "ok2 \<longrightarrow> vec_gap v2 [] 0 (length cs)"
        "length [] + length cs \<le> vcap (vec_clear v1) \<longrightarrow> ok2 \<and> vcap v2 = vcap (vec_clear v1)"
      by (rule vec_insert_n_no_data_correct [OF c(1) _ le, where mem = mem and ts = 1 and idx = 0]) auto
    then have ok2: ok2 and gap: "vec_gap v2 [] 0 (length cs)" and cap: "vcap v2 = vcap v1" using e(3) c(2) True by auto
    let ?v3 = "v2\<lparr>vbuf := put_cells (vbuf v2) 0 (map Some cs)\<rparr>"
    have "vec_holds ?v3 cs" using vec_fill_gap [OF gap, of cs] by simp
    moreover have "mem_copy_from (vbuf v2) 0 c 0 (length cs) = Inr (put_cells (vbuf v2) 0 (map Some cs))"
      using copy_text_ext [OF assms(3), of 0 "length cs" "vbuf v2"] vec_gap_cells(3) [OF gap] by simp
    ultimately have ins: "text_insert_array mem (vcap v1 \<noteq> vcap v) (vec_clear v1) 0 (Ext c) (length cs) = Inr (True, ?v3)"
      and "vec_holds ?v3 cs" "length cs < vcap ?v3"
      using g(1) ok2 cap e(3) True by (auto simp: text_insert_array_def ptr_copy_def)
    with vec_push_back_correct [of ?v3 cs mem 1 0] obtain v4 where
      "vec_push_back mem 1 ?v3 0 = Inr (True, v4)" "vec_holds v4 (cs @ [0])" by auto
    then show ?thesis
      using e(1) s1 assms(2) ins True
      by (intro exI [of _ True] exI [of _ v4]) (simp add: str_assign_len_def str_holds_def)
  qed
qed

text \<open>Assigning a string a part of itself needs no new block, but the \<open>memcpy\<close> of \<open>insert_array\<close> then
  copies between overlapping regions, unless the part lies behind its own copy.\<close>

lemma str_assign_own_overlap:
  assumes "str_holds v s" "0 < n" "k < n" "k + n \<le> length s"
  shows "str_assign_len mem v (Self k) n = Inl Overlap"
proof -
  note h = str_holdsE [OF assms(1)]
  have n: "n \<noteq> NPOS" "n + 1 \<le> vcap v" "sz (n + 1) = n + 1" using h assms by (auto simp: sz_id)
  have c: "vec_holds (vec_clear v) []" "vcap (vec_clear v) = vcap v" "n \<le> vcap v"
    using vec_items(7) [OF h(1)] n by (auto simp: vec_clear_def)
  have le: "length [] + n \<le> NPOS" using n(2) h(7) by simp
  obtain ok2 v2 where g: "vec_insert_n_no_data mem 1 (vec_clear v) 0 n = Inr (ok2, v2)"
      "length [] + n \<le> vcap (vec_clear v) \<longrightarrow> ok2 \<and> vcap v2 = vcap (vec_clear v)"
    by (rule vec_insert_n_no_data_correct [OF c(1) _ le, where mem = mem and ts = 1 and idx = 0]) auto
  with c have "ok2" "vcap v2 = vcap v" by auto
  with g(1) c assms(2,3) n show ?thesis
    by (simp add: str_assign_len_def text_len_def vec_expand_room text_insert_array_def ptr_copy_def mem_copy_def)
qed

lemma str_assign_c_correct:
  assumes "str_holds v s" "n < NPOS"
  shows "\<exists>ok v'. str_assign_c mem v n c = Inr (ok, v') \<and> str_holds v' (if ok then replicate n c else s)"
proof -
  obtain ok v1 where e: "str_expand mem v n = (ok, v1)" "str_holds v1 s" "ok \<longrightarrow> n < vcap v1" "\<not> ok \<longrightarrow> v1 = v"
    by (rule str_expand_correct [OF assms, where mem = mem])
  show ?thesis
  proof (cases ok)
    case False
    with e assms(1) show ?thesis by (intro exI [of _ False] exI [of _ v]) (simp add: str_assign_c_def)
  next
    case True
    obtain v2 where v2: "str_clear mem v1 = Inr v2" "str_holds v2 []" "vcap v2 = vcap v1"
      using str_clear_correct [OF e(2)] by blast
    have "length [] + n < NPOS" using assms(2) by simp
    from str_insert_c_correct [OF v2(2) le0 this, where mem = mem and c = c] obtain v3 where
      "str_insert_c mem v2 0 n c = Inr (True, v3)" "str_holds v3 (replicate n c)"
      using e(3) True v2(3) by auto
    with e(1) True v2(1) show ?thesis
      by (intro exI [of _ True] exI [of _ v3]) (simp add: str_assign_c_def)
  qed
qed

lemma str_new_assign_len_correct:
  assumes "(if n0 = NPOS then mystrlen c else Inr n0) = Inr (length cs)" "take (length cs) c = map Some cs"
    "length cs < NPOS"
  shows "\<exists>r. str_new_assign_len mem c n0 = Inr r \<and> (case r of None \<Rightarrow> True | Some v \<Rightarrow> str_holds v cs)"
proof -
  obtain r where r: "str_new_reserve mem (length cs) = Inr r"
      "case r of None \<Rightarrow> True | Some v \<Rightarrow> str_holds v [] \<and> length cs < vcap v"
    using str_new_reserve_correct [OF assms(3)] by blast
  show ?thesis
  proof (cases r)
    case None
    with r assms(1) show ?thesis by (simp add: str_new_assign_len_def)
  next
    case (Some v)
    with r have v: "str_holds v []" "length cs < vcap v" by auto
    have "text_len v (Ext c) (length cs) = Inr (length cs)" using assms(3) by (simp add: text_len_def)
    from str_assign_len_ext [OF v(1) this assms(2,3), where mem = mem] v(2) obtain v1 where
      "str_assign_len mem v (Ext c) (length cs) = Inr (True, v1)" "str_holds v1 cs" by auto
    with r(1) assms(1) Some show ?thesis by (simp add: str_new_assign_len_def)
  qed
qed

lemma str_resize_correct:
  assumes "str_holds v s" "n < NPOS"
  shows "\<exists>ok v'. str_resize mem v n c = Inr (ok, v') \<and>
    str_holds v' (if ok then take n s @ replicate (n - length s) c else s)"
proof -
  note h = str_holdsE [OF assms(1)]
  have "n + 1 \<le> NPOS" using assms(2) by simp
  from vec_resize_correct [OF h(1) this, of mem 1 c] obtain ok v1 where
    r: "vec_resize mem 1 v (n + 1) c = Inr (ok, v1)"
      "vec_holds v1 (if ok then take (n + 1) (s @ [0]) @ replicate (n + 1 - length (s @ [0])) c else s @ [0])" by blast
  show ?thesis
  proof (cases ok)
    case False
    with r assms show ?thesis
      by (intro exI [of _ False] exI [of _ v1]) (simp add: str_resize_def sz_id str_holds_def)
  next
    case True
    let ?xs = "take (n + 1) (s @ [0]) @ replicate (n - length s) c"
    have v1: "vec_holds v1 ?xs" using r(2) True by simp
    then have sz1: "vsize v1 = n + 1" and b: "n + 1 \<le> length (vbuf v1)" by (auto simp: vec_holds_def)
    let ?b = "if length s \<le> n then (vbuf v1)[length s := Some c] else vbuf v1"
    have "str_resize mem v n c = Inr (True, v1\<lparr>vbuf := ?b[n := Some 0]\<rparr>)"
      using r(1) True assms(2) sz1 b h(2) by (auto simp: str_resize_def sz_id cell_set_def Let_def)
    moreover have "str_holds (v1\<lparr>vbuf := ?b[n := Some 0]\<rparr>) (take n s @ replicate (n - length s) c)"
      using v1 by (auto simp: str_holds_def vec_holds_def nth_append nth_list_update less_Suc_eq min_def)
    ultimately show ?thesis using True by (intro exI [of _ True] exI) simp
  qed
qed


subsection \<open>Replacing\<close>

lemma move_own_text:
  assumes "str_holds v s" "k + n \<le> length s" "idx + n \<le> length s"
  shows "mem_move (vbuf v) idx k n = Inr (put_cells (vbuf v) idx (map Some (take n (drop k s))))"
  using str_cells_range [OF assms(1,2)] str_holdsE(8) [OF assms(1)] assms(2,3) by (simp add: mem_move_def)

text \<open>The last step of the growing branches: the first \<open>len\<close> characters are in place and the others
  are inserted behind them.\<close>

lemma str_replace_tail:
  assumes "str_holds v (take idx s @ take len cs @ drop (idx + len) s)" "len < length cs" "idx + len \<le> length s"
    "text_at (take idx s @ take len cs @ drop (idx + len) s) p (drop len cs)"
    "length s + (length cs - len) < NPOS" "length s + (length cs - len) < vcap v"
  shows "\<exists>v'. str_insert_len mem v (sz (idx + len)) p (length cs - len) = Inr (True, v') \<and>
    str_holds v' (take idx s @ cs @ drop (idx + len) s)"
proof -
  let ?s = "take idx s @ take len cs @ drop (idx + len) s"
  have l: "length ?s = length s" using assms(2,3) by simp
  have s1: "sz (idx + len) = idx + len" using assms(3,5) by (intro sz_id) simp
  have "text_len v p (length cs - len) = Inr (length (drop len cs))" using assms(5) by (simp add: text_len_def)
  from str_insert_len_correct [OF assms(1) _ this assms(4), where mem = mem and idx = "idx + len", unfolded l]
  obtain v' where v': "str_insert_len mem v (idx + len) p (length cs - len) = Inr (True, v')"
      "str_holds v' (take (idx + len) ?s @ drop len cs @ drop (idx + len) ?s)"
    using assms by auto
  have "take (idx + len) ?s @ drop len cs @ drop (idx + len) ?s = take idx s @ cs @ drop (idx + len) s"
  proof -
    have "length (take idx s @ take len cs) = idx + len" using assms(2,3) by simp
    then have "take (idx + len) ?s = take idx s @ take len cs" "drop (idx + len) ?s = drop (idx + len) s"
      by (metis append.assoc append_eq_conv_conj)+
    then show ?thesis using append_take_drop_id [of len cs] by (metis append.assoc)
  qed
  with v' s1 show ?thesis by auto
qed

lemma str_replace_ext:
  assumes h: "str_holds v s" and idx: "idx + len \<le> length s" and c: "take (length cs) c = map Some cs"
    and fits: "length s + length cs < NPOS"
  shows "\<exists>ok v'. (if length cs \<le> len then
       rbind (ptr_copy False (vbuf v) idx (Ext c) (length cs)) (\<lambda>b. erase_rest (v\<lparr>vbuf := b\<rparr>) idx (length cs) len)
     else case str_expand mem v (sz (length s + (length cs - len))) of (ok, v1) \<Rightarrow> if \<not> ok then Inr (False, v1) else
       rbind (ptr_copy (vcap v1 \<noteq> vcap v) (vbuf v1) idx (Ext c) len) (\<lambda>b.
       rbind (str_insert_len mem (v1\<lparr>vbuf := b\<rparr>) (sz (idx + len)) (text_ptr_add (Ext c) len) (length cs - len))
         (\<lambda>(_, v2). Inr (True, v2)))) = Inr (ok, v') \<and>
    str_holds v' (if ok then take idx s @ cs @ drop (idx + len) s else s)"
proof (cases "length cs \<le> len")
  case True
  have "ptr_copy False (vbuf v) idx (Ext c) (length cs) = Inr (put_cells (vbuf v) idx (map Some cs))"
    using copy_text_ext [OF c, of idx "length cs" "vbuf v"] str_holdsE(8) [OF h] idx True by (simp add: ptr_copy_def)
  moreover have "str_holds (v\<lparr>vbuf := put_cells (vbuf v) idx (map Some cs)\<rparr>) (take idx s @ cs @ drop (idx + length cs) s)"
    using str_overwrite [OF h, of idx cs] idx True by simp
  from erase_rest_correct [OF this True idx] calculation True show ?thesis by auto
next
  case False
  have n: "length s + (length cs - len) < NPOS" using fits by simp
  obtain ok v1 where e: "str_expand mem v (length s + (length cs - len)) = (ok, v1)" "str_holds v1 s"
      "ok \<longrightarrow> length s + (length cs - len) < vcap v1" "\<not> ok \<longrightarrow> v1 = v"
    by (rule str_expand_correct [OF h n, where mem = mem])
  have s1: "sz (length s + (length cs - len)) = length s + (length cs - len)" using n by (simp add: sz_id)
  show ?thesis
  proof (cases ok)
    case no: False
    with e s1 h False show ?thesis by (intro exI [of _ False] exI [of _ v]) simp
  next
    case True
    let ?v2 = "v1\<lparr>vbuf := put_cells (vbuf v1) idx (map Some (take len cs))\<rparr>"
    have copy: "ptr_copy (vcap v1 \<noteq> vcap v) (vbuf v1) idx (Ext c) len = Inr (put_cells (vbuf v1) idx (map Some (take len cs)))"
      using copy_text_ext [OF c, of idx len "vbuf v1"] str_holdsE(8) [OF e(2)] idx False by (simp add: ptr_copy_def)
    have v2: "str_holds ?v2 (take idx s @ take len cs @ drop (idx + len) s)"
      using str_overwrite [OF e(2), of idx "take len cs"] idx False by (simp add: min_def)
    have at: "text_at (take idx s @ take len cs @ drop (idx + len) s) (text_ptr_add (Ext c) len) (drop len cs)"
      using c False by (simp add: text_at_def text_ptr_add_def take_drop drop_map)
    have room: "length s + (length cs - len) < vcap ?v2" using e(3) True by simp
    from str_replace_tail [OF v2 _ idx at n room, where mem = mem] False obtain v3 where
      "str_insert_len mem ?v2 (sz (idx + len)) (text_ptr_add (Ext c) len) (length cs - len) = Inr (True, v3)"
      "str_holds v3 (take idx s @ cs @ drop (idx + len) s)" by auto
    with False True copy e(1) s1 show ?thesis by (intro exI [of _ True] exI [of _ v3]) simp
  qed
qed

lemma range_in_prefix: "k + n \<le> m \<Longrightarrow> m \<le> length s \<Longrightarrow> take n (drop k (take m s @ r)) = take n (drop k s)"
  by (rule nth_equalityI) (auto simp: nth_append)

text \<open>Replacing by a part of the string itself: the four ways of the code.\<close>

lemma str_replace_own_shrink:
  assumes h: "str_holds v s" and idx: "idx + len \<le> length s" and k: "k + length cs \<le> length s" "cs = take (length cs) (drop k s)"
    and n: "length cs \<le> len"
  shows "\<exists>v'. rbind (mem_move (vbuf v) idx k (length cs)) (\<lambda>b. erase_rest (v\<lparr>vbuf := b\<rparr>) idx (length cs) len) = Inr (True, v') \<and>
    str_holds v' (take idx s @ cs @ drop (idx + len) s)"
proof -
  have m: "mem_move (vbuf v) idx k (length cs) = Inr (put_cells (vbuf v) idx (map Some cs))"
    using move_own_text [OF h k(1), of idx] idx n k(2) by simp
  have "str_holds (v\<lparr>vbuf := put_cells (vbuf v) idx (map Some cs)\<rparr>) (take idx s @ cs @ drop (idx + length cs) s)"
    using str_overwrite [OF h, of idx cs] idx n by simp
  from erase_rest_correct [OF this n idx] m show ?thesis by auto
qed

lemma str_replace_own_before:
  assumes h: "str_holds v s" and idx: "idx + len \<le> length s" and k: "k + length cs \<le> length s" "cs = take (length cs) (drop k s)"
    and n: "len < length cs" "idx \<le> k" and fits: "length s + (length cs - len) < NPOS"
    and room: "length s + (length cs - len) < vcap v"
  shows "\<exists>v'. rbind (mem_move (vbuf v) idx k len) (\<lambda>b.
      rbind (str_insert_len mem (v\<lparr>vbuf := b\<rparr>) (sz (idx + len)) (Self (k + len)) (length cs - len)) (\<lambda>(_, v1).
        Inr (True, v1))) = Inr (True, v') \<and> str_holds v' (take idx s @ cs @ drop (idx + len) s)"
proof -
  let ?s = "take idx s @ take len cs @ drop (idx + len) s"
  have t: "take len (drop k s) = take len cs" using n(1) by (subst k(2)) (simp add: min_def)
  have m: "mem_move (vbuf v) idx k len = Inr (put_cells (vbuf v) idx (map Some (take len cs)))"
    using move_own_text [OF h, of k len idx] idx n k(1) t by simp
  have v2: "str_holds (v\<lparr>vbuf := put_cells (vbuf v) idx (map Some (take len cs))\<rparr>) ?s"
    using str_overwrite [OF h, of idx "take len cs"] idx n by (simp add: min_def)
  have "drop (k + len) ?s = drop (k + len) s" using n idx by (simp add: min_def)
  moreover have "take (length cs - len) (drop (k + len) s) = drop len cs"
    by (subst (2) k(2)) (simp add: drop_take add.commute)
  ultimately have at: "text_at ?s (Self (k + len)) (drop len cs)" using k(1) n idx by (simp add: text_at_def)
  have room2: "length s + (length cs - len) < vcap (v\<lparr>vbuf := put_cells (vbuf v) idx (map Some (take len cs))\<rparr>)"
    using room by simp
  from str_replace_tail [OF v2 n(1) idx at fits room2, where mem = mem] m show ?thesis by auto
qed

lemma str_replace_own_after:
  assumes h: "str_holds v s" and idx: "idx + len \<le> length s" and k: "k + length cs \<le> length s" "cs = take (length cs) (drop k s)"
    and n: "len < length cs" "k < idx" and fits: "length s + (length cs - len) < NPOS"
    and room: "length s + (length cs - len) < vcap v"
  shows "\<exists>v'. rbind (str_insert_len mem v (sz (idx + len)) (Self (k + len)) (length cs - len)) (\<lambda>(_, v1).
      rbind (mem_move (vbuf v1) idx k len) (\<lambda>b. Inr (True, v1\<lparr>vbuf := b\<rparr>))) = Inr (True, v') \<and>
    str_holds v' (take idx s @ cs @ drop (idx + len) s)"
proof -
  have s1: "sz (idx + len) = idx + len" using str_holdsE(6) [OF h] idx by (intro sz_id) simp
  have t: "take len (drop k s) = take len cs" using n(1) by (subst k(2)) (simp add: min_def)
  have "take (length cs - len) (drop (k + len) s) = drop len cs"
    by (subst (2) k(2)) (simp add: drop_take add.commute)
  then have at: "text_at s (Self (k + len)) (drop len cs)" using k(1) n by (simp add: text_at_def)
  have tl: "text_len v (Self (k + len)) (length cs - len) = Inr (length (drop len cs))"
    using fits by (simp add: text_len_def)
  from str_insert_len_correct [OF h idx tl at, where mem = mem] fits room obtain v1 where
    v1: "str_insert_len mem v (idx + len) (Self (k + len)) (length cs - len) = Inr (True, v1)"
      "str_holds v1 (take (idx + len) s @ drop len cs @ drop (idx + len) s)" by auto
  let ?s = "take (idx + len) s @ drop len cs @ drop (idx + len) s"
  have "take len (drop k ?s) = take len cs" using t n idx range_in_prefix [of k len "idx + len" s] by simp
  moreover have "k + len \<le> length ?s" "idx + len \<le> length ?s" using n idx by simp_all
  ultimately have m: "mem_move (vbuf v1) idx k len = Inr (put_cells (vbuf v1) idx (map Some (take len cs)))"
    using move_own_text [OF v1(2), of k len idx] by simp
  have eq: "take idx ?s @ take len cs @ drop (idx + length (take len cs)) ?s = take idx s @ cs @ drop (idx + len) s"
    using n idx by (simp add: min_def append_assoc [symmetric] del: append_assoc)
  have "idx + length (take len cs) \<le> length ?s" using n idx by simp
  from str_overwrite [OF v1(2) this, unfolded eq]
  have "str_holds (v1\<lparr>vbuf := put_cells (vbuf v1) idx (map Some (take len cs))\<rparr>) (take idx s @ cs @ drop (idx + len) s)" .
  with v1(1) m s1 show ?thesis by auto
qed


lemma str_replace_len_correct:
  assumes h: "str_holds v s" and idx: "idx \<le> length s" and len: "text_len v p n0 = Inr (length cs)"
    and at: "text_at s p cs" and fits: "length s + length cs < NPOS"
  shows "\<exists>ok v'. str_replace_len mem v idx len0 p n0 = Inr (ok, v') \<and>
    str_holds v' (if ok then take idx s @ cs @ drop (idx + len0) s else s)"
proof -
  define len where "len = min len0 (length s - idx)"
  have l: "(if len0 > sz_sub (length s) idx then sz_sub (length s) idx else len0) = len"
    using idx by (simp add: len_def min_def)
  have d: "drop (idx + len0) s = drop (idx + len) s" using idx by (auto simp: len_def min_def)
  have il: "idx + len \<le> length s" using idx by (simp add: len_def)
  have n: "length s + (length cs - len) < NPOS" using fits by simp
  have s1: "sz (length s + (length cs - len)) = length s + (length cs - len)" using n by (simp add: sz_id)
  note start = str_replace_len_def Let_def str_holdsE(3) [OF h] l len rbind_Inr
  show ?thesis
  proof (cases p)
    case (Ext c)
    have "own_offset v p = None" using Ext by (simp add: own_offset_def)
    moreover have "take (length cs) c = map Some cs" using at Ext by (simp add: text_at_def)
    ultimately show ?thesis
      using str_replace_ext [OF h il _ fits, of c mem] unfolding d Ext [symmetric] by (simp only: start option.case)
  next
    case (Self k)
    then have k: "k < length s" "k + length cs \<le> length s" "cs = take (length cs) (drop k s)"
      using at by (auto simp: text_at_def)
    have own: "own_offset v p = Some k" using Self k h by (simp add: own_offset_def str_holdsE)
    consider "length cs \<le> len" | "len < length cs" "vcap v \<le> length s + (length cs - len)"
      | "len < length cs" "length s + (length cs - len) < vcap v" "idx \<le> k"
      | "len < length cs" "length s + (length cs - len) < vcap v" "k < idx" by linarith
    then show ?thesis
    proof cases
      case 1
      then show ?thesis using str_replace_own_shrink [OF h il k(2,3) 1] own d
        by (intro exI [of _ True]) (simp add: start)
    next
      case 2
      have cap: "str_capacity v < length s + (length cs - len)" using 2 str_holdsE(4,5) [OF h] by linarith
      have tmp: "mem_copy_from (replicate (length cs) None) 0 (ptr_cells v p) 0 (length cs) = Inr (map Some cs)"
        using copy_text_tmp [OF h k(2)] k(3) Self by simp
      have add: "text_ptr_add (Ext (map Some cs)) len = Ext (drop len (map Some cs))"
        and cpy: "ptr_copy m b d (Ext c) j = mem_copy_from b d c 0 j" for m b d c j by (simp_all add: text_ptr_add_def ptr_copy_def)
      show ?thesis
      proof (cases "mem (length cs)")
        case True
        with 2 cap tmp own str_replace_ext [OF h il _ fits, of "map Some cs" mem, unfolded add cpy] show ?thesis
          unfolding d start own option.case s1 by (simp del: add_diff_assoc add_diff_assoc2)
      next
        case False
        with 2 cap own h show ?thesis unfolding start own option.case s1
          by (intro exI [of _ False] exI [of _ v]) (simp del: add_diff_assoc add_diff_assoc2)
      qed
    next
      case 3
      have cap: "\<not> str_capacity v < length s + (length cs - len)" using 3 str_holdsE(4,5) [OF h] by linarith
      with str_replace_own_before [OF h il k(2,3) 3(1,3) n 3(2), where mem = mem] own 3 show ?thesis
        unfolding d start own option.case s1
        by (intro exI [of _ True]) (simp del: add_diff_assoc add_diff_assoc2)
    next
      case 4
      have cap: "\<not> str_capacity v < length s + (length cs - len)" using 4 str_holdsE(4,5) [OF h] by linarith
      with str_replace_own_after [OF h il k(2,3) 4(1,3) n 4(2), where mem = mem] own 4 show ?thesis
        unfolding d start own option.case s1
        by (intro exI [of _ True]) (simp del: add_diff_assoc add_diff_assoc2)
    qed
  qed
qed

lemma str_replace_c_correct:
  assumes h: "str_holds v s" and idx: "idx \<le> length s" and fits: "length s + n < NPOS"
  shows "\<exists>ok v'. str_replace_c mem v idx len0 n c = Inr (ok, v') \<and>
    str_holds v' (if ok then take idx s @ replicate n c @ drop (idx + len0) s else s)"
proof -
  define len where "len = min len0 (length s - idx)"
  have l: "(if len0 > sz_sub (length s) idx then sz_sub (length s) idx else len0) = len"
    using idx by (simp add: len_def min_def)
  have d: "drop (idx + len0) s = drop (idx + len) s" using idx by (auto simp: len_def min_def)
  have il: "idx + len \<le> length s" using idx by (simp add: len_def)
  note start = str_replace_c_def Let_def str_holdsE(3) [OF h] l
  show ?thesis
  proof (cases "n \<le> len")
    case True
    have fill: "fill_chars (vbuf v) idx n c = Inr (put_cells (vbuf v) idx (map Some (replicate n c)))"
      by (rule fill_chars_put) (use str_holdsE(6,8) [OF h] il True in linarith)+
    have "str_holds (v\<lparr>vbuf := put_cells (vbuf v) idx (map Some (replicate n c))\<rparr>)
        (take idx s @ replicate n c @ drop (idx + length (replicate n c)) s)"
      by (rule str_overwrite [OF h]) (use il True in simp)
    from erase_rest_correct [OF this _ il] True fill show ?thesis
      unfolding d by (intro exI [of _ True]) (simp add: start)
  next
    case False
    have le: "length (s @ [0]) + (n - len) \<le> NPOS" "idx \<le> length (s @ [0])" using fits idx by auto
    obtain ok v1 where g: "vec_insert_n_no_data mem 1 v idx (n - len) = Inr (ok, v1)"
        "ok \<longrightarrow> vec_gap v1 (s @ [0]) idx (n - len)" "\<not> ok \<longrightarrow> v1 = v"
      by (rule vec_insert_n_no_data_correct [OF str_holdsE(1) [OF h] le(2,1)])
    show ?thesis
    proof (cases ok)
      case no: False
      with g h False show ?thesis
        by (intro exI [of _ False] exI [of _ v]) (simp add: start str_insert_n_no_data_def)
    next
      case True
      then have gap: "vec_gap v1 (s @ [0]) idx (n - len)" using g(2) by simp
      have r: "replicate n c = replicate (n - len) c @ replicate len c" using False by (simp add: replicate_add [symmetric])
      have bnd: "length s + 1 + (n - len) \<le> length (vbuf v1)" using vec_gap_cells(3) [OF gap] by simp
      let ?b1 = "put_cells (vbuf v1) idx (map Some (replicate (n - len) c))"
      have v2: "str_holds (v1\<lparr>vbuf := ?b1\<rparr>) (take idx s @ replicate (n - len) c @ drop idx s)"
        using vec_fill_gap [OF gap, of "replicate (n - len) c"] idx by (simp add: str_holds_def)
      have fill: "fill_chars (vbuf v1) idx n c = Inr (put_cells (vbuf v1) idx (map Some (replicate n c)))"
        by (rule fill_chars_put) (use fits il False bnd in linarith)+
      have b2: "put_cells (vbuf v1) idx (map Some (replicate n c)) =
          put_cells ?b1 (idx + (n - len)) (map Some (replicate len c))"
        unfolding r using put_cells_append [of idx "map Some (replicate (n - len) c)" "map Some (replicate len c)" "vbuf v1"] bnd il
        by simp
      have eq: "take (idx + (n - len)) (take idx s @ replicate (n - len) c @ drop idx s) @ replicate len c @
          drop (idx + (n - len) + length (replicate len c)) (take idx s @ replicate (n - len) c @ drop idx s) =
          take idx s @ replicate n c @ drop (idx + len) s"
        unfolding r using idx by (simp add: add.commute)
      have "str_holds (v1\<lparr>vbuf := put_cells (vbuf v1) idx (map Some (replicate n c))\<rparr>)
          (take idx s @ replicate n c @ drop (idx + len) s)"
        using str_overwrite [OF v2, of "idx + (n - len)" "replicate len c", unfolded eq] il b2 by simp
      with g(1) True fill False show ?thesis
        unfolding d by (intro exI [of _ True]) (simp add: start str_insert_n_no_data_def)
    qed
  qed
qed

subsection \<open>Comparing\<close>

lemma cell_get_text:
  assumes "take (length u) z = map Some u" "i < length u"
  shows "cell_get z i = Inr (u ! i)"
proof -
  have "take (length u) z ! i = Some (u ! i)" "length u \<le> length z"
    using assms by (simp, metis length_map length_take min.cobounded1)
  with assms(2) show ?thesis by (simp add: cell_get_def)
qed

lemma memcmp_loop_text:
  assumes "i + n \<le> length s" "i + n \<le> length t" "take (length s) x = map Some s" "take (length t) y = map Some t"
  shows "\<exists>r. memcmp_loop x y i n = Inr r \<and> (r = 0 \<longleftrightarrow> take n (drop i s) = take n (drop i t)) \<and>
    (r < 0 \<longleftrightarrow> (take n (drop i s), take n (drop i t)) \<in> lexord {(a, b). sint a < sint b})"
  using assms
proof (induction n arbitrary: i)
  case 0
  then show ?case by simp
next
  case (Suc n)
  have c: "cell_get x i = Inr (s ! i)" "cell_get y i = Inr (t ! i)" using Suc.prems by (auto intro!: cell_get_text)
  have d: "drop i s = s ! i # drop (Suc i) s" "drop i t = t ! i # drop (Suc i) t"
    using Suc.prems by (auto simp: Cons_nth_drop_Suc)
  from Suc.IH [of "Suc i"] Suc.prems obtain r where
    r: "memcmp_loop x y (Suc i) n = Inr r" "r = 0 \<longleftrightarrow> take n (drop (Suc i) s) = take n (drop (Suc i) t)"
      "r < 0 \<longleftrightarrow> (take n (drop (Suc i) s), take n (drop (Suc i) t)) \<in> lexord {(a, b). sint a < sint b}" by auto
  show ?case
  proof (cases "s ! i = t ! i")
    case True
    with c r show ?thesis unfolding d by simp
  next
    case False
    then have "sint (s ! i) \<noteq> sint (t ! i)" using signed_word_eqI [of "s ! i" "t ! i"] by blast
    with False c show ?thesis unfolding d by simp
  qed
qed

lemma lexord_by_prefix:
  fixes s t :: "'a list"
  assumes "\<And>a. (a, a) \<notin> r"
  shows "(s, t) \<in> lexord r \<longleftrightarrow> (let n = min (length s) (length t) in
    (take n s, take n t) \<in> lexord r \<or> take n s = take n t \<and> length s < length t)"
proof (induction s arbitrary: t)
  case Nil
  then show ?case by (cases t) auto
next
  case (Cons a s)
  then show ?case using assms by (cases t) (auto simp: Let_def)
qed

lemma str_compare_correct:
  assumes "str_holds v s" "str_holds w t"
  shows "\<exists>r. str_compare v w = Inr r \<and> (r = 0 \<longleftrightarrow> s = t) \<and>
    (r < 0 \<longleftrightarrow> (s, t) \<in> lexord {(a, b). sint a < sint b})"
proof -
  let ?n = "min (length s) (length t)" and ?R = "{(a :: ch, b). sint a < sint b}"
  have x: "take (length u) (vbuf z) = map Some u" if "str_holds z u" for z u
    using str_cells_range [OF that, of 0 "length u"] by simp
  from memcmp_loop_text [of 0 ?n s t "vbuf v" "vbuf w"] x [OF assms(1)] x [OF assms(2)] obtain r where
    r: "mymemcmp (vbuf v) (vbuf w) ?n = Inr r" "r = 0 \<longleftrightarrow> take ?n s = take ?n t"
      "r < 0 \<longleftrightarrow> (take ?n s, take ?n t) \<in> lexord ?R" by (auto simp: mymemcmp_def)
  have lex: "(s, t) \<in> lexord ?R \<longleftrightarrow> (take ?n s, take ?n t) \<in> lexord ?R \<or> take ?n s = take ?n t \<and> length s < length t"
    using lexord_by_prefix [of ?R s t] by (simp add: Let_def)
  have eq: "s = t \<longleftrightarrow> take ?n s = take ?n t \<and> length s = length t" by (auto simp: min_def split: if_splits)
  have n: "(if length s > length t then length t else length s) = ?n" by simp
  let ?res = "if r \<noteq> 0 then r else if length s = length t then 0 else if length s > length t then 1 else - 1"
  have "str_compare v w = Inr ?res"
    unfolding str_compare_def Let_def str_holdsE(3) [OF assms(1)] str_holdsE(3) [OF assms(2)] str_c_str_def n r(1) rbind_Inr ..
  moreover have "?res = 0 \<longleftrightarrow> s = t" unfolding eq r(2) [symmetric] by simp
  moreover have "?res < 0 \<longleftrightarrow> (s, t) \<in> lexord ?R" unfolding lex r(2,3) [symmetric] by auto
  ultimately show ?thesis by blast
qed


subsection \<open>Texts inside the string\<close>

text \<open>C26: A range of a string is replaced by the text that the argument denotes when the call is made,
  also when the argument points into the string itself: the moves the code makes in its own block,
  in whichever of the four ways, never destroy characters it has yet to copy.  When memory runs
  out the string is unchanged.  A range that reaches beyond the end is cut off there.\<close>

theorem str_replace_any_text:
  assumes "str_holds v s" "idx \<le> length s" "text_len v p n0 = Inr (length cs)" "text_at s p cs"
    "length s + length cs < NPOS"
  shows "\<exists>ok v'. str_replace_len mem v idx len p n0 = Inr (ok, v') \<and>
    str_holds v' (if ok then take idx s @ cs @ drop (idx + len) s else s)"
  by (rule str_replace_len_correct [OF assms])

definition sample_string :: cstr where
  "sample_string = \<lparr>vsize = 4, vcap = 8, vbuf = map Some [97, 98, 99, 0] @ replicate 4 None\<rparr>"

lemma sample_string_holds: "str_holds sample_string [97, 98, 99]"
  by (simp add: str_holds_def vec_holds_def sample_string_def NPOS_def All_less_Suc)

text \<open>Replacing the last character of \<open>abc\<close> by \<open>abc\<close> itself.\<close>

lemma str_replace_any_text_witness:
  "\<exists>ok v'. str_replace_len (\<lambda>n. False) sample_string 2 1 (Self 0) 3 = Inr (ok, v') \<and>
    str_holds v' (if ok then [97, 98, 97, 98, 99] else [97, 98, 99])"
  using str_replace_any_text [OF sample_string_holds, of 2 "Self 0" 3 "[97, 98, 99]" "\<lambda>n. False" 1]
  by (simp add: text_len_def text_at_def NPOS_def cong: if_cong)


end
