(* ===== verification/Cstl_String_Search.thy ===== *)
theory Cstl_String_Search
  imports Cstl_String
begin

text \<open>
  The search functions of \<open>cstl/string.h\<close>: \<open>find\<close> and \<open>rfind\<close> for a substring, and \<open>find_first_of\<close>,
  \<open>find_last_of\<close>, \<open>find_first_not_of\<close> and \<open>find_last_not_of\<close> for a set of characters.

  Each of them is shown to return the first element of a list of candidate positions that satisfies
  a predicate (\<open>pick\<close>), and \<open>NPOS\<close> when there is none.
\<close>

subsection \<open>Searching for a substring\<close>

text \<open>The two loops of the brute-force searches.  The fuel \<open>(str_len + 1) * (ptn_len + 1)\<close> is enough:
  every mismatch moves the window by one, and between two mismatches there are at most \<open>ptn_len\<close>
  matches.\<close>

fun bf_loop :: "nat \<Rightarrow> ch cells \<Rightarrow> nat \<Rightarrow> ch cells \<Rightarrow> nat \<Rightarrow> nat \<Rightarrow> nat \<Rightarrow> (nat \<times> nat) res" where
  "bf_loop 0 str str_len ptn ptn_len i j = Inl OutOfFuel"
| "bf_loop (Suc fuel) str str_len ptn ptn_len i j = (if i < str_len \<and> j < ptn_len then
     rbind (cell_get str i) (\<lambda>a. rbind (cell_get ptn j) (\<lambda>b.
       if a = b then bf_loop fuel str str_len ptn ptn_len (i + 1) (j + 1)
       else bf_loop fuel str str_len ptn ptn_len (sz (i + sz_sub 1 j)) 0))
     else Inr (i, j))"

definition brute_force_search :: "ch cells \<Rightarrow> nat \<Rightarrow> ch cells \<Rightarrow> nat \<Rightarrow> nat res" where
  "brute_force_search str str_len ptn ptn_len = (if str_len < ptn_len then Inr NPOS else
     rbind (bf_loop ((str_len + 1) * (ptn_len + 1)) str str_len ptn ptn_len 0 0) (\<lambda>(i, j).
       Inr (if j = ptn_len then i - j else NPOS)))"

fun bf_loop_r :: "nat \<Rightarrow> ch cells \<Rightarrow> ch cells \<Rightarrow> nat \<Rightarrow> nat \<Rightarrow> nat \<Rightarrow> (nat \<times> nat) res" where
  "bf_loop_r 0 str ptn ptn_len i j = Inl OutOfFuel"
| "bf_loop_r (Suc fuel) str ptn ptn_len i j = (if i > 0 \<and> j > 0 then
     rbind (cell_get str (i - 1)) (\<lambda>a. rbind (cell_get ptn (j - 1)) (\<lambda>b.
       if a = b then bf_loop_r fuel str ptn ptn_len (i - 1) (j - 1)
       else bf_loop_r fuel str ptn ptn_len (sz (i + sz_sub (sz_sub ptn_len j) 1)) ptn_len))
     else Inr (i, j))"

definition brute_force_search_r :: "ch cells \<Rightarrow> nat \<Rightarrow> ch cells \<Rightarrow> nat \<Rightarrow> nat res" where
  "brute_force_search_r str str_len ptn ptn_len = (if str_len < ptn_len then Inr NPOS else
     rbind (bf_loop_r ((str_len + 1) * (ptn_len + 1)) str ptn ptn_len str_len ptn_len) (\<lambda>(i, j).
       Inr (if j = 0 then i else NPOS)))"

definition str_find_len :: "cstr \<Rightarrow> text_ptr \<Rightarrow> nat \<Rightarrow> nat \<Rightarrow> nat res" where
  "str_find_len v p idx n0 = rbind (text_len v p n0) (\<lambda>n. if n = 0 then Inr idx else
     let size' = str_size v in if size' \<le> idx then Inr NPOS else
     rbind (brute_force_search (drop idx (str_c_str v)) (size' - idx) (ptr_cells v p) n) (\<lambda>i.
       if i = NPOS then Inr i else Inr (sz (i + idx))))"

definition str_find :: "cstr \<Rightarrow> text_ptr \<Rightarrow> nat \<Rightarrow> nat res" where
  "str_find v p idx = str_find_len v p idx NPOS"

definition str_find_c :: "cstr \<Rightarrow> ch \<Rightarrow> nat \<Rightarrow> nat res" where
  "str_find_c v c idx = str_find_len v (Ext [Some c]) idx 1"

definition str_rfind_len :: "cstr \<Rightarrow> text_ptr \<Rightarrow> nat \<Rightarrow> nat \<Rightarrow> nat res" where
  "str_rfind_len v p idx0 n0 = rbind (text_len v p n0) (\<lambda>n. let size' = str_size v in
     if size' < n then Inr NPOS else
     let idx = (if size' - n < idx0 then size' - n else idx0) in
     brute_force_search_r (str_c_str v) (sz (idx + n)) (ptr_cells v p) n)"

definition str_rfind :: "cstr \<Rightarrow> text_ptr \<Rightarrow> nat \<Rightarrow> nat res" where
  "str_rfind v p idx = str_rfind_len v p idx NPOS"

definition str_rfind_c :: "cstr \<Rightarrow> ch \<Rightarrow> nat \<Rightarrow> nat res" where
  "str_rfind_c v c idx = str_rfind_len v (Ext [Some c]) idx 1"

subsection \<open>Searching for one of several characters\<close>

text \<open>The inner loops, over \<open>j\<close>, tell whether the position is returned.\<close>

fun of_loop :: "ch cells \<Rightarrow> ch cells \<Rightarrow> nat \<Rightarrow> nat list \<Rightarrow> bool res" where
  "of_loop p chars i [] = Inr False"
| "of_loop p chars i (j # js) = rbind (cell_get p i) (\<lambda>a. rbind (cell_get chars j) (\<lambda>b.
     if a = b then Inr True else of_loop p chars i js))"

fun not_of_loop :: "ch cells \<Rightarrow> ch cells \<Rightarrow> nat \<Rightarrow> nat \<Rightarrow> nat list \<Rightarrow> bool res" where
  "not_of_loop p chars n i [] = Inr False"
| "not_of_loop p chars n i (j # js) = rbind (cell_get p i) (\<lambda>a. rbind (cell_get chars j) (\<lambda>b.
     if a \<noteq> b then (if j = sz_sub n 1 then Inr True else not_of_loop p chars n i js) else Inr False))"

text \<open>The outer loops, over the positions.  The downward ones count \<open>i\<close> from \<open>idx + 1\<close> to 1 and use
  \<open>i - 1\<close>; the list holds the values of \<open>i - 1\<close>.\<close>

fun scan_loop :: "(nat \<Rightarrow> bool res) \<Rightarrow> nat list \<Rightarrow> nat res" where
  "scan_loop f [] = Inr NPOS"
| "scan_loop f (i # is) = rbind (f i) (\<lambda>found. if found then Inr i else scan_loop f is)"

definition str_find_first_of_len :: "cstr \<Rightarrow> text_ptr \<Rightarrow> nat \<Rightarrow> nat \<Rightarrow> nat res" where
  "str_find_first_of_len v p idx n0 = (let size' = str_size v in if size' \<le> idx then Inr NPOS else
     rbind (text_len v p n0) (\<lambda>n.
       scan_loop (\<lambda>i. of_loop (str_c_str v) (ptr_cells v p) i [0..<n]) [idx..<size']))"

definition str_find_first_of :: "cstr \<Rightarrow> text_ptr \<Rightarrow> nat \<Rightarrow> nat res" where
  "str_find_first_of v p idx = str_find_first_of_len v p idx NPOS"

definition str_find_first_of_c :: "cstr \<Rightarrow> ch \<Rightarrow> nat \<Rightarrow> nat res" where
  "str_find_first_of_c v c idx = str_find_first_of_len v (Ext [Some c]) idx 1"

definition str_find_last_of_len :: "cstr \<Rightarrow> text_ptr \<Rightarrow> nat \<Rightarrow> nat \<Rightarrow> nat res" where
  "str_find_last_of_len v p idx0 n0 = (let size' = str_size v in if size' = 0 then Inr NPOS else
     let idx = (if size' \<le> idx0 then size' - 1 else idx0) in
     rbind (text_len v p n0) (\<lambda>n.
       scan_loop (\<lambda>i. of_loop (str_c_str v) (ptr_cells v p) i [0..<n]) (rev [0..<idx + 1])))"

definition str_find_last_of :: "cstr \<Rightarrow> text_ptr \<Rightarrow> nat \<Rightarrow> nat res" where
  "str_find_last_of v p idx = str_find_last_of_len v p idx NPOS"

definition str_find_last_of_c :: "cstr \<Rightarrow> ch \<Rightarrow> nat \<Rightarrow> nat res" where
  "str_find_last_of_c v c idx = str_find_last_of_len v (Ext [Some c]) idx 1"

definition str_find_first_not_of_len :: "cstr \<Rightarrow> text_ptr \<Rightarrow> nat \<Rightarrow> nat \<Rightarrow> nat res" where
  "str_find_first_not_of_len v p idx n0 = (let size' = str_size v in if size' \<le> idx then Inr NPOS else
     rbind (text_len v p n0) (\<lambda>n. if n = 0 then Inr idx else
       scan_loop (\<lambda>i. not_of_loop (str_c_str v) (ptr_cells v p) n i [0..<n]) [idx..<size']))"

definition str_find_first_not_of :: "cstr \<Rightarrow> text_ptr \<Rightarrow> nat \<Rightarrow> nat res" where
  "str_find_first_not_of v p idx = str_find_first_not_of_len v p idx NPOS"

definition str_find_first_not_of_c :: "cstr \<Rightarrow> ch \<Rightarrow> nat \<Rightarrow> nat res" where
  "str_find_first_not_of_c v c idx = str_find_first_not_of_len v (Ext [Some c]) idx 1"

definition str_find_last_not_of_len :: "cstr \<Rightarrow> text_ptr \<Rightarrow> nat \<Rightarrow> nat \<Rightarrow> nat res" where
  "str_find_last_not_of_len v p idx0 n0 = (let size' = str_size v in if size' = 0 then Inr NPOS else
     let idx = (if size' \<le> idx0 then size' - 1 else idx0) in
     rbind (text_len v p n0) (\<lambda>n. if n = 0 then Inr idx else
       scan_loop (\<lambda>i. not_of_loop (str_c_str v) (ptr_cells v p) n i [0..<n]) (rev [0..<idx + 1])))"

definition str_find_last_not_of :: "cstr \<Rightarrow> text_ptr \<Rightarrow> nat \<Rightarrow> nat res" where
  "str_find_last_not_of v p idx = str_find_last_not_of_len v p idx NPOS"

definition str_find_last_not_of_c :: "cstr \<Rightarrow> ch \<Rightarrow> nat \<Rightarrow> nat res" where
  "str_find_last_not_of_c v c idx = str_find_last_not_of_len v (Ext [Some c]) idx 1"

subsection \<open>The first candidate\<close>

definition pick :: "(nat \<Rightarrow> bool) \<Rightarrow> nat list \<Rightarrow> nat" where
  "pick P is = (case List.find P is of None \<Rightarrow> NPOS | Some i \<Rightarrow> i)"

lemma pick_simps [simp]: "pick P [] = NPOS" "pick P (i # is) = (if P i then i else pick P is)"
  by (simp_all add: pick_def)

lemma pick_cong: "(\<And>i. i \<in> set is \<Longrightarrow> P i = Q i) \<Longrightarrow> pick P is = pick Q is"
  by (induction "is") auto

lemma pick_none: "(\<And>i. i \<in> set is \<Longrightarrow> \<not> P i) \<Longrightarrow> pick P is = NPOS"
  by (induction "is") auto

text \<open>Reading it off: the position satisfies the predicate and no earlier candidate does.\<close>

lemma pick_first:
  assumes "pick P [a..<b] \<noteq> NPOS"
  shows "P (pick P [a..<b])" "a \<le> pick P [a..<b]" "pick P [a..<b] < b" "\<And>i. a \<le> i \<Longrightarrow> i < pick P [a..<b] \<Longrightarrow> \<not> P i"
proof -
  have "P (pick P [a..<b]) \<and> a \<le> pick P [a..<b] \<and> pick P [a..<b] < b \<and> (\<forall>i. a \<le> i \<longrightarrow> i < pick P [a..<b] \<longrightarrow> \<not> P i)"
    using assms
  proof (induction "b - a" arbitrary: a)
    case (Suc d)
    then have ab: "a < b" by simp
    then have up: "[a..<b] = a # [Suc a..<b]" by (simp add: upt_conv_Cons)
    show ?case
    proof (cases "P a")
      case False
      with Suc.hyps(1) [of "Suc a"] Suc.hyps(2) Suc.prems have
        "P (pick P [Suc a..<b]) \<and> Suc a \<le> pick P [Suc a..<b] \<and> pick P [Suc a..<b] < b \<and>
          (\<forall>i. Suc a \<le> i \<longrightarrow> i < pick P [Suc a..<b] \<longrightarrow> \<not> P i)" by (auto simp: up)
      with False show ?thesis by (auto simp: up) (metis Suc_leI le_neq_implies_less)
    qed (use ab in \<open>auto simp: up\<close>)
  qed simp
  then show "P (pick P [a..<b])" "a \<le> pick P [a..<b]" "pick P [a..<b] < b" "\<And>i. a \<le> i \<Longrightarrow> i < pick P [a..<b] \<Longrightarrow> \<not> P i"
    by blast+
qed

subsection \<open>The substring searches\<close>

definition occurs :: "ch list \<Rightarrow> ch list \<Rightarrow> nat \<Rightarrow> bool" where
  "occurs s cs k \<longleftrightarrow> k + length cs \<le> length s \<and> take (length cs) (drop k s) = cs"

lemma occurs_nth: "occurs s cs k \<Longrightarrow> j < length cs \<Longrightarrow> s ! (k + j) = cs ! j"
  unfolding occurs_def by (metis add_leD1 nth_drop nth_take)

lemma sz_back:
  assumes "j \<le> i" "i - j + 1 \<le> NPOS" "j \<le> NPOS"
  shows "sz (i + sz_sub 1 j) = i - j + 1"
proof (cases "j \<le> 1")
  case True
  with assms show ?thesis by (cases j) (auto simp: sz_id)
next
  case False
  then have "i + sz_sub 1 j = (i - j + 1) + 2 ^ 64"
    using assms by (simp add: sz_sub_def NPOS_def)
  then have "sz (i + sz_sub 1 j) = sz (i - j + 1)" by (simp only: sz_def mod_add_self2)
  with assms(2) show ?thesis by (simp add: sz_id)
qed

lemma bf_loop_correct:
  assumes "take (length s) x = map Some s" "take (length cs) y = map Some cs" "cs \<noteq> []" "length s < NPOS"
    "length cs \<le> NPOS" "j \<le> length cs" "k + j \<le> length s" "take j (drop k s) = take j cs"
    "(length s - k) * (length cs + 1) + (length cs - j) < fuel"
  shows "\<exists>i' j'. bf_loop fuel x (length s) y (length cs) (k + j) j = Inr (i', j') \<and>
    (if j' = length cs then i' - j' else NPOS) = pick (occurs s cs) [k..<length s]"
  using assms(6-9)
proof (induction fuel arbitrary: k j)
  case 0
  then show ?case by simp
next
  case (Suc fuel)
  consider "j = length cs" | "k + j = length s" "j < length cs" | "k + j < length s" "j < length cs"
    using Suc.prems(1,2) by linarith
  then show ?case
  proof cases
    case 1
    then have "k < length s" using Suc.prems(2) assms(3) by (cases cs) auto
    moreover have "occurs s cs k" using 1 Suc.prems by (simp add: occurs_def)
    ultimately show ?thesis using 1 by (simp add: upt_conv_Cons)
  next
    case 2
    then have "pick (occurs s cs) [k..<length s] = NPOS"
      by (intro pick_none) (auto simp: occurs_def)
    with 2 show ?thesis by simp
  next
    case 3
    have c: "cell_get x (k + j) = Inr (s ! (k + j))" "cell_get y j = Inr (cs ! j)"
      using 3 assms(1,2) by (auto intro!: cell_get_text)
    show ?thesis
    proof (cases "s ! (k + j) = cs ! j")
      case True
      have "take (Suc j) (drop k s) = take (Suc j) cs"
        using 3 True Suc.prems(3) by (simp add: take_Suc_conv_app_nth)
      with Suc.IH [of "j + 1" k] 3 True c Suc.prems(4) show ?thesis by simp
    next
      case False
      then have no: "\<not> occurs s cs k" using occurs_nth 3(2) by blast
      have stp: "sz (k + j + sz_sub 1 j) = Suc k"
        using sz_back [of j "k + j"] 3 assms(4,5) by simp
      have "(length s - Suc k) * (length cs + 1) + (length cs + 1) = (length s - k) * (length cs + 1)"
        using 3(1) by (metis Suc_diff_Suc add.commute add_lessD1 mult_Suc)
      then have "(length s - Suc k) * (length cs + 1) + (length cs - 0) < fuel"
        using Suc.prems(4) by linarith
      with Suc.IH [of 0 "Suc k"] 3 False c stp no show ?thesis by (simp add: upt_conv_Cons)
    qed
  qed
qed

lemma brute_force_search_correct:
  assumes "take (length s) x = map Some s" "take (length cs) y = map Some cs" "cs \<noteq> []" "length s < NPOS" "length cs \<le> NPOS"
  shows "brute_force_search x (length s) y (length cs) = Inr (pick (occurs s cs) [0..<length s])"
proof (cases "length s < length cs")
  case True
  then have "pick (occurs s cs) [0..<length s] = NPOS" by (intro pick_none) (auto simp: occurs_def)
  with True show ?thesis by (simp add: brute_force_search_def)
next
  case False
  have "(length s - 0) * (length cs + 1) + (length cs - 0) < (length s + 1) * (length cs + 1)" by simp
  from bf_loop_correct [OF assms le0 _ _ this] obtain i j where
    "bf_loop ((length s + 1) * (length cs + 1)) x (length s) y (length cs) 0 0 = Inr (i, j)"
    "(if j = length cs then i - j else NPOS) = pick (occurs s cs) [0..<length s]" by auto
  with False show ?thesis by (simp add: brute_force_search_def)
qed

lemma sz_window:
  assumes "0 < i" "j \<le> n" "i + n - j \<le> NPOS"
  shows "sz (i + sz_sub (sz_sub n j) 1) = i + (n - j) - 1"
proof (cases "n = j")
  case True
  have "i + (2 ^ 64 - 1) = (i - 1) + 2 ^ 64" using assms(1) by simp
  then have "sz (i + (2 ^ 64 - 1)) = sz (i - 1)" by (simp only: sz_def mod_add_self2)
  with True assms show ?thesis by (simp add: sz_sub_def sz_id)
next
  case False
  with assms show ?thesis by (simp add: sz_id)
qed

lemma bf_loop_r_correct:
  assumes "take (length s) x = map Some s" "take (length cs) y = map Some cs" "length s < NPOS"
    "j \<le> length cs" "i + (length cs - j) \<le> length s" "drop j cs = take (length cs - j) (drop i s)"
    "(i + (length cs - j)) * (length cs + 1) + j < fuel"
  shows "\<exists>i' j'. bf_loop_r fuel x y (length cs) i j = Inr (i', j') \<and>
    (if j' = 0 then i' else NPOS) = pick (occurs s cs) (rev [0..<Suc (i + (length cs - j)) - length cs])"
  using assms(4-7)
proof (induction fuel arbitrary: i j)
  case 0
  then show ?case by simp
next
  case (Suc fuel)
  consider "j = 0" | "0 < j" "i = 0" | "0 < j" "0 < i" by linarith
  then show ?case
  proof cases
    case 1
    then have "occurs s cs i" using Suc.prems by (simp add: occurs_def)
    with 1 show ?thesis by simp
  next
    case 2
    then have "Suc (i + (length cs - j)) - length cs = 0" using Suc.prems(1) by simp
    with 2 show ?thesis by simp
  next
    case 3
    obtain i1 j1 where ij: "i = Suc i1" "j = Suc j1" using 3 by (cases i; cases j) auto
    have lt: "i1 < length s" "j1 < length cs" using ij Suc.prems(1,2) by auto
    have c: "cell_get x i1 = Inr (s ! i1)" "cell_get y j1 = Inr (cs ! j1)"
      using lt assms(1,2) by (auto intro!: cell_get_text)
    have e: "i + (length cs - j) = i1 + (length cs - j1)" using ij lt by simp
    show ?thesis
    proof (cases "s ! i1 = cs ! j1")
      case True
      have "drop j1 cs = cs ! j1 # drop j cs" "drop i1 s = s ! i1 # drop i s" "length cs - j1 = Suc (length cs - j)"
        using lt ij by (simp_all add: Cons_nth_drop_Suc Suc_diff_Suc)
      then have "drop j1 cs = take (length cs - j1) (drop i1 s)" using Suc.prems(3) True by simp
      with Suc.IH [of j1 i1] Suc.prems lt e c True show ?thesis unfolding e by (simp add: ij)
    next
      case False
      define w where "w = i + (length cs - j)"
      have w: "0 < w" "w \<le> length s" using 3 Suc.prems(2) by (auto simp: w_def)
      have win: "sz (i + sz_sub (sz_sub (length cs) j) 1) = w - 1"
        using sz_window [OF 3(2) Suc.prems(1)] Suc.prems(2) assms(3) by (simp add: w_def)
      have m: "(w - 1) * (length cs + 1) + (length cs + 1) = w * (length cs + 1)"
        using w(1) by (cases w) simp_all
      have "(w - 1 + (length cs - length cs)) * (length cs + 1) + length cs < fuel"
        using Suc.prems(4) m unfolding w_def [symmetric] by simp
      moreover have "w - 1 \<le> length s" using w by simp
      ultimately obtain i' j' where
        r: "bf_loop_r fuel x y (length cs) (w - 1) (length cs) = Inr (i', j')"
          "(if j' = 0 then i' else NPOS) = pick (occurs s cs) (rev [0..<Suc (w - 1) - length cs])"
        using Suc.IH [of "length cs" "w - 1"] by auto
      have "pick (occurs s cs) (rev [0..<Suc w - length cs]) = pick (occurs s cs) (rev [0..<w - length cs])"
      proof (cases "length cs \<le> w")
        case True
        then have "Suc w - length cs = Suc (w - length cs)" by simp
        moreover have "w - length cs + j1 = i1" using True ij Suc.prems(1) by (simp add: w_def)
        then have "\<not> occurs s cs (w - length cs)" using occurs_nth [of s cs "w - length cs" j1] lt False by auto
        ultimately show ?thesis by simp
      qed simp
      with r w c win False show ?thesis unfolding w_def [symmetric] by (simp add: ij)
    qed
  qed
qed

lemma brute_force_search_r_correct:
  assumes "take (length s) x = map Some s" "take (length cs) y = map Some cs" "length s < NPOS"
  shows "brute_force_search_r x (length s) y (length cs) = Inr (pick (occurs s cs) (rev [0..<Suc (length s) - length cs]))"
proof (cases "length s < length cs")
  case False
  have "(length s + (length cs - length cs)) * (length cs + 1) + length cs < (length s + 1) * (length cs + 1)" by simp
  from bf_loop_r_correct [OF assms order_refl _ _ this] obtain i j where
    "bf_loop_r ((length s + 1) * (length cs + 1)) x y (length cs) (length s) (length cs) = Inr (i, j)"
    "(if j = 0 then i else NPOS) = pick (occurs s cs) (rev [0..<Suc (length s) - length cs])" by auto
  with False show ?thesis by (simp add: brute_force_search_r_def)
qed (simp add: brute_force_search_r_def)


subsection \<open>The text argument and the string\<close>

lemma text_cells:
  assumes "str_holds v s" "text_at s p cs"
  shows "take (length cs) (ptr_cells v p) = map Some cs"
proof (cases p)
  case (Self k)
  then have k: "k + length cs \<le> length s" "cs = take (length cs) (drop k s)" using assms(2) by (auto simp: text_at_def)
  from str_cells_range [OF assms(1) k(1)] show ?thesis
    unfolding k(2) [symmetric] by (simp add: Self ptr_cells_def)
qed (use assms in \<open>simp add: text_at_def ptr_cells_def\<close>)

lemma str_text: "str_holds v s \<Longrightarrow> take (length s) (str_c_str v) = map Some s"
  using str_cells_range [of v s 0 "length s"] by (simp add: str_c_str_def)

lemma pick_map:
  "(\<And>i. i \<in> set is \<Longrightarrow> i < NPOS) \<Longrightarrow> pick P (map (\<lambda>i. i + n) is) =
    (let r = pick (\<lambda>i. P (i + n)) is in if r = NPOS then NPOS else r + n)"
  by (induction "is") (auto simp: Let_def)

lemma str_find_len_correct:
  assumes h: "str_holds v s" and len: "text_len v p n0 = Inr (length cs)" and at: "text_at s p cs" "cs \<noteq> []"
    and bnd: "length cs \<le> NPOS"
  shows "str_find_len v p idx n0 = Inr (pick (occurs s cs) [idx..<length s])"
proof (cases "length s \<le> idx")
  case True
  then show ?thesis using at by (simp add: str_find_len_def len str_holdsE(3) [OF h])
next
  case False
  have t: "take (length (drop idx s)) (drop idx (str_c_str v)) = map Some (drop idx s)"
    using str_cells_range [OF h, of idx "length s - idx"] False by (simp add: str_c_str_def)
  let ?r = "pick (occurs (drop idx s) cs) [0..<length (drop idx s)]"
  have lt: "length s < NPOS" using str_holdsE(6) [OF h] by simp
  have "length (drop idx s) < NPOS" using lt by simp
  from brute_force_search_correct [OF t text_cells [OF h at(1)] at(2) this bnd]
  have bf: "brute_force_search (drop idx (str_c_str v)) (length s - idx) (ptr_cells v p) (length cs) = Inr ?r" by simp
  have up: "[idx..<length s] = map (\<lambda>i. i + idx) [0..<length s - idx]"
    using False by (simp add: map_add_upt)
  have occ: "occurs (drop idx s) cs = (\<lambda>i. occurs s cs (i + idx))"
    using False by (intro ext) (auto simp: occurs_def add.commute)
  have p: "pick (occurs s cs) [idx..<length s] = (if ?r = NPOS then NPOS else ?r + idx)"
    unfolding up using lt by (subst pick_map) (auto simp: occ Let_def)
  have "?r + idx \<le> NPOS" if "?r \<noteq> NPOS"
    using pick_first(3) [OF that] lt False by simp
  then show ?thesis using False at(2) p bf by (auto simp: str_find_len_def len str_holdsE(3) [OF h] sz_id Let_def)
qed

lemma str_rfind_len_correct:
  assumes h: "str_holds v s" and len: "text_len v p n0 = Inr (length cs)" and at: "text_at s p cs"
  shows "str_rfind_len v p idx n0 = Inr (pick (occurs s cs) (rev [0..<min (Suc idx) (Suc (length s) - length cs)]))"
proof (cases "length s < length cs")
  case True
  then show ?thesis by (simp add: str_rfind_len_def len str_holdsE(3) [OF h])
next
  case False
  define w where "w = min idx (length s - length cs)"
  have w: "(if length s - length cs < idx then length s - length cs else idx) = w" "w + length cs \<le> length s"
    using False by (auto simp: w_def)
  have lt: "length s < NPOS" using str_holdsE(6) [OF h] by simp
  let ?u = "take (w + length cs) s"
  have l: "length ?u = w + length cs" using w(2) by simp
  have t: "take (length ?u) (str_c_str v) = map Some ?u"
    using str_cells_range [OF h, of 0 "w + length cs"] w(2) l by (simp add: str_c_str_def)
  have occ: "occurs ?u cs i = occurs s cs i" if "i < Suc w" for i
    using that w(2) by (auto simp: occurs_def drop_take)
  have "Suc (length ?u) - length cs = Suc w" using l by simp
  with brute_force_search_r_correct [OF t text_cells [OF h at]] lt w(2)
  have "brute_force_search_r (str_c_str v) (w + length cs) (ptr_cells v p) (length cs) =
      Inr (pick (occurs ?u cs) (rev [0..<Suc w]))" by (simp add: l del: upt_Suc)
  also have "pick (occurs ?u cs) (rev [0..<Suc w]) = pick (occurs s cs) (rev [0..<Suc w])"
    by (rule pick_cong) (use occ in auto)
  also have "Suc w = min (Suc idx) (Suc (length s) - length cs)" using False by (auto simp: w_def)
  finally show ?thesis
    using False lt w by (simp add: str_rfind_len_def len str_holdsE(3) [OF h] Let_def sz_id del: upt_Suc)
qed

subsection \<open>The searches for characters\<close>

lemma scan_loop_pick: "(\<And>i. i \<in> set is \<Longrightarrow> f i = Inr (P i)) \<Longrightarrow> scan_loop f is = Inr (pick P is)"
  by (induction "is") auto

lemma of_loop_correct:
  assumes "take (length s) x = map Some s" "take (length cs) y = map Some cs" "i < length s"
    "\<And>j. j \<in> set js \<Longrightarrow> j < length cs"
  shows "of_loop x y i js = Inr (\<exists>j \<in> set js. s ! i = cs ! j)"
  using assms(4)
proof (induction js)
  case (Cons j js)
  then show ?case using cell_get_text [OF assms(1,3)] cell_get_text [OF assms(2), of j] by auto
qed simp

lemma of_loop_all:
  assumes "take (length s) x = map Some s" "take (length cs) y = map Some cs" "i < length s"
  shows "of_loop x y i [0..<length cs] = Inr (s ! i \<in> set cs)"
proof -
  have "s ! i \<in> set cs \<longleftrightarrow> (\<exists>j \<in> set [0..<length cs]. s ! i = cs ! j)" by (auto simp: set_conv_nth)
  then show ?thesis using of_loop_correct [OF assms, of "[0..<length cs]"] by simp
qed

lemma not_of_loop_correct:
  assumes "take (length s) x = map Some s" "take (length cs) y = map Some cs" "i < length s" "a < length cs"
  shows "not_of_loop x y (length cs) i [a..<length cs] = Inr (\<forall>j \<in> {a..<length cs}. s ! i \<noteq> cs ! j)"
  using assms(4)
proof (induction "length cs - a" arbitrary: a)
  case (Suc d)
  have c: "cell_get x i = Inr (s ! i)" "cell_get y a = Inr (cs ! a)"
    using cell_get_text [OF assms(1,3)] cell_get_text [OF assms(2) Suc.prems] by auto
  have up: "[a..<length cs] = a # [Suc a..<length cs]" using Suc.prems by (simp add: upt_conv_Cons)
  have sp: "{a..<length cs} = insert a {Suc a..<length cs}" using Suc.prems by auto
  show ?case
  proof (cases "Suc a = length cs")
    case True
    then have "a = length cs - 1" "{Suc a..<length cs} = {}" by auto
    with c True show ?thesis unfolding up sp by (auto simp: sz_sub_def)
  next
    case False
    with Suc.prems have "Suc a < length cs" "a \<noteq> length cs - 1" by auto
    with c Suc.hyps(1) [of "Suc a"] Suc.hyps(2) show ?thesis unfolding up sp by (auto simp: sz_sub_def)
  qed
qed simp

lemma not_of_loop_all:
  assumes "take (length s) x = map Some s" "take (length cs) y = map Some cs" "i < length s" "cs \<noteq> []"
  shows "not_of_loop x y (length cs) i [0..<length cs] = Inr (s ! i \<notin> set cs)"
proof -
  have "s ! i \<notin> set cs \<longleftrightarrow> (\<forall>j \<in> {0..<length cs}. s ! i \<noteq> cs ! j)" by (auto simp: set_conv_nth)
  then show ?thesis using not_of_loop_correct [OF assms(1-3), of 0] assms(4) by simp
qed

lemma str_find_first_correct:
  assumes h: "str_holds v s" and len: "text_len v p n0 = Inr (length cs)" and at: "text_at s p cs" "cs \<noteq> []"
  shows "str_find_first_of_len v p idx n0 = Inr (pick (\<lambda>i. s ! i \<in> set cs) [idx..<length s])"
    and "str_find_first_not_of_len v p idx n0 = Inr (pick (\<lambda>i. s ! i \<notin> set cs) [idx..<length s])"
proof -
  note t = str_text [OF h] text_cells [OF h at(1)]
  have "scan_loop (\<lambda>i. of_loop (str_c_str v) (ptr_cells v p) i [0..<length cs]) [idx..<length s] =
      Inr (pick (\<lambda>i. s ! i \<in> set cs) [idx..<length s])"
    by (rule scan_loop_pick) (simp add: of_loop_all [OF t])
  then show "str_find_first_of_len v p idx n0 = Inr (pick (\<lambda>i. s ! i \<in> set cs) [idx..<length s])"
    by (simp add: str_find_first_of_len_def len str_holdsE(3) [OF h] Let_def)
  have "scan_loop (\<lambda>i. not_of_loop (str_c_str v) (ptr_cells v p) (length cs) i [0..<length cs]) [idx..<length s] =
      Inr (pick (\<lambda>i. s ! i \<notin> set cs) [idx..<length s])"
    by (rule scan_loop_pick) (simp add: not_of_loop_all [OF t _ at(2)])
  then show "str_find_first_not_of_len v p idx n0 = Inr (pick (\<lambda>i. s ! i \<notin> set cs) [idx..<length s])"
    using at(2) by (simp add: str_find_first_not_of_len_def len str_holdsE(3) [OF h] Let_def)
qed

lemma str_find_last_correct:
  assumes h: "str_holds v s" and len: "text_len v p n0 = Inr (length cs)" and at: "text_at s p cs" "cs \<noteq> []"
  shows "str_find_last_of_len v p idx n0 = Inr (pick (\<lambda>i. s ! i \<in> set cs) (rev [0..<min (Suc idx) (length s)]))"
    and "str_find_last_not_of_len v p idx n0 = Inr (pick (\<lambda>i. s ! i \<notin> set cs) (rev [0..<min (Suc idx) (length s)]))"
proof -
  note t = str_text [OF h] text_cells [OF h at(1)]
  define w where "w = (if length s \<le> idx then length s - 1 else idx)"
  have w: "w + 1 = min (Suc idx) (length s)" if "s \<noteq> []" using that by (cases s) (auto simp: w_def)
  have "scan_loop (\<lambda>i. of_loop (str_c_str v) (ptr_cells v p) i [0..<length cs]) (rev [0..<min (Suc idx) (length s)]) =
      Inr (pick (\<lambda>i. s ! i \<in> set cs) (rev [0..<min (Suc idx) (length s)]))"
    by (rule scan_loop_pick) (simp add: of_loop_all [OF t])
  then show "str_find_last_of_len v p idx n0 = Inr (pick (\<lambda>i. s ! i \<in> set cs) (rev [0..<min (Suc idx) (length s)]))"
    unfolding str_find_last_of_len_def len str_holdsE(3) [OF h] Let_def w_def [symmetric] rbind_Inr
    using w by (cases "s = []") simp_all
  have "scan_loop (\<lambda>i. not_of_loop (str_c_str v) (ptr_cells v p) (length cs) i [0..<length cs]) (rev [0..<min (Suc idx) (length s)]) =
      Inr (pick (\<lambda>i. s ! i \<notin> set cs) (rev [0..<min (Suc idx) (length s)]))"
    by (rule scan_loop_pick) (simp add: not_of_loop_all [OF t _ at(2)])
  then show "str_find_last_not_of_len v p idx n0 = Inr (pick (\<lambda>i. s ! i \<notin> set cs) (rev [0..<min (Suc idx) (length s)]))"
    unfolding str_find_last_not_of_len_def len str_holdsE(3) [OF h] Let_def w_def [symmetric] rbind_Inr
    using w at(2) by (cases "s = []") simp_all
qed

text \<open>C27: Every search function of the string returns the first position, in the order in which it goes
  through them, that satisfies its condition, and \<open>NPOS\<close> when no position does: \<open>find\<close> and
  \<open>find_first_...\<close> upwards from \<open>idx\<close>, \<open>rfind\<close> and \<open>find_last_...\<close> downwards from \<open>idx\<close> or from the last
  possible position.  No search reads outside the string or the text, and all of them end.\<close>

theorem str_searches_correct:
  assumes "str_holds v s" "text_len v p n0 = Inr (length cs)" "text_at s p cs" "cs \<noteq> []" "length cs \<le> NPOS"
  shows "str_find_len v p idx n0 = Inr (pick (occurs s cs) [idx..<length s]) \<and>
    str_rfind_len v p idx n0 = Inr (pick (occurs s cs) (rev [0..<min (Suc idx) (Suc (length s) - length cs)])) \<and>
    str_find_first_of_len v p idx n0 = Inr (pick (\<lambda>i. s ! i \<in> set cs) [idx..<length s]) \<and>
    str_find_first_not_of_len v p idx n0 = Inr (pick (\<lambda>i. s ! i \<notin> set cs) [idx..<length s]) \<and>
    str_find_last_of_len v p idx n0 = Inr (pick (\<lambda>i. s ! i \<in> set cs) (rev [0..<min (Suc idx) (length s)])) \<and>
    str_find_last_not_of_len v p idx n0 = Inr (pick (\<lambda>i. s ! i \<notin> set cs) (rev [0..<min (Suc idx) (length s)]))"
  by (intro conjI str_find_len_correct str_rfind_len_correct str_find_first_correct str_find_last_correct assms)

text \<open>\<open>bc\<close> occurs in \<open>abc\<close> at 1; the last character of \<open>abc\<close> that is none of \<open>b\<close> and \<open>c\<close> is at 0.\<close>

lemma str_searches_correct_witness:
  "str_find_len sample_string (Ext [Some 98, Some 99]) 0 2 = Inr 1 \<and>
   str_find_last_not_of_len sample_string (Ext [Some 98, Some 99]) 7 2 = Inr 0"
  using str_searches_correct [OF sample_string_holds, of "Ext [Some 98, Some 99]" 2 "[98, 99]" 0]
    str_searches_correct [OF sample_string_holds, of "Ext [Some 98, Some 99]" 2 "[98, 99]" 7]
  by (simp add: text_len_def text_at_def NPOS_def occurs_def upt_rec)


end
