(* ===== verification/Comparison.thy ===== *)
theory Comparison
  imports Main
begin

text \<open>
  Comparison functions as C has them, with a negative, zero or positive result, when they are those of
  a total preorder: what the sorts, the searches and the trees of \<open>cstl/\<close> ask of their argument.
\<close>

definition total_cmp :: "('a \<Rightarrow> 'a \<Rightarrow> int) \<Rightarrow> bool" where
  "total_cmp cmp \<longleftrightarrow> (\<forall>a b. cmp a b < 0 \<longleftrightarrow> cmp b a > 0) \<and>
     (\<forall>a b c. cmp a b \<le> 0 \<longrightarrow> cmp b c \<le> 0 \<longrightarrow> cmp a c \<le> 0)"

lemma total_cmpD:
  assumes "total_cmp cmp"
  shows "cmp a b < 0 \<longleftrightarrow> cmp b a > 0" "cmp a b \<le> 0 \<Longrightarrow> cmp b c \<le> 0 \<Longrightarrow> cmp a c \<le> 0" "cmp a a = 0"
    "cmp a b > 0 \<Longrightarrow> cmp b a \<le> 0" "\<not> cmp a b > 0 \<longleftrightarrow> cmp a b \<le> 0" "\<not> cmp a b < 0 \<longleftrightarrow> cmp b a \<le> 0"
    "cmp a b < 0 \<Longrightarrow> cmp b c \<le> 0 \<Longrightarrow> cmp a c < 0" "cmp a b \<le> 0 \<Longrightarrow> cmp b c < 0 \<Longrightarrow> cmp a c < 0"
proof -
  have sym: "cmp a b < 0 \<longleftrightarrow> cmp b a > 0" for a b using assms by (simp add: total_cmp_def)
  have trans: "cmp a b \<le> 0 \<Longrightarrow> cmp b c \<le> 0 \<Longrightarrow> cmp a c \<le> 0" for a b c using assms unfolding total_cmp_def by blast
  show "cmp a b < 0 \<longleftrightarrow> cmp b a > 0" "cmp a b \<le> 0 \<Longrightarrow> cmp b c \<le> 0 \<Longrightarrow> cmp a c \<le> 0"
    by (rule sym, rule trans)
  show "cmp a a = 0" using sym [of a a] by linarith
  show "cmp a b > 0 \<Longrightarrow> cmp b a \<le> 0" "\<not> cmp a b < 0 \<longleftrightarrow> cmp b a \<le> 0" "\<not> cmp a b > 0 \<longleftrightarrow> cmp a b \<le> 0"
    using sym [of a b] sym [of b a] by linarith+
  show "cmp a b < 0 \<Longrightarrow> cmp b c \<le> 0 \<Longrightarrow> cmp a c < 0"
    using trans [of b c a] sym [of a b] sym [of a c] by linarith
  show "cmp a b \<le> 0 \<Longrightarrow> cmp b c < 0 \<Longrightarrow> cmp a c < 0"
    using trans [of c a b] sym [of b c] sym [of a c] by linarith
qed

lemma total_cmp_eq:
  assumes "total_cmp cmp"
  shows "cmp a b = 0 \<longleftrightarrow> cmp a b \<le> 0 \<and> cmp b a \<le> 0" "cmp a b = 0 \<Longrightarrow> cmp a v = 0 \<longleftrightarrow> cmp b v = 0"
proof -
  show e: "cmp a b = 0 \<longleftrightarrow> cmp a b \<le> 0 \<and> cmp b a \<le> 0" for a b
    using total_cmpD(1) [OF assms, of a b] total_cmpD(1) [OF assms, of b a] by linarith
  show "cmp a v = 0 \<longleftrightarrow> cmp b v = 0" if "cmp a b = 0"
    using that total_cmpD(2) [OF assms] by (metis e)
qed

lemma total_cmp_equiv:
  assumes "total_cmp cmp" "cmp a b = 0"
  shows "cmp b a = 0" "cmp a c = 0 \<longleftrightarrow> cmp b c = 0"
  using total_cmp_eq [OF assms(1)] assms(2) by blast+

end
