(* ===== verification/Cstl_Algorithm.thy ===== *)
theory Cstl_Algorithm
  imports Cstl_Block Comparison "HOL-Library.Multiset"
begin

text \<open>
  The algorithms of \<open>cstl/algorithm.h\<close> (\<open>CSTL_ALGORITHM_IMPLEMENT\<close>) on the elements of a vector, a
  string or a deque: searching by bisection, reversing, and the two sorts that need no second array,
  insertion sort and \<open>sort\<close>, a quicksort with an explicit stack.

  The macro gets at an element with \<open>DIRECT_ACCESS (self, i)\<close>, whatever the container; here the
  container is the list of its elements, and an index outside of it is a fault.  \<open>cmp\<close> is the
  comparison function, which is to be that of a total preorder (\<open>total_cmp\<close>).
\<close>

subsection \<open>Elements\<close>

definition arr_get :: "'a list \<Rightarrow> nat \<Rightarrow> 'a res" where
  "arr_get a i = (if i < length a then Inr (a ! i) else Inl OutOfBounds)"

definition arr_set :: "'a list \<Rightarrow> nat \<Rightarrow> 'a \<Rightarrow> 'a list res" where
  "arr_set a i x = (if i < length a then Inr (a[i := x]) else Inl OutOfBounds)"

text \<open>\<open>CSTL_ALGORITHM_SWAP\<close> on the elements at \<open>i\<close> and \<open>j\<close>.\<close>

definition arr_swap :: "'a list \<Rightarrow> nat \<Rightarrow> nat \<Rightarrow> 'a list res" where
  "arr_swap a i j = rbind (arr_get a i) (\<lambda>tmp. rbind (arr_get a j) (\<lambda>x.
     rbind (arr_set a i x) (\<lambda>a1. arr_set a1 j tmp)))"

subsection \<open>Bisection\<close>

text \<open>The loops of \<open>lower_bound\<close> and \<open>upper_bound\<close>; \<open>t\<close> is the test that moves \<open>last\<close>.\<close>

fun bound_loop :: "('a \<Rightarrow> bool) \<Rightarrow> nat \<Rightarrow> 'a list \<Rightarrow> nat \<Rightarrow> nat \<Rightarrow> nat res" where
  "bound_loop t 0 a first last' = (if first < last' then Inl OutOfFuel else Inr first)"
| "bound_loop t (Suc fuel) a first last' = (if first < last' then
     let middle = sz (first + last') div 2 in
     rbind (arr_get a middle) (\<lambda>x. if t x then bound_loop t fuel a first middle
       else bound_loop t fuel a (middle + 1) last')
     else Inr first)"

definition lower_bound :: "('a \<Rightarrow> 'a \<Rightarrow> int) \<Rightarrow> 'a list \<Rightarrow> nat \<Rightarrow> nat \<Rightarrow> 'a \<Rightarrow> nat res" where
  "lower_bound cmp a idx n v = bound_loop (\<lambda>x. cmp v x \<le> 0) n a idx (sz (idx + n))"

definition upper_bound :: "('a \<Rightarrow> 'a \<Rightarrow> int) \<Rightarrow> 'a list \<Rightarrow> nat \<Rightarrow> nat \<Rightarrow> 'a \<Rightarrow> nat res" where
  "upper_bound cmp a idx n v = bound_loop (\<lambda>x. cmp v x < 0) n a idx (sz (idx + n))"

definition binary_search :: "('a \<Rightarrow> 'a \<Rightarrow> int) \<Rightarrow> 'a list \<Rightarrow> nat \<Rightarrow> nat \<Rightarrow> 'a \<Rightarrow> nat res" where
  "binary_search cmp a idx n v = rbind (lower_bound cmp a idx n v) (\<lambda>i.
     if i = sz (idx + n) then Inr i else
     rbind (arr_get a i) (\<lambda>x. if cmp v x \<noteq> 0 then Inr (sz (idx + n)) else Inr i))"

subsection \<open>Reversing\<close>

fun swap_ends_loop :: "nat \<Rightarrow> 'a list \<Rightarrow> nat \<Rightarrow> nat \<Rightarrow> 'a list res" where
  "swap_ends_loop 0 a first last' = (if first < last' then Inl OutOfFuel else Inr a)"
| "swap_ends_loop (Suc fuel) a first last' = (if first < last' then
     rbind (arr_swap a first last') (\<lambda>a1. swap_ends_loop fuel a1 (first + 1) (last' - 1)) else Inr a)"

definition arr_reverse :: "'a list \<Rightarrow> nat \<Rightarrow> nat \<Rightarrow> 'a list res" where
  "arr_reverse a idx n = (let last' = sz_sub (sz (idx + n)) 1 in swap_ends_loop last' a idx last')"

subsection \<open>Insertion sort\<close>

primrec sink_loop :: "('a \<Rightarrow> 'a \<Rightarrow> int) \<Rightarrow> nat \<Rightarrow> 'a list \<Rightarrow> nat \<Rightarrow> 'a list res" where
  "sink_loop cmp 0 a idx = Inr a"
| "sink_loop cmp (Suc j) a idx = rbind (arr_get a (idx + j)) (\<lambda>x. rbind (arr_get a (idx + Suc j)) (\<lambda>y.
     if cmp x y > 0 then rbind (arr_swap a (idx + Suc j) (idx + j)) (\<lambda>a1. sink_loop cmp j a1 idx) else Inr a))"

definition insertion_sort :: "('a \<Rightarrow> 'a \<Rightarrow> int) \<Rightarrow> 'a list \<Rightarrow> nat \<Rightarrow> nat \<Rightarrow> 'a list res" where
  "insertion_sort cmp a idx n = rfold (\<lambda>a i. sink_loop cmp i a idx) a [1..<n]"

subsection \<open>Quicksort\<close>

definition SWITCH_INSERTION_SORT :: nat where
  "SWITCH_INSERTION_SORT = 9"

text \<open>One comparison of the median of three, with the exchange it may cause.\<close>

definition cmp_swap :: "('a \<Rightarrow> 'a \<Rightarrow> int) \<Rightarrow> 'a list \<Rightarrow> nat \<Rightarrow> nat \<Rightarrow> 'a list res" where
  "cmp_swap cmp a i j = rbind (arr_get a i) (\<lambda>x. rbind (arr_get a j) (\<lambda>y.
     if cmp x y > 0 then arr_swap a i j else Inr a))"

text \<open>The scans \<open>do i++ while (...)\<close> and \<open>do j-- while (...)\<close>.\<close>

fun up_loop :: "('a \<Rightarrow> 'a \<Rightarrow> int) \<Rightarrow> nat \<Rightarrow> 'a list \<Rightarrow> nat \<Rightarrow> nat \<Rightarrow> nat res" where
  "up_loop cmp 0 a i r = Inl OutOfFuel"
| "up_loop cmp (Suc fuel) a i r = rbind (arr_get a (i + 1)) (\<lambda>x. rbind (arr_get a (r - 1)) (\<lambda>p.
     if cmp x p < 0 then up_loop cmp fuel a (i + 1) r else Inr (i + 1)))"

fun down_loop :: "('a \<Rightarrow> 'a \<Rightarrow> int) \<Rightarrow> nat \<Rightarrow> 'a list \<Rightarrow> nat \<Rightarrow> nat \<Rightarrow> nat \<Rightarrow> nat res" where
  "down_loop cmp 0 a i j r = Inl OutOfFuel"
| "down_loop cmp (Suc fuel) a i j r = (let j1 = sz_sub j 1 in if \<not> i < j1 then Inr j1 else
     rbind (arr_get a (r - 1)) (\<lambda>p. rbind (arr_get a j1) (\<lambda>x.
       if cmp p x < 0 then down_loop cmp fuel a i j1 r else Inr j1)))"

fun partition_loop :: "('a \<Rightarrow> 'a \<Rightarrow> int) \<Rightarrow> nat \<Rightarrow> 'a list \<Rightarrow> nat \<Rightarrow> nat \<Rightarrow> nat \<Rightarrow> ('a list \<times> nat) res" where
  "partition_loop cmp 0 a i j r = Inl OutOfFuel"
| "partition_loop cmp (Suc fuel) a i j r = rbind (up_loop cmp r a i r) (\<lambda>i1.
     rbind (down_loop cmp r a i1 j r) (\<lambda>j1. if i1 \<ge> j1 then Inr (a, i1) else
       rbind (arr_swap a i1 j1) (\<lambda>a1. partition_loop cmp fuel a1 i1 j1 r)))"

text \<open>One range: the pivot is put into its place \<open>i\<close>.\<close>

definition split_range :: "('a \<Rightarrow> 'a \<Rightarrow> int) \<Rightarrow> 'a list \<Rightarrow> nat \<Rightarrow> nat \<Rightarrow> ('a list \<times> nat) res" where
  "split_range cmp a l r = (let middle = sz (l + r) div 2 in
     rbind (cmp_swap cmp a l middle) (\<lambda>a1. rbind (cmp_swap cmp a1 l r) (\<lambda>a2.
     rbind (cmp_swap cmp a2 middle r) (\<lambda>a3. rbind (arr_swap a3 middle (r - 1)) (\<lambda>a4.
     rbind (partition_loop cmp r a4 l (r - 1) r) (\<lambda>(a5, i).
     rbind (arr_swap a5 i (r - 1)) (\<lambda>a6. Inr (a6, i))))))))"

text \<open>The stack, the arrays \<open>low\<close> and \<open>high\<close> of 32 entries with the first free index \<open>sp\<close>, is the list of
  the pairs in use, the top one first.  There is no room for a 33rd pair.\<close>

definition stack_push :: "(nat \<times> nat) \<Rightarrow> (nat \<times> nat) list \<Rightarrow> (nat \<times> nat) list res" where
  "stack_push p st = (if length st < 32 then Inr (p # st) else Inl OutOfBounds)"

fun sort_loop :: "('a \<Rightarrow> 'a \<Rightarrow> int) \<Rightarrow> nat \<Rightarrow> 'a list \<Rightarrow> (nat \<times> nat) list \<Rightarrow> 'a list res" where
  "sort_loop cmp fuel a [] = Inr a"
| "sort_loop cmp 0 a (p # st) = Inl OutOfFuel"
| "sort_loop cmp (Suc fuel) a ((l, r) # st) = (if l < r then
     if r - l < SWITCH_INSERTION_SORT then
       rbind (insertion_sort cmp a l (r - l + 1)) (\<lambda>a1. sort_loop cmp fuel a1 st)
     else rbind (split_range cmp a l r) (\<lambda>(a1, i).
       if i - l < r - i then
         rbind (stack_push (i + 1, r) st) (\<lambda>st1. rbind (stack_push (l, i - 1) st1) (\<lambda>st2. sort_loop cmp fuel a1 st2))
       else
         rbind (stack_push (l, i - 1) st) (\<lambda>st1. rbind (stack_push (i + 1, r) st1) (\<lambda>st2. sort_loop cmp fuel a1 st2)))
     else sort_loop cmp fuel a st)"

definition arr_sort :: "('a \<Rightarrow> 'a \<Rightarrow> int) \<Rightarrow> 'a list \<Rightarrow> nat \<Rightarrow> nat \<Rightarrow> 'a list res" where
  "arr_sort cmp a idx n = sort_loop cmp (2 * n + 1) a [(idx, sz_sub (sz (idx + n)) 1)]"

subsection \<open>Orders and rearrangements\<close>

text \<open>\<open>b\<close> has the elements of \<open>a\<close>, moved within \<open>[l, r)\<close> only.\<close>

definition arranged :: "nat \<Rightarrow> nat \<Rightarrow> 'a list \<Rightarrow> 'a list \<Rightarrow> bool" where
  "arranged l r a b \<longleftrightarrow> mset b = mset a \<and> (\<forall>i < length a. i < l \<or> r \<le> i \<longrightarrow> b ! i = a ! i)"

definition sorted_on :: "('a \<Rightarrow> 'a \<Rightarrow> int) \<Rightarrow> nat \<Rightarrow> nat \<Rightarrow> 'a list \<Rightarrow> bool" where
  "sorted_on cmp l r a \<longleftrightarrow> (\<forall>i j. l \<le> i \<longrightarrow> i < j \<longrightarrow> j < r \<longrightarrow> cmp (a ! i) (a ! j) \<le> 0)"

lemma sorted_onD: "sorted_on cmp l r a \<Longrightarrow> l \<le> i \<Longrightarrow> i < j \<Longrightarrow> j < r \<Longrightarrow> cmp (a ! i) (a ! j) \<le> 0"
  by (simp add: sorted_on_def)

lemma arranged_length: "arranged l r a b \<Longrightarrow> length b = length a"
  by (metis arranged_def size_mset)

lemma arranged_refl [simp]: "arranged l r a a"
  by (simp add: arranged_def)

lemma arranged_trans: "arranged l r a b \<Longrightarrow> arranged l r b c \<Longrightarrow> arranged l r a c"
  using arranged_length [of l r a b] by (simp add: arranged_def)

lemma arranged_mono: "arranged l r a b \<Longrightarrow> l' \<le> l \<Longrightarrow> r \<le> r' \<Longrightarrow> arranged l' r' a b"
  by (auto simp: arranged_def)

lemma arranged_nth: "arranged l r a b \<Longrightarrow> i < length a \<Longrightarrow> i < l \<or> r \<le> i \<Longrightarrow> b ! i = a ! i"
  unfolding arranged_def by blast

text \<open>The part of a list between two indices.\<close>

definition segment :: "nat \<Rightarrow> nat \<Rightarrow> 'a list \<Rightarrow> 'a list" where
  "segment l r a = take (r - l) (drop l a)"

lemma segment_split: "l \<le> r \<Longrightarrow> r \<le> length a \<Longrightarrow> a = take l a @ segment l r a @ drop r a"
  unfolding segment_def by (metis append_take_drop_id drop_drop le_add_diff_inverse2)

lemma length_segment [simp]: "r \<le> length a \<Longrightarrow> length (segment l r a) = r - l"
  by (simp add: segment_def)

lemma nth_segment: "r \<le> length a \<Longrightarrow> i < r - l \<Longrightarrow> segment l r a ! i = a ! (l + i)"
  by (simp add: segment_def)

lemma set_segment: "r \<le> length a \<Longrightarrow> set (segment l r a) = {a ! i |i. l \<le> i \<and> i < r}"
proof -
  assume r: "r \<le> length a"
  have "x \<in> set (segment l r a) \<longleftrightarrow> (\<exists>i. l \<le> i \<and> i < r \<and> x = a ! i)" for x
  proof
    assume "x \<in> set (segment l r a)"
    then obtain i where "i < r - l" "x = a ! (l + i)" using r by (auto simp: in_set_conv_nth nth_segment)
    then show "\<exists>i. l \<le> i \<and> i < r \<and> x = a ! i" by (intro exI [of _ "l + i"]) auto
  next
    assume "\<exists>i. l \<le> i \<and> i < r \<and> x = a ! i"
    then obtain i where i: "l \<le> i" "i < r" "x = a ! i" by blast
    then have "segment l r a ! (i - l) = x" "i - l < length (segment l r a)" using r by (auto simp: nth_segment)
    then show "x \<in> set (segment l r a)" by (metis nth_mem)
  qed
  then show ?thesis by auto
qed

lemma arranged_segment:
  assumes "arranged l r a b" "l \<le> r" "r \<le> length a"
  shows "mset (segment l r b) = mset (segment l r a)"
proof -
  have len: "length b = length a" by (rule arranged_length [OF assms(1)])
  have "take l b = take l a" "drop r b = drop r a"
    using assms len by (auto intro!: nth_equalityI simp: arranged_nth)
  moreover have "mset (take l b) + mset (segment l r b) + mset (drop r b) =
      mset (take l a) + mset (segment l r a) + mset (drop r a)"
    using segment_split [of l r a] segment_split [of l r b] assms len
    by (metis arranged_def mset_append add.assoc)
  ultimately show ?thesis by simp
qed

text \<open>What holds of all elements of a range holds of them after a rearrangement.\<close>

lemma arranged_all:
  assumes "arranged l r a b" "l \<le> r" "r \<le> length a" "\<And>i. l \<le> i \<Longrightarrow> i < r \<Longrightarrow> P (a ! i)" "l \<le> j" "j < r"
  shows "P (b ! j)"
proof -
  have "set (segment l r b) = set (segment l r a)" using arranged_segment [OF assms(1-3)] by (metis set_mset_mset)
  moreover have "b ! j \<in> set (segment l r b)"
    using assms(3,5,6) arranged_length [OF assms(1)] by (auto simp: set_segment)
  ultimately show ?thesis using assms(3,4) by (auto simp: set_segment)
qed

lemma arr_swap_ok:
  assumes "i < length a" "j < length a"
  shows "arr_swap a i j = Inr (a[i := a ! j, j := a ! i])"
  using assms by (simp add: arr_swap_def arr_get_def arr_set_def)

lemma arranged_swap:
  assumes "i < length a" "j < length a" "l \<le> i" "i < r" "l \<le> j" "j < r"
  shows "arranged l r a (a[i := a ! j, j := a ! i])"
  using assms mset_swap [of j a i] by (auto simp: arranged_def)

subsection \<open>Bisection finds the boundary\<close>

text \<open>\<open>t\<close> is false up to a position and true from there on.\<close>

lemma bound_loop_correct:
  assumes "\<And>i j. lo \<le> i \<Longrightarrow> i \<le> j \<Longrightarrow> j < hi \<Longrightarrow> t (a ! i) \<Longrightarrow> t (a ! j)" "hi \<le> length a" "length a < 2 ^ 63"
    and "lo \<le> first" "first \<le> last'" "last' \<le> hi" "last' - first \<le> fuel"
    and "\<And>i. lo \<le> i \<Longrightarrow> i < first \<Longrightarrow> \<not> t (a ! i)" "\<And>i. last' \<le> i \<Longrightarrow> i < hi \<Longrightarrow> t (a ! i)"
  shows "\<exists>k. bound_loop t fuel a first last' = Inr k \<and> lo \<le> k \<and> k \<le> hi \<and>
    (\<forall>i. lo \<le> i \<longrightarrow> i < k \<longrightarrow> \<not> t (a ! i)) \<and> (\<forall>i. k \<le> i \<longrightarrow> i < hi \<longrightarrow> t (a ! i))"
  using assms(4-)
proof (induction fuel arbitrary: first last')
  case 0
  then show ?case by auto
next
  case (Suc fuel)
  show ?case
  proof (cases "first < last'")
    case False
    then show ?thesis using Suc.prems by auto
  next
    case True
    define m where "m = (first + last') div 2"
    have "first + last' \<le> NPOS" using Suc.prems(2,3) True assms(2,3) by (simp add: NPOS_def)
    then have s: "sz (first + last') div 2 = m" by (simp add: m_def sz_id)
    have m: "first \<le> m" "m < last'" using True by (auto simp: m_def)
    then have ml: "m < hi" "m < length a" "lo \<le> m" using Suc.prems assms(2) by auto
    show ?thesis
    proof (cases "t (a ! m)")
      case t: True
      have "t (a ! i)" if "m \<le> i" "i < hi" for i using assms(1) [OF ml(3) that] t by blast
      with Suc.IH [of first m] Suc.prems m show ?thesis
        using True t ml(2) s by (auto simp: arr_get_def)
    next
      case f: False
      have "\<not> t (a ! i)" if "lo \<le> i" "i < m + 1" for i using assms(1) [of i m] that f ml by auto
      with Suc.IH [of "m + 1" last'] Suc.prems m ml show ?thesis
        using True f s by (auto simp: arr_get_def)
    qed
  qed
qed

lemma bound_whole:
  assumes "\<And>i j. idx \<le> i \<Longrightarrow> i \<le> j \<Longrightarrow> j < idx + n \<Longrightarrow> t (a ! i) \<Longrightarrow> t (a ! j)" "idx + n \<le> length a" "length a < 2 ^ 63"
  shows "\<exists>k. bound_loop t n a idx (idx + n) = Inr k \<and> idx \<le> k \<and> k \<le> idx + n \<and>
    (\<forall>i. idx \<le> i \<longrightarrow> i < k \<longrightarrow> \<not> t (a ! i)) \<and> (\<forall>i. k \<le> i \<longrightarrow> i < idx + n \<longrightarrow> t (a ! i))"
  by (rule bound_loop_correct [where lo = idx and hi = "idx + n" and t = t and a = a]; (rule assms)?) auto

lemma lower_bound_correct:
  assumes "total_cmp cmp" "sorted_on cmp idx (idx + n) a" "idx + n \<le> length a" "length a < 2 ^ 63"
  shows "\<exists>k. lower_bound cmp a idx n v = Inr k \<and> idx \<le> k \<and> k \<le> idx + n \<and>
    (\<forall>i. idx \<le> i \<longrightarrow> i < k \<longrightarrow> cmp (a ! i) v < 0) \<and> (\<forall>i. k \<le> i \<longrightarrow> i < idx + n \<longrightarrow> cmp v (a ! i) \<le> 0)"
proof -
  have s: "sz (idx + n) = idx + n" using assms(3,4) by (simp add: sz_id NPOS_def)
  have "cmp v (a ! j) \<le> 0" if "idx \<le> i" "i \<le> j" "j < idx + n" "cmp v (a ! i) \<le> 0" for i j
  proof (cases "i = j")
    case False
    with that have "cmp (a ! i) (a ! j) \<le> 0" by (intro sorted_onD [OF assms(2)]) auto
    with that(4) show ?thesis by (rule total_cmpD(2) [OF assms(1)])
  qed (use that in simp)
  note mono = this
  have "\<exists>k. bound_loop (\<lambda>x. cmp v x \<le> 0) n a idx (idx + n) = Inr k \<and> idx \<le> k \<and> k \<le> idx + n \<and>
    (\<forall>i. idx \<le> i \<longrightarrow> i < k \<longrightarrow> \<not> cmp v (a ! i) \<le> 0) \<and> (\<forall>i. k \<le> i \<longrightarrow> i < idx + n \<longrightarrow> cmp v (a ! i) \<le> 0)"
    by (rule bound_whole [where t = "\<lambda>x. cmp v x \<le> 0" and a = a]) (rule mono assms(3,4); assumption)+
  then obtain k where "bound_loop (\<lambda>x. cmp v x \<le> 0) n a idx (idx + n) = Inr k" "idx \<le> k" "k \<le> idx + n"
    "\<forall>i. idx \<le> i \<longrightarrow> i < k \<longrightarrow> \<not> cmp v (a ! i) \<le> 0" "\<forall>i. k \<le> i \<longrightarrow> i < idx + n \<longrightarrow> cmp v (a ! i) \<le> 0"
    by auto
  then show ?thesis using s total_cmpD(6) [OF assms(1)] by (auto simp: lower_bound_def)
qed

lemma upper_bound_correct:
  assumes "total_cmp cmp" "sorted_on cmp idx (idx + n) a" "idx + n \<le> length a" "length a < 2 ^ 63"
  shows "\<exists>k. upper_bound cmp a idx n v = Inr k \<and> idx \<le> k \<and> k \<le> idx + n \<and>
    (\<forall>i. idx \<le> i \<longrightarrow> i < k \<longrightarrow> cmp (a ! i) v \<le> 0) \<and> (\<forall>i. k \<le> i \<longrightarrow> i < idx + n \<longrightarrow> cmp v (a ! i) < 0)"
proof -
  have s: "sz (idx + n) = idx + n" using assms(3,4) by (simp add: sz_id NPOS_def)
  have "cmp v (a ! j) < 0" if "idx \<le> i" "i \<le> j" "j < idx + n" "cmp v (a ! i) < 0" for i j
  proof (cases "i = j")
    case False
    with that have "cmp (a ! i) (a ! j) \<le> 0" by (intro sorted_onD [OF assms(2)]) auto
    with that(4) show ?thesis by (rule total_cmpD(7) [OF assms(1)])
  qed (use that in simp)
  note mono = this
  have "\<exists>k. bound_loop (\<lambda>x. cmp v x < 0) n a idx (idx + n) = Inr k \<and> idx \<le> k \<and> k \<le> idx + n \<and>
    (\<forall>i. idx \<le> i \<longrightarrow> i < k \<longrightarrow> \<not> cmp v (a ! i) < 0) \<and> (\<forall>i. k \<le> i \<longrightarrow> i < idx + n \<longrightarrow> cmp v (a ! i) < 0)"
    by (rule bound_whole [where t = "\<lambda>x. cmp v x < 0" and a = a]) (rule mono assms(3,4); assumption)+
  then obtain k where "bound_loop (\<lambda>x. cmp v x < 0) n a idx (idx + n) = Inr k" "idx \<le> k" "k \<le> idx + n"
    "\<forall>i. idx \<le> i \<longrightarrow> i < k \<longrightarrow> \<not> cmp v (a ! i) < 0" "\<forall>i. k \<le> i \<longrightarrow> i < idx + n \<longrightarrow> cmp v (a ! i) < 0"
    by auto
  then show ?thesis using s total_cmpD(6) [OF assms(1)] by (auto simp: upper_bound_def)
qed

lemma binary_search_correct:
  assumes "total_cmp cmp" "sorted_on cmp idx (idx + n) a" "idx + n \<le> length a" "length a < 2 ^ 63"
  shows "\<exists>k. binary_search cmp a idx n v = Inr k \<and>
    (if k < idx + n then idx \<le> k \<and> cmp v (a ! k) = 0 \<and> (\<forall>i. idx \<le> i \<longrightarrow> i < k \<longrightarrow> cmp (a ! i) v < 0)
     else k = idx + n \<and> (\<forall>i. idx \<le> i \<longrightarrow> i < idx + n \<longrightarrow> cmp v (a ! i) \<noteq> 0))"
proof -
  have s: "sz (idx + n) = idx + n" using assms(3,4) by (simp add: sz_id NPOS_def)
  obtain k where k: "lower_bound cmp a idx n v = Inr k" "idx \<le> k" "k \<le> idx + n"
      "\<And>i. idx \<le> i \<Longrightarrow> i < k \<Longrightarrow> cmp (a ! i) v < 0" "\<And>i. k \<le> i \<Longrightarrow> i < idx + n \<Longrightarrow> cmp v (a ! i) \<le> 0"
    using lower_bound_correct [OF assms] by blast
  have before: "cmp v (a ! i) \<noteq> 0" if "idx \<le> i" "i < k" for i
    using k(4) [OF that] total_cmpD(1) [OF assms(1), of "a ! i" v] by simp
  have "k < idx + n \<Longrightarrow> cmp v (a ! k) \<le> 0" using k(5) [of k] by simp
  then consider "k = idx + n" | "k < idx + n" "cmp v (a ! k) = 0" | "k < idx + n" "cmp v (a ! k) < 0"
    using k(3) by linarith
  then show ?thesis
  proof cases
    case 1
    then have "binary_search cmp a idx n v = Inr (idx + n)" using k(1) s by (simp add: binary_search_def)
    moreover have "\<forall>i. idx \<le> i \<longrightarrow> i < idx + n \<longrightarrow> cmp v (a ! i) \<noteq> 0" using before 1 by blast
    ultimately show ?thesis by simp
  next
    case 2
    then have "binary_search cmp a idx n v = Inr k" using k(1) s assms(3) by (simp add: binary_search_def arr_get_def)
    with 2 k(2,4) show ?thesis by simp
  next
    case 3
    have "cmp v (a ! i) \<noteq> 0" if i: "idx \<le> i" "i < idx + n" for i
    proof -
      consider "i < k" | "i = k" | "k < i" by linarith
      then show ?thesis
      proof cases
        assume "k < i"
        then have "cmp (a ! k) (a ! i) \<le> 0" using i k(2) by (intro sorted_onD [OF assms(2)]) auto
        with \<open>cmp v (a ! k) < 0\<close> have "cmp v (a ! i) < 0" by (rule total_cmpD(7) [OF assms(1)])
        then show ?thesis by simp
      qed (use before i 3 in auto)
    qed
    moreover have "binary_search cmp a idx n v = Inr (idx + n)"
      using 3 k(1) s assms(3) by (simp add: binary_search_def arr_get_def)
    ultimately show ?thesis by simp
  qed
qed


subsection \<open>Reversing\<close>

lemma swap_ends_loop_correct:
  assumes "last' < length a" "last' - first \<le> fuel"
  shows "\<exists>b. swap_ends_loop fuel a first last' = Inr b \<and> length b = length a \<and>
    (\<forall>i < length a. b ! i = a ! (if first \<le> i \<and> i \<le> last' then first + last' - i else i))"
  using assms
proof (induction fuel arbitrary: a first last')
  case 0
  then show ?case by (auto intro!: arg_cong [of _ _ "(!) a"])
next
  case (Suc fuel)
  show ?case
  proof (cases "first < last'")
    case False
    then show ?thesis by (auto intro!: arg_cong [of _ _ "(!) a"])
  next
    case True
    let ?a1 = "a[first := a ! last', last' := a ! first]"
    have "last' - 1 < length ?a1" "last' - 1 - (first + 1) \<le> fuel" using Suc.prems True by auto
    from Suc.IH [OF this] obtain b where b: "swap_ends_loop fuel ?a1 (first + 1) (last' - 1) = Inr b"
        "length b = length a"
        "\<forall>i < length a. b ! i = ?a1 ! (if first + 1 \<le> i \<and> i \<le> last' - 1 then first + 1 + (last' - 1) - i else i)"
      by auto
    have "b ! i = a ! (if first \<le> i \<and> i \<le> last' then first + last' - i else i)" if "i < length a" for i
    proof -
      consider "i = first" | "i = last'" | "first < i" "i < last'" | "i < first \<or> last' < i" by linarith
      then show ?thesis
        using that b(3) True Suc.prems(1) by cases (auto simp: nth_list_update)
    qed
    with True Suc.prems(1) b(1,2) arr_swap_ok [of first a last'] show ?thesis by auto
  qed
qed

lemma arr_reverse_correct:
  assumes "idx + n \<le> length a" "0 < n" "length a < 2 ^ 63"
  shows "\<exists>b. arr_reverse a idx n = Inr b \<and> b = take idx a @ rev (segment idx (idx + n) a) @ drop (idx + n) a"
proof -
  have s: "sz (idx + n) = idx + n" using assms by (simp add: sz_id NPOS_def)
  have "idx + n - 1 < length a" "idx + n - 1 - idx \<le> idx + n - 1" using assms by auto
  from swap_ends_loop_correct [OF this] obtain b where
    b: "swap_ends_loop (idx + n - 1) a idx (idx + n - 1) = Inr b" "length b = length a"
      "\<forall>i < length a. b ! i = a ! (if idx \<le> i \<and> i \<le> idx + n - 1 then idx + (idx + n - 1) - i else i)" by blast
  have "b = take idx a @ rev (segment idx (idx + n) a) @ drop (idx + n) a"
  proof (rule nth_equalityI)
    show "length b = length (take idx a @ rev (segment idx (idx + n) a) @ drop (idx + n) a)"
      using assms(1) b(2) by simp
    fix i assume i: "i < length b"
    consider "i < idx" | "idx \<le> i" "i < idx + n" | "idx + n \<le> i" by linarith
    then show "b ! i = (take idx a @ rev (segment idx (idx + n) a) @ drop (idx + n) a) ! i"
    proof cases
      case 2
      then have "rev (segment idx (idx + n) a) ! (i - idx) = a ! (idx + (idx + n - 1) - i)"
        using assms(1) by (auto simp: rev_nth nth_segment intro!: arg_cong [of _ _ "(!) a"])
      moreover have "b ! i = a ! (idx + (idx + n - 1) - i)" using 2 i b(2,3) by auto
      moreover have "(take idx a @ rev (segment idx (idx + n) a) @ drop (idx + n) a) ! i = rev (segment idx (idx + n) a) ! (i - idx)"
        using 2 assms(1) by (simp add: nth_append) (metis less_diff_conv2 add.commute)
      ultimately show ?thesis by (simp only:)
    next
      case 1
      then show ?thesis using i b(2,3) assms(1) by (simp add: nth_append)
    next
      case 3
      then have neg: "\<not> (idx \<le> i \<and> i \<le> idx + n - 1)" using assms(2) by auto
      have "i < length a" using i b(2) by simp
      from b(3) [rule_format, OF this, unfolded if_not_P [OF neg]] have "b ! i = a ! i" .
      moreover have "(take idx a @ rev (segment idx (idx + n) a) @ drop (idx + n) a) ! i = a ! i"
      proof -
        have "\<not> i - idx < n" "\<not> i < idx" using 3 by linarith+
        then show ?thesis using 3 i b(2) assms(1) by (simp add: nth_append)
      qed
      ultimately show ?thesis by simp
    qed
  qed
  with b(1) s assms(2) show ?thesis by (simp add: arr_reverse_def Let_def)
qed

text \<open>With no elements at the start of the container, \<open>last\<close> wraps around.\<close>

lemma arr_reverse_nothing: "length a < 2 ^ 63 \<Longrightarrow> arr_reverse a 0 0 = Inl OutOfBounds"
proof -
  assume "length a < 2 ^ 63"
  then have "arr_get a (Suc (2 ^ 64 - 2)) = Inl OutOfBounds" by (simp add: arr_get_def)
  then have "swap_ends_loop (Suc (2 ^ 64 - 2)) a 0 (Suc (2 ^ 64 - 2)) = Inl OutOfBounds"
    using \<open>length a < 2 ^ 63\<close> unfolding swap_ends_loop.simps(2) arr_swap_def
    by (cases "a = []") (auto simp: arr_get_def)
  moreover have "sz_sub (sz (0 + 0)) 1 = Suc (2 ^ 64 - 2)" by (simp add: sz_def sz_sub_def)
  ultimately show ?thesis by (simp only: arr_reverse_def Let_def)
qed

subsection \<open>Insertion sort\<close>

text \<open>No two equivalent elements have changed places.\<close>

definition steady :: "('a \<Rightarrow> 'a \<Rightarrow> int) \<Rightarrow> 'a list \<Rightarrow> 'a list \<Rightarrow> bool" where
  "steady cmp a b \<longleftrightarrow> (\<forall>v. filter (\<lambda>x. cmp x v = 0) b = filter (\<lambda>x. cmp x v = 0) a)"

lemma steady_refl [simp]: "steady cmp a a"
  by (simp add: steady_def)

lemma steady_trans: "steady cmp a b \<Longrightarrow> steady cmp b c \<Longrightarrow> steady cmp a c"
  by (simp add: steady_def)

lemma swap_next_split:
  assumes "Suc i < length a"
  shows "a = take i a @ a ! i # a ! Suc i # drop (Suc (Suc i)) a"
    and "a[Suc i := a ! i, i := a ! Suc i] = take i a @ a ! Suc i # a ! i # drop (Suc (Suc i)) a"
proof -
  show eq: "a = take i a @ a ! i # a ! Suc i # drop (Suc (Suc i)) a"
    using assms by (simp add: Cons_nth_drop_Suc id_take_nth_drop [symmetric])
  show "a[Suc i := a ! i, i := a ! Suc i] = take i a @ a ! Suc i # a ! i # drop (Suc (Suc i)) a"
    using assms by (intro nth_equalityI) (auto simp: nth_append nth_list_update nth_Cons
        split: nat.splits intro!: arg_cong [of _ _ "(!) a"])
qed

lemma steady_swap:
  assumes "total_cmp cmp" "Suc i < length a" "cmp (a ! i) (a ! Suc i) > 0"
  shows "steady cmp a (a[Suc i := a ! i, i := a ! Suc i])"
proof -
  have "\<not> (cmp (a ! i) v = 0 \<and> cmp (a ! Suc i) v = 0)" for v
  proof
    assume "cmp (a ! i) v = 0 \<and> cmp (a ! Suc i) v = 0"
    then have "cmp (a ! i) v \<le> 0" "cmp v (a ! Suc i) \<le> 0" using total_cmpD(1) [OF assms(1), of "a ! Suc i" v] by auto
    then have "cmp (a ! i) (a ! Suc i) \<le> 0" by (rule total_cmpD(2) [OF assms(1)])
    with assms(3) show False by simp
  qed
  then have "filter (\<lambda>x. cmp x v = 0) (take i a @ a ! Suc i # a ! i # drop (Suc (Suc i)) a) =
      filter (\<lambda>x. cmp x v = 0) (take i a @ a ! i # a ! Suc i # drop (Suc (Suc i)) a)" for v by auto
  then show ?thesis
    unfolding steady_def swap_next_split(2) [OF assms(2)] using swap_next_split(1) [OF assms(2)] by metis
qed

lemma sink_loop_correct:
  assumes "total_cmp cmp" "idx + i < length a" "j \<le> i"
    "\<And>p q. p < q \<Longrightarrow> q \<le> i \<Longrightarrow> q \<noteq> j \<Longrightarrow> cmp (a ! (idx + p)) (a ! (idx + q)) \<le> 0"
  shows "\<exists>b. sink_loop cmp j a idx = Inr b \<and> arranged idx (idx + Suc i) a b \<and> steady cmp a b \<and>
    sorted_on cmp idx (idx + Suc i) b"
  using assms(2-)
proof (induction j arbitrary: a)
  case 0
  have "sorted_on cmp idx (idx + Suc i) a"
    unfolding sorted_on_def
  proof (intro allI impI)
    fix p q assume "idx \<le> p" "p < q" "q < idx + Suc i"
    then show "cmp (a ! p) (a ! q) \<le> 0" using 0(3) [of "p - idx" "q - idx"] by simp
  qed
  then show ?case by simp
next
  case (Suc j)
  let ?x = "a ! (idx + j)" and ?y = "a ! (idx + Suc j)"
  have lt: "idx + j < length a" "idx + Suc j < length a" using Suc.prems by auto
  show ?case
  proof (cases "cmp ?x ?y > 0")
    case False
    have "cmp (a ! (idx + p)) (a ! (idx + q)) \<le> 0" if pq: "p < q" "q \<le> i" for p q
    proof (cases "q = Suc j")
      case True
      have "cmp (a ! (idx + p)) ?x \<le> 0"
        using Suc.prems(3) [of p j] pq True Suc.prems(2) total_cmpD(3) [OF assms(1), of ?x] by (cases "p = j") auto
      then show ?thesis using False True total_cmpD(2) [OF assms(1), of "a ! (idx + p)" ?x ?y] by simp
    qed (use pq Suc.prems(3) in blast)
    note all = this
    have "sorted_on cmp idx (idx + Suc i) a"
      unfolding sorted_on_def
    proof (intro allI impI)
      fix p q assume "idx \<le> p" "p < q" "q < idx + Suc i"
      then show "cmp (a ! p) (a ! q) \<le> 0" using all [of "p - idx" "q - idx"] by simp
    qed
    with False lt show ?thesis by (simp add: arr_get_def)
  next
    case True
    let ?a1 = "a[idx + Suc j := ?x, idx + j := ?y]"
    have sw: "arr_swap a (idx + Suc j) (idx + j) = Inr ?a1" using arr_swap_ok [OF lt(2,1)] by simp
    have nth: "?a1 ! (idx + q) = (if q = j then ?y else if q = Suc j then ?x else a ! (idx + q))" if "q \<le> i" for q
      using that lt Suc.prems(1) by (auto simp: nth_list_update)
    have inv: "cmp (?a1 ! (idx + p)) (?a1 ! (idx + q)) \<le> 0" if pq: "p < q" "q \<le> i" "q \<noteq> j" for p q
    proof -
      have n: "p \<le> i" using pq by simp
      have xy: "cmp ?y ?x \<le> 0" using total_cmpD(4) [OF assms(1) True] .
      consider "p = j" "q = Suc j" | "p = j" "q > Suc j" | "p = Suc j" "q > Suc j" | "p < j" "q = Suc j" |
          "p \<noteq> j" "p \<noteq> Suc j" "q \<noteq> j" "q \<noteq> Suc j" using pq by linarith
      then show ?thesis
        unfolding nth [OF n] nth [OF pq(2)]
      proof cases
        case 1
        then show "cmp (if p = j then ?y else if p = Suc j then ?x else a ! (idx + p))
          (if q = j then ?y else if q = Suc j then ?x else a ! (idx + q)) \<le> 0" using xy by simp
      next
        case 2
        then show "cmp (if p = j then ?y else if p = Suc j then ?x else a ! (idx + p))
          (if q = j then ?y else if q = Suc j then ?x else a ! (idx + q)) \<le> 0"
          using Suc.prems(3) [of "Suc j" q] pq by simp
      next
        case 3
        then show "cmp (if p = j then ?y else if p = Suc j then ?x else a ! (idx + p))
          (if q = j then ?y else if q = Suc j then ?x else a ! (idx + q)) \<le> 0"
          using Suc.prems(3) [of j q] pq by simp
      next
        case 4
        then show "cmp (if p = j then ?y else if p = Suc j then ?x else a ! (idx + p))
          (if q = j then ?y else if q = Suc j then ?x else a ! (idx + q)) \<le> 0"
          using Suc.prems(3) [of p j] pq by simp
      next
        case 5
        then show "cmp (if p = j then ?y else if p = Suc j then ?x else a ! (idx + p))
          (if q = j then ?y else if q = Suc j then ?x else a ! (idx + q)) \<le> 0"
          using Suc.prems(3) [of p q] pq by simp
      qed
    qed
    obtain b where b: "sink_loop cmp j ?a1 idx = Inr b" "arranged idx (idx + Suc i) ?a1 b" "steady cmp ?a1 b"
        "sorted_on cmp idx (idx + Suc i) b"
      using Suc.IH [of ?a1, OF _ _ inv] Suc.prems by auto
    have "arranged idx (idx + Suc i) a ?a1"
      using arranged_swap [OF lt(2,1)] Suc.prems(2) by simp
    moreover have "steady cmp a ?a1" using steady_swap [OF assms(1), of "idx + j" a] lt True by simp
    ultimately show ?thesis
      using b sw lt True by (auto simp: arr_get_def intro: arranged_trans steady_trans)
  qed
qed

lemma insertion_sort_correct:
  assumes "total_cmp cmp" "idx + n \<le> length a"
  shows "\<exists>b. insertion_sort cmp a idx n = Inr b \<and> arranged idx (idx + n) a b \<and> steady cmp a b \<and>
    sorted_on cmp idx (idx + n) b"
proof (cases n)
  case 0
  then show ?thesis by (simp add: insertion_sort_def sorted_on_def)
next
  case (Suc m)
  have "\<exists>b. rfold (\<lambda>a i. sink_loop cmp i a idx) a [1..<Suc k] = Inr b \<and> arranged idx (idx + Suc k) a b \<and>
      steady cmp a b \<and> sorted_on cmp idx (idx + Suc k) b" if "idx + k < length a" for k
    using that
  proof (induction k)
    case 0
    then show ?case by (simp add: sorted_on_def)
  next
    case (Suc k)
    then obtain b where b: "rfold (\<lambda>a i. sink_loop cmp i a idx) a [1..<Suc k] = Inr b"
        "arranged idx (idx + Suc k) a b" "steady cmp a b" "sorted_on cmp idx (idx + Suc k) b" by auto
    have len: "idx + Suc k < length b" using arranged_length [OF b(2)] Suc.prems by simp
    have "cmp (b ! (idx + p)) (b ! (idx + q)) \<le> 0" if "p < q" "q \<le> Suc k" "q \<noteq> Suc k" for p q
      using sorted_onD [OF b(4), of "idx + p" "idx + q"] that by simp
    from sink_loop_correct [OF assms(1) len order_refl this] obtain c where
      c: "sink_loop cmp (Suc k) b idx = Inr c" "arranged idx (idx + Suc (Suc k)) b c" "steady cmp b c"
        "sorted_on cmp idx (idx + Suc (Suc k)) c" by blast
    have "arranged idx (idx + Suc (Suc k)) a b" by (rule arranged_mono [OF b(2)]) auto
    with b c show ?case by (auto simp: rfold_append intro: arranged_trans steady_trans)
  qed
  from this [of m] Suc assms(2) show ?thesis by (auto simp: insertion_sort_def simp del: upt_Suc)
qed


subsection \<open>Splitting a range\<close>

lemma up_loop_correct:
  assumes "i < s" "s < length a" "r - 1 < length a" "\<not> cmp (a ! s) (a ! (r - 1)) < 0" "s - i \<le> fuel"
  shows "\<exists>k. up_loop cmp fuel a i r = Inr k \<and> i < k \<and> k \<le> s \<and> \<not> cmp (a ! k) (a ! (r - 1)) < 0 \<and>
    (\<forall>q. i < q \<longrightarrow> q < k \<longrightarrow> cmp (a ! q) (a ! (r - 1)) < 0)"
  using assms(1,5)
proof (induction fuel arbitrary: i)
  case (Suc fuel)
  have lt: "i + 1 < length a" using Suc.prems assms(2) by simp
  show ?case
  proof (cases "cmp (a ! (i + 1)) (a ! (r - 1)) < 0")
    case True
    then have "i + 1 < s" using Suc.prems(1) assms(4) by (metis Suc_eq_plus1 Suc_leI le_neq_implies_less)
    moreover have "s - (i + 1) \<le> fuel" using Suc.prems(2) by simp
    ultimately obtain k where k: "up_loop cmp fuel a (i + 1) r = Inr k" "i + 1 < k" "k \<le> s"
        "\<not> cmp (a ! k) (a ! (r - 1)) < 0" "\<forall>q. i + 1 < q \<longrightarrow> q < k \<longrightarrow> cmp (a ! q) (a ! (r - 1)) < 0" using Suc.IH by blast
    have "cmp (a ! q) (a ! (r - 1)) < 0" if "i < q" "q < k" for q
      using k(5) that True by (cases "q = i + 1") auto
    with k True lt assms(3) show ?thesis by (simp add: arr_get_def)
  next
    case False
    have "up_loop cmp (Suc fuel) a i r = Inr (i + 1)" using False lt assms(3) by (simp add: arr_get_def)
    moreover have "\<forall>q. i < q \<longrightarrow> q < i + 1 \<longrightarrow> cmp (a ! q) (a ! (r - 1)) < 0" by auto
    ultimately show ?thesis using False Suc.prems(1) by (intro exI [of _ "i + 1"]) auto
  qed
qed simp

lemma down_loop_correct:
  assumes "0 < j" "j \<le> length a" "r - 1 < length a" "j \<le> fuel"
  shows "\<exists>k. down_loop cmp fuel a i j r = Inr k \<and> k < j \<and> (i < j \<longrightarrow> i \<le> k) \<and>
    (k \<le> i \<or> \<not> cmp (a ! (r - 1)) (a ! k) < 0) \<and>
    (\<forall>q. k < q \<longrightarrow> q < j \<longrightarrow> cmp (a ! (r - 1)) (a ! q) < 0)"
  using assms(1,2,4)
proof (induction fuel arbitrary: j)
  case (Suc fuel)
  have j1: "sz_sub j 1 = j - 1" using Suc.prems(1) by simp
  show ?case
  proof (cases "i < j - 1 \<and> cmp (a ! (r - 1)) (a ! (j - 1)) < 0")
    case True
    then have "0 < j - 1" "j - 1 \<le> length a" "j - 1 \<le> fuel" using Suc.prems by auto
    from Suc.IH [OF this] obtain k where k: "down_loop cmp fuel a i (j - 1) r = Inr k" "k < j - 1"
        "i < j - 1 \<longrightarrow> i \<le> k" "k \<le> i \<or> \<not> cmp (a ! (r - 1)) (a ! k) < 0"
        "\<forall>q. k < q \<longrightarrow> q < j - 1 \<longrightarrow> cmp (a ! (r - 1)) (a ! q) < 0" by blast
    have "cmp (a ! (r - 1)) (a ! q) < 0" if "k < q" "q < j" for q
      using k(5) that True by (cases "q = j - 1") auto
    moreover have "down_loop cmp (Suc fuel) a i j r = Inr k"
      using True k(1) j1 Suc.prems(1,2) assms(3) by (simp add: arr_get_def Let_def)
    ultimately show ?thesis using k True by (intro exI [of _ k]) auto
  next
    case False
    then have "down_loop cmp (Suc fuel) a i j r = Inr (j - 1)"
      using j1 Suc.prems(1,2) assms(3) by (auto simp: arr_get_def Let_def)
    with False Suc.prems(1) show ?thesis by (intro exI [of _ "j - 1"]) auto
  qed
qed simp

lemma partition_loop_correct:
  assumes cmp: "total_cmp cmp" and "r < length a" "l \<le> i" "i < j" "j \<le> r - 1" "j - i \<le> fuel"
    "\<And>q. l \<le> q \<Longrightarrow> q \<le> i \<Longrightarrow> cmp (a ! q) (a ! (r - 1)) \<le> 0"
    "\<And>q. j \<le> q \<Longrightarrow> q \<le> r \<Longrightarrow> cmp (a ! (r - 1)) (a ! q) \<le> 0"
  shows "\<exists>b k. partition_loop cmp fuel a i j r = Inr (b, k) \<and> arranged (Suc i) j a b \<and> i < k \<and> k \<le> j \<and>
    (\<forall>q. l \<le> q \<longrightarrow> q < k \<longrightarrow> cmp (b ! q) (a ! (r - 1)) \<le> 0) \<and>
    (\<forall>q. k \<le> q \<longrightarrow> q \<le> r \<longrightarrow> cmp (a ! (r - 1)) (b ! q) \<le> 0)"
  using assms(2-)
proof (induction fuel arbitrary: a i j)
  case (Suc fuel)
  let ?p = "a ! (r - 1)"
  have stop: "\<not> cmp (a ! j) ?p < 0" using Suc.prems(4) Suc.prems(7) [of j] total_cmpD(6) [OF cmp] by fastforce
  have c: "j < length a" "r - 1 < length a" "j - i \<le> r" "0 < j" "j \<le> length a" "j \<le> r" using Suc.prems(1,3,4) by auto
  from up_loop_correct [where cmp = cmp and a = a and r = r, OF Suc.prems(3) c(1,2) stop c(3)] obtain k where k: "up_loop cmp r a i r = Inr k" "i < k" "k \<le> j" "\<not> cmp (a ! k) ?p < 0"
      "\<forall>q. i < q \<longrightarrow> q < k \<longrightarrow> cmp (a ! q) ?p < 0"
    by blast
  obtain m where m: "down_loop cmp r a k j r = Inr m" "m < j" "k < j \<longrightarrow> k \<le> m" "m \<le> k \<or> \<not> cmp ?p (a ! m) < 0"
      "\<forall>q. m < q \<longrightarrow> q < j \<longrightarrow> cmp ?p (a ! q) < 0"
    using down_loop_correct [where cmp = cmp and a = a and r = r, OF c(4,5,2,6)] by blast
  have low: "cmp (a ! q) ?p \<le> 0" if "l \<le> q" "q < k" for q
    using that k(5) Suc.prems(6) [of q] by (cases "q \<le> i") (auto simp: not_le intro: less_imp_le)
  have high: "cmp ?p (a ! q) \<le> 0" if "m < q" "q \<le> r" for q
    using that m(5) Suc.prems(7) [of q] by (cases "j \<le> q") (auto simp: not_le intro: less_imp_le)
  show ?case
  proof (cases "m \<le> k")
    case True
    have "cmp ?p (a ! k) \<le> 0" using k(4) total_cmpD(6) [OF cmp] by blast
    then have "cmp ?p (a ! q) \<le> 0" if "k \<le> q" "q \<le> r" for q
      using that high [of q] True by (cases "q = k") auto
    with k m low True show ?thesis by auto
  next
    case False
    let ?a1 = "a[k := a ! m, m := a ! k]"
    have lt: "k < length a" "m < length a" "k < m" "m < r - 1" using False Suc.prems m(2) by auto
    have sw: "arr_swap a k m = Inr ?a1" by (rule arr_swap_ok [OF lt(1,2)])
    have p: "?a1 ! (r - 1) = ?p" using lt by simp
    have a1: "?a1 ! q = (if q = m then a ! k else if q = k then a ! m else a ! q)" if "q \<le> r" for q
      using lt by (simp add: nth_list_update)
    have lo: "cmp (?a1 ! q) (?a1 ! (r - 1)) \<le> 0" if "l \<le> q" "q \<le> k" for q
    proof -
      have "cmp (a ! m) ?p \<le> 0" using m(4) False total_cmpD(6) [OF cmp] by auto
      then show ?thesis using that low [of q] lt by (auto simp: p nth_list_update)
    qed
    have hi: "cmp (?a1 ! (r - 1)) (?a1 ! q) \<le> 0" if "m \<le> q" "q \<le> r" for q
    proof -
      have "cmp ?p (a ! k) \<le> 0" using k(4) total_cmpD(6) [OF cmp] by blast
      then show ?thesis using that high [of q] lt by (auto simp: p nth_list_update)
    qed
    have "l \<le> k" "m \<le> r - 1" "m - k \<le> fuel" "r < length ?a1"
      using Suc.prems k(2) m(2) lt by auto
    with Suc.IH [OF _ _ lt(3) _ _ lo hi] obtain b k' where
      b: "partition_loop cmp fuel ?a1 k m r = Inr (b, k')" "arranged (Suc k) m ?a1 b" "k < k'" "k' \<le> m"
        "\<forall>q. l \<le> q \<longrightarrow> q < k' \<longrightarrow> cmp (b ! q) ?p \<le> 0" "\<forall>q. k' \<le> q \<longrightarrow> q \<le> r \<longrightarrow> cmp ?p (b ! q) \<le> 0"
      unfolding p by blast
    have "arranged (Suc i) j a ?a1" using arranged_swap [OF lt(1,2), of "Suc i" j] k(2) m(2) lt(3) by simp
    moreover have "arranged (Suc i) j ?a1 b" by (rule arranged_mono [OF b(2)]) (use k(2) m(2) in auto)
    ultimately have "arranged (Suc i) j a b" by (rule arranged_trans)
    with b k(1,2) m(1,2) sw False show ?thesis by auto
  qed
qed simp

lemma cmp_swap_correct:
  assumes "total_cmp cmp" "i < length a" "j < length a" "l \<le> i" "i < r" "l \<le> j" "j < r"
  shows "\<exists>b. cmp_swap cmp a i j = Inr b \<and> arranged l r a b \<and>
    (cmp (a ! i) (a ! j) \<le> 0 \<and> b = a \<or> cmp (a ! j) (a ! i) < 0 \<and> b = a[i := a ! j, j := a ! i])"
  using assms arranged_swap [OF assms(2-7)] total_cmpD(1) [OF assms(1), of "a ! j" "a ! i"]
  by (auto simp: cmp_swap_def arr_get_def arr_swap_ok not_less)

lemma split_range_correct:
  assumes cmp: "total_cmp cmp" and lr: "r < length a" "9 \<le> r - l" and len: "length a < 2 ^ 63"
  shows "\<exists>b k. split_range cmp a l r = Inr (b, k) \<and> arranged l (Suc r) a b \<and> l < k \<and> k < r \<and>
    (\<forall>q. l \<le> q \<longrightarrow> q < k \<longrightarrow> cmp (b ! q) (b ! k) \<le> 0) \<and> (\<forall>q. k < q \<longrightarrow> q \<le> r \<longrightarrow> cmp (b ! k) (b ! q) \<le> 0)"
proof -
  define m where "m = (l + r) div 2"
  have m: "l < m" "m < r - 1" "m < r" "m < length a" "l < length a" "r - 1 < length a" using lr by (auto simp: m_def)
  have s: "sz (l + r) div 2 = m" using lr len by (simp add: m_def sz_id NPOS_def)
  obtain a1 where a1: "cmp_swap cmp a l m = Inr a1" "arranged l (Suc r) a a1"
      "cmp (a ! l) (a ! m) \<le> 0 \<and> a1 = a \<or> cmp (a ! m) (a ! l) < 0 \<and> a1 = a[l := a ! m, m := a ! l]"
    using cmp_swap_correct [OF cmp, of l a m l "Suc r"] m by auto
  have l1: "length a1 = length a" by (rule arranged_length [OF a1(2)])
  obtain a2 where a2: "cmp_swap cmp a1 l r = Inr a2" "arranged l (Suc r) a1 a2"
      "cmp (a1 ! l) (a1 ! r) \<le> 0 \<and> a2 = a1 \<or> cmp (a1 ! r) (a1 ! l) < 0 \<and> a2 = a1[l := a1 ! r, r := a1 ! l]"
    using cmp_swap_correct [OF cmp, of l a1 r l "Suc r"] m lr l1 by auto
  have l2: "length a2 = length a" using arranged_length [OF a2(2)] l1 by simp
  obtain a3 where a3: "cmp_swap cmp a2 m r = Inr a3" "arranged l (Suc r) a2 a3"
      "cmp (a2 ! m) (a2 ! r) \<le> 0 \<and> a3 = a2 \<or> cmp (a2 ! r) (a2 ! m) < 0 \<and> a3 = a2[m := a2 ! r, r := a2 ! m]"
    using cmp_swap_correct [OF cmp, of m a2 r l "Suc r"] m lr l2 by auto
  have l3: "length a3 = length a" using arranged_length [OF a3(2)] l2 by simp
  note trans = total_cmpD(2) [OF cmp] and lt_le = less_imp_le
  have o1: "cmp (a1 ! l) (a1 ! m) \<le> 0" using a1(3) m by (auto simp: nth_list_update)
  have o2: "cmp (a2 ! l) (a2 ! m) \<le> 0" "cmp (a2 ! l) (a2 ! r) \<le> 0"
    using a2(3) o1 m l1 trans [of "a1 ! r" "a1 ! l" "a1 ! m"] lr by (auto simp: nth_list_update)
  have o3: "cmp (a3 ! l) (a3 ! m) \<le> 0" "cmp (a3 ! m) (a3 ! r) \<le> 0"
    using a3(3) o2 m l2 lr by (auto simp: nth_list_update)
  let ?a4 = "a3[m := a3 ! (r - 1), r - 1 := a3 ! m]"
  have sw4: "arr_swap a3 m (r - 1) = Inr ?a4" using arr_swap_ok [of m a3 "r - 1"] m l3 by simp
  have ar4: "arranged l (Suc r) a3 ?a4" using arranged_swap [of m a3 "r - 1" l "Suc r"] m l3 by simp
  have p: "?a4 ! (r - 1) = a3 ! m" "?a4 ! l = a3 ! l" "?a4 ! r = a3 ! r" using m l3 lr by (auto simp: nth_list_update)
  have lo: "cmp (?a4 ! q) (?a4 ! (r - 1)) \<le> 0" if "l \<le> q" "q \<le> l" for q
    using that o3(1) p by (auto simp: le_antisym)
  have hi: "cmp (?a4 ! (r - 1)) (?a4 ! q) \<le> 0" if "r - 1 \<le> q" "q \<le> r" for q
  proof -
    have "q = r - 1 \<or> q = r" using that by auto
    then show ?thesis using o3(2) p total_cmpD(3) [OF cmp] by auto
  qed
  have "r < length ?a4" "l < r - 1" "r - 1 - l \<le> r" using lr l3 by auto
  with partition_loop_correct [OF cmp _ order_refl _ order_refl _ lo hi] obtain a5 k where
    a5: "partition_loop cmp r ?a4 l (r - 1) r = Inr (a5, k)" "arranged (Suc l) (r - 1) ?a4 a5" "l < k" "k \<le> r - 1"
      "\<forall>q. l \<le> q \<longrightarrow> q < k \<longrightarrow> cmp (a5 ! q) (?a4 ! (r - 1)) \<le> 0"
      "\<forall>q. k \<le> q \<longrightarrow> q \<le> r \<longrightarrow> cmp (?a4 ! (r - 1)) (a5 ! q) \<le> 0" by blast
  have l5: "length a5 = length a" using arranged_length [OF a5(2)] l3 by simp
  have p5: "a5 ! (r - 1) = ?a4 ! (r - 1)" by (rule arranged_nth [OF a5(2)]) (use m l3 in auto)
  let ?a6 = "a5[k := a5 ! (r - 1), r - 1 := a5 ! k]"
  have k: "k < length a5" "r - 1 < length a5" "l \<le> k" "k < Suc r" "k < r" using a5(3,4) lr l5 by auto
  have sw6: "arr_swap a5 k (r - 1) = Inr ?a6" by (rule arr_swap_ok [OF k(1,2)])
  have ar6: "arranged l (Suc r) a5 ?a6" using arranged_swap [OF k(1,2), of l "Suc r"] k m by simp
  have pk: "?a6 ! k = ?a4 ! (r - 1)" using k p5 by (auto simp: nth_list_update)
  have "arranged l (Suc r) ?a4 a5" by (rule arranged_mono [OF a5(2)]) auto
  with a1(2) a2(2) a3(2) ar4 ar6 have "arranged l (Suc r) a ?a6" by (blast intro: arranged_trans)
  moreover have "cmp (?a6 ! q) (?a6 ! k) \<le> 0" if "l \<le> q" "q < k" for q
    using that a5(4,5) k unfolding pk by (auto simp: nth_list_update)
  moreover have "cmp (?a6 ! k) (?a6 ! q) \<le> 0" if "k < q" "q \<le> r" for q
    using that a5(4,6) k l5 lr unfolding pk by (auto simp: nth_list_update)
  moreover have "split_range cmp a l r = Inr (?a6, k)"
    using a1(1) a2(1) a3(1) sw4 a5(1) sw6 s by (simp add: split_range_def Let_def)
  ultimately show ?thesis using a5(3) k(5) by blast
qed


subsection \<open>The stack of ranges\<close>

text \<open>Every pair of elements in the wrong order lies within a range that is still on the stack.\<close>

definition covered :: "('a \<Rightarrow> 'a \<Rightarrow> int) \<Rightarrow> nat \<Rightarrow> nat \<Rightarrow> 'a list \<Rightarrow> (nat \<times> nat) set \<Rightarrow> bool" where
  "covered cmp lo hi a E \<longleftrightarrow> (\<forall>i j. lo \<le> i \<longrightarrow> i < j \<longrightarrow> j < hi \<longrightarrow> cmp (a ! i) (a ! j) > 0 \<longrightarrow>
     (\<exists>(l, r) \<in> E. l \<le> i \<and> j \<le> r))"

lemma coveredE:
  assumes "covered cmp lo hi a E" "lo \<le> i" "i < j" "j < hi" "cmp (a ! i) (a ! j) > 0"
  obtains l r where "(l, r) \<in> E" "l \<le> i" "j \<le> r"
  using assms unfolding covered_def by blast

lemma covered_step:
  assumes cov: "covered cmp lo hi a (insert (l, r) E)" and ar: "arranged l (Suc r) a b"
    and dis: "\<And>l' r'. (l', r') \<in> E \<Longrightarrow> r < l' \<or> r' < l" and lr: "lo \<le> l" "l \<le> r" "r < hi" "hi \<le> length a"
    and new: "\<And>i j. l \<le> i \<Longrightarrow> i < j \<Longrightarrow> j \<le> r \<Longrightarrow> cmp (b ! i) (b ! j) > 0 \<Longrightarrow> \<exists>(l', r') \<in> F. l' \<le> i \<and> j \<le> r'"
  shows "covered cmp lo hi b (F \<union> E)"
  unfolding covered_def
proof (intro allI impI)
  fix i j assume ij: "lo \<le> i" "i < j" "j < hi" and inv: "cmp (b ! i) (b ! j) > 0"
  have r: "Suc r \<le> length a" "l \<le> Suc r" using lr by auto
  have out: "b ! q = a ! q" if "q < l \<or> r < q" "q < hi" for q
    using arranged_nth [OF ar, of q] that lr by auto
  consider "l \<le> i" "j \<le> r" | "i < l \<or> r < i" "j < l \<or> r < j" | "l \<le> i" "i \<le> r" "r < j" | "i < l" "l \<le> j" "j \<le> r"
    by linarith
  then show "\<exists>(l', r') \<in> F \<union> E. l' \<le> i \<and> j \<le> r'"
  proof cases
    case 1
    then show ?thesis using new [OF 1(1) ij(2) 1(2) inv] by blast
  next
    case 2
    then have "cmp (a ! i) (a ! j) > 0" using inv out ij by simp
    then obtain l' r' where e: "(l', r') \<in> insert (l, r) E" "l' \<le> i" "j \<le> r'" by (rule coveredE [OF cov ij])
    then show ?thesis using 2 ij(2) by auto
  next
    case 3
    have "cmp (a ! q) (a ! j) \<le> 0" if q: "l \<le> q" "q < Suc r" for q
    proof (rule ccontr)
      assume "\<not> cmp (a ! q) (a ! j) \<le> 0"
      then have "cmp (a ! q) (a ! j) > 0" by simp
      then obtain l' r' where e: "(l', r') \<in> insert (l, r) E" "l' \<le> q" "j \<le> r'"
        using coveredE [OF cov, of q j] q 3 lr ij by auto
      then show False using dis [of l' r'] q 3 by auto
    qed
    from arranged_all [OF ar r(2,1), where P = "\<lambda>x. cmp x (a ! j) \<le> 0", OF this, of i] 3 inv out [of j] ij
    show ?thesis by auto
  next
    case 4
    have "cmp (a ! i) (a ! q) \<le> 0" if q: "l \<le> q" "q < Suc r" for q
    proof (rule ccontr)
      assume "\<not> cmp (a ! i) (a ! q) \<le> 0"
      then have "cmp (a ! i) (a ! q) > 0" by simp
      then obtain l' r' where e: "(l', r') \<in> insert (l, r) E" "l' \<le> i" "q \<le> r'"
        using coveredE [OF cov, of i q] q 4 lr ij by auto
      then show False using dis [of l' r'] q 4 by auto
    qed
    from arranged_all [OF ar r(2,1), where P = "\<lambda>x. cmp (a ! i) x \<le> 0", OF this, of j] 4 inv out [of i] ij
    show ?thesis by auto
  qed
qed

text \<open>The ranges on the stack are apart, and each is at most half as long as the one below it may be.\<close>

fun stack_ok :: "nat \<Rightarrow> nat \<Rightarrow> nat \<Rightarrow> (nat \<times> nat) list \<Rightarrow> bool" where
  "stack_ok lo hi n [] = True"
| "stack_ok lo hi n ((l, r) # st) = (lo \<le> l \<and> l \<le> r \<and> r < hi \<and> (r + 1 - l) * 2 ^ length st \<le> n \<and>
     (\<forall>(l', r') \<in> set st. r < l' \<or> r' < l) \<and> stack_ok lo hi n st)"

fun stack_work :: "(nat \<times> nat) list \<Rightarrow> nat" where
  "stack_work [] = 0"
| "stack_work ((l, r) # st) = 2 * (r - l) + 1 + stack_work st"

text \<open>The longer part is pushed first, so that the shorter one is on top.\<close>

lemma split_stack:
  assumes "stack_ok lo hi n ((l, r) # st)" "n < 10 * 2 ^ 31" "9 \<le> r - l" "l < k" "k < r"
    and "(p, q) = (if k - l < r - k then ((k + 1, r), (l, k - 1)) else ((l, k - 1), (k + 1, r)))"
  shows "\<exists>st1. stack_push p st = Inr st1 \<and> stack_push q st1 = Inr (q # p # st) \<and> stack_ok lo hi n (q # p # st) \<and>
    stack_work (q # p # st) < stack_work ((l, r) # st) \<and> set (q # p # st) = {(l, k - 1), (k + 1, r)} \<union> set st"
proof -
  let ?s = "r + 1 - l"
  have ok: "lo \<le> l" "r < hi" "?s * 2 ^ length st \<le> n" "stack_ok lo hi n st" "\<And>l' r'. (l', r') \<in> set st \<Longrightarrow> r < l' \<or> r' < l"
    using assms(1) by auto
  have "10 * 2 ^ length st \<le> ?s * 2 ^ length st" using assms(3) by simp
  then have "(2 :: nat) ^ length st < 2 ^ 31" using ok(3) assms(2) by linarith
  then have len: "length st < 31" by (simp del: power_numeral)
  then have pushes: "stack_push p st = Inr (p # st)" "stack_push q (p # st) = Inr (q # p # st)" by (simp_all add: stack_push_def)
  have half: "m * 2 ^ Suc (length st) \<le> n" if "2 * m \<le> ?s" for m
  proof -
    have "m * 2 ^ Suc (length st) = (2 * m) * 2 ^ length st" by simp
    also have "\<dots> \<le> ?s * 2 ^ length st" using that by (rule mult_le_mono1)
    finally show ?thesis using ok(3) by (rule order_trans)
  qed
  have full: "m * 2 ^ length st \<le> n" if "m \<le> ?s" for m
    using mult_le_mono1 [OF that, of "2 ^ length st"] ok(3) by linarith
  show ?thesis
  proof (cases "k - l < r - k")
    case True
    then have pq: "p = (k + 1, r)" "q = (l, k - 1)" using assms(6) by auto
    have "2 * (k - l) \<le> ?s" "r - k \<le> ?s" using True assms(4,5) by auto
    then have "(k - l) * 2 ^ Suc (length st) \<le> n" "(r - k) * 2 ^ length st \<le> n" by (auto intro: half full simp del: power_Suc)
    with pq pushes ok assms(4,5) show ?thesis by (fastforce simp del: power_Suc)
  next
    case False
    then have pq: "p = (l, k - 1)" "q = (k + 1, r)" using assms(6) by auto
    have "2 * (r - k) \<le> ?s" "k - l \<le> ?s" using False assms(4,5) by auto
    then have "(r - k) * 2 ^ Suc (length st) \<le> n" "(k - l) * 2 ^ length st \<le> n" by (auto intro: half full simp del: power_Suc)
    with pq pushes ok assms(4,5) show ?thesis by (fastforce simp del: power_Suc)
  qed
qed


lemma sort_loop_correct:
  assumes cmp: "total_cmp cmp" and hi: "hi \<le> length a" "length a < 2 ^ 63" "n < 10 * 2 ^ 31"
    and "stack_ok lo hi n st" "covered cmp lo hi a (set st)" "stack_work st \<le> fuel"
  shows "\<exists>b. sort_loop cmp fuel a st = Inr b \<and> arranged lo hi a b \<and> sorted_on cmp lo hi b"
  using assms(2,3,5-)
proof (induction fuel arbitrary: a st)
  case 0
  then have "st = []" by (cases st) auto
  with 0(4) show ?case by (auto simp: covered_def sorted_on_def not_less [symmetric])
next
  case (Suc fuel)
  show ?case
  proof (cases st)
    case Nil
    with Suc.prems(4) show ?thesis by (auto simp: covered_def sorted_on_def not_less [symmetric])
  next
    case (Cons e st')
    obtain l r where st: "st = (l, r) # st'" using Cons by (cases e) auto
    have ok: "lo \<le> l" "l \<le> r" "r < hi" "stack_ok lo hi n st'"
      and dis: "\<And>l' r'. (l', r') \<in> set st' \<Longrightarrow> r < l' \<or> r' < l"
      using Suc.prems(3) by (auto simp: st)
    have cov: "covered cmp lo hi a (insert (l, r) (set st'))" using Suc.prems(4) by (simp add: st)
    have work: "stack_work st' \<le> fuel" using Suc.prems(5) by (simp add: st)
    have rest: "\<exists>c. sort_loop cmp fuel b st' = Inr c \<and> arranged lo hi a c \<and> sorted_on cmp lo hi c"
      if ar: "arranged l (Suc r) a b" and so: "sorted_on cmp l (Suc r) b" for b
    proof -
      have "covered cmp lo hi b ({} \<union> set st')"
        by (rule covered_step [OF cov ar dis ok(1-3) Suc.prems(1)]) (use sorted_onD [OF so] in force)+
      moreover have "hi \<le> length b" "length b < 2 ^ 63" using arranged_length [OF ar] Suc.prems(1,2) by auto
      ultimately obtain c where c: "sort_loop cmp fuel b st' = Inr c" "arranged lo hi b c" "sorted_on cmp lo hi c"
        using Suc.IH [of b st'] ok(4) work by auto
      have "arranged lo hi a b" by (rule arranged_mono [OF ar]) (use ok in auto)
      with c show ?thesis by (auto intro: arranged_trans)
    qed
    have "SWITCH_INSERTION_SORT = 9" by (simp add: SWITCH_INSERTION_SORT_def)
    then consider "l = r" | "l < r" "r - l < SWITCH_INSERTION_SORT" | "l < r" "9 \<le> r - l"
      using ok(2) by linarith
    then show ?thesis
    proof cases
      case 1
      then have "sorted_on cmp l (Suc r) a" by (simp add: sorted_on_def)
      with rest [of a] 1 show ?thesis by (simp add: st)
    next
      case 2
      have "l + (r - l + 1) \<le> length a" using ok Suc.prems(1) by simp
      from insertion_sort_correct [OF cmp this] ok(2) obtain b where
        "insertion_sort cmp a l (r - l + 1) = Inr b" "arranged l (Suc r) a b" "sorted_on cmp l (Suc r) b" by auto
      with rest [of b] 2 show ?thesis by (simp add: st)
    next
      case 3
      have "r < length a" using ok(3) Suc.prems(1) by simp
      from split_range_correct [OF cmp this 3(2) Suc.prems(2)] obtain b k where
        b: "split_range cmp a l r = Inr (b, k)" "arranged l (Suc r) a b" "l < k" "k < r"
          "\<forall>q. l \<le> q \<longrightarrow> q < k \<longrightarrow> cmp (b ! q) (b ! k) \<le> 0" "\<forall>q. k < q \<longrightarrow> q \<le> r \<longrightarrow> cmp (b ! k) (b ! q) \<le> 0" by blast
      obtain p q where pq: "(p, q) = (if k - l < r - k then ((k + 1, r), (l, k - 1)) else ((l, k - 1), (k + 1, r)))"
        by (metis surj_pair)
      from split_stack [OF Suc.prems(3) [unfolded st] hi(3) 3(2) b(3,4) pq] obtain st1 where
        s: "stack_push p st' = Inr st1" "stack_push q st1 = Inr (q # p # st')" "stack_ok lo hi n (q # p # st')"
          "stack_work (q # p # st') < stack_work ((l, r) # st')" "set (q # p # st') = {(l, k - 1), (k + 1, r)} \<union> set st'"
        by blast
      have "covered cmp lo hi b ({(l, k - 1), (k + 1, r)} \<union> set st')"
      proof (rule covered_step [OF cov b(2) dis ok(1-3) Suc.prems(1)])
        fix i j assume ij: "l \<le> i" "i < j" "j \<le> r" "cmp (b ! i) (b ! j) > 0"
        have "\<not> (i \<le> k \<and> k \<le> j)"
        proof
          assume "i \<le> k \<and> k \<le> j"
          then have "cmp (b ! i) (b ! k) \<le> 0" "cmp (b ! k) (b ! j) \<le> 0"
            using b(5,6) ij total_cmpD(3) [OF cmp, of "b ! k"] by (cases "i = k"; cases "k = j"; auto)+
          then show False using total_cmpD(2) [OF cmp, of "b ! i" "b ! k" "b ! j"] ij(4) by simp
        qed
        then show "\<exists>(l', r') \<in> {(l, k - 1), (k + 1, r)}. l' \<le> i \<and> j \<le> r'" using ij by auto
      qed
      then have cov2: "covered cmp lo hi b (set (q # p # st'))" by (simp only: s(5))
      have len: "hi \<le> length b" "length b < 2 ^ 63" using arranged_length [OF b(2)] Suc.prems(1,2) by auto
      have "stack_work (q # p # st') \<le> fuel" using s(4) Suc.prems(5) by (simp add: st)
      from Suc.IH [OF len s(3) cov2 this] obtain c where
        c: "sort_loop cmp fuel b (q # p # st') = Inr c" "arranged lo hi b c" "sorted_on cmp lo hi c" by blast
      have "arranged lo hi a b" by (rule arranged_mono [OF b(2)]) (use ok in auto)
      then have "arranged lo hi a c" using c(2) by (rule arranged_trans)
      moreover have "sort_loop cmp (Suc fuel) a st = Inr c"
        using 3 b(1) s(1,2) c(1) pq by (auto simp: st SWITCH_INSERTION_SORT_def split: if_splits)
      ultimately show ?thesis using c(3) by blast
    qed
  qed
qed

lemma arr_sort_sorts:
  assumes "total_cmp cmp" "idx + n \<le> length a" "0 < n" "n < 10 * 2 ^ 31" "length a < 2 ^ 63"
  shows "\<exists>b. arr_sort cmp a idx n = Inr b \<and> arranged idx (idx + n) a b \<and> sorted_on cmp idx (idx + n) b"
proof -
  have s: "sz_sub (sz (idx + n)) 1 = idx + n - 1" using assms by (simp add: sz_id NPOS_def)
  have "stack_ok idx (idx + n) n [(idx, idx + n - 1)]" using assms(3) by simp
  moreover have "covered cmp idx (idx + n) a (set [(idx, idx + n - 1)])" by (auto simp: covered_def)
  moreover have "stack_work [(idx, idx + n - 1)] \<le> 2 * n + 1" by simp
  ultimately show ?thesis
    unfolding arr_sort_def s by (rule sort_loop_correct [OF assms(1,2,5,4)])
qed

text \<open>Asked to sort nothing at the start of the container, \<open>sort\<close> takes the range to reach to the last
  index there is.\<close>

lemma arr_sort_nothing:
  assumes "length a < 2 ^ 62"
  shows "arr_sort cmp a 0 0 = Inl OutOfBounds"
proof -
  have s: "sz_sub (sz (0 + 0)) 1 = NPOS" by (simp add: sz_def sz_sub_def NPOS_def)
  have f: "2 * 0 + 1 = Suc 0" by simp
  have m: "length a \<le> sz (0 + NPOS) div 2" using assms by (simp add: sz_def NPOS_def)
  then have "arr_get a (sz (0 + NPOS) div 2) = Inl OutOfBounds" by (simp add: arr_get_def)
  moreover have "arr_get a 0 = Inl OutOfBounds" if "a = []" using that by (simp add: arr_get_def)
  ultimately have "cmp_swap cmp a 0 (sz (0 + NPOS) div 2) = Inl OutOfBounds"
    unfolding cmp_swap_def by (cases "a = []") (simp_all add: arr_get_def)
  moreover have "0 < NPOS" "\<not> NPOS - 0 < SWITCH_INSERTION_SORT" by (simp_all add: NPOS_def SWITCH_INSERTION_SORT_def)
  ultimately show ?thesis unfolding arr_sort_def s f sort_loop.simps split_range_def Let_def by simp
qed

subsection \<open>Sorting and searching together\<close>

text \<open>
  C21: \<open>sort\<close> returns, although its stack has room for 32 ranges only: it arranges the range in ascending
  order and moves nothing else, and \<open>binary_search\<close> then gives, for every value, the first place of the
  range with an equivalent element, or the end of the range if there is none.
\<close>

theorem sort_then_search:
  assumes "total_cmp cmp" "idx + n \<le> length a" "0 < n" "n < 10 * 2 ^ 31" "length a < 2 ^ 63"
  shows "\<exists>b. arr_sort cmp a idx n = Inr b \<and> arranged idx (idx + n) a b \<and> sorted_on cmp idx (idx + n) b \<and>
    (\<forall>v. \<exists>k. binary_search cmp b idx n v = Inr k \<and>
      (if k < idx + n then idx \<le> k \<and> cmp v (b ! k) = 0 \<and> (\<forall>i. idx \<le> i \<longrightarrow> i < k \<longrightarrow> cmp (b ! i) v < 0)
       else k = idx + n \<and> (\<forall>i. idx \<le> i \<longrightarrow> i < idx + n \<longrightarrow> cmp v (b ! i) \<noteq> 0)))"
proof -
  from arr_sort_sorts [OF assms] obtain b where
    b: "arr_sort cmp a idx n = Inr b" "arranged idx (idx + n) a b" "sorted_on cmp idx (idx + n) b" by blast
  have "idx + n \<le> length b" "length b < 2 ^ 63" using assms(2,5) arranged_length [OF b(2)] by simp_all
  note search = binary_search_correct [OF assms(1) b(3) this]
  show ?thesis by (intro exI [of _ b] conjI allI b search)
qed

theorem sort_then_search_witness:
  "\<exists>b. arr_sort (-) [9, 5, 3, 8, 7, 3, 1, 6, 4, 2, 11, 0, 1] 0 12 = Inr b \<and> b ! 12 = (1::int) \<and> sorted_on (-) 0 12 b"
proof -
  let ?a = "[9, 5, 3, 8, 7, 3, 1, 6, 4, 2, 11, 0, 1] :: int list"
  have c: "total_cmp ((-) :: int \<Rightarrow> int \<Rightarrow> int)" by (simp add: total_cmp_def)
  obtain b where b: "arr_sort (-) ?a 0 12 = Inr b" "arranged 0 12 ?a b" "sorted_on (-) 0 12 b"
    using sort_then_search [OF c, of 0 12 ?a] by auto
  have "b ! 12 = ?a ! 12" by (rule arranged_nth [OF b(2)]) simp_all
  with b show ?thesis by auto
qed

end
