(* ===== verification/Cstl_Rotate.thy ===== *)
theory Cstl_Rotate
  imports Cstl_Algorithm
begin

text \<open>
  \<open>rotate\<close> of \<open>cstl/algorithm.h\<close>: the elements of \<open>[first, last)\<close> are moved so that the one at
  \<open>middle\<close> comes first, in place and with one temporary, along the cycles of the permutation.

  With \<open>n\<close> elements, \<open>k\<close> of them in front of \<open>middle\<close> and \<open>d\<close> the greatest common divisor of the two,
  there are \<open>d\<close> cycles, one from each of the first \<open>d\<close> elements, and each has \<open>n div d\<close> elements.  A
  move is one step along a cycle.  The code counts only the moves in one direction; the proofs show that
  its loops make \<open>n div d - 1\<close> moves.

  The assertions require \<open>first <= middle <= last\<close> and \<open>last\<close> within the container; the sums and differences of
  indices then stay within it, and are written without the wrap-around.
\<close>

subsection \<open>The code\<close>

fun gcd_loop :: "nat \<Rightarrow> nat \<Rightarrow> nat" where
  "gcd_loop m n = (if n = 0 then m else gcd_loop n (m mod n))"

declare gcd_loop.simps [simp del]

text \<open>\<open>a[p] = a[q]; p = q\<close>.\<close>

definition arr_move :: "'a list \<Rightarrow> nat \<Rightarrow> nat \<Rightarrow> ('a list \<times> nat) res" where
  "arr_move a p q = rbind (arr_get a q) (\<lambda>x. rbind (arr_set a p x) (\<lambda>a1. Inr (a1, q)))"

fun cycle_up_loop :: "nat \<Rightarrow> 'a list \<Rightarrow> nat \<Rightarrow> nat \<Rightarrow> nat \<Rightarrow> nat \<Rightarrow> ('a list \<times> nat) res" where
  "cycle_up_loop 0 a first k l p = Inr (a, p)"
| "cycle_up_loop (Suc t) a first k l p =
     rbind (if p > first + l then arr_move a p (p - l) else Inr (a, p)) (\<lambda>(a1, p1).
     rbind (arr_move a1 p1 (p1 + k)) (\<lambda>(a2, p2). cycle_up_loop t a2 first k l p2))"

fun cycle_down_loop :: "nat \<Rightarrow> 'a list \<Rightarrow> nat \<Rightarrow> nat \<Rightarrow> nat \<Rightarrow> nat \<Rightarrow> ('a list \<times> nat) res" where
  "cycle_down_loop 0 a last' k l p = Inr (a, p)"
| "cycle_down_loop (Suc t) a last' k l p =
     rbind (if p < last' - k then arr_move a p (p + k) else Inr (a, p)) (\<lambda>(a1, p1).
     rbind (arr_move a1 p1 (sz_sub p1 l)) (\<lambda>(a2, p2). cycle_down_loop t a2 last' k l p2))"

definition rotate_cycle :: "'a list \<Rightarrow> nat \<Rightarrow> nat \<Rightarrow> nat \<Rightarrow> nat \<Rightarrow> nat \<Rightarrow> 'a list res" where
  "rotate_cycle a first last' k l d = rbind (arr_get a first) (\<lambda>tmp.
     rbind (if k < l then cycle_up_loop (l div d) a first k l first
       else cycle_down_loop (k div d - 1) a last' k l first) (\<lambda>(a1, p). arr_set a1 p tmp))"

definition rotate_aux :: "'a list \<Rightarrow> nat \<Rightarrow> nat \<Rightarrow> nat \<Rightarrow> ('a list \<times> nat) res" where
  "rotate_aux a first middle last' = (let n = last' - first; k = middle - first; l = n - k;
     result = first + (last' - middle) in
     if k = 0 then Inr (a, last')
     else if k = l then
       rbind (rfold (\<lambda>a i. arr_swap a (first + i) (middle + i)) a [0..<k]) (\<lambda>a1. Inr (a1, result))
     else let d = gcd_loop n k in
       rbind (rfold (\<lambda>a i. rotate_cycle a (first + i) last' k l d) a [0..<d]) (\<lambda>a1. Inr (a1, result)))"

definition arr_rotate :: "'a list \<Rightarrow> nat \<Rightarrow> nat \<Rightarrow> nat \<Rightarrow> 'a list res" where
  "arr_rotate a first middle last' = rbind (rotate_aux a first middle last') (\<lambda>(a1, _). Inr a1)"

lemma gcd_loop_gcd: "gcd_loop m n = gcd m n"
proof (induction m n rule: gcd_loop.induct)
  case (1 m n)
  then show ?case by (subst gcd_loop.simps) (auto simp: gcd_red_nat [symmetric])
qed

subsection \<open>Cycles\<close>

text \<open>After \<open>m\<close> moves the place is \<open>m * k mod n\<close>.  The places of one cycle are different, and are the
  multiples of \<open>d\<close>.\<close>

lemma places_differ:
  fixes k n :: nat
  assumes "0 < n" "i < j" "j < n div gcd n k"
  shows "i * k mod n \<noteq> j * k mod n"
proof
  let ?d = "gcd n k"
  assume "i * k mod n = j * k mod n"
  then have "n dvd j * k - i * k" using assms(2) by (subst mod_eq_dvd_iff_nat [symmetric]) (auto simp: mult_le_mono1)
  then have "n dvd (j - i) * k" by (simp add: diff_mult_distrib)
  moreover have "n = n div ?d * ?d" "(j - i) * k = (j - i) * (k div ?d) * ?d" by simp_all
  ultimately have "n div ?d * ?d dvd (j - i) * (k div ?d) * ?d" by (simp only:)
  then have "n div ?d dvd (j - i) * (k div ?d)" using assms(1) by (subst (asm) dvd_times_right_cancel_iff) auto
  moreover have "coprime (n div ?d) (k div ?d)" using assms(1) by (intro div_gcd_coprime) auto
  ultimately have "n div ?d dvd j - i" by (simp add: coprime_dvd_mult_left_iff)
  then show False using assms(2,3) by (auto dest: dvd_imp_le)
qed

lemma place_multiple: "gcd n k dvd m * k mod (n :: nat)"
  by (simp add: dvd_mod)

lemma place_le:
  assumes "0 < (n :: nat)"
  shows "j * k mod n + gcd n k \<le> n"
proof -
  have "gcd n k dvd n - j * k mod n" using place_multiple [of n k j] by (simp add: dvd_diff_nat)
  moreover have "j * k mod n < n" using assms by simp
  ultimately show ?thesis using dvd_imp_le [of "gcd n k" "n - j * k mod n"] by linarith
qed

lemma places_all:
  fixes k n :: nat
  assumes "0 < n" "gcd n k dvd v" "v < n"
  shows "\<exists>j < n div gcd n k. j * k mod n = v"
proof -
  let ?d = "gcd n k" and ?N = "n div gcd n k"
  have d: "0 < ?d" "?N * ?d = n" using assms(1) by auto
  have "inj_on (\<lambda>j. j * k mod n) {..<?N}"
    by (rule linorder_inj_onI) (use places_differ [OF assms(1)] in auto)
  then have "card ((\<lambda>j. j * k mod n) ` {..<?N}) = ?N" by (simp add: card_image)
  moreover have sub: "(\<lambda>j. j * k mod n) ` {..<?N} \<subseteq> (\<lambda>i. i * ?d) ` {..<?N}"
  proof
    fix x assume "x \<in> (\<lambda>j. j * k mod n) ` {..<?N}"
    then have "?d dvd x" "x < n" using assms(1) place_multiple by auto
    then obtain i where "x = i * ?d" by (metis dvdE mult.commute)
    moreover have "i < ?N" using \<open>x < n\<close> calculation d by (metis mult_less_cancel2)
    ultimately show "x \<in> (\<lambda>i. i * ?d) ` {..<?N}" by blast
  qed
  moreover have "card ((\<lambda>i. i * ?d) ` {..<?N}) \<le> ?N" using card_image_le [of "{..<?N}" "\<lambda>i. i * ?d"] by simp
  ultimately have "(\<lambda>j. j * k mod n) ` {..<?N} = (\<lambda>i. i * ?d) ` {..<?N}"
    by (intro card_seteq) auto
  moreover have "v \<in> (\<lambda>i. i * ?d) ` {..<?N}"
  proof -
    obtain i where i: "v = i * ?d" using assms(2) by (metis dvdE mult.commute)
    have "i < ?N"
    proof (rule ccontr)
      assume "\<not> i < ?N"
      then have "?N * ?d \<le> i * ?d" by (intro mult_le_mono1) (simp only: not_less)
      then have "n \<le> v" by (rule ord_eq_le_trans [OF d(2) [symmetric] ord_le_eq_trans [OF _ i [symmetric]]])
      then show False using assms(3) leD by blast
    qed
    then show ?thesis unfolding i using imageI [of i "{..<?N}" "\<lambda>i. i * ?d"] by (simp only: lessThan_iff)
  qed
  ultimately have "v \<in> (\<lambda>j. j * k mod n) ` {..<?N}" by (simp only:)
  then obtain j where "v = j * k mod n" "j \<in> {..<?N}" by (rule imageE)
  then show ?thesis by (intro exI [of _ j]) (simp only: lessThan_iff)
qed

text \<open>The list after \<open>m\<close> moves along the cycle that starts at \<open>f\<close>.\<close>

definition moved :: "nat \<Rightarrow> nat \<Rightarrow> nat \<Rightarrow> nat \<Rightarrow> 'a list \<Rightarrow> 'a list \<Rightarrow> bool" where
  "moved f n k m a b \<longleftrightarrow> length b = length a \<and>
     (\<forall>j < m. b ! (f + j * k mod n) = a ! (f + Suc j * k mod n)) \<and>
     (\<forall>q < length a. (\<forall>j < m. q \<noteq> f + j * k mod n) \<longrightarrow> b ! q = a ! q)"

lemma moved_0: "moved f n k 0 a a"
  by (simp add: moved_def)

lemma moved_Suc:
  assumes "moved f n k m a b" "0 < n" "f + n < length a + gcd n k" "Suc m < n div gcd n k"
  shows "arr_move b (f + m * k mod n) (f + Suc m * k mod n) =
      Inr (b[f + m * k mod n := a ! (f + Suc m * k mod n)], f + Suc m * k mod n)"
    and "moved f n k (Suc m) a (b[f + m * k mod n := a ! (f + Suc m * k mod n)])"
proof -
  let ?u = "\<lambda>j. j * k mod n"
  have len: "length b = length a" using assms(1) by (simp add: moved_def)
  have lt: "f + ?u j < length a" for j using place_le [OF assms(2), of j k] assms(3) by linarith
  have dif: "?u i \<noteq> ?u j" if "i < j" "j \<le> Suc m" for i j
    using places_differ [OF assms(2) that(1)] that(2) assms(4) by auto
  have "b ! (f + ?u (Suc m)) = a ! (f + ?u (Suc m))"
  proof -
    have "f + ?u (Suc m) \<noteq> f + ?u j" if "j < m" for j using dif [of j "Suc m"] that by simp
    then show ?thesis using assms(1) lt [of "Suc m"] unfolding moved_def by blast
  qed
  then show "arr_move b (f + ?u m) (f + ?u (Suc m)) = Inr (b[f + ?u m := a ! (f + ?u (Suc m))], f + ?u (Suc m))"
    using lt [of m] lt [of "Suc m"] len by (simp add: arr_move_def arr_get_def arr_set_def del: mult_Suc)
  show "moved f n k (Suc m) a (b[f + ?u m := a ! (f + ?u (Suc m))])"
    unfolding moved_def
  proof (intro conjI allI impI)
    show "length (b[f + ?u m := a ! (f + ?u (Suc m))]) = length a" using len by simp
    fix j assume "j < Suc m"
    then show "b[f + ?u m := a ! (f + ?u (Suc m))] ! (f + ?u j) = a ! (f + ?u (Suc j))"
      using assms(1) dif [of j m] lt len unfolding moved_def by (cases "j = m") (auto simp del: mult_Suc)
  next
    fix q assume q: "q < length a" "\<forall>j < Suc m. q \<noteq> f + ?u j"
    then have "q \<noteq> f + ?u m" "\<forall>j < m. q \<noteq> f + ?u j" by auto
    then show "b[f + ?u m := a ! (f + ?u (Suc m))] ! q = a ! q"
      using q(1) assms(1) unfolding moved_def by simp
  qed
qed

text \<open>The same with the place given as a number.\<close>

lemma moved_to:
  assumes "moved f n k m a b" "0 < n" "f + n < length a + gcd n k" "Suc m < n div gcd n k"
    and "p = f + m * k mod n" "q = f + Suc m * k mod n"
  shows "\<exists>b'. arr_move b p q = Inr (b', q) \<and> moved f n k (Suc m) a b'"
  using moved_Suc [OF assms(1-4)] assms(5,6) by blast

text \<open>Closing the cycle.\<close>

lemma moved_close:
  assumes "moved f n k m a b" "0 < n" "f + n < length a + gcd n k" "Suc m = n div gcd n k"
  shows "\<exists>c. arr_set b (f + m * k mod n) (a ! f) = Inr c \<and> length c = length a \<and>
    (\<forall>j < Suc m. c ! (f + j * k mod n) = a ! (f + (j * k + k) mod n)) \<and>
    (\<forall>q < length a. (\<forall>j < Suc m. q \<noteq> f + j * k mod n) \<longrightarrow> c ! q = a ! q)"
proof -
  let ?u = "\<lambda>j. j * k mod n" and ?d = "gcd n k"
  have len: "length b = length a" using assms(1) by (simp add: moved_def)
  have lt: "f + ?u j < length a" for j using place_le [OF assms(2), of j k] assms(3) by linarith
  have dif: "?u j \<noteq> ?u m" if "j < m" for j
    using places_differ [OF assms(2) that] assms(4) by auto
  have "Suc m * k = n * (k div ?d)"
    unfolding assms(4) by (metis div_mult_swap dvd_div_mult gcd_dvd1 gcd_dvd2 mult.commute)
  then have last0: "(m * k + k) mod n = 0" by (simp add: add.commute)
  let ?c = "b[f + ?u m := a ! f]"
  have "?c ! (f + ?u j) = a ! (f + (j * k + k) mod n)" if "j < Suc m" for j
    using that last0 dif [of j] lt len assms(1) unfolding moved_def
    by (cases "j = m") (auto simp: add.commute)
  moreover have "?c ! q = a ! q" if "q < length a" "\<forall>j < Suc m. q \<noteq> f + ?u j" for q
  proof -
    have "q \<noteq> f + ?u m" "\<forall>j < m. q \<noteq> f + ?u j" using that(2) by auto
    then show ?thesis using that(1) assms(1) unfolding moved_def by simp
  qed
  ultimately show ?thesis using lt [of m] len by (simp add: arr_set_def)
qed

subsection \<open>One cycle\<close>

text \<open>\<open>k\<close> and \<open>l\<close> by their greatest common divisor, and the number of moves.\<close>

lemma cycle_numbers:
  fixes k l :: nat
  assumes "n = k + l" "0 < k" "d = gcd n k"
  shows "k = k div d * d" "l = l div d * d" "n div d = k div d + l div d" "coprime (k div d) (l div d)" "0 < d"
    "k div d * l = l div d * k"
proof -
  have d: "d = gcd k l" using assms by (simp add: gcd.commute)
  show "k = k div d * d" "l = l div d * d" "0 < d" using assms(2) by (simp_all add: d)
  show "n div d = k div d + l div d" unfolding assms(1) d by (simp add: div_plus_div_distrib_dvd_left)
  show "coprime (k div d) (l div d)" unfolding d using assms(2) by (intro div_gcd_coprime) auto
  show "k div d * l = l div d * k" unfolding d by (simp add: div_mult_swap mult.commute)
qed

text \<open>\<open>u\<close> is the place after \<open>m\<close> moves, \<open>w\<close> of which went back by \<open>l\<close> instead of forward by \<open>k\<close>.\<close>

definition placed :: "nat \<Rightarrow> nat \<Rightarrow> nat \<Rightarrow> nat \<Rightarrow> nat \<Rightarrow> bool" where
  "placed k l s w u \<longleftrightarrow> u < k + l \<and> s * k = u + w * l"

lemma placed_mod: "placed k l s w u \<Longrightarrow> u = (s + w) * k mod (k + l)"
proof -
  assume "placed k l s w u"
  then have "u < k + l" "(s + w) * k = u + w * (k + l)" by (simp_all add: placed_def algebra_simps)
  then show ?thesis by simp
qed

lemma placed_forward: "placed k l s w u \<Longrightarrow> u < l \<Longrightarrow> placed k l (Suc s) w (u + k)"
  by (simp add: placed_def)

lemma placed_back: "placed k l s w u \<Longrightarrow> l \<le> u \<Longrightarrow> placed k l s (Suc w) (u - l)"
  by (auto simp: placed_def)

lemma moved_forward:
  assumes "moved f n k (s + w) a b" "placed k l s w u" "n = k + l" "0 < k" "u < l" "f + n < length a + gcd n k"
    "Suc (s + w) < n div gcd n k"
  shows "\<exists>b'. arr_move b (f + u) (f + (u + k)) = Inr (b', f + (u + k)) \<and> moved f n k (Suc s + w) a b'"
  using moved_to [OF assms(1) _ assms(6,7), of "f + u" "f + (u + k)"]
    placed_mod [OF assms(2)] placed_mod [OF placed_forward [OF assms(2,5)]] assms(3,4) by simp

lemma moved_back:
  assumes "moved f n k (s + w) a b" "placed k l s w u" "n = k + l" "0 < k" "l \<le> u" "f + n < length a + gcd n k"
    "Suc (s + w) < n div gcd n k"
  shows "\<exists>b'. arr_move b (f + u) (f + (u - l)) = Inr (b', f + (u - l)) \<and> moved f n k (s + Suc w) a b'"
  using moved_to [OF assms(1) _ assms(6,7), of "f + u" "f + (u - l)"]
    placed_mod [OF assms(2)] placed_mod [OF placed_back [OF assms(2,5)]] assms(3,4) by simp

text \<open>While fewer than \<open>l div d\<close> moves have gone forward, the cycle is not closed.\<close>

lemma placed_up:
  assumes "placed k l s w u" "0 < k" "k < l" "n = k + l" "d = gcd n k" "s < l div d"
  shows "u \<noteq> l" "l < u \<Longrightarrow> Suc w < k div d" "u < l \<Longrightarrow> w < k div d"
proof -
  note num = cycle_numbers [OF assms(4,2,5)]
  have e: "s * k = u + w * l" using assms(1) by (simp add: placed_def)
  have lt: "s * k < k div d * l" using assms(2,6) unfolding num(6) by (simp add: mult_less_mono1)
  show "u \<noteq> l"
  proof
    assume "u = l"
    then have "s * k = Suc w * l" using e by simp
    then have "s * (k div d * d) = Suc w * (l div d * d)" by (simp only: num(1) [symmetric] num(2) [symmetric])
    then have "s * (k div d) * d = Suc w * (l div d) * d" by (simp only: mult.assoc)
    then have "l div d dvd s * (k div d)" using num(5) by simp
    then have "l div d dvd s" using num(4) by (simp add: coprime_commute coprime_dvd_mult_left_iff)
    then have "s = 0" using assms(6) by (meson dvd_imp_le not_less not_gr_zero)
    then show False using e \<open>u = l\<close> assms(3) by simp
  qed
  show "Suc w < k div d" if "l < u"
  proof -
    have "Suc w * l < k div d * l" using e lt that by simp
    then show ?thesis by (simp only: mult_less_cancel2)
  qed
  show "w < k div d" if "u < l"
  proof -
    have "w * l < k div d * l" using e lt by linarith
    then show ?thesis by (simp only: mult_less_cancel2)
  qed
qed

text \<open>At the end the place is \<open>l\<close>, from where the next move would be to the start of the cycle.\<close>

lemma placed_end:
  assumes "placed k l (l div d) w u" "0 < u" "0 < k" "n = k + l" "d = gcd n k" "k < l \<or> Suc w = k div d"
  shows "Suc w = k div d" "Suc (l div d + w) = n div d"
proof -
  note num = cycle_numbers [OF assms(4,3,5)]
  have e: "k div d * l = u + w * l" "u < k + l" using assms(1) num(6) by (simp_all add: placed_def)
  then have "w * l < k div d * l" using assms(2) by linarith
  then have w: "w < k div d" by (simp only: mult_less_cancel2)
  show k: "Suc w = k div d"
  proof (rule ccontr)
    assume n: "Suc w \<noteq> k div d"
    with w have "(w + 2) * l \<le> k div d * l" by (intro mult_le_mono1) simp
    then show False using e n assms(6) by simp
  qed
  show "Suc (l div d + w) = n div d" using k num(3) by simp
qed

lemma cycle_up_loop_correct:
  assumes "moved f n k (s + w) a b" "placed k l s w u" "0 < s \<longrightarrow> 0 < u" "s + t = l div gcd n k"
    and "n = k + l" "0 < k" "k < l" "f + n < length a + gcd n k"
  shows "\<exists>b' m. cycle_up_loop t b f k l (f + u) = Inr (b', f + m * k mod n) \<and> moved f n k m a b' \<and>
    Suc m = n div gcd n k"
  using assms(1-4)
proof (induction t arbitrary: b s w u)
  case 0
  then have s: "s = l div gcd n k" by simp
  have "0 < l div gcd n k"
    using cycle_numbers(2) [OF assms(5,6) refl] assms(7) by (metis gr0I mult_is_0 not_less_zero)
  then have "Suc (s + w) = n div gcd n k" using 0 placed_end(2) [OF _ _ assms(6,5) refl] assms(7) unfolding s by blast
  moreover have "u = (s + w) * k mod n" using placed_mod [OF 0(2)] assms(5) by simp
  ultimately show ?case using 0(1) by auto
next
  case (Suc t)
  have s: "s < l div gcd n k" using Suc.prems(4) by simp
  note num = cycle_numbers [OF assms(5,6) refl]
  obtain b1 u1 w1 where 1: "(if f + u > f + l then arr_move b (f + u) (f + u - l) else Inr (b, f + u)) = Inr (b1, f + u1)"
    "moved f n k (s + w1) a b1" "placed k l s w1 u1" "u1 < l"
  proof (cases "l < u")
    case True
    then have le: "l \<le> u" by simp
    have "Suc (s + w) < n div gcd n k" using placed_up(2) [OF Suc.prems(2) assms(6,7,5) refl s True] s num(3) by simp
    from moved_back [OF Suc.prems(1,2) assms(5,6) le assms(8) this] obtain b1 where
      b1: "arr_move b (f + u) (f + (u - l)) = Inr (b1, f + (u - l))" "moved f n k (s + Suc w) a b1" by blast
    have "f + u - l = f + (u - l)" "u - l < l" using le Suc.prems(2) assms(7) by (auto simp: placed_def)
    then show ?thesis
      using b1(1) True by (intro that [OF _ b1(2) placed_back [OF Suc.prems(2) le]]) simp_all
  next
    case False
    with placed_up(1) [OF Suc.prems(2) assms(6,7,5) refl s] have "u < l" "\<not> f + u > f + l" by simp_all
    then show ?thesis using that [OF _ Suc.prems(1,2)] by simp
  qed
  have "Suc (s + w1) < n div gcd n k" using placed_up(3) [OF 1(3) assms(6,7,5) refl s 1(4)] s num(3) by simp
  from moved_forward [OF 1(2,3) assms(5,6) 1(4) assms(8) this] obtain b2 where
    2: "arr_move b1 (f + u1) (f + (u1 + k)) = Inr (b2, f + (u1 + k))" "moved f n k (Suc s + w1) a b2" by blast
  have "0 < Suc s \<longrightarrow> 0 < u1 + k" "Suc s + t = l div gcd n k" using Suc.prems(4) assms(6) by simp_all
  from Suc.IH [OF 2(2) placed_forward [OF 1(3,4)] this] obtain b' m where
    3: "cycle_up_loop t b2 f k l (f + (u1 + k)) = Inr (b', f + m * k mod n)" "moved f n k m a b'" "Suc m = n div gcd n k"
    by blast
  have "cycle_up_loop (Suc t) b f k l (f + u) = cycle_up_loop t b2 f k l (f + (u1 + k))"
    unfolding cycle_up_loop.simps 1(1) rbind_Inr prod.case using 2(1) by (simp add: add.assoc)
  with 3 show ?case by auto
qed

text \<open>In the other loop every round goes back once; the cycle is not closed before the last one.\<close>

lemma placed_down:
  assumes "placed k l s w u" "0 < l" "l < k" "n = k + l" "d = gcd n k" "Suc w < k div d"
  shows "Suc (s + w) < n div d"
proof -
  have k: "0 < k" using assms(2,3) by simp
  note num = cycle_numbers [OF assms(4) k assms(5)]
  have e: "s * k = u + w * l" "u < k + l" using assms(1) by (simp_all add: placed_def)
  have "Suc w * l < k div d * l" using assms(2,6) by (simp only: mult_less_cancel2)
  then have "s * k < Suc (l div d) * k" using e num(6) by simp
  then have "s < Suc (l div d)" by (simp only: mult_less_cancel2)
  then show ?thesis using assms(6) num(3) by simp
qed

lemma placed_down_end:
  assumes "placed k l s w u" "u < k" "0 < l" "l < k" "n = k + l" "d = gcd n k" "Suc w = k div d"
  shows "Suc (s + w) = n div d"
proof -
  have k: "0 < k" using assms(2) by simp
  note num = cycle_numbers [OF assms(5) k assms(6)]
  have e: "s * k = u + w * l" using assms(1) by (simp add: placed_def)
  have "Suc w * l = l div d * k" using num(6) unfolding assms(7) .
  then have e2: "s * k + l = u + l div d * k" using e by simp
  then have "s * k < Suc (l div d) * k" using assms(2) by simp
  then have "s < Suc (l div d)" by (simp only: mult_less_cancel2)
  moreover have "l div d * k < Suc s * k" using e2 assms(4) by simp
  then have "l div d < Suc s" by (simp only: mult_less_cancel2)
  ultimately show ?thesis using assms(7) num(3) by simp
qed

lemma cycle_down_loop_correct:
  assumes "moved f n k (s + w) a b" "placed k l s w u" "u < k" "Suc (w + t) = k div gcd n k"
    and "n = k + l" "0 < l" "l < k" "f + n < length a + gcd n k" "\<And>u. gcd n k dvd u \<Longrightarrow> f + u < last' - k \<longleftrightarrow> u < l"
  shows "\<exists>b' m. cycle_down_loop t b last' k l (f + u) = Inr (b', f + m * k mod n) \<and> moved f n k m a b' \<and>
    Suc m = n div gcd n k"
  using assms(1-4)
proof (induction t arbitrary: b s w u)
  case 0
  then have "Suc (s + w) = n div gcd n k" using placed_down_end [OF 0(2,3) assms(6,7,5) refl] by simp
  moreover have "u = (s + w) * k mod n" using placed_mod [OF 0(2)] assms(5) by simp
  ultimately show ?case using 0(1) by auto
next
  case (Suc t)
  have k: "0 < k" and w: "Suc w < k div gcd n k" using assms(7) Suc.prems(4) by simp_all
  have "gcd n k dvd u" using placed_mod [OF Suc.prems(2)] place_multiple [of n k "s + w"] assms(5) by simp
  note test = assms(9) [OF this]
  obtain b1 u1 s1 where 1: "(if f + u < last' - k then arr_move b (f + u) (f + u + k) else Inr (b, f + u)) = Inr (b1, f + u1)"
    "moved f n k (s1 + w) a b1" "placed k l s1 w u1" "l \<le> u1"
  proof (cases "u < l")
    case True
    from moved_forward [OF Suc.prems(1,2) assms(5) k True assms(8) placed_down [OF Suc.prems(2) assms(6,7,5) refl w]]
    obtain b1 where
      b1: "arr_move b (f + u) (f + (u + k)) = Inr (b1, f + (u + k))" "moved f n k (Suc s + w) a b1" by blast
    show ?thesis using b1(1) True test assms(7)
      by (intro that [OF _ b1(2) placed_forward [OF Suc.prems(2) True]]) (simp_all add: add.assoc)
  next
    case False
    then have "l \<le> u" "\<not> f + u < last' - k" using test by simp_all
    then show ?thesis using that [OF _ Suc.prems(1,2)] by simp
  qed
  from moved_back [OF 1(2,3) assms(5) k 1(4) assms(8) placed_down [OF 1(3) assms(6,7,5) refl w]] obtain b2 where
    2: "arr_move b1 (f + u1) (f + (u1 - l)) = Inr (b2, f + (u1 - l))" "moved f n k (s1 + Suc w) a b2" by blast
  have "u1 - l < k" "Suc (Suc w + t) = k div gcd n k" using 1(3,4) Suc.prems(4) by (auto simp: placed_def)
  from Suc.IH [OF 2(2) placed_back [OF 1(3,4)] this] obtain b' m where
    3: "cycle_down_loop t b2 last' k l (f + (u1 - l)) = Inr (b', f + m * k mod n)" "moved f n k m a b'" "Suc m = n div gcd n k"
    by blast
  have "cycle_down_loop (Suc t) b last' k l (f + u) = cycle_down_loop t b2 last' k l (f + (u1 - l))"
    unfolding cycle_down_loop.simps 1(1) rbind_Inr prod.case using 2(1) 1(4) by simp
  with 3 show ?case by auto
qed

subsection \<open>All cycles\<close>

lemma rotate_cycle_correct:
  assumes "n = k + l" "0 < k" "0 < l" "d = gcd n k" "i < d" "first + n \<le> length a" "k \<noteq> l"
  shows "\<exists>c. rotate_cycle a (first + i) (first + n) k l d = Inr c \<and> length c = length a \<and>
    (\<forall>v < n. d dvd v \<longrightarrow> c ! (first + i + v) = a ! (first + i + (v + k) mod n)) \<and>
    (\<forall>q < length a. (\<forall>v < n. d dvd v \<longrightarrow> q \<noteq> first + i + v) \<longrightarrow> c ! q = a ! q)"
proof -
  let ?f = "first + i" and ?N = "n div gcd n k"
  have n: "0 < n" using assms(1,2) by simp
  have d: "0 < d" "d \<le> n" "d \<le> k" using assms(2,4) n by (auto intro: dvd_imp_le simp: Suc_leI)
  have f: "?f + n < length a + gcd n k" "?f < length a" using assms(4-6) d by simp_all
  have m0: "moved ?f n k (0 + 0) a a" "placed k l 0 0 0" using moved_0 assms(2) by (simp_all add: placed_def)
  have "\<exists>b m. (if k < l then cycle_up_loop (l div d) a ?f k l ?f else cycle_down_loop (k div d - 1) a (first + n) k l ?f) =
      Inr (b, ?f + m * k mod n) \<and> moved ?f n k m a b \<and> Suc m = ?N"
  proof (cases "k < l")
    case True
    then show ?thesis
      using cycle_up_loop_correct [OF m0 _ _ assms(1,2) True f(1), of "l div d"] assms(4) by simp
  next
    case False
    then have lk: "l < k" using assms(7) by simp
    have "d dvd n - k" unfolding assms(4) by (intro dvd_diff_nat) simp_all
    then have "d dvd l" using assms(1) by simp
    have test: "?f + u < first + n - k \<longleftrightarrow> u < l" if "gcd n k dvd u" for u
    proof (cases "u < l")
      case True
      have "d dvd l - u" using \<open>d dvd l\<close> that assms(4) by (simp add: dvd_diff_nat)
      then have "d \<le> l - u" using True by (intro dvd_imp_le) auto
      then show ?thesis using True assms(1,5) by simp
    qed (use assms(1) in simp)
    have "0 < k div gcd n k" using d assms(4) by (simp add: div_greater_zero_iff)
    then have t: "Suc (0 + (k div d - 1)) = k div gcd n k" using assms(4) by simp
    from cycle_down_loop_correct [OF m0 assms(2) t assms(1,3) lk f(1) test] show ?thesis using False by simp
  qed
  then obtain b m where b: "(if k < l then cycle_up_loop (l div d) a ?f k l ?f else cycle_down_loop (k div d - 1) a (first + n) k l ?f) =
      Inr (b, ?f + m * k mod n)" "moved ?f n k m a b" "Suc m = ?N" by blast
  from moved_close [OF b(2) n f(1) b(3)] obtain c where c: "arr_set b (?f + m * k mod n) (a ! ?f) = Inr c" "length c = length a"
    "\<forall>j < Suc m. c ! (?f + j * k mod n) = a ! (?f + (j * k + k) mod n)"
    "\<forall>q < length a. (\<forall>j < Suc m. q \<noteq> ?f + j * k mod n) \<longrightarrow> c ! q = a ! q" by blast
  have run: "rotate_cycle a ?f (first + n) k l d = Inr c"
    unfolding rotate_cycle_def using b(1) c(1) f(2) by (simp add: arr_get_def)
  have on: "c ! (?f + v) = a ! (?f + (v + k) mod n)" if v: "v < n" "d dvd v" for v
  proof -
    from places_all [OF n _ v(1)] v(2) assms(4) obtain j where j: "j < ?N" "j * k mod n = v" by auto
    then have "(j * k + k) mod n = (v + k) mod n" by (metis mod_add_left_eq)
    with c(3) j b(3) show ?thesis by metis
  qed
  have off: "c ! q = a ! q" if q: "q < length a" "\<forall>v < n. d dvd v \<longrightarrow> q \<noteq> ?f + v" for q
    using c(4) q n place_multiple [of n k] assms(4) by simp
  show ?thesis using run c(2) on off by blast
qed

text \<open>After the first \<open>c\<close> cycles the elements of these are in place.\<close>

definition turned :: "nat \<Rightarrow> nat \<Rightarrow> nat \<Rightarrow> nat \<Rightarrow> nat \<Rightarrow> 'a list \<Rightarrow> 'a list \<Rightarrow> bool" where
  "turned first n k d c a b \<longleftrightarrow> length b = length a \<and>
     (\<forall>q < n. b ! (first + q) = a ! (first + (if q mod d < c then (q + k) mod n else q))) \<and>
     (\<forall>q < length a. q < first \<or> first + n \<le> q \<longrightarrow> b ! q = a ! q)"

lemma multiple_room:
  fixes v :: nat
  assumes "d dvd v" "d dvd n" "v < n"
  shows "v + d \<le> n"
  using dvd_imp_le [of d "n - v"] assms by (simp add: dvd_diff_nat)

lemma turned_Suc:
  assumes "turned first n k d c a b" "n = k + l" "0 < k" "0 < l" "d = gcd n k" "c < d" "first + n \<le> length a" "k \<noteq> l"
  shows "\<exists>b'. rotate_cycle b (first + c) (first + n) k l d = Inr b' \<and> turned first n k d (Suc c) a b'"
proof -
  have len: "length b = length a" using assms(1) by (simp add: turned_def)
  have dn: "d dvd n" "d dvd k" "0 < n" using assms(2-5) by simp_all
  have "first + n \<le> length b" using assms(7) len by simp
  from rotate_cycle_correct [OF assms(2-6) this assms(8)] obtain b' where
    r: "rotate_cycle b (first + c) (first + n) k l d = Inr b'" "length b' = length b"
    and on: "\<And>v. v < n \<Longrightarrow> d dvd v \<Longrightarrow> b' ! (first + c + v) = b ! (first + c + (v + k) mod n)"
    and off: "\<And>q. q < length b \<Longrightarrow> \<forall>v < n. d dvd v \<longrightarrow> q \<noteq> first + c + v \<Longrightarrow> b' ! q = b ! q" by blast
  have "b' ! (first + q) = a ! (first + (if q mod d < Suc c then (q + k) mod n else q))" if q: "q < n" for q
  proof (cases "q mod d = c")
    case True
    define v where "v = q div d * d"
    have v: "q = c + v" "d dvd v" using True unfolding v_def by auto
    then have v: "q = c + v" "d dvd v" "v < n" using q by simp_all
    have m: "d dvd (v + k) mod n" using v(2) dn by (simp add: dvd_mod)
    then have lt: "c + (v + k) mod n < n" using multiple_room [OF m dn(1)] assms(6) dn(3) by simp
    have "(c + (v + k) mod n) mod n = (q + k) mod n" unfolding v(1) by (simp add: mod_add_right_eq add.assoc)
    then have x: "(q + k) mod n = c + (v + k) mod n" using lt by simp
    have "(c + (v + k) mod n) mod d = c" using m assms(6) by (auto elim!: dvdE)
    then have "b ! (first + (c + (v + k) mod n)) = a ! (first + (c + (v + k) mod n))"
      using assms(1) lt unfolding turned_def by simp
    then show ?thesis using on [OF v(3,2)] v(1) x True by (simp add: add.assoc)
  next
    case False
    have "\<forall>v < n. d dvd v \<longrightarrow> first + q \<noteq> first + c + v" using False assms(6) by (auto elim!: dvdE)
    then have "b' ! (first + q) = b ! (first + q)" using q assms(7) len by (intro off) auto
    moreover have "q mod d < Suc c \<longleftrightarrow> q mod d < c" using False by auto
    ultimately show ?thesis using assms(1) q unfolding turned_def by simp
  qed
  moreover have "b' ! q = a ! q" if q: "q < length a" "q < first \<or> first + n \<le> q" for q
  proof -
    have "\<forall>v < n. d dvd v \<longrightarrow> q \<noteq> first + c + v" using multiple_room [OF _ dn(1)] q(2) assms(6) by fastforce
    then have "b' ! q = b ! q" using q(1) len by (intro off) auto
    then show ?thesis using assms(1) q unfolding turned_def by simp
  qed
  ultimately show ?thesis using r len unfolding turned_def by simp
qed

lemma turned_rounds:
  assumes "n = k + l" "0 < k" "0 < l" "d = gcd n k" "first + n \<le> length a" "k \<noteq> l" "c \<le> d"
  shows "\<exists>b. rfold (\<lambda>a i. rotate_cycle a (first + i) (first + n) k l d) a [0..<c] = Inr b \<and> turned first n k d c a b"
  using assms(7)
proof (induction c)
  case 0
  then show ?case by (simp add: turned_def)
next
  case (Suc c)
  then obtain b where b: "rfold (\<lambda>a i. rotate_cycle a (first + i) (first + n) k l d) a [0..<c] = Inr b" "turned first n k d c a b"
    by auto
  from turned_Suc [OF b(2) assms(1-4) _ assms(5,6)] Suc.prems show ?case by (auto simp: rfold_append b(1))
qed

text \<open>With both parts of the same length the elements are exchanged in pairs.\<close>

lemma exchange_rounds:
  assumes "first + 2 * k \<le> length a" "c \<le> k"
  shows "\<exists>b. rfold (\<lambda>a i. arr_swap a (first + i) (first + k + i)) a [0..<c] = Inr b \<and> length b = length a \<and>
    (\<forall>q < length a. b ! q = a ! (if first \<le> q \<and> q < first + c then q + k
       else if first + k \<le> q \<and> q < first + k + c then q - k else q))"
  using assms(2)
proof (induction c)
  case 0
  then show ?case by auto
next
  case (Suc c)
  then obtain b where b: "rfold (\<lambda>a i. arr_swap a (first + i) (first + k + i)) a [0..<c] = Inr b" "length b = length a"
    "\<And>q. q < length a \<Longrightarrow> b ! q = a ! (if first \<le> q \<and> q < first + c then q + k
       else if first + k \<le> q \<and> q < first + k + c then q - k else q)"
    by auto
  have lt: "first + c < length a" "first + k + c < length a" using assms(1) Suc.prems by simp_all
  let ?b = "b[first + c := b ! (first + k + c), first + k + c := b ! (first + c)]"
  have e: "b ! (first + c) = a ! (first + c)" "b ! (first + k + c) = a ! (first + k + c)"
    using b(3) [OF lt(1)] b(3) [OF lt(2)] Suc.prems by simp_all
  have "?b ! q = a ! (if first \<le> q \<and> q < first + Suc c then q + k
       else if first + k \<le> q \<and> q < first + k + Suc c then q - k else q)" if q: "q < length a" for q
  proof -
    consider "q = first + c" | "q = first + k + c" "q \<noteq> first + c" | "q \<noteq> first + c" "q \<noteq> first + k + c" by blast
    then show ?thesis
    proof cases
      case 1
      then show ?thesis using e lt b(2) Suc.prems by (simp add: nth_list_update ac_simps)
    next
      case 2
      then show ?thesis using e lt b(2) Suc.prems by (simp add: ac_simps)
    next
      case 3
      then have "(q < first + Suc c) = (q < first + c)" "(q < first + k + Suc c) = (q < first + k + c)" by auto
      with 3 show ?thesis using b(3) [OF q] by simp
    qed
  qed
  then show ?case using lt b(2) by (simp add: rfold_append b(1) arr_swap_ok)
qed

text \<open>The two parts, exchanged.\<close>

definition swapped_parts :: "nat \<Rightarrow> nat \<Rightarrow> nat \<Rightarrow> 'a list \<Rightarrow> 'a list" where
  "swapped_parts first middle last' a =
     take first a @ segment middle last' a @ segment first middle a @ drop last' a"

lemma length_swapped_parts [simp]:
  "first \<le> middle \<Longrightarrow> middle \<le> last' \<Longrightarrow> last' \<le> length a \<Longrightarrow> length (swapped_parts first middle last' a) = length a"
  by (simp add: swapped_parts_def)

lemma nth_swapped_parts:
  assumes "first \<le> middle" "middle \<le> last'" "last' \<le> length a" "q < length a"
  shows "swapped_parts first middle last' a ! q = a ! (if q < first \<or> last' \<le> q then q
    else if q < first + (last' - middle) then q + (middle - first) else q - (last' - middle))"
proof -
  have l: "length (segment middle last' a) = last' - middle" "length (segment first middle a) = middle - first"
    "length (take first a) = first" using assms by simp_all
  consider "q < first" | "first \<le> q" "q < first + (last' - middle)" | "first + (last' - middle) \<le> q" "q < last'" | "last' \<le> q"
    by linarith
  then show ?thesis
  proof cases
    case 1
    then show ?thesis using assms by (simp add: swapped_parts_def nth_append)
  next
    case 2
    then have "middle + (q - first) = q + (middle - first)" "q < last'" "q - first < last' - middle" using assms by auto
    with 2 show ?thesis using assms l by (simp add: swapped_parts_def nth_append nth_segment)
  next
    case 3
    then have "first + (q - first - (last' - middle)) = q - (last' - middle)" "\<not> q < first" "\<not> last' \<le> q"
      "\<not> q < first + (last' - middle)" "\<not> q - first < last' - middle" "q - first - (last' - middle) < middle - first"
      using assms by auto
    with 3 show ?thesis using assms l by (simp add: swapped_parts_def nth_append nth_segment del: diff_diff_left)
  next
    case 4
    then have "last' + (q - first - (last' - middle) - (middle - first)) = q" "\<not> q < first"
      "\<not> q - first < last' - middle" "\<not> q - first - (last' - middle) < middle - first" using assms by auto
    with 4 show ?thesis using assms l by (simp add: swapped_parts_def nth_append del: diff_diff_left)
  qed
qed

lemma turned_swapped_parts:
  assumes "turned first (last' - first) (middle - first) d d a b" "first \<le> middle" "middle \<le> last'" "last' \<le> length a" "0 < d"
  shows "b = swapped_parts first middle last' a"
proof (rule nth_equalityI)
  let ?n = "last' - first" and ?k = "middle - first"
  show "length b = length (swapped_parts first middle last' a)" using assms by (simp add: turned_def)
  fix q assume "q < length b"
  then have q: "q < length a" using assms(1) by (simp add: turned_def)
  show "b ! q = swapped_parts first middle last' a ! q"
  proof (cases "first \<le> q \<and> q < last'")
    case False
    then show ?thesis using assms q by (auto simp: turned_def nth_swapped_parts)
  next
    case True
    then have "q - first < ?n" by auto
    then have b: "b ! q = a ! (first + (q - first + ?k) mod ?n)" using assms(1,5) True unfolding turned_def by fastforce
    show ?thesis
    proof (cases "q < first + (last' - middle)")
      case low: True
      then have "q - first + ?k < ?n" using assms True by auto
      then have "(q - first + ?k) mod ?n = q - first + ?k" by (rule mod_less)
      with low show ?thesis using b True assms q by (simp add: nth_swapped_parts)
    next
      case False
      then have "q - first + ?k = q - first - (last' - middle) + ?n" "q - first - (last' - middle) < ?n"
        using assms True by auto
      then have "(q - first + ?k) mod ?n = q - first - (last' - middle)" by (metis mod_add_self2 mod_less)
      moreover have "first + (q - first - (last' - middle)) = q - (last' - middle)" using False True by simp
      ultimately show ?thesis using False b True assms q by (simp add: nth_swapped_parts)
    qed
  qed
qed

theorem rotate_aux_correct:
  assumes "first \<le> middle" "middle \<le> last'" "last' \<le> length a"
  shows "rotate_aux a first middle last' = Inr (swapped_parts first middle last' a, first + (last' - middle))"
proof -
  define n k l where "n = last' - first" and "k = middle - first" and "l = n - k"
  have n: "n = k + l" "first + n = last'" "first + k = middle" "first + (last' - middle) = first + l"
    using assms by (auto simp: n_def k_def l_def)
  consider "k = 0" | "l = 0" "k \<noteq> 0" | "k = l" "k \<noteq> 0" | "k \<noteq> 0" "l \<noteq> 0" "k \<noteq> l" by blast
  then show ?thesis
  proof cases
    case 1
    then have "first = middle" using n by simp
    then have "swapped_parts first middle last' a = a"
      using segment_split [of middle last' a] assms by (simp add: swapped_parts_def segment_def)
    then show ?thesis using \<open>first = middle\<close> assms by (simp add: rotate_aux_def)
  next
    case 2
    have id: "rotate_cycle a (first + i) last' k l k = Inr a" if "i < k" for i
    proof -
      have "first + i < length a" using that n assms(3) by simp
      then show ?thesis using 2 by (simp add: rotate_cycle_def arr_get_def arr_set_def)
    qed
    have "rfold (\<lambda>a i. rotate_cycle a (first + i) last' k l k) a [0..<c] = Inr a" if "c \<le> k" for c
      using that by (induction c) (simp_all add: rfold_append id)
    moreover have "swapped_parts first middle last' a = a"
      using segment_split [of first last' a] n 2 assms by (simp add: swapped_parts_def segment_def)
    ultimately show ?thesis
      unfolding rotate_aux_def Let_def n_def [symmetric] k_def [symmetric] l_def [symmetric] gcd_loop_gcd n(4)
      using 2 n(1) by simp
  next
    case 3
    from exchange_rounds [of first k a k] n assms(3) 3 obtain b where
      b: "rfold (\<lambda>a i. arr_swap a (first + i) (middle + i)) a [0..<k] = Inr b" "length b = length a"
      "\<And>q. q < length a \<Longrightarrow> b ! q = a ! (if first \<le> q \<and> q < first + k then q + k
         else if first + k \<le> q \<and> q < first + k + k then q - k else q)" by auto
    have "b = swapped_parts first middle last' a"
    proof (rule nth_equalityI)
      show "length b = length (swapped_parts first middle last' a)" using b(2) assms by simp
      fix q assume q: "q < length b"
      have "last' - middle = k" "middle - first = k" "last' = first + k + k" "middle = first + k" using n 3 assms by auto
      then show "b ! q = swapped_parts first middle last' a ! q"
        using b(3) [of q] q b(2) nth_swapped_parts [OF assms, of q] by (auto simp: not_le not_less)
    qed
    then show ?thesis
      unfolding rotate_aux_def Let_def n_def [symmetric] k_def [symmetric] l_def [symmetric] n(4)
      using b(1) 3 by simp
  next
    case 4
    let ?d = "gcd n k"
    from turned_rounds [OF n(1) _ _ refl _ 4(3) order_refl, of first a] 4 assms(3) n(2) obtain b where
      b: "rfold (\<lambda>a i. rotate_cycle a (first + i) (first + n) k l ?d) a [0..<?d] = Inr b" "turned first n k ?d ?d a b"
      by auto
    have "b = swapped_parts first middle last' a"
      using turned_swapped_parts [OF _ assms] b(2) 4 unfolding n_def k_def by simp
    then show ?thesis unfolding rotate_aux_def Let_def n_def [symmetric] k_def [symmetric] l_def [symmetric] gcd_loop_gcd n(4)
      using b(1) 4 unfolding n(2) by simp
  qed
qed


text \<open>
  C23: \<open>rotate\<close> exchanges the parts in front of and behind \<open>middle\<close>, whatever their lengths, and rotating at
  the place where \<open>middle\<close> was brings the elements back.
\<close>

theorem rotate_and_back:
  assumes "first \<le> middle" "middle \<le> last'" "last' \<le> length a"
  shows "\<exists>b. arr_rotate a first middle last' = Inr b \<and>
    b = take first a @ segment middle last' a @ segment first middle a @ drop last' a \<and>
    arr_rotate b first (first + (last' - middle)) last' = Inr a"
proof -
  let ?b = "swapped_parts first middle last' a" and ?m = "first + (last' - middle)"
  have m: "first \<le> ?m" "?m \<le> last'" "last' \<le> length ?b" using assms by simp_all
  have "swapped_parts first ?m last' ?b = a"
  proof (rule nth_equalityI)
    show "length (swapped_parts first ?m last' ?b) = length a" using m assms by simp
    fix q assume "q < length (swapped_parts first ?m last' ?b)"
    then have q: "q < length a" "q < length ?b" using m assms by simp_all
    consider "q < first \<or> last' \<le> q" | "first \<le> q" "q < middle" | "middle \<le> q" "q < last'" by linarith
    then show "swapped_parts first ?m last' ?b ! q = a ! q"
    proof cases
      case 1
      then show ?thesis using nth_swapped_parts [OF m q(2)] nth_swapped_parts [OF assms q(1)] assms by auto
    next
      case 2
      then have e: "q < first + (last' - ?m)" "q + (?m - first) = q + (last' - middle)" "q + (last' - middle) < length a"
        using assms by auto
      have "swapped_parts first ?m last' ?b ! q = ?b ! (q + (last' - middle))"
        using nth_swapped_parts [OF m q(2)] 2 e assms by auto
      also have "\<dots> = a ! q" using nth_swapped_parts [OF assms e(3)] 2 assms by auto
      finally show ?thesis .
    next
      case 3
      then have e: "\<not> q < first + (last' - ?m)" "q - (last' - ?m) = q - (middle - first)" "q - (middle - first) < length a"
        "q - (middle - first) < ?m" "first \<le> q - (middle - first)" "q - (middle - first) + (middle - first) = q"
        using assms q(1) by auto
      have "swapped_parts first ?m last' ?b ! q = ?b ! (q - (middle - first))"
        using nth_swapped_parts [OF m q(2)] 3 e(1,2) assms by auto
      also have "\<dots> = a ! q" using nth_swapped_parts [OF assms e(3)] e(4-6) 3 assms by auto
      finally show ?thesis .
    qed
  qed
  then have "arr_rotate ?b first ?m last' = Inr a"
    using rotate_aux_correct [OF m] by (simp add: arr_rotate_def)
  then show ?thesis
    using rotate_aux_correct [OF assms] by (simp add: arr_rotate_def swapped_parts_def)
qed

theorem rotate_and_back_witness:
  "arr_rotate [0, 1, 2, 3, 4, 5, 6, 7] 2 5 7 = Inr [0, 1, 5, 6, 2, 3, 4, 7 :: int] \<and>
    arr_rotate [0, 1, 5, 6, 2, 3, 4, 7] 2 4 7 = Inr [0, 1, 2, 3, 4, 5, 6, 7 :: int]"
  using rotate_and_back [of 2 5 7 "[0, 1, 2, 3, 4, 5, 6, 7 :: int]"] by (simp add: segment_def)

end
