(* ===== verification/Cstl_Merge.thy ===== *)
theory Cstl_Merge
  imports Cstl_Rotate Stable_Merge
begin

text \<open>
  The merges of \<open>cstl/algorithm.h\<close> and the stable sort built on them.  \<open>merge_with_buffer\<close> copies the two
  parts to a buffer, the second one backwards, and takes from its two ends; \<open>merge_without_buffer\<close>
  cuts both parts by bisection, rotates the middle and recurs.  \<open>stable_sort\<close> and \<open>inplace_merge\<close> ask for
  a buffer and do without it if there is no memory: the results are the same.
\<close>

subsection \<open>The code\<close>

definition merge_cuts ::
  "('a \<Rightarrow> 'a \<Rightarrow> int) \<Rightarrow> 'a list \<Rightarrow> nat \<Rightarrow> nat \<Rightarrow> nat \<Rightarrow> nat \<Rightarrow> nat \<Rightarrow> (nat \<times> nat \<times> nat \<times> nat) res" where
  "merge_cuts cmp a first middle last' len1 len2 = (if len1 > len2 then
     let len11 = len1 div 2; first_cut = first + len11 in
     rbind (arr_get a first_cut) (\<lambda>v. rbind (lower_bound cmp a middle (last' - middle) v) (\<lambda>second_cut.
     Inr (first_cut, second_cut, len11, second_cut - middle)))
   else
     let len22 = len2 div 2; second_cut = middle + len22 in
     rbind (arr_get a second_cut) (\<lambda>v. rbind (upper_bound cmp a first (middle - first) v) (\<lambda>first_cut.
     Inr (first_cut, second_cut, first_cut - first, len22))))"

fun merge_without_buffer ::
  "('a \<Rightarrow> 'a \<Rightarrow> int) \<Rightarrow> nat \<Rightarrow> 'a list \<Rightarrow> nat \<Rightarrow> nat \<Rightarrow> nat \<Rightarrow> nat \<Rightarrow> nat \<Rightarrow> 'a list res" where
  "merge_without_buffer cmp 0 a first middle last' len1 len2 =
     (if len1 = 0 \<or> len2 = 0 then Inr a else Inl OutOfFuel)"
| "merge_without_buffer cmp (Suc fuel) a first middle last' len1 len2 =
     (if len1 = 0 \<or> len2 = 0 then Inr a
      else if len1 + len2 = 2 then cmp_swap cmp a first middle
      else rbind (merge_cuts cmp a first middle last' len1 len2) (\<lambda>(first_cut, second_cut, len11, len22).
        rbind (rotate_aux a first_cut middle second_cut) (\<lambda>(a1, new_middle).
        rbind (merge_without_buffer cmp fuel a1 first first_cut new_middle len11 len22) (\<lambda>a2.
        merge_without_buffer cmp fuel a2 new_middle second_cut last' (len1 - len11) (len2 - len22)))))"

definition fill_buffer :: "'a list \<Rightarrow> nat \<Rightarrow> nat \<Rightarrow> nat \<Rightarrow> 'a cells \<Rightarrow> 'a cells res" where
  "fill_buffer a first middle last' buf =
     rbind (rfold (\<lambda>buf i. rbind (arr_get a i) (cell_set buf (i - first))) buf [first..<middle]) (\<lambda>buf1.
     rfold (\<lambda>buf i. rbind (arr_get a (last' - 1 - (i - middle))) (cell_set buf (i - first))) buf1 [middle..<last'])"

fun drain_loop ::
  "('a \<Rightarrow> 'a \<Rightarrow> int) \<Rightarrow> nat \<Rightarrow> 'a list \<Rightarrow> 'a cells \<Rightarrow> nat \<Rightarrow> nat \<Rightarrow> nat \<Rightarrow> nat \<Rightarrow> nat \<Rightarrow> 'a list res" where
  "drain_loop cmp 0 a buf first middle k i j = Inr a"
| "drain_loop cmp (Suc t) a buf first middle k i j =
     rbind (if i < middle then rbind (cell_get buf (i - first)) (\<lambda>x. rbind (cell_get buf (j - first)) (\<lambda>y.
         Inr (cmp x y \<le> 0))) else Inr False) (\<lambda>up.
     if up then rbind (cell_get buf (i - first)) (\<lambda>x. rbind (arr_set a k x) (\<lambda>a1.
         drain_loop cmp t a1 buf first middle (k + 1) (i + 1) j))
     else rbind (cell_get buf (j - first)) (\<lambda>y. rbind (arr_set a k y) (\<lambda>a1.
         drain_loop cmp t a1 buf first middle (k + 1) i (sz_sub j 1))))"

definition merge_with_buffer ::
  "('a \<Rightarrow> 'a \<Rightarrow> int) \<Rightarrow> 'a list \<Rightarrow> nat \<Rightarrow> nat \<Rightarrow> nat \<Rightarrow> 'a cells \<Rightarrow> ('a list \<times> 'a cells) res" where
  "merge_with_buffer cmp a first middle last' buf = rbind (fill_buffer a first middle last' buf) (\<lambda>buf1.
     rbind (drain_loop cmp (last' - first) a buf1 first middle first first (last' - 1)) (\<lambda>a1. Inr (a1, buf1)))"

text \<open>The merge with the buffer if there is one.\<close>

definition merge_parts ::
  "('a \<Rightarrow> 'a \<Rightarrow> int) \<Rightarrow> 'a list \<Rightarrow> nat \<Rightarrow> nat \<Rightarrow> nat \<Rightarrow> 'a cells option \<Rightarrow> ('a list \<times> 'a cells option) res" where
  "merge_parts cmp a first middle last' buf = (case buf of
     Some b \<Rightarrow> rbind (merge_with_buffer cmp a first middle last' b) (\<lambda>(a1, b1). Inr (a1, Some b1))
   | None \<Rightarrow> rbind (merge_without_buffer cmp (last' - first) a first middle last' (middle - first) (last' - middle))
       (\<lambda>a1. Inr (a1, None)))"

fun arr_merge_sort ::
  "('a \<Rightarrow> 'a \<Rightarrow> int) \<Rightarrow> nat \<Rightarrow> 'a list \<Rightarrow> nat \<Rightarrow> nat \<Rightarrow> 'a cells option \<Rightarrow> ('a list \<times> 'a cells option) res" where
  "arr_merge_sort cmp 0 a first last' buf = (if last' - first \<le> 1 then Inr (a, buf) else Inl OutOfFuel)"
| "arr_merge_sort cmp (Suc fuel) a first last' buf =
     (if last' - first \<le> 1 then Inr (a, buf)
      else if last' - first < SWITCH_INSERTION_SORT then
        rbind (insertion_sort cmp a first (last' - first)) (\<lambda>a1. Inr (a1, buf))
      else let middle = sz (first + last') div 2 in
        rbind (arr_merge_sort cmp fuel a first middle buf) (\<lambda>(a1, buf1).
        rbind (arr_merge_sort cmp fuel a1 middle last' buf1) (\<lambda>(a2, buf2).
        merge_parts cmp a2 first middle last' buf2)))"

text \<open>\<open>malloc\<close> of \<open>n\<close> elements of \<open>ts\<close> bytes; \<open>mem\<close> says which sizes can be had.\<close>

definition merge_buffer :: "(nat \<Rightarrow> bool) \<Rightarrow> nat \<Rightarrow> nat \<Rightarrow> 'a cells option" where
  "merge_buffer mem ts n = (if mem (sz (ts * n)) then Some (replicate (sz (ts * n) div ts) None) else None)"

definition stable_sort ::
  "(nat \<Rightarrow> bool) \<Rightarrow> nat \<Rightarrow> ('a \<Rightarrow> 'a \<Rightarrow> int) \<Rightarrow> 'a list \<Rightarrow> nat \<Rightarrow> nat \<Rightarrow> 'a list res" where
  "stable_sort mem ts cmp a idx n = (if n < SWITCH_INSERTION_SORT then insertion_sort cmp a idx n
     else rbind (arr_merge_sort cmp n a idx (sz (idx + n)) (merge_buffer mem ts n)) (\<lambda>(a1, _). Inr a1))"

definition inplace_merge ::
  "(nat \<Rightarrow> bool) \<Rightarrow> nat \<Rightarrow> ('a \<Rightarrow> 'a \<Rightarrow> int) \<Rightarrow> 'a list \<Rightarrow> nat \<Rightarrow> nat \<Rightarrow> nat \<Rightarrow> 'a list res" where
  "inplace_merge mem ts cmp a first middle last' = (if first = middle \<or> middle = last' then Inr a
     else rbind (merge_parts cmp a first middle last' (merge_buffer mem ts (last' - first))) (\<lambda>(a1, _). Inr a1))"

subsection \<open>A stable arrangement is the only one\<close>

lemma stable_unique:
  assumes "total_cmp cmp" "sorted_wrt (\<lambda>x y. cmp x y \<le> 0) xs" "sorted_wrt (\<lambda>x y. cmp x y \<le> 0) ys"
    "\<And>v. filter (\<lambda>x. cmp x v = 0) xs = filter (\<lambda>x. cmp x v = 0) ys"
  shows "xs = ys"
  using assms(2-4)
proof (induction xs arbitrary: ys)
  case Nil
  have "ys = []"
  proof (cases ys)
    case (Cons y zs)
    then show ?thesis using Nil(3) [of y] total_cmpD(3) [OF assms(1), of y] by simp
  qed
  then show ?case by simp
next
  case (Cons x xs)
  have refl: "cmp v v = 0" for v by (rule total_cmpD(3) [OF assms(1)])
  obtain y zs where ys: "ys = y # zs"
    using Cons.prems(3) [of x] refl [of x] by (cases ys) auto
  have "x \<in> set (filter (\<lambda>z. cmp z x = 0) (x # xs))" "y \<in> set (filter (\<lambda>z. cmp z y = 0) ys)"
    using refl ys by simp_all
  then have "x \<in> set ys" "y \<in> set (x # xs)"
    unfolding Cons.prems(3) [of x] Cons.prems(3) [of y, symmetric] by (simp_all only: set_filter mem_Collect_eq)
  then have "cmp y x \<le> 0" "cmp x y \<le> 0" using Cons.prems(1,2) refl [of x] refl [of y] ys by auto
  then have "cmp y x = 0" using total_cmp_eq(1) [OF assms(1)] by blast
  then have "x = y" using Cons.prems(3) [of x] refl [of x] ys by simp
  moreover have "xs = zs"
  proof (rule Cons.IH)
    fix v show "filter (\<lambda>x. cmp x v = 0) xs = filter (\<lambda>x. cmp x v = 0) zs"
      using Cons.prems(3) [of v] \<open>x = y\<close> ys by (simp split: if_splits)
  qed (use Cons.prems ys in auto)
  ultimately show ?case using ys by simp
qed

text \<open>Arranged, in order, and no two equivalent elements exchanged.\<close>

definition stably_sorted :: "('a \<Rightarrow> 'a \<Rightarrow> int) \<Rightarrow> nat \<Rightarrow> nat \<Rightarrow> 'a list \<Rightarrow> 'a list \<Rightarrow> bool" where
  "stably_sorted cmp l r a b \<longleftrightarrow> arranged l r a b \<and> steady cmp a b \<and> sorted_on cmp l r b"

lemma sorted_on_segment:
  assumes "sorted_on cmp l r a" "r \<le> length a"
  shows "sorted_wrt (\<lambda>x y. cmp x y \<le> 0) (segment l r a)"
  unfolding sorted_wrt_iff_nth_less using assms by (auto simp: nth_segment intro: sorted_onD)

lemma stably_sorted_unique:
  assumes "total_cmp cmp" "stably_sorted cmp l r a b" "stably_sorted cmp l r a c" "l \<le> r" "r \<le> length a"
  shows "b = c"
proof -
  have ar: "arranged l r a b" "arranged l r a c" and st: "steady cmp a b" "steady cmp a c"
    and so: "sorted_on cmp l r b" "sorted_on cmp l r c" using assms(2,3) by (auto simp: stably_sorted_def)
  have len: "length b = length a" "length c = length a" using ar by (auto dest: arranged_length)
  have ends: "take l b = take l c" "drop r b = drop r c"
    using assms(4,5) ar len by (auto intro!: nth_equalityI simp: arranged_nth)
  have b: "b = take l b @ segment l r b @ drop r b" and c: "c = take l c @ segment l r c @ drop r c"
    using segment_split assms(4,5) len by metis+
  have "segment l r b = segment l r c"
  proof (rule stable_unique [OF assms(1)])
    fix v
    let ?f = "filter (\<lambda>x. cmp x v = 0)"
    have "?f b = ?f c" using st by (simp add: steady_def)
    then have "?f (take l c) @ ?f (segment l r b) @ ?f (drop r c) = ?f (take l c) @ ?f (segment l r c) @ ?f (drop r c)"
      using b c ends by (metis filter_append)
    then show "?f (segment l r b) = ?f (segment l r c)" by simp
  qed (simp_all add: sorted_on_segment so assms(5) len)
  with b c ends show ?thesis by metis
qed


subsection \<open>Merging with a buffer\<close>

text \<open>The buffer: \<open>xs\<close> from its start, \<open>ys\<close> backwards after it.\<close>

definition two_ended :: "'a list \<Rightarrow> 'a list \<Rightarrow> 'a cells \<Rightarrow> bool" where
  "two_ended xs ys buf \<longleftrightarrow> length xs + length ys \<le> length buf \<and>
     (\<forall>p < length xs. buf ! p = Some (xs ! p)) \<and>
     (\<forall>q < length ys. buf ! (length xs + length ys - 1 - q) = Some (ys ! q))"

lemma two_ended_get:
  assumes "two_ended xs ys buf"
  shows "p < length xs \<Longrightarrow> cell_get buf p = Inr (xs ! p)"
    "q < length ys \<Longrightarrow> cell_get buf (length xs + length ys - 1 - q) = Inr (ys ! q)"
  using assms by (auto simp: two_ended_def cell_get_def)

lemma drain_loop_correct:
  assumes "total_cmp cmp" "sorted_wrt (\<lambda>x y. cmp x y \<le> 0) xs" "two_ended xs ys buf" "middle = first + length xs"
    and "p \<le> length xs" "q \<le> length ys" "t = length xs + length ys - p - q" "k + t \<le> length a"
    and "0 < t \<Longrightarrow> j = first + (length xs + length ys - 1 - q)"
  shows "drain_loop cmp t a buf first middle k (first + p) j =
    Inr (take k a @ amerge (\<lambda>x y. cmp x y \<le> 0) (drop p xs) (drop q ys) @ drop (k + t) a)"
  using assms(5-9)
proof (induction t arbitrary: a k p q j)
  case 0
  then show ?case by simp
next
  case (Suc t)
  let ?le = "\<lambda>x y. cmp x y \<le> 0"
  have k: "k < length a" using Suc.prems(4) by simp
  have j: "j - first = length xs + length ys - 1 - q" using Suc.prems(5) by simp
  show ?case
  proof (cases "p < length xs \<and> (q = length ys \<or> ?le (xs ! p) (ys ! q))")
    case True
    have get: "cell_get buf p = Inr (xs ! p)" using True two_ended_get(1) [OF assms(3)] by simp
    have "\<exists>y. cell_get buf (j - first) = Inr y \<and> ?le (xs ! p) y"
    proof (cases "q = length ys")
      case True: True
      then have "j - first = length xs - 1" "length xs - 1 < length xs" using j \<open>p < length xs \<and> _\<close> by auto
      moreover have "?le (xs ! p) (xs ! (length xs - 1))"
        using sorted_wrt_nth_less [OF assms(2), of p "length xs - 1"] total_cmpD(3) [OF assms(1), of "xs ! p"]
          \<open>p < length xs \<and> _\<close> by (cases "p = length xs - 1") auto
      ultimately show ?thesis using two_ended_get(1) [OF assms(3)] by auto
    next
      case False
      then show ?thesis using two_ended_get(2) [OF assms(3), of q] Suc.prems(2) j \<open>p < length xs \<and> _\<close> by auto
    qed
    then obtain y where y: "cell_get buf (j - first) = Inr y" "?le (xs ! p) y" by blast
    have "drain_loop cmp t (a[k := xs ! p]) buf first middle (k + 1) (first + Suc p) j =
        Inr (take (k + 1) (a[k := xs ! p]) @ amerge ?le (drop (Suc p) xs) (drop q ys) @ drop (k + 1 + t) (a[k := xs ! p]))"
      using Suc.prems True by (intro Suc.IH) auto
    moreover have "amerge ?le (drop p xs) (drop q ys) = xs ! p # amerge ?le (drop (Suc p) xs) (drop q ys)"
    proof (cases "q = length ys")
      case False
      then have "drop q ys = ys ! q # drop (Suc q) ys" using Suc.prems(2) by (simp add: Cons_nth_drop_Suc)
      then show ?thesis using True False by (simp add: Cons_nth_drop_Suc [symmetric])
    qed (use True in \<open>simp add: Cons_nth_drop_Suc [symmetric]\<close>)
    ultimately show ?thesis
      using True get y k assms(4) by (simp add: arr_set_def take_Suc_conv_app_nth)
  next
    case False
    then have q: "q < length ys" using Suc.prems by auto
    then have get: "cell_get buf (j - first) = Inr (ys ! q)" using two_ended_get(2) [OF assms(3)] j by simp
    have "0 < t \<Longrightarrow> sz_sub j 1 = first + (length xs + length ys - 1 - Suc q)"
      using Suc.prems q by (simp add: sz_sub_def)
    then have "drain_loop cmp t (a[k := ys ! q]) buf first middle (k + 1) (first + p) (sz_sub j 1) =
        Inr (take (k + 1) (a[k := ys ! q]) @ amerge ?le (drop p xs) (drop (Suc q) ys) @ drop (k + 1 + t) (a[k := ys ! q]))"
      using Suc.prems q by (intro Suc.IH) auto
    moreover have "amerge ?le (drop p xs) (drop q ys) = ys ! q # amerge ?le (drop p xs) (drop (Suc q) ys)"
      using False q Cons_nth_drop_Suc [OF q, symmetric] by (cases "p < length xs") (auto simp: Cons_nth_drop_Suc [symmetric])
    moreover have "(if first + p < middle then rbind (cell_get buf (first + p - first)) (\<lambda>x. rbind (cell_get buf (j - first))
        (\<lambda>y. Inr (?le x y))) else Inr False) = Inr False"
      using two_ended_get(1) [OF assms(3), of p] get False q assms(4) by auto
    ultimately show ?thesis
      unfolding drain_loop.simps by (simp only: rbind_Inr if_False get)
        (use k in \<open>simp add: arr_set_def take_Suc_conv_app_nth\<close>)
  qed
qed


lemma copy_rounds:
  assumes "\<And>i. lo \<le> i \<Longrightarrow> i < hi \<Longrightarrow> g i < length a" "first \<le> lo" "lo \<le> hi" "hi - first \<le> length buf"
  shows "\<exists>b. rfold (\<lambda>buf i. rbind (arr_get a (g i)) (cell_set buf (i - first))) buf [lo..<hi] = Inr b \<and>
    length b = length buf \<and>
    (\<forall>p < length buf. b ! p = (if lo \<le> first + p \<and> first + p < hi then Some (a ! g (first + p)) else buf ! p))"
  using assms(3,1,4)
proof (induction hi rule: dec_induct)
  case base
  then show ?case by auto
next
  case (step n)
  have "n - first \<le> length buf" "\<And>i. lo \<le> i \<Longrightarrow> i < n \<Longrightarrow> g i < length a" using step.prems by auto
  with step.IH obtain b where b: "rfold (\<lambda>buf i. rbind (arr_get a (g i)) (cell_set buf (i - first))) buf [lo..<n] = Inr b"
    "length b = length buf"
    "\<And>p. p < length buf \<Longrightarrow> b ! p = (if lo \<le> first + p \<and> first + p < n then Some (a ! g (first + p)) else buf ! p)"
    by blast
  have n: "g n < length a" "n - first < length buf" "first \<le> n" "lo \<le> n" using step.prems step.hyps assms(2) by auto
  have "b[n - first := Some (a ! g n)] ! p =
      (if lo \<le> first + p \<and> first + p < Suc n then Some (a ! g (first + p)) else buf ! p)" if "p < length buf" for p
  proof (cases "p = n - first")
    case False
    then have "first + p < Suc n \<longleftrightarrow> first + p < n" by auto
    with False b(3) [OF that] show ?thesis by simp
  qed (use n b(2) in simp)
  moreover have "rbind (arr_get a (g n)) (cell_set b (n - first)) = Inr (b[n - first := Some (a ! g n)])"
    using n b(2) by (simp add: arr_get_def cell_set_def)
  ultimately show ?case using n(4) b(2) by (simp add: rfold_append b(1) del: nth_list_update)
qed

lemma fill_buffer_correct:
  assumes "first \<le> middle" "middle \<le> last'" "last' \<le> length a" "last' - first \<le> length buf"
  shows "\<exists>b. fill_buffer a first middle last' buf = Inr b \<and> length b = length buf \<and>
    two_ended (segment first middle a) (segment middle last' a) b"
proof -
  have "\<And>i. first \<le> i \<Longrightarrow> i < middle \<Longrightarrow> i < length a" "middle - first \<le> length buf" using assms by auto
  from copy_rounds [of first middle "\<lambda>i. i", OF this(1) order_refl assms(1) this(2)] obtain b1 where
    b1: "rfold (\<lambda>buf i. rbind (arr_get a i) (cell_set buf (i - first))) buf [first..<middle] = Inr b1" "length b1 = length buf"
    "\<And>p. p < length buf \<Longrightarrow> b1 ! p = (if first \<le> first + p \<and> first + p < middle then Some (a ! (first + p)) else buf ! p)"
    by blast
  have "\<And>i. middle \<le> i \<Longrightarrow> i < last' \<Longrightarrow> last' - 1 - (i - middle) < length a" "last' - first \<le> length b1"
    using assms b1(2) by auto
  from copy_rounds [of middle last' "\<lambda>i. last' - 1 - (i - middle)", OF this(1) assms(1,2) this(2)] obtain b where
    b: "rfold (\<lambda>buf i. rbind (arr_get a (last' - 1 - (i - middle))) (cell_set buf (i - first))) b1 [middle..<last'] = Inr b"
    "length b = length b1" "\<And>p. p < length b1 \<Longrightarrow> b ! p = (if middle \<le> first + p \<and> first + p < last'
      then Some (a ! (last' - 1 - (first + p - middle))) else b1 ! p)"
    by blast
  let ?xs = "segment first middle a" and ?ys = "segment middle last' a"
  have len: "length ?xs = middle - first" "length ?ys = last' - middle" using assms by simp_all
  have "b ! p = Some (?xs ! p)" if "p < middle - first" for p
  proof -
    have "p < length buf" "first + p < middle" using that assms by auto
    then show ?thesis using b(3) [of p] b1(3) [of p] that assms b1(2) by (simp add: nth_segment)
  qed
  moreover have "b ! (length ?xs + length ?ys - 1 - q) = Some (?ys ! q)" if q: "q < last' - middle" for q
  proof -
    let ?p = "length ?xs + length ?ys - 1 - q"
    have p: "?p < length b1" "middle \<le> first + ?p" "first + ?p < last'" "last' - 1 - (first + ?p - middle) = middle + q"
      using q len assms b1(2) by auto
    show ?thesis using b(3) [OF p(1)] p q assms(3) by (simp only: nth_segment) simp
  qed
  ultimately show ?thesis
    using b b1 len assms by (auto simp: fill_buffer_def two_ended_def)
qed


lemma segment_append:
  assumes "l \<le> m" "m \<le> r" "r \<le> length a"
  shows "segment l r a = segment l m a @ segment m r a"
  using assms by (intro nth_equalityI) (auto simp: nth_append nth_segment add.commute)

text \<open>A new middle part.\<close>

lemma stably_sorted_replace:
  assumes "l \<le> r" "r \<le> length a" "sorted_wrt (\<lambda>x y. cmp x y \<le> 0) zs" "mset zs = mset (segment l r a)"
    "\<And>v. filter (\<lambda>x. cmp x v = 0) zs = filter (\<lambda>x. cmp x v = 0) (segment l r a)"
  shows "stably_sorted cmp l r a (take l a @ zs @ drop r a)"
proof -
  let ?b = "take l a @ zs @ drop r a"
  note split = segment_split [OF assms(1,2)]
  have len: "length zs = r - l" using mset_eq_length [OF assms(4)] assms(2) by simp
  have "mset ?b = mset (take l a @ segment l r a @ drop r a)" using assms(4) by simp
  then have "mset ?b = mset a" using split by simp
  moreover have "?b ! i = a ! i" if "i < l \<or> r \<le> i" "i < length a" for i
    using that assms(1,2) len by (auto simp: nth_append)
  moreover have "steady cmp a ?b" unfolding steady_def
  proof
    fix v
    have "filter (\<lambda>x. cmp x v = 0) ?b = filter (\<lambda>x. cmp x v = 0) (take l a @ segment l r a @ drop r a)"
      using assms(5) by simp
    then show "filter (\<lambda>x. cmp x v = 0) ?b = filter (\<lambda>x. cmp x v = 0) a" using split by simp
  qed
  moreover have "cmp (?b ! i) (?b ! j) \<le> 0" if "l \<le> i" "i < j" "j < r" for i j
    using sorted_wrt_nth_less [OF assms(3), of "i - l" "j - l"] that assms(1,2) len by (auto simp: nth_append)
  ultimately show ?thesis by (auto simp: stably_sorted_def arranged_def sorted_on_def)
qed

lemma merge_with_buffer_correct:
  assumes "total_cmp cmp" "sorted_on cmp first middle a" "sorted_on cmp middle last' a"
    and "first \<le> middle" "middle \<le> last'" "last' \<le> length a" "last' - first \<le> length buf"
  shows "\<exists>b buf1. merge_with_buffer cmp a first middle last' buf = Inr (b, buf1) \<and> length buf1 = length buf \<and>
    stably_sorted cmp first last' a b"
proof -
  let ?xs = "segment first middle a" and ?ys = "segment middle last' a" and ?le = "\<lambda>x y. cmp x y \<le> 0"
  have tot: "?le x y \<or> ?le y x" "?le x y \<Longrightarrow> ?le y z \<Longrightarrow> ?le x z" for x y z
    using total_cmpD(1) [OF assms(1), of y x] total_cmpD(2) [OF assms(1)] by force+
  have s: "sorted_wrt ?le ?xs" "sorted_wrt ?le ?ys"
    using sorted_on_segment [OF assms(2)] sorted_on_segment [OF assms(3)] assms(5,6) by simp_all
  have cat: "segment first last' a = ?xs @ ?ys"
    by (rule segment_append [OF assms(4-6)])
  from fill_buffer_correct [OF assms(4-7)] obtain buf1 where
    buf: "fill_buffer a first middle last' buf = Inr buf1" "length buf1 = length buf" "two_ended ?xs ?ys buf1" by blast
  have "drain_loop cmp (last' - first) a buf1 first middle first (first + 0) (last' - 1) =
      Inr (take first a @ amerge ?le (drop 0 ?xs) (drop 0 ?ys) @ drop (first + (last' - first)) a)"
    by (rule drain_loop_correct [OF assms(1) s(1) buf(3)]) (use assms(4-6) in auto)
  then have run: "merge_with_buffer cmp a first middle last' buf = Inr (take first a @ amerge ?le ?xs ?ys @ drop last' a, buf1)"
    using buf(1) assms(4,5) by (simp add: merge_with_buffer_def)
  have "filter (\<lambda>x. cmp x v = 0) (amerge ?le ?xs ?ys) = filter (\<lambda>x. cmp x v = 0) ?xs @ filter (\<lambda>x. cmp x v = 0) ?ys" for v
  proof (rule filter_amerge)
    fix x y assume "cmp x v = 0" "cmp y v = 0"
    then show "?le x y" using total_cmp_eq [OF assms(1)] by (metis order_refl)
  qed (use tot(2) s in auto)
  then have "stably_sorted cmp first last' a (take first a @ amerge ?le ?xs ?ys @ drop last' a)"
    using amerge_sorted [OF tot s] assms(4-6)
    by (intro stably_sorted_replace) (auto simp: mset_amerge cat)
  with run buf(2) show ?thesis by blast
qed


subsection \<open>Merging without a buffer\<close>

text \<open>Two parts on either side of a value, one after the other.\<close>

lemma stably_sorted_join:
  assumes "total_cmp cmp" "stably_sorted cmp l m a b" "stably_sorted cmp m r b c" "l \<le> m" "m \<le> r" "r \<le> length a"
    and low: "\<And>i. l \<le> i \<Longrightarrow> i < m \<Longrightarrow> cmp (a ! i) p \<le> 0" and high: "\<And>i. m \<le> i \<Longrightarrow> i < r \<Longrightarrow> cmp p (a ! i) \<le> 0"
  shows "stably_sorted cmp l r a c"
proof -
  have ab: "arranged l m a b" "steady cmp a b" "sorted_on cmp l m b" and bc: "arranged m r b c" "steady cmp b c" "sorted_on cmp m r c"
    using assms(2,3) by (auto simp: stably_sorted_def)
  have len: "length b = length a" by (rule arranged_length [OF ab(1)])
  have c_low: "c ! i = b ! i" if "i < m" for i using arranged_nth [OF bc(1)] that assms(5,6) len by simp
  have b_high: "b ! i = a ! i" if "m \<le> i" "i < r" for i using arranged_nth [OF ab(1)] that assms(6) by simp
  have lp: "cmp (c ! i) p \<le> 0" if i: "l \<le> i" "i < m" for i
  proof -
    have "cmp (b ! i) p \<le> 0"
      by (rule arranged_all [OF ab(1), where P = "\<lambda>x. cmp x p \<le> 0"]) (use low assms(4-6) i in auto)
    then show ?thesis using c_low i by simp
  qed
  have hp: "cmp p (c ! i) \<le> 0" if i: "m \<le> i" "i < r" for i
    by (rule arranged_all [OF bc(1), where P = "\<lambda>x. cmp p x \<le> 0"]) (use high b_high assms(5,6) len i in auto)
  have "cmp (c ! i) (c ! j) \<le> 0" if ij: "l \<le> i" "i < j" "j < r" for i j
  proof -
    consider "j < m" | "i < m" "m \<le> j" | "m \<le> i" by linarith
    then show ?thesis
    proof cases
      case 1
      then show ?thesis using sorted_onD [OF ab(3) ij(1,2)] c_low ij by simp
    next
      case 2
      then show ?thesis using total_cmpD(2) [OF assms(1) lp [OF ij(1)] hp] ij by simp
    next
      case 3
      then show ?thesis using sorted_onD [OF bc(3)] ij by simp
    qed
  qed
  moreover have "arranged l r a c"
    by (rule arranged_trans [OF arranged_mono [OF ab(1)] arranged_mono [OF bc(1)]]) (use assms(4,5) in auto)
  ultimately show ?thesis using steady_trans [OF ab(2) bc(2)] by (auto simp: stably_sorted_def sorted_on_def)
qed

text \<open>Exchanging two parts does not exchange equivalent elements if all of the second part are smaller.\<close>

lemma swapped_parts_arranged:
  assumes "first \<le> middle" "middle \<le> last'" "last' \<le> length a"
  shows "arranged first last' a (swapped_parts first middle last' a)"
proof -
  have a: "a = take first a @ segment first middle a @ segment middle last' a @ drop last' a"
    using segment_split [of first last' a] segment_append [OF assms] assms by simp
  have "mset (swapped_parts first middle last' a) = mset (take first a @ segment first middle a @ segment middle last' a @ drop last' a)"
    by (simp add: swapped_parts_def)
  also have "\<dots> = mset a" using a by (simp only:)
  finally show ?thesis using assms by (auto simp: arranged_def nth_swapped_parts)
qed


lemma swapped_parts_steady:
  assumes "total_cmp cmp" "first \<le> middle" "middle \<le> last'" "last' \<le> length a"
    "\<And>i j. first \<le> i \<Longrightarrow> i < middle \<Longrightarrow> middle \<le> j \<Longrightarrow> j < last' \<Longrightarrow> cmp (a ! j) (a ! i) < 0"
  shows "steady cmp a (swapped_parts first middle last' a)"
  unfolding steady_def
proof
  fix v
  let ?f = "filter (\<lambda>x. cmp x v = 0)" and ?xs = "segment first middle a" and ?ys = "segment middle last' a"
  have a: "a = take first a @ ?xs @ ?ys @ drop last' a"
    using segment_split [of first last' a] segment_append [OF assms(2-4)] assms by simp
  have "?f ?xs = [] \<or> ?f ?ys = []"
  proof (rule ccontr)
    assume "\<not> ?thesis"
    then obtain x y where "x \<in> set ?xs" "cmp x v = 0" "y \<in> set ?ys" "cmp y v = 0"
      by (auto simp: filter_empty_conv)
    then have "cmp y x < 0" using assms(3-5) by (auto simp: set_segment)
    moreover have "cmp x y \<le> 0"
      using \<open>cmp x v = 0\<close> \<open>cmp y v = 0\<close> total_cmp_eq [OF assms(1)] by (metis order_refl)
    ultimately show False using total_cmpD(1) [OF assms(1), of y x] by simp
  qed
  then have "?f (take first a @ ?ys @ ?xs @ drop last' a) = ?f (take first a @ ?xs @ ?ys @ drop last' a)" by auto
  then show "?f (swapped_parts first middle last' a) = ?f a" using a by (simp add: swapped_parts_def)
qed

lemma merge_cuts_correct:
  assumes "total_cmp cmp" "sorted_on cmp first middle a" "sorted_on cmp middle last' a"
    and "first < middle" "middle < last'" "last' \<le> length a" "length a < 2 ^ 63" "last' - first \<noteq> 2"
  shows "\<exists>fc sc p. merge_cuts cmp a first middle last' (middle - first) (last' - middle) = Inr (fc, sc, fc - first, sc - middle) \<and>
    first \<le> fc \<and> fc \<le> middle \<and> middle \<le> sc \<and> sc \<le> last' \<and> 0 < fc - first + (sc - middle) \<and> fc - first + (sc - middle) < last' - first \<and>
    (\<forall>i. first \<le> i \<longrightarrow> i < fc \<longrightarrow> cmp (a ! i) p \<le> 0) \<and> (\<forall>i. fc \<le> i \<longrightarrow> i < middle \<longrightarrow> cmp p (a ! i) \<le> 0) \<and>
    (\<forall>i. middle \<le> i \<longrightarrow> i < sc \<longrightarrow> cmp (a ! i) p \<le> 0) \<and> (\<forall>i. sc \<le> i \<longrightarrow> i < last' \<longrightarrow> cmp p (a ! i) \<le> 0) \<and>
    (\<forall>i j. fc \<le> i \<longrightarrow> i < middle \<longrightarrow> middle \<le> j \<longrightarrow> j < sc \<longrightarrow> cmp (a ! j) (a ! i) < 0)"
proof -
  have refl: "cmp p p \<le> 0" for p using total_cmpD(3) [OF assms(1), of p] by simp
  have upto: "cmp (a ! i) (a ! j) \<le> 0" if "sorted_on cmp l r a" "l \<le> i" "i \<le> j" "j < r" for i j l r
    using sorted_onD [OF that(1,2), of j] that(3,4) refl by (cases "i = j") auto
  show ?thesis
  proof (cases "middle - first > last' - middle")
    case True
    define fc where "fc = first + (middle - first) div 2"
    have "2 \<le> middle - first" using True assms(5) by linarith
    then have fc: "first < fc" "fc < middle" "fc - first = (middle - first) div 2"
      unfolding fc_def by auto
    have "middle + (last' - middle) = last'" using assms(5) by simp
    with lower_bound_correct [of cmp middle "last' - middle" a "a ! fc"] assms(1,3,6,7) obtain sc where
      sc: "lower_bound cmp a middle (last' - middle) (a ! fc) = Inr sc" "middle \<le> sc" "sc \<le> last'"
        "\<And>i. middle \<le> i \<Longrightarrow> i < sc \<Longrightarrow> cmp (a ! i) (a ! fc) < 0" "\<And>i. sc \<le> i \<Longrightarrow> i < last' \<Longrightarrow> cmp (a ! fc) (a ! i) \<le> 0"
      by auto
    have "merge_cuts cmp a first middle last' (middle - first) (last' - middle) = Inr (fc, sc, fc - first, sc - middle)"
      using True sc(1) fc assms(5,6) by (simp add: merge_cuts_def arr_get_def Let_def fc_def [symmetric])
    moreover have "cmp (a ! i) (a ! fc) \<le> 0" if "first \<le> i" "i < fc" for i using upto [OF assms(2) that(1), of fc] that fc by simp
    moreover have up: "cmp (a ! fc) (a ! i) \<le> 0" if "fc \<le> i" "i < middle" for i using upto [OF assms(2) _ that] fc by simp
    moreover have "cmp (a ! j) (a ! i) < 0" if "fc \<le> i" "i < middle" "middle \<le> j" "j < sc" for i j
      by (rule total_cmpD(7) [OF assms(1) sc(4) [OF that(3,4)] up [OF that(1,2)]])
    moreover have "cmp (a ! i) (a ! fc) \<le> 0" if "middle \<le> i" "i < sc" for i using sc(4) [OF that] by simp
    ultimately show ?thesis using sc(2,3,5) fc by (intro exI [of _ fc] exI [of _ sc] exI [of _ "a ! fc"]) auto
  next
    case False
    define sc where "sc = middle + (last' - middle) div 2"
    have sc: "middle < sc" "sc < last'" "sc - middle = (last' - middle) div 2"
      using False assms(4,5,8) unfolding sc_def by auto
    have "first + (middle - first) = middle" "middle \<le> length a" using assms(4-6) by auto
    with upper_bound_correct [of cmp first "middle - first" a "a ! sc"] assms(1,2,7) obtain fc where
      fc: "upper_bound cmp a first (middle - first) (a ! sc) = Inr fc" "first \<le> fc" "fc \<le> middle"
        "\<And>i. first \<le> i \<Longrightarrow> i < fc \<Longrightarrow> cmp (a ! i) (a ! sc) \<le> 0" "\<And>i. fc \<le> i \<Longrightarrow> i < middle \<Longrightarrow> cmp (a ! sc) (a ! i) < 0"
      by auto
    have "merge_cuts cmp a first middle last' (middle - first) (last' - middle) = Inr (fc, sc, fc - first, sc - middle)"
      using False fc(1) sc assms(5,6) by (simp add: merge_cuts_def arr_get_def Let_def sc_def [symmetric])
    moreover have lo: "cmp (a ! i) (a ! sc) \<le> 0" if "middle \<le> i" "i < sc" for i using upto [OF assms(3) that(1), of sc] that sc by simp
    moreover have "cmp (a ! sc) (a ! i) \<le> 0" if "sc \<le> i" "i < last'" for i using upto [OF assms(3) _ that] sc by simp
    moreover have "cmp (a ! j) (a ! i) < 0" if "fc \<le> i" "i < middle" "middle \<le> j" "j < sc" for i j
      by (rule total_cmpD(8) [OF assms(1) lo [OF that(3,4)] fc(5) [OF that(1,2)]])
    moreover have "cmp (a ! sc) (a ! i) \<le> 0" if "fc \<le> i" "i < middle" for i using fc(5) [OF that] by simp
    ultimately show ?thesis using fc(2-4) sc by (intro exI [of _ fc] exI [of _ sc] exI [of _ "a ! sc"]) auto
  qed
qed


lemma sorted_on_agree:
  assumes "sorted_on cmp l r a" "\<And>i. l \<le> i \<Longrightarrow> i < r \<Longrightarrow> b ! i = a ! i"
  shows "sorted_on cmp l r b"
  using assms unfolding sorted_on_def by simp

lemma sorted_on_shift:
  assumes "sorted_on cmp l r a" "\<And>i. l' \<le> i \<Longrightarrow> i < r' \<Longrightarrow> b ! i = a ! (i - l' + l)" "r' - l' \<le> r - l"
  shows "sorted_on cmp l' r' b"
  unfolding sorted_on_def
proof (intro allI impI)
  fix i j assume ij: "l' \<le> i" "i < j" "j < r'"
  then have "cmp (a ! (i - l' + l)) (a ! (j - l' + l)) \<le> 0" using assms(3) by (intro sorted_onD [OF assms(1)]) auto
  then show "cmp (b ! i) (b ! j) \<le> 0" using assms(2) ij by simp
qed

lemma sorted_on_part: "sorted_on cmp l r a \<Longrightarrow> l \<le> l' \<Longrightarrow> r' \<le> r \<Longrightarrow> sorted_on cmp l' r' a"
  unfolding sorted_on_def by simp

text \<open>What the rotation leaves to the two recursive calls.\<close>

lemma merge_rotation:
  assumes "total_cmp cmp" "sorted_on cmp first middle a" "sorted_on cmp middle last' a"
    and "first \<le> fc" "fc \<le> middle" "middle \<le> sc" "sc \<le> last'" "last' \<le> length a"
    and f: "\<forall>i. first \<le> i \<longrightarrow> i < fc \<longrightarrow> cmp (a ! i) p \<le> 0" "\<forall>i. fc \<le> i \<longrightarrow> i < middle \<longrightarrow> cmp p (a ! i) \<le> 0"
      "\<forall>i. middle \<le> i \<longrightarrow> i < sc \<longrightarrow> cmp (a ! i) p \<le> 0" "\<forall>i. sc \<le> i \<longrightarrow> i < last' \<longrightarrow> cmp p (a ! i) \<le> 0"
    and "b = swapped_parts fc middle sc a" "nm = fc + (sc - middle)"
  shows "sorted_on cmp first fc b" "sorted_on cmp fc nm b" "sorted_on cmp nm sc b" "sorted_on cmp sc last' b"
    "\<And>i. first \<le> i \<Longrightarrow> i < nm \<Longrightarrow> cmp (b ! i) p \<le> 0" "\<And>i. nm \<le> i \<Longrightarrow> i < last' \<Longrightarrow> cmp p (b ! i) \<le> 0"
proof -
  have nth: "b ! i = a ! (if i < fc \<or> sc \<le> i then i else if i < nm then i - fc + middle else i - nm + fc)" if "i < last'" for i
  proof -
    have "i - (sc - middle) = i - nm + fc" if "nm \<le> i" using that assms(14) by simp
    moreover have "i + (middle - fc) = i - fc + middle" if "fc \<le> i" using that assms(5) by simp
    ultimately show ?thesis
      using nth_swapped_parts [of fc middle sc a i] assms(5-8) that unfolding assms(13,14) by auto
  qed
  have le: "fc \<le> nm" "nm \<le> sc" using assms(5,6,14) by auto
  show "sorted_on cmp first fc b"
    by (rule sorted_on_agree [OF sorted_on_part [OF assms(2)]]) (use nth assms(4-7) in auto)
  show "sorted_on cmp sc last' b"
    by (rule sorted_on_agree [OF sorted_on_part [OF assms(3)]]) (use nth assms(4-7) in auto)
  show "sorted_on cmp fc nm b"
    by (rule sorted_on_shift [OF sorted_on_part [OF assms(3) order_refl assms(7)]]) (use nth assms(6,7,14) le in auto)
  show "sorted_on cmp nm sc b"
    by (rule sorted_on_shift [OF sorted_on_part [OF assms(2) assms(4) order_refl]]) (use nth assms(5-7,14) le in auto)
  show "cmp (b ! i) p \<le> 0" if "first \<le> i" "i < nm" for i
    using nth [of i] that f(1,3) le assms(5-7,14) by auto
  show "cmp p (b ! i) \<le> 0" if "nm \<le> i" "i < last'" for i
    using nth [of i] that f(2,4) le assms(5-7,14) by auto
qed

lemma stably_sorted_refl: "sorted_on cmp l r a \<Longrightarrow> stably_sorted cmp l r a a"
  by (simp add: stably_sorted_def)

lemma sorted_on_adjacent:
  assumes "total_cmp cmp" "sorted_on cmp l m a" "sorted_on cmp m r a" "r \<le> m \<or> m \<le> l"
  shows "sorted_on cmp l r a"
  using assms unfolding sorted_on_def by auto

lemma merge_without_buffer_correct:
  assumes "total_cmp cmp" "sorted_on cmp first middle a" "sorted_on cmp middle last' a"
    and "first \<le> middle" "middle \<le> last'" "last' \<le> length a" "length a < 2 ^ 63" "last' - first \<le> fuel"
  shows "\<exists>b. merge_without_buffer cmp fuel a first middle last' (middle - first) (last' - middle) = Inr b \<and>
    stably_sorted cmp first last' a b"
  using assms(2-)
proof (induction fuel arbitrary: a first middle last')
  case 0
  then show ?case by (auto intro!: stably_sorted_refl simp: sorted_on_def)
next
  case (Suc fuel)
  consider "first = middle \<or> middle = last'" | "first < middle" "middle < last'" "last' - first = 2"
    | "first < middle" "middle < last'" "last' - first \<noteq> 2" using Suc.prems(3,4) by linarith
  then show ?case
  proof cases
    case 1
    then have "last' \<le> middle \<or> middle \<le> first" by auto
    then have "sorted_on cmp first last' a" by (rule sorted_on_adjacent [OF assms(1) Suc.prems(1,2)])
    then show ?thesis using 1 by (auto intro: stably_sorted_refl)
  next
    case 2
    then have e: "middle = Suc first" "last' = Suc (Suc first)" by auto
    let ?b = "if cmp (a ! first) (a ! Suc first) > 0 then a[Suc first := a ! first, first := a ! Suc first] else a"
    have lt: "Suc first < length a" using Suc.prems(5) e by simp
    then have run: "cmp_swap cmp a first middle = Inr ?b"
      unfolding cmp_swap_def e by (simp add: arr_get_def arr_swap_ok list_update_swap)
    have "arranged first last' a ?b" using arranged_swap [of "Suc first" a first first last'] lt e by simp
    moreover have "steady cmp a ?b" using steady_swap [OF assms(1) lt] by simp
    moreover have "sorted_on cmp first last' ?b"
    proof -
      have "cmp (?b ! first) (?b ! Suc first) \<le> 0" using lt total_cmpD(4) [OF assms(1)] by simp
      moreover have "i = first \<and> j = Suc first" if "first \<le> i" "i < j" "j < last'" for i j using that e by linarith
      ultimately show ?thesis unfolding sorted_on_def by blast
    qed
    ultimately have "stably_sorted cmp first last' a ?b" by (simp add: stably_sorted_def)
    moreover have "merge_without_buffer cmp (Suc fuel) a first middle last' (middle - first) (last' - middle) = cmp_swap cmp a first middle"
      unfolding e by simp
    ultimately show ?thesis using run by metis
  next
    case 3
    from merge_cuts_correct [OF assms(1) Suc.prems(1,2) 3(1,2) Suc.prems(5,6) 3(3)] obtain fc sc p where
      cuts: "merge_cuts cmp a first middle last' (middle - first) (last' - middle) = Inr (fc, sc, fc - first, sc - middle)"
      and le: "first \<le> fc" "fc \<le> middle" "middle \<le> sc" "sc \<le> last'"
      and less: "0 < fc - first + (sc - middle)" "fc - first + (sc - middle) < last' - first"
      and f: "\<forall>i. first \<le> i \<longrightarrow> i < fc \<longrightarrow> cmp (a ! i) p \<le> 0" "\<forall>i. fc \<le> i \<longrightarrow> i < middle \<longrightarrow> cmp p (a ! i) \<le> 0"
        "\<forall>i. middle \<le> i \<longrightarrow> i < sc \<longrightarrow> cmp (a ! i) p \<le> 0" "\<forall>i. sc \<le> i \<longrightarrow> i < last' \<longrightarrow> cmp p (a ! i) \<le> 0"
      and cross: "\<forall>i j. fc \<le> i \<longrightarrow> i < middle \<longrightarrow> middle \<le> j \<longrightarrow> j < sc \<longrightarrow> cmp (a ! j) (a ! i) < 0"
      by (elim exE conjE) (rule that; assumption)
    define b nm where "b = swapped_parts fc middle sc a" and "nm = fc + (sc - middle)"
    have sc: "sc \<le> length a" using le Suc.prems(5) by simp
    have rot: "rotate_aux a fc middle sc = Inr (b, nm)" unfolding b_def nm_def by (rule rotate_aux_correct [OF le(2,3) sc])
    have ab: "arranged fc sc a b" "steady cmp a b"
      unfolding b_def using swapped_parts_arranged [OF le(2,3) sc] swapped_parts_steady [OF assms(1) le(2,3) sc] cross by blast+
    have len: "length b = length a" by (rule arranged_length [OF ab(1)])
    note part = merge_rotation [OF assms(1) Suc.prems(1,2) le Suc.prems(5) f b_def nm_def]
    have nm: "fc \<le> nm" "nm \<le> sc" "nm - fc = sc - middle" "sc - nm = middle - fc" "first < nm" "nm \<le> length b"
      "nm - first \<le> fuel" "last' - nm \<le> fuel" "nm \<le> last'"
      using le less Suc.prems(5,7) len unfolding nm_def by auto
    from Suc.IH [OF part(1,2) le(1) nm(1,6) _ nm(7)] Suc.prems(6) len obtain c where
      c: "merge_without_buffer cmp fuel b first fc nm (fc - first) (sc - middle) = Inr c" "stably_sorted cmp first nm b c"
      unfolding nm(3) by auto
    have bc: "arranged first nm b c" using c(2) by (simp add: stably_sorted_def)
    have len_c: "length c = length b" by (rule arranged_length [OF bc])
    have same: "c ! i = b ! i" if "nm \<le> i" "i < last'" for i using arranged_nth [OF bc] that Suc.prems(5) len by simp
    have so: "sorted_on cmp nm sc c" "sorted_on cmp sc last' c"
      by (rule sorted_on_agree [OF part(3)], use same le(4) in simp, rule sorted_on_agree [OF part(4)], use same nm(2) in simp)
    from Suc.IH [OF so nm(2) le(4) _ _ nm(8)] Suc.prems(5,6) len len_c obtain d where
      d: "merge_without_buffer cmp fuel c nm sc last' (middle - fc) (last' - sc) = Inr d" "stably_sorted cmp nm last' c d"
      unfolding nm(4) by auto
    have lens: "middle - first - (fc - first) = middle - fc" "last' - middle - (sc - middle) = last' - sc" using le by auto
    have run: "merge_without_buffer cmp (Suc fuel) a first middle last' (middle - first) (last' - middle) = Inr d"
      unfolding merge_without_buffer.simps cuts rbind_Inr prod.case rot c(1) lens d(1) using 3 by auto
    have "stably_sorted cmp first last' b d"
      by (rule stably_sorted_join [OF assms(1) c(2) d(2), where p = p]) (use nm part(5,6) Suc.prems(5) len in auto)
    moreover have "arranged first last' a b" by (rule arranged_mono [OF ab(1) le(1,4)])
    ultimately have "stably_sorted cmp first last' a d"
      using ab(2) by (auto simp: stably_sorted_def intro: arranged_trans steady_trans)
    with run show ?thesis by blast
  qed
qed


subsection \<open>Merge sort\<close>

lemma stably_sorted_after:
  assumes "arranged l r a b" "steady cmp a b" "stably_sorted cmp l r b c"
  shows "stably_sorted cmp l r a c"
  using assms by (auto simp: stably_sorted_def intro: arranged_trans steady_trans)

text \<open>The buffer, if there is one, has room for \<open>n\<close> elements.\<close>

definition room :: "'a cells option \<Rightarrow> nat \<Rightarrow> bool" where
  "room buf n = (case buf of Some b \<Rightarrow> n \<le> length b | None \<Rightarrow> True)"

lemma merge_parts_correct:
  assumes "total_cmp cmp" "sorted_on cmp first middle a" "sorted_on cmp middle last' a"
    and "first \<le> middle" "middle \<le> last'" "last' \<le> length a" "length a < 2 ^ 63" "room buf (last' - first)"
  shows "\<exists>b buf1. merge_parts cmp a first middle last' buf = Inr (b, buf1) \<and> stably_sorted cmp first last' a b \<and>
    (\<forall>n. room buf n \<longrightarrow> room buf1 n)"
proof (cases buf)
  case None
  with merge_without_buffer_correct [OF assms(1-7) order_refl] show ?thesis
    by (auto simp: merge_parts_def)
next
  case (Some b)
  then have "last' - first \<le> length b" using assms(8) by (simp add: room_def)
  from merge_with_buffer_correct [OF assms(1-6) this] Some show ?thesis
    by (auto simp: merge_parts_def room_def)
qed

lemma arr_merge_sort_correct:
  assumes "total_cmp cmp" "first \<le> last'" "last' \<le> length a" "length a < 2 ^ 63" "last' - first \<le> fuel"
    "room buf (last' - first)"
  shows "\<exists>b buf1. arr_merge_sort cmp fuel a first last' buf = Inr (b, buf1) \<and> stably_sorted cmp first last' a b \<and>
    (\<forall>n. room buf n \<longrightarrow> room buf1 n)"
  using assms(2-)
proof (induction fuel arbitrary: a first last' buf)
  case 0
  then show ?case by (auto intro!: stably_sorted_refl simp: sorted_on_def)
next
  case (Suc fuel)
  let ?m = "(first + last') div 2"
  consider "last' - first \<le> 1" | "\<not> last' - first \<le> 1" "last' - first < SWITCH_INSERTION_SORT"
    | "\<not> last' - first < SWITCH_INSERTION_SORT" by blast
  then show ?case
  proof cases
    case 1
    then show ?thesis by (auto intro!: stably_sorted_refl simp: sorted_on_def)
  next
    case 2
    have e: "first + (last' - first) = last'" using Suc.prems(1) by simp
    then have "first + (last' - first) \<le> length a" using Suc.prems(2) by simp
    from insertion_sort_correct [OF assms(1) this] obtain b where
      "insertion_sort cmp a first (last' - first) = Inr b" "stably_sorted cmp first last' a b"
      unfolding e stably_sorted_def by blast
    with 2 show ?thesis by auto
  next
    case 3
    have m: "sz (first + last') div 2 = ?m" using Suc.prems by (simp add: sz_id NPOS_def)
    have g: "9 \<le> last' - first" using 3 by (simp add: SWITCH_INSERTION_SORT_def)
    then have le: "first \<le> ?m" "?m \<le> last'" "?m - first \<le> fuel" "last' - ?m \<le> fuel" "?m \<le> length a"
      "?m - first \<le> last' - first" "last' - ?m \<le> last' - first" using Suc.prems by auto
    have rm: "room buf n" if "n \<le> last' - first" for n
      using Suc.prems(5) that by (auto simp: room_def split: option.splits)
    from Suc.IH [OF le(1,5) Suc.prems(3) le(3) rm [OF le(6)]] obtain b buf1 where
      b: "arr_merge_sort cmp fuel a first ?m buf = Inr (b, buf1)" "stably_sorted cmp first ?m a b" "\<forall>n. room buf n \<longrightarrow> room buf1 n"
      by blast
    have ab: "arranged first ?m a b" "steady cmp a b" "sorted_on cmp first ?m b" using b(2) by (auto simp: stably_sorted_def)
    have len_b: "length b = length a" by (rule arranged_length [OF ab(1)])
    have "last' \<le> length b" "length b < 2 ^ 63" "room buf1 (last' - ?m)" using Suc.prems(2,3) len_b b(3) rm [OF le(7)] by auto
    from Suc.IH [OF le(2) this(1,2) le(4) this(3)] obtain c buf2 where
      c: "arr_merge_sort cmp fuel b ?m last' buf1 = Inr (c, buf2)" "stably_sorted cmp ?m last' b c" "\<forall>n. room buf1 n \<longrightarrow> room buf2 n"
      by blast
    have bc: "arranged ?m last' b c" "steady cmp b c" "sorted_on cmp ?m last' c" using c(2) by (auto simp: stably_sorted_def)
    have len_c: "length c = length a" using arranged_length [OF bc(1)] len_b by simp
    have "sorted_on cmp first ?m c"
      by (rule sorted_on_agree [OF ab(3)]) (use arranged_nth [OF bc(1)] le(5) len_b in auto)
    moreover have "last' \<le> length c" "length c < 2 ^ 63" "room buf2 (last' - first)"
      using Suc.prems(2,3) len_c b(3) c(3) rm [OF order_refl] by auto
    ultimately obtain d buf3 where
      d: "merge_parts cmp c first ?m last' buf2 = Inr (d, buf3)" "stably_sorted cmp first last' c d" "\<forall>n. room buf2 n \<longrightarrow> room buf3 n"
      using merge_parts_correct [OF assms(1) _ bc(3) le(1,2)] by blast
    have "arranged first last' a c"
      by (rule arranged_trans [OF arranged_mono [OF ab(1) order_refl le(2)] arranged_mono [OF bc(1) le(1) order_refl]])
    then have "stably_sorted cmp first last' a d"
      by (rule stably_sorted_after [OF _ steady_trans [OF ab(2) bc(2)] d(2)])
    moreover have "arr_merge_sort cmp (Suc fuel) a first last' buf = Inr (d, buf3)"
      unfolding arr_merge_sort.simps m Let_def b(1) rbind_Inr prod.case c(1) d(1) using 3 g by simp
    ultimately show ?thesis using b(3) c(3) d(3) by blast
  qed
qed

lemma room_merge_buffer: "0 < ts \<Longrightarrow> ts * n < 2 ^ 64 \<Longrightarrow> room (merge_buffer mem ts n) n"
  by (auto simp: room_def merge_buffer_def sz_def)

lemma stable_sort_correct:
  assumes "total_cmp cmp" "idx + n \<le> length a" "length a < 2 ^ 63" "0 < ts" "ts * n < 2 ^ 64"
  shows "\<exists>b. stable_sort mem ts cmp a idx n = Inr b \<and> stably_sorted cmp idx (idx + n) a b"
proof (cases "n < SWITCH_INSERTION_SORT")
  case True
  with insertion_sort_correct [OF assms(1,2)] show ?thesis by (auto simp: stable_sort_def stably_sorted_def)
next
  case False
  have s: "sz (idx + n) = idx + n" using assms by (simp add: sz_id NPOS_def)
  have "room (merge_buffer mem ts n) (idx + n - idx)" using room_merge_buffer [OF assms(4,5)] by simp
  from arr_merge_sort_correct [OF assms(1) le_add1 assms(2,3) _ this, of n] obtain b buf1 where
    "arr_merge_sort cmp n a idx (idx + n) (merge_buffer mem ts n) = Inr (b, buf1)" "stably_sorted cmp idx (idx + n) a b" by auto
  with False s show ?thesis by (simp add: stable_sort_def)
qed

lemma inplace_merge_correct:
  assumes "total_cmp cmp" "sorted_on cmp first middle a" "sorted_on cmp middle last' a"
    and "first \<le> middle" "middle \<le> last'" "last' \<le> length a" "length a < 2 ^ 63" "0 < ts" "ts * (last' - first) < 2 ^ 64"
  shows "\<exists>b. inplace_merge mem ts cmp a first middle last' = Inr b \<and> stably_sorted cmp first last' a b"
proof (cases "first = middle \<or> middle = last'")
  case True
  then have "last' \<le> middle \<or> middle \<le> first" by auto
  then have "sorted_on cmp first last' a" by (rule sorted_on_adjacent [OF assms(1-3)])
  with True show ?thesis by (auto simp: inplace_merge_def intro: stably_sorted_refl)
next
  case False
  from merge_parts_correct [OF assms(1-7) room_merge_buffer [OF assms(8,9), of mem]] obtain b buf1 where
    "merge_parts cmp a first middle last' (merge_buffer mem ts (last' - first)) = Inr (b, buf1)"
    "stably_sorted cmp first last' a b" by blast
  with False show ?thesis by (simp add: inplace_merge_def)
qed

text \<open>
  C22: \<open>stable_sort\<close> returns the one arrangement of the range that is in order and keeps equivalent elements
  in their order, whether it gets its buffer or not: the sort in a buffer and the one by rotations are
  equivalent.
\<close>

theorem stable_sort_any_memory:
  assumes "total_cmp cmp" "idx + n \<le> length a" "length a < 2 ^ 63" "0 < ts" "ts * n < 2 ^ 64"
  shows "\<exists>b. (\<forall>mem. stable_sort mem ts cmp a idx n = Inr b) \<and>
    (\<forall>c. arranged idx (idx + n) a c \<and> steady cmp a c \<and> sorted_on cmp idx (idx + n) c \<longleftrightarrow> c = b)"
proof -
  from stable_sort_correct [OF assms] obtain b where
    b: "stable_sort (\<lambda>_. True) ts cmp a idx n = Inr b" "stably_sorted cmp idx (idx + n) a b" by blast
  have unique: "c = b" if "stably_sorted cmp idx (idx + n) a c" for c
    by (rule stably_sorted_unique [OF assms(1) that b(2) le_add1 assms(2)])
  have "stable_sort mem ts cmp a idx n = Inr b" for mem
    using stable_sort_correct [OF assms, of mem] unique by blast
  moreover have "arranged idx (idx + n) a c \<and> steady cmp a c \<and> sorted_on cmp idx (idx + n) c \<longleftrightarrow> c = b" for c
    using unique [of c] b(2) by (auto simp: stably_sorted_def)
  ultimately show ?thesis by blast
qed

text \<open>Pairs compared by their first components.\<close>

theorem stable_sort_any_memory_witness:
  "\<exists>b. stable_sort (\<lambda>_. False) 8 (\<lambda>x y. fst x - fst y)
      [(3, 0), (1, 1), (3, 2), (2, 3), (1, 4), (0, 5), (2, 6), (1, 7), (3, 8), (0, 9 :: nat)] 0 10 = Inr b \<and>
    stable_sort (\<lambda>_. True) 8 (\<lambda>x y. fst x - fst y)
      [(3, 0), (1, 1), (3, 2), (2, 3), (1, 4), (0, 5), (2, 6), (1, 7), (3, 8), (0, 9)] 0 10 = Inr b \<and>
    sorted_on (\<lambda>x y. fst x - fst y) 0 10 b"
proof -
  let ?a = "[(3, 0), (1, 1), (3, 2), (2, 3), (1, 4), (0, 5), (2, 6), (1, 7), (3, 8), (0, 9)] :: (int \<times> nat) list"
  have c: "total_cmp (\<lambda>x y :: int \<times> nat. fst x - fst y)" by (simp add: total_cmp_def)
  show ?thesis using stable_sort_any_memory [OF c, of 0 10 ?a 8] by force
qed

end
