(* ===== verification/Cstl_Heap.thy ===== *)
theory Cstl_Heap
  imports Cstl_Algorithm
begin

text \<open>
  The heap functions of \<open>cstl/algorithm.h\<close> and \<open>partial_sort\<close>.  A heap is a range whose elements, counted
  from 1, are not smaller than those at twice their index and the one after it; the greatest
  element comes first.
\<close>

subsection \<open>The code\<close>

text \<open>The index of the element that counts as \<open>hi\<close>, \<open>hi + top_idx - 1\<close>.\<close>

definition heap_at :: "nat \<Rightarrow> nat \<Rightarrow> nat" where
  "heap_at base hi = sz_sub (sz (hi + base)) 1"

fun up_heap_loop :: "('a \<Rightarrow> 'a \<Rightarrow> int) \<Rightarrow> 'a list \<Rightarrow> nat \<Rightarrow> nat \<Rightarrow> 'a \<Rightarrow> 'a list res" where
  "up_heap_loop cmp a base hi tmp = (if hi > 1 then
     rbind (arr_get a (heap_at base (hi div 2))) (\<lambda>x.
     if cmp x tmp < 0 then
       rbind (arr_set a (heap_at base hi) x) (\<lambda>a1. up_heap_loop cmp a1 base (hi div 2) tmp)
     else arr_set a (heap_at base hi) tmp)
   else arr_set a (heap_at base hi) tmp)"

declare up_heap_loop.simps [simp del]

definition up_heap :: "('a \<Rightarrow> 'a \<Rightarrow> int) \<Rightarrow> 'a list \<Rightarrow> nat \<Rightarrow> nat \<Rightarrow> 'a list res" where
  "up_heap cmp a base hi = rbind (arr_get a (heap_at base hi)) (up_heap_loop cmp a base hi)"

text \<open>The child of \<open>j\<close> to compare with: the right one if there is one and it is greater.\<close>

definition greater_child :: "('a \<Rightarrow> 'a \<Rightarrow> int) \<Rightarrow> 'a list \<Rightarrow> nat \<Rightarrow> nat \<Rightarrow> nat \<Rightarrow> nat res" where
  "greater_child cmp a base j to = (let i = 2 * j in if i < to then
     rbind (arr_get a (heap_at base i)) (\<lambda>x. rbind (arr_get a (heap_at base (i + 1))) (\<lambda>y.
     Inr (if cmp x y < 0 then i + 1 else i))) else Inr i)"

fun down_heap_loop :: "('a \<Rightarrow> 'a \<Rightarrow> int) \<Rightarrow> nat \<Rightarrow> 'a list \<Rightarrow> nat \<Rightarrow> nat \<Rightarrow> nat \<Rightarrow> 'a \<Rightarrow> 'a list res" where
  "down_heap_loop cmp 0 a base j to tmp = Inl OutOfFuel"
| "down_heap_loop cmp (Suc fuel) a base j to tmp = (if 2 * j \<le> to then
     rbind (greater_child cmp a base j to) (\<lambda>i. rbind (arr_get a (heap_at base i)) (\<lambda>x.
     if cmp tmp x < 0 then
       rbind (arr_set a (heap_at base j) x) (\<lambda>a1. down_heap_loop cmp fuel a1 base i to tmp)
     else arr_set a (heap_at base j) tmp))
   else arr_set a (heap_at base j) tmp)"

definition down_heap :: "('a \<Rightarrow> 'a \<Rightarrow> int) \<Rightarrow> 'a list \<Rightarrow> nat \<Rightarrow> nat \<Rightarrow> nat \<Rightarrow> 'a list res" where
  "down_heap cmp a base from to = rbind (arr_get a (heap_at base from)) (down_heap_loop cmp (Suc to) a base from to)"

definition push_heap :: "('a \<Rightarrow> 'a \<Rightarrow> int) \<Rightarrow> 'a list \<Rightarrow> nat \<Rightarrow> nat \<Rightarrow> 'a list res" where
  "push_heap cmp a idx n = up_heap cmp a idx n"

definition pop_heap :: "('a \<Rightarrow> 'a \<Rightarrow> int) \<Rightarrow> 'a list \<Rightarrow> nat \<Rightarrow> nat \<Rightarrow> 'a list res" where
  "pop_heap cmp a idx n = rbind (arr_swap a idx (sz_sub (sz (idx + n)) 1)) (\<lambda>a1.
     down_heap cmp a1 idx 1 (sz_sub n 1))"

definition make_heap :: "('a \<Rightarrow> 'a \<Rightarrow> int) \<Rightarrow> 'a list \<Rightarrow> nat \<Rightarrow> nat \<Rightarrow> 'a list res" where
  "make_heap cmp a idx n = rfold (\<lambda>a i. down_heap cmp a idx i n) a (rev [1..<Suc (n div 2)])"

definition sort_heap :: "('a \<Rightarrow> 'a \<Rightarrow> int) \<Rightarrow> 'a list \<Rightarrow> nat \<Rightarrow> nat \<Rightarrow> 'a list res" where
  "sort_heap cmp a idx n = rfold (\<lambda>a i. rbind (arr_swap a idx (idx + i - 1)) (\<lambda>a1.
     down_heap cmp a1 idx 1 (i - 1))) a (rev [2..<Suc n])"

text \<open>One round of the loop of \<open>partial_sort\<close>.\<close>

definition select_round :: "('a \<Rightarrow> 'a \<Rightarrow> int) \<Rightarrow> nat \<Rightarrow> nat \<Rightarrow> 'a list \<Rightarrow> nat \<Rightarrow> 'a list res" where
  "select_round cmp idx sort_n a i = rbind (arr_get a idx) (\<lambda>x. rbind (arr_get a i) (\<lambda>y.
     if cmp x y > 0 then
       rbind (pop_heap cmp a idx sort_n) (\<lambda>a1.
       rbind (arr_swap a1 (sz_sub (sz (idx + sort_n)) 1) i) (\<lambda>a2. push_heap cmp a2 idx sort_n))
     else Inr a))"

definition partial_sort :: "('a \<Rightarrow> 'a \<Rightarrow> int) \<Rightarrow> 'a list \<Rightarrow> nat \<Rightarrow> nat \<Rightarrow> nat \<Rightarrow> 'a list res" where
  "partial_sort cmp a idx sort_n n = rbind (make_heap cmp a idx sort_n) (\<lambda>a1.
     rbind (rfold (select_round cmp idx sort_n) a1 [idx + sort_n..<idx + n]) (\<lambda>a2.
     sort_heap cmp a2 idx sort_n))"

subsection \<open>Elements of a heap\<close>

definition hnth :: "nat \<Rightarrow> 'a list \<Rightarrow> nat \<Rightarrow> 'a" where
  "hnth base a i = a ! (i + base - 1)"

lemma heap_at_id: "0 < hi \<Longrightarrow> hi + base \<le> length a \<Longrightarrow> length a < 2 ^ 63 \<Longrightarrow> heap_at base hi = hi + base - 1"
  by (simp add: heap_at_def sz_id NPOS_def)

lemma heap_get:
  assumes "0 < hi" "hi + base \<le> length a" "length a < 2 ^ 63"
  shows "arr_get a (heap_at base hi) = Inr (hnth base a hi)"
  using assms by (simp add: heap_at_id arr_get_def hnth_def)

lemma heap_set:
  assumes "0 < hi" "hi + base \<le> length a" "length a < 2 ^ 63"
  shows "arr_set a (heap_at base hi) x = Inr (a[hi + base - 1 := x])"
  using assms by (simp add: heap_at_id arr_set_def)

lemma hnth_update:
  assumes "0 < j" "j + base \<le> length a" "0 < i"
  shows "hnth base (a[j + base - 1 := x]) i = (if i = j then x else hnth base a i)"
proof -
  have "j + base - 1 = i + base - 1 \<longleftrightarrow> i = j" using assms by auto
  then show ?thesis using assms by (auto simp: hnth_def nth_list_update)
qed

text \<open>Every element from \<open>2\<close> to \<open>n\<close> whose parent is \<open>l\<close> or later is not greater than its parent.\<close>

definition heap_from :: "('a \<Rightarrow> 'a \<Rightarrow> int) \<Rightarrow> nat \<Rightarrow> nat \<Rightarrow> nat \<Rightarrow> 'a list \<Rightarrow> bool" where
  "heap_from cmp base n l a \<longleftrightarrow> (\<forall>i. 2 \<le> i \<longrightarrow> i \<le> n \<longrightarrow> l \<le> i div 2 \<longrightarrow> cmp (hnth base a i) (hnth base a (i div 2)) \<le> 0)"

abbreviation heap_on :: "('a \<Rightarrow> 'a \<Rightarrow> int) \<Rightarrow> nat \<Rightarrow> nat \<Rightarrow> 'a list \<Rightarrow> bool" where
  "heap_on cmp base n \<equiv> heap_from cmp base n 1"

lemma heap_fromD: "heap_from cmp base n l a \<Longrightarrow> 2 \<le> i \<Longrightarrow> i \<le> n \<Longrightarrow> l \<le> i div 2 \<Longrightarrow> cmp (hnth base a i) (hnth base a (i div 2)) \<le> 0"
  by (simp add: heap_from_def)

lemma heap_root:
  assumes "total_cmp cmp" "heap_on cmp base n a" "0 < i" "i \<le> n"
  shows "cmp (hnth base a i) (hnth base a 1) \<le> 0"
  using assms(3,4)
proof (induction i rule: less_induct)
  case (less i)
  show ?case
  proof (cases "i = 1")
    case True
    then show ?thesis using total_cmpD(3) [OF assms(1)] by simp
  next
    case False
    with less.prems have "2 \<le> i" by simp
    moreover from this have "1 \<le> i div 2" by simp
    ultimately have "cmp (hnth base a i) (hnth base a (i div 2)) \<le> 0" using heap_fromD [OF assms(2)] less.prems by blast
    moreover have "cmp (hnth base a (i div 2)) (hnth base a 1) \<le> 0" using less.IH [of "i div 2"] less.prems False by auto
    ultimately show ?thesis by (rule total_cmpD(2) [OF assms(1)])
  qed
qed

text \<open>Exchanging the element at \<open>j\<close> with that at \<open>i\<close>.\<close>

definition hswap :: "nat \<Rightarrow> nat \<Rightarrow> nat \<Rightarrow> 'a list \<Rightarrow> 'a list" where
  "hswap base j i b = b[j + base - 1 := hnth base b i, i + base - 1 := hnth base b j]"

lemma hnth_hswap:
  assumes "0 < j" "j + base \<le> length b" "0 < i" "i + base \<le> length b" "0 < k" "i \<noteq> j"
  shows "hnth base (hswap base j i b) k = (if k = j then hnth base b i else if k = i then hnth base b j else hnth base b k)"
proof -
  have "hnth base (hswap base j i b) k = (if k = i then hnth base b j else hnth base (b[j + base - 1 := hnth base b i]) k)"
    unfolding hswap_def by (rule hnth_update) (use assms in simp_all)
  also have "hnth base (b[j + base - 1 := hnth base b i]) k = (if k = j then hnth base b i else hnth base b k)"
    by (rule hnth_update) (use assms in simp_all)
  finally show ?thesis using assms(6) by auto
qed

lemma hswap_arranged:
  assumes "0 < j" "j \<le> n" "0 < i" "i \<le> n" "n + base \<le> length b"
  shows "arranged base (base + n) b (hswap base j i b)"
  unfolding hswap_def hnth_def by (rule arranged_swap) (use assms in auto)

lemma length_hswap [simp]: "length (hswap base j i b) = length b"
  by (simp add: hswap_def)


subsection \<open>Sifting down\<close>

text \<open>The loop works on \<open>a\<close> with the element \<open>tmp\<close> held outside of it: the list meant is \<open>a\<close> with \<open>tmp\<close> put
  in at \<open>j\<close>.\<close>

lemma greater_child_correct:
  assumes "total_cmp cmp" "0 < j" "2 * j \<le> to" "to + base \<le> length a" "length a < 2 ^ 63"
  shows "\<exists>i. greater_child cmp a base j to = Inr i \<and> i \<le> to \<and> j < i \<and> i div 2 = j \<and>
    (\<forall>k. k \<le> to \<longrightarrow> k div 2 = j \<longrightarrow> cmp (hnth base a k) (hnth base a i) \<le> 0)"
proof (cases "2 * j < to")
  case True
  let ?x = "hnth base a (2 * j)" and ?y = "hnth base a (2 * j + 1)"
  have get: "arr_get a (heap_at base (2 * j)) = Inr ?x" "arr_get a (heap_at base (2 * j + 1)) = Inr ?y"
    by (rule heap_get; use assms True in simp)+
  have "greater_child cmp a base j to = Inr (if cmp ?x ?y < 0 then 2 * j + 1 else 2 * j)"
    unfolding greater_child_def Let_def get rbind_Inr using True by simp
  moreover have "cmp (hnth base a k) (hnth base a (if cmp ?x ?y < 0 then 2 * j + 1 else 2 * j)) \<le> 0" if "k div 2 = j" for k
  proof -
    have "k = 2 * j \<or> k = 2 * j + 1" using that by linarith
    then show ?thesis using total_cmpD(3,6) [OF assms(1)] by auto
  qed
  moreover have "(if cmp ?x ?y < 0 then 2 * j + 1 else 2 * j) \<le> to" "j < (if cmp ?x ?y < 0 then 2 * j + 1 else 2 * j)"
    "(if cmp ?x ?y < 0 then 2 * j + 1 else 2 * j) div 2 = j"
    using True assms(2) by auto
  ultimately show ?thesis by blast
next
  case False
  then have "k = 2 * j" if "k \<le> to" "k div 2 = j" for k using that assms(3) by linarith
  then have "\<forall>k. k \<le> to \<longrightarrow> k div 2 = j \<longrightarrow> cmp (hnth base a k) (hnth base a (2 * j)) \<le> 0"
    using total_cmpD(3) [OF assms(1)] by (metis order_refl)
  moreover have "greater_child cmp a base j to = Inr (2 * j)" using False by (simp add: greater_child_def)
  ultimately show ?thesis using assms(2,3) by (intro exI [of _ "2 * j"]) simp
qed

lemma down_heap_loop_correct:
  assumes "total_cmp cmp" "0 < j" "j \<le> to" "l \<le> j" "to + base \<le> length a" "length a < 2 ^ 63" "to - j < fuel"
    "b = a[j + base - 1 := tmp]"
    "\<And>i. 2 \<le> i \<Longrightarrow> i \<le> to \<Longrightarrow> l \<le> i div 2 \<Longrightarrow> i div 2 \<noteq> j \<Longrightarrow> cmp (hnth base b i) (hnth base b (i div 2)) \<le> 0"
    "\<And>i. i \<le> to \<Longrightarrow> i div 2 = j \<Longrightarrow> 2 \<le> j \<Longrightarrow> l \<le> j div 2 \<Longrightarrow> cmp (hnth base b i) (hnth base b (j div 2)) \<le> 0"
  shows "\<exists>c. down_heap_loop cmp fuel a base j to tmp = Inr c \<and> arranged base (base + to) b c \<and> heap_from cmp base to l c"
  using assms(2-)
proof (induction fuel arbitrary: a b j)
  case 0
  then show ?case by simp
next
  case (Suc fuel)
  note prems = Suc.prems
  have len: "length b = length a" using prems(7) by simp
  have put: "arr_set a (heap_at base j) x = Inr (a[j + base - 1 := x])" for x
    by (rule heap_set) (use prems in simp_all)
  have hb: "hnth base b k = (if k = j then tmp else hnth base a k)" if "0 < k" for k
    unfolding prems(7) by (rule hnth_update) (use prems that in simp_all)
  show ?case
  proof (cases "2 * j \<le> to")
    case False
    have "heap_from cmp base to l b"
      unfolding heap_from_def
    proof (intro allI impI)
      fix i assume i: "2 \<le> i" "i \<le> to" "l \<le> i div 2"
      then have "i div 2 \<noteq> j" using False by linarith
      then show "cmp (hnth base b i) (hnth base b (i div 2)) \<le> 0" using prems(8) i by blast
    qed
    then show ?thesis using False put prems(7) by simp
  next
    case True
    from greater_child_correct [OF assms(1) prems(1) True prems(4,5)] obtain i where
      i: "greater_child cmp a base j to = Inr i" "i \<le> to" "j < i" "i div 2 = j"
      and great: "\<And>k. k \<le> to \<Longrightarrow> k div 2 = j \<Longrightarrow> cmp (hnth base a k) (hnth base a i) \<le> 0" by blast
    have get: "arr_get a (heap_at base i) = Inr (hnth base a i)" by (rule heap_get) (use i prems in simp_all)
    have bi: "hnth base b i = hnth base a i" "hnth base b j = tmp" using hb i(3) prems(1) by auto
    have child: "cmp (hnth base b k) (hnth base b i) \<le> 0" if "k \<le> to" "k div 2 = j" for k
    proof -
      have "0 < k" "k \<noteq> j" using that prems(1) by auto
      then show ?thesis using great [OF that] hb bi(1) by simp
    qed
    show ?thesis
    proof (cases "cmp tmp (hnth base a i) < 0")
      case False
      have "heap_from cmp base to l b"
        unfolding heap_from_def
      proof (intro allI impI)
        fix k assume k: "2 \<le> k" "k \<le> to" "l \<le> k div 2"
        show "cmp (hnth base b k) (hnth base b (k div 2)) \<le> 0"
        proof (cases "k div 2 = j")
          case True
          have "cmp (hnth base b i) tmp \<le> 0" using False bi total_cmpD(6) [OF assms(1)] by simp
          then show ?thesis using total_cmpD(2) [OF assms(1) child [OF k(2) True]] bi(2) True by simp
        qed (use prems(8) k in blast)
      qed
      then show ?thesis using True i(1) get False put prems(7) by simp
    next
      case lt: True
      let ?a = "a[j + base - 1 := hnth base a i]" and ?b = "hswap base j i b"
      have "?b = b[j + base - 1 := hnth base a i, i + base - 1 := tmp]" by (simp only: hswap_def bi)
      then have b': "?b = ?a[i + base - 1 := tmp]" by (simp only: prems(7) list_update_overwrite)
      have nth: "hnth base ?b k = (if k = j then hnth base b i else if k = i then tmp else hnth base b k)" if "0 < k" for k
        unfolding bi(2) [symmetric] by (rule hnth_hswap) (use prems i len that in simp_all)
      have "\<exists>c. down_heap_loop cmp fuel ?a base i to tmp = Inr c \<and> arranged base (base + to) ?b c \<and> heap_from cmp base to l c"
      proof (rule Suc.IH [OF _ i(2) _ _ _ _ b'])
        fix k assume k: "2 \<le> k" "k \<le> to" "l \<le> k div 2" "k div 2 \<noteq> i"
        show "cmp (hnth base ?b k) (hnth base ?b (k div 2)) \<le> 0"
        proof (cases "k div 2 = j")
          case True
          then have "k \<noteq> j" using k(1) by auto
          show ?thesis
          proof (cases "k = i")
            case True
            then show ?thesis using nth [of k] nth [of j] lt bi i prems(1) by simp
          next
            case False
            then show ?thesis using nth [of k] nth [of j] child [OF k(2) True] True \<open>k \<noteq> j\<close> k(1) prems(1) by simp
          qed
        next
          case False
          have d: "0 < k div 2" using k(1) by simp
          show ?thesis
          proof (cases "k = j")
            case True
            have "l \<le> j div 2" "2 \<le> j" using True k by simp_all
            then have "cmp (hnth base b i) (hnth base b (j div 2)) \<le> 0" using prems(9) [OF i(2,4)] by blast
            then show ?thesis using nth [of k] nth [OF d] True False k by simp
          next
            case kj: False
            have "k \<noteq> i" using False i(4) by auto
            then show ?thesis using nth [of k] nth [OF d] prems(8) [OF k(1-3) False] kj False k by simp
          qed
        qed
      next
        fix k assume k: "k \<le> to" "k div 2 = i" "2 \<le> i" "l \<le> i div 2"
        then have kk: "2 \<le> k" "k \<noteq> i" "k \<noteq> j" "k div 2 \<noteq> j" "l \<le> k div 2" using i(3) prems(3) by auto
        have "cmp (hnth base b k) (hnth base b i) \<le> 0" using prems(8) [OF kk(1) k(1) kk(5,4)] k(2) by simp
        then show "cmp (hnth base ?b k) (hnth base ?b (i div 2)) \<le> 0"
          using nth [of k] nth [of j] kk i(4) prems(1) by simp
      qed (use prems i in auto)
      then obtain c where c: "down_heap_loop cmp fuel ?a base i to tmp = Inr c" "arranged base (base + to) ?b c"
        "heap_from cmp base to l c" by blast
      have "arranged base (base + to) b ?b" by (rule hswap_arranged) (use prems i len in simp_all)
      from arranged_trans [OF this c(2)] c(1,3) show ?thesis using True i(1) get lt put by simp
    qed
  qed
qed


lemma down_heap_correct:
  assumes "total_cmp cmp" "0 < j" "j \<le> to" "l \<le> j" "to + base \<le> length a" "length a < 2 ^ 63"
    "\<And>i. 2 \<le> i \<Longrightarrow> i \<le> to \<Longrightarrow> l \<le> i div 2 \<Longrightarrow> i div 2 \<noteq> j \<Longrightarrow> cmp (hnth base a i) (hnth base a (i div 2)) \<le> 0"
    "\<And>i. i \<le> to \<Longrightarrow> i div 2 = j \<Longrightarrow> 2 \<le> j \<Longrightarrow> l \<le> j div 2 \<Longrightarrow> cmp (hnth base a i) (hnth base a (j div 2)) \<le> 0"
  shows "\<exists>c. down_heap cmp a base j to = Inr c \<and> arranged base (base + to) a c \<and> heap_from cmp base to l c"
proof -
  have get: "arr_get a (heap_at base j) = Inr (hnth base a j)" by (rule heap_get) (use assms(2-6) in simp_all)
  have e: "a = a[j + base - 1 := hnth base a j]" by (simp add: hnth_def)
  have f: "to - j < Suc to" by simp
  show ?thesis
    unfolding down_heap_def get rbind_Inr by (rule down_heap_loop_correct [OF assms(1-6) f e assms(7,8)])
qed

subsection \<open>Sifting up\<close>

lemma up_heap_loop_correct:
  assumes "total_cmp cmp" "0 < hi" "hi \<le> n" "n + base \<le> length a" "length a < 2 ^ 63" "b = a[hi + base - 1 := tmp]"
    "\<And>i. 2 \<le> i \<Longrightarrow> i \<le> n \<Longrightarrow> i \<noteq> hi \<Longrightarrow> cmp (hnth base b i) (hnth base b (i div 2)) \<le> 0"
    "\<And>i. i \<le> n \<Longrightarrow> i div 2 = hi \<Longrightarrow> 2 \<le> hi \<Longrightarrow> cmp (hnth base b i) (hnth base b (hi div 2)) \<le> 0"
  shows "\<exists>c. up_heap_loop cmp a base hi tmp = Inr c \<and> arranged base (base + n) b c \<and> heap_on cmp base n c"
  using assms(2-)
proof (induction hi arbitrary: a b rule: less_induct)
  case (less hi)
  note prems = less.prems
  let ?p = "hi div 2"
  have len: "length b = length a" using prems(5) by simp
  have put: "arr_set a (heap_at base hi) x = Inr (a[hi + base - 1 := x])" for x
    by (rule heap_set) (use prems(1-4) in simp_all)
  have hb: "hnth base b k = (if k = hi then tmp else hnth base a k)" if "0 < k" for k
    unfolding prems(5) by (rule hnth_update) (use prems(1-4) that in simp_all)
  show ?case
  proof (cases "hi > 1")
    case False
    then have "hi = 1" using prems(1) by simp
    then have "heap_on cmp base n b" using prems(6) by (simp add: heap_from_def)
    then show ?thesis using False put prems(5) by (simp add: up_heap_loop.simps [of cmp a base hi])
  next
    case True
    then have p: "0 < ?p" "?p < hi" "?p \<noteq> hi" by auto
    have get: "arr_get a (heap_at base ?p) = Inr (hnth base a ?p)" by (rule heap_get) (use p prems(1-4) in simp_all)
    have bp: "hnth base b ?p = hnth base a ?p" "hnth base b hi = tmp" using hb p prems(1) by auto
    show ?thesis
    proof (cases "cmp (hnth base a ?p) tmp < 0")
      case False
      then have "cmp tmp (hnth base a ?p) \<le> 0" using total_cmpD(6) [OF assms(1)] by blast
      then have "heap_on cmp base n b" using prems(6) bp by (force simp: heap_from_def)
      then show ?thesis using True False get put prems(5) by (simp add: up_heap_loop.simps [of cmp a base hi])
    next
      case lt: True
      let ?a = "a[hi + base - 1 := hnth base a ?p]" and ?b = "hswap base hi ?p b"
      have "?b = b[hi + base - 1 := hnth base a ?p, ?p + base - 1 := tmp]" by (simp only: hswap_def bp)
      then have b': "?b = ?a[?p + base - 1 := tmp]" by (simp only: prems(5) list_update_overwrite)
      have nth: "hnth base ?b k = (if k = hi then hnth base b ?p else if k = ?p then tmp else hnth base b k)" if "0 < k" for k
        unfolding bp(2) [symmetric] by (rule hnth_hswap) (use prems(1-4) p len that in simp_all)
      have below: "cmp (hnth base b k) (hnth base b ?p) \<le> 0" if "2 \<le> k" "k \<le> n" "k div 2 = ?p" "k \<noteq> hi" for k
        using prems(6) [OF that(1,2,4)] that(3) by simp
      have "\<exists>c. up_heap_loop cmp ?a base ?p tmp = Inr c \<and> arranged base (base + n) ?b c \<and> heap_on cmp base n c"
      proof (rule less.IH [OF p(2,1) _ _ _ b'])
        fix k assume k: "2 \<le> k" "k \<le> n" "k \<noteq> ?p"
        have d: "0 < k" "0 < k div 2" using k by simp_all
        consider "k = hi" | "k \<noteq> hi" "k div 2 = hi" | "k \<noteq> hi" "k div 2 = ?p" | "k \<noteq> hi" "k div 2 \<noteq> hi" "k div 2 \<noteq> ?p" by blast
        then show "cmp (hnth base ?b k) (hnth base ?b (k div 2)) \<le> 0"
        proof cases
          case 1
          then show ?thesis using nth [OF d(1)] nth [OF d(2)] lt bp p by simp
        next
          case 2
          then show ?thesis using nth [OF d(1)] nth [OF d(2)] prems(7) [OF k(2)] True k(3) by simp
        next
          case 3
          then have "cmp (hnth base b k) (hnth base b ?p) \<le> 0" using below k by blast
          then have "cmp (hnth base b k) tmp \<le> 0" using total_cmpD(2) [OF assms(1)] lt bp by (metis less_imp_le)
          then show ?thesis using nth [OF d(1)] nth [OF d(2)] 3 k(3) p by simp
        next
          case 4
          then show ?thesis using nth [OF d(1)] nth [OF d(2)] prems(6) [OF k(1,2)] k(3) by simp
        qed
      next
        fix k assume k: "k \<le> n" "k div 2 = ?p" "2 \<le> ?p"
        have up: "cmp (hnth base b ?p) (hnth base b (?p div 2)) \<le> 0" using prems(6) [OF k(3)] prems(2) p by simp
        have kk: "2 \<le> k" "0 < k" "k \<noteq> ?p" "0 < ?p div 2" "?p div 2 \<noteq> ?p" "?p div 2 \<noteq> hi" using k p by auto
        show "cmp (hnth base ?b k) (hnth base ?b (?p div 2)) \<le> 0"
        proof (cases "k = hi")
          case True
          then show ?thesis using nth [OF kk(2)] nth [OF kk(4)] kk up by simp
        next
          case False
          then show ?thesis
            using nth [OF kk(2)] nth [OF kk(4)] kk total_cmpD(2) [OF assms(1) below [OF kk(1) k(1,2) False] up] by simp
        qed
      qed (use prems(1-4) p in auto)
      then obtain c where c: "up_heap_loop cmp ?a base ?p tmp = Inr c" "arranged base (base + n) ?b c" "heap_on cmp base n c" by blast
      have "arranged base (base + n) b ?b" by (rule hswap_arranged) (use prems(1-4) p len in simp_all)
      from arranged_trans [OF this c(2)] c(1,3) show ?thesis
        using True get lt put by (simp add: up_heap_loop.simps [of cmp a base hi])
    qed
  qed
qed

lemma push_heap_correct:
  assumes "total_cmp cmp" "0 < n" "n + base \<le> length a" "length a < 2 ^ 63" "heap_on cmp base (n - 1) a"
  shows "\<exists>c. push_heap cmp a base n = Inr c \<and> arranged base (base + n) a c \<and> heap_on cmp base n c"
proof -
  have get: "arr_get a (heap_at base n) = Inr (hnth base a n)" by (rule heap_get) (use assms in simp_all)
  have e: "a = a[n + base - 1 := hnth base a n]" by (simp add: hnth_def)
  have A: "cmp (hnth base a i) (hnth base a (i div 2)) \<le> 0" if "2 \<le> i" "i \<le> n" "i \<noteq> n" for i
    using heap_fromD [OF assms(5), of i] that by simp
  have B: "cmp (hnth base a i) (hnth base a (n div 2)) \<le> 0" if "i \<le> n" "i div 2 = n" "2 \<le> n" for i
    using that by simp
  show ?thesis
    unfolding push_heap_def up_heap_def get rbind_Inr
    by (rule up_heap_loop_correct [OF assms(1,2) order_refl assms(3,4) e A B])
qed


subsection \<open>Taking the greatest element\<close>

lemma swap_root:
  assumes "0 < n" "n + base \<le> length a"
  shows "arr_swap a base (base + n - 1) = Inr (hswap base 1 n a)"
    "0 < k \<Longrightarrow> hnth base (hswap base 1 n a) k = (if k = n then hnth base a 1 else if k = 1 then hnth base a n else hnth base a k)"
proof -
  show "arr_swap a base (base + n - 1) = Inr (hswap base 1 n a)"
    using arr_swap_ok [of base a "base + n - 1"] assms by (simp add: hswap_def hnth_def add.commute)
  show "hnth base (hswap base 1 n a) k = (if k = n then hnth base a 1 else if k = 1 then hnth base a n else hnth base a k)" if "0 < k"
  proof (cases "n = 1")
    case True
    then show ?thesis by (simp add: hswap_def hnth_def)
  next
    case False
    then show ?thesis using hnth_hswap [of 1 base a n k] that assms by auto
  qed
qed

lemma swap_and_down:
  assumes "total_cmp cmp" "0 < n" "n + base \<le> length a" "length a < 2 ^ 63" "heap_on cmp base n a"
  shows "\<exists>c. down_heap cmp (hswap base 1 n a) base 1 (n - 1) = Inr c \<and> arranged base (base + n) a c \<and>
    heap_on cmp base (n - 1) c \<and> hnth base c n = hnth base a 1 \<and> (\<forall>k. n < k \<longrightarrow> k + base \<le> length a \<longrightarrow> hnth base c k = hnth base a k)"
proof -
  let ?b = "hswap base 1 n a"
  have ab: "arranged base (base + n) a ?b" by (rule hswap_arranged) (use assms(2,3) in simp_all)
  have "\<exists>c. down_heap cmp ?b base 1 (n - 1) = Inr c \<and> arranged base (base + (n - 1)) ?b c \<and> heap_on cmp base (n - 1) c"
  proof (cases "n = 1")
    case True
    have "arr_get ?b (heap_at base 1) = Inr (hnth base ?b 1)" "arr_set ?b (heap_at base 1) (hnth base ?b 1) = Inr ?b"
      using heap_get [of 1 base ?b] heap_set [of 1 base ?b "hnth base ?b 1"] assms(2-4) by (simp_all add: hnth_def)
    then show ?thesis using True by (simp add: down_heap_def heap_from_def)
  next
    case False
    show ?thesis
    proof (rule down_heap_correct [OF assms(1)])
      fix i assume i: "2 \<le> i" "i \<le> n - 1" "1 \<le> i div 2" "i div 2 \<noteq> 1"
      then have "hnth base ?b i = hnth base a i" "hnth base ?b (i div 2) = hnth base a (i div 2)"
        using swap_root(2) [OF assms(2,3)] by auto
      then show "cmp (hnth base ?b i) (hnth base ?b (i div 2)) \<le> 0" using heap_fromD [OF assms(5)] i by simp
    qed (use assms(2-4) False in auto)
  qed
  then obtain c where c: "down_heap cmp ?b base 1 (n - 1) = Inr c" "arranged base (base + (n - 1)) ?b c" "heap_on cmp base (n - 1) c"
    by blast
  have len: "length ?b = length a" by simp
  have keep: "hnth base c k = hnth base ?b k" if "n \<le> k" "k + base \<le> length a" for k
  proof -
    have "k + base - 1 < length ?b" "base + (n - 1) \<le> k + base - 1" using that assms(2) len by linarith+
    then show ?thesis unfolding hnth_def by (intro arranged_nth [OF c(2)]) simp_all
  qed
  have "hnth base c n = hnth base a 1" using keep [of n] swap_root(2) [OF assms(2,3,2)] assms(3) by simp
  moreover have "hnth base c k = hnth base a k" if "n < k" "k + base \<le> length a" for k
    using keep [of k] swap_root(2) [OF assms(2,3), of k] that assms(2) by auto
  moreover have "arranged base (base + n) a c"
    by (rule arranged_trans [OF ab arranged_mono [OF c(2)]]) simp_all
  ultimately show ?thesis using c(1,3) by blast
qed

lemma pop_heap_correct:
  assumes "total_cmp cmp" "0 < n" "n + base \<le> length a" "length a < 2 ^ 63" "heap_on cmp base n a"
  shows "\<exists>c. pop_heap cmp a base n = Inr c \<and> arranged base (base + n) a c \<and>
    heap_on cmp base (n - 1) c \<and> hnth base c n = hnth base a 1"
proof -
  have "sz_sub (sz (base + n)) 1 = base + n - 1" "sz_sub n 1 = n - 1" using assms(2-4) by (simp_all add: sz_id NPOS_def)
  then have "pop_heap cmp a base n = down_heap cmp (hswap base 1 n a) base 1 (n - 1)"
    unfolding pop_heap_def by (simp only: swap_root(1) [OF assms(2,3)] rbind_Inr)
  with swap_and_down [OF assms] show ?thesis by auto
qed

subsection \<open>Making and sorting a heap\<close>

lemma make_heap_correct:
  assumes "total_cmp cmp" "n + base \<le> length a" "length a < 2 ^ 63"
  shows "\<exists>c. make_heap cmp a base n = Inr c \<and> arranged base (base + n) a c \<and> heap_on cmp base n c"
proof -
  have "\<exists>c. rfold (\<lambda>a i. down_heap cmp a base i n) a (rev [Suc m..<Suc (n div 2)]) = Inr c \<and>
      arranged base (base + n) a c \<and> heap_from cmp base n (Suc m) c" if "m \<le> n div 2" for m
    using that
  proof (induction m rule: inc_induct)
    case base
    show ?case by (auto simp: heap_from_def)
  next
    case (step m)
    then obtain b where b: "rfold (\<lambda>a i. down_heap cmp a base i n) a (rev [Suc (Suc m)..<Suc (n div 2)]) = Inr b"
      "arranged base (base + n) a b" "heap_from cmp base n (Suc (Suc m)) b" by blast
    have len: "length b = length a" by (rule arranged_length [OF b(2)])
    have "\<exists>c. down_heap cmp b base (Suc m) n = Inr c \<and> arranged base (base + n) b c \<and> heap_from cmp base n (Suc m) c"
    proof (rule down_heap_correct [OF assms(1)])
      fix i assume "2 \<le> i" "i \<le> n" "Suc m \<le> i div 2" "i div 2 \<noteq> Suc m"
      then show "cmp (hnth base b i) (hnth base b (i div 2)) \<le> 0" using heap_fromD [OF b(3)] by simp
    qed (use assms(2,3) len step.hyps in auto)
    then obtain c where c: "down_heap cmp b base (Suc m) n = Inr c" "arranged base (base + n) b c" "heap_from cmp base n (Suc m) c"
      by blast
    have "[Suc m..<Suc (n div 2)] = Suc m # [Suc (Suc m)..<Suc (n div 2)]" using step.hyps by (simp add: upt_conv_Cons)
    then show ?case using b(1) c arranged_trans [OF b(2) c(2)] by (simp add: rfold_append)
  qed
  from this [of 0] show ?thesis by (simp add: make_heap_def)
qed

lemma sort_heap_correct:
  assumes "total_cmp cmp" "n + base \<le> length a" "length a < 2 ^ 63" "heap_on cmp base n a"
  shows "\<exists>c. sort_heap cmp a base n = Inr c \<and> arranged base (base + n) a c \<and> sorted_on cmp base (base + n) c"
proof -
  have "\<exists>c. rfold (\<lambda>a i. rbind (arr_swap a base (base + i - 1)) (\<lambda>a1. down_heap cmp a1 base 1 (i - 1))) a (rev [Suc m..<Suc n]) = Inr c \<and>
      arranged base (base + n) a c \<and> heap_on cmp base m c \<and>
      (\<forall>i j. 0 < i \<longrightarrow> i < j \<longrightarrow> m < j \<longrightarrow> j \<le> n \<longrightarrow> cmp (hnth base c i) (hnth base c j) \<le> 0)" if "m \<le> n" "1 \<le> m" for m
    using that
  proof (induction m rule: inc_induct)
    case base
    show ?case using assms(4) by auto
  next
    case (step m)
    let ?f = "\<lambda>a i. rbind (arr_swap a base (base + i - 1)) (\<lambda>a1. down_heap cmp a1 base 1 (i - 1))"
    from step obtain b where b: "rfold ?f a (rev [Suc (Suc m)..<Suc n]) = Inr b"
      "arranged base (base + n) a b" "heap_on cmp base (Suc m) b"
      "\<And>i j. 0 < i \<Longrightarrow> i < j \<Longrightarrow> Suc m < j \<Longrightarrow> j \<le> n \<Longrightarrow> cmp (hnth base b i) (hnth base b j) \<le> 0"
      by auto
    have len: "length b = length a" by (rule arranged_length [OF b(2)])
    have m: "0 < Suc m" "Suc m + base \<le> length b" "length b < 2 ^ 63" using step.hyps assms(2,3) len by auto
    from swap_and_down [OF assms(1) m b(3)] obtain c where
      c: "down_heap cmp (hswap base 1 (Suc m) b) base 1 m = Inr c" "arranged base (base + Suc m) b c" "heap_on cmp base m c"
        "hnth base c (Suc m) = hnth base b 1" "\<And>k. Suc m < k \<Longrightarrow> k + base \<le> length b \<Longrightarrow> hnth base c k = hnth base b k"
      by auto
    have within: "P (hnth base c i)" if "0 < i" "i \<le> Suc m" "\<And>k. 0 < k \<Longrightarrow> k \<le> Suc m \<Longrightarrow> P (hnth base b k)" for i P
    proof -
      have "P (c ! (i + base - 1))"
      proof (rule arranged_all [OF c(2), where P = P])
        fix k assume "base \<le> k" "k < base + Suc m"
        then show "P (b ! k)" using that(3) [of "k + 1 - base"] by (simp add: hnth_def)
      qed (use that m in auto)
      then show ?thesis by (simp add: hnth_def)
    qed
    have order: "cmp (hnth base c i) (hnth base c j) \<le> 0" if ij: "0 < i" "i < j" "m < j" "j \<le> n" for i j
    proof (cases "j = Suc m")
      case True
      have "cmp (hnth base c i) (hnth base b 1) \<le> 0"
        by (rule within [where P = "\<lambda>x. cmp x (hnth base b 1) \<le> 0"]) (use ij True heap_root [OF assms(1) b(3)] in auto)
      then show ?thesis using True c(4) by simp
    next
      case False
      then have j: "hnth base c j = hnth base b j" "Suc m < j" using c(5) ij assms(2) len by auto
      show ?thesis
      proof (cases "i \<le> Suc m")
        case True
        have "cmp (hnth base c i) (hnth base b j) \<le> 0"
          by (rule within [where P = "\<lambda>x. cmp x (hnth base b j) \<le> 0"]) (use ij True b(4) j in auto)
        then show ?thesis using j by simp
      next
        case False
        then have "hnth base c i = hnth base b i" using c(5) ij assms(2) len by auto
        then show ?thesis using b(4) [OF ij(1,2) j(2) ij(4)] j by simp
      qed
    qed
    have "arranged base (base + n) b c" by (rule arranged_mono [OF c(2)]) (use step.hyps in auto)
    from arranged_trans [OF b(2) this] have ac: "arranged base (base + n) a c" .
    have "[Suc m..<Suc n] = Suc m # [Suc (Suc m)..<Suc n]" using step.hyps by (simp add: upt_conv_Cons)
    moreover have "?f b (Suc m) = Inr c" using c(1) swap_root(1) [OF m(1,2)] by simp
    ultimately have "rfold ?f a (rev [Suc m..<Suc n]) = Inr c" using b(1) by (simp add: rfold_append)
    then show ?case using ac c(3) order by blast
  qed
  note loop = this
  show ?thesis
  proof (cases "n = 0")
    case True
    then show ?thesis by (auto simp: sort_heap_def sorted_on_def)
  next
    case False
    from loop [of 1] False obtain c where c: "sort_heap cmp a base n = Inr c" "arranged base (base + n) a c"
      "\<And>i j. 0 < i \<Longrightarrow> i < j \<Longrightarrow> 1 < j \<Longrightarrow> j \<le> n \<Longrightarrow> cmp (hnth base c i) (hnth base c j) \<le> 0"
      by (auto simp: sort_heap_def numeral_2_eq_2)
    have "cmp (c ! i) (c ! j) \<le> 0" if "base \<le> i" "i < j" "j < base + n" for i j
      using c(3) [of "i + 1 - base" "j + 1 - base"] that by (simp add: hnth_def)
    then show ?thesis using c(1,2) by (auto simp: sorted_on_def)
  qed
qed


lemma heap_sort_correct:
  assumes "total_cmp cmp" "idx + n \<le> length a" "length a < 2 ^ 63"
  shows "\<exists>b. rbind (make_heap cmp a idx n) (\<lambda>h. sort_heap cmp h idx n) = Inr b \<and>
    arranged idx (idx + n) a b \<and> sorted_on cmp idx (idx + n) b"
proof -
  have n: "n + idx \<le> length a" using assms(2) by simp
  from make_heap_correct [OF assms(1) n assms(3)] obtain h where
    h: "make_heap cmp a idx n = Inr h" "arranged idx (idx + n) a h" "heap_on cmp idx n h" by blast
  have "n + idx \<le> length h" "length h < 2 ^ 63" using n assms(3) arranged_length [OF h(2)] by auto
  from sort_heap_correct [OF assms(1) this h(3)] obtain b where
    "sort_heap cmp h idx n = Inr b" "arranged idx (idx + n) h b" "sorted_on cmp idx (idx + n) b" by blast
  then show ?thesis
    using h(1) arranged_trans [OF h(2)] by auto
qed

subsection \<open>Partial sorting\<close>

lemma range_bounded:
  assumes "arranged base (base + n) a b" "base + n \<le> length a" "base \<le> j" "j < base + n"
    "\<And>k. 0 < k \<Longrightarrow> k \<le> n \<Longrightarrow> P (hnth base a k)"
  shows "P (b ! j)"
proof (rule arranged_all [OF assms(1), where P = P])
  fix k assume "base \<le> k" "k < base + n"
  then show "P (a ! k)" using assms(5) [of "k + 1 - base"] by (simp add: hnth_def)
qed (use assms in auto)

lemma select_round_correct:
  assumes "total_cmp cmp" "0 < s" "base + s \<le> i" "i < length c" "length c < 2 ^ 63" "heap_on cmp base s c"
    "\<And>k. base + s \<le> k \<Longrightarrow> k < i \<Longrightarrow> cmp (hnth base c 1) (c ! k) \<le> 0"
  shows "\<exists>f. select_round cmp base s c i = Inr f \<and> arranged base (Suc i) c f \<and> heap_on cmp base s f \<and>
    (\<forall>k. base + s \<le> k \<longrightarrow> k < Suc i \<longrightarrow> cmp (hnth base f 1) (f ! k) \<le> 0)"
proof (cases "cmp (hnth base c 1) (c ! i) > 0")
  case False
  have "select_round cmp base s c i = Inr c"
    using False assms(2-4) by (simp add: select_round_def arr_get_def hnth_def)
  moreover have "cmp (hnth base c 1) (c ! k) \<le> 0" if "base + s \<le> k" "k < Suc i" for k
    using assms(7) [OF that(1)] False that(2) by (cases "k = i") auto
  ultimately show ?thesis using assms(6) by auto
next
  case True
  let ?x = "hnth base c 1"
  have n: "s + base \<le> length c" "base + s \<le> length c" using assms(3,4) by simp_all
  from pop_heap_correct [OF assms(1,2) n(1) assms(5,6)] obtain d where
    d: "pop_heap cmp c base s = Inr d" "arranged base (base + s) c d" "heap_on cmp base (s - 1) d" "hnth base d s = ?x" by blast
  have len_d: "length d = length c" by (rule arranged_length [OF d(2)])
  let ?e = "d[base + s - 1 := d ! i, i := d ! (base + s - 1)]"
  have lt: "base + s - 1 < length d" "i < length d" "base + s - 1 < i" using assms(2-4) len_d by simp_all
  have swap: "arr_swap d (sz_sub (sz (base + s)) 1) i = Inr ?e"
    using arr_swap_ok [OF lt(1,2)] n assms(2,5) by (simp add: sz_id NPOS_def)
  have di: "d ! i = c ! i" using arranged_nth [OF d(2)] assms(3,4) by simp
  have dx: "d ! (base + s - 1) = ?x" using d(4) by (simp add: hnth_def add.commute)
  have e: "hnth base ?e k = (if k = s then c ! i else hnth base d k)" if "0 < k" "k \<le> s" for k
    using that lt(3) di len_d n assms(2) by (auto simp: hnth_def add.commute nth_list_update)
  have small: "cmp (hnth base ?e k) ?x \<le> 0" if k: "0 < k" "k \<le> s" for k
  proof (cases "k = s")
    case True
    then show ?thesis using e [OF k] \<open>cmp ?x (c ! i) > 0\<close> total_cmpD(4) [OF assms(1)] by simp
  next
    case False
    have "cmp (d ! (k + base - 1)) ?x \<le> 0"
      by (rule range_bounded [OF d(2) n(2), where P = "\<lambda>y. cmp y ?x \<le> 0"]) (use k heap_root [OF assms(1,6)] in auto)
    then show ?thesis using e [OF k] False by (simp add: hnth_def)
  qed
  have heap_e: "heap_on cmp base (s - 1) ?e"
    unfolding heap_from_def
  proof (intro allI impI)
    fix k assume k: "2 \<le> k" "k \<le> s - 1" "1 \<le> k div 2"
    then have "hnth base ?e k = hnth base d k" "hnth base ?e (k div 2) = hnth base d (k div 2)" using e by auto
    then show "cmp (hnth base ?e k) (hnth base ?e (k div 2)) \<le> 0" using heap_fromD [OF d(3) k] by simp
  qed
  have len_e: "s + base \<le> length ?e" "base + s \<le> length ?e" "length ?e < 2 ^ 63" using n len_d assms(5) by simp_all
  from push_heap_correct [OF assms(1,2) len_e(1,3) heap_e] obtain f where
    f: "push_heap cmp ?e base s = Inr f" "arranged base (base + s) ?e f" "heap_on cmp base s f" by blast
  have run: "select_round cmp base s c i = Inr f"
  proof -
    have "arr_get c base = Inr ?x" "arr_get c i = Inr (c ! i)" using n assms(2,4) by (simp_all add: arr_get_def hnth_def)
    then show ?thesis unfolding select_round_def using True by (simp only: rbind_Inr if_True d(1) swap f(1))
  qed
  have root: "cmp (hnth base f 1) ?x \<le> 0"
    unfolding hnth_def [of base f] by (rule range_bounded [OF f(2) len_e(2), where P = "\<lambda>y. cmp y ?x \<le> 0"]) (use small assms(2) in auto)
  have out: "f ! k = ?e ! k" if "base + s \<le> k" "k \<le> i" for k
    using arranged_nth [OF f(2), of k] that assms(4) len_d by simp
  have "cmp ?x (f ! k) \<le> 0" if k: "base + s \<le> k" "k < Suc i" for k
  proof (cases "k = i")
    case True
    then have "f ! k = ?x" using out [OF k(1)] lt dx by simp
    then show ?thesis using total_cmpD(3) [OF assms(1)] by simp
  next
    case False
    moreover have "k \<noteq> base + s - 1" using k(1) assms(2) by simp
    ultimately have "f ! k = d ! k" using out [OF k(1)] k by simp
    moreover have "d ! k = c ! k" using arranged_nth [OF d(2)] k assms(4) False by simp
    ultimately show ?thesis using assms(7) [OF k(1)] k(2) False by simp
  qed
  then have all: "\<forall>k. base + s \<le> k \<longrightarrow> k < Suc i \<longrightarrow> cmp (hnth base f 1) (f ! k) \<le> 0"
    using total_cmpD(2) [OF assms(1) root] by blast
  have "arranged base (Suc i) d ?e" by (rule arranged_swap) (use lt assms(2,3) in auto)
  then have "arranged base (Suc i) c f"
    using arranged_trans [OF arranged_mono [OF d(2)] arranged_trans [OF _ arranged_mono [OF f(2)]]] assms(3)
    by (metis le_refl le_SucI)
  with run f(3) all show ?thesis by blast
qed

text \<open>With nothing to sort in front, \<open>partial_sort\<close> takes an element off the empty heap.\<close>

lemma partial_sort_nothing:
  assumes "length a < 2 ^ 63" "1 < length a" "cmp (a ! 0) (a ! 0) \<le> 0" "cmp (a ! 0) (a ! 1) > 0"
  shows "partial_sort cmp a 0 0 2 = Inl OutOfBounds"
proof -
  have "sz_sub (sz (0 + 0)) 1 = NPOS" by (simp add: sz_def sz_sub_def NPOS_def)
  moreover have "arr_get a 0 = Inr (a ! 0)" "arr_get a 1 = Inr (a ! 1)" "arr_get a NPOS = Inl OutOfBounds"
    using assms by (auto simp: arr_get_def NPOS_def)
  ultimately have "select_round cmp 0 0 a 0 = Inr a" "select_round cmp 0 0 a 1 = Inl OutOfBounds"
    using assms(3,4) by (simp_all add: select_round_def pop_heap_def arr_swap_def)
  moreover have "[0 + 0..<0 + 2] = [0, 1 :: nat]" by (simp add: upt_rec)
  ultimately show ?thesis by (simp add: partial_sort_def make_heap_def)
qed

text \<open>
  C24: \<open>partial_sort\<close> leaves the \<open>sort_n\<close> smallest elements of the range in front, in ascending order, and the
  others behind them in some order.
\<close>

theorem partial_sort_correct:
  assumes "total_cmp cmp" "0 < sort_n" "sort_n \<le> n" "idx + n \<le> length a" "length a < 2 ^ 63"
  shows "\<exists>b. partial_sort cmp a idx sort_n n = Inr b \<and> arranged idx (idx + n) a b \<and> sorted_on cmp idx (idx + sort_n) b \<and>
      (\<forall>i j. idx \<le> i \<longrightarrow> i < idx + sort_n \<longrightarrow> idx + sort_n \<le> j \<longrightarrow> j < idx + n \<longrightarrow> cmp (b ! i) (b ! j) \<le> 0)"
proof -
  have "sort_n + idx \<le> length a" using assms(3,4) by simp
  from make_heap_correct [OF assms(1) this assms(5)] obtain h where
    h: "make_heap cmp a idx sort_n = Inr h" "arranged idx (idx + sort_n) a h" "heap_on cmp idx sort_n h" by blast
  have "\<exists>c. rfold (select_round cmp idx sort_n) h [idx + sort_n..<i] = Inr c \<and> arranged idx (idx + n) a c \<and>
      heap_on cmp idx sort_n c \<and> (\<forall>k. idx + sort_n \<le> k \<longrightarrow> k < i \<longrightarrow> cmp (hnth idx c 1) (c ! k) \<le> 0)"
    if "idx + sort_n \<le> i" "i \<le> idx + n" for i
    using that
  proof (induction i rule: dec_induct)
    case base
    have "arranged idx (idx + n) a h" by (rule arranged_mono [OF h(2)]) (use assms(3) in auto)
    then show ?case using h(3) by simp
  next
    case (step i)
    then obtain c where c: "rfold (select_round cmp idx sort_n) h [idx + sort_n..<i] = Inr c" "arranged idx (idx + n) a c"
      "heap_on cmp idx sort_n c" "\<And>k. idx + sort_n \<le> k \<Longrightarrow> k < i \<Longrightarrow> cmp (hnth idx c 1) (c ! k) \<le> 0"
      by auto
    have "i < length c" "length c < 2 ^ 63" using step assms(4,5) arranged_length [OF c(2)] by auto
    from select_round_correct [OF assms(1,2) step.hyps(1) this c(3,4)] obtain f where
      f: "select_round cmp idx sort_n c i = Inr f" "arranged idx (Suc i) c f" "heap_on cmp idx sort_n f"
      "\<forall>k. idx + sort_n \<le> k \<longrightarrow> k < Suc i \<longrightarrow> cmp (hnth idx f 1) (f ! k) \<le> 0" by blast
    have "arranged idx (idx + n) c f" by (rule arranged_mono [OF f(2)]) (use step.prems in auto)
    from arranged_trans [OF c(2) this] show ?case using f c(1) step.hyps by (simp add: rfold_append)
  qed
  from this [of "idx + n"] assms(3) obtain c where
    c: "rfold (select_round cmp idx sort_n) h [idx + sort_n..<idx + n] = Inr c" "arranged idx (idx + n) a c"
      "heap_on cmp idx sort_n c" "\<And>k. idx + sort_n \<le> k \<Longrightarrow> k < idx + n \<Longrightarrow> cmp (hnth idx c 1) (c ! k) \<le> 0"
    by auto
  have len: "sort_n + idx \<le> length c" "idx + sort_n \<le> length c" "length c < 2 ^ 63"
    using assms(3-5) arranged_length [OF c(2)] by auto
  from sort_heap_correct [OF assms(1) len(1,3) c(3)] obtain b where
    b: "sort_heap cmp c idx sort_n = Inr b" "arranged idx (idx + sort_n) c b" "sorted_on cmp idx (idx + sort_n) b" by blast
  have "cmp (b ! i) (b ! j) \<le> 0" if ij: "idx \<le> i" "i < idx + sort_n" "idx + sort_n \<le> j" "j < idx + n" for i j
  proof -
    have "cmp (b ! i) (hnth idx c 1) \<le> 0"
      by (rule range_bounded [OF b(2) len(2) ij(1,2), where P = "\<lambda>x. cmp x (hnth idx c 1) \<le> 0"])
        (use heap_root [OF assms(1) c(3)] in auto)
    moreover have "b ! j = c ! j" using arranged_nth [OF b(2)] ij assms(4) arranged_length [OF c(2)] by simp
    ultimately show ?thesis using total_cmpD(2) [OF assms(1)] c(4) [OF ij(3,4)] by metis
  qed
  moreover have "arranged idx (idx + n) a b"
    by (rule arranged_trans [OF c(2) arranged_mono [OF b(2)]]) (use assms(3) in auto)
  ultimately show ?thesis
    using b(3) h(1) c(1) b(1) by (auto simp: partial_sort_def)
qed

theorem partial_sort_correct_witness:
  "\<exists>b. partial_sort (-) [9, 5, 3, 8, 7, 2, 1] 1 3 5 = Inr b \<and> b ! 0 = 9 \<and> b ! 6 = (1 :: int) \<and> sorted_on (-) 1 4 b"
proof -
  let ?a = "[9, 5, 3, 8, 7, 2, 1] :: int list"
  have c: "total_cmp ((-) :: int \<Rightarrow> int \<Rightarrow> int)" by (simp add: total_cmp_def)
  obtain b where b: "partial_sort (-) ?a 1 3 5 = Inr b" "arranged 1 6 ?a b" "sorted_on (-) 1 4 b"
    using partial_sort_correct [OF c, of 3 5 1 ?a] by auto
  have "b ! 0 = ?a ! 0" "b ! 6 = ?a ! 6" by (rule arranged_nth [OF b(2)]; simp)+
  with b show ?thesis by auto
qed

end
