(* ===== verification/Cstl_Rbtree.thy ===== *)
theory Cstl_Rbtree
  imports Cstl_Block
begin

text \<open>
  The red-black tree of \<open>cstl/rbtree.h\<close> (\<open>CSTL_RBTREE_IMPLEMENT\<close>), which \<open>cstl/set.h\<close> and \<open>cstl/map.h\<close>
  instantiate.

  The heap keeps the fields of every node in a function of its address, and which addresses are
  allocated, as that of the linked list does.  \<open>NIL\<close> is the address of the constant node
  \<open>RBTree_nil\<close>, black and linked to itself, which can be read but not written.  A tree is known by
  its head, a node of the colour \<open>COLOR_HEAD\<close> whose right child is the root.
  \<open>cmp\<close> is the macro argument \<open>Compare\<close>.  \<open>rroom\<close> is the number of calls of \<open>malloc\<close> that will still succeed.
\<close>

subsection \<open>The heap\<close>

datatype rbcolor = COLOR_RED | COLOR_BLACK | COLOR_HEAD

record ('k, 'v) rheap =
  lft :: "nat \<Rightarrow> nat"
  rgt :: "nat \<Rightarrow> nat"
  par :: "nat \<Rightarrow> nat"
  clr :: "nat \<Rightarrow> rbcolor"
  nkey :: "nat \<Rightarrow> 'k"
  nval :: "nat \<Rightarrow> 'v"
  rlive :: "nat \<Rightarrow> bool"
  rbrk :: nat
  rroom :: nat

definition NIL :: nat where
  "NIL = 1"

definition nacc :: "('k, 'v) rheap \<Rightarrow> nat \<Rightarrow> 'b \<Rightarrow> 'b res" where
  "nacc h a r = (if a = NIL then Inl ConstWrite else if rlive h a then Inr r
     else Inl (if a = 0 then NullDeref else UseAfterFree))"

definition nread :: "('k, 'v) rheap \<Rightarrow> nat \<Rightarrow> 'b \<Rightarrow> 'b \<Rightarrow> 'b res" where
  "nread h a n r = (if a = NIL then Inr n else nacc h a r)"

definition rd_left :: "('k, 'v) rheap \<Rightarrow> nat \<Rightarrow> nat res" where
  "rd_left h a = nread h a NIL (lft h a)"

definition rd_right :: "('k, 'v) rheap \<Rightarrow> nat \<Rightarrow> nat res" where
  "rd_right h a = nread h a NIL (rgt h a)"

definition rd_parent :: "('k, 'v) rheap \<Rightarrow> nat \<Rightarrow> nat res" where
  "rd_parent h a = nread h a NIL (par h a)"

definition rd_color :: "('k, 'v) rheap \<Rightarrow> nat \<Rightarrow> rbcolor res" where
  "rd_color h a = nread h a COLOR_BLACK (clr h a)"

text \<open>The key of the constant node is not given a value.\<close>

definition rd_key :: "('k, 'v) rheap \<Rightarrow> nat \<Rightarrow> 'k res" where
  "rd_key h a = (if a = NIL then Inl UninitRead else nacc h a (nkey h a))"

definition wr_left :: "('k, 'v) rheap \<Rightarrow> nat \<Rightarrow> nat \<Rightarrow> ('k, 'v) rheap res" where
  "wr_left h a b = nacc h a (h\<lparr>lft := (lft h)(a := b)\<rparr>)"

definition wr_right :: "('k, 'v) rheap \<Rightarrow> nat \<Rightarrow> nat \<Rightarrow> ('k, 'v) rheap res" where
  "wr_right h a b = nacc h a (h\<lparr>rgt := (rgt h)(a := b)\<rparr>)"

definition wr_parent :: "('k, 'v) rheap \<Rightarrow> nat \<Rightarrow> nat \<Rightarrow> ('k, 'v) rheap res" where
  "wr_parent h a b = nacc h a (h\<lparr>par := (par h)(a := b)\<rparr>)"

definition wr_color :: "('k, 'v) rheap \<Rightarrow> nat \<Rightarrow> rbcolor \<Rightarrow> ('k, 'v) rheap res" where
  "wr_color h a c = nacc h a (h\<lparr>clr := (clr h)(a := c)\<rparr>)"

definition malloc_rb :: "('k, 'v) rheap \<Rightarrow> nat \<times> ('k, 'v) rheap" where
  "malloc_rb h = (if rroom h = 0 then (0, h) else
     (rbrk h, h\<lparr>rlive := (rlive h)(rbrk h := True), rbrk := rbrk h + 1, rroom := rroom h - 1\<rparr>))"

definition free_rb :: "('k, 'v) rheap \<Rightarrow> nat \<Rightarrow> ('k, 'v) rheap res" where
  "free_rb h a = (if a = 0 then Inr h else if rlive h a then Inr (h\<lparr>rlive := (rlive h)(a := False)\<rparr>)
     else Inl BadFree)"

subsection \<open>Links\<close>

definition rb_set_left :: "('k, 'v) rheap \<Rightarrow> nat \<Rightarrow> nat \<Rightarrow> ('k, 'v) rheap res" where
  "rb_set_left h node t = rbind (wr_left h node t) (\<lambda>h1. if t \<noteq> NIL then wr_parent h1 t node else Inr h1)"

definition rb_set_right :: "('k, 'v) rheap \<Rightarrow> nat \<Rightarrow> nat \<Rightarrow> ('k, 'v) rheap res" where
  "rb_set_right h node t = rbind (wr_right h node t) (\<lambda>h1. if t \<noteq> NIL then wr_parent h1 t node else Inr h1)"

definition rb_get_root :: "('k, 'v) rheap \<Rightarrow> nat \<Rightarrow> nat res" where
  "rb_get_root h self = rd_right h self"

definition rb_set_root :: "('k, 'v) rheap \<Rightarrow> nat \<Rightarrow> nat \<Rightarrow> ('k, 'v) rheap res" where
  "rb_set_root h self t = rbind (wr_right h self t) (\<lambda>h1. if t \<noteq> NIL then wr_parent h1 t self else Inr h1)"

text \<open>\<open>IS_HEAD\<close> and \<open>IS_ROOT\<close>.\<close>

definition is_head :: "('k, 'v) rheap \<Rightarrow> nat \<Rightarrow> bool res" where
  "is_head h a = rbind (rd_color h a) (\<lambda>c. Inr (c = COLOR_HEAD))"

definition is_root :: "('k, 'v) rheap \<Rightarrow> nat \<Rightarrow> bool res" where
  "is_root h a = rbind (rd_parent h a) (is_head h)"

text \<open>The three lines with which the child \<open>a\<close> of \<open>p\<close> is replaced by \<open>t\<close>.\<close>

definition rb_relink :: "('k, 'v) rheap \<Rightarrow> nat \<Rightarrow> nat \<Rightarrow> nat \<Rightarrow> ('k, 'v) rheap res" where
  "rb_relink h p a t = rbind (rd_left h p) (\<lambda>pl. if pl = a then rb_set_left h p t else rb_set_right h p t)"

definition rb_new :: "('k, 'v) rheap \<Rightarrow> (nat \<times> ('k, 'v) rheap) res" where
  "rb_new h = (let (self, h1) = malloc_rb h in if self = 0 then Inr (0, h1) else
     rbind (wr_left h1 self NIL) (\<lambda>h2. rbind (wr_right h2 self NIL) (\<lambda>h3.
     rbind (wr_parent h3 self NIL) (\<lambda>h4. rbind (wr_color h4 self COLOR_HEAD) (\<lambda>h5. Inr (self, h5))))))"

fun rb_clear_loop :: "nat \<Rightarrow> ('k, 'v) rheap \<Rightarrow> nat \<Rightarrow> ('k, 'v) rheap res" where
  "rb_clear_loop 0 h t = Inl OutOfFuel"
| "rb_clear_loop (Suc fuel) h t = rbind (rd_left h t) (\<lambda>l. if l \<noteq> NIL then rb_clear_loop fuel h l else
     rbind (rd_right h t) (\<lambda>r. if r \<noteq> NIL then rb_clear_loop fuel h r else
     rbind (rd_parent h t) (\<lambda>p. rbind (rd_left h p) (\<lambda>pl.
     rbind (if t = pl then wr_left h p NIL else wr_right h p NIL) (\<lambda>h1.
     rbind (rd_parent h1 t) (\<lambda>tmp. rbind (free_rb h1 t) (\<lambda>h2.
     rbind (is_head h2 tmp) (\<lambda>b. if b then Inr h2 else rb_clear_loop fuel h2 tmp))))))))"

definition rb_clear :: "('k, 'v) rheap \<Rightarrow> nat \<Rightarrow> ('k, 'v) rheap res" where
  "rb_clear h self = rbind (rb_get_root h self) (\<lambda>t. if t = NIL then Inr h else rb_clear_loop (2 * rbrk h) h t)"

definition rb_delete :: "('k, 'v) rheap \<Rightarrow> nat \<Rightarrow> ('k, 'v) rheap res" where
  "rb_delete h self = rbind (rb_clear h self) (\<lambda>h1. free_rb h1 self)"

definition rb_empty :: "('k, 'v) rheap \<Rightarrow> nat \<Rightarrow> bool res" where
  "rb_empty h self = rbind (rb_get_root h self) (\<lambda>t. Inr (t = NIL))"

subsection \<open>Searching\<close>

definition rb_end :: "('k, 'v) rheap \<Rightarrow> nat \<Rightarrow> nat res" where
  "rb_end h self = Inr self"

definition rb_rend :: "('k, 'v) rheap \<Rightarrow> nat \<Rightarrow> nat res" where
  "rb_rend h self = Inr self"

fun rb_find_node :: "('k \<Rightarrow> 'k \<Rightarrow> int) \<Rightarrow> nat \<Rightarrow> ('k, 'v) rheap \<Rightarrow> nat \<Rightarrow> 'k \<Rightarrow> nat res" where
  "rb_find_node cmp 0 h t k = (if t \<noteq> NIL then Inl OutOfFuel else Inr t)"
| "rb_find_node cmp (Suc fuel) h t k = (if t \<noteq> NIL then
     rbind (rd_key h t) (\<lambda>tk. if cmp k tk < 0 then rbind (rd_left h t) (\<lambda>l. rb_find_node cmp fuel h l k)
       else if cmp k tk > 0 then rbind (rd_right h t) (\<lambda>r. rb_find_node cmp fuel h r k) else Inr t)
     else Inr t)"

definition rb_find :: "('k \<Rightarrow> 'k \<Rightarrow> int) \<Rightarrow> ('k, 'v) rheap \<Rightarrow> nat \<Rightarrow> 'k \<Rightarrow> nat res" where
  "rb_find cmp h self k = rbind (rb_get_root h self) (\<lambda>r. rbind (rb_find_node cmp (rbrk h) h r k) (\<lambda>t.
     if t = NIL then rb_end h self else Inr t))"

text \<open>The loop of \<open>lower_bound\<close> and of \<open>upper_bound\<close>; \<open>test\<close> of a key says that it is to the right of the bound.\<close>

fun rb_bound_loop :: "('k \<Rightarrow> bool) \<Rightarrow> nat \<Rightarrow> ('k, 'v) rheap \<Rightarrow> nat \<Rightarrow> nat \<Rightarrow> nat res" where
  "rb_bound_loop test 0 h t tmp = (if t \<noteq> NIL then Inl OutOfFuel else Inr tmp)"
| "rb_bound_loop test (Suc fuel) h t tmp = (if t \<noteq> NIL then
     rbind (rd_key h t) (\<lambda>tk. if test tk then rbind (rd_left h t) (\<lambda>l. rb_bound_loop test fuel h l t)
       else rbind (rd_right h t) (\<lambda>r. rb_bound_loop test fuel h r tmp))
     else Inr tmp)"

definition rb_lower_bound :: "('k \<Rightarrow> 'k \<Rightarrow> int) \<Rightarrow> ('k, 'v) rheap \<Rightarrow> nat \<Rightarrow> 'k \<Rightarrow> nat res" where
  "rb_lower_bound cmp h self k = rbind (rb_end h self) (\<lambda>tmp. rbind (rb_get_root h self) (\<lambda>t.
     rb_bound_loop (\<lambda>tk. cmp k tk \<le> 0) (rbrk h) h t tmp))"

definition rb_upper_bound :: "('k \<Rightarrow> 'k \<Rightarrow> int) \<Rightarrow> ('k, 'v) rheap \<Rightarrow> nat \<Rightarrow> 'k \<Rightarrow> nat res" where
  "rb_upper_bound cmp h self k = rbind (rb_end h self) (\<lambda>tmp. rbind (rb_get_root h self) (\<lambda>t.
     rb_bound_loop (\<lambda>tk. cmp k tk < 0) (rbrk h) h t tmp))"

subsection \<open>Iterators\<close>

text \<open>To the leftmost or rightmost node of a subtree, and the same remembering the last node, as
  \<open>begin\<close> and \<open>rbegin\<close> do.\<close>

fun leftmost_loop :: "nat \<Rightarrow> ('k, 'v) rheap \<Rightarrow> nat \<Rightarrow> nat res" where
  "leftmost_loop 0 h pos = Inl OutOfFuel"
| "leftmost_loop (Suc fuel) h pos = rbind (rd_left h pos) (\<lambda>l. if l \<noteq> NIL then leftmost_loop fuel h l else Inr pos)"

fun rightmost_loop :: "nat \<Rightarrow> ('k, 'v) rheap \<Rightarrow> nat \<Rightarrow> nat res" where
  "rightmost_loop 0 h pos = Inl OutOfFuel"
| "rightmost_loop (Suc fuel) h pos = rbind (rd_right h pos) (\<lambda>r. if r \<noteq> NIL then rightmost_loop fuel h r else Inr pos)"

fun begin_loop :: "nat \<Rightarrow> ('k, 'v) rheap \<Rightarrow> nat \<Rightarrow> nat \<Rightarrow> nat res" where
  "begin_loop 0 h t tmp = (if t \<noteq> NIL then Inl OutOfFuel else Inr tmp)"
| "begin_loop (Suc fuel) h t tmp = (if t \<noteq> NIL then rbind (rd_left h t) (\<lambda>l. begin_loop fuel h l t) else Inr tmp)"

fun rbegin_loop :: "nat \<Rightarrow> ('k, 'v) rheap \<Rightarrow> nat \<Rightarrow> nat \<Rightarrow> nat res" where
  "rbegin_loop 0 h t tmp = (if t \<noteq> NIL then Inl OutOfFuel else Inr tmp)"
| "rbegin_loop (Suc fuel) h t tmp = (if t \<noteq> NIL then rbind (rd_right h t) (\<lambda>r. rbegin_loop fuel h r t) else Inr tmp)"

definition rb_begin :: "('k, 'v) rheap \<Rightarrow> nat \<Rightarrow> nat res" where
  "rb_begin h self = rbind (rb_end h self) (\<lambda>tmp. rbind (rb_get_root h self) (\<lambda>t. begin_loop (rbrk h) h t tmp))"

definition rb_rbegin :: "('k, 'v) rheap \<Rightarrow> nat \<Rightarrow> nat res" where
  "rb_rbegin h self = rbind (rb_rend h self) (\<lambda>tmp. rbind (rb_get_root h self) (\<lambda>t. rbegin_loop (rbrk h) h t tmp))"

text \<open>Upwards while the node is a right (left) child.\<close>

fun climb_right_loop :: "nat \<Rightarrow> ('k, 'v) rheap \<Rightarrow> nat \<Rightarrow> nat res" where
  "climb_right_loop 0 h pos = Inl OutOfFuel"
| "climb_right_loop (Suc fuel) h pos = rbind (is_root h pos) (\<lambda>b. rbind (rd_parent h pos) (\<lambda>p.
     if b then Inr p else rbind (rd_right h p) (\<lambda>pr. if pos = pr then climb_right_loop fuel h p else Inr p)))"

fun climb_left_loop :: "nat \<Rightarrow> ('k, 'v) rheap \<Rightarrow> nat \<Rightarrow> nat res" where
  "climb_left_loop 0 h pos = Inl OutOfFuel"
| "climb_left_loop (Suc fuel) h pos = rbind (is_root h pos) (\<lambda>b. rbind (rd_parent h pos) (\<lambda>p.
     if b then Inr p else rbind (rd_left h p) (\<lambda>pl. if pos = pl then climb_left_loop fuel h p else Inr p)))"

definition rb_next :: "('k, 'v) rheap \<Rightarrow> nat \<Rightarrow> nat res" where
  "rb_next h pos = rbind (rd_right h pos) (\<lambda>r. if r \<noteq> NIL then leftmost_loop (rbrk h) h r else climb_right_loop (rbrk h) h pos)"

definition rb_prev :: "('k, 'v) rheap \<Rightarrow> nat \<Rightarrow> nat res" where
  "rb_prev h pos = rbind (rd_left h pos) (\<lambda>l. if l \<noteq> NIL then rightmost_loop (rbrk h) h l else climb_left_loop (rbrk h) h pos)"

fun rb_count_loop :: "nat \<Rightarrow> ('k, 'v) rheap \<Rightarrow> nat \<Rightarrow> nat \<Rightarrow> nat \<Rightarrow> nat res" where
  "rb_count_loop 0 h pos last' n = (if pos \<noteq> last' then Inl OutOfFuel else Inr n)"
| "rb_count_loop (Suc fuel) h pos last' n = (if pos \<noteq> last' then
     rbind (rb_next h pos) (\<lambda>q. rb_count_loop fuel h q last' (n + 1)) else Inr n)"

definition rb_count :: "('k \<Rightarrow> 'k \<Rightarrow> int) \<Rightarrow> ('k, 'v) rheap \<Rightarrow> nat \<Rightarrow> 'k \<Rightarrow> nat res" where
  "rb_count cmp h self k = rbind (rb_lower_bound cmp h self k) (\<lambda>first. rbind (rb_upper_bound cmp h self k) (\<lambda>last'.
     rb_count_loop (rbrk h) h first last' 0))"


subsection \<open>Moving subtrees\<close>

definition rb_replace_subtree :: "('k, 'v) rheap \<Rightarrow> nat \<Rightarrow> nat \<Rightarrow> (nat \<times> ('k, 'v) rheap) res" where
  "rb_replace_subtree h node t = rbind (rd_parent h node) (\<lambda>p. rbind (rb_relink h p node t) (\<lambda>h1. Inr (node, h1)))"

definition rb_swap_parent_child :: "('k, 'v) rheap \<Rightarrow> nat \<Rightarrow> nat \<Rightarrow> ('k, 'v) rheap res" where
  "rb_swap_parent_child h p c = rbind (rd_parent h p) (\<lambda>pp. rbind (rb_relink h pp p c) (\<lambda>h1.
     rbind (rd_left h1 c) (\<lambda>cl. rbind (rd_right h1 c) (\<lambda>cr.
     rbind (rd_left h1 p) (\<lambda>pl.
     rbind (if pl = c then rbind (rb_set_left h1 c p) (\<lambda>h2. rbind (rd_right h2 p) (rb_set_right h2 c))
       else rbind (rb_set_right h1 c p) (\<lambda>h2. rbind (rd_left h2 p) (rb_set_left h2 c))) (\<lambda>h3.
     rbind (rb_set_left h3 p cl) (\<lambda>h4. rb_set_right h4 p cr)))))))"

definition rb_swap_colors :: "('k, 'v) rheap \<Rightarrow> nat \<Rightarrow> nat \<Rightarrow> ('k, 'v) rheap res" where
  "rb_swap_colors h s t = rbind (rd_color h s) (\<lambda>c. rbind (rd_color h t) (\<lambda>d.
     rbind (wr_color h s d) (\<lambda>h1. wr_color h1 t c)))"

definition rb_swap :: "('k, 'v) rheap \<Rightarrow> nat \<Rightarrow> nat \<Rightarrow> ('k, 'v) rheap res" where
  "rb_swap h s t = rbind (rd_parent h t) (\<lambda>tp. rbind (rd_parent h s) (\<lambda>sp.
     rbind (if tp = s then rb_swap_parent_child h s t
       else if sp = t then rb_swap_parent_child h t s
       else rbind (rd_left h t) (\<lambda>tl. rbind (rd_right h t) (\<lambda>tr.
         rbind (rb_relink h sp s t) (\<lambda>h1.
         rbind (rd_left h1 s) (\<lambda>sl. rbind (rb_set_left h1 t sl) (\<lambda>h2.
         rbind (rd_right h2 s) (\<lambda>sr. rbind (rb_set_right h2 t sr) (\<lambda>h3.
         rbind (rb_relink h3 tp t s) (\<lambda>h4.
         rbind (rb_set_left h4 s tl) (\<lambda>h5. rb_set_right h5 s tr)))))))))) (\<lambda>h6.
     rb_swap_colors h6 s t)))"

definition rb_rotate_right :: "('k, 'v) rheap \<Rightarrow> nat \<Rightarrow> ('k, 'v) rheap res" where
  "rb_rotate_right h node = rbind (rd_parent h node) (\<lambda>p. rbind (rd_left h node) (\<lambda>n.
     rbind (rd_right h n) (\<lambda>nr. rbind (rb_set_left h node nr) (\<lambda>h1.
     rbind (rb_set_right h1 n node) (\<lambda>h2. rb_relink h2 p node n)))))"

definition rb_rotate_left :: "('k, 'v) rheap \<Rightarrow> nat \<Rightarrow> ('k, 'v) rheap res" where
  "rb_rotate_left h node = rbind (rd_parent h node) (\<lambda>p. rbind (rd_right h node) (\<lambda>n.
     rbind (rd_left h n) (\<lambda>nl. rbind (rb_set_right h node nl) (\<lambda>h1.
     rbind (rb_set_left h1 n node) (\<lambda>h2. rb_relink h2 p node n)))))"

definition rb_get_sibling :: "('k, 'v) rheap \<Rightarrow> nat \<Rightarrow> nat res" where
  "rb_get_sibling h node = rbind (rd_parent h node) (\<lambda>p. rbind (rd_left h p) (\<lambda>pl.
     if pl = node then rd_right h p else rd_left h p))"

definition rb_get_uncle :: "('k, 'v) rheap \<Rightarrow> nat \<Rightarrow> nat res" where
  "rb_get_uncle h node = rbind (rd_parent h node) (\<lambda>p. rbind (rd_parent h p) (\<lambda>g. rbind (rd_left h g) (\<lambda>gl.
     if gl = p then rd_right h g else rd_left h g)))"

subsection \<open>Inserting\<close>

text \<open>Case 4 turns a node that is an inner grandchild into an outer one, and exchanges \<open>n\<close> and \<open>p\<close>;
  case 5 follows it.\<close>

definition rb_insert_case4 :: "('k, 'v) rheap \<Rightarrow> nat \<Rightarrow> nat \<Rightarrow> nat \<Rightarrow> (nat \<times> ('k, 'v) rheap) res" where
  "rb_insert_case4 h n p g = rbind (rd_left h g) (\<lambda>gl. rbind (rd_right h p) (\<lambda>pr.
     if gl = p \<and> pr = n then rbind (rb_rotate_left h p) (\<lambda>h1. Inr (n, h1))
     else rbind (rd_right h g) (\<lambda>gr. rbind (rd_left h p) (\<lambda>pl.
       if gr = p \<and> pl = n then rbind (rb_rotate_right h p) (\<lambda>h1. Inr (n, h1)) else Inr (p, h)))))"

definition rb_insert_case5 :: "('k, 'v) rheap \<Rightarrow> nat \<Rightarrow> nat \<Rightarrow> ('k, 'v) rheap res" where
  "rb_insert_case5 h p g = rbind (rd_left h g) (\<lambda>gl. rbind (rd_right h g) (\<lambda>gr.
     rbind (if gl = p then rb_rotate_right h g else if gr = p then rb_rotate_left h g else Inr h) (\<lambda>h1.
     rbind (wr_color h1 p COLOR_BLACK) (\<lambda>h2. wr_color h2 g COLOR_RED))))"

fun rb_balance_for_insert :: "nat \<Rightarrow> ('k, 'v) rheap \<Rightarrow> nat \<Rightarrow> ('k, 'v) rheap res" where
  "rb_balance_for_insert 0 h n = Inl OutOfFuel"
| "rb_balance_for_insert (Suc fuel) h n = rbind (rd_parent h n) (\<lambda>p. rbind (is_root h n) (\<lambda>b.
     if b then wr_color h n COLOR_BLACK else
     rbind (rd_color h p) (\<lambda>pc. if pc = COLOR_BLACK then Inr h else
     rbind (rd_parent h p) (\<lambda>g. rbind (rb_get_uncle h n) (\<lambda>u. rbind (rd_color h u) (\<lambda>uc.
     if uc = COLOR_RED then
       rbind (wr_color h g COLOR_RED) (\<lambda>h1. rbind (wr_color h1 p COLOR_BLACK) (\<lambda>h2.
       rbind (wr_color h2 u COLOR_BLACK) (\<lambda>h3. rb_balance_for_insert fuel h3 g)))
     else rbind (rb_insert_case4 h n p g) (\<lambda>(p', h1). rb_insert_case5 h1 p' g)))))))"

text \<open>The search for the leaf; \<open>tmp\<close> is its parent.\<close>

fun rb_place_loop :: "('k \<Rightarrow> 'k \<Rightarrow> int) \<Rightarrow> nat \<Rightarrow> ('k, 'v) rheap \<Rightarrow> 'k \<Rightarrow> nat \<Rightarrow> nat res" where
  "rb_place_loop cmp 0 h k n = Inl OutOfFuel"
| "rb_place_loop cmp (Suc fuel) h k n = rbind (rd_key h n) (\<lambda>nk.
     rbind (if cmp k nk < 0 then rd_left h n else rd_right h n) (\<lambda>m.
     if m \<noteq> NIL then rb_place_loop cmp fuel h k m else Inr n))"

definition rb_insert :: "('k \<Rightarrow> 'k \<Rightarrow> int) \<Rightarrow> ('k, 'v) rheap \<Rightarrow> nat \<Rightarrow> nat \<Rightarrow> ('k, 'v) rheap res" where
  "rb_insert cmp h self node = rbind (rb_get_root h self) (\<lambda>n.
     if n = NIL then rbind (wr_color h node COLOR_BLACK) (\<lambda>h1. rb_set_root h1 self node)
     else rbind (rd_key h node) (\<lambda>k. rbind (rb_place_loop cmp (rbrk h) h k n) (\<lambda>tmp.
       rbind (rd_key h tmp) (\<lambda>tk.
       rbind (if cmp k tk < 0 then rb_set_left h tmp node else rb_set_right h tmp node) (\<lambda>h1.
       rb_balance_for_insert (rbrk h) h1 node)))))"

subsection \<open>Erasing\<close>

text \<open>Case 2: the sibling is red.  The result is the new sibling.\<close>

definition rb_erase_case2 :: "('k, 'v) rheap \<Rightarrow> nat \<Rightarrow> nat \<Rightarrow> nat \<Rightarrow> (nat \<times> ('k, 'v) rheap) res" where
  "rb_erase_case2 h n p s = rbind (wr_color h p COLOR_RED) (\<lambda>h1. rbind (wr_color h1 s COLOR_BLACK) (\<lambda>h2.
     rbind (rd_left h2 p) (\<lambda>pl. if pl = n then
       rbind (rb_rotate_left h2 p) (\<lambda>h3. rbind (rd_right h3 p) (\<lambda>s'. Inr (s', h3)))
     else rbind (rb_rotate_right h2 p) (\<lambda>h3. rbind (rd_left h3 p) (\<lambda>s'. Inr (s', h3))))))"

text \<open>Case 5: a red nephew is on the inner side.  The result is the new \<open>s\<close>, \<open>sl\<close> and \<open>sr\<close>.\<close>

definition rb_erase_case5 ::
  "('k, 'v) rheap \<Rightarrow> nat \<Rightarrow> nat \<Rightarrow> nat \<Rightarrow> nat \<Rightarrow> nat \<Rightarrow> ((nat \<times> nat \<times> nat) \<times> ('k, 'v) rheap) res" where
  "rb_erase_case5 h n p s sl sr = rbind (rd_left h p) (\<lambda>pl. rbind (rd_right h p) (\<lambda>pr.
     rbind (rd_color h sl) (\<lambda>slc. rbind (rd_color h sr) (\<lambda>src.
     if pl = n \<and> slc = COLOR_RED \<and> src = COLOR_BLACK then
       rbind (wr_color h sl COLOR_BLACK) (\<lambda>h1. rbind (wr_color h1 s COLOR_RED) (\<lambda>h2.
       rbind (rb_rotate_right h2 s) (\<lambda>h3. Inr ((sl, sl, s), h3))))
     else if pr = n \<and> slc = COLOR_BLACK \<and> src = COLOR_RED then
       rbind (wr_color h sr COLOR_BLACK) (\<lambda>h1. rbind (wr_color h1 s COLOR_RED) (\<lambda>h2.
       rbind (rb_rotate_left h2 s) (\<lambda>h3. Inr ((sr, s, sr), h3))))
     else Inr ((s, sl, sr), h)))))"

definition rb_erase_case6 ::
  "('k, 'v) rheap \<Rightarrow> nat \<Rightarrow> nat \<Rightarrow> nat \<Rightarrow> nat \<Rightarrow> nat \<Rightarrow> ('k, 'v) rheap res" where
  "rb_erase_case6 h n p s sl sr = rbind (rd_left h p) (\<lambda>pl. rbind (rd_right h p) (\<lambda>pr.
     rbind (rd_color h sl) (\<lambda>slc. rbind (rd_color h sr) (\<lambda>src.
     rbind (if pl = n \<and> src = COLOR_RED then rbind (wr_color h sr COLOR_BLACK) (\<lambda>h1. rb_rotate_left h1 p)
       else if pr = n \<and> slc = COLOR_RED then rbind (wr_color h sl COLOR_BLACK) (\<lambda>h1. rb_rotate_right h1 p)
       else Inr h) (\<lambda>h1. rb_swap_colors h1 p s)))))"

text \<open>The parent and the sibling of \<open>n\<close>, which may be the constant node.\<close>

definition rb_erase_sibling :: "('k, 'v) rheap \<Rightarrow> nat \<Rightarrow> nat \<Rightarrow> (nat \<times> nat) res" where
  "rb_erase_sibling h n p_of_n = (if n = NIL then
     rbind (rd_left h p_of_n) (\<lambda>pl. rbind (if n = pl then rd_right h p_of_n else rd_left h p_of_n) (\<lambda>s. Inr (p_of_n, s)))
   else rbind (rd_parent h n) (\<lambda>p. rbind (rb_get_sibling h n) (\<lambda>s. Inr (p, s))))"

fun rb_erase_loop :: "nat \<Rightarrow> ('k, 'v) rheap \<Rightarrow> nat \<Rightarrow> nat \<Rightarrow> ('k, 'v) rheap res" where
  "rb_erase_loop 0 h n p_of_n = Inl OutOfFuel"
| "rb_erase_loop (Suc fuel) h n p_of_n = rbind (is_root h n) (\<lambda>b. if b then wr_color h n COLOR_BLACK else
     rbind (rb_erase_sibling h n p_of_n) (\<lambda>(p, s0). rbind (rd_color h s0) (\<lambda>s0c.
     rbind (if s0c = COLOR_RED then rb_erase_case2 h n p s0 else Inr (s0, h)) (\<lambda>(s, h1).
     rbind (rd_left h1 s) (\<lambda>sl. rbind (rd_right h1 s) (\<lambda>sr.
     rbind (rd_color h1 p) (\<lambda>pc. rbind (rd_color h1 sl) (\<lambda>slc. rbind (rd_color h1 sr) (\<lambda>src.
     if pc = COLOR_BLACK \<and> slc = COLOR_BLACK \<and> src = COLOR_BLACK then
       rbind (wr_color h1 s COLOR_RED) (\<lambda>h2. rb_erase_loop fuel h2 p p_of_n)
     else if pc = COLOR_RED \<and> slc = COLOR_BLACK \<and> src = COLOR_BLACK then
       rbind (wr_color h1 p COLOR_BLACK) (\<lambda>h2. wr_color h2 s COLOR_RED)
     else rbind (rb_erase_case5 h1 n p s sl sr) (\<lambda>((s', sl', sr'), h2). rb_erase_case6 h2 n p s' sl' sr'))))))))))"

definition rb_balance_for_erase :: "('k, 'v) rheap \<Rightarrow> nat \<Rightarrow> nat \<Rightarrow> ('k, 'v) rheap res" where
  "rb_balance_for_erase h n p_of_n = rbind (rd_color h n) (\<lambda>c. if c = COLOR_RED then wr_color h n COLOR_BLACK
     else rb_erase_loop (rbrk h) h n p_of_n)"

definition rb_unlink :: "('k, 'v) rheap \<Rightarrow> nat \<Rightarrow> nat \<Rightarrow> ('k, 'v) rheap res" where
  "rb_unlink h self n = rbind (rd_left h n) (\<lambda>l. rbind (rd_right h n) (\<lambda>r.
     if l = NIL \<and> r = NIL then rbind (is_root h n) (\<lambda>b.
       if b then rb_set_root h self NIL
       else rbind (rb_replace_subtree h n NIL) (\<lambda>(n, h1). rbind (rd_color h1 n) (\<lambda>nc.
         if nc = COLOR_BLACK then rbind (rd_parent h1 n) (rb_balance_for_erase h1 NIL) else Inr h1)))
     else if l = NIL then
       rbind (rb_replace_subtree h n r) (\<lambda>(n, h1). rbind (rd_color h1 n) (\<lambda>nc.
         if nc = COLOR_BLACK then rbind (rd_right h1 n) (\<lambda>c. rb_balance_for_erase h1 c 0) else Inr h1))
     else if r = NIL then
       rbind (rb_replace_subtree h n l) (\<lambda>(n, h1). rbind (rd_color h1 n) (\<lambda>nc.
         if nc = COLOR_BLACK then rbind (rd_left h1 n) (\<lambda>c. rb_balance_for_erase h1 c 0) else Inr h1))
     else rbind (rightmost_loop (rbrk h) h l) (\<lambda>x. rbind (rb_swap h n x) (\<lambda>h1.
       rbind (rd_left h1 n) (\<lambda>nl. rbind (rb_replace_subtree h1 n nl) (\<lambda>(n, h2). rbind (rd_color h2 n) (\<lambda>nc.
         if nc = COLOR_BLACK then rbind (rd_left h2 n) (\<lambda>c. rbind (rd_parent h2 n) (rb_balance_for_erase h2 c)) else Inr h2)))))))"

definition rb_erase :: "('k, 'v) rheap \<Rightarrow> nat \<Rightarrow> nat \<Rightarrow> ('k, 'v) rheap res" where
  "rb_erase h self pos = rbind (rb_unlink h self pos) (\<lambda>h1. free_rb h1 pos)"

end
