(* ===== verification/Cstl_Rbtree_Shape.thy ===== *)
theory Cstl_Rbtree_Shape
  imports Cstl_Rbtree
begin

text \<open>
  What the heap of \<open>Cstl_Rbtree\<close> holds: a tree of nodes, or a subtree and its context, the way from it
  to the head.  The functions that change the tree are shown to change this picture only at one
  place, with the context kept; \<open>zip_up\<close> moves the place.
\<close>

subsection \<open>Trees and contexts\<close>

datatype rtree = Tip | Nd rtree nat rbcolor rtree

text \<open>A frame is a node above the place and its other subtree: the place is to the left of the node, or
  to the right.\<close>

datatype frame = LeftOf nat rbcolor rtree | RightOf rtree nat rbcolor

fun inorder :: "rtree \<Rightarrow> nat list" where
  "inorder Tip = []"
| "inorder (Nd l a c r) = inorder l @ a # inorder r"

fun troot :: "rtree \<Rightarrow> nat" where
  "troot Tip = NIL"
| "troot (Nd l a c r) = a"

fun tcol :: "rtree \<Rightarrow> rbcolor" where
  "tcol Tip = COLOR_BLACK"
| "tcol (Nd l a c r) = c"

fun plug1 :: "frame \<Rightarrow> rtree \<Rightarrow> rtree" where
  "plug1 (LeftOf a c r) t = Nd t a c r"
| "plug1 (RightOf l a c) t = Nd l a c t"

fun plug :: "frame list \<Rightarrow> rtree \<Rightarrow> rtree" where
  "plug [] t = t"
| "plug (f # C) t = plug C (plug1 f t)"

fun faddr :: "frame \<Rightarrow> nat" where
  "faddr (LeftOf a c r) = a"
| "faddr (RightOf l a c) = a"

fun fcol :: "frame \<Rightarrow> rbcolor" where
  "fcol (LeftOf a c r) = c"
| "fcol (RightOf l a c) = c"

definition paddr :: "nat \<Rightarrow> frame list \<Rightarrow> nat" where
  "paddr self C = (case C of [] \<Rightarrow> self | f # _ \<Rightarrow> faddr f)"

text \<open>The nodes of the context that come before and after those of the subtree.\<close>

fun cleft :: "frame list \<Rightarrow> nat list" where
  "cleft [] = []"
| "cleft (LeftOf a c r # C) = cleft C"
| "cleft (RightOf l a c # C) = cleft C @ inorder l @ [a]"

fun cright :: "frame list \<Rightarrow> nat list" where
  "cright [] = []"
| "cright (LeftOf a c r # C) = a # inorder r @ cright C"
| "cright (RightOf l a c # C) = cright C"

lemma inorder_plug: "inorder (plug C t) = cleft C @ inorder t @ cright C"
proof (induction C arbitrary: t)
  case (Cons f C)
  then show ?case by (cases f) auto
qed simp

lemma plug_append: "plug (C @ D) t = plug D (plug C t)"
  by (induction C arbitrary: t) auto

lemma paddr_simps [simp]: "paddr self [] = self" "paddr self (f # C) = faddr f"
  by (simp_all add: paddr_def)

lemma paddr_in: "paddr self C = self \<or> paddr self C \<in> set (cleft C) \<union> set (cright C)"
proof (cases C)
  case (Cons f D)
  then show ?thesis by (cases f) auto
qed simp

subsection \<open>Trees in the heap\<close>

definition node_at :: "('k, 'v) rheap \<Rightarrow> nat \<Rightarrow> nat \<Rightarrow> nat \<Rightarrow> rbcolor \<Rightarrow> nat \<Rightarrow> bool" where
  "node_at h q l a c r \<longleftrightarrow> rlive h a \<and> lft h a = l \<and> rgt h a = r \<and> par h a = q \<and> clr h a = c \<and> c \<noteq> COLOR_HEAD"

fun tree_at :: "('k, 'v) rheap \<Rightarrow> nat \<Rightarrow> rtree \<Rightarrow> bool" where
  "tree_at h q Tip \<longleftrightarrow> True"
| "tree_at h q (Nd l a c r) \<longleftrightarrow> node_at h q (troot l) a c (troot r) \<and> tree_at h a l \<and> tree_at h a r"

fun ctx_at :: "('k, 'v) rheap \<Rightarrow> nat \<Rightarrow> nat \<Rightarrow> frame list \<Rightarrow> bool" where
  "ctx_at h self x [] \<longleftrightarrow> rlive h self \<and> clr h self = COLOR_HEAD \<and> lft h self = NIL \<and> rgt h self = x"
| "ctx_at h self x (LeftOf a c r # C) \<longleftrightarrow>
     node_at h (paddr self C) x a c (troot r) \<and> tree_at h a r \<and> ctx_at h self a C"
| "ctx_at h self x (RightOf l a c # C) \<longleftrightarrow>
     node_at h (paddr self C) (troot l) a c x \<and> tree_at h a l \<and> ctx_at h self a C"

text \<open>The addresses of a tree and of its head are different, and none of them is \<open>NULL\<close> or \<open>NIL\<close>.\<close>

definition addrs_ok :: "('k, 'v) rheap \<Rightarrow> nat \<Rightarrow> nat list \<Rightarrow> bool" where
  "addrs_ok h self as \<longleftrightarrow> distinct (self # as) \<and> 0 \<notin> set (self # as) \<and> NIL \<notin> set (self # as) \<and>
     (\<forall>a \<in> set (self # as). a < rbrk h)"

definition zip_at :: "('k, 'v) rheap \<Rightarrow> nat \<Rightarrow> frame list \<Rightarrow> rtree \<Rightarrow> bool" where
  "zip_at h self C t \<longleftrightarrow> tree_at h (paddr self C) t \<and> ctx_at h self (troot t) C \<and>
     addrs_ok h self (cleft C @ inorder t @ cright C)"

abbreviation rb_at :: "('k, 'v) rheap \<Rightarrow> nat \<Rightarrow> rtree \<Rightarrow> bool" where
  "rb_at h self T \<equiv> zip_at h self [] T"

lemma zip_up: "zip_at h self (f # C) t \<longleftrightarrow> zip_at h self C (plug1 f t)"
  by (cases f) (auto simp: zip_at_def addrs_ok_def)

lemma zip_plug: "zip_at h self C t \<longleftrightarrow> rb_at h self (plug C t)"
proof (induction C arbitrary: t)
  case (Cons f C)
  then show ?case by (simp add: zip_up)
qed simp

lemma zip_same: "plug C t = plug D s \<Longrightarrow> zip_at h self C t \<Longrightarrow> zip_at h self D s"
  using zip_plug [of h self C t] zip_plug [of h self D s] by simp

text \<open>Two heaps that differ at most in the links and colours of the nodes \<open>A\<close>.\<close>

definition rb_keeps :: "nat set \<Rightarrow> ('k, 'v) rheap \<Rightarrow> ('k, 'v) rheap \<Rightarrow> bool" where
  "rb_keeps A h h' \<longleftrightarrow> nkey h' = nkey h \<and> nval h' = nval h \<and> rlive h' = rlive h \<and> rbrk h' = rbrk h \<and> rroom h' = rroom h \<and>
     (\<forall>x. x \<notin> A \<longrightarrow> lft h' x = lft h x \<and> rgt h' x = rgt h x \<and> par h' x = par h x \<and> clr h' x = clr h x)"

lemma keeps_refl [simp]: "rb_keeps A h h"
  by (simp add: rb_keeps_def)

lemma keeps_trans: "rb_keeps A h h1 \<Longrightarrow> rb_keeps A h1 h2 \<Longrightarrow> rb_keeps A h h2"
  by (simp add: rb_keeps_def)

lemma keeps_mono: "rb_keeps A h h' \<Longrightarrow> A \<subseteq> B \<Longrightarrow> rb_keeps B h h'"
  by (auto simp: rb_keeps_def)

definition at_node :: "('k, 'v) rheap \<Rightarrow> ('k, 'v) rheap \<Rightarrow> nat \<Rightarrow> bool" where
  "at_node h h' x \<longleftrightarrow> lft h' x = lft h x \<and> rgt h' x = rgt h x \<and> clr h' x = clr h x \<and> rlive h' x = rlive h x"

lemma tree_at_cong:
  assumes "tree_at h q t" "\<And>x. x \<in> set (inorder t) \<Longrightarrow> at_node h h' x \<and> par h' x = par h x"
  shows "tree_at h' q t"
  using assms by (induction t arbitrary: q) (auto simp: at_node_def node_at_def)

lemma tree_at_move:
  assumes "tree_at h q t" "distinct (inorder t)" "\<And>x. x \<in> set (inorder t) \<Longrightarrow> at_node h h' x"
    "\<And>x. x \<in> set (inorder t) \<Longrightarrow> x \<noteq> troot t \<Longrightarrow> par h' x = par h x" "t \<noteq> Tip \<Longrightarrow> par h' (troot t) = q'"
  shows "tree_at h' q' t"
proof (cases t)
  case (Nd l a c r)
  have "tree_at h' a l" "tree_at h' a r"
    using assms(1-4) unfolding Nd by (auto intro!: tree_at_cong [of h])
  then show ?thesis using assms(1,3,5) unfolding Nd by (auto simp: at_node_def node_at_def)
qed simp

lemma tree_at_live: "tree_at h q t \<Longrightarrow> x \<in> set (inorder t) \<Longrightarrow> rlive h x"
  by (induction t arbitrary: q) (auto simp: node_at_def)

lemma ctx_at_live: "ctx_at h self x C \<Longrightarrow> y \<in> insert self (set (cleft C) \<union> set (cright C)) \<Longrightarrow> rlive h y"
  by (induction h self x C rule: ctx_at.induct) (auto simp: node_at_def intro: tree_at_live)

lemma ctx_at_cong:
  assumes "ctx_at h self x C"
    "\<And>y. y \<in> insert self (set (cleft C) \<union> set (cright C)) \<Longrightarrow> at_node h h' y \<and> (y \<noteq> self \<longrightarrow> par h' y = par h y)"
    "self \<notin> set (cleft C) \<union> set (cright C)"
  shows "ctx_at h' self x C"
  using assms
proof (induction h self x C rule: ctx_at.induct)
  case (2 h self x a c r C)
  then have "tree_at h' a r" by (auto intro!: tree_at_cong [of h])
  then show ?case using 2 by (auto simp: at_node_def node_at_def)
next
  case (3 h self x l a c C)
  then have "tree_at h' a l" by (auto intro!: tree_at_cong [of h])
  then show ?case using 3 by (auto simp: at_node_def node_at_def)
qed (auto simp: at_node_def)


subsection \<open>Setting links\<close>

definition put_left :: "('k, 'v) rheap \<Rightarrow> nat \<Rightarrow> nat \<Rightarrow> ('k, 'v) rheap" where
  "put_left h a x = h\<lparr>lft := (lft h)(a := x), par := (if x = NIL then par h else (par h)(x := a))\<rparr>"

definition put_right :: "('k, 'v) rheap \<Rightarrow> nat \<Rightarrow> nat \<Rightarrow> ('k, 'v) rheap" where
  "put_right h a x = h\<lparr>rgt := (rgt h)(a := x), par := (if x = NIL then par h else (par h)(x := a))\<rparr>"

definition put_child :: "('k, 'v) rheap \<Rightarrow> nat \<Rightarrow> nat \<Rightarrow> nat \<Rightarrow> ('k, 'v) rheap" where
  "put_child h p a x = (if lft h p = a then put_left h p x else put_right h p x)"

lemma put_left_fields [simp]:
  "lft (put_left h a x) = (lft h)(a := x)" "rgt (put_left h a x) = rgt h" "clr (put_left h a x) = clr h"
  "par (put_left h a x) = (if x = NIL then par h else (par h)(x := a))" "rlive (put_left h a x) = rlive h"
  "nkey (put_left h a x) = nkey h" "nval (put_left h a x) = nval h" "rbrk (put_left h a x) = rbrk h" "rroom (put_left h a x) = rroom h"
  by (simp_all add: put_left_def)

lemma put_right_fields [simp]:
  "lft (put_right h a x) = lft h" "rgt (put_right h a x) = (rgt h)(a := x)" "clr (put_right h a x) = clr h"
  "par (put_right h a x) = (if x = NIL then par h else (par h)(x := a))" "rlive (put_right h a x) = rlive h"
  "nkey (put_right h a x) = nkey h" "nval (put_right h a x) = nval h" "rbrk (put_right h a x) = rbrk h" "rroom (put_right h a x) = rroom h"
  by (simp_all add: put_right_def)

lemma put_child_fields [simp]:
  "lft (put_child h p a x) = (if lft h p = a then (lft h)(p := x) else lft h)"
  "rgt (put_child h p a x) = (if lft h p = a then rgt h else (rgt h)(p := x))" "clr (put_child h p a x) = clr h"
  "par (put_child h p a x) = (if x = NIL then par h else (par h)(x := p))" "rlive (put_child h p a x) = rlive h"
  "nkey (put_child h p a x) = nkey h" "nval (put_child h p a x) = nval h" "rbrk (put_child h p a x) = rbrk h" "rroom (put_child h p a x) = rroom h"
  by (simp_all add: put_child_def)

lemma nread_live [simp]: "a \<noteq> NIL \<Longrightarrow> rlive h a \<Longrightarrow> nread h a n r = Inr r"
  by (simp add: nread_def nacc_def)

lemma nread_NIL [simp]: "nread h NIL n r = Inr n"
  by (simp add: nread_def)

lemma nacc_live [simp]: "a \<noteq> NIL \<Longrightarrow> rlive h a \<Longrightarrow> nacc h a r = Inr r"
  by (simp add: nacc_def)

lemma rb_set_left_eq [simp]:
  "a \<noteq> NIL \<Longrightarrow> rlive h a \<Longrightarrow> x = NIL \<or> rlive h x \<Longrightarrow> rb_set_left h a x = Inr (put_left h a x)"
  by (auto simp: rb_set_left_def put_left_def wr_left_def wr_parent_def)

lemma rb_set_right_eq [simp]:
  "a \<noteq> NIL \<Longrightarrow> rlive h a \<Longrightarrow> x = NIL \<or> rlive h x \<Longrightarrow> rb_set_right h a x = Inr (put_right h a x)"
  by (auto simp: rb_set_right_def put_right_def wr_right_def wr_parent_def)

lemma rb_set_root_eq [simp]:
  "a \<noteq> NIL \<Longrightarrow> rlive h a \<Longrightarrow> x = NIL \<or> rlive h x \<Longrightarrow> rb_set_root h a x = Inr (put_right h a x)"
  by (auto simp: rb_set_root_def put_right_def wr_right_def wr_parent_def)

lemma rb_relink_eq [simp]:
  "p \<noteq> NIL \<Longrightarrow> rlive h p \<Longrightarrow> x = NIL \<or> rlive h x \<Longrightarrow> rb_relink h p a x = Inr (put_child h p a x)"
  by (simp add: rb_relink_def rd_left_def put_child_def)

lemma keeps_put:
  assumes "rb_keeps A h h1" "a \<in> A" "x = NIL \<or> x \<in> A"
  shows "rb_keeps A h (put_left h1 a x)" "rb_keeps A h (put_right h1 a x)" "rb_keeps A h (put_child h1 a y x)"
  using assms by (auto simp: rb_keeps_def)

subsection \<open>Reading at a place\<close>

lemma addrs_okD:
  assumes "addrs_ok h self as"
  shows "distinct as" "self \<notin> set as" "self \<noteq> NIL" "self \<noteq> 0" "x \<in> set as \<Longrightarrow> x \<noteq> NIL" "x \<in> set as \<Longrightarrow> x \<noteq> 0"
    "x \<in> set as \<Longrightarrow> x < rbrk h" "x \<in> set as \<Longrightarrow> x \<noteq> self"
proof -
  show "distinct as" "self \<notin> set as" "self \<noteq> NIL" "self \<noteq> 0" using assms by (auto simp: addrs_ok_def)
  show "x \<noteq> NIL" "x \<noteq> 0" "x < rbrk h" "x \<noteq> self" if "x \<in> set as"
    using assms that unfolding addrs_ok_def by (metis list.set_intros distinct.simps(2))+
qed

lemma addrs_ok_same:
  "addrs_ok h self as \<Longrightarrow> set bs \<subseteq> set as \<Longrightarrow> distinct bs \<Longrightarrow> rbrk h' = rbrk h \<Longrightarrow> addrs_ok h' self bs"
  by (auto simp: addrs_ok_def)

lemma paddr_fact:
  assumes "ctx_at h self x C" "addrs_ok h self (cleft C @ as @ cright C)"
  shows "paddr self C \<noteq> NIL" "paddr self C \<noteq> 0" "rlive h (paddr self C)" "y \<in> set as \<Longrightarrow> y \<noteq> paddr self C"
    "paddr self C < rbrk h"
proof -
  have in_ctx: "paddr self C \<in> insert self (set (cleft C) \<union> set (cright C))" using paddr_in [of self C] by auto
  show "paddr self C \<noteq> NIL" "paddr self C \<noteq> 0" "paddr self C < rbrk h" "y \<in> set as \<Longrightarrow> y \<noteq> paddr self C"
    using in_ctx assms(2) by (auto simp: addrs_ok_def)
  show "rlive h (paddr self C)" using ctx_at_live [OF assms(1) in_ctx] .
qed

lemma zip_node:
  assumes "zip_at h self C (Nd l a c r)"
  shows "rlive h a" "a \<noteq> NIL" "a \<noteq> 0" "a < rbrk h" "lft h a = troot l" "rgt h a = troot r" "par h a = paddr self C" "clr h a = c"
    "c \<noteq> COLOR_HEAD" "a \<noteq> self"
  using assms by (auto simp: zip_at_def node_at_def addrs_ok_def)

lemma zip_reads:
  assumes "zip_at h self C (Nd l a c r)"
  shows "rd_left h a = Inr (troot l)" "rd_right h a = Inr (troot r)" "rd_parent h a = Inr (paddr self C)"
    "rd_color h a = Inr c" "rd_key h a = Inr (nkey h a)"
  using zip_node [OF assms] by (simp_all add: rd_left_def rd_right_def rd_parent_def rd_color_def rd_key_def)

lemma tree_color: "tree_at h q t \<Longrightarrow> NIL \<notin> set (inorder t) \<Longrightarrow> rd_color h (troot t) = Inr (tcol t)"
  by (cases t) (auto simp: rd_color_def node_at_def)

lemma zip_color_read: "zip_at h self C t \<Longrightarrow> rd_color h (troot t) = Inr (tcol t)"
  by (rule tree_color [of h "paddr self C"]) (auto simp: zip_at_def addrs_ok_def)

lemma zip_parent_color:
  assumes "zip_at h self C t"
  shows "rd_color h (paddr self C) = Inr (case C of [] \<Rightarrow> COLOR_HEAD | f # D \<Rightarrow> fcol f)"
proof (cases C)
  case Nil
  then show ?thesis using assms by (auto simp: zip_at_def addrs_ok_def rd_color_def)
next
  case (Cons f D)
  then have "zip_at h self D (plug1 f t)" using assms by (simp add: zip_up)
  then show ?thesis using Cons zip_reads(4) by (cases f) auto
qed

lemma zip_frame_head: "zip_at h self (f # C) t \<Longrightarrow> fcol f \<noteq> COLOR_HEAD"
  unfolding zip_up by (cases f) (auto dest: zip_node(9))

lemma zip_is_root:
  assumes "zip_at h self C (Nd l a c r)"
  shows "is_root h a = Inr (C = [])"
proof (cases C)
  case Nil
  then show ?thesis using zip_reads(3) [OF assms] zip_parent_color [OF assms] by (simp add: is_root_def is_head_def)
next
  case (Cons f D)
  then have "fcol f \<noteq> COLOR_HEAD" using zip_frame_head assms by blast
  then show ?thesis using zip_reads(3) [OF assms] zip_parent_color [OF assms] Cons by (simp add: is_root_def is_head_def)
qed

text \<open>The links of the parent.\<close>

lemma zip_parent_links:
  assumes "zip_at h self (f # C) t"
  shows "rd_left h (faddr f) = Inr (case f of LeftOf a c r \<Rightarrow> troot t | RightOf l a c \<Rightarrow> troot l)"
    "rd_right h (faddr f) = Inr (case f of LeftOf a c r \<Rightarrow> troot r | RightOf l a c \<Rightarrow> troot t)"
    "rd_parent h (faddr f) = Inr (paddr self C)" "rd_color h (faddr f) = Inr (fcol f)" "faddr f \<noteq> NIL"
  using assms unfolding zip_up by (cases f; auto simp: zip_reads zip_node)+

lemma zip_left_self: "zip_at h self [] t \<Longrightarrow> lft h self = NIL \<and> rgt h self = troot t \<and> rd_left h self = Inr NIL \<and> rd_right h self = Inr (troot t)"
  by (auto simp: zip_at_def addrs_ok_def rd_left_def rd_right_def)

text \<open>Which child of its parent a subtree is can be told by its address.\<close>

lemma zip_side:
  assumes "zip_at h self (RightOf l p c # C) t" "t \<noteq> Tip \<or> l \<noteq> Tip"
  shows "troot l \<noteq> troot t"
  using assms by (cases l; cases t) (auto simp: zip_at_def addrs_ok_def)

lemma zip_side':
  assumes "zip_at h self (LeftOf p c r # C) t" "t \<noteq> Tip \<or> r \<noteq> Tip"
  shows "troot r \<noteq> troot t"
  using assms by (cases r; cases t) (auto simp: zip_at_def addrs_ok_def)

subsection \<open>Changing at a place\<close>

text \<open>The node above the place, changed in its link to the place only.\<close>

lemma ctx_frame_change:
  assumes "ctx_at h self x (f # D)" "addrs_ok h self (cleft (f # D) @ cright (f # D))"
    and same: "\<And>y. y \<in> insert self (set (cleft (f # D)) \<union> set (cright (f # D))) \<Longrightarrow> y \<noteq> faddr f \<Longrightarrow>
      at_node h h' y \<and> (y \<noteq> self \<longrightarrow> par h' y = par h y)"
    and "rlive h' (faddr f)" "par h' (faddr f) = par h (faddr f)" "clr h' (faddr f) = clr h (faddr f)"
    and "case f of LeftOf a c r \<Rightarrow> lft h' a = b \<and> rgt h' a = rgt h a | RightOf l a c \<Rightarrow> lft h' a = lft h a \<and> rgt h' a = b"
  shows "ctx_at h' self b (f # D)"
proof -
  have self: "self \<notin> set (cleft D) \<union> set (cright D)" using assms(2) by (cases f) (auto simp: addrs_ok_def)
  have ctx: "ctx_at h' self (faddr f) D"
  proof (rule ctx_at_cong [OF _ _ self])
    show "ctx_at h self (faddr f) D" using assms(1) by (cases f) auto
    fix y assume y: "y \<in> insert self (set (cleft D) \<union> set (cright D))"
    then have "y \<noteq> faddr f" "y \<in> insert self (set (cleft (f # D)) \<union> set (cright (f # D)))"
      using assms(2) by (cases f; auto simp: addrs_ok_def)+
    then show "at_node h h' y \<and> (y \<noteq> self \<longrightarrow> par h' y = par h y)" using same by blast
  qed
  have tree: "tree_at h' (faddr f) t"
    if t: "tree_at h (faddr f) t" "set (inorder t) \<subseteq> set (cleft (f # D)) \<union> set (cright (f # D))" "faddr f \<notin> set (inorder t)" for t
  proof (rule tree_at_cong [OF t(1)])
    fix y assume y: "y \<in> set (inorder t)"
    then have "y \<noteq> faddr f" "y \<noteq> self" "y \<in> insert self (set (cleft (f # D)) \<union> set (cright (f # D)))"
      using t(2,3) assms(2) by (auto simp: addrs_ok_def)
    then show "at_node h h' y \<and> par h' y = par h y" using same by blast
  qed
  show ?thesis
  proof (cases f)
    case (LeftOf a c r)
    have "tree_at h' a r" using tree [of r] assms(1,2) LeftOf by (auto simp: addrs_ok_def)
    then show ?thesis using assms(1,4-7) ctx LeftOf by (simp add: node_at_def)
  next
    case (RightOf l a c)
    have "tree_at h' a l" using tree [of l] assms(1,2) RightOf by (auto simp: addrs_ok_def)
    then show ?thesis using assms(1,4-7) ctx RightOf by (simp add: node_at_def)
  qed
qed

text \<open>The parent's link, set as \<open>rb_relink\<close> does.\<close>

lemma ctx_put_child:
  assumes "ctx_at h self x C" "x \<noteq> NIL" "x \<notin> insert self (set (cleft C) \<union> set (cright C))"
    "b \<notin> insert self (set (cleft C) \<union> set (cright C))" "addrs_ok h self (cleft C @ cright C)"
    and same: "\<And>y. y \<in> insert self (set (cleft C) \<union> set (cright C)) \<Longrightarrow> at_node h h' y \<and> (y \<noteq> self \<longrightarrow> par h' y = par h y)"
  shows "ctx_at (put_child h' (paddr self C) x b) self b C"
proof (cases C)
  case Nil
  then show ?thesis using assms by (auto simp: at_node_def)
next
  case (Cons f D)
  let ?p = "faddr f" and ?h = "put_child h' (faddr f) x b"
  have p: "at_node h h' ?p" "par h' ?p = par h ?p" "rlive h ?p" "?p \<noteq> b"
  proof -
    have "?p \<in> set (cleft C) \<union> set (cright C)" using Cons by (cases f) auto
    then show "at_node h h' ?p" "par h' ?p = par h ?p" "rlive h ?p" "?p \<noteq> b"
      using same [of ?p] ctx_at_live [OF assms(1), of ?p] assms(4,5) by (auto simp: addrs_ok_def)
  qed
  have "ctx_at ?h self b (f # D)"
  proof (rule ctx_frame_change [of h])
    show "ctx_at h self x (f # D)" "addrs_ok h self (cleft (f # D) @ cright (f # D))" using assms(1,5) Cons by simp_all
    fix y assume y: "y \<in> insert self (set (cleft (f # D)) \<union> set (cright (f # D)))" "y \<noteq> ?p"
    then have "y \<noteq> b" "at_node h h' y \<and> (y \<noteq> self \<longrightarrow> par h' y = par h y)" using assms(4) same Cons by auto
    then show "at_node h ?h y \<and> (y \<noteq> self \<longrightarrow> par ?h y = par h y)" using y(2) by (simp add: at_node_def)
  next
    show "case f of LeftOf a c r \<Rightarrow> lft ?h a = b \<and> rgt ?h a = rgt h a | RightOf l a c \<Rightarrow> lft ?h a = lft h a \<and> rgt ?h a = b"
    proof (cases f)
      case (LeftOf a c r)
      then show ?thesis using p(1) assms(1) Cons by (auto simp: at_node_def node_at_def)
    next
      case (RightOf l a c)
      then have "lft h a = troot l" "troot l \<noteq> x" using assms(1-3) Cons by (cases l; auto simp: node_at_def)+
      then show ?thesis using p(1) RightOf by (auto simp: at_node_def)
    qed
  qed (use p in \<open>auto simp: at_node_def\<close>)
  then show ?thesis using Cons by simp
qed


lemma zip_change:
  assumes "zip_at h self C t" "t \<noteq> Tip" "set (inorder t') \<subseteq> set (inorder t)" "distinct (inorder t')" "rbrk h2 = rbrk h"
    and same: "\<And>y. y \<in> insert self (set (cleft C) \<union> set (cright C)) \<Longrightarrow> at_node h h2 y \<and> (y \<noteq> self \<longrightarrow> par h2 y = par h y)"
    and "tree_at (put_child h2 (paddr self C) (troot t) (troot t')) (paddr self C) t'"
  shows "zip_at (put_child h2 (paddr self C) (troot t) (troot t')) self C t'"
proof -
  have ok: "addrs_ok h self (cleft C @ inorder t @ cright C)" and ctx: "ctx_at h self (troot t) C"
    using assms(1) by (auto simp: zip_at_def)
  have "troot t \<in> set (inorder t)" using assms(2) by (cases t) auto
  then have x: "troot t \<noteq> NIL" "troot t \<notin> insert self (set (cleft C) \<union> set (cright C))"
    using ok by (auto simp: addrs_ok_def)
  have b: "troot t' \<notin> insert self (set (cleft C) \<union> set (cright C))"
  proof (cases "t' = Tip")
    case True
    then show ?thesis using ok by (auto simp: addrs_ok_def)
  next
    case False
    then have "troot t' \<in> set (inorder t')" by (cases t') auto
    then show ?thesis using ok assms(3) by (auto simp: addrs_ok_def)
  qed
  have "addrs_ok h self (cleft C @ cright C)" by (rule addrs_ok_same [OF ok]) (use ok in \<open>auto simp: addrs_ok_def\<close>)
  from ctx_put_child [OF ctx x b this same] have "ctx_at (put_child h2 (paddr self C) (troot t) (troot t')) self (troot t') C" .
  moreover have "addrs_ok (put_child h2 (paddr self C) (troot t) (troot t')) self (cleft C @ inorder t' @ cright C)"
    by (rule addrs_ok_same [OF ok]) (use ok assms(3-5) in \<open>auto simp: addrs_ok_def\<close>)
  ultimately show ?thesis using assms(7) by (simp add: zip_at_def)
qed

definition nodes :: "nat \<Rightarrow> frame list \<Rightarrow> rtree \<Rightarrow> nat set" where
  "nodes self C t = insert self (set (inorder (plug C t)))"

lemma nodes_plug1: "nodes self (f # C) t = nodes self C (plug1 f t)"
  by (simp add: nodes_def)

lemma nodes_at: "nodes self C t = insert self (set (cleft C) \<union> set (inorder t) \<union> set (cright C))"
  by (auto simp: nodes_def inorder_plug)

lemma paddr_nodes: "paddr self C \<in> nodes self C t"
  using paddr_in [of self C] by (auto simp: nodes_at)

lemma troot_in: "t = Tip \<and> troot t = NIL \<or> troot t \<in> set (inorder t)"
  by (cases t) auto

lemma zip_outside:
  assumes "zip_at h self C t" "y \<in> insert self (set (cleft C) \<union> set (cright C))"
  shows "y \<notin> set (inorder t) \<and> y \<noteq> NIL"
  using assms by (auto simp: zip_at_def addrs_ok_def)

text \<open>Recolouring.\<close>

lemma zip_recolor:
  assumes "zip_at h self C (Nd l a c r)" "c' \<noteq> COLOR_HEAD"
  shows "\<exists>h'. wr_color h a c' = Inr h' \<and> zip_at h' self C (Nd l a c' r) \<and> rb_keeps (nodes self C (Nd l a c r)) h h'"
proof -
  let ?h = "h\<lparr>clr := (clr h)(a := c')\<rparr>"
  note node = zip_node [OF assms(1)]
  have ok: "addrs_ok h self (cleft C @ inorder (Nd l a c r) @ cright C)" using assms(1) by (simp add: zip_at_def)
  have other: "at_node h ?h x \<and> par ?h x = par h x" if "x \<noteq> a" for x using that by (simp add: at_node_def)
  have sub: "tree_at ?h a t" if "tree_at h a t" "a \<notin> set (inorder t)" for t
    by (rule tree_at_cong [OF that(1)]) (use that(2) other in metis)
  have notin: "a \<notin> set (inorder l)" "a \<notin> set (inorder r)" "a \<notin> insert self (set (cleft C) \<union> set (cright C))"
    "self \<notin> set (cleft C) \<union> set (cright C)" using ok by (auto simp: addrs_ok_def)
  have "tree_at ?h a l" "tree_at ?h a r" using sub notin assms(1) by (simp_all add: zip_at_def)
  moreover have "ctx_at h self a C" using assms(1) by (simp add: zip_at_def)
  then have "ctx_at ?h self a C"
  proof (rule ctx_at_cong)
    fix y assume "y \<in> insert self (set (cleft C) \<union> set (cright C))"
    then have "y \<noteq> a" using notin(3) by blast
    then show "at_node h ?h y \<and> (y \<noteq> self \<longrightarrow> par ?h y = par h y)" using other by blast
  qed (rule notin(4))
  ultimately have "zip_at ?h self C (Nd l a c' r)"
    using assms ok by (auto simp: zip_at_def node_at_def addrs_ok_def)
  moreover have "rb_keeps (nodes self C (Nd l a c r)) h ?h" by (auto simp: rb_keeps_def nodes_at)
  moreover have "wr_color h a c' = Inr ?h" using node by (simp add: wr_color_def)
  ultimately show ?thesis by blast
qed

text \<open>Rotating.\<close>

lemma zip_rotate_left:
  assumes "zip_at h self C (Nd l a c (Nd l2 b d r2))"
  shows "\<exists>h'. rb_rotate_left h a = Inr h' \<and> zip_at h' self C (Nd (Nd l a c l2) b d r2) \<and>
    rb_keeps (nodes self C (Nd l a c (Nd l2 b d r2))) h h'"
proof -
  let ?t = "Nd l a c (Nd l2 b d r2)" and ?t' = "Nd (Nd l a c l2) b d r2" and ?p = "paddr self C"
  let ?h1 = "put_right h a (troot l2)"
  let ?h2 = "put_left ?h1 b a"
  let ?h = "put_child ?h2 ?p (troot ?t) (troot ?t')"
  have ok: "addrs_ok h self (cleft C @ inorder ?t @ cright C)" and ctx: "ctx_at h self a C" and tree: "tree_at h ?p ?t"
    using assms by (auto simp: zip_at_def)
  note p = paddr_fact [OF ctx ok]
  have dis: "distinct (inorder l @ a # inorder l2 @ b # inorder r2)" using ok by (auto simp: addrs_ok_def)
  have ne: "a \<noteq> NIL" "b \<noteq> NIL" "?p \<noteq> a" "?p \<noteq> b" using p(4) ok by (auto simp: addrs_ok_def)
  have l2: "troot l2 = NIL \<or> troot l2 \<in> set (inorder l2)" using troot_in [of l2] by auto
  have live: "rlive h a" "rlive h b" "troot l2 = NIL \<or> rlive h (troot l2)"
    using tree l2 by (auto simp: node_at_def intro: tree_at_live)
  have run: "rb_rotate_left h a = Inr ?h"
    using tree ne live p(1,3) by (simp add: rb_rotate_left_def rd_parent_def rd_right_def rd_left_def node_at_def)
  have sub: "at_node h ?h x" if "x \<in> set (inorder l) \<union> set (inorder l2) \<union> set (inorder r2)" for x
  proof -
    have "x \<noteq> a" "x \<noteq> b" "x \<noteq> ?p" using that dis p(4) [of x] by auto
    then show ?thesis by (simp add: at_node_def)
  qed
  have subp: "par ?h x = par h x" if "x \<in> set (inorder l) \<union> set (inorder l2) \<union> set (inorder r2)" "x \<noteq> troot l2" for x
  proof -
    have "x \<noteq> a" "x \<noteq> b" using that dis by auto
    then show ?thesis using that(2) ne by simp
  qed
  have parl2: "par ?h (troot l2) = a" if "l2 \<noteq> Tip"
  proof -
    have "troot l2 \<in> set (inorder l2)" using that by (cases l2) auto
    then have "troot l2 \<noteq> a" "troot l2 \<noteq> b" "troot l2 \<noteq> NIL" using dis ok by (auto simp: addrs_ok_def)
    then show ?thesis using ne by simp
  qed
  have "tree_at ?h a l"
  proof (rule tree_at_cong)
    fix x assume x: "x \<in> set (inorder l)"
    then have "x \<noteq> troot l2" using l2 dis ok by (auto simp: addrs_ok_def)
    then show "at_node h ?h x \<and> par ?h x = par h x" using sub [of x] subp [of x] x by blast
  qed (use tree in simp)
  moreover have "tree_at ?h b r2"
  proof (rule tree_at_cong)
    fix x assume x: "x \<in> set (inorder r2)"
    then have "x \<noteq> troot l2" using l2 dis ok by (auto simp: addrs_ok_def)
    then show "at_node h ?h x \<and> par ?h x = par h x" using sub [of x] subp [of x] x by blast
  qed (use tree in simp)
  moreover have "tree_at ?h a l2"
    by (rule tree_at_move [of h b]) (use tree dis sub subp parl2 in auto)
  moreover have "node_at ?h b (troot l) a c (troot l2)" "node_at ?h ?p a b d (troot r2)"
  proof -
    have "a \<noteq> b" "a \<noteq> troot l2 \<or> troot l2 = NIL" "b \<noteq> troot l2 \<or> troot l2 = NIL" using dis l2 by auto
    then show "node_at ?h b (troot l) a c (troot l2)" "node_at ?h ?p a b d (troot r2)"
      using tree ne by (auto simp: node_at_def)
  qed
  ultimately have "tree_at ?h ?p ?t'" by simp
  then have "zip_at ?h self C ?t'"
  proof (rule zip_change [OF assms, rotated -1])
    fix y assume y: "y \<in> insert self (set (cleft C) \<union> set (cright C))"
    note out = zip_outside [OF assms this]
    then have "y \<noteq> a" "y \<noteq> b" "y \<noteq> troot l2" using l2 by auto
    then show "at_node h ?h2 y \<and> (y \<noteq> self \<longrightarrow> par ?h2 y = par h y)" by (simp add: at_node_def)
  qed (use dis in auto)
  moreover have "rb_keeps (nodes self C ?t) h ?h"
  proof -
    have "troot l2 = NIL \<or> troot l2 \<in> nodes self C ?t" "a \<in> nodes self C ?t" "b \<in> nodes self C ?t" "?p \<in> nodes self C ?t"
      using l2 paddr_nodes by (auto simp: nodes_at)
    then show ?thesis by (intro keeps_put keeps_refl) simp_all
  qed
  ultimately show ?thesis using run by blast
qed

lemma zip_rotate_right:
  assumes "zip_at h self C (Nd (Nd r2 b d l2) a c l)"
  shows "\<exists>h'. rb_rotate_right h a = Inr h' \<and> zip_at h' self C (Nd r2 b d (Nd l2 a c l)) \<and>
    rb_keeps (nodes self C (Nd (Nd r2 b d l2) a c l)) h h'"
proof -
  let ?t = "Nd (Nd r2 b d l2) a c l" and ?t' = "Nd r2 b d (Nd l2 a c l)" and ?p = "paddr self C"
  let ?h1 = "put_left h a (troot l2)"
  let ?h2 = "put_right ?h1 b a"
  let ?h = "put_child ?h2 ?p (troot ?t) (troot ?t')"
  have ok: "addrs_ok h self (cleft C @ inorder ?t @ cright C)" and ctx: "ctx_at h self a C" and tree: "tree_at h ?p ?t"
    using assms by (auto simp: zip_at_def)
  note p = paddr_fact [OF ctx ok]
  have dis: "distinct (inorder r2 @ b # inorder l2 @ a # inorder l)" using ok by (auto simp: addrs_ok_def)
  have ne: "a \<noteq> NIL" "b \<noteq> NIL" "?p \<noteq> a" "?p \<noteq> b" using p(4) ok by (auto simp: addrs_ok_def)
  have l2: "troot l2 = NIL \<or> troot l2 \<in> set (inorder l2)" using troot_in [of l2] by auto
  have live: "rlive h a" "rlive h b" "troot l2 = NIL \<or> rlive h (troot l2)"
    using tree l2 by (auto simp: node_at_def intro: tree_at_live)
  have run: "rb_rotate_right h a = Inr ?h"
    using tree ne live p(1,3) by (simp add: rb_rotate_right_def rd_parent_def rd_right_def rd_left_def node_at_def)
  have sub: "at_node h ?h x" if "x \<in> set (inorder l) \<union> set (inorder l2) \<union> set (inorder r2)" for x
  proof -
    have "x \<noteq> a" "x \<noteq> b" "x \<noteq> ?p" using that dis p(4) [of x] by auto
    then show ?thesis by (simp add: at_node_def)
  qed
  have subp: "par ?h x = par h x" if "x \<in> set (inorder l) \<union> set (inorder l2) \<union> set (inorder r2)" "x \<noteq> troot l2" for x
  proof -
    have "x \<noteq> a" "x \<noteq> b" using that dis by auto
    then show ?thesis using that(2) ne by simp
  qed
  have parl2: "par ?h (troot l2) = a" if "l2 \<noteq> Tip"
  proof -
    have "troot l2 \<in> set (inorder l2)" using that by (cases l2) auto
    then have "troot l2 \<noteq> a" "troot l2 \<noteq> b" "troot l2 \<noteq> NIL" using dis ok by (auto simp: addrs_ok_def)
    then show ?thesis using ne by simp
  qed
  have "tree_at ?h a l"
  proof (rule tree_at_cong)
    fix x assume x: "x \<in> set (inorder l)"
    then have "x \<noteq> troot l2" using l2 dis ok by (auto simp: addrs_ok_def)
    then show "at_node h ?h x \<and> par ?h x = par h x" using sub [of x] subp [of x] x by blast
  qed (use tree in simp)
  moreover have "tree_at ?h b r2"
  proof (rule tree_at_cong)
    fix x assume x: "x \<in> set (inorder r2)"
    then have "x \<noteq> troot l2" using l2 dis ok by (auto simp: addrs_ok_def)
    then show "at_node h ?h x \<and> par ?h x = par h x" using sub [of x] subp [of x] x by blast
  qed (use tree in simp)
  moreover have "tree_at ?h a l2"
    by (rule tree_at_move [of h b]) (use tree dis sub subp parl2 in auto)
  moreover have "node_at ?h b (troot l2) a c (troot l)" "node_at ?h ?p (troot r2) b d a"
  proof -
    have "a \<noteq> b" "a \<noteq> troot l2 \<or> troot l2 = NIL" "b \<noteq> troot l2 \<or> troot l2 = NIL" using dis l2 by auto
    then show "node_at ?h b (troot l2) a c (troot l)" "node_at ?h ?p (troot r2) b d a"
      using tree ne by (auto simp: node_at_def)
  qed
  ultimately have "tree_at ?h ?p ?t'" by simp
  then have "zip_at ?h self C ?t'"
  proof (rule zip_change [OF assms, rotated -1])
    fix y assume y: "y \<in> insert self (set (cleft C) \<union> set (cright C))"
    note out = zip_outside [OF assms this]
    then have "y \<noteq> a" "y \<noteq> b" "y \<noteq> troot l2" using l2 by auto
    then show "at_node h ?h2 y \<and> (y \<noteq> self \<longrightarrow> par ?h2 y = par h y)" by (simp add: at_node_def)
  qed (use dis in auto)
  moreover have "rb_keeps (nodes self C ?t) h ?h"
  proof -
    have "troot l2 = NIL \<or> troot l2 \<in> nodes self C ?t" "a \<in> nodes self C ?t" "b \<in> nodes self C ?t" "?p \<in> nodes self C ?t"
      using l2 paddr_nodes by (auto simp: nodes_at)
    then show ?thesis by (intro keeps_put keeps_refl) simp_all
  qed
  ultimately show ?thesis using run by blast
qed

text \<open>Replacing the place by one of its subtrees, or by nothing.\<close>

lemma zip_replace:
  assumes "zip_at h self C (Nd l a c r)" "t' = l \<or> t' = r \<or> t' = Tip"
  shows "rb_relink h (paddr self C) a (troot t') = Inr (put_child h (paddr self C) a (troot t'))"
    "zip_at (put_child h (paddr self C) a (troot t')) self C t'"
    "rb_keeps (nodes self C (Nd l a c r)) h (put_child h (paddr self C) a (troot t'))"
proof -
  let ?t = "Nd l a c r" and ?p = "paddr self C"
  let ?h = "put_child h ?p a (troot t')"
  have ok: "addrs_ok h self (cleft C @ inorder ?t @ cright C)" and ctx: "ctx_at h self a C" and tree: "tree_at h ?p ?t"
    using assms(1) by (auto simp: zip_at_def)
  note p = paddr_fact [OF ctx ok]
  have in_t: "t' = Tip \<and> troot t' = NIL \<or> troot t' \<in> set (inorder t')" by (rule troot_in)
  have sub: "set (inorder t') \<subseteq> set (inorder ?t)" "distinct (inorder t')" "tree_at h a t'"
    using assms(2) ok tree by (auto simp: addrs_ok_def)
  have live: "troot t' = NIL \<or> rlive h (troot t')" using in_t tree_at_live [OF sub(3)] by auto
  then show "rb_relink h ?p a (troot t') = Inr ?h" using p by simp
  have "tree_at ?h ?p t'"
  proof (rule tree_at_move [OF sub(3,2)])
    fix x assume "x \<in> set (inorder t')"
    then have "x \<noteq> ?p" using p(4) sub(1) by auto
    then show "at_node h ?h x" by (simp add: at_node_def)
  next
    assume "t' \<noteq> Tip"
    then have "troot t' \<noteq> NIL" using in_t sub(1) ok by (auto simp: addrs_ok_def)
    then show "par ?h (troot t') = ?p" by simp
  qed (simp add: at_node_def)
  then show "zip_at ?h self C t'"
    using zip_change [OF assms(1) _ sub(1,2), of h] by (simp add: at_node_def)
  have "troot t' = NIL \<or> troot t' \<in> nodes self C ?t" using in_t sub(1) by (auto simp: nodes_at)
  then show "rb_keeps (nodes self C ?t) h ?h" using paddr_nodes [of self C ?t] by (auto simp: rb_keeps_def)
qed

end
