(* ===== verification/Cstl_Rbtree_Insert.thy ===== *)
theory Cstl_Rbtree_Insert
  imports Cstl_Rbtree_Shape
begin

text \<open>
  Insertion into the red-black tree.  \<open>bal_ins\<close> is \<open>RBTree_balance_for_insert\<close> on trees and contexts; the
  heap is shown to follow it, and it to keep the order of the nodes and to restore the colour rules.
\<close>

subsection \<open>Moving about in the heap\<close>

text \<open>The heap has come from \<open>h0\<close> by changes within the nodes \<open>A\<close> of the tree only.\<close>

definition rbz :: "('k, 'v) rheap \<Rightarrow> nat set \<Rightarrow> nat \<Rightarrow> frame list \<Rightarrow> rtree \<Rightarrow> ('k, 'v) rheap \<Rightarrow> bool" where
  "rbz h0 A self C t h \<longleftrightarrow> zip_at h self C t \<and> nodes self C t = A \<and> rb_keeps A h0 h"

lemma rbz_start: "zip_at h self C t \<Longrightarrow> rbz h (nodes self C t) self C t h"
  by (simp add: rbz_def)

lemma rbz_zip: "rbz h0 A self C t h \<Longrightarrow> zip_at h self C t"
  by (simp add: rbz_def)

lemma rbz_same:
  assumes "rbz h0 A self C t h" "plug C t = plug D s"
  shows "rbz h0 A self D s h"
  unfolding rbz_def nodes_def
proof (intro conjI)
  show "zip_at h self D s" by (rule zip_same [OF assms(2) rbz_zip [OF assms(1)]])
qed (use assms in \<open>simp_all add: rbz_def nodes_def\<close>)

lemma rbz_step:
  assumes "rbz h0 A self C t h" "zip_at h' self C t'" "rb_keeps (nodes self C t) h h'" "set (inorder t') = set (inorder t)"
  shows "rbz h0 A self C t' h'"
  using assms keeps_trans [of A h0 h h'] by (auto simp: rbz_def nodes_at)

lemma rbz_recolor:
  assumes "rbz h0 A self C (Nd l a c r) h" "c' \<noteq> COLOR_HEAD"
  shows "\<exists>h'. wr_color h a c' = Inr h' \<and> rbz h0 A self C (Nd l a c' r) h'"
  using zip_recolor [OF rbz_zip [OF assms(1)] assms(2)] rbz_step [OF assms(1), of _ "Nd l a c' r"] by auto

lemma rbz_rotate_left:
  assumes "rbz h0 A self C (Nd l a c (Nd l2 b d r2)) h"
  shows "\<exists>h'. rb_rotate_left h a = Inr h' \<and> rbz h0 A self C (Nd (Nd l a c l2) b d r2) h'"
  using zip_rotate_left [OF rbz_zip [OF assms(1)]] rbz_step [OF assms(1), of _ "Nd (Nd l a c l2) b d r2"] by auto

lemma rbz_rotate_right:
  assumes "rbz h0 A self C (Nd (Nd l b d r2) a c r) h"
  shows "\<exists>h'. rb_rotate_right h a = Inr h' \<and> rbz h0 A self C (Nd l b d (Nd r2 a c r)) h'"
  using zip_rotate_right [OF rbz_zip [OF assms(1)]] rbz_step [OF assms(1), of _ "Nd l b d (Nd r2 a c r)"] by auto

subsection \<open>Balancing on trees\<close>

fun blacken :: "rtree \<Rightarrow> rtree" where
  "blacken Tip = Tip"
| "blacken (Nd l a c r) = Nd l a COLOR_BLACK r"

fun fother :: "frame \<Rightarrow> rtree" where
  "fother (LeftOf a c r) = r"
| "fother (RightOf l a c) = l"

fun fpaint :: "rbcolor \<Rightarrow> frame \<Rightarrow> frame" where
  "fpaint c (LeftOf a d r) = LeftOf a c r"
| "fpaint c (RightOf l a d) = RightOf l a c"

fun fblacken :: "frame \<Rightarrow> frame" where
  "fblacken (LeftOf a c r) = LeftOf a c (blacken r)"
| "fblacken (RightOf l a c) = RightOf (blacken l) a c"

text \<open>Cases 4 and 5.\<close>

fun ins_rotate :: "frame \<Rightarrow> frame \<Rightarrow> rtree \<Rightarrow> rtree" where
  "ins_rotate (LeftOf p c b) (LeftOf g d u) t = Nd t p COLOR_BLACK (Nd b g COLOR_RED u)"
| "ins_rotate (RightOf b p c) (LeftOf g d u) (Nd l n e r) = Nd (Nd b p c l) n COLOR_BLACK (Nd r g COLOR_RED u)"
| "ins_rotate (LeftOf p c b) (RightOf u g d) (Nd l n e r) = Nd (Nd u g COLOR_RED l) n COLOR_BLACK (Nd r p c b)"
| "ins_rotate (RightOf b p c) (RightOf u g d) t = Nd (Nd u g COLOR_RED b) p COLOR_BLACK t"
| "ins_rotate f g Tip = plug1 g (plug1 f Tip)"

fun bal_ins :: "frame list \<Rightarrow> rtree \<Rightarrow> rtree" where
  "bal_ins [] t = blacken t"
| "bal_ins [f] t = plug1 f t"
| "bal_ins (f # g # C) t = (if fcol f = COLOR_BLACK then plug (f # g # C) t
     else if tcol (fother g) = COLOR_RED then bal_ins C (plug1 (fblacken (fpaint COLOR_RED g)) (plug1 (fpaint COLOR_BLACK f) t))
     else plug C (ins_rotate f g t))"

subsection \<open>The heap follows\<close>

text \<open>The colour of the parent, and that of the sibling.\<close>

lemma rbz_paint_parent:
  assumes "rbz h0 A self (f # C) t h" "c \<noteq> COLOR_HEAD"
  shows "\<exists>h'. wr_color h (faddr f) c = Inr h' \<and> rbz h0 A self (fpaint c f # C) t h'"
proof (cases f)
  case (LeftOf a d r)
  have "rbz h0 A self C (Nd t a d r) h" by (rule rbz_same [OF assms(1)]) (simp add: LeftOf)
  from rbz_recolor [OF this assms(2)] rbz_same [of h0 A self C "Nd t a c r" _ "fpaint c f # C" t] show ?thesis
    by (auto simp: LeftOf)
next
  case (RightOf l a d)
  have "rbz h0 A self C (Nd l a d t) h" by (rule rbz_same [OF assms(1)]) (simp add: RightOf)
  from rbz_recolor [OF this assms(2)] rbz_same [of h0 A self C "Nd l a c t" _ "fpaint c f # C" t] show ?thesis
    by (auto simp: RightOf)
qed

lemma rbz_blacken_other:
  assumes "rbz h0 A self (f # C) t h" "fother f \<noteq> Tip"
  shows "\<exists>h'. wr_color h (troot (fother f)) COLOR_BLACK = Inr h' \<and> rbz h0 A self (fblacken f # C) t h'"
proof -
  obtain l u c r where u: "fother f = Nd l u c r" using assms(2) by (cases "fother f") auto
  define D where "D = (case f of LeftOf a d x \<Rightarrow> RightOf t a d | RightOf x a d \<Rightarrow> LeftOf a d t) # C"
  have "plug (f # C) t = plug D (Nd l u c r)" "plug (fblacken f # C) t = plug D (Nd l u COLOR_BLACK r)"
    using u by (cases f; simp add: D_def)+
  then have 1: "rbz h0 A self D (Nd l u c r) h" and 2: "\<And>h. rbz h0 A self D (Nd l u COLOR_BLACK r) h \<Longrightarrow> rbz h0 A self (fblacken f # C) t h"
    using rbz_same [OF assms(1)] rbz_same by metis+
  from rbz_recolor [OF 1, of COLOR_BLACK] 2 u show ?thesis by auto
qed


lemma insert_case5_left:
  assumes "rbz h0 A self C (Nd (Nd x p c y) g d u) h"
  shows "\<exists>h'. rb_insert_case5 h p g = Inr h' \<and> rbz h0 A self C (Nd x p COLOR_BLACK (Nd y g COLOR_RED u)) h'"
proof -
  note reads = zip_reads [OF rbz_zip [OF assms]]
  from rbz_rotate_right [OF assms] obtain h1 where
    h1: "rb_rotate_right h g = Inr h1" "rbz h0 A self C (Nd x p c (Nd y g d u)) h1" by auto
  from rbz_recolor [OF h1(2), of COLOR_BLACK] obtain h2 where
    h2: "wr_color h1 p COLOR_BLACK = Inr h2" "rbz h0 A self C (Nd x p COLOR_BLACK (Nd y g d u)) h2" by auto
  have "rbz h0 A self (RightOf x p COLOR_BLACK # C) (Nd y g d u) h2" by (rule rbz_same [OF h2(2)]) simp
  from rbz_recolor [OF this, of COLOR_RED] obtain h3 where
    h3: "wr_color h2 g COLOR_RED = Inr h3" "rbz h0 A self (RightOf x p COLOR_BLACK # C) (Nd y g COLOR_RED u) h3" by auto
  have "rbz h0 A self C (Nd x p COLOR_BLACK (Nd y g COLOR_RED u)) h3" by (rule rbz_same [OF h3(2)]) simp
  with reads(1,2) h1(1) h2(1) h3(1) show ?thesis by (simp add: rb_insert_case5_def)
qed

lemma insert_case5_right:
  assumes "rbz h0 A self C (Nd u g d (Nd x p c y)) h"
  shows "\<exists>h'. rb_insert_case5 h p g = Inr h' \<and> rbz h0 A self C (Nd (Nd u g COLOR_RED x) p COLOR_BLACK y) h'"
proof -
  note reads = zip_reads [OF rbz_zip [OF assms]]
  have side: "troot u \<noteq> p" using zip_side [of h self u g d C "Nd x p c y"] rbz_zip [OF assms] by (simp add: zip_up)
  from rbz_rotate_left [OF assms] obtain h1 where
    h1: "rb_rotate_left h g = Inr h1" "rbz h0 A self C (Nd (Nd u g d x) p c y) h1" by auto
  from rbz_recolor [OF h1(2), of COLOR_BLACK] obtain h2 where
    h2: "wr_color h1 p COLOR_BLACK = Inr h2" "rbz h0 A self C (Nd (Nd u g d x) p COLOR_BLACK y) h2" by auto
  have "rbz h0 A self (LeftOf p COLOR_BLACK y # C) (Nd u g d x) h2" by (rule rbz_same [OF h2(2)]) simp
  from rbz_recolor [OF this, of COLOR_RED] obtain h3 where
    h3: "wr_color h2 g COLOR_RED = Inr h3" "rbz h0 A self (LeftOf p COLOR_BLACK y # C) (Nd u g COLOR_RED x) h3" by auto
  have "rbz h0 A self C (Nd (Nd u g COLOR_RED x) p COLOR_BLACK y) h3" by (rule rbz_same [OF h3(2)]) simp
  with reads(1,2) h1(1) h2(1) h3(1) side show ?thesis by (simp add: rb_insert_case5_def)
qed

lemma insert_rotate_heap:
  assumes "rbz h0 A self (f # g # C) (Nd l n c r) h"
  shows "\<exists>p' h1 h2. rb_insert_case4 h n (faddr f) (faddr g) = Inr (p', h1) \<and> rb_insert_case5 h1 p' (faddr g) = Inr h2 \<and>
    rbz h0 A self C (ins_rotate f g (Nd l n c r)) h2"
proof -
  let ?t = "Nd l n c r"
  note z = rbz_zip [OF assms]
  have zg: "zip_at h self (g # C) (plug1 f ?t)" using z by (simp add: zip_up)
  note pl = zip_parent_links [OF z] and gl = zip_parent_links [OF zg]
  show ?thesis
  proof (cases g)
    case (LeftOf ga d u)
    have up: "troot u \<noteq> faddr f" using zip_side' [of h self ga d u C "plug1 f ?t"] zg by (cases f) (auto simp: LeftOf)
    show ?thesis
    proof (cases f)
      case f: (LeftOf p e b)
      have "troot b \<noteq> n" using zip_side' [of h self p e b "g # C" ?t] z by (simp add: f)
      then have c4: "rb_insert_case4 h n p ga = Inr (p, h)" using pl gl up by (simp add: rb_insert_case4_def f LeftOf)
      have "rbz h0 A self C (Nd (Nd ?t p e b) ga d u) h" by (rule rbz_same [OF assms]) (simp add: f LeftOf)
      from insert_case5_left [OF this] c4 show ?thesis by (auto simp: f LeftOf)
    next
      case f: (RightOf b p e)
      have "rbz h0 A self (g # C) (Nd b p e ?t) h" by (rule rbz_same [OF assms]) (simp add: f)
      from rbz_rotate_left [OF this] obtain h1 where
        h1: "rb_rotate_left h p = Inr h1" "rbz h0 A self (g # C) (Nd (Nd b p e l) n c r) h1" by auto
      have c4: "rb_insert_case4 h n p ga = Inr (n, h1)" using pl gl h1(1) by (simp add: rb_insert_case4_def f LeftOf)
      have "rbz h0 A self C (Nd (Nd (Nd b p e l) n c r) ga d u) h1" by (rule rbz_same [OF h1(2)]) (simp add: LeftOf)
      from insert_case5_left [OF this] c4 show ?thesis by (auto simp: f LeftOf)
    qed
  next
    case (RightOf u ga d)
    have up: "troot u \<noteq> faddr f" using zip_side [of h self u ga d C "plug1 f ?t"] zg by (cases f) (auto simp: RightOf)
    show ?thesis
    proof (cases f)
      case f: (LeftOf p e b)
      have "rbz h0 A self (g # C) (Nd ?t p e b) h" by (rule rbz_same [OF assms]) (simp add: f)
      from rbz_rotate_right [OF this] obtain h1 where
        h1: "rb_rotate_right h p = Inr h1" "rbz h0 A self (g # C) (Nd l n c (Nd r p e b)) h1" by auto
      have c4: "rb_insert_case4 h n p ga = Inr (n, h1)" using pl gl up h1(1) by (simp add: rb_insert_case4_def f RightOf)
      have "rbz h0 A self C (Nd u ga d (Nd l n c (Nd r p e b))) h1" by (rule rbz_same [OF h1(2)]) (simp add: RightOf)
      from insert_case5_right [OF this] c4 show ?thesis by (auto simp: f RightOf)
    next
      case f: (RightOf b p e)
      have "troot b \<noteq> n" using zip_side [of h self b p e "g # C" ?t] z by (simp add: f)
      then have c4: "rb_insert_case4 h n p ga = Inr (p, h)" using pl gl up by (simp add: rb_insert_case4_def f RightOf)
      have "rbz h0 A self C (Nd u ga d (Nd b p e ?t)) h" by (rule rbz_same [OF assms]) (simp add: f RightOf)
      from insert_case5_right [OF this] c4 show ?thesis by (auto simp: f RightOf)
    qed
  qed
qed

text \<open>The whole loop.\<close>

lemma balance_for_insert_heap:
  assumes "rbz h0 A self C (Nd l n c r) h" "length C < fuel" "C \<noteq> [] \<Longrightarrow> fcol (last C) = COLOR_BLACK"
  shows "\<exists>h'. rb_balance_for_insert fuel h n = Inr h' \<and> rbz h0 A self [] (bal_ins C (Nd l n c r)) h'"
  using assms
proof (induction C "Nd l n c r" arbitrary: fuel h l n c r rule: bal_ins.induct)
  case 1
  obtain f where fuel: "fuel = Suc f" using 1(2) by (cases fuel) auto
  note z = rbz_zip [OF 1(1)]
  from rbz_recolor [OF 1(1), of COLOR_BLACK] zip_reads(3) [OF z] zip_is_root [OF z] show ?case
    by (auto simp: fuel)
next
  case (2 f)
  obtain fl where fuel: "fuel = Suc fl" using 2(2) by (cases fuel) auto
  note z = rbz_zip [OF 2(1)]
  have "rb_balance_for_insert fuel h n = Inr h"
    using zip_reads(3) [OF z] zip_is_root [OF z] zip_parent_color [OF z] 2(3) by (simp add: fuel)
  moreover have "rbz h0 A self [] (bal_ins [f] (Nd l n c r)) h" by (rule rbz_same [OF 2(1)]) simp
  ultimately show ?case by blast
next
  case (3 f g C)
  let ?t = "Nd l n c r"
  obtain fl where fuel: "fuel = Suc fl" using 3(3) by (cases fuel) auto
  note z = rbz_zip [OF 3(2)]
  have zg: "zip_at h self (g # C) (plug1 f ?t)" using z by (simp add: zip_up)
  note pl = zip_parent_links [OF z] and gl = zip_parent_links [OF zg]
  have n: "rd_parent h n = Inr (faddr f)" "is_root h n = Inr False"
    using zip_reads(3) [OF z] zip_is_root [OF z] by simp_all
  show ?case
  proof (cases "fcol f = COLOR_BLACK")
    case True
    have "rb_balance_for_insert fuel h n = Inr h" using n pl(4) True by (simp add: fuel)
    moreover have "rbz h0 A self [] (bal_ins (f # g # C) ?t) h" by (rule rbz_same [OF 3(2)]) (simp add: True)
    ultimately show ?thesis by blast
  next
    case False
    have uncle: "rb_get_uncle h n = Inr (troot (fother g))"
    proof (cases g)
      case (LeftOf ga d u)
      then show ?thesis using n(1) pl(3) gl by (cases f) (auto simp: rb_get_uncle_def)
    next
      case (RightOf u ga d)
      have "troot u \<noteq> faddr f" using zip_side [of h self u ga d C "plug1 f ?t"] zg by (cases f) (auto simp: RightOf)
      then show ?thesis using RightOf n(1) pl(3) gl by (cases f) (auto simp: rb_get_uncle_def)
    qed
    have ucol: "rd_color h (troot (fother g)) = Inr (tcol (fother g))"
      by (rule tree_color [of h "faddr g"]; use zg in \<open>cases g; auto simp: zip_at_def addrs_ok_def\<close>)
    show ?thesis
    proof (cases "tcol (fother g) = COLOR_RED")
      case True
      have u: "fother (fpaint COLOR_RED g) = fother g" "faddr (fpaint COLOR_RED g) = faddr g" by (cases g; simp)+
      have "rbz h0 A self (g # C) (plug1 f ?t) h" by (rule rbz_same [OF 3(2)]) simp
      from rbz_paint_parent [OF this, of COLOR_RED] obtain h1 where
        h1: "wr_color h (faddr g) COLOR_RED = Inr h1" "rbz h0 A self (fpaint COLOR_RED g # C) (plug1 f ?t) h1" by auto
      have "rbz h0 A self (f # fpaint COLOR_RED g # C) ?t h1" by (rule rbz_same [OF h1(2)]) simp
      from rbz_paint_parent [OF this, of COLOR_BLACK] obtain h2 where
        h2: "wr_color h1 (faddr f) COLOR_BLACK = Inr h2" "rbz h0 A self (fpaint COLOR_BLACK f # fpaint COLOR_RED g # C) ?t h2" by auto
      have "rbz h0 A self (fpaint COLOR_RED g # C) (plug1 (fpaint COLOR_BLACK f) ?t) h2" by (rule rbz_same [OF h2(2)]) simp
      moreover have "fother (fpaint COLOR_RED g) \<noteq> Tip" using True u by auto
      ultimately obtain h3 where
        h3: "wr_color h2 (troot (fother g)) COLOR_BLACK = Inr h3"
          "rbz h0 A self (fblacken (fpaint COLOR_RED g) # C) (plug1 (fpaint COLOR_BLACK f) ?t) h3"
        using rbz_blacken_other u by metis
      obtain gl' gr' where gt: "plug1 (fblacken (fpaint COLOR_RED g)) (plug1 (fpaint COLOR_BLACK f) ?t) = Nd gl' (faddr g) COLOR_RED gr'"
        by (cases g) auto
      have "rbz h0 A self C (Nd gl' (faddr g) COLOR_RED gr') h3" by (rule rbz_same [OF h3(2)]) (simp add: gt [symmetric])
      moreover have "length C < fl" "C \<noteq> [] \<Longrightarrow> fcol (last C) = COLOR_BLACK" using 3(3,4) fuel by auto
      ultimately obtain h' where
        h': "rb_balance_for_insert fl h3 (faddr g) = Inr h'" "rbz h0 A self [] (bal_ins C (Nd gl' (faddr g) COLOR_RED gr')) h'"
        using 3(1) [OF \<open>fcol f \<noteq> COLOR_BLACK\<close> True gt] by blast
      have "rb_balance_for_insert fuel h n = Inr h'"
        using n pl(3,4) uncle ucol True \<open>fcol f \<noteq> COLOR_BLACK\<close> h1(1) h2(1) h3(1) h'(1) by (simp add: fuel)
      then show ?thesis using h'(2) True \<open>fcol f \<noteq> COLOR_BLACK\<close> gt by auto
    next
      case black: False
      from insert_rotate_heap [OF 3(2)] obtain p' h1 h2 where
        rot: "rb_insert_case4 h n (faddr f) (faddr g) = Inr (p', h1)" "rb_insert_case5 h1 p' (faddr g) = Inr h2"
          "rbz h0 A self C (ins_rotate f g ?t) h2" by blast
      have "rb_balance_for_insert fuel h n = Inr h2"
        using n pl(3,4) uncle ucol black False rot(1,2) by (simp add: fuel)
      moreover have "rbz h0 A self [] (bal_ins (f # g # C) ?t) h2" by (rule rbz_same [OF rot(3)]) (simp add: False black)
      ultimately show ?thesis by blast
    qed
  qed
qed

end
