(* ===== verification/Cstl_Rbtree_Order.thy ===== *)
theory Cstl_Rbtree_Order
  imports Cstl_Rbtree_Insert Comparison
begin

text \<open>
  The rules of colours and of order, and insertion as a whole: a red-black tree in ascending order
  stays one, and the new node comes after all nodes whose keys are not greater.
\<close>

subsection \<open>The colour rules\<close>

text \<open>A tree of black height \<open>n\<close>, without a red child of a red node.\<close>

fun rb_tree :: "rtree \<Rightarrow> nat \<Rightarrow> bool" where
  "rb_tree Tip n \<longleftrightarrow> n = 0"
| "rb_tree (Nd l a c r) n \<longleftrightarrow> (case c of
     COLOR_RED \<Rightarrow> rb_tree l n \<and> rb_tree r n \<and> tcol l = COLOR_BLACK \<and> tcol r = COLOR_BLACK
   | COLOR_BLACK \<Rightarrow> 0 < n \<and> rb_tree l (n - 1) \<and> rb_tree r (n - 1)
   | COLOR_HEAD \<Rightarrow> False)"

definition red_black :: "rtree \<Rightarrow> bool" where
  "red_black T \<longleftrightarrow> tcol T = COLOR_BLACK \<and> (\<exists>n. rb_tree T n)"

text \<open>A context that makes a red-black tree of every tree of black height \<open>n\<close> and colour \<open>c\<close>.\<close>

fun rb_ctx :: "frame list \<Rightarrow> rbcolor \<Rightarrow> nat \<Rightarrow> bool" where
  "rb_ctx [] c n \<longleftrightarrow> c = COLOR_BLACK"
| "rb_ctx (f # C) c n \<longleftrightarrow> rb_tree (fother f) n \<and> (case fcol f of
     COLOR_RED \<Rightarrow> c = COLOR_BLACK \<and> tcol (fother f) = COLOR_BLACK \<and> rb_ctx C COLOR_RED n
   | COLOR_BLACK \<Rightarrow> rb_ctx C COLOR_BLACK (Suc n)
   | COLOR_HEAD \<Rightarrow> False)"

lemma rb_tree_colors: "rb_tree t n \<Longrightarrow> tcol t = COLOR_RED \<or> tcol t = COLOR_BLACK"
  by (cases t; cases "tcol t") auto

lemma rb_plug: "red_black (plug C t) \<longleftrightarrow> (\<exists>n. rb_tree t n \<and> rb_ctx C (tcol t) n)"
proof (induction C arbitrary: t)
  case Nil
  then show ?case by (auto simp: red_black_def)
next
  case (Cons f C)
  have "(\<exists>n. rb_tree (plug1 f t) n \<and> rb_ctx C (tcol (plug1 f t)) n) \<longleftrightarrow> (\<exists>n. rb_tree t n \<and> rb_ctx (f # C) (tcol t) n)"
  proof (cases "fcol f")
    case COLOR_BLACK
    show ?thesis
    proof
      assume "\<exists>n. rb_tree (plug1 f t) n \<and> rb_ctx C (tcol (plug1 f t)) n"
      then obtain n where "rb_tree (plug1 f t) n" "rb_ctx C COLOR_BLACK n" using COLOR_BLACK by (cases f) auto
      then have "rb_tree t (n - 1) \<and> rb_ctx (f # C) (tcol t) (n - 1)" using COLOR_BLACK by (cases f) auto
      then show "\<exists>n. rb_tree t n \<and> rb_ctx (f # C) (tcol t) n" by blast
    next
      assume "\<exists>n. rb_tree t n \<and> rb_ctx (f # C) (tcol t) n"
      then obtain n where "rb_tree t n" "rb_ctx (f # C) (tcol t) n" by blast
      then have "rb_tree (plug1 f t) (Suc n) \<and> rb_ctx C (tcol (plug1 f t)) (Suc n)" using COLOR_BLACK by (cases f) auto
      then show "\<exists>n. rb_tree (plug1 f t) n \<and> rb_ctx C (tcol (plug1 f t)) n" by blast
    qed
  qed (cases f; auto)+
  then show ?case using Cons by simp
qed

lemma rb_tree_blacken: "rb_tree t n \<Longrightarrow> tcol t = COLOR_RED \<Longrightarrow> rb_tree (blacken t) (Suc n)"
  by (cases t) auto

lemma rb_ctx_black: "rb_ctx C c n \<Longrightarrow> rb_ctx C COLOR_BLACK n"
  by (cases C; cases "fcol (hd C)") auto

lemma bal_ins_red_black:
  assumes "rb_tree l n" "rb_tree r n" "tcol l = COLOR_BLACK" "tcol r = COLOR_BLACK" "rb_ctx C COLOR_BLACK n"
  shows "red_black (bal_ins C (Nd l x COLOR_RED r))"
  using assms
proof (induction C "Nd l x COLOR_RED r" arbitrary: n l x r rule: bal_ins.induct)
  case 1
  then have "rb_tree (Nd l x COLOR_BLACK r) (Suc n)" by simp
  then show ?case by (auto simp: red_black_def)
next
  case (2 f)
  then have "fcol f = COLOR_BLACK" by (cases "fcol f") auto
  with 2 have "rb_tree (plug1 f (Nd l x COLOR_RED r)) (Suc n)" "tcol (plug1 f (Nd l x COLOR_RED r)) = COLOR_BLACK"
    by (cases f; simp)+
  then show ?case by (auto simp: red_black_def)
next
  case (3 f g C)
  let ?t = "Nd l x COLOR_RED r"
  have t: "rb_tree ?t n" "tcol ?t = COLOR_RED" using 3 by simp_all
  show ?case
  proof (cases "fcol f = COLOR_BLACK")
    case True
    then have "rb_ctx (f # g # C) (tcol ?t) n" using 3(6) by simp
    then have "red_black (plug (f # g # C) ?t)" using rb_plug t(1) by blast
    then show ?thesis using True by simp
  next
    case False
    with 3(6) have f: "fcol f = COLOR_RED" "rb_tree (fother f) n" "tcol (fother f) = COLOR_BLACK" "rb_ctx (g # C) COLOR_RED n"
      by (cases "fcol f"; simp)+
    then have g: "fcol g = COLOR_BLACK" "rb_tree (fother g) n" "rb_ctx C COLOR_BLACK (Suc n)"
      by (cases "fcol g"; simp)+
    show ?thesis
    proof (cases "tcol (fother g) = COLOR_RED")
      case True
      let ?p = "plug1 (fpaint COLOR_BLACK f) ?t"
      have p: "rb_tree ?p (Suc n)" "tcol ?p = COLOR_BLACK" using t f by (cases f; simp)+
      have u: "rb_tree (blacken (fother g)) (Suc n)" "tcol (blacken (fother g)) = COLOR_BLACK"
        using rb_tree_blacken [OF g(2) True] True by (cases "fother g"; simp)+
      obtain gl gr where gt: "plug1 (fblacken (fpaint COLOR_RED g)) ?p = Nd gl (faddr g) COLOR_RED gr"
        "rb_tree gl (Suc n)" "rb_tree gr (Suc n)" "tcol gl = COLOR_BLACK" "tcol gr = COLOR_BLACK"
        using p u by (cases g) auto
      from 3(1) [OF False True gt(1-5) g(3)] show ?thesis using False True gt(1) by simp
    next
      case black: False
      then have u: "tcol (fother g) = COLOR_BLACK" using rb_tree_colors [OF g(2)] by blast
      have "rb_tree (ins_rotate f g ?t) (Suc n)" "tcol (ins_rotate f g ?t) = COLOR_BLACK"
        using 3(2-5) f g u by (cases f; cases g; simp)+
      then have "red_black (plug C (ins_rotate f g ?t))" using rb_plug g(3) by metis
      then show ?thesis using False black by simp
    qed
  qed
qed

lemma inorder_plug1: "inorder (plug1 f t) = cleft [f] @ inorder t @ cright [f]"
  by (cases f) auto

lemma inorder_blacken [simp]: "inorder (blacken t) = inorder t"
  by (cases t) auto

lemma inorder_bal_ins: "inorder (bal_ins C t) = inorder (plug C t)"
proof (induction C t rule: bal_ins.induct)
  case (3 f g C t)
  have rec: "inorder (plug1 (fblacken (fpaint COLOR_RED g)) (plug1 (fpaint COLOR_BLACK f) t)) = inorder (plug1 g (plug1 f t))"
    by (cases f; cases g) auto
  have rot: "inorder (ins_rotate f g t) = inorder (plug1 g (plug1 f t))"
    by (cases f; cases g; cases t) auto
  show ?case using 3 rec rot by (auto simp: inorder_plug)
qed auto

subsection \<open>Finding the place\<close>

text \<open>The keys of the nodes, in their order, ascend.\<close>

definition in_order :: "('k \<Rightarrow> 'k \<Rightarrow> int) \<Rightarrow> (nat \<Rightarrow> 'k) \<Rightarrow> nat list \<Rightarrow> bool" where
  "in_order cmp key as \<longleftrightarrow> sorted_wrt (\<lambda>x y. cmp (key x) (key y) \<le> 0) as"

lemma in_order_append:
  "in_order cmp key (xs @ ys) \<longleftrightarrow> in_order cmp key xs \<and> in_order cmp key ys \<and> (\<forall>x \<in> set xs. \<forall>y \<in> set ys. cmp (key x) (key y) \<le> 0)"
  by (auto simp: in_order_def sorted_wrt_append)

lemma in_order_Cons:
  "in_order cmp key (x # ys) \<longleftrightarrow> in_order cmp key ys \<and> (\<forall>y \<in> set ys. cmp (key x) (key y) \<le> 0)"
  by (auto simp: in_order_def)

text \<open>A test that, once true of a node, is true of the later ones splits them in two.\<close>

definition splits :: "(nat \<Rightarrow> bool) \<Rightarrow> nat list \<Rightarrow> nat list \<Rightarrow> bool" where
  "splits P xs ys \<longleftrightarrow> (\<forall>x \<in> set xs. \<not> P x) \<and> (\<forall>y \<in> set ys. P y)"

lemma splits_filter: "splits P xs ys \<Longrightarrow> filter (\<lambda>x. \<not> P x) (xs @ ys) = xs \<and> filter P (xs @ ys) = ys"
  by (auto simp: splits_def filter_id_conv filter_empty_conv)

definition upward :: "(nat \<Rightarrow> bool) \<Rightarrow> nat list \<Rightarrow> bool" where
  "upward P as \<longleftrightarrow> sorted_wrt (\<lambda>x y. P x \<longrightarrow> P y) as"

lemma upward_append: "upward P (xs @ ys) \<longleftrightarrow> upward P xs \<and> upward P ys \<and> (\<forall>x \<in> set xs. \<forall>y \<in> set ys. P x \<longrightarrow> P y)"
  by (auto simp: upward_def sorted_wrt_append)

lemma upward_Cons: "upward P (x # ys) \<longleftrightarrow> upward P ys \<and> (\<forall>y \<in> set ys. P x \<longrightarrow> P y)"
  by (auto simp: upward_def)

lemma upward_node:
  assumes "upward P (inorder (Nd l a c r))"
  shows "upward P (inorder l)" "upward P (inorder r)" "x \<in> set (inorder l) \<Longrightarrow> P x \<Longrightarrow> P a" "y \<in> set (inorder r) \<Longrightarrow> P a \<Longrightarrow> P y"
proof -
  have all: "upward P (inorder l) \<and> (upward P (inorder r) \<and> (\<forall>y \<in> set (inorder r). P a \<longrightarrow> P y)) \<and>
      (\<forall>x \<in> set (inorder l). \<forall>y \<in> set (a # inorder r). P x \<longrightarrow> P y)"
    using assms unfolding inorder.simps upward_append upward_Cons .
  then show "upward P (inorder l)" "upward P (inorder r)" by blast+
  show "x \<in> set (inorder l) \<Longrightarrow> P x \<Longrightarrow> P a" using all list.set_intros(1) [of a "inorder r"] by blast
  show "y \<in> set (inorder r) \<Longrightarrow> P a \<Longrightarrow> P y" using all by blast
qed

lemma upward_less:
  assumes "total_cmp cmp" "in_order cmp key as"
  shows "upward (\<lambda>x. cmp k (key x) < 0) as" "upward (\<lambda>x. cmp k (key x) \<le> 0) as"
proof -
  have s: "sorted_wrt (\<lambda>x y. cmp (key x) (key y) \<le> 0) as" using assms(2) by (simp add: in_order_def)
  have lt: "cmp k (key x) < 0 \<longrightarrow> cmp k (key y) < 0" if "cmp (key x) (key y) \<le> 0" for x y
    using total_cmpD(7) [OF assms(1) _ that] by blast
  have le: "cmp k (key x) \<le> 0 \<longrightarrow> cmp k (key y) \<le> 0" if "cmp (key x) (key y) \<le> 0" for x y
    using total_cmpD(2) [OF assms(1) _ that] by blast
  show "upward (\<lambda>x. cmp k (key x) < 0) as"
    unfolding upward_def by (rule sorted_wrt_mono_rel [OF _ s]) (rule lt)
  show "upward (\<lambda>x. cmp k (key x) \<le> 0) as"
    unfolding upward_def by (rule sorted_wrt_mono_rel [OF _ s]) (rule le)
qed

fun is_left :: "frame \<Rightarrow> bool" where
  "is_left (LeftOf a c r) \<longleftrightarrow> True"
| "is_left (RightOf l a c) \<longleftrightarrow> False"

lemma rb_place_loop_correct:
  assumes "zip_at h self C t" "t \<noteq> Tip" "length (inorder t) \<le> fuel" "upward (\<lambda>x. cmp k (nkey h x) < 0) (inorder t)"
    "splits (\<lambda>x. cmp k (nkey h x) < 0) (cleft C) (cright C)"
  shows "\<exists>f D. rb_place_loop cmp fuel h k (troot t) = Inr (faddr f) \<and> plug (f # D) Tip = plug C t \<and> zip_at h self (f # D) Tip \<and>
    (cmp k (nkey h (faddr f)) < 0 \<longleftrightarrow> is_left f) \<and> rd_key h (faddr f) = Inr (nkey h (faddr f)) \<and>
    splits (\<lambda>x. cmp k (nkey h x) < 0) (cleft (f # D)) (cright (f # D))"
  using assms
proof (induction t arbitrary: C fuel)
  case (Nd l a c r)
  let ?P = "\<lambda>x. cmp k (nkey h x) < 0"
  obtain fl where fuel: "fuel = Suc fl" using Nd.prems(3) by (cases fuel) auto
  note reads = zip_reads [OF Nd.prems(1)] and node = zip_node [OF Nd.prems(1)]
  note up = upward_node [OF Nd.prems(4)]
  show ?case
  proof (cases "?P a")
    case True
    let ?f = "LeftOf a c r"
    have z: "zip_at h self (?f # C) l" using Nd.prems(1) by (simp add: zip_up)
    have s: "splits ?P (cleft (?f # C)) (cright (?f # C))" using Nd.prems(5) up(4) True unfolding splits_def by auto
    show ?thesis
    proof (cases "l = Tip")
      case l: True
      have "rb_place_loop cmp fuel h k a = Inr a" using reads True l by (simp add: fuel)
      then show ?thesis using z s reads True l by (intro exI [of _ ?f] exI [of _ C]) simp
    next
      case False
      then have "troot l \<noteq> NIL" using z by (cases l) (auto dest: zip_node(2))
      then have "rb_place_loop cmp fuel h k a = rb_place_loop cmp fl h k (troot l)" using reads True by (simp add: fuel)
      then show ?thesis using Nd.IH(1) [OF z False _ up(1) s, of fl] Nd.prems(3) by (simp add: fuel)
    qed
  next
    case False
    let ?f = "RightOf l a c"
    have z: "zip_at h self (?f # C) r" using Nd.prems(1) by (simp add: zip_up)
    have s: "splits ?P (cleft (?f # C)) (cright (?f # C))" using Nd.prems(5) up(3) False unfolding splits_def by auto
    show ?thesis
    proof (cases "r = Tip")
      case r: True
      have "rb_place_loop cmp fuel h k a = Inr a" using reads False r by (simp add: fuel)
      then show ?thesis using z s reads False r by (intro exI [of _ ?f] exI [of _ C]) simp
    next
      case nt: False
      then have "troot r \<noteq> NIL" using z by (cases r) (auto dest: zip_node(2))
      then have "rb_place_loop cmp fuel h k a = rb_place_loop cmp fl h k (troot r)" using reads False by (simp add: fuel)
      then show ?thesis using Nd.IH(2) [OF z nt _ up(2) s, of fl] Nd.prems(3) by (simp add: fuel)
    qed
  qed
qed simp


subsection \<open>Insertion\<close>

lemma addrs_ok_length:
  assumes "addrs_ok h self as"
  shows "Suc (Suc (length as)) < rbrk h"
proof -
  have "distinct (0 # NIL # self # as)" "set (0 # NIL # self # as) \<subseteq> {..<rbrk h}"
    using assms by (auto simp: addrs_ok_def NIL_def intro: le_less_trans)
  then have "length (0 # NIL # self # as) \<le> card {..<rbrk h}"
    by (metis distinct_card card_mono finite_lessThan)
  then show ?thesis by simp
qed

lemma depth_le: "length C \<le> length (cleft C @ cright C)"
proof (induction C)
  case (Cons f C)
  then show ?case by (cases f) auto
qed simp

lemma zip_depth:
  assumes "zip_at h self C t"
  shows "length C < rbrk h" "length (inorder t) < rbrk h"
  using assms addrs_ok_length [of h self "cleft C @ inorder t @ cright C"] depth_le [of C] by (auto simp: zip_at_def)

text \<open>A node ready to be links_agree into a tree.\<close>

definition leaf_node :: "('k, 'v) rheap \<Rightarrow> nat \<Rightarrow> bool" where
  "leaf_node h x \<longleftrightarrow> rlive h x \<and> x \<noteq> NIL \<and> x \<noteq> 0 \<and> x < rbrk h \<and> lft h x = NIL \<and> rgt h x = NIL \<and> clr h x = COLOR_RED"

lemma zip_add_leaf:
  assumes "zip_at h self (f # D) Tip" "leaf_node h x" "x \<notin> nodes self (f # D) Tip"
  shows "\<exists>h'. (if is_left f then rb_set_left h (faddr f) x else rb_set_right h (faddr f) x) = Inr h' \<and>
    zip_at h' self (f # D) (Nd Tip x COLOR_RED Tip) \<and> rb_keeps (insert x (nodes self (f # D) Tip)) h h'"
proof -
  let ?p = "faddr f" and ?h = "if is_left f then put_left h (faddr f) x else put_right h (faddr f) x"
  have ok: "addrs_ok h self (cleft (f # D) @ cright (f # D))" and ctx: "ctx_at h self NIL (f # D)"
    using assms(1) by (auto simp: zip_at_def)
  have leaf: "rlive h x" "x \<noteq> NIL" "x \<noteq> 0" "x < rbrk h" "lft h x = NIL" "rgt h x = NIL" "clr h x = COLOR_RED"
    using assms(2) by (auto simp: leaf_node_def)
  have p: "?p \<noteq> NIL" "rlive h ?p" using paddr_fact(1,3) [OF ctx, of "[]"] ok by simp_all
  have pin: "?p \<in> set (cleft (f # D)) \<union> set (cright (f # D))" by (cases f) auto
  have xout: "x \<notin> insert self (set (cleft (f # D)) \<union> set (cright (f # D)))" using assms(3) by (auto simp: nodes_at)
  then have xp: "x \<noteq> ?p" using pin by auto
  have run: "(if is_left f then rb_set_left h ?p x else rb_set_right h ?p x) = Inr ?h" using p leaf by simp
  have "ctx_at ?h self x (f # D)"
  proof (rule ctx_frame_change [OF ctx ok])
    fix y assume y: "y \<in> insert self (set (cleft (f # D)) \<union> set (cright (f # D)))" "y \<noteq> ?p"
    then have "y \<noteq> x" using xout by blast
    then show "at_node h ?h y \<and> (y \<noteq> self \<longrightarrow> par ?h y = par h y)" using y(2) by (simp add: at_node_def)
  next
    show "case f of LeftOf a c r \<Rightarrow> lft ?h a = x \<and> rgt ?h a = rgt h a | RightOf l a c \<Rightarrow> lft ?h a = lft h a \<and> rgt ?h a = x"
      by (cases f) auto
  qed (use p xp leaf in auto)
  moreover have "tree_at ?h ?p (Nd Tip x COLOR_RED Tip)" using leaf xp by (auto simp: node_at_def)
  moreover have "addrs_ok ?h self (cleft (f # D) @ inorder (Nd Tip x COLOR_RED Tip) @ cright (f # D))"
    using ok xout leaf by (auto simp: addrs_ok_def)
  ultimately have "zip_at ?h self (f # D) (Nd Tip x COLOR_RED Tip)" by (simp add: zip_at_def)
  moreover have "rb_keeps (insert x (nodes self (f # D) Tip)) h ?h" using pin by (auto simp: rb_keeps_def nodes_at)
  ultimately show ?thesis using run by blast
qed

lemma zip_add_root:
  assumes "zip_at h self [] Tip" "leaf_node h x" "x \<noteq> self"
  shows "\<exists>h1 h'. wr_color h x COLOR_BLACK = Inr h1 \<and> rb_set_root h1 self x = Inr h' \<and>
    zip_at h' self [] (Nd Tip x COLOR_BLACK Tip) \<and> rb_keeps {x, self} h h'"
proof -
  let ?h1 = "h\<lparr>clr := (clr h)(x := COLOR_BLACK)\<rparr>"
  let ?h = "put_right ?h1 self x"
  have self: "rlive h self" "clr h self = COLOR_HEAD" "lft h self = NIL" "self \<noteq> NIL" "self \<noteq> 0" "self < rbrk h"
    using assms(1) by (auto simp: zip_at_def addrs_ok_def)
  have leaf: "rlive h x" "x \<noteq> NIL" "x \<noteq> 0" "x < rbrk h" "lft h x = NIL" "rgt h x = NIL"
    using assms(2) by (auto simp: leaf_node_def)
  have "wr_color h x COLOR_BLACK = Inr ?h1" using leaf by (simp add: wr_color_def)
  moreover have "rb_set_root ?h1 self x = Inr ?h" using self leaf by simp
  moreover have "zip_at ?h self [] (Nd Tip x COLOR_BLACK Tip)"
    using self leaf assms(3) by (auto simp: zip_at_def node_at_def addrs_ok_def)
  moreover have "rb_keeps {x, self} h ?h" by (auto simp: rb_keeps_def)
  ultimately show ?thesis by blast
qed

lemma last_context_black:
  assumes "red_black (plug C t)" "C \<noteq> []"
  shows "fcol (last C) = COLOR_BLACK"
proof -
  obtain f D where "C = D @ [f]" using assms(2) by (metis rev_exhaust)
  then show ?thesis using assms(1) by (cases f) (auto simp: plug_append red_black_def)
qed

text \<open>Inserting after the nodes with keys that are not greater.\<close>

definition insert_place :: "('k \<Rightarrow> 'k \<Rightarrow> int) \<Rightarrow> (nat \<Rightarrow> 'k) \<Rightarrow> nat \<Rightarrow> nat list \<Rightarrow> nat list" where
  "insert_place cmp key x as = filter (\<lambda>y. \<not> cmp (key x) (key y) < 0) as @ x # filter (\<lambda>y. cmp (key x) (key y) < 0) as"

lemma insert_place_set: "set (insert_place cmp key x as) = insert x (set as)"
  by (auto simp: insert_place_def)

lemma insert_place_in_order:
  assumes "total_cmp cmp" "in_order cmp key as"
  shows "in_order cmp key (insert_place cmp key x as)"
proof -
  have "in_order cmp key (filter P as)" for P using assms(2) by (simp add: in_order_def sorted_wrt_filter)
  moreover have "cmp (key y) (key z) \<le> 0" if "\<not> cmp (key x) (key y) < 0" "cmp (key x) (key z) < 0" for y z
    using total_cmpD(2) [OF assms(1), of "key y" "key x" "key z"] total_cmpD(6) [OF assms(1), of "key x" "key y"] that by simp
  ultimately show ?thesis
    using total_cmpD(6) [OF assms(1)] by (auto simp: insert_place_def in_order_append in_order_Cons)
qed

theorem rb_insert_correct:
  assumes "total_cmp cmp" "rb_at h self T" "red_black T" "in_order cmp (nkey h) (inorder T)"
    "leaf_node h x" "x \<notin> insert self (set (inorder T))"
  shows "\<exists>h' T'. rb_insert cmp h self x = Inr h' \<and> rb_at h' self T' \<and> red_black T' \<and>
    inorder T' = insert_place cmp (nkey h) x (inorder T) \<and> rb_keeps (insert x (insert self (set (inorder T)))) h h'"
proof (cases "T = Tip")
  case True
  have root: "rb_get_root h self = Inr NIL" using zip_left_self [OF assms(2)] True by (simp add: rb_get_root_def)
  from zip_add_root [of h self x] assms(2,5,6) True obtain h1 h' where
    h': "wr_color h x COLOR_BLACK = Inr h1" "rb_set_root h1 self x = Inr h'" "rb_at h' self (Nd Tip x COLOR_BLACK Tip)"
      "rb_keeps {x, self} h h'" by auto
  have "red_black (Nd Tip x COLOR_BLACK Tip)" unfolding red_black_def by (auto intro: exI [of _ 1])
  then show ?thesis using h' root True by (auto simp: rb_insert_def insert_place_def intro!: exI [of _ "Nd Tip x COLOR_BLACK Tip"])
next
  case False
  let ?k = "nkey h x"
  let ?P = "\<lambda>y. cmp ?k (nkey h y) < 0"
  obtain l r0 c r where T: "T = Nd l r0 c r" using False by (cases T) auto
  have root: "rb_get_root h self = Inr r0" "r0 \<noteq> NIL"
    using zip_left_self [OF assms(2)] zip_node(2) [of h self "[]"] assms(2) T by (auto simp: rb_get_root_def)
  have key: "rd_key h x = Inr ?k" using assms(5) by (simp add: leaf_node_def rd_key_def)
  have "length (inorder T) \<le> rbrk h" using zip_depth(2) [OF assms(2)] by simp
  moreover have "splits ?P (cleft []) (cright [])" by (simp add: splits_def)
  ultimately have "\<exists>f D. rb_place_loop cmp (rbrk h) h ?k (troot T) = Inr (faddr f) \<and> plug (f # D) Tip = plug [] T \<and>
      zip_at h self (f # D) Tip \<and> (?P (faddr f) \<longleftrightarrow> is_left f) \<and> rd_key h (faddr f) = Inr (nkey h (faddr f)) \<and>
      splits ?P (cleft (f # D)) (cright (f # D))"
    by (intro rb_place_loop_correct [OF assms(2) False _ upward_less(1) [OF assms(1,4)]])
  then obtain f D where
    place: "rb_place_loop cmp (rbrk h) h ?k r0 = Inr (faddr f)" "plug (f # D) Tip = T" "zip_at h self (f # D) Tip"
      "?P (faddr f) \<longleftrightarrow> is_left f" "rd_key h (faddr f) = Inr (nkey h (faddr f))" "splits ?P (cleft (f # D)) (cright (f # D))"
    using T by auto
  have ino: "inorder T = cleft (f # D) @ cright (f # D)" using inorder_plug [of "f # D" Tip] place(2) by simp
  have nodes: "nodes self (f # D) Tip = insert self (set (inorder T))" using ino by (auto simp: nodes_at)
  have "x \<notin> nodes self (f # D) Tip" using assms(6) nodes by simp
  from zip_add_leaf [OF place(3) assms(5) this] nodes obtain h1 where
    h1: "(if is_left f then rb_set_left h (faddr f) x else rb_set_right h (faddr f) x) = Inr h1"
      "zip_at h1 self (f # D) (Nd Tip x COLOR_RED Tip)" "rb_keeps (insert x (insert self (set (inorder T)))) h h1" by auto
  let ?T = "bal_ins (f # D) (Nd Tip x COLOR_RED Tip)"
  have rb: "\<exists>n. rb_tree Tip n \<and> rb_ctx (f # D) (tcol Tip) n" using assms(3) place(2) rb_plug by blast
  then have rb_T: "red_black ?T" by (intro bal_ins_red_black [of _ 0]) auto
  have "length (f # D) < rbrk h" using zip_depth(1) [OF place(3)] .
  moreover have "rbrk h1 = rbrk h" using h1(3) by (simp add: rb_keeps_def)
  moreover have "fcol (last (f # D)) = COLOR_BLACK" using last_context_black [of "f # D" Tip] place(2) assms(3) by simp
  ultimately obtain h' where
    h': "rb_balance_for_insert (rbrk h) h1 x = Inr h'" "rbz h1 (nodes self (f # D) (Nd Tip x COLOR_RED Tip)) self [] ?T h'"
    using balance_for_insert_heap [OF rbz_start [OF h1(2)], of "rbrk h"] by auto
  have "nodes self (f # D) (Nd Tip x COLOR_RED Tip) = insert x (insert self (set (inorder T)))" using nodes by (auto simp: nodes_at)
  then have keep: "rb_keeps (insert x (insert self (set (inorder T)))) h h'"
    using h'(2) h1(3) keeps_trans by (auto simp: rbz_def)
  have "inorder ?T = cleft (f # D) @ x # cright (f # D)"
    using inorder_plug [of "f # D" "Nd Tip x COLOR_RED Tip"] by (cases f) (simp_all add: inorder_bal_ins)
  then have ins: "inorder ?T = insert_place cmp (nkey h) x (inorder T)"
    using splits_filter [OF place(6)] unfolding insert_place_def ino by simp
  have "rb_insert cmp h self x = Inr h'"
    using root key place(1,4,5) h1(1) h'(1) by (simp add: rb_insert_def)
  then show ?thesis using rbz_zip [OF h'(2)] rb_T ins keep by blast
qed

end
