(* ===== verification/Cstl_Rbtree_Search.thy ===== *)
theory Cstl_Rbtree_Search
  imports Cstl_Rbtree_Order
begin

text \<open>
  Searching a red-black tree and walking through it: what the functions return, in terms of the list of
  the nodes in their order.  The end of this list is the head, which is \<open>end\<close> and \<open>rend\<close> of the tree.
\<close>

subsection \<open>Descending\<close>

definition first_or :: "nat \<Rightarrow> nat list \<Rightarrow> nat" where
  "first_or self as = hd (as @ [self])"

definition last_or :: "nat \<Rightarrow> nat list \<Rightarrow> nat" where
  "last_or self as = last (self # as)"

lemma first_or_simps [simp]:
  "first_or d [] = d" "first_or d (a # as) = a" "first_or d (as @ bs) = first_or (first_or d bs) as"
  by (cases as; simp add: first_or_def)+

lemma last_or_simps [simp]:
  "last_or d [] = d" "last_or d (as @ [a]) = a" "last_or d (a # as) = last_or a as" "last_or d (as @ bs) = last_or (last_or d as) bs"
  by (auto simp: last_or_def)

lemma zip_children:
  assumes "zip_at h self C (Nd l a c r)"
  shows "zip_at h self (LeftOf a c r # C) l" "zip_at h self (RightOf l a c # C) r"
    "troot l = NIL \<longleftrightarrow> l = Tip" "troot r = NIL \<longleftrightarrow> r = Tip"
proof -
  show z: "zip_at h self (LeftOf a c r # C) l" "zip_at h self (RightOf l a c # C) r" using assms by (simp_all add: zip_up)
  show "troot l = NIL \<longleftrightarrow> l = Tip" using z(1) by (cases l) (auto dest: zip_node(2))
  show "troot r = NIL \<longleftrightarrow> r = Tip" using z(2) by (cases r) (auto dest: zip_node(2))
qed

lemma zip_root_nil: "zip_at h self C t \<Longrightarrow> troot t = NIL \<longleftrightarrow> t = Tip"
  by (cases t) (auto dest: zip_node(2))

lemma rb_find_node_correct:
  assumes "zip_at h self C t" "length (inorder t) \<le> fuel" "total_cmp cmp" "in_order cmp (nkey h) (inorder t)"
  shows "\<exists>x. rb_find_node cmp fuel h (troot t) k = Inr x \<and>
    (if x = NIL then \<forall>y \<in> set (inorder t). cmp k (nkey h y) \<noteq> 0 else x \<in> set (inorder t) \<and> cmp k (nkey h x) = 0)"
  using assms(1,2,4)
proof (induction t arbitrary: C fuel)
  case Tip
  then show ?case by (cases fuel) auto
next
  case (Nd l a c r)
  obtain fl where fuel: "fuel = Suc fl" using Nd.prems(2) by (cases fuel) auto
  note reads = zip_reads [OF Nd.prems(1)] and node = zip_node [OF Nd.prems(1)] and sub = zip_children [OF Nd.prems(1)]
  have ord: "in_order cmp (nkey h) (inorder l)" "in_order cmp (nkey h) (inorder r)"
    "\<And>y. y \<in> set (inorder l) \<Longrightarrow> cmp (nkey h y) (nkey h a) \<le> 0" "\<And>y. y \<in> set (inorder r) \<Longrightarrow> cmp (nkey h a) (nkey h y) \<le> 0"
    using Nd.prems(3) by (auto simp: in_order_append in_order_Cons)
  consider "cmp k (nkey h a) < 0" | "cmp k (nkey h a) > 0" | "cmp k (nkey h a) = 0" by linarith
  then show ?case
  proof cases
    case 1
    have "length (inorder l) \<le> fl" using Nd.prems(2) fuel by simp
    from Nd.IH(1) [OF sub(1) this ord(1)] obtain x where
      x: "rb_find_node cmp fl h (troot l) k = Inr x"
        "if x = NIL then \<forall>y \<in> set (inorder l). cmp k (nkey h y) \<noteq> 0 else x \<in> set (inorder l) \<and> cmp k (nkey h x) = 0" by blast
    have "cmp k (nkey h y) \<noteq> 0" if "y \<in> set (inorder r)" for y
      using total_cmpD(7) [OF assms(3) 1 ord(4) [OF that]] by simp
    then show ?thesis using x reads node(2) 1 by (auto simp: fuel)
  next
    case 2
    have "length (inorder r) \<le> fl" using Nd.prems(2) fuel by simp
    from Nd.IH(2) [OF sub(2) this ord(2)] obtain x where
      x: "rb_find_node cmp fl h (troot r) k = Inr x"
        "if x = NIL then \<forall>y \<in> set (inorder r). cmp k (nkey h y) \<noteq> 0 else x \<in> set (inorder r) \<and> cmp k (nkey h x) = 0" by blast
    have "cmp (nkey h a) k < 0" using 2 total_cmpD(1) [OF assms(3)] by blast
    then have "cmp k (nkey h y) \<noteq> 0" if "y \<in> set (inorder l)" for y
      using total_cmpD(8) [OF assms(3) ord(3) [OF that]] total_cmpD(1) [OF assms(3), of "nkey h y" k] by fastforce
    then show ?thesis using x reads node(2) 2 by (auto simp: fuel)
  next
    case 3
    then show ?thesis using reads node(2) by (auto simp: fuel)
  qed
qed

lemma rb_bound_loop_correct:
  assumes "zip_at h self C t" "length (inorder t) \<le> fuel" "upward (\<lambda>x. test (nkey h x)) (inorder t)"
  shows "rb_bound_loop test fuel h (troot t) tmp = Inr (first_or tmp (filter (\<lambda>x. test (nkey h x)) (inorder t)))"
  using assms
proof (induction t arbitrary: C fuel tmp)
  case Tip
  then show ?case by (cases fuel) auto
next
  case (Nd l a c r)
  obtain fl where fuel: "fuel = Suc fl" using Nd.prems(2) by (cases fuel) auto
  note reads = zip_reads [OF Nd.prems(1)] and node = zip_node [OF Nd.prems(1)] and sub = zip_children [OF Nd.prems(1)]
  note up = upward_node [OF Nd.prems(3)]
  have len: "length (inorder l) \<le> fl" "length (inorder r) \<le> fl" using Nd.prems(2) fuel by auto
  show ?case
  proof (cases "test (nkey h a)")
    case True
    then show ?thesis using Nd.IH(1) [OF sub(1) len(1) up(1)] reads node(2) by (simp add: fuel)
  next
    case False
    then have "filter (\<lambda>x. test (nkey h x)) (inorder l) = []" using up(3) by (auto simp: filter_empty_conv)
    then show ?thesis using Nd.IH(2) [OF sub(2) len(2) up(2)] reads node(2) False by (simp add: fuel)
  qed
qed

lemma rb_get_root_at: "rb_at h self T \<Longrightarrow> rb_get_root h self = Inr (troot T)"
  by (simp add: rb_get_root_def zip_left_self)

theorem rb_bounds_correct:
  assumes "rb_at h self T" "total_cmp cmp" "in_order cmp (nkey h) (inorder T)"
  shows "rb_lower_bound cmp h self k = Inr (first_or self (filter (\<lambda>x. cmp k (nkey h x) \<le> 0) (inorder T)))"
    "rb_upper_bound cmp h self k = Inr (first_or self (filter (\<lambda>x. cmp k (nkey h x) < 0) (inorder T)))"
proof -
  note up = upward_less [OF assms(2,3), of k]
  have len: "length (inorder T) \<le> rbrk h" using zip_depth(2) [OF assms(1)] by simp
  show "rb_lower_bound cmp h self k = Inr (first_or self (filter (\<lambda>x. cmp k (nkey h x) \<le> 0) (inorder T)))"
    using rb_bound_loop_correct [OF assms(1) len up(2)] rb_get_root_at [OF assms(1)] by (simp add: rb_lower_bound_def rb_end_def)
  show "rb_upper_bound cmp h self k = Inr (first_or self (filter (\<lambda>x. cmp k (nkey h x) < 0) (inorder T)))"
    using rb_bound_loop_correct [OF assms(1) len up(1)] rb_get_root_at [OF assms(1)] by (simp add: rb_upper_bound_def rb_end_def)
qed

theorem rb_find_correct:
  assumes "rb_at h self T" "total_cmp cmp" "in_order cmp (nkey h) (inorder T)"
  shows "\<exists>x. rb_find cmp h self k = Inr x \<and>
    (if x = self then \<forall>y \<in> set (inorder T). cmp k (nkey h y) \<noteq> 0 else x \<in> set (inorder T) \<and> cmp k (nkey h x) = 0)"
proof -
  have len: "length (inorder T) \<le> rbrk h" using zip_depth(2) [OF assms(1)] by simp
  from rb_find_node_correct [OF assms(1) len assms(2,3)] obtain x where
    x: "rb_find_node cmp (rbrk h) h (troot T) k = Inr x"
      "if x = NIL then \<forall>y \<in> set (inorder T). cmp k (nkey h y) \<noteq> 0 else x \<in> set (inorder T) \<and> cmp k (nkey h x) = 0" by blast
  have "self \<notin> set (inorder T)" using assms(1) by (simp add: zip_at_def addrs_ok_def)
  then show ?thesis using x rb_get_root_at [OF assms(1)] by (cases "x = NIL") (auto simp: rb_find_def rb_end_def)
qed

subsection \<open>Walking\<close>

lemma begin_loop_correct:
  assumes "zip_at h self C t" "length (inorder t) \<le> fuel"
  shows "begin_loop fuel h (troot t) tmp = Inr (first_or tmp (inorder t))"
  using assms
proof (induction t arbitrary: C fuel tmp)
  case (Nd l a c r)
  obtain fl where fuel: "fuel = Suc fl" using Nd.prems(2) by (cases fuel) auto
  have "length (inorder l) \<le> fl" using Nd.prems(2) fuel by simp
  with Nd.IH(1) [OF zip_children(1) [OF Nd.prems(1)]] zip_reads [OF Nd.prems(1)] zip_node(2) [OF Nd.prems(1)]
  show ?case by (simp add: fuel)
next
  case Tip
  then show ?case by (cases fuel) auto
qed

lemma rbegin_loop_correct:
  assumes "zip_at h self C t" "length (inorder t) \<le> fuel"
  shows "rbegin_loop fuel h (troot t) tmp = Inr (last_or tmp (inorder t))"
  using assms
proof (induction t arbitrary: C fuel tmp)
  case (Nd l a c r)
  obtain fl where fuel: "fuel = Suc fl" using Nd.prems(2) by (cases fuel) auto
  have "length (inorder r) \<le> fl" using Nd.prems(2) fuel by simp
  with Nd.IH(2) [OF zip_children(2) [OF Nd.prems(1)]] zip_reads [OF Nd.prems(1)] zip_node(2) [OF Nd.prems(1)]
  show ?case by (simp add: fuel)
next
  case Tip
  then show ?case by (cases fuel) auto
qed

lemma leftmost_loop_correct:
  assumes "zip_at h self C t" "t \<noteq> Tip" "length (inorder t) \<le> fuel"
  shows "leftmost_loop fuel h (troot t) = Inr (first_or d (inorder t))"
  using assms
proof (induction t arbitrary: C fuel d)
  case (Nd l a c r)
  obtain fl where fuel: "fuel = Suc fl" using Nd.prems(3) by (cases fuel) auto
  have len: "length (inorder l) \<le> fl" using Nd.prems(3) fuel by simp
  note sub = zip_children [OF Nd.prems(1)]
  show ?case
  proof (cases "l = Tip")
    case True
    then show ?thesis using zip_reads [OF Nd.prems(1)] by (simp add: fuel)
  next
    case False
    then show ?thesis using Nd.IH(1) [OF sub(1) False len] zip_reads [OF Nd.prems(1)] sub(3) by (simp add: fuel)
  qed
qed simp

lemma rightmost_loop_correct:
  assumes "zip_at h self C t" "t \<noteq> Tip" "length (inorder t) \<le> fuel"
  shows "rightmost_loop fuel h (troot t) = Inr (last_or d (inorder t))"
  using assms
proof (induction t arbitrary: C fuel d)
  case (Nd l a c r)
  obtain fl where fuel: "fuel = Suc fl" using Nd.prems(3) by (cases fuel) auto
  have len: "length (inorder r) \<le> fl" using Nd.prems(3) fuel by simp
  note sub = zip_children [OF Nd.prems(1)]
  show ?case
  proof (cases "r = Tip")
    case True
    then show ?thesis using zip_reads [OF Nd.prems(1)] by (simp add: fuel)
  next
    case False
    then show ?thesis using Nd.IH(2) [OF sub(2) False len] zip_reads [OF Nd.prems(1)] sub(4) by (simp add: fuel)
  qed
qed simp

lemma climb_right_loop_correct:
  assumes "zip_at h self C (Nd l a c r)" "length C < fuel"
  shows "climb_right_loop fuel h a = Inr (first_or self (cright C))"
  using assms
proof (induction C arbitrary: l a c r fuel)
  case Nil
  then obtain fl where fuel: "fuel = Suc fl" by (cases fuel) auto
  show ?case using zip_is_root [OF Nil(1)] zip_reads(3) [OF Nil(1)] by (simp add: fuel)
next
  case (Cons f C)
  obtain fl where fuel: "fuel = Suc fl" "length C < fl" using Cons.prems(2) by (cases fuel) auto
  note pl = zip_parent_links [OF Cons.prems(1)] and top = zip_is_root [OF Cons.prems(1)] zip_reads(3) [OF Cons.prems(1)]
  show ?case
  proof (cases f)
    case (LeftOf p d s)
    have "troot s \<noteq> a" using zip_side' [of h self p d s C "Nd l a c r"] Cons.prems(1) by (simp add: LeftOf)
    then show ?thesis using pl top by (simp add: fuel LeftOf)
  next
    case (RightOf s p d)
    have "zip_at h self C (Nd s p d (Nd l a c r))" using Cons.prems(1) by (simp add: RightOf zip_up)
    then show ?thesis using Cons.IH fuel(2) pl top by (simp add: fuel(1) RightOf)
  qed
qed

lemma climb_left_loop_correct:
  assumes "zip_at h self C (Nd l a c r)" "length C < fuel"
  shows "climb_left_loop fuel h a = Inr (last_or self (cleft C))"
  using assms
proof (induction C arbitrary: l a c r fuel)
  case Nil
  then obtain fl where fuel: "fuel = Suc fl" by (cases fuel) auto
  show ?case using zip_is_root [OF Nil(1)] zip_reads(3) [OF Nil(1)] by (simp add: fuel)
next
  case (Cons f C)
  obtain fl where fuel: "fuel = Suc fl" "length C < fl" using Cons.prems(2) by (cases fuel) auto
  note pl = zip_parent_links [OF Cons.prems(1)] and top = zip_is_root [OF Cons.prems(1)] zip_reads(3) [OF Cons.prems(1)]
  show ?case
  proof (cases f)
    case (RightOf s p d)
    have "troot s \<noteq> a" using zip_side [of h self s p d C "Nd l a c r"] Cons.prems(1) by (simp add: RightOf)
    then show ?thesis using pl top by (simp add: fuel RightOf)
  next
    case (LeftOf p d s)
    have "zip_at h self C (Nd (Nd l a c r) p d s)" using Cons.prems(1) by (simp add: LeftOf zip_up)
    then show ?thesis using Cons.IH fuel(2) pl top by (simp add: fuel(1) LeftOf)
  qed
qed

text \<open>Every node of a tree is a place of it.\<close>

lemma zip_find:
  assumes "zip_at h self C t" "inorder t = xs @ y # ys"
  shows "\<exists>D l c r. zip_at h self D (Nd l y c r) \<and> plug D (Nd l y c r) = plug C t \<and>
    cleft C @ xs = cleft D @ inorder l \<and> ys @ cright C = inorder r @ cright D"
  using assms
proof (induction t arbitrary: C xs ys)
  case (Nd l a c r)
  note sub = zip_children [OF Nd.prems(1)]
  have "xs @ y # ys = inorder l @ a # inorder r" using Nd.prems(2) by simp
  then consider us where "xs @ y # us = inorder l" "ys = us @ a # inorder r" | "xs = inorder l" "y = a" "ys = inorder r"
    | us where "us @ y # ys = inorder r" "xs = inorder l @ a # us"
    by (auto simp: append_eq_append_conv2 append_eq_Cons_conv Cons_eq_append_conv)
  then show ?case
  proof cases
    case 1
    then show ?thesis using Nd.IH(1) [OF sub(1) 1(1) [symmetric]] 1(2) by simp
  next
    case 2
    then show ?thesis using Nd.prems(1) by blast
  next
    case 3
    then show ?thesis using Nd.IH(2) [OF sub(2) 3(1) [symmetric]] 3(2) by simp
  qed
qed simp

theorem rb_walk_correct:
  assumes "rb_at h self T"
  shows "rb_begin h self = Inr (first_or self (inorder T))" "rb_rbegin h self = Inr (last_or self (inorder T))"
    "inorder T = xs @ y # ys \<Longrightarrow> rb_next h y = Inr (first_or self ys)"
    "inorder T = xs @ y # ys \<Longrightarrow> rb_prev h y = Inr (last_or self xs)"
proof -
  have len: "length (inorder T) \<le> rbrk h" using zip_depth(2) [OF assms] by simp
  note root = rb_get_root_at [OF assms]
  show "rb_begin h self = Inr (first_or self (inorder T))"
    using begin_loop_correct [OF assms len] root by (simp add: rb_begin_def rb_end_def)
  show "rb_rbegin h self = Inr (last_or self (inorder T))"
    using rbegin_loop_correct [OF assms len] root by (simp add: rb_rbegin_def rb_rend_def)
  assume "inorder T = xs @ y # ys"
  from zip_find [OF assms this] obtain D l c r where
    D: "zip_at h self D (Nd l y c r)" "xs = cleft D @ inorder l" "ys = inorder r @ cright D" by auto
  note sub = zip_children [OF D(1)] and depth = zip_depth(1) [OF D(1)]
  have len: "length (inorder l) \<le> rbrk h" "length (inorder r) \<le> rbrk h"
    using zip_depth(2) [OF sub(1)] zip_depth(2) [OF sub(2)] by simp_all
  show "rb_next h y = Inr (first_or self ys)"
  proof (cases "r = Tip")
    case True
    then show ?thesis using climb_right_loop_correct [OF D(1) depth] zip_reads [OF D(1)] D(3) by (simp add: rb_next_def)
  next
    case False
    then show ?thesis using leftmost_loop_correct [OF sub(2) False len(2)] zip_reads [OF D(1)] D(3) sub(4) by (simp add: rb_next_def)
  qed
  show "rb_prev h y = Inr (last_or self xs)"
  proof (cases "l = Tip")
    case True
    then show ?thesis using climb_left_loop_correct [OF D(1) depth] zip_reads [OF D(1)] D(2) by (simp add: rb_prev_def)
  next
    case False
    then show ?thesis using rightmost_loop_correct [OF sub(1) False len(1)] zip_reads [OF D(1)] D(2) sub(3) by (simp add: rb_prev_def)
  qed
qed

subsection \<open>Counting\<close>

lemma rb_count_loop_correct:
  assumes "rb_at h self T" "inorder T = xs @ ys @ zs" "length ys \<le> fuel"
  shows "rb_count_loop fuel h (first_or self (ys @ zs)) (first_or self zs) n = Inr (n + length ys)"
  using assms(2,3)
proof (induction ys arbitrary: xs fuel n)
  case Nil
  then show ?case by (cases fuel) auto
next
  case (Cons y ys)
  obtain fl where fuel: "fuel = Suc fl" "length ys \<le> fl" using Cons.prems(2) by (cases fuel) auto
  have nx: "rb_next h y = Inr (first_or self (ys @ zs))" using rb_walk_correct(3) [OF assms(1), of xs y "ys @ zs"] Cons.prems(1) by simp
  have "distinct (self # inorder T)" using assms(1) by (simp add: zip_at_def addrs_ok_def)
  then have "y \<noteq> first_or self zs" using Cons.prems(1) by (cases zs) auto
  moreover have "inorder T = (xs @ [y]) @ ys @ zs" using Cons.prems(1) by simp
  ultimately show ?case using nx Cons.IH [OF _ fuel(2), of "xs @ [y]"] by (simp add: fuel(1))
qed

lemma upward_split:
  assumes "upward P as" "upward Q as" "\<And>x. P x \<Longrightarrow> Q x"
  shows "as = filter (\<lambda>x. \<not> Q x) as @ filter (\<lambda>x. Q x \<and> \<not> P x) as @ filter P as"
  using assms(1,2)
proof (induction as)
  case (Cons x as)
  have up: "upward P as" "upward Q as" "\<forall>y \<in> set as. P x \<longrightarrow> P y" "\<forall>y \<in> set as. Q x \<longrightarrow> Q y" using Cons.prems by (auto simp: upward_Cons)
  have rec: "as = filter (\<lambda>x. \<not> Q x) as @ filter (\<lambda>x. Q x \<and> \<not> P x) as @ filter P as" using Cons.IH up(1,2) by blast
  consider "P x" | "Q x" "\<not> P x" | "\<not> Q x" using assms(3) by blast
  then show ?case
  proof cases
    case 1
    then have "filter (\<lambda>x. \<not> Q x) as = []" "filter (\<lambda>x. Q x \<and> \<not> P x) as = []" "filter P as = as"
      using up(3,4) assms(3) by (auto simp: filter_empty_conv filter_id_conv)
    then show ?thesis using 1 assms(3) by simp
  next
    case 2
    then have "filter (\<lambda>x. \<not> Q x) as = []" using up(4) by (auto simp: filter_empty_conv)
    then show ?thesis using 2 rec by simp
  next
    case 3
    then show ?thesis using rec assms(3) by auto
  qed
qed simp

text \<open>A key splits the nodes into those before, with, and after it.\<close>

lemma key_split:
  assumes "total_cmp cmp" "in_order cmp key as"
  shows "as = filter (\<lambda>x. \<not> cmp k (key x) \<le> 0) as @ filter (\<lambda>x. cmp k (key x) = 0) as @ filter (\<lambda>x. cmp k (key x) < 0) as"
    "filter (\<lambda>x. cmp k (key x) \<le> 0) as = filter (\<lambda>x. cmp k (key x) = 0) as @ filter (\<lambda>x. cmp k (key x) < 0) as"
    "filter (\<lambda>x. cmp k (key x) \<noteq> 0) as = filter (\<lambda>x. \<not> cmp k (key x) \<le> 0) as @ filter (\<lambda>x. cmp k (key x) < 0) as"
proof -
  let ?P = "\<lambda>x. cmp k (key x) < 0" and ?Q = "\<lambda>x. cmp k (key x) \<le> 0"
  have eq: "(\<lambda>x. ?Q x \<and> \<not> ?P x) = (\<lambda>x. cmp k (key x) = 0)" by auto
  have "as = filter (\<lambda>x. \<not> ?Q x) as @ filter (\<lambda>x. ?Q x \<and> \<not> ?P x) as @ filter ?P as"
    by (rule upward_split [OF upward_less [OF assms]]) simp
  then show split: "as = filter (\<lambda>x. \<not> ?Q x) as @ filter (\<lambda>x. cmp k (key x) = 0) as @ filter ?P as"
    unfolding eq .
  have eqs: "(cmp k (key x) = 0 \<and> ?Q x) = (cmp k (key x) = 0)" "(?P x \<and> ?Q x) = ?P x"
    "(\<not> ?Q x \<and> cmp k (key x) \<noteq> 0) = (\<not> ?Q x)" "(?P x \<and> cmp k (key x) \<noteq> 0) = ?P x" for x by auto
  show "filter ?Q as = filter (\<lambda>x. cmp k (key x) = 0) as @ filter ?P as"
    by (subst split) (simp add: filter_empty_conv eqs)
  show "filter (\<lambda>x. cmp k (key x) \<noteq> 0) as = filter (\<lambda>x. \<not> ?Q x) as @ filter ?P as"
    by (subst split) (simp add: filter_empty_conv eqs)
qed

theorem rb_count_correct:
  assumes "rb_at h self T" "total_cmp cmp" "in_order cmp (nkey h) (inorder T)"
  shows "rb_count cmp h self k = Inr (length (filter (\<lambda>x. cmp k (nkey h x) = 0) (inorder T)))"
proof -
  note split = key_split [OF assms(2,3), of k]
  have "length (filter (\<lambda>x. cmp k (nkey h x) = 0) (inorder T)) \<le> rbrk h"
    using zip_depth(2) [OF assms(1)] length_filter_le [of "\<lambda>x. cmp k (nkey h x) = 0" "inorder T"] by linarith
  then show ?thesis
    using rb_count_loop_correct [OF assms(1) split(1)] rb_bounds_correct [OF assms] split(2) by (simp add: rb_count_def)
qed

end
