(* ===== verification/Cstl_Rbtree_Erase.thy ===== *)
theory Cstl_Rbtree_Erase
  imports Cstl_Rbtree_Order Cstl_Rbtree_Search
begin

text \<open>
  Balancing after an erasure: from a place whose subtree is one black node short of what its context
  asks for, \<open>RBTree_balance_for_erase\<close> makes a red-black tree with the same nodes in the same order.
\<close>

subsection \<open>The sibling of a place\<close>

definition frepl :: "frame \<Rightarrow> rtree \<Rightarrow> frame" where
  "frepl f s = (case f of LeftOf a c r \<Rightarrow> LeftOf a c s | RightOf l a c \<Rightarrow> RightOf s a c)"

text \<open>The frame of the sibling.\<close>

definition fswap :: "frame \<Rightarrow> rtree \<Rightarrow> frame" where
  "fswap f t = (case f of LeftOf a c r \<Rightarrow> RightOf t a c | RightOf l a c \<Rightarrow> LeftOf a c t)"

lemma fswap_simps [simp]: "plug1 (fswap f t) s = plug1 (frepl f s) t" "frepl f (fother f) = f"
  "faddr (fswap f t) = faddr f" "fcol (fswap f t) = fcol f" "fother (fswap f t) = t"
  "fother (frepl f s) = s" "faddr (frepl f s) = faddr f" "fcol (frepl f s) = fcol f"
  by (cases f; simp add: fswap_def frepl_def)+

lemma zip_sibling: "zip_at h self (f # C) t \<Longrightarrow> zip_at h self (fswap f t # C) (fother f)"
  by (rule zip_same [where C = "f # C" and t = t]) simp_all

lemma rbz_sibling: "rbz h0 A self (fswap f t # C) s h \<longleftrightarrow> rbz h0 A self (frepl f s # C) t h"
  by (auto elim!: rbz_same)

lemma rbz_sibling_start: "rbz h0 A self (f # C) t h \<Longrightarrow> rbz h0 A self (fswap f t # C) (fother f) h"
  by (simp add: rbz_sibling)

lemma zip_child_colors:
  assumes "zip_at h self C (Nd l a c r)"
  shows "rd_color h (troot l) = Inr (tcol l)" "rd_color h (troot r) = Inr (tcol r)"
  using zip_color_read [of h self "LeftOf a c r # C" l] zip_color_read [of h self "RightOf l a c # C" r] assms
  by (simp_all add: zip_up)

lemma erase_sibling_correct:
  assumes "zip_at h self (f # C) t" "fother f \<noteq> Tip" "t = Tip \<Longrightarrow> q = faddr f"
  shows "rb_erase_sibling h (troot t) q = Inr (faddr f, troot (fother f))"
proof (cases t)
  case Tip
  have "troot (fother f) \<noteq> NIL" using zip_sibling [OF assms(1)] assms(2) by (cases "fother f") (auto dest: zip_node(2))
  then show ?thesis using zip_parent_links [OF assms(1)] assms(3) Tip by (cases f) (auto simp: rb_erase_sibling_def)
next
  case (Nd l n c r)
  have "n \<noteq> NIL" using zip_node(2) assms(1) Nd by blast
  moreover have "rd_parent h n = Inr (faddr f)" using zip_reads(3) assms(1) Nd by fastforce
  moreover have "rb_get_sibling h n = Inr (troot (fother f))"
  proof (cases f)
    case (LeftOf a d s)
    then show ?thesis using zip_parent_links [OF assms(1)] Nd \<open>rd_parent h n = Inr (faddr f)\<close> by (simp add: rb_get_sibling_def)
  next
    case (RightOf s a d)
    then have "troot s \<noteq> n" using zip_side [of h self s a d C t] assms(1) Nd by simp
    then show ?thesis using RightOf zip_parent_links [OF assms(1)] Nd \<open>rd_parent h n = Inr (faddr f)\<close> by (simp add: rb_get_sibling_def)
  qed
  ultimately show ?thesis using Nd by (simp add: rb_erase_sibling_def)
qed

text \<open>Which side of its parent the place is on.\<close>

lemma zip_sides:
  assumes "zip_at h self (f # C) t" "fother f \<noteq> Tip"
  shows "rd_left h (faddr f) = Inr (if is_left f then troot t else troot (fother f))"
    "rd_right h (faddr f) = Inr (if is_left f then troot (fother f) else troot t)" "troot (fother f) \<noteq> troot t"
  using zip_parent_links [OF assms(1)] zip_side [of h self _ _ _ C t] zip_side' [of h self _ _ _ C t] assms
  by (cases f; simp)+

lemma rbz_paint_sibling:
  assumes "rbz h0 A self (f # C) t h" "fother f = Nd l u c r" "c' \<noteq> COLOR_HEAD"
  shows "\<exists>h'. wr_color h u c' = Inr h' \<and> rbz h0 A self (frepl f (Nd l u c' r) # C) t h'"
  using rbz_recolor [of h0 A self "fswap f t # C" l u c r h c'] rbz_sibling_start [OF assms(1)] assms(2,3)
  by (simp add: rbz_sibling)

subsection \<open>The cases\<close>

text \<open>The context after case 2: the parent has come down with the inner child of its sibling.\<close>

fun case2_frames :: "frame \<Rightarrow> frame list" where
  "case2_frames (LeftOf p c (Nd sl s d sr)) = [LeftOf p COLOR_RED sl, LeftOf s COLOR_BLACK sr]"
| "case2_frames (RightOf (Nd sl s d sr) p c) = [RightOf sr p COLOR_RED, RightOf sl s COLOR_BLACK]"
| "case2_frames f = [f]"

lemma erase_case2_correct:
  assumes "rbz h0 A self (f # C) t h" "fother f = Nd sl s d sr"
  shows "\<exists>h'. rb_erase_case2 h (troot t) (faddr f) s = Inr (troot (fother (hd (case2_frames f))), h') \<and>
    rbz h0 A self (case2_frames f @ C) t h'"
proof -
  from rbz_paint_parent [OF assms(1), of COLOR_RED] obtain h1 where
    h1: "wr_color h (faddr f) COLOR_RED = Inr h1" "rbz h0 A self (fpaint COLOR_RED f # C) t h1" by auto
  let ?f = "fpaint COLOR_RED f"
  have f: "faddr ?f = faddr f" "fother ?f = Nd sl s d sr" using assms(2) by (cases f; simp)+
  from rbz_paint_sibling [OF h1(2) f(2), of COLOR_BLACK] obtain h2 where
    h2: "wr_color h1 s COLOR_BLACK = Inr h2" "rbz h0 A self (frepl ?f (Nd sl s COLOR_BLACK sr) # C) t h2" by auto
  let ?g = "frepl ?f (Nd sl s COLOR_BLACK sr)"
  have g: "faddr ?g = faddr f" "fother ?g \<noteq> Tip" "is_left ?g = is_left f" by (cases f; simp add: frepl_def)+
  note side = zip_sides [OF rbz_zip [OF h2(2)] g(2), unfolded g(1,3)]
  show ?thesis
  proof (cases f)
    case (LeftOf p c r)
    have "rbz h0 A self C (Nd t p COLOR_RED (Nd sl s COLOR_BLACK sr)) h2"
      by (rule rbz_same [OF h2(2)]) (simp add: LeftOf frepl_def)
    from rbz_rotate_left [OF this] obtain h3 where
      h3: "rb_rotate_left h2 p = Inr h3" "rbz h0 A self C (Nd (Nd t p COLOR_RED sl) s COLOR_BLACK sr) h3" by blast
    have z: "rbz h0 A self (case2_frames f @ C) t h3" using assms(2) by (intro rbz_same [OF h3(2)]) (simp add: LeftOf)
    have "rd_right h3 p = Inr (troot sl)"
      using zip_parent_links(2) [of h3 self "LeftOf p COLOR_RED sl"] rbz_zip [OF z] assms(2) by (simp add: LeftOf)
    then show ?thesis using h1(1) h2(1) h3(1) z side assms(2) by (simp add: rb_erase_case2_def LeftOf)
  next
    case (RightOf l p c)
    have "rbz h0 A self C (Nd (Nd sl s COLOR_BLACK sr) p COLOR_RED t) h2"
      by (rule rbz_same [OF h2(2)]) (simp add: RightOf frepl_def)
    from rbz_rotate_right [OF this] obtain h3 where
      h3: "rb_rotate_right h2 p = Inr h3" "rbz h0 A self C (Nd sl s COLOR_BLACK (Nd sr p COLOR_RED t)) h3" by blast
    have z: "rbz h0 A self (case2_frames f @ C) t h3" using assms(2) by (intro rbz_same [OF h3(2)]) (simp add: RightOf)
    have "rd_left h3 p = Inr (troot sr)"
      using zip_parent_links(1) [of h3 self "RightOf sr p COLOR_RED"] rbz_zip [OF z] assms(2) by (simp add: RightOf)
    then show ?thesis using h1(1) h2(1) h3(1) z side assms(2) by (simp add: rb_erase_case2_def RightOf)
  qed
qed

text \<open>The colours of a node and of its child are exchanged.\<close>

lemma swap_colors_left:
  assumes "rbz h0 A self C (Nd (Nd t p c sl) s d r) h" 
  shows "\<exists>h'. rb_swap_colors h p s = Inr h' \<and> rbz h0 A self C (Nd (Nd t p d sl) s c r) h'"
proof -
  have col: "c \<noteq> COLOR_HEAD" "d \<noteq> COLOR_HEAD" and read: "rd_color h p = Inr c" "rd_color h s = Inr d"
    using zip_children(1) [OF rbz_zip [OF assms]] zip_reads(4) [OF rbz_zip [OF assms]]
    by (auto dest: zip_node(9) zip_reads(4)) (use zip_node(9) [OF rbz_zip [OF assms]] in auto)
  have "rbz h0 A self (LeftOf s d r # C) (Nd t p c sl) h" by (rule rbz_same [OF assms]) simp
  from rbz_recolor [OF this col(2)] obtain h1 where
    h1: "wr_color h p d = Inr h1" "rbz h0 A self (LeftOf s d r # C) (Nd t p d sl) h1" by blast
  have "rbz h0 A self C (Nd (Nd t p d sl) s d r) h1" by (rule rbz_same [OF h1(2)]) simp
  from rbz_recolor [OF this col(1)] h1(1) read show ?thesis by (auto simp: rb_swap_colors_def)
qed

lemma swap_colors_right:
  assumes "rbz h0 A self C (Nd l s d (Nd sr p c t)) h"
  shows "\<exists>h'. rb_swap_colors h p s = Inr h' \<and> rbz h0 A self C (Nd l s c (Nd sr p d t)) h'"
proof -
  have col: "c \<noteq> COLOR_HEAD" "d \<noteq> COLOR_HEAD" and read: "rd_color h p = Inr c" "rd_color h s = Inr d"
    using zip_children(2) [OF rbz_zip [OF assms]] zip_reads(4) [OF rbz_zip [OF assms]]
    by (auto dest: zip_node(9) zip_reads(4)) (use zip_node(9) [OF rbz_zip [OF assms]] in auto)
  have "rbz h0 A self (RightOf l s d # C) (Nd sr p c t) h" by (rule rbz_same [OF assms]) simp
  from rbz_recolor [OF this col(2)] obtain h1 where
    h1: "wr_color h p d = Inr h1" "rbz h0 A self (RightOf l s d # C) (Nd sr p d t) h1" by blast
  have "rbz h0 A self C (Nd l s d (Nd sr p d t)) h1" by (rule rbz_same [OF h1(2)]) simp
  from rbz_recolor [OF this col(1)] h1(1) read show ?thesis by (auto simp: rb_swap_colors_def)
qed

text \<open>Case 6: the outer child of the sibling is red.  The other child is not looked at, whatever \<open>y\<close> is.\<close>

lemma erase_case6_left:
  assumes "rbz h0 A self (LeftOf p c (Nd sl s d (Nd a x COLOR_RED b)) # C) t h" "rd_color h y = Inr yc"
  shows "\<exists>h'. rb_erase_case6 h (troot t) p s y x = Inr h' \<and> rbz h0 A self C (Nd (Nd t p d sl) s c (Nd a x COLOR_BLACK b)) h'"
proof -
  let ?f = "LeftOf p c (Nd sl s d (Nd a x COLOR_RED b))"
  note side = zip_sides [OF rbz_zip [OF assms(1)], simplified]
  have "rbz h0 A self (RightOf sl s d # RightOf t p c # C) (Nd a x COLOR_RED b) h" by (rule rbz_same [OF assms(1)]) simp
  note xz = this
  from rbz_recolor [OF xz, of COLOR_BLACK] obtain h1 where
    h1: "wr_color h x COLOR_BLACK = Inr h1" "rbz h0 A self (RightOf sl s d # RightOf t p c # C) (Nd a x COLOR_BLACK b) h1" by auto
  have "rbz h0 A self C (Nd t p c (Nd sl s d (Nd a x COLOR_BLACK b))) h1" by (rule rbz_same [OF h1(2)]) simp
  from rbz_rotate_left [OF this] obtain h2 where
    h2: "rb_rotate_left h1 p = Inr h2" "rbz h0 A self C (Nd (Nd t p c sl) s d (Nd a x COLOR_BLACK b)) h2" by blast
  from swap_colors_left [OF h2(2)] obtain h3 where
    h3: "rb_swap_colors h2 p s = Inr h3" "rbz h0 A self C (Nd (Nd t p d sl) s c (Nd a x COLOR_BLACK b)) h3" by blast
  have "rd_color h x = Inr COLOR_RED" using zip_reads(4) [OF rbz_zip [OF xz]] .
  then show ?thesis using side h1(1) h2(1) h3 assms(2) by (simp add: rb_erase_case6_def)
qed

lemma erase_case6_right:
  assumes "rbz h0 A self (RightOf (Nd (Nd a x COLOR_RED b) s d sr) p c # C) t h" "rd_color h y = Inr yc"
  shows "\<exists>h'. rb_erase_case6 h (troot t) p s x y = Inr h' \<and> rbz h0 A self C (Nd (Nd a x COLOR_BLACK b) s c (Nd sr p d t)) h'"
proof -
  let ?f = "RightOf (Nd (Nd a x COLOR_RED b) s d sr) p c"
  note side = zip_sides [OF rbz_zip [OF assms(1)], simplified]
  have "rbz h0 A self (LeftOf s d sr # LeftOf p c t # C) (Nd a x COLOR_RED b) h" by (rule rbz_same [OF assms(1)]) simp
  note xz = this
  from rbz_recolor [OF xz, of COLOR_BLACK] obtain h1 where
    h1: "wr_color h x COLOR_BLACK = Inr h1" "rbz h0 A self (LeftOf s d sr # LeftOf p c t # C) (Nd a x COLOR_BLACK b) h1" by auto
  have "rbz h0 A self C (Nd (Nd (Nd a x COLOR_BLACK b) s d sr) p c t) h1" by (rule rbz_same [OF h1(2)]) simp
  from rbz_rotate_right [OF this] obtain h2 where
    h2: "rb_rotate_right h1 p = Inr h2" "rbz h0 A self C (Nd (Nd a x COLOR_BLACK b) s d (Nd sr p c t)) h2" by blast
  from swap_colors_right [OF h2(2)] obtain h3 where
    h3: "rb_swap_colors h2 p s = Inr h3" "rbz h0 A self C (Nd (Nd a x COLOR_BLACK b) s c (Nd sr p d t)) h3" by blast
  have "rd_color h x = Inr COLOR_RED" using zip_reads(4) [OF rbz_zip [OF xz]] .
  then show ?thesis using side h1(1) h2(1) h3 assms(2) by (simp add: rb_erase_case6_def)
qed

text \<open>Case 5 turns a red inner child of the sibling into the sibling.\<close>

lemma erase_case5_left:
  assumes "rbz h0 A self (LeftOf p c (Nd (Nd a x COLOR_RED b) s d sr) # C) t h" "tcol sr = COLOR_BLACK"
  shows "\<exists>h'. rb_erase_case5 h (troot t) p s x (troot sr) = Inr ((x, x, s), h') \<and>
    rbz h0 A self (LeftOf p c (Nd a x COLOR_BLACK (Nd b s COLOR_RED sr)) # C) t h'"
proof -
  let ?s = "Nd (Nd a x COLOR_RED b) s d sr"
  note side = zip_sides [OF rbz_zip [OF assms(1)], simplified]
  have sz: "rbz h0 A self (RightOf t p c # C) ?s h" by (rule rbz_same [OF assms(1)]) simp
  note cols = zip_child_colors [OF rbz_zip [OF sz]]
  have "rbz h0 A self (LeftOf s d sr # RightOf t p c # C) (Nd a x COLOR_RED b) h" by (rule rbz_same [OF assms(1)]) simp
  from rbz_recolor [OF this, of COLOR_BLACK] obtain h1 where
    h1: "wr_color h x COLOR_BLACK = Inr h1" "rbz h0 A self (LeftOf s d sr # RightOf t p c # C) (Nd a x COLOR_BLACK b) h1" by auto
  have "rbz h0 A self (RightOf t p c # C) (Nd (Nd a x COLOR_BLACK b) s d sr) h1" by (rule rbz_same [OF h1(2)]) simp
  from rbz_recolor [OF this, of COLOR_RED] obtain h2 where
    h2: "wr_color h1 s COLOR_RED = Inr h2" "rbz h0 A self (RightOf t p c # C) (Nd (Nd a x COLOR_BLACK b) s COLOR_RED sr) h2" by auto
  from rbz_rotate_right [OF h2(2)] obtain h3 where
    h3: "rb_rotate_right h2 s = Inr h3" "rbz h0 A self (RightOf t p c # C) (Nd a x COLOR_BLACK (Nd b s COLOR_RED sr)) h3" by blast
  have "rbz h0 A self (LeftOf p c (Nd a x COLOR_BLACK (Nd b s COLOR_RED sr)) # C) t h3" by (rule rbz_same [OF h3(2)]) simp
  then show ?thesis using side cols h1(1) h2(1) h3(1) assms(2) by (simp add: rb_erase_case5_def)
qed

lemma erase_case5_right:
  assumes "rbz h0 A self (RightOf (Nd sl s d (Nd a x COLOR_RED b)) p c # C) t h" "tcol sl = COLOR_BLACK"
  shows "\<exists>h'. rb_erase_case5 h (troot t) p s (troot sl) x = Inr ((x, s, x), h') \<and>
    rbz h0 A self (RightOf (Nd (Nd sl s COLOR_RED a) x COLOR_BLACK b) p c # C) t h'"
proof -
  let ?s = "Nd sl s d (Nd a x COLOR_RED b)"
  note side = zip_sides [OF rbz_zip [OF assms(1)], simplified]
  have sz: "rbz h0 A self (LeftOf p c t # C) ?s h" by (rule rbz_same [OF assms(1)]) simp
  note cols = zip_child_colors [OF rbz_zip [OF sz]]
  have "rbz h0 A self (RightOf sl s d # LeftOf p c t # C) (Nd a x COLOR_RED b) h" by (rule rbz_same [OF assms(1)]) simp
  from rbz_recolor [OF this, of COLOR_BLACK] obtain h1 where
    h1: "wr_color h x COLOR_BLACK = Inr h1" "rbz h0 A self (RightOf sl s d # LeftOf p c t # C) (Nd a x COLOR_BLACK b) h1" by auto
  have "rbz h0 A self (LeftOf p c t # C) (Nd sl s d (Nd a x COLOR_BLACK b)) h1" by (rule rbz_same [OF h1(2)]) simp
  from rbz_recolor [OF this, of COLOR_RED] obtain h2 where
    h2: "wr_color h1 s COLOR_RED = Inr h2" "rbz h0 A self (LeftOf p c t # C) (Nd sl s COLOR_RED (Nd a x COLOR_BLACK b)) h2" by auto
  from rbz_rotate_left [OF h2(2)] obtain h3 where
    h3: "rb_rotate_left h2 s = Inr h3" "rbz h0 A self (LeftOf p c t # C) (Nd (Nd sl s COLOR_RED a) x COLOR_BLACK b) h3" by blast
  have "rbz h0 A self (RightOf (Nd (Nd sl s COLOR_RED a) x COLOR_BLACK b) p c # C) t h3" by (rule rbz_same [OF h3(2)]) simp
  then show ?thesis using side cols h1(1) h2(1) h3(1) assms(2) by (simp add: rb_erase_case5_def)
qed

text \<open>Otherwise case 5 does nothing: the outer child is red, or the inner one black.\<close>

lemma erase_case5_skip:
  assumes "rbz h0 A self (f # C) t h" "fother f = Nd sl s d sr" "tcol (if is_left f then sr else sl) = COLOR_RED"
  shows "rb_erase_case5 h (troot t) (faddr f) s (troot sl) (troot sr) = Inr ((s, troot sl, troot sr), h)"
  using zip_sides [OF rbz_zip [OF assms(1)]] zip_child_colors [of h self "fswap f t # C" sl s d sr]
    zip_sibling [OF rbz_zip [OF assms(1)]] assms(2,3)
  by (cases f) (auto simp: rb_erase_case5_def)

text \<open>What cases 5 and 6 make of the parent with its two subtrees.\<close>

fun del_rotate :: "frame \<Rightarrow> rtree \<Rightarrow> rtree" where
  "del_rotate (LeftOf p c (Nd sl s d sr)) t = (if tcol sr = COLOR_RED then Nd (Nd t p COLOR_BLACK sl) s c (blacken sr)
     else case sl of Nd a x e b \<Rightarrow> Nd (Nd t p COLOR_BLACK a) x c (Nd b s COLOR_BLACK sr) | Tip \<Rightarrow> Tip)"
| "del_rotate (RightOf (Nd sl s d sr) p c) t = (if tcol sl = COLOR_RED then Nd (blacken sl) s c (Nd sr p COLOR_BLACK t)
     else case sr of Nd a x e b \<Rightarrow> Nd (Nd sl s COLOR_BLACK a) x c (Nd b p COLOR_BLACK t) | Tip \<Rightarrow> Tip)"
| "del_rotate f t = Tip"

lemma erase_case56:
  assumes "rbz h0 A self (f # C) t h" "fother f = Nd sl s COLOR_BLACK sr" "tcol sl = COLOR_RED \<or> tcol sr = COLOR_RED"
    "tcol sl \<noteq> COLOR_RED \<Longrightarrow> tcol sl = COLOR_BLACK" "tcol sr \<noteq> COLOR_RED \<Longrightarrow> tcol sr = COLOR_BLACK"
  shows "\<exists>s' sl' sr' h1 h2. rb_erase_case5 h (troot t) (faddr f) s (troot sl) (troot sr) = Inr ((s', sl', sr'), h1) \<and>
    rb_erase_case6 h1 (troot t) (faddr f) s' sl' sr' = Inr h2 \<and> rbz h0 A self C (del_rotate f t) h2"
proof (cases f)
  case (LeftOf p c r)
  show ?thesis
  proof (cases "tcol sr = COLOR_RED")
    case True
    then obtain a x b where sr: "sr = Nd a x COLOR_RED b" by (cases sr) auto
    have c5: "rb_erase_case5 h (troot t) p s (troot sl) x = Inr ((s, troot sl, x), h)"
      using erase_case5_skip [OF assms(1,2)] True sr LeftOf by simp
    have "rbz h0 A self (LeftOf p c (Nd sl s COLOR_BLACK (Nd a x COLOR_RED b)) # C) t h" using assms(1,2) LeftOf sr by simp
    moreover have "rd_color h (troot sl) = Inr (tcol sl)"
      using zip_child_colors(1) [OF zip_sibling [OF rbz_zip [OF assms(1)], unfolded assms(2)]] .
    ultimately show ?thesis using c5 erase_case6_left [of h0 A self p c sl s COLOR_BLACK a x b C t h] assms(2) sr LeftOf by fastforce
  next
    case False
    then obtain a x b where sl: "sl = Nd a x COLOR_RED b" using assms(3) by (cases sl) auto
    have "rbz h0 A self (LeftOf p c (Nd (Nd a x COLOR_RED b) s COLOR_BLACK sr) # C) t h" using assms(1,2) LeftOf sl by simp
    from erase_case5_left [OF this assms(5) [OF False]] obtain h1 where
      h1: "rb_erase_case5 h (troot t) p s x (troot sr) = Inr ((x, x, s), h1)"
        "rbz h0 A self (LeftOf p c (Nd a x COLOR_BLACK (Nd b s COLOR_RED sr)) # C) t h1" by blast
    have "rd_color h1 x = Inr COLOR_BLACK" using zip_reads(4) [OF zip_sibling [OF rbz_zip [OF h1(2)], simplified]] .
    from erase_case6_left [OF h1(2) this] h1(1) False assms(2) sl show ?thesis by (auto simp: LeftOf)
  qed
next
  case (RightOf l p c)
  show ?thesis
  proof (cases "tcol sl = COLOR_RED")
    case True
    then obtain a x b where sl: "sl = Nd a x COLOR_RED b" by (cases sl) auto
    have c5: "rb_erase_case5 h (troot t) p s x (troot sr) = Inr ((s, x, troot sr), h)"
      using erase_case5_skip [OF assms(1,2)] True sl RightOf by simp
    have "rbz h0 A self (RightOf (Nd (Nd a x COLOR_RED b) s COLOR_BLACK sr) p c # C) t h" using assms(1,2) RightOf sl by simp
    moreover have "rd_color h (troot sr) = Inr (tcol sr)"
      using zip_child_colors(2) [OF zip_sibling [OF rbz_zip [OF assms(1)], unfolded assms(2)]] .
    ultimately show ?thesis using c5 erase_case6_right [of h0 A self a x b s COLOR_BLACK sr p c C t h] assms(2) sl RightOf by fastforce
  next
    case False
    then obtain a x b where sr: "sr = Nd a x COLOR_RED b" using assms(3) by (cases sr) auto
    have "rbz h0 A self (RightOf (Nd sl s COLOR_BLACK (Nd a x COLOR_RED b)) p c # C) t h" using assms(1,2) RightOf sr by simp
    from erase_case5_right [OF this assms(4) [OF False]] obtain h1 where
      h1: "rb_erase_case5 h (troot t) p s (troot sl) x = Inr ((x, s, x), h1)"
        "rbz h0 A self (RightOf (Nd (Nd sl s COLOR_RED a) x COLOR_BLACK b) p c # C) t h1" by blast
    have "rd_color h1 x = Inr COLOR_BLACK" using zip_reads(4) [OF zip_sibling [OF rbz_zip [OF h1(2)], simplified]] .
    from erase_case6_right [OF h1(2) this] h1(1) False assms(2) sr show ?thesis by (auto simp: RightOf)
  qed
qed

lemma del_rotate_red_black:
  assumes "fother f = Nd sl s COLOR_BLACK sr" "tcol sl = COLOR_RED \<or> tcol sr = COLOR_RED"
    "rb_tree t n" "tcol t = COLOR_BLACK" "rb_ctx (f # C) COLOR_BLACK (Suc n)"
  shows "red_black (plug C (del_rotate f t))" "inorder (del_rotate f t) = inorder (plug1 f t)"
proof -
  have sib: "rb_tree sl n" "rb_tree sr n" using assms(1,5) by (cases f; simp)+
  have cols: "tcol sl = COLOR_RED \<or> tcol sl = COLOR_BLACK" "tcol sr = COLOR_RED \<or> tcol sr = COLOR_BLACK"
    using sib rb_tree_colors by blast+
  let ?m = "if fcol f = COLOR_RED then Suc n else Suc (Suc n)"
  have "rb_tree (del_rotate f t) ?m \<and> tcol (del_rotate f t) = fcol f"
    using assms sib cols rb_tree_blacken [of sl] rb_tree_blacken [of sr]
    by (cases f; cases "fcol f"; cases sl; cases sr) (auto split: rbcolor.splits)
  moreover have "rb_ctx C (fcol f) ?m" using assms(5) by (cases "fcol f") auto
  ultimately show "red_black (plug C (del_rotate f t))" using rb_plug by metis
  show "inorder (del_rotate f t) = inorder (plug1 f t)"
    using assms(1,2) cols by (cases f; cases sl; cases sr) auto
qed

subsection \<open>The loop\<close>

text \<open>What a round does once the sibling \<open>s\<close> is black.\<close>

definition erase_round :: "nat \<Rightarrow> ('k, 'v) rheap \<Rightarrow> nat \<Rightarrow> nat \<Rightarrow> nat \<Rightarrow> nat \<Rightarrow> ('k, 'v) rheap res" where
  "erase_round fuel h n p s q = rbind (rd_left h s) (\<lambda>sl. rbind (rd_right h s) (\<lambda>sr.
     rbind (rd_color h p) (\<lambda>pc. rbind (rd_color h sl) (\<lambda>slc. rbind (rd_color h sr) (\<lambda>src.
     if pc = COLOR_BLACK \<and> slc = COLOR_BLACK \<and> src = COLOR_BLACK then
       rbind (wr_color h s COLOR_RED) (\<lambda>h2. rb_erase_loop fuel h2 p q)
     else if pc = COLOR_RED \<and> slc = COLOR_BLACK \<and> src = COLOR_BLACK then
       rbind (wr_color h p COLOR_BLACK) (\<lambda>h2. wr_color h2 s COLOR_RED)
     else rbind (rb_erase_case5 h n p s sl sr) (\<lambda>((s', sl', sr'), h2). rb_erase_case6 h2 n p s' sl' sr'))))))"

lemma erase_loop_unfold:
  "rb_erase_loop (Suc fuel) h n q = rbind (is_root h n) (\<lambda>b. if b then wr_color h n COLOR_BLACK else
     rbind (rb_erase_sibling h n q) (\<lambda>(p, s0). rbind (rd_color h s0) (\<lambda>s0c.
     rbind (if s0c = COLOR_RED then rb_erase_case2 h n p s0 else Inr (s0, h)) (\<lambda>(s, h1). erase_round fuel h1 n p s q))))"
  unfolding erase_round_def rb_erase_loop.simps ..

lemma erase_round_reads:
  assumes "rbz h0 A self (f # C) t h" "fother f = Nd sl s d sr"
  shows "rd_left h s = Inr (troot sl)" "rd_right h s = Inr (troot sr)" "rd_color h (faddr f) = Inr (fcol f)"
    "rd_color h (troot sl) = Inr (tcol sl)" "rd_color h (troot sr) = Inr (tcol sr)"
proof -
  have z: "zip_at h self (fswap f t # C) (Nd sl s d sr)" using zip_sibling [OF rbz_zip [OF assms(1)]] assms(2) by simp
  show "rd_left h s = Inr (troot sl)" "rd_right h s = Inr (troot sr)" by (rule zip_reads [OF z])+
  show "rd_color h (troot sl) = Inr (tcol sl)" "rd_color h (troot sr) = Inr (tcol sr)" by (rule zip_child_colors [OF z])+
  show "rd_color h (faddr f) = Inr (fcol f)" by (rule zip_parent_links [OF rbz_zip [OF assms(1)]])
qed

lemma erase_round_case3:
  assumes "rbz h0 A self (f # C) t h" "fother f = Nd sl s COLOR_BLACK sr" "tcol sl = COLOR_BLACK" "tcol sr = COLOR_BLACK"
    "fcol f = COLOR_BLACK"
  shows "\<exists>h'. erase_round fuel h (troot t) (faddr f) s q = rb_erase_loop fuel h' (faddr f) q \<and>
    rbz h0 A self (frepl f (Nd sl s COLOR_RED sr) # C) t h'"
  using rbz_paint_sibling [OF assms(1,2), of COLOR_RED] erase_round_reads [OF assms(1,2)] assms(3-5)
  by (auto simp: erase_round_def)

lemma erase_round_case4:
  assumes "rbz h0 A self (f # C) t h" "fother f = Nd sl s COLOR_BLACK sr" "tcol sl = COLOR_BLACK" "tcol sr = COLOR_BLACK"
    "fcol f = COLOR_RED"
  shows "\<exists>h'. erase_round fuel h (troot t) (faddr f) s q = Inr h' \<and>
    rbz h0 A self (frepl (fpaint COLOR_BLACK f) (Nd sl s COLOR_RED sr) # C) t h'"
proof -
  from rbz_paint_parent [OF assms(1), of COLOR_BLACK] obtain h1 where
    h1: "wr_color h (faddr f) COLOR_BLACK = Inr h1" "rbz h0 A self (fpaint COLOR_BLACK f # C) t h1" by auto
  have "fother (fpaint COLOR_BLACK f) = Nd sl s COLOR_BLACK sr" using assms(2) by (cases f) auto
  from rbz_paint_sibling [OF h1(2) this, of COLOR_RED] h1(1) erase_round_reads [OF assms(1,2)] assms(3-5) show ?thesis
    by (auto simp: erase_round_def)
qed

lemma erase_round_case56:
  assumes "rbz h0 A self (f # C) t h" "fother f = Nd sl s COLOR_BLACK sr" "tcol sl = COLOR_RED \<or> tcol sr = COLOR_RED"
    "rb_tree t n" "tcol t = COLOR_BLACK" "rb_ctx (f # C) COLOR_BLACK (Suc n)"
  shows "\<exists>h'. erase_round fuel h (troot t) (faddr f) s q = Inr h' \<and> rbz h0 A self C (del_rotate f t) h'"
proof -
  have "rb_tree sl n" "rb_tree sr n" using assms(2,6) by (cases f; simp)+
  then have "tcol sl = COLOR_RED \<or> tcol sl = COLOR_BLACK" "tcol sr = COLOR_RED \<or> tcol sr = COLOR_BLACK"
    using rb_tree_colors by blast+
  with erase_case56 [OF assms(1-3)] obtain s' sl' sr' h1 h2 where
    h2: "rb_erase_case5 h (troot t) (faddr f) s (troot sl) (troot sr) = Inr ((s', sl', sr'), h1)"
      "rb_erase_case6 h1 (troot t) (faddr f) s' sl' sr' = Inr h2" "rbz h0 A self C (del_rotate f t) h2" by auto
  then show ?thesis using erase_round_reads [OF assms(1,2)] assms(3) by (auto simp: erase_round_def)
qed

text \<open>The place is done with, when the colour rules hold with it in its context.\<close>

definition erased_to :: "('k, 'v) rheap \<Rightarrow> nat set \<Rightarrow> nat \<Rightarrow> nat list \<Rightarrow> ('k, 'v) rheap \<Rightarrow> bool" where
  "erased_to h0 A self as h \<longleftrightarrow> (\<exists>T. rbz h0 A self [] T h \<and> red_black T \<and> inorder T = as)"

lemma erased_to_plug:
  assumes "rbz h0 A self C t h" "rb_tree t n" "rb_ctx C (tcol t) n" "as = inorder (plug C t)"
  shows "erased_to h0 A self as h"
proof -
  have "red_black (plug C t)" using rb_plug assms(2,3) by blast
  moreover have "rbz h0 A self [] (plug C t) h" by (rule rbz_same [OF assms(1)]) simp
  ultimately show ?thesis using assms(4) unfolding erased_to_def by blast
qed

lemma erase_round_final:
  assumes "rbz h0 A self (f # C) t h" "fother f = Nd sl s COLOR_BLACK sr" "fcol f = COLOR_RED \<or> tcol sl = COLOR_RED \<or> tcol sr = COLOR_RED"
    "rb_tree t n" "tcol t = COLOR_BLACK" "rb_ctx (f # C) COLOR_BLACK (Suc n)"
  shows "\<exists>h'. erase_round fuel h (troot t) (faddr f) s q = Inr h' \<and> erased_to h0 A self (inorder (plug (f # C) t)) h'"
proof (cases "tcol sl = COLOR_RED \<or> tcol sr = COLOR_RED")
  case True
  from erase_round_case56 [OF assms(1,2) True assms(4-6)] obtain h' where
    h': "erase_round fuel h (troot t) (faddr f) s q = Inr h'" "rbz h0 A self C (del_rotate f t) h'" by blast
  note rot = del_rotate_red_black [OF assms(2) True assms(4-6)]
  have "rbz h0 A self [] (plug C (del_rotate f t)) h'" by (rule rbz_same [OF h'(2)]) simp
  moreover have "inorder (plug C (del_rotate f t)) = inorder (plug (f # C) t)" using rot(2) by (simp add: inorder_plug)
  ultimately show ?thesis using h'(1) rot(1) unfolding erased_to_def by blast
next
  case False
  have sib: "rb_tree sl n" "rb_tree sr n" using assms(2,6) by (cases f; simp)+
  have black: "tcol sl = COLOR_BLACK" "tcol sr = COLOR_BLACK" "fcol f = COLOR_RED"
    using rb_tree_colors sib False assms(3) by blast+
  from erase_round_case4 [OF assms(1,2) black] obtain h' where
    h': "erase_round fuel h (troot t) (faddr f) s q = Inr h'"
      "rbz h0 A self (frepl (fpaint COLOR_BLACK f) (Nd sl s COLOR_RED sr) # C) t h'" by blast
  let ?g = "frepl (fpaint COLOR_BLACK f) (Nd sl s COLOR_RED sr)"
  have "rb_ctx C COLOR_RED (Suc n)" using assms(6) black(3) by simp
  then have "rb_ctx (?g # C) (tcol t) n" using sib black rb_ctx_black by (cases f) (auto simp: frepl_def)
  moreover have "inorder (plug (f # C) t) = inorder (plug (?g # C) t)" using assms(2) by (cases f) (auto simp: frepl_def inorder_plug)
  ultimately show ?thesis using h'(1) erased_to_plug [OF h'(2) assms(4)] by blast
qed

lemma rb_erase_loop_correct:
  assumes "rbz h0 A self C t h" "rb_tree t n" "tcol t = COLOR_BLACK" "rb_ctx C COLOR_BLACK (Suc n)" "length C < fuel"
    "t = Tip \<Longrightarrow> C \<noteq> [] \<and> q = paddr self C"
  shows "\<exists>h'. rb_erase_loop fuel h (troot t) q = Inr h' \<and> erased_to h0 A self (inorder (plug C t)) h'"
  using assms
proof (induction C arbitrary: t n h fuel q)
  case Nil
  obtain l a c r where t: "t = Nd l a c r" using Nil.prems(6) by (cases t) auto
  obtain fl where fuel: "fuel = Suc fl" using Nil.prems(5) by (cases fuel) auto
  note z = Nil.prems(1) [unfolded t]
  from rbz_recolor [OF z, of COLOR_BLACK] obtain h' where
    h': "wr_color h a COLOR_BLACK = Inr h'" "rbz h0 A self [] (Nd l a COLOR_BLACK r) h'" by auto
  have "rb_erase_loop fuel h a q = Inr h'" using zip_is_root [OF rbz_zip [OF z]] h'(1) unfolding fuel erase_loop_unfold by simp
  moreover have "erased_to h0 A self (inorder t) h'"
    by (rule erased_to_plug [OF h'(2), of n]) (use Nil.prems(2,3) t in auto)
  ultimately show ?case by (auto simp: t)
next
  case (Cons f C)
  obtain fl where fuel: "fuel = Suc fl" "length C < fl" using Cons.prems(5) by (cases fuel) auto
  note z = Cons.prems(1)
  have sib: "rb_tree (fother f) (Suc n)" using Cons.prems(4) by simp
  then obtain sl s d sr where s: "fother f = Nd sl s d sr" by (cases "fother f") auto
  have root: "is_root h (troot t) = Inr False"
  proof (cases t)
    case Tip
    then show ?thesis by (simp add: is_root_def is_head_def rd_parent_def rd_color_def)
  next
    case (Nd l a c r)
    then show ?thesis using zip_is_root [of h self "f # C" l a c r] rbz_zip [OF z] by simp
  qed
  have sibling: "rb_erase_sibling h (troot t) q = Inr (faddr f, s)" "rd_color h s = Inr d"
    using erase_sibling_correct [OF rbz_zip [OF z]] Cons.prems(6) s zip_reads(4) zip_sibling [OF rbz_zip [OF z]] by fastforce+
  have d: "d = COLOR_RED \<or> d = COLOR_BLACK" using rb_tree_colors [OF sib] s by simp
  show ?case
  proof (cases "d = COLOR_RED")
    case True
    from erase_case2_correct [OF z s] obtain h1 where
      h1: "rb_erase_case2 h (troot t) (faddr f) s = Inr (troot (fother (hd (case2_frames f))), h1)"
        "rbz h0 A self (case2_frames f @ C) t h1" by blast
    have f: "fcol f = COLOR_BLACK" "rb_ctx C COLOR_BLACK (Suc (Suc n))"
      using Cons.prems(4) s True by (cases "fcol f"; simp)+
    obtain g k where gk: "case2_frames f = [g, k]" using s by (cases f) auto
    have g: "fcol g = COLOR_RED" "faddr g = faddr f" "rb_ctx (g # k # C) COLOR_BLACK (Suc n)"
      using gk s True f sib by (cases f; auto)+
    obtain xl x xr where x: "fother g = Nd xl x COLOR_BLACK xr"
    proof -
      have "rb_tree (fother g) (Suc n)" "tcol (fother g) = COLOR_BLACK" using g by auto
      then show ?thesis using that by (cases "fother g") auto
    qed
    have "rbz h0 A self (g # k # C) t h1" using h1(2) gk by simp
    from erase_round_final [OF this x disjI1 [OF g(1)] Cons.prems(2,3) g(3)] obtain h' where
      h': "erase_round fl h1 (troot t) (faddr g) x q = Inr h'" "erased_to h0 A self (inorder (plug (g # k # C) t)) h'" by blast
    have "inorder (plug (g # k # C) t) = inorder (plug (f # C) t)" using gk s by (cases f) (auto simp: inorder_plug)
    moreover have "rb_erase_loop fuel h (troot t) q = Inr h'"
      using root sibling True h1(1) h'(1) gk x g(2) unfolding fuel(1) erase_loop_unfold by simp
    ultimately show ?thesis using h'(2) by simp
  next
    case False
    then have black: "d = COLOR_BLACK" using d by simp
    have run: "rb_erase_loop fuel h (troot t) q = erase_round fl h (troot t) (faddr f) s q"
      using root sibling black unfolding fuel(1) erase_loop_unfold by simp
    note s' = s [unfolded black]
    show ?thesis
    proof (cases "fcol f = COLOR_RED \<or> tcol sl = COLOR_RED \<or> tcol sr = COLOR_RED")
      case True
      from erase_round_final [OF z s' this Cons.prems(2-4)] run show ?thesis by auto
    next
      case False
      have nephews: "rb_tree sl n" "rb_tree sr n" using Cons.prems(4) s' by (cases f; simp)+
      have c: "tcol sl = COLOR_BLACK" "tcol sr = COLOR_BLACK" "fcol f = COLOR_BLACK"
        using rb_tree_colors nephews False Cons.prems(4) by (blast, blast, cases "fcol f") auto
      from erase_round_case3 [OF z s' c, of fl q] obtain h1 where
        h1: "erase_round fl h (troot t) (faddr f) s q = rb_erase_loop fl h1 (faddr f) q"
          "rbz h0 A self (frepl f (Nd sl s COLOR_RED sr) # C) t h1" by blast
      let ?t = "plug1 (frepl f (Nd sl s COLOR_RED sr)) t"
      have "rbz h0 A self C ?t h1" by (rule rbz_same [OF h1(2)]) simp
      moreover have t: "rb_tree ?t (Suc n)" "tcol ?t = COLOR_BLACK" "?t \<noteq> Tip" "troot ?t = faddr f"
        using c nephews Cons.prems(2,3) by (cases f; simp add: frepl_def)+
      moreover have "rb_ctx C COLOR_BLACK (Suc (Suc n))" using Cons.prems(4) c(3) by simp
      ultimately obtain h' where
        h': "rb_erase_loop fl h1 (troot ?t) q = Inr h'" "erased_to h0 A self (inorder (plug C ?t)) h'"
        using Cons.IH [of ?t h1 "Suc n" fl q] fuel(2) by blast
      have "inorder (plug C ?t) = inorder (plug (f # C) t)" using s by (cases f) (auto simp: frepl_def inorder_plug)
      then show ?thesis using h' run h1(1) t(4) by simp
    qed
  qed
qed

text \<open>The whole of \<open>balance_for_erase\<close>: the place is a red node or one black node short.\<close>

lemma balance_for_erase_correct:
  assumes "rbz h0 A self C t h" "rb_tree t n" "rb_ctx C COLOR_BLACK (Suc n)" "t = Tip \<Longrightarrow> C \<noteq> [] \<and> q = paddr self C"
  shows "\<exists>h'. rb_balance_for_erase h (troot t) q = Inr h' \<and> erased_to h0 A self (inorder (plug C t)) h'"
proof (cases "tcol t = COLOR_RED")
  case True
  then obtain l a r where t: "t = Nd l a COLOR_RED r" by (cases t) auto
  from rbz_recolor [OF assms(1) [unfolded t], of COLOR_BLACK] obtain h' where
    h': "wr_color h a COLOR_BLACK = Inr h'" "rbz h0 A self C (Nd l a COLOR_BLACK r) h'" by auto
  have "rd_color h a = Inr COLOR_RED" using zip_reads(4) rbz_zip [OF assms(1)] t by fastforce
  moreover have "erased_to h0 A self (inorder (plug C t)) h'"
    by (rule erased_to_plug [OF h'(2), of "Suc n"]) (use assms(2,3) t in \<open>auto simp: inorder_plug\<close>)
  ultimately show ?thesis using h'(1) t by (simp add: rb_balance_for_erase_def)
next
  case False
  then have black: "tcol t = COLOR_BLACK" using rb_tree_colors [OF assms(2)] by blast
  have "rd_color h (troot t) = Inr COLOR_BLACK" using zip_color_read [OF rbz_zip [OF assms(1)]] black by simp
  moreover have "length C < rbrk h" using zip_depth(1) [OF rbz_zip [OF assms(1)]] .
  ultimately show ?thesis using rb_erase_loop_correct [OF assms(1,2) black assms(3), of "rbrk h" q] assms(4)
    by (simp add: rb_balance_for_erase_def)
qed

end
