(* ===== verification/Cstl_Rbtree_Remove.thy ===== *)
theory Cstl_Rbtree_Remove
  imports Cstl_Rbtree_Erase
begin

text \<open>
  Erasure as a whole.  A node with two children first changes places with the one before it:
  \<open>RBTree_swap\<close> is shown to rename the two addresses in the whole tree.  Then the node has at most one
  child, which takes its place.
\<close>

subsection \<open>Links that agree\<close>

definition links_agree :: "('k, 'v) rheap \<Rightarrow> nat \<Rightarrow> nat set \<Rightarrow> bool" where
  "links_agree h self N \<longleftrightarrow> self \<notin> N \<and> NIL \<notin> insert self N \<and> (\<forall>y \<in> insert self N. rlive h y) \<and>
     (\<forall>y \<in> insert self N. \<forall>z. z \<noteq> NIL \<and> (lft h y = z \<or> rgt h y = z) \<longrightarrow> z \<in> N \<and> z \<noteq> y \<and> par h z = y) \<and>
     (\<forall>y \<in> N. par h y \<in> insert self N \<and> (lft h (par h y) = y \<or> rgt h (par h y) = y)) \<and>
     (\<forall>y \<in> insert self N. lft h y = rgt h y \<longrightarrow> lft h y = NIL)"

lemma links_agreeD:
  assumes "links_agree h self N"
  shows "self \<notin> N" "y \<in> insert self N \<Longrightarrow> y \<noteq> NIL" "y \<in> insert self N \<Longrightarrow> rlive h y"
    "y \<in> insert self N \<Longrightarrow> lft h y \<noteq> NIL \<Longrightarrow> lft h y \<in> N \<and> lft h y \<noteq> y \<and> par h (lft h y) = y"
    "y \<in> insert self N \<Longrightarrow> rgt h y \<noteq> NIL \<Longrightarrow> rgt h y \<in> N \<and> rgt h y \<noteq> y \<and> par h (rgt h y) = y"
    "y \<in> N \<Longrightarrow> par h y \<in> insert self N" "y \<in> N \<Longrightarrow> lft h (par h y) = y \<or> rgt h (par h y) = y"
    "y \<in> insert self N \<Longrightarrow> lft h y = rgt h y \<Longrightarrow> lft h y = NIL"
  using assms unfolding links_agree_def by blast+

lemma links_agree_parent:
  assumes "links_agree h self N" "y \<in> N"
  shows "par h y \<noteq> y"
proof
  assume "par h y = y"
  then have "lft h y = y \<or> rgt h y = y" using links_agreeD(7) [OF assms] by simp
  then show False using links_agreeD(2,4,5) [OF assms(1), of y] assms(2) by auto
qed

lemma zip_parent_link:
  assumes "zip_at h self C (Nd l a c r)"
  shows "lft h (paddr self C) = a \<or> rgt h (paddr self C) = a"
proof (cases C)
  case Nil
  then show ?thesis using zip_left_self [of h self] assms by fastforce
next
  case (Cons f D)
  then show ?thesis using assms by (cases f) (auto simp: zip_at_def node_at_def)
qed

lemma zip_child_parent:
  assumes "zip_at h self C (Nd l a c r)"
  shows "l \<noteq> Tip \<Longrightarrow> par h (troot l) = a \<and> troot l \<noteq> a" "r \<noteq> Tip \<Longrightarrow> par h (troot r) = a \<and> troot r \<noteq> a"
    "troot l = troot r \<Longrightarrow> troot l = NIL"
proof -
  have dis: "distinct (inorder l @ a # inorder r)" using assms by (auto simp: zip_at_def addrs_ok_def)
  show "par h (troot l) = a \<and> troot l \<noteq> a" if "l \<noteq> Tip"
    using zip_children(1) [OF assms] that dis by (cases l) (auto dest: zip_node(7))
  show "par h (troot r) = a \<and> troot r \<noteq> a" if "r \<noteq> Tip"
    using zip_children(2) [OF assms] that dis by (cases r) (auto dest: zip_node(7))
  show "troot l = NIL" if "troot l = troot r" using dis that by (cases l; cases r) auto
qed

lemma tree_links_agree:
  assumes "rb_at h self T"
  shows "links_agree h self (set (inorder T))"
proof -
  have head: "lft h self = NIL" "rgt h self = troot T" using zip_left_self [OF assms] by simp_all
  have ok: "self \<notin> set (inorder T)" "NIL \<notin> insert self (set (inorder T))" using assms by (auto simp: zip_at_def addrs_ok_def)
  have live: "rlive h y" if "y \<in> insert self (set (inorder T))" for y
    using that assms tree_at_live [of h self T y] by (auto simp: zip_at_def)
  have root: "troot T \<in> set (inorder T) \<and> troot T \<noteq> self \<and> par h (troot T) = self" if "troot T \<noteq> NIL"
    using that assms ok zip_node(7) [of h self "[]"] by (cases T) auto
  have node: "(lft h y \<noteq> NIL \<longrightarrow> lft h y \<in> set (inorder T) \<and> lft h y \<noteq> y \<and> par h (lft h y) = y) \<and>
      (rgt h y \<noteq> NIL \<longrightarrow> rgt h y \<in> set (inorder T) \<and> rgt h y \<noteq> y \<and> par h (rgt h y) = y) \<and>
      par h y \<in> insert self (set (inorder T)) \<and> (lft h (par h y) = y \<or> rgt h (par h y) = y) \<and>
      (lft h y = rgt h y \<longrightarrow> lft h y = NIL)" if y: "y \<in> set (inorder T)" for y
  proof -
    obtain xs ys where "inorder T = xs @ y # ys" using split_list [OF y] by blast
    from zip_find [OF assms this] obtain D l c r where
      D: "zip_at h self D (Nd l y c r)" "plug D (Nd l y c r) = T" by auto
    have all: "set (inorder T) = set (cleft D) \<union> set (inorder (Nd l y c r)) \<union> set (cright D)"
      unfolding D(2) [symmetric] by (auto simp: inorder_plug)
    note links = zip_node(5-7) [OF D(1)]
    have "troot l \<in> set (inorder T)" if "l \<noteq> Tip" using that all troot_in [of l] by auto
    moreover have "troot r \<in> set (inorder T)" if "r \<noteq> Tip" using that all troot_in [of r] by auto
    moreover have "paddr self D \<in> insert self (set (inorder T))" using paddr_in [of self D] all by auto
    ultimately show ?thesis
      using links zip_child_parent [OF D(1)] zip_children(3,4) [OF D(1)] zip_parent_link [OF D(1)] by auto
  qed
  show ?thesis unfolding links_agree_def using head ok live root node by auto
qed

subsection \<open>Exchanging two nodes\<close>

definition exch :: "nat \<Rightarrow> nat \<Rightarrow> nat \<Rightarrow> nat" where
  "exch s t y = (if y = s then t else if y = t then s else y)"

lemma exch_simps [simp]: "exch s t s = t" "exch s t t = s" "y \<noteq> s \<Longrightarrow> y \<noteq> t \<Longrightarrow> exch s t y = y"
  by (simp_all add: exch_def)

text \<open>The links of one heap are those of another with two nodes exchanged.\<close>

definition exch_links :: "nat \<Rightarrow> nat \<Rightarrow> nat \<Rightarrow> nat set \<Rightarrow> ('k, 'v) rheap \<Rightarrow> ('k, 'v) rheap \<Rightarrow> bool" where
  "exch_links s t self N h g \<longleftrightarrow> (\<forall>y \<in> insert self N. lft g (exch s t y) = exch s t (lft h y) \<and> rgt g (exch s t y) = exch s t (rgt h y)) \<and>
     (\<forall>y \<in> N. par g (exch s t y) = exch s t (par h y))"

lemma swap_apart:
  assumes "links_agree h self N" "s \<in> N" "t \<in> N" "s \<noteq> t" "par h t \<noteq> s" "par h s \<noteq> t" "par h s \<noteq> par h t"
  defines "g \<equiv> put_right (put_left (put_child (put_right (put_left (put_child h (par h s) s t) t (lft h s)) t (rgt h s)) (par h t) t s) s (lft h t)) s (rgt h t)"
  shows "exch_links s t self N h g"
proof -
  note L = links_agreeD [OF assms(1)]
  have ne: "s \<noteq> NIL" "t \<noteq> NIL" "par h s \<noteq> s" "par h t \<noteq> t" "s \<noteq> self" "t \<noteq> self"
    using L(1) L(2) [of s] L(2) [of t] L(4,5) [of "par h s"] L(4,5) [of "par h t"] L(6,7) [of s] L(6,7) [of t] assms(2,3) by auto
  have up: "lft h (par h s) = s \<or> rgt h (par h s) = s" "lft h (par h t) = t \<or> rgt h (par h t) = t"
    "par h s \<in> insert self N" "par h t \<in> insert self N"
    using L(6,7) [of s] L(6,7) [of t] assms(2,3) by blast+
  have both: "\<not> (lft h y = s \<and> rgt h y = s)" "\<not> (lft h y = t \<and> rgt h y = t)" if "y \<in> insert self N" for y
    using L(8) [OF that] ne by auto
  have child: "lft h y = s \<Longrightarrow> y = par h s" "lft h y = t \<Longrightarrow> y = par h t" "rgt h y = s \<Longrightarrow> y = par h s" "rgt h y = t \<Longrightarrow> y = par h t"
    if "y \<in> insert self N" for y using L(4,5) [OF that] ne by auto
  have own: "lft h s \<noteq> s" "lft h s \<noteq> t" "rgt h s \<noteq> s" "rgt h s \<noteq> t" "lft h t \<noteq> s" "lft h t \<noteq> t" "rgt h t \<noteq> s" "rgt h t \<noteq> t"
  proof -
    have s: "s \<in> insert self N" "t \<in> insert self N" using assms(2,3) by simp_all
    show "lft h s \<noteq> s" "rgt h s \<noteq> s" using child(1,3) [OF s(1)] ne(3) by metis+
    show "lft h s \<noteq> t" "rgt h s \<noteq> t" using child(2,4) [OF s(1)] assms(5) by metis+
    show "lft h t \<noteq> s" "rgt h t \<noteq> s" using child(1,3) [OF s(2)] assms(6) by metis+
    show "lft h t \<noteq> t" "rgt h t \<noteq> t" using child(2,4) [OF s(2)] ne(4) by metis+
  qed
  have gl: "lft g y = (if y = s then lft h t else if y = t then lft h s else if y = par h t \<and> lft h y = t then s
      else if y = par h s \<and> lft h y = s then t else lft h y)" for y
    unfolding g_def using ne own assms(4-7) by simp
  have gr: "rgt g y = (if y = s then rgt h t else if y = t then rgt h s else if y = par h t \<and> lft h y \<noteq> t then s
      else if y = par h s \<and> lft h y \<noteq> s then t else rgt h y)" for y
    unfolding g_def using ne own assms(4-7) by simp
  have gp: "par g y = (if y \<noteq> NIL \<and> (y = rgt h t \<or> y = lft h t) then s else if y = s then par h t
      else if y \<noteq> NIL \<and> (y = rgt h s \<or> y = lft h s) then t else if y = t then par h s else par h y)" for y
    unfolding g_def using ne own assms(4-7) by simp
  have l: "lft g (exch s t y) = exch s t (lft h y)" if y: "y \<in> insert self N" for y
  proof -
    consider "y = s" | "y = t" | "y \<noteq> s" "y \<noteq> t" by blast
    then show ?thesis
    proof cases
      case 3
      then show ?thesis using child(1,2) [OF y] gl [of y] by (auto simp: exch_def)
    qed (use gl own assms(4) in \<open>simp_all add: exch_def\<close>)
  qed
  have r: "rgt g (exch s t y) = exch s t (rgt h y)" if y: "y \<in> insert self N" for y
  proof -
    consider "y = s" | "y = t" | "y \<noteq> s" "y \<noteq> t" by blast
    then show ?thesis
    proof cases
      case 3
      show ?thesis
      proof (cases "y = par h s \<or> y = par h t")
        case True
        then show ?thesis
        proof
          assume e: "y = par h s"
          then have "y \<noteq> par h t" "lft h y = s \<or> rgt h y = s" using assms(7) up(1) by simp_all
          moreover have "rgt h y \<noteq> t" using child(4) [OF y] \<open>y \<noteq> par h t\<close> by blast
          ultimately show ?thesis using gr [of y] 3 both(1) [OF y] e by (simp add: exch_def) blast
        next
          assume e: "y = par h t"
          then have "y \<noteq> par h s" "lft h y = t \<or> rgt h y = t" using assms(7) up(2) by simp_all
          moreover have "rgt h y \<noteq> s" using child(3) [OF y] \<open>y \<noteq> par h s\<close> by blast
          ultimately show ?thesis using gr [of y] 3 both(2) [OF y] e by (simp add: exch_def) blast
        qed
      next
        case False
        then have "rgt h y \<noteq> s" "rgt h y \<noteq> t" using child(3,4) [OF y] by blast+
        then show ?thesis using gr [of y] 3 False by simp
      qed
    qed (use gr own assms(4) in \<open>simp_all add: exch_def\<close>)
  qed
  have kids: "lft h s \<noteq> NIL \<Longrightarrow> par h (lft h s) = s" "rgt h s \<noteq> NIL \<Longrightarrow> par h (rgt h s) = s"
    "lft h t \<noteq> NIL \<Longrightarrow> par h (lft h t) = t" "rgt h t \<noteq> NIL \<Longrightarrow> par h (rgt h t) = t"
    using L(4,5) [of s] L(4,5) [of t] assms(2,3) by auto
  have p: "par g (exch s t y) = exch s t (par h y)" if y: "y \<in> N" for y
  proof -
    have par: "par h y = s \<Longrightarrow> y = lft h s \<or> y = rgt h s" "par h y = t \<Longrightarrow> y = lft h t \<or> y = rgt h t" "y \<noteq> NIL"
      using L(7) [OF y] L(2) [of y] y by auto
    consider "y = s" | "y = t" | "y \<noteq> s" "y \<noteq> t" by blast
    then show ?thesis
    proof cases
      case 3
      then show ?thesis using par kids gp [of y] assms(4) by (auto simp: exch_def)
    qed (use gp own ne assms(4-7) in \<open>auto simp: exch_def\<close>)
  qed
  show ?thesis unfolding exch_links_def using l r p by blast
qed

lemma swap_adjacent:
  assumes "links_agree h self N" "s \<in> N" "t \<in> N" "s \<noteq> t" "par h t = s" "par h s \<noteq> t"
  defines "h1 \<equiv> put_child h (par h s) s t"
  defines "h3 \<equiv> if lft h s = t then put_right (put_left h1 t s) t (rgt h s) else put_left (put_right h1 t s) t (lft h s)"
  defines "g \<equiv> put_right (put_left h3 s (lft h t)) s (rgt h t)"
  shows "exch_links s t self N h g"
proof -
  note L = links_agreeD [OF assms(1)]
  have ne: "s \<noteq> NIL" "t \<noteq> NIL" "par h s \<noteq> s" "s \<noteq> self" "t \<noteq> self"
    using L(1) L(2) [of s] L(2) [of t] L(4,5) [of "par h s"] L(6,7) [of s] assms(2,3) by auto
  have up: "lft h (par h s) = s \<or> rgt h (par h s) = s" "lft h s = t \<or> rgt h s = t" "par h s \<in> insert self N"
    using L(6,7) [of s] L(6,7) [of t] assms(2,3,5) by blast+
  have both: "\<not> (lft h y = s \<and> rgt h y = s)" "\<not> (lft h y = t \<and> rgt h y = t)" if "y \<in> insert self N" for y
    using L(8) [OF that] ne by auto
  have child: "lft h y = s \<Longrightarrow> y = par h s" "lft h y = t \<Longrightarrow> y = s" "rgt h y = s \<Longrightarrow> y = par h s" "rgt h y = t \<Longrightarrow> y = s"
    if "y \<in> insert self N" for y using L(4,5) [OF that] ne assms(5) by auto
  have own: "lft h s \<noteq> s" "rgt h s \<noteq> s" "lft h t \<noteq> s" "lft h t \<noteq> t" "rgt h t \<noteq> s" "rgt h t \<noteq> t"
  proof -
    have s: "s \<in> insert self N" "t \<in> insert self N" using assms(2,3) by simp_all
    show "lft h s \<noteq> s" "rgt h s \<noteq> s" using child(1,3) [OF s(1)] ne(3) by metis+
    show "lft h t \<noteq> s" "rgt h t \<noteq> s" using child(1,3) [OF s(2)] assms(6) by metis+
    show "lft h t \<noteq> t" "rgt h t \<noteq> t" using child(2,4) [OF s(2)] assms(4) by metis+
  qed
  have gl: "lft g y = (if y = s then lft h t else if y = t then (if lft h s = t then s else lft h s)
      else if y = par h s \<and> lft h y = s then t else lft h y)" for y
    unfolding g_def h3_def h1_def using ne own assms(4-6) by auto
  have gr: "rgt g y = (if y = s then rgt h t else if y = t then (if lft h s = t then rgt h s else s)
      else if y = par h s \<and> lft h y \<noteq> s then t else rgt h y)" for y
    unfolding g_def h3_def h1_def using ne own assms(4-6) by auto
  have gp: "par g y = (if y \<noteq> NIL \<and> (y = rgt h t \<or> y = lft h t) then s
      else if y \<noteq> NIL \<and> y = (if lft h s = t then rgt h s else lft h s) then t
      else if y = s then t else if y = t then par h s else par h y)" for y
    unfolding g_def h3_def h1_def using ne own assms(4-6) by simp
  have l: "lft g (exch s t y) = exch s t (lft h y)" if y: "y \<in> insert self N" for y
  proof -
    consider "y = s" | "y = t" | "y \<noteq> s" "y \<noteq> t" by blast
    then show ?thesis
    proof cases
      case 3
      then show ?thesis using child(1,2) [OF y] gl [of y] by (auto simp: exch_def)
    qed (use gl own assms(4) in \<open>simp_all add: exch_def\<close>)
  qed
  have r: "rgt g (exch s t y) = exch s t (rgt h y)" if y: "y \<in> insert self N" for y
  proof -
    consider "y = s" | "y = t" | "y \<noteq> s" "y \<noteq> t" "y = par h s" | "y \<noteq> s" "y \<noteq> t" "y \<noteq> par h s" by blast
    then show ?thesis
    proof cases
      case 1
      have "rgt h s = t \<longleftrightarrow> lft h s \<noteq> t" using up(2) both(2) [of s] assms(2) by auto
      then show ?thesis using 1 gr [of t] own assms(4) by (auto simp: exch_def)
    next
      case 3
      have "lft h y = s \<or> rgt h y = s" "rgt h y \<noteq> t" using up(1) 3 child(4) [OF y] by auto
      then show ?thesis using gr [of y] 3 both(1) [OF y] by (simp add: exch_def) blast
    next
      case 4
      have "rgt h y \<noteq> s" "rgt h y \<noteq> t" using 4 child(3,4) [OF y] by blast+
      then show ?thesis using gr [of y] 4 by simp
    qed (use gr own assms(4) in \<open>simp_all add: exch_def\<close>)
  qed
  have kids: "lft h s \<noteq> NIL \<Longrightarrow> par h (lft h s) = s" "rgt h s \<noteq> NIL \<Longrightarrow> par h (rgt h s) = s"
    "lft h t \<noteq> NIL \<Longrightarrow> par h (lft h t) = t" "rgt h t \<noteq> NIL \<Longrightarrow> par h (rgt h t) = t"
    using L(4,5) [of s] L(4,5) [of t] assms(2,3) by auto
  have p: "par g (exch s t y) = exch s t (par h y)" if y: "y \<in> N" for y
  proof -
    have par: "par h y = s \<Longrightarrow> y = lft h s \<or> y = rgt h s" "par h y = t \<Longrightarrow> y = lft h t \<or> y = rgt h t" "y \<noteq> NIL"
      using L(7) [OF y] L(2) [of y] y by auto
    consider "y = s" | "y = t" | "y \<noteq> s" "y \<noteq> t" "par h y = s" | "y \<noteq> s" "y \<noteq> t" "par h y = t" | "y \<noteq> s" "y \<noteq> t" "par h y \<noteq> s" "par h y \<noteq> t" by blast
    then show ?thesis
    proof cases
      case 1
      have "t \<noteq> (if lft h s = t then rgt h s else lft h s)" using both(2) [of s] assms(2) by auto
      then show ?thesis using 1 gp [of t] own ne assms(4-6) by (auto simp: exch_def)
    next
      case 2
      then show ?thesis using gp [of s] own ne assms(4-6) by (auto simp: exch_def)
    next
      case 3
      have "y = (if lft h s = t then rgt h s else lft h s)" using 3 par(1) up(2) by auto
      moreover have "y \<noteq> rgt h t" "y \<noteq> lft h t" using kids 3 par(3) assms(4) by auto
      ultimately show ?thesis using gp [of y] 3 par(3) by (simp add: exch_def)
    next
      case 4
      then show ?thesis using gp [of y] par(2,3) by (auto simp: exch_def)
    next
      case 5
      have "y \<noteq> lft h s" "y \<noteq> rgt h s" "y \<noteq> lft h t" "y \<noteq> rgt h t" using kids 5 par(3) by auto
      then show ?thesis using gp [of y] 5 by (simp add: exch_def)
    qed
  qed
  show ?thesis unfolding exch_links_def using l r p by blast
qed

lemma swap_colors_run:
  assumes "rlive g s" "rlive g t" "s \<noteq> NIL" "t \<noteq> NIL" "s \<noteq> t"
  shows "rb_swap_colors g s t = Inr (g\<lparr>clr := (clr g)(s := clr g t, t := clr g s)\<rparr>)"
  using assms by (simp add: rb_swap_colors_def rd_color_def wr_color_def)

theorem rb_swap_correct:
  assumes "links_agree h self N" "s \<in> N" "t \<in> N" "s \<noteq> t" "par h s \<noteq> t" "par h t = s \<or> par h s \<noteq> par h t"
  shows "\<exists>g. rb_swap h s t = Inr g \<and> exch_links s t self N h g \<and> (\<forall>y. clr g (exch s t y) = clr h y) \<and> rb_keeps (insert self N) h g"
proof -
  note L = links_agreeD [OF assms(1)]
  have ne: "s \<noteq> NIL" "t \<noteq> NIL" "s \<noteq> self" "t \<noteq> self" using L(1) L(2) [of s] L(2) [of t] assms(2,3) by auto
  have live: "rlive h s" "rlive h t" "rlive h (par h s)" "rlive h (par h t)" "par h s \<noteq> NIL" "par h t \<noteq> NIL"
    using L(2,3,6) assms(2,3) by blast+
  have kid: "lft h y = NIL \<or> lft h y \<in> insert self N" "rgt h y = NIL \<or> rgt h y \<in> insert self N" if "y \<in> N" for y
    using L(4,5) [of y] that by auto
  then have kids: "lft h s = NIL \<or> rlive h (lft h s)" "rgt h s = NIL \<or> rlive h (rgt h s)"
    "lft h t = NIL \<or> rlive h (lft h t)" "rgt h t = NIL \<or> rlive h (rgt h t)"
    using L(3) assms(2,3) by blast+
  have up: "par h s \<noteq> s" "par h t \<noteq> t" "par h s \<in> insert self N" "par h t \<in> insert self N"
    using links_agree_parent [OF assms(1)] L(6) assms(2,3) by blast+
  have "\<exists>g. rb_swap h s t = rb_swap_colors g s t \<and> exch_links s t self N h g \<and> clr g = clr h \<and> rb_keeps (insert self N) h g"
  proof (cases "par h t = s")
    case True
    define h1 where "h1 = put_child h (par h s) s t"
    define h3 where "h3 = (if lft h s = t then put_right (put_left h1 t s) t (rgt h s) else put_left (put_right h1 t s) t (lft h s))"
    define g where "g = put_right (put_left h3 s (lft h t)) s (rgt h t)"
    have run1: "rb_relink h (par h s) s t = Inr h1" "rd_left h1 t = Inr (lft h t)" "rd_right h1 t = Inr (rgt h t)"
      "rd_left h1 s = Inr (lft h s)" "rlive h1 = rlive h"
      using live ne up assms(4,5) by (simp_all add: h1_def rd_left_def rd_right_def)
    have run3: "(if lft h s = t then rbind (rb_set_left h1 t s) (\<lambda>h2. rbind (rd_right h2 s) (rb_set_right h2 t))
        else rbind (rb_set_right h1 t s) (\<lambda>h2. rbind (rd_left h2 s) (rb_set_left h2 t))) = Inr h3" "rlive h3 = rlive h"
      using live ne up kids assms(4,5) by (auto simp: h3_def h1_def rd_left_def rd_right_def)
    have run: "rb_swap_parent_child h s t = Inr g"
      using run1 run3 live ne kids by (simp add: rb_swap_parent_child_def rd_parent_def g_def)
    have in_N: "s \<in> insert self N" "t = NIL \<or> t \<in> insert self N" "s = NIL \<or> s \<in> insert self N" "t \<in> insert self N" using assms(2,3) by auto
    have "rb_keeps (insert self N) h h1" unfolding h1_def by (rule keeps_put [OF keeps_refl up(3) in_N(2)])
    then have "rb_keeps (insert self N) h (put_right (put_left h1 t s) t (rgt h s))" "rb_keeps (insert self N) h (put_left (put_right h1 t s) t (lft h s))"
      by (intro keeps_put in_N kid assms(2); assumption)+
    then have "rb_keeps (insert self N) h h3" unfolding h3_def by simp
    then have "rb_keeps (insert self N) h g"
      unfolding g_def by (intro keeps_put in_N kid assms(3))
    moreover have "exch_links s t self N h g"
      unfolding g_def h3_def h1_def by (rule swap_adjacent [OF assms(1-4) True assms(5)])
    moreover have "clr g = clr h" by (simp add: g_def h3_def h1_def)
    ultimately show ?thesis using run True live ne by (auto simp: rb_swap_def rd_parent_def)
  next
    case False
    let ?g = "put_right (put_left (put_child (put_right (put_left (put_child h (par h s) s t) t (lft h s)) t (rgt h s)) (par h t) t s) s (lft h t)) s (rgt h t)"
    have run: "rb_swap h s t = rb_swap_colors ?g s t"
      using False live ne kids up assms(4-6) by (simp add: rb_swap_def rd_parent_def rd_left_def rd_right_def)
    have "rb_keeps (insert self N) h ?g"
      by (intro keeps_put keeps_refl) (use assms(2,3) up kid in simp_all)
    moreover have "exch_links s t self N h ?g"
      by (rule swap_apart [OF assms(1-4) False assms(5)]) (use False assms(6) in blast)
    ultimately show ?thesis using run by (intro exI [of _ ?g]) simp
  qed
  then obtain g where g: "rb_swap h s t = rb_swap_colors g s t" "exch_links s t self N h g" "clr g = clr h" "rb_keeps (insert self N) h g" by blast
  let ?g = "g\<lparr>clr := (clr g)(s := clr g t, t := clr g s)\<rparr>"
  have "rb_swap h s t = Inr ?g" using g(1,4) live ne assms(4) swap_colors_run [of g s t] by (simp add: rb_keeps_def)
  moreover have "exch_links s t self N h ?g" using g(2) by (simp add: exch_links_def)
  moreover have "clr ?g (exch s t y) = clr h y" for y using g(3) assms(4) by (simp add: exch_def)
  moreover have "rb_keeps (insert self N) h ?g" using g(4) assms(2,3) by (auto simp: rb_keeps_def)
  ultimately show ?thesis by blast
qed

subsection \<open>Renaming the nodes of a tree\<close>

fun tmap :: "(nat \<Rightarrow> nat) \<Rightarrow> rtree \<Rightarrow> rtree" where
  "tmap f Tip = Tip"
| "tmap f (Nd l a c r) = Nd (tmap f l) (f a) c (tmap f r)"

fun fmap :: "(nat \<Rightarrow> nat) \<Rightarrow> frame \<Rightarrow> frame" where
  "fmap f (LeftOf a c r) = LeftOf (f a) c (tmap f r)"
| "fmap f (RightOf l a c) = RightOf (tmap f l) (f a) c"

lemma inorder_tmap: "inorder (tmap f t) = map f (inorder t)"
  by (induction t) auto

lemma tcol_tmap [simp]: "tcol (tmap f t) = tcol t"
  by (cases t) auto

lemma rb_tree_tmap: "rb_tree (tmap f t) n \<longleftrightarrow> rb_tree t n"
  by (induction t arbitrary: n) (auto split: rbcolor.splits)

lemma red_black_tmap: "red_black (tmap f t) \<longleftrightarrow> red_black t"
  by (simp add: red_black_def rb_tree_tmap)

lemma tmap_plug: "tmap f (plug C t) = plug (map (fmap f) C) (tmap f t)"
proof (induction C arbitrary: t)
  case (Cons g C)
  then show ?case by (cases g) auto
qed simp

lemma tmap_same: "(\<And>a. a \<in> set (inorder t) \<Longrightarrow> f a = a) \<Longrightarrow> tmap f t = t"
  by (induction t) auto

lemma fmap_same: "(\<And>a. a \<in> set (cleft C) \<union> set (cright C) \<Longrightarrow> f a = a) \<Longrightarrow> map (fmap f) C = C"
proof (induction C)
  case (Cons g C)
  then show ?case by (cases g) (auto intro: tmap_same)
qed simp

lemma troot_tmap: "f NIL = NIL \<Longrightarrow> troot (tmap f t) = f (troot t)"
  by (cases t) auto

lemma tree_at_exch:
  assumes "tree_at h q u" "set (inorder u) \<subseteq> N" "exch_links s t self N h g" "\<And>y. clr g (exch s t y) = clr h y"
    "\<And>y. y \<in> N \<Longrightarrow> rlive g (exch s t y)" "exch s t NIL = NIL"
  shows "tree_at g (exch s t q) (tmap (exch s t) u)"
  using assms(1,2)
proof (induction u arbitrary: q)
  case (Nd l a c r)
  have "a \<in> N" using Nd.prems(2) by simp
  then have "lft g (exch s t a) = exch s t (lft h a)" "rgt g (exch s t a) = exch s t (rgt h a)" "par g (exch s t a) = exch s t (par h a)"
    using assms(3) by (auto simp: exch_links_def)
  then show ?case using Nd assms(4) [of a] assms(5) [OF \<open>a \<in> N\<close>] by (simp add: node_at_def troot_tmap [of "exch s t", OF assms(6)])
qed simp

lemma rb_at_exch:
  assumes "rb_at h self T" "s \<in> set (inorder T)" "t \<in> set (inorder T)" "exch_links s t self (set (inorder T)) h g"
    "\<And>y. clr g (exch s t y) = clr h y" "rb_keeps A h g"
  shows "rb_at g self (tmap (exch s t) T)"
proof -
  note L = links_agreeD [OF tree_links_agree [OF assms(1)]]
  have ne: "s \<noteq> self" "t \<noteq> self" "s \<noteq> NIL" "t \<noteq> NIL" using L(1) L(2) [of s] L(2) [of t] assms(2,3) by auto
  have self: "exch s t self = self" "exch s t NIL = NIL" using ne by simp_all
  have in_N: "exch s t y \<in> set (inorder T)" if "y \<in> set (inorder T)" for y using that assms(2,3) by (simp add: exch_def)
  have live: "rlive g y = rlive h y" for y using assms(6) by (simp add: rb_keeps_def)
  have "tree_at g (exch s t self) (tmap (exch s t) T)"
    by (rule tree_at_exch [OF _ _ assms(4,5)]) (use assms(1) L(3) in_N live self in \<open>auto simp: zip_at_def\<close>)
  moreover have "lft g self = NIL" "rgt g self = troot (tmap (exch s t) T)"
  proof -
    have "lft g (exch s t self) = exch s t (lft h self)" "rgt g (exch s t self) = exch s t (rgt h self)"
      using assms(4) by (auto simp: exch_links_def)
    then show "lft g self = NIL" "rgt g self = troot (tmap (exch s t) T)"
      using zip_left_self [OF assms(1)] self by (simp_all add: troot_tmap)
  qed
  moreover have "clr g self = COLOR_HEAD" "rlive g self"
    using assms(1) assms(5) [of self] self live by (simp_all add: zip_at_def)
  moreover have "addrs_ok g self (map (exch s t) (inorder T))"
  proof (rule addrs_ok_same [of h self "inorder T"])
    show "addrs_ok h self (inorder T)" using assms(1) by (simp add: zip_at_def)
    have "inj (exch s t)" by (auto simp: inj_def exch_def)
    then show "distinct (map (exch s t) (inorder T))"
      using assms(1) by (auto simp: zip_at_def addrs_ok_def distinct_map intro: inj_on_subset)
    show "rbrk g = rbrk h" using assms(6) by (simp add: rb_keeps_def)
  qed (use in_N in auto)
  ultimately show ?thesis using self by (simp add: zip_at_def inorder_tmap)
qed

subsection \<open>Erasure\<close>

lemma rightmost_place: "l \<noteq> Tip \<Longrightarrow> \<exists>E m x d. l = plug E (Nd m x d Tip) \<and> inorder l = cleft E @ inorder m @ [x] \<and> cright E = []"
proof (induction l)
  case (Nd l a c r)
  show ?case
  proof (cases "r = Tip")
    case True
    then show ?thesis by (intro exI [of _ "[]"]) simp
  next
    case False
    from Nd.IH(2) [OF False] obtain E m x d where
      E: "r = plug E (Nd m x d Tip)" "inorder r = cleft E @ inorder m @ [x]" "cright E = []" by blast
    have "cleft (E @ [RightOf l a c]) = inorder l @ a # cleft E" "cright (E @ [RightOf l a c]) = cright E"
    proof (induction E)
      case (Cons f E)
      {
        case 1
        show ?case using Cons by (cases f) auto
      next
        case 2
        show ?case using Cons by (cases f) auto
      }
    qed auto
    then show ?thesis using E by (intro exI [of _ "E @ [RightOf l a c]"] exI [of _ m] exI [of _ x] exI [of _ d]) (simp add: plug_append)
  qed
qed simp

text \<open>A node with at most one child is replaced by that child.\<close>

lemma unlink_small:
  assumes "zip_at h self C (Nd l n c r)" "l = Tip \<or> r = Tip" "red_black (plug C (Nd l n c r))"
  defines "t \<equiv> if l = Tip then r else l"
  shows "\<exists>h1. rb_replace_subtree h n (troot t) = Inr (n, h1) \<and> rd_color h1 n = Inr c \<and> rd_left h1 n = Inr (troot l) \<and>
    rd_right h1 n = Inr (troot r) \<and> rd_parent h1 n = Inr (paddr self C) \<and> rb_keeps (nodes self C (Nd l n c r)) h h1 \<and>
    (c = COLOR_BLACK \<longrightarrow> t \<noteq> Tip \<or> C \<noteq> [] \<longrightarrow> (\<forall>q. (t = Tip \<longrightarrow> q = paddr self C) \<longrightarrow>
      (\<exists>h'. rb_balance_for_erase h1 (troot t) q = Inr h' \<and> erased_to h1 (nodes self C t) self (inorder (plug C t)) h'))) \<and>
    (c \<noteq> COLOR_BLACK \<longrightarrow> erased_to h1 (nodes self C t) self (inorder (plug C t)) h1)"
proof -
  let ?h = "put_child h (paddr self C) n (troot t)"
  have t: "t = l \<or> t = r \<or> t = Tip" "inorder t = inorder l @ inorder r" using assms(2) by (auto simp: t_def)
  note rep = zip_replace [OF assms(1) t(1)]
  note node = zip_node [OF assms(1)] and reads = zip_reads [OF assms(1)]
  have ok: "addrs_ok h self (cleft C @ inorder (Nd l n c r) @ cright C)" and ctx: "ctx_at h self n C"
    using assms(1) by (auto simp: zip_at_def)
  have p: "n \<noteq> paddr self C" using paddr_fact(4) [OF ctx ok, of n] by simp
  have nt: "troot t \<noteq> n" using t(1) ok by (cases t) (auto simp: addrs_ok_def NIL_def)
  have run: "rb_replace_subtree h n (troot t) = Inr (n, ?h)" using rep(1) reads(3) by (simp add: rb_replace_subtree_def)
  have n: "rd_color ?h n = Inr c" "rd_left ?h n = Inr (troot l)" "rd_right ?h n = Inr (troot r)" "rd_parent ?h n = Inr (paddr self C)"
    using node p nt by (simp_all add: rd_color_def rd_left_def rd_right_def rd_parent_def)
  have z: "rbz ?h (nodes self C t) self C t ?h" using rbz_start [OF rep(2)] .
  obtain m where m: "rb_tree (Nd l n c r) m" "rb_ctx C c m" using assms(3) rb_plug by auto
  have black: "\<exists>h'. rb_balance_for_erase ?h (troot t) q = Inr h' \<and> erased_to ?h (nodes self C t) self (inorder (plug C t)) h'"
    if "c = COLOR_BLACK" "t \<noteq> Tip \<or> C \<noteq> []" "t = Tip \<longrightarrow> q = paddr self C" for q
  proof -
    have "rb_tree t (m - 1)" "Suc (m - 1) = m" using m(1) that(1) by (auto simp: t_def)
    then show ?thesis using balance_for_erase_correct [OF z, of "m - 1" q] m(2) that by auto
  qed
  have red: "erased_to ?h (nodes self C t) self (inorder (plug C t)) ?h" if "c \<noteq> COLOR_BLACK"
  proof -
    have c: "c = COLOR_RED" using that node(9) by (cases c) auto
    then have "rb_tree l m" "rb_tree r m" "tcol l = COLOR_BLACK" "tcol r = COLOR_BLACK" using m(1) by auto
    then have "t = Tip" "m = 0" using assms(2) by (cases l; cases r; auto simp: t_def)+
    then show ?thesis using erased_to_plug [OF z, of 0] m(2) rb_ctx_black by auto
  qed
  show ?thesis using run n rep(3) black red by blast
qed

text \<open>After the exchange with the rightmost node of the left subtree, the node is there.\<close>

lemma unlink_exchange:
  assumes "zip_at h self C (Nd l n c r)" "l \<noteq> Tip" "red_black (plug C (Nd l n c r))"
  shows "\<exists>x h1 D m d. rightmost_loop (rbrk h) h (troot l) = Inr x \<and> rb_swap h n x = Inr h1 \<and> zip_at h1 self D (Nd m n d Tip) \<and>
    red_black (plug D (Nd m n d Tip)) \<and> D \<noteq> [] \<and> inorder (plug D m) = cleft C @ inorder l @ inorder r @ cright C \<and>
    rb_keeps (nodes self C (Nd l n c r)) h h1"
proof -
  let ?t = "Nd l n c r"
  define T where "T = plug C ?t"
  obtain E m x d where E: "l = plug E (Nd m x d Tip)" "inorder l = cleft E @ inorder m @ [x]" "cright E = []"
    using rightmost_place [OF assms(2)] by blast
  define F where "F = E @ LeftOf n c r # C"
  have T: "T = plug F (Nd m x d Tip)" by (simp add: T_def F_def E(1) plug_append)
  have zT: "rb_at h self T" using assms(1) zip_plug T_def by blast
  have zx: "zip_at h self F (Nd m x d Tip)" using zT zip_plug T by metis
  have len: "length (inorder l) \<le> rbrk h" using zip_depth(2) [OF zip_children(1) [OF assms(1)]] by simp
  have right: "rightmost_loop (rbrk h) h (troot l) = Inr x"
    using rightmost_loop_correct [OF zip_children(1) [OF assms(1)] assms(2) len] E(2) by simp
  have ok: "addrs_ok h self (cleft C @ inorder ?t @ cright C)" and ctx: "ctx_at h self n C" using assms(1) by (auto simp: zip_at_def)
  have inT: "inorder T = cleft C @ inorder l @ n # inorder r @ cright C" by (simp add: T_def inorder_plug)
  have dis: "distinct (cleft C @ cleft E @ inorder m @ x # n # inorder r @ cright C)" using ok E(2) by (auto simp: addrs_ok_def)
  then have nx: "n \<noteq> x" by auto
  have np: "y \<noteq> paddr self C" if "y \<in> set (inorder ?t)" for y using paddr_fact(4) [OF ctx ok that] .
  have "par h n = paddr self C" "par h x = paddr self F" using zip_node(7) [OF assms(1)] zip_node(7) [OF zx] .
  moreover have "paddr self F = n \<or> paddr self F \<in> set (inorder l)"
  proof (cases E)
    case (Cons f G)
    have "faddr f \<in> set (cleft E) \<union> set (cright E)" using Cons by (cases f) auto
    then show ?thesis using Cons E(2,3) by (simp add: F_def)
  qed (simp add: F_def)
  ultimately have apart: "par h n \<noteq> x" "par h x = n \<or> par h n \<noteq> par h x" using np [of x] np [of "paddr self F"] E(2) by auto
  have in_T: "n \<in> set (inorder T)" "x \<in> set (inorder T)" using inT E(2) by auto
  from rb_swap_correct [OF tree_links_agree [OF zT] in_T nx apart] obtain g where
    g: "rb_swap h n x = Inr g" "exch_links n x self (set (inorder T)) h g" "\<And>y. clr g (exch n x y) = clr h y"
      "rb_keeps (insert self (set (inorder T))) h g" by blast
  let ?f = "exch n x"
  have same: "?f a = a" if "a \<in> set (cleft C) \<union> set (cleft E) \<union> set (inorder m) \<union> set (inorder r) \<union> set (cright C)" for a
    using that dis by (auto simp: exch_def)
  have "map (fmap ?f) C = C" "map (fmap ?f) E = E" "tmap ?f m = m" "tmap ?f r = r"
    using same E(3) by (auto intro!: fmap_same tmap_same)
  then have ren: "tmap ?f T = plug (E @ LeftOf x c r # C) (Nd m n d Tip)" by (simp add: T F_def tmap_plug)
  have "rb_at g self (tmap ?f T)" by (rule rb_at_exch [OF zT in_T g(2,3,4)])
  then have "zip_at g self (E @ LeftOf x c r # C) (Nd m n d Tip)" using ren zip_plug by metis
  moreover have "red_black (plug (E @ LeftOf x c r # C) (Nd m n d Tip))"
    using assms(3) ren red_black_tmap [of ?f T] by (simp add: T_def)
  moreover have "inorder (plug (E @ LeftOf x c r # C) m) = cleft C @ inorder l @ inorder r @ cright C"
    using E(2,3) inorder_plug [of E m] by (simp add: plug_append inorder_plug)
  moreover have "rb_keeps (nodes self C ?t) h g" using g(4) by (simp add: nodes_def T_def)
  ultimately show ?thesis using right g(1) by blast
qed

definition unlinked :: "('k, 'v) rheap \<Rightarrow> nat set \<Rightarrow> nat \<Rightarrow> nat list \<Rightarrow> ('k, 'v) rheap \<Rightarrow> bool" where
  "unlinked h A self as h' \<longleftrightarrow> (\<exists>T. rb_at h' self T \<and> red_black T \<and> inorder T = as) \<and> rb_keeps A h h'"

lemma unlinked_erased:
  assumes "erased_to h1 B self as h'" "B \<subseteq> A" "rb_keeps A h h1"
  shows "unlinked h A self as h'"
  using assms keeps_mono [of B h1 h' A] keeps_trans [of A h h1 h'] unfolding erased_to_def unlinked_def rbz_def by blast

lemma rb_unlink_correct:
  assumes "zip_at h self C (Nd l n c r)" "red_black (plug C (Nd l n c r))"
  shows "\<exists>h'. rb_unlink h self n = Inr h' \<and>
    unlinked h (nodes self C (Nd l n c r)) self (cleft C @ inorder l @ inorder r @ cright C) h'"
proof (cases "l = Tip \<or> r = Tip")
  case True
  let ?t = "if l = Tip then r else l" and ?A = "nodes self C (Nd l n c r)" and ?as = "cleft C @ inorder l @ inorder r @ cright C"
  note reads = zip_reads [OF assms(1)] and nil = zip_children(3,4) [OF assms(1)]
  have as: "inorder (plug C ?t) = ?as" using True by (auto simp: inorder_plug)
  have sub: "nodes self C ?t \<subseteq> ?A" by (auto simp: nodes_at)
  show ?thesis
  proof (cases "?t = Tip \<and> C = []")
    case leaf: True
    then have lr: "l = Tip" "r = Tip" "C = []" using True by (auto split: if_splits)
    note rep = zip_replace [OF assms(1), of Tip]
    have self: "lft h self = NIL" "rlive h self" "self \<noteq> NIL" "n \<noteq> NIL"
      using assms(1) zip_node(2) [OF assms(1)] by (auto simp: lr zip_at_def addrs_ok_def node_at_def)
    have "rb_unlink h self n = Inr (put_right h self NIL)"
      using reads zip_is_root [OF assms(1)] self by (simp add: rb_unlink_def lr)
    moreover have "put_child h self n NIL = put_right h self NIL" using self by (simp add: put_child_def)
    moreover have "red_black Tip" by (simp add: red_black_def)
    ultimately show ?thesis using rep(2,3) lr by (auto simp: unlinked_def intro!: exI [of _ Tip])
  next
    case False
    from unlink_small [OF assms(1) True assms(2)] obtain h1 where
      h1: "rb_replace_subtree h n (troot ?t) = Inr (n, h1)" "rd_color h1 n = Inr c" "rd_left h1 n = Inr (troot l)"
        "rd_right h1 n = Inr (troot r)" "rd_parent h1 n = Inr (paddr self C)" "rb_keeps ?A h h1"
        "c = COLOR_BLACK \<Longrightarrow> ?t \<noteq> Tip \<or> C \<noteq> [] \<Longrightarrow> (\<forall>q. (?t = Tip \<longrightarrow> q = paddr self C) \<longrightarrow>
          (\<exists>h'. rb_balance_for_erase h1 (troot ?t) q = Inr h' \<and> erased_to h1 (nodes self C ?t) self (inorder (plug C ?t)) h'))"
        "c \<noteq> COLOR_BLACK \<Longrightarrow> erased_to h1 (nodes self C ?t) self (inorder (plug C ?t)) h1" by blast
    let ?q = "if ?t = Tip then paddr self C else 0"
    have run: "rb_unlink h self n = (if c = COLOR_BLACK then rb_balance_for_erase h1 (troot ?t) ?q else Inr h1)"
    proof (cases "?t = Tip")
      case tip: True
      then have lr: "l = Tip" "r = Tip" "C \<noteq> []" using True False by (auto split: if_splits)
      then show ?thesis using h1(1-5) reads zip_is_root [OF assms(1)] by (simp add: rb_unlink_def)
    next
      case nt: False
      then show ?thesis using h1(1-5) reads nil True by (cases "l = Tip") (auto simp: rb_unlink_def)
    qed
    have "\<exists>h'. rb_unlink h self n = Inr h' \<and> erased_to h1 (nodes self C ?t) self (inorder (plug C ?t)) h'"
    proof (cases "c = COLOR_BLACK")
      case black: True
      have "?t \<noteq> Tip \<or> C \<noteq> []" using False by blast
      note balance = h1(7) [OF black this]
      have "?t = Tip \<longrightarrow> ?q = paddr self C" by simp
      from mp [OF spec [OF balance] this] obtain h' where
        "rb_balance_for_erase h1 (troot ?t) ?q = Inr h'" "erased_to h1 (nodes self C ?t) self (inorder (plug C ?t)) h'"
        by blast
      then show ?thesis using run black by auto
    next
      case red: False
      then show ?thesis using run h1(8) by simp
    qed
    then show ?thesis using unlinked_erased [OF _ sub h1(6)] as by auto
  qed
next
  case False
  then have l: "l \<noteq> Tip" and r: "r \<noteq> Tip" by simp_all
  let ?A = "nodes self C (Nd l n c r)" and ?as = "cleft C @ inorder l @ inorder r @ cright C"
  note reads = zip_reads [OF assms(1)] and nil = zip_children(3,4) [OF assms(1)]
  from unlink_exchange [OF assms(1) l assms(2)] obtain x h1 D m d where
    x: "rightmost_loop (rbrk h) h (troot l) = Inr x" "rb_swap h n x = Inr h1" "zip_at h1 self D (Nd m n d Tip)"
      "red_black (plug D (Nd m n d Tip))" "D \<noteq> []" "inorder (plug D m) = ?as" "rb_keeps ?A h h1" by blast
  have m: "(if m = Tip then Tip else m) = m" by simp
  from unlink_small [OF x(3) _ x(4)] obtain h2 where
    h2: "rb_replace_subtree h1 n (troot m) = Inr (n, h2)" "rd_color h2 n = Inr d" "rd_left h2 n = Inr (troot m)"
      "rd_parent h2 n = Inr (paddr self D)" "rb_keeps (nodes self D (Nd m n d Tip)) h1 h2"
      "d = COLOR_BLACK \<Longrightarrow> m \<noteq> Tip \<or> D \<noteq> [] \<Longrightarrow> (\<forall>q. (m = Tip \<longrightarrow> q = paddr self D) \<longrightarrow>
        (\<exists>h'. rb_balance_for_erase h2 (troot m) q = Inr h' \<and> erased_to h2 (nodes self D m) self (inorder (plug D m)) h'))"
      "d \<noteq> COLOR_BLACK \<Longrightarrow> erased_to h2 (nodes self D m) self (inorder (plug D m)) h2" unfolding m by blast
  have run: "rb_unlink h self n = (if d = COLOR_BLACK then rb_balance_for_erase h2 (troot m) (paddr self D) else Inr h2)"
    using reads nil l r x(1,2) h2(1-4) zip_reads [OF x(3)] by (simp add: rb_unlink_def)
  have "set (cleft D) \<union> set (inorder m) \<union> set (cright D) = set (inorder (plug D m))" by (auto simp: inorder_plug)
  also have "\<dots> = set (cleft C) \<union> set (inorder l) \<union> set (inorder r) \<union> set (cright C)" using x(6) by auto
  finally have "nodes self D (Nd m n d Tip) = ?A" "nodes self D m \<subseteq> ?A" unfolding nodes_at by auto
  then have keep: "rb_keeps ?A h h2" "nodes self D m \<subseteq> ?A" using x(7) h2(5) keeps_trans by auto
  have "\<exists>h'. rb_unlink h self n = Inr h' \<and> erased_to h2 (nodes self D m) self ?as h'"
    using run h2(6,7) x(5,6) by (cases "d = COLOR_BLACK") auto
  then show ?thesis using unlinked_erased [OF _ keep(2,1)] by blast
qed

lemma rb_at_free:
  assumes "rb_at h self T" "x \<notin> insert self (set (inorder T))"
  shows "rb_at (h\<lparr>rlive := (rlive h)(x := False)\<rparr>) self T"
proof -
  let ?h = "h\<lparr>rlive := (rlive h)(x := False)\<rparr>"
  have "tree_at ?h self T"
    by (rule tree_at_cong [of h]) (use assms in \<open>auto simp: zip_at_def at_node_def\<close>)
  then show ?thesis using assms by (auto simp: zip_at_def addrs_ok_def)
qed

theorem rb_erase_correct:
  assumes "rb_at h self T" "red_black T" "inorder T = xs @ x # ys"
  shows "\<exists>h' T'. rb_erase h self x = Inr h' \<and> rb_at h' self T' \<and> red_black T' \<and> inorder T' = xs @ ys \<and>
    rlive h' = (rlive h)(x := False) \<and> nkey h' = nkey h \<and> nval h' = nval h \<and> rbrk h' = rbrk h \<and> rroom h' = rroom h"
proof -
  from zip_find [OF assms(1,3)] obtain C l c r where
    C: "zip_at h self C (Nd l x c r)" "plug C (Nd l x c r) = T" "xs = cleft C @ inorder l" "ys = inorder r @ cright C" by auto
  from rb_unlink_correct [OF C(1)] C assms(2) obtain h1 T' where
    h1: "rb_unlink h self x = Inr h1" "rb_at h1 self T'" "red_black T'" "inorder T' = xs @ ys" "rb_keeps (nodes self C (Nd l x c r)) h h1"
    by (auto simp: unlinked_def)
  let ?h = "h1\<lparr>rlive := (rlive h1)(x := False)\<rparr>"
  have live: "rlive h1 x" "x \<noteq> 0" using zip_node(1,3) [OF C(1)] h1(5) by (simp_all add: rb_keeps_def)
  have "distinct (self # inorder T)" using assms(1) by (simp add: zip_at_def addrs_ok_def)
  then have "x \<notin> insert self (set (inorder T'))" using assms(3) h1(4) by auto
  then have "rb_at ?h self T'" by (rule rb_at_free [OF h1(2)])
  moreover have "rb_erase h self x = Inr ?h" using h1(1) live by (simp add: rb_erase_def free_rb_def)
  ultimately show ?thesis using h1(3-5) by (intro exI [of _ ?h] exI [of _ T']) (simp add: rb_keeps_def)
qed

end
