(* ===== verification/Cstl_Rbtree_Clear.thy ===== *)
theory Cstl_Rbtree_Clear
  imports Cstl_Rbtree_Remove
begin

text \<open>
  Making and freeing trees: \<open>RBTree_new\<close> gives an empty tree, \<open>RBTree_clear\<close> frees every node and nothing
  else, and its loop ends after two rounds for every node but one.
\<close>

lemma zip_free:
  assumes "zip_at h self C t" "x \<notin> nodes self C t"
  shows "zip_at (h\<lparr>rlive := (rlive h)(x := False)\<rparr>) self C t"
proof -
  have "rb_at h self (plug C t)" using assms(1) zip_plug by blast
  then have "rb_at (h\<lparr>rlive := (rlive h)(x := False)\<rparr>) self (plug C t)" using rb_at_free assms(2) by (simp add: nodes_def)
  then show ?thesis using zip_plug by blast
qed

text \<open>A leaf is cut off and freed.\<close>

lemma clear_leaf:
  assumes "zip_at h self C (Nd Tip a c Tip)"
  shows "\<exists>h'. rb_clear_loop (Suc k) h a = (if C = [] then Inr h' else rb_clear_loop k h' (paddr self C)) \<and>
    zip_at h' self C Tip \<and> rlive h' = (rlive h)(a := False) \<and> nkey h' = nkey h \<and> nval h' = nval h \<and> rbrk h' = rbrk h \<and> rroom h' = rroom h"
proof -
  let ?p = "paddr self C" and ?h1 = "put_child h (paddr self C) a NIL"
  let ?h = "?h1\<lparr>rlive := (rlive ?h1)(a := False)\<rparr>"
  note reads = zip_reads [OF assms] and node = zip_node [OF assms] and rep = zip_replace [OF assms, of Tip, simplified]
  have ok: "addrs_ok h self (cleft C @ inorder (Nd Tip a c Tip) @ cright C)" and ctx: "ctx_at h self a C"
    using assms by (auto simp: zip_at_def)
  note p = paddr_fact [OF ctx ok]
  have pa: "?p \<noteq> a" using p(4) [of a] by simp
  have "rd_left h ?p = Inr (lft h ?p)" using p by (simp add: rd_left_def)
  moreover have "(if a = lft h ?p then wr_left h ?p NIL else wr_right h ?p NIL) = Inr ?h1"
    using p by (simp add: wr_left_def wr_right_def put_child_def put_left_def put_right_def)
  moreover have "rd_parent ?h1 a = Inr ?p" using node by (simp add: rd_parent_def)
  moreover have "free_rb ?h1 a = Inr ?h" using node by (simp add: free_rb_def)
  moreover have z: "zip_at ?h self C Tip"
    using zip_free [OF rep(2), of a] ok by (auto simp: nodes_at addrs_ok_def)
  moreover have "is_head ?h ?p = Inr (C = [])"
    using zip_parent_color [OF z] zip_frame_head [of ?h self _ _ Tip] z by (cases C) (auto simp: is_head_def)
  ultimately have "rb_clear_loop (Suc k) h a = (if C = [] then Inr ?h else rb_clear_loop k ?h ?p)"
    using reads by simp
  then show ?thesis using z by (intro exI [of _ ?h]) simp
qed

fun tsize :: "rtree \<Rightarrow> nat" where
  "tsize Tip = 0"
| "tsize (Nd l a c r) = Suc (tsize l + tsize r)"

lemma length_inorder: "length (inorder t) = tsize t"
  by (induction t) auto

lemma rb_clear_loop_correct:
  assumes "zip_at h self C t" "t \<noteq> Tip"
  shows "\<exists>h'. rb_clear_loop (2 * tsize t - 1 + k) h (troot t) = (if C = [] then Inr h' else rb_clear_loop k h' (paddr self C)) \<and>
    zip_at h' self C Tip \<and> rlive h' = (\<lambda>x. rlive h x \<and> x \<notin> set (inorder t)) \<and> nkey h' = nkey h \<and> nval h' = nval h \<and>
    rbrk h' = rbrk h \<and> rroom h' = rroom h"
  using assms
proof (induction t arbitrary: C h k)
  case (Nd l a c r)
  let ?kr = "2 * tsize r + k"
  have left: "\<exists>h1. rb_clear_loop (2 * tsize (Nd l a c r) - 1 + k) h a = rb_clear_loop (Suc ?kr) h1 a \<and>
      zip_at h1 self C (Nd Tip a c r) \<and> rlive h1 = (\<lambda>x. rlive h x \<and> x \<notin> set (inorder l)) \<and> nkey h1 = nkey h \<and> nval h1 = nval h \<and>
      rbrk h1 = rbrk h \<and> rroom h1 = rroom h"
  proof (cases "l = Tip")
    case True
    then show ?thesis using Nd.prems(1) by (intro exI [of _ h]) simp
  next
    case False
    note sub = zip_children [OF Nd.prems(1)] and reads = zip_reads [OF Nd.prems(1)]
    have n: "2 * tsize (Nd l a c r) - 1 + k = Suc (2 * tsize l - 1 + Suc ?kr)" using False by (cases l) auto
    have "rb_clear_loop (Suc (2 * tsize l - 1 + Suc ?kr)) h a = rb_clear_loop (2 * tsize l - 1 + Suc ?kr) h (troot l)"
      using reads(1) sub(3) False by simp
    then have run: "rb_clear_loop (2 * tsize (Nd l a c r) - 1 + k) h a = rb_clear_loop (2 * tsize l - 1 + Suc ?kr) h (troot l)"
      unfolding n .
    show ?thesis using Nd.IH(1) [OF sub(1) False, of "Suc ?kr"] unfolding run by (simp add: zip_up del: rb_clear_loop.simps)
  qed
  then obtain h1 where
    h1: "rb_clear_loop (2 * tsize (Nd l a c r) - 1 + k) h a = rb_clear_loop (Suc ?kr) h1 a" "zip_at h1 self C (Nd Tip a c r)"
      "rlive h1 = (\<lambda>x. rlive h x \<and> x \<notin> set (inorder l))" "nkey h1 = nkey h" "nval h1 = nval h" "rbrk h1 = rbrk h" "rroom h1 = rroom h"
    by blast
  have right: "\<exists>h2. rb_clear_loop (Suc ?kr) h1 a = rb_clear_loop (Suc k) h2 a \<and>
      zip_at h2 self C (Nd Tip a c Tip) \<and> rlive h2 = (\<lambda>x. rlive h1 x \<and> x \<notin> set (inorder r)) \<and> nkey h2 = nkey h1 \<and> nval h2 = nval h1 \<and>
      rbrk h2 = rbrk h1 \<and> rroom h2 = rroom h1"
  proof (cases "r = Tip")
    case True
    then show ?thesis using h1(2) by (intro exI [of _ h1]) simp
  next
    case False
    note sub = zip_children [OF h1(2)] and reads = zip_reads [OF h1(2)]
    have n: "?kr = 2 * tsize r - 1 + Suc k" using False by (cases r) auto
    have "rb_clear_loop (Suc ?kr) h1 a = rb_clear_loop ?kr h1 (troot r)"
      using reads(1,2) sub(4) False by simp
    then have run: "rb_clear_loop (Suc ?kr) h1 a = rb_clear_loop (2 * tsize r - 1 + Suc k) h1 (troot r)"
      unfolding n .
    show ?thesis using Nd.IH(2) [OF sub(2) False, of "Suc k"] unfolding run by (simp add: zip_up del: rb_clear_loop.simps)
  qed
  then obtain h2 where
    h2: "rb_clear_loop (Suc ?kr) h1 a = rb_clear_loop (Suc k) h2 a" "zip_at h2 self C (Nd Tip a c Tip)"
      "rlive h2 = (\<lambda>x. rlive h1 x \<and> x \<notin> set (inorder r))" "nkey h2 = nkey h1" "nval h2 = nval h1" "rbrk h2 = rbrk h1" "rroom h2 = rroom h1"
    by blast
  from clear_leaf [OF h2(2), of k] obtain h3 where
    h3: "rb_clear_loop (Suc k) h2 a = (if C = [] then Inr h3 else rb_clear_loop k h3 (paddr self C))" "zip_at h3 self C Tip"
      "rlive h3 = (rlive h2)(a := False)" "nkey h3 = nkey h2" "nval h3 = nval h2" "rbrk h3 = rbrk h2" "rroom h3 = rroom h2" by blast
  have "rlive h3 = (\<lambda>x. rlive h x \<and> x \<notin> set (inorder (Nd l a c r)))" using h1(3) h2(3) h3(3) by (auto simp: fun_eq_iff)
  then show ?case using h1 h2 h3 by (intro exI [of _ h3]) (simp del: rb_clear_loop.simps)
qed simp

theorem rb_clear_correct:
  assumes "rb_at h self T"
  shows "\<exists>h'. rb_clear h self = Inr h' \<and> rb_at h' self Tip \<and> rlive h' = (\<lambda>x. rlive h x \<and> x \<notin> set (inorder T)) \<and>
    nkey h' = nkey h \<and> nval h' = nval h \<and> rbrk h' = rbrk h \<and> rroom h' = rroom h"
proof (cases "T = Tip")
  case True
  then show ?thesis using assms rb_get_root_at [OF assms] by (auto simp: rb_clear_def)
next
  case False
  have "tsize T < rbrk h" using zip_depth(2) [OF assms] by (simp add: length_inorder)
  then have "2 * rbrk h = 2 * tsize T - 1 + (2 * rbrk h - (2 * tsize T - 1))" by simp
  then show ?thesis
    using rb_clear_loop_correct [OF assms False, of "2 * rbrk h - (2 * tsize T - 1)"] rb_get_root_at [OF assms]
      zip_root_nil [OF assms] False by (simp add: rb_clear_def del: rb_clear_loop.simps)
qed

theorem rb_delete_correct:
  assumes "rb_at h self T"
  shows "\<exists>h'. rb_delete h self = Inr h' \<and> rlive h' = (\<lambda>x. rlive h x \<and> x \<notin> insert self (set (inorder T))) \<and>
    nkey h' = nkey h \<and> nval h' = nval h \<and> rbrk h' = rbrk h \<and> rroom h' = rroom h"
proof -
  from rb_clear_correct [OF assms] obtain h1 where
    h1: "rb_clear h self = Inr h1" "rb_at h1 self Tip" "rlive h1 = (\<lambda>x. rlive h x \<and> x \<notin> set (inorder T))" "nkey h1 = nkey h" "nval h1 = nval h"
      "rbrk h1 = rbrk h" "rroom h1 = rroom h" by blast
  have "rlive h1 self" "self \<noteq> 0" using h1(2) by (auto simp: zip_at_def addrs_ok_def)
  then show ?thesis using h1 by (auto simp: rb_delete_def free_rb_def fun_eq_iff)
qed

lemma rb_new_correct:
  assumes "2 \<le> rbrk h"
  shows "\<exists>h'. rb_new h = (if rroom h = 0 then Inr (0, h) else Inr (rbrk h, h')) \<and>
    (0 < rroom h \<longrightarrow> rb_at h' (rbrk h) Tip \<and> rlive h' = (rlive h)(rbrk h := True) \<and> nkey h' = nkey h \<and> nval h' = nval h \<and>
      rbrk h' = Suc (rbrk h) \<and> rroom h' = rroom h - 1 \<and>
      (\<forall>x. x \<noteq> rbrk h \<longrightarrow> lft h' x = lft h x \<and> rgt h' x = rgt h x \<and> par h' x = par h x \<and> clr h' x = clr h x))"
proof (cases "rroom h = 0")
  case False
  have "rbrk h \<noteq> NIL" using assms by (simp add: NIL_def)
  then show ?thesis using False assms
    by (auto simp: rb_new_def malloc_rb_def wr_left_def wr_right_def wr_parent_def wr_color_def zip_at_def addrs_ok_def NIL_def)
qed (simp add: rb_new_def malloc_rb_def)

end
