(* ===== verification/Cstl_Map.thy ===== *)
theory Cstl_Map
  imports Cstl_Rbtree_Clear
begin

text \<open>
  The containers over the red-black tree: the functions of \<open>CSTL_RBTREE_WRAPPER_IMPLEMENT\<close>, which all of
  them share, and those of \<open>cstl/map.h\<close> and \<open>cstl/set.h\<close>.  A set is a map with values of no content.

  A container is its record, whose own block is at \<open>cself\<close>; the tree's head is at \<open>ctree\<close>.  \<open>cmp\<close> is the macro
  argument \<open>Compare\<close>.  What a function returns through a pointer to a flag is part of its result.
\<close>

subsection \<open>Containers\<close>

record rcont =
  cself :: nat
  ctree :: nat
  csize :: nat

definition cont_new :: "('k, 'v) rheap \<Rightarrow> (rcont option \<times> ('k, 'v) rheap) res" where
  "cont_new h = (let (self, h1) = malloc_rb h in if self = 0 then Inr (None, h1) else
     rbind (rb_new h1) (\<lambda>(t, h2). if t = 0 then rbind (free_rb h2 self) (\<lambda>h3. Inr (None, h3))
       else Inr (Some \<lparr>cself = self, ctree = t, csize = 0\<rparr>, h2)))"

definition cont_delete :: "('k, 'v) rheap \<Rightarrow> rcont option \<Rightarrow> ('k, 'v) rheap res" where
  "cont_delete h self = (case self of None \<Rightarrow> Inr h
     | Some s \<Rightarrow> rbind (rb_delete h (ctree s)) (\<lambda>h1. free_rb h1 (cself s)))"

definition cont_clear :: "('k, 'v) rheap \<Rightarrow> rcont \<Rightarrow> (rcont \<times> ('k, 'v) rheap) res" where
  "cont_clear h s = rbind (rb_clear h (ctree s)) (\<lambda>h1. Inr (s\<lparr>csize := 0\<rparr>, h1))"

definition cont_empty :: "('k, 'v) rheap \<Rightarrow> rcont \<Rightarrow> bool res" where
  "cont_empty h s = rb_empty h (ctree s)"

definition cont_size :: "rcont \<Rightarrow> nat" where
  "cont_size s = csize s"

definition cont_erase :: "('k, 'v) rheap \<Rightarrow> rcont \<Rightarrow> nat \<Rightarrow> (nat \<times> rcont \<times> ('k, 'v) rheap) res" where
  "cont_erase h s pos = rbind (rb_next h pos) (\<lambda>tmp. rbind (rb_erase h (ctree s) pos) (\<lambda>h1.
     Inr (tmp, s\<lparr>csize := sz_sub (csize s) 1\<rparr>, h1)))"

fun cont_erase_range_loop :: "nat \<Rightarrow> ('k, 'v) rheap \<Rightarrow> rcont \<Rightarrow> nat \<Rightarrow> nat \<Rightarrow> (nat \<times> rcont \<times> ('k, 'v) rheap) res" where
  "cont_erase_range_loop 0 h s pos last' = (if pos \<noteq> last' then Inl OutOfFuel else Inr (pos, s, h))"
| "cont_erase_range_loop (Suc fuel) h s pos last' = (if pos \<noteq> last' then
     rbind (cont_erase h s pos) (\<lambda>(q, s1, h1). cont_erase_range_loop fuel h1 s1 q last') else Inr (pos, s, h))"

definition cont_erase_range :: "('k, 'v) rheap \<Rightarrow> rcont \<Rightarrow> nat \<Rightarrow> nat \<Rightarrow> (nat \<times> rcont \<times> ('k, 'v) rheap) res" where
  "cont_erase_range h s first last' = cont_erase_range_loop (rbrk h) h s first last'"

fun cont_erase_key_loop :: "nat \<Rightarrow> ('k, 'v) rheap \<Rightarrow> rcont \<Rightarrow> nat \<Rightarrow> nat \<Rightarrow> nat \<Rightarrow> (nat \<times> rcont \<times> ('k, 'v) rheap) res" where
  "cont_erase_key_loop 0 h s pos last' n = (if pos \<noteq> last' then Inl OutOfFuel else Inr (n, s, h))"
| "cont_erase_key_loop (Suc fuel) h s pos last' n = (if pos \<noteq> last' then
     rbind (cont_erase h s pos) (\<lambda>(q, s1, h1). cont_erase_key_loop fuel h1 s1 q last' (sz (n + 1))) else Inr (n, s, h))"

definition cont_count :: "('k \<Rightarrow> 'k \<Rightarrow> int) \<Rightarrow> ('k, 'v) rheap \<Rightarrow> rcont \<Rightarrow> 'k \<Rightarrow> nat res" where
  "cont_count cmp h s k = rb_count cmp h (ctree s) k"

definition cont_find :: "('k \<Rightarrow> 'k \<Rightarrow> int) \<Rightarrow> ('k, 'v) rheap \<Rightarrow> rcont \<Rightarrow> 'k \<Rightarrow> nat res" where
  "cont_find cmp h s k = rb_find cmp h (ctree s) k"

definition cont_lower_bound :: "('k \<Rightarrow> 'k \<Rightarrow> int) \<Rightarrow> ('k, 'v) rheap \<Rightarrow> rcont \<Rightarrow> 'k \<Rightarrow> nat res" where
  "cont_lower_bound cmp h s k = rb_lower_bound cmp h (ctree s) k"

definition cont_upper_bound :: "('k \<Rightarrow> 'k \<Rightarrow> int) \<Rightarrow> ('k, 'v) rheap \<Rightarrow> rcont \<Rightarrow> 'k \<Rightarrow> nat res" where
  "cont_upper_bound cmp h s k = rb_upper_bound cmp h (ctree s) k"

definition cont_equal_range :: "('k \<Rightarrow> 'k \<Rightarrow> int) \<Rightarrow> ('k, 'v) rheap \<Rightarrow> rcont \<Rightarrow> 'k \<Rightarrow> (nat \<times> nat) res" where
  "cont_equal_range cmp h s k = rbind (rb_lower_bound cmp h (ctree s) k) (\<lambda>a.
     rbind (rb_upper_bound cmp h (ctree s) k) (\<lambda>b. Inr (a, b)))"

definition cont_erase_key :: "('k \<Rightarrow> 'k \<Rightarrow> int) \<Rightarrow> ('k, 'v) rheap \<Rightarrow> rcont \<Rightarrow> 'k \<Rightarrow> (nat \<times> rcont \<times> ('k, 'v) rheap) res" where
  "cont_erase_key cmp h s k = rbind (cont_lower_bound cmp h s k) (\<lambda>pos. rbind (cont_upper_bound cmp h s k) (\<lambda>last'.
     cont_erase_key_loop (rbrk h) h s pos last' 0))"

definition cont_begin :: "('k, 'v) rheap \<Rightarrow> rcont \<Rightarrow> nat res" where
  "cont_begin h s = rb_begin h (ctree s)"

definition cont_end :: "('k, 'v) rheap \<Rightarrow> rcont \<Rightarrow> nat res" where
  "cont_end h s = rb_end h (ctree s)"

definition cont_rbegin :: "('k, 'v) rheap \<Rightarrow> rcont \<Rightarrow> nat res" where
  "cont_rbegin h s = rb_rbegin h (ctree s)"

definition cont_rend :: "('k, 'v) rheap \<Rightarrow> rcont \<Rightarrow> nat res" where
  "cont_rend h s = rb_rend h (ctree s)"

definition cont_next :: "('k, 'v) rheap \<Rightarrow> nat \<Rightarrow> nat res" where
  "cont_next h pos = rb_next h pos"

definition cont_prev :: "('k, 'v) rheap \<Rightarrow> nat \<Rightarrow> nat res" where
  "cont_prev h pos = rb_prev h pos"

definition cont_swap :: "rcont \<Rightarrow> rcont \<Rightarrow> rcont \<times> rcont" where
  "cont_swap s x = (s\<lparr>ctree := ctree x, csize := csize x\<rparr>, x\<lparr>ctree := ctree s, csize := csize s\<rparr>)"

subsection \<open>Maps and sets\<close>

definition map_new_node :: "('k, 'v) rheap \<Rightarrow> 'k \<Rightarrow> 'v \<Rightarrow> rbcolor \<Rightarrow> nat \<times> ('k, 'v) rheap" where
  "map_new_node h k v c = (let (n, h1) = malloc_rb h in if n = 0 then (0, h1) else
     (n, h1\<lparr>nkey := (nkey h1)(n := k), nval := (nval h1)(n := v), lft := (lft h1)(n := NIL), rgt := (rgt h1)(n := NIL),
        par := (par h1)(n := NIL), clr := (clr h1)(n := c)\<rparr>))"

text \<open>The node of a set has no value.\<close>

definition set_new_node :: "('k, unit) rheap \<Rightarrow> 'k \<Rightarrow> rbcolor \<Rightarrow> nat \<times> ('k, unit) rheap" where
  "set_new_node h k c = map_new_node h k () c"

text \<open>What is at the addresses that \<open>key\<close>, \<open>value\<close> and \<open>data\<close> return.\<close>

definition rd_val :: "('k, 'v) rheap \<Rightarrow> nat \<Rightarrow> 'v res" where
  "rd_val h a = (if a = NIL then Inl UninitRead else nacc h a (nval h a))"

definition map_key :: "('k, 'v) rheap \<Rightarrow> nat \<Rightarrow> 'k res" where
  "map_key h pos = rd_key h pos"

definition map_value :: "('k, 'v) rheap \<Rightarrow> nat \<Rightarrow> 'v res" where
  "map_value h pos = rd_val h pos"

definition set_data :: "('k, unit) rheap \<Rightarrow> nat \<Rightarrow> 'k res" where
  "set_data h pos = rd_key h pos"

definition multimap_insert_ref ::
  "('k \<Rightarrow> 'k \<Rightarrow> int) \<Rightarrow> ('k, 'v) rheap \<Rightarrow> rcont \<Rightarrow> 'k \<Rightarrow> 'v \<Rightarrow> (nat \<times> rcont \<times> ('k, 'v) rheap) res" where
  "multimap_insert_ref cmp h s k v = (let (pos, h1) = map_new_node h k v COLOR_RED in
     if pos \<noteq> 0 then rbind (rb_insert cmp h1 (ctree s) pos) (\<lambda>h2. Inr (pos, s\<lparr>csize := sz (csize s + 1)\<rparr>, h2))
     else Inr (pos, s, h1))"

definition multimap_insert ::
  "('k \<Rightarrow> 'k \<Rightarrow> int) \<Rightarrow> ('k, 'v) rheap \<Rightarrow> rcont \<Rightarrow> 'k \<Rightarrow> 'v \<Rightarrow> (nat \<times> rcont \<times> ('k, 'v) rheap) res" where
  "multimap_insert cmp h s k v = multimap_insert_ref cmp h s k v"

definition map_insert_ref ::
  "('k \<Rightarrow> 'k \<Rightarrow> int) \<Rightarrow> ('k, 'v) rheap \<Rightarrow> rcont \<Rightarrow> 'k \<Rightarrow> 'v \<Rightarrow> (nat \<times> bool \<times> rcont \<times> ('k, 'v) rheap) res" where
  "map_insert_ref cmp h s k v = rbind (rb_find cmp h (ctree s) k) (\<lambda>pos. rbind (rb_end h (ctree s)) (\<lambda>e.
     if pos = e then (let (pos, h1) = map_new_node h k v COLOR_RED in
       if pos \<noteq> 0 then rbind (rb_insert cmp h1 (ctree s) pos) (\<lambda>h2. Inr (pos, True, s\<lparr>csize := sz (csize s + 1)\<rparr>, h2))
       else Inr (pos, False, s, h1))
     else Inr (pos, False, s, h)))"

definition map_insert ::
  "('k \<Rightarrow> 'k \<Rightarrow> int) \<Rightarrow> ('k, 'v) rheap \<Rightarrow> rcont \<Rightarrow> 'k \<Rightarrow> 'v \<Rightarrow> (nat \<times> bool \<times> rcont \<times> ('k, 'v) rheap) res" where
  "map_insert cmp h s k v = map_insert_ref cmp h s k v"

text \<open>\<open>zero\<close> is the value of the constant node, which a new element gets; the result is the element whose
  value's address the function returns.\<close>

definition map_at :: "('k \<Rightarrow> 'k \<Rightarrow> int) \<Rightarrow> 'v \<Rightarrow> ('k, 'v) rheap \<Rightarrow> rcont \<Rightarrow> 'k \<Rightarrow> (nat \<times> rcont \<times> ('k, 'v) rheap) res" where
  "map_at cmp zero h s k = rbind (rb_find cmp h (ctree s) k) (\<lambda>pos. rbind (rb_end h (ctree s)) (\<lambda>e.
     if pos = e then (let (pos, h1) = map_new_node h k zero COLOR_RED in
       if pos \<noteq> 0 then rbind (rb_insert cmp h1 (ctree s) pos) (\<lambda>h2. Inr (pos, s\<lparr>csize := sz (csize s + 1)\<rparr>, h2))
       else Inr (0, s, h1))
     else Inr (pos, s, h)))"

definition set_insert ::
  "('k \<Rightarrow> 'k \<Rightarrow> int) \<Rightarrow> ('k, unit) rheap \<Rightarrow> rcont \<Rightarrow> 'k \<Rightarrow> (nat \<times> bool \<times> rcont \<times> ('k, unit) rheap) res" where
  "set_insert cmp h s k = rbind (rb_find cmp h (ctree s) k) (\<lambda>pos. rbind (rb_end h (ctree s)) (\<lambda>e.
     if pos = e then (let (pos, h1) = set_new_node h k COLOR_RED in
       if pos \<noteq> 0 then rbind (rb_insert cmp h1 (ctree s) pos) (\<lambda>h2. Inr (pos, True, s\<lparr>csize := sz (csize s + 1)\<rparr>, h2))
       else Inr (pos, False, s, h1))
     else Inr (pos, False, s, h)))"

definition multiset_insert :: "('k \<Rightarrow> 'k \<Rightarrow> int) \<Rightarrow> ('k, unit) rheap \<Rightarrow> rcont \<Rightarrow> 'k \<Rightarrow> (nat \<times> rcont \<times> ('k, unit) rheap) res" where
  "multiset_insert cmp h s k = (let (pos, h1) = set_new_node h k COLOR_RED in
     if pos \<noteq> 0 then rbind (rb_insert cmp h1 (ctree s) pos) (\<lambda>h2. Inr (pos, s\<lparr>csize := sz (csize s + 1)\<rparr>, h2))
     else Inr (pos, s, h1))"

subsection \<open>What a container holds\<close>

text \<open>The nodes \<open>as\<close> in their order.  The size is that of the list as far as 64 bits go.\<close>

definition cont_holds :: "('k \<Rightarrow> 'k \<Rightarrow> int) \<Rightarrow> ('k, 'v) rheap \<Rightarrow> rcont \<Rightarrow> nat list \<Rightarrow> bool" where
  "cont_holds cmp h s as \<longleftrightarrow> csize s = sz (length as) \<and> in_order cmp (nkey h) as \<and>
     (\<exists>T. rb_at h (ctree s) T \<and> red_black T \<and> inorder T = as)"

lemma cont_holdsD:
  assumes "cont_holds cmp h s as"
  shows "csize s = sz (length as)" "in_order cmp (nkey h) as" "\<exists>T. rb_at h (ctree s) T \<and> red_black T \<and> inorder T = as"
    "distinct as" "ctree s \<notin> set as" "x \<in> set as \<Longrightarrow> x < rbrk h" "x \<in> set as \<Longrightarrow> x \<noteq> 0" "ctree s < rbrk h" "2 < rbrk h"
    "length as \<le> rbrk h"
proof -
  show *: "csize s = sz (length as)" "in_order cmp (nkey h) as" "\<exists>T. rb_at h (ctree s) T \<and> red_black T \<and> inorder T = as"
    using assms by (auto simp: cont_holds_def)
  then obtain T where T: "rb_at h (ctree s) T" "inorder T = as" by blast
  then have ok: "addrs_ok h (ctree s) as" by (simp add: zip_at_def)
  then show "distinct as" "ctree s \<notin> set as" "x \<in> set as \<Longrightarrow> x < rbrk h" "ctree s < rbrk h"
    by (auto simp: addrs_ok_def)
  show "x \<in> set as \<Longrightarrow> x \<noteq> 0" by (rule addrs_okD(6) [OF ok])
  show "2 < rbrk h" "length as \<le> rbrk h" using addrs_ok_length [OF ok] by simp_all
qed

text \<open>Nothing outside the nodes and the head matters.\<close>

lemma rb_at_agree:
  assumes "rb_at h self T" "\<And>x. x \<in> insert self (set (inorder T)) \<Longrightarrow> at_node h h' x \<and> par h' x = par h x" "rbrk h \<le> rbrk h'"
  shows "rb_at h' self T" 
proof -
  have "clr h' self = clr h self" "lft h' self = lft h self" "rgt h' self = rgt h self" "rlive h' self = rlive h self"
    using assms(2) [of self] by (auto simp: at_node_def)
  moreover have "tree_at h' self T" by (rule tree_at_cong [of h]) (use assms in \<open>auto simp: zip_at_def\<close>)
  ultimately show ?thesis using assms(1,3) by (auto simp: zip_at_def addrs_ok_def)
qed

lemma in_order_cong: "(\<And>x. x \<in> set as \<Longrightarrow> key' x = key x) \<Longrightarrow> in_order cmp key' as \<longleftrightarrow> in_order cmp key as"
  unfolding in_order_def by (induction as) auto

lemma cont_holds_agree:
  assumes "cont_holds cmp h s as" "\<And>x. x \<in> insert (ctree s) (set as) \<Longrightarrow> at_node h h' x \<and> par h' x = par h x"
    "\<And>x. x \<in> set as \<Longrightarrow> nkey h' x = nkey h x" "rbrk h \<le> rbrk h'"
  shows "cont_holds cmp h' s as"
  using assms rb_at_agree [of h "ctree s"] in_order_cong [of as "nkey h'" "nkey h" cmp] unfolding cont_holds_def by blast

subsection \<open>New nodes and insertion\<close>

lemma map_new_node_correct:
  assumes "2 \<le> rbrk h"
  shows "\<exists>h'. map_new_node h k v c = (if rroom h = 0 then (0, h) else (rbrk h, h')) \<and>
    (0 < rroom h \<longrightarrow> (c = COLOR_RED \<longrightarrow> leaf_node h' (rbrk h)) \<and> nkey h' = (nkey h)(rbrk h := k) \<and> nval h' = (nval h)(rbrk h := v) \<and>
      rlive h' = (rlive h)(rbrk h := True) \<and> rbrk h' = Suc (rbrk h) \<and> rroom h' = rroom h - 1 \<and>
      (\<forall>x. x \<noteq> rbrk h \<longrightarrow> at_node h h' x \<and> par h' x = par h x))"
  using assms by (auto simp: map_new_node_def malloc_rb_def leaf_node_def at_node_def NIL_def)

text \<open>The heap after the insertion of a new node, which is the next address.\<close>

definition added :: "('k \<Rightarrow> 'k \<Rightarrow> int) \<Rightarrow> ('k, 'v) rheap \<Rightarrow> rcont \<Rightarrow> nat list \<Rightarrow> 'k \<Rightarrow> 'v \<Rightarrow> ('k, 'v) rheap \<Rightarrow> rcont \<Rightarrow> bool" where
  "added cmp h s as k v h' s' \<longleftrightarrow> cont_holds cmp h' s' (insert_place cmp (nkey h') (rbrk h) as) \<and> ctree s' = ctree s \<and> cself s' = cself s \<and>
     nkey h' = (nkey h)(rbrk h := k) \<and> nval h' = (nval h)(rbrk h := v) \<and> rlive h' = (rlive h)(rbrk h := True) \<and>
     rbrk h' = Suc (rbrk h) \<and> rroom h' = rroom h - 1 \<and>
     (\<forall>x. x \<noteq> rbrk h \<and> x \<notin> insert (ctree s) (set as) \<longrightarrow> at_node h h' x \<and> par h' x = par h x)"

lemma insert_place_length: "length (insert_place cmp key x as) = Suc (length as)"
  by (induction as) (auto simp: insert_place_def)

lemma sz_add: "sz (sz a + b) = sz (a + b)"
  by (simp add: sz_def mod_simps)

lemma sz_Suc: "sz (Suc (sz n)) = sz (Suc n)"
  by (simp add: sz_def mod_Suc_eq)

lemma insert_new_node:
  assumes "total_cmp cmp" "cont_holds cmp h s as" "0 < rroom h"
  shows "\<exists>h1 h2. map_new_node h k v COLOR_RED = (rbrk h, h1) \<and> rb_insert cmp h1 (ctree s) (rbrk h) = Inr h2 \<and>
    added cmp h s as k v h2 (s\<lparr>csize := sz (csize s + 1)\<rparr>)"
proof -
  note D = cont_holdsD [OF assms(2)]
  obtain T where T: "rb_at h (ctree s) T" "red_black T" "inorder T = as" using D(3) by blast
  have "2 \<le> rbrk h" using D(9) by simp
  from map_new_node_correct [OF this, of k v COLOR_RED] assms(3) obtain h1 where
    h1: "map_new_node h k v COLOR_RED = (rbrk h, h1)" "leaf_node h1 (rbrk h)" "nkey h1 = (nkey h)(rbrk h := k)" "nval h1 = (nval h)(rbrk h := v)"
      "rlive h1 = (rlive h)(rbrk h := True)" "rbrk h1 = Suc (rbrk h)" "rroom h1 = rroom h - 1" "\<And>x. x \<noteq> rbrk h \<Longrightarrow> at_node h h1 x \<and> par h1 x = par h x"
    by auto
  have out: "rbrk h \<notin> insert (ctree s) (set as)" using D(6,8) by auto
  have ne: "x \<noteq> rbrk h" if "x \<in> insert (ctree s) (set (inorder T))" for x using that out T(3) by auto
  have at: "rb_at h1 (ctree s) T" by (rule rb_at_agree [OF T(1) h1(8)]) (use ne h1(6) in auto)
  have ord: "in_order cmp (nkey h1) (inorder T)"
  proof -
    have "nkey h1 x = nkey h x" if "x \<in> set as" for x using that h1(3) out by auto
    then show ?thesis using in_order_cong [of as "nkey h1" "nkey h" cmp] D(2) T(3) by simp
  qed
  from rb_insert_correct [OF assms(1) at T(2) ord h1(2)] out T(3) obtain h2 T' where
    h2: "rb_insert cmp h1 (ctree s) (rbrk h) = Inr h2" "rb_at h2 (ctree s) T'" "red_black T'"
      "inorder T' = insert_place cmp (nkey h1) (rbrk h) as" "rb_keeps (insert (rbrk h) (insert (ctree s) (set as))) h1 h2" by auto
  have key: "nkey h2 = nkey h1" using h2(5) by (simp add: rb_keeps_def)
  have "in_order cmp (nkey h2) (insert_place cmp (nkey h2) (rbrk h) as)"
    using insert_place_in_order [OF assms(1)] ord T(3) key by metis
  moreover have "sz (csize s + 1) = sz (length (insert_place cmp (nkey h2) (rbrk h) as))"
    using D(1) by (simp add: insert_place_length sz_Suc)
  ultimately have "cont_holds cmp h2 (s\<lparr>csize := sz (csize s + 1)\<rparr>) (insert_place cmp (nkey h2) (rbrk h) as)"
    using h2(2-4) key unfolding cont_holds_def by auto
  moreover have "at_node h h2 x \<and> par h2 x = par h x" if "x \<noteq> rbrk h" "x \<notin> insert (ctree s) (set as)" for x
    using h1(8) [OF that(1)] h2(5) that by (auto simp: rb_keeps_def at_node_def)
  ultimately have "added cmp h s as k v h2 (s\<lparr>csize := sz (csize s + 1)\<rparr>)"
    using h1 h2(5) key by (simp add: added_def rb_keeps_def)
  then show ?thesis using h1(1) h2(1) by blast
qed

lemma map_new_node_no_room: "rroom h = 0 \<Longrightarrow> map_new_node h k v c = (0, h)"
  by (simp add: map_new_node_def malloc_rb_def)

theorem multimap_insert_correct:
  assumes "total_cmp cmp" "cont_holds cmp h s as"
  shows "if rroom h = 0 then multimap_insert_ref cmp h s k v = Inr (0, s, h)
    else \<exists>h' s'. multimap_insert_ref cmp h s k v = Inr (rbrk h, s', h') \<and> added cmp h s as k v h' s'"
  using insert_new_node [OF assms, of k v] cont_holdsD(9) [OF assms(2)]
  by (auto simp: multimap_insert_ref_def map_new_node_no_room)

lemma find_held:
  assumes "total_cmp cmp" "cont_holds cmp h s as"
  shows "\<exists>x. rb_find cmp h (ctree s) k = Inr x \<and>
    (if x = ctree s then \<forall>y \<in> set as. cmp k (nkey h y) \<noteq> 0 else x \<in> set as \<and> cmp k (nkey h x) = 0)"
  using rb_find_correct [OF _ assms(1)] cont_holdsD(2,3) [OF assms(2)] by metis

theorem map_insert_correct:
  assumes "total_cmp cmp" "cont_holds cmp h s as"
  shows "if \<exists>y \<in> set as. cmp k (nkey h y) = 0
    then \<exists>y \<in> set as. cmp k (nkey h y) = 0 \<and> map_insert_ref cmp h s k v = Inr (y, False, s, h)
    else if rroom h = 0 then map_insert_ref cmp h s k v = Inr (0, False, s, h)
    else \<exists>h' s'. map_insert_ref cmp h s k v = Inr (rbrk h, True, s', h') \<and> added cmp h s as k v h' s'"
proof -
  from find_held [OF assms] obtain x where
    x: "rb_find cmp h (ctree s) k = Inr x"
      "if x = ctree s then \<forall>y \<in> set as. cmp k (nkey h y) \<noteq> 0 else x \<in> set as \<and> cmp k (nkey h x) = 0" by blast
  show ?thesis
  proof (cases "x = ctree s")
    case True
    then show ?thesis using x insert_new_node [OF assms, of k v] cont_holdsD(9) [OF assms(2)]
      by (auto simp: map_insert_ref_def rb_end_def map_new_node_no_room)
  next
    case False
    then show ?thesis using x by (auto simp: map_insert_ref_def rb_end_def)
  qed
qed

text \<open>A set or multiset is a map or multimap with empty values.\<close>

lemma set_insert_as_map: "set_insert cmp h s k = map_insert_ref cmp h s k ()"
  unfolding set_insert_def map_insert_ref_def set_new_node_def ..

lemma multiset_insert_as_map: "multiset_insert cmp h s k = multimap_insert_ref cmp h s k ()"
  unfolding multiset_insert_def multimap_insert_ref_def set_new_node_def ..

subsection \<open>Erasing\<close>

text \<open>The heap after the nodes \<open>ys\<close> have been erased.\<close>

definition removed :: "('k, 'v) rheap \<Rightarrow> rcont \<Rightarrow> nat list \<Rightarrow> ('k, 'v) rheap \<Rightarrow> rcont \<Rightarrow> bool" where
  "removed h s ys h' s' \<longleftrightarrow> ctree s' = ctree s \<and> cself s' = cself s \<and> nkey h' = nkey h \<and> nval h' = nval h \<and>
     rlive h' = (\<lambda>x. rlive h x \<and> x \<notin> set ys) \<and> rbrk h' = rbrk h \<and> rroom h' = rroom h"

lemma removed_trans: "removed h s xs h1 s1 \<Longrightarrow> removed h1 s1 ys h2 s2 \<Longrightarrow> removed h s (xs @ ys) h2 s2"
  by (auto simp: removed_def)

lemma removed_nothing [simp]: "removed h s [] h s"
  by (simp add: removed_def)

lemma sz_pred: "sz_sub (sz (Suc n)) 1 = sz n"
  by (auto simp: sz_sub_def sz_def mod_Suc)

theorem cont_erase_correct:
  assumes "cont_holds cmp h s (xs @ x # ys)"
  shows "\<exists>h' s'. cont_erase h s x = Inr (first_or (ctree s) ys, s', h') \<and> cont_holds cmp h' s' (xs @ ys) \<and> removed h s [x] h' s'"
proof -
  note D = cont_holdsD [OF assms]
  obtain T where T: "rb_at h (ctree s) T" "red_black T" "inorder T = xs @ x # ys" using D(3) by blast
  from rb_erase_correct [OF T] obtain h' T' where
    h': "rb_erase h (ctree s) x = Inr h'" "rb_at h' (ctree s) T'" "red_black T'" "inorder T' = xs @ ys"
      "rlive h' = (rlive h)(x := False)" "nkey h' = nkey h" "nval h' = nval h" "rbrk h' = rbrk h" "rroom h' = rroom h" by blast
  let ?s = "s\<lparr>csize := sz_sub (csize s) 1\<rparr>"
  have "csize ?s = sz (length (xs @ ys))" using D(1) sz_pred by simp
  moreover have "in_order cmp (nkey h') (xs @ ys)" using D(2) h'(6) by (auto simp: in_order_append in_order_Cons)
  ultimately have "cont_holds cmp h' ?s (xs @ ys)" using h'(2-4) by (auto simp: cont_holds_def)
  moreover have "removed h s [x] h' ?s" using h'(5-9) by (auto simp: removed_def fun_eq_iff)
  moreover have "cont_erase h s x = Inr (first_or (ctree s) ys, ?s, h')"
    using rb_walk_correct(3) [OF T(1,3)] h'(1) by (simp add: cont_erase_def)
  ultimately show ?thesis by blast
qed

lemma first_or_differs:
  assumes "distinct (d # y # ys @ zs)"
  shows "y \<noteq> first_or d zs"
  using assms by (cases zs) auto

lemma erase_loops_correct:
  assumes "cont_holds cmp h s (xs @ ys @ zs)" "length ys \<le> fuel"
  shows "\<exists>h' s'. cont_erase_range_loop fuel h s (first_or (ctree s) (ys @ zs)) (first_or (ctree s) zs) = Inr (first_or (ctree s) zs, s', h') \<and>
    cont_erase_key_loop fuel h s (first_or (ctree s) (ys @ zs)) (first_or (ctree s) zs) n =
      Inr (if ys = [] then n else sz (n + length ys), s', h') \<and>
    cont_holds cmp h' s' (xs @ zs) \<and> removed h s ys h' s'"
  using assms
proof (induction ys arbitrary: h s fuel n)
  case Nil
  then show ?case by (cases fuel) auto
next
  case (Cons y ys)
  obtain fl where fuel: "fuel = Suc fl" "length ys \<le> fl" using Cons.prems(2) by (cases fuel) auto
  note D = cont_holdsD [OF Cons.prems(1)]
  have ne: "y \<noteq> first_or (ctree s) zs" using D(4,5) by (intro first_or_differs [where ys = ys]) auto
  from cont_erase_correct [of cmp h s xs y "ys @ zs"] Cons.prems(1) obtain h1 s1 where
    h1: "cont_erase h s y = Inr (first_or (ctree s) (ys @ zs), s1, h1)" "cont_holds cmp h1 s1 (xs @ ys @ zs)" "removed h s [y] h1 s1" by auto
  have same: "ctree s1 = ctree s" using h1(3) by (simp add: removed_def)
  from Cons.IH [OF h1(2) fuel(2), of "sz (n + 1)"] obtain h2 s2 where
    h2: "cont_erase_range_loop fl h1 s1 (first_or (ctree s) (ys @ zs)) (first_or (ctree s) zs) = Inr (first_or (ctree s) zs, s2, h2)"
      "cont_erase_key_loop fl h1 s1 (first_or (ctree s) (ys @ zs)) (first_or (ctree s) zs) (sz (n + 1)) =
        Inr (if ys = [] then sz (n + 1) else sz (sz (n + 1) + length ys), s2, h2)"
      "cont_holds cmp h2 s2 (xs @ zs)" "removed h1 s1 ys h2 s2" unfolding same by blast
  have "removed h s (y # ys) h2 s2" using removed_trans [OF h1(3) h2(4)] by simp
  moreover have "(if ys = [] then sz (n + 1) else sz (sz (n + 1) + length ys)) = sz (n + length (y # ys))"
    by (simp add: sz_add)
  ultimately show ?case using h1(1) h2 ne by (simp add: fuel(1))
qed

theorem cont_erase_range_correct:
  assumes "cont_holds cmp h s (xs @ ys @ zs)"
  shows "\<exists>h' s'. cont_erase_range h s (first_or (ctree s) (ys @ zs)) (first_or (ctree s) zs) = Inr (first_or (ctree s) zs, s', h') \<and>
    cont_holds cmp h' s' (xs @ zs) \<and> removed h s ys h' s'"
proof -
  have "length ys \<le> rbrk h" using cont_holdsD(10) [OF assms] by simp
  from erase_loops_correct [OF assms this] show ?thesis unfolding cont_erase_range_def by blast
qed

theorem cont_erase_key_correct:
  assumes "total_cmp cmp" "cont_holds cmp h s as"
  shows "\<exists>h' s'. cont_erase_key cmp h s k = Inr (sz (length (filter (\<lambda>x. cmp k (nkey h x) = 0) as)), s', h') \<and>
    cont_holds cmp h' s' (filter (\<lambda>x. cmp k (nkey h x) \<noteq> 0) as) \<and> removed h s (filter (\<lambda>x. cmp k (nkey h x) = 0) as) h' s'"
proof -
  note D = cont_holdsD [OF assms(2)]
  obtain T where T: "rb_at h (ctree s) T" "inorder T = as" using D(3) by blast
  let ?E = "filter (\<lambda>x. cmp k (nkey h x) = 0) as" and ?G = "filter (\<lambda>x. cmp k (nkey h x) < 0) as"
  note split = key_split [OF assms(1) D(2), of k]
  have bounds: "rb_lower_bound cmp h (ctree s) k = Inr (first_or (ctree s) (?E @ ?G))" "rb_upper_bound cmp h (ctree s) k = Inr (first_or (ctree s) ?G)"
    using rb_bounds_correct [OF T(1) assms(1)] D(2) T(2) split(2) by simp_all
  have held: "cont_holds cmp h s (filter (\<lambda>x. \<not> cmp k (nkey h x) \<le> 0) as @ ?E @ ?G)" using assms(2) split(1) by simp
  have "length ?E \<le> rbrk h" using D(10) length_filter_le [of "\<lambda>x. cmp k (nkey h x) = 0" as] by linarith
  from erase_loops_correct [OF held this, of 0] obtain h' s' where
    h': "cont_erase_key_loop (rbrk h) h s (first_or (ctree s) (?E @ ?G)) (first_or (ctree s) ?G) 0 = Inr (if ?E = [] then 0 else sz (0 + length ?E), s', h')"
      "cont_holds cmp h' s' (filter (\<lambda>x. \<not> cmp k (nkey h x) \<le> 0) as @ ?G)" "removed h s ?E h' s'" by blast
  have "(if ?E = [] then 0 else sz (0 + length ?E)) = sz (length ?E)" by (simp add: sz_def)
  then have "cont_erase_key cmp h s k = Inr (sz (length ?E), s', h')"
    using h'(1) bounds by (simp add: cont_erase_key_def cont_lower_bound_def cont_upper_bound_def)
  then show ?thesis using h'(2,3) split(3) by (intro exI [of _ h'] exI [of _ s']) simp
qed

subsection \<open>Containers as a whole\<close>


text \<open>Without memory for the record and the head no block is left allocated.\<close>

lemma cont_new_correct:
  assumes "2 \<le> rbrk h" "\<And>x. rbrk h \<le> x \<Longrightarrow> \<not> rlive h x"
  shows "if rroom h < 2 then \<exists>h'. cont_new h = Inr (None, h') \<and> rlive h' = rlive h
    else \<exists>h' s. cont_new h = Inr (Some s, h') \<and> cont_holds cmp h' s [] \<and> cself s = rbrk h \<and> ctree s = Suc (rbrk h) \<and>
      rlive h' = (rlive h)(cself s := True, ctree s := True) \<and> rbrk h' = rbrk h + 2 \<and> rroom h' = rroom h - 2"
proof (cases "rroom h = 0")
  case True
  then show ?thesis by (auto simp: cont_new_def malloc_rb_def)
next
  case False
  let ?h1 = "h\<lparr>rlive := (rlive h)(rbrk h := True), rbrk := rbrk h + 1, rroom := rroom h - 1\<rparr>"
  have m: "malloc_rb h = (rbrk h, ?h1)" "rbrk h \<noteq> 0" using False assms(1) by (simp_all add: malloc_rb_def)
  have "2 \<le> rbrk ?h1" using assms(1) by simp
  from rb_new_correct [OF this] obtain h2 where
    h2: "rb_new ?h1 = (if rroom ?h1 = 0 then Inr (0, ?h1) else Inr (rbrk ?h1, h2))"
      "0 < rroom ?h1 \<Longrightarrow> rb_at h2 (rbrk ?h1) Tip \<and> rlive h2 = (rlive ?h1)(rbrk ?h1 := True) \<and>
        rbrk h2 = Suc (rbrk ?h1) \<and> rroom h2 = rroom ?h1 - 1" by auto
  show ?thesis
  proof (cases "rroom h < 2")
    case True
    have "(rlive h)(rbrk h := False) = rlive h" using assms(2) [of "rbrk h"] by (auto simp: fun_eq_iff)
    then show ?thesis using True False m h2(1) by (simp add: cont_new_def free_rb_def)
  next
    case more: False
    let ?s = "\<lparr>cself = rbrk h, ctree = Suc (rbrk h), csize = 0\<rparr>"
    have "rroom ?h1 \<noteq> 0" using more by simp
    then have "cont_new h = Inr (Some ?s, h2)" "rb_at h2 (Suc (rbrk h)) Tip" "rlive h2 = (rlive h)(rbrk h := True, Suc (rbrk h) := True)"
      "rbrk h2 = rbrk h + 2" "rroom h2 = rroom h - 2"
      using m h2 by (simp_all add: cont_new_def)
    moreover have "cont_holds cmp h2 ?s []"
      using calculation(2) by (auto simp: cont_holds_def in_order_def sz_def red_black_def intro!: exI [of _ Tip])
    ultimately show ?thesis using more assms(1) by auto
  qed
qed

lemma cont_clear_correct:
  assumes "cont_holds cmp h s as"
  shows "\<exists>h'. cont_clear h s = Inr (s\<lparr>csize := 0\<rparr>, h') \<and> cont_holds cmp h' (s\<lparr>csize := 0\<rparr>) [] \<and> removed h s as h' (s\<lparr>csize := 0\<rparr>)"
proof -
  obtain T where T: "rb_at h (ctree s) T" "inorder T = as" using cont_holdsD(3) [OF assms] by blast
  from rb_clear_correct [OF T(1)] obtain h' where
    h': "rb_clear h (ctree s) = Inr h'" "rb_at h' (ctree s) Tip" "rlive h' = (\<lambda>x. rlive h x \<and> x \<notin> set (inorder T))" "nkey h' = nkey h"
      "nval h' = nval h" "rbrk h' = rbrk h" "rroom h' = rroom h" by blast
  then show ?thesis using T(2)
    by (auto simp: cont_clear_def cont_holds_def removed_def in_order_def sz_def red_black_def intro!: exI [of _ Tip])
qed

lemma cont_delete_correct:
  assumes "cont_holds cmp h s as" "rlive h (cself s)" "cself s \<noteq> 0" "cself s \<notin> insert (ctree s) (set as)"
  shows "\<exists>h'. cont_delete h (Some s) = Inr h' \<and> rlive h' = (\<lambda>x. rlive h x \<and> x \<notin> insert (cself s) (insert (ctree s) (set as)))"
proof -
  obtain T where T: "rb_at h (ctree s) T" "inorder T = as" using cont_holdsD(3) [OF assms(1)] by blast
  from rb_delete_correct [OF T(1)] obtain h' where
    h': "rb_delete h (ctree s) = Inr h'" "rlive h' = (\<lambda>x. rlive h x \<and> x \<notin> insert (ctree s) (set (inorder T)))" by blast
  then show ?thesis using T(2) assms(2-4) by (auto simp: cont_delete_def free_rb_def fun_eq_iff)
qed

text \<open>Exchanging two containers exchanges what they hold.\<close>

lemma cont_swap_correct:
  assumes "cont_holds cmp h s as" "cont_holds cmp h x bs" "cont_swap s x = (s', x')"
  shows "cont_holds cmp h s' bs \<and> cont_holds cmp h x' as"
  using assms by (auto simp: cont_swap_def cont_holds_def)

subsection \<open>Maps as functions\<close>

text \<open>A map has at most one element for each key; the container then stands for a function on keys that
  does not tell equivalent keys apart.\<close>

definition uniq :: "('k \<Rightarrow> 'k \<Rightarrow> int) \<Rightarrow> (nat \<Rightarrow> 'k) \<Rightarrow> nat list \<Rightarrow> bool" where
  "uniq cmp key as \<longleftrightarrow> (\<forall>x \<in> set as. \<forall>y \<in> set as. cmp (key x) (key y) = 0 \<longrightarrow> x = y)"

definition map_holds :: "('k \<Rightarrow> 'k \<Rightarrow> int) \<Rightarrow> ('k, 'v) rheap \<Rightarrow> rcont \<Rightarrow> ('k \<Rightarrow> 'v option) \<Rightarrow> bool" where
  "map_holds cmp h s m \<longleftrightarrow> (\<exists>as. cont_holds cmp h s as \<and> uniq cmp (nkey h) as \<and>
     (\<forall>k v. m k = Some v \<longleftrightarrow> (\<exists>x \<in> set as. cmp k (nkey h x) = 0 \<and> nval h x = v)))"

text \<open>What \<open>find\<close> and then \<open>value\<close>, unless at the end, give.\<close>

definition map_get :: "('k \<Rightarrow> 'k \<Rightarrow> int) \<Rightarrow> ('k, 'v) rheap \<Rightarrow> rcont \<Rightarrow> 'k \<Rightarrow> 'v option res" where
  "map_get cmp h s k = rbind (cont_find cmp h s k) (\<lambda>x. rbind (cont_end h s) (\<lambda>e.
     if x = e then Inr None else rbind (map_value h x) (\<lambda>v. Inr (Some v))))"

lemma map_get_correct:
  assumes "total_cmp cmp" "map_holds cmp h s m"
  shows "map_get cmp h s k = Inr (m k)"
proof -
  obtain as where as: "cont_holds cmp h s as" "uniq cmp (nkey h) as"
    "\<And>k v. m k = Some v \<longleftrightarrow> (\<exists>x \<in> set as. cmp k (nkey h x) = 0 \<and> nval h x = v)" using assms(2) by (auto simp: map_holds_def)
  from find_held [OF assms(1) as(1)] obtain x where
    x: "rb_find cmp h (ctree s) k = Inr x"
      "if x = ctree s then \<forall>y \<in> set as. cmp k (nkey h y) \<noteq> 0 else x \<in> set as \<and> cmp k (nkey h x) = 0" by blast
  have "m k = (if x = ctree s then None else Some (nval h x))"
  proof (cases "x = ctree s")
    case True
    then have "m k \<noteq> Some v" for v using as(3) x(2) by simp
    then show ?thesis using True by (cases "m k") auto
  next
    case False
    then show ?thesis using as(3) x(2) by auto
  qed
  moreover have "map_value h x = Inr (nval h x)" if "x \<noteq> ctree s"
  proof -
    obtain T where "rb_at h (ctree s) T" "x \<in> set (inorder T)" using cont_holdsD(3) [OF as(1)] x(2) \<open>x \<noteq> ctree s\<close> by auto
    then have "rlive h x" "x \<noteq> NIL" by (auto simp: zip_at_def addrs_ok_def intro: tree_at_live)
    then show ?thesis by (simp add: map_value_def rd_val_def)
  qed
  ultimately show ?thesis using x(1) by (simp add: map_get_def cont_find_def cont_end_def rb_end_def)
qed

theorem map_insert_refines:
  assumes "total_cmp cmp" "map_holds cmp h s m"
  shows "\<exists>x b s' h'. map_insert cmp h s k v = Inr (x, b, s', h') \<and> (b \<longleftrightarrow> m k = None \<and> 0 < rroom h) \<and>
    map_holds cmp h' s' (if b then (\<lambda>j. if cmp j k = 0 then Some v else m j) else m)"
proof -
  obtain as where as: "cont_holds cmp h s as" "uniq cmp (nkey h) as"
    "\<And>k v. m k = Some v \<longleftrightarrow> (\<exists>x \<in> set as. cmp k (nkey h x) = 0 \<and> nval h x = v)" using assms(2) by (auto simp: map_holds_def)
  have none: "m k = None \<longleftrightarrow> \<not> (\<exists>y \<in> set as. cmp k (nkey h y) = 0)" using as(3) by (metis not_None_eq)
  note ins = map_insert_correct [OF assms(1) as(1), of k v]
  show ?thesis
  proof (cases "m k = None \<and> 0 < rroom h")
    case False
    then have "\<exists>x. map_insert cmp h s k v = Inr (x, False, s, h)"
      using ins none unfolding map_insert_def by (auto split: if_splits)
    then show ?thesis using False assms(2) by auto
  next
    case True
    then obtain h' s' where h': "map_insert cmp h s k v = Inr (rbrk h, True, s', h')" "added cmp h s as k v h' s'"
      using ins none unfolding map_insert_def by (auto split: if_splits)
    let ?as = "insert_place cmp (nkey h') (rbrk h) as" and ?m = "\<lambda>j. if cmp j k = 0 then Some v else m j"
    have held: "cont_holds cmp h' s' ?as" and key: "nkey h' = (nkey h)(rbrk h := k)" and val: "nval h' = (nval h)(rbrk h := v)"
      using h'(2) by (auto simp: added_def)
    have out: "x \<noteq> rbrk h" if "x \<in> set as" for x using cont_holdsD(6) [OF as(1) that] by simp
    have no: "cmp k (nkey h y) \<noteq> 0" "cmp (nkey h y) k \<noteq> 0" if "y \<in> set as" for y
      using that none True total_cmp_equiv(1) [OF assms(1), of "nkey h y" k] by auto
    have "uniq cmp (nkey h') ?as"
      using as(2) no out unfolding uniq_def insert_place_set key by (auto simp: total_cmpD(3) [OF assms(1)])
    moreover have "?m j = Some w \<longleftrightarrow> (\<exists>x \<in> set ?as. cmp j (nkey h' x) = 0 \<and> nval h' x = w)" for j w
    proof (cases "cmp j k = 0")
      case True
      then have "cmp j (nkey h y) \<noteq> 0" if "y \<in> set as" for y
        using total_cmp_equiv(2) [OF assms(1) True, of "nkey h y"] no(1) [OF that] by simp
      then show ?thesis using True out unfolding insert_place_set key val by auto
    next
      case False
      then show ?thesis using as(3) [of j w] out unfolding insert_place_set key val by auto
    qed
    ultimately have "map_holds cmp h' s' ?m" using held unfolding map_holds_def by blast
    then show ?thesis using h'(1) True by auto
  qed
qed

theorem cont_erase_key_refines:
  assumes "total_cmp cmp" "map_holds cmp h s m"
  shows "\<exists>s' h'. cont_erase_key cmp h s k = Inr (if m k = None then 0 else 1, s', h') \<and>
    map_holds cmp h' s' (\<lambda>j. if cmp j k = 0 then None else m j)"
proof -
  obtain as where as: "cont_holds cmp h s as" "uniq cmp (nkey h) as"
    "\<And>k v. m k = Some v \<longleftrightarrow> (\<exists>x \<in> set as. cmp k (nkey h x) = 0 \<and> nval h x = v)" using assms(2) by (auto simp: map_holds_def)
  let ?E = "filter (\<lambda>x. cmp k (nkey h x) = 0) as" and ?R = "filter (\<lambda>x. cmp k (nkey h x) \<noteq> 0) as"
  from cont_erase_key_correct [OF assms(1) as(1), of k] obtain h' s' where
    h': "cont_erase_key cmp h s k = Inr (sz (length ?E), s', h')" "cont_holds cmp h' s' ?R" "removed h s ?E h' s'" by blast
  have same: "nkey h' = nkey h" "nval h' = nval h" using h'(3) by (simp_all add: removed_def)
  have "m k = None \<longleftrightarrow> \<not> (\<exists>y \<in> set as. cmp k (nkey h y) = 0)" using as(3) by (metis not_None_eq)
  then have none: "m k = None \<longleftrightarrow> ?E = []" by (auto simp: filter_empty_conv)
  have "length ?E \<le> 1"
  proof -
    have eq: "x = y" if "x \<in> set ?E" "y \<in> set ?E" for x y
    proof -
      have "cmp (nkey h x) (nkey h y) = 0" using that total_cmp_equiv(2) [OF assms(1), of k "nkey h x" "nkey h y"] by simp
      then show ?thesis using as(2) that by (simp add: uniq_def)
    qed
    have "set ?E \<subseteq> {hd ?E}" using eq [OF _ hd_in_set] by (cases "?E = []") auto
    then have "card (set ?E) \<le> card {hd ?E}" by (intro card_mono) simp_all
    moreover have "distinct ?E" using cont_holdsD(4) [OF as(1)] by simp
    ultimately show ?thesis using distinct_card [of ?E] by simp
  qed
  then have len: "sz (length ?E) = (if m k = None then 0 else 1)" using none by (cases ?E) (auto simp: sz_def)
  have "uniq cmp (nkey h') ?R" using as(2) by (auto simp: uniq_def same)
  moreover have "(if cmp j k = 0 then None else m j) = Some w \<longleftrightarrow> (\<exists>x \<in> set ?R. cmp j (nkey h' x) = 0 \<and> nval h' x = w)" for j w
  proof (cases "cmp j k = 0")
    case True
    then show ?thesis using total_cmp_equiv(2) [OF assms(1) True] by (auto simp: same)
  next
    case False
    have "cmp k (nkey h x) \<noteq> 0" if "cmp j (nkey h x) = 0" for x
      using total_cmp_equiv(2) [OF assms(1) that, of k] False total_cmp_equiv(1) [OF assms(1), of k "nkey h x"] by blast
    then show ?thesis using as(3) [of j w] False by (auto simp: same)
  qed
  ultimately have "map_holds cmp h' s' (\<lambda>j. if cmp j k = 0 then None else m j)" using h'(2) unfolding map_holds_def by blast
  then show ?thesis using h'(1) len by auto
qed

end
