(* ===== verification/Cstl_Map_Range.thy ===== *)
theory Cstl_Map_Range
  imports Cstl_Map
begin

text \<open>
  Inserting the elements of a range of another container, the functions \<open>insert_range\<close> of \<open>cstl/map.h\<close> and
  \<open>cstl/set.h\<close>.  All nodes are made first and held in a list through their right links, so that a failing
  allocation leaves the container as it was; then they are inserted one by one.
\<close>

subsection \<open>The functions\<close>

text \<open>The head of the list is a local variable, in a block of its own that \<open>malloc\<close> does not count.\<close>

definition range_head :: "('k, 'v) rheap \<Rightarrow> nat \<times> ('k, 'v) rheap" where
  "range_head h = (rbrk h, h\<lparr>rlive := (rlive h)(rbrk h := True), rbrk := rbrk h + 1\<rparr>)"

definition end_local :: "('k, 'v) rheap \<Rightarrow> nat \<Rightarrow> ('k, 'v) rheap" where
  "end_local h a = h\<lparr>rlive := (rlive h)(a := False)\<rparr>"

text \<open>The first loop; \<open>want\<close> is the test whether an element is to be inserted.  \<open>None\<close> means that an
  allocation failed.\<close>

fun collect_loop :: "(('k, 'v) rheap \<Rightarrow> 'k \<Rightarrow> bool res) \<Rightarrow> nat \<Rightarrow> ('k, 'v) rheap \<Rightarrow> nat \<Rightarrow> nat \<Rightarrow> nat \<Rightarrow> nat \<Rightarrow>
    (nat option \<times> ('k, 'v) rheap) res" where
  "collect_loop want 0 h pos last' tmp n = (if pos \<noteq> last' then Inl OutOfFuel else Inr (Some n, h))"
| "collect_loop want (Suc fuel) h pos last' tmp n = (if pos \<noteq> last' then
     rbind (rd_key h pos) (\<lambda>k. rbind (want h k) (\<lambda>b. if b then
       rbind (rd_val h pos) (\<lambda>v. let (x, h1) = map_new_node h k v COLOR_RED in
         rbind (wr_right h1 tmp x) (\<lambda>h2. if x = 0 then Inr (None, h2)
           else rbind (rb_next h2 pos) (\<lambda>q. collect_loop want fuel h2 q last' x (sz (n + 1)))))
       else rbind (rb_next h pos) (\<lambda>q. collect_loop want fuel h q last' tmp n)))
     else Inr (Some n, h))"

fun release_loop :: "nat \<Rightarrow> ('k, 'v) rheap \<Rightarrow> nat \<Rightarrow> ('k, 'v) rheap res" where
  "release_loop 0 h pos = (if pos \<noteq> 0 then Inl OutOfFuel else Inr h)"
| "release_loop (Suc fuel) h pos = (if pos \<noteq> 0 then
     rbind (rd_right h pos) (\<lambda>tmp. rbind (free_rb h pos) (\<lambda>h1. release_loop fuel h1 tmp)) else Inr h)"

fun link_loop :: "('k \<Rightarrow> 'k \<Rightarrow> int) \<Rightarrow> nat \<Rightarrow> ('k, 'v) rheap \<Rightarrow> nat \<Rightarrow> nat \<Rightarrow> ('k, 'v) rheap res" where
  "link_loop cmp 0 h t pos = (if pos \<noteq> NIL then Inl OutOfFuel else Inr h)"
| "link_loop cmp (Suc fuel) h t pos = (if pos \<noteq> NIL then
     rbind (rd_right h pos) (\<lambda>tmp. rbind (wr_right h pos NIL) (\<lambda>h1. rbind (rb_insert cmp h1 t pos) (\<lambda>h2.
       link_loop cmp fuel h2 t tmp))) else Inr h)"

definition cont_insert_range :: "('k \<Rightarrow> 'k \<Rightarrow> int) \<Rightarrow> (('k, 'v) rheap \<Rightarrow> 'k \<Rightarrow> bool res) \<Rightarrow> ('k, 'v) rheap \<Rightarrow> rcont \<Rightarrow> nat \<Rightarrow> nat \<Rightarrow>
    (bool \<times> rcont \<times> ('k, 'v) rheap) res" where
  "cont_insert_range cmp want h s first last' = (let (hd', h0) = range_head h in
     rbind (wr_right h0 hd' NIL) (\<lambda>h1. rbind (collect_loop want (rbrk h) h1 first last' hd' 0) (\<lambda>(r, h2).
     rbind (rd_right h2 hd') (\<lambda>pos. case r of
       None \<Rightarrow> rbind (release_loop (rbrk h2) h2 pos) (\<lambda>h3. Inr (False, s, end_local h3 hd'))
     | Some n \<Rightarrow> rbind (link_loop cmp (rbrk h2) h2 (ctree s) pos) (\<lambda>h3. Inr (True, s\<lparr>csize := sz (csize s + n)\<rparr>, end_local h3 hd'))))))"

definition not_found :: "('k \<Rightarrow> 'k \<Rightarrow> int) \<Rightarrow> nat \<Rightarrow> ('k, 'v) rheap \<Rightarrow> 'k \<Rightarrow> bool res" where
  "not_found cmp t h k = rbind (rb_find cmp h t k) (\<lambda>x. rbind (rb_end h t) (\<lambda>e. Inr (x = e)))"

definition map_insert_range :: "('k \<Rightarrow> 'k \<Rightarrow> int) \<Rightarrow> ('k, 'v) rheap \<Rightarrow> rcont \<Rightarrow> nat \<Rightarrow> nat \<Rightarrow> (bool \<times> rcont \<times> ('k, 'v) rheap) res" where
  "map_insert_range cmp h s first last' = cont_insert_range cmp (not_found cmp (ctree s)) h s first last'"

definition multimap_insert_range :: "('k \<Rightarrow> 'k \<Rightarrow> int) \<Rightarrow> ('k, 'v) rheap \<Rightarrow> rcont \<Rightarrow> nat \<Rightarrow> nat \<Rightarrow> (bool \<times> rcont \<times> ('k, 'v) rheap) res" where
  "multimap_insert_range cmp h s first last' = cont_insert_range cmp (\<lambda>h k. Inr True) h s first last'"

definition set_insert_range :: "('k \<Rightarrow> 'k \<Rightarrow> int) \<Rightarrow> ('k, unit) rheap \<Rightarrow> rcont \<Rightarrow> nat \<Rightarrow> nat \<Rightarrow> (bool \<times> rcont \<times> ('k, unit) rheap) res" where
  "set_insert_range cmp h s first last' = cont_insert_range cmp (not_found cmp (ctree s)) h s first last'"

definition multiset_insert_range :: "('k \<Rightarrow> 'k \<Rightarrow> int) \<Rightarrow> ('k, unit) rheap \<Rightarrow> rcont \<Rightarrow> nat \<Rightarrow> nat \<Rightarrow> (bool \<times> rcont \<times> ('k, unit) rheap) res" where
  "multiset_insert_range cmp h s first last' = cont_insert_range cmp (\<lambda>h k. Inr True) h s first last'"

subsection \<open>Lists of new nodes\<close>

fun path :: "('k, 'v) rheap \<Rightarrow> nat \<Rightarrow> nat list \<Rightarrow> nat \<Rightarrow> bool" where
  "path h x [] e \<longleftrightarrow> rgt h x = e"
| "path h x (n # ns) e \<longleftrightarrow> rgt h x = n \<and> path h n ns e"

text \<open>Two heaps that agree on a node, its key and value included.\<close>

definition same_node :: "('k, 'v) rheap \<Rightarrow> ('k, 'v) rheap \<Rightarrow> nat \<Rightarrow> bool" where
  "same_node h h' x \<longleftrightarrow> at_node h h' x \<and> par h' x = par h x \<and> nkey h' x = nkey h x \<and> nval h' x = nval h x"

lemma same_node_refl [simp]: "same_node h h x"
  by (simp add: same_node_def at_node_def)

lemma same_node_trans: "same_node h h1 x \<Longrightarrow> same_node h1 h2 x \<Longrightarrow> same_node h h2 x"
  by (simp add: same_node_def at_node_def)

definition new_red :: "('k, 'v) rheap \<Rightarrow> nat \<Rightarrow> bool" where
  "new_red h x \<longleftrightarrow> rlive h x \<and> x \<noteq> NIL \<and> x \<noteq> 0 \<and> x < rbrk h \<and> lft h x = NIL \<and> clr h x = COLOR_RED"

text \<open>The state of the first loop after \<open>m\<close> nodes have been appended to the list, which ended in \<open>tmp\<close>.\<close>

definition extended :: "('k, 'v) rheap \<Rightarrow> nat \<Rightarrow> ('k \<times> 'v) list \<Rightarrow> nat \<Rightarrow> ('k, 'v) rheap \<Rightarrow> bool" where
  "extended h tmp kvs e h' \<longleftrightarrow> (let ns = [rbrk h ..< rbrk h + length kvs] in
     path h' tmp ns e \<and> map (\<lambda>x. (nkey h' x, nval h' x)) ns = kvs \<and> (\<forall>x \<in> set ns. new_red h' x) \<and>
     (\<forall>x. x \<noteq> tmp \<and> x \<notin> set ns \<longrightarrow> same_node h h' x) \<and>
     lft h' tmp = lft h tmp \<and> clr h' tmp = clr h tmp \<and> rlive h' tmp = rlive h tmp \<and> nkey h' tmp = nkey h tmp \<and> nval h' tmp = nval h tmp \<and>
     rbrk h' = rbrk h + length kvs \<and> rroom h' = rroom h - length kvs)"

lemma path_agree: "path h x ns e \<Longrightarrow> (\<And>y. y \<in> insert x (set ns) \<Longrightarrow> rgt h' y = rgt h y) \<Longrightarrow> path h' x ns e"
  by (induction ns arbitrary: x) auto

lemma extended_Cons:
  assumes "map_new_node h k v COLOR_RED = (rbrk h, h1)" "0 < rroom h" "2 \<le> rbrk h" "tmp \<noteq> NIL" "rlive h tmp" "tmp < rbrk h"
    "wr_right h1 tmp (rbrk h) = Inr h2" "extended h2 (rbrk h) kvs e h'"
  shows "extended h tmp ((k, v) # kvs) e h'"
proof -
  from map_new_node_correct [OF assms(3), of k v COLOR_RED] assms(1,2) have
    h1: "leaf_node h1 (rbrk h)" "nkey h1 = (nkey h)(rbrk h := k)" "nval h1 = (nval h)(rbrk h := v)" "rlive h1 = (rlive h)(rbrk h := True)"
      "rbrk h1 = Suc (rbrk h)" "rroom h1 = rroom h - 1" "\<And>x. x \<noteq> rbrk h \<Longrightarrow> at_node h h1 x \<and> par h1 x = par h x"
    by auto
  have h2: "h2 = h1\<lparr>rgt := (rgt h1)(tmp := rbrk h)\<rparr>" using assms(4,5,7) h1(4) by (simp add: wr_right_def)
  let ?a = "rbrk h" let ?ns = "[Suc ?a ..< Suc ?a + length kvs]"
  have brk: "rbrk h2 = Suc ?a" "rroom h2 = rroom h - 1" using h1 h2 by simp_all
  have ext: "path h' ?a ?ns e" "map (\<lambda>x. (nkey h' x, nval h' x)) ?ns = kvs" "\<forall>x \<in> set ?ns. new_red h' x"
    "\<And>x. x \<noteq> ?a \<Longrightarrow> x \<notin> set ?ns \<Longrightarrow> same_node h2 h' x"
    "lft h' ?a = lft h2 ?a" "clr h' ?a = clr h2 ?a" "rlive h' ?a = rlive h2 ?a" "nkey h' ?a = nkey h2 ?a" "nval h' ?a = nval h2 ?a"
    "rbrk h' = Suc ?a + length kvs" "rroom h' = rroom h2 - length kvs"
    using assms(8) brk by (auto simp: extended_def Let_def)
  have all: "[?a ..< ?a + length ((k, v) # kvs)] = ?a # ?ns" by (simp add: upt_conv_Cons del: upt_Suc)
  have tmp: "same_node h2 h' tmp" using ext(4) [of tmp] assms(6) by auto
  have "at_node h h1 tmp" using h1(7) [of tmp] assms(6) by simp
  then have t: "rgt h' tmp = ?a" "lft h' tmp = lft h tmp" "clr h' tmp = clr h tmp" "rlive h' tmp = rlive h tmp"
    "nkey h' tmp = nkey h tmp" "nval h' tmp = nval h tmp"
    using tmp h2 h1(2,3) assms(6) by (auto simp: same_node_def at_node_def)
  have "new_red h' ?a" using ext(5-7,10) h1(1) h2 assms(6) by (auto simp: new_red_def leaf_node_def)
  moreover have "(nkey h' ?a, nval h' ?a) = (k, v)" using ext(8,9) h1(2,3) h2 by simp
  moreover have "same_node h h' x" if "x \<noteq> tmp" "x \<noteq> ?a" "x \<notin> set ?ns" for x
  proof -
    have "same_node h h1 x" using h1(7) [OF that(2)] h1(2,3) that(2) by (simp add: same_node_def)
    moreover have "same_node h1 h2 x" using h2 that(1) by (simp add: same_node_def at_node_def)
    ultimately show ?thesis using ext(4) [OF that(2,3)] same_node_trans by blast
  qed
  ultimately show ?thesis unfolding extended_def Let_def all using t ext brk by auto
qed

lemma extended_Nil: "rgt h tmp = e \<Longrightarrow> extended h tmp [] e h"
  by (simp add: extended_def)

lemma extended_stop:
  assumes "tmp \<noteq> NIL" "rlive h tmp"
  shows "\<exists>h'. wr_right h tmp 0 = Inr h' \<and> extended h tmp [] 0 h'"
  using assms by (auto simp: wr_right_def extended_def same_node_def at_node_def)

text \<open>The elements of a range as keys and values, those that are wanted.\<close>

definition entries :: "('k, 'v) rheap \<Rightarrow> nat list \<Rightarrow> ('k \<times> 'v) list" where
  "entries h as = map (\<lambda>x. (nkey h x, nval h x)) as"

lemma entries_same: "(\<And>x. x \<in> set as \<Longrightarrow> same_node h h' x) \<Longrightarrow> entries h' as = entries h as"
  by (simp add: entries_def same_node_def)

definition collected :: "('k, 'v) rheap \<Rightarrow> nat \<Rightarrow> ('k \<times> 'v) list \<Rightarrow> nat \<Rightarrow> nat option \<Rightarrow> ('k, 'v) rheap \<Rightarrow> bool" where
  "collected h tmp kvs n r h' \<longleftrightarrow> (if length kvs \<le> rroom h
     then (\<exists>c. r = Some c \<and> (\<forall>d. sz (d + c) = sz (d + n + length kvs))) \<and> extended h tmp kvs NIL h'
     else r = None \<and> extended h tmp (take (rroom h) kvs) 0 h')"

lemma collected_Cons:
  assumes "map_new_node h k v COLOR_RED = (rbrk h, h1)" "0 < rroom h" "2 \<le> rbrk h" "tmp \<noteq> NIL" "rlive h tmp" "tmp < rbrk h"
    "wr_right h1 tmp (rbrk h) = Inr h2" "rroom h2 = rroom h - 1" "collected h2 (rbrk h) kvs (sz (n + 1)) r h'"
  shows "collected h tmp ((k, v) # kvs) n r h'"
proof (cases "length kvs \<le> rroom h2")
  case True
  then obtain c where c: "r = Some c" "\<And>d. sz (d + c) = sz (d + sz (n + 1) + length kvs)" "extended h2 (rbrk h) kvs NIL h'"
    using assms(9) by (auto simp: collected_def)
  have "sz (d + c) = sz (d + n + Suc (length kvs))" for d
  proof -
    have "sz (d + sz (n + 1) + length kvs) = sz (d + (n + 1) + length kvs)" using sz_add [of "n + 1" "d + length kvs"] by (simp only: ac_simps)
    then show ?thesis using c(2) by simp
  qed
  then show ?thesis using extended_Cons [OF assms(1-7) c(3)] c(1) True assms(2,8) by (auto simp: collected_def)
next
  case False
  then have c: "r = None" "extended h2 (rbrk h) (take (rroom h2) kvs) 0 h'" using assms(9) by (auto simp: collected_def)
  have "take (rroom h) ((k, v) # kvs) = (k, v) # take (rroom h2) kvs" using assms(2,8) by (cases "rroom h") auto
  then show ?thesis using extended_Cons [OF assms(1-7) c(2)] c(1) False assms(2,8) by (auto simp: collected_def)
qed

lemma collect_loop_correct:
  assumes "inorder T = xs @ ys @ zs" "rb_at h t T" "length ys \<le> fuel" "insert t (set (inorder T)) \<subseteq> S" "\<And>x. x \<in> S \<Longrightarrow> x < rbrk h" "tmp \<notin> S"
    "\<And>h' k. \<forall>x \<in> S. same_node h h' x \<Longrightarrow> rbrk h \<le> rbrk h' \<Longrightarrow> want h' k = Inr (P k)"
    "tmp \<noteq> NIL" "rlive h tmp" "tmp < rbrk h" "rgt h tmp = NIL"
  shows "\<exists>r h'. collect_loop want fuel h (first_or t (ys @ zs)) (first_or t zs) tmp n = Inr (r, h') \<and>
    collected h tmp (entries h (filter (\<lambda>x. P (nkey h x)) ys)) n r h'"
  using assms
proof (induction ys arbitrary: xs h fuel tmp n)
  case Nil
  then have "extended h tmp [] NIL h" by (intro extended_Nil)
  then show ?case by (cases fuel) (auto simp: collected_def entries_def)
next
  case (Cons y ys)
  obtain fl where fuel: "fuel = Suc fl" "length ys \<le> fl" using Cons.prems(3) by (cases fuel) auto
  have dis: "distinct (t # inorder T)" using Cons.prems(2) by (simp add: zip_at_def addrs_ok_def)
  have ne: "y \<noteq> first_or t zs" using dis Cons.prems(1) by (intro first_or_differs [where ys = ys]) auto
  have y: "y \<in> set (inorder T)" "inorder T = (xs @ [y]) @ ys @ zs" "inorder T = xs @ y # ys @ zs" using Cons.prems(1) by auto
  have live: "rlive h y" "y \<noteq> NIL" using Cons.prems(2) y(1) by (auto simp: zip_at_def addrs_ok_def intro: tree_at_live)
  have want: "want h (nkey h y) = Inr (P (nkey h y))" by (rule Cons.prems(7)) simp_all
  have reads: "rd_key h y = Inr (nkey h y)" "rd_val h y = Inr (nval h y)" using live by (simp_all add: rd_key_def rd_val_def)
  have two: "2 \<le> rbrk h" using addrs_ok_length [of h t "inorder T"] Cons.prems(2) by (simp add: zip_at_def)
  show ?case
  proof (cases "P (nkey h y)")
    case False
    have "rb_next h y = Inr (first_or t (ys @ zs))" by (rule rb_walk_correct(3) [OF Cons.prems(2) y(3)])
    then have "collect_loop want fuel h (first_or t ((y # ys) @ zs)) (first_or t zs) tmp n =
        collect_loop want fl h (first_or t (ys @ zs)) (first_or t zs) tmp n"
      using ne reads want False by (simp add: fuel(1))
    then show ?thesis using Cons.IH [OF y(2) Cons.prems(2) fuel(2) Cons.prems(4-11), of n] False by simp
  next
    case True
    let ?kvs = "entries h (filter (\<lambda>x. P (nkey h x)) ys)"
    have kvs: "entries h (filter (\<lambda>x. P (nkey h x)) (y # ys)) = (nkey h y, nval h y) # ?kvs" using True by (simp add: entries_def)
    show ?thesis
    proof (cases "rroom h = 0")
      case no_room: True
      from extended_stop [OF Cons.prems(8,9)] obtain h' where h': "wr_right h tmp 0 = Inr h'" "extended h tmp [] 0 h'" by blast
      have "collect_loop want fuel h (first_or t ((y # ys) @ zs)) (first_or t zs) tmp n = Inr (None, h')"
        using ne reads want True no_room map_new_node_no_room [OF no_room] h'(1) by (simp add: fuel(1))
      then show ?thesis using h'(2) no_room kvs by (auto simp: collected_def)
    next
      case room: False
      from map_new_node_correct [OF two, of "nkey h y" "nval h y" COLOR_RED] room obtain h1 where
        h1: "map_new_node h (nkey h y) (nval h y) COLOR_RED = (rbrk h, h1)" "leaf_node h1 (rbrk h)" "nkey h1 = (nkey h)(rbrk h := nkey h y)"
          "nval h1 = (nval h)(rbrk h := nval h y)" "rlive h1 = (rlive h)(rbrk h := True)" "rbrk h1 = Suc (rbrk h)" "rroom h1 = rroom h - 1"
          "\<And>x. x \<noteq> rbrk h \<Longrightarrow> at_node h h1 x \<and> par h1 x = par h x" by auto
      let ?h2 = "h1\<lparr>rgt := (rgt h1)(tmp := rbrk h)\<rparr>"
      have h2: "wr_right h1 tmp (rbrk h) = Inr ?h2" using Cons.prems(8,9) h1(5) by (simp add: wr_right_def)
      have same: "\<forall>x \<in> S. same_node h ?h2 x"
      proof
        fix x assume "x \<in> S"
        then have "x \<noteq> rbrk h" "x \<noteq> tmp" using Cons.prems(5,6) by auto
        then show "same_node h ?h2 x" using h1(3,4) h1(8) [of x] by (auto simp: same_node_def at_node_def)
      qed
      have at: "rb_at ?h2 t T"
        by (rule rb_at_agree [OF Cons.prems(2)]) (use same Cons.prems(4) h1(6) in \<open>auto simp: same_node_def\<close>)
      have nx: "rb_next ?h2 y = Inr (first_or t (ys @ zs))" by (rule rb_walk_correct(3) [OF at y(3)])
      have step: "collect_loop want fuel h (first_or t ((y # ys) @ zs)) (first_or t zs) tmp n =
          collect_loop want fl ?h2 (first_or t (ys @ zs)) (first_or t zs) (rbrk h) (sz (n + 1))"
        using ne reads want True h1(1) h2 nx two by (simp add: fuel(1))
      have "\<exists>r h'. collect_loop want fl ?h2 (first_or t (ys @ zs)) (first_or t zs) (rbrk h) (sz (n + 1)) = Inr (r, h') \<and>
          collected ?h2 (rbrk h) (entries ?h2 (filter (\<lambda>x. P (nkey ?h2 x)) ys)) (sz (n + 1)) r h'"
      proof (rule Cons.IH [OF y(2) at fuel(2) Cons.prems(4)])
        show "x < rbrk ?h2" if "x \<in> S" for x using Cons.prems(5) [OF that] h1(6) by simp
        show "rbrk h \<notin> S" using Cons.prems(5) by blast
        show "want h' k = Inr (P k)" if "\<forall>x \<in> S. same_node ?h2 h' x" "rbrk ?h2 \<le> rbrk h'" for h' k
        proof (rule Cons.prems(7))
          show "\<forall>x \<in> S. same_node h h' x" using same that(1) same_node_trans by blast
          show "rbrk h \<le> rbrk h'" using that(2) h1(6) by simp
        qed
        show "rbrk h \<noteq> NIL" "rlive ?h2 (rbrk h)" "rbrk h < rbrk ?h2" "rgt ?h2 (rbrk h) = NIL"
          using h1(2) Cons.prems(10) h1(6) by (auto simp: leaf_node_def)
      qed
      then obtain r h' where
        h': "collect_loop want fl ?h2 (first_or t (ys @ zs)) (first_or t zs) (rbrk h) (sz (n + 1)) = Inr (r, h')"
          "collected ?h2 (rbrk h) (entries ?h2 (filter (\<lambda>x. P (nkey ?h2 x)) ys)) (sz (n + 1)) r h'" by blast
      have "set ys \<subseteq> S" using y(2) Cons.prems(4) by auto
      then have "filter (\<lambda>x. P (nkey ?h2 x)) ys = filter (\<lambda>x. P (nkey h x)) ys"
        using same by (intro filter_cong) (auto simp: same_node_def)
      moreover have "entries ?h2 (filter (\<lambda>x. P (nkey h x)) ys) = ?kvs"
        by (rule entries_same) (use same \<open>set ys \<subseteq> S\<close> in auto)
      ultimately have "collected ?h2 (rbrk h) ?kvs (sz (n + 1)) r h'" using h'(2) by simp
      then have "collected h tmp ((nkey h y, nval h y) # ?kvs) n r h'"
        using collected_Cons [OF h1(1) _ two Cons.prems(8-10) h2, of ?kvs n r h'] room h1(7) by simp
      then show ?thesis using step h'(1) kvs by auto
    qed
  qed
qed

subsection \<open>Releasing and inserting the list\<close>

fun rchain :: "('k, 'v) rheap \<Rightarrow> nat \<Rightarrow> nat list \<Rightarrow> nat \<Rightarrow> bool" where
  "rchain h p [] e \<longleftrightarrow> p = e"
| "rchain h p (n # ns) e \<longleftrightarrow> p = n \<and> rchain h (rgt h n) ns e"

lemma path_chain: "path h x ns e \<Longrightarrow> rchain h (rgt h x) ns e"
  by (induction ns arbitrary: x) auto

lemma chain_agree: "rchain h p ns e \<Longrightarrow> (\<And>y. y \<in> set ns \<Longrightarrow> rgt h' y = rgt h y) \<Longrightarrow> rchain h' p ns e"
  by (induction ns arbitrary: p) auto

lemma release_loop_correct:
  assumes "rchain h p ns 0" "distinct ns" "\<And>x. x \<in> set ns \<Longrightarrow> new_red h x" "length ns \<le> fuel"
  shows "\<exists>h'. release_loop fuel h p = Inr h' \<and> rlive h' = (\<lambda>y. rlive h y \<and> y \<notin> set ns) \<and> rbrk h' = rbrk h \<and>
    (\<forall>x. x \<notin> set ns \<longrightarrow> same_node h h' x)"
  using assms
proof (induction ns arbitrary: p h fuel)
  case Nil
  then show ?case by (cases fuel) auto
next
  case (Cons n ns)
  obtain fl where fuel: "fuel = Suc fl" "length ns \<le> fl" using Cons.prems(4) by (cases fuel) auto
  have n: "rlive h n" "n \<noteq> NIL" "n \<noteq> 0" "p = n" using Cons.prems(1) Cons.prems(3) [of n] by (auto simp: new_red_def)
  let ?h = "h\<lparr>rlive := (rlive h)(n := False)\<rparr>"
  have "rchain h (rgt h n) ns 0" using Cons.prems(1) by simp
  then have "rchain ?h (rgt h n) ns 0" by (rule chain_agree) simp
  moreover have "new_red ?h x" if "x \<in> set ns" for x
    using Cons.prems(2) Cons.prems(3) [of x] that by (auto simp: new_red_def)
  ultimately obtain h' where
    h': "release_loop fl ?h (rgt h n) = Inr h'" "rlive h' = (\<lambda>y. rlive ?h y \<and> y \<notin> set ns)" "rbrk h' = rbrk ?h"
      "\<And>x. x \<notin> set ns \<Longrightarrow> same_node ?h h' x"
    using Cons.IH [of ?h "rgt h n" fl] Cons.prems(2) fuel(2) by auto
  have "release_loop fuel h p = Inr h'" using n h'(1) by (simp add: fuel(1) rd_right_def free_rb_def)
  moreover have "same_node h h' x" if "x \<notin> set (n # ns)" for x
    using h'(4) [of x] that by (auto simp: same_node_def at_node_def)
  moreover have "rlive h' = (\<lambda>y. rlive h y \<and> y \<notin> set (n # ns))" using h'(2) by (auto simp: fun_eq_iff)
  ultimately show ?case using h'(3) by auto
qed

definition tree_holds :: "('k \<Rightarrow> 'k \<Rightarrow> int) \<Rightarrow> ('k, 'v) rheap \<Rightarrow> nat \<Rightarrow> nat list \<Rightarrow> bool" where
  "tree_holds cmp h t as \<longleftrightarrow> in_order cmp (nkey h) as \<and> (\<exists>T. rb_at h t T \<and> red_black T \<and> inorder T = as)"

lemma link_loop_correct:
  assumes "total_cmp cmp" "tree_holds cmp h t as" "rchain h p ns NIL" "distinct ns" "\<And>x. x \<in> set ns \<Longrightarrow> new_red h x"
    "set ns \<inter> insert t (set as) = {}" "length ns \<le> fuel"
  shows "\<exists>h' bs. link_loop cmp fuel h t p = Inr h' \<and> tree_holds cmp h' t bs \<and> set bs = set as \<union> set ns \<and>
    length bs = length as + length ns \<and> rb_keeps (set ns \<union> insert t (set as)) h h'"
  using assms(2-)
proof (induction ns arbitrary: p h fuel as)
  case Nil
  then show ?case by (cases fuel) auto
next
  case (Cons n ns)
  obtain fl where fuel: "fuel = Suc fl" "length ns \<le> fl" using Cons.prems(6) by (cases fuel) auto
  have n: "rlive h n" "n \<noteq> NIL" "p = n" "new_red h n" using Cons.prems(2) Cons.prems(4) [of n] by (auto simp: new_red_def)
  obtain T where T: "rb_at h t T" "red_black T" "inorder T = as" "in_order cmp (nkey h) as" using Cons.prems(1) by (auto simp: tree_holds_def)
  let ?h = "h\<lparr>rgt := (rgt h)(n := NIL)\<rparr>"
  have out: "n \<notin> insert t (set as)" using Cons.prems(5) by simp
  have "rb_at ?h t T" by (rule rb_at_agree [OF T(1)]) (use out T(3) in \<open>auto simp: at_node_def\<close>)
  moreover have "leaf_node ?h n" using n(4) by (simp add: new_red_def leaf_node_def)
  moreover have "in_order cmp (nkey ?h) (inorder T)" using T(3,4) by simp
  ultimately obtain h1 T' where
    h1: "rb_insert cmp ?h t n = Inr h1" "rb_at h1 t T'" "red_black T'" "inorder T' = insert_place cmp (nkey ?h) n as"
      "rb_keeps (insert n (insert t (set as))) ?h h1"
    using rb_insert_correct [OF assms(1) _ T(2), of ?h t n] out T(3) by auto
  let ?as = "insert_place cmp (nkey h) n as"
  have ord: "in_order cmp (nkey h1) ?as" using insert_place_in_order [OF assms(1) T(4), of n] h1(5) by (simp add: rb_keeps_def)
  have as: "set ?as = insert n (set as)" "length ?as = Suc (length as)" by (rule insert_place_set, rule insert_place_length)
  have rest: "rgt h1 y = rgt h y" "new_red h1 y" if "y \<in> set ns" for y
  proof -
    have "y \<noteq> n" "y \<notin> insert t (set as)" using that Cons.prems(3,5) by auto
    then show "rgt h1 y = rgt h y" "new_red h1 y"
      using h1(5) Cons.prems(4) [of y] that by (auto simp: rb_keeps_def new_red_def)
  qed
  have held: "tree_holds cmp h1 t ?as" using ord h1(2-4) unfolding tree_holds_def by auto
  have "rchain h (rgt h n) ns NIL" using Cons.prems(2) by simp
  then have chain: "rchain h1 (rgt h n) ns NIL" by (rule chain_agree) (rule rest(1))
  have dis: "distinct ns" "set ns \<inter> insert t (set ?as) = {}" using Cons.prems(3,5) as by auto
  from Cons.IH [OF held chain dis(1) rest(2) dis(2) fuel(2)] obtain h' bs where
    h': "link_loop cmp fl h1 t (rgt h n) = Inr h'" "tree_holds cmp h' t bs" "set bs = set ?as \<union> set ns" "length bs = length ?as + length ns"
      "rb_keeps (set ns \<union> insert t (set ?as)) h1 h'" by blast
  have "link_loop cmp fuel h t p = Inr h'" using n h1(1) h'(1) by (simp add: fuel(1) rd_right_def wr_right_def)
  moreover have "rb_keeps (set (n # ns) \<union> insert t (set as)) h h'"
  proof -
    have "rb_keeps (set (n # ns) \<union> insert t (set as)) h ?h" by (auto simp: rb_keeps_def)
    moreover have "rb_keeps (set (n # ns) \<union> insert t (set as)) ?h h1" by (rule keeps_mono [OF h1(5)]) auto
    moreover have "rb_keeps (set (n # ns) \<union> insert t (set as)) h1 h'" by (rule keeps_mono [OF h'(5)]) (use as in auto)
    ultimately show ?thesis using keeps_trans by blast
  qed
  ultimately show ?case using h'(2-4) as by (intro exI [of _ h'] exI [of _ bs]) auto
qed

subsection \<open>The whole\<close>

lemma extended_nodes:
  assumes "extended h tmp kvs e h'" "length kvs \<le> rroom h"
  shows "rchain h' (rgt h' tmp) [rbrk h ..< rbrk h + length kvs] e" "entries h' [rbrk h ..< rbrk h + length kvs] = kvs"
    "\<And>x. x \<in> set [rbrk h ..< rbrk h + length kvs] \<Longrightarrow> new_red h' x"
    "\<And>x. x \<noteq> tmp \<Longrightarrow> x \<notin> set [rbrk h ..< rbrk h + length kvs] \<Longrightarrow> same_node h h' x" "rlive h' tmp = rlive h tmp"
    "rbrk h' = rbrk h + length kvs"
  using assms path_chain [of h' tmp] by (simp_all add: extended_def Let_def entries_def)

theorem cont_insert_range_correct:
  assumes "total_cmp cmp" "cont_holds cmp h s as" "cont_holds cmp h s2 (xs @ ys @ zs)" "\<And>x. rbrk h \<le> x \<Longrightarrow> \<not> rlive h x"
    "\<And>h' k. \<forall>x \<in> insert (ctree s) (set as). same_node h h' x \<Longrightarrow> rbrk h \<le> rbrk h' \<Longrightarrow> want h' k = Inr (P k)"
  defines "kvs \<equiv> entries h (filter (\<lambda>x. P (nkey h x)) ys)"
  shows "if length kvs \<le> rroom h
    then \<exists>h' s' bs ns. cont_insert_range cmp want h s (first_or (ctree s2) (ys @ zs)) (first_or (ctree s2) zs) = Inr (True, s', h') \<and>
      cont_holds cmp h' s' bs \<and> set bs = set as \<union> set ns \<and> set as \<inter> set ns = {} \<and> entries h' ns = kvs \<and>
      entries h' as = entries h as \<and> rlive h' = (\<lambda>x. rlive h x \<or> x \<in> set ns)
    else \<exists>h'. cont_insert_range cmp want h s (first_or (ctree s2) (ys @ zs)) (first_or (ctree s2) zs) = Inr (False, s, h') \<and>
      cont_holds cmp h' s as \<and> entries h' as = entries h as \<and> rlive h' = rlive h"
proof -
  note upt_Suc [simp del]
  let ?hd = "rbrk h" and ?first = "first_or (ctree s2) (ys @ zs)" and ?last = "first_or (ctree s2) zs"
  let ?h0 = "h\<lparr>rlive := (rlive h)(rbrk h := True), rbrk := rbrk h + 1\<rparr>"
  let ?h1 = "?h0\<lparr>rgt := (rgt ?h0)(?hd := NIL)\<rparr>"
  let ?S = "insert (ctree s) (set as) \<union> insert (ctree s2) (set (xs @ ys @ zs))"
  note D = cont_holdsD [OF assms(2)] and D2 = cont_holdsD [OF assms(3)]
  have low: "x < ?hd" if "x \<in> ?S" for x using that D(6,8) D2(6,8) by blast
  have hd: "?hd \<noteq> NIL" using D(9) by (simp add: NIL_def)
  have start: "range_head h = (?hd, ?h0)" "wr_right ?h0 ?hd NIL = Inr ?h1" using hd by (simp_all add: range_head_def wr_right_def)
  have same: "same_node h ?h1 x" if "x < ?hd" for x using that by (simp add: same_node_def at_node_def)
  obtain T2 where T2: "rb_at h (ctree s2) T2" "inorder T2 = xs @ ys @ zs" using D2(3) by blast
  have T2': "rb_at ?h1 (ctree s2) T2"
    by (rule rb_at_agree [OF T2(1)]) (use low same T2(2) in \<open>auto simp: same_node_def\<close>)
  have kvs: "entries ?h1 (filter (\<lambda>x. P (nkey ?h1 x)) ys) = kvs" unfolding kvs_def by (simp add: entries_def)
  have "length ys \<le> rbrk h" using D2(10) by simp
  moreover have "want h' k = Inr (P k)" if "\<forall>x \<in> ?S. same_node ?h1 h' x" "rbrk ?h1 \<le> rbrk h'" for h' k
  proof (rule assms(5))
    show "\<forall>x \<in> insert (ctree s) (set as). same_node h h' x" using that(1) same low same_node_trans by (meson UnI1)
    show "rbrk h \<le> rbrk h'" using that(2) by simp
  qed
  ultimately have "\<exists>r h'. collect_loop want (rbrk h) ?h1 ?first ?last ?hd 0 = Inr (r, h') \<and>
      collected ?h1 ?hd (entries ?h1 (filter (\<lambda>x. P (nkey ?h1 x)) ys)) 0 r h'"
    by (intro collect_loop_correct [OF T2(2) T2', of _ ?S]) (use T2(2) low hd in \<open>auto intro: less_SucI\<close>)
  then obtain r h2 where
    h2: "collect_loop want (rbrk h) ?h1 ?first ?last ?hd 0 = Inr (r, h2)" "collected ?h1 ?hd kvs 0 r h2" unfolding kvs by blast
  have old: "same_node h h2 x" if "x < ?hd" "\<And>x. x \<noteq> ?hd \<Longrightarrow> x \<notin> set [Suc ?hd ..< Suc ?hd + m] \<Longrightarrow> same_node ?h1 h2 x" for x m
    using same [OF that(1)] that(2) [of x] that(1) same_node_trans by auto
  have live: "rlive h2 x = rlive h x" if "x \<noteq> ?hd" "x \<notin> set [Suc ?hd ..< Suc ?hd + m]"
    "\<And>x. x \<noteq> ?hd \<Longrightarrow> x \<notin> set [Suc ?hd ..< Suc ?hd + m] \<Longrightarrow> same_node ?h1 h2 x" for x m
    using that(3) [OF that(1,2)] that(1) by (simp add: same_node_def at_node_def)
  show ?thesis
  proof (cases "length kvs \<le> rroom h")
    case True
    let ?ns = "[Suc ?hd ..< Suc ?hd + length kvs]"
    obtain c where c: "r = Some c" "\<And>d. sz (d + c) = sz (d + length kvs)" "extended ?h1 ?hd kvs NIL h2"
      using h2(2) True by (auto simp: collected_def)
    have "length kvs \<le> rroom ?h1" "rbrk ?h1 = Suc ?hd" using True by simp_all
    note ext = extended_nodes [OF c(3) this(1), unfolded this(2)]
    have h2_old: "same_node h h2 x" if "x < ?hd" for x using old [OF that, of "length kvs"] ext(4) by blast
    have "cont_holds cmp h2 s as"
      by (rule cont_holds_agree [OF assms(2)]) (use h2_old low ext(6) in \<open>auto simp: same_node_def\<close>)
    then have held: "tree_holds cmp h2 (ctree s) as" by (simp add: cont_holds_def tree_holds_def)
    have apart: "set ?ns \<inter> insert (ctree s) (set as) = {}" using low by fastforce
    have "length ?ns \<le> rbrk h2" using ext(6) by (simp del: upt_Suc)
    from link_loop_correct [OF assms(1) held ext(1) distinct_upt ext(3) apart this] obtain h3 bs where
      h3: "link_loop cmp (rbrk h2) h2 (ctree s) (rgt h2 ?hd) = Inr h3" "tree_holds cmp h3 (ctree s) bs" "set bs = set as \<union> set ?ns"
        "length bs = length as + length ?ns" "rb_keeps (set ?ns \<union> insert (ctree s) (set as)) h2 h3" by blast
    let ?s = "s\<lparr>csize := sz (csize s + c)\<rparr>" and ?h = "end_local h3 ?hd"
    have "rd_right h2 ?hd = Inr (rgt h2 ?hd)" using ext(5) hd by (simp add: rd_right_def)
    then have run: "cont_insert_range cmp want h s ?first ?last = Inr (True, ?s, ?h)"
      using start h2(1) c(1) h3(1) by (simp add: cont_insert_range_def)
    obtain T where T: "rb_at h3 (ctree s) T" "red_black T" "inorder T = bs" "in_order cmp (nkey h3) bs" using h3(2) by (auto simp: tree_holds_def)
    have "?hd \<notin> insert (ctree s) (set (inorder T))" using h3(3) T(3) low by fastforce
    from rb_at_free [OF T(1) this] have "rb_at ?h (ctree s) T" by (simp add: end_local_def)
    moreover have "csize ?s = sz (length bs)" using D(1) sz_add [of "length as" c] c(2) [of "length as"] h3(4) by simp
    ultimately have "cont_holds cmp ?h ?s bs" using T(2-4) by (auto simp: cont_holds_def end_local_def)
    moreover have "entries ?h ?ns = kvs" "entries ?h as = entries h as"
    proof -
      have eq: "nkey ?h = nkey h2" "nval ?h = nval h2" using h3(5) by (simp_all add: rb_keeps_def end_local_def)
      then show "entries ?h ?ns = kvs" using ext(2) by (simp add: entries_def)
      have "entries h2 as = entries h as" by (rule entries_same) (use h2_old low in blast)
      then show "entries ?h as = entries h as" using eq by (simp add: entries_def)
    qed
    moreover have "rlive ?h x = (rlive h x \<or> x \<in> set ?ns)" for x
    proof -
      have "rlive h3 = rlive h2" using h3(5) by (simp add: rb_keeps_def)
      then show ?thesis using live [of x "length kvs"] ext(3) [of x] ext(4) assms(4) [of ?hd]
        by (cases "x = ?hd"; cases "x \<in> set ?ns") (auto simp: end_local_def new_red_def)
    qed
    ultimately show ?thesis using True run h3(3) apart unfolding if_P [OF True] by (intro exI [of _ ?h] exI [of _ ?s] exI [of _ bs] exI [of _ ?ns]) (auto simp: fun_eq_iff)
  next
    case False
    let ?m = "rroom h" and ?ns = "[Suc ?hd ..< Suc ?hd + rroom h]"
    have c: "r = None" "extended ?h1 ?hd (take ?m kvs) 0 h2" using h2(2) False by (auto simp: collected_def)
    have len: "length (take ?m kvs) = ?m" using False by simp
    have "length (take ?m kvs) \<le> rroom ?h1" "rbrk ?h1 = Suc ?hd" using len by simp_all
    note ext = extended_nodes [OF c(2) this(1), unfolded this(2) len]
    have h2_old: "same_node h h2 x" if "x < ?hd" for x using old [OF that, of ?m] ext(4) by blast
    have "length ?ns \<le> rbrk h2" using ext(6) by (simp del: upt_Suc)
    from release_loop_correct [OF ext(1) distinct_upt ext(3) this] obtain h3 where
      h3: "release_loop (rbrk h2) h2 (rgt h2 ?hd) = Inr h3" "rlive h3 = (\<lambda>y. rlive h2 y \<and> y \<notin> set ?ns)" "rbrk h3 = rbrk h2"
        "\<And>x. x \<notin> set ?ns \<Longrightarrow> same_node h2 h3 x" by blast
    let ?h = "end_local h3 ?hd"
    have "rd_right h2 ?hd = Inr (rgt h2 ?hd)" using ext(5) hd by (simp add: rd_right_def)
    then have run: "cont_insert_range cmp want h s ?first ?last = Inr (False, s, ?h)"
      using start h2(1) c(1) h3(1) by (simp add: cont_insert_range_def)
    have h_old: "same_node h ?h x" if "x < ?hd" for x
    proof -
      have "same_node h2 h3 x" using h3(4) [of x] that by simp
      moreover have "same_node h3 ?h x" using that by (simp add: end_local_def same_node_def at_node_def)
      ultimately show ?thesis using h2_old [OF that] same_node_trans by blast
    qed
    have "cont_holds cmp ?h s as"
      by (rule cont_holds_agree [OF assms(2)]) (use h_old low ext(6) h3(3) in \<open>auto simp: same_node_def end_local_def\<close>)
    moreover have "entries ?h as = entries h as" by (rule entries_same) (use h_old low in blast)
    moreover have "rlive ?h = rlive h"
    proof
      fix x
      show "rlive ?h x = rlive h x" using live [of x ?m] ext(4) assms(4) [of x]
        by (cases "x = ?hd"; cases "x \<in> set ?ns") (auto simp: end_local_def h3(2))
    qed
    ultimately show ?thesis using False run by auto
  qed
qed

end
