(* ===== verification/Cstl_Map_Spec.thy ===== *)
theory Cstl_Map_Spec
  imports Cstl_Map_Range
begin

text \<open>
  What the users of the trees and containers can rely on: the tree rules, searches that descend a
  logarithmic number of nodes, walks in order, and maps and multimaps as functions and as lists of entries.
\<close>

lemma total_cmp_minus: "total_cmp ((-) :: int \<Rightarrow> int \<Rightarrow> int)"
  by (simp add: total_cmp_def)

subsection \<open>Height\<close>

fun theight :: "rtree \<Rightarrow> nat" where
  "theight Tip = 0"
| "theight (Nd l a c r) = Suc (max (theight l) (theight r))"

lemma rb_tree_height: "rb_tree t n \<Longrightarrow> theight t \<le> 2 * n + (if tcol t = COLOR_RED then 1 else 0)"
proof (induction t arbitrary: n)
  case (Nd l a c r)
  then show ?case by (cases c) (fastforce split: if_splits)+
qed simp

lemma rb_tree_size: "rb_tree t n \<Longrightarrow> 2 ^ n \<le> Suc (tsize t)"
proof (induction t arbitrary: n)
  case (Nd l a c r)
  show ?case
  proof (cases c)
    case COLOR_RED
    then show ?thesis using Nd.IH(1) [of n] Nd.prems by simp
  next
    case COLOR_BLACK
    then obtain m where "n = Suc m" "rb_tree l m" "rb_tree r m" using Nd.prems by (cases n) auto
    then show ?thesis using Nd.IH(1) [of m] Nd.IH(2) [of m] by simp
  qed (use Nd.prems in simp)
qed simp

lemma red_black_height:
  assumes "red_black T"
  shows "2 ^ (Suc (theight T) div 2) \<le> Suc (length (inorder T))"
proof -
  obtain n where n: "rb_tree T n" "tcol T = COLOR_BLACK" using assms by (auto simp: red_black_def)
  have "Suc (theight T) div 2 \<le> n" using rb_tree_height [OF n(1)] n(2) by simp
  then have "(2::nat) ^ (Suc (theight T) div 2) \<le> 2 ^ n" by (rule power_increasing) simp
  from order_trans [OF this rb_tree_size [OF n(1)]] show ?thesis unfolding length_inorder .
qed

text \<open>As many rounds as the height are enough for the loops that descend.\<close>

lemma find_node_rounds:
  assumes "zip_at h self C t" "theight t \<le> fuel" "theight t \<le> fuel'"
  shows "rb_find_node cmp fuel h (troot t) k = rb_find_node cmp fuel' h (troot t) k"
  using assms
proof (induction t arbitrary: C fuel fuel')
  case Tip
  then show ?case by (cases fuel; cases fuel') auto
next
  case (Nd l a c r)
  obtain f f' where f: "fuel = Suc f" "fuel' = Suc f'" using Nd.prems(2,3) by (cases fuel; cases fuel') auto
  note sub = zip_children [OF Nd.prems(1)] and reads = zip_reads [OF Nd.prems(1)]
  show ?case using Nd.IH(1) [OF sub(1), of f f'] Nd.IH(2) [OF sub(2), of f f'] Nd.prems(2,3) reads by (simp add: f)
qed

lemma bound_loop_rounds:
  assumes "zip_at h self C t" "theight t \<le> fuel" "theight t \<le> fuel'"
  shows "rb_bound_loop test fuel h (troot t) tmp = rb_bound_loop test fuel' h (troot t) tmp"
  using assms
proof (induction t arbitrary: C fuel fuel' tmp)
  case Tip
  then show ?case by (cases fuel; cases fuel') auto
next
  case (Nd l a c r)
  obtain f f' where f: "fuel = Suc f" "fuel' = Suc f'" using Nd.prems(2,3) by (cases fuel; cases fuel') auto
  note sub = zip_children [OF Nd.prems(1)] and reads = zip_reads [OF Nd.prems(1)]
  show ?case using Nd.IH(1) [OF sub(1), of f f'] Nd.IH(2) [OF sub(2), of f f'] Nd.prems(2,3) reads by (simp add: f)
qed

lemma place_loop_rounds:
  assumes "zip_at h self C t" "t \<noteq> Tip" "theight t \<le> fuel" "theight t \<le> fuel'"
  shows "rb_place_loop cmp fuel h k (troot t) = rb_place_loop cmp fuel' h k (troot t)"
  using assms
proof (induction t arbitrary: C fuel fuel')
  case (Nd l a c r)
  obtain f f' where f: "fuel = Suc f" "fuel' = Suc f'" using Nd.prems(3,4) by (cases fuel; cases fuel') auto
  note sub = zip_children [OF Nd.prems(1)] and reads = zip_reads [OF Nd.prems(1)]
  show ?case
  proof (cases "cmp k (nkey h a) < 0")
    case True
    then show ?thesis using Nd.IH(1) [OF sub(1), of f f'] Nd.prems(3,4) reads sub(3) by (cases "l = Tip") (simp_all add: f)
  next
    case False
    then show ?thesis using Nd.IH(2) [OF sub(2), of f f'] Nd.prems(3,4) reads sub(4) by (cases "r = Tip") (simp_all add: f)
  qed
qed simp

lemma theight_length: "theight t \<le> length (inorder t)"
  by (induction t) auto

text \<open>
  C33: The loops that go down a red-black tree, for \<open>find\<close>, for the bounds and for the place of a new
  node, take at most \<open>d\<close> rounds, where \<open>2 ^ ((d + 1) div 2)\<close> is at most the number of elements plus one: with
  \<open>d\<close> as fuel they return what they return with any more, and they do return.
\<close>

theorem descents_are_logarithmic:
  assumes "total_cmp cmp" "rb_at h self T" "red_black T" "in_order cmp (nkey h) (inorder T)"
  shows "\<exists>d. 2 ^ ((d + 1) div 2) \<le> length (inorder T) + 1 \<and>
    (\<forall>k. \<exists>x. rb_find_node cmp d h (troot T) k = Inr x \<and> rb_find_node cmp (rbrk h) h (troot T) k = Inr x) \<and>
    (\<forall>k. \<exists>x. rb_bound_loop (\<lambda>y. cmp k y \<le> 0) d h (troot T) self = Inr x \<and> rb_lower_bound cmp h self k = Inr x) \<and>
    (\<forall>k. T \<noteq> Tip \<longrightarrow> (\<exists>x. rb_place_loop cmp d h k (troot T) = Inr x \<and> rb_place_loop cmp (rbrk h) h k (troot T) = Inr x))"
proof (rule exI [of _ "theight T"], intro conjI allI impI)
  have "length (inorder T) \<le> rbrk h" using zip_depth(2) [OF assms(2)] by simp
  then have le: "theight T \<le> rbrk h" "length (inorder T) \<le> rbrk h" using theight_length [of T] by simp_all
  show "2 ^ ((theight T + 1) div 2) \<le> length (inorder T) + 1" using red_black_height [OF assms(3)] by simp
  show "\<exists>x. rb_find_node cmp (theight T) h (troot T) k = Inr x \<and> rb_find_node cmp (rbrk h) h (troot T) k = Inr x" for k
    using rb_find_node_correct [OF assms(2) le(2) assms(1,4), of k] find_node_rounds [OF assms(2) order_refl le(1), of cmp k] by auto
  show "\<exists>x. rb_bound_loop (\<lambda>y. cmp k y \<le> 0) (theight T) h (troot T) self = Inr x \<and> rb_lower_bound cmp h self k = Inr x" for k
    using rb_bound_loop_correct [OF assms(2) le(2) upward_less(2) [OF assms(1,4)], of k self]
      bound_loop_rounds [OF assms(2) order_refl le(1), of "\<lambda>y. cmp k y \<le> 0" self] rb_get_root_at [OF assms(2)]
    by (simp add: rb_lower_bound_def rb_end_def)
  show "\<exists>x. rb_place_loop cmp (theight T) h k (troot T) = Inr x \<and> rb_place_loop cmp (rbrk h) h k (troot T) = Inr x" if "T \<noteq> Tip" for k
    using rb_place_loop_correct [OF assms(2) that le(2), of cmp k] upward_less(1) [OF assms(1,4), of k]
      place_loop_rounds [OF assms(2) that order_refl le(1), of cmp k] by (auto simp: splits_def)
qed

text \<open>A small tree: the head at 2, the nodes 3, 4 and 5 with the keys 10, 20 and 30, and a new node at 6.\<close>

definition small_heap :: "(int, int) rheap" where
  "small_heap = \<lparr>lft = (\<lambda>_. NIL)(4 := 3), rgt = (\<lambda>_. NIL)(2 := 4, 4 := 5), par = (\<lambda>_. NIL)(4 := 2, 3 := 4, 5 := 4),
     clr = (\<lambda>_. COLOR_RED)(2 := COLOR_HEAD, 4 := COLOR_BLACK), nkey = (\<lambda>x. 10 * int x - 20)(6 := 15), nval = int,
     rlive = (\<lambda>x. x \<in> {2, 3, 4, 5, 6}), rbrk = 7, rroom = 5\<rparr>"

definition small_tree :: rtree where
  "small_tree = Nd (Nd Tip 3 COLOR_RED Tip) 4 COLOR_BLACK (Nd Tip 5 COLOR_RED Tip)"

lemma small_tree_holds:
  "rb_at small_heap 2 small_tree" "red_black small_tree" "in_order (-) (nkey small_heap) (inorder small_tree)" "inorder small_tree = [3, 4, 5]"
  "leaf_node small_heap 6"
proof -
  show "rb_at small_heap 2 small_tree"
    by (simp add: zip_at_def small_heap_def small_tree_def node_at_def addrs_ok_def NIL_def)
  have "rb_tree small_tree 1" by (simp add: small_tree_def)
  then show "red_black small_tree" unfolding red_black_def by (auto simp: small_tree_def)
  show "in_order (-) (nkey small_heap) (inorder small_tree)" by (simp add: in_order_def small_heap_def small_tree_def)
  show "inorder small_tree = [3, 4, 5]" by (simp add: small_tree_def)
  show "leaf_node small_heap 6" by (simp add: leaf_node_def small_heap_def NIL_def)
qed

theorem descents_are_logarithmic_witness:
  "\<exists>d. 2 ^ ((d + 1) div 2) \<le> length (inorder small_tree) + 1 \<and> (\<exists>x. rb_find_node (-) d small_heap 4 30 = Inr x)"
proof -
  have "troot small_tree = 4" by (simp add: small_tree_def)
  then show ?thesis using descents_are_logarithmic [OF total_cmp_minus small_tree_holds(1-3)] by metis
qed

text \<open>
  C17: \<open>RBTree_insert\<close> of a new node and \<open>RBTree_erase\<close> of any node keep the tree: they return without a
  fault, every link of the heap is again that of a tree under its head, the colour rules hold, and the nodes
  are those of before with the one put after all that are not greater, or taken out and freed.
\<close>

theorem rb_updates_keep_rules:
  assumes "total_cmp cmp" "rb_at h self T" "red_black T" "in_order cmp (nkey h) (inorder T)"
  shows "(leaf_node h x \<and> x \<notin> insert self (set (inorder T)) \<longrightarrow> (\<exists>h' T'. rb_insert cmp h self x = Inr h' \<and> rb_at h' self T' \<and>
      red_black T' \<and> in_order cmp (nkey h') (inorder T') \<and> inorder T' = filter (\<lambda>y. \<not> cmp (nkey h x) (nkey h y) < 0) (inorder T) @
        x # filter (\<lambda>y. cmp (nkey h x) (nkey h y) < 0) (inorder T))) \<and>
    (\<forall>xs y ys. inorder T = xs @ y # ys \<longrightarrow> (\<exists>h' T'. rb_erase h self y = Inr h' \<and> rb_at h' self T' \<and> red_black T' \<and>
      in_order cmp (nkey h') (inorder T') \<and> inorder T' = xs @ ys \<and> rlive h' = (rlive h)(y := False)))"
proof (intro conjI impI allI)
  assume "leaf_node h x \<and> x \<notin> insert self (set (inorder T))"
  then obtain h' T' where h': "rb_insert cmp h self x = Inr h'" "rb_at h' self T'" "red_black T'"
      "inorder T' = insert_place cmp (nkey h) x (inorder T)" "rb_keeps (insert x (insert self (set (inorder T)))) h h'"
    using rb_insert_correct [OF assms] by blast
  have "nkey h' = nkey h" using h'(5) by (simp add: rb_keeps_def)
  then show "\<exists>h' T'. rb_insert cmp h self x = Inr h' \<and> rb_at h' self T' \<and>
      red_black T' \<and> in_order cmp (nkey h') (inorder T') \<and> inorder T' = filter (\<lambda>y. \<not> cmp (nkey h x) (nkey h y) < 0) (inorder T) @
        x # filter (\<lambda>y. cmp (nkey h x) (nkey h y) < 0) (inorder T)"
    using h'(1-4) insert_place_in_order [OF assms(1,4), of x] unfolding insert_place_def by (intro exI [of _ h'] exI [of _ T']) simp
next
  fix xs y ys assume T: "inorder T = xs @ y # ys"
  from rb_erase_correct [OF assms(2,3) T] obtain h' T' where
    h': "rb_erase h self y = Inr h'" "rb_at h' self T'" "red_black T'" "inorder T' = xs @ ys" "rlive h' = (rlive h)(y := False)" "nkey h' = nkey h"
    by blast
  have "in_order cmp (nkey h') (inorder T')" using assms(4) T h'(4,6) by (auto simp: in_order_append in_order_Cons)
  then show "\<exists>h' T'. rb_erase h self y = Inr h' \<and> rb_at h' self T' \<and> red_black T' \<and>
      in_order cmp (nkey h') (inorder T') \<and> inorder T' = xs @ ys \<and> rlive h' = (rlive h)(y := False)" using h' by blast
qed

theorem rb_updates_keep_rules_witness:
  "(\<exists>h' T'. rb_insert (-) small_heap 2 6 = Inr h' \<and> red_black T' \<and> rb_at h' 2 T' \<and> inorder T' = [3, 6, 4, 5]) \<and>
   (\<exists>h' T'. rb_erase small_heap 2 4 = Inr h' \<and> red_black T' \<and> rb_at h' 2 T' \<and> inorder T' = [3, 5])"
proof -
  note rules = rb_updates_keep_rules [OF total_cmp_minus small_tree_holds(1-3), of 6, unfolded small_tree_holds(4)]
  have keys: "nkey small_heap 3 = 10" "nkey small_heap 4 = 20" "nkey small_heap 5 = 30" "nkey small_heap 6 = 15"
    by (simp_all add: small_heap_def)
  show ?thesis
  proof
    have "leaf_node small_heap 6 \<and> 6 \<notin> insert 2 (set [3, 4, 5 :: nat])" using small_tree_holds(5) by simp
    from mp [OF conjunct1 [OF rules] this] obtain h' T' where
      "rb_insert (-) small_heap 2 6 = Inr h'" "red_black T'" "rb_at h' 2 T'"
      "inorder T' = filter (\<lambda>y. \<not> nkey small_heap 6 - nkey small_heap y < 0) [3, 4, 5] @ 6 # filter (\<lambda>y. nkey small_heap 6 - nkey small_heap y < 0) [3, 4, 5]"
      by blast
    then show "\<exists>h' T'. rb_insert (-) small_heap 2 6 = Inr h' \<and> red_black T' \<and> rb_at h' 2 T' \<and> inorder T' = [3, 6, 4, 5]"
      using keys by (intro exI [of _ h'] exI [of _ T']) simp
    have "[3, 4, 5] = [3] @ 4 # [5::nat]" by simp
    then show "\<exists>h' T'. rb_erase small_heap 2 4 = Inr h' \<and> red_black T' \<and> rb_at h' 2 T' \<and> inorder T' = [3, 5]"
      using spec [OF spec [OF spec [OF conjunct2 [OF rules], of "[3]"], of 4], of "[5]"] by auto
  qed
qed

subsection \<open>Queries\<close>

text \<open>
  C32: What the functions that only read return on a container with the nodes \<open>as\<close>: the walk from \<open>begin\<close>
  with \<open>next\<close> gives every node once, in ascending order, up to \<open>end\<close>, and \<open>prev\<close> goes back; \<open>find\<close> gives a node with
  an equivalent key, or \<open>end\<close> when there is none; \<open>equal_range\<close> gives the first node that is not less and the
  first that is greater; \<open>count\<close> the number of those between.
\<close>

theorem cont_queries_correct:
  assumes "total_cmp cmp" "cont_holds cmp h s as"
  shows "cont_size s = sz (length as) \<and> cont_empty h s = Inr (as = []) \<and> cont_end h s = Inr (ctree s) \<and>
    cont_begin h s = Inr (first_or (ctree s) as) \<and> cont_rbegin h s = Inr (last_or (ctree s) as) \<and>
    (\<forall>xs y ys. as = xs @ y # ys \<longrightarrow> cont_next h y = Inr (first_or (ctree s) ys) \<and> cont_prev h y = Inr (last_or (ctree s) xs)) \<and>
    (\<forall>k. (\<exists>x. cont_find cmp h s k = Inr x \<and>
        (if x = ctree s then \<forall>y \<in> set as. cmp k (nkey h y) \<noteq> 0 else x \<in> set as \<and> cmp k (nkey h x) = 0)) \<and>
      cont_equal_range cmp h s k = Inr (first_or (ctree s) (filter (\<lambda>x. cmp k (nkey h x) \<le> 0) as),
        first_or (ctree s) (filter (\<lambda>x. cmp k (nkey h x) < 0) as)) \<and>
      cont_count cmp h s k = Inr (length (filter (\<lambda>x. cmp k (nkey h x) = 0) as)))"
proof -
  note D = cont_holdsD [OF assms(2)]
  obtain T where T: "rb_at h (ctree s) T" "inorder T = as" using D(3) by blast
  have ord: "in_order cmp (nkey h) (inorder T)" using D(2) T(2) by simp
  note walk = rb_walk_correct [OF T(1), unfolded T(2)] and bounds = rb_bounds_correct [OF T(1) assms(1) ord, unfolded T(2)]
    and count = rb_count_correct [OF T(1) assms(1) ord, unfolded T(2)] and find = find_held [OF assms]
  have "cont_empty h s = Inr (as = [])"
    using rb_get_root_at [OF T(1)] zip_root_nil [OF T(1)] T(2) by (cases T) (auto simp: cont_empty_def rb_empty_def)
  then show ?thesis using D(1) walk bounds count find
    by (simp add: cont_size_def cont_end_def rb_end_def cont_begin_def cont_rbegin_def cont_next_def cont_prev_def
        cont_find_def cont_equal_range_def cont_count_def)
qed

definition small_cont :: rcont where
  "small_cont = \<lparr>cself = 9, ctree = 2, csize = 3\<rparr>"

lemma small_cont_holds: "cont_holds (-) small_heap small_cont [3, 4, 5]"
  using small_tree_holds by (auto simp: cont_holds_def small_cont_def sz_def)

theorem cont_queries_correct_witness:
  "cont_begin small_heap small_cont = Inr 3 \<and> cont_next small_heap 3 = Inr 4 \<and> cont_next small_heap 5 = Inr 2 \<and>
   cont_count (-) small_heap small_cont 20 = Inr 1"
proof -
  note q = cont_queries_correct [OF total_cmp_minus small_cont_holds]
  have t: "ctree small_cont = 2" by (simp add: small_cont_def)
  have "cont_begin small_heap small_cont = Inr 3" using q by simp
  moreover have nxt: "cont_next small_heap y = Inr (first_or 2 ys)" if "[3, 4, 5] = xs @ y # ys" for xs y ys
    using q that t by simp
  have "cont_next small_heap 3 = Inr 4" "cont_next small_heap 5 = Inr 2"
    using nxt [of "[]" 3 "[4, 5]"] nxt [of "[3, 4]" 5 "[]"] by simp_all
  moreover have "cont_count (-) small_heap small_cont 20 = Inr 1"
  proof -
    have "cont_count (-) small_heap small_cont 20 = Inr (length (filter (\<lambda>x. 20 - nkey small_heap x = 0) [3, 4, 5]))" using q by blast
    then show ?thesis by (simp add: small_heap_def)
  qed
  ultimately show ?thesis by simp
qed

subsection \<open>Maps\<close>

lemma map_at_as_insert:
  "map_at cmp zero h s k = rbind (map_insert_ref cmp h s k zero) (\<lambda>(x, b, s', h'). Inr (x, s', h'))"
proof (cases "rb_find cmp h (ctree s) k")
  case (Inr x)
  obtain n h1 where n: "map_new_node h k zero COLOR_RED = (n, h1)" by fastforce
  show ?thesis by (cases "rb_insert cmp h1 (ctree s) n") (simp_all add: map_at_def map_insert_ref_def rb_end_def Inr n)
qed (simp add: map_at_def map_insert_ref_def)

text \<open>
  C19: A map container stands for a function from keys to values.  \<open>find\<close> returns its value; \<open>insert\<close> of a key
  without a value adds it if there is memory for a node and otherwise changes nothing, as it does for a key
  that has one; \<open>erase_key\<close> removes the key and returns how many elements that were.  All of them return
  without a fault and leave a well-formed map.
\<close>

theorem map_refines:
  assumes "total_cmp cmp" "map_holds cmp h s m"
  shows "map_get cmp h s k = Inr (m k) \<and>
    (\<exists>x b s' h'. map_insert cmp h s k v = Inr (x, b, s', h') \<and> (b \<longleftrightarrow> m k = None \<and> 0 < rroom h) \<and>
      map_holds cmp h' s' (if b then (\<lambda>j. if cmp j k = 0 then Some v else m j) else m)) \<and>
    (\<exists>s' h'. cont_erase_key cmp h s k = Inr (if m k = None then 0 else 1, s', h') \<and>
      map_holds cmp h' s' (\<lambda>j. if cmp j k = 0 then None else m j))"
  using map_get_correct [OF assms] map_insert_refines [OF assms] cont_erase_key_refines [OF assms] by blast

lemma small_map_holds: "map_holds (-) small_heap small_cont (\<lambda>k. if k = 10 then Some 3 else if k = 20 then Some 4 else if k = 30 then Some 5 else None)"
  unfolding map_holds_def
proof (intro exI conjI)
  show "cont_holds (-) small_heap small_cont [3, 4, 5]" by (rule small_cont_holds)
  show "uniq (-) (nkey small_heap) [3, 4, 5]" by (auto simp: uniq_def small_heap_def)
qed (auto simp: small_heap_def)

theorem map_refines_witness:
  "map_get (-) small_heap small_cont 20 = Inr (Some 4) \<and>
   (\<exists>x s' h'. map_insert (-) small_heap small_cont 25 7 = Inr (x, True, s', h')) \<and>
   (\<exists>s' h'. cont_erase_key (-) small_heap small_cont 30 = Inr (1, s', h'))"
proof (intro conjI)
  show "map_get (-) small_heap small_cont 20 = Inr (Some 4)"
    using map_refines [OF total_cmp_minus small_map_holds, of 20] by simp
  have "0 < rroom small_heap" by (simp add: small_heap_def)
  then show "\<exists>x s' h'. map_insert (-) small_heap small_cont 25 7 = Inr (x, True, s', h')"
    using map_refines [OF total_cmp_minus small_map_holds, of 25 7] by auto
  show "\<exists>s' h'. cont_erase_key (-) small_heap small_cont 30 = Inr (1, s', h')"
    using map_refines [OF total_cmp_minus small_map_holds, of 30 0] by auto
qed

subsection \<open>Inserting ranges\<close>

lemma not_found_correct:
  assumes "total_cmp cmp" "cont_holds cmp h s as" "\<forall>x \<in> insert (ctree s) (set as). same_node h h' x" "rbrk h \<le> rbrk h'"
  shows "not_found cmp (ctree s) h' k = Inr (\<forall>y \<in> set as. cmp k (nkey h y) \<noteq> 0)"
proof -
  have key: "nkey h' x = nkey h x" if "x \<in> set as" for x using assms(3) that by (simp add: same_node_def)
  have "cont_holds cmp h' s as"
    by (rule cont_holds_agree [OF assms(2)]) (use assms(3,4) in \<open>auto simp: same_node_def\<close>)
  from find_held [OF assms(1) this, of k] obtain x where
    x: "rb_find cmp h' (ctree s) k = Inr x"
      "if x = ctree s then \<forall>y \<in> set as. cmp k (nkey h' y) \<noteq> 0 else x \<in> set as \<and> cmp k (nkey h' x) = 0" by blast
  then show ?thesis using key by (cases "x = ctree s") (auto simp: not_found_def rb_end_def)
qed

text \<open>The value that a list of entries gives to a key.\<close>

definition entry_value :: "('k \<Rightarrow> 'k \<Rightarrow> int) \<Rightarrow> ('k \<times> 'v) list \<Rightarrow> 'k \<Rightarrow> 'v option" where
  "entry_value cmp es k = map_option snd (find (\<lambda>e. cmp k (fst e) = 0) es)"

definition distinct_keys :: "('k \<Rightarrow> 'k \<Rightarrow> int) \<Rightarrow> ('k \<times> 'v) list \<Rightarrow> bool" where
  "distinct_keys cmp es \<longleftrightarrow> sorted_wrt (\<lambda>e f. cmp (fst e) (fst f) \<noteq> 0) es"

lemma entry_value_Some:
  assumes "total_cmp cmp" "distinct_keys cmp es"
  shows "entry_value cmp es k = Some v \<longleftrightarrow> (\<exists>e \<in> set es. cmp k (fst e) = 0 \<and> snd e = v)"
  using assms(2)
proof (induction es)
  case (Cons e es)
  have rec: "entry_value cmp es k = Some v \<longleftrightarrow> (\<exists>e \<in> set es. cmp k (fst e) = 0 \<and> snd e = v)"
    using Cons by (simp add: distinct_keys_def)
  show ?case
  proof (cases "cmp k (fst e) = 0")
    case True
    then have "cmp k (fst f) \<noteq> 0" if "f \<in> set es" for f
      using Cons.prems that total_cmp_equiv(2) [OF assms(1) True, of "fst f"] by (simp add: distinct_keys_def)
    then show ?thesis using True by (auto simp: entry_value_def)
  next
    case False
    then show ?thesis using rec by (simp add: entry_value_def)
  qed
qed (simp add: entry_value_def)

text \<open>
  C20: \<open>insert_range\<close> of a map is all or nothing.  Either it returns 1, and the map has, for each key of the
  range that it did not have, the value in the range, while the keys it had keep theirs; or, when one of the new
  nodes cannot be allocated, it returns 0, the map is as before and every node made for it is freed.
\<close>

theorem map_insert_range_all_or_nothing:
  assumes "total_cmp cmp" "map_holds cmp h s m" "cont_holds cmp h s2 (xs @ ys @ zs)" "distinct_keys cmp (entries h ys)"
    "\<And>x. rbrk h \<le> x \<Longrightarrow> \<not> rlive h x"
  shows "\<exists>b s' h'. map_insert_range cmp h s (first_or (ctree s2) (ys @ zs)) (first_or (ctree s2) zs) = Inr (b, s', h') \<and>
    (b \<longleftrightarrow> length (filter (\<lambda>y. m (nkey h y) = None) ys) \<le> rroom h) \<and>
    map_holds cmp h' s' (if b then (\<lambda>k. case m k of Some v \<Rightarrow> Some v | None \<Rightarrow> entry_value cmp (entries h ys) k) else m) \<and>
    (\<not> b \<longrightarrow> rlive h' = rlive h)"
proof -
  obtain as where as: "cont_holds cmp h s as" "uniq cmp (nkey h) as"
    "\<And>k v. m k = Some v \<longleftrightarrow> (\<exists>x \<in> set as. cmp k (nkey h x) = 0 \<and> nval h x = v)" using assms(2) by (auto simp: map_holds_def)
  let ?P = "\<lambda>k. \<forall>y \<in> set as. cmp k (nkey h y) \<noteq> 0"
  let ?ws = "filter (\<lambda>y. ?P (nkey h y)) ys" and ?first = "first_or (ctree s2) (ys @ zs)" and ?last = "first_or (ctree s2) zs"
  have none: "m k = None \<longleftrightarrow> ?P k" for k using as(3) [of k] by (metis not_None_eq)
  have len: "length (entries h ?ws) = length (filter (\<lambda>y. m (nkey h y) = None) ys)" by (simp add: none entries_def)
  note range = cont_insert_range_correct [where want = "not_found cmp (ctree s)" and P = ?P, OF assms(1) as(1) assms(3,5)
      not_found_correct [OF assms(1) as(1)], folded map_insert_range_def]
  show ?thesis
  proof (cases "length (entries h ?ws) \<le> rroom h")
    case False
    from range [unfolded if_not_P [OF False]] obtain h' where
      h': "map_insert_range cmp h s ?first ?last = Inr (False, s, h')" "cont_holds cmp h' s as" "entries h' as = entries h as" "rlive h' = rlive h"
      by blast
    have same: "nkey h' x = nkey h x \<and> nval h' x = nval h x" if "x \<in> set as" for x using h'(3) that by (simp add: entries_def)
    then have "map_holds cmp h' s m" using h'(2) as(2,3) unfolding map_holds_def uniq_def by (intro exI [of _ as]) auto
    then show ?thesis using h'(1,4) False len by (intro exI [of _ False] exI [of _ s] exI [of _ h']) simp
  next
    case True
    from range [unfolded if_P [OF True]] obtain h' s' bs ns where
      h': "map_insert_range cmp h s ?first ?last = Inr (True, s', h')" "cont_holds cmp h' s' bs" "set bs = set as \<union> set ns" "set as \<inter> set ns = {}"
        "entries h' ns = entries h ?ws" "entries h' as = entries h as" by blast
    have same: "nkey h' x = nkey h x \<and> nval h' x = nval h x" if "x \<in> set as" for x using h'(6) that by (simp add: entries_def)
    let ?es = "entries h' ns" and ?m = "\<lambda>k. case m k of Some v \<Rightarrow> Some v | None \<Rightarrow> entry_value cmp (entries h ys) k"
    have es: "?es = filter (\<lambda>e. ?P (fst e)) (entries h ys)" unfolding h'(5) by (simp add: entries_def filter_map o_def)
    have dk: "distinct_keys cmp ?es" unfolding es using assms(4) by (simp add: distinct_keys_def sorted_wrt_filter)
    have new: "(\<exists>x \<in> set ns. cmp k (nkey h' x) = 0 \<and> nval h' x = v) \<longleftrightarrow> entry_value cmp ?es k = Some v" for k v
      unfolding entry_value_Some [OF assms(1) dk] by (auto simp: entries_def)
    have P: "?P (nkey h' x)" if "x \<in> set ns" for x
    proof -
      have "(nkey h' x, nval h' x) \<in> set ?es" using that by (simp add: entries_def)
      then show ?thesis unfolding es by simp
    qed
    have "uniq cmp (nkey h') bs" unfolding uniq_def
    proof (intro ballI impI)
      fix x y assume xy: "x \<in> set bs" "y \<in> set bs" "cmp (nkey h' x) (nkey h' y) = 0"
      have yx: "cmp (nkey h' y) (nkey h' x) = 0" by (rule total_cmp_equiv(1) [OF assms(1) xy(3)])
      consider "x \<in> set as" "y \<in> set as" | "x \<in> set ns" "y \<in> set ns" | "x \<in> set as" "y \<in> set ns" | "x \<in> set ns" "y \<in> set as"
        using xy(1,2) h'(3) by blast
      then show "x = y"
      proof cases
        case 1
        then show ?thesis using as(2) xy(3) same by (auto simp: uniq_def)
      next
        case 2
        have "sorted_wrt (\<lambda>x y. cmp (nkey h' x) (nkey h' y) \<noteq> 0) ns" using dk by (simp add: distinct_keys_def entries_def sorted_wrt_map)
        then show ?thesis using 2 xy(3) yx by (induction ns) auto
      next
        case 3
        then show ?thesis using P [of y] same yx by auto
      next
        case 4
        then show ?thesis using P [of x] same xy(3) by auto
      qed
    qed
    moreover have "?m k = Some v \<longleftrightarrow> (\<exists>x \<in> set bs. cmp k (nkey h' x) = 0 \<and> nval h' x = v)" for k v
    proof -
      have old: "(\<exists>x \<in> set as. cmp k (nkey h' x) = 0 \<and> nval h' x = v) \<longleftrightarrow> m k = Some v" using as(3) same by auto
      have same_value: "entry_value cmp ?es k = entry_value cmp (entries h ys) k" if "m k = None"
      proof -
        have "?P (fst e)" if "cmp k (fst e) = 0" for e :: "'a \<times> 'b"
          using none [of k] \<open>m k = None\<close> total_cmp_equiv(2) [OF assms(1) that] by auto
        then have "(\<exists>e \<in> set ?es. cmp k (fst e) = 0 \<and> snd e = v) \<longleftrightarrow> (\<exists>e \<in> set (entries h ys). cmp k (fst e) = 0 \<and> snd e = v)" for v
          unfolding es set_filter by fastforce
        then show ?thesis using entry_value_Some [OF assms(1) dk] entry_value_Some [OF assms(1,4)] by (metis option.exhaust)
      qed
      have gone: "entry_value cmp ?es k = None" if "m k \<noteq> None"
      proof -
        obtain y where y: "y \<in> set as" "cmp k (nkey h y) = 0" using none [of k] \<open>m k \<noteq> None\<close> by blast
        have "cmp k (fst e) \<noteq> 0" if "?P (fst e)" for e :: "'a \<times> 'b"
          using that y total_cmp_equiv(2) [OF assms(1), of k "fst e" "nkey h y"] by auto
        then have "\<not> (\<exists>e \<in> set ?es. cmp k (fst e) = 0)" unfolding es by auto
        then show ?thesis using entry_value_Some [OF assms(1) dk, of k] by (metis not_None_eq)
      qed
      have "(\<exists>x \<in> set bs. cmp k (nkey h' x) = 0 \<and> nval h' x = v) \<longleftrightarrow> m k = Some v \<or> entry_value cmp ?es k = Some v"
        unfolding h'(3) bex_Un old new ..
      then show ?thesis using same_value gone by (cases "m k") auto
    qed
    ultimately have "map_holds cmp h' s' ?m" using h'(2) unfolding map_holds_def by blast
    then show ?thesis using h'(1) True len by (intro exI [of _ True] exI [of _ s'] exI [of _ h']) simp
  qed
qed

text \<open>A second container, empty, with its head at 7.\<close>

definition pair_heap :: "(int, int) rheap" where
  "pair_heap = small_heap\<lparr>clr := (clr small_heap)(7 := COLOR_HEAD), rlive := (\<lambda>x. x \<in> {2, 3, 4, 5, 6, 7}), rbrk := 8\<rparr>"

definition empty_cont :: rcont where
  "empty_cont = \<lparr>cself = 10, ctree = 7, csize = 0\<rparr>"

lemma pair_heap_holds: "cont_holds (-) pair_heap small_cont [3, 4, 5]" "map_holds (-) pair_heap empty_cont (\<lambda>_. None)"
proof -
  show "cont_holds (-) pair_heap small_cont [3, 4, 5]"
    by (rule cont_holds_agree [OF small_cont_holds]) (auto simp: pair_heap_def at_node_def small_cont_def small_heap_def)
  have "rb_at pair_heap 7 Tip" by (simp add: zip_at_def addrs_ok_def pair_heap_def small_heap_def NIL_def)
  then have "cont_holds (-) pair_heap empty_cont []"
    by (auto simp: cont_holds_def empty_cont_def in_order_def sz_def red_black_def intro!: exI [of _ Tip])
  then show "map_holds (-) pair_heap empty_cont (\<lambda>_. None)" unfolding map_holds_def by (intro exI [of _ "[]"]) (simp add: uniq_def)
qed

theorem map_insert_range_all_or_nothing_witness:
  "\<exists>s' h'. map_insert_range (-) pair_heap empty_cont 3 5 = Inr (True, s', h') \<and> (\<exists>m. map_holds (-) h' s' m \<and> m 10 = Some 3 \<and> m 20 = Some 4 \<and> m 30 = None)"
proof -
  have e: "entries pair_heap [3, 4] = [(10, 3), (20, 4)]" by (simp add: entries_def pair_heap_def small_heap_def)
  have "cont_holds (-) pair_heap small_cont ([] @ [3, 4] @ [5])" using pair_heap_holds(1) by simp
  moreover have "distinct_keys (-) (entries pair_heap [3, 4])" by (simp add: e distinct_keys_def)
  moreover have "\<not> rlive pair_heap x" if "rbrk pair_heap \<le> x" for x using that by (auto simp: pair_heap_def)
  ultimately obtain b s' h' where
    b: "map_insert_range (-) pair_heap empty_cont (first_or (ctree small_cont) ([3, 4] @ [5])) (first_or (ctree small_cont) [5]) = Inr (b, s', h')"
      "b \<longleftrightarrow> length (filter (\<lambda>y. (\<lambda>_. None :: int option) (nkey pair_heap y) = None) [3, 4 :: nat]) \<le> rroom pair_heap"
      "map_holds (-) h' s' (if b then (\<lambda>k. case (\<lambda>_. None) k of Some v \<Rightarrow> Some v | None \<Rightarrow> entry_value (-) (entries pair_heap [3, 4]) k) else (\<lambda>_. None))"
    using map_insert_range_all_or_nothing [OF total_cmp_minus pair_heap_holds(2)] by blast
  have "b" using b(2) by (simp add: pair_heap_def small_heap_def)
  then have "map_holds (-) h' s' (entry_value (-) [(10, 3), (20, 4)])" using b(3) by (simp add: e)
  moreover have "map_insert_range (-) pair_heap empty_cont 3 5 = Inr (True, s', h')" using b(1) \<open>b\<close> by simp
  moreover have "entry_value (-) [(10, 3), (20, 4)] (10 :: int) = Some (3 :: int)" "entry_value (-) [(10, 3), (20, 4)] (20 :: int) = Some (4 :: int)"
    "entry_value (-) [(10, 3), (20, 4 :: int)] (30 :: int) = None" by (simp_all add: entry_value_def)
  ultimately show ?thesis by blast
qed

subsection \<open>The life of a multimap\<close>

datatype ('k, 'v) mop = MInsert 'k 'v | MEraseKey 'k | MClear

fun run_mop :: "('k \<Rightarrow> 'k \<Rightarrow> int) \<Rightarrow> rcont \<times> ('k, 'v) rheap \<Rightarrow> ('k, 'v) mop \<Rightarrow> (rcont \<times> ('k, 'v) rheap) res" where
  "run_mop cmp (s, h) (MInsert k v) = rbind (multimap_insert cmp h s k v) (\<lambda>(x, s', h'). Inr (s', h'))"
| "run_mop cmp (s, h) (MEraseKey k) = rbind (cont_erase_key cmp h s k) (\<lambda>(n, s', h'). Inr (s', h'))"
| "run_mop cmp (s, h) MClear = cont_clear h s"

text \<open>The same on a list of entries.\<close>

fun abs_mop :: "('k \<Rightarrow> 'k \<Rightarrow> int) \<Rightarrow> ('k \<times> 'v) list \<Rightarrow> ('k, 'v) mop \<Rightarrow> ('k \<times> 'v) list" where
  "abs_mop cmp es (MInsert k v) = filter (\<lambda>e. \<not> cmp k (fst e) < 0) es @ (k, v) # filter (\<lambda>e. cmp k (fst e) < 0) es"
| "abs_mop cmp es (MEraseKey k) = filter (\<lambda>e. cmp k (fst e) \<noteq> 0) es"
| "abs_mop cmp es MClear = []"

text \<open>The container holds the nodes \<open>as\<close>; the live blocks are its own and those of \<open>L\<close>.\<close>

definition owns :: "('k \<Rightarrow> 'k \<Rightarrow> int) \<Rightarrow> (nat \<Rightarrow> bool) \<Rightarrow> rcont \<Rightarrow> ('k, 'v) rheap \<Rightarrow> nat list \<Rightarrow> bool" where
  "owns cmp L s h as \<longleftrightarrow> cont_holds cmp h s as \<and> rlive h = (\<lambda>x. L x \<or> x \<in> insert (cself s) (insert (ctree s) (set as))) \<and>
     (\<forall>x \<in> insert (cself s) (insert (ctree s) (set as)). \<not> L x) \<and> cself s \<notin> insert (ctree s) (set as) \<and> cself s \<noteq> 0 \<and>
     (\<forall>x. rbrk h \<le> x \<longrightarrow> \<not> rlive h x)"

lemma entries_insert_place:
  assumes "x \<notin> set as" "nkey h' = (nkey h)(x := k)" "nval h' = (nval h)(x := v)"
  shows "entries h' (insert_place cmp (nkey h') x as) = abs_mop cmp (entries h as) (MInsert k v)"
proof -
  have eq: "map (\<lambda>y. (nkey h' y, nval h' y)) (filter P as) = map (\<lambda>y. (nkey h y, nval h y)) (filter P as)" for P
    using assms by (intro map_cong) auto
  have key: "filter (\<lambda>y. Q (nkey h' y)) as = filter (\<lambda>y. Q (nkey h y)) as" for Q
    by (rule filter_cong) (use assms in auto)
  have k: "nkey h' x = k" "nval h' x = v" using assms by simp_all
  show ?thesis unfolding insert_place_def k key [where Q = "\<lambda>j. cmp k j < 0"] key [where Q = "\<lambda>j. \<not> cmp k j < 0"]
    by (simp add: entries_def eq k filter_map o_def)
qed

lemma run_mop_correct:
  assumes "total_cmp cmp" "owns cmp L s h as" "0 < rroom h"
  shows "\<exists>s' h' bs. run_mop cmp (s, h) a = Inr (s', h') \<and> owns cmp L s' h' bs \<and> rroom h - 1 \<le> rroom h' \<and>
    entries h' bs = abs_mop cmp (entries h as) a"
proof -
  have O: "cont_holds cmp h s as" "rlive h = (\<lambda>x. L x \<or> x \<in> insert (cself s) (insert (ctree s) (set as)))"
    "\<And>x. x \<in> insert (cself s) (insert (ctree s) (set as)) \<Longrightarrow> \<not> L x" "cself s \<notin> insert (ctree s) (set as)" "cself s \<noteq> 0"
    "\<And>x. rbrk h \<le> x \<Longrightarrow> \<not> rlive h x" using assms(2) by (auto simp: owns_def)
  show ?thesis
  proof (cases a)
    case (MInsert k v)
    from multimap_insert_correct [OF assms(1) O(1), of k v] assms(3) obtain h' s' where
      h': "multimap_insert_ref cmp h s k v = Inr (rbrk h, s', h')" "added cmp h s as k v h' s'" by auto
    let ?bs = "insert_place cmp (nkey h') (rbrk h) as"
    have A: "cont_holds cmp h' s' ?bs" "ctree s' = ctree s" "cself s' = cself s" "nkey h' = (nkey h)(rbrk h := k)" "nval h' = (nval h)(rbrk h := v)"
      "rlive h' = (rlive h)(rbrk h := True)" "rbrk h' = Suc (rbrk h)" "rroom h' = rroom h - 1" using h'(2) by (auto simp: added_def)
    have new: "\<not> L (rbrk h)" "rbrk h \<notin> insert (cself s) (insert (ctree s) (set as))" using O(6) [of "rbrk h"] unfolding O(2) by auto
    have "rlive h' = (\<lambda>x. L x \<or> x \<in> insert (cself s') (insert (ctree s') (set ?bs)))"
      unfolding A(6) O(2) insert_place_set A(2,3) by (auto simp: fun_eq_iff)
    moreover have "\<forall>x \<in> insert (cself s') (insert (ctree s') (set ?bs)). \<not> L x"
      unfolding insert_place_set A(2,3) using O(3) new(1) by auto
    moreover have "cself s' \<notin> insert (ctree s') (set ?bs)" unfolding insert_place_set A(2,3) using O(4) new(2) by auto
    moreover have "\<forall>x. rbrk h' \<le> x \<longrightarrow> \<not> rlive h' x" using O(6) A(6,7) by simp
    ultimately have "owns cmp L s' h' ?bs" unfolding owns_def using A(1,3) O(5) by simp
    moreover have "entries h' ?bs = abs_mop cmp (entries h as) a"
      unfolding MInsert by (rule entries_insert_place [OF _ A(4,5)]) (use new in simp)
    ultimately show ?thesis using h'(1) A(8) MInsert by (intro exI [of _ s'] exI [of _ h'] exI [of _ ?bs]) (simp add: multimap_insert_def)
  next
    case (MEraseKey k)
    let ?E = "filter (\<lambda>x. cmp k (nkey h x) = 0) as" and ?R = "filter (\<lambda>x. cmp k (nkey h x) \<noteq> 0) as"
    from cont_erase_key_correct [OF assms(1) O(1), of k] obtain h' s' where
      h': "cont_erase_key cmp h s k = Inr (sz (length ?E), s', h')" "cont_holds cmp h' s' ?R" "removed h s ?E h' s'" by blast
    have "owns cmp L s' h' ?R" using h'(2,3) O cont_holdsD(5) [OF O(1)] unfolding owns_def removed_def by (auto simp: fun_eq_iff)
    moreover have "entries h' ?R = abs_mop cmp (entries h as) a"
      using h'(3) by (simp add: MEraseKey removed_def entries_def filter_map o_def)
    ultimately show ?thesis using h'(1,3) MEraseKey by (intro exI [of _ s'] exI [of _ h'] exI [of _ ?R]) (simp add: removed_def)
  next
    case MClear
    let ?s = "s\<lparr>csize := 0\<rparr>"
    from cont_clear_correct [OF O(1)] obtain h' where
      h': "cont_clear h s = Inr (?s, h')" "cont_holds cmp h' ?s []" "removed h s as h' ?s" by blast
    have "owns cmp L ?s h' []" using h'(2,3) O cont_holdsD(5) [OF O(1)] unfolding owns_def removed_def by (auto simp: fun_eq_iff)
    then show ?thesis using h'(1,3) MClear by (intro exI [of _ ?s] exI [of _ h'] exI [of _ "[]"]) (simp add: removed_def entries_def)
  qed
qed

lemma run_mops_correct:
  assumes "total_cmp cmp" "owns cmp L s h as" "length ops \<le> rroom h"
  shows "\<exists>s' h' bs. rfold (run_mop cmp) (s, h) ops = Inr (s', h') \<and> owns cmp L s' h' bs \<and> entries h' bs = foldl (abs_mop cmp) (entries h as) ops"
  using assms(2,3)
proof (induction ops arbitrary: s h as)
  case (Cons a ops)
  then have "0 < rroom h" by simp
  from run_mop_correct [OF assms(1) Cons.prems(1) this, of a] obtain s1 h1 bs where
    1: "run_mop cmp (s, h) a = Inr (s1, h1)" "owns cmp L s1 h1 bs" "rroom h - 1 \<le> rroom h1" "entries h1 bs = abs_mop cmp (entries h as) a" by blast
  have "length ops \<le> rroom h1" using 1(3) Cons.prems(2) by simp
  from Cons.IH [OF 1(2) this] 1(1,4) show ?case by simp
qed auto

text \<open>
  C18: A multimap from \<open>new\<close> to \<open>delete\<close>.  With memory for its record, its head and a node for each operation,
  every sequence of \<open>insert\<close>, \<open>erase_key\<close> and \<open>clear\<close> runs without a fault; the container then holds, in order, the
  entries that the same operations on a list give; and \<open>delete\<close> leaves allocated exactly the blocks there were
  before \<open>new\<close>.
\<close>

theorem multimap_life:
  assumes "total_cmp cmp" "2 \<le> rbrk h" "\<And>x. rbrk h \<le> x \<Longrightarrow> \<not> rlive h x" "length ops + 2 \<le> rroom h"
  shows "\<exists>s h1 s' h' as h2. cont_new h = Inr (Some s, h1) \<and> rfold (run_mop cmp) (s, h1) ops = Inr (s', h') \<and>
    cont_holds cmp h' s' as \<and> entries h' as = foldl (abs_mop cmp) [] ops \<and>
    cont_delete h' (Some s') = Inr h2 \<and> rlive h2 = rlive h"
proof -
  have "\<not> rroom h < 2" using assms(4) by simp
  from cont_new_correct [OF assms(2,3), of cmp, unfolded if_not_P [OF this]] obtain h1 s where
    n: "cont_new h = Inr (Some s, h1)" "cont_holds cmp h1 s []" "cself s = rbrk h" "ctree s = Suc (rbrk h)"
      "rlive h1 = (rlive h)(cself s := True, ctree s := True)" "rbrk h1 = rbrk h + 2" "rroom h1 = rroom h - 2" by blast
  have "owns cmp (rlive h) s h1 []"
    unfolding owns_def using n(2-6) assms(2,3) by (auto simp: fun_eq_iff)
  moreover have "length ops \<le> rroom h1" using n(7) assms(4) by simp
  ultimately obtain s' h' as where
    r: "rfold (run_mop cmp) (s, h1) ops = Inr (s', h')" "owns cmp (rlive h) s' h' as" "entries h' as = foldl (abs_mop cmp) (entries h1 []) ops"
    using run_mops_correct [OF assms(1)] by blast
  have O: "cont_holds cmp h' s' as" "rlive h' = (\<lambda>x. rlive h x \<or> x \<in> insert (cself s') (insert (ctree s') (set as)))"
    "\<And>x. x \<in> insert (cself s') (insert (ctree s') (set as)) \<Longrightarrow> \<not> rlive h x" "cself s' \<notin> insert (ctree s') (set as)" "cself s' \<noteq> 0"
    using r(2) by (auto simp: owns_def)
  have "rlive h' (cself s')" using O(2) by simp
  from cont_delete_correct [OF O(1) this O(5,4)] obtain h2 where
    d: "cont_delete h' (Some s') = Inr h2" "rlive h2 = (\<lambda>x. rlive h' x \<and> x \<notin> insert (cself s') (insert (ctree s') (set as)))" by blast
  have "rlive h2 = rlive h" using d(2) O(2,3) by (auto simp: fun_eq_iff)
  then show ?thesis using n(1) r(1,3) O(1) d(1) by (auto simp: entries_def)
qed

definition fresh_heap :: "(int, int) rheap" where
  "fresh_heap = \<lparr>lft = (\<lambda>_. 0), rgt = (\<lambda>_. 0), par = (\<lambda>_. 0), clr = (\<lambda>_. COLOR_RED), nkey = (\<lambda>_. 0), nval = (\<lambda>_. 0),
     rlive = (\<lambda>_. False), rbrk = 2, rroom = 6\<rparr>"

theorem multimap_life_witness:
  "\<exists>s h1 s' h' as h2. cont_new fresh_heap = Inr (Some s, h1) \<and>
    rfold (run_mop (-)) (s, h1) [MInsert 5 50, MInsert 3 30, MInsert 5 51, MEraseKey 3] = Inr (s', h') \<and>
    entries h' as = [(5, 50), (5, 51)] \<and> cont_delete h' (Some s') = Inr h2 \<and> (\<forall>x. \<not> rlive h2 x)"
proof -
  let ?ops = "[MInsert 5 50, MInsert 3 30, MInsert 5 51, MEraseKey 3] :: (int, int) mop list"
  have "2 \<le> rbrk fresh_heap" "\<And>x. rbrk fresh_heap \<le> x \<Longrightarrow> \<not> rlive fresh_heap x" "length ?ops + 2 \<le> rroom fresh_heap"
    by (simp_all add: fresh_heap_def)
  from multimap_life [OF total_cmp_minus this] obtain s h1 s' h' as h2 where
    w: "cont_new fresh_heap = Inr (Some s, h1)" "rfold (run_mop (-)) (s, h1) ?ops = Inr (s', h')"
    "entries h' as = foldl (abs_mop (-)) [] ?ops" "cont_delete h' (Some s') = Inr h2" "rlive h2 = rlive fresh_heap" by blast
  have "entries h' as = [(5, 50), (5, 51)]" using w(3) by simp
  moreover have "\<forall>x. \<not> rlive h2 x" using w(5) by (simp add: fresh_heap_def)
  ultimately show ?thesis using w(1,2,4) by blast
qed

end
