(* ===== verification/Spec2Isabelle.thy ===== *)
theory Spec2Isabelle
  imports Prelude Interfaces Node_Store Key_Value Allocate Cstlib String_Buffers Lock_Free_Queue
    CJson CJson_Rational CJson_Printer CJson_Parser CJson_Safety Dump_Recover Command
    Trie_Tree Tcp_Server Test_Driver Exceptions File_Service
    Cstl_List Cstl_List_Correct Cstl_List_Sort Char_List
    Cstl_Block Cstl_Vector Cstl_Ring Cstl_String Cstl_String_Search
    Comparison Cstl_Algorithm Cstl_Rotate Stable_Merge Cstl_Merge Cstl_Heap
    Cstl_Rbtree Cstl_Rbtree_Shape Cstl_Rbtree_Insert Cstl_Rbtree_Order Cstl_Rbtree_Search
    Cstl_Rbtree_Erase Cstl_Rbtree_Remove Cstl_Rbtree_Clear Cstl_Map Cstl_Map_Range Cstl_Map_Spec
begin

text \<open>
  \<^bold>\<open>A model of \<open>Chinese_Word_Sepration\<close>\<close>

  The repository holds a key-value server with a text command language and the libraries it is
  built from.  Paths below are relative to \<open>src/Chinese_Word_Sepration/\<close>.

  \<^bold>\<open>The parts and how they interact.\<close>  \<open>key_value_tcp.c\<close> receives lines over libevent and gives each
  to \<open>command_parser\<close> of \<open>keyvalue.c\<close>, whose answer goes back.  The commands read and change a hash
  table of chained nodes (the same file); the JSON commands parse and print values with \<open>cJSON.c\<close>;
  \<open>dump\<close> writes the table to a file in a thread of its own and \<open>__recover\<close> reads it back at start-up.
  \<open>Test.c\<close> is the program's \<open>main\<close>.  \<open>trie-tree.c\<close> stores words in a trie whose children are small
  hash tables, and has lists of words made with \<open>cstl/list.h\<close>.  \<open>allocate.c\<close> is an allocator with
  free lists, \<open>lock_free_queue.c\<close> a queue, \<open>except.c\<close> and \<open>except.h\<close> exceptions by \<open>setjmp\<close>.
  \<open>cstl/\<close> is a library of containers written as macros.

  \<^bold>\<open>Theories and sources.\<close>
  \<^item> \<open>Prelude\<close>: faults, results (\<open>'a res\<close>), sequencing (\<open>rbind\<close>, \<open>rfold\<close>), and lemmas on lists and maps
    that several theories use; \<open>Interfaces\<close>: the locales \<open>string_map\<close>, \<open>fifo\<close> and \<open>bounded_seq\<close>, the
    contracts of the store, the queue and the array containers.
  \<^item> \<open>Cstlib\<close>, \<open>String_Buffers\<close>: the character macros of \<open>cstlib.h\<close> and the string copies that several files
    make, byte by byte in blocks of a given size.
  \<^item> \<open>Node_Store\<close>, \<open>Key_Value\<close>: the store of node blocks and the hash table of \<open>keyvalue.c\<close>.
  \<^item> \<open>Allocate\<close>: \<open>allocate.c\<close> on 32-bit addresses.
  \<^item> \<open>Lock_Free_Queue\<close>: \<open>lock_free_queue.c\<close>, for one thread and as interleaved steps.
  \<^item> \<open>CJson\<close>, \<open>CJson_Parser\<close>, \<open>CJson_Printer\<close>, \<open>CJson_Safety\<close>, \<open>CJson_Rational\<close>: \<open>cJSON.c\<close>; the last one is an
    instance of the number operations that the others take as a parameter.
  \<^item> \<open>Dump_Recover\<close>, \<open>Command\<close>: the dump file and the commands of \<open>keyvalue.c\<close>.
  \<^item> \<open>Trie_Tree\<close>, \<open>Char_List\<close>: \<open>trie-tree.c\<close>.
  \<^item> \<open>Tcp_Server\<close>, \<open>Test_Driver\<close>, \<open>File_Service\<close>, \<open>Exceptions\<close>: \<open>key_value_tcp.c\<close>, \<open>Test.c\<close>,
    \<open>file_service_thread.c\<close>, \<open>except.c\<close> with \<open>except.h\<close>.
  \<^item> \<open>Cstl_List\<close>, \<open>Cstl_List_Correct\<close>, \<open>Cstl_List_Sort\<close>: \<open>cstl/list.h\<close> over a heap of nodes.
  \<^item> \<open>Cstl_Block\<close>, \<open>Cstl_Vector\<close>, \<open>Cstl_Ring\<close>, \<open>Cstl_String\<close>, \<open>Cstl_String_Search\<close>: \<open>size_t\<close>, blocks of
    cells with \<open>memcpy\<close>, \<open>memmove\<close> and \<open>realloc\<close>, and \<open>cstl/vector.h\<close>, \<open>cstl/ring.h\<close>, \<open>cstl/string.h\<close>.
  \<^item> \<open>Cstl_Algorithm\<close>, \<open>Cstl_Rotate\<close>, \<open>Cstl_Merge\<close>, \<open>Cstl_Heap\<close>: \<open>cstl/algorithm.h\<close> on the elements of a container;
    \<open>Stable_Merge\<close>: the merge of lists that it and the list sort carry out in place; \<open>Comparison\<close>: what is asked of
    a comparison function.
  \<^item> \<open>Cstl_Rbtree\<close>: \<open>cstl/rbtree.h\<close> over a heap of nodes with parent links and colours.  \<open>Cstl_Rbtree_Shape\<close> says what
    tree a heap holds and proves the local changes on it, recolouring, rotating and replacing, in any
    context; \<open>Cstl_Rbtree_Insert\<close>, \<open>Cstl_Rbtree_Order\<close> (insertion), \<open>Cstl_Rbtree_Search\<close> (searches and iterators),
    \<open>Cstl_Rbtree_Erase\<close>, \<open>Cstl_Rbtree_Remove\<close> (erasure) and \<open>Cstl_Rbtree_Clear\<close> prove its functions correct.
  \<^item> \<open>Cstl_Map\<close>, \<open>Cstl_Map_Range\<close>, \<open>Cstl_Map_Spec\<close>: the containers of \<open>cstl/map.h\<close> and \<open>cstl/set.h\<close> on top of it, and
    what their users can rely on.

  Definitions carry the names of the functions they model.  A loop is a recursive function whose name
  ends in \<open>_loop\<close>; the state a function changes is an argument and a result.

  \<^bold>\<open>Errors.\<close>  What C leaves undefined is a fault, a value \<open>Inl f\<close>: a null pointer dereferenced, an access
  outside a block, a cell read before it is written, a block used after it was freed, a \<open>memcpy\<close>
  between overlapping regions.  Failing allocations are ordinary results; which requests fail is a
  parameter of the definitions that allocate, or the memory that is left in the state.

  \<^bold>\<open>What the lemmas show.\<close>  For each structure there is an abstraction with its invariant (\<open>kv_abs\<close>,
  \<open>dlist\<close>, \<open>vec_holds\<close>, \<open>ring_holds\<close>, \<open>str_holds\<close>, \<open>rb_at\<close>, \<open>cont_holds\<close> and so on), and each operation is shown to preserve the
  invariant and to act on the abstraction as the operation on maps, lists or strings that it
  stands for, on every branch, allocation failures included.  The contracts are then discharged by
  interpretations: the hash table for \<open>string_map\<close>, the queue for \<open>fifo\<close>, vector and ring for
  \<open>bounded_seq\<close>.  Where the code does not do this, a lemma shows an input on which it faults or what it
  does instead; \<open>text\<close> blocks say so.

  \<^bold>\<open>Bounds and fuel.\<close>  \<open>size_t\<close> values are naturals with the wrap-around written out (\<open>sz\<close>, \<open>sz_sub\<close>); the
  allocator's addresses, the hash values and the characters of \<open>cstl/string.h\<close> are words.  Loops
  whose end depends on the state take fuel; the theorems show that they return, so that the fuel is
  enough: the length of a chain for the hash table, the number of live nodes for list traversals, the
  number of cells for the moves in a ring, \<open>(str_len + 1) * (ptn_len + 1)\<close> for the searches, the length of the
  range for bisection, merges and heaps, twice that for \<open>sort\<close>, whose stack of 32 ranges is kept as it is, and for the trees the number of addresses
  given out so far, which is more than the number of nodes, or twice that to clear a tree.

  \<^bold>\<open>Not modelled.\<close>
  \<^item> libevent: its code is not in the repository, only headers.  The server theory takes the reading of a line
    and the output buffer as parameters, and the event loop as a step relation.
  \<^item> The hashed containers of \<open>cstl/\<close> (\<open>hashtable.h\<close>, \<open>unordered_map.h\<close>, \<open>unordered_set.h\<close>) and \<open>deque.h\<close>: nothing in
    the program uses them.
  \<^item> The functions of the array containers that only free the container itself, and assertions, which
    are compiled away.
  \<^item> The arithmetic of doubles and the text \<open>sprintf\<close> makes of them: a parameter of the JSON theories.
  \<^item> Output with \<open>printf\<close>, and in \<open>except.h\<close> the handlers \<open>EXCEPT\<close> and \<open>ELSE\<close>, whose macros do not expand to
    balanced braces.
\<close>

end
